(* ===== verification/Prelude.thy ===== *)
theory Prelude
  imports Main "HOL-Library.Word"
begin

text \<open>
  Shared vocabulary of the development: the C integer types, results of operations that may
  stop in an assertion, byte memory with little-endian loads and stores, loops over array
  indices, singly linked chains through a \<open>next\<close> field, and the FIFO contract that the
  packet queues of \<open>eth_queue.c\<close> and \<open>eth_mem.c\<close> share.
\<close>

unbundle bit_operations_syntax

section \<open>Machine integers and results\<close>

type_synonym u8 = "8 word"
type_synonym u16 = "16 word"
type_synonym u32 = "32 word"

named_theorems cmem \<open>loads and stores on byte memory\<close>
named_theorems res_simps \<open>sequencing of operations that may fail\<close>
named_theorems byte_simps \<open>bit-level facts on bytes and words\<close>

text \<open>\<open>Inl\<close> is the way an operation stops without a result, \<open>Inr\<close> its result.\<close>

fun bindR :: "'e + 'a \<Rightarrow> ('a \<Rightarrow> 'e + 'b) \<Rightarrow> 'e + 'b" where
  "bindR (Inl e) f = Inl e"
| "bindR (Inr x) f = f x"

lemma bindR_Inr_iff [res_simps]: "bindR m f = Inr y \<longleftrightarrow> (\<exists>x. m = Inr x \<and> f x = Inr y)"
  by (cases m) auto

lemma bindR_Inl_iff [res_simps]:
  "bindR m f = Inl e \<longleftrightarrow> m = Inl e \<or> (\<exists>x. m = Inr x \<and> f x = Inl e)"
  by (cases m) auto

lemma bindR_cong [fundef_cong]:
  "m = m' \<Longrightarrow> (\<And>x. m' = Inr x \<Longrightarrow> f x = g x) \<Longrightarrow> bindR m f = bindR m' g"
  by (cases m') auto

lemma unat_u8_less [simp]: "unat (x :: u8) < 256"
  using unsigned_less [of x] by simp

lemma unat_u8_le: "unat (x :: u8) \<le> 255"
  using unat_u8_less [of x] by linarith

lemma unat_u16_less [simp]: "unat (x :: u16) < 65536"
  using unsigned_less [of x] by simp

lemma unat_u32_less [simp]: "unat (x :: u32) < 4294967296"
  using unsigned_less [of x] by simp

lemma unat_ucast_8_16 [simp]: "unat (ucast (x :: u8) :: u16) = unat x"
  by (simp add: unsigned_ucast_eq take_bit_nat_eq_self less_trans [OF unat_u8_less])

lemma unat_ucast_8_32 [simp]: "unat (ucast (x :: u8) :: u32) = unat x"
  by (simp add: unsigned_ucast_eq take_bit_nat_eq_self less_trans [OF unat_u8_less])

lemma unat_ucast_16_32 [simp]: "unat (ucast (x :: u16) :: u32) = unat x"
  by (simp add: unsigned_ucast_eq take_bit_nat_eq_self less_trans [OF unat_u16_less])

lemma unat_ucast_16_8: "unat (ucast (x :: u16) :: u8) = unat x mod 256"
  by (simp add: unsigned_ucast_eq take_bit_eq_mod)

lemma unat_ucast_32_16: "unat (ucast (x :: u32) :: u16) = unat x mod 65536"
  by (simp add: unsigned_ucast_eq take_bit_eq_mod)

text \<open>Counters of the code are unsigned: they wrap. These two are the cases without wrap.\<close>

lemma unat_inc [simp]: "Suc (unat x) < 2 ^ LENGTH('a) \<Longrightarrow> unat (x + 1 :: 'a :: len word) = Suc (unat x)"
  by (simp add: unat_word_ariths)

lemma unat_dec [simp]: "x \<noteq> 0 \<Longrightarrow> unat (x - 1 :: 'a :: len word) = unat x - 1"
  by (rule unat_minus_one)

lemma unat_eq_one: "unat (x :: 'a :: len word) = 1 \<Longrightarrow> x = 1"
  by (metis unat_1 unsigned_word_eqI)

section \<open>Byte memory\<close>

text \<open>
  A buffer is the list of its bytes. The target is little endian (x86 and ARM Android), so a
  16-bit load takes the byte at the lower address as the low one. \<open>memcpy\<close> into a buffer is
  \<open>st_bytes\<close>.
\<close>

definition st_bytes :: "u8 list \<Rightarrow> nat \<Rightarrow> u8 list \<Rightarrow> u8 list" where
  "st_bytes m i xs = take i m @ xs @ drop (i + length xs) m"

definition ld_bytes :: "u8 list \<Rightarrow> nat \<Rightarrow> nat \<Rightarrow> u8 list" where
  "ld_bytes m i n = take n (drop i m)"

definition le16 :: "u8 \<Rightarrow> u8 \<Rightarrow> u16" where
  "le16 lo hi = push_bit 8 (ucast hi) OR ucast lo"

definition bytes16 :: "u16 \<Rightarrow> u8 list" where
  "bytes16 w = [ucast w, ucast (drop_bit 8 w)]"

definition le32 :: "u8 \<Rightarrow> u8 \<Rightarrow> u8 \<Rightarrow> u8 \<Rightarrow> u32" where
  "le32 a b c d = push_bit 24 (ucast d) OR push_bit 16 (ucast c) OR push_bit 8 (ucast b) OR ucast a"

definition bytes32 :: "u32 \<Rightarrow> u8 list" where
  "bytes32 w = [ucast w, ucast (drop_bit 8 w), ucast (drop_bit 16 w), ucast (drop_bit 24 w)]"

definition ld16 :: "u8 list \<Rightarrow> nat \<Rightarrow> u16" where
  "ld16 m i = le16 (m ! i) (m ! (i + 1))"

definition ld32 :: "u8 list \<Rightarrow> nat \<Rightarrow> u32" where
  "ld32 m i = le32 (m ! i) (m ! (i + 1)) (m ! (i + 2)) (m ! (i + 3))"

definition st16 :: "u8 list \<Rightarrow> nat \<Rightarrow> u16 \<Rightarrow> u8 list" where
  "st16 m i w = st_bytes m i (bytes16 w)"

definition st32 :: "u8 list \<Rightarrow> nat \<Rightarrow> u32 \<Rightarrow> u8 list" where
  "st32 m i w = st_bytes m i (bytes32 w)"

lemma length_st_bytes [cmem, simp]:
  "i + length xs \<le> length m \<Longrightarrow> length (st_bytes m i xs) = length m"
  by (simp add: st_bytes_def)

lemma nth_st_bytes [cmem]:
  "i + length xs \<le> length m \<Longrightarrow> j < length m \<Longrightarrow>
   st_bytes m i xs ! j = (if i \<le> j \<and> j < i + length xs then xs ! (j - i) else m ! j)"
  by (auto simp: st_bytes_def nth_append min_def)

lemma take_st_bytes_before [cmem]:
  "n \<le> i \<Longrightarrow> i \<le> length m \<Longrightarrow> take n (st_bytes m i xs) = take n m"
  by (simp add: st_bytes_def min_absorb1)

lemma take_st_bytes_end [cmem]:
  "i \<le> length m \<Longrightarrow> take (i + length xs) (st_bytes m i xs) = take i m @ xs"
  by (simp add: st_bytes_def min_absorb2)

lemma st_bytes_seq:
  "i + length a + length b \<le> length m \<Longrightarrow> st_bytes (st_bytes m i a) (i + length a) b = st_bytes m i (a @ b)"
  by (auto simp: st_bytes_def min_absorb2 ac_simps)

lemma list_update_st_bytes: "i < length m \<Longrightarrow> m[i := b] = st_bytes m i [b]"
  by (simp add: st_bytes_def upd_conv_take_nth_drop)

lemma ld_st_bytes_same [cmem]:
  "i \<le> length m \<Longrightarrow> ld_bytes (st_bytes m i xs) i (length xs) = xs"
  by (simp add: ld_bytes_def st_bytes_def)

lemma length_bytes16 [simp]: "length (bytes16 w) = 2"
  by (simp add: bytes16_def)

lemma length_bytes32 [simp]: "length (bytes32 w) = 4"
  by (simp add: bytes32_def)

lemma bit_u8_ge [simp]: "8 \<le> n \<Longrightarrow> \<not> bit (x :: u8) n"
  using bit_imp_le_length [of x n] by auto

lemma bit_u16_ge [simp]: "16 \<le> n \<Longrightarrow> \<not> bit (x :: u16) n"
  using bit_imp_le_length [of x n] by auto

lemma bit_u32_ge [simp]: "32 \<le> n \<Longrightarrow> \<not> bit (x :: u32) n"
  using bit_imp_le_length [of x n] by auto

lemma le16_bytes16 [byte_simps]: "le16 (ucast w) (ucast (drop_bit 8 w)) = w"
  by (rule bit_word_eqI) (auto simp: le16_def bit_simps)

lemma le32_bytes32 [byte_simps]:
  "le32 (ucast w) (ucast (drop_bit 8 w)) (ucast (drop_bit 16 w)) (ucast (drop_bit 24 w)) = w"
proof (rule bit_word_eqI)
  fix n :: nat
  assume "n < LENGTH(32)"
  then consider "n < 8" | "8 \<le> n" "n < 16" | "16 \<le> n" "n < 24" | "24 \<le> n" "n < 32"
    by fastforce
  then show "bit (le32 (ucast w) (ucast (drop_bit 8 w)) (ucast (drop_bit 16 w)) (ucast (drop_bit 24 w))) n
      = bit w n"
    by cases (auto simp: le32_def bit_simps)
qed

lemma bytes16_le16 [byte_simps]: "bytes16 (le16 a b) = [a, b]"
  by (auto simp: bytes16_def le16_def bit_simps intro!: bit_word_eqI)

lemma unat_le16: "unat (le16 a b) = unat a + 256 * unat b"
proof -
  have "le16 a b = push_bit 8 (ucast b) + ucast a"
    unfolding le16_def by (rule disjunctive_add_eq_or [symmetric]) (auto simp: bit_eq_iff bit_simps)
  then have "le16 a b = of_nat (unat a + 256 * unat b)" by (simp add: push_bit_eq_mult ac_simps)
  moreover have "unat a + 256 * unat b < 65536" using unat_u8_le [of a] unat_u8_le [of b] by linarith
  ultimately show ?thesis by (simp only: unat_of_nat) simp
qed

lemma ld16_st16_same [cmem]: "i + 2 \<le> length m \<Longrightarrow> ld16 (st16 m i w) i = w"
  by (simp add: ld16_def st16_def nth_st_bytes bytes16_def byte_simps)

lemma ld32_st32_same [cmem]: "i + 4 \<le> length m \<Longrightarrow> ld32 (st32 m i w) i = w"
  by (simp add: ld32_def st32_def nth_st_bytes bytes32_def byte_simps nth_Cons')

lemma length_st16 [cmem, simp]: "i + 2 \<le> length m \<Longrightarrow> length (st16 m i w) = length m"
  by (simp add: st16_def)

lemma length_st32 [cmem, simp]: "i + 4 \<le> length m \<Longrightarrow> length (st32 m i w) = length m"
  by (simp add: st32_def)

lemma nth_st16_other [cmem]:
  "i + 2 \<le> length m \<Longrightarrow> j < length m \<Longrightarrow> j < i \<or> i + 2 \<le> j \<Longrightarrow> st16 m i w ! j = m ! j"
  by (auto simp: st16_def nth_st_bytes)

lemma nth_st32_other [cmem]:
  "i + 4 \<le> length m \<Longrightarrow> j < length m \<Longrightarrow> j < i \<or> i + 4 \<le> j \<Longrightarrow> st32 m i w ! j = m ! j"
  by (auto simp: st32_def nth_st_bytes)

lemma ld16_st16_other [cmem]:
  "i + 2 \<le> length m \<Longrightarrow> j + 2 \<le> length m \<Longrightarrow> j + 2 \<le> i \<or> i + 2 \<le> j \<Longrightarrow>
   ld16 (st16 m i w) j = ld16 m j"
  by (auto simp: ld16_def nth_st16_other)

lemma ld16_st32_other [cmem]:
  "i + 4 \<le> length m \<Longrightarrow> j + 2 \<le> length m \<Longrightarrow> j + 2 \<le> i \<or> i + 4 \<le> j \<Longrightarrow>
   ld16 (st32 m i w) j = ld16 m j"
  by (auto simp: ld16_def nth_st32_other)

lemma ld32_st16_other [cmem]:
  "i + 2 \<le> length m \<Longrightarrow> j + 4 \<le> length m \<Longrightarrow> j + 4 \<le> i \<or> i + 2 \<le> j \<Longrightarrow>
   ld32 (st16 m i w) j = ld32 m j"
  by (auto simp: ld32_def nth_st16_other)

lemma ld32_st32_other [cmem]:
  "i + 4 \<le> length m \<Longrightarrow> j + 4 \<le> length m \<Longrightarrow> j + 4 \<le> i \<or> i + 4 \<le> j \<Longrightarrow>
   ld32 (st32 m i w) j = ld32 m j"
  by (auto simp: ld32_def nth_st32_other)

section \<open>Loops over array indices\<close>

text \<open>\<open>for (i = lo; i < lo + n; i++) if (P i) return i;\<close>\<close>

fun first_index :: "(nat \<Rightarrow> bool) \<Rightarrow> nat \<Rightarrow> nat \<Rightarrow> nat option" where
  "first_index P lo 0 = None"
| "first_index P lo (Suc n) = (if P lo then Some lo else first_index P (Suc lo) n)"

lemma first_index_Some:
  "first_index P lo n = Some i \<longleftrightarrow> lo \<le> i \<and> i < lo + n \<and> P i \<and> (\<forall>j. lo \<le> j \<and> j < i \<longrightarrow> \<not> P j)"
proof (induction n arbitrary: lo)
  case 0
  show ?case by simp
next
  case (Suc n)
  show ?case
  proof (cases "P lo")
    case True
    then show ?thesis by (auto simp: not_less_eq_eq intro: le_antisym)
  next
    case False
    have "(\<forall>j. lo \<le> j \<and> j < i \<longrightarrow> \<not> P j) \<longleftrightarrow> (\<forall>j. Suc lo \<le> j \<and> j < i \<longrightarrow> \<not> P j)"
      using False by (metis Suc_leD Suc_leI order_le_less)
    with False Suc.IH [of "Suc lo"] show ?thesis
      by (auto simp: Suc_le_eq order_le_less)
  qed
qed

lemma first_index_None: "first_index P lo n = None \<longleftrightarrow> (\<forall>i. lo \<le> i \<and> i < lo + n \<longrightarrow> \<not> P i)"
proof (induction n arbitrary: lo)
  case 0
  show ?case by simp (meson leD)
next
  case (Suc n)
  have "(\<forall>i. lo \<le> i \<and> i < lo + Suc n \<longrightarrow> \<not> P i) \<longleftrightarrow>
      \<not> P lo \<and> (\<forall>i. Suc lo \<le> i \<and> i < Suc lo + n \<longrightarrow> \<not> P i)"
    by (auto simp: Suc_le_eq) (metis order_le_less)
  then show ?case using Suc.IH [of "Suc lo"] by auto
qed

lemma first_index_less: "first_index P lo n = Some i \<Longrightarrow> i < lo + n"
  by (simp add: first_index_Some)

lemma first_index_holds: "first_index P lo n = Some i \<Longrightarrow> P i"
  by (simp add: first_index_Some)

section \<open>Chains through a next field\<close>

text \<open>
  A pointer into an array of structures is the index of the structure, \<open>None\<close> is NULL.
  \<open>chain nx p is\<close> says that following \<open>nx\<close> from \<open>p\<close> visits exactly the cells \<open>is\<close>
  and ends in NULL.
\<close>

primrec chain :: "(nat \<Rightarrow> nat option) \<Rightarrow> nat option \<Rightarrow> nat list \<Rightarrow> bool" where
  "chain nx p [] \<longleftrightarrow> p = None"
| "chain nx p (i # is) \<longleftrightarrow> p = Some i \<and> chain nx (nx i) is"

lemma chain_None [simp]: "chain nx None is \<longleftrightarrow> is = []"
  by (cases "is") auto

lemma chain_Some: "chain nx (Some i) is \<longleftrightarrow> (\<exists>js. is = i # js \<and> chain nx (nx i) js)"
  by (cases "is") auto

lemma chain_cong: "(\<And>i. i \<in> set is \<Longrightarrow> nx i = nx' i) \<Longrightarrow> chain nx p is = chain nx' p is"
  by (induction "is" arbitrary: p) auto

lemma chain_upd [simp]: "i \<notin> set is \<Longrightarrow> chain (nx(i := q)) p is = chain nx p is"
  by (rule chain_cong) auto

lemma chain_unique: "chain nx p xs \<Longrightarrow> chain nx p ys \<Longrightarrow> xs = ys"
proof (induction xs arbitrary: p ys)
  case Nil
  then show ?case by (cases ys) auto
next
  case (Cons x xs)
  then show ?case by (cases ys) auto
qed

lemma chain_last_None: "chain nx p xs \<Longrightarrow> xs \<noteq> [] \<Longrightarrow> nx (last xs) = None"
  by (induction xs arbitrary: p) auto

lemma chain_snoc:
  "chain nx p xs \<Longrightarrow> distinct xs \<Longrightarrow> i \<notin> set xs \<Longrightarrow> nx i = None \<Longrightarrow> xs \<noteq> [] \<Longrightarrow>
   chain (nx(last xs := Some i)) p (xs @ [i])"
proof (induction xs arbitrary: p)
  case Nil
  then show ?case by simp
next
  case (Cons x xs)
  then show ?case
    by (cases "xs = []") auto
qed

text \<open>
  Appending at the end pointer and taking from the begin pointer: the two pieces of pointer
  code that every queue of the program repeats.
\<close>

definition last_opt :: "nat list \<Rightarrow> nat option" where
  "last_opt xs = (if xs = [] then None else Some (last xs))"

lemma last_opt_simps [simp]: "last_opt [] = None" "last_opt (xs @ [x]) = Some x"
  by (simp_all add: last_opt_def)

lemma last_opt_Cons: "last_opt (x # xs) = (if xs = [] then Some x else last_opt xs)"
  by (simp add: last_opt_def)

lemma last_opt_eq_None [simp]: "last_opt xs = None \<longleftrightarrow> xs = []"
  by (simp add: last_opt_def)

section \<open>The FIFO contract\<close>

text \<open>
  \<open>rep s xs\<close> relates a state to the packets in its queue, \<open>ready s x\<close> says that \<open>x\<close> may be
  handed to the queue. An implementation promises the five laws; the client facts below follow
  from them for every queue of the program.
\<close>

locale fifo =
  fixes rep :: "'s \<Rightarrow> nat list \<Rightarrow> bool"
    and ready :: "'s \<Rightarrow> nat \<Rightarrow> bool"
    and enq :: "nat \<Rightarrow> 's \<Rightarrow> 's"
    and deq :: "'s \<Rightarrow> nat option \<times> 's"
  assumes enq_rep: "rep s xs \<Longrightarrow> ready s x \<Longrightarrow> x \<notin> set xs \<Longrightarrow> rep (enq x s) (xs @ [x])"
    and enq_ready: "ready s y \<Longrightarrow> ready (enq x s) y"
    and deq_empty: "rep s [] \<Longrightarrow> deq s = (None, s)"
    and deq_first: "rep s (x # xs) \<Longrightarrow> fst (deq s) = Some x"
    and deq_rep: "rep s (x # xs) \<Longrightarrow> rep (snd (deq s)) xs"
begin

primrec enq_all :: "nat list \<Rightarrow> 's \<Rightarrow> 's" where
  "enq_all [] s = s"
| "enq_all (x # xs) s = enq_all xs (enq x s)"

primrec deq_n :: "nat \<Rightarrow> 's \<Rightarrow> nat option list" where
  "deq_n 0 s = []"
| "deq_n (Suc n) s = fst (deq s) # deq_n n (snd (deq s))"

lemma enq_all_rep:
  "rep s xs \<Longrightarrow> (\<forall>y \<in> set ys. ready s y) \<Longrightarrow> distinct (xs @ ys) \<Longrightarrow> rep (enq_all ys s) (xs @ ys)"
proof (induction ys arbitrary: s xs)
  case Nil
  then show ?case by simp
next
  case (Cons y ys)
  then have "rep (enq y s) (xs @ [y])"
    by (intro enq_rep) auto
  moreover have "\<forall>z \<in> set ys. ready (enq y s) z"
    using Cons.prems(2) by (auto intro: enq_ready)
  ultimately have "rep (enq_all ys (enq y s)) ((xs @ [y]) @ ys)"
    using Cons.prems(3) by (intro Cons.IH) auto
  then show ?case by simp
qed

lemma deq_n_rep: "rep s xs \<Longrightarrow> deq_n (length xs) s = map Some xs"
proof (induction xs arbitrary: s)
  case Nil
  then show ?case by simp
next
  case (Cons x xs)
  then show ?case
    using deq_first [OF Cons.prems] deq_rep [OF Cons.prems] by simp
qed

lemma fifo_order:
  assumes "rep s []" and "\<forall>y \<in> set ys. ready s y" and "distinct ys"
  shows "deq_n (length ys) (enq_all ys s) = map Some ys"
  using deq_n_rep enq_all_rep [of s "[]" ys] assms by fastforce

lemma deq_none_iff: "rep s xs \<Longrightarrow> fst (deq s) = None \<longleftrightarrow> xs = []"
  using deq_empty [of s] deq_first [of s] by (cases xs) auto

end

end
