(* ===== verification/XLib.thy ===== *)
theory XLib
  imports Prelude
begin

text \<open>
  \<open>xlib.c\<close>: the tick counter and the task notifications. A notification handle holds an atomic
  set of bits and a semaphore; \<open>TNotifyAdd\<close> sets bits and posts, \<open>TNotifyWait\<close> waits and
  takes all bits. The two library calls inside each operation are separate atomic steps, so the
  last section models them as a step relation of any number of threads.
\<close>

text \<open>
  \<open>gettimeofday\<close> returns seconds and microseconds; the tick count is truncated to 32 bits. The sum is formed in a \<open>long\<close>;
  where that has 32 bits it wraps (signed overflow) to the same 32 bits.
\<close>

definition xTaskGetTickCount :: "int \<Rightarrow> int \<Rightarrow> u32" where
  "xTaskGetTickCount tv_sec tv_usec = word_of_int (tv_sec * 1000 + tv_usec div 1000)"

record NHandle =
  nh_val :: u32
  nh_sem :: nat

definition TNotifyCreate :: NHandle where
  "TNotifyCreate = \<lparr>nh_val = 0, nh_sem = 0\<rparr>"

definition TNotifyAdd :: "u32 \<Rightarrow> NHandle \<Rightarrow> NHandle" where
  "TNotifyAdd v h = h\<lparr>nh_val := nh_val h OR v, nh_sem := Suc (nh_sem h)\<rparr>"

text \<open>\<open>None\<close>: the caller sleeps in \<open>sem_wait\<close>.\<close>

definition TNotifyWait :: "NHandle \<Rightarrow> (u32 \<times> NHandle) option" where
  "TNotifyWait h =
     (if nh_sem h = 0 then None else Some (nh_val h, h\<lparr>nh_val := 0, nh_sem := nh_sem h - 1\<rparr>))"

section \<open>Interleaved notifications\<close>

text \<open>
  \<open>nt_posting\<close> counts the threads between \<open>atomic_fetch_or\<close> and \<open>sem_post\<close>, \<open>nt_taking\<close> the
  waiters between \<open>sem_wait\<close> and \<open>atomic_exchange\<close>. \<open>nt_added\<close> and \<open>nt_delivered\<close> record the
  bits ever added and ever returned by a wait.
\<close>

record nt_state =
  nt_handle :: NHandle
  nt_posting :: nat
  nt_taking :: nat
  nt_added :: u32
  nt_delivered :: u32

definition nt_init :: nt_state where
  "nt_init = \<lparr>nt_handle = TNotifyCreate, nt_posting = 0, nt_taking = 0, nt_added = 0, nt_delivered = 0\<rparr>"

inductive nt_step :: "nt_state \<Rightarrow> nt_state \<Rightarrow> bool" where
  fetch_or: "nt_step s (s\<lparr>nt_handle := (nt_handle s)\<lparr>nh_val := nh_val (nt_handle s) OR v\<rparr>,
       nt_posting := Suc (nt_posting s), nt_added := nt_added s OR v\<rparr>)"
| sem_post: "0 < nt_posting s \<Longrightarrow>
     nt_step s (s\<lparr>nt_handle := (nt_handle s)\<lparr>nh_sem := Suc (nh_sem (nt_handle s))\<rparr>,
       nt_posting := nt_posting s - 1\<rparr>)"
| sem_wait: "0 < nh_sem (nt_handle s) \<Longrightarrow>
     nt_step s (s\<lparr>nt_handle := (nt_handle s)\<lparr>nh_sem := nh_sem (nt_handle s) - 1\<rparr>,
       nt_taking := Suc (nt_taking s)\<rparr>)"
| exchange: "0 < nt_taking s \<Longrightarrow>
     nt_step s (s\<lparr>nt_handle := (nt_handle s)\<lparr>nh_val := 0\<rparr>, nt_taking := nt_taking s - 1,
       nt_delivered := nt_delivered s OR nh_val (nt_handle s)\<rparr>)"

inductive nt_reachable :: "nt_state \<Rightarrow> bool" where
  nt_start: "nt_reachable nt_init"
| nt_next: "nt_reachable s \<Longrightarrow> nt_step s t \<Longrightarrow> nt_reachable t"

inductive_simps nt_step_iff: "nt_step s t"

text \<open>
  The two facts every step keeps: no added bit is lost, and pending bits imply that some thread
  is on its way to deliver them (a post pending or available, or a waiter already past the
  semaphore).
\<close>

definition nt_inv :: "nt_state \<Rightarrow> bool" where
  "nt_inv s \<longleftrightarrow> nt_added s = nt_delivered s OR nh_val (nt_handle s) \<and>
     (nh_val (nt_handle s) \<noteq> 0 \<longrightarrow> 0 < nh_sem (nt_handle s) + nt_posting s + nt_taking s)"

lemma nt_inv_init: "nt_inv nt_init"
  by (simp add: nt_inv_def nt_init_def TNotifyCreate_def)

lemma nt_inv_step: "nt_step s t \<Longrightarrow> nt_inv s \<Longrightarrow> nt_inv t"
  by (induction rule: nt_step.induct) (auto simp: nt_inv_def or.assoc)

lemma nt_reachable_inv: "nt_reachable s \<Longrightarrow> nt_inv s"
  by (induction rule: nt_reachable.induct) (auto intro: nt_inv_init nt_inv_step)

text \<open>The whole operations are runs of these steps: an add is two steps, a wait the other two.\<close>

definition nt_added_state :: "u32 \<Rightarrow> nt_state \<Rightarrow> nt_state" where
  "nt_added_state v s = s\<lparr>nt_handle := TNotifyAdd v (nt_handle s), nt_added := nt_added s OR v\<rparr>"

definition nt_waited_state :: "nt_state \<Rightarrow> nt_state" where
  "nt_waited_state s = s\<lparr>nt_handle := snd (the (TNotifyWait (nt_handle s))),
     nt_delivered := nt_delivered s OR fst (the (TNotifyWait (nt_handle s)))\<rparr>"

lemma nt_add_reachable:
  assumes "nt_reachable s"
  shows "nt_reachable (nt_added_state v s)"
proof -
  note nt_next [OF assms nt_step.fetch_or [of s v]]
  from nt_next [OF this nt_step.sem_post] show ?thesis
    by (cases s; cases "nt_handle s") (simp add: nt_added_state_def TNotifyAdd_def)
qed

lemma nt_wait_reachable:
  assumes "nt_reachable s" and "TNotifyWait (nt_handle s) \<noteq> None"
  shows "nt_reachable (nt_waited_state s)"
proof -
  have "0 < nh_sem (nt_handle s)"
    using assms(2) by (simp add: TNotifyWait_def split: if_splits)
  note nt_next [OF assms(1) nt_step.sem_wait [OF this]]
  from nt_next [OF this nt_step.exchange] show ?thesis
    using \<open>0 < nh_sem (nt_handle s)\<close>
    by (cases s; cases "nt_handle s") (simp add: nt_waited_state_def TNotifyWait_def)
qed

text \<open>
  C22: no wake-up is lost. In every reachable interleaving of \<open>TNotifyAdd\<close> and \<open>TNotifyWait\<close>
  calls of any number of threads, once no thread is inside either call and a waiter would sleep
  (the semaphore is 0), every bit that was ever added has been returned by a wait.
\<close>

theorem TNotify_no_lost_wakeup:
  assumes "nt_reachable s" and "nt_posting s = 0" and "nt_taking s = 0"
    and "TNotifyWait (nt_handle s) = None"
  shows "nt_delivered s = nt_added s \<and> nh_val (nt_handle s) = 0"
proof -
  have "nh_sem (nt_handle s) = 0"
    using assms(4) by (simp add: TNotifyWait_def split: if_splits)
  with nt_reachable_inv [OF assms(1)] assms(2,3) show ?thesis
    by (auto simp: nt_inv_def)
qed

text \<open>The witness: two adds, then two waits; the first wait returns both bits.\<close>

theorem TNotify_no_lost_wakeup_witness:
  "let s = nt_waited_state (nt_waited_state (nt_added_state 4 (nt_added_state 1 nt_init)))
   in nt_reachable s \<and> nt_added s = 5 \<and> nt_delivered s = nt_added s"
proof -
  let ?a = "nt_added_state 4 (nt_added_state 1 nt_init)"
  have a: "nt_reachable ?a"
    by (intro nt_add_reachable nt_start)
  have b: "nt_reachable (nt_waited_state ?a)"
    by (rule nt_wait_reachable [OF a])
      (simp add: nt_added_state_def nt_init_def TNotifyCreate_def TNotifyAdd_def TNotifyWait_def)
  have c: "nt_reachable (nt_waited_state (nt_waited_state ?a))"
    by (rule nt_wait_reachable [OF b])
      (simp add: nt_waited_state_def nt_added_state_def nt_init_def TNotifyCreate_def TNotifyAdd_def
        TNotifyWait_def)
  note eval = nt_waited_state_def nt_added_state_def nt_init_def TNotifyCreate_def TNotifyAdd_def
    TNotifyWait_def
  have "nt_delivered (nt_waited_state (nt_waited_state ?a)) = nt_added (nt_waited_state (nt_waited_state ?a))"
    using TNotify_no_lost_wakeup [OF c] by (simp add: eval)
  then show ?thesis
    using c by (simp add: Let_def) (simp add: eval)
qed

end
