(* ===== verification/EthMem.thy ===== *)
theory EthMem
  imports XLib
begin

text \<open>
  \<open>eth_mem.h\<close> and \<open>eth_mem.c\<close>: the packet buffers (\<open>ETH_PBUF\<close>), the queue cells
  (\<open>ETH_QUEUE\<close>) and the network interfaces (\<open>ETH_NETIF\<close>) of the Ethernet bridge. Buffers and
  cells live in two arrays; every list of them runs through a \<open>next\<close> field, so a pointer is an
  array index. The program has one pool and one buffer control structure
  (\<open>xeth_queuepool_ctrl\<close>, \<open>xeth_pbuf_ctrl\<close>); their fields are fields of the state \<open>em\<close>.
  \<open>EM_ASSERT(x)\<close> records \<open>x\<close> and loops forever: it is the error value \<open>EM_ASSERT x\<close>.
\<close>

section \<open>Data\<close>

abbreviation (input) "ETH_MEM_BUFS_CNT \<equiv> 100 :: nat"
abbreviation (input) "ETH_PBUFS_CNT \<equiv> 400 :: nat"
abbreviation (input) "ETH_MEM_BUF_SIZE \<equiv> 1600 :: nat"
abbreviation (input) "ETH_NETIFS \<equiv> 4 :: nat"
abbreviation (input) "LWIP_NETIF_ID \<equiv> 1 :: nat"
abbreviation (input) "TEST_NETIF_ID \<equiv> 2 :: nat"
abbreviation (input) "BLE_NETIF_ID \<equiv> 3 :: nat"
abbreviation (input) "LWIP_NETIF_QLEN \<equiv> 20 :: u32"
abbreviation (input) "BLE_NETIF_QLEN \<equiv> 20 :: u32"
abbreviation (input) "IN_BLE_NETIF_QLEN_THR \<equiv> 3 :: u32"

abbreviation (input) "PBUF_FLAG_IS_CUSTOM \<equiv> 2 :: u8"
abbreviation (input) "taskNOTIFY_NEW_FREE_P_REQUEST \<equiv> 1 :: u32"
abbreviation (input) "taskNOTIFY_NEW_P_REQUEST \<equiv> 4 :: u32"
abbreviation (input) "taskNOTIFY_ROUTER_Q_UPDATE \<equiv> 16 :: u32"

text \<open>\<open>LWIP_ASSERT\<close> is a failed assertion of lwIP, which aborts; \<open>BAD_MEMCPY\<close> a copy of negative length. \<open>OUT_OF_FUEL\<close> is not an outcome of the code: it marks a loop of the model cut short.\<close>

datatype em_error = EM_ASSERT nat | LWIP_ASSERT | NULL_DEREF | BAD_MEMCPY | OUT_OF_FUEL

text \<open>
  \<open>pb_mem\<close> are the bytes behind \<open>default_payload\<close>, \<open>pb_off\<close> is the distance of \<open>payload\<close> from
  \<open>default_payload\<close> (lwIP moves \<open>payload\<close> when it strips headers).
\<close>

record ETH_PBUF =
  pb_next :: "nat option"
  pb_mem :: "u8 list"
  pb_off :: nat
  pb_tot_len :: u16
  pb_len :: u16
  pb_type_internal :: u8
  pb_flags :: u8
  pb_ref :: u8
  pb_if_idx :: u8
  pb_src_if :: u8

datatype q_state = St_free | St_allocated | St_in_queue | St_sending | St_free_pending

text \<open>The \<open>pbuf\<close> pointer of a cell that has never been filled is \<open>ETH_PBUFS_CNT\<close>, no buffer's index.\<close>

record ETH_QUEUE =
  q_next :: "nat option"
  q_pbuf :: nat
  q_st :: q_state

record ETH_MEM_STATS =
  qpool_alloc_fails :: u32
  eth_pbuf_alloc_fails :: u32
  eth_pbuf_alloc_delayed :: u32
  eth_pbuf_alloc_delay_cbks :: u32

record NOMEM_CALLBACK =
  cb_next_p :: "nat option"
  cb_src_interface_id :: u8
  cb_wait_active :: u8

text \<open>
  The two packet callbacks and the one queue callback the program installs. A call of a function
  pointer is recorded in \<open>em_calls\<close>, in order, with its arguments; the theories of the modules
  that own the callbacks say what the calls do.
\<close>

datatype pkt_callback = Lwip_callback_from_bridge | Ble_callback_from_bridge

datatype q_callback = Ble_callback_qlen

datatype em_call =
    Call_packet pkt_callback nat nat
  | Call_nomem nat nat
  | Call_q_update q_callback nat u32

record ETH_NETIF =
  q_output_end :: "nat option"
  q_output_begin :: "nat option"
  q_output_len :: u32
  q_output_len_max :: u32
  q_output_size :: u32
  nif_callback_fn :: "pkt_callback option"
  q_update_cbk :: "q_callback option"
  if_up :: u8
  callback_pending :: u8
  dgrams_in :: u32
  dgrams_out :: u32
  dgrams_lost :: u32
  input_queue_len :: u32

text \<open>\<open>struct ETH_PBUF_CTRL\<close> (prefix \<open>pc_\<close>) and \<open>struct ETH_QUEUEPOOL_CTRL\<close>, with the arrays they manage.\<close>

record em =
  pbufs :: "nat \<Rightarrow> ETH_PBUF"
  queues :: "nat \<Rightarrow> ETH_QUEUE"
  netifs :: "nat \<Rightarrow> ETH_NETIF"
  cbs :: "nat \<Rightarrow> NOMEM_CALLBACK"
  pc_free_chain :: "nat option"
  pc_used :: u32
  pc_used_max :: u32
  q_begin :: "nat option"
  nopbuf_q_end :: "nat option"
  nopbuf_q_begin :: "nat option"
  free_pbuf_q_end :: "nat option"
  free_pbuf_q_begin :: "nat option"
  q_input_end :: "nat option"
  q_input_begin :: "nat option"
  q_input_used :: u32
  q_input_used_max :: u32
  pool_used :: u32
  pool_used_max :: u32
  pool_alloc_fails :: u32
  em_notify :: NHandle
  em_stats :: ETH_MEM_STATS
  em_calls :: "em_call list"

definition upd_pb :: "nat \<Rightarrow> (ETH_PBUF \<Rightarrow> ETH_PBUF) \<Rightarrow> em \<Rightarrow> em" where
  "upd_pb p f s = s\<lparr>pbufs := (pbufs s)(p := f (pbufs s p))\<rparr>"

definition upd_q :: "nat \<Rightarrow> (ETH_QUEUE \<Rightarrow> ETH_QUEUE) \<Rightarrow> em \<Rightarrow> em" where
  "upd_q c f s = s\<lparr>queues := (queues s)(c := f (queues s c))\<rparr>"

definition upd_nif :: "nat \<Rightarrow> (ETH_NETIF \<Rightarrow> ETH_NETIF) \<Rightarrow> em \<Rightarrow> em" where
  "upd_nif k f s = s\<lparr>netifs := (netifs s)(k := f (netifs s k))\<rparr>"

definition upd_cb :: "nat \<Rightarrow> (NOMEM_CALLBACK \<Rightarrow> NOMEM_CALLBACK) \<Rightarrow> em \<Rightarrow> em" where
  "upd_cb c f s = s\<lparr>cbs := (cbs s)(c := f (cbs s c))\<rparr>"

definition em_notify_add :: "u32 \<Rightarrow> em \<Rightarrow> em" where
  "em_notify_add v s = s\<lparr>em_notify := TNotifyAdd v (em_notify s)\<rparr>"

definition em_call_log :: "em_call \<Rightarrow> em \<Rightarrow> em" where
  "em_call_log c s = s\<lparr>em_calls := em_calls s @ [c]\<rparr>"

lemmas em_upd_defs = upd_pb_def upd_q_def upd_nif_def upd_cb_def em_notify_add_def em_call_log_def

section \<open>Packet buffers\<close>

definition do_eth_pbuf_alloc :: "nat option \<Rightarrow> em \<Rightarrow> nat option \<times> em" where
  "do_eth_pbuf_alloc cb s =
     (case pc_free_chain s of
        None \<Rightarrow>
          (case cb of
             None \<Rightarrow> (None, s\<lparr>em_stats := (em_stats s)\<lparr>eth_pbuf_alloc_fails := eth_pbuf_alloc_fails (em_stats s) + 1\<rparr>\<rparr>)
           | Some c \<Rightarrow>
               if cb_wait_active (cbs s c) \<noteq> 0 then (None, s)
               else
                 let s = s\<lparr>em_stats := (em_stats s)\<lparr>eth_pbuf_alloc_delayed := eth_pbuf_alloc_delayed (em_stats s) + 1\<rparr>\<rparr>;
                     s = upd_cb c (\<lambda>r. r\<lparr>cb_next_p := None\<rparr>) s;
                     s = (case nopbuf_q_end s of
                            Some e \<Rightarrow> upd_cb e (\<lambda>r. r\<lparr>cb_next_p := Some c\<rparr>) s
                          | None \<Rightarrow> s\<lparr>nopbuf_q_begin := Some c\<rparr>);
                     s = s\<lparr>nopbuf_q_end := Some c\<rparr>
                 in (None, upd_cb c (\<lambda>r. r\<lparr>cb_wait_active := 1\<rparr>) s))
      | Some p \<Rightarrow>
          let s = s\<lparr>pc_free_chain := pb_next (pbufs s p), pc_used := pc_used s + 1\<rparr>;
              s = (if pc_used_max s < pc_used s then s\<lparr>pc_used_max := pc_used s\<rparr> else s)
          in (Some p, upd_pb p (\<lambda>b. b\<lparr>pb_next := None\<rparr>) s))"

text \<open>
  With a callback an empty pool gives NULL. Without one the code goes on to \<open>p->pbuf.if_idx=0\<close>
  with \<open>p\<close> NULL.
\<close>

definition eth_pbuf_alloc :: "nat option \<Rightarrow> em \<Rightarrow> em_error + nat option \<times> em" where
  "eth_pbuf_alloc cb s =
     (case do_eth_pbuf_alloc cb s of
        (None, s) \<Rightarrow>
          (case cb of
             Some c \<Rightarrow> Inr (None, em_notify_add taskNOTIFY_NEW_P_REQUEST s)
           | None \<Rightarrow> Inl NULL_DEREF)
      | (Some p, s) \<Rightarrow>
          let idx = (case cb of Some c \<Rightarrow> cb_src_interface_id (cbs s c) | None \<Rightarrow> 0)
          in Inr (Some p, upd_pb p (\<lambda>b. b\<lparr>pb_if_idx := idx, pb_ref := 1, pb_type_internal := 0,
                    pb_flags := PBUF_FLAG_IS_CUSTOM, pb_off := 0\<rparr>) s))"

definition eth_pbuf_free_request :: "nat \<Rightarrow> em \<Rightarrow> em_error + em" where
  "eth_pbuf_free_request p s =
     (if 1 < pb_ref (pbufs s p) then Inr (upd_pb p (\<lambda>b. b\<lparr>pb_ref := pb_ref b - 1\<rparr>) s)
      else if pb_ref (pbufs s p) = 0 then Inl (EM_ASSERT 1)
      else
        let s = upd_pb p (\<lambda>b. b\<lparr>pb_next := None\<rparr>) s
        in bindR
             (case free_pbuf_q_end s of
                Some e \<Rightarrow> if pb_next (pbufs s e) \<noteq> None then Inl (EM_ASSERT 2)
                          else Inr (upd_pb e (\<lambda>b. b\<lparr>pb_next := Some p\<rparr>) s)
              | None \<Rightarrow> Inr (s\<lparr>free_pbuf_q_begin := Some p\<rparr>))
             (\<lambda>s. Inr (em_notify_add taskNOTIFY_NEW_FREE_P_REQUEST (s\<lparr>free_pbuf_q_end := Some p\<rparr>))))"

text \<open>lwIP's \<open>pbuf_free\<close> has already counted \<open>ref\<close> down to 0 when it calls the custom free function.\<close>

definition eth_custom_pbuf_free_request :: "nat \<Rightarrow> em \<Rightarrow> em_error + em" where
  "eth_custom_pbuf_free_request p s = eth_pbuf_free_request p (upd_pb p (\<lambda>b. b\<lparr>pb_ref := 1\<rparr>) s)"

text \<open>One turn of the loop of \<open>free_blk\<close>, for the buffer \<open>p\<close> at the begin of the free requests.\<close>

definition free_blk_one :: "nat \<Rightarrow> em \<Rightarrow> em_error + em" where
  "free_blk_one p s =
     (if pb_ref (pbufs s p) \<noteq> 1 then Inl (EM_ASSERT 3)
      else
        let src_if = unat (pb_src_if (pbufs s p));
            s = upd_pb p (\<lambda>b. b\<lparr>pb_src_if := 0\<rparr>) s;
            s = upd_nif src_if (\<lambda>n. n\<lparr>input_queue_len := input_queue_len n - 1\<rparr>) s;
            n = pb_next (pbufs s p);
            s = s\<lparr>free_pbuf_q_begin := n\<rparr>;
            s = (if n = None then s\<lparr>free_pbuf_q_end := None\<rparr> else s)
        in bindR
             (case nopbuf_q_begin s of
                Some c \<Rightarrow>
                  let s = s\<lparr>nopbuf_q_begin := cb_next_p (cbs s c)\<rparr>;
                      s = (if nopbuf_q_begin s = None then s\<lparr>nopbuf_q_end := None\<rparr> else s);
                      s = upd_cb c (\<lambda>r. r\<lparr>cb_wait_active := 0\<rparr>) s;
                      s = upd_cb c (\<lambda>r. r\<lparr>cb_next_p := None\<rparr>) s;
                      s = s\<lparr>em_stats := (em_stats s)\<lparr>eth_pbuf_alloc_delay_cbks := eth_pbuf_alloc_delay_cbks (em_stats s) + 1\<rparr>\<rparr>;
                      s = upd_pb p (\<lambda>b. b\<lparr>pb_if_idx := cb_src_interface_id (cbs s c)\<rparr>) s
                  in Inr (em_call_log (Call_nomem c p) s)
              | None \<Rightarrow>
                  let s = upd_pb p (\<lambda>b. b\<lparr>pb_next := pc_free_chain s\<rparr>) s;
                      s = s\<lparr>pc_free_chain := Some p\<rparr>;
                      s = upd_pb p (\<lambda>b. b\<lparr>pb_ref := 0\<rparr>) s
                  in if pc_used s = 0 then Inl (EM_ASSERT 4)
                     else Inr (s\<lparr>pc_used := pc_used s - 1\<rparr>))
             (\<lambda>s. Inr (case q_update_cbk (netifs s src_if) of
                         Some f \<Rightarrow> em_call_log (Call_q_update f src_if (input_queue_len (netifs s src_if))) s
                       | None \<Rightarrow> s)))"

fun free_blk :: "nat \<Rightarrow> em \<Rightarrow> em_error + em" where
  "free_blk 0 s = (case free_pbuf_q_begin s of None \<Rightarrow> Inr s | Some p \<Rightarrow> Inl OUT_OF_FUEL)"
| "free_blk (Suc n) s =
     (case free_pbuf_q_begin s of
        None \<Rightarrow> Inr s
      | Some p \<Rightarrow> bindR (free_blk_one p s) (free_blk n))"

section \<open>Queue cells\<close>

definition do_eth_queue_entry_alloc :: "em \<Rightarrow> nat option \<times> em" where
  "do_eth_queue_entry_alloc s =
     (case q_begin s of
        None \<Rightarrow> (None, s\<lparr>pool_alloc_fails := pool_alloc_fails s + 1,
                   em_stats := (em_stats s)\<lparr>qpool_alloc_fails := qpool_alloc_fails (em_stats s) + 1\<rparr>\<rparr>)
      | Some c \<Rightarrow>
          let s = s\<lparr>q_begin := q_next (queues s c), pool_used := pool_used s + 1\<rparr>;
              s = (if pool_used_max s < pool_used s then s\<lparr>pool_used_max := pool_used s\<rparr> else s)
          in (Some c, upd_q c (\<lambda>q. q\<lparr>q_st := St_allocated\<rparr>) s))"

definition eth_queue_entry_alloc :: "em \<Rightarrow> nat option \<times> em" where
  "eth_queue_entry_alloc s = do_eth_queue_entry_alloc s"

definition eth_queue_entry_free :: "nat \<Rightarrow> em \<Rightarrow> em_error + em" where
  "eth_queue_entry_free c s =
     (if q_st (queues s c) = St_free then Inl (EM_ASSERT 5)
      else
        let s = upd_q c (\<lambda>q. q\<lparr>q_st := St_free\<rparr>) s;
            s = upd_q c (\<lambda>q. q\<lparr>q_next := q_begin s\<rparr>) s
        in Inr (s\<lparr>q_begin := Some c, pool_used := pool_used s - 1\<rparr>))"

section \<open>Queues of packets\<close>

definition count_lost :: "nat \<Rightarrow> em \<Rightarrow> em" where
  "count_lost nif s = upd_nif nif (\<lambda>n. n\<lparr>dgrams_lost := dgrams_lost n + 1\<rparr>) s"

definition link_input :: "nat \<Rightarrow> nat \<Rightarrow> em \<Rightarrow> em" where
  "link_input nif c s =
     (let s = upd_nif nif (\<lambda>n. n\<lparr>input_queue_len := input_queue_len n + 1, dgrams_in := dgrams_in n + 1\<rparr>) s;
          s = (case q_input_end s of
                 Some e \<Rightarrow> upd_q e (\<lambda>q. q\<lparr>q_next := Some c\<rparr>) s
               | None \<Rightarrow> s\<lparr>q_input_begin := Some c\<rparr>);
          s = s\<lparr>q_input_end := Some c, q_input_used := q_input_used s + 1\<rparr>
      in if q_input_used_max s < q_input_used s then s\<lparr>q_input_used_max := q_input_used s\<rparr> else s)"

definition eth_add_packet_to_router_queue :: "nat \<Rightarrow> em \<Rightarrow> em_error + em" where
  "eth_add_packet_to_router_queue p s =
     (let nif = unat (pb_if_idx (pbufs s p))
      in if pb_ref (pbufs s p) = 0 then Inl (EM_ASSERT 11)
         else if ETH_NETIFS \<le> nif then Inl (EM_ASSERT 6)
         else
           let s = upd_pb p (\<lambda>b. b\<lparr>pb_src_if := pb_if_idx b\<rparr>) s
           in if pb_len (pbufs s p) < 14
              then bindR (eth_pbuf_free_request p s) (\<lambda>s. Inr (count_lost nif s))
              else
                (case eth_queue_entry_alloc s of
                   (None, s) \<Rightarrow> bindR (eth_pbuf_free_request p s) (\<lambda>s. Inr (count_lost nif s))
                 | (Some c, s) \<Rightarrow>
                     let s = upd_q c (\<lambda>q. q\<lparr>q_next := None, q_st := St_in_queue, q_pbuf := p\<rparr>) s
                     in Inr (em_notify_add taskNOTIFY_ROUTER_Q_UPDATE (link_input nif c s))))"

text \<open>The dequeue of the input queue in the inner loop of \<open>EthQueueTask\<close>.\<close>

definition take_input :: "em \<Rightarrow> nat option \<times> em" where
  "take_input s =
     (case q_input_begin s of
        None \<Rightarrow> (None, s)
      | Some c \<Rightarrow>
          let n = q_next (queues s c);
              s = s\<lparr>q_input_begin := n\<rparr>;
              s = (if n = None then s\<lparr>q_input_end := None\<rparr> else s);
              s = upd_q c (\<lambda>q. q\<lparr>q_next := None\<rparr>) s
          in (Some c, s\<lparr>q_input_used := q_input_used s - 1\<rparr>))"

definition eth_get_packet :: "nat \<Rightarrow> em \<Rightarrow> em_error + nat option \<times> em" where
  "eth_get_packet k s =
     (case q_output_begin (netifs s k) of
        Some c \<Rightarrow>
          let n = q_next (queues s c);
              s = upd_nif k (\<lambda>i. i\<lparr>q_output_begin := n\<rparr>) s;
              s = (if n = None then upd_nif k (\<lambda>i. i\<lparr>q_output_end := None\<rparr>) s else s)
          in if q_output_len (netifs s k) = 0 then Inl (EM_ASSERT 7)
             else
               let s = upd_nif k (\<lambda>i. i\<lparr>q_output_len := q_output_len i - 1, dgrams_out := dgrams_out i + 1\<rparr>) s;
                   s = upd_q c (\<lambda>q. q\<lparr>q_next := None, q_st := St_sending\<rparr>) s;
                   p = q_pbuf (queues s c)
               in bindR (eth_queue_entry_free c s) (\<lambda>s. Inr (Some p, s))
      | None \<Rightarrow>
          Inr (None, if nif_callback_fn (netifs s k) \<noteq> None
                     then upd_nif k (\<lambda>i. i\<lparr>callback_pending := 1\<rparr>) s else s))"

definition link_output :: "nat \<Rightarrow> nat \<Rightarrow> em \<Rightarrow> em" where
  "link_output c k s =
     (let s = upd_q c (\<lambda>q. q\<lparr>q_st := St_in_queue\<rparr>) s;
          s = (case q_output_end (netifs s k) of
                 Some e \<Rightarrow> upd_q e (\<lambda>q. q\<lparr>q_next := Some c\<rparr>) s
               | None \<Rightarrow> upd_nif k (\<lambda>i. i\<lparr>q_output_begin := Some c\<rparr>) s);
          s = upd_nif k (\<lambda>i. i\<lparr>q_output_end := Some c, q_output_len := q_output_len i + 1\<rparr>) s
      in if q_output_len_max (netifs s k) < q_output_len (netifs s k)
         then upd_nif k (\<lambda>i. i\<lparr>q_output_len_max := q_output_len i\<rparr>) s else s)"

definition eth_add_packet_to_output_queue :: "nat \<Rightarrow> nat \<Rightarrow> em \<Rightarrow> em_error + em" where
  "eth_add_packet_to_output_queue c k s =
     (let s = upd_q c (\<lambda>q. q\<lparr>q_next := None\<rparr>) s
      in if pb_ref (pbufs s (q_pbuf (queues s c))) = 0 then Inl (EM_ASSERT 8)
         else if callback_pending (netifs s k) \<noteq> 0 then
           (if q_output_end (netifs s k) \<noteq> None then Inl (EM_ASSERT 9)
            else
              let s = upd_nif k (\<lambda>i. i\<lparr>callback_pending := 0\<rparr>) s;
                  s = upd_q c (\<lambda>q. q\<lparr>q_st := St_sending\<rparr>) s;
                  s = upd_nif k (\<lambda>i. i\<lparr>dgrams_out := dgrams_out i + 1\<rparr>) s;
                  p = q_pbuf (queues s c)
              in bindR (eth_queue_entry_free c s)
                   (\<lambda>s. case nif_callback_fn (netifs s k) of
                          Some f \<Rightarrow> Inr (em_call_log (Call_packet f p k) s)
                        | None \<Rightarrow> Inl (EM_ASSERT 10)))
         else if q_output_len_max (netifs s k) \<le> q_output_len (netifs s k) then
           bindR (eth_pbuf_free_request (q_pbuf (queues s c)) (count_lost k s)) (eth_queue_entry_free c)
         else Inr (link_output c k s))"

definition eth_mem_clone :: "nat \<Rightarrow> em \<Rightarrow> nat option \<times> em" where
  "eth_mem_clone c s =
     (case eth_queue_entry_alloc s of
        (Some d, s) \<Rightarrow>
          (Some d, upd_pb (q_pbuf (queues s c)) (\<lambda>b. b\<lparr>pb_ref := pb_ref b + 1\<rparr>)
                     (upd_q d (\<lambda>q. q\<lparr>q_pbuf := q_pbuf (queues s c)\<rparr>) s))
      | (None, s) \<Rightarrow> (None, s))"

section \<open>Initialisation\<close>

text \<open>
  \<open>eth_router_add_bridge\<close> as \<open>eth_router_init\<close> calls it, on the program's arrays. Fields the code
  does not write keep their value from \<open>s\<close> (at start-up all globals are 0 or NULL).
\<close>

definition init_pbuf :: "nat \<Rightarrow> nat \<Rightarrow> ETH_PBUF \<Rightarrow> ETH_PBUF" where
  "init_pbuf cnt i b = b\<lparr>pb_type_internal := 0, pb_flags := PBUF_FLAG_IS_CUSTOM, pb_ref := 0,
     pb_if_idx := 0, pb_src_if := 0, pb_next := (if Suc i < cnt then Some (Suc i) else None)\<rparr>"

definition init_queue :: "nat \<Rightarrow> nat \<Rightarrow> ETH_QUEUE \<Rightarrow> ETH_QUEUE" where
  "init_queue cnt i q = q\<lparr>q_next := (if Suc i < cnt then Some (Suc i) else None), q_st := St_free\<rparr>"

definition init_netif :: "ETH_NETIF \<Rightarrow> ETH_NETIF" where
  "init_netif n = n\<lparr>q_output_end := None, q_output_begin := None, q_output_len := 0,
     q_output_len_max := 0, q_output_size := 1, nif_callback_fn := None, q_update_cbk := None,
     if_up := 0, callback_pending := 0\<rparr>"

definition eth_router_add_bridge :: "em \<Rightarrow> em" where
  "eth_router_add_bridge s = s\<lparr>
     pbufs := (\<lambda>i. if i < ETH_PBUFS_CNT then init_pbuf ETH_PBUFS_CNT i (pbufs s i) else pbufs s i),
     queues := (\<lambda>i. if i < ETH_MEM_BUFS_CNT then init_queue ETH_MEM_BUFS_CNT i (queues s i) else queues s i),
     netifs := (\<lambda>i. if i < ETH_NETIFS then init_netif (netifs s i) else netifs s i),
     pc_free_chain := Some 0, q_begin := Some 0, pool_used := 0, pool_used_max := 0\<rparr>"

text \<open>The globals before \<open>eth_router_init\<close>: zeroed storage.\<close>

definition zero_pbuf :: ETH_PBUF where
  "zero_pbuf = \<lparr>pb_next = None, pb_mem = replicate ETH_MEM_BUF_SIZE 0, pb_off = 0, pb_tot_len = 0,
     pb_len = 0, pb_type_internal = 0, pb_flags = 0, pb_ref = 0, pb_if_idx = 0, pb_src_if = 0\<rparr>"

definition zero_netif :: ETH_NETIF where
  "zero_netif = \<lparr>q_output_end = None, q_output_begin = None, q_output_len = 0, q_output_len_max = 0,
     q_output_size = 0, nif_callback_fn = None, q_update_cbk = None, if_up = 0, callback_pending = 0,
     dgrams_in = 0, dgrams_out = 0, dgrams_lost = 0, input_queue_len = 0\<rparr>"

definition zero_em :: em where
  "zero_em = \<lparr>pbufs = (\<lambda>_. zero_pbuf),
     queues = (\<lambda>_. \<lparr>q_next = None, q_pbuf = ETH_PBUFS_CNT, q_st = St_free\<rparr>),
     netifs = (\<lambda>_. zero_netif),
     cbs = (\<lambda>_. \<lparr>cb_next_p = None, cb_src_interface_id = 0, cb_wait_active = 0\<rparr>),
     pc_free_chain = None, pc_used = 0, pc_used_max = 0, q_begin = None, nopbuf_q_end = None,
     nopbuf_q_begin = None, free_pbuf_q_end = None, free_pbuf_q_begin = None, q_input_end = None,
     q_input_begin = None, q_input_used = 0, q_input_used_max = 0, pool_used = 0, pool_used_max = 0,
     pool_alloc_fails = 0, em_notify = TNotifyCreate,
     em_stats = \<lparr>qpool_alloc_fails = 0, eth_pbuf_alloc_fails = 0, eth_pbuf_alloc_delayed = 0,
       eth_pbuf_alloc_delay_cbks = 0\<rparr>,
     em_calls = []\<rparr>"

definition eth_router_init :: em where
  "eth_router_init = eth_router_add_bridge zero_em"

end
