(* ===== verification/EthMemSpec.thy ===== *)
theory EthMemSpec
  imports EthMem "HOL-Library.Multiset"
begin

text \<open>
  What the buffer manager promises, on lists instead of pointers: \<open>em_spec\<close> holds the free
  buffers, the buffers waiting to be freed, the free cells, the input queue, the output queue of
  each interface, the cells in the hands of the router (\<open>sp_work\<close>), the cells that carry no
  reference at the moment (\<open>sp_limbo\<close>: just allocated, or about to be freed), the buffer of each
  cell, and, for each buffer, the number of references held by drivers (\<open>sp_ext\<close>).
  \<open>em_rep s a\<close> relates a concrete state to it. Its central equation is that the \<open>ref\<close> field of
  every buffer in use counts exactly its holders.
\<close>

section \<open>The abstract state and the representation relation\<close>

record em_spec =
  sp_free :: "nat list"
  sp_frq :: "nat list"
  sp_qfree :: "nat list"
  sp_inq :: "nat list"
  sp_outq :: "nat \<Rightarrow> nat list"
  sp_work :: "nat multiset"
  sp_limbo :: "nat multiset"
  sp_pbuf :: "nat \<Rightarrow> nat"
  sp_ext :: "nat \<Rightarrow> nat"

definition out_cells :: "(nat \<Rightarrow> nat list) \<Rightarrow> nat multiset" where
  "out_cells f = (\<Sum>k<ETH_NETIFS. mset (f k))"

text \<open>The cells that carry a reference to a buffer.\<close>

definition sp_cells :: "em_spec \<Rightarrow> nat multiset" where
  "sp_cells a = mset (sp_inq a) + out_cells (sp_outq a) + sp_work a"

definition sp_refs :: "em_spec \<Rightarrow> nat \<Rightarrow> nat" where
  "sp_refs a p = sp_ext a p + count (image_mset (sp_pbuf a) (sp_cells a)) p"

definition pnx :: "(nat \<Rightarrow> ETH_PBUF) \<Rightarrow> nat \<Rightarrow> nat option" where
  "pnx h i = pb_next (h i)"

definition qnx :: "(nat \<Rightarrow> ETH_QUEUE) \<Rightarrow> nat \<Rightarrow> nat option" where
  "qnx h i = q_next (h i)"

definition rep_pbufs :: "em \<Rightarrow> em_spec \<Rightarrow> bool" where
  "rep_pbufs s a \<longleftrightarrow>
     chain (pnx (pbufs s)) (pc_free_chain s) (sp_free a) \<and>
     chain (pnx (pbufs s)) (free_pbuf_q_begin s) (sp_frq a) \<and>
     free_pbuf_q_end s = last_opt (sp_frq a) \<and>
     distinct (sp_free a @ sp_frq a) \<and> set (sp_free a @ sp_frq a) \<subseteq> {..<ETH_PBUFS_CNT} \<and>
     unat (pc_used s) + length (sp_free a) = ETH_PBUFS_CNT \<and>
     nopbuf_q_begin s = None \<and> nopbuf_q_end s = None"

definition rep_refs :: "em \<Rightarrow> em_spec \<Rightarrow> bool" where
  "rep_refs s a \<longleftrightarrow>
     (\<forall>p. unat (pb_ref (pbufs s p)) = (if p \<in> set (sp_frq a) then 1 else sp_refs a p)) \<and>
     (\<forall>p. sp_refs a p = 0 \<longleftrightarrow> p \<in> set (sp_free a) \<union> set (sp_frq a) \<or> ETH_PBUFS_CNT \<le> p) \<and>
     (\<forall>p. unat (pb_src_if (pbufs s p)) < ETH_NETIFS)"

definition rep_cells :: "em \<Rightarrow> em_spec \<Rightarrow> bool" where
  "rep_cells s a \<longleftrightarrow>
     chain (qnx (queues s)) (q_begin s) (sp_qfree a) \<and>
     chain (qnx (queues s)) (q_input_begin s) (sp_inq a) \<and> q_input_end s = last_opt (sp_inq a) \<and>
     mset (sp_qfree a) + sp_cells a + sp_limbo a = mset [0..<ETH_MEM_BUFS_CNT] \<and>
     (\<forall>c < ETH_MEM_BUFS_CNT. q_st (queues s c) = St_free \<longleftrightarrow> c \<in> set (sp_qfree a)) \<and>
     (\<forall>c. q_pbuf (queues s c) = sp_pbuf a c) \<and>
     unat (pool_used s) + length (sp_qfree a) = ETH_MEM_BUFS_CNT"

definition rep_netif :: "em \<Rightarrow> em_spec \<Rightarrow> nat \<Rightarrow> bool" where
  "rep_netif s a k \<longleftrightarrow>
     chain (qnx (queues s)) (q_output_begin (netifs s k)) (sp_outq a k) \<and>
     q_output_end (netifs s k) = last_opt (sp_outq a k) \<and>
     unat (q_output_len (netifs s k)) = length (sp_outq a k) \<and>
     (callback_pending (netifs s k) \<noteq> 0 \<longrightarrow> sp_outq a k = [] \<and> nif_callback_fn (netifs s k) \<noteq> None)"

definition em_rep :: "em \<Rightarrow> em_spec \<Rightarrow> bool" where
  "em_rep s a \<longleftrightarrow> rep_pbufs s a \<and> rep_refs s a \<and> rep_cells s a \<and> (\<forall>k < ETH_NETIFS. rep_netif s a k)"

lemmas em_rep_defs = em_rep_def rep_pbufs_def rep_refs_def rep_cells_def rep_netif_def

section \<open>How updates of the arrays act on chains and references\<close>

named_theorems em_simps \<open>chains, references and cells after an update\<close>

lemma pnx_upd [em_simps]: "pnx (h(p := b)) = (pnx h)(p := pb_next b)"
  by (auto simp: pnx_def fun_eq_iff)

lemma qnx_upd [em_simps]: "qnx (h(c := q)) = (qnx h)(c := q_next q)"
  by (auto simp: qnx_def fun_eq_iff)

lemma pnx_triv [em_simps]: "(pnx h)(p := pb_next (h p)) = pnx h"
  by (auto simp: pnx_def fun_eq_iff)

lemma qnx_triv [em_simps]: "(qnx h)(c := q_next (h c)) = qnx h"
  by (auto simp: qnx_def fun_eq_iff)

lemma pb_next_pnx: "pb_next (h p) = pnx h p"
  by (simp add: pnx_def)

lemma q_next_qnx: "q_next (h c) = qnx h c"
  by (simp add: qnx_def)

lemma sum_mset_upd_snoc:
  "k < n \<Longrightarrow> (\<Sum>i<n. mset ((f(k := f k @ [c])) i)) = add_mset c (\<Sum>i<n. mset (f i))"
  for n :: nat
  by (induction n) (auto simp: less_Suc_eq)

lemma sum_mset_upd_tl:
  "k < n \<Longrightarrow> f k = c # cs \<Longrightarrow> (\<Sum>i<n. mset (f i)) = add_mset c (\<Sum>i<n. mset ((f(k := cs)) i))"
  for n :: nat
  by (induction n) (auto simp: less_Suc_eq)

lemma out_cells_snoc [em_simps]:
  "k < ETH_NETIFS \<Longrightarrow> out_cells (f(k := f k @ [c])) = add_mset c (out_cells f)"
  unfolding out_cells_def by (rule sum_mset_upd_snoc)

lemma out_cells_Cons:
  "k < ETH_NETIFS \<Longrightarrow> f k = c # cs \<Longrightarrow> out_cells f = add_mset c (out_cells (f(k := cs)))"
  unfolding out_cells_def by (rule sum_mset_upd_tl)

lemma in_out_cells: "k < ETH_NETIFS \<Longrightarrow> c \<in> set (f k) \<Longrightarrow> c \<in># out_cells f"
  unfolding out_cells_def by (auto simp: set_mset_sum)

section \<open>Disjointness, from the partition of the cells\<close>

lemma count_upt: "count (mset [0..<n]) c = (if c < n then 1 else 0)"
  by (simp add: count_mset_0_iff distinct_count_atmost_1 [THEN iffD1, rule_format])

lemma count_mset_0_iff': "count (mset xs) c = 0 \<longleftrightarrow> c \<notin> set xs"
  by (simp add: count_mset_0_iff)

text \<open>Every cell is in exactly one place.\<close>

lemma cell_count:
  assumes "rep_cells s a"
  shows "count (mset (sp_qfree a)) c + count (mset (sp_inq a)) c + count (out_cells (sp_outq a)) c
    + count (sp_work a) c + count (sp_limbo a) c = (if c < ETH_MEM_BUFS_CNT then 1 else 0)"
proof -
  have "mset (sp_qfree a) + sp_cells a + sp_limbo a = mset [0..<ETH_MEM_BUFS_CNT]"
    using assms by (simp add: rep_cells_def)
  then have "count (mset (sp_qfree a) + sp_cells a + sp_limbo a) c = count (mset [0..<ETH_MEM_BUFS_CNT]) c"
    by simp
  then show ?thesis
    by (simp only: count_upt) (simp add: sp_cells_def split: if_splits)
qed

lemma in_set_count: "x \<in> set xs \<longleftrightarrow> 0 < count (mset xs) x"
  by (metis count_mset_0_iff neq0_conv)

lemma in_mset_count: "x \<in># M \<longleftrightarrow> 0 < count M x"
  by simp

lemma distinct_count_leI: "(\<And>x. count (mset xs) x \<le> 1) \<Longrightarrow> distinct xs"
  by (metis count_mset_0_iff distinct_count_atmost_1 le_antisym less_one not_le)

lemma cell_place:
  assumes "rep_cells s a"
  shows "c \<in> set (sp_qfree a) \<Longrightarrow> c \<notin> set (sp_inq a) \<and> c \<notin># out_cells (sp_outq a) \<and>
      c \<notin># sp_work a \<and> c \<notin># sp_limbo a \<and> c < ETH_MEM_BUFS_CNT"
    and "c \<in> set (sp_inq a) \<Longrightarrow> c \<notin> set (sp_qfree a) \<and> c \<notin># out_cells (sp_outq a) \<and>
      c \<notin># sp_work a \<and> c \<notin># sp_limbo a \<and> c < ETH_MEM_BUFS_CNT"
    and "c \<in># out_cells (sp_outq a) \<Longrightarrow> c \<notin> set (sp_qfree a) \<and> c \<notin> set (sp_inq a) \<and>
      c \<notin># sp_work a \<and> c \<notin># sp_limbo a \<and> c < ETH_MEM_BUFS_CNT"
    and "c \<in># sp_work a \<Longrightarrow> c \<notin> set (sp_qfree a) \<and> c \<notin> set (sp_inq a) \<and>
      c \<notin># out_cells (sp_outq a) \<and> c \<notin># sp_limbo a \<and> c < ETH_MEM_BUFS_CNT"
    and "c \<in># sp_limbo a \<Longrightarrow> c \<notin> set (sp_qfree a) \<and> c \<notin> set (sp_inq a) \<and>
      c \<notin># out_cells (sp_outq a) \<and> c \<notin># sp_work a \<and> c < ETH_MEM_BUFS_CNT"
  using cell_count [OF assms, of c]
  by (auto simp only: in_set_count in_mset_count split: if_splits)

lemma cell_lists_distinct:
  assumes "rep_cells s a"
  shows "distinct (sp_qfree a)" and "distinct (sp_inq a)"
    and "k < ETH_NETIFS \<Longrightarrow> distinct (sp_outq a k)"
proof -
  have 1: "count (mset (sp_qfree a)) c \<le> 1" and 2: "count (mset (sp_inq a)) c \<le> 1"
    and 3: "count (out_cells (sp_outq a)) c \<le> 1" for c
    using cell_count [OF assms, of c] by (simp_all only: split: if_splits)
  show "distinct (sp_qfree a)" using 1 by (rule distinct_count_leI)
  show "distinct (sp_inq a)" using 2 by (rule distinct_count_leI)
  assume "k < ETH_NETIFS"
  then have "count (mset (sp_outq a k)) c \<le> count (out_cells (sp_outq a)) c" for c
    unfolding out_cells_def count_sum by (intro member_le_sum) auto
  then show "distinct (sp_outq a k)"
    using 3 by (intro distinct_count_leI) (meson le_trans)
qed

lemma outq_disjoint:
  assumes "rep_cells s a" and "j < ETH_NETIFS" and "k < ETH_NETIFS" and "j \<noteq> k"
    and "c \<in> set (sp_outq a j)"
  shows "c \<notin> set (sp_outq a k)"
proof
  assume "c \<in> set (sp_outq a k)"
  have "count (mset (sp_outq a j)) c + count (mset (sp_outq a k)) c =
      (\<Sum>i\<in>{j, k}. count (mset (sp_outq a i)) c)"
    using assms(4) by simp
  also have "\<dots> \<le> count (out_cells (sp_outq a)) c"
    unfolding out_cells_def count_sum by (rule sum_mono2) (use assms(2,3) in auto)
  also have "\<dots> \<le> 1"
    using cell_count [OF assms(1), of c] by (simp only: split: if_splits)
  finally show False
    using assms(5) \<open>c \<in> set (sp_outq a k)\<close> unfolding in_set_count by linarith
qed

section \<open>Updates that the relation does not see\<close>

lemma rep_upd_pb_frame:
  assumes "em_rep s a"
    and "pb_next (f (pbufs s p)) = pb_next (pbufs s p)"
    and "pb_ref (f (pbufs s p)) = pb_ref (pbufs s p)"
    and "unat (pb_src_if (f (pbufs s p))) < ETH_NETIFS"
  shows "em_rep (upd_pb p f s) a"
  using assms by (simp add: em_rep_defs upd_pb_def em_simps)

lemma rep_upd_nif_frame:
  assumes "em_rep s a"
    and "q_output_begin (f (netifs s k)) = q_output_begin (netifs s k)"
    and "q_output_end (f (netifs s k)) = q_output_end (netifs s k)"
    and "q_output_len (f (netifs s k)) = q_output_len (netifs s k)"
    and "callback_pending (f (netifs s k)) \<noteq> 0 \<longrightarrow> callback_pending (netifs s k) \<noteq> 0"
    and "nif_callback_fn (f (netifs s k)) = nif_callback_fn (netifs s k)"
  shows "em_rep (upd_nif k f s) a"
  using assms by (simp add: em_rep_defs upd_nif_def)

lemma rep_count_lost: "em_rep s a \<Longrightarrow> em_rep (count_lost k s) a"
  unfolding count_lost_def by (rule rep_upd_nif_frame) auto

lemma rep_notify: "em_rep (em_notify_add v s) a = em_rep s a"
  by (simp add: em_rep_defs em_notify_add_def)

lemma rep_call_log: "em_rep (em_call_log c s) a = em_rep s a"
  by (simp add: em_rep_defs em_call_log_def)

lemmas rep_frames = rep_count_lost rep_notify rep_call_log

section \<open>Buffers: allocation and release\<close>

section \<open>Buffers: allocation and release\<close>

lemma rep_refs_free: "em_rep s a \<Longrightarrow> p \<in> set (sp_free a) \<union> set (sp_frq a) \<Longrightarrow> sp_refs a p = 0"
  unfolding em_rep_def rep_refs_def by blast

lemma rep_free_less: "em_rep s a \<Longrightarrow> p \<in> set (sp_free a) \<union> set (sp_frq a) \<Longrightarrow> p < ETH_PBUFS_CNT"
  unfolding em_rep_def rep_pbufs_def by auto

lemma rep_held_not_free: "em_rep s a \<Longrightarrow> 0 < sp_refs a p \<Longrightarrow>
   p \<notin> set (sp_free a) \<and> p \<notin> set (sp_frq a) \<and> p < ETH_PBUFS_CNT"
  unfolding em_rep_def rep_refs_def by (metis UnCI not_gr_zero not_le)

lemma rep_ref_val: "em_rep s a \<Longrightarrow> p \<notin> set (sp_frq a) \<Longrightarrow> unat (pb_ref (pbufs s p)) = sp_refs a p"
  unfolding em_rep_def rep_refs_def by simp

lemma sp_cells_simps [em_simps]:
  "sp_cells (a\<lparr>sp_free := x\<rparr>) = sp_cells a"
  "sp_cells (a\<lparr>sp_frq := x\<rparr>) = sp_cells a"
  "sp_cells (a\<lparr>sp_ext := e\<rparr>) = sp_cells a"
  "sp_cells (a\<lparr>sp_qfree := x\<rparr>) = sp_cells a"
  "sp_cells (a\<lparr>sp_limbo := m\<rparr>) = sp_cells a"
  "sp_cells (a\<lparr>sp_pbuf := g\<rparr>) = sp_cells a"
  by (simp_all add: sp_cells_def)

definition alloc_init :: "u8 \<Rightarrow> ETH_PBUF \<Rightarrow> ETH_PBUF" where
  "alloc_init idx b = b\<lparr>pb_next := None, pb_if_idx := idx, pb_ref := 1, pb_type_internal := 0,
     pb_flags := PBUF_FLAG_IS_CUSTOM, pb_off := 0\<rparr>"

definition alloc_idx :: "nat option \<Rightarrow> em \<Rightarrow> u8" where
  "alloc_idx cb s = (case cb of None \<Rightarrow> 0 | Some c \<Rightarrow> cb_src_interface_id (cbs s c))"

definition sp_alloc :: "nat \<Rightarrow> em_spec \<Rightarrow> em_spec" where
  "sp_alloc p a = a\<lparr>sp_free := tl (sp_free a), sp_ext := (sp_ext a)(p := 1)\<rparr>"

lemma pc_used_inc:
  assumes "rep_pbufs s a" "sp_free a \<noteq> []"
  shows "unat (pc_used s + 1) = Suc (unat (pc_used s))"
proof -
  have "unat (pc_used s) < ETH_PBUFS_CNT"
    using assms by (cases "sp_free a") (auto simp: rep_pbufs_def)
  then show ?thesis by (intro unat_inc) simp
qed

lemma rep_alloc:
  assumes r: "em_rep s a" and f: "sp_free a = p # fl"
  shows "\<exists>s'. eth_pbuf_alloc cb s = Inr (Some p, s') \<and> em_rep s' (sp_alloc p a) \<and>
    pbufs s' = (pbufs s)(p := alloc_init (alloc_idx cb s) (pbufs s p)) \<and>
    netifs s' = netifs s \<and> em_calls s' = em_calls s"
proof -
  have fc: "pc_free_chain s = Some p"
    using r f by (simp add: em_rep_def rep_pbufs_def)
  obtain s' where s': "eth_pbuf_alloc cb s = Inr (Some p, s')"
    and fields: "pbufs s' = (pbufs s)(p := alloc_init (alloc_idx cb s) (pbufs s p))"
      "netifs s' = netifs s" "em_calls s' = em_calls s" "queues s' = queues s" "pc_free_chain s' = pb_next (pbufs s p)"
      "pc_used s' = pc_used s + 1" "free_pbuf_q_begin s' = free_pbuf_q_begin s" "free_pbuf_q_end s' = free_pbuf_q_end s"
      "nopbuf_q_begin s' = nopbuf_q_begin s" "nopbuf_q_end s' = nopbuf_q_end s" "q_begin s' = q_begin s"
      "q_input_begin s' = q_input_begin s" "q_input_end s' = q_input_end s" "pool_used s' = pool_used s"
    by (cases cb) (auto simp: eth_pbuf_alloc_def do_eth_pbuf_alloc_def fc Let_def em_upd_defs alloc_init_def alloc_idx_def)
  have d: "p \<notin> set fl" "p \<notin> set (sp_frq a)" "p < ETH_PBUFS_CNT"
    using r f by (auto simp: em_rep_def rep_pbufs_def)
  have "sp_refs a p = 0"
    using r f by (auto intro: rep_refs_free)
  then have z: "sp_ext a p = 0" "count (image_mset (sp_pbuf a) (sp_cells a)) p = 0"
    by (simp_all add: sp_refs_def)
  have refs: "sp_refs (sp_alloc p a) q = (if q = p then 1 else sp_refs a q)" for q
    using z by (simp add: sp_refs_def sp_alloc_def em_simps)
  have "rep_pbufs s' (sp_alloc p a)"
    using r f d pc_used_inc [of s a] unfolding em_rep_def rep_pbufs_def
    by (simp add: fields sp_alloc_def em_simps alloc_init_def pb_next_pnx)
  moreover have "rep_refs s' (sp_alloc p a)"
    using r d f unfolding em_rep_def rep_refs_def refs
    by (simp add: fields sp_alloc_def alloc_init_def)
  moreover have "rep_cells s' (sp_alloc p a)"
    using r unfolding em_rep_def rep_cells_def
    by (simp add: fields sp_alloc_def em_simps)
  moreover have "\<forall>k<ETH_NETIFS. rep_netif s' (sp_alloc p a) k"
    using r unfolding em_rep_def rep_netif_def
    by (simp add: fields sp_alloc_def)
  ultimately show ?thesis
    using s' fields(1-3) unfolding em_rep_def by blast
qed

definition same_data :: "ETH_PBUF \<Rightarrow> ETH_PBUF \<Rightarrow> bool" where
  "same_data b b' \<longleftrightarrow> pb_mem b' = pb_mem b \<and> pb_off b' = pb_off b \<and> pb_len b' = pb_len b \<and>
     pb_tot_len b' = pb_tot_len b \<and> pb_if_idx b' = pb_if_idx b \<and> pb_src_if b' = pb_src_if b"

definition sp_release :: "nat \<Rightarrow> em_spec \<Rightarrow> em_spec" where
  "sp_release p a = a\<lparr>sp_ext := (sp_ext a)(p := sp_ext a p - 1),
     sp_frq := (if sp_refs a p = 1 then sp_frq a @ [p] else sp_frq a)\<rparr>"

lemma rep_free_request_many:
  assumes r: "em_rep s a" and e: "0 < sp_ext a p" and m: "1 < sp_refs a p"
  shows "eth_pbuf_free_request p s = Inr (upd_pb p (\<lambda>b. b\<lparr>pb_ref := pb_ref b - 1\<rparr>) s) \<and>
    em_rep (upd_pb p (\<lambda>b. b\<lparr>pb_ref := pb_ref b - 1\<rparr>) s) (sp_release p a)"
proof -
  have d: "p \<notin> set (sp_free a)" "p \<notin> set (sp_frq a)" "p < ETH_PBUFS_CNT"
    using rep_held_not_free [OF r, of p] m by auto
  have v: "unat (pb_ref (pbufs s p)) = sp_refs a p"
    using r d(2) by (rule rep_ref_val)
  have "1 < pb_ref (pbufs s p)"
    using m v by (simp add: word_less_nat_alt)
  moreover have v': "unat (pb_ref (pbufs s p) - 1) = sp_refs a p - 1"
    using m v by (subst unat_dec) auto
  have refs: "sp_refs (sp_release p a) q = (if q = p then sp_refs a p - 1 else sp_refs a q)" for q
    using e by (simp add: sp_refs_def sp_release_def em_simps)
  have "em_rep (upd_pb p (\<lambda>b. b\<lparr>pb_ref := pb_ref b - 1\<rparr>) s) (sp_release p a)"
  proof -
    have "rep_refs (upd_pb p (\<lambda>b. b\<lparr>pb_ref := pb_ref b - 1\<rparr>) s) (sp_release p a)"
      using r m d v' unfolding em_rep_def rep_refs_def refs
      by (simp add: upd_pb_def sp_release_def)
    then show ?thesis
      using r m by (simp add: em_rep_def rep_pbufs_def rep_cells_def rep_netif_def upd_pb_def sp_release_def em_simps)
  qed
  ultimately show ?thesis
    by (simp add: eth_pbuf_free_request_def)
qed

lemma rep_free_request_last:
  assumes r: "em_rep s a" and e: "0 < sp_ext a p" and m: "sp_refs a p = 1"
  shows "\<exists>s'. eth_pbuf_free_request p s = Inr s' \<and> em_rep s' (sp_release p a) \<and>
    queues s' = queues s \<and> netifs s' = netifs s \<and> em_calls s' = em_calls s \<and>
    (\<forall>q. same_data (pbufs s q) (pbufs s' q))"
proof -
  let ?q = "sp_frq a"
  have d: "p \<notin> set (sp_free a)" "p \<notin> set ?q" "p < ETH_PBUFS_CNT"
    using rep_held_not_free [OF r, of p] m by auto
  have "unat (pb_ref (pbufs s p)) = 1"
    using rep_ref_val [OF r d(2)] m by simp
  then have one: "pb_ref (pbufs s p) = 1"
    by (rule unat_eq_one)
  have dist: "distinct ?q" and dfree: "set (sp_free a) \<inter> set ?q = {}"
    using r by (auto simp: em_rep_def rep_pbufs_def)
  have frq: "chain (pnx (pbufs s)) (free_pbuf_q_begin s) ?q" "free_pbuf_q_end s = last_opt ?q"
    using r by (auto simp: em_rep_def rep_pbufs_def)
  have refs: "sp_refs (sp_release p a) q = (if q = p then 0 else sp_refs a q)" for q
    using e m by (simp add: sp_refs_def sp_release_def em_simps)
  have nx_last: "pb_next (pbufs s (last ?q)) = None" if "?q \<noteq> []"
    using chain_last_None [OF frq(1) that] by (simp add: pnx_def)
  obtain s' where s': "eth_pbuf_free_request p s = Inr s'"
    and ch: "pnx (pbufs s') = (if ?q = [] then (pnx (pbufs s))(p := None) else (pnx (pbufs s))(p := None, last ?q := Some p))"
    and refsame: "\<And>q. pb_ref (pbufs s' q) = pb_ref (pbufs s q)" "\<And>q. same_data (pbufs s q) (pbufs s' q)"
    and fields: "free_pbuf_q_begin s' = (if ?q = [] then Some p else free_pbuf_q_begin s)" "free_pbuf_q_end s' = Some p"
      "netifs s' = netifs s" "em_calls s' = em_calls s" "queues s' = queues s" "pc_free_chain s' = pc_free_chain s"
      "pc_used s' = pc_used s" "nopbuf_q_begin s' = nopbuf_q_begin s" "nopbuf_q_end s' = nopbuf_q_end s" "q_begin s' = q_begin s"
      "q_input_begin s' = q_input_begin s" "q_input_end s' = q_input_end s" "pool_used s' = pool_used s"
  proof (cases "?q = []")
    case True
    show ?thesis
      using that by (simp add: eth_pbuf_free_request_def one frq(2) True Let_def em_upd_defs em_simps same_data_def)
  next
    case False
    then have lp: "last ?q \<noteq> p" using d(2) last_in_set by metis
    then show ?thesis
      using that False by (simp add: eth_pbuf_free_request_def one frq(2) last_opt_def nx_last Let_def
          em_upd_defs em_simps same_data_def)
  qed
  have rel: "sp_release p a = a\<lparr>sp_ext := (sp_ext a)(p := sp_ext a p - 1), sp_frq := ?q @ [p]\<rparr>"
    using m by (simp add: sp_release_def)
  have "chain (pnx (pbufs s')) (free_pbuf_q_begin s') (?q @ [p])"
  proof (cases "?q = []")
    case True
    then show ?thesis by (simp add: ch fields)
  next
    case False
    have "chain ((pnx (pbufs s))(p := None)) (free_pbuf_q_begin s) ?q"
      using frq(1) d(2) by simp
    from chain_snoc [OF this dist d(2) _ False] False show ?thesis
      by (simp add: ch fields)
  qed
  moreover have "chain (pnx (pbufs s')) (pc_free_chain s) (sp_free a)"
  proof -
    have "?q \<noteq> [] \<Longrightarrow> last ?q \<notin> set (sp_free a)"
      using dfree last_in_set by blast
    then show ?thesis
      using r d(1) by (auto simp: ch em_rep_def rep_pbufs_def)
  qed
  ultimately have "rep_pbufs s' (sp_release p a)"
    using r d unfolding em_rep_def rep_pbufs_def by (simp add: fields rel)
  moreover have "rep_refs s' (sp_release p a)"
    using r d m one refsame unfolding em_rep_def rep_refs_def refs
    by (simp add: rel same_data_def)
  moreover have "rep_cells s' (sp_release p a)"
    using r unfolding em_rep_def rep_cells_def by (simp add: fields rel em_simps)
  moreover have "\<forall>k<ETH_NETIFS. rep_netif s' (sp_release p a) k"
    using r unfolding em_rep_def rep_netif_def by (simp add: fields rel)
  ultimately show ?thesis
    using s' fields refsame unfolding em_rep_def by blast
qed

lemma rep_free_request:
  assumes r: "em_rep s a" and e: "0 < sp_ext a p"
  shows "\<exists>s'. eth_pbuf_free_request p s = Inr s' \<and> em_rep s' (sp_release p a) \<and>
    queues s' = queues s \<and> netifs s' = netifs s \<and> em_calls s' = em_calls s \<and>
    (\<forall>q. same_data (pbufs s q) (pbufs s' q))"
proof (cases "sp_refs a p = 1")
  case True
  with r e show ?thesis by (rule rep_free_request_last)
next
  case False
  with e have "1 < sp_refs a p" by (simp add: sp_refs_def)
  from rep_free_request_many [OF r e this] show ?thesis
    by (auto simp: upd_pb_def same_data_def)
qed

definition sp_reclaim_one :: "em_spec \<Rightarrow> em_spec" where
  "sp_reclaim_one a = a\<lparr>sp_free := hd (sp_frq a) # sp_free a, sp_frq := tl (sp_frq a)\<rparr>"

definition sp_reclaim :: "em_spec \<Rightarrow> em_spec" where
  "sp_reclaim a = a\<lparr>sp_free := rev (sp_frq a) @ sp_free a, sp_frq := []\<rparr>"

lemma free_not_all:
  assumes "rep_pbufs s a" and "p \<notin> set (sp_free a)" and "p < ETH_PBUFS_CNT"
  shows "length (sp_free a) < ETH_PBUFS_CNT"
proof -
  have s: "set (sp_free a) \<subset> {..<ETH_PBUFS_CNT}" and d: "distinct (sp_free a)"
    using assms by (auto simp: rep_pbufs_def)
  show ?thesis
    using psubset_card_mono [OF _ s] d by (simp add: distinct_card)
qed

lemma rep_free_blk_one:
  assumes r: "em_rep s a" and f: "sp_frq a = p # fr"
  shows "\<exists>s'. free_blk_one p s = Inr s' \<and> em_rep s' (sp_reclaim_one a) \<and> queues s' = queues s"
proof -
  have d: "p \<notin> set fr" "p \<notin> set (sp_free a)" "p < ETH_PBUFS_CNT" "distinct fr"
    using r f by (auto simp: em_rep_def rep_pbufs_def)
  have one: "pb_ref (pbufs s p) = 1"
    using r f by (auto simp: em_rep_def rep_refs_def intro: unat_eq_one)
  have chp: "chain (pnx (pbufs s)) (pb_next (pbufs s p)) fr" and chf: "chain (pnx (pbufs s)) (pc_free_chain s) (sp_free a)"
    and eq: "free_pbuf_q_end s = last_opt (p # fr)" and nb: "nopbuf_q_begin s = None" "nopbuf_q_end s = None"
    and used: "unat (pc_used s) + length (sp_free a) = ETH_PBUFS_CNT"
    using r f by (auto simp: em_rep_def rep_pbufs_def pnx_def)
  have fr: "pb_next (pbufs s p) = None \<longleftrightarrow> fr = []"
    using chp by (cases fr) auto
  have "length (sp_free a) < ETH_PBUFS_CNT"
    using r d by (auto simp: em_rep_def intro: free_not_all)
  with used have u0: "pc_used s \<noteq> 0" by auto
  then have u1: "unat (pc_used s - 1) = unat (pc_used s) - 1" and up: "0 < unat (pc_used s)"
    by (simp, simp add: unat_gt_0)
  obtain s' where s': "free_blk_one p s = Inr s'"
    and ch: "pnx (pbufs s') = (pnx (pbufs s))(p := pc_free_chain s)"
    and refs': "\<And>q. pb_ref (pbufs s' q) = (if q = p then 0 else pb_ref (pbufs s q))"
      "\<And>q. pb_src_if (pbufs s' q) = (if q = p then 0 else pb_src_if (pbufs s q))"
    and nif: "\<And>k. q_output_begin (netifs s' k) = q_output_begin (netifs s k)"
      "\<And>k. q_output_end (netifs s' k) = q_output_end (netifs s k)" "\<And>k. q_output_len (netifs s' k) = q_output_len (netifs s k)"
      "\<And>k. callback_pending (netifs s' k) = callback_pending (netifs s k)" "\<And>k. nif_callback_fn (netifs s' k) = nif_callback_fn (netifs s k)"
    and fields: "queues s' = queues s" "pc_free_chain s' = Some p" "free_pbuf_q_begin s' = pb_next (pbufs s p)"
      "free_pbuf_q_end s' = (if fr = [] then None else free_pbuf_q_end s)"
      "pc_used s' = pc_used s - 1" "nopbuf_q_begin s' = None" "nopbuf_q_end s' = None" "q_begin s' = q_begin s"
      "q_input_begin s' = q_input_begin s" "q_input_end s' = q_input_end s" "pool_used s' = pool_used s"
    using one fr u0 nb
    by (auto simp: free_blk_one_def Let_def em_upd_defs em_simps split: option.splits)
  have refs: "sp_refs (sp_reclaim_one a) q = sp_refs a q" for q
    by (simp add: sp_refs_def sp_reclaim_one_def em_simps)
  have rp: "sp_refs a p = 0"
    using r f by (auto intro: rep_refs_free)
  have "rep_pbufs s' (sp_reclaim_one a)"
    using r f d chp chf eq used u1 up unfolding em_rep_def rep_pbufs_def
    by (auto simp: fields ch sp_reclaim_one_def last_opt_def)
  moreover have "rep_refs s' (sp_reclaim_one a)"
    using r f d rp unfolding em_rep_def rep_refs_def refs
    by (auto simp: refs' sp_reclaim_one_def)
  moreover have "rep_cells s' (sp_reclaim_one a)"
    using r unfolding em_rep_def rep_cells_def by (simp add: fields sp_reclaim_one_def em_simps)
  moreover have "\<forall>k<ETH_NETIFS. rep_netif s' (sp_reclaim_one a) k"
    using r unfolding em_rep_def rep_netif_def by (simp add: fields nif sp_reclaim_one_def)
  ultimately show ?thesis
    using s' fields(1) unfolding em_rep_def by blast
qed

lemma rep_frq_begin:
  "em_rep s a \<Longrightarrow> free_pbuf_q_begin s = (case sp_frq a of [] \<Rightarrow> None | p # _ \<Rightarrow> Some p)"
  by (auto simp: em_rep_def rep_pbufs_def split: list.splits)

lemma sp_reclaim_none: "sp_frq a = [] \<Longrightarrow> sp_reclaim a = a"
  by (cases a) (simp add: sp_reclaim_def)

lemma rep_free_blk:
  "em_rep s a \<Longrightarrow> length (sp_frq a) \<le> n \<Longrightarrow>
   \<exists>s'. free_blk n s = Inr s' \<and> em_rep s' (sp_reclaim a) \<and> queues s' = queues s"
proof (induction n arbitrary: s a)
  case 0
  then show ?case
    using rep_frq_begin [of s a] by (simp add: sp_reclaim_none)
next
  case (Suc n)
  show ?case
  proof (cases "sp_frq a")
    case Nil
    then show ?thesis
      using Suc.prems(1) rep_frq_begin [of s a] by (simp add: sp_reclaim_none)
  next
    case (Cons p fr)
    then have b: "free_pbuf_q_begin s = Some p"
      using Suc.prems(1) rep_frq_begin [of s a] by simp
    obtain s1 where s1: "free_blk_one p s = Inr s1" "em_rep s1 (sp_reclaim_one a)" "queues s1 = queues s"
      using rep_free_blk_one [OF Suc.prems(1) Cons] by blast
    have "length (sp_frq (sp_reclaim_one a)) \<le> n"
      using Suc.prems(2) Cons by (simp add: sp_reclaim_one_def)
    from Suc.IH [OF s1(2) this] obtain s' where "free_blk n s1 = Inr s'"
      "em_rep s' (sp_reclaim (sp_reclaim_one a))" "queues s' = queues s1" by blast
    moreover have "sp_reclaim (sp_reclaim_one a) = sp_reclaim a"
      using Cons by (simp add: sp_reclaim_def sp_reclaim_one_def)
    ultimately show ?thesis using b s1 by auto
  qed
qed

lemma frq_length:
  assumes "em_rep s a"
  shows "length (sp_frq a) \<le> ETH_PBUFS_CNT"
proof -
  have d: "distinct (sp_frq a)" and s: "set (sp_frq a) \<subseteq> {..<ETH_PBUFS_CNT}"
    using assms by (auto simp: em_rep_def rep_pbufs_def)
  show ?thesis
    using card_mono [OF _ s] d by (simp add: distinct_card)
qed

section \<open>Cells: allocation, release and queues\<close>

lemma rep_cellsD: "em_rep s a \<Longrightarrow> rep_cells s a"
  by (simp add: em_rep_def)

definition sp_cell_alloc :: "em_spec \<Rightarrow> em_spec" where
  "sp_cell_alloc a = a\<lparr>sp_qfree := tl (sp_qfree a), sp_limbo := add_mset (hd (sp_qfree a)) (sp_limbo a)\<rparr>"

lemma rep_cell_alloc:
  assumes r: "em_rep s a" and f: "sp_qfree a = c # cs"
  shows "\<exists>s'. eth_queue_entry_alloc s = (Some c, s') \<and> em_rep s' (sp_cell_alloc a) \<and>
    pbufs s' = pbufs s \<and> netifs s' = netifs s \<and> em_calls s' = em_calls s \<and>
    queues s' = (queues s)(c := (queues s c)\<lparr>q_st := St_allocated\<rparr>)"
proof -
  have q: "q_begin s = Some c" "c \<notin> set cs" "c < ETH_MEM_BUFS_CNT"
    using r f cell_lists_distinct(1) [of s a] cell_place(1) [of s a c] by (auto simp: em_rep_def rep_cells_def)
  have "unat (pool_used s) < ETH_MEM_BUFS_CNT"
    using r f by (auto simp: em_rep_def rep_cells_def)
  then have pu: "unat (pool_used s + 1) = Suc (unat (pool_used s))"
    by (intro unat_inc) simp
  have refs: "sp_refs (sp_cell_alloc a) q = sp_refs a q" for q
    by (simp add: sp_refs_def sp_cell_alloc_def em_simps)
  obtain s' where s': "eth_queue_entry_alloc s = (Some c, s')"
    and fields: "pbufs s' = pbufs s" "netifs s' = netifs s" "em_calls s' = em_calls s"
      "queues s' = (queues s)(c := (queues s c)\<lparr>q_st := St_allocated\<rparr>)"
      "pc_free_chain s' = pc_free_chain s" "pc_used s' = pc_used s" "free_pbuf_q_begin s' = free_pbuf_q_begin s"
      "free_pbuf_q_end s' = free_pbuf_q_end s" "nopbuf_q_begin s' = nopbuf_q_begin s" "nopbuf_q_end s' = nopbuf_q_end s"
      "q_begin s' = q_next (queues s c)" "q_input_begin s' = q_input_begin s" "q_input_end s' = q_input_end s"
      "pool_used s' = pool_used s + 1"
    by (simp add: eth_queue_entry_alloc_def do_eth_queue_entry_alloc_def q Let_def em_upd_defs)
  have "rep_pbufs s' (sp_cell_alloc a)" "rep_refs s' (sp_cell_alloc a)" "\<forall>k<ETH_NETIFS. rep_netif s' (sp_cell_alloc a) k"
    using r unfolding em_rep_def rep_pbufs_def rep_refs_def rep_netif_def refs
    by (simp_all add: fields sp_cell_alloc_def em_simps)
  moreover have "rep_cells s' (sp_cell_alloc a)"
    using r f q pu unfolding em_rep_def rep_cells_def
    by (auto simp: fields sp_cell_alloc_def em_simps q_next_qnx)
  ultimately show ?thesis
    using s' fields(1-4) unfolding em_rep_def by blast
qed

lemma rep_cell_alloc_fail:
  assumes r: "em_rep s a" and f: "sp_qfree a = []"
  shows "\<exists>s'. eth_queue_entry_alloc s = (None, s') \<and> em_rep s' a \<and>
    pbufs s' = pbufs s \<and> netifs s' = netifs s \<and> queues s' = queues s \<and> em_calls s' = em_calls s"
proof -
  have "q_begin s = None"
    using r f by (simp add: em_rep_def rep_cells_def)
  then show ?thesis
    using r f by (simp add: eth_queue_entry_alloc_def do_eth_queue_entry_alloc_def em_rep_defs)
qed

definition sp_cell_free :: "nat \<Rightarrow> em_spec \<Rightarrow> em_spec" where
  "sp_cell_free c a = a\<lparr>sp_qfree := c # sp_qfree a, sp_limbo := sp_limbo a - {#c#}\<rparr>"

lemma out_chain_upd:
  assumes "c \<notin># out_cells f" and "k < ETH_NETIFS"
  shows "chain (nx(c := x)) p (f k) = chain nx p (f k)"
  using assms in_out_cells [of k c f] by (intro chain_upd) blast

lemma rep_cell_free:
  assumes r: "em_rep s a" and c: "c \<in># sp_limbo a"
  shows "\<exists>s'. eth_queue_entry_free c s = Inr s' \<and> em_rep s' (sp_cell_free c a) \<and>
    pbufs s' = pbufs s \<and> netifs s' = netifs s \<and> em_calls s' = em_calls s \<and>
    (\<forall>d. q_pbuf (queues s' d) = q_pbuf (queues s d))"
proof -
  note pl = cell_place(5) [OF rep_cellsD [OF r] c]
  have st: "q_st (queues s c) \<noteq> St_free"
    using r pl by (simp add: em_rep_def rep_cells_def)
  have part: "mset (sp_qfree a) + sp_cells a + sp_limbo a = mset [0..<ETH_MEM_BUFS_CNT]"
    using r by (simp add: em_rep_def rep_cells_def)
  then have "size (mset (sp_qfree a)) + size (sp_cells a) + size (sp_limbo a) = ETH_MEM_BUFS_CNT"
    by (metis length_upt minus_nat.diff_0 size_mset size_union)
  moreover have "0 < size (sp_limbo a)"
    using c by (metis empty_iff nonempty_has_size set_mset_empty)
  ultimately have "length (sp_qfree a) < ETH_MEM_BUFS_CNT"
    by simp
  moreover have pu: "unat (pool_used s) + length (sp_qfree a) = ETH_MEM_BUFS_CNT"
    using r by (simp add: em_rep_def rep_cells_def)
  ultimately have pu0: "pool_used s \<noteq> 0" by auto
  then have pu1: "unat (pool_used s - 1) = unat (pool_used s) - 1" and pu2: "0 < unat (pool_used s)"
    by (simp, simp add: unat_gt_0)
  have refs: "sp_refs (sp_cell_free c a) q = sp_refs a q" for q
    by (simp add: sp_refs_def sp_cell_free_def em_simps)
  obtain s' where s': "eth_queue_entry_free c s = Inr s'"
    and fields: "pbufs s' = pbufs s" "netifs s' = netifs s" "em_calls s' = em_calls s"
      "queues s' = (queues s)(c := (queues s c)\<lparr>q_st := St_free, q_next := q_begin s\<rparr>)"
      "pc_free_chain s' = pc_free_chain s" "pc_used s' = pc_used s" "free_pbuf_q_begin s' = free_pbuf_q_begin s"
      "free_pbuf_q_end s' = free_pbuf_q_end s" "nopbuf_q_begin s' = nopbuf_q_begin s" "nopbuf_q_end s' = nopbuf_q_end s"
      "q_begin s' = Some c" "q_input_begin s' = q_input_begin s" "q_input_end s' = q_input_end s"
      "pool_used s' = pool_used s - 1"
    using st by (simp add: eth_queue_entry_free_def Let_def em_upd_defs)
  have "rep_pbufs s' (sp_cell_free c a)" "rep_refs s' (sp_cell_free c a)"
    using r unfolding em_rep_def rep_pbufs_def rep_refs_def refs
    by (simp_all add: fields sp_cell_free_def em_simps)
  moreover have "\<forall>k<ETH_NETIFS. rep_netif s' (sp_cell_free c a) k"
    using r pl unfolding em_rep_def rep_netif_def
    by (simp add: fields sp_cell_free_def em_simps out_chain_upd)
  moreover have "rep_cells s' (sp_cell_free c a)"
    using r pl pu1 pu2 part c unfolding em_rep_def rep_cells_def
    by (auto simp: fields sp_cell_free_def em_simps)
  ultimately show ?thesis
    using s' fields unfolding em_rep_def by auto
qed

definition sp_enq_input :: "nat \<Rightarrow> nat \<Rightarrow> em_spec \<Rightarrow> em_spec" where
  "sp_enq_input c p a = a\<lparr>sp_limbo := sp_limbo a - {#c#}, sp_inq := sp_inq a @ [c],
     sp_pbuf := (sp_pbuf a)(c := p), sp_ext := (sp_ext a)(p := sp_ext a p - 1)\<rparr>"

lemma image_mset_upd: "c \<notin># M \<Longrightarrow> image_mset (f(c := p)) M = image_mset f M"
  by (rule image_mset_cong) auto

definition fill_input :: "nat \<Rightarrow> nat \<Rightarrow> em \<Rightarrow> em" where
  "fill_input c p s = upd_q c (\<lambda>q. q\<lparr>q_next := None, q_st := St_in_queue, q_pbuf := p\<rparr>) s"

lemma rep_link_input:
  assumes r: "em_rep s a" and c: "c \<in># sp_limbo a" and e: "0 < sp_ext a p"
  shows "em_rep (link_input nif c (fill_input c p s)) (sp_enq_input c p a)"
proof -
  note pl = cell_place(5) [OF rep_cellsD [OF r] c]
  let ?q = "sp_inq a"
  have inq: "chain (qnx (queues s)) (q_input_begin s) ?q" "q_input_end s = last_opt ?q" "distinct ?q"
    using r cell_lists_distinct(2) [OF rep_cellsD [OF r]] by (auto simp: em_rep_def rep_cells_def)
  have lc: "?q \<noteq> [] \<Longrightarrow> last ?q \<in> set ?q" by simp
  then have ln: "?q \<noteq> [] \<Longrightarrow> last ?q \<noteq> c" using pl by metis
  let ?s = "link_input nif c (fill_input c p s)"
  have fields: "pbufs ?s = pbufs s" "pc_free_chain ?s = pc_free_chain s" "pc_used ?s = pc_used s"
      "free_pbuf_q_begin ?s = free_pbuf_q_begin s"
      "free_pbuf_q_end ?s = free_pbuf_q_end s" "nopbuf_q_begin ?s = nopbuf_q_begin s" "nopbuf_q_end ?s = nopbuf_q_end s"
      "q_begin ?s = q_begin s" "q_input_begin ?s = (if ?q = [] then Some c else q_input_begin s)" "q_input_end ?s = Some c"
      "pool_used ?s = pool_used s"
      "\<And>d. q_pbuf (queues ?s d) = (if d = c then p else q_pbuf (queues s d))"
      "\<And>d. q_st (queues ?s d) = (if d = c then St_in_queue else q_st (queues s d))"
    and ch: "qnx (queues ?s) = (if ?q = [] then (qnx (queues s))(c := None) else (qnx (queues s))(c := None, last ?q := Some c))"
    using inq(2) ln
    by (auto simp: link_input_def fill_input_def Let_def em_upd_defs last_opt_def em_simps split: option.splits)
  have nif: "q_output_begin (netifs ?s k) = q_output_begin (netifs s k)" "q_output_end (netifs ?s k) = q_output_end (netifs s k)"
      "q_output_len (netifs ?s k) = q_output_len (netifs s k)" "callback_pending (netifs ?s k) = callback_pending (netifs s k)"
      "nif_callback_fn (netifs ?s k) = nif_callback_fn (netifs s k)" for k
    by (auto simp: link_input_def fill_input_def Let_def em_upd_defs split: option.splits)
  have nc: "c \<notin># sp_cells a"
    using pl by (simp add: sp_cells_def)
  have cells: "sp_cells (sp_enq_input c p a) = add_mset c (sp_cells a)"
    by (simp add: sp_cells_def sp_enq_input_def)
  have refs: "sp_refs (sp_enq_input c p a) q = sp_refs a q" for q
    unfolding sp_refs_def cells using e nc
    by (auto simp: sp_enq_input_def image_mset_upd)
  have other: "chain (qnx (queues ?s)) x xs = chain (qnx (queues s)) x xs"
    if "c \<notin> set xs" and "\<And>d. d \<in> set ?q \<Longrightarrow> d \<notin> set xs" for x xs
  proof (cases "?q = []")
    case True
    then show ?thesis using that(1) by (simp add: ch)
  next
    case False
    then have "last ?q \<notin> set xs" using lc that(2) by blast
    then show ?thesis using that(1) by (simp add: ch)
  qed
  have "chain (qnx (queues ?s)) (q_input_begin ?s) (?q @ [c])"
  proof (cases "?q = []")
    case True
    then show ?thesis by (simp add: ch fields)
  next
    case False
    have "chain ((qnx (queues s))(c := None)) (q_input_begin s) ?q"
      using inq(1) pl by simp
    from chain_snoc [OF this inq(3) _ _ False, of c] False pl show ?thesis
      by (simp add: ch fields)
  qed
  moreover have "chain (qnx (queues ?s)) (q_begin s) (sp_qfree a)"
    using r pl cell_place(2) [OF rep_cellsD [OF r]] by (subst other) (auto simp: em_rep_def rep_cells_def)
  moreover have "mset (sp_qfree a) + sp_cells a + sp_limbo a = mset [0..<ETH_MEM_BUFS_CNT]"
    using r by (simp add: em_rep_def rep_cells_def)
  ultimately have "rep_cells ?s (sp_enq_input c p a)"
    using r pl c unfolding em_rep_def rep_cells_def cells
    by (simp add: fields sp_enq_input_def)
  moreover have "\<forall>k<ETH_NETIFS. rep_netif ?s (sp_enq_input c p a) k"
  proof (intro allI impI)
    fix k assume k: "k < ETH_NETIFS"
    have "chain (qnx (queues ?s)) (q_output_begin (netifs s k)) (sp_outq a k)"
      using r k pl cell_place(2) [OF rep_cellsD [OF r]] in_out_cells [OF k]
      by (subst other) (auto simp: em_rep_def rep_netif_def)
    then show "rep_netif ?s (sp_enq_input c p a) k"
      using r k unfolding em_rep_def rep_netif_def by (simp add: fields nif sp_enq_input_def)
  qed
  moreover have "rep_pbufs ?s (sp_enq_input c p a)" "rep_refs ?s (sp_enq_input c p a)"
    using r unfolding em_rep_def rep_pbufs_def rep_refs_def refs
    by (simp_all add: fields sp_enq_input_def)
  ultimately show ?thesis
    unfolding em_rep_def by blast
qed

definition sp_take_input :: "em_spec \<Rightarrow> em_spec" where
  "sp_take_input a = a\<lparr>sp_inq := tl (sp_inq a), sp_work := add_mset (hd (sp_inq a)) (sp_work a)\<rparr>"

lemma take_input_empty: "em_rep s a \<Longrightarrow> sp_inq a = [] \<Longrightarrow> take_input s = (None, s)"
  by (simp add: em_rep_def rep_cells_def take_input_def)

lemma rep_take_input:
  assumes r: "em_rep s a" and f: "sp_inq a = c # cs"
  shows "\<exists>s'. take_input s = (Some c, s') \<and> em_rep s' (sp_take_input a) \<and> pbufs s' = pbufs s \<and>
    netifs s' = netifs s \<and> em_calls s' = em_calls s"
proof -
  have pl: "c \<notin> set (sp_qfree a)" "c \<notin># out_cells (sp_outq a)" and cs: "c \<notin> set cs"
    and b: "q_input_begin s = Some c" "chain (qnx (queues s)) (q_next (queues s c)) cs"
    and en: "q_input_end s = last_opt (c # cs)"
    using r f cell_place(2) [OF rep_cellsD [OF r], of c] cell_lists_distinct(2) [OF rep_cellsD [OF r]]
    by (auto simp: em_rep_def rep_cells_def qnx_def)
  have nn: "q_next (queues s c) = None \<longleftrightarrow> cs = []"
    using b(2) by (cases cs) auto
  obtain s' where s': "take_input s = (Some c, s')"
    and fields: "pbufs s' = pbufs s" "netifs s' = netifs s" "em_calls s' = em_calls s"
      "queues s' = (queues s)(c := (queues s c)\<lparr>q_next := None\<rparr>)"
      "pc_free_chain s' = pc_free_chain s" "pc_used s' = pc_used s" "free_pbuf_q_begin s' = free_pbuf_q_begin s"
      "free_pbuf_q_end s' = free_pbuf_q_end s" "nopbuf_q_begin s' = nopbuf_q_begin s" "nopbuf_q_end s' = nopbuf_q_end s"
      "q_begin s' = q_begin s" "q_input_begin s' = q_next (queues s c)" "q_input_end s' = last_opt cs"
      "pool_used s' = pool_used s"
    using nn en by (auto simp: take_input_def b Let_def em_upd_defs last_opt_def)
  have cells: "sp_cells (sp_take_input a) = sp_cells a"
    using f by (simp add: sp_cells_def sp_take_input_def)
  have refs: "sp_refs (sp_take_input a) q = sp_refs a q" for q
    unfolding sp_refs_def cells by (simp add: sp_take_input_def)
  have "rep_pbufs s' (sp_take_input a)" "rep_refs s' (sp_take_input a)"
    using r unfolding em_rep_def rep_pbufs_def rep_refs_def refs
    by (simp_all add: fields sp_take_input_def)
  moreover have "\<forall>k<ETH_NETIFS. rep_netif s' (sp_take_input a) k"
    using r pl unfolding em_rep_def rep_netif_def
    by (simp add: fields sp_take_input_def em_simps out_chain_upd)
  moreover have "rep_cells s' (sp_take_input a)"
    using r f pl b cs unfolding em_rep_def rep_cells_def cells
    by (simp add: fields sp_take_input_def em_simps)
  ultimately show ?thesis
    using s' fields unfolding em_rep_def by blast
qed

text \<open>
  A step of the proof only: the reference of a cell in the router's hands is counted as held by
  the router itself, so that the laws for held buffers apply to it.
\<close>

definition sp_detach :: "nat \<Rightarrow> em_spec \<Rightarrow> em_spec" where
  "sp_detach c a = a\<lparr>sp_work := sp_work a - {#c#}, sp_limbo := add_mset c (sp_limbo a),
     sp_ext := (sp_ext a)(sp_pbuf a c := Suc (sp_ext a (sp_pbuf a c)))\<rparr>"

lemma rep_detach:
  assumes r: "em_rep s a" and c: "c \<in># sp_work a"
  shows "em_rep s (sp_detach c a)"
proof -
  obtain w where w: "sp_work a = add_mset c w"
    using c by (metis insert_DiffM)
  have cells: "sp_cells a = add_mset c (sp_cells (sp_detach c a))"
    by (simp add: sp_cells_def sp_detach_def w)
  have refs: "sp_refs (sp_detach c a) q = sp_refs a q" for q
    unfolding sp_refs_def cells by (simp add: sp_detach_def)
  have "rep_pbufs s (sp_detach c a)" "rep_refs s (sp_detach c a)" "\<forall>k<ETH_NETIFS. rep_netif s (sp_detach c a) k"
    using r unfolding em_rep_def rep_pbufs_def rep_refs_def rep_netif_def refs
    by (simp_all add: sp_detach_def)
  moreover have "rep_cells s (sp_detach c a)"
    using r unfolding em_rep_def rep_cells_def cells
    by (simp add: sp_detach_def)
  ultimately show ?thesis unfolding em_rep_def by blast
qed

definition sp_get_packet :: "nat \<Rightarrow> em_spec \<Rightarrow> em_spec" where
  "sp_get_packet k a = (let c = hd (sp_outq a k); p = sp_pbuf a c in
     a\<lparr>sp_outq := (sp_outq a)(k := tl (sp_outq a k)), sp_qfree := c # sp_qfree a,
       sp_ext := (sp_ext a)(p := Suc (sp_ext a p))\<rparr>)"

definition sp_unlink_output :: "nat \<Rightarrow> em_spec \<Rightarrow> em_spec" where
  "sp_unlink_output k a = (let c = hd (sp_outq a k); p = sp_pbuf a c in
     a\<lparr>sp_outq := (sp_outq a)(k := tl (sp_outq a k)), sp_limbo := add_mset c (sp_limbo a),
       sp_ext := (sp_ext a)(p := Suc (sp_ext a p))\<rparr>)"

definition unlink_output :: "nat \<Rightarrow> nat \<Rightarrow> em \<Rightarrow> em" where
  "unlink_output c k s =
     (let n = q_next (queues s c);
          s = upd_nif k (\<lambda>i. i\<lparr>q_output_begin := n\<rparr>) s;
          s = (if n = None then upd_nif k (\<lambda>i. i\<lparr>q_output_end := None\<rparr>) s else s);
          s = upd_nif k (\<lambda>i. i\<lparr>q_output_len := q_output_len i - 1, dgrams_out := dgrams_out i + 1\<rparr>) s
      in upd_q c (\<lambda>q. q\<lparr>q_next := None, q_st := St_sending\<rparr>) s)"

lemma rep_unlink_output:
  assumes r: "em_rep s a" and k: "k < ETH_NETIFS" and f: "sp_outq a k = c # cs"
  shows "em_rep (unlink_output c k s) (sp_unlink_output k a)"
proof -
  have co: "c \<in># out_cells (sp_outq a)"
    using in_out_cells [OF k, of c "sp_outq a"] f by simp
  note pl = cell_place(3) [OF rep_cellsD [OF r] co]
  have cs: "c \<notin> set cs"
    using cell_lists_distinct(3) [OF rep_cellsD [OF r] k] f by simp
  have oth: "c \<notin> set (sp_outq a j)" if "j < ETH_NETIFS" "j \<noteq> k" for j
    using outq_disjoint [OF rep_cellsD [OF r] k that(1)] that(2) f by auto
  have b: "q_output_begin (netifs s k) = Some c" "chain (qnx (queues s)) (q_next (queues s c)) cs"
    "q_output_end (netifs s k) = last_opt (c # cs)" "unat (q_output_len (netifs s k)) = Suc (length cs)"
    "callback_pending (netifs s k) = 0"
    using r k f by (auto simp: em_rep_def rep_netif_def qnx_def)
  have nn: "q_next (queues s c) = None \<longleftrightarrow> cs = []"
    using b(2) by (cases cs) auto
  have l: "q_output_len (netifs s k) \<noteq> 0"
    using b(4) by auto
  then have l1: "unat (q_output_len (netifs s k) - 1) = length cs"
    using b(4) by simp
  let ?s = "unlink_output c k s"
  have fields: "pbufs ?s = pbufs s" "pc_free_chain ?s = pc_free_chain s" "pc_used ?s = pc_used s"
      "free_pbuf_q_begin ?s = free_pbuf_q_begin s"
      "free_pbuf_q_end ?s = free_pbuf_q_end s" "nopbuf_q_begin ?s = nopbuf_q_begin s" "nopbuf_q_end ?s = nopbuf_q_end s"
      "q_begin ?s = q_begin s" "q_input_begin ?s = q_input_begin s" "q_input_end ?s = q_input_end s"
      "pool_used ?s = pool_used s"
      "queues ?s = (queues s)(c := (queues s c)\<lparr>q_next := None, q_st := St_sending\<rparr>)"
    by (simp_all add: unlink_output_def Let_def em_upd_defs)
  have nif: "q_output_begin (netifs ?s j) = (if j = k then q_next (queues s c) else q_output_begin (netifs s j))"
      "q_output_end (netifs ?s j) = (if j = k then last_opt cs else q_output_end (netifs s j))"
      "q_output_len (netifs ?s j) = (if j = k then q_output_len (netifs s k) - 1 else q_output_len (netifs s j))"
      "callback_pending (netifs ?s j) = callback_pending (netifs s j)"
      "nif_callback_fn (netifs ?s j) = nif_callback_fn (netifs s j)" for j
    using nn b(3) by (auto simp: unlink_output_def Let_def em_upd_defs last_opt_def)
  have "out_cells (sp_outq a) = add_mset c (out_cells ((sp_outq a)(k := cs)))"
    using k f by (rule out_cells_Cons)
  then have cells: "sp_cells a = add_mset c (sp_cells (sp_unlink_output k a))"
    by (simp add: sp_cells_def sp_unlink_output_def Let_def f)
  have refs: "sp_refs (sp_unlink_output k a) q = sp_refs a q" for q
    unfolding sp_refs_def cells by (simp add: sp_unlink_output_def Let_def f)
  have "rep_pbufs ?s (sp_unlink_output k a)" "rep_refs ?s (sp_unlink_output k a)"
    using r unfolding em_rep_def rep_pbufs_def rep_refs_def refs
    by (simp_all add: fields sp_unlink_output_def Let_def)
  moreover have "rep_cells ?s (sp_unlink_output k a)"
    using r pl unfolding em_rep_def rep_cells_def cells
    by (auto simp: fields sp_unlink_output_def Let_def em_simps f)
  moreover have "\<forall>j<ETH_NETIFS. rep_netif ?s (sp_unlink_output k a) j"
    using r b oth cs l1 unfolding em_rep_def rep_netif_def
    by (auto simp: fields nif sp_unlink_output_def Let_def em_simps f)
  ultimately show ?thesis unfolding em_rep_def by blast
qed

lemma eth_get_packet_cases:
  "q_output_begin (netifs s k) = Some c \<Longrightarrow> q_output_len (netifs s k) \<noteq> 0 \<Longrightarrow>
   eth_get_packet k s = bindR (eth_queue_entry_free c (unlink_output c k s))
     (\<lambda>s'. Inr (Some (q_pbuf (queues s c)), s'))"
  by (simp add: eth_get_packet_def unlink_output_def Let_def em_upd_defs)

lemma rep_get_packet:
  assumes r: "em_rep s a" and k: "k < ETH_NETIFS" and f: "sp_outq a k = c # cs"
  shows "\<exists>s'. eth_get_packet k s = Inr (Some (sp_pbuf a c), s') \<and> em_rep s' (sp_get_packet k a) \<and>
    pbufs s' = pbufs s \<and> em_calls s' = em_calls s"
proof -
  have b: "q_output_begin (netifs s k) = Some c" "q_output_len (netifs s k) \<noteq> 0" "q_pbuf (queues s c) = sp_pbuf a c"
    using r k f by (auto simp: em_rep_def rep_netif_def rep_cells_def)
  have u: "em_rep (unlink_output c k s) (sp_unlink_output k a)"
    using r k f by (rule rep_unlink_output)
  have c: "c \<in># sp_limbo (sp_unlink_output k a)"
    by (simp add: sp_unlink_output_def Let_def f)
  have e: "sp_cell_free c (sp_unlink_output k a) = sp_get_packet k a"
    using f by (cases a) (simp add: sp_cell_free_def sp_unlink_output_def sp_get_packet_def Let_def)
  show ?thesis
    using rep_cell_free [OF u c] b unfolding e
    by (auto simp: eth_get_packet_cases unlink_output_def Let_def em_upd_defs)
qed

lemma rep_get_packet_empty:
  assumes r: "em_rep s a" and k: "k < ETH_NETIFS" and f: "sp_outq a k = []"
  shows "\<exists>s'. eth_get_packet k s = Inr (None, s') \<and> em_rep s' a \<and> pbufs s' = pbufs s \<and> em_calls s' = em_calls s"
proof -
  have b: "q_output_begin (netifs s k) = None"
    using r k f by (auto simp: em_rep_def rep_netif_def)
  have "em_rep (upd_nif k (\<lambda>i. i\<lparr>callback_pending := 1\<rparr>) s) a" if "nif_callback_fn (netifs s k) \<noteq> None"
    using r that f b by (simp add: em_rep_defs upd_nif_def)
  then show ?thesis
    using r b by (auto simp: eth_get_packet_def upd_nif_def)
qed

definition sp_enq_output :: "nat \<Rightarrow> nat \<Rightarrow> em_spec \<Rightarrow> em_spec" where
  "sp_enq_output c k a = a\<lparr>sp_work := sp_work a - {#c#}, sp_outq := (sp_outq a)(k := sp_outq a k @ [c])\<rparr>"

lemma rep_link_output:
  assumes r: "em_rep s a" and c: "c \<in># sp_work a" and k: "k < ETH_NETIFS"
    and cp: "callback_pending (netifs s k) = 0"
  shows "em_rep (link_output c k (upd_q c (\<lambda>q. q\<lparr>q_next := None\<rparr>) s)) (sp_enq_output c k a)"
proof -
  note pl = cell_place(4) [OF rep_cellsD [OF r] c]
  let ?q = "sp_outq a k"
  have outq: "chain (qnx (queues s)) (q_output_begin (netifs s k)) ?q" "q_output_end (netifs s k) = last_opt ?q" "distinct ?q"
    "unat (q_output_len (netifs s k)) = length ?q"
    using r k cell_lists_distinct(3) [OF rep_cellsD [OF r] k] by (auto simp: em_rep_def rep_netif_def)
  have lc: "?q \<noteq> [] \<Longrightarrow> last ?q \<in> set ?q" by simp
  have nq: "c \<notin> set (sp_outq a j)" if "j < ETH_NETIFS" for j
    using in_out_cells [OF that] pl by blast
  then have ln: "?q \<noteq> [] \<Longrightarrow> last ?q \<noteq> c" using lc k by metis
  have "length ?q \<le> ETH_MEM_BUFS_CNT"
  proof -
    have "set ?q \<subseteq> {..<ETH_MEM_BUFS_CNT}"
      using cell_place(3) [OF rep_cellsD [OF r]] in_out_cells [OF k] by blast
    then show ?thesis using outq(3) card_mono [of "{..<ETH_MEM_BUFS_CNT}" "set ?q"] by (simp add: distinct_card)
  qed
  then have len: "unat (q_output_len (netifs s k) + 1) = Suc (length ?q)"
    using outq(4) by (subst unat_inc) auto
  let ?s = "link_output c k (upd_q c (\<lambda>q. q\<lparr>q_next := None\<rparr>) s)"
  have fields: "pbufs ?s = pbufs s" "pc_free_chain ?s = pc_free_chain s" "pc_used ?s = pc_used s"
      "free_pbuf_q_begin ?s = free_pbuf_q_begin s"
      "free_pbuf_q_end ?s = free_pbuf_q_end s" "nopbuf_q_begin ?s = nopbuf_q_begin s" "nopbuf_q_end ?s = nopbuf_q_end s"
      "q_begin ?s = q_begin s" "q_input_begin ?s = q_input_begin s" "q_input_end ?s = q_input_end s"
      "pool_used ?s = pool_used s"
      "\<And>d. q_pbuf (queues ?s d) = q_pbuf (queues s d)"
      "\<And>d. q_st (queues ?s d) = (if d = c then St_in_queue else q_st (queues s d))"
    and ch: "qnx (queues ?s) = (if ?q = [] then (qnx (queues s))(c := None) else (qnx (queues s))(c := None, last ?q := Some c))"
    using outq(2) ln
    by (auto simp: link_output_def Let_def em_upd_defs last_opt_def em_simps split: option.splits)
  have nif: "q_output_begin (netifs ?s j) = (if j = k \<and> ?q = [] then Some c else q_output_begin (netifs s j))"
      "q_output_end (netifs ?s j) = (if j = k then Some c else q_output_end (netifs s j))"
      "q_output_len (netifs ?s j) = (if j = k then q_output_len (netifs s k) + 1 else q_output_len (netifs s j))"
      "callback_pending (netifs ?s j) = callback_pending (netifs s j)"
      "nif_callback_fn (netifs ?s j) = nif_callback_fn (netifs s j)" for j
    using outq(2) by (auto simp: link_output_def Let_def em_upd_defs last_opt_def split: option.splits)
  obtain w where w: "sp_work a = add_mset c w"
    using c by (metis insert_DiffM)
  have cells: "sp_cells (sp_enq_output c k a) = sp_cells a"
    using k by (simp add: sp_cells_def sp_enq_output_def em_simps w)
  have refs: "sp_refs (sp_enq_output c k a) q = sp_refs a q" for q
    unfolding sp_refs_def cells by (simp add: sp_enq_output_def)
  have other: "chain (qnx (queues ?s)) x xs = chain (qnx (queues s)) x xs"
    if "c \<notin> set xs" and "\<And>d. d \<in> set ?q \<Longrightarrow> d \<notin> set xs" for x xs
  proof (cases "?q = []")
    case True
    then show ?thesis using that(1) by (simp add: ch)
  next
    case False
    then have "last ?q \<notin> set xs" using lc that(2) by blast
    then show ?thesis using that(1) by (simp add: ch)
  qed
  have self: "chain (qnx (queues ?s)) (q_output_begin (netifs ?s k)) (?q @ [c])"
  proof (cases "?q = []")
    case True
    then show ?thesis by (simp add: ch nif)
  next
    case False
    have "chain ((qnx (queues s))(c := None)) (q_output_begin (netifs s k)) ?q"
      using outq(1) nq [OF k] by simp
    from chain_snoc [OF this outq(3) nq [OF k] _ False] False show ?thesis
      by (simp add: ch nif)
  qed
  have ino: "d \<in> set ?q \<Longrightarrow> d \<notin> set (sp_qfree a) \<and> d \<notin> set (sp_inq a)" for d
    using cell_place(3) [OF rep_cellsD [OF r]] in_out_cells [OF k] by blast
  have "chain (qnx (queues ?s)) (q_begin s) (sp_qfree a)" "chain (qnx (queues ?s)) (q_input_begin s) (sp_inq a)"
    using r pl ino by (subst other; auto simp: em_rep_def rep_cells_def)+
  then have "rep_cells ?s (sp_enq_output c k a)"
    using r pl unfolding em_rep_def rep_cells_def cells
    by (simp add: fields sp_enq_output_def)
  moreover have "rep_netif ?s (sp_enq_output c k a) j" if j: "j < ETH_NETIFS" for j
  proof (cases "j = k")
    case True
    then show ?thesis
      using self len cp unfolding rep_netif_def by (simp add: nif sp_enq_output_def)
  next
    case False
    then have "chain (qnx (queues ?s)) (q_output_begin (netifs s j)) (sp_outq a j)"
      using r j nq [OF j] outq_disjoint [OF rep_cellsD [OF r] k j] 
      by (subst other) (auto simp: em_rep_def rep_netif_def)
    then show ?thesis
      using r j False unfolding em_rep_def rep_netif_def by (simp add: nif sp_enq_output_def)
  qed
  moreover have "rep_pbufs ?s (sp_enq_output c k a)" "rep_refs ?s (sp_enq_output c k a)"
    using r unfolding em_rep_def rep_pbufs_def rep_refs_def refs
    by (simp_all add: fields sp_enq_output_def)
  ultimately show ?thesis
    unfolding em_rep_def by blast
qed

end
