(* ===== verification/EthMemProps.thy ===== *)
theory EthMemProps
  imports EthMemSpec
begin

text \<open>
  The operations of \<open>eth_mem.c\<close> as wholes refine the abstract operations on \<open>em_spec\<close>, the
  initial state represents the initial abstract state, and every state that disciplined drivers
  can reach is represented: so no assertion of \<open>eth_mem.c\<close> can fire there.
\<close>

section \<open>Whole operations\<close>

definition sp_submit :: "nat \<Rightarrow> nat \<Rightarrow> em_spec \<Rightarrow> em_spec" where
  "sp_submit n p a =
     (if n < 14 \<or> sp_qfree a = [] then sp_release p a
      else sp_enq_input (hd (sp_qfree a)) p (sp_cell_alloc a))"

lemma submit_release:
  assumes r: "em_rep s a" and e: "0 < sp_ext a p"
  shows "\<exists>s'. bindR (eth_pbuf_free_request p s) (\<lambda>s. Inr (count_lost nif s)) = Inr s' \<and>
    em_rep s' (sp_release p a)"
  using rep_free_request [OF r e] by (auto intro: rep_count_lost)

lemma router_queue_refines:
  assumes r: "em_rep s a" and e: "0 < sp_ext a p" and i: "unat (pb_if_idx (pbufs s p)) < ETH_NETIFS"
  shows "\<exists>s'. eth_add_packet_to_router_queue p s = Inr s' \<and>
    em_rep s' (sp_submit (unat (pb_len (pbufs s p))) p a)"
proof -
  have "0 < sp_refs a p"
    using e by (simp add: sp_refs_def)
  then have "unat (pb_ref (pbufs s p)) \<noteq> 0"
    using rep_held_not_free [OF r] rep_ref_val [OF r] by fastforce
  then have ref: "pb_ref (pbufs s p) \<noteq> 0" by auto
  define s1 where "s1 = upd_pb p (\<lambda>b. b\<lparr>pb_src_if := pb_if_idx b\<rparr>) s"
  have r1: "em_rep s1 a"
    unfolding s1_def using r i by (intro rep_upd_pb_frame) auto
  have len: "pb_len (pbufs s1 p) = pb_len (pbufs s p)"
    by (simp add: s1_def upd_pb_def)
  note start = eth_add_packet_to_router_queue_def [of p s, folded s1_def]
  show ?thesis
  proof (cases "pb_len (pbufs s p) < 14")
    case True
    then have "unat (pb_len (pbufs s p)) < 14"
      by (simp add: word_less_nat_alt)
    then show ?thesis
      using submit_release [OF r1 e] True ref i
      by (simp add: start Let_def len sp_submit_def not_le)
  next
    case False
    then have l: "\<not> unat (pb_len (pbufs s p)) < 14"
      by (simp add: word_less_nat_alt)
    show ?thesis
    proof (cases "sp_qfree a")
      case Nil
      obtain s2 where "eth_queue_entry_alloc s1 = (None, s2)" "em_rep s2 a"
        using rep_cell_alloc_fail [OF r1 Nil] by blast
      then show ?thesis
        using submit_release [of s2 a, OF _ e] Nil False ref i
        by (simp add: start Let_def len sp_submit_def not_le)
    next
      case (Cons c cs)
      obtain s2 where s2: "eth_queue_entry_alloc s1 = (Some c, s2)" "em_rep s2 (sp_cell_alloc a)"
        using rep_cell_alloc [OF r1 Cons] by blast
      have "c \<in># sp_limbo (sp_cell_alloc a)" "0 < sp_ext (sp_cell_alloc a) p"
        using Cons e by (simp_all add: sp_cell_alloc_def)
      note rep_link_input [OF s2(2) this]
      then show ?thesis
        using s2(1) Cons False l ref i
        by (simp add: start Let_def len sp_submit_def not_le rep_notify fill_input_def)
    qed
  qed
qed

text \<open>A cell in no queue may be written freely.\<close>

lemma rep_upd_q_frame:
  assumes r: "em_rep s a" and c: "c \<in># sp_work a + sp_limbo a"
    and "q_pbuf (f (queues s c)) = q_pbuf (queues s c)" and "q_st (f (queues s c)) \<noteq> St_free"
  shows "em_rep (upd_q c f s) a"
proof -
  have pl: "c \<notin> set (sp_qfree a)" "c \<notin> set (sp_inq a)" "c \<notin># out_cells (sp_outq a)"
    using c cell_place(4,5) [OF rep_cellsD [OF r], of c] by auto
  have "rep_cells (upd_q c f s) a"
    using r pl assms(3,4) unfolding em_rep_def rep_cells_def
    by (simp add: upd_q_def em_simps)
  moreover have "\<forall>k<ETH_NETIFS. rep_netif (upd_q c f s) a k"
    using r pl unfolding em_rep_def rep_netif_def
    by (simp add: upd_q_def em_simps out_chain_upd)
  moreover have "rep_pbufs (upd_q c f s) a" "rep_refs (upd_q c f s) a"
    using r unfolding em_rep_def rep_pbufs_def rep_refs_def by (simp_all add: upd_q_def)
  ultimately show ?thesis unfolding em_rep_def by blast
qed

definition sp_output :: "bool \<Rightarrow> bool \<Rightarrow> nat \<Rightarrow> nat \<Rightarrow> em_spec \<Rightarrow> em_spec" where
  "sp_output pending full c k a =
     (if pending then sp_cell_free c (sp_detach c a)
      else if full then sp_cell_free c (sp_release (sp_pbuf a c) (sp_detach c a))
      else sp_enq_output c k a)"

lemma work_ref:
  assumes r: "em_rep s a" and c: "c \<in># sp_work a"
  shows "pb_ref (pbufs s (sp_pbuf a c)) \<noteq> 0" and "q_st (queues s c) \<noteq> St_free"
    and "q_pbuf (queues s c) = sp_pbuf a c"
proof -
  have "c \<in># sp_cells a"
    using c by (simp add: sp_cells_def)
  then have "0 < sp_refs a (sp_pbuf a c)"
    by (simp add: sp_refs_def)
  then have "unat (pb_ref (pbufs s (sp_pbuf a c))) \<noteq> 0"
    using rep_held_not_free [OF r] rep_ref_val [OF r] by fastforce
  then show "pb_ref (pbufs s (sp_pbuf a c)) \<noteq> 0" by auto
  show "q_st (queues s c) \<noteq> St_free" "q_pbuf (queues s c) = sp_pbuf a c"
    using r cell_place(4) [OF rep_cellsD [OF r] c] by (auto simp: em_rep_def rep_cells_def)
qed

lemma rep_unpend:
  assumes "em_rep s a"
  shows "em_rep (upd_nif k (\<lambda>i. i\<lparr>callback_pending := 0\<rparr>) s) a"
  using assms by (intro rep_upd_nif_frame) auto

lemma rep_count_out:
  assumes "em_rep s a"
  shows "em_rep (upd_nif k (\<lambda>i. i\<lparr>dgrams_out := dgrams_out i + 1\<rparr>) s) a"
  using assms by (intro rep_upd_nif_frame) auto

lemma detach_limbo: "c \<in># sp_limbo (sp_detach c a)" "0 < sp_ext (sp_detach c a) (sp_pbuf a c)"
  by (simp_all add: sp_detach_def)

lemma em_calls_log: "em_calls (em_call_log x s) = em_calls s @ [x]"
  by (simp add: em_call_log_def)

lemma output_queue_refines:
  assumes r: "em_rep s a" and c: "c \<in># sp_work a" and k: "k < ETH_NETIFS"
  shows "\<exists>s'. eth_add_packet_to_output_queue c k s = Inr s' \<and>
    em_rep s' (sp_output (callback_pending (netifs s k) \<noteq> 0)
      (q_output_len_max (netifs s k) \<le> q_output_len (netifs s k)) c k a) \<and>
    em_calls s' = em_calls s @ (if callback_pending (netifs s k) \<noteq> 0
      then [Call_packet (the (nif_callback_fn (netifs s k))) (sp_pbuf a c) k] else [])"
proof -
  define s1 where "s1 = upd_q c (\<lambda>q. q\<lparr>q_next := None\<rparr>) s"
  note w = work_ref [OF r c]
  have r1: "em_rep s1 a"
    unfolding s1_def using r c w(2) by (intro rep_upd_q_frame) auto
  have s1: "netifs s1 = netifs s" "pbufs s1 = pbufs s" "em_calls s1 = em_calls s" "q_pbuf (queues s1 c) = sp_pbuf a c"
    "q_st (queues s1 c) = q_st (queues s c)"
    using w(3) by (simp_all add: s1_def upd_q_def)
  note start = eth_add_packet_to_output_queue_def [of c k s, folded s1_def]
  consider (pending) "callback_pending (netifs s k) \<noteq> 0"
    | (full) "callback_pending (netifs s k) = 0" "q_output_len_max (netifs s k) \<le> q_output_len (netifs s k)"
    | (room) "callback_pending (netifs s k) = 0" "\<not> q_output_len_max (netifs s k) \<le> q_output_len (netifs s k)"
    by blast
  then show ?thesis
  proof cases
    case pending
    then have e: "q_output_end (netifs s k) = None" and f: "\<exists>f. nif_callback_fn (netifs s k) = Some f"
      using r k by (auto simp: em_rep_def rep_netif_def)
    define s2 where "s2 = upd_nif k (\<lambda>i. i\<lparr>dgrams_out := dgrams_out i + 1\<rparr>)
      (upd_q c (\<lambda>q. q\<lparr>q_st := St_sending\<rparr>) (upd_nif k (\<lambda>i. i\<lparr>callback_pending := 0\<rparr>) s1))"
    have "em_rep (upd_q c (\<lambda>q. q\<lparr>q_st := St_sending\<rparr>) (upd_nif k (\<lambda>i. i\<lparr>callback_pending := 0\<rparr>) s1)) a"
      using r1 c by (intro rep_upd_q_frame rep_unpend) auto
    then have "em_rep s2 (sp_detach c a)"
      unfolding s2_def by (intro rep_detach rep_count_out c)
    from rep_cell_free [OF this detach_limbo(1)] obtain s3 where
      s3: "eth_queue_entry_free c s2 = Inr s3" "em_rep s3 (sp_cell_free c (sp_detach c a))"
        "netifs s3 = netifs s2" "em_calls s3 = em_calls s2" by blast
    have "nif_callback_fn (netifs s2 k) = nif_callback_fn (netifs s k)" "em_calls s2 = em_calls s"
      "q_pbuf (queues s2 c) = sp_pbuf a c"
      using s1 by (simp_all add: s2_def upd_nif_def upd_q_def)
    then show ?thesis
      using pending e f s3 w(1)
      by (auto simp: start Let_def s1 s2_def [symmetric] sp_output_def rep_call_log em_calls_log)
  next
    case full
    have "em_rep (count_lost k s1) (sp_detach c a)"
      using r1 c by (intro rep_detach rep_count_lost)
    from rep_free_request [OF this detach_limbo(2)] obtain s2 where
      s2: "eth_pbuf_free_request (sp_pbuf a c) (count_lost k s1) = Inr s2"
        "em_rep s2 (sp_release (sp_pbuf a c) (sp_detach c a))" "em_calls s2 = em_calls (count_lost k s1)" by blast
    have "c \<in># sp_limbo (sp_release (sp_pbuf a c) (sp_detach c a))"
      by (simp add: sp_release_def sp_detach_def)
    from rep_cell_free [OF s2(2) this] s2(1,3) full w(1) show ?thesis
      by (auto simp: start Let_def s1 sp_output_def count_lost_def upd_nif_def)
  next
    case room
    have "em_rep (link_output c k s1) (sp_enq_output c k a)"
      unfolding s1_def using r c k room(1) by (rule rep_link_output)
    moreover have "em_calls (link_output c k s1) = em_calls s"
      by (auto simp: link_output_def Let_def em_upd_defs s1 split: option.splits)
    ultimately show ?thesis
      using room w(1) by (simp add: start Let_def s1 sp_output_def)
  qed
qed

text \<open>A clone shares the buffer: one more cell in the router's hands, one more reference.\<close>

definition sp_clone :: "nat \<Rightarrow> em_spec \<Rightarrow> em_spec" where
  "sp_clone c a = a\<lparr>sp_qfree := tl (sp_qfree a), sp_work := add_mset (hd (sp_qfree a)) (sp_work a),
     sp_pbuf := (sp_pbuf a)(hd (sp_qfree a) := sp_pbuf a c)\<rparr>"

lemma clone_refines:
  assumes r: "em_rep s a" and c: "c \<in># sp_work a" and f: "sp_qfree a = d # ds"
    and lt: "sp_refs a (sp_pbuf a c) < 255"
  shows "\<exists>s'. eth_mem_clone c s = (Some d, s') \<and> em_rep s' (sp_clone c a)"
proof -
  let ?p = "sp_pbuf a c"
  obtain s1 where s1: "eth_queue_entry_alloc s = (Some d, s1)" "em_rep s1 (sp_cell_alloc a)" "pbufs s1 = pbufs s"
      "netifs s1 = netifs s" "queues s1 = (queues s)(d := (queues s d)\<lparr>q_st := St_allocated\<rparr>)"
    using rep_cell_alloc [OF r f] by blast
  have dc: "d \<noteq> c" "d \<notin># sp_cells a" and dl: "d \<in># sp_limbo (sp_cell_alloc a)"
    using cell_place(1) [OF rep_cellsD [OF r], of d] f c by (auto simp: sp_cells_def sp_cell_alloc_def)
  have pc: "q_pbuf (queues s1 c) = ?p"
    using work_ref(3) [OF r c] dc by (simp add: s1)
  let ?s = "upd_pb ?p (\<lambda>b. b\<lparr>pb_ref := pb_ref b + 1\<rparr>) (upd_q d (\<lambda>q. q\<lparr>q_pbuf := ?p\<rparr>) s1)"
  have cl: "eth_mem_clone c s = (Some d, ?s)"
    using dc pc by (simp add: eth_mem_clone_def s1 upd_q_def)
  have cells: "sp_cells (sp_clone c a) = add_mset d (sp_cells a)"
    by (simp add: sp_cells_def sp_clone_def f)
  have refs: "sp_refs (sp_clone c a) q = (if q = ?p then Suc (sp_refs a q) else sp_refs a q)" for q
    unfolding sp_refs_def cells using dc by (simp add: sp_clone_def f image_mset_upd)
  have "c \<in># sp_cells a"
    using c by (simp add: sp_cells_def)
  then have pos: "0 < sp_refs a ?p"
    by (simp add: sp_refs_def)
  then have held: "?p \<notin> set (sp_free a)" "?p \<notin> set (sp_frq a)" "?p < ETH_PBUFS_CNT"
    using rep_held_not_free [OF r] by auto
  have v: "unat (pb_ref (pbufs s ?p) + 1) = Suc (sp_refs a ?p)"
    using rep_ref_val [OF r held(2)] lt by (subst unat_inc) auto
  have "rep_refs ?s (sp_clone c a)"
    using r held v s1(3) unfolding em_rep_def rep_refs_def refs
    by (simp add: upd_pb_def upd_q_def sp_clone_def)
  moreover have "rep_pbufs ?s (sp_clone c a)" "\<forall>k<ETH_NETIFS. rep_netif ?s (sp_clone c a) k"
    using s1(2) unfolding em_rep_def rep_pbufs_def rep_netif_def
    by (simp_all add: upd_pb_def upd_q_def sp_clone_def sp_cell_alloc_def em_simps)
  moreover have "rep_cells ?s (sp_clone c a)"
    using s1(2) f unfolding em_rep_def rep_cells_def cells
    by (simp add: upd_pb_def upd_q_def sp_clone_def sp_cell_alloc_def em_simps)
  ultimately show ?thesis
    using cl unfolding em_rep_def by blast
qed

section \<open>The initial state\<close>

definition sp_init :: em_spec where
  "sp_init = \<lparr>sp_free = [0..<ETH_PBUFS_CNT], sp_frq = [], sp_qfree = [0..<ETH_MEM_BUFS_CNT], sp_inq = [],
     sp_outq = (\<lambda>_. []), sp_work = {#}, sp_limbo = {#}, sp_pbuf = (\<lambda>_. ETH_PBUFS_CNT), sp_ext = (\<lambda>_. 0)\<rparr>"

lemma chain_upt:
  "i < n \<Longrightarrow> (\<forall>j < n. nx j = (if Suc j < n then Some (Suc j) else None)) \<Longrightarrow> chain nx (Some i) [i..<n]"
proof (induction "n - i" arbitrary: i)
  case 0
  then show ?case by simp
next
  case (Suc m)
  show ?case
  proof (cases "Suc i < n")
    case True
    with Suc have "chain nx (Some (Suc i)) [Suc i..<n]" by simp
    with True Suc.prems show ?thesis by (simp add: upt_conv_Cons)
  next
    case False
    with Suc.prems have "n = Suc i" by simp
    with Suc.prems show ?thesis by (simp add: upt_conv_Cons)
  qed
qed

lemma out_cells_empty [simp]: "out_cells (\<lambda>_. []) = {#}"
  by (simp add: out_cells_def)

lemma init_rep: "em_rep eth_router_init sp_init"
proof -
  have "sp_refs sp_init p = 0" for p
    by (simp add: sp_refs_def sp_cells_def sp_init_def)
  moreover have "chain (pnx (pbufs eth_router_init)) (Some 0) [0..<ETH_PBUFS_CNT]"
    by (rule chain_upt) (auto simp: pnx_def eth_router_init_def eth_router_add_bridge_def init_pbuf_def)
  moreover have "chain (qnx (queues eth_router_init)) (Some 0) [0..<ETH_MEM_BUFS_CNT]"
    by (rule chain_upt) (auto simp: qnx_def eth_router_init_def eth_router_add_bridge_def init_queue_def)
  ultimately show ?thesis
    by (simp add: em_rep_defs) (auto simp: sp_init_def sp_cells_def eth_router_init_def eth_router_add_bridge_def
        zero_em_def init_queue_def init_pbuf_def init_netif_def zero_netif_def zero_pbuf_def)
qed

section \<open>Reachable states\<close>

text \<open>
  What drivers and the router do, one call at a time: a call of \<open>eth_mem.c\<close> is atomic (each runs
  under \<open>ETH_MEM_PROTECT\<close>). The second component keeps who holds which reference; a driver frees
  or submits only what it holds, and the router handles only cells it has taken. Drivers allocate
  with a NULL callback, as every call in the program does.
\<close>

definition nif_config :: "pkt_callback \<Rightarrow> q_callback option \<Rightarrow> u32 \<Rightarrow> u8 \<Rightarrow> ETH_NETIF \<Rightarrow> ETH_NETIF" where
  "nif_config f g m u n = n\<lparr>nif_callback_fn := Some f, q_update_cbk := g, q_output_len_max := m, if_up := u\<rparr>"

definition driver_fill :: "u8 list \<Rightarrow> nat \<Rightarrow> u16 \<Rightarrow> u16 \<Rightarrow> u8 \<Rightarrow> ETH_PBUF \<Rightarrow> ETH_PBUF" where
  "driver_fill m off l tt i b = b\<lparr>pb_mem := m, pb_off := off, pb_len := l, pb_tot_len := tt, pb_if_idx := i\<rparr>"

inductive em_reach :: "em \<Rightarrow> em_spec \<Rightarrow> bool" where
  init: "em_reach eth_router_init sp_init"
| config: "em_reach s a \<Longrightarrow> em_reach (upd_nif k (nif_config f g m u) s) a"
| alloc: "em_reach s a \<Longrightarrow> eth_pbuf_alloc None s = Inr (Some p, s') \<Longrightarrow> em_reach s' (sp_alloc p a)"
| fill: "em_reach s a \<Longrightarrow> 0 < sp_ext a p \<Longrightarrow> em_reach (upd_pb p (driver_fill m off l tt i) s) a"
| free: "em_reach s a \<Longrightarrow> 0 < sp_ext a p \<Longrightarrow> eth_pbuf_free_request p s = Inr s' \<Longrightarrow>
    em_reach s' (sp_release p a)"
| submit: "em_reach s a \<Longrightarrow> 0 < sp_ext a p \<Longrightarrow> unat (pb_if_idx (pbufs s p)) < ETH_NETIFS \<Longrightarrow>
    eth_add_packet_to_router_queue p s = Inr s' \<Longrightarrow>
    em_reach s' (sp_submit (unat (pb_len (pbufs s p))) p a)"
| reclaim: "em_reach s a \<Longrightarrow> free_blk ETH_PBUFS_CNT s = Inr s' \<Longrightarrow> em_reach s' (sp_reclaim a)"
| take: "em_reach s a \<Longrightarrow> take_input s = (Some c, s') \<Longrightarrow> em_reach s' (sp_take_input a)"
| route: "em_reach s a \<Longrightarrow> c \<in># sp_work a \<Longrightarrow> k < ETH_NETIFS \<Longrightarrow>
    eth_add_packet_to_output_queue c k s = Inr s' \<Longrightarrow>
    em_reach s' (sp_output (callback_pending (netifs s k) \<noteq> 0)
      (q_output_len_max (netifs s k) \<le> q_output_len (netifs s k)) c k a)"
| drop: "em_reach s a \<Longrightarrow> c \<in># sp_work a \<Longrightarrow>
    bindR (eth_pbuf_free_request (q_pbuf (queues s c)) s) (eth_queue_entry_free c) = Inr s' \<Longrightarrow>
    em_reach s' (sp_cell_free c (sp_release (sp_pbuf a c) (sp_detach c a)))"
| get: "em_reach s a \<Longrightarrow> k < ETH_NETIFS \<Longrightarrow> eth_get_packet k s = Inr (Some p, s') \<Longrightarrow>
    em_reach s' (sp_get_packet k a)"
| get_none: "em_reach s a \<Longrightarrow> k < ETH_NETIFS \<Longrightarrow> eth_get_packet k s = Inr (None, s') \<Longrightarrow> em_reach s' a"
| clone: "em_reach s a \<Longrightarrow> c \<in># sp_work a \<Longrightarrow> sp_refs a (sp_pbuf a c) < 255 \<Longrightarrow>
    eth_mem_clone c s = (Some d, s') \<Longrightarrow> em_reach s' (sp_clone c a)"

lemma rep_config: "em_rep s a \<Longrightarrow> em_rep (upd_nif k (nif_config f g m u) s) a"
  by (simp add: em_rep_defs upd_nif_def nif_config_def)

lemma rep_fill: "em_rep s a \<Longrightarrow> em_rep (upd_pb p (driver_fill m off l tt i) s) a"
  by (rule rep_upd_pb_frame) (auto simp: driver_fill_def em_rep_def rep_refs_def)

lemma alloc_none_cases:
  assumes r: "em_rep s a" and al: "eth_pbuf_alloc None s = Inr (Some p, s')"
  shows "\<exists>fl. sp_free a = p # fl" and "em_rep s' (sp_alloc p a)"
proof -
  obtain q fl where f: "sp_free a = q # fl"
  proof (cases "sp_free a")
    case Nil
    then have "pc_free_chain s = None"
      using r by (simp add: em_rep_def rep_pbufs_def)
    with al have False
      by (simp add: eth_pbuf_alloc_def do_eth_pbuf_alloc_def)
    then show ?thesis ..
  qed
  from rep_alloc [OF r f, of None] al f
  show "\<exists>fl. sp_free a = p # fl" and "em_rep s' (sp_alloc p a)" by auto
qed

lemma rep_drop:
  assumes r: "em_rep s a" and c: "c \<in># sp_work a"
  shows "\<exists>s'. bindR (eth_pbuf_free_request (q_pbuf (queues s c)) s) (eth_queue_entry_free c) = Inr s' \<and>
    em_rep s' (sp_cell_free c (sp_release (sp_pbuf a c) (sp_detach c a)))"
proof -
  have q: "q_pbuf (queues s c) = sp_pbuf a c"
    using work_ref(3) [OF r c] .
  from rep_free_request [OF rep_detach [OF r c] detach_limbo(2)] obtain s2 where
    s2: "eth_pbuf_free_request (sp_pbuf a c) s = Inr s2" "em_rep s2 (sp_release (sp_pbuf a c) (sp_detach c a))" by blast
  have "c \<in># sp_limbo (sp_release (sp_pbuf a c) (sp_detach c a))"
    by (simp add: sp_release_def sp_detach_def)
  from rep_cell_free [OF s2(2) this] s2(1) q show ?thesis by auto
qed

lemma clone_cases:
  assumes "em_rep s a" and "eth_mem_clone c s = (Some d, s')"
  shows "\<exists>ds. sp_qfree a = d # ds"
proof (cases "sp_qfree a")
  case Nil
  with rep_cell_alloc_fail [OF assms(1) this] assms(2) show ?thesis
    by (auto simp: eth_mem_clone_def)
next
  case (Cons e ds)
  with rep_cell_alloc [OF assms(1) this] assms(2) show ?thesis
    by (auto simp: eth_mem_clone_def)
qed

lemma get_cases:
  assumes r: "em_rep s a" and k: "k < ETH_NETIFS"
  shows "\<exists>po s'. eth_get_packet k s = Inr (po, s') \<and>
    (case po of Some p \<Rightarrow> sp_outq a k \<noteq> [] \<and> p = sp_pbuf a (hd (sp_outq a k)) \<and> em_rep s' (sp_get_packet k a)
     | None \<Rightarrow> sp_outq a k = [] \<and> em_rep s' a)"
proof (cases "sp_outq a k")
  case Nil
  from rep_get_packet_empty [OF r k Nil] Nil show ?thesis by force
next
  case (Cons c cs)
  from rep_get_packet [OF r k Cons] Cons show ?thesis by force
qed

lemma reach_rep: "em_reach s a \<Longrightarrow> em_rep s a"
proof (induction rule: em_reach.induct)
  case init
  show ?case by (rule init_rep)
next
  case (config s a k f g m u)
  then show ?case by (intro rep_config)
next
  case (alloc s a p s')
  then show ?case by (intro alloc_none_cases(2))
next
  case (fill s a p m off l tt i)
  then show ?case by (intro rep_fill)
next
  case (free s a p s')
  with rep_free_request [of s a p] show ?case by auto
next
  case (submit s a p s')
  with router_queue_refines [of s a p] show ?case by auto
next
  case (reclaim s a s')
  with rep_free_blk [of s a ETH_PBUFS_CNT] frq_length [of s a] show ?case by auto
next
  case (take s a c s')
  then obtain d cs where d: "sp_inq a = d # cs"
    using take_input_empty [of s a] by (cases "sp_inq a") auto
  from rep_take_input [OF take.IH d] take.hyps(2) show ?case by auto
next
  case (route s a c k s')
  with output_queue_refines [of s a c k] show ?case by auto
next
  case (drop s a c s')
  with rep_drop [of s a c] show ?case by auto
next
  case (get s a k p s')
  with get_cases [of s a k] show ?case by auto
next
  case (get_none s a k s')
  with get_cases [of s a k] show ?case by auto
next
  case (clone s a c d s')
  with clone_cases [of s a c d s'] clone_refines [of s a c d] show ?case by auto
qed

section \<open>What every reachable state guarantees\<close>

lemma sp_init_free: "sp_free sp_init = 0 # [Suc 0..<ETH_PBUFS_CNT]"
  unfolding sp_init_def em_spec.select_convs by (rule upt_conv_Cons) simp

lemma first_alloc:
  "\<exists>s. eth_pbuf_alloc None eth_router_init = Inr (Some 0, s) \<and> em_reach s (sp_alloc 0 sp_init) \<and>
     pbufs s = (pbufs eth_router_init)(0 := alloc_init 0 (pbufs eth_router_init 0))"
proof -
  from rep_alloc [OF init_rep sp_init_free, of None] obtain s where
    al: "eth_pbuf_alloc None eth_router_init = Inr (Some 0, s)"
      "pbufs s = (pbufs eth_router_init)(0 := alloc_init 0 (pbufs eth_router_init 0))"
    by (auto simp: alloc_idx_def)
  then show ?thesis using em_reach.alloc [OF em_reach.init al(1)] by blast
qed

lemma sp_first_alloc: "sp_frq (sp_alloc 0 sp_init) = []" "sp_ext (sp_alloc 0 sp_init) 0 = 1"
  by (simp_all only: sp_alloc_def sp_init_def em_spec.simps fun_upd_same)

lemma count_image_filter: "count (image_mset f M) p = size (filter_mset (\<lambda>c. f c = p) M)"
  by (induction M) auto

lemma count_image_0: "count (image_mset f M) p = 0 \<longleftrightarrow> (\<forall>c \<in># M. f c \<noteq> p)"
  by (auto simp: count_eq_zero_iff)

text \<open>
  C2: Reference counting is exact. In every reachable state the \<open>ref\<close> field of a buffer that is
  not waiting to be freed equals the number of references drivers hold plus the number of queue
  cells (in the input queue, in an output queue or in the router's hands) that point to it; a
  buffer waiting to be freed has \<open>ref = 1\<close> and nobody refers to it.
\<close>

theorem em_ref_count:
  assumes "em_reach s a"
  shows "unat (pb_ref (pbufs s p)) =
    (if p \<in> set (sp_frq a) then 1
     else sp_ext a p + size (filter_mset (\<lambda>c. q_pbuf (queues s c) = p) (sp_cells a))) \<and>
    (p \<in> set (sp_frq a) \<longrightarrow> sp_ext a p = 0 \<and> (\<forall>c \<in># sp_cells a. q_pbuf (queues s c) \<noteq> p))"
proof (intro conjI impI)
  have r: "em_rep s a" using assms by (rule reach_rep)
  have q: "q_pbuf (queues s c) = sp_pbuf a c" for c
    using r by (simp add: em_rep_def rep_cells_def)
  show "unat (pb_ref (pbufs s p)) =
    (if p \<in> set (sp_frq a) then 1
     else sp_ext a p + size (filter_mset (\<lambda>c. q_pbuf (queues s c) = p) (sp_cells a)))"
    using r by (simp add: em_rep_def rep_refs_def sp_refs_def q count_image_filter)
  assume "p \<in> set (sp_frq a)"
  then have "sp_refs a p = 0"
    using r by (intro rep_refs_free) auto
  then show "sp_ext a p = 0" "\<forall>c \<in># sp_cells a. q_pbuf (queues s c) \<noteq> p"
    by (auto simp: sp_refs_def q count_image_0)
qed

theorem em_ref_count_witness:
  "\<exists>s a. em_reach s a \<and> unat (pb_ref (pbufs s 0)) = 1 \<and> sp_ext a 0 = 1 \<and>
    unat (pb_ref (pbufs s 0)) = sp_ext a 0 + size (filter_mset (\<lambda>c. q_pbuf (queues s c) = 0) (sp_cells a))"
proof -
  obtain s where s: "em_reach s (sp_alloc 0 sp_init)" "pb_ref (pbufs s 0) = 1"
    using first_alloc by (auto simp: alloc_init_def)
  show ?thesis
    using em_ref_count [OF s(1), of 0] s
    by (intro exI [of _ s] exI [of _ "sp_alloc 0 sp_init"]) (simp add: sp_first_alloc)
qed

text \<open>
  C3: No assertion of \<open>eth_mem.c\<close> fires and no loop of it runs away while drivers and router
  keep to the protocol: in every reachable state, releasing a held buffer, submitting a held
  buffer whose interface number is valid, reclaiming the freed buffers (at most \<open>ETH_PBUFS_CNT\<close>
  turns of the loop), taking a packet from an output queue, and routing or dropping a cell the
  router holds all return.
\<close>

theorem em_no_assert:
  assumes "em_reach s a"
  shows "(\<forall>p. 0 < sp_ext a p \<longrightarrow> (\<exists>s'. eth_pbuf_free_request p s = Inr s')) \<and>
    (\<forall>p. 0 < sp_ext a p \<and> unat (pb_if_idx (pbufs s p)) < ETH_NETIFS \<longrightarrow>
      (\<exists>s'. eth_add_packet_to_router_queue p s = Inr s')) \<and>
    (\<exists>s'. free_blk ETH_PBUFS_CNT s = Inr s' \<and> free_pbuf_q_begin s' = None) \<and>
    (\<forall>k < ETH_NETIFS. \<exists>r. eth_get_packet k s = Inr r) \<and>
    (\<forall>c. c \<in># sp_work a \<longrightarrow>
      (\<forall>k < ETH_NETIFS. \<exists>s'. eth_add_packet_to_output_queue c k s = Inr s') \<and>
      (\<exists>s'. bindR (eth_pbuf_free_request (q_pbuf (queues s c)) s) (eth_queue_entry_free c) = Inr s'))"
proof -
  have r: "em_rep s a" using assms by (rule reach_rep)
  have 1: "\<exists>s'. free_blk ETH_PBUFS_CNT s = Inr s' \<and> free_pbuf_q_begin s' = None"
    using rep_free_blk [OF r frq_length [OF r]] rep_frq_begin by (auto simp: sp_reclaim_def)
  have 2: "\<exists>r. eth_get_packet k s = Inr r" if "k < ETH_NETIFS" for k
    using get_cases [OF r that] by blast
  show ?thesis
    using 1 2 rep_free_request [OF r] router_queue_refines [OF r] output_queue_refines [OF r] rep_drop [OF r]
    by meson
qed

theorem em_no_assert_witness:
  "\<exists>s s'. em_reach s (sp_alloc 0 sp_init) \<and> eth_pbuf_free_request 0 s = Inr s'"
proof -
  obtain s where s: "em_reach s (sp_alloc 0 sp_init)"
    using first_alloc by blast
  have e: "0 < sp_ext (sp_alloc 0 sp_init) 0"
    by (simp only: sp_first_alloc)
  show ?thesis
    using em_no_assert [OF s] e s by blast
qed

text \<open>
  Allocation is exclusive. A buffer returned by \<open>eth_pbuf_alloc\<close> in a reachable state was held
  by no driver and referred to by no cell; it comes with \<open>ref = 1\<close> and an unlinked \<open>next\<close>, and no
  other buffer and no interface is touched.
\<close>

lemma em_alloc_exclusive:
  assumes "em_reach s a" and "eth_pbuf_alloc None s = Inr (Some p, s')"
  shows "p < ETH_PBUFS_CNT \<and> sp_ext a p = 0 \<and> (\<forall>c \<in># sp_cells a. q_pbuf (queues s c) \<noteq> p) \<and>
    pb_ref (pbufs s' p) = 1 \<and> pb_next (pbufs s' p) = None \<and> pb_off (pbufs s' p) = 0 \<and>
    (\<forall>q. q \<noteq> p \<longrightarrow> pbufs s' q = pbufs s q) \<and> netifs s' = netifs s"
proof -
  have r: "em_rep s a" using assms(1) by (rule reach_rep)
  obtain fl where f: "sp_free a = p # fl"
    using alloc_none_cases(1) [OF r assms(2)] by blast
  have "sp_refs a p = 0" "p < ETH_PBUFS_CNT"
    using f by (auto intro: rep_refs_free [OF r] rep_free_less [OF r])
  moreover have "q_pbuf (queues s c) = sp_pbuf a c" for c
    using r by (simp add: em_rep_def rep_cells_def)
  moreover have "pbufs s' = (pbufs s)(p := alloc_init (alloc_idx None s) (pbufs s p))" "netifs s' = netifs s"
    using rep_alloc [OF r f, of None] assms(2) by auto
  ultimately show ?thesis
    by (auto simp: sp_refs_def alloc_init_def count_image_0)
qed

lemma em_alloc_exclusive_witness:
  "\<exists>s'. eth_pbuf_alloc None eth_router_init = Inr (Some 0, s') \<and> pb_ref (pbufs s' 0) = 1 \<and> sp_ext sp_init 0 = 0"
  using first_alloc em_alloc_exclusive [OF em_reach.init] by blast

text \<open>
  C8: Nothing leaks. When no driver holds a buffer and no cell is queued or in the router's hands,
  the reclaim loop returns every buffer: the usage counter is 0 and all \<open>ETH_PBUFS_CNT\<close> buffers
  are on the free chain.
\<close>

theorem em_no_leak:
  assumes "em_reach s a" and "\<forall>p. sp_ext a p = 0" and "sp_cells a = {#}"
  shows "\<exists>s' fl. free_blk ETH_PBUFS_CNT s = Inr s' \<and> pc_used s' = 0 \<and>
    chain (pnx (pbufs s')) (pc_free_chain s') fl \<and> set fl = {..<ETH_PBUFS_CNT}"
proof -
  have r: "em_rep s a" using assms(1) by (rule reach_rep)
  obtain s' where s': "free_blk ETH_PBUFS_CNT s = Inr s'" "em_rep s' (sp_reclaim a)"
    using rep_free_blk [OF r frq_length [OF r]] by blast
  let ?fl = "sp_free (sp_reclaim a)"
  have "sp_refs a p = 0" for p
    using assms(2,3) by (simp add: sp_refs_def)
  then have "set ?fl = {..<ETH_PBUFS_CNT}"
    using r by (auto simp: sp_reclaim_def em_rep_def rep_refs_def rep_pbufs_def)
  moreover from s'(2) have d: "distinct ?fl" "unat (pc_used s') + length ?fl = ETH_PBUFS_CNT"
    "chain (pnx (pbufs s')) (pc_free_chain s') ?fl"
    by (simp_all add: em_rep_def rep_pbufs_def sp_reclaim_def)
  ultimately have "length ?fl = ETH_PBUFS_CNT"
    using distinct_card [OF d(1)] by simp
  with d(2) have "pc_used s' = 0"
    by (simp add: unsigned_eq_0_iff)
  then show ?thesis
    using s'(1) d(3) \<open>set ?fl = {..<ETH_PBUFS_CNT}\<close> by blast
qed

theorem em_no_leak_witness:
  "\<exists>s' fl. free_blk ETH_PBUFS_CNT eth_router_init = Inr s' \<and> pc_used s' = 0 \<and>
    chain (pnx (pbufs s')) (pc_free_chain s') fl \<and> set fl = {..<ETH_PBUFS_CNT}"
  by (rule em_no_leak [OF em_reach.init]) (simp_all only: sp_init_def sp_cells_def em_spec.simps out_cells_empty, simp_all)

text \<open>
  On an exhausted pool \<open>eth_pbuf_alloc\<close> with a NULL callback, the way every caller in the
  program calls it, does not return NULL, which is what the callers test for: it writes
  \<open>if_idx\<close> through the NULL pointer. With a callback it returns NULL.
\<close>

lemma alloc_exhausted:
  "pc_free_chain s = None \<Longrightarrow>
   eth_pbuf_alloc None s = Inl NULL_DEREF \<and> (\<exists>s'. eth_pbuf_alloc (Some c) s = Inr (None, s') \<and> pbufs s' = pbufs s)"
  by (auto simp: eth_pbuf_alloc_def do_eth_pbuf_alloc_def Let_def em_upd_defs split: option.splits)

lemma alloc_exhausted_witness:
  "eth_pbuf_alloc None zero_em = Inl NULL_DEREF"
  using alloc_exhausted [of zero_em 0] by (simp add: zero_em_def)

section \<open>The router's input queue is a FIFO\<close>

definition input_rep :: "em \<Rightarrow> nat list \<Rightarrow> bool" where
  "input_rep s xs \<longleftrightarrow> chain (qnx (queues s)) (q_input_begin s) xs \<and> q_input_end s = last_opt xs \<and> distinct xs"

text \<open>Cell \<open>c\<close> is filled with buffer \<open>pb c\<close> and linked for interface \<open>nif c\<close>, as \<open>eth_add_packet_to_router_queue\<close> does.\<close>

definition enq_input :: "(nat \<Rightarrow> nat) \<Rightarrow> (nat \<Rightarrow> nat) \<Rightarrow> nat \<Rightarrow> em \<Rightarrow> em" where
  "enq_input nif pb c s = link_input (nif c) c (fill_input c (pb c) s)"

lemma link_input_fields:
  "q_input_begin (link_input k c s) = (case q_input_end s of None \<Rightarrow> Some c | Some e \<Rightarrow> q_input_begin s)"
  "q_input_end (link_input k c s) = Some c"
  "queues (link_input k c s) = (case q_input_end s of None \<Rightarrow> queues s
     | Some e \<Rightarrow> (queues s)(e := (queues s e)\<lparr>q_next := Some c\<rparr>))"
  by (simp_all add: link_input_def Let_def em_upd_defs split: option.splits)

lemma enq_input_rep:
  assumes "input_rep s xs" and "c \<notin> set xs"
  shows "input_rep (enq_input nif pb c s) (xs @ [c])"
proof (cases "xs = []")
  case True
  then show ?thesis
    using assms
    by (simp add: input_rep_def enq_input_def link_input_fields fill_input_def upd_q_def em_simps last_opt_def)
next
  case False
  let ?nx = "(qnx (queues s))(c := None)"
  have l: "last xs \<noteq> c"
    using assms(2) False by (metis last_in_set)
  have "chain ?nx (q_input_begin s) xs"
    using assms by (simp add: input_rep_def)
  then have "chain (?nx(last xs := Some c)) (q_input_begin s) (xs @ [c])"
    using assms False by (intro chain_snoc) (auto simp: input_rep_def)
  moreover have "q_input_end s = Some (last xs)"
    using assms(1) False by (simp add: input_rep_def last_opt_def)
  moreover have "distinct (xs @ [c])"
    using assms by (simp add: input_rep_def)
  ultimately show ?thesis
    using l by (simp add: input_rep_def enq_input_def link_input_fields fill_input_def upd_q_def em_simps)
qed

lemma take_input_rep:
  assumes "input_rep s (c # cs)"
  shows "fst (take_input s) = Some c \<and> input_rep (snd (take_input s)) cs"
proof -
  have ch: "chain (qnx (queues s)) (q_next (queues s c)) cs" and c: "c \<notin> set cs" "q_input_begin s = Some c"
    and d: "distinct cs" "q_input_end s = last_opt (c # cs)"
    using assms by (auto simp: input_rep_def qnx_def)
  have "q_next (queues s c) = None \<longleftrightarrow> cs = []"
    using ch by (cases cs) auto
  then show ?thesis
    using ch c d by (auto simp: take_input_def Let_def input_rep_def upd_q_def em_simps last_opt_Cons)
qed

interpretation inq: fifo input_rep "\<lambda>_ _. True" "enq_input nif pb" take_input for nif pb
  by unfold_locales
    (auto simp: enq_input_rep take_input_rep, auto simp: input_rep_def take_input_def)

text \<open>Cells queued one after the other come out in that order, when nothing happens in between.\<close>

lemma input_drains_in_order:
  assumes "input_rep s []" and "distinct cs"
  shows "fifo.deq_n take_input (length cs) (fifo.enq_all (enq_input nif pb) cs s) = map Some cs"
  using inq.fifo_order [of s cs nif pb] assms by simp

text \<open>
  Executions with their history: \<open>em_hist s a is os\<close> holds of the states reached by any interleaving
  of the operations of the drivers and of the router, with the buffers \<open>is\<close> accepted so far by
  \<open>eth_add_packet_to_router_queue\<close> and the buffers \<open>os\<close> the router has taken so far. A packet is
  accepted when it has the length of a header and a queue cell is free.
\<close>

definition accepts :: "nat \<Rightarrow> em \<Rightarrow> bool" where
  "accepts p s \<longleftrightarrow> 14 \<le> pb_len (pbufs s p) \<and> q_begin s \<noteq> None"

inductive em_other :: "em \<Rightarrow> em_spec \<Rightarrow> em \<Rightarrow> em_spec \<Rightarrow> bool" where
  config: "em_other s a (upd_nif k (nif_config f g m u) s) a"
| alloc: "eth_pbuf_alloc None s = Inr (Some p, s') \<Longrightarrow> em_other s a s' (sp_alloc p a)"
| fill: "0 < sp_ext a p \<Longrightarrow> em_other s a (upd_pb p (driver_fill m off l tt i) s) a"
| free: "0 < sp_ext a p \<Longrightarrow> eth_pbuf_free_request p s = Inr s' \<Longrightarrow> em_other s a s' (sp_release p a)"
| reclaim: "free_blk ETH_PBUFS_CNT s = Inr s' \<Longrightarrow> em_other s a s' (sp_reclaim a)"
| route: "c \<in># sp_work a \<Longrightarrow> k < ETH_NETIFS \<Longrightarrow> eth_add_packet_to_output_queue c k s = Inr s' \<Longrightarrow>
    em_other s a s' (sp_output (callback_pending (netifs s k) \<noteq> 0)
      (q_output_len_max (netifs s k) \<le> q_output_len (netifs s k)) c k a)"
| drop: "c \<in># sp_work a \<Longrightarrow>
    bindR (eth_pbuf_free_request (q_pbuf (queues s c)) s) (eth_queue_entry_free c) = Inr s' \<Longrightarrow>
    em_other s a s' (sp_cell_free c (sp_release (sp_pbuf a c) (sp_detach c a)))"
| get: "k < ETH_NETIFS \<Longrightarrow> eth_get_packet k s = Inr (Some p, s') \<Longrightarrow> em_other s a s' (sp_get_packet k a)"
| get_none: "k < ETH_NETIFS \<Longrightarrow> eth_get_packet k s = Inr (None, s') \<Longrightarrow> em_other s a s' a"
| clone: "c \<in># sp_work a \<Longrightarrow> sp_refs a (sp_pbuf a c) < 255 \<Longrightarrow> eth_mem_clone c s = (Some d, s') \<Longrightarrow>
    em_other s a s' (sp_clone c a)"

inductive em_hist :: "em \<Rightarrow> em_spec \<Rightarrow> nat list \<Rightarrow> nat list \<Rightarrow> bool" where
  init: "em_hist eth_router_init sp_init [] []"
| submit: "em_hist s a is os \<Longrightarrow> 0 < sp_ext a p \<Longrightarrow> unat (pb_if_idx (pbufs s p)) < ETH_NETIFS \<Longrightarrow>
    eth_add_packet_to_router_queue p s = Inr s' \<Longrightarrow>
    em_hist s' (sp_submit (unat (pb_len (pbufs s p))) p a) (if accepts p s then is @ [p] else is) os"
| take: "em_hist s a is os \<Longrightarrow> take_input s = (Some c, s') \<Longrightarrow>
    em_hist s' (sp_take_input a) is (os @ [q_pbuf (queues s c)])"
| other: "em_hist s a is os \<Longrightarrow> em_other s a s' a' \<Longrightarrow> em_hist s' a' is os"

lemma other_reach: "em_other s a s' a' \<Longrightarrow> em_reach s a \<Longrightarrow> em_reach s' a'"
  by (induction rule: em_other.induct) (blast intro: em_reach.intros)+

lemma hist_reach: "em_hist s a is os \<Longrightarrow> em_reach s a"
  by (induction rule: em_hist.induct) (blast intro: em_reach.intros other_reach)+

text \<open>The histories leave out no reachable state.\<close>

lemma hist_other: "\<exists>is os. em_hist s a is os \<Longrightarrow> em_other s a s' a' \<Longrightarrow> \<exists>is os. em_hist s' a' is os"
  by (blast intro: em_hist.other)

lemma reach_hist: "em_reach s a \<Longrightarrow> \<exists>is os. em_hist s a is os"
proof (induction rule: em_reach.induct)
  case init
  show ?case using em_hist.init by blast
next
  case (submit s a p s')
  then show ?case using em_hist.submit by blast
next
  case (take s a c s')
  then show ?case using em_hist.take by blast
qed (rule hist_other, assumption, (rule em_other.intros; assumption))+

lemma cell_of_queue:
  assumes "em_rep s a"
  shows "c \<in> set (sp_qfree a) \<Longrightarrow> c \<notin> set (sp_inq a)"
    and "q_pbuf (queues s c) = sp_pbuf a c" and "q_begin s = None \<longleftrightarrow> sp_qfree a = []"
proof -
  show "c \<in> set (sp_qfree a) \<Longrightarrow> c \<notin> set (sp_inq a)"
    using cell_place(1) [OF rep_cellsD [OF assms]] by simp
  show "q_pbuf (queues s c) = sp_pbuf a c" "q_begin s = None \<longleftrightarrow> sp_qfree a = []"
    using assms by (cases "sp_qfree a"; simp add: em_rep_def rep_cells_def)+
qed

lemma other_queue:
  assumes "em_other s a s' a'" and "em_rep s a"
  shows "map (sp_pbuf a') (sp_inq a') = map (sp_pbuf a) (sp_inq a)"
  using assms
proof (induction rule: em_other.induct)
  case (clone c a s d s')
  obtain ds where "sp_qfree a = d # ds" using clone_cases [OF clone.prems clone.hyps(3)] by blast
  then show ?case using cell_of_queue(1) [OF clone.prems, of d] by (simp add: sp_clone_def)
qed (simp_all add: sp_alloc_def sp_release_def sp_reclaim_def sp_output_def sp_cell_free_def sp_detach_def sp_enq_output_def
    sp_get_packet_def Let_def)

lemma submit_queue:
  assumes "em_rep s a"
  shows "map (sp_pbuf (sp_submit (unat (pb_len (pbufs s p))) p a)) (sp_inq (sp_submit (unat (pb_len (pbufs s p))) p a)) =
    map (sp_pbuf a) (sp_inq a) @ (if accepts p s then [p] else [])"
proof -
  have l: "unat (pb_len (pbufs s p)) < 14 \<longleftrightarrow> \<not> 14 \<le> pb_len (pbufs s p)"
    by (simp add: word_le_nat_alt not_le)
  have "sp_qfree a \<noteq> [] \<Longrightarrow> hd (sp_qfree a) \<notin> set (sp_inq a)"
    using cell_of_queue(1) [OF assms] hd_in_set by blast
  then show ?thesis
    using cell_of_queue(3) [OF assms]
    by (auto simp: sp_submit_def accepts_def l sp_release_def sp_enq_input_def sp_cell_alloc_def)
qed

lemma take_cases:
  assumes "em_rep s a" and "take_input s = (Some c, s')"
  shows "\<exists>cs. sp_inq a = c # cs"
proof (cases "sp_inq a")
  case Nil
  then show ?thesis using take_input_empty [OF assms(1)] assms(2) by simp
next
  case (Cons d cs)
  then show ?thesis using rep_take_input [OF assms(1) Cons] assms(2) by auto
qed

lemma hist_queue: "em_hist s a is os \<Longrightarrow> is = os @ map (sp_pbuf a) (sp_inq a)"
proof (induction rule: em_hist.induct)
  case init
  show ?case by (simp add: sp_init_def)
next
  case (submit s a "is" os p s')
  then show ?case using submit_queue [OF reach_rep [OF hist_reach], OF submit.hyps(1), of p] by simp
next
  case (take s a "is" os c s')
  note r = reach_rep [OF hist_reach, OF take.hyps(1)]
  obtain cs where "sp_inq a = c # cs" using take_cases [OF r take.hyps(2)] by blast
  then show ?case using take.IH cell_of_queue(2) [OF r] by (simp add: sp_take_input_def)
next
  case (other s a "is" os s' a')
  then show ?case using other_queue [OF other.hyps(2) reach_rep [OF hist_reach], OF other.hyps(1)] by simp
qed

text \<open>
  C23: The router's input queue is a FIFO that loses nothing. Over any interleaving of submissions,
  of the router's takes and of every other operation on buffers, cells and queues, the packets taken
  so far are the first of the packets accepted so far, in the same order; the next take returns the
  next accepted packet, and reports an empty queue exactly when every accepted packet has been taken.
\<close>

theorem router_input_fifo:
  assumes "em_hist s a is os"
  shows "\<exists>rest. is = os @ rest \<and>
    (case rest of [] \<Rightarrow> take_input s = (None, s)
     | p # ps \<Rightarrow> \<exists>c s'. take_input s = (Some c, s') \<and> q_pbuf (queues s c) = p)"
proof -
  have r: "em_rep s a" using assms by (intro reach_rep hist_reach)
  show ?thesis
  proof (cases "sp_inq a")
    case Nil
    then show ?thesis using hist_queue [OF assms] take_input_empty [OF r] by simp
  next
    case (Cons c cs)
    then show ?thesis
      using hist_queue [OF assms] rep_take_input [OF r Cons] cell_of_queue(2) [OF r] by auto
  qed
qed

text \<open>Two rounds: the first packet is taken and the queue empty before the second is submitted.\<close>

lemma hist_round:
  assumes h: "em_hist s a is os" and f: "sp_free a = p # fl" and q: "sp_qfree a \<noteq> []"
  shows "\<exists>s' a'. em_hist s' a' (is @ [p]) os \<and> sp_free a' = fl \<and> sp_qfree a' = tl (sp_qfree a)"
proof -
  note r = reach_rep [OF hist_reach, OF h]
  obtain s1 where s1: "eth_pbuf_alloc None s = Inr (Some p, s1)"
    using rep_alloc [OF r f, of None] by blast
  let ?s = "upd_pb p (driver_fill [] 0 100 100 3) s1" and ?a = "sp_alloc p a"
  have e: "0 < sp_ext ?a p" by (simp add: sp_alloc_def)
  have h2: "em_hist ?s ?a is os"
    using em_hist.other [OF em_hist.other [OF h em_other.alloc [OF s1]] em_other.fill [OF e]] .
  note r2 = reach_rep [OF hist_reach, OF h2]
  have x: "pb_if_idx (pbufs ?s p) = 3" "pb_len (pbufs ?s p) = 100" by (simp_all add: upd_pb_def driver_fill_def)
  have i: "unat (pb_if_idx (pbufs ?s p)) < ETH_NETIFS" unfolding x by simp
  have qa: "sp_qfree ?a = sp_qfree a" by (simp add: sp_alloc_def)
  have "accepts p ?s"
    using cell_of_queue(3) [OF r2] q qa x(2) by (simp add: accepts_def)
  moreover obtain s3 where "eth_add_packet_to_router_queue p ?s = Inr s3"
    using router_queue_refines [OF r2 e i] by blast
  ultimately have "em_hist s3 (sp_submit 100 p ?a) (is @ [p]) os"
    using em_hist.submit [OF h2 e i] x(2) by fastforce
  then show ?thesis
    using f q by (intro exI [of _ s3] exI [of _ "sp_submit 100 p ?a"])
      (simp add: sp_submit_def sp_enq_input_def sp_cell_alloc_def sp_alloc_def)
qed

lemma sp_init_lists: "sp_free sp_init = 0 # 1 # [2..<ETH_PBUFS_CNT]" "sp_qfree sp_init = 0 # 1 # [2..<ETH_MEM_BUFS_CNT]"
  by (simp_all add: sp_init_def upt_conv_Cons)

theorem router_input_fifo_witness:
  "\<exists>s a c s'. em_hist s a [0, 1] [0] \<and> take_input s = (Some c, s') \<and> q_pbuf (queues s c) = 1"
proof -
  obtain s1 a1 where 1: "em_hist s1 a1 [0] []" "sp_free a1 = 1 # [2..<ETH_PBUFS_CNT]" "sp_qfree a1 = 1 # [2..<ETH_MEM_BUFS_CNT]"
    using hist_round [OF em_hist.init sp_init_lists(1)] sp_init_lists(2) by auto
  have "map (sp_pbuf a1) (sp_inq a1) = [0]" using hist_queue [OF 1(1)] by simp
  then obtain c where c: "sp_inq a1 = [c]" "sp_pbuf a1 c = 0" by auto
  note r1 = reach_rep [OF hist_reach, OF 1(1)]
  obtain s2 where "take_input s1 = (Some c, s2)" using rep_take_input [OF r1 c(1)] by blast
  then have 2: "em_hist s2 (sp_take_input a1) [0] [0]"
    using em_hist.take [OF 1(1)] cell_of_queue(2) [OF r1] c(2) by fastforce
  have "sp_free (sp_take_input a1) = 1 # [2..<ETH_PBUFS_CNT]" "sp_qfree (sp_take_input a1) \<noteq> []"
    using 1(2,3) by (simp_all add: sp_take_input_def)
  from hist_round [OF 2 this] obtain s a where "em_hist s a [0, 1] [0]" by auto
  with router_input_fifo [OF this] show ?thesis by fastforce
qed

section \<open>Counters and limits\<close>

lemma reclaim_single:
  assumes r: "em_rep s a" and f: "sp_frq a = [p]" and k: "unat (pb_src_if (pbufs s p)) = k"
  shows "\<exists>s'. free_blk ETH_PBUFS_CNT s = Inr s' \<and>
    input_queue_len (netifs s' k) = input_queue_len (netifs s k) - 1"
proof -
  obtain s1 where s1: "free_blk_one p s = Inr s1" "em_rep s1 (sp_reclaim_one a)"
    using rep_free_blk_one [OF r f] by blast
  have b: "free_pbuf_q_begin s = Some p" "free_pbuf_q_begin s1 = None"
    using rep_frq_begin [OF r] rep_frq_begin [OF s1(2)] f by (simp_all add: sp_reclaim_one_def)
  have "netifs s1 k = (netifs s k)\<lparr>input_queue_len := input_queue_len (netifs s k) - 1\<rparr>"
    using s1(1) k by (auto simp: free_blk_one_def Let_def em_upd_defs res_simps split: if_splits option.splits)
  moreover have "free_blk n s1 = Inr s1" for n
    using b(2) by (cases n) auto
  moreover have "free_blk (Suc n) s = bindR (free_blk_one p s) (free_blk n)" for n
    using b(1) by simp
  from this [of 399] have "free_blk ETH_PBUFS_CNT s = bindR (free_blk_one p s) (free_blk 399)"
    by (simp only: numeral_nat eval_nat_numeral)
  ultimately show ?thesis using s1(1) by simp
qed

text \<open>
  A datagram of fewer than 14 bytes is dropped without entering the input queue, so the
  interface's \<open>input_queue_len\<close> is not incremented, but the reclaim loop decrements it all the
  same: after the drop and the reclaim it is one less than before, and from 0 it wraps to
  \<open>0xFFFFFFFF\<close>, above every threshold.
\<close>

lemma short_datagram_underflow:
  assumes "em_reach s a" and "sp_frq a = []" and "sp_ext a p = 1" and "sp_refs a p = 1"
    and "pb_if_idx (pbufs s p) = 3" and "pb_len (pbufs s p) < 14"
  shows "\<exists>s1 s2. eth_add_packet_to_router_queue p s = Inr s1 \<and> free_blk ETH_PBUFS_CNT s1 = Inr s2 \<and>
    input_queue_len (netifs s2 BLE_NETIF_ID) = input_queue_len (netifs s BLE_NETIF_ID) - 1"
proof -
  have r: "em_rep s a" using assms(1) by (rule reach_rep)
  obtain s1 where s1: "eth_add_packet_to_router_queue p s = Inr s1" "em_rep s1 (sp_submit (unat (pb_len (pbufs s p))) p a)"
    using router_queue_refines [OF r, of p] assms by auto
  have "unat (pb_len (pbufs s p)) < 14"
    using assms(6) by (simp add: word_less_nat_alt)
  then have q: "sp_frq (sp_submit (unat (pb_len (pbufs s p))) p a) = [p]"
    using assms by (simp add: sp_submit_def sp_release_def)
  have ref: "pb_ref (pbufs s p) = 1"
    using rep_ref_val [OF r, of p] assms by (auto intro: unat_eq_one)
  then have "pb_src_if (pbufs s1 p) = 3 \<and> input_queue_len (netifs s1 3) = input_queue_len (netifs s 3)"
    using s1(1) assms(5,6)
    by (auto simp: eth_add_packet_to_router_queue_def eth_pbuf_free_request_def count_lost_def Let_def em_upd_defs
        res_simps split: if_splits option.splits)
  then show ?thesis
    using reclaim_single [OF s1(2) q, of 3] s1(1) by auto
qed

lemma short_datagram_underflow_witness:
  "\<exists>s s1 s2. input_queue_len (netifs s 3) = 0 \<and> eth_add_packet_to_router_queue 0 s = Inr s1 \<and>
     free_blk ETH_PBUFS_CNT s1 = Inr s2 \<and> input_queue_len (netifs s2 3) = 0xFFFFFFFF"
proof -
  obtain s where s: "em_reach s (sp_alloc 0 sp_init)" "eth_pbuf_alloc None eth_router_init = Inr (Some 0, s)"
    using first_alloc by blast
  let ?s = "upd_pb 0 (driver_fill [] 0 10 10 3) s"
  have rs: "em_reach ?s (sp_alloc 0 sp_init)"
    by (rule em_reach.fill [OF s(1)]) (simp only: sp_first_alloc)
  have n: "netifs s = netifs eth_router_init"
    using rep_alloc [OF init_rep sp_init_free, of None] s(2) by auto
  have c: "sp_refs (sp_alloc 0 sp_init) 0 = 1"
    unfolding sp_refs_def sp_first_alloc
    by (simp only: sp_alloc_def sp_init_def sp_cells_def em_spec.simps out_cells_empty) simp
  have f: "pb_if_idx (pbufs ?s 0) = 3" "pb_len (pbufs ?s 0) < 14" and z: "input_queue_len (netifs ?s 3) = 0"
    by (simp_all add: upd_pb_def driver_fill_def n eth_router_init_def eth_router_add_bridge_def init_netif_def
        zero_em_def zero_netif_def)
  obtain s1 s2 where u: "eth_add_packet_to_router_queue 0 ?s = Inr s1" "free_blk ETH_PBUFS_CNT s1 = Inr s2"
      "input_queue_len (netifs s2 3) = input_queue_len (netifs ?s 3) - 1"
    using short_datagram_underflow [OF rs sp_first_alloc(1) sp_first_alloc(2) c f] by blast
  then have "input_queue_len (netifs s2 3) = 0xFFFFFFFF"
    using z by simp
  then show ?thesis
    using u(1,2) z by blast
qed

text \<open>
  The output queue of an interface is bounded by \<open>q_output_len_max\<close>, which the routing code
  never changes: the statement after an append that would raise it to the new peak is dead,
  because a queue at the limit drops the packet first. \<open>q_output_size\<close> plays no part.
\<close>

lemma output_limit:
  assumes "eth_add_packet_to_output_queue c k s = Inr s'"
  shows "q_output_len_max (netifs s' k) = q_output_len_max (netifs s k) \<and>
    q_output_size (netifs s' k) = q_output_size (netifs s k) \<and>
    (q_output_len (netifs s k) \<le> q_output_len_max (netifs s k) \<longrightarrow>
     q_output_len (netifs s' k) \<le> q_output_len_max (netifs s' k))"
proof -
  have "x + 1 \<le> m" if "\<not> m \<le> x" for x m :: u32
    using that by (meson inc_le not_le)
  moreover have "\<not> m < x + 1" if "\<not> m \<le> x" for x m :: u32
    using that by (meson inc_le not_le)
  ultimately show ?thesis
    using assms
    by (auto simp: eth_add_packet_to_output_queue_def link_output_def eth_queue_entry_free_def eth_pbuf_free_request_def
        count_lost_def Let_def em_upd_defs res_simps split: if_splits option.splits)
qed

lemma output_limit_witness:
  "let s = zero_em\<lparr>pbufs := (\<lambda>_. zero_pbuf\<lparr>pb_ref := 1\<rparr>), netifs := (\<lambda>_. zero_netif\<lparr>q_output_len_max := 20\<rparr>)\<rparr>
   in \<exists>s'. eth_add_packet_to_output_queue 0 3 s = Inr s' \<and> q_output_len (netifs s' 3) = 1 \<and>
     q_output_len_max (netifs s' 3) = 20"
proof -
  let ?s = "zero_em\<lparr>pbufs := (\<lambda>_. zero_pbuf\<lparr>pb_ref := 1\<rparr>), netifs := (\<lambda>_. zero_netif\<lparr>q_output_len_max := 20\<rparr>)\<rparr>"
  obtain s' where s': "eth_add_packet_to_output_queue 0 3 ?s = Inr s'" "q_output_len (netifs s' 3) = 1"
    by (simp add: eth_add_packet_to_output_queue_def link_output_def Let_def em_upd_defs zero_em_def zero_pbuf_def zero_netif_def)
  then show ?thesis
    using output_limit [OF s'(1)] by (simp add: Let_def)
qed

end
