(* ===== verification/EthQueue.thy ===== *)
theory EthQueue
  imports EthMemProps
begin

text \<open>
  \<open>eth_queue.c\<close>: a bounded queue of packet buffers, linked through the buffers' own \<open>next\<close> field
  (the DNS proxy uses one), and the custom-buffer branch of lwIP's \<open>pbuf_free\<close>
  (\<open>lwip/core/pbuf.c\<close>) through which buffers of the bridge return to \<open>eth_mem.c\<close>.
\<close>

section \<open>Releasing a buffer of the bridge from lwIP\<close>

text \<open>
  Every buffer of \<open>em\<close> has \<open>PBUF_FLAG_IS_CUSTOM\<close> set, so the only deallocation branch of the loop
  is the custom free function. The loop follows \<open>next\<close> while references drop to 0.
\<close>

fun pbuf_free_em :: "nat \<Rightarrow> nat option \<Rightarrow> em \<Rightarrow> em_error + em" where
  "pbuf_free_em n None s = Inr s"
| "pbuf_free_em 0 (Some p) s = Inl OUT_OF_FUEL"
| "pbuf_free_em (Suc n) (Some p) s =
     (if pb_ref (pbufs s p) = 0 then Inl LWIP_ASSERT
      else
        let s = upd_pb p (\<lambda>b. b\<lparr>pb_ref := pb_ref b - 1\<rparr>) s
        in if pb_ref (pbufs s p) = 0
           then let q = pb_next (pbufs s p)
                in bindR (eth_custom_pbuf_free_request p s) (pbuf_free_em n q)
           else Inr s)"

definition pbuf_free :: "nat \<Rightarrow> em \<Rightarrow> em_error + em" where
  "pbuf_free p s = pbuf_free_em (Suc ETH_PBUFS_CNT) (Some p) s"

section \<open>The queue\<close>

record ETH_Q =
  eq_begin :: "nat option"
  eq_end :: "nat option"
  eq_len :: u32
  eq_len_max :: u32
  eq_lost :: u32

definition custom_link :: "nat \<Rightarrow> em \<times> ETH_Q \<Rightarrow> em \<times> ETH_Q" where
  "custom_link p = (\<lambda>(s, q).
     let s = upd_pb p (\<lambda>b. b\<lparr>pb_next := None\<rparr>) s;
         (s, q) = (case eq_end q of
             Some e \<Rightarrow> (upd_pb e (\<lambda>b. b\<lparr>pb_next := Some p\<rparr>) s, q)
           | None \<Rightarrow> (s, q\<lparr>eq_begin := Some p\<rparr>));
         q = q\<lparr>eq_end := Some p, eq_len := eq_len q + 1\<rparr>;
         q = (if eq_len_max q < eq_len q then q\<lparr>eq_len_max := eq_len q\<rparr> else q)
     in (s, q))"

definition add_to_custom_queue :: "nat \<Rightarrow> em \<times> ETH_Q \<Rightarrow> em_error + em \<times> ETH_Q" where
  "add_to_custom_queue p = (\<lambda>(s, q).
     if eq_len_max q \<le> eq_len q
     then bindR (pbuf_free p (upd_pb p (\<lambda>b. b\<lparr>pb_next := None\<rparr>) s))
            (\<lambda>s. Inr (s, q\<lparr>eq_lost := eq_lost q + 1\<rparr>))
     else Inr (custom_link p (s, q)))"

definition get_from_custom_queue :: "em \<times> ETH_Q \<Rightarrow> em_error + nat option \<times> em \<times> ETH_Q" where
  "get_from_custom_queue = (\<lambda>(s, q).
     case eq_begin q of
       None \<Rightarrow> Inr (None, s, q)
     | Some p \<Rightarrow>
         let n = pb_next (pbufs s p);
             q = q\<lparr>eq_begin := n\<rparr>;
             q = (if n = None then q\<lparr>eq_end := None\<rparr> else q)
         in if eq_len q = 0 then Inl (EM_ASSERT 7)
            else Inr (Some p, upd_pb p (\<lambda>b. b\<lparr>pb_next := None\<rparr>) s, q\<lparr>eq_len := eq_len q - 1\<rparr>))"

section \<open>Release through lwIP is release\<close>

lemma upd_pb_ref_one: "pb_ref (pbufs s p) = 1 \<Longrightarrow> upd_pb p (\<lambda>b. b\<lparr>pb_ref := 1\<rparr>) s = s"
proof -
  assume "pb_ref (pbufs s p) = 1"
  then have "(pbufs s p)\<lparr>pb_ref := 1\<rparr> = pbufs s p"
    by (cases "pbufs s p") simp
  then show ?thesis by (simp add: upd_pb_def)
qed

lemma u8_gt_one: "x \<noteq> 0 \<Longrightarrow> x \<noteq> 1 \<Longrightarrow> 1 < x" for x :: u8
  by (simp add: word_less_nat_alt) (metis One_nat_def less_one linorder_neqE_nat unat_eq_zero unat_eq_one)

lemma pbuf_free_em_None [simp]: "bindR m (pbuf_free_em n None) = m"
  by (cases m) auto

lemma pbuf_free_em_single:
  assumes "pb_ref (pbufs s p) \<noteq> 0" and n: "pb_next (pbufs s p) = None"
  shows "pbuf_free_em (Suc n) (Some p) s = eth_pbuf_free_request p s"
proof (cases "pb_ref (pbufs s p) = 1")
  case True
  have "upd_pb p (\<lambda>b. b\<lparr>pb_ref := 1\<rparr>) (upd_pb p (\<lambda>b. b\<lparr>pb_ref := pb_ref b - 1\<rparr>) s) = s"
    using upd_pb_ref_one [OF True] by (simp add: upd_pb_def)
  moreover have "pb_ref (pbufs (upd_pb p (\<lambda>b. b\<lparr>pb_ref := pb_ref b - 1\<rparr>) s) p) = 0"
    "pb_next (pbufs (upd_pb p (\<lambda>b. b\<lparr>pb_ref := pb_ref b - 1\<rparr>) s) p) = None"
    using True n by (simp_all add: upd_pb_def)
  ultimately show ?thesis
    using assms by (simp add: Let_def eth_custom_pbuf_free_request_def)
next
  case False
  then have "pb_ref (pbufs s p) - 1 \<noteq> 0" "1 < pb_ref (pbufs s p)"
    using assms u8_gt_one by auto
  then show ?thesis
    using assms by (simp add: Let_def upd_pb_def eth_pbuf_free_request_def)
qed

lemma pbuf_free_em_ref: "pbuf_free_em (Suc n) (Some p) s = Inr s' \<Longrightarrow> pb_ref (pbufs s p) \<noteq> 0"
  by auto

lemmas pbuf_free_ref = pbuf_free_em_ref [of ETH_PBUFS_CNT p s s' for p s s', folded pbuf_free_def]

lemmas pbuf_free_single = pbuf_free_em_single [of s p ETH_PBUFS_CNT for s p, folded pbuf_free_def]

lemma rep_pbuf_free:
  assumes r: "em_rep s a" and e: "0 < sp_ext a p" and n: "pb_next (pbufs s p) = None"
  shows "\<exists>s'. pbuf_free p s = Inr s' \<and> em_rep s' (sp_release p a)"
proof -
  have "0 < sp_refs a p"
    using e by (simp add: sp_refs_def)
  then have "unat (pb_ref (pbufs s p)) \<noteq> 0"
    using rep_held_not_free [OF r] rep_ref_val [OF r] by fastforce
  then have "pb_ref (pbufs s p) \<noteq> 0" by auto
  then show ?thesis
    using pbuf_free_single [OF _ n] rep_free_request [OF r e] by auto
qed

section \<open>The queue is a FIFO\<close>

definition custom_rep :: "em \<times> ETH_Q \<Rightarrow> nat list \<Rightarrow> bool" where
  "custom_rep = (\<lambda>(s, q) xs. chain (pnx (pbufs s)) (eq_begin q) xs \<and> eq_end q = last_opt xs \<and>
     distinct xs \<and> set xs \<subseteq> {..<ETH_PBUFS_CNT} \<and> unat (eq_len q) = length xs)"

definition custom_deq :: "em \<times> ETH_Q \<Rightarrow> nat option \<times> em \<times> ETH_Q" where
  "custom_deq x = (case get_from_custom_queue x of Inr r \<Rightarrow> r | Inl _ \<Rightarrow> (None, x))"

lemma distinct_bound: "distinct xs \<Longrightarrow> set xs \<subseteq> {..<n} \<Longrightarrow> length xs \<le> n"
  by (metis card_lessThan card_mono distinct_card finite_lessThan)

lemma custom_link_rep:
  assumes r: "custom_rep (s, q) xs" and p: "p < ETH_PBUFS_CNT" "p \<notin> set xs"
  shows "custom_rep (custom_link p (s, q)) (xs @ [p])"
proof -
  have "length xs \<le> ETH_PBUFS_CNT" and len: "unat (eq_len q) = length xs"
    using r by (auto simp: custom_rep_def intro: distinct_bound)
  then have l: "unat (eq_len q + 1) = Suc (length xs)"
    by (subst unat_inc) auto
  show ?thesis
  proof (cases "xs = []")
    case True
    then show ?thesis
      using r p l by (simp add: custom_rep_def custom_link_def Let_def upd_pb_def em_simps last_opt_def)
  next
    case False
    let ?nx = "(pnx (pbufs s))(p := None)"
    have e: "eq_end q = Some (last xs)" and d: "distinct (xs @ [p])" "set (xs @ [p]) \<subseteq> {..<ETH_PBUFS_CNT}"
      using r p False by (auto simp: custom_rep_def last_opt_def)
    have n: "last xs \<noteq> p"
      using p(2) False by (metis last_in_set)
    have "chain ?nx (eq_begin q) xs"
      using r p(2) by (simp add: custom_rep_def)
    then have "chain (?nx(last xs := Some p)) (eq_begin q) (xs @ [p])"
      using d(1) False by (intro chain_snoc) auto
    then show ?thesis
      using e d n l False by (simp add: custom_rep_def custom_link_def Let_def upd_pb_def em_simps)
  qed
qed

lemma custom_get_rep:
  assumes r: "custom_rep (s, q) (p # xs)"
  shows "\<exists>s' q'. get_from_custom_queue (s, q) = Inr (Some p, s', q') \<and> custom_rep (s', q') xs \<and>
    eq_len_max q' = eq_len_max q \<and> eq_lost q' = eq_lost q"
proof -
  have ch: "chain (pnx (pbufs s)) (pb_next (pbufs s p)) xs" and b: "eq_begin q = Some p" "eq_end q = last_opt (p # xs)"
    and d: "p \<notin> set xs" "distinct xs" "set xs \<subseteq> {..<ETH_PBUFS_CNT}" and l: "unat (eq_len q) = Suc (length xs)"
    using r by (auto simp: custom_rep_def pnx_def)
  have n: "pb_next (pbufs s p) = None \<longleftrightarrow> xs = []"
    using ch by (cases xs) auto
  have z: "eq_len q \<noteq> 0" using l by auto
  then have "unat (eq_len q - 1) = length xs"
    using l by simp
  then show ?thesis
    using ch b d z n by (auto simp: get_from_custom_queue_def Let_def custom_rep_def upd_pb_def em_simps last_opt_Cons)
qed

interpretation cuq: fifo custom_rep "\<lambda>_ p. p < ETH_PBUFS_CNT" custom_link custom_deq
proof unfold_locales
  show "custom_rep (custom_link x s) (xs @ [x])" if "custom_rep s xs" "x < ETH_PBUFS_CNT" "x \<notin> set xs" for s xs x
    using that by (cases s) (simp add: custom_link_rep)
  show "y < ETH_PBUFS_CNT" if "y < ETH_PBUFS_CNT" for y :: nat
    using that .
  show "custom_deq s = (None, s)" if "custom_rep s []" for s
    using that by (cases s) (simp add: custom_rep_def custom_deq_def get_from_custom_queue_def)
  show "fst (custom_deq s) = Some x" "custom_rep (snd (custom_deq s)) xs" if "custom_rep s (x # xs)" for s x xs
    using custom_get_rep [of "fst s" "snd s" x xs] that by (auto simp: custom_deq_def)
qed

lemma rep_upd_held:
  assumes r: "em_rep s a" and e: "0 < sp_ext a p"
  shows "em_rep (upd_pb p (\<lambda>b. b\<lparr>pb_next := n\<rparr>) s) a"
proof -
  have "0 < sp_refs a p"
    using e by (simp add: sp_refs_def)
  then have "p \<notin> set (sp_free a)" "p \<notin> set (sp_frq a)"
    using rep_held_not_free [OF r] by auto
  then show ?thesis
    using r by (simp add: em_rep_defs upd_pb_def em_simps)
qed

lemma rep_custom_link:
  assumes r: "em_rep s a" and e: "0 < sp_ext a p" and q: "\<forall>e. eq_end q = Some e \<longrightarrow> 0 < sp_ext a e"
  shows "em_rep (fst (custom_link p (s, q))) a"
  using rep_upd_held [OF r e, of None] rep_upd_held [of _ a _ "Some p"] q
  by (auto simp: custom_link_def Let_def split: option.splits)

lemma free_request_next:
  assumes "eth_pbuf_free_request p s = Inr s'" and "q \<noteq> p" and "free_pbuf_q_end s \<noteq> Some q"
  shows "pb_next (pbufs s' q) = pb_next (pbufs s q)"
  using assms by (auto simp: eth_pbuf_free_request_def Let_def em_upd_defs res_simps split: if_splits option.splits)

lemma held_not_end:
  assumes r: "em_rep s a" and e: "0 < sp_ext a q"
  shows "free_pbuf_q_end s \<noteq> Some q"
proof
  assume "free_pbuf_q_end s = Some q"
  then have "q \<in> set (sp_frq a)"
    using r by (auto simp: em_rep_def rep_pbufs_def last_opt_def split: if_splits)
  moreover have "0 < sp_refs a q"
    using e by (simp add: sp_refs_def)
  ultimately show False
    using rep_held_not_free [OF r] by blast
qed

text \<open>
  A custom queue is a bounded FIFO. Adding a buffer that a driver holds alone either appends
  it, when fewer than \<open>q_len_max\<close> buffers wait, or drops and releases the new buffer and counts
  the loss, leaving the queue as it was; the buffer accounting of \<open>eth_mem.c\<close> stays exact in both
  cases and the limit does not move.
\<close>

lemma custom_queue_bounded:
  assumes q: "custom_rep (s, q) xs" and r: "em_rep s a" and e: "\<forall>x \<in> set (p # xs). 0 < sp_ext a x"
    and p: "p \<notin> set xs"
  shows "\<exists>s' q'. add_to_custom_queue p (s, q) = Inr (s', q') \<and>
    (if length xs < unat (eq_len_max q)
     then custom_rep (s', q') (xs @ [p]) \<and> em_rep s' a \<and> eq_lost q' = eq_lost q
     else custom_rep (s', q') xs \<and> em_rep s' (sp_release p a) \<and> eq_lost q' = eq_lost q + 1) \<and>
    eq_len_max q' = eq_len_max q"
proof -
  have ep: "0 < sp_ext a p" and pl: "p < ETH_PBUFS_CNT"
    using e rep_held_not_free [OF r, of p] by (auto simp: sp_refs_def)
  have len: "eq_len_max q \<le> eq_len q \<longleftrightarrow> \<not> length xs < unat (eq_len_max q)"
    using q by (auto simp: custom_rep_def word_le_nat_alt)
  show ?thesis
  proof (cases "length xs < unat (eq_len_max q)")
    case True
    have c: "custom_rep (custom_link p (s, q)) (xs @ [p])"
      using q pl p by (rule custom_link_rep)
    have "\<forall>x. eq_end q = Some x \<longrightarrow> 0 < sp_ext a x"
      using q e by (auto simp: custom_rep_def last_opt_def)
    then have m: "em_rep (fst (custom_link p (s, q))) a"
      using r ep by (intro rep_custom_link) auto
    have "eq_len q + 1 \<le> eq_len_max q"
      using True len by (meson inc_le not_le)
    then have "eq_lost (snd (custom_link p (s, q))) = eq_lost q" "eq_len_max (snd (custom_link p (s, q))) = eq_len_max q"
      by (auto simp: custom_link_def Let_def split: option.splits)
    with c m True len show ?thesis
      by (cases "custom_link p (s, q)") (auto simp: add_to_custom_queue_def)
  next
    case False
    let ?s = "upd_pb p (\<lambda>b. b\<lparr>pb_next := None\<rparr>) s"
    have r1: "em_rep ?s a" and n1: "pb_next (pbufs ?s p) = None"
      using rep_upd_held [OF r ep] by (simp_all add: upd_pb_def)
    obtain s' where s': "pbuf_free p ?s = Inr s'" "em_rep s' (sp_release p a)"
      using rep_pbuf_free [OF r1 ep n1] by blast
    have "pb_ref (pbufs ?s p) \<noteq> 0"
      using s'(1) by (rule pbuf_free_ref)
    then have "eth_pbuf_free_request p ?s = Inr s'"
      using s'(1) pbuf_free_single [OF _ n1] by simp
    then have "pnx (pbufs s') x = pnx (pbufs s) x" if "x \<in> set xs" for x
      using free_request_next [of p ?s s' x] held_not_end [OF r1, of x] e p that
      by (auto simp: pnx_def upd_pb_def)
    then have "chain (pnx (pbufs s')) (eq_begin q) xs"
      using q chain_cong [of xs "pnx (pbufs s')" "pnx (pbufs s)"] by (simp add: custom_rep_def)
    then have "custom_rep (s', q\<lparr>eq_lost := eq_lost q + 1\<rparr>) xs"
      using q by (simp add: custom_rep_def)
    with False len s' show ?thesis
      by (auto simp: add_to_custom_queue_def)
  qed
qed

lemma custom_queue_bounded_witness:
  "\<exists>s s' q'. add_to_custom_queue 0 (s, \<lparr>eq_begin = None, eq_end = None, eq_len = 0, eq_len_max = 5, eq_lost = 0\<rparr>)
     = Inr (s', q') \<and> custom_rep (s', q') [0] \<and> eq_lost q' = 0"
proof -
  let ?q = "\<lparr>eq_begin = None, eq_end = None, eq_len = 0, eq_len_max = 5, eq_lost = 0\<rparr>"
  obtain s where s: "em_rep s (sp_alloc 0 sp_init)"
    using first_alloc reach_rep by blast
  have e: "\<forall>x \<in> set [0]. 0 < sp_ext (sp_alloc 0 sp_init) x"
    by (simp only: list.set sp_first_alloc) (simp only: ball_simps sp_first_alloc less_numeral_extra)
  have q: "custom_rep (s, ?q) []"
    by (simp add: custom_rep_def)
  show ?thesis
    using custom_queue_bounded [OF q s e] by (simp del: add_to_custom_queue_def) blast
qed

end
