(* ===== verification/EthNat.thy ===== *)
theory EthNat
  imports Prelude
begin

text \<open>
  \<open>eth_nat.c\<close>: address translation between the BLE side and the local TCP/IP stack. Packets to
  the internet are rewritten, in place, to the divert port of the local stack and remembered in
  \<open>nattab\<close>; packets of the local stack are rewritten back. For TCP the accepted connection of the
  local stack is joined to a socket of the phone: \<open>nat_tcp_recv\<close> and \<open>NAT_Task\<close> carry bytes to
  the socket through a ring of packet pointers, \<open>NAT_RX_Task\<close> carries bytes back through
  \<open>txbuf\<close>. The socket calls, lwIP's \<open>tcp_*\<close> calls and \<open>pbuf_free\<close> are recorded in \<open>nat_log\<close>;
  their results are arguments.
\<close>

section \<open>Packets and the table\<close>

abbreviation (input) "NAT_TAB_SIZE \<equiv> 16 :: nat"
abbreviation (input) "SNDQ_MAXLEN \<equiv> 100 :: nat"
abbreviation (input) "PROT_ICMP \<equiv> 1 :: u8"
abbreviation (input) "PROT_TCP \<equiv> 6 :: u8"
abbreviation (input) "PROT_UDP \<equiv> 17 :: u8"

text \<open>Offsets of the packed \<open>struct ETH_PKT_HDR\<close> (\<open>eth_router.h\<close>).\<close>

abbreviation (input) "o_ethertype \<equiv> 12 :: nat"
abbreviation (input) "o_proto \<equiv> 23 :: nat"
abbreviation (input) "o_ip_src \<equiv> 26 :: nat"
abbreviation (input) "o_ip_dst \<equiv> 30 :: nat"
abbreviation (input) "o_port_src \<equiv> 34 :: nat"
abbreviation (input) "o_port_dst \<equiv> 36 :: nat"
abbreviation (input) "PKT_HDR_LEN \<equiv> 38 :: nat"

text \<open>\<open>htons(0x800)\<close> and \<open>htons(NAT_DIVERT_PORT)\<close> (port 1234) on the little-endian target.\<close>

abbreviation (input) "ETHERTYPE_IP4_N \<equiv> 0x0008 :: u16"
abbreviation (input) "DIVERT_PORT_N \<equiv> 0xD204 :: u16"

record NAT_TAB =
  nt_src_ip :: u32
  nt_dst_ip :: u32
  nt_src_port :: u16
  nt_dst_port :: u16
  nt_proto :: u16
  nt_time :: u32
  nt_p :: "nat option list"
  nt_txbuf :: "u8 list"
  nt_txbuf_len :: u16
  nt_pcb :: "nat option"
  nt_begin :: u32
  nt_end :: u32
  nt_status :: u32
  nt_socket :: nat
  nt_offs :: u32
  nt_errors :: u32
  nt_rx_ovf :: u32
  nt_shutdown_req :: u32

text \<open>The address and mask of \<open>gnetif\<close>, as stored (network byte order).\<close>

record nat_if =
  gn_addr :: u32
  gn_mask :: u32

section \<open>Translation of packets\<close>

definition nat_local :: "nat_if \<Rightarrow> u32 \<Rightarrow> bool" where
  "nat_local g ip \<longleftrightarrow> gn_addr g AND gn_mask g = ip AND gn_mask g"

definition flow_match :: "u8 list \<Rightarrow> NAT_TAB \<Rightarrow> bool" where
  "flow_match m t \<longleftrightarrow> ld32 m o_ip_src = nt_src_ip t \<and> ld32 m o_ip_dst = nt_dst_ip t \<and>
     ld16 m o_port_src = nt_src_port t \<and> ld16 m o_port_dst = nt_dst_port t \<and>
     nt_proto t = ucast (m ! o_proto)"

text \<open>The loop that looks for the oldest entry without an open connection.\<close>

fun oldest_entry :: "u32 \<Rightarrow> NAT_TAB list \<Rightarrow> nat \<Rightarrow> nat \<Rightarrow> u32 \<Rightarrow> nat" where
  "oldest_entry cur [] i oldent maxtime = oldent"
| "oldest_entry cur (t # ts) i oldent maxtime =
     (if nt_status t \<noteq> 0 then oldest_entry cur ts (Suc i) oldent maxtime
      else if maxtime < cur - nt_time t then oldest_entry cur ts (Suc i) i (cur - nt_time t)
      else oldest_entry cur ts (Suc i) oldent maxtime)"

definition forward_applies :: "nat_if \<Rightarrow> u8 list \<Rightarrow> bool" where
  "forward_applies g m \<longleftrightarrow> ld16 m o_ethertype = ETHERTYPE_IP4_N \<and> ld32 m o_ip_dst \<noteq> 0xFFFFFFFF \<and>
     \<not> nat_local g (ld32 m o_ip_dst) \<and> (m ! o_proto = PROT_TCP \<or> m ! o_proto = PROT_UDP)"

definition forward_nat :: "nat_if \<Rightarrow> u32 \<Rightarrow> u8 list \<Rightarrow> NAT_TAB list \<Rightarrow> int \<times> u8 list \<times> NAT_TAB list" where
  "forward_nat g curtime m tab =
     (if \<not> forward_applies g m then (- 1, m, tab)
      else
        let (e, tab) =
          (case first_index (\<lambda>i. flow_match m (tab ! i)) 0 NAT_TAB_SIZE of
             Some i \<Rightarrow> (i, tab)
           | None \<Rightarrow>
               let e = oldest_entry curtime tab 0 0 0
               in (e, tab[e := (tab ! e)\<lparr>nt_src_ip := ld32 m o_ip_src, nt_dst_ip := ld32 m o_ip_dst,
                    nt_src_port := ld16 m o_port_src, nt_dst_port := ld16 m o_port_dst,
                    nt_proto := ucast (m ! o_proto)\<rparr>]));
            tab = tab[e := (tab ! e)\<lparr>nt_time := curtime\<rparr>];
            m = st32 m o_ip_dst (gn_addr g);
            m = st16 m o_port_dst DIVERT_PORT_N
        in (0, m, tab))"

definition backward_applies :: "nat_if \<Rightarrow> u8 list \<Rightarrow> bool" where
  "backward_applies g m \<longleftrightarrow> ld16 m o_ethertype = ETHERTYPE_IP4_N \<and>
     \<not> (ld32 m o_ip_src \<noteq> gn_addr g \<and> ld16 m o_port_src \<noteq> DIVERT_PORT_N) \<and>
     (m ! o_proto = PROT_TCP \<or> m ! o_proto = PROT_UDP \<or> m ! o_proto = PROT_ICMP)"

definition reply_match :: "u8 list \<Rightarrow> NAT_TAB \<Rightarrow> bool" where
  "reply_match m t \<longleftrightarrow> ld32 m o_ip_dst = nt_src_ip t \<and> ld16 m o_port_dst = nt_src_port t \<and>
     ucast (m ! o_proto) = nt_proto t"

definition backward_nat :: "nat_if \<Rightarrow> u8 list \<Rightarrow> NAT_TAB list \<Rightarrow> int \<times> u8 list" where
  "backward_nat g m tab =
     (if \<not> backward_applies g m then (- 1, m)
      else
        (case first_index (\<lambda>i. reply_match m (tab ! i)) 0 NAT_TAB_SIZE of
           None \<Rightarrow> (- 1, m)
         | Some e \<Rightarrow> (0, st16 (st32 m o_ip_src (nt_dst_ip (tab ! e))) o_port_src (nt_dst_port (tab ! e)))))"

definition nat_find_match :: "u32 \<Rightarrow> u16 \<Rightarrow> u8 \<Rightarrow> NAT_TAB list \<Rightarrow> nat option" where
  "nat_find_match ip port proto tab =
     first_index (\<lambda>i. ip = nt_src_ip (tab ! i) \<and> port = nt_src_port (tab ! i) \<and> ucast proto = nt_proto (tab ! i))
       0 NAT_TAB_SIZE"

section \<open>Connections\<close>

text \<open>
  A packet of the local stack: a chain of segments. \<open>nat_io\<close> are the calls the module makes;
  the segment pointer, offset and byte count of a \<open>send\<close> and the bytes of a \<open>tcp_write\<close> are kept.
\<close>

record NAT_SEG =
  sg_next :: "nat option"
  sg_payload :: "u8 list"
  sg_len :: u16
  sg_tot_len :: u16

datatype nat_io =
    Io_so_shutdown nat
  | Io_send nat nat u32 u32
  | Io_recv "u8 list"
  | Io_tcp_recved "nat option" u16
  | Io_pbuf_free nat
  | Io_tcp_shutdown nat
  | Io_tcp_abort nat
  | Io_tcp_write "nat option" "u8 list" bool
  | Io_wake_tx
  | Io_wake_rx
  | Io_tcp_arg nat nat
  | Io_so_close nat
  | Io_connect nat u32 u16
  | Io_callbacks nat

datatype nat_err = ERR_OK | ERR_VAL

record nat_st =
  nattab :: "NAT_TAB list"
  ns_pbuf_broken :: u32
  ns_tcp_new :: u32
  ns_tcp_close :: u32
  ns_pbuf_used :: u32
  ns_lw_conn_used :: u32
  nat_log :: "nat_io list"

definition upd_nt :: "nat \<Rightarrow> (NAT_TAB \<Rightarrow> NAT_TAB) \<Rightarrow> nat_st \<Rightarrow> nat_st" where
  "upd_nt i f s = s\<lparr>nattab := (nattab s)[i := f (nattab s ! i)]\<rparr>"

definition nat_emit :: "nat_io list \<Rightarrow> nat_st \<Rightarrow> nat_st" where
  "nat_emit es s = s\<lparr>nat_log := nat_log s @ es\<rparr>"

lemmas nat_upd_defs = upd_nt_def nat_emit_def

text \<open>One turn of the loop of \<open>calc_stats\<close>: the difference of the unsigned indices is read as an \<open>int\<close>.\<close>

definition calc_stats_one :: "NAT_TAB \<Rightarrow> int" where
  "calc_stats_one t =
     (let didx = sint (nt_end t - nt_begin t)
      in if didx < 0 then didx + int SNDQ_MAXLEN else didx)"

definition calc_stats :: "nat_st \<Rightarrow> nat_st" where
  "calc_stats s = s\<lparr>ns_lw_conn_used := word_of_int (sum_list (map calc_stats_one (nattab s)))\<rparr>"

definition nat_close_so_conn :: "nat \<Rightarrow> nat_st \<Rightarrow> nat_st" where
  "nat_close_so_conn i s =
     (if nt_status (nattab s ! i) \<noteq> 0
      then upd_nt i (\<lambda>t. t\<lparr>nt_status := 0\<rparr>) (nat_emit [Io_so_shutdown (nt_socket (nattab s ! i))] s)
      else s)"

definition ring_next :: "nat \<Rightarrow> nat" where
  "ring_next k = (if SNDQ_MAXLEN \<le> k + 1 then 0 else k + 1)"

text \<open>
  The loop of \<open>nat_close_lw_conn\<close> that releases the queued packets: it runs round the ring, so at
  most \<open>SNDQ_MAXLEN\<close> turns reach \<open>index_end\<close> when both indices are in range.
\<close>

fun drain_ring :: "(nat \<Rightarrow> NAT_SEG) \<Rightarrow> nat \<Rightarrow> nat \<Rightarrow> nat \<Rightarrow> nat_st \<Rightarrow> nat \<times> nat_st" where
  "drain_ring h i 0 ptr s = (ptr, s)"
| "drain_ring h i (Suc n) ptr s =
     (if ptr = unat (nt_end (nattab s ! i)) then (ptr, s)
      else
        let s = (case nt_p (nattab s ! i) ! ptr of
                   Some p \<Rightarrow>
                     let s = nat_emit [Io_tcp_recved (nt_pcb (nattab s ! i)) (sg_tot_len (h p)), Io_pbuf_free p] s;
                         s = s\<lparr>ns_pbuf_used := ns_pbuf_used s - 1\<rparr>
                     in upd_nt i (\<lambda>t. t\<lparr>nt_p := (nt_p t)[ptr := None]\<rparr>) s
                 | None \<Rightarrow> s)
        in drain_ring h i n (ring_next ptr) s)"

definition nat_close_lw_conn :: "(nat \<Rightarrow> NAT_SEG) \<Rightarrow> bool \<Rightarrow> nat \<Rightarrow> nat_st \<Rightarrow> nat_st" where
  "nat_close_lw_conn h shut_ok i s =
     (let s = (case nt_pcb (nattab s ! i) of
                 None \<Rightarrow> s
               | Some c \<Rightarrow>
                   let (ptr, s) = drain_ring h i SNDQ_MAXLEN (unat (nt_begin (nattab s ! i))) s;
                       s = upd_nt i (\<lambda>t. t\<lparr>nt_offs := 0, nt_begin := of_nat ptr\<rparr>) s;
                       s = nat_emit [Io_tcp_shutdown c] (s\<lparr>ns_tcp_close := ns_tcp_close s + 1\<rparr>);
                       s = (if shut_ok then nat_emit [Io_tcp_abort c] s else s)
                   in upd_nt i (\<lambda>t. t\<lparr>nt_pcb := None\<rparr>) s)
      in upd_nt i (\<lambda>t. t\<lparr>nt_txbuf_len := 0\<rparr>) s)"

definition nat_drop_conn :: "(nat \<Rightarrow> NAT_SEG) \<Rightarrow> bool \<Rightarrow> nat \<Rightarrow> nat_st \<Rightarrow> nat_st" where
  "nat_drop_conn h shut_ok i s =
     nat_close_lw_conn h shut_ok i (nat_close_so_conn i (upd_nt i (\<lambda>t. t\<lparr>nt_shutdown_req := 1\<rparr>) s))"

section \<open>From the local stack to the socket: \<open>NAT_Task\<close>\<close>

text \<open>
  The descriptors \<open>NAT_Task\<close> waits on for writing: open connections with something queued.
\<close>

definition nat_wants_write :: "NAT_TAB \<Rightarrow> bool" where
  "nat_wants_write t \<longleftrightarrow> nt_status t > 0 \<and> nt_begin t \<noteq> nt_end t"

text \<open>
  The seek into the segment chain. The loop takes \<open>p->next\<close>, the second segment, on every turn;
  \<open>None\<close> is a seek that does not end within the fuel.
\<close>

fun nat_seek :: "nat \<Rightarrow> (nat \<Rightarrow> NAT_SEG) \<Rightarrow> nat \<Rightarrow> nat \<Rightarrow> u32 \<Rightarrow> (nat \<times> u32) option" where
  "nat_seek 0 h p p1 offs = None"
| "nat_seek (Suc n) h p p1 offs =
     (if sg_next (h p1) \<noteq> None \<and> ucast (sg_len (h p1)) \<le> offs
      then nat_seek n h p (the (sg_next (h p))) (offs - ucast (sg_len (h p1)))
      else Some (p1, offs))"

datatype send_res = Sent u32 | Send_again | Send_error

text \<open>
  The body for slot \<open>i\<close> when its socket is writable. \<open>send\<close> is asked for \<open>p->len - offs\<close> bytes, an
  unsigned 32-bit value, from \<open>offs\<close> in segment \<open>p1\<close>.
\<close>

definition NAT_Task_slot :: "nat \<Rightarrow> (nat \<Rightarrow> NAT_SEG) \<Rightarrow> bool \<Rightarrow> send_res \<Rightarrow> nat \<Rightarrow> nat_st \<Rightarrow> nat_st option" where
  "NAT_Task_slot fuel h shut_ok res i s =
     (if nt_status (nattab s ! i) = 0 then Some s
      else
        (case nt_p (nattab s ! i) ! unat (nt_begin (nattab s ! i)) of
           None \<Rightarrow> None
         | Some p \<Rightarrow>
             (case nat_seek fuel h p p (nt_offs (nattab s ! i)) of
                None \<Rightarrow> None
              | Some (p1, offs) \<Rightarrow>
                  let s = nat_emit [Io_send (nt_socket (nattab s ! i)) p1 offs (ucast (sg_len (h p)) - offs)] s
                  in (case res of
                        Send_again \<Rightarrow> Some s
                      | Send_error \<Rightarrow> Some (nat_drop_conn h shut_ok i s)
                      | Sent n \<Rightarrow>
                          let s = upd_nt i (\<lambda>t. t\<lparr>nt_offs := nt_offs t + n\<rparr>) s
                          in if nt_offs (nattab s ! i) < ucast (sg_tot_len (h p)) then Some s
                             else
                               let b = unat (nt_begin (nattab s ! i));
                                   s = upd_nt i (\<lambda>t. t\<lparr>nt_p := (nt_p t)[b := None], nt_begin := of_nat (ring_next b),
                                         nt_offs := 0\<rparr>) s;
                                   s = nat_emit [Io_tcp_recved (nt_pcb (nattab s ! i)) (sg_tot_len (h p))] s
                               in Some (nat_emit [Io_pbuf_free p] (s\<lparr>ns_pbuf_used := ns_pbuf_used s - 1\<rparr>))))))"

section \<open>From the socket to the local stack: \<open>NAT_RX_Task\<close>\<close>

text \<open>
  One element of the input per turn of the inner loop: the result of \<open>recv\<close> (used only when
  \<open>txbuf\<close> is empty) and whether \<open>tcp_write\<close> accepts the bytes. A chunk is at most
  \<open>sizeof(txbuf)\<close>, 1500 bytes. The loop ends by a \<open>break\<close>; an input that runs out stands for
  \<open>EAGAIN\<close>.
\<close>

datatype recv_res = Recv "u8 list" | Recv_again | Recv_error

fun nat_rx_loop :: "(nat \<Rightarrow> NAT_SEG) \<Rightarrow> bool \<Rightarrow> nat \<Rightarrow> nat \<Rightarrow> (recv_res \<times> bool) list \<Rightarrow> nat_st \<Rightarrow> nat_st" where
  "nat_rx_loop h shut_ok i cont [] s = s"
| "nat_rx_loop h shut_ok i cont ((r, wr_ok) # ins) s =
     (let write = (\<lambda>cont s.
            let t = nattab s ! i;
                s = nat_emit [Io_tcp_write (nt_pcb t) (take (unat (nt_txbuf_len t)) (nt_txbuf t)) wr_ok] s
            in if wr_ok then nat_rx_loop h shut_ok i cont ins (upd_nt i (\<lambda>t. t\<lparr>nt_txbuf_len := 0\<rparr>) s) else s)
      in if nt_txbuf_len (nattab s ! i) = 0
         then (case r of
                 Recv_again \<Rightarrow> s
               | Recv_error \<Rightarrow> nat_drop_conn h shut_ok i s
               | Recv bs \<Rightarrow>
                   if bs = [] then (if cont = 0 then nat_drop_conn h shut_ok i s else s)
                   else write (Suc cont)
                          (upd_nt i (\<lambda>t. t\<lparr>nt_txbuf := st_bytes (nt_txbuf t) 0 bs, nt_txbuf_len := of_nat (length bs)\<rparr>)
                             (nat_emit [Io_recv bs] s)))
         else write cont s)"

definition NAT_RX_Task_slot ::
  "(nat \<Rightarrow> NAT_SEG) \<Rightarrow> bool \<Rightarrow> bool \<Rightarrow> bool \<Rightarrow> (recv_res \<times> bool) list \<Rightarrow> nat \<Rightarrow> nat_st \<Rightarrow> nat_st" where
  "NAT_RX_Task_slot h shut_ok err rdy ins i s =
     (if nt_status (nattab s ! i) = 0 then s
      else if err then nat_drop_conn h shut_ok i s
      else if rdy then nat_rx_loop h shut_ok i 0 ins s
      else s)"

section \<open>Callbacks of the local stack\<close>

text \<open>\<open>num\<close> is the argument of the connection, an index plus 1, or 0 for NULL.\<close>

definition nat_tcp_err :: "nat \<Rightarrow> nat_st \<Rightarrow> nat_st" where
  "nat_tcp_err num s =
     (if num = 0 then s
      else if num - 1 < NAT_TAB_SIZE
      then upd_nt (num - 1) (\<lambda>t. t\<lparr>nt_pcb := None\<rparr>) (nat_close_so_conn (num - 1) s)
      else s)"

definition nat_tcp_sent :: "nat_st \<Rightarrow> nat_err \<times> nat_st" where
  "nat_tcp_sent s = (ERR_OK, nat_emit [Io_wake_tx] s)"

definition htons_le :: "u16 \<Rightarrow> u16" where
  "htons_le x = push_bit 8 x OR drop_bit 8 x"

text \<open>
  \<open>nat_tcp_recv\<close>; \<open>None\<close> stands for its endless loop when the entry belongs to another connection.
  \<open>rip\<close> and \<open>rport\<close> are \<open>pcb->remote_ip\<close> and \<open>pcb->remote_port\<close> (host order).
\<close>

definition nat_tcp_recv :: "(nat \<Rightarrow> NAT_SEG) \<Rightarrow> bool \<Rightarrow> nat \<Rightarrow> nat option \<Rightarrow> u32 \<Rightarrow> u16 \<Rightarrow> nat option \<Rightarrow> bool
    \<Rightarrow> nat_st \<Rightarrow> (nat_err \<times> nat_st) option" where
  "nat_tcp_recv h shut_ok num pcb rip rport p err_ok s =
     (let entry_ok = (num \<noteq> 0 \<and> num - 1 < NAT_TAB_SIZE);
          e = num - 1
      in case (pcb, p) of
           (Some c, Some q) \<Rightarrow>
             if \<not> err_ok
             then Some (ERR_VAL, if entry_ok then nat_drop_conn h shut_ok e s else s)
             else
               let abrt = (\<lambda>s. Some (ERR_OK, nat_emit [Io_tcp_recved (Some c) (sg_tot_len (h q)), Io_pbuf_free q] s))
               in if \<not> entry_ok then abrt s
                  else
                    let t = nattab s ! e;
                        idx = unat (ucast (nt_end t) :: u16)
                    in if rip \<noteq> nt_src_ip t \<or> htons_le rport \<noteq> nt_src_port t \<or> nt_proto t \<noteq> ucast PROT_TCP
                       then abrt (upd_nt e (\<lambda>t. t\<lparr>nt_errors := nt_errors t + 1\<rparr>) s)
                       else if SNDQ_MAXLEN \<le> idx
                       then abrt (upd_nt e (\<lambda>t. t\<lparr>nt_errors := nt_errors t + 1\<rparr>) s)
                       else if ring_next idx = unat (nt_begin t)
                       then abrt (upd_nt e (\<lambda>t. t\<lparr>nt_rx_ovf := nt_rx_ovf t + 1\<rparr>) s)
                       else if nt_pcb t \<noteq> Some c then None
                       else
                         let s = upd_nt e (\<lambda>t. t\<lparr>nt_p := (nt_p t)[idx := Some q], nt_end := of_nat (ring_next idx)\<rparr>) s;
                             s = s\<lparr>ns_pbuf_used := ns_pbuf_used s + 1\<rparr>
                         in Some (ERR_OK, nat_emit [Io_wake_tx] s)
         | _ \<Rightarrow> Some (ERR_VAL, if entry_ok then nat_drop_conn h shut_ok e s else s))"

text \<open>
  \<open>nat_accept_fn\<close>: the results of \<open>socket\<close> (\<open>None\<close> is an error), \<open>fcntl\<close> and \<open>connect\<close> (success or
  in progress) are arguments; socket options are left out.
\<close>

definition nat_accept_fn :: "bool \<Rightarrow> nat option \<Rightarrow> u32 \<Rightarrow> u16 \<Rightarrow> nat option \<Rightarrow> bool \<Rightarrow> bool \<Rightarrow> nat_st \<Rightarrow> nat_err \<times> nat_st" where
  "nat_accept_fn err_ok pcb rip rport sock fcntl_ok connect_ok s =
     (case pcb of
        None \<Rightarrow> (ERR_VAL, s)
      | Some c \<Rightarrow>
          if \<not> err_ok then (ERR_VAL, s)
          else
            (case nat_find_match rip (htons_le rport) PROT_TCP (nattab s) of
               None \<Rightarrow> (ERR_VAL, s)
             | Some e \<Rightarrow>
                 let s = nat_emit [Io_tcp_arg c (Suc e)] s
                 in (case sock of
                       None \<Rightarrow> (ERR_VAL, s)
                     | Some k \<Rightarrow>
                         if \<not> fcntl_ok then (ERR_VAL, nat_emit [Io_so_close k] s)
                         else
                           let s = nat_emit [Io_connect k (nt_dst_ip (nattab s ! e)) (nt_dst_port (nattab s ! e))] s
                           in if \<not> connect_ok then (ERR_VAL, nat_emit [Io_so_close k] s)
                              else
                                let s = upd_nt e (\<lambda>t. t\<lparr>nt_socket := k, nt_status := 1, nt_begin := 0, nt_end := 0,
                                      nt_offs := 0, nt_shutdown_req := 0, nt_pcb := Some c\<rparr>) s;
                                    s = nat_emit [Io_callbacks c] s;
                                    s = s\<lparr>ns_tcp_new := ns_tcp_new s + 1\<rparr>
                                in (ERR_OK, nat_emit [Io_wake_tx, Io_wake_rx] s))))"

text \<open>The table at start-up: zeroed storage.\<close>

definition nat_tab0 :: NAT_TAB where
  "nat_tab0 = \<lparr>nt_src_ip = 0, nt_dst_ip = 0, nt_src_port = 0, nt_dst_port = 0, nt_proto = 0, nt_time = 0,
     nt_p = replicate SNDQ_MAXLEN None, nt_txbuf = replicate 1500 0, nt_txbuf_len = 0, nt_pcb = None,
     nt_begin = 0, nt_end = 0, nt_status = 0, nt_socket = 0, nt_offs = 0, nt_errors = 0, nt_rx_ovf = 0,
     nt_shutdown_req = 0\<rparr>"

definition nat_st0 :: nat_st where
  "nat_st0 = \<lparr>nattab = replicate NAT_TAB_SIZE nat_tab0, ns_pbuf_broken = 0, ns_tcp_new = 0, ns_tcp_close = 0,
     ns_pbuf_used = 0, ns_lw_conn_used = 0, nat_log = []\<rparr>"

section \<open>Translation: frames and round trip\<close>

text \<open>What the search for the oldest entry finds: the free entry of greatest age, or its start value.\<close>

lemma oldest_entry_spec:
  "let r = oldest_entry cur ts i old m;
       age = (\<lambda>t. cur - nt_time t)
   in (r = old \<and> (\<forall>t \<in> set ts. nt_status t = 0 \<longrightarrow> age t \<le> m)) \<or>
      (\<exists>k < length ts. r = i + k \<and> nt_status (ts ! k) = 0 \<and> m < age (ts ! k) \<and>
         (\<forall>t \<in> set ts. nt_status t = 0 \<longrightarrow> age t \<le> age (ts ! k)))"
proof (induction ts arbitrary: i old m)
  case Nil
  then show ?case by simp
next
  case (Cons t ts)
  show ?case
  proof (cases "nt_status t = 0 \<and> m < cur - nt_time t")
    case True
    then show ?thesis
      using Cons.IH [of "Suc i" i "cur - nt_time t"] unfolding Let_def
      by (auto intro: order.strict_trans order.trans less_imp_le exI [of _ "0 :: nat"] exI [of _ "Suc k" for k])
  next
    case False
    then have "oldest_entry cur (t # ts) i old m = oldest_entry cur ts (Suc i) old m"
      by auto
    moreover have "nt_status t = 0 \<longrightarrow> cur - nt_time t \<le> m"
      using False by auto
    ultimately show ?thesis
      using Cons.IH [of "Suc i" old m] unfolding Let_def
      by (auto intro: order.trans less_imp_le exI [of _ "Suc k" for k])
  qed
qed

text \<open>
  Which entry a new flow takes: when some entry without an open connection has a positive
  age, a new flow overwrites one of these, of greatest age, so no open connection is touched; when
  there is none, the flow overwrites entry 0, even if its connection is open.
\<close>

lemma nat_eviction:
  assumes "length tab = NAT_TAB_SIZE" and "e = oldest_entry cur tab 0 0 0"
  shows "e < NAT_TAB_SIZE \<and>
    (if \<exists>t \<in> set tab. nt_status t = 0 \<and> cur \<noteq> nt_time t
     then nt_status (tab ! e) = 0 \<and> (\<forall>t \<in> set tab. nt_status t = 0 \<longrightarrow> cur - nt_time t \<le> cur - nt_time (tab ! e))
     else e = 0)"
proof -
  have p: "cur - nt_time t \<noteq> 0 \<longleftrightarrow> cur \<noteq> nt_time t" for t
    by simp
  have z: "cur - nt_time t \<le> 0 \<longleftrightarrow> cur = nt_time t" for t
    by (simp add: p)
  show ?thesis
    using oldest_entry_spec [of cur tab 0 0 0] assms unfolding Let_def z
    by (auto simp: word_neq_0_conv [symmetric])
qed

lemma nat_eviction_witness:
  "let tab = replicate NAT_TAB_SIZE (nat_tab0\<lparr>nt_status := 1, nt_time := 5\<rparr>)
   in oldest_entry 9 tab 0 0 0 = 0 \<and> oldest_entry 9 (tab[3 := nat_tab0\<lparr>nt_time := 4\<rparr>]) 0 0 0 = 3"
proof -
  let ?t = "replicate NAT_TAB_SIZE (nat_tab0\<lparr>nt_status := 1, nt_time := 5\<rparr>)"
  have "oldest_entry 9 ?t 0 0 0 = 0"
    using nat_eviction [of ?t "oldest_entry 9 ?t 0 0 0" 9] by simp
  moreover have "oldest_entry 9 (?t[3 := nat_tab0\<lparr>nt_time := 4\<rparr>]) 0 0 0 = 3"
    by code_simp
  ultimately show ?thesis by (simp add: Let_def)
qed

section \<open>Round trip\<close>

definition same_source :: "u8 list \<Rightarrow> NAT_TAB \<Rightarrow> bool" where
  "same_source m t \<longleftrightarrow> nt_src_ip t = ld32 m o_ip_src \<and> nt_src_port t = ld16 m o_port_src \<and>
     nt_proto t = ucast (m ! o_proto)"

text \<open>\<open>r\<close> is the local stack's answer to flow \<open>m\<close>: from the divert port back to the source of \<open>m\<close>.\<close>

definition answer_to :: "nat_if \<Rightarrow> u8 list \<Rightarrow> u8 list \<Rightarrow> bool" where
  "answer_to g m r \<longleftrightarrow> ld16 r o_ethertype = ETHERTYPE_IP4_N \<and> ld32 r o_ip_src = gn_addr g \<and>
     ld16 r o_port_src = DIVERT_PORT_N \<and> r ! o_proto = m ! o_proto \<and>
     ld32 r o_ip_dst = ld32 m o_ip_src \<and> ld16 r o_port_dst = ld16 m o_port_src"

lemma forward_entry:
  assumes t: "length tab = NAT_TAB_SIZE" and f: "forward_applies g m"
  obtains e tab' where "forward_nat g cur m tab =
      (0, st16 (st32 m o_ip_dst (gn_addr g)) o_port_dst DIVERT_PORT_N, tab')"
    "e < NAT_TAB_SIZE" "length tab' = NAT_TAB_SIZE" "flow_match m (tab' ! e)" "nt_time (tab' ! e) = cur"
    "\<forall>j. j \<noteq> e \<longrightarrow> tab' ! j = tab ! j"
    "(\<exists>i < NAT_TAB_SIZE. flow_match m (tab ! i)) \<longrightarrow> flow_match m (tab ! e) \<and> tab' ! e = (tab ! e)\<lparr>nt_time := cur\<rparr>"
    "(\<forall>i < NAT_TAB_SIZE. \<not> flow_match m (tab ! i)) \<longrightarrow> e = oldest_entry cur tab 0 0 0"
proof (cases "first_index (\<lambda>i. flow_match m (tab ! i)) 0 NAT_TAB_SIZE")
  case None
  let ?e = "oldest_entry cur tab 0 0 0"
  have e: "?e < length tab"
    using oldest_entry_spec [of cur tab 0 0 0] t unfolding Let_def by auto
  have n: "\<forall>i < NAT_TAB_SIZE. \<not> flow_match m (tab ! i)"
    using None by (simp only: first_index_None) simp
  show ?thesis
    by (rule that [of "tab[?e := (tab ! ?e)\<lparr>nt_src_ip := ld32 m o_ip_src, nt_dst_ip := ld32 m o_ip_dst,
          nt_src_port := ld16 m o_port_src, nt_dst_port := ld16 m o_port_dst,
          nt_proto := ucast (m ! o_proto), nt_time := cur\<rparr>]" ?e])
      (use f None e t n in \<open>auto simp: forward_nat_def Let_def flow_match_def\<close>)
next
  case (Some i)
  then have i: "flow_match m (tab ! i)" "i < NAT_TAB_SIZE"
    by (simp_all only: first_index_Some) simp_all
  show ?thesis
    by (rule that [of "tab[i := (tab ! i)\<lparr>nt_time := cur\<rparr>]" i])
      (use f Some i t in \<open>auto simp: forward_nat_def Let_def flow_match_def\<close>)
qed

text \<open>
  C6: The translation is undone by the answer. If no other flow in the table has the same source
  address, port and protocol, then after \<open>forward_nat\<close> rewrote a packet to the divert port of the
  local stack, \<open>backward_nat\<close> gives an answer of the stack the address and port the packet was sent
  to, and leaves every other byte of the answer alone.
\<close>

theorem nat_roundtrip:
  assumes t: "length tab = NAT_TAB_SIZE" and l: "PKT_HDR_LEN \<le> length m" "PKT_HDR_LEN \<le> length r"
    and f: "forward_applies g m" and a: "answer_to g m r"
    and u: "\<forall>i < NAT_TAB_SIZE. same_source m (tab ! i) \<longrightarrow> flow_match m (tab ! i)"
  shows "\<exists>m' tab' r'. forward_nat g cur m tab = (0, m', tab') \<and> length tab' = NAT_TAB_SIZE \<and>
    ld32 m' o_ip_dst = gn_addr g \<and> ld16 m' o_port_dst = DIVERT_PORT_N \<and>
    ld32 m' o_ip_src = ld32 m o_ip_src \<and> ld16 m' o_port_src = ld16 m o_port_src \<and>
    backward_nat g r tab' = (0, r') \<and>
    ld32 r' o_ip_src = ld32 m o_ip_dst \<and> ld16 r' o_port_src = ld16 m o_port_dst \<and>
    (\<forall>k < length r. k \<notin> {26..<30} \<union> {34..<36} \<longrightarrow> r' ! k = r ! k)"
proof -
  obtain e tab' where fw: "forward_nat g cur m tab =
      (0, st16 (st32 m o_ip_dst (gn_addr g)) o_port_dst DIVERT_PORT_N, tab')"
    and e: "e < NAT_TAB_SIZE" "length tab' = NAT_TAB_SIZE" "flow_match m (tab' ! e)" "\<forall>j. j \<noteq> e \<longrightarrow> tab' ! j = tab ! j"
    using forward_entry [OF t f, of cur] by metis
  have ba: "backward_applies g r"
    using f a by (auto simp: backward_applies_def forward_applies_def answer_to_def)
  have rm: "reply_match r x \<longleftrightarrow> same_source m x" for x
    using a by (auto simp: reply_match_def same_source_def answer_to_def)
  have fs: "flow_match m x \<Longrightarrow> same_source m x" for x
    by (auto simp: flow_match_def same_source_def)
  have "\<not> (\<forall>i. 0 \<le> i \<and> i < 0 + NAT_TAB_SIZE \<longrightarrow> \<not> reply_match r (tab' ! i))"
    using e rm fs by (auto intro!: exI [of _ e])
  then obtain j where j: "first_index (\<lambda>i. reply_match r (tab' ! i)) 0 NAT_TAB_SIZE = Some j"
    using first_index_None [of "\<lambda>i. reply_match r (tab' ! i)" 0 NAT_TAB_SIZE] by fastforce
  then have jm: "same_source m (tab' ! j)" "j < NAT_TAB_SIZE"
    using first_index_holds [OF j] first_index_less [OF j] by (simp_all add: rm)
  have jf: "flow_match m (tab' ! j)"
    using e u jm by (cases "j = e") auto
  show ?thesis
    using fw e(2) l jf
    by (intro exI [of _ "st16 (st32 m o_ip_dst (gn_addr g)) o_port_dst DIVERT_PORT_N"] exI [of _ tab']
        exI [of _ "st16 (st32 r o_ip_src (nt_dst_ip (tab' ! j))) o_port_src (nt_dst_port (tab' ! j))"])
      (auto simp: backward_nat_def ba j flow_match_def cmem)
qed

text \<open>A header with the given addresses, ports and protocol, for concrete instances.\<close>

definition mk_hdr :: "u8 list \<Rightarrow> u8 list \<Rightarrow> u8 list \<Rightarrow> u8 list \<Rightarrow> u8 \<Rightarrow> u8 list" where
  "mk_hdr src dst sp dp proto = replicate 12 0 @ [8, 0] @ replicate 9 0 @ [proto, 0, 0] @ src @ dst @ sp @ dp"

abbreviation (input) "demo_if \<equiv> \<lparr>gn_addr = 0x01F5A8C0, gn_mask = 0x00FFFFFF\<rparr>"
abbreviation (input) "demo_out1 \<equiv> mk_hdr [192, 168, 245, 2] [8, 8, 8, 8] [0x10, 0x00] [0, 80] PROT_TCP"
abbreviation (input) "demo_out2 \<equiv> mk_hdr [192, 168, 245, 2] [9, 9, 9, 9] [0x10, 0x00] [0, 80] PROT_TCP"
abbreviation (input) "demo_in \<equiv> mk_hdr [192, 168, 245, 1] [192, 168, 245, 2] [0x04, 0xD2] [0x10, 0x00] PROT_TCP"

lemma demo_facts:
  "forward_applies demo_if demo_out1" "forward_applies demo_if demo_out2"
  "answer_to demo_if demo_out1 demo_in" "answer_to demo_if demo_out2 demo_in"
  "length demo_out1 = 38" "length demo_out2 = 38" "length demo_in = 38"
  "ld32 demo_out1 30 = 0x08080808" "ld32 demo_out2 30 = 0x09090909" "ld32 demo_out1 26 \<noteq> 0"
  by code_simp+

theorem nat_roundtrip_witness:
  "\<exists>m' tab' r'. forward_nat demo_if 7 demo_out1 (nattab nat_st0) = (0, m', tab') \<and>
     backward_nat demo_if demo_in tab' = (0, r') \<and> ld32 r' o_ip_src = 0x08080808"
proof -
  have "\<forall>i < NAT_TAB_SIZE. \<not> same_source demo_out1 (nattab nat_st0 ! i)"
    using demo_facts(10) by (simp add: nat_st0_def same_source_def nat_tab0_def)
  then show ?thesis
    using nat_roundtrip [of "nattab nat_st0" demo_out1 demo_in demo_if 7] demo_facts
    by (auto simp: nat_st0_def)
qed

text \<open>
  What the condition of the round trip is for: \<open>backward_nat\<close> does not know the remote side.
  When a client opens two flows from one source port to two destinations, starting from an empty
  table, both get entries, but answers to the second flow carry the address of the first.
\<close>

lemma nat_port_confusion:
  assumes f: "forward_applies g m1" "forward_applies g m2" and l: "PKT_HDR_LEN \<le> length r"
    and s: "answer_to g m1 r" "answer_to g m2 r"
    and d: "ld32 m1 o_ip_dst \<noteq> ld32 m2 o_ip_dst" and nz: "ld32 m1 o_ip_src \<noteq> 0" "0 < t1" "t1 \<le> t2"
  shows "\<exists>m1' m2' tab1 tab2 r'. forward_nat g t1 m1 (nattab nat_st0) = (0, m1', tab1) \<and>
    forward_nat g t2 m2 tab1 = (0, m2', tab2) \<and> (\<exists>i < NAT_TAB_SIZE. flow_match m2 (tab2 ! i)) \<and>
    backward_nat g r tab2 = (0, r') \<and> ld32 r' o_ip_src = ld32 m1 o_ip_dst"
proof -
  let ?tab = "nattab nat_st0"
  have z: "?tab ! i = nat_tab0" if "i < NAT_TAB_SIZE" for i
    using that by (simp add: nat_st0_def)
  have sip: "ld32 m2 o_ip_src = ld32 m1 o_ip_src"
    using s by (auto simp: answer_to_def)
  have len: "length ?tab = NAT_TAB_SIZE"
    by (simp add: nat_st0_def)
  have n1: "\<forall>i < NAT_TAB_SIZE. \<not> flow_match m1 (?tab ! i)"
    using nz z by (auto simp: flow_match_def nat_tab0_def)
  have o1: "oldest_entry t1 ?tab 0 0 0 = 0"
    using nz by (simp add: nat_st0_def nat_tab0_def numeral_nat)
  obtain e1 tab1 where 1: "forward_nat g t1 m1 ?tab = (0, st16 (st32 m1 o_ip_dst (gn_addr g)) o_port_dst DIVERT_PORT_N, tab1)"
    "length tab1 = NAT_TAB_SIZE" "flow_match m1 (tab1 ! e1)" "nt_time (tab1 ! e1) = t1" "\<forall>j. j \<noteq> e1 \<longrightarrow> tab1 ! j = ?tab ! j" "e1 = 0"
    using forward_entry [OF len f(1), of t1] n1 o1 by metis
  obtain e2 tab2 where 2: "forward_nat g t2 m2 tab1 = (0, st16 (st32 m2 o_ip_dst (gn_addr g)) o_port_dst DIVERT_PORT_N, tab2)"
    "e2 < NAT_TAB_SIZE" "length tab2 = NAT_TAB_SIZE" "flow_match m2 (tab2 ! e2)" "\<forall>j. j \<noteq> e2 \<longrightarrow> tab2 ! j = tab1 ! j"
    "(\<exists>i < NAT_TAB_SIZE. flow_match m2 (tab1 ! i)) \<longrightarrow> flow_match m2 (tab1 ! e2)"
    "(\<forall>i < NAT_TAB_SIZE. \<not> flow_match m2 (tab1 ! i)) \<longrightarrow> e2 = oldest_entry t2 tab1 0 0 0"
    using forward_entry [OF 1(2) f(2), of t2] by metis
  have m0: "flow_match m1 (tab1 ! 0)" "nt_time (tab1 ! 0) = t1"
    using 1 by auto
  have n2: "\<forall>i < NAT_TAB_SIZE. \<not> flow_match m2 (tab1 ! i)"
  proof (intro allI impI)
    fix i :: nat
    assume "i < NAT_TAB_SIZE"
    then show "\<not> flow_match m2 (tab1 ! i)"
      using m0 d 1(5,6) z nz(1) sip by (cases "i = 0") (auto simp: flow_match_def nat_tab0_def)
  qed
  have e2: "e2 \<noteq> 0"
  proof
    assume "e2 = 0"
    then have o2: "oldest_entry t2 tab1 0 0 0 = 0" using 2(7) n2 by auto
    have t2: "0 < t2" "t2 - t1 < t2"
      using nz(2,3) unat_sub [OF nz(3)] by (auto simp: word_less_nat_alt word_le_nat_alt)
    have "tab1 ! 1 = nat_tab0"
      using 1(5,6) z [of 1] by simp
    moreover have "tab1 ! 1 \<in> set tab1"
      using 1(2) by (intro nth_mem) simp
    ultimately have a1: "nat_tab0 \<in> set tab1" "nt_status nat_tab0 = 0" "t2 - nt_time nat_tab0 = t2"
      by (auto simp: nat_tab0_def)
    show False
      using oldest_entry_spec [of t2 tab1 0 0 0] a1 t2 o2 m0(2) unfolding Let_def
      by (metis leD add_0)
  qed
  have t20: "tab2 ! 0 = tab1 ! 0" using 2(5) e2 by auto
  have rm: "reply_match r (tab2 ! 0)"
    using m0(1) s(1) t20 by (auto simp: reply_match_def flow_match_def answer_to_def)
  have j: "first_index (\<lambda>i. reply_match r (tab2 ! i)) 0 NAT_TAB_SIZE = Some 0"
    unfolding first_index_Some using rm by simp
  have ba: "backward_applies g r"
    using f(1) s(1) by (auto simp: backward_applies_def forward_applies_def answer_to_def)
  have "backward_nat g r tab2 = (0, st16 (st32 r o_ip_src (nt_dst_ip (tab2 ! 0))) o_port_src (nt_dst_port (tab2 ! 0)))"
    by (simp only: backward_nat_def ba j if_False not_True_eq_False option.case)
  moreover have "ld32 (st16 (st32 r o_ip_src (nt_dst_ip (tab2 ! 0))) o_port_src (nt_dst_port (tab2 ! 0))) o_ip_src
      = ld32 m1 o_ip_dst"
    using l m0(1) t20 by (simp add: cmem flow_match_def)
  ultimately show ?thesis
    using 1(1) 2(1-4) by blast
qed

lemma nat_port_confusion_witness:
  "\<exists>m1' m2' tab1 tab2 r'. forward_nat demo_if 7 demo_out1 (nattab nat_st0) = (0, m1', tab1) \<and>
    forward_nat demo_if 8 demo_out2 tab1 = (0, m2', tab2) \<and> backward_nat demo_if demo_in tab2 = (0, r') \<and>
    ld32 r' o_ip_src = 0x08080808 \<and> ld32 demo_out2 o_ip_dst = 0x09090909"
  using nat_port_confusion [of demo_if demo_out1 demo_out2 demo_in 7 8] demo_facts by (simp only:) force

text \<open>
  The test for "local datagram" in \<open>backward_nat\<close> lets every packet of the gateway's own
  address pass: an answer of the gateway itself (for example of its DNS server, port 53) to a
  client port that also has a NAT entry for the protocol has its source rewritten to the address
  of that entry.
\<close>

lemma backward_nat_hijack:
  assumes "PKT_HDR_LEN \<le> length r" and "ld16 r o_ethertype = ETHERTYPE_IP4_N" and "ld32 r o_ip_src = gn_addr g"
    and "ld16 r o_port_src \<noteq> DIVERT_PORT_N" and "r ! o_proto = PROT_UDP"
    and "i < NAT_TAB_SIZE" and "reply_match r (tab ! i)"
  shows "\<exists>r' j. backward_nat g r tab = (0, r') \<and> j \<le> i \<and> ld32 r' o_ip_src = nt_dst_ip (tab ! j) \<and>
    ld16 r' o_port_src = nt_dst_port (tab ! j)"
proof -
  have "backward_applies g r"
    using assms by (simp add: backward_applies_def)
  moreover obtain j where j: "first_index (\<lambda>i. reply_match r (tab ! i)) 0 NAT_TAB_SIZE = Some j"
    using first_index_None [of "\<lambda>i. reply_match r (tab ! i)" 0 NAT_TAB_SIZE] assms(6,7) by fastforce
  moreover have "j \<le> i"
    using j assms(7) unfolding first_index_Some by (meson not_le zero_le)
  ultimately show ?thesis
    using assms(1) by (auto simp: backward_nat_def cmem)
qed

abbreviation (input) "demo_dns \<equiv> mk_hdr [192, 168, 245, 1] [192, 168, 245, 2] [0, 53] [0x10, 0x00] PROT_UDP"

lemma demo_dns_facts:
  "38 \<le> length demo_dns" "ld16 demo_dns 12 = 0x0008" "ld32 demo_dns 26 = gn_addr demo_if"
  "ld16 demo_dns 34 \<noteq> DIVERT_PORT_N" "demo_dns ! 23 = PROT_UDP"
  "ld32 demo_dns 30 = 0x02F5A8C0" "ld16 demo_dns 36 = 0x0010"
  by code_simp+

lemma backward_nat_hijack_witness:
  "\<exists>r'. backward_nat demo_if demo_dns ((nattab nat_st0)[0 := nat_tab0\<lparr>nt_src_ip := 0x02F5A8C0, nt_src_port := 0x0010,
      nt_proto := 17, nt_dst_ip := 0x08080808\<rparr>]) = (0, r') \<and> ld32 r' o_ip_src = 0x08080808"
proof -
  let ?tab = "(nattab nat_st0)[0 := nat_tab0\<lparr>nt_src_ip := 0x02F5A8C0, nt_src_port := 0x0010,
      nt_proto := 17, nt_dst_ip := 0x08080808\<rparr>]"
  have e: "?tab ! 0 = nat_tab0\<lparr>nt_src_ip := 0x02F5A8C0, nt_src_port := 0x0010, nt_proto := 17, nt_dst_ip := 0x08080808\<rparr>"
    by (simp add: nat_st0_def)
  have "reply_match demo_dns (?tab ! 0)"
    unfolding e reply_match_def demo_dns_facts by simp
  then show ?thesis
    using backward_nat_hijack [OF demo_dns_facts(1-5), of 0 ?tab] e by fastforce
qed

section \<open>The ring of packets waiting for the socket\<close>

text \<open>\<open>ring_rep t xs\<close>: the slots from \<open>index_begin\<close> on hold the packets \<open>xs\<close>, all others are NULL.\<close>

definition ring_rep :: "NAT_TAB \<Rightarrow> nat list \<Rightarrow> bool" where
  "ring_rep t xs \<longleftrightarrow> length (nt_p t) = SNDQ_MAXLEN \<and> unat (nt_begin t) < SNDQ_MAXLEN \<and>
     length xs < SNDQ_MAXLEN \<and> unat (nt_end t) = (unat (nt_begin t) + length xs) mod SNDQ_MAXLEN \<and>
     (\<forall>k < SNDQ_MAXLEN. nt_p t ! ((unat (nt_begin t) + k) mod SNDQ_MAXLEN) =
        (if k < length xs then Some (xs ! k) else None))"

lemma mod_inj_le: "(b + k) mod n = (b + j) mod n \<Longrightarrow> k < n \<Longrightarrow> j \<le> k \<Longrightarrow> k = j" for b :: nat
proof -
  assume a: "(b + k) mod n = (b + j) mod n" "k < n" "j \<le> k"
  then have "n dvd (b + k) - (b + j)"
    by (subst mod_eq_dvd_iff_nat [symmetric]) auto
  then have "n dvd k - j" by simp
  then show "k = j"
    using a by (auto dest: dvd_imp_le)
qed

lemma ring_inj: "(b + k) mod 100 = (b + j) mod 100 \<Longrightarrow> k < 100 \<Longrightarrow> j < 100 \<Longrightarrow> k = j" for b :: nat
  using mod_inj_le [of b k 100 j] mod_inj_le [of b j 100 k] by (cases "j \<le> k") auto

lemma ring_next_mod: "k < 100 \<Longrightarrow> ring_next k = Suc k mod 100"
  by (cases "k = 99") (auto simp: ring_next_def)

lemma ring_full: "b < 100 \<Longrightarrow> n < 100 \<Longrightarrow> ring_next ((b + n) mod 100) = b \<longleftrightarrow> n = 99" for b :: nat
proof -
  assume a: "b < 100" "n < 100"
  have e: "ring_next ((b + n) mod 100) = (b + Suc n) mod 100"
    by (simp add: ring_next_mod mod_Suc_eq)
  show ?thesis
  proof (cases "n = 99")
    case True
    then show ?thesis using a e by simp
  next
    case False
    then have "(b + Suc n) mod 100 \<noteq> (b + 0) mod 100"
      using a ring_inj [of b "Suc n" 0] by auto
    then show ?thesis using a False e by simp
  qed
qed

lemma ring_next_less: "k < 100 \<Longrightarrow> ring_next k < 100"
  by (auto simp: ring_next_def)

lemma unat_of_ring [simp]: "k < 100 \<Longrightarrow> unat (of_nat k :: u32) = k"
  by (simp add: unsigned_of_nat take_bit_nat_eq_self)

lemma ring_push:
  assumes r: "ring_rep t xs" and n: "length xs < 99"
  shows "ring_rep (t\<lparr>nt_p := (nt_p t)[unat (nt_end t) := Some q], nt_end := of_nat (ring_next (unat (nt_end t)))\<rparr>) (xs @ [q])"
proof -
  let ?b = "unat (nt_begin t)" and ?n = "length xs"
  have e: "unat (nt_end t) = (?b + ?n) mod 100" and b: "?b < 100"
    using r by (simp_all add: ring_rep_def)
  have sl: "nt_p t ! ((?b + k) mod 100) = (if k < ?n then Some (xs ! k) else None)" if "k < 100" for k
    using r that by (simp add: ring_rep_def)
  have "(nt_p t)[(?b + ?n) mod 100 := Some q] ! ((?b + k) mod 100) =
      (if k < Suc ?n then Some ((xs @ [q]) ! k) else None)" if "k < 100" for k
  proof (cases "k = ?n")
    case True
    then show ?thesis
      using r by (simp add: ring_rep_def)
  next
    case False
    then have "(?b + ?n) mod 100 \<noteq> (?b + k) mod 100"
      using ring_inj [of ?b ?n k] that n by auto
    then show ?thesis
      using False sl [OF that] by (auto simp: nth_append)
  qed
  moreover have "ring_next ((?b + ?n) mod 100) = Suc (?b + ?n) mod 100"
    by (simp add: ring_next_mod mod_Suc_eq)
  ultimately show ?thesis
    using r n b by (simp add: ring_rep_def)
qed

lemma ring_pop:
  assumes r: "ring_rep t (x # xs)"
  shows "nt_p t ! unat (nt_begin t) = Some x" and "unat (nt_begin t) < 100" and "nt_begin t \<noteq> nt_end t"
    and "ring_rep (t\<lparr>nt_p := (nt_p t)[unat (nt_begin t) := None], nt_begin := of_nat (ring_next (unat (nt_begin t)))\<rparr>) xs"
proof -
  let ?b = "unat (nt_begin t)"
  have e: "unat (nt_end t) = (?b + Suc (length xs)) mod 100" and n: "Suc (length xs) < 100"
    using r by (simp_all add: ring_rep_def)
  have sl: "nt_p t ! ((?b + k) mod 100) = (if k < Suc (length xs) then Some ((x # xs) ! k) else None)" if "k < 100" for k
    using r that by (simp add: ring_rep_def)
  show b: "?b < 100" using r by (simp add: ring_rep_def)
  have "(?b + 0) mod 100 = ?b" using b by simp
  then show 0: "nt_p t ! ?b = Some x" using sl [of 0] by (metis nth_Cons_0 zero_less_Suc zero_less_numeral)
  have "(?b + Suc (length xs)) mod 100 \<noteq> ?b"
    using ring_inj [of ?b "Suc (length xs)" 0] n b by (metis add_0_right mod_less nat.distinct(1) zero_less_numeral)
  then show "nt_begin t \<noteq> nt_end t" using e by metis
  have "(nt_p t)[?b := None] ! ((?b + Suc k) mod 100) = (if k < length xs then Some (xs ! k) else None)" if "k < 100" for k
  proof (cases "k = 99")
    case True
    then show ?thesis
      using r n b by (simp add: ring_rep_def)
  next
    case False
    then have "Suc k < 100" using that by simp
    then have "?b \<noteq> (?b + Suc k) mod 100"
      using ring_inj [of ?b 0 "Suc k"] b by (metis add_0_right mod_less nat.distinct(1) zero_less_numeral)
    then show ?thesis
      using sl [of "Suc k"] that False by auto
  qed
  then have sl': "(nt_p t)[?b := None] ! ((ring_next ?b + k) mod 100) = (if k < length xs then Some (xs ! k) else None)" if "k < 100" for k
    using that b by (simp add: ring_next_mod mod_add_left_eq)
  have rn: "ring_next ?b < 100" "(ring_next ?b + length xs) mod 100 = (?b + Suc (length xs)) mod 100"
    using b by (simp_all add: ring_next_mod mod_add_left_eq)
  show "ring_rep (t\<lparr>nt_p := (nt_p t)[?b := None], nt_begin := of_nat (ring_next ?b)\<rparr>) xs"
    using r n e rn sl' unfolding ring_rep_def by simp
qed

lemma ring_empty: "ring_rep t xs \<Longrightarrow> nt_begin t = nt_end t \<longleftrightarrow> xs = []"
  using ring_pop(3) by (cases xs) (auto simp: ring_rep_def word_unat_eq_iff)

lemma ring_rep_frame:
  "nt_p t' = nt_p t \<Longrightarrow> nt_begin t' = nt_begin t \<Longrightarrow> nt_end t' = nt_end t \<Longrightarrow> ring_rep t' xs = ring_rep t xs"
  by (simp add: ring_rep_def)

lemma upd_nt_same [simp]: "i < length (nattab s) \<Longrightarrow> nattab (upd_nt i f s) ! i = f (nattab s ! i)"
  by (simp add: upd_nt_def)

lemma upd_nt_fields [simp]:
  "length (nattab (upd_nt i f s)) = length (nattab s)" "nat_log (upd_nt i f s) = nat_log s"
  "ns_pbuf_used (upd_nt i f s) = ns_pbuf_used s" "nattab (nat_emit es s) = nattab s"
  "nat_log (nat_emit es s) = nat_log s @ es" "ns_pbuf_used (nat_emit es s) = ns_pbuf_used s"
  "nattab (s\<lparr>ns_pbuf_used := u\<rparr>) = nattab s"
  by (simp_all add: upd_nt_def nat_emit_def)

text \<open>
  \<open>nat_tcp_recv\<close> appends to the ring: data of a known connection is queued behind what waits
  already, nothing that waits is overwritten, and the socket task is woken; when 99 packets wait,
  the packet is acknowledged, freed and counted in \<open>rx_ovf\<close>, and the queue stays.
\<close>

lemma nat_recv_appends:
  assumes i: "i < NAT_TAB_SIZE" "length (nattab s) = NAT_TAB_SIZE" and r: "ring_rep (nattab s ! i) xs"
    and m: "rip = nt_src_ip (nattab s ! i)" "htons_le rport = nt_src_port (nattab s ! i)"
      "nt_proto (nattab s ! i) = ucast PROT_TCP" "nt_pcb (nattab s ! i) = Some c"
  shows "\<exists>s'. nat_tcp_recv h shut_ok (Suc i) (Some c) rip rport (Some q) True s = Some (ERR_OK, s') \<and>
    (if length xs < 99
     then ring_rep (nattab s' ! i) (xs @ [q]) \<and> ns_pbuf_used s' = ns_pbuf_used s + 1 \<and>
       nat_log s' = nat_log s @ [Io_wake_tx]
     else ring_rep (nattab s' ! i) xs \<and> nt_rx_ovf (nattab s' ! i) = nt_rx_ovf (nattab s ! i) + 1 \<and>
       nat_log s' = nat_log s @ [Io_tcp_recved (Some c) (sg_tot_len (h q)), Io_pbuf_free q])"
proof -
  let ?t = "nattab s ! i"
  have e: "unat (nt_end ?t) = (unat (nt_begin ?t) + length xs) mod 100" and b: "unat (nt_begin ?t) < 100" "length xs < 100"
    using r by (simp_all add: ring_rep_def)
  have full: "ring_next (unat (nt_end ?t)) = unat (nt_begin ?t) \<longleftrightarrow> length xs = 99"
    unfolding e using b by (rule ring_full)
  have lt: "unat (nt_end ?t) < 100" using e by simp
  then have idx: "unat (ucast (nt_end ?t) :: u16) = unat (nt_end ?t)"
    by (simp add: unsigned_ucast_eq take_bit_nat_eq_self)
  show ?thesis
  proof (cases "length xs < 99")
    case True
    then show ?thesis
      using i m lt full ring_push [OF r True, of q]
      by (simp add: nat_tcp_recv_def Let_def not_le idx)
  next
    case False
    have "ring_rep (?t\<lparr>nt_rx_ovf := nt_rx_ovf ?t + 1\<rparr>) xs"
      using r by (simp add: ring_rep_def)
    then show ?thesis
      using i m lt full False b by (simp add: nat_tcp_recv_def Let_def not_le idx)
  qed
qed

text \<open>The entry of an open connection of \<open>pcb\<close> 4 from address 7, port 0x1000 (stored as 0x0010).\<close>

definition demo_conn :: nat_st where
  "demo_conn = nat_st0\<lparr>nattab := (nattab nat_st0)[2 := nat_tab0\<lparr>nt_src_ip := 7, nt_src_port := 0x0010, nt_proto := 6,
     nt_pcb := Some 4, nt_status := 1, nt_socket := 33\<rparr>]\<rparr>"

lemma demo_conn_facts:
  "length (nattab demo_conn) = NAT_TAB_SIZE" "ring_rep (nattab demo_conn ! 2) []" "nt_src_ip (nattab demo_conn ! 2) = 7"
  "nt_src_port (nattab demo_conn ! 2) = 0x0010" "nt_proto (nattab demo_conn ! 2) = 6" "nt_pcb (nattab demo_conn ! 2) = Some 4"
  "nt_status (nattab demo_conn ! 2) = 1" "nt_offs (nattab demo_conn ! 2) = 0" "nt_txbuf_len (nattab demo_conn ! 2) = 0"
  "length (nt_txbuf (nattab demo_conn ! 2)) = 1500" "nt_socket (nattab demo_conn ! 2) = 33"
  by (simp_all add: demo_conn_def nat_st0_def nat_tab0_def ring_rep_def)

lemma demo_port: "htons_le 0x1000 = 0x0010"
  by code_simp

abbreviation (input) "demo_seg \<equiv> (\<lambda>_. \<lparr>sg_next = None, sg_payload = replicate 10 1, sg_len = 10, sg_tot_len = 10\<rparr>)"

lemma nat_recv_appends_witness:
  "\<exists>s'. nat_tcp_recv demo_seg True 3 (Some 4) 7 0x1000 (Some 55) True demo_conn = Some (ERR_OK, s') \<and>
     ring_rep (nattab s' ! 2) [55]"
  using nat_recv_appends [of 2 demo_conn "[]" 7 "0x1000" 4 demo_seg True 55] demo_conn_facts demo_port by auto

section \<open>Sending the ring to the socket\<close>

text \<open>
  C11: \<open>NAT_Task\<close> sends a packet of one segment completely and in order. (A packet of several segments is
  not sent correctly, see \<open>nat_seek_chain\<close> below.) The socket is offered
  exactly the bytes not sent yet; a partial \<open>send\<close> advances \<open>offs\<close> and keeps the packet at the
  head of the ring; when the last byte is gone the head leaves the ring, the local stack is told
  that the whole packet was received, and the packet is freed.
\<close>

theorem nat_task_sends:
  assumes i: "i < length (nattab s)" and r: "ring_rep (nattab s ! i) (p # xs)" and st: "nt_status (nattab s ! i) \<noteq> 0"
    and seg: "sg_next (h p) = None" "sg_tot_len (h p) = sg_len (h p)"
    and o: "nt_offs (nattab s ! i) + n \<le> ucast (sg_len (h p))" "nt_offs (nattab s ! i) \<le> nt_offs (nattab s ! i) + n"
  shows "\<exists>s'. NAT_Task_slot (Suc f) h shut_ok (Sent n) i s = Some s' \<and>
    (\<exists>es. nat_log s' = nat_log s @ Io_send (nt_socket (nattab s ! i)) p (nt_offs (nattab s ! i))
        (ucast (sg_len (h p)) - nt_offs (nattab s ! i)) # es \<and>
     (if nt_offs (nattab s ! i) + n = ucast (sg_len (h p))
      then ring_rep (nattab s' ! i) xs \<and> nt_offs (nattab s' ! i) = 0 \<and> ns_pbuf_used s' = ns_pbuf_used s - 1 \<and>
        es = [Io_tcp_recved (nt_pcb (nattab s ! i)) (sg_tot_len (h p)), Io_pbuf_free p]
      else ring_rep (nattab s' ! i) (p # xs) \<and> nt_offs (nattab s' ! i) = nt_offs (nattab s ! i) + n \<and>
        ns_pbuf_used s' = ns_pbuf_used s \<and> es = []))"
proof -
  let ?t = "nattab s ! i"
  note pop = ring_pop [OF r]
  show ?thesis
  proof (cases "nt_offs ?t + n = ucast (sg_len (h p))")
    case True
    have "ring_rep (?t\<lparr>nt_p := (nt_p ?t)[unat (nt_begin ?t) := None], nt_begin := of_nat (ring_next (unat (nt_begin ?t))),
        nt_offs := 0\<rparr>) xs"
      by (rule ring_rep_frame [THEN iffD2, OF _ _ _ pop(4)]) simp_all
    then show ?thesis
      using i st seg pop(1) True by (simp add: NAT_Task_slot_def Let_def)
  next
    case False
    then have "nt_offs ?t + n < ucast (sg_len (h p))"
      using o(1) by (simp add: order.not_eq_order_implies_strict)
    moreover have "ring_rep (?t\<lparr>nt_offs := nt_offs ?t + n\<rparr>) (p # xs)"
      using r by (simp add: ring_rep_def)
    ultimately show ?thesis
      using i st seg pop(1) False by (simp add: NAT_Task_slot_def Let_def)
  qed
qed

text \<open>A slot with packet 55 queued, of 10 bytes in one segment.\<close>

theorem nat_task_sends_witness:
  "\<exists>s0 s1. ring_rep (nattab s0 ! 2) [55] \<and> NAT_Task_slot 1 demo_seg True (Sent 10) 2 s0 = Some s1 \<and>
     ring_rep (nattab s1 ! 2) []"
proof -
  let ?f = "\<lambda>t. t\<lparr>nt_p := (nt_p t)[unat (nt_end t) := Some 55], nt_end := of_nat (ring_next (unat (nt_end t)))\<rparr>"
  let ?s = "upd_nt 2 ?f demo_conn"
  have l: "2 < length (nattab demo_conn)"
    using demo_conn_facts(1) by simp
  then have r: "ring_rep (nattab ?s ! 2) [55]"
    using ring_push [OF demo_conn_facts(2), of 55] by simp
  have f: "nt_status (nattab ?s ! 2) \<noteq> 0" "nt_offs (nattab ?s ! 2) = 0" "2 < length (nattab ?s)"
    using l demo_conn_facts by simp_all
  have g: "sg_next (demo_seg 55) = None" "sg_tot_len (demo_seg 55) = sg_len (demo_seg 55)"
    and o: "nt_offs (nattab ?s ! 2) + 10 = ucast (sg_len (demo_seg 55))"
    and le: "nt_offs (nattab ?s ! 2) + 10 \<le> ucast (sg_len (demo_seg 55))" "nt_offs (nattab ?s ! 2) \<le> nt_offs (nattab ?s ! 2) + 10"
    unfolding f(2) by simp_all
  have "\<exists>s1. NAT_Task_slot (Suc 0) demo_seg True (Sent 10) 2 ?s = Some s1 \<and> ring_rep (nattab s1 ! 2) []"
    using nat_task_sends [where f = 0 and shut_ok = True, OF f(3) r f(1), OF g le]
    by (simp only: o refl if_True) blast
  then show ?thesis using r unfolding One_nat_def by blast
qed

text \<open>
  The seek of \<open>NAT_Task\<close> goes wrong on a chain of segments: positioned at the start of the
  second segment, the task asks \<open>send\<close> for as many bytes as the first segment has, whatever the
  length of the second; and past the second of three or more segments it never moves on, so it does
  not end when that segment is empty.
\<close>

lemma nat_seek_chain:
  assumes "sg_next (h p) = Some q" and "sg_next (h q) = None" and "nt_status (nattab s ! i) \<noteq> 0"
    and "nt_p (nattab s ! i) ! unat (nt_begin (nattab s ! i)) = Some p"
    and "nt_offs (nattab s ! i) = ucast (sg_len (h p))"
  shows "NAT_Task_slot (Suc (Suc f)) h shut_ok Send_again i s =
      Some (nat_emit [Io_send (nt_socket (nattab s ! i)) q 0 (ucast (sg_len (h p)))] s) \<and>
    (\<forall>r n. sg_next (h' p) = Some q \<longrightarrow> sg_next (h' q) = Some r \<longrightarrow> sg_len (h' q) = 0 \<longrightarrow> nat_seek n h' p q offs = None)"
proof (intro conjI allI impI)
  show "NAT_Task_slot (Suc (Suc f)) h shut_ok Send_again i s =
      Some (nat_emit [Io_send (nt_socket (nattab s ! i)) q 0 (ucast (sg_len (h p)))] s)"
    using assms by (simp add: NAT_Task_slot_def Let_def)
  show "nat_seek n h' p q offs = None" if "sg_next (h' p) = Some q" "sg_next (h' q) = Some r" "sg_len (h' q) = 0" for r n
    using that by (induction n) auto
qed

lemma nat_seek_chain_witness:
  "\<exists>h s. sg_len (h 56) = 3 \<and> NAT_Task_slot 2 h True Send_again 2 s = Some (nat_emit [Io_send 33 56 0 5] s)"
proof -
  let ?h = "(\<lambda>_. \<lparr>sg_next = None, sg_payload = replicate 3 1, sg_len = 3, sg_tot_len = 3\<rparr>)
    (55 := \<lparr>sg_next = Some 56, sg_payload = replicate 5 1, sg_len = 5, sg_tot_len = 8\<rparr>)"
  let ?s = "upd_nt 2 (\<lambda>t. t\<lparr>nt_p := (nt_p t)[0 := Some 55], nt_end := 1, nt_offs := 5\<rparr>) demo_conn"
  have "NAT_Task_slot (Suc (Suc 0)) ?h True Send_again 2 ?s = Some (nat_emit [Io_send 33 56 0 5] ?s)"
    using nat_seek_chain [of ?h 55 56 ?s 2 0 True ?h 0] demo_conn_facts
    by (simp add: demo_conn_def nat_st0_def nat_tab0_def)
  then show ?thesis
    by (intro exI [of _ ?h] exI [of _ ?s]) (simp add: numeral_2_eq_2)
qed

section \<open>Closing a connection\<close>

lemma upd_nt_other [simp]: "i \<noteq> j \<Longrightarrow> nattab (upd_nt i f s) ! j = nattab s ! j"
  by (simp add: upd_nt_def)

definition freed :: "nat_io list \<Rightarrow> nat list" where
  "freed es = concat (map (\<lambda>e. case e of Io_pbuf_free p \<Rightarrow> [p] | _ \<Rightarrow> []) es)"

definition recvd :: "nat_io list \<Rightarrow> u8 list" where
  "recvd es = concat (map (\<lambda>e. case e of Io_recv bs \<Rightarrow> bs | _ \<Rightarrow> []) es)"

definition written :: "nat_io list \<Rightarrow> u8 list" where
  "written es = concat (map (\<lambda>e. case e of Io_tcp_write c bs ok \<Rightarrow> if ok then bs else [] | _ \<Rightarrow> []) es)"

lemma io_projections [simp]:
  "freed [] = []" "freed (e # es) = (case e of Io_pbuf_free p \<Rightarrow> [p] | _ \<Rightarrow> []) @ freed es"
  "recvd [] = []" "recvd (e # es) = (case e of Io_recv bs \<Rightarrow> bs | _ \<Rightarrow> []) @ recvd es"
  "written [] = []" "written (e # es) = (case e of Io_tcp_write c bs ok \<Rightarrow> if ok then bs else [] | _ \<Rightarrow> []) @ written es"
  "freed (es @ fs) = freed es @ freed fs" "recvd (es @ fs) = recvd es @ recvd fs"
  "written (es @ fs) = written es @ written fs"
  by (simp_all add: freed_def recvd_def written_def)

definition same_conn :: "NAT_TAB \<Rightarrow> NAT_TAB \<Rightarrow> bool" where
  "same_conn t t' \<longleftrightarrow> nt_begin t' = nt_begin t \<and> nt_end t' = nt_end t \<and> nt_pcb t' = nt_pcb t \<and>
     nt_txbuf_len t' = nt_txbuf_len t \<and> nt_txbuf t' = nt_txbuf t"

lemma drain_ring_queue:
  assumes i: "i < length (nattab s)" and r: "ring_rep t xs" and n: "length xs \<le> n"
    and t: "nt_p (nattab s ! i) = nt_p t" "nt_end (nattab s ! i) = nt_end t"
  shows "\<exists>s' es. drain_ring h i n (unat (nt_begin t)) s = (unat (nt_end t), s') \<and> nat_log s' = nat_log s @ es \<and>
    freed es = xs \<and> recvd es = [] \<and> written es = [] \<and> ns_pbuf_used s' = ns_pbuf_used s - of_nat (length xs) \<and>
    nt_p (nattab s' ! i) = replicate SNDQ_MAXLEN None \<and> length (nattab s') = length (nattab s) \<and>
    same_conn (nattab s ! i) (nattab s' ! i)"
  using assms
proof (induction xs arbitrary: n s t)
  case Nil
  have b: "unat (nt_begin t) = unat (nt_end t)" and l: "length (nt_p t) = 100" "unat (nt_begin t) < 100"
    and sl: "\<forall>k < 100. nt_p t ! ((unat (nt_begin t) + k) mod 100) = None"
    using Nil.prems(2) by (simp_all add: ring_rep_def)
  have "nt_p t ! j = None" if "j < 100" for j
  proof -
    have "(unat (nt_begin t) + (j + 100 - unat (nt_begin t)) mod 100) mod 100 = j"
      using that l(2) by (simp add: mod_add_right_eq)
    then show ?thesis using sl by (metis mod_less_divisor zero_less_numeral)
  qed
  then have "nt_p t = replicate 100 None"
    using l by (simp add: list_eq_iff_nth_eq)
  then show ?case
    using Nil.prems b by (cases n) (auto simp: same_conn_def intro!: exI [of _ "[]"])
next
  case (Cons x xs)
  note pop = ring_pop [OF Cons.prems(2)]
  obtain m where m: "n = Suc m" "length xs \<le> m"
    using Cons.prems(3) by (cases n) auto
  let ?b = "unat (nt_begin t)"
  let ?s1 = "nat_emit [Io_tcp_recved (nt_pcb (nattab s ! i)) (sg_tot_len (h x)), Io_pbuf_free x] s"
  let ?s2 = "upd_nt i (\<lambda>t. t\<lparr>nt_p := (nt_p t)[?b := None]\<rparr>) (?s1\<lparr>ns_pbuf_used := ns_pbuf_used s - 1\<rparr>)"
  let ?t = "t\<lparr>nt_p := (nt_p t)[?b := None], nt_begin := of_nat (ring_next ?b)\<rparr>"
  have nb: "unat (nt_begin ?t) = ring_next ?b"
    using pop(2) ring_next_less by simp
  have ne: "?b \<noteq> unat (nt_end (nattab s ! i))"
    using pop(3) Cons.prems(5) by (simp add: word_unat_eq_iff)
  have step: "drain_ring h i n ?b s = drain_ring h i m (unat (nt_begin ?t)) ?s2"
    unfolding nb using m ne pop(1) Cons.prems(4) by (simp add: nat_emit_def)
  from Cons.IH [of ?s2 ?t m] Cons.prems pop(4) m
  obtain s' es where "drain_ring h i m (unat (nt_begin ?t)) ?s2 = (unat (nt_end t), s')"
    "nat_log s' = nat_log ?s2 @ es" "freed es = xs" "recvd es = []" "written es = []"
    "ns_pbuf_used s' = ns_pbuf_used ?s2 - of_nat (length xs)" "nt_p (nattab s' ! i) = replicate SNDQ_MAXLEN None"
    "length (nattab s') = length (nattab ?s2)" "same_conn (nattab ?s2 ! i) (nattab s' ! i)"
    by auto
  then show ?case
    using step Cons.prems(1)
    by (intro exI [of _ s'] exI [of _ "[Io_tcp_recved (nt_pcb (nattab s ! i)) (sg_tot_len (h x)), Io_pbuf_free x] @ es"])
      (auto simp: same_conn_def nat_emit_def)
qed

lemma close_so_fields [simp]:
  "length (nattab (nat_close_so_conn i s)) = length (nattab s)"
  "ns_pbuf_used (nat_close_so_conn i s) = ns_pbuf_used s"
  by (simp_all add: nat_close_so_conn_def)

lemma close_so_conn:
  assumes "i < length (nattab s)"
  shows "same_conn (nattab s ! i) (nattab (nat_close_so_conn i s) ! i)"
    "nt_p (nattab (nat_close_so_conn i s) ! i) = nt_p (nattab s ! i)"
    "nt_status (nattab (nat_close_so_conn i s) ! i) = 0"
    "\<exists>es. nat_log (nat_close_so_conn i s) = nat_log s @ es \<and> freed es = [] \<and> recvd es = [] \<and> written es = []"
  using assms by (auto simp: nat_close_so_conn_def same_conn_def)

lemma close_lw_open:
  assumes i: "i < length (nattab s)" and r: "ring_rep (nattab s ! i) xs" and c: "nt_pcb (nattab s ! i) = Some c"
  shows "\<exists>es. nat_log (nat_close_lw_conn h shut_ok i s) = nat_log s @ es \<and> freed es = xs \<and> recvd es = [] \<and>
    written es = [] \<and> ring_rep (nattab (nat_close_lw_conn h shut_ok i s) ! i) [] \<and>
    nt_pcb (nattab (nat_close_lw_conn h shut_ok i s) ! i) = None \<and>
    nt_txbuf_len (nattab (nat_close_lw_conn h shut_ok i s) ! i) = 0 \<and>
    ns_pbuf_used (nat_close_lw_conn h shut_ok i s) = ns_pbuf_used s - of_nat (length xs)"
proof -
  have n: "length xs \<le> SNDQ_MAXLEN" and e: "unat (nt_end (nattab s ! i)) < 100"
    using r by (simp_all add: ring_rep_def)
  obtain s' es where d: "drain_ring h i SNDQ_MAXLEN (unat (nt_begin (nattab s ! i))) s = (unat (nt_end (nattab s ! i)), s')"
    "nat_log s' = nat_log s @ es" "freed es = xs" "recvd es = []" "written es = []"
    "ns_pbuf_used s' = ns_pbuf_used s - of_nat (length xs)" "nt_p (nattab s' ! i) = replicate SNDQ_MAXLEN None"
    "length (nattab s') = length (nattab s)" "same_conn (nattab s ! i) (nattab s' ! i)"
    using drain_ring_queue [OF i r n refl refl] by blast
  show ?thesis
    using d i c e by (auto simp: nat_close_lw_conn_def Let_def same_conn_def ring_rep_def)
qed

text \<open>
  Dropping a connection releases everything it holds: every packet in its ring is acknowledged
  and freed exactly once, in order, the ring is empty afterwards, the packet count goes down by as
  many, the socket is shut down and the local connection is forgotten.
\<close>

lemma nat_drop_releases:
  assumes "i < length (nattab s)" and "ring_rep (nattab s ! i) xs" and "nt_pcb (nattab s ! i) = Some c"
  shows "let s' = nat_drop_conn h shut_ok i s
    in (\<exists>es. nat_log s' = nat_log s @ es \<and> freed es = xs) \<and> ring_rep (nattab s' ! i) [] \<and>
      nt_pcb (nattab s' ! i) = None \<and> ns_pbuf_used s' = ns_pbuf_used s - of_nat (length xs)"
proof -
  let ?s = "nat_close_so_conn i (upd_nt i (\<lambda>t. t\<lparr>nt_shutdown_req := 1\<rparr>) s)"
  have l: "i < length (nattab ?s)" using assms(1) by simp
  have c: "same_conn (nattab s ! i) (nattab ?s ! i)" "nt_p (nattab ?s ! i) = nt_p (nattab s ! i)"
    using close_so_conn [of i "upd_nt i (\<lambda>t. t\<lparr>nt_shutdown_req := 1\<rparr>) s"] assms(1) by (auto simp: same_conn_def)
  then have r: "ring_rep (nattab ?s ! i) xs" "nt_pcb (nattab ?s ! i) = Some c"
    using assms(2,3) by (auto simp: same_conn_def ring_rep_def)
  obtain es0 where "nat_log ?s = nat_log s @ es0" "freed es0 = []"
    using close_so_conn(4) [of i "upd_nt i (\<lambda>t. t\<lparr>nt_shutdown_req := 1\<rparr>) s"] assms(1) by auto
  with close_lw_open [OF l r, of h shut_ok] show ?thesis
    by (auto simp: nat_drop_conn_def Let_def)
qed

lemma nat_drop_releases_witness:
  "nt_pcb (nattab (nat_drop_conn demo_seg True 2 demo_conn) ! 2) = None"
proof -
  have "2 < length (nattab demo_conn)" using demo_conn_facts(1) by simp
  from nat_drop_releases [OF this demo_conn_facts(2) demo_conn_facts(6), of demo_seg True] show ?thesis
    by (simp add: Let_def)
qed

text \<open>
  \<open>nat_tcp_err\<close> does not release: when the local stack reports an error, the packets in the
  ring stay there, and the next connection accepted on the entry resets the indices, so the ring
  counts as empty while none of the packets was ever freed and \<open>pbuf_used\<close> still counts them.
\<close>

lemma nat_err_leaks:
  assumes i: "i < NAT_TAB_SIZE" "length (nattab s) = NAT_TAB_SIZE" and r: "ring_rep (nattab s ! i) xs"
    and f: "nat_find_match rip (htons_le rport) PROT_TCP (nattab s) = Some i"
  shows "\<exists>s' es. nat_accept_fn True (Some c) rip rport (Some k) True True (nat_tcp_err (Suc i) s) = (ERR_OK, s') \<and>
    nat_log s' = nat_log s @ es \<and> freed es = [] \<and> ns_pbuf_used s' = ns_pbuf_used s \<and>
    nt_begin (nattab s' ! i) = nt_end (nattab s' ! i) \<and> nt_p (nattab s' ! i) = nt_p (nattab s ! i)"
proof -
  let ?s = "nat_tcp_err (Suc i) s"
  have e: "?s = upd_nt i (\<lambda>t. t\<lparr>nt_pcb := None\<rparr>) (nat_close_so_conn i s)"
    using i by (simp add: nat_tcp_err_def)
  have "nt_src_ip (nattab ?s ! j) = nt_src_ip (nattab s ! j) \<and> nt_src_port (nattab ?s ! j) = nt_src_port (nattab s ! j) \<and>
      nt_proto (nattab ?s ! j) = nt_proto (nattab s ! j)" for j
    using i unfolding e by (cases "j = i") (auto simp: nat_close_so_conn_def)
  then have f': "nat_find_match rip (htons_le rport) PROT_TCP (nattab ?s) = Some i"
    using f by (simp add: nat_find_match_def)
  have l: "i < length (nattab ?s)" and p: "nt_p (nattab ?s ! i) = nt_p (nattab s ! i)" "ns_pbuf_used ?s = ns_pbuf_used s"
    using i close_so_conn(2) [of i s] by (simp_all add: e)
  obtain es where "nat_log ?s = nat_log s @ es" "freed es = []"
    using close_so_conn(4) [of i s] i by (auto simp: e)
  with f' l p show ?thesis
    by (auto simp: nat_accept_fn_def Let_def nat_emit_def upd_nt_def)
qed

lemma nat_err_leaks_witness:
  "\<exists>s0 s'. ring_rep (nattab s0 ! 2) [55] \<and>
     nat_accept_fn True (Some 9) 7 0x1000 (Some 44) True True (nat_tcp_err 3 s0) = (ERR_OK, s') \<and>
     nt_begin (nattab s' ! 2) = nt_end (nattab s' ! 2) \<and> nt_p (nattab s' ! 2) ! 0 = Some 55"
proof -
  let ?f = "\<lambda>t. t\<lparr>nt_p := (nt_p t)[unat (nt_end t) := Some 55], nt_end := of_nat (ring_next (unat (nt_end t)))\<rparr>"
  let ?s = "upd_nt 2 ?f demo_conn"
  have l: "2 < length (nattab demo_conn)"
    using demo_conn_facts(1) by simp
  then have r: "ring_rep (nattab ?s ! 2) [55]"
    using ring_push [OF demo_conn_facts(2), of 55] by simp
  have b: "unat (nt_begin (nattab ?s ! 2)) = 0"
    using l by (simp add: demo_conn_def nat_st0_def nat_tab0_def)
  have "nat_find_match 7 0x0010 6 (nattab ?s) = Some 2"
    unfolding nat_find_match_def by code_simp
  then have f: "nat_find_match 7 (htons_le 0x1000) 6 (nattab ?s) = Some 2"
    by (simp only: demo_port)
  have "(2 :: nat) < 16" "length (nattab ?s) = 16"
    using demo_conn_facts(1) by simp_all
  from nat_err_leaks [OF this r f, of 9 44] ring_pop(1) [OF r] r b show ?thesis
    by (auto simp: eval_nat_numeral)
qed

section \<open>Bytes from the socket\<close>

definition txbuf_pending :: "nat \<Rightarrow> nat_st \<Rightarrow> u8 list" where
  "txbuf_pending i s = take (unat (nt_txbuf_len (nattab s ! i))) (nt_txbuf (nattab s ! i))"

lemma drain_ring_quiet:
  "\<exists>es. nat_log (snd (drain_ring h i n ptr s)) = nat_log s @ es \<and> recvd es = [] \<and> written es = [] \<and>
     length (nattab (snd (drain_ring h i n ptr s))) = length (nattab s)"
proof (induction n arbitrary: ptr s)
  case 0
  show ?case by (auto intro: exI [of _ "[]"])
next
  case (Suc n)
  let ?s = "\<lambda>p. upd_nt i (\<lambda>t. t\<lparr>nt_p := (nt_p t)[ptr := None]\<rparr>)
    (nat_emit [Io_tcp_recved (nt_pcb (nattab s ! i)) (sg_tot_len (h p)), Io_pbuf_free p] s\<lparr>ns_pbuf_used := ns_pbuf_used s - 1\<rparr>)"
  show ?case
  proof (cases "ptr = unat (nt_end (nattab s ! i))")
    case True
    then show ?thesis by (auto intro: exI [of _ "[]"])
  next
    case False
    then show ?thesis
      using Suc.IH [of "ring_next ptr" s] Suc.IH [of "ring_next ptr" "?s (the (nt_p (nattab s ! i) ! ptr))"]
      by (cases "nt_p (nattab s ! i) ! ptr") (auto simp: nat_emit_def)
  qed
qed

lemma drop_quiet:
  assumes "i < length (nattab s)"
  shows "\<exists>es. nat_log (nat_drop_conn h shut_ok i s) = nat_log s @ es \<and> recvd es = [] \<and> written es = [] \<and>
    txbuf_pending i (nat_drop_conn h shut_ok i s) = []"
proof -
  let ?s = "nat_close_so_conn i (upd_nt i (\<lambda>t. t\<lparr>nt_shutdown_req := 1\<rparr>) s)"
  obtain es where es: "nat_log ?s = nat_log s @ es" "recvd es = []" "written es = []"
    using close_so_conn(4) [of i "upd_nt i (\<lambda>t. t\<lparr>nt_shutdown_req := 1\<rparr>) s"] assms by auto
  have l: "i < length (nattab ?s)" using assms by simp
  obtain ptr s2 where d: "drain_ring h i SNDQ_MAXLEN (unat (nt_begin (nattab ?s ! i))) ?s = (ptr, s2)"
    by fastforce
  obtain es2 where "nat_log s2 = nat_log ?s @ es2" "recvd es2 = []" "written es2 = []" "length (nattab s2) = length (nattab ?s)"
    using drain_ring_quiet [of h i SNDQ_MAXLEN "unat (nt_begin (nattab ?s ! i))" ?s] d by auto
  then show ?thesis
    using es l d
    by (cases "nt_pcb (nattab ?s ! i)") (auto simp: nat_drop_conn_def nat_close_lw_conn_def Let_def txbuf_pending_def)
qed

lemma rx_write:
  assumes i: "i < length (nattab s)" and w: "unat (nt_txbuf_len (nattab s ! i)) \<le> length (nt_txbuf (nattab s ! i))"
  shows "txbuf_pending i (upd_nt i (\<lambda>t. t\<lparr>nt_txbuf_len := 0\<rparr>) (nat_emit es s)) = []"
    "txbuf_pending i (nat_emit es s) = txbuf_pending i s"
  using assms by (simp_all add: txbuf_pending_def)

lemma rx_store:
  assumes i: "i < length (nattab s)" and l: "length bs \<le> 1500" "length (nt_txbuf (nattab s ! i)) = 1500"
  shows "txbuf_pending i (upd_nt i (\<lambda>t. t\<lparr>nt_txbuf := st_bytes (nt_txbuf t) 0 bs, nt_txbuf_len := of_nat (length bs)\<rparr>)
      (nat_emit es s)) = bs"
proof -
  have "unat (of_nat (length bs) :: u16) = length bs"
    using l(1) by (simp add: unsigned_of_nat take_bit_nat_eq_self)
  then show ?thesis
    using i by (simp add: txbuf_pending_def st_bytes_def)
qed

text \<open>
  No byte from the socket is lost, doubled or reordered. Over any run of the read loop of
  \<open>NAT_RX_Task\<close> on a slot, whatever \<open>recv\<close> delivers and whichever \<open>tcp_write\<close> calls are refused,
  the bytes that waited in \<open>txbuf\<close> followed by the bytes read from the socket are the bytes handed
  to the local stack followed by the bytes that wait afterwards.
\<close>

lemma nat_rx_no_loss:
  assumes "i < length (nattab s)" and "length (nt_txbuf (nattab s ! i)) = 1500"
    and "\<forall>bs b. (Recv bs, b) \<in> set ins \<longrightarrow> length bs \<le> 1500"
  shows "\<exists>es. nat_log (nat_rx_loop h shut_ok i cont ins s) = nat_log s @ es \<and>
    txbuf_pending i s @ recvd es = written es @ txbuf_pending i (nat_rx_loop h shut_ok i cont ins s)"
  using assms
proof (induction ins arbitrary: cont s)
  case Nil
  show ?case by (auto intro: exI [of _ "[]"])
next
  case (Cons rw ins)
  obtain r w where rw: "rw = (r, w)" by fastforce
  let ?P = "\<lambda>cont s. nat_rx_loop h shut_ok i cont ins s"
  have IH: "\<exists>es. nat_log (?P k s') = nat_log s' @ es \<and> txbuf_pending i s' @ recvd es = written es @ txbuf_pending i (?P k s')"
    if "length (nattab s') = length (nattab s)" "length (nt_txbuf (nattab s' ! i)) = 1500" for k s'
    using Cons.IH [of s' k] Cons.prems that by auto
  have wr: "\<exists>es. nat_log (if w then ?P k (upd_nt i (\<lambda>t. t\<lparr>nt_txbuf_len := 0\<rparr>) (nat_emit [Io_tcp_write c (txbuf_pending i s') w] s'))
         else nat_emit [Io_tcp_write c (txbuf_pending i s') w] s') = nat_log s' @ es \<and>
      txbuf_pending i s' @ recvd es = written es @ txbuf_pending i
        (if w then ?P k (upd_nt i (\<lambda>t. t\<lparr>nt_txbuf_len := 0\<rparr>) (nat_emit [Io_tcp_write c (txbuf_pending i s') w] s'))
         else nat_emit [Io_tcp_write c (txbuf_pending i s') w] s')"
    if "length (nattab s') = length (nattab s)" "length (nt_txbuf (nattab s' ! i)) = 1500" for k c s'
  proof (cases w)
    case True
    let ?s = "upd_nt i (\<lambda>t. t\<lparr>nt_txbuf_len := 0\<rparr>) (nat_emit [Io_tcp_write c (txbuf_pending i s') w] s')"
    have e: "txbuf_pending i ?s = []" "length (nt_txbuf (nattab ?s ! i)) = 1500" "length (nattab ?s) = length (nattab s)"
      using that Cons.prems(1) by (simp_all add: txbuf_pending_def)
    obtain es where es: "nat_log (?P k ?s) = nat_log ?s @ es"
        "txbuf_pending i ?s @ recvd es = written es @ txbuf_pending i (?P k ?s)"
      using IH [OF e(3,2)] by blast
    then show ?thesis
      using True e(1) by (intro exI [of _ "Io_tcp_write c (txbuf_pending i s') w # es"]) simp
  next
    case False
    then show ?thesis
      by (intro exI [of _ "[Io_tcp_write c (txbuf_pending i s') w]"]) (simp add: txbuf_pending_def)
  qed
  show ?case
  proof (cases "nt_txbuf_len (nattab s ! i) = 0")
    case False
    then have step: "nat_rx_loop h shut_ok i cont (rw # ins) s =
        (if w then ?P cont (upd_nt i (\<lambda>t. t\<lparr>nt_txbuf_len := 0\<rparr>)
            (nat_emit [Io_tcp_write (nt_pcb (nattab s ! i)) (txbuf_pending i s) w] s))
         else nat_emit [Io_tcp_write (nt_pcb (nattab s ! i)) (txbuf_pending i s) w] s)"
      by (simp add: rw Let_def txbuf_pending_def)
    show ?thesis
      unfolding step by (rule wr [OF refl Cons.prems(2)])
  next
    case True
    then have p: "txbuf_pending i s = []" by (simp add: txbuf_pending_def)
    show ?thesis
    proof (cases r)
      case (Recv bs)
      show ?thesis
      proof (cases "bs = []")
        case True
        then show ?thesis
          using Recv \<open>nt_txbuf_len (nattab s ! i) = 0\<close> p drop_quiet [OF Cons.prems(1), of h shut_ok]
          by (auto simp: rw intro: exI [of _ "[]"])
      next
        case False
        have lb: "length bs \<le> 1500" using Cons.prems(3) Recv rw by auto
        let ?s = "upd_nt i (\<lambda>t. t\<lparr>nt_txbuf := st_bytes (nt_txbuf t) 0 bs, nt_txbuf_len := of_nat (length bs)\<rparr>)
          (nat_emit [Io_recv bs] s)"
        have st: "txbuf_pending i ?s = bs" "length (nt_txbuf (nattab ?s ! i)) = 1500" "length (nattab ?s) = length (nattab s)"
          using rx_store [OF Cons.prems(1) lb Cons.prems(2), of "[Io_recv bs]"] Cons.prems lb by simp_all
        have step: "nat_rx_loop h shut_ok i cont (rw # ins) s =
          (if w then ?P (Suc cont) (upd_nt i (\<lambda>t. t\<lparr>nt_txbuf_len := 0\<rparr>)
              (nat_emit [Io_tcp_write (nt_pcb (nattab ?s ! i)) (txbuf_pending i ?s) w] ?s))
           else nat_emit [Io_tcp_write (nt_pcb (nattab ?s ! i)) (txbuf_pending i ?s) w] ?s)"
          using Recv False \<open>nt_txbuf_len (nattab s ! i) = 0\<close>
          by (simp add: rw Let_def txbuf_pending_def del: upd_nt_same)
        obtain es where "nat_log (nat_rx_loop h shut_ok i cont (rw # ins) s) = nat_log ?s @ es"
          "txbuf_pending i ?s @ recvd es = written es @ txbuf_pending i (nat_rx_loop h shut_ok i cont (rw # ins) s)"
          using wr [OF st(3,2)] unfolding step by blast
        then show ?thesis
          using p st(1) by (intro exI [of _ "Io_recv bs # es"]) simp
      qed
    next
      case Recv_again
      then show ?thesis
        using True by (auto simp: rw intro: exI [of _ "[]"])
    next
      case Recv_error
      then show ?thesis
        using True p drop_quiet [OF Cons.prems(1), of h shut_ok] by (auto simp: rw)
    qed
  qed
qed

lemma nat_rx_no_loss_witness:
  "\<exists>es. nat_log (nat_rx_loop demo_seg True 2 0 [(Recv [1, 2], True), (Recv [3], False)] demo_conn) = nat_log demo_conn @ es \<and>
    recvd es = written es @ txbuf_pending 2 (nat_rx_loop demo_seg True 2 0 [(Recv [1, 2], True), (Recv [3], False)] demo_conn)"
proof -
  have l: "2 < length (nattab demo_conn)" using demo_conn_facts(1) by simp
  have p: "txbuf_pending 2 demo_conn = []" by (simp add: txbuf_pending_def demo_conn_facts)
  have "\<forall>bs b. (Recv bs, b) \<in> set [(Recv [1, 2 :: u8], True), (Recv [3], False)] \<longrightarrow> length bs \<le> 1500"
    by auto
  from nat_rx_no_loss [OF l demo_conn_facts(10) this, of demo_seg True 0] show ?thesis
    by (simp only: p append_Nil)
qed

end
