(* ===== verification/EthRouter.thy ===== *)
theory EthRouter
  imports EthQueue EthNat
begin

text \<open>
  \<open>eth_router.c\<close> and the router task of \<open>eth_mem.c\<close>: \<open>eth_route_block\<close> decides where a packet of
  the input queue goes and lets the NAT rewrite it, \<open>EthQueueTask\<close> serves the free requests and the
  input queue each time it is notified.
\<close>

section \<open>State and operations\<close>

record router =
  r_em :: em
  r_nat :: nat_st
  r_if :: nat_if
  r_in_test :: u32
  r_in_ble :: u32

text \<open>The bytes at \<open>payload\<close>, and writing them back.\<close>

definition pkt_bytes :: "ETH_PBUF \<Rightarrow> u8 list" where
  "pkt_bytes b = drop (pb_off b) (pb_mem b)"

definition set_pkt_bytes :: "u8 list \<Rightarrow> ETH_PBUF \<Rightarrow> ETH_PBUF" where
  "set_pkt_bytes m b = b\<lparr>pb_mem := take (pb_off b) (pb_mem b) @ m\<rparr>"

definition lift_em :: "(em \<Rightarrow> em_error + em) \<Rightarrow> router \<Rightarrow> em_error + router" where
  "lift_em f r = bindR (f (r_em r)) (\<lambda>s. Inr (r\<lparr>r_em := s\<rparr>))"

text \<open>The NAT step of the router, for a packet from \<open>src\<close>, with the tick of the call.\<close>

definition route_nat :: "u32 \<Rightarrow> nat \<Rightarrow> nat \<Rightarrow> router \<Rightarrow> router" where
  "route_nat tick src p r =
     (let m = pkt_bytes (pbufs (r_em r) p)
      in if src = BLE_NETIF_ID
         then (case forward_nat (r_if r) tick m (nattab (r_nat r)) of
                 (_, m', tab) \<Rightarrow> r\<lparr>r_em := upd_pb p (set_pkt_bytes m') (r_em r), r_nat := (r_nat r)\<lparr>nattab := tab\<rparr>\<rparr>)
         else if src = LWIP_NETIF_ID
         then (case backward_nat (r_if r) m (nattab (r_nat r)) of
                 (_, m') \<Rightarrow> r\<lparr>r_em := upd_pb p (set_pkt_bytes m') (r_em r)\<rparr>)
         else r)"

definition route_dst :: "nat \<Rightarrow> nat" where
  "route_dst src = (if src = BLE_NETIF_ID then LWIP_NETIF_ID else if src = LWIP_NETIF_ID then BLE_NETIF_ID else src)"

definition eth_route_block :: "u32 \<Rightarrow> nat \<Rightarrow> router \<Rightarrow> em_error + router" where
  "eth_route_block tick c r =
     (let p = q_pbuf (queues (r_em r) c);
          src = unat (pb_if_idx (pbufs (r_em r) p))
      in if pb_ref (pbufs (r_em r) p) = 0 then Inl (EM_ASSERT 20)
         else if ETH_NETIFS \<le> src then Inl (EM_ASSERT 21)
         else if src = 0 then Inl (EM_ASSERT 22)
         else
           let r = (if src = TEST_NETIF_ID then r\<lparr>r_in_test := r_in_test r + 1\<rparr> else r);
               r = (if src = BLE_NETIF_ID then r\<lparr>r_in_ble := r_in_ble r + 1\<rparr> else r)
           in if if_up (netifs (r_em r) src) = 0
              then lift_em (\<lambda>s. bindR (eth_pbuf_free_request p (count_lost src s)) (eth_queue_entry_free c)) r
              else
                let r = route_nat tick src p r;
                    dst = route_dst src
                in if ETH_NETIFS \<le> dst then Inl (EM_ASSERT 23)
                   else if dst = 0
                   then lift_em (\<lambda>s. bindR (eth_pbuf_free_request p s) (eth_queue_entry_free c)) r
                   else lift_em (eth_add_packet_to_output_queue c dst) r)"

text \<open>
  The inner loop of \<open>EthQueueTask\<close>, with fuel; \<open>free_blk\<close> runs with as much fuel as there are
  buffers.
\<close>

fun route_input :: "nat \<Rightarrow> u32 \<Rightarrow> router \<Rightarrow> em_error + router" where
  "route_input n tick r =
     (case take_input (r_em r) of
        (None, s) \<Rightarrow> Inr (r\<lparr>r_em := s\<rparr>)
      | (Some c, s) \<Rightarrow>
          (case n of
             0 \<Rightarrow> Inl OUT_OF_FUEL
           | Suc n \<Rightarrow>
               bindR (eth_route_block tick c (r\<lparr>r_em := s\<rparr>))
                 (\<lambda>r. bindR (if free_pbuf_q_begin (r_em r) \<noteq> None then lift_em (free_blk ETH_PBUFS_CNT) r else Inr r)
                    (route_input n tick))))"

declare route_input.simps [simp del]

definition EthQueueTask_body :: "nat \<Rightarrow> u32 \<Rightarrow> u32 \<Rightarrow> router \<Rightarrow> em_error + router" where
  "EthQueueTask_body n tick res r =
     bindR (if res AND taskNOTIFY_NEW_FREE_P_REQUEST \<noteq> 0 then lift_em (free_blk ETH_PBUFS_CNT) r else Inr r)
       (\<lambda>r. if res AND taskNOTIFY_ROUTER_Q_UPDATE \<noteq> 0 then route_input n tick r else Inr r)"

section \<open>Routing keeps the buffer accounting\<close>

lemma rep_set_bytes: "em_rep s a \<Longrightarrow> em_rep (upd_pb p (set_pkt_bytes m) s) a"
  by (rule rep_upd_pb_frame) (auto simp: set_pkt_bytes_def em_rep_def rep_refs_def)

lemma rep_route_nat: "em_rep (r_em r) a \<Longrightarrow> em_rep (r_em (route_nat tick src p r)) a"
  by (auto simp: route_nat_def Let_def rep_set_bytes split: prod.splits)

lemma route_nat_em:
  "netifs (r_em (route_nat tick src p r)) = netifs (r_em r)"
  "queues (r_em (route_nat tick src p r)) = queues (r_em r)"
  "em_calls (r_em (route_nat tick src p r)) = em_calls (r_em r)"
  by (auto simp: route_nat_def Let_def upd_pb_def split: prod.splits)

text \<open>What routing does to the abstract state: a drop when the source is down, else an output.\<close>

definition sp_route :: "em \<Rightarrow> nat \<Rightarrow> nat \<Rightarrow> em_spec \<Rightarrow> em_spec" where
  "sp_route s src c a =
     (if if_up (netifs s src) = 0 then sp_cell_free c (sp_release (sp_pbuf a c) (sp_detach c a))
      else sp_output (callback_pending (netifs s (route_dst src)) \<noteq> 0)
             (q_output_len_max (netifs s (route_dst src)) \<le> q_output_len (netifs s (route_dst src))) c (route_dst src) a)"

lemma route_dst_range: "0 < src \<Longrightarrow> src < ETH_NETIFS \<Longrightarrow> 0 < route_dst src \<and> route_dst src < ETH_NETIFS"
  by (auto simp: route_dst_def)

lemma route_block_refines:
  assumes r: "em_rep (r_em r) a" and c: "c \<in># sp_work a"
    and src: "src = unat (pb_if_idx (pbufs (r_em r) (sp_pbuf a c)))" "0 < src" "src < ETH_NETIFS"
  shows "\<exists>r'. eth_route_block tick c r = Inr r' \<and> em_rep (r_em r') (sp_route (r_em r) src c a)"
proof -
  note w = work_ref [OF r c]
  note d = route_dst_range [OF src(2,3)]
  define r1 where "r1 = (let r = (if src = TEST_NETIF_ID then r\<lparr>r_in_test := r_in_test r + 1\<rparr> else r)
    in if src = BLE_NETIF_ID then r\<lparr>r_in_ble := r_in_ble r + 1\<rparr> else r)"
  have r1: "r_em r1 = r_em r" by (simp add: r1_def Let_def)
  have start: "eth_route_block tick c r =
      (if if_up (netifs (r_em r) src) = 0
       then lift_em (\<lambda>s. bindR (eth_pbuf_free_request (sp_pbuf a c) (count_lost src s)) (eth_queue_entry_free c)) r1
       else lift_em (eth_add_packet_to_output_queue c (route_dst src)) (route_nat tick src (sp_pbuf a c) r1))"
    using w(1,3) src d by (simp add: eth_route_block_def Let_def r1_def not_le)
  show ?thesis
  proof (cases "if_up (netifs (r_em r) src) = 0")
    case True
    have "em_rep (count_lost src (r_em r)) a" using r by (rule rep_count_lost)
    from rep_drop [OF this c] work_ref(3) [OF this c] True show ?thesis
      by (auto simp: start lift_em_def r1 sp_route_def)
  next
    case False
    have r2: "em_rep (r_em (route_nat tick src (sp_pbuf a c) r1)) a"
      using r r1 by (simp add: rep_route_nat)
    from output_queue_refines [OF r2 c, of "route_dst src"] d False show ?thesis
      by (auto simp: start lift_em_def route_nat_em r1 sp_route_def)
  qed
qed

section \<open>The router task\<close>

definition keep_idx :: "em \<Rightarrow> em \<Rightarrow> bool" where
  "keep_idx s s' \<longleftrightarrow> (\<forall>q. pb_if_idx (pbufs s' q) = pb_if_idx (pbufs s q))"

lemma keep_idx_trans: "keep_idx s s' \<Longrightarrow> keep_idx s' s'' \<Longrightarrow> keep_idx s s''"
  by (simp add: keep_idx_def)

lemma keep_free_request: "eth_pbuf_free_request p s = Inr s' \<Longrightarrow> keep_idx s s'"
  by (auto simp: eth_pbuf_free_request_def keep_idx_def Let_def em_upd_defs res_simps split: if_splits option.splits)

lemma keep_entry_free: "eth_queue_entry_free c s = Inr s' \<Longrightarrow> keep_idx s s'"
  by (auto simp: eth_queue_entry_free_def keep_idx_def Let_def em_upd_defs split: if_splits)

lemma keep_count_lost: "keep_idx s (count_lost k s)"
  by (simp add: keep_idx_def count_lost_def upd_nif_def)

lemma keep_link_output: "keep_idx s (link_output c k s)"
  by (auto simp: link_output_def keep_idx_def Let_def em_upd_defs split: option.splits)

lemma keep_upds:
  "keep_idx s s' \<Longrightarrow> keep_idx s (upd_q c f s')" "keep_idx s s' \<Longrightarrow> keep_idx s (upd_nif k g s')"
  "keep_idx s s' \<Longrightarrow> keep_idx s (em_call_log e s')" "keep_idx s s' \<Longrightarrow> keep_idx s (count_lost k s')" "keep_idx s s"
  by (simp_all add: keep_idx_def em_upd_defs count_lost_def)

lemma keep_output:
  assumes "eth_add_packet_to_output_queue c k s = Inr s'"
  shows "keep_idx s s'"
proof -
  define s1 where "s1 = upd_q c (\<lambda>q. q\<lparr>q_next := None\<rparr>) s"
  have k1: "keep_idx s s1" unfolding s1_def by (intro keep_upds)
  define s2 where "s2 = upd_nif k (\<lambda>i. i\<lparr>dgrams_out := dgrams_out i + 1\<rparr>)
      (upd_q c (\<lambda>q. q\<lparr>q_st := St_sending\<rparr>) (upd_nif k (\<lambda>i. i\<lparr>callback_pending := 0\<rparr>) s1))"
  have k2: "keep_idx s s2" unfolding s2_def by (intro keep_upds k1)
  note start = assms [unfolded eth_add_packet_to_output_queue_def Let_def, folded s1_def, folded s2_def]
  show ?thesis
  proof (cases "callback_pending (netifs s1 k) = 0")
    case True
    then have "callback_pending (netifs s1 k) \<noteq> 0 \<longleftrightarrow> False" by simp
    note start = start [unfolded this if_False]
    show ?thesis
    proof (cases "q_output_len_max (netifs s1 k) \<le> q_output_len (netifs s1 k)")
      case True
      then obtain s3 where "eth_pbuf_free_request (q_pbuf (queues s1 c)) (count_lost k s1) = Inr s3"
          "eth_queue_entry_free c s3 = Inr s'"
        using start by (simp add: res_simps split: if_splits) blast
      then show ?thesis
        using k1 keep_free_request [of _ "count_lost k s1" s3] keep_entry_free [of c s3 s'] keep_count_lost [of s1 k]
        by (meson keep_idx_trans)
    next
      case False
      then have "s' = link_output c k s1"
        using start by (simp split: if_splits)
      then show ?thesis using k1 keep_link_output [of s1 c k] by (metis keep_idx_trans)
    qed
  next
    case False
    then have "callback_pending (netifs s1 k) \<noteq> 0 \<longleftrightarrow> True" by simp
    note start = start [unfolded this if_True]
    obtain s3 where s3: "eth_queue_entry_free c s2 = Inr s3" "\<exists>e. s' = em_call_log e s3"
      using start by (auto simp: res_simps split: if_splits option.splits)
    then have "keep_idx s s3" using k2 keep_entry_free [of c s2 s3] by (metis keep_idx_trans)
    then show ?thesis using s3(2) keep_upds(3) by metis
  qed
qed

lemma keep_route_nat: "keep_idx (r_em r) (r_em (route_nat tick src p r))"
  by (auto simp: keep_idx_def route_nat_def Let_def upd_pb_def set_pkt_bytes_def split: prod.splits)

lemma keep_drop:
  assumes "bindR (eth_pbuf_free_request p s) (eth_queue_entry_free c) = Inr s'"
  shows "keep_idx s s'"
proof -
  obtain s1 where "eth_pbuf_free_request p s = Inr s1" "eth_queue_entry_free c s1 = Inr s'"
    using assms by (auto simp: res_simps)
  then show ?thesis
    using keep_free_request [of p s s1] keep_entry_free [of c s1 s'] by (metis keep_idx_trans)
qed

lemma lift_em_Inr: "lift_em f r = Inr r' \<longleftrightarrow> (\<exists>s. f (r_em r) = Inr s \<and> r' = r\<lparr>r_em := s\<rparr>)"
  by (auto simp: lift_em_def res_simps)

lemma keep_route_block:
  assumes "eth_route_block tick c r = Inr r'"
  shows "keep_idx (r_em r) (r_em r')"
proof -
  define p where "p = q_pbuf (queues (r_em r) c)"
  define src where "src = unat (pb_if_idx (pbufs (r_em r) p))"
  define x where "x = (let r = (if src = TEST_NETIF_ID then r\<lparr>r_in_test := r_in_test r + 1\<rparr> else r)
    in if src = BLE_NETIF_ID then r\<lparr>r_in_ble := r_in_ble r + 1\<rparr> else r)"
  have x: "r_em x = r_em r" by (simp add: x_def Let_def)
  have "lift_em (\<lambda>s. bindR (eth_pbuf_free_request p (count_lost src s)) (eth_queue_entry_free c)) x = Inr r' \<or>
      lift_em (\<lambda>s. bindR (eth_pbuf_free_request p s) (eth_queue_entry_free c)) (route_nat tick src p x) = Inr r' \<or>
      lift_em (eth_add_packet_to_output_queue c (route_dst src)) (route_nat tick src p x) = Inr r'"
    using assms unfolding eth_route_block_def Let_def p_def [symmetric] src_def [symmetric] x_def [unfolded Let_def, symmetric]
    by (metis Inl_Inr_False)
  then consider "keep_idx (count_lost src (r_em r)) (r_em r')" | "keep_idx (r_em (route_nat tick src p x)) (r_em r')"
    unfolding lift_em_Inr x by (auto dest: keep_drop keep_output)
  then show ?thesis
    using keep_count_lost [of "r_em r" src] keep_route_nat [of x tick src p] by cases (metis keep_idx_trans x)+
qed

lemma keep_free_blk_one:
  "free_blk_one p s = Inr s' \<Longrightarrow> nopbuf_q_begin s = None \<Longrightarrow> keep_idx s s'"
  by (auto simp: free_blk_one_def keep_idx_def Let_def em_upd_defs res_simps split: if_splits option.splits)

lemma keep_free_blk:
  "em_rep s a \<Longrightarrow> free_blk n s = Inr s' \<Longrightarrow> keep_idx s s'"
proof (induction n arbitrary: s a)
  case 0
  then show ?case by (auto simp: keep_idx_def split: option.splits)
next
  case (Suc n)
  have nb: "nopbuf_q_begin s = None"
    using Suc.prems(1) by (simp add: em_rep_def rep_pbufs_def)
  show ?case
  proof (cases "sp_frq a")
    case Nil
    then show ?thesis
      using Suc.prems rep_frq_begin [OF Suc.prems(1)] by (simp add: keep_idx_def)
  next
    case (Cons p fr)
    obtain s1 where s1: "free_blk_one p s = Inr s1" "em_rep s1 (sp_reclaim_one a)"
      using rep_free_blk_one [OF Suc.prems(1) Cons] by blast
    have "free_blk n s1 = Inr s'"
      using Suc.prems(2) rep_frq_begin [OF Suc.prems(1)] Cons s1(1) by simp
    then show ?thesis
      using Suc.IH [OF s1(2)] keep_free_blk_one [OF s1(1) nb] keep_idx_trans by blast
  qed
qed

definition valid_idx :: "em \<Rightarrow> em_spec \<Rightarrow> bool" where
  "valid_idx s a \<longleftrightarrow> (\<forall>c \<in> set (sp_inq a). 0 < unat (pb_if_idx (pbufs s (sp_pbuf a c))) \<and>
     unat (pb_if_idx (pbufs s (sp_pbuf a c))) < ETH_NETIFS)"

lemma sp_route_same: "sp_inq (sp_route s src c a) = sp_inq a" "sp_pbuf (sp_route s src c a) = sp_pbuf a"
  by (simp_all add: sp_route_def sp_output_def sp_cell_free_def sp_detach_def sp_release_def sp_enq_output_def)

lemma sp_reclaim_same: "sp_inq (sp_reclaim a) = sp_inq a" "sp_pbuf (sp_reclaim a) = sp_pbuf a" "sp_frq (sp_reclaim a) = []"
  by (simp_all add: sp_reclaim_def)

lemma reclaim_if_needed:
  assumes r: "em_rep (r_em r) a" and v: "valid_idx (r_em r) a"
  shows "\<exists>r' a'. (if free_pbuf_q_begin (r_em r) \<noteq> None then lift_em (free_blk ETH_PBUFS_CNT) r else Inr r) = Inr r' \<and>
    em_rep (r_em r') a' \<and> valid_idx (r_em r') a' \<and> sp_inq a' = sp_inq a \<and> sp_frq a' = []"
proof (cases "sp_frq a")
  case Nil
  then have "free_pbuf_q_begin (r_em r) = None"
    using rep_frq_begin [OF r] by simp
  then show ?thesis using r v Nil by auto
next
  case (Cons p fr)
  then have b: "free_pbuf_q_begin (r_em r) \<noteq> None"
    using rep_frq_begin [OF r] by simp
  obtain s' where s': "free_blk ETH_PBUFS_CNT (r_em r) = Inr s'" "em_rep s' (sp_reclaim a)"
    using rep_free_blk [OF r frq_length [OF r]] by blast
  have "valid_idx s' (sp_reclaim a)"
    using v keep_free_blk [OF r s'(1)] by (simp add: valid_idx_def keep_idx_def sp_reclaim_same)
  then show ?thesis
    using b s' by (auto simp: lift_em_def sp_reclaim_same)
qed

lemma route_input_drains:
  "em_rep (r_em r) a \<Longrightarrow> valid_idx (r_em r) a \<Longrightarrow> length (sp_inq a) \<le> n \<Longrightarrow>
   \<exists>r' a'. route_input n tick r = Inr r' \<and> em_rep (r_em r') a' \<and> sp_inq a' = [] \<and> (sp_frq a = [] \<longrightarrow> sp_frq a' = [])"
proof (induction "sp_inq a" arbitrary: r a n)
  case Nil
  then show ?case
    using take_input_empty [of "r_em r" a] by (subst route_input.simps) auto
next
  case (Cons c cs)
  obtain m where m: "n = Suc m" "length cs \<le> m"
    using Cons.prems(3) Cons.hyps(2) [symmetric] by (cases n) auto
  obtain s1 where s1: "take_input (r_em r) = (Some c, s1)" "em_rep s1 (sp_take_input a)" "pbufs s1 = pbufs (r_em r)"
    using rep_take_input [OF Cons.prems(1) Cons.hyps(2) [symmetric]] by blast
  let ?src = "unat (pb_if_idx (pbufs s1 (sp_pbuf (sp_take_input a) c)))"
  have src: "0 < ?src" "?src < ETH_NETIFS"
    using Cons.prems(2) Cons.hyps(2) [symmetric] by (simp_all add: valid_idx_def s1(3) sp_take_input_def)
  have cw: "c \<in># sp_work (sp_take_input a)"
    using Cons.hyps(2) [symmetric] by (simp add: sp_take_input_def)
  let ?r1 = "r\<lparr>r_em := s1\<rparr>"
  obtain r2 where r2: "eth_route_block tick c ?r1 = Inr r2" "em_rep (r_em r2) (sp_route s1 ?src c (sp_take_input a))"
    using route_block_refines [of ?r1 "sp_take_input a" c ?src tick] s1(2) cw src by auto
  let ?a2 = "sp_route s1 ?src c (sp_take_input a)"
  have a2: "sp_inq ?a2 = cs" "sp_pbuf ?a2 = sp_pbuf a"
    using Cons.hyps(2) [symmetric] by (simp_all add: sp_route_same sp_take_input_def)
  have "keep_idx s1 (r_em r2)"
    using keep_route_block [OF r2(1)] by simp
  then have v2: "valid_idx (r_em r2) ?a2"
    using Cons.prems(2) Cons.hyps(2) [symmetric] a2 by (simp add: valid_idx_def keep_idx_def s1(3))
  obtain r3 a3 where r3: "(if free_pbuf_q_begin (r_em r2) \<noteq> None then lift_em (free_blk ETH_PBUFS_CNT) r2 else Inr r2) = Inr r3"
    "em_rep (r_em r3) a3" "valid_idx (r_em r3) a3" "sp_inq a3 = cs" "sp_frq a3 = []"
    using reclaim_if_needed [OF r2(2) v2] a2(1) by auto
  obtain r4 a4 where r4: "route_input m tick r3 = Inr r4" "em_rep (r_em r4) a4" "sp_inq a4 = []" "sp_frq a4 = []"
    using Cons.hyps(1) [of a3 r3 m] r3 m by auto
  have "route_input n tick r = Inr r4"
    using m(1) s1(1) r2(1) r3(1) r4(1) by (subst route_input.simps) (simp del: bindR.simps add: res_simps)
  then show ?case using r4 by blast
qed

lemma inq_length:
  assumes "em_rep s a"
  shows "length (sp_inq a) \<le> ETH_MEM_BUFS_CNT"
proof (rule distinct_bound)
  show "distinct (sp_inq a)"
    using cell_lists_distinct(2) [OF rep_cellsD [OF assms]] .
  show "set (sp_inq a) \<subseteq> {..<ETH_MEM_BUFS_CNT}"
    using cell_place(2) [OF rep_cellsD [OF assms]] by auto
qed

text \<open>
  C7: One turn of the router task serves everything. From any reachable state in which the queued
  packets carry valid interface numbers, a turn notified of free requests and packets returns, with
  the input queue and the queue of free requests empty; \<open>ETH_MEM_BUFS_CNT\<close> turns of its loop are
  enough.
\<close>

theorem router_task_drains:
  assumes "em_reach (r_em r) a" and "valid_idx (r_em r) a"
  shows "\<exists>r'. EthQueueTask_body ETH_MEM_BUFS_CNT tick
      (taskNOTIFY_NEW_FREE_P_REQUEST OR taskNOTIFY_ROUTER_Q_UPDATE) r = Inr r' \<and>
    q_input_begin (r_em r') = None \<and> free_pbuf_q_begin (r_em r') = None"
proof -
  have rp: "em_rep (r_em r) a" using assms(1) by (rule reach_rep)
  obtain s' where s': "free_blk ETH_PBUFS_CNT (r_em r) = Inr s'" "em_rep s' (sp_reclaim a)"
    using rep_free_blk [OF rp frq_length [OF rp]] by blast
  let ?r = "r\<lparr>r_em := s'\<rparr>"
  have v: "valid_idx (r_em ?r) (sp_reclaim a)"
    using assms(2) keep_free_blk [OF rp s'(1)] by (simp add: valid_idx_def keep_idx_def sp_reclaim_same)
  have r2: "em_rep (r_em ?r) (sp_reclaim a)" using s'(2) by simp
  obtain r' a' where r': "route_input ETH_MEM_BUFS_CNT tick ?r = Inr r'" "em_rep (r_em r') a'" "sp_inq a' = []" "sp_frq a' = []"
    using route_input_drains [OF r2 v inq_length [OF r2], of tick] by (auto simp: sp_reclaim_same)
  have "q_input_begin (r_em r') = None" "free_pbuf_q_begin (r_em r') = None"
    using r'(2-4) rep_frq_begin [OF r'(2)] by (auto simp: em_rep_def rep_cells_def)
  then show ?thesis
    using r'(1) s'(1) by (auto simp: EthQueueTask_body_def lift_em_def)
qed

definition router0 :: router where
  "router0 = \<lparr>r_em = eth_router_init, r_nat = nat_st0, r_if = demo_if, r_in_test = 0, r_in_ble = 0\<rparr>"

theorem router_task_drains_witness:
  "\<exists>r'. EthQueueTask_body ETH_MEM_BUFS_CNT 5 (taskNOTIFY_NEW_FREE_P_REQUEST OR taskNOTIFY_ROUTER_Q_UPDATE) router0
    = Inr r' \<and> q_input_begin (r_em r') = None"
proof -
  have "r_em router0 = eth_router_init" by (simp add: router0_def)
  moreover have "valid_idx eth_router_init sp_init"
    by (simp only: valid_idx_def sp_init_def em_spec.simps list.set ball_empty)
  ultimately have "em_reach (r_em router0) sp_init" "valid_idx (r_em router0) sp_init"
    using em_reach.init by simp_all
  from router_task_drains [OF this, of 5] show ?thesis by blast
qed

lemma pkt_bytes_set: "pb_off b \<le> length (pb_mem b) \<Longrightarrow> pkt_bytes (set_pkt_bytes m b) = m"
  by (simp add: pkt_bytes_def set_pkt_bytes_def)

text \<open>
  C5: Where packets go. A packet from the BLE interface, when that is up, is passed through
  \<open>forward_nat\<close> and appended to the output queue of the local stack; a packet from the local stack
  is passed through \<open>backward_nat\<close> and appended to the output queue of the BLE interface, in both
  cases when the destination has room and its driver is not waiting; the buffer accounting stays
  exact and no other byte of memory changes.
\<close>

theorem route_block_forwards:
  assumes r: "em_reach (r_em r) a" and c: "c \<in># sp_work a" and p: "p = sp_pbuf a c"
    and src: "src = unat (pb_if_idx (pbufs (r_em r) p))" "src = LWIP_NETIF_ID \<or> src = BLE_NETIF_ID"
    and up: "if_up (netifs (r_em r) src) \<noteq> 0"
    and room: "callback_pending (netifs (r_em r) (route_dst src)) = 0"
      "q_output_len (netifs (r_em r) (route_dst src)) < q_output_len_max (netifs (r_em r) (route_dst src))"
    and off: "pb_off (pbufs (r_em r) p) \<le> length (pb_mem (pbufs (r_em r) p))"
  shows "\<exists>r'. eth_route_block tick c r = Inr r' \<and> em_rep (r_em r') (sp_enq_output c (route_dst src) a) \<and>
    route_dst src = (if src = BLE_NETIF_ID then LWIP_NETIF_ID else BLE_NETIF_ID) \<and>
    pkt_bytes (pbufs (r_em r') p) =
      (if src = BLE_NETIF_ID then fst (snd (forward_nat (r_if r) tick (pkt_bytes (pbufs (r_em r) p)) (nattab (r_nat r))))
       else snd (backward_nat (r_if r) (pkt_bytes (pbufs (r_em r) p)) (nattab (r_nat r)))) \<and>
    (\<forall>q. q \<noteq> p \<longrightarrow> pb_mem (pbufs (r_em r') q) = pb_mem (pbufs (r_em r) q))"
proof -
  have rp: "em_rep (r_em r) a" using r by (rule reach_rep)
  note w = work_ref [OF rp c, folded p]
  define r1 where "r1 = (if src = BLE_NETIF_ID then r\<lparr>r_in_ble := r_in_ble r + 1\<rparr> else r)"
  have r1: "r_em r1 = r_em r" "r_nat r1 = r_nat r" "r_if r1 = r_if r" by (simp_all add: r1_def)
  let ?r2 = "route_nat tick src p r1"
  have start: "eth_route_block tick c r = lift_em (eth_add_packet_to_output_queue c (route_dst src)) ?r2"
    using w(1,3) src up by (auto simp: eth_route_block_def Let_def r1_def route_dst_def p)
  have r2: "em_rep (r_em ?r2) a"
    using rp r1 by (simp add: rep_route_nat)
  have nf: "netifs (r_em ?r2) = netifs (r_em r)" by (simp add: route_nat_em r1)
  have k: "route_dst src < ETH_NETIFS" using src(2) by (auto simp: route_dst_def)
  have ref: "pb_ref (pbufs (r_em ?r2) (q_pbuf (queues (r_em ?r2) c))) \<noteq> 0"
    using work_ref [OF r2 c] by simp
  have nle: "\<not> q_output_len_max (netifs (r_em r) (route_dst src)) \<le> q_output_len (netifs (r_em r) (route_dst src))"
    using room(2) by (simp add: not_le)
  let ?s = "link_output c (route_dst src) (upd_q c (\<lambda>q. q\<lparr>q_next := None\<rparr>) (r_em ?r2))"
  have out: "eth_add_packet_to_output_queue c (route_dst src) (r_em ?r2) = Inr ?s"
    using ref room(1) nle nf
    by (simp only: eth_add_packet_to_output_queue_def Let_def) (simp add: upd_q_def)
  have rep: "em_rep ?s (sp_enq_output c (route_dst src) a)"
    using r2 c k room(1) nf by (intro rep_link_output) auto
  have pb: "pbufs ?s = pbufs (r_em ?r2)"
    by (auto simp: link_output_def Let_def em_upd_defs split: option.splits)
  have bytes: "pbufs (r_em ?r2) p = set_pkt_bytes (if src = BLE_NETIF_ID
       then fst (snd (forward_nat (r_if r) tick (pkt_bytes (pbufs (r_em r) p)) (nattab (r_nat r))))
       else snd (backward_nat (r_if r) (pkt_bytes (pbufs (r_em r) p)) (nattab (r_nat r)))) (pbufs (r_em r) p)"
    and other: "pbufs (r_em ?r2) q = pbufs (r_em r) q" if "q \<noteq> p" for q
    using src(2) that by (auto simp: route_nat_def Let_def upd_pb_def r1 split: prod.splits)
  have bytes': "pkt_bytes (pbufs (r_em ?r2) p) = (if src = BLE_NETIF_ID
       then fst (snd (forward_nat (r_if r) tick (pkt_bytes (pbufs (r_em r) p)) (nattab (r_nat r))))
       else snd (backward_nat (r_if r) (pkt_bytes (pbufs (r_em r) p)) (nattab (r_nat r))))"
    using bytes [of "Suc p"] off by (simp add: pkt_bytes_set)
  show ?thesis
    using out rep pb bytes' other src(2) start
    by (auto simp: lift_em_def route_dst_def)
qed

text \<open>A packet of the BLE side on its way: allocated, filled, submitted and taken by the router.\<close>

definition up_netifs :: "em \<Rightarrow> em" where
  "up_netifs s = upd_nif 3 (nif_config Ble_callback_from_bridge None 20 1) (upd_nif 1 (nif_config Lwip_callback_from_bridge None 20 1) s)"

definition keep_all :: "em \<Rightarrow> em \<Rightarrow> bool" where
  "keep_all s s' \<longleftrightarrow> (\<forall>k. if_up (netifs s' k) = if_up (netifs s k) \<and> callback_pending (netifs s' k) = callback_pending (netifs s k) \<and>
     q_output_len (netifs s' k) = q_output_len (netifs s k) \<and> q_output_len_max (netifs s' k) = q_output_len_max (netifs s k)) \<and>
   (\<forall>q. pb_mem (pbufs s' q) = pb_mem (pbufs s q) \<and> pb_off (pbufs s' q) = pb_off (pbufs s q) \<and>
     pb_if_idx (pbufs s' q) = pb_if_idx (pbufs s q) \<and> pb_len (pbufs s' q) = pb_len (pbufs s q) \<and>
     pb_tot_len (pbufs s' q) = pb_tot_len (pbufs s q))"

lemma keep_all_trans: "keep_all s s' \<Longrightarrow> keep_all s' s'' \<Longrightarrow> keep_all s s''"
  by (simp add: keep_all_def)

lemma keep_all_free: "eth_pbuf_free_request p s = Inr s' \<Longrightarrow> keep_all s s'"
  by (auto simp: eth_pbuf_free_request_def keep_all_def Let_def em_upd_defs res_simps split: if_splits option.splits)

lemma keep_all_link: "keep_all s (link_input k c s)"
  by (auto simp: link_input_def keep_all_def Let_def em_upd_defs split: option.splits)

lemma keep_all_alloc: "eth_queue_entry_alloc s = (c, s') \<Longrightarrow> keep_all s s'"
  by (auto simp: eth_queue_entry_alloc_def do_eth_queue_entry_alloc_def keep_all_def Let_def em_upd_defs split: option.splits)

lemma keep_all_upds: "keep_all s (upd_q c f s)" "keep_all s (em_notify_add v s)" "keep_all s (count_lost k s)"
  "keep_all s (upd_pb p (\<lambda>b. b\<lparr>pb_src_if := pb_if_idx b\<rparr>) s)"
  by (simp_all add: keep_all_def em_upd_defs count_lost_def)

lemma router_queue_keeps:
  assumes "eth_add_packet_to_router_queue p s = Inr s'"
  shows "keep_all s s'"
proof -
  define s1 where "s1 = upd_pb p (\<lambda>b. b\<lparr>pb_src_if := pb_if_idx b\<rparr>) s"
  have k1: "keep_all s s1" unfolding s1_def by (rule keep_all_upds)
  note start = assms [unfolded eth_add_packet_to_router_queue_def Let_def, folded s1_def]
  obtain c s2 where al: "eth_queue_entry_alloc s1 = (c, s2)" by fastforce
  have k2: "keep_all s s2" using k1 keep_all_alloc [OF al] by (rule keep_all_trans)
  have fr: "keep_all x s'" if "bindR (eth_pbuf_free_request p x) (\<lambda>s. Inr (count_lost k s)) = Inr s'" for x k
    using that by (auto simp: res_simps intro: keep_all_trans [OF keep_all_free keep_all_upds(3)])
  show ?thesis
  proof (cases "pb_len (pbufs s1 p) < 14")
    case True
    then have "keep_all s1 s'"
      using start fr by (simp split: if_splits)
    with k1 show ?thesis by (rule keep_all_trans)
  next
    case False
    show ?thesis
    proof (cases c)
      case None
      then have "keep_all s2 s'"
        using start fr False al by (simp split: if_splits)
      with k2 show ?thesis by (rule keep_all_trans)
    next
      case (Some d)
      then have "em_notify_add taskNOTIFY_ROUTER_Q_UPDATE (link_input (unat (pb_if_idx (pbufs s p))) d
          (upd_q d (\<lambda>q. q\<lparr>q_next := None, q_st := St_in_queue, q_pbuf := p\<rparr>) s2)) = s'"
        using start False al by (simp split: if_splits)
      then show ?thesis
        using k2 by (auto intro: keep_all_trans [OF _ keep_all_upds(2)] keep_all_trans [OF _ keep_all_link]
            keep_all_trans [OF _ keep_all_upds(1)])
    qed
  qed
qed

lemma sp_init_qfree: "sp_qfree sp_init = 0 # [Suc 0..<ETH_MEM_BUFS_CNT]"
  unfolding sp_init_def em_spec.select_convs by (rule upt_conv_Cons) simp

lemma packet_on_its_way:
  assumes l: "length m = 1600"
  shows "\<exists>s a. em_reach s a \<and> 0 \<in># sp_work a \<and> sp_pbuf a 0 = 0 \<and> pb_if_idx (pbufs s 0) = 3 \<and>
    pb_off (pbufs s 0) = 0 \<and> pb_mem (pbufs s 0) = m \<and> if_up (netifs s 3) = 1 \<and> callback_pending (netifs s 1) = 0 \<and>
    q_output_len (netifs s 1) = 0 \<and> q_output_len_max (netifs s 1) = 20"
proof -
  let ?s0 = "up_netifs eth_router_init"
  have r0: "em_reach ?s0 sp_init"
    unfolding up_netifs_def by (intro em_reach.config em_reach.init)
  obtain s1 where s1: "eth_pbuf_alloc None ?s0 = Inr (Some 0, s1)" "netifs s1 = netifs ?s0"
    using rep_alloc [OF reach_rep [OF r0] sp_init_free, of None] by blast
  let ?s2 = "upd_pb 0 (driver_fill m 0 100 100 3) s1" and ?a = "sp_alloc 0 sp_init"
  have e: "0 < sp_ext ?a 0" by (simp only: sp_first_alloc)
  have r2: "em_reach ?s2 ?a"
    by (rule em_reach.fill [OF em_reach.alloc [OF r0 s1(1)] e])
  have f: "pb_mem (pbufs ?s2 0) = m" "pb_off (pbufs ?s2 0) = 0" "pb_if_idx (pbufs ?s2 0) = 3" "pb_len (pbufs ?s2 0) = 100"
    by (simp_all add: upd_pb_def driver_fill_def)
  have n: "if_up (netifs ?s2 3) = 1" "callback_pending (netifs ?s2 1) = 0" "q_output_len (netifs ?s2 1) = 0"
    "q_output_len_max (netifs ?s2 1) = 20"
    by (simp_all add: upd_pb_def s1(2) up_netifs_def upd_nif_def nif_config_def eth_router_init_def
        eth_router_add_bridge_def init_netif_def zero_em_def)
  have i: "unat (pb_if_idx (pbufs ?s2 0)) < ETH_NETIFS" by (simp only: f) simp
  obtain s3 where s3: "eth_add_packet_to_router_queue 0 ?s2 = Inr s3"
    using router_queue_refines [OF reach_rep [OF r2] e i] by blast
  define a3 where "a3 = sp_submit 100 0 ?a"
  have r3: "em_reach s3 a3"
    using em_reach.submit [OF r2 e i s3] by (simp add: f(4) a3_def)
  have a3: "sp_inq a3 = [0]" "sp_pbuf a3 0 = 0"
    by (simp_all only: a3_def sp_submit_def sp_alloc_def sp_enq_input_def sp_cell_alloc_def em_spec.simps em_spec.select_convs
        em_spec.update_convs sp_init_qfree list.sel) (simp_all add: sp_init_def del: upt_Suc)
  obtain s4 where s4: "take_input s3 = (Some 0, s4)" "pbufs s4 = pbufs s3" "netifs s4 = netifs s3"
    using rep_take_input [OF reach_rep [OF r3], of 0 "[]"] a3 by auto
  have "em_reach s4 (sp_take_input a3)"
    by (rule em_reach.take [OF r3 s4(1)])
  moreover have "0 \<in># sp_work (sp_take_input a3)" "sp_pbuf (sp_take_input a3) 0 = 0"
    using a3 by (simp_all add: sp_take_input_def)
  ultimately show ?thesis
    using f n router_queue_keeps [OF s3] s4(2,3) unfolding keep_all_def by (intro exI [of _ s4] exI [of _ "sp_take_input a3"]) simp
qed

theorem route_block_forwards_witness:
  "\<exists>r r'. pkt_bytes (pbufs (r_em r) 0) = demo_out1 @ replicate 1562 0 \<and> eth_route_block 7 0 r = Inr r' \<and>
     pkt_bytes (pbufs (r_em r') 0) = fst (snd (forward_nat demo_if 7 (demo_out1 @ replicate 1562 0) (nattab nat_st0)))"
proof -
  let ?m = "demo_out1 @ replicate 1562 (0 :: u8)"
  have l: "length ?m = 1600" by (simp add: demo_facts(5))
  obtain s a where s: "em_reach s a" "0 \<in># sp_work a" "sp_pbuf a 0 = 0" "pb_if_idx (pbufs s 0) = 3" "pb_off (pbufs s 0) = 0"
      "pb_mem (pbufs s 0) = ?m" "if_up (netifs s 3) = 1" "callback_pending (netifs s 1) = 0"
      "q_output_len (netifs s 1) = 0" "q_output_len_max (netifs s 1) = 20"
    using packet_on_its_way [OF l] by blast
  let ?r = "router0\<lparr>r_em := s\<rparr>"
  have b: "pkt_bytes (pbufs s 0) = ?m" using s(5,6) by (simp add: pkt_bytes_def)
  have "em_reach (r_em ?r) a" "0 = sp_pbuf a 0" "3 = unat (pb_if_idx (pbufs (r_em ?r) 0))" "if_up (netifs (r_em ?r) 3) \<noteq> 0"
    "callback_pending (netifs (r_em ?r) (route_dst 3)) = 0"
    "q_output_len (netifs (r_em ?r) (route_dst 3)) < q_output_len_max (netifs (r_em ?r) (route_dst 3))"
    "pb_off (pbufs (r_em ?r) 0) \<le> length (pb_mem (pbufs (r_em ?r) 0))"
    using s by (simp_all add: route_dst_def)
  from route_block_forwards [OF this(1) s(2) this(2,3) disjI2 [OF refl] this(4-7), of 7]
  obtain r' where r': "eth_route_block 7 0 ?r = Inr r'"
      "pkt_bytes (pbufs (r_em r') 0) = fst (snd (forward_nat (r_if ?r) 7 (pkt_bytes (pbufs (r_em ?r) 0)) (nattab (r_nat ?r))))"
    by auto
  have f: "r_em ?r = s" "r_if ?r = demo_if" "r_nat ?r = nat_st0" by (simp_all add: router0_def)
  show ?thesis
    using r' unfolding f b by (intro exI [of _ ?r] exI [of _ r']) (simp only: f b simp_thms)
qed

end
