(* ===== verification/BleEth.thy ===== *)
theory BleEth
  imports EthRouter
begin

text \<open>
  \<open>ble_eth.c\<close>: cutting datagrams of the bridge into chunks for the BLE link (\<open>get_next_chunk\<close>) and
  assembling chunks from the link into datagrams (\<open>process_dgram_asm\<close>). The first byte of a chunk
  holds the place of the chunk in the datagram in bits 7:6 (bit 6 first, bit 7 last) and a sequence
  number in bits 5:0, which \<open>ble_tcp.c\<close> fills in.
\<close>

section \<open>State and operations\<close>

abbreviation (input) "MAX_CHUNK_LEN \<equiv> 167 :: nat"
abbreviation (input) "taskNOTIFY_NEXT_CHUNK_AVAIL \<equiv> 2 :: u32"
abbreviation (input) "taskNOTIFY_PUSH_RECVD \<equiv> 256 :: u32"

record BLE_ETH_STATS =
  st_tx_chunks :: u32
  st_rx_chunks :: u32
  st_tx_dgrams :: u32
  st_rx_dgrams :: u32
  st_rx_too_short_chunk :: u32
  st_rx_too_short_dgram :: u32
  st_rx_oversize :: u32
  st_rx_pbuf_alloc_err :: u32
  st_rx_seqerr :: u32

text \<open>\<open>b_notify\<close> is the notification handle of \<open>ble_tcp.c\<close>, which \<open>next_chunk_avail\<close> signals.\<close>

record ble =
  b_em :: em
  current_tx_block :: "nat option"
  eth_rst_req_rx :: u8
  tx_rst :: u8
  rx_pbuf :: "nat option"
  rx_ptr :: u16
  rx_prev_seq :: u8
  rx_seq_err :: u8
  chunk_len :: u16
  tx_ptr :: u16
  cbk_pending :: bool
  b_stats :: BLE_ETH_STATS
  b_notify :: NHandle

definition upd_stats :: "(BLE_ETH_STATS \<Rightarrow> BLE_ETH_STATS) \<Rightarrow> ble \<Rightarrow> ble" where
  "upd_stats f b = b\<lparr>b_stats := f (b_stats b)\<rparr>"

definition ble_lift :: "(em \<Rightarrow> em_error + em) \<Rightarrow> ble \<Rightarrow> em_error + ble" where
  "ble_lift f b = bindR (f (b_em b)) (\<lambda>s. Inr (b\<lparr>b_em := s\<rparr>))"

definition gatt_eth_reset :: "ble \<Rightarrow> ble" where
  "gatt_eth_reset b = b\<lparr>eth_rst_req_rx := 1, tx_rst := 1\<rparr>"

text \<open>\<open>process_dgram_asm\<close> in the order of its statements: the requested reset, the first chunk, the body.\<close>

definition asm_reset :: "ble \<Rightarrow> em_error + ble" where
  "asm_reset b =
     (if eth_rst_req_rx b \<noteq> 0
      then
        let b = b\<lparr>eth_rst_req_rx := 0\<rparr>
        in bindR (case rx_pbuf b of
                    Some p \<Rightarrow> bindR (ble_lift (eth_pbuf_free_request p) b) (\<lambda>b. Inr (b\<lparr>rx_pbuf := None\<rparr>))
                  | None \<Rightarrow> Inr b)
             (\<lambda>b. Inr (b\<lparr>rx_ptr := 0\<rparr>))
      else Inr b)"

text \<open>The Boolean is true when the function returns -1 here.\<close>

definition asm_first :: "u8 \<Rightarrow> u8 \<Rightarrow> ble \<Rightarrow> em_error + bool \<times> ble" where
  "asm_first dg_type dg_seq b =
     (if dg_type AND 0x40 \<noteq> 0
      then
        let b = b\<lparr>rx_ptr := 0, rx_seq_err := 0, rx_prev_seq := (dg_seq - 1) AND 0x3F\<rparr>
        in bindR (case rx_pbuf b of
                    Some p \<Rightarrow> Inr b
                  | None \<Rightarrow> bindR (eth_pbuf_alloc None (b_em b)) (\<lambda>(p, s). Inr (b\<lparr>b_em := s, rx_pbuf := p\<rparr>)))
             (\<lambda>b. if rx_pbuf b = None
                  then Inr (True, upd_stats (\<lambda>t. t\<lparr>st_rx_pbuf_alloc_err := st_rx_pbuf_alloc_err t + 1\<rparr>) b)
                  else Inr (False, b))
      else Inr (False, b))"

definition asm_drop :: "nat \<Rightarrow> ble \<Rightarrow> em_error + ble" where
  "asm_drop p b = bindR (ble_lift (eth_pbuf_free_request p) b) (\<lambda>b. Inr (b\<lparr>rx_pbuf := None\<rparr>))"

definition asm_store :: "nat \<Rightarrow> nat \<Rightarrow> u8 list \<Rightarrow> em \<Rightarrow> em" where
  "asm_store p off bs s = upd_pb p (\<lambda>x. x\<lparr>pb_mem := st_bytes (pb_mem x) (pb_off x + off) bs\<rparr>) s"

definition asm_finish :: "nat \<Rightarrow> ble \<Rightarrow> em_error + ble" where
  "asm_finish p b =
     (let b = b\<lparr>b_em := upd_pb p (\<lambda>x. x\<lparr>pb_len := rx_ptr b, pb_tot_len := rx_ptr b, pb_if_idx := of_nat BLE_NETIF_ID\<rparr>) (b_em b)\<rparr>
      in bindR (if 14 \<le> rx_ptr b
                then ble_lift (eth_add_packet_to_router_queue p) (upd_stats (\<lambda>t. t\<lparr>st_rx_dgrams := st_rx_dgrams t + 1\<rparr>) b)
                else ble_lift (eth_pbuf_free_request p) (upd_stats (\<lambda>t. t\<lparr>st_rx_too_short_dgram := st_rx_too_short_dgram t + 1\<rparr>) b))
           (\<lambda>b. Inr (b\<lparr>rx_pbuf := None\<rparr>)))"

definition asm_body :: "u8 \<Rightarrow> u8 \<Rightarrow> u8 list \<Rightarrow> ble \<Rightarrow> em_error + ble" where
  "asm_body dg_type dg_seq bs b =
     (case rx_pbuf b of
        None \<Rightarrow> Inr b
      | Some p \<Rightarrow>
          let b = b\<lparr>rx_prev_seq := (rx_prev_seq b + 1) AND 0x3F\<rparr>
          in if rx_prev_seq b \<noteq> dg_seq \<or> rx_seq_err b \<noteq> 0
             then asm_drop p (upd_stats (\<lambda>t. t\<lparr>st_rx_seqerr := st_rx_seqerr t + 1\<rparr>) b)
             else if unat (rx_ptr b) + length bs \<le> ETH_MEM_BUF_SIZE
             then
               let b = b\<lparr>b_em := asm_store p (unat (rx_ptr b)) bs (b_em b)\<rparr>;
                   b = b\<lparr>rx_ptr := rx_ptr b + of_nat (length bs)\<rparr>
               in if dg_type AND 0x80 \<noteq> 0 then asm_finish p b else Inr b
             else asm_drop p (upd_stats (\<lambda>t. t\<lparr>st_rx_oversize := st_rx_oversize t + 1\<rparr>) b))"

definition process_dgram_asm :: "u8 list \<Rightarrow> ble \<Rightarrow> em_error + int \<times> ble" where
  "process_dgram_asm data b =
     (let b = upd_stats (\<lambda>t. t\<lparr>st_rx_chunks := st_rx_chunks t + 1\<rparr>) b
      in if length data < 2
         then Inr (0, upd_stats (\<lambda>t. t\<lparr>st_rx_too_short_chunk := st_rx_too_short_chunk t + 1\<rparr>) b)
         else
           let dg_type = data ! 0 AND 0xC0; dg_seq = data ! 0 AND 0x3F
           in bindR (asm_reset b) (\<lambda>b.
              bindR (asm_first dg_type dg_seq b) (\<lambda>(stop, b).
                if stop then Inr (- 1, b)
                else bindR (asm_body dg_type dg_seq (tl data) b) (\<lambda>b. Inr (0, b)))))"

text \<open>
  \<open>get_next_chunk\<close> writes its chunk at \<open>chunk_for_tx[1]\<close> and on and returns its length with the
  byte at \<open>[0]\<close>, which the caller fills, or 0.
\<close>

definition get_next_chunk :: "u8 list \<Rightarrow> ble \<Rightarrow> em_error + nat \<times> u8 list \<times> ble" where
  "get_next_chunk chunk b =
     (let b = (if tx_rst b \<noteq> 0 then b\<lparr>tx_rst := 0, tx_ptr := 0\<rparr> else b)
      in if cbk_pending b then Inr (0, chunk, b)
         else
           bindR (case current_tx_block b of
                    Some p \<Rightarrow> Inr (Some p, b)
                  | None \<Rightarrow>
                      bindR (eth_get_packet BLE_NETIF_ID (b_em b)) (\<lambda>(tb, s).
                        case tb of
                          None \<Rightarrow> Inr (None, b\<lparr>b_em := s, cbk_pending := True\<rparr>)
                        | Some p \<Rightarrow> Inr (Some p, b\<lparr>b_em := s, current_tx_block := Some p, cbk_pending := False\<rparr>)))
             (\<lambda>(tb, b).
                case tb of
                  None \<Rightarrow> Inr (0, chunk, b)
                | Some p \<Rightarrow>
                    let x = pbufs (b_em b) p;
                        tx_ptr_old = tx_ptr b;
                        rest = unat (pb_len x) - unat (tx_ptr b);
                        hd = (if tx_ptr b = 0 then 0x40 else 0 :: u8);
                        len = (if MAX_CHUNK_LEN < rest then MAX_CHUNK_LEN else rest);
                        sent = \<not> MAX_CHUNK_LEN < rest;
                        hd = (if sent then hd OR 0x80 else hd);
                        chunk = st_bytes (chunk[1 := hd]) 2 (ld_bytes (pb_mem x) (pb_off x + unat (tx_ptr b)) len);
                        b = b\<lparr>chunk_len := of_nat (len + 2), tx_ptr := tx_ptr b + of_nat len\<rparr>
                    in if pb_len x < tx_ptr_old then Inl BAD_MEMCPY
                       else bindR (if sent
                              then bindR (ble_lift (eth_pbuf_free_request p)
                                            (upd_stats (\<lambda>t. t\<lparr>st_tx_dgrams := st_tx_dgrams t + 1\<rparr>) b))
                                     (\<lambda>b. Inr (b\<lparr>current_tx_block := None, tx_ptr := 0\<rparr>))
                              else Inr b)
                         (\<lambda>b. Inr (len + 2, chunk, upd_stats (\<lambda>t. t\<lparr>st_tx_chunks := st_tx_chunks t + 1\<rparr>) b))))"

definition ble_callback_from_bridge :: "nat \<Rightarrow> ble \<Rightarrow> ble" where
  "ble_callback_from_bridge block b =
     b\<lparr>current_tx_block := Some block, cbk_pending := False,
       b_notify := TNotifyAdd taskNOTIFY_NEXT_CHUNK_AVAIL (b_notify b)\<rparr>"

definition ble_callback_qlen :: "nat \<Rightarrow> ble \<Rightarrow> ble" where
  "ble_callback_qlen nif b =
     (if input_queue_len (netifs (b_em b) nif) < IN_BLE_NETIF_QLEN_THR
      then b\<lparr>b_notify := TNotifyAdd taskNOTIFY_PUSH_RECVD (b_notify b)\<rparr> else b)"

definition eth_ble_if_init :: "em \<Rightarrow> em" where
  "eth_ble_if_init s =
     (let s = upd_nif BLE_NETIF_ID (\<lambda>n. n\<lparr>nif_callback_fn := Some Ble_callback_from_bridge, q_output_len_max := BLE_NETIF_QLEN,
                q_update_cbk := Some Ble_callback_qlen, if_up := 1\<rparr>) s
      in upd_nif TEST_NETIF_ID (\<lambda>n. n\<lparr>q_output_len_max := BLE_NETIF_QLEN, if_up := 1\<rparr>) s)"

text \<open>The test task's body (\<open>tcp_test_Task\<close>, started only in test builds).\<close>

definition tcp_test_body :: "em \<Rightarrow> em_error + em" where
  "tcp_test_body s =
     bindR (eth_pbuf_alloc None s) (\<lambda>(block, s).
       case block of
         None \<Rightarrow> Inr s
       | Some p \<Rightarrow>
           let s = upd_pb p (\<lambda>x. x\<lparr>pb_mem := st_bytes (st_bytes (pb_mem x) (pb_off x) (replicate 1000 0)) (pb_off x)
                      [1, 2, 3, 4, 5, 6], pb_len := 230, pb_tot_len := 230, pb_if_idx := of_nat LWIP_NETIF_ID\<rparr>) s
           in eth_add_packet_to_router_queue p s)"

section \<open>The header byte\<close>

lemma and_3F: "x AND 0x3F = take_bit 6 x" for x :: u8
  by (simp add: take_bit_eq_mask mask_eq_exp_minus_1)

lemma bit_40: "bit (0x40 :: u8) n \<longleftrightarrow> n = 6"
proof -
  have e: "(0x40 :: u8) = 2 ^ 6" by simp
  show ?thesis unfolding e bit_exp_iff by auto
qed

lemma bit_80: "bit (0x80 :: u8) n \<longleftrightarrow> n = 7"
proof -
  have e: "(0x80 :: u8) = 2 ^ 7" by simp
  show ?thesis unfolding e bit_exp_iff by auto
qed

lemma bit_C0: "bit (0xC0 :: u8) n \<longleftrightarrow> n = 6 \<or> n = 7"
proof -
  have e: "(0xC0 :: u8) = 0x40 OR 0x80" by simp
  show ?thesis unfolding e bit_or_iff bit_40 bit_80 ..
qed

lemma test_40: "x AND 0x40 \<noteq> 0 \<longleftrightarrow> bit x 6" for x :: u8
proof -
  have "x AND 0x40 = 0 \<longleftrightarrow> \<not> bit x 6"
    unfolding bit_eq_iff [of "x AND 0x40" 0] bit_and_iff bit_40 by (auto dest: spec [of _ 6])
  then show ?thesis by simp
qed

lemma test_80: "x AND 0x80 \<noteq> 0 \<longleftrightarrow> bit x 7" for x :: u8
proof -
  have "x AND 0x80 = 0 \<longleftrightarrow> \<not> bit x 7"
    unfolding bit_eq_iff [of "x AND 0x80" 0] bit_and_iff bit_80 by (auto dest: spec [of _ 7])
  then show ?thesis by simp
qed

lemma bit_stamp: "bit (stamp i t) n \<longleftrightarrow> (n < 6 \<and> bit i n \<or> (n = 6 \<or> n = 7) \<and> bit t n)" if "stamp i t = (i AND 0x3F) OR (t AND 0xC0)"
  for stamp :: "u8 \<Rightarrow> u8 \<Rightarrow> u8" and i t :: u8
  unfolding that bit_or_iff and_3F bit_take_bit_iff bit_and_iff bit_C0 by auto

text \<open>The header \<open>BLE_TCP_Task\<close> builds from its block counter and the type bits of the chunk.\<close>

definition stamp :: "u8 \<Rightarrow> u8 \<Rightarrow> u8" where
  "stamp i t = (i AND 0x3F) OR (t AND 0xC0)"

lemmas bit_stamp' = bit_stamp [of stamp, OF stamp_def]

lemma stamp_seq: "stamp i t AND 0x3F = i AND 0x3F"
proof (rule bit_word_eqI)
  show "bit (stamp i t AND 0x3F) n = bit (i AND 0x3F) n" for n
    unfolding and_3F bit_take_bit_iff bit_stamp' by auto
qed

lemma stamp_type: "bit (stamp i t AND 0xC0) 6 = bit t 6" "bit (stamp i t AND 0xC0) 7 = bit t 7"
  unfolding bit_and_iff bit_stamp' bit_C0 by auto

lemma seq_next: "(((i - 1) AND 0x3F) + 1) AND 0x3F = i AND 0x3F" for i :: u8
proof -
  have "unat (take_bit 6 (take_bit 6 j + 1)) = unat (take_bit 6 (j + 1))" for j :: u8
    by (simp add: unsigned_take_bit_eq take_bit_eq_mod unat_word_ariths mod_mod_cancel mod_simps)
  then have "take_bit 6 (take_bit 6 (i - 1) + 1) = take_bit 6 (i - 1 + 1)"
    by (simp only: word_unat_eq_iff)
  then show ?thesis
    unfolding and_3F by (simp only: diff_add_cancel)
qed

section \<open>Assembling\<close>

text \<open>The cutting of a datagram into chunks, on lists: type bits and bytes of each chunk.\<close>

function frag :: "bool \<Rightarrow> u8 list \<Rightarrow> (u8 \<times> u8 list) list" where
  "frag first bs =
     (let hd = (if first then 0x40 else 0)
      in if MAX_CHUNK_LEN < length bs
         then (hd, take MAX_CHUNK_LEN bs) # frag False (drop MAX_CHUNK_LEN bs)
         else [(hd OR 0x80, bs)])"
  by pat_completeness auto
termination
  by (relation "measure (\<lambda>(first, bs). length bs)") auto

declare frag.simps [simp del]

fun stamp_chunks :: "u8 \<Rightarrow> (u8 \<times> u8 list) list \<Rightarrow> u8 list list" where
  "stamp_chunks i [] = []"
| "stamp_chunks i ((t, bs) # cs) = (stamp i t # bs) # stamp_chunks (i + 1) cs"

fun asm_all :: "u8 list list \<Rightarrow> ble \<Rightarrow> em_error + ble" where
  "asm_all [] b = Inr b"
| "asm_all (d # ds) b = bindR (process_dgram_asm d b) (\<lambda>(r, b). asm_all ds b)"

text \<open>Buffer \<open>p\<close> holds the bytes \<open>bs\<close> of an unfinished datagram; the next chunk has number \<open>i\<close>.\<close>

definition asm_ready :: "ble \<Rightarrow> nat \<Rightarrow> u8 list \<Rightarrow> u8 \<Rightarrow> bool" where
  "asm_ready b p bs i \<longleftrightarrow> rx_pbuf b = Some p \<and> unat (rx_ptr b) = length bs \<and>
     rx_prev_seq b = (i - 1) AND 0x3F \<and> rx_seq_err b = 0 \<and> eth_rst_req_rx b = 0 \<and>
     pb_off (pbufs (b_em b) p) = 0 \<and> length (pb_mem (pbufs (b_em b) p)) = ETH_MEM_BUF_SIZE \<and>
     take (length bs) (pb_mem (pbufs (b_em b) p)) = bs"

definition set_mem :: "nat \<Rightarrow> u8 list \<Rightarrow> em \<Rightarrow> em" where
  "set_mem p m s = upd_pb p (\<lambda>x. x\<lparr>pb_mem := m\<rparr>) s"

lemma ptr_add: "unat (q :: u16) + n \<le> 1600 \<Longrightarrow> unat (q + of_nat n) = unat q + n"
  by (simp add: unat_word_ariths unsigned_of_nat take_bit_nat_eq_self)

lemma asm_body_mid:
  assumes r: "asm_ready b p bs i" and t: "\<not> bit t 7" and l: "length bs + length c \<le> ETH_MEM_BUF_SIZE"
  shows "\<exists>b' m'. asm_body (stamp i t AND 0xC0) (stamp i t AND 0x3F) c b = Inr b' \<and>
    asm_ready b' p (bs @ c) (i + 1) \<and> b_em b' = set_mem p m' (b_em b)"
proof -
  let ?m = "st_bytes (pb_mem (pbufs (b_em b) p)) (length bs) c"
  have f: "rx_pbuf b = Some p" "unat (rx_ptr b) = length bs" "rx_prev_seq b = (i - 1) AND 0x3F" "rx_seq_err b = 0"
    "pb_off (pbufs (b_em b) p) = 0" "length (pb_mem (pbufs (b_em b) p)) = ETH_MEM_BUF_SIZE"
    "take (length bs) (pb_mem (pbufs (b_em b) p)) = bs" "eth_rst_req_rx b = 0"
    using r by (simp_all add: asm_ready_def)
  have nl: "(stamp i t AND 0xC0) AND 0x80 = 0"
    using t test_80 [of "stamp i t AND 0xC0"] stamp_type(2) [of i t] by blast
  have sq: "(rx_prev_seq b + 1) AND 0x3F = stamp i t AND 0x3F"
    unfolding f(3) stamp_seq by (rule seq_next)
  let ?b = "b\<lparr>rx_prev_seq := i AND 0x3F, b_em := set_mem p ?m (b_em b), rx_ptr := rx_ptr b + of_nat (length c)\<rparr>"
  have "asm_body (stamp i t AND 0xC0) (stamp i t AND 0x3F) c b = Inr ?b"
    using f l nl sq by (simp add: asm_body_def Let_def asm_store_def set_mem_def upd_pb_def stamp_seq)
  moreover have "asm_ready ?b p (bs @ c) (i + 1)"
    using f l take_st_bytes_end [of "length bs" "pb_mem (pbufs (b_em b) p)" c]
    by (simp add: asm_ready_def set_mem_def upd_pb_def ptr_add)
  ultimately show ?thesis by (intro exI [of _ ?b] exI [of _ ?m]) simp
qed

definition rx_submit :: "nat \<Rightarrow> u8 list \<Rightarrow> nat \<Rightarrow> em \<Rightarrow> em" where
  "rx_submit p m n s = upd_pb p (\<lambda>x. x\<lparr>pb_mem := m, pb_len := of_nat n, pb_tot_len := of_nat n, pb_if_idx := of_nat BLE_NETIF_ID\<rparr>) s"

lemma asm_body_last:
  assumes r: "asm_ready b p bs i" and t: "bit t 7" and l: "length bs + length c \<le> ETH_MEM_BUF_SIZE"
    and n: "14 \<le> length bs + length c"
  shows "\<exists>b' m'. asm_body (stamp i t AND 0xC0) (stamp i t AND 0x3F) c b =
      bindR (eth_add_packet_to_router_queue p (rx_submit p m' (length bs + length c) (b_em b))) (\<lambda>s. Inr (b'\<lparr>b_em := s\<rparr>)) \<and>
    rx_pbuf b' = None \<and> take (length bs + length c) m' = bs @ c \<and> length m' = ETH_MEM_BUF_SIZE"
proof -
  let ?m = "st_bytes (pb_mem (pbufs (b_em b) p)) (length bs) c"
  have f: "rx_pbuf b = Some p" "unat (rx_ptr b) = length bs" "rx_prev_seq b = (i - 1) AND 0x3F" "rx_seq_err b = 0"
    "pb_off (pbufs (b_em b) p) = 0" "length (pb_mem (pbufs (b_em b) p)) = ETH_MEM_BUF_SIZE"
    "take (length bs) (pb_mem (pbufs (b_em b) p)) = bs" "eth_rst_req_rx b = 0"
    using r by (simp_all add: asm_ready_def)
  have nl: "(stamp i t AND 0xC0) AND 0x80 \<noteq> 0"
    using t test_80 [of "stamp i t AND 0xC0"] stamp_type(2) [of i t] by blast
  have sq: "(rx_prev_seq b + 1) AND 0x3F = stamp i t AND 0x3F"
    unfolding f(3) stamp_seq by (rule seq_next)
  have u: "unat (rx_ptr b + of_nat (length c)) = length bs + length c"
    using f l by (simp add: ptr_add)
  then have p: "rx_ptr b + of_nat (length c) = of_nat (length bs + length c)"
    by (simp add: f(2) [symmetric])
  have ge: "14 \<le> rx_ptr b + of_nat (length c)"
    using n u by (simp add: word_le_nat_alt)
  let ?b = "upd_stats (\<lambda>t. t\<lparr>st_rx_dgrams := st_rx_dgrams t + 1\<rparr>)
    (b\<lparr>rx_prev_seq := i AND 0x3F, rx_ptr := rx_ptr b + of_nat (length c), rx_pbuf := None\<rparr>)"
  have "asm_body (stamp i t AND 0xC0) (stamp i t AND 0x3F) c b =
      bindR (eth_add_packet_to_router_queue p (rx_submit p ?m (length bs + length c) (b_em b))) (\<lambda>s. Inr (?b\<lparr>b_em := s\<rparr>))"
    using f l nl sq ge
    by (cases "eth_add_packet_to_router_queue p (rx_submit p ?m (length bs + length c) (b_em b))")
      (simp_all add: asm_body_def Let_def asm_store_def stamp_seq asm_finish_def ble_lift_def upd_stats_def rx_submit_def
        upd_pb_def p)
  moreover have "take (length bs + length c) ?m = bs @ c" "length ?m = ETH_MEM_BUF_SIZE"
    using f l take_st_bytes_end [of "length bs" "pb_mem (pbufs (b_em b) p)" c] by simp_all
  ultimately show ?thesis
    by (intro exI [of _ ?b] exI [of _ ?m]) (simp add: upd_stats_def)
qed

lemma asm_ready_stats: "asm_ready (upd_stats f b) p bs i = asm_ready b p bs i"
  by (simp add: asm_ready_def upd_stats_def)

lemma b_em_stats [simp]: "b_em (upd_stats f b) = b_em b"
  by (simp add: upd_stats_def)

lemma not_first: "\<not> bit t 6 \<Longrightarrow> (stamp i t AND 0xC0) AND 0x40 = 0"
  using test_40 [of "stamp i t AND 0xC0"] stamp_type(1) [of i t] by blast

lemma is_first: "bit t 6 \<Longrightarrow> (stamp i t AND 0xC0) AND 0x40 \<noteq> 0"
  using test_40 [of "stamp i t AND 0xC0"] stamp_type(1) [of i t] by blast

lemma process_next:
  assumes r: "asm_ready b p bs i" and t: "\<not> bit t 6" and c: "c \<noteq> []"
  shows "process_dgram_asm (stamp i t # c) b =
    bindR (asm_body (stamp i t AND 0xC0) (stamp i t AND 0x3F) c (upd_stats (\<lambda>t. t\<lparr>st_rx_chunks := st_rx_chunks t + 1\<rparr>) b))
      (\<lambda>b. Inr (0, b))"
proof -
  have e: "eth_rst_req_rx b = 0" using r by (simp add: asm_ready_def)
  have l: "\<not> length (stamp i t # c) < 2" using c by (cases c) auto
  show ?thesis
    using e l not_first [OF t, of i]
    by (simp add: process_dgram_asm_def Let_def asm_reset_def asm_first_def upd_stats_def)
qed

lemma frag_types:
  "\<not> bit (0 :: u8) n" "bit (0 OR 0x80 :: u8) 7" "\<not> bit (0 OR 0x80 :: u8) 6"
  "bit (0x40 :: u8) 6" "\<not> bit (0x40 :: u8) 7" "bit (0x40 OR 0x80 :: u8) 6" "bit (0x40 OR 0x80 :: u8) 7"
  unfolding bit_or_iff bit_40 bit_80 by simp_all

lemma rx_submit_set: "rx_submit p m n (set_mem p m' s) = rx_submit p m n s"
  by (simp add: rx_submit_def set_mem_def upd_pb_def)

definition asm_done :: "nat \<Rightarrow> u8 list \<Rightarrow> em \<Rightarrow> em_error + ble \<Rightarrow> bool" where
  "asm_done p bs s res \<longleftrightarrow> (\<exists>b' m'. res =
      bindR (eth_add_packet_to_router_queue p (rx_submit p m' (length bs) s)) (\<lambda>s. Inr (b'\<lparr>b_em := s\<rparr>)) \<and>
      rx_pbuf b' = None \<and> take (length bs) m' = bs \<and> length m' = ETH_MEM_BUF_SIZE)"

lemma asm_rest:
  "asm_ready b p bs i \<Longrightarrow> rest \<noteq> [] \<Longrightarrow> length bs + length rest \<le> ETH_MEM_BUF_SIZE \<Longrightarrow> 14 \<le> length bs + length rest \<Longrightarrow>
   asm_done p (bs @ rest) (b_em b) (asm_all (stamp_chunks i (frag False rest)) b)"
proof (induction "length rest" arbitrary: rest bs b i rule: less_induct)
  case less
  let ?b = "upd_stats (\<lambda>t. t\<lparr>st_rx_chunks := st_rx_chunks t + 1\<rparr>) b"
  have r: "asm_ready ?b p bs i" using less.prems(1) by (simp add: asm_ready_stats)
  show ?case
  proof (cases "MAX_CHUNK_LEN < length rest")
    case True
    let ?c = "take MAX_CHUNK_LEN rest" and ?rest = "drop MAX_CHUNK_LEN rest"
    have f: "frag False rest = (0, ?c) # frag False ?rest"
      using True by (subst frag.simps) (simp add: Let_def)
    have c: "?c \<noteq> []" "length bs + length ?c \<le> ETH_MEM_BUF_SIZE" using less.prems by auto
    obtain b1 m1 where 1: "asm_body (stamp i 0 AND 0xC0) (stamp i 0 AND 0x3F) ?c ?b = Inr b1"
      "asm_ready b1 p (bs @ ?c) (i + 1)" "b_em b1 = set_mem p m1 (b_em ?b)"
      using asm_body_mid [OF r frag_types(1) c(2)] by blast
    have s: "asm_all (stamp_chunks i (frag False rest)) b = asm_all (stamp_chunks (i + 1) (frag False ?rest)) b1"
      using process_next [OF less.prems(1) frag_types(1) c(1)] 1(1) by (simp add: f)
    have "asm_done p ((bs @ ?c) @ ?rest) (b_em b1) (asm_all (stamp_chunks (i + 1) (frag False ?rest)) b1)"
      by (rule less.hyps [OF _ 1(2)]) (use True less.prems in auto)
    then show ?thesis
      unfolding s by (simp add: asm_done_def 1(3) rx_submit_set)
  next
    case False
    have f: "frag False rest = [(0 OR 0x80, rest)]"
      using False by (subst frag.simps) (simp add: Let_def)
    obtain b1 m1 where 1: "asm_body (stamp i (0 OR 0x80) AND 0xC0) (stamp i (0 OR 0x80) AND 0x3F) rest ?b =
        bindR (eth_add_packet_to_router_queue p (rx_submit p m1 (length bs + length rest) (b_em ?b))) (\<lambda>s. Inr (b1\<lparr>b_em := s\<rparr>))"
      "rx_pbuf b1 = None" "take (length bs + length rest) m1 = bs @ rest" "length m1 = ETH_MEM_BUF_SIZE"
      using asm_body_last [OF r frag_types(2) less.prems(3,4)] by blast
    have "asm_all (stamp_chunks i (frag False rest)) b =
        bindR (eth_add_packet_to_router_queue p (rx_submit p m1 (length (bs @ rest)) (b_em b))) (\<lambda>s. Inr (b1\<lparr>b_em := s\<rparr>))"
      using process_next [OF less.prems(1) frag_types(3) less.prems(2)] 1(1)
      by (cases "eth_add_packet_to_router_queue p (rx_submit p m1 (length bs + length rest) (b_em b))") (simp_all add: f)
    then show ?thesis
      unfolding asm_done_def using 1(2-4) by auto
  qed
qed

text \<open>The receiver between datagrams, with a buffer to come.\<close>

definition asm_idle :: "ble \<Rightarrow> nat \<Rightarrow> em \<Rightarrow> bool" where
  "asm_idle b p s0 \<longleftrightarrow> rx_pbuf b = None \<and> eth_rst_req_rx b = 0 \<and> eth_pbuf_alloc None (b_em b) = Inr (Some p, s0) \<and>
     pb_off (pbufs s0 p) = 0 \<and> length (pb_mem (pbufs s0 p)) = ETH_MEM_BUF_SIZE"

lemma seq_prev: "((i AND 0x3F) - 1) AND 0x3F = (i - 1) AND 0x3F" for i :: u8
proof -
  have "uint (take_bit 6 (take_bit 6 i - 1)) = uint (take_bit 6 (i - 1))"
    by (simp only: unsigned_take_bit_eq) (simp add: unsigned_take_bit_eq take_bit_eq_mod uint_word_ariths uint_mod_distrib mod_mod_cancel mod_simps)
  then show ?thesis
    unfolding and_3F by (simp only: word_uint_eq_iff)
qed

lemma process_first:
  assumes i: "asm_idle b p s0" and t: "bit t 6" and c: "c \<noteq> []"
  shows "\<exists>b1. asm_ready b1 p [] i \<and> b_em b1 = s0 \<and> process_dgram_asm (stamp i t # c) b =
    bindR (asm_body (stamp i t AND 0xC0) (stamp i t AND 0x3F) c b1) (\<lambda>b. Inr (0, b))"
proof -
  have l: "\<not> length (stamp i t # c) < 2" using c by (cases c) auto
  let ?b = "(upd_stats (\<lambda>t. t\<lparr>st_rx_chunks := st_rx_chunks t + 1\<rparr>) b)\<lparr>rx_ptr := 0, rx_seq_err := 0,
      rx_prev_seq := ((stamp i t AND 0x3F) - 1) AND 0x3F, b_em := s0, rx_pbuf := Some p\<rparr>"
  have "((stamp i t AND 0x3F) - 1) AND 0x3F = (i - 1) AND 0x3F"
    unfolding stamp_seq by (rule seq_prev)
  then have "asm_ready ?b p [] i"
    using i by (simp add: asm_ready_def asm_idle_def upd_stats_def)
  moreover have "process_dgram_asm (stamp i t # c) b =
      bindR (asm_body (stamp i t AND 0xC0) (stamp i t AND 0x3F) c ?b) (\<lambda>b. Inr (0, b))"
    using i l is_first [OF t, of i]
    by (simp add: process_dgram_asm_def Let_def asm_reset_def asm_first_def upd_stats_def asm_idle_def)
  ultimately show ?thesis
    by (intro exI [of _ ?b]) simp
qed

lemma asm_whole:
  assumes i: "asm_idle b p s0" and l: "14 \<le> length m" "length m \<le> ETH_MEM_BUF_SIZE"
  shows "asm_done p m s0 (asm_all (stamp_chunks i (frag True m)) b)"
proof (cases "MAX_CHUNK_LEN < length m")
  case True
  let ?c = "take MAX_CHUNK_LEN m" and ?rest = "drop MAX_CHUNK_LEN m"
  have f: "frag True m = (0x40, ?c) # frag False ?rest"
    using True by (subst frag.simps) (simp add: Let_def)
  have c: "?c \<noteq> []" "length ([] :: u8 list) + length ?c \<le> ETH_MEM_BUF_SIZE" using l by auto
  obtain b0 where 0: "asm_ready b0 p [] i" "b_em b0 = s0" "process_dgram_asm (stamp i 0x40 # ?c) b =
      bindR (asm_body (stamp i 0x40 AND 0xC0) (stamp i 0x40 AND 0x3F) ?c b0) (\<lambda>b. Inr (0, b))"
    using process_first [OF i frag_types(4) c(1)] by blast
  obtain b1 m1 where 1: "asm_body (stamp i 0x40 AND 0xC0) (stamp i 0x40 AND 0x3F) ?c b0 = Inr b1"
    "asm_ready b1 p ([] @ ?c) (i + 1)" "b_em b1 = set_mem p m1 (b_em b0)"
    using asm_body_mid [OF 0(1) frag_types(5) c(2)] by blast
  have s: "asm_all (stamp_chunks i (frag True m)) b = asm_all (stamp_chunks (i + 1) (frag False ?rest)) b1"
    using 0(3) 1(1) by (simp add: f)
  have "asm_done p (([] @ ?c) @ ?rest) (b_em b1) (asm_all (stamp_chunks (i + 1) (frag False ?rest)) b1)"
    by (rule asm_rest [OF 1(2)]) (use True l in auto)
  then show ?thesis
    unfolding s by (simp add: asm_done_def 1(3) 0(2) rx_submit_set)
next
  case False
  let ?t = "0x40 OR 0x80 :: u8"
  have f: "frag True m = [(?t, m)]"
    using False by (subst frag.simps) (simp add: Let_def)
  have c: "m \<noteq> []" "length ([] :: u8 list) + length m \<le> ETH_MEM_BUF_SIZE" "14 \<le> length ([] :: u8 list) + length m" using l by auto
  obtain b0 where 0: "asm_ready b0 p [] i" "b_em b0 = s0" "process_dgram_asm (stamp i ?t # m) b =
      bindR (asm_body (stamp i ?t AND 0xC0) (stamp i ?t AND 0x3F) m b0) (\<lambda>b. Inr (0, b))"
    using process_first [OF i frag_types(6) c(1)] by blast
  obtain b1 m1 where 1: "asm_body (stamp i ?t AND 0xC0) (stamp i ?t AND 0x3F) m b0 =
      bindR (eth_add_packet_to_router_queue p (rx_submit p m1 (length ([] :: u8 list) + length m) (b_em b0))) (\<lambda>s. Inr (b1\<lparr>b_em := s\<rparr>))"
    "rx_pbuf b1 = None" "take (length ([] :: u8 list) + length m) m1 = [] @ m" "length m1 = ETH_MEM_BUF_SIZE"
    using asm_body_last [OF 0(1) frag_types(7) c(2,3)] by blast
  have "asm_all (stamp_chunks i (frag True m)) b =
      bindR (eth_add_packet_to_router_queue p (rx_submit p m1 (length m) s0)) (\<lambda>s. Inr (b1\<lparr>b_em := s\<rparr>))"
    using 0 1(1) unfolding f
    by (cases "eth_add_packet_to_router_queue p (rx_submit p m1 (length m) s0)") simp_all
  then show ?thesis
    unfolding asm_done_def using 1(2-4) by auto
qed

section \<open>Sending\<close>

text \<open>Taking chunks until the datagram is done: type bits and bytes of each.\<close>

fun tx_all :: "nat \<Rightarrow> u8 list \<Rightarrow> ble \<Rightarrow> em_error + (u8 \<times> u8 list) list \<times> ble" where
  "tx_all 0 chunk b = Inl OUT_OF_FUEL"
| "tx_all (Suc n) chunk b =
     bindR (get_next_chunk chunk b) (\<lambda>(len, chunk, b).
       let c = (chunk ! 1, take (len - 2) (drop 2 chunk))
       in if current_tx_block b = None then Inr ([c], b)
          else bindR (tx_all n chunk b) (\<lambda>(cs, b). Inr (c # cs, b)))"

definition tx_ready :: "ble \<Rightarrow> nat \<Rightarrow> u8 list \<Rightarrow> bool" where
  "tx_ready b p rest \<longleftrightarrow> current_tx_block b = Some p \<and> tx_rst b = 0 \<and> \<not> cbk_pending b \<and>
     unat (tx_ptr b) + length rest = unat (pb_len (pbufs (b_em b) p)) \<and>
     ld_bytes (pb_mem (pbufs (b_em b) p)) (pb_off (pbufs (b_em b) p) + unat (tx_ptr b)) (length rest) = rest"

lemma ld_bytes_split:
  assumes h: "ld_bytes m k (length xs) = xs" and n: "n \<le> length xs"
  shows "ld_bytes m k n = take n xs" and "ld_bytes m (k + n) (length xs - n) = drop n xs"
proof -
  have hx: "take (length xs) (drop k m) = xs"
    using h by (simp only: ld_bytes_def)
  have "take n xs = take n (take (length xs) (drop k m))"
    by (simp only: hx)
  also have "\<dots> = take n (drop k m)"
    using n by (simp add: min_absorb1)
  finally show "ld_bytes m k n = take n xs"
    by (simp only: ld_bytes_def)
  have "drop n xs = drop n (take (length xs) (drop k m))"
    by (simp only: hx)
  also have "\<dots> = take (length xs - n) (drop (k + n) m)"
    by (simp only: drop_take drop_drop add.commute)
  finally show "ld_bytes m (k + n) (length xs - n) = drop n xs"
    by (simp only: ld_bytes_def)
qed

lemma chunk_write:
  assumes "length chunk = MAX_CHUNK_LEN + 2" and "length bs \<le> MAX_CHUNK_LEN"
  shows "st_bytes (chunk[1 := h]) 2 bs ! 1 = h" "take (length bs) (drop 2 (st_bytes (chunk[1 := h]) 2 bs)) = bs"
    "length (st_bytes (chunk[1 := h]) 2 bs) = MAX_CHUNK_LEN + 2"
  using assms by (simp_all add: st_bytes_def nth_append)

lemma get_chunk_more:
  assumes r: "tx_ready b p rest" and l: "MAX_CHUNK_LEN < length rest" and c: "length chunk = MAX_CHUNK_LEN + 2"
  shows "\<exists>chunk' b'. get_next_chunk chunk b = Inr (MAX_CHUNK_LEN + 2, chunk', b') \<and>
    chunk' ! 1 = (if tx_ptr b = 0 then 0x40 else 0) \<and> take MAX_CHUNK_LEN (drop 2 chunk') = take MAX_CHUNK_LEN rest \<and>
    length chunk' = MAX_CHUNK_LEN + 2 \<and> tx_ready b' p (drop MAX_CHUNK_LEN rest) \<and> tx_ptr b' \<noteq> 0 \<and> b_em b' = b_em b"
proof -
  let ?x = "pbufs (b_em b) p"
  have f: "current_tx_block b = Some p" "tx_rst b = 0" "\<not> cbk_pending b"
    "unat (tx_ptr b) + length rest = unat (pb_len ?x)"
    "ld_bytes (pb_mem ?x) (pb_off ?x + unat (tx_ptr b)) (length rest) = rest"
    using r by (auto simp: tx_ready_def)
  have lim: "unat (tx_ptr b) + length rest < 65536"
    using f(4) unat_u16_less [of "pb_len ?x"] by simp
  have nlt: "\<not> pb_len ?x < tx_ptr b"
    using f(4) by (simp add: word_less_nat_alt)
  have ptr: "unat (tx_ptr b + 167) = unat (tx_ptr b) + 167"
    using lim l by (simp add: unat_word_ariths)
  then have nz: "tx_ptr b + 167 \<noteq> 0" by (metis add_is_0 unat_0 zero_neq_numeral)
  note sp = ld_bytes_split [OF f(5), of MAX_CHUNK_LEN]
  let ?bs = "take MAX_CHUNK_LEN rest"
  let ?h = "if tx_ptr b = 0 then 0x40 else 0 :: u8"
  let ?chunk = "st_bytes (chunk[1 := ?h]) 2 ?bs"
  let ?b = "upd_stats (\<lambda>t. t\<lparr>st_tx_chunks := st_tx_chunks t + 1\<rparr>) (b\<lparr>chunk_len := 169, tx_ptr := tx_ptr b + 167\<rparr>)"
  have rest: "unat (pb_len ?x) - unat (tx_ptr b) = length rest" using f(4) by simp
  have g: "get_next_chunk chunk b = Inr (MAX_CHUNK_LEN + 2, ?chunk, ?b)"
    using f(1-3) nlt l sp by (simp add: get_next_chunk_def Let_def rest)
  have "tx_ready ?b p (drop MAX_CHUNK_LEN rest)"
    using f l sp ptr by (simp add: tx_ready_def upd_stats_def add.assoc)
  then show ?thesis
    using g nz chunk_write [OF c, of ?bs ?h] l by (intro exI [of _ ?chunk] exI [of _ ?b]) (simp add: upd_stats_def)
qed

lemma get_chunk_last:
  assumes r: "tx_ready b p rest" and l: "length rest \<le> MAX_CHUNK_LEN" and c: "length chunk = MAX_CHUNK_LEN + 2"
    and fr: "eth_pbuf_free_request p (b_em b) = Inr s'"
  shows "\<exists>chunk' b'. get_next_chunk chunk b = Inr (length rest + 2, chunk', b') \<and>
    chunk' ! 1 = (if tx_ptr b = 0 then 0x40 else 0) OR 0x80 \<and> take (length rest) (drop 2 chunk') = rest \<and>
    current_tx_block b' = None \<and> tx_ptr b' = 0 \<and> b_em b' = s' \<and> length chunk' = MAX_CHUNK_LEN + 2"
proof -
  let ?x = "pbufs (b_em b) p"
  have f: "current_tx_block b = Some p" "tx_rst b = 0" "\<not> cbk_pending b"
    "unat (tx_ptr b) + length rest = unat (pb_len ?x)"
    "ld_bytes (pb_mem ?x) (pb_off ?x + unat (tx_ptr b)) (length rest) = rest"
    using r by (auto simp: tx_ready_def)
  have nlt: "\<not> pb_len ?x < tx_ptr b"
    using f(4) by (simp add: word_less_nat_alt)
  let ?h = "(if tx_ptr b = 0 then 0x40 else 0) OR 0x80 :: u8"
  let ?chunk = "st_bytes (chunk[1 := ?h]) 2 rest"
  let ?b = "upd_stats (\<lambda>t. t\<lparr>st_tx_chunks := st_tx_chunks t + 1\<rparr>)
    (upd_stats (\<lambda>t. t\<lparr>st_tx_dgrams := st_tx_dgrams t + 1\<rparr>) b\<lparr>chunk_len := of_nat (length rest + 2), tx_ptr := 0,
      b_em := s', current_tx_block := None\<rparr>)"
  have rest: "unat (pb_len ?x) - unat (tx_ptr b) = length rest" using f(4) by simp
  have "get_next_chunk chunk b = Inr (length rest + 2, ?chunk, ?b)"
    using f(1-3) nlt l f(5) fr
    by (simp add: get_next_chunk_def Let_def rest ble_lift_def upd_stats_def)
  then show ?thesis
    using chunk_write [OF c l, of ?h] by (intro exI [of _ ?chunk] exI [of _ ?b]) (simp add: upd_stats_def)
qed

lemma tx_frag:
  "tx_ready b p rest \<Longrightarrow> rest \<noteq> [] \<Longrightarrow> length rest \<le> MAX_CHUNK_LEN * n \<Longrightarrow> length chunk = MAX_CHUNK_LEN + 2 \<Longrightarrow>
   eth_pbuf_free_request p (b_em b) = Inr s' \<Longrightarrow>
   \<exists>b'. tx_all n chunk b = Inr (frag (tx_ptr b = 0) rest, b') \<and> b_em b' = s' \<and> current_tx_block b' = None \<and> tx_ptr b' = 0"
proof (induction n arbitrary: rest chunk b)
  case 0
  then show ?case by simp
next
  case (Suc n)
  show ?case
  proof (cases "MAX_CHUNK_LEN < length rest")
    case True
    obtain chunk1 b1 where 1: "get_next_chunk chunk b = Inr (MAX_CHUNK_LEN + 2, chunk1, b1)"
      "chunk1 ! 1 = (if tx_ptr b = 0 then 0x40 else 0)" "take MAX_CHUNK_LEN (drop 2 chunk1) = take MAX_CHUNK_LEN rest"
      "length chunk1 = MAX_CHUNK_LEN + 2" "tx_ready b1 p (drop MAX_CHUNK_LEN rest)" "tx_ptr b1 \<noteq> 0" "b_em b1 = b_em b"
      using get_chunk_more [OF Suc.prems(1) True Suc.prems(4)] by blast
    have "\<exists>b'. tx_all n chunk1 b1 = Inr (frag (tx_ptr b1 = 0) (drop MAX_CHUNK_LEN rest), b') \<and> b_em b' = s' \<and>
        current_tx_block b' = None \<and> tx_ptr b' = 0"
      by (rule Suc.IH [OF 1(5)]) (use True Suc.prems 1 in auto)
    then obtain b2 where 2: "tx_all n chunk1 b1 = Inr (frag False (drop MAX_CHUNK_LEN rest), b2)" "b_em b2 = s'"
        "current_tx_block b2 = None" "tx_ptr b2 = 0"
      using 1(6) by auto
    have "current_tx_block b1 \<noteq> None" using 1(5) by (simp add: tx_ready_def)
    then show ?thesis
      using 1 2 True by (subst frag.simps) (simp add: Let_def)
  next
    case False
    obtain chunk1 b1 where 1: "get_next_chunk chunk b = Inr (length rest + 2, chunk1, b1)"
      "chunk1 ! 1 = (if tx_ptr b = 0 then 0x40 else 0) OR 0x80" "take (length rest) (drop 2 chunk1) = rest"
      "current_tx_block b1 = None" "tx_ptr b1 = 0" "b_em b1 = s'"
      using get_chunk_last [OF Suc.prems(1) _ Suc.prems(4,5)] False by (meson not_le)
    then show ?thesis
      using False by (subst frag.simps) (simp add: Let_def)
  qed
qed

text \<open>
  A datagram crosses the BLE link unchanged. Whatever datagram of 14 to \<open>ETH_MEM_BUF_SIZE\<close>
  bytes the sender takes from the bridge, the chunks \<open>get_next_chunk\<close> produces until the datagram is
  done (at most 10, each at most \<open>MAX_CHUNK_LEN\<close> bytes and its header), numbered consecutively from
  any number, make the receiver's \<open>process_dgram_asm\<close> submit a buffer with exactly these bytes to
  its router, and both sides are between datagrams afterwards, the sender's buffer released.
\<close>

lemma ble_roundtrip:
  assumes s: "tx_ready tb p m" "tx_ptr tb = 0" "length chunk = MAX_CHUNK_LEN + 2"
      "eth_pbuf_free_request p (b_em tb) = Inr s'"
    and r: "asm_idle rb q s0" and l: "14 \<le> length m" "length m \<le> ETH_MEM_BUF_SIZE"
  shows "\<exists>cs tb' rb' m'. tx_all 10 chunk tb = Inr (cs, tb') \<and> b_em tb' = s' \<and> current_tx_block tb' = None \<and>
    asm_all (stamp_chunks i cs) rb =
      bindR (eth_add_packet_to_router_queue q (rx_submit q m' (length m) s0)) (\<lambda>s. Inr (rb'\<lparr>b_em := s\<rparr>)) \<and>
    rx_pbuf rb' = None \<and> take (length m) m' = m"
proof -
  have ne: "m \<noteq> []" and le: "length m \<le> MAX_CHUNK_LEN * 10" using l by auto
  obtain tb' where tb: "tx_all 10 chunk tb = Inr (frag True m, tb')" "b_em tb' = s'" "current_tx_block tb' = None"
    using tx_frag [OF s(1) ne le s(3,4)] s(2) by auto
  obtain rb' m' where rb: "asm_all (stamp_chunks i (frag True m)) rb =
      bindR (eth_add_packet_to_router_queue q (rx_submit q m' (length m) s0)) (\<lambda>s. Inr (rb'\<lparr>b_em := s\<rparr>))"
      "rx_pbuf rb' = None" "take (length m) m' = m"
    using asm_whole [OF r l, of i] unfolding asm_done_def by blast
  show ?thesis
    using tb rb by blast
qed

definition ble0 :: "em \<Rightarrow> ble" where
  "ble0 s = \<lparr>b_em = s, current_tx_block = None, eth_rst_req_rx = 0, tx_rst = 0, rx_pbuf = None, rx_ptr = 0, rx_prev_seq = 0,
     rx_seq_err = 0, chunk_len = 0, tx_ptr = 0, cbk_pending = False,
     b_stats = \<lparr>st_tx_chunks = 0, st_rx_chunks = 0, st_tx_dgrams = 0, st_rx_dgrams = 0, st_rx_too_short_chunk = 0,
       st_rx_too_short_dgram = 0, st_rx_oversize = 0, st_rx_pbuf_alloc_err = 0, st_rx_seqerr = 0\<rparr>,
     b_notify = TNotifyCreate\<rparr>"

lemma asm_idle_init: "\<exists>s0. asm_idle (ble0 eth_router_init) 0 s0"
proof -
  obtain s where s: "eth_pbuf_alloc None eth_router_init = Inr (Some 0, s)"
    "pbufs s = (pbufs eth_router_init)(0 := alloc_init 0 (pbufs eth_router_init 0))"
    using first_alloc by blast
  then have "asm_idle (ble0 eth_router_init) 0 s"
    by (simp add: asm_idle_def ble0_def alloc_init_def eth_router_init_def eth_router_add_bridge_def init_pbuf_def
        zero_em_def zero_pbuf_def)
  then show ?thesis ..
qed

lemma ble_roundtrip_witness:
  "\<exists>tb cs tb' rb' s0 m'. tx_ready tb 0 (replicate 400 7) \<and> tx_all 10 (replicate 169 0) tb = Inr (cs, tb') \<and>
     asm_all (stamp_chunks 61 cs) (ble0 eth_router_init) =
       bindR (eth_add_packet_to_router_queue 0 (rx_submit 0 m' 400 s0)) (\<lambda>s. Inr (rb'\<lparr>b_em := s\<rparr>)) \<and>
     take 400 m' = replicate 400 7"
proof -
  let ?m = "replicate 400 (7 :: u8)"
  obtain s where s: "em_reach s (sp_alloc 0 sp_init)" using first_alloc by blast
  let ?s = "upd_pb 0 (driver_fill ?m 0 400 400 1) s"
  let ?tb = "(ble0 ?s)\<lparr>current_tx_block := Some 0\<rparr>"
  have e: "0 < sp_ext (sp_alloc 0 sp_init) 0" by (simp only: sp_first_alloc)
  have rs: "em_rep ?s (sp_alloc 0 sp_init)" using reach_rep [OF s] by (rule rep_fill)
  obtain s' where fr: "eth_pbuf_free_request 0 (b_em ?tb) = Inr s'"
    using rep_free_request [OF rs e] by (auto simp: ble0_def)
  have tr: "tx_ready ?tb 0 ?m"
    by (simp add: tx_ready_def ble0_def upd_pb_def driver_fill_def ld_bytes_def)
  obtain s0 where i: "asm_idle (ble0 eth_router_init) 0 s0" using asm_idle_init ..
  have c: "length (replicate 169 (0 :: u8)) = MAX_CHUNK_LEN + 2" by simp
  have z: "tx_ptr ?tb = 0" by (simp add: ble0_def)
  have l: "14 \<le> length ?m" "length ?m \<le> ETH_MEM_BUF_SIZE" "length ?m = 400" by simp_all
  show ?thesis
    using tr ble_roundtrip [OF tr z c fr i l(1,2), of 61] unfolding l(3) by blast
qed

section \<open>Whatever the link delivers\<close>

definition ble_inv :: "ble \<Rightarrow> em_spec \<Rightarrow> bool" where
  "ble_inv b a \<longleftrightarrow> em_rep (b_em b) a \<and> (\<forall>q. length (pb_mem (pbufs (b_em b) q)) = ETH_MEM_BUF_SIZE) \<and>
     (\<forall>p. rx_pbuf b = Some p \<longrightarrow> 0 < sp_ext a p \<and> pb_off (pbufs (b_em b) p) = 0 \<and> unat (rx_ptr b) \<le> ETH_MEM_BUF_SIZE)"

lemma ble_lift_free:
  assumes i: "ble_inv b a" and p: "0 < sp_ext a p"
  shows "\<exists>s. eth_pbuf_free_request p (b_em b) = Inr s \<and> em_rep s (sp_release p a) \<and>
    (\<forall>q. length (pb_mem (pbufs s q)) = ETH_MEM_BUF_SIZE)"
proof -
  obtain s where s: "eth_pbuf_free_request p (b_em b) = Inr s" "em_rep s (sp_release p a)"
    using i rep_free_request [of "b_em b" a p] p by (auto simp: ble_inv_def)
  then show ?thesis
    using i keep_all_free [OF s(1)] by (simp add: ble_inv_def keep_all_def)
qed

lemma sp_release_free: "sp_free (sp_release p a) = sp_free a"
  by (simp add: sp_release_def)

lemma asm_reset_inv:
  assumes "ble_inv b a"
  shows "\<exists>b' a'. asm_reset b = Inr b' \<and> ble_inv b' a' \<and> sp_free a' = sp_free a"
proof (cases "eth_rst_req_rx b = 0 \<or> rx_pbuf b = None")
  case True
  then show ?thesis
    using assms by (intro exI [of _ "if eth_rst_req_rx b = 0 then b else b\<lparr>eth_rst_req_rx := 0, rx_ptr := 0\<rparr>"] exI [of _ a])
      (auto simp: asm_reset_def ble_inv_def Let_def)
next
  case False
  then obtain p where p: "rx_pbuf b = Some p" "eth_rst_req_rx b \<noteq> 0" by auto
  then obtain s where s: "eth_pbuf_free_request p (b_em b) = Inr s" "em_rep s (sp_release p a)"
    "\<forall>q. length (pb_mem (pbufs s q)) = ETH_MEM_BUF_SIZE"
    using ble_lift_free [OF assms, of p] assms by (auto simp: ble_inv_def)
  then show ?thesis
    using p by (intro exI [of _ "b\<lparr>eth_rst_req_rx := 0, b_em := s, rx_pbuf := None, rx_ptr := 0\<rparr>"] exI [of _ "sp_release p a"])
      (simp add: asm_reset_def ble_inv_def Let_def ble_lift_def sp_release_free)
qed

lemma asm_first_inv:
  assumes i: "ble_inv b a" and f: "sp_free a \<noteq> []"
  shows "\<exists>b' a'. asm_first t q b = Inr (False, b') \<and> ble_inv b' a'"
proof (cases "t AND 0x40 = 0")
  case True
  then show ?thesis using i by (auto simp: asm_first_def)
next
  case False
  let ?b = "b\<lparr>rx_ptr := 0, rx_seq_err := 0, rx_prev_seq := (q - 1) AND 0x3F\<rparr>"
  show ?thesis
  proof (cases "rx_pbuf b")
    case (Some p)
    then show ?thesis
      using False i by (intro exI [of _ ?b] exI [of _ a]) (auto simp: asm_first_def Let_def ble_inv_def)
  next
    case None
    obtain p fl where p: "sp_free a = p # fl" using f by (cases "sp_free a") auto
    obtain s where s: "eth_pbuf_alloc None (b_em b) = Inr (Some p, s)" "em_rep s (sp_alloc p a)"
      "pbufs s = (pbufs (b_em b))(p := alloc_init (alloc_idx None (b_em b)) (pbufs (b_em b) p))"
      using rep_alloc [of "b_em b" a p fl None] i p by (auto simp: ble_inv_def)
    have "ble_inv (?b\<lparr>b_em := s, rx_pbuf := Some p\<rparr>) (sp_alloc p a)"
      using i s by (simp add: ble_inv_def sp_alloc_def alloc_init_def)
    then show ?thesis
      using False None s(1) by (intro exI [of _ "?b\<lparr>b_em := s, rx_pbuf := Some p\<rparr>"] exI [of _ "sp_alloc p a"])
        (simp add: asm_first_def Let_def)
  qed
qed

lemma ble_inv_store:
  assumes i: "ble_inv b a" and p: "rx_pbuf b = Some p" and l: "unat (rx_ptr b) + length c \<le> ETH_MEM_BUF_SIZE"
  shows "ble_inv (b\<lparr>b_em := asm_store p (unat (rx_ptr b)) c (b_em b), rx_ptr := rx_ptr b + of_nat (length c)\<rparr>) a"
proof -
  have "em_rep (asm_store p (unat (rx_ptr b)) c (b_em b)) a"
    unfolding asm_store_def using i by (intro rep_upd_pb_frame) (auto simp: ble_inv_def em_rep_def rep_refs_def)
  then show ?thesis
    using i p l by (auto simp: ble_inv_def asm_store_def upd_pb_def ptr_add)
qed

lemma asm_drop_inv:
  assumes i: "ble_inv b a" and p: "rx_pbuf b = Some p"
  shows "\<exists>b' a'. asm_drop p b = Inr b' \<and> ble_inv b' a'"
proof -
  obtain s where s: "eth_pbuf_free_request p (b_em b) = Inr s" "em_rep s (sp_release p a)"
    "\<forall>q. length (pb_mem (pbufs s q)) = ETH_MEM_BUF_SIZE"
    using ble_lift_free [OF i, of p] i p by (auto simp: ble_inv_def)
  then show ?thesis
    by (intro exI [of _ "b\<lparr>b_em := s, rx_pbuf := None\<rparr>"] exI [of _ "sp_release p a"])
      (simp add: asm_drop_def ble_lift_def ble_inv_def)
qed

lemma asm_finish_inv:
  assumes i: "ble_inv b a" and p: "rx_pbuf b = Some p"
  shows "\<exists>b' a'. asm_finish p b = Inr b' \<and> ble_inv b' a'"
proof -
  let ?s = "upd_pb p (\<lambda>x. x\<lparr>pb_len := rx_ptr b, pb_tot_len := rx_ptr b, pb_if_idx := of_nat BLE_NETIF_ID\<rparr>) (b_em b)"
  have e: "0 < sp_ext a p" using i p by (simp add: ble_inv_def)
  have r: "em_rep ?s a"
    using i by (intro rep_upd_pb_frame) (auto simp: ble_inv_def em_rep_def rep_refs_def)
  have l: "\<forall>q. length (pb_mem (pbufs ?s q)) = ETH_MEM_BUF_SIZE" using i by (simp add: ble_inv_def upd_pb_def)
  have ix: "unat (pb_if_idx (pbufs ?s p)) < ETH_NETIFS" by (simp add: upd_pb_def)
  show ?thesis
  proof (cases "14 \<le> rx_ptr b")
    case True
    obtain s a' where s: "eth_add_packet_to_router_queue p ?s = Inr s" "em_rep s a'"
      using router_queue_refines [OF r e ix] by blast
    have "\<forall>q. length (pb_mem (pbufs s q)) = ETH_MEM_BUF_SIZE"
      using l router_queue_keeps [OF s(1)] by (simp add: keep_all_def)
    then show ?thesis
      using True s by (intro exI [of _ "(upd_stats (\<lambda>t. t\<lparr>st_rx_dgrams := st_rx_dgrams t + 1\<rparr>) b)\<lparr>b_em := s, rx_pbuf := None\<rparr>"] exI [of _ a'])
        (simp add: asm_finish_def ble_lift_def ble_inv_def upd_stats_def)
  next
    case False
    obtain s a' where s: "eth_pbuf_free_request p ?s = Inr s" "em_rep s a'"
      using rep_free_request [OF r e] by blast
    have "\<forall>q. length (pb_mem (pbufs s q)) = ETH_MEM_BUF_SIZE"
      using l keep_all_free [OF s(1)] by (simp add: keep_all_def)
    then show ?thesis
      using False s by (intro exI [of _ "(upd_stats (\<lambda>t. t\<lparr>st_rx_too_short_dgram := st_rx_too_short_dgram t + 1\<rparr>) b)\<lparr>b_em := s, rx_pbuf := None\<rparr>"] exI [of _ a'])
        (simp add: asm_finish_def ble_lift_def ble_inv_def upd_stats_def)
  qed
qed

lemma ble_inv_stats: "ble_inv (upd_stats f b) a = ble_inv b a" "rx_pbuf (upd_stats f b) = rx_pbuf b"
  by (simp_all add: ble_inv_def upd_stats_def)

lemma asm_body_inv:
  assumes i: "ble_inv b a"
  shows "\<exists>b' a'. asm_body t q c b = Inr b' \<and> ble_inv b' a'"
proof (cases "rx_pbuf b")
  case None
  then show ?thesis using i by (auto simp: asm_body_def)
next
  case (Some p)
  let ?b = "b\<lparr>rx_prev_seq := (rx_prev_seq b + 1) AND 0x3F\<rparr>"
  have i1: "ble_inv ?b a" "rx_pbuf ?b = Some p" using i Some by (simp_all add: ble_inv_def)
  note st = ble_inv_stats
  consider (seq) "rx_prev_seq ?b \<noteq> q \<or> rx_seq_err ?b \<noteq> 0"
    | (fits) "\<not> (rx_prev_seq ?b \<noteq> q \<or> rx_seq_err ?b \<noteq> 0)" "unat (rx_ptr ?b) + length c \<le> ETH_MEM_BUF_SIZE"
    | (big) "\<not> (rx_prev_seq ?b \<noteq> q \<or> rx_seq_err ?b \<noteq> 0)" "\<not> unat (rx_ptr ?b) + length c \<le> ETH_MEM_BUF_SIZE"
    by blast
  then show ?thesis
  proof cases
    case seq
    then show ?thesis
      using asm_drop_inv [of "upd_stats (\<lambda>t. t\<lparr>st_rx_seqerr := st_rx_seqerr t + 1\<rparr>) ?b" a p] i1 Some
      by (simp add: asm_body_def Let_def st)
  next
    case fits
    let ?b2 = "?b\<lparr>b_em := asm_store p (unat (rx_ptr ?b)) c (b_em ?b), rx_ptr := rx_ptr ?b + of_nat (length c)\<rparr>"
    have i2: "ble_inv ?b2 a" "rx_pbuf ?b2 = Some p"
      using ble_inv_store [OF i1 fits(2)] Some by simp_all
    then show ?thesis
      using asm_finish_inv [OF i2] fits Some by (auto simp: asm_body_def Let_def)
  next
    case big
    then show ?thesis
      using asm_drop_inv [of "upd_stats (\<lambda>t. t\<lparr>st_rx_oversize := st_rx_oversize t + 1\<rparr>) ?b" a p] i1 Some
      by (simp add: asm_body_def Let_def st)
  qed
qed

text \<open>
  The receiver survives any input. While the pool has a free buffer, whatever bytes arrive
  from the link, in whatever order, \<open>process_dgram_asm\<close> returns without an assertion failure and
  keeps its invariant: the buffer accounting is exact, the assembly buffer is held by it, and every
  write stays inside the \<open>ETH_MEM_BUF_SIZE\<close> bytes of the buffer.
\<close>

lemma asm_any_input:
  assumes i: "ble_inv b a" and f: "sp_free a \<noteq> []"
  shows "\<exists>r b' a'. process_dgram_asm data b = Inr (r, b') \<and> ble_inv b' a'"
proof -
  let ?b = "upd_stats (\<lambda>t. t\<lparr>st_rx_chunks := st_rx_chunks t + 1\<rparr>) b"
  have i0: "ble_inv ?b a" using i by (simp add: ble_inv_stats)
  show ?thesis
  proof (cases "length data < 2")
    case True
    then show ?thesis
      using i0 by (auto simp: process_dgram_asm_def Let_def ble_inv_stats)
  next
    case False
    obtain b1 a1 where 1: "asm_reset ?b = Inr b1" "ble_inv b1 a1" "sp_free a1 \<noteq> []"
      using asm_reset_inv [OF i0] f by auto
    obtain b2 a2 where 2: "asm_first (data ! 0 AND 0xC0) (data ! 0 AND 0x3F) b1 = Inr (False, b2)" "ble_inv b2 a2"
      using asm_first_inv [OF 1(2,3)] by blast
    obtain b3 a3 where "asm_body (data ! 0 AND 0xC0) (data ! 0 AND 0x3F) (tl data) b2 = Inr b3" "ble_inv b3 a3"
      using asm_body_inv [OF 2(2)] by blast
    then show ?thesis
      using False 1(1) 2(1) by (auto simp: process_dgram_asm_def Let_def)
  qed
qed

lemma ble_inv_init: "ble_inv (ble0 eth_router_init) sp_init"
  unfolding ble_inv_def using init_rep
  by (simp add: ble0_def eth_router_init_def eth_router_add_bridge_def init_pbuf_def zero_em_def zero_pbuf_def)

lemma asm_any_input_witness:
  "\<exists>r b' a'. process_dgram_asm [0x41, 1, 2, 3] (ble0 eth_router_init) = Inr (r, b') \<and> ble_inv b' a'"
proof (rule asm_any_input [OF ble_inv_init])
  show "sp_free sp_init \<noteq> []" by (simp only: sp_init_free) simp
qed

end
