(* ===== verification/BleTcp.thy ===== *)
theory BleTcp
  imports BleEth
begin

text \<open>
  \<open>ble_tcp.c\<close> and the native entry points of \<open>bt_drv.c\<close> that drive it: sending the chunks of
  \<open>ble_eth.c\<close> over the BLE link one at a time, acknowledgement bytes, retry of a refused write, and
  the reset of both directions when a connection comes up. The operations run under the two
  locks \<open>tcp_tx_sem\<close> and \<open>tcp_rx_sem\<close>, so each is one step here.
\<close>

section \<open>State and operations\<close>

abbreviation (input) "taskNOTIFY_ACK_UPDATE \<equiv> 1 :: u32"
abbreviation (input) "taskNOTIFY_BLE_TX_COMPLETE \<equiv> 8 :: u32"
abbreviation (input) "taskNOTIFY_nACK_UPDATE \<equiv> 16 :: u32"
abbreviation (input) "taskNOTIFY_TMR_IDLE \<equiv> 64 :: u32"

record BLE_TCP_STATS =
  ts_tx_raw :: u32
  ts_rx_raw :: u32
  ts_tx_blocks :: u32
  ts_rx_empty_dg :: u32
  ts_rst_cnt :: u32
  ts_tx_bytes :: u32
  ts_rx_bytes :: u32

text \<open>\<open>tcp_armed\<close>: the one-shot timer \<open>timerid\<close> is running.\<close>

record tcp =
  t_ble :: ble
  ble_connection_status :: int
  ble_tx_busy :: u32
  rx_nack_blk :: u8
  tx_index_blk :: u8
  tx_push_ptr_blk :: u8
  snd_blk_len :: u8
  snd_blk :: "u8 list"
  ack_sent_value :: u8
  ack_notify_request :: u8
  tcp_armed :: bool
  t_stats :: BLE_TCP_STATS

definition tcp_notify :: "u32 \<Rightarrow> tcp \<Rightarrow> tcp" where
  "tcp_notify v s = s\<lparr>t_ble := (t_ble s)\<lparr>b_notify := TNotifyAdd v (b_notify (t_ble s))\<rparr>\<rparr>"

definition upd_tstats :: "(BLE_TCP_STATS \<Rightarrow> BLE_TCP_STATS) \<Rightarrow> tcp \<Rightarrow> tcp" where
  "upd_tstats f s = s\<lparr>t_stats := f (t_stats s)\<rparr>"

definition gatt_conn_reset :: "tcp \<Rightarrow> tcp" where
  "gatt_conn_reset s =
     (let s = upd_tstats (\<lambda>t. t\<lparr>ts_rst_cnt := ts_rst_cnt t + 1\<rparr>) (s\<lparr>ble_tx_busy := 0\<rparr>);
          s = s\<lparr>rx_nack_blk := 1, tx_index_blk := 0, tx_push_ptr_blk := 0, snd_blk_len := 0\<rparr>;
          s = s\<lparr>t_ble := gatt_eth_reset (t_ble s)\<rparr>
      in tcp_notify taskNOTIFY_BLE_TX_COMPLETE s)"

definition notify_ble_out_queue :: "tcp \<Rightarrow> tcp" where
  "notify_ble_out_queue s = tcp_notify taskNOTIFY_PUSH_RECVD s"

definition process_gatt_data :: "u8 list \<Rightarrow> tcp \<Rightarrow> em_error + tcp" where
  "process_gatt_data data s =
     (let s = upd_tstats (\<lambda>t. t\<lparr>ts_rx_raw := ts_rx_raw t + 1\<rparr>) s
      in if length data < 1 then Inr (upd_tstats (\<lambda>t. t\<lparr>ts_rx_empty_dg := ts_rx_empty_dg t + 1\<rparr>) s)
         else
           let s = upd_tstats (\<lambda>t. t\<lparr>ts_rx_bytes := ts_rx_bytes t + of_nat (length data)\<rparr>) s;
               s = tcp_notify taskNOTIFY_nACK_UPDATE (s\<lparr>rx_nack_blk := data ! 0 AND 0x3F\<rparr>)
           in if 1 < length data
              then bindR (process_dgram_asm (tl data) (t_ble s)) (\<lambda>(r, b). Inr (s\<lparr>t_ble := b\<rparr>))
              else Inr s)"

definition next_chunk_avail :: "tcp \<Rightarrow> tcp" where
  "next_chunk_avail s = tcp_notify taskNOTIFY_NEXT_CHUNK_AVAIL s"

definition ble_tx_complete :: "int \<Rightarrow> tcp \<Rightarrow> tcp" where
  "ble_tx_complete status s = tcp_notify taskNOTIFY_BLE_TX_COMPLETE (s\<lparr>ble_tx_busy := 0\<rparr>)"

text \<open>
  The Java side of a write: whether a byte array can be allocated, and the static method
  \<open>send_to_ble\<close>, if it was found, with the value it returns for a frame.
\<close>

record jni =
  jn_new_array :: "nat \<Rightarrow> bool"
  jn_send_method :: "(u8 list \<Rightarrow> int) option"

definition bt_send :: "jni \<Rightarrow> u8 list \<Rightarrow> int" where
  "bt_send env dgr =
     (if \<not> jn_new_array env (length dgr) then - 1
      else case jn_send_method env of Some m \<Rightarrow> m dgr | None \<Rightarrow> - 1)"

definition ble_gatt_trysend :: "jni \<Rightarrow> u8 list \<Rightarrow> tcp \<Rightarrow> int \<times> tcp" where
  "ble_gatt_trysend env data s =
     (if ble_connection_status s \<noteq> 2 then (- 3, s)
      else if ble_tx_busy s \<noteq> 0 then (- 1, s)
      else
        let s = s\<lparr>ble_tx_busy := 1\<rparr>
        in if bt_send env data \<noteq> 1 then (- 2, s\<lparr>ble_tx_busy := 0\<rparr>)
           else (0, upd_tstats (\<lambda>t. t\<lparr>ts_tx_raw := ts_tx_raw t + 1\<rparr>) s))"

text \<open>
  The part of \<open>BLE_TCP_Task\<close> under the lock. The list is the frame the link accepted, \<open>None\<close> when
  none was tried or the attempt failed.
\<close>

definition tcp_send_len :: "nat \<Rightarrow> nat" where
  "tcp_send_len len = (if len = 0 then 1 else len)"

definition tcp_frame :: "u8 \<Rightarrow> nat \<Rightarrow> tcp \<Rightarrow> u8 list" where
  "tcp_frame idx len s =
     (let blk = (snd_blk s)[0 := rx_nack_blk s]
      in if len = 0 then blk else blk[1 := (idx AND 0x3F) OR (blk ! 1 AND 0xC0)])"

definition tcp_sent :: "u8 \<Rightarrow> u8 \<Rightarrow> nat \<Rightarrow> tcp \<Rightarrow> tcp" where
  "tcp_sent idx ack len s =
     (let s = s\<lparr>snd_blk_len := 0\<rparr>;
          s = upd_tstats (\<lambda>t. t\<lparr>ts_tx_bytes := ts_tx_bytes t + of_nat len, ts_tx_blocks := ts_tx_blocks t + 1\<rparr>) s
      in s\<lparr>ack_sent_value := ack, ack_notify_request := 0, tcp_armed := True, tx_index_blk := (idx + 1) AND 0x3F\<rparr>)"

definition tcp_try :: "jni \<Rightarrow> nat \<Rightarrow> tcp \<Rightarrow> u8 list option \<times> tcp" where
  "tcp_try env len s =
     (if len \<noteq> 0 \<or> ack_notify_request s \<noteq> 0 \<and> ack_sent_value s \<noteq> rx_nack_blk s
      then
        let idx = tx_index_blk s; ack = rx_nack_blk s;
            s = s\<lparr>snd_blk := tcp_frame idx len s\<rparr>;
            len = tcp_send_len len;
            frame = take len (snd_blk s);
            (ret, s) = ble_gatt_trysend env frame s
        in if ret = 0 then (Some frame, tcp_sent idx ack len s) else (None, s)
      else (None, s))"

definition tcp_fetch :: "tcp \<Rightarrow> em_error + nat \<times> tcp" where
  "tcp_fetch s =
     (if snd_blk_len s = 0
      then bindR (get_next_chunk (snd_blk s) (t_ble s)) (\<lambda>(len, chunk, b).
             Inr (len, s\<lparr>snd_blk := chunk, t_ble := b, snd_blk_len := of_nat len\<rparr>))
      else Inr (unat (snd_blk_len s), s))"

text \<open>One round of the task's loop. The outer \<open>None\<close>: the task sleeps in \<open>TNotifyWait\<close>.\<close>

definition BLE_TCP_Task_body :: "jni \<Rightarrow> tcp \<Rightarrow> em_error + (u8 list option \<times> tcp) option" where
  "BLE_TCP_Task_body env s =
     (case TNotifyWait (b_notify (t_ble s)) of
        None \<Rightarrow> Inr None
      | Some (res, h) \<Rightarrow>
          let s = s\<lparr>t_ble := (t_ble s)\<lparr>b_notify := h\<rparr>\<rparr>
          in if res AND (taskNOTIFY_BLE_TX_COMPLETE OR taskNOTIFY_NEXT_CHUNK_AVAIL OR taskNOTIFY_nACK_UPDATE
                  OR taskNOTIFY_TMR_IDLE) \<noteq> 0 \<and> ble_tx_busy s = 0
             then bindR (tcp_fetch s) (\<lambda>(len, s). Inr (Some (tcp_try env len s)))
             else Inr (Some (None, s)))"

definition tcp_tmr :: "tcp \<Rightarrow> tcp" where
  "tcp_tmr s = tcp_notify taskNOTIFY_TMR_IDLE (s\<lparr>ack_notify_request := 1, tcp_armed := False\<rparr>)"

text \<open>Static data of the module is zero; then \<open>ble_tcp_init\<close> and its notification.\<close>

definition ble_tcp_init :: "ble \<Rightarrow> tcp" where
  "ble_tcp_init b = tcp_notify taskNOTIFY_ACK_UPDATE
     \<lparr>t_ble = b\<lparr>b_notify := TNotifyCreate\<rparr>, ble_connection_status = 0, ble_tx_busy = 0, rx_nack_blk = 0,
      tx_index_blk = 0, tx_push_ptr_blk = 0, snd_blk_len = 0, snd_blk = replicate (MAX_CHUNK_LEN + 2) 0,
      ack_sent_value = 0, ack_notify_request = 0, tcp_armed = True,
      t_stats = \<lparr>ts_tx_raw = 0, ts_rx_raw = 0, ts_tx_blocks = 0, ts_rx_empty_dg = 0, ts_rst_cnt = 0, ts_tx_bytes = 0, ts_rx_bytes = 0\<rparr>\<rparr>"

section \<open>Native entry points (\<open>bt_drv.c\<close>)\<close>

definition char_wr_cbk :: "int \<Rightarrow> tcp \<Rightarrow> tcp" where
  "char_wr_cbk status s = ble_tx_complete status s"

text \<open>\<open>len\<close> is passed on as a \<open>uint16_t\<close>; \<open>None\<close>: \<open>GetByteArrayElements\<close> failed.\<close>

definition new_dg_from_bt :: "u8 list option \<Rightarrow> tcp \<Rightarrow> em_error + tcp" where
  "new_dg_from_bt jdgram s =
     (case jdgram of
        None \<Rightarrow> Inr s
      | Some bs \<Rightarrow> if 0 < length bs then process_gatt_data (take (length bs mod 65536) bs) s else Inr s)"

definition eth_ble_stack_control :: "int \<Rightarrow> tcp \<Rightarrow> tcp" where
  "eth_ble_stack_control status s =
     (let s = s\<lparr>ble_connection_status := status\<rparr> in if status = 2 then gatt_conn_reset s else s)"

text \<open>
  The speed the status thread shows: a ring of 16 samples of a byte counter and of the clock, and the
  rate over the last ten samples in 32-bit unsigned arithmetic. \<open>None\<close>: the two clock samples are
  equal and the division traps.
\<close>

record speed =
  sp_hist :: "u32 list"
  sp_htime :: "u32 list"
  histptr :: u8

definition speed_sample :: "u32 \<Rightarrow> u32 \<Rightarrow> speed \<Rightarrow> u32 option \<times> speed" where
  "speed_sample bytes now s =
     (let p = unat (histptr s AND 15); q = unat ((histptr s AND 15) - 10 AND 15);
          s = s\<lparr>sp_hist := (sp_hist s)[p := bytes], sp_htime := (sp_htime s)[p := now]\<rparr>;
          dt = sp_htime s ! p - sp_htime s ! q;
          spd = (if dt = 0 then None else Some ((sp_hist s ! p - sp_hist s ! q) * 1000 div dt))
      in (spd, s\<lparr>histptr := of_nat (p + 1) AND 15\<rparr>))"

section \<open>A datagram on its way through the sender\<close>

lemma tcp_notify_simps [simp]:
  "ble_connection_status (tcp_notify v s) = ble_connection_status s" "ble_tx_busy (tcp_notify v s) = ble_tx_busy s"
  "rx_nack_blk (tcp_notify v s) = rx_nack_blk s" "tx_index_blk (tcp_notify v s) = tx_index_blk s"
  "snd_blk_len (tcp_notify v s) = snd_blk_len s" "snd_blk (tcp_notify v s) = snd_blk s"
  "t_ble (tcp_notify v s) = (t_ble s)\<lparr>b_notify := TNotifyAdd v (b_notify (t_ble s))\<rparr>"
  by (simp_all add: tcp_notify_def)

lemma upd_tstats_simps [simp]:
  "ble_connection_status (upd_tstats f s) = ble_connection_status s" "ble_tx_busy (upd_tstats f s) = ble_tx_busy s"
  "rx_nack_blk (upd_tstats f s) = rx_nack_blk s" "tx_index_blk (upd_tstats f s) = tx_index_blk s"
  "snd_blk_len (upd_tstats f s) = snd_blk_len s" "snd_blk (upd_tstats f s) = snd_blk s" "t_ble (upd_tstats f s) = t_ble s"
  by (simp_all add: upd_tstats_def)

text \<open>The effect of a requested reset, which \<open>get_next_chunk\<close> applies first.\<close>

definition tx_norm :: "ble \<Rightarrow> ble" where
  "tx_norm b = (if tx_rst b \<noteq> 0 then b\<lparr>tx_rst := 0, tx_ptr := 0\<rparr> else b)"

lemma get_next_chunk_norm: "get_next_chunk chunk (tx_norm b) = get_next_chunk chunk b"
  by (simp add: get_next_chunk_def tx_norm_def)

lemma b_em_norm [simp]: "b_em (tx_norm b) = b_em b"
  by (simp add: tx_norm_def)

lemma tx_norm_ready: "tx_ready b p rest \<Longrightarrow> tx_norm b = b"
  by (simp add: tx_norm_def tx_ready_def)

definition tx_src :: "ble \<Rightarrow> (u8 \<times> u8 list) list \<Rightarrow> bool" where
  "tx_src b cs \<longleftrightarrow> cs = [] \<or>
     (\<exists>p s' rest. tx_ready (tx_norm b) p rest \<and> rest \<noteq> [] \<and> eth_pbuf_free_request p (b_em b) = Inr s' \<and>
        cs = frag (tx_ptr (tx_norm b) = 0) rest)"

definition tx_held :: "tcp \<Rightarrow> u8 \<times> u8 list \<Rightarrow> bool" where
  "tx_held s c \<longleftrightarrow> unat (snd_blk_len s) = length (snd c) + 2 \<and> length (snd c) \<le> MAX_CHUNK_LEN \<and>
     snd_blk s ! 1 AND 0xC0 = fst c AND 0xC0 \<and> take (length (snd c)) (drop 2 (snd_blk s)) = snd c"

text \<open>\<open>tx_at s cs\<close>: the chunks \<open>cs\<close> of the current datagram still have to be accepted by the link.\<close>

definition tx_at :: "tcp \<Rightarrow> (u8 \<times> u8 list) list \<Rightarrow> bool" where
  "tx_at s cs \<longleftrightarrow> length (snd_blk s) = MAX_CHUNK_LEN + 2 \<and>
     (snd_blk_len s = 0 \<and> tx_src (t_ble s) cs \<or> (\<exists>c ds. cs = c # ds \<and> tx_held s c \<and> tx_src (t_ble s) ds))"

lemma tx_src_notify [simp]: "tx_src (b\<lparr>b_notify := h\<rparr>) cs = tx_src b cs"
  by (simp add: tx_src_def tx_ready_def tx_norm_def)

lemma tx_at_notify [simp]: "tx_at (tcp_notify v s) cs = tx_at s cs"
  by (simp add: tx_at_def tx_held_def)

lemma tx_at_stats [simp]: "tx_at (upd_tstats f s) cs = tx_at s cs"
  by (simp add: tx_at_def tx_held_def)

lemma frag_more: "MAX_CHUNK_LEN < length bs \<Longrightarrow>
   frag first bs = ((if first then 0x40 else 0), take MAX_CHUNK_LEN bs) # frag False (drop MAX_CHUNK_LEN bs)"
  by (subst frag.simps) (simp add: Let_def)

lemma frag_last: "length bs \<le> MAX_CHUNK_LEN \<Longrightarrow> frag first bs = [((if first then 0x40 else 0) OR 0x80, bs)]"
  by (subst frag.simps) (simp add: Let_def)

lemma tx_src_next:
  assumes r: "tx_src b (c # cs)" and l: "length chunk = MAX_CHUNK_LEN + 2"
  shows "\<exists>chunk' b'. get_next_chunk chunk b = Inr (length (snd c) + 2, chunk', b') \<and> chunk' ! 1 = fst c \<and>
    take (length (snd c)) (drop 2 chunk') = snd c \<and> length chunk' = MAX_CHUNK_LEN + 2 \<and> length (snd c) \<le> MAX_CHUNK_LEN \<and>
    tx_src b' cs"
proof -
  obtain p s' rest where p: "tx_ready (tx_norm b) p rest" "rest \<noteq> []" "eth_pbuf_free_request p (b_em b) = Inr s'"
      "c # cs = frag (tx_ptr (tx_norm b) = 0) rest"
    using r by (auto simp: tx_src_def)
  show ?thesis
  proof (cases "MAX_CHUNK_LEN < length rest")
    case True
    obtain chunk' b' where g: "get_next_chunk chunk (tx_norm b) = Inr (MAX_CHUNK_LEN + 2, chunk', b')"
      "chunk' ! 1 = (if tx_ptr (tx_norm b) = 0 then 0x40 else 0)" "take MAX_CHUNK_LEN (drop 2 chunk') = take MAX_CHUNK_LEN rest"
      "length chunk' = MAX_CHUNK_LEN + 2" "tx_ready b' p (drop MAX_CHUNK_LEN rest)" "tx_ptr b' \<noteq> 0" "b_em b' = b_em (tx_norm b)"
      using get_chunk_more [OF p(1) True l] by blast
    have c: "c = ((if tx_ptr (tx_norm b) = 0 then 0x40 else 0), take MAX_CHUNK_LEN rest)"
      "cs = frag False (drop MAX_CHUNK_LEN rest)"
      using p(4) unfolding frag_more [OF True] by auto
    have "tx_src b' cs"
      unfolding tx_src_def using g(5-7) p(3) True c(2)
      by (intro disjI2 exI [of _ p] exI [of _ s'] exI [of _ "drop MAX_CHUNK_LEN rest"]) (simp add: tx_norm_ready [OF g(5)])
    then show ?thesis
      using g c True by (intro exI [of _ chunk'] exI [of _ b']) (simp add: get_next_chunk_norm)
  next
    case False
    then have F: "length rest \<le> MAX_CHUNK_LEN" by simp
    have fr: "eth_pbuf_free_request p (b_em (tx_norm b)) = Inr s'" using p(3) by simp
    obtain chunk' b' where g: "get_next_chunk chunk (tx_norm b) = Inr (length rest + 2, chunk', b')"
      "chunk' ! 1 = (if tx_ptr (tx_norm b) = 0 then 0x40 else 0) OR 0x80" "take (length rest) (drop 2 chunk') = rest"
      "length chunk' = MAX_CHUNK_LEN + 2"
      using get_chunk_last [OF p(1) F l fr] by blast
    have c: "c = ((if tx_ptr (tx_norm b) = 0 then 0x40 else 0) OR 0x80, rest)" "cs = []"
      using p(4) unfolding frag_last [OF F] by auto
    show ?thesis
      using g c F by (intro exI [of _ chunk'] exI [of _ b']) (simp add: get_next_chunk_norm tx_src_def)
  qed
qed

lemma fetch_at:
  assumes a: "tx_at s (c # cs)"
  shows "\<exists>s1. tcp_fetch s = Inr (length (snd c) + 2, s1) \<and> length (snd_blk s1) = MAX_CHUNK_LEN + 2 \<and> tx_held s1 c \<and>
    tx_src (t_ble s1) cs \<and> tx_index_blk s1 = tx_index_blk s \<and> ble_tx_busy s1 = ble_tx_busy s \<and>
    ble_connection_status s1 = ble_connection_status s"
proof (cases "snd_blk_len s = 0")
  case True
  then have l: "length (snd_blk s) = MAX_CHUNK_LEN + 2" and src: "tx_src (t_ble s) (c # cs)"
    using a by (auto simp: tx_at_def tx_held_def)
  obtain chunk' b' where g: "get_next_chunk (snd_blk s) (t_ble s) = Inr (length (snd c) + 2, chunk', b')" "chunk' ! 1 = fst c"
    "take (length (snd c)) (drop 2 chunk') = snd c" "length chunk' = MAX_CHUNK_LEN + 2" "length (snd c) \<le> MAX_CHUNK_LEN" "tx_src b' cs"
    using tx_src_next [OF src l] by blast
  have u: "unat (of_nat (length (snd c) + 2) :: u8) = length (snd c) + 2"
    using g(5) by (simp only: unat_of_nat) simp
  let ?s = "s\<lparr>snd_blk := chunk', t_ble := b', snd_blk_len := of_nat (length (snd c) + 2)\<rparr>"
  have "tcp_fetch s = Inr (length (snd c) + 2, ?s)"
    unfolding tcp_fetch_def using True g(1) by simp
  then show ?thesis
    using g u unfolding tx_held_def by (intro exI [of _ ?s]) simp
next
  case False
  then have h: "length (snd_blk s) = MAX_CHUNK_LEN + 2" "tx_held s c" "tx_src (t_ble s) cs"
    using a by (auto simp: tx_at_def)
  then show ?thesis
    using False by (intro exI [of _ s]) (auto simp: tcp_fetch_def tx_held_def)
qed

lemma stamp_and: "stamp i t AND 0xC0 = t AND 0xC0"
proof (rule bit_word_eqI)
  show "bit (stamp i t AND 0xC0) n = bit (t AND 0xC0) n" for n
    unfolding bit_and_iff bit_stamp' bit_C0 by auto
qed

lemma stamp_type_cong: "t AND 0xC0 = u AND 0xC0 \<Longrightarrow> stamp i t = stamp i u"
  by (simp add: stamp_def)

lemma try_at:
  assumes l: "length (snd_blk s) = MAX_CHUNK_LEN + 2" and h: "tx_held s c" and src: "tx_src (t_ble s) cs"
    and r: "tcp_try env (length (snd c) + 2) s = (r, s')"
  shows "(r = None \<and> tx_at s' (c # cs) \<and> tx_index_blk s' = tx_index_blk s \<or>
     (\<exists>a. r = Some (a # stamp (tx_index_blk s) (fst c) # snd c)) \<and> tx_at s' cs \<and>
       tx_index_blk s' = (tx_index_blk s + 1) AND 0x3F) \<and>
     ble_connection_status s' = ble_connection_status s \<and>
     (ble_connection_status s = 2 \<and> ble_tx_busy s = 0 \<and> (\<forall>d. bt_send env d = 1) \<longrightarrow> r \<noteq> None)"
proof -
  let ?i = "tx_index_blk s" and ?n = "length (snd c) + 2"
  let ?blk = "(snd_blk s)[0 := rx_nack_blk s, 1 := stamp (tx_index_blk s) (snd_blk s ! 1)]"
  have hh: "unat (snd_blk_len s) = ?n" "snd_blk s ! 1 AND 0xC0 = fst c AND 0xC0" "take (length (snd c)) (drop 2 (snd_blk s)) = snd c"
    "length (snd c) \<le> MAX_CHUNK_LEN"
    using h by (simp_all add: tx_held_def)
  have nz: "snd_blk_len s \<noteq> 0" using hh(1) by auto
  have st: "stamp ?i (snd_blk s ! 1) = stamp ?i (fst c)" by (rule stamp_type_cong [OF hh(2)])
  have f: "tcp_frame ?i ?n s = ?blk"
    by (simp add: tcp_frame_def Let_def stamp_def)
  have b: "snd_blk s = (snd_blk s ! 0) # (snd_blk s ! 1) # drop 2 (snd_blk s)"
    using l by (simp add: Cons_nth_drop_Suc numeral_2_eq_2)
  have "?blk = rx_nack_blk s # stamp ?i (fst c) # drop 2 (snd_blk s)"
    by (subst b) (use st in simp)
  then have t: "take ?n ?blk = rx_nack_blk s # stamp ?i (fst c) # snd c"
    using hh(3) by simp
  have l2: "length ?blk = MAX_CHUNK_LEN + 2" "?blk ! 1 = stamp ?i (fst c)" "drop 2 ?blk = drop 2 (snd_blk s)"
    using l st by (simp_all add: drop_update_cancel)
  let ?s = "s\<lparr>snd_blk := ?blk\<rparr>"
  have held: "tx_at (?s\<lparr>ble_tx_busy := k\<rparr>) (c # cs)" for k
    using nz l2 hh src unfolding tx_at_def tx_held_def by (simp add: stamp_and)
  have fin: "tx_at (tcp_sent ?i (rx_nack_blk s) ?n (upd_tstats g (?s\<lparr>ble_tx_busy := k\<rparr>))) cs" for g k
    using l2 src by (simp add: tx_at_def tcp_sent_def upd_tstats_def)
  have sl: "tcp_send_len ?n = ?n" by (simp add: tcp_send_len_def)
  have eq: "tcp_try env ?n s = (let (ret, s1) = ble_gatt_trysend env (take ?n ?blk) ?s
      in if ret = 0 then (Some (take ?n ?blk), tcp_sent ?i (rx_nack_blk s) ?n s1) else (None, s1))"
    unfolding tcp_try_def Let_def sl f by (simp split: prod.split)
  have i: "tx_index_blk (tcp_sent ?i k n x) = (?i + 1) AND 0x3F" "ble_connection_status (tcp_sent ?i k n x) = ble_connection_status x" for k n x
    by (simp_all add: tcp_sent_def Let_def)
  consider (send) "ble_connection_status s = 2" "ble_tx_busy s = 0" "bt_send env (take ?n ?blk) = 1"
    | (fail) "ble_connection_status s = 2" "ble_tx_busy s = 0" "bt_send env (take ?n ?blk) \<noteq> 1"
    | (refused) "ble_connection_status s \<noteq> 2 \<or> ble_tx_busy s \<noteq> 0"
    by blast
  then show ?thesis
  proof cases
    case send
    then show ?thesis
      using r eq fin [of _ 1] unfolding t by (auto simp: ble_gatt_trysend_def Let_def i)
  next
    case fail
    have u: "?s\<lparr>ble_tx_busy := 1, ble_tx_busy := 0\<rparr> = ?s\<lparr>ble_tx_busy := 0\<rparr>" by simp
    show ?thesis
      using fail r eq held [of 0] by (auto simp: ble_gatt_trysend_def Let_def)
  next
    case refused
    have "?s = ?s\<lparr>ble_tx_busy := ble_tx_busy s\<rparr>" by simp
    then have "tx_at ?s (c # cs)" using held [of "ble_tx_busy s"] by metis
    moreover have g: "ble_gatt_trysend env fr ?s = (if ble_connection_status s \<noteq> 2 then - 3 else - 1, ?s)" for fr
      using refused by (auto simp: ble_gatt_trysend_def)
    have "tcp_try env ?n s = (None, ?s)"
      unfolding eq g by simp
    ultimately show ?thesis
      using refused r by auto
  qed
qed

lemma stamp_mask: "stamp (i AND 0x3F) t = stamp i t"
  unfolding stamp_def by (simp add: and.assoc)

lemma mask_inc: "((i AND 0x3F) + 1) AND 0x3F = (i + 1) AND 0x3F" for i :: u8
  using seq_next [of "i + 1"] by simp

lemma stamp_chunks_cong: "i AND 0x3F = j AND 0x3F \<Longrightarrow> stamp_chunks i cs = stamp_chunks j cs"
proof (induction cs arbitrary: i j)
  case Nil
  then show ?case by simp
next
  case (Cons c cs)
  have "(i + 1) AND 0x3F = (j + 1) AND 0x3F"
    by (metis Cons.prems mask_inc)
  then show ?case
    using Cons stamp_mask by (cases c) (metis stamp_chunks.simps(2))
qed

lemma stamp_chunks_mask: "stamp_chunks (i AND 0x3F) cs = stamp_chunks i cs"
  by (rule stamp_chunks_cong) (simp add: and.assoc)

section \<open>Runs of the sender\<close>

text \<open>
  The events that reach the sender: a round of its task (with what the Java side will answer), the
  completion of a write, an acknowledgement-only frame from the peer, the timer, and the callbacks
  of the bridge's queues.
\<close>

datatype tcp_ev = Wake jni | Write_complete int | Ack u8 | Timer | Out_queue

definition tcp_wake :: "jni \<Rightarrow> tcp \<Rightarrow> em_error + u8 list list \<times> tcp" where
  "tcp_wake env s = bindR (BLE_TCP_Task_body env s) (\<lambda>r.
     case r of None \<Rightarrow> Inr ([], s)
     | Some (f, s) \<Rightarrow> Inr (case f of None \<Rightarrow> [] | Some fr \<Rightarrow> [fr], s))"

fun tcp_ev_step :: "tcp_ev \<Rightarrow> tcp \<Rightarrow> em_error + u8 list list \<times> tcp" where
  "tcp_ev_step (Wake env) s = tcp_wake env s"
| "tcp_ev_step (Write_complete status) s = Inr ([], char_wr_cbk status s)"
| "tcp_ev_step (Ack a) s = bindR (new_dg_from_bt (Some [a]) s) (\<lambda>s. Inr ([], s))"
| "tcp_ev_step Timer s = Inr ([], tcp_tmr s)"
| "tcp_ev_step Out_queue s = Inr ([], notify_ble_out_queue s)"

text \<open>The frames the link accepted over a sequence of events, in order.\<close>

fun tcp_run :: "tcp_ev list \<Rightarrow> tcp \<Rightarrow> em_error + u8 list list \<times> tcp" where
  "tcp_run [] s = Inr ([], s)"
| "tcp_run (e # es) s =
     bindR (tcp_ev_step e s) (\<lambda>(fs, s). bindR (tcp_run es s) (\<lambda>(gs, s). Inr (fs @ gs, s)))"

lemma wake_at:
  assumes a: "tx_at s (c # cs)"
  shows "\<exists>fs s'. tcp_wake env s = Inr (fs, s') \<and> ble_connection_status s' = ble_connection_status s \<and>
    (fs = [] \<and> tx_at s' (c # cs) \<and> tx_index_blk s' = tx_index_blk s \<or>
     (\<exists>a. fs = [a # stamp (tx_index_blk s) (fst c) # snd c]) \<and> tx_at s' cs \<and> tx_index_blk s' = (tx_index_blk s + 1) AND 0x3F)"
proof (cases "TNotifyWait (b_notify (t_ble s))")
  case None
  then show ?thesis
    using a by (simp add: tcp_wake_def BLE_TCP_Task_body_def)
next
  case (Some rh)
  obtain res h where rh: "rh = (res, h)" by (cases rh)
  let ?s = "s\<lparr>t_ble := (t_ble s)\<lparr>b_notify := h\<rparr>\<rparr>"
  let ?go = "res AND (8 OR 2 OR 16 OR 64) \<noteq> 0 \<and> ble_tx_busy s = 0"
  have a': "tx_at ?s (c # cs)"
    using a by (simp add: tx_at_def tx_held_def)
  obtain s1 where s1: "tcp_fetch ?s = Inr (length (snd c) + 2, s1)" "length (snd_blk s1) = MAX_CHUNK_LEN + 2" "tx_held s1 c"
    "tx_src (t_ble s1) cs" "tx_index_blk s1 = tx_index_blk s" "ble_connection_status s1 = ble_connection_status s"
    using fetch_at [OF a'] by auto
  obtain r s2 where r: "tcp_try env (length (snd c) + 2) s1 = (r, s2)" by fastforce
  have t: "r = None \<and> tx_at s2 (c # cs) \<and> tx_index_blk s2 = tx_index_blk s \<or>
     (\<exists>a. r = Some (a # stamp (tx_index_blk s) (fst c) # snd c)) \<and> tx_at s2 cs \<and> tx_index_blk s2 = (tx_index_blk s + 1) AND 0x3F"
    "ble_connection_status s2 = ble_connection_status s"
    using try_at [OF s1(2,3,4) r] s1(5,6) by auto
  show ?thesis
  proof (cases ?go)
    case True
    then have "tcp_wake env s = Inr (case r of None \<Rightarrow> [] | Some fr \<Rightarrow> [fr], s2)"
      using Some rh s1(1) r by (simp add: tcp_wake_def BLE_TCP_Task_body_def)
    then show ?thesis using t by auto
  next
    case False
    then have "BLE_TCP_Task_body env s = Inr (Some (None, ?s))"
      using Some rh by (simp add: BLE_TCP_Task_body_def del: de_Morgan_conj)
    then have "tcp_wake env s = Inr ([], ?s)"
      by (simp add: tcp_wake_def)
    then show ?thesis using a' by auto
  qed
qed

lemma other_at:
  assumes a: "tx_at s cs" and e: "\<forall>env. e \<noteq> Wake env"
  shows "\<exists>s'. tcp_ev_step e s = Inr ([], s') \<and> tx_at s' cs \<and> tx_index_blk s' = tx_index_blk s"
proof -
  have u: "tx_at (s\<lparr>ble_tx_busy := k\<rparr>) cs" "tx_at (s\<lparr>ack_notify_request := j, tcp_armed := m\<rparr>) cs" for k j m
    using a by (auto simp: tx_at_def tx_held_def)
  have v: "tx_at (x\<lparr>rx_nack_blk := k\<rparr>) cs = tx_at x cs" for k x
    by (simp add: tx_at_def tx_held_def)
  show ?thesis
  proof (cases e)
    case (Wake env)
    then show ?thesis using e by simp
  next
    case (Write_complete st)
    then show ?thesis using u by (simp add: char_wr_cbk_def ble_tx_complete_def)
  next
    case (Ack b)
    then show ?thesis
      using a by (simp add: new_dg_from_bt_def process_gatt_data_def Let_def v)
  next
    case Timer
    then show ?thesis using u by (simp add: tcp_tmr_def)
  next
    case Out_queue
    then show ?thesis using a by (simp add: notify_ble_out_queue_def)
  qed
qed

lemma run_at:
  "tx_at s cs \<Longrightarrow> tcp_run es s = Inr (fs, s') \<Longrightarrow>
   map tl (take (length cs) fs) = take (length fs) (stamp_chunks (tx_index_blk s) cs)"
proof (induction es arbitrary: s cs fs)
  case Nil
  then show ?case by simp
next
  case (Cons e es)
  show ?case
  proof (cases "cs = []")
    case True
    then show ?thesis by simp
  next
    case False
    then obtain c ds where cs: "cs = c # ds" by (cases cs) auto
    obtain fs1 s1 gs where 1: "tcp_ev_step e s = Inr (fs1, s1)" "tcp_run es s1 = Inr (gs, s')" "fs = fs1 @ gs"
      using Cons.prems(2) by (auto simp: res_simps)
    have "fs1 = [] \<and> tx_at s1 cs \<and> tx_index_blk s1 = tx_index_blk s \<or>
     (\<exists>a. fs1 = [a # stamp (tx_index_blk s) (fst c) # snd c]) \<and> tx_at s1 ds \<and> tx_index_blk s1 = (tx_index_blk s + 1) AND 0x3F"
    proof (cases "\<forall>env. e \<noteq> Wake env")
      case True
      then show ?thesis using other_at [OF Cons.prems(1) True] 1(1) by auto
    next
      case False
      then obtain env where "e = Wake env" by auto
      then show ?thesis using wake_at [of s c ds env] Cons.prems(1) 1(1) cs by auto
    qed
    then show ?thesis
    proof (elim disjE conjE exE)
      assume "fs1 = []" "tx_at s1 cs" "tx_index_blk s1 = tx_index_blk s"
      then show ?thesis using Cons.IH [of s1 cs gs] 1 by simp
    next
      fix a
      assume h: "fs1 = [a # stamp (tx_index_blk s) (fst c) # snd c]" "tx_at s1 ds" "tx_index_blk s1 = (tx_index_blk s + 1) AND 0x3F"
      then have "map tl (take (length ds) gs) = take (length gs) (stamp_chunks (tx_index_blk s + 1) ds)"
        using Cons.IH [OF h(2) 1(2)] by (simp add: stamp_chunks_mask)
      then show ?thesis using h(1) 1(3) cs by (cases c) simp
    qed
  qed
qed

lemma tx_at_start:
  assumes "length (snd_blk s) = MAX_CHUNK_LEN + 2" "snd_blk_len s = 0" "tx_ready (tx_norm (t_ble s)) p m" "m \<noteq> []"
    "tx_ptr (tx_norm (t_ble s)) = 0" "eth_pbuf_free_request p (b_em (t_ble s)) = Inr e"
  shows "tx_at s (frag True m)"
  unfolding tx_at_def tx_src_def using assms by (intro conjI disjI1 disjI2) auto

lemma notify_bit: "(v OR 8) AND (8 OR 2 OR 16 OR 64) \<noteq> (0 :: u32)"
proof -
  have "(v OR 8) AND 90 = (v AND 90) OR (8 :: u32)"
    by (simp add: bit.conj_disj_distrib2)
  then show ?thesis by (simp add: or_eq_0_iff)
qed

lemma wake_sends:
  assumes a: "tx_at s (c # cs)" and st: "ble_connection_status s = 2" "ble_tx_busy s = 0"
    and n: "b_notify (t_ble s) = TNotifyAdd 8 v" and ok: "\<forall>d. bt_send env d = 1"
  shows "\<exists>f s'. tcp_run [Wake env] s = Inr ([f], s') \<and> tx_at s' cs \<and> ble_connection_status s' = 2"
proof -
  obtain h where h: "TNotifyWait (b_notify (t_ble s)) = Some (nh_val v OR 8, h)"
    unfolding n by (auto simp: TNotifyWait_def TNotifyAdd_def)
  let ?t = "s\<lparr>t_ble := (t_ble s)\<lparr>b_notify := h\<rparr>\<rparr>"
  have a0: "tx_at ?t (c # cs)"
    using a by (auto simp: tx_at_def tx_held_def)
  have b0: "ble_tx_busy ?t = 0" "ble_connection_status ?t = 2" using st by simp_all
  obtain s1 where s1: "tcp_fetch ?t = Inr (length (snd c) + 2, s1)" "length (snd_blk s1) = MAX_CHUNK_LEN + 2" "tx_held s1 c"
    "tx_src (t_ble s1) cs" "ble_tx_busy s1 = 0" "ble_connection_status s1 = 2"
    using fetch_at [OF a0] b0 by auto
  obtain r s2 where r: "tcp_try env (length (snd c) + 2) s1 = (r, s2)" by fastforce
  have t: "r \<noteq> None" "r \<noteq> None \<Longrightarrow> tx_at s2 cs" "ble_connection_status s2 = 2"
    using try_at [OF s1(2,3,4) r] s1(5,6) ok by auto
  then obtain f where f: "r = Some f" by auto
  have "BLE_TCP_Task_body env s = Inr (Some (r, s2))"
    unfolding BLE_TCP_Task_body_def h using s1(1) r b0 notify_bit by simp
  then have "tcp_run [Wake env] s = Inr ([f], s2)"
    using f by (simp add: tcp_wake_def)
  then show ?thesis using t f by auto
qed

lemma round_at:
  assumes a: "tx_at s (c # cs)" and st: "ble_connection_status s = 2" and ok: "\<forall>d. bt_send env d = 1"
  shows "\<exists>f s'. tcp_run [Write_complete 0, Wake env] s = Inr ([f], s') \<and> tx_at s' cs \<and> ble_connection_status s' = 2"
proof -
  let ?s = "char_wr_cbk 0 s"
  have "tx_at ?s (c # cs)"
    using a by (auto simp: tx_at_def tx_held_def char_wr_cbk_def ble_tx_complete_def)
  moreover have "ble_connection_status ?s = 2" "ble_tx_busy ?s = 0" "b_notify (t_ble ?s) = TNotifyAdd 8 (b_notify (t_ble s))"
    using st by (simp_all add: char_wr_cbk_def ble_tx_complete_def)
  ultimately obtain f s' where "tcp_run [Wake env] ?s = Inr ([f], s')" "tx_at s' cs" "ble_connection_status s' = 2"
    using wake_sends ok by blast
  then show ?thesis by simp
qed

lemma tcp_run_append:
  "tcp_run es s = Inr (fs, s1) \<Longrightarrow> tcp_run ds s1 = Inr (gs, s2) \<Longrightarrow> tcp_run (es @ ds) s = Inr (fs @ gs, s2)"
proof (induction es arbitrary: s fs)
  case Nil
  then show ?case by simp
next
  case (Cons e es)
  obtain f t g where "tcp_ev_step e s = Inr (f, t)" "tcp_run es t = Inr (g, s1)" "fs = f @ g"
    using Cons.prems(1) by (auto simp: res_simps)
  then show ?case using Cons.IH [of t g] Cons.prems(2) by simp
qed

definition tcp_rounds :: "nat \<Rightarrow> jni \<Rightarrow> tcp_ev list" where
  "tcp_rounds n env = concat (replicate n [Write_complete 0, Wake env])"

lemma rounds_at:
  "tx_at s cs \<Longrightarrow> ble_connection_status s = 2 \<Longrightarrow> \<forall>d. bt_send env d = 1 \<Longrightarrow>
   \<exists>fs s'. tcp_run (tcp_rounds (length cs) env) s = Inr (fs, s') \<and> length fs = length cs"
proof (induction cs arbitrary: s)
  case Nil
  then show ?case by (simp add: tcp_rounds_def)
next
  case (Cons c cs)
  obtain f s1 where 1: "tcp_run [Write_complete 0, Wake env] s = Inr ([f], s1)" "tx_at s1 cs" "ble_connection_status s1 = 2"
    using round_at [OF Cons.prems] by blast
  obtain fs s2 where 2: "tcp_run (tcp_rounds (length cs) env) s1 = Inr (fs, s2)" "length fs = length cs"
    using Cons.IH [OF 1(2,3) Cons.prems(3)] by blast
  have e: "tcp_rounds (length (c # cs)) env = [Write_complete 0, Wake env] @ tcp_rounds (length cs) env"
    by (simp add: tcp_rounds_def)
  show ?case
    unfolding e using tcp_run_append [OF 1(1) 2(1)] 2(2) by simp
qed

section \<open>The receiving side\<close>

fun gatt_all :: "u8 list list \<Rightarrow> tcp \<Rightarrow> em_error + tcp" where
  "gatt_all [] s = Inr s"
| "gatt_all (d # ds) s = bindR (new_dg_from_bt (Some d) s) (gatt_all ds)"

definition with_notify :: "NHandle \<Rightarrow> ble \<Rightarrow> ble" where
  "with_notify h b = b\<lparr>b_notify := h\<rparr>"

lemma with_notify_sel [simp]:
  "b_em (with_notify h b) = b_em b" "rx_pbuf (with_notify h b) = rx_pbuf b" "rx_ptr (with_notify h b) = rx_ptr b"
  "rx_prev_seq (with_notify h b) = rx_prev_seq b" "rx_seq_err (with_notify h b) = rx_seq_err b"
  "eth_rst_req_rx (with_notify h b) = eth_rst_req_rx b"
  by (simp_all add: with_notify_def)

fun map_res :: "('a \<Rightarrow> 'b) \<Rightarrow> 'e + 'a \<Rightarrow> 'e + 'b" where
  "map_res f (Inl e) = Inl e"
| "map_res f (Inr x) = Inr (f x)"

lemma map_res_bind: "bindR (map_res f m) g = bindR m (\<lambda>x. g (f x))"
  by (cases m) simp_all

lemma asm_reset_notify: "asm_reset (with_notify h b) = map_res (with_notify h) (asm_reset b)"
  unfolding asm_reset_def Let_def ble_lift_def
  by (cases "rx_pbuf b"; cases "eth_pbuf_free_request (the (rx_pbuf b)) (b_em b)") (simp_all add: with_notify_def)

lemma asm_first_notify:
  "asm_first t q (with_notify h b) = map_res (map_prod id (with_notify h)) (asm_first t q b)"
  unfolding asm_first_def Let_def
  by (cases "rx_pbuf b"; cases "eth_pbuf_alloc None (b_em b)") (auto simp: with_notify_def upd_stats_def)

lemma asm_drop_notify: "asm_drop p (with_notify h b) = map_res (with_notify h) (asm_drop p b)"
  unfolding asm_drop_def ble_lift_def
  by (cases "eth_pbuf_free_request p (b_em b)") (simp_all add: with_notify_def)

lemma asm_finish_notify: "asm_finish p (with_notify h b) = map_res (with_notify h) (asm_finish p b)"
proof -
  let ?s = "upd_pb p (\<lambda>x. x\<lparr>pb_len := rx_ptr b, pb_tot_len := rx_ptr b, pb_if_idx := of_nat BLE_NETIF_ID\<rparr>) (b_em b)"
  show ?thesis
    unfolding asm_finish_def Let_def ble_lift_def
    by (cases "14 \<le> rx_ptr b"; cases "eth_add_packet_to_router_queue p ?s"; cases "eth_pbuf_free_request p ?s")
      (simp_all add: with_notify_def upd_stats_def)
qed

lemma with_notify_push:
  "(with_notify h b)\<lparr>rx_prev_seq := k\<rparr> = with_notify h (b\<lparr>rx_prev_seq := k\<rparr>)"
  "(with_notify h b)\<lparr>b_em := e\<rparr> = with_notify h (b\<lparr>b_em := e\<rparr>)"
  "(with_notify h b)\<lparr>rx_ptr := n\<rparr> = with_notify h (b\<lparr>rx_ptr := n\<rparr>)"
  "upd_stats f (with_notify h b) = with_notify h (upd_stats f b)"
  by (simp_all add: with_notify_def upd_stats_def)

lemma asm_body_notify: "asm_body t q c (with_notify h b) = map_res (with_notify h) (asm_body t q c b)"
  by (cases "rx_pbuf b")
    (simp_all add: asm_body_def Let_def with_notify_push asm_drop_notify asm_finish_notify)

lemma process_notify:
  "process_dgram_asm d (with_notify h b) = map_res (map_prod id (with_notify h)) (process_dgram_asm d b)"
proof -
  let ?f = "\<lambda>t :: BLE_ETH_STATS. t\<lparr>st_rx_chunks := st_rx_chunks t + 1\<rparr>"
  have w: "upd_stats f (with_notify h x) = with_notify h (upd_stats f x)" for f x
    by (simp add: with_notify_def upd_stats_def)
  show ?thesis
    unfolding process_dgram_asm_def Let_def w
    apply (cases "length d < 2")
     apply simp
    apply (cases "asm_reset (upd_stats ?f b)")
     apply (simp add: asm_reset_notify)
    subgoal for b1
      apply (cases "asm_first (d ! 0 AND 0xC0) (d ! 0 AND 0x3F) b1")
       apply (simp add: asm_reset_notify asm_first_notify)
      subgoal for r
        apply (cases r)
        subgoal for stop b2
          by (cases "asm_body (d ! 0 AND 0xC0) (d ! 0 AND 0x3F) (List.tl d) b2")
            (simp_all add: asm_reset_notify asm_first_notify asm_body_notify)
        done
      done
    done
qed

lemma asm_all_notify: "asm_all ds (with_notify h b) = map_res (with_notify h) (asm_all ds b)"
proof (induction ds arbitrary: b)
  case Nil
  then show ?case by simp
next
  case (Cons d ds)
  then show ?case
    by (cases "process_dgram_asm d b") (auto simp: process_notify)
qed

text \<open>The frames of the sender reach \<open>process_dgram_asm\<close> without their first byte.\<close>

lemma gatt_one:
  assumes d: "1 < length d" "length d < 65536"
  shows "\<exists>h t. new_dg_from_bt (Some d) s = bindR (process_dgram_asm (tl d) (with_notify h (t_ble s))) (\<lambda>(r, b). Inr (t\<lparr>t_ble := b\<rparr>))"
proof -
  let ?t = "tcp_notify 16 (upd_tstats (\<lambda>t. t\<lparr>ts_rx_bytes := ts_rx_bytes t + of_nat (length d)\<rparr>)
     (upd_tstats (\<lambda>t. t\<lparr>ts_rx_raw := ts_rx_raw t + 1\<rparr>) s)\<lparr>rx_nack_blk := d ! 0 AND 0x3F\<rparr>)"
  have "t_ble ?t = with_notify (TNotifyAdd 16 (b_notify (t_ble s))) (t_ble s)"
    by (simp add: with_notify_def)
  moreover have "new_dg_from_bt (Some d) s = bindR (process_dgram_asm (tl d) (t_ble ?t)) (\<lambda>(r, b). Inr (?t\<lparr>t_ble := b\<rparr>))"
    using d by (cases d) (simp_all add: new_dg_from_bt_def process_gatt_data_def Let_def)
  ultimately show ?thesis by auto
qed

lemma gatt_all_asm:
  "\<forall>d \<in> set ds. 1 < length d \<and> length d < 65536 \<Longrightarrow> asm_all (map tl ds) (t_ble s) = Inr b \<Longrightarrow>
   \<exists>s' h. gatt_all ds s = Inr s' \<and> t_ble s' = with_notify h b"
proof (induction ds arbitrary: s b)
  case Nil
  then have "t_ble s = with_notify (b_notify (t_ble s)) b" by (simp add: with_notify_def)
  then show ?case by auto
next
  case (Cons d ds)
  obtain r b1 where 1: "process_dgram_asm (tl d) (t_ble s) = Inr (r, b1)" "asm_all (map tl ds) b1 = Inr b"
    using Cons.prems(2) by (auto simp: res_simps)
  obtain h t where t: "new_dg_from_bt (Some d) s = bindR (process_dgram_asm (tl d) (with_notify h (t_ble s))) (\<lambda>(r, b). Inr (t\<lparr>t_ble := b\<rparr>))"
    using gatt_one [of d s] Cons.prems(1) by auto
  have n: "new_dg_from_bt (Some d) s = Inr (t\<lparr>t_ble := with_notify h b1\<rparr>)"
    unfolding t by (simp add: process_notify 1)
  have "asm_all (map tl ds) (t_ble (t\<lparr>t_ble := with_notify h b1\<rparr>)) = Inr (with_notify h b)"
    by (simp add: asm_all_notify 1)
  then obtain s' h' where "gatt_all ds (t\<lparr>t_ble := with_notify h b1\<rparr>) = Inr s'" "t_ble s' = with_notify h' (with_notify h b)"
    using Cons.IH Cons.prems(1) by (metis list.set_intros(2))
  then show ?case
    unfolding gatt_all.simps n by (auto simp: with_notify_def)
qed

section \<open>What the sender puts on the link\<close>

text \<open>
  C4: Order and retry. From the moment a datagram \<open>m\<close> is the one to send, over any sequence of
  rounds of \<open>BLE_TCP_Task\<close>, completions, acknowledgements, timer expirations and queue callbacks,
  with any writes refused by the Java side or by a missing connection, the frames the link accepted
  are, after their acknowledgement byte, exactly the chunks of \<open>m\<close> in order with consecutive
  numbers: none is lost, repeated, reordered or mixed with an acknowledgement-only frame.
\<close>

theorem tcp_in_order:
  assumes "length (snd_blk s) = MAX_CHUNK_LEN + 2" "snd_blk_len s = 0"
    and "tx_ready (tx_norm (t_ble s)) p m" "tx_ptr (tx_norm (t_ble s)) = 0" "m \<noteq> []"
    and "eth_pbuf_free_request p (b_em (t_ble s)) = Inr e"
    and "tcp_run es s = Inr (fs, s')"
  shows "map tl (take (length (frag True m)) fs) = take (length fs) (stamp_chunks (tx_index_blk s) (frag True m))"
  using run_at [OF tx_at_start assms(7)] assms by blast

text \<open>A sender and a receiver with the contents of their pools as after the start.\<close>

definition jni_ok :: jni where
  "jni_ok = \<lparr>jn_new_array = (\<lambda>_. True), jn_send_method = Some (\<lambda>_. 1)\<rparr>"

definition jni_busy :: jni where
  "jni_busy = \<lparr>jn_new_array = (\<lambda>_. True), jn_send_method = Some (\<lambda>_. 0)\<rparr>"

definition tcp_with :: "ble \<Rightarrow> tcp" where
  "tcp_with b = (ble_tcp_init b)\<lparr>ble_connection_status := 2\<rparr>"

lemma tcp_with_simps [simp]:
  "t_ble (tcp_with b) = b\<lparr>b_notify := TNotifyAdd 1 TNotifyCreate\<rparr>" "ble_connection_status (tcp_with b) = 2"
  "snd_blk_len (tcp_with b) = 0" "snd_blk (tcp_with b) = replicate 169 0" "tx_index_blk (tcp_with b) = 0"
  by (simp_all add: tcp_with_def ble_tcp_init_def tcp_notify_def)

lemma tcp_with_ready: "tx_ready b p m \<Longrightarrow> tx_ready (tx_norm (t_ble (tcp_with b))) p m"
  by (simp add: tx_ready_def tx_norm_def)

definition demo_datagram :: "u8 list" where
  "demo_datagram = replicate 400 7"

lemma demo_frags: "length (frag True demo_datagram) = 3"
  unfolding demo_datagram_def by (simp add: frag_more frag_last)

lemma demo_sender:
  "\<exists>b e. tx_ready b 0 demo_datagram \<and> tx_ptr b = 0 \<and> eth_pbuf_free_request 0 (b_em b) = Inr e"
proof -
  let ?m = "replicate 400 (7 :: u8)"
  obtain s where s: "em_reach s (sp_alloc 0 sp_init)" using first_alloc by blast
  let ?s = "upd_pb 0 (driver_fill ?m 0 400 400 1) s"
  let ?tb = "(ble0 ?s)\<lparr>current_tx_block := Some 0\<rparr>"
  have e: "0 < sp_ext (sp_alloc 0 sp_init) 0" by (simp only: sp_first_alloc)
  have rs: "em_rep ?s (sp_alloc 0 sp_init)" using reach_rep [OF s] by (rule rep_fill)
  obtain s' where fr: "eth_pbuf_free_request 0 (b_em ?tb) = Inr s'"
    using rep_free_request [OF rs e] by (auto simp: ble0_def)
  have "tx_ready ?tb 0 ?m"
    by (simp add: tx_ready_def ble0_def upd_pb_def driver_fill_def ld_bytes_def)
  then show ?thesis
    using fr by (intro exI [of _ ?tb] exI [of _ s']) (simp add: demo_datagram_def ble0_def)
qed

lemma jni_ok_sends: "\<forall>d. bt_send jni_ok d = 1"
  by (simp add: bt_send_def jni_ok_def)

theorem tcp_in_order_witness:
  "\<exists>s fs s'. tcp_run (tcp_rounds 3 jni_ok) s = Inr (fs, s') \<and> length fs = 3 \<and>
     map tl fs = stamp_chunks 0 (frag True demo_datagram)"
proof -
  obtain b e where b: "tx_ready b 0 demo_datagram" "tx_ptr b = 0" "eth_pbuf_free_request 0 (b_em b) = Inr e"
    using demo_sender by blast
  let ?s = "tcp_with b"
  have h: "length (snd_blk ?s) = MAX_CHUNK_LEN + 2" "snd_blk_len ?s = 0" "tx_ready (tx_norm (t_ble ?s)) 0 demo_datagram"
      "tx_ptr (tx_norm (t_ble ?s)) = 0" "demo_datagram \<noteq> []" "eth_pbuf_free_request 0 (b_em (t_ble ?s)) = Inr e"
    using tcp_with_ready [OF b(1)] b(1-3) by (simp_all add: tx_norm_def demo_datagram_def)
  obtain fs s' where r: "tcp_run (tcp_rounds 3 jni_ok) ?s = Inr (fs, s')" "length fs = 3"
    using rounds_at [OF tx_at_start [OF h(1-3,5,4,6)] tcp_with_simps(2) jni_ok_sends] demo_frags by metis
  have l: "length (stamp_chunks i cs) = length cs" for i cs
    by (induction i cs rule: stamp_chunks.induct) auto
  have "map tl (take 3 fs) = take 3 (stamp_chunks 0 (frag True demo_datagram))"
    using tcp_in_order [OF h r(1)] r(2) demo_frags by simp
  then show ?thesis
    using r l [of 0 "frag True demo_datagram"] demo_frags by (intro exI [of _ ?s] exI [of _ fs] exI [of _ s']) simp
qed

lemma length_stamp_chunks: "length (stamp_chunks i cs) = length cs"
  by (induct i cs rule: stamp_chunks.induct) auto

lemma wake_rounds:
  assumes a: "tx_at s cs" "cs \<noteq> []" and st: "ble_connection_status s = 2" "ble_tx_busy s = 0"
    and n: "b_notify (t_ble s) = TNotifyAdd 8 v" and ok: "\<forall>d. bt_send env d = 1"
  shows "\<exists>fs s'. tcp_run (Wake env # tcp_rounds (length cs - 1) env) s = Inr (fs, s') \<and>
    map tl fs = stamp_chunks (tx_index_blk s) cs"
proof -
  obtain c ds where cs: "cs = c # ds" using a(2) by (cases cs) auto
  obtain f s1 where 1: "tcp_run [Wake env] s = Inr ([f], s1)" "tx_at s1 ds" "ble_connection_status s1 = 2"
    using wake_sends [OF _ st n ok] a(1) cs by blast
  obtain fs s2 where 2: "tcp_run (tcp_rounds (length ds) env) s1 = Inr (fs, s2)" "length fs = length ds"
    using rounds_at [OF 1(2,3) ok] by blast
  have r: "tcp_run (Wake env # tcp_rounds (length cs - 1) env) s = Inr (f # fs, s2)"
    using tcp_run_append [OF 1(1) 2(1)] cs by simp
  show ?thesis
    using run_at [OF a(1) r] r 2(2) cs length_stamp_chunks [of "tx_index_blk s" cs] by (intro exI [of _ "f # fs"]) simp
qed

text \<open>
  C9: A new connection starts over. When the connection comes up while a datagram is being cut,
  however many of its chunks had gone out, whatever frame was waiting to be retried and whether or
  not a write was in flight, the frames that follow carry the whole datagram from its first chunk,
  numbered from 0: over any events the frames the link accepts are these chunks in order; and when the
  Java side accepts writes, the very next round of \<open>BLE_TCP_Task\<close>, without waiting for the completion
  of the lost write, sends the first chunk, and one completion and round for each further chunk send
  the rest.
\<close>

theorem reset_restarts:
  assumes "length (snd_blk s) = MAX_CHUNK_LEN + 2" and "current_tx_block (t_ble s) = Some p" and "\<not> cbk_pending (t_ble s)"
    and "m = ld_bytes (pb_mem (pbufs (b_em (t_ble s)) p)) (pb_off (pbufs (b_em (t_ble s)) p)) (unat (pb_len (pbufs (b_em (t_ble s)) p)))"
    and "length m = unat (pb_len (pbufs (b_em (t_ble s)) p))" "m \<noteq> []"
    and "eth_pbuf_free_request p (b_em (t_ble s)) = Inr e"
  shows "(\<forall>es fs s'. tcp_run es (eth_ble_stack_control 2 s) = Inr (fs, s') \<longrightarrow>
      map tl (take (length (frag True m)) fs) = take (length fs) (stamp_chunks 0 (frag True m))) \<and>
    (\<forall>env. (\<forall>d. bt_send env d = 1) \<longrightarrow>
      (\<exists>fs s'. tcp_run (Wake env # tcp_rounds (length (frag True m) - 1) env) (eth_ble_stack_control 2 s) = Inr (fs, s') \<and>
        map tl fs = stamp_chunks 0 (frag True m)))"
proof -
  let ?s = "eth_ble_stack_control 2 s"
  have s: "length (snd_blk ?s) = MAX_CHUNK_LEN + 2" "snd_blk_len ?s = 0" "tx_index_blk ?s = 0"
    "tx_norm (t_ble ?s) = (t_ble s)\<lparr>eth_rst_req_rx := 1, tx_rst := 0, tx_ptr := 0,
       b_notify := TNotifyAdd 8 (b_notify (t_ble s))\<rparr>" "b_em (t_ble ?s) = b_em (t_ble s)"
    using assms(1) by (simp_all add: eth_ble_stack_control_def gatt_conn_reset_def Let_def tx_norm_def gatt_eth_reset_def)
  have w: "ble_connection_status ?s = 2" "ble_tx_busy ?s = 0" "b_notify (t_ble ?s) = TNotifyAdd 8 (b_notify (t_ble s))"
    by (simp_all add: eth_ble_stack_control_def gatt_conn_reset_def Let_def gatt_eth_reset_def)
  have "tx_ready (tx_norm (t_ble ?s)) p m"
    unfolding s(4) using assms(2-5) by (simp add: tx_ready_def)
  moreover have "tx_ptr (tx_norm (t_ble ?s)) = 0" unfolding s(4) by simp
  moreover have "eth_pbuf_free_request p (b_em (t_ble ?s)) = Inr e" unfolding s(5) by (rule assms(7))
  ultimately have a: "tx_at ?s (frag True m)"
    using tx_at_start [OF s(1,2)] assms(6) by blast
  have "frag True m \<noteq> []" by (subst frag.simps) (simp add: Let_def)
  then show ?thesis
    using run_at [OF a] wake_rounds [OF a _ w] unfolding s(3) by blast
qed

theorem reset_restarts_witness:
  "\<exists>s s2 fs s'. s2 = eth_ble_stack_control 2 s \<and> tx_ptr (t_ble s) = 167 \<and> ble_tx_busy s = 1 \<and>
     tcp_run (Wake jni_ok # tcp_rounds 2 jni_ok) s2 = Inr (fs, s') \<and> map tl fs = stamp_chunks 0 (frag True demo_datagram)"
proof -
  obtain b e where b: "tx_ready b 0 demo_datagram" "tx_ptr b = 0" "eth_pbuf_free_request 0 (b_em b) = Inr e"
    using demo_sender by blast
  let ?s = "(tcp_with (b\<lparr>tx_ptr := 167\<rparr>))\<lparr>ble_tx_busy := 1\<rparr>"
  let ?x = "pbufs (b_em (t_ble ?s)) 0"
  have m: "demo_datagram = ld_bytes (pb_mem ?x) (pb_off ?x) (unat (pb_len ?x))" "length demo_datagram = unat (pb_len ?x)"
    using b(1,2) by (auto simp: tx_ready_def)
  have h: "length (snd_blk ?s) = MAX_CHUNK_LEN + 2" "current_tx_block (t_ble ?s) = Some 0" "\<not> cbk_pending (t_ble ?s)"
    "demo_datagram \<noteq> []" "eth_pbuf_free_request 0 (b_em (t_ble ?s)) = Inr e"
    using b by (simp_all add: tx_ready_def demo_datagram_def)
  obtain fs s' where "tcp_run (Wake jni_ok # tcp_rounds (length (frag True demo_datagram) - 1) jni_ok) (eth_ble_stack_control 2 ?s) = Inr (fs, s')"
    "map tl fs = stamp_chunks 0 (frag True demo_datagram)"
    using conjunct2 [OF reset_restarts [OF h(1-3) m h(4,5)]] jni_ok_sends by blast
  then show ?thesis
    unfolding demo_frags by (intro exI [of _ ?s] exI [of _ "eth_ble_stack_control 2 ?s"] exI [of _ fs] exI [of _ s']) simp
qed

section \<open>End to end\<close>

lemma frag_len: "\<forall>c \<in> set (frag f bs). length (snd c) \<le> MAX_CHUNK_LEN \<and> (bs \<noteq> [] \<longrightarrow> snd c \<noteq> [])"
proof (induction "length bs" arbitrary: f bs rule: less_induct)
  case less
  show ?case
  proof (cases "MAX_CHUNK_LEN < length bs")
    case True
    then have "\<forall>c \<in> set (frag False (drop MAX_CHUNK_LEN bs)). length (snd c) \<le> MAX_CHUNK_LEN \<and> snd c \<noteq> []"
      using less.hyps [of "drop MAX_CHUNK_LEN bs" False] by auto
    then show ?thesis using True by (auto simp: frag_more)
  next
    case False
    then show ?thesis by (simp add: frag_last)
  qed
qed

lemma stamp_chunks_sizes:
  "d \<in> set (stamp_chunks i cs) \<Longrightarrow> \<exists>c \<in> set cs. length d = length (snd c) + 1"
  by (induct i cs rule: stamp_chunks.induct) auto

lemma receiver_gets:
  assumes i: "ble_inv rb a" and idle: "rx_pbuf rb = None" "eth_rst_req_rx rb = 0" and f: "sp_free a = p # fl"
    and l: "14 \<le> length m" "length m \<le> ETH_MEM_BUF_SIZE"
  shows "\<exists>rb'. asm_all (stamp_chunks k (frag True m)) rb = Inr rb' \<and> rx_pbuf rb' = None \<and>
    em_rep (b_em rb') (sp_submit (length m) p (sp_alloc p a)) \<and> take (length m) (pb_mem (pbufs (b_em rb') p)) = m \<and>
    pb_off (pbufs (b_em rb') p) = 0 \<and> pb_if_idx (pbufs (b_em rb') p) = of_nat BLE_NETIF_ID \<and>
    unat (pb_len (pbufs (b_em rb') p)) = length m \<and> unat (pb_tot_len (pbufs (b_em rb') p)) = length m"
proof -
  obtain s0 where s0: "eth_pbuf_alloc None (b_em rb) = Inr (Some p, s0)" "em_rep s0 (sp_alloc p a)"
      "pbufs s0 = (pbufs (b_em rb))(p := alloc_init (alloc_idx None (b_em rb)) (pbufs (b_em rb) p))"
    using rep_alloc [of "b_em rb" a p fl None] i f by (auto simp: ble_inv_def)
  have off: "pb_off (pbufs s0 p) = 0" using s0(3) by (simp add: alloc_init_def)
  have "asm_idle rb p s0"
    using idle s0(1,3) i off by (simp add: asm_idle_def ble_inv_def alloc_init_def)
  then obtain b' m' where d: "asm_all (stamp_chunks k (frag True m)) rb =
      bindR (eth_add_packet_to_router_queue p (rx_submit p m' (length m) s0)) (\<lambda>s. Inr (b'\<lparr>b_em := s\<rparr>))"
      "rx_pbuf b' = None" "take (length m) m' = m"
    using asm_whole [of rb p s0 m k] l unfolding asm_done_def by blast
  let ?s = "rx_submit p m' (length m) s0"
  have "unat (pb_src_if (pbufs s0 p)) < ETH_NETIFS"
    using s0(2) by (auto simp: em_rep_def rep_refs_def)
  then have r: "em_rep ?s (sp_alloc p a)"
    unfolding rx_submit_def using s0(2) by (intro rep_upd_pb_frame) auto
  have e: "0 < sp_ext (sp_alloc p a) p" by (simp add: sp_alloc_def)
  have n: "unat (pb_len (pbufs ?s p)) = length m"
    using l by (simp add: rx_submit_def upd_pb_def unat_of_nat)
  obtain s2 where s2: "eth_add_packet_to_router_queue p ?s = Inr s2" "em_rep s2 (sp_submit (length m) p (sp_alloc p a))"
    using router_queue_refines [OF r e] unfolding n by (auto simp: rx_submit_def upd_pb_def)
  have k: "pb_mem (pbufs s2 p) = m'" "pb_off (pbufs s2 p) = 0" "pb_if_idx (pbufs s2 p) = 3"
    "unat (pb_len (pbufs s2 p)) = length m" "unat (pb_tot_len (pbufs s2 p)) = length m"
    using router_queue_keeps [OF s2(1)] off l by (simp_all add: keep_all_def rx_submit_def upd_pb_def unat_of_nat)
  show ?thesis
    unfolding d(1) s2(1) using d(2,3) s2(2) k by (intro exI [of _ "b'\<lparr>b_em := s2\<rparr>"]) simp
qed

text \<open>
  C1: A datagram crosses the radio link from task to task. While the connection is up and the Java
  side accepts writes, one completion and one round of \<open>BLE_TCP_Task\<close> per chunk put the whole
  datagram on the link, and the peer's entry point \<open>new_dg_from_bt\<close>, fed with these frames, ends
  with the datagram in a buffer submitted to its router: the length of the buffer and of the packet is
  the datagram's, and the bytes from its start are the datagram's bytes, whatever the peer's own
  acknowledgement state. The peer only needs a free buffer and to be between datagrams.
\<close>

theorem link_delivers:
  assumes "length (snd_blk s) = MAX_CHUNK_LEN + 2" "snd_blk_len s = 0" "ble_connection_status s = 2"
    and "tx_ready (tx_norm (t_ble s)) p m" "tx_ptr (tx_norm (t_ble s)) = 0"
    and "eth_pbuf_free_request p (b_em (t_ble s)) = Inr e" and "\<forall>d. bt_send env d = 1"
    and "ble_inv (t_ble rs) a" "rx_pbuf (t_ble rs) = None" "eth_rst_req_rx (t_ble rs) = 0" "sp_free a = q # fl"
    and "14 \<le> length m" "length m \<le> ETH_MEM_BUF_SIZE"
  shows "\<exists>fs s' rs'. tcp_run (tcp_rounds (length (frag True m)) env) s = Inr (fs, s') \<and> gatt_all fs rs = Inr rs' \<and>
    rx_pbuf (t_ble rs') = None \<and> em_rep (b_em (t_ble rs')) (sp_submit (length m) q (sp_alloc q a)) \<and>
    take (length m) (pb_mem (pbufs (b_em (t_ble rs')) q)) = m \<and> pb_off (pbufs (b_em (t_ble rs')) q) = 0 \<and>
    unat (pb_len (pbufs (b_em (t_ble rs')) q)) = length m \<and> unat (pb_tot_len (pbufs (b_em (t_ble rs')) q)) = length m \<and>
    pb_if_idx (pbufs (b_em (t_ble rs')) q) = of_nat BLE_NETIF_ID"
proof -
  have ne: "m \<noteq> []" using assms(12) by auto
  have a: "tx_at s (frag True m)" using tx_at_start [OF assms(1,2,4) ne assms(5,6)] .
  obtain fs s' where f: "tcp_run (tcp_rounds (length (frag True m)) env) s = Inr (fs, s')" "length fs = length (frag True m)"
    using rounds_at [OF a assms(3,7)] by blast
  have t: "map tl fs = stamp_chunks (tx_index_blk s) (frag True m)"
    using run_at [OF a f(1)] f(2) by (simp add: length_stamp_chunks)
  have sz: "1 < length d \<and> length d < 65536" if "d \<in> set fs" for d
  proof -
    have "tl d \<in> set (stamp_chunks (tx_index_blk s) (frag True m))"
      using that t by (metis image_eqI list.set_map)
    then obtain c where c: "c \<in> set (frag True m)" "length (tl d) = length (snd c) + 1"
      using stamp_chunks_sizes by blast
    then show ?thesis using frag_len [of True m] by fastforce
  qed
  obtain rb' where r: "asm_all (map tl fs) (t_ble rs) = Inr rb'" "rx_pbuf rb' = None"
    "em_rep (b_em rb') (sp_submit (length m) q (sp_alloc q a))" "take (length m) (pb_mem (pbufs (b_em rb') q)) = m"
    "pb_off (pbufs (b_em rb') q) = 0" "pb_if_idx (pbufs (b_em rb') q) = of_nat BLE_NETIF_ID"
    "unat (pb_len (pbufs (b_em rb') q)) = length m" "unat (pb_tot_len (pbufs (b_em rb') q)) = length m"
    using receiver_gets [OF assms(8-13)] t by auto
  obtain rs' h where "gatt_all fs rs = Inr rs'" "t_ble rs' = with_notify h rb'"
    using gatt_all_asm [OF _ r(1)] sz by blast
  then show ?thesis using f(1) r by auto
qed

theorem link_delivers_witness:
  "\<exists>s fs s' rs'. tcp_run (tcp_rounds (length (frag True demo_datagram)) jni_ok) s = Inr (fs, s') \<and>
     gatt_all fs (tcp_with (ble0 eth_router_init)) = Inr rs' \<and>
     take (length demo_datagram) (pb_mem (pbufs (b_em (t_ble rs')) 0)) = demo_datagram \<and>
     unat (pb_len (pbufs (b_em (t_ble rs')) 0)) = length demo_datagram"
proof -
  obtain b e where b: "tx_ready b 0 demo_datagram" "tx_ptr b = 0" "eth_pbuf_free_request 0 (b_em b) = Inr e"
    using demo_sender by blast
  let ?s = "tcp_with b" and ?r = "tcp_with (ble0 eth_router_init)"
  have h: "length (snd_blk ?s) = MAX_CHUNK_LEN + 2" "snd_blk_len ?s = 0" "ble_connection_status ?s = 2"
      "tx_ready (tx_norm (t_ble ?s)) 0 demo_datagram" "tx_ptr (tx_norm (t_ble ?s)) = 0" "eth_pbuf_free_request 0 (b_em (t_ble ?s)) = Inr e"
    using tcp_with_ready [OF b(1)] b(1-3) by (simp_all add: tx_norm_def)
  have r: "ble_inv (t_ble ?r) sp_init" "rx_pbuf (t_ble ?r) = None" "eth_rst_req_rx (t_ble ?r) = 0"
    using ble_inv_init by (simp_all add: ble_inv_def ble0_def)
  have l: "14 \<le> length demo_datagram" "length demo_datagram \<le> ETH_MEM_BUF_SIZE"
    by (simp_all add: demo_datagram_def)
  show ?thesis
    using link_delivers [OF h jni_ok_sends r sp_init_free l] by blast
qed

end
