(* ===== verification/EthRouterIfLwip.thy ===== *)
theory EthRouterIfLwip
  imports EthRouter
begin

text \<open>
  \<open>lwip/eth_router_if_lwip.c\<close>: the bridge interface of the IP stack. \<open>lwip_output_to_bridge\<close> copies
  a packet of the stack into a bridge buffer and submits it to the router; the queue task hands the
  packets of the interface's output queue to the stack.
\<close>

section \<open>State and operations\<close>

text \<open>The stack's error codes are integers here: 0 is \<open>ERR_OK\<close>.\<close>

abbreviation (input) "err_ok \<equiv> 0 :: int"

record lwif =
  lw_em :: em
  lw_hwaddr :: "u8 list"
  block_to_send :: "nat option"
  TTskHandle :: NHandle
  in_too_big :: u32
  in_alloc_errs :: u32

text \<open>
  A packet of the stack is its total length and the contents of its chain of buffers. The copy loop
  returns whether all of it fitted.
\<close>

primrec lwip_copy :: "nat \<Rightarrow> u8 list list \<Rightarrow> nat \<Rightarrow> em \<Rightarrow> bool \<times> nat \<times> em" where
  "lwip_copy p [] ptr s = (True, ptr, s)"
| "lwip_copy p (f # fs) ptr s =
     (if length f + ptr \<le> ETH_MEM_BUF_SIZE
      then lwip_copy p fs (ptr + length f) (upd_pb p (\<lambda>x. x\<lparr>pb_mem := st_bytes (pb_mem x) (pb_off x + ptr) f\<rparr>) s)
      else (False, ptr, s))"

definition lwip_output_to_bridge :: "u16 \<Rightarrow> u8 list list \<Rightarrow> lwif \<Rightarrow> em_error + int \<times> lwif" where
  "lwip_output_to_bridge tot_len frags w =
     (if ETH_MEM_BUF_SIZE < unat tot_len then Inr (err_ok, w\<lparr>in_too_big := in_too_big w + 1\<rparr>)
      else
        bindR (eth_pbuf_alloc None (lw_em w)) (\<lambda>(block, s).
          case block of
            None \<Rightarrow> Inr (err_ok, w\<lparr>lw_em := s, in_alloc_errs := in_alloc_errs w + 1\<rparr>)
          | Some p \<Rightarrow>
              let (ok, ptr, s) = lwip_copy p frags 0 s
              in if \<not> ok
                 then bindR (eth_pbuf_free_request p s) (\<lambda>s.
                        Inr (err_ok, w\<lparr>lw_em := s, in_too_big := in_too_big w + 1\<rparr>))
                 else
                   let s = upd_pb p (\<lambda>x. x\<lparr>pb_len := of_nat ptr, pb_tot_len := of_nat ptr, pb_if_idx := of_nat LWIP_NETIF_ID\<rparr>) s;
                       s = upd_pb p (\<lambda>x. x\<lparr>pb_mem := st_bytes (pb_mem x) (pb_off x + 6) (take 6 (lw_hwaddr w))\<rparr>) s
                   in bindR (eth_add_packet_to_router_queue p s) (\<lambda>s. Inr (err_ok, w\<lparr>lw_em := s\<rparr>))))"

text \<open>
  The stack's entry point \<open>netif->input\<close> is a parameter: what it returns for a buffer and what it
  does to the pools. A buffer with reference count zero makes the task spin.
\<close>

type_synonym input_fn = "nat \<Rightarrow> em \<Rightarrow> em_error + int \<times> em"

definition lwip_give :: "input_fn option \<Rightarrow> nat \<Rightarrow> lwif \<Rightarrow> em_error + lwif" where
  "lwip_give input p w =
     bindR (case input of None \<Rightarrow> Inr (1, lw_em w) | Some f \<Rightarrow> f p (lw_em w)) (\<lambda>(err, s).
     bindR (if err \<noteq> err_ok then eth_pbuf_free_request p s else Inr s) (\<lambda>s.
     bindR (eth_get_packet LWIP_NETIF_ID s) (\<lambda>(tb, s).
       Inr (w\<lparr>lw_em := s, block_to_send := tb\<rparr>))))"

fun lwip_drain :: "nat \<Rightarrow> input_fn option \<Rightarrow> lwif \<Rightarrow> em_error + lwif" where
  "lwip_drain 0 input w = Inl OUT_OF_FUEL"
| "lwip_drain (Suc n) input w =
     (case block_to_send w of
        None \<Rightarrow> Inl NULL_DEREF
      | Some p \<Rightarrow>
          if pb_ref (pbufs (lw_em w) p) = 0 then Inl OUT_OF_FUEL
          else bindR (lwip_give input p w) (\<lambda>w. if block_to_send w = None then Inr w else lwip_drain n input w))"

definition to_lwip_QueueTask_body ::
  "nat \<Rightarrow> (em \<Rightarrow> em_error + em) \<Rightarrow> input_fn option \<Rightarrow> u32 \<Rightarrow> lwif \<Rightarrow> em_error + lwif" where
  "to_lwip_QueueTask_body n sys_check_timeouts input res w =
     bindR (if res AND 2 \<noteq> 0 then bindR (sys_check_timeouts (lw_em w)) (\<lambda>s. Inr (w\<lparr>lw_em := s\<rparr>)) else Inr w)
       (\<lambda>w. if res AND 1 \<noteq> 0 then lwip_drain n input w else Inr w)"

definition lwip_callback_from_bridge :: "nat \<Rightarrow> lwif \<Rightarrow> lwif" where
  "lwip_callback_from_bridge block w = w\<lparr>block_to_send := Some block, TTskHandle := TNotifyAdd 1 (TTskHandle w)\<rparr>"

definition to_lwip_TmrTask_body :: "lwif \<Rightarrow> lwif" where
  "to_lwip_TmrTask_body w = w\<lparr>TTskHandle := TNotifyAdd 2 (TTskHandle w)\<rparr>"

text \<open>
  \<open>eth_lwip_if_init\<close>: the hardware address is random but for its first two bytes; packets that
  were queued before the start are taken and dropped from sight.
\<close>

fun lwip_flush :: "nat \<Rightarrow> em \<Rightarrow> em_error + em" where
  "lwip_flush 0 s = Inl OUT_OF_FUEL"
| "lwip_flush (Suc n) s =
     bindR (eth_get_packet LWIP_NETIF_ID s) (\<lambda>(tb, s). if tb = None then Inr s else lwip_flush n s)"

definition eth_lwip_if_init :: "nat \<Rightarrow> u8 list \<Rightarrow> lwif \<Rightarrow> em_error + lwif" where
  "eth_lwip_if_init n rnd w =
     (let w = w\<lparr>lw_hwaddr := [0x00, 0x80] @ drop 2 (take 6 rnd)\<rparr>;
          s = upd_nif LWIP_NETIF_ID (\<lambda>i. i\<lparr>nif_callback_fn := Some Lwip_callback_from_bridge\<rparr>) (lw_em w);
          w = w\<lparr>TTskHandle := TNotifyCreate\<rparr>
      in bindR (lwip_flush n s) (\<lambda>s.
           Inr (w\<lparr>lw_em := upd_nif LWIP_NETIF_ID (\<lambda>i. i\<lparr>q_output_len_max := LWIP_NETIF_QLEN, if_up := 1\<rparr>) s\<rparr>)))"

section \<open>From the stack to the bridge\<close>

definition mem_ok :: "em \<Rightarrow> bool" where
  "mem_ok s \<longleftrightarrow> (\<forall>q. length (pb_mem (pbufs s q)) = ETH_MEM_BUF_SIZE)"

lemma mem_ok_keep: "mem_ok s \<Longrightarrow> keep_all s s' \<Longrightarrow> mem_ok s'"
  by (simp add: mem_ok_def keep_all_def)

lemma rep_upd_mem: "em_rep s a \<Longrightarrow> em_rep (upd_pb p (\<lambda>x. x\<lparr>pb_mem := f x\<rparr>) s) a"
  by (rule rep_upd_pb_frame) (auto simp: em_rep_def rep_refs_def)

lemma lwip_copy_ok:
  "em_rep s a \<Longrightarrow> mem_ok s \<Longrightarrow> pb_off (pbufs s p) = 0 \<Longrightarrow> ptr + length (concat fs) \<le> ETH_MEM_BUF_SIZE \<Longrightarrow>
   \<exists>s'. lwip_copy p fs ptr s = (True, ptr + length (concat fs), s') \<and> em_rep s' a \<and> mem_ok s' \<and> pb_off (pbufs s' p) = 0 \<and>
     take (ptr + length (concat fs)) (pb_mem (pbufs s' p)) = take ptr (pb_mem (pbufs s p)) @ concat fs"
proof (induction fs arbitrary: ptr s)
  case Nil
  then show ?case by simp
next
  case (Cons f fs)
  let ?m = "st_bytes (pb_mem (pbufs s p)) ptr f"
  let ?s = "upd_pb p (\<lambda>x. x\<lparr>pb_mem := st_bytes (pb_mem x) (pb_off x + ptr) f\<rparr>) s"
  have l: "ptr + length f \<le> ETH_MEM_BUF_SIZE" "length (pb_mem (pbufs s p)) = ETH_MEM_BUF_SIZE"
    using Cons.prems by (simp_all add: mem_ok_def)
  have m: "pb_mem (pbufs ?s p) = ?m" "pb_off (pbufs ?s p) = 0"
    using Cons.prems(3) by (simp_all add: upd_pb_def)
  have ok: "mem_ok ?s"
    using Cons.prems(2,3) l by (auto simp: mem_ok_def upd_pb_def)
  have "em_rep ?s a" using Cons.prems(1) by (rule rep_upd_mem)
  then obtain s' where s': "lwip_copy p fs (ptr + length f) ?s = (True, ptr + length f + length (concat fs), s')" "em_rep s' a"
      "mem_ok s'" "pb_off (pbufs s' p) = 0"
      "take (ptr + length f + length (concat fs)) (pb_mem (pbufs s' p)) = take (ptr + length f) ?m @ concat fs"
    using Cons.IH [of ?s "ptr + length f"] ok m Cons.prems(4) by auto
  moreover have "take (ptr + length f) ?m = take ptr (pb_mem (pbufs s p)) @ f"
    using l by (intro take_st_bytes_end) simp
  ultimately show ?case using l(1) by (simp add: add.assoc add.commute [of "length f" ptr])
qed

lemma lwip_copy_any:
  "em_rep s a \<Longrightarrow> mem_ok s \<Longrightarrow> pb_off (pbufs s p) = 0 \<Longrightarrow> ptr \<le> ETH_MEM_BUF_SIZE \<Longrightarrow>
   \<exists>n s'. lwip_copy p fs ptr s = (ptr + length (concat fs) \<le> ETH_MEM_BUF_SIZE, n, s') \<and> em_rep s' a \<and> mem_ok s' \<and> pb_off (pbufs s' p) = 0 \<and> n \<le> ETH_MEM_BUF_SIZE"
proof (induction fs arbitrary: ptr s)
  case Nil
  then show ?case by simp
next
  case (Cons f fs)
  let ?s = "upd_pb p (\<lambda>x. x\<lparr>pb_mem := st_bytes (pb_mem x) (pb_off x + ptr) f\<rparr>) s"
  show ?case
  proof (cases "length f + ptr \<le> ETH_MEM_BUF_SIZE")
    case True
    have ok: "mem_ok ?s" "pb_off (pbufs ?s p) = 0"
      using Cons.prems True by (auto simp: mem_ok_def upd_pb_def)
    have "em_rep ?s a" using Cons.prems(1) by (rule rep_upd_mem)
    then show ?thesis
      using Cons.IH [of ?s "ptr + length f"] ok True by (auto simp: add.assoc add.commute [of "length f" ptr])
  next
    case False
    then show ?thesis using Cons.prems by auto
  qed
qed

definition lwip_frame :: "u8 list \<Rightarrow> u8 list \<Rightarrow> u8 list" where
  "lwip_frame hw m = take 6 m @ take 6 hw @ drop 12 m"

lemma stamp_source:
  assumes "length hw = 6" "12 \<le> n" "n \<le> length m"
  shows "take n (st_bytes m 6 hw) = lwip_frame hw (take n m)"
  using assms by (simp add: st_bytes_def lwip_frame_def drop_take)

lemma lwip_output_facts:
  assumes r: "em_rep (lw_em w) a" "mem_ok (lw_em w)" and f: "sp_free a = p # fl" and hw: "length (lw_hwaddr w) = 6"
    and l: "unat tot_len \<le> ETH_MEM_BUF_SIZE" "12 \<le> length (concat frags)" "length (concat frags) \<le> ETH_MEM_BUF_SIZE"
  shows "\<exists>w'. lwip_output_to_bridge tot_len frags w = Inr (0, w') \<and>
    em_rep (lw_em w') (sp_submit (length (concat frags)) p (sp_alloc p a)) \<and> mem_ok (lw_em w') \<and>
    take (length (concat frags)) (pb_mem (pbufs (lw_em w') p)) = lwip_frame (lw_hwaddr w) (concat frags) \<and>
    pb_off (pbufs (lw_em w') p) = 0 \<and> unat (pb_len (pbufs (lw_em w') p)) = length (concat frags) \<and>
    unat (pb_tot_len (pbufs (lw_em w') p)) = length (concat frags) \<and>
    pb_if_idx (pbufs (lw_em w') p) = of_nat LWIP_NETIF_ID"
proof -
  let ?n = "length (concat frags)"
  obtain s0 where s0: "eth_pbuf_alloc None (lw_em w) = Inr (Some p, s0)" "em_rep s0 (sp_alloc p a)"
      "pbufs s0 = (pbufs (lw_em w))(p := alloc_init (alloc_idx None (lw_em w)) (pbufs (lw_em w) p))"
    using rep_alloc [of "lw_em w" a p fl None] r(1) f by auto
  have m0: "mem_ok s0" "pb_off (pbufs s0 p) = 0"
    using s0(3) r(2) by (simp_all add: mem_ok_def alloc_init_def)
  obtain s1 where s1: "lwip_copy p frags 0 s0 = (True, ?n, s1)" "em_rep s1 (sp_alloc p a)" "mem_ok s1" "pb_off (pbufs s1 p) = 0"
      "take ?n (pb_mem (pbufs s1 p)) = concat frags"
    using lwip_copy_ok [OF s0(2) m0, of 0 frags] l by auto
  define s2 where "s2 = upd_pb p (\<lambda>x. x\<lparr>pb_len := of_nat ?n, pb_tot_len := of_nat ?n, pb_if_idx := of_nat LWIP_NETIF_ID\<rparr>) s1"
  define s3 where "s3 = upd_pb p (\<lambda>x. x\<lparr>pb_mem := st_bytes (pb_mem x) (pb_off x + 6) (take 6 (lw_hwaddr w))\<rparr>) s2"
  have "em_rep s2 (sp_alloc p a)"
    unfolding s2_def using s1(2) by (intro rep_upd_pb_frame) (auto simp: em_rep_def rep_refs_def)
  then have r3: "em_rep s3 (sp_alloc p a)" unfolding s3_def by (rule rep_upd_mem)
  have lm: "length (pb_mem (pbufs s1 p)) = ETH_MEM_BUF_SIZE" using s1(3) by (simp add: mem_ok_def)
  have x3: "pb_mem (pbufs s3 p) = st_bytes (pb_mem (pbufs s1 p)) 6 (lw_hwaddr w)" "pb_if_idx (pbufs s3 p) = 1"
    "pb_len (pbufs s3 p) = of_nat ?n" "pb_tot_len (pbufs s3 p) = of_nat ?n" "pb_off (pbufs s3 p) = 0"
    using s1(4) hw by (simp_all add: s3_def s2_def upd_pb_def)
  have m3: "mem_ok s3"
    using s1(3,4) hw by (simp add: mem_ok_def s3_def s2_def upd_pb_def)
  have e: "0 < sp_ext (sp_alloc p a) p" by (simp add: sp_alloc_def)
  have u16: "unat (of_nat ?n :: u16) = ?n" using l(3) by (simp only: unat_of_nat) simp
  have u: "unat (pb_len (pbufs s3 p)) = ?n" "unat (pb_tot_len (pbufs s3 p)) = ?n"
    unfolding x3(3,4) by (rule u16)+
  have i: "unat (pb_if_idx (pbufs s3 p)) < ETH_NETIFS" unfolding x3(2) by simp
  obtain s4 where s4: "eth_add_packet_to_router_queue p s3 = Inr s4" "em_rep s4 (sp_submit ?n p (sp_alloc p a))"
    using router_queue_refines [OF r3 e i] unfolding u(1) by blast
  have run: "lwip_output_to_bridge tot_len frags w = Inr (0, w\<lparr>lw_em := s4\<rparr>)"
    using l(1) s0(1) s1(1) s4(1) [unfolded s3_def s2_def] by (simp add: lwip_output_to_bridge_def Let_def)
  have k: "keep_all s3 s4" using s4(1) by (rule router_queue_keeps)
  have "take ?n (pb_mem (pbufs s4 p)) = lwip_frame (lw_hwaddr w) (concat frags)"
    using k x3(1) stamp_source [of "lw_hwaddr w" ?n "pb_mem (pbufs s1 p)"] hw l lm s1(5) by (simp add: keep_all_def)
  then show ?thesis
    using run s4(2) mem_ok_keep [OF m3 k] k x3(2,5) u by (intro exI [of _ "w\<lparr>lw_em := s4\<rparr>"]) (simp add: keep_all_def)
qed

text \<open>
  C12: A packet of the IP stack reaches the bridge. With a free buffer and a hardware address of six
  bytes, a packet whose total length and chain of fragments fit the buffer is submitted to the router:
  the buffer and the packet have the length of all the fragments, the bytes are the concatenation of
  the fragments with the source address of the interface, and the packet is marked as coming from the
  stack's interface.
\<close>

theorem lwip_output_delivers:
  assumes r: "em_rep (lw_em w) a" "mem_ok (lw_em w)" and f: "sp_free a = p # fl" and hw: "length (lw_hwaddr w) = 6"
    and l: "unat tot_len \<le> ETH_MEM_BUF_SIZE" "12 \<le> length (concat frags)" "length (concat frags) \<le> ETH_MEM_BUF_SIZE"
  shows "\<exists>w'. lwip_output_to_bridge tot_len frags w = Inr (0, w') \<and>
    em_rep (lw_em w') (sp_submit (length (concat frags)) p (sp_alloc p a)) \<and> mem_ok (lw_em w') \<and>
    take (length (concat frags)) (pb_mem (pbufs (lw_em w') p)) = lwip_frame (lw_hwaddr w) (concat frags) \<and>
    pb_off (pbufs (lw_em w') p) = 0 \<and> unat (pb_len (pbufs (lw_em w') p)) = length (concat frags) \<and>
    unat (pb_tot_len (pbufs (lw_em w') p)) = length (concat frags) \<and>
    pb_if_idx (pbufs (lw_em w') p) = of_nat LWIP_NETIF_ID"
  using assms by (rule lwip_output_facts)

definition lwif0 :: lwif where
  "lwif0 = \<lparr>lw_em = eth_router_init, lw_hwaddr = [0, 0x80, 1, 2, 3, 4], block_to_send = None, TTskHandle = TNotifyCreate,
     in_too_big = 0, in_alloc_errs = 0\<rparr>"

lemma mem_ok_init: "mem_ok eth_router_init"
  by (simp add: mem_ok_def eth_router_init_def eth_router_add_bridge_def init_pbuf_def zero_em_def zero_pbuf_def)

theorem lwip_output_delivers_witness:
  "\<exists>w'. lwip_output_to_bridge 60 [replicate 42 5, replicate 18 9] lwif0 = Inr (0, w') \<and>
     take 60 (pb_mem (pbufs (lw_em w') 0)) = replicate 6 5 @ [0, 0x80, 1, 2, 3, 4] @ replicate 30 5 @ replicate 18 9 \<and>
     unat (pb_len (pbufs (lw_em w') 0)) = 60 \<and> unat (pb_tot_len (pbufs (lw_em w') 0)) = 60"
proof -
  let ?f = "[replicate 42 5, replicate 18 9] :: u8 list list"
  have h: "em_rep (lw_em lwif0) sp_init" "mem_ok (lw_em lwif0)" "length (lw_hwaddr lwif0) = 6"
    "unat (60 :: u16) \<le> ETH_MEM_BUF_SIZE" "12 \<le> length (concat ?f)" "length (concat ?f) \<le> ETH_MEM_BUF_SIZE"
    using init_rep mem_ok_init by (simp_all add: lwif0_def)
  have "length (concat ?f) = 60" "lwip_frame (lw_hwaddr lwif0) (concat ?f) = replicate 6 5 @ [0, 0x80, 1, 2, 3, 4] @ replicate 30 5 @ replicate 18 9"
    by (simp_all add: lwip_frame_def lwif0_def numeral_eq_Suc)
  then show ?thesis
    using lwip_output_delivers [OF h(1,2) sp_init_free h(3-6)] by metis
qed

text \<open>The error paths: a packet too large or a chain longer than its total length says is dropped and its buffer returned.\<close>

lemma lwip_output_too_big:
  assumes r: "em_rep (lw_em w) a" "mem_ok (lw_em w)" and f: "sp_free a = p # fl"
    and l: "ETH_MEM_BUF_SIZE < unat tot_len \<or> ETH_MEM_BUF_SIZE < length (concat frags)"
  shows "\<exists>w' a'. lwip_output_to_bridge tot_len frags w = Inr (0, w') \<and> em_rep (lw_em w') a' \<and> mem_ok (lw_em w') \<and>
    in_too_big w' = in_too_big w + 1 \<and> (a' = a \<or> a' = sp_release p (sp_alloc p a))"
proof (cases "ETH_MEM_BUF_SIZE < unat tot_len")
  case True
  then show ?thesis using r by (auto simp: lwip_output_to_bridge_def)
next
  case False
  obtain s0 where s0: "eth_pbuf_alloc None (lw_em w) = Inr (Some p, s0)" "em_rep s0 (sp_alloc p a)"
      "pbufs s0 = (pbufs (lw_em w))(p := alloc_init (alloc_idx None (lw_em w)) (pbufs (lw_em w) p))"
    using rep_alloc [of "lw_em w" a p fl None] r(1) f by auto
  have m0: "mem_ok s0" "pb_off (pbufs s0 p) = 0"
    using s0(3) r(2) by (simp_all add: mem_ok_def alloc_init_def)
  obtain n s1 where s1: "lwip_copy p frags 0 s0 = (False, n, s1)" "em_rep s1 (sp_alloc p a)" "mem_ok s1"
    using lwip_copy_any [OF s0(2) m0, of 0 frags] l False by auto
  have "0 < sp_ext (sp_alloc p a) p" by (simp add: sp_alloc_def)
  then obtain s2 where s2: "eth_pbuf_free_request p s1 = Inr s2" "em_rep s2 (sp_release p (sp_alloc p a))"
    using rep_free_request [OF s1(2)] by blast
  then show ?thesis
    using False s0(1) s1(1) mem_ok_keep [OF s1(3) keep_all_free [OF s2(1)]] by (auto simp: lwip_output_to_bridge_def Let_def)
qed

section \<open>From the bridge to the stack\<close>

text \<open>
  What the task relies on: the stack accepts any held buffer, keeps the pools consistent and leaves the
  interface's output queue alone, and if it reports an error the buffer is still the caller's.
\<close>

definition input_contract :: "input_fn \<Rightarrow> bool" where
  "input_contract f \<longleftrightarrow> (\<forall>p s a. em_rep s a \<and> 0 < sp_ext a p \<longrightarrow>
     (\<exists>err s' a'. f p s = Inr (err, s') \<and> em_rep s' a' \<and> sp_outq a' LWIP_NETIF_ID = sp_outq a LWIP_NETIF_ID \<and>
        (err \<noteq> 0 \<longrightarrow> 0 < sp_ext a' p)))"

lemma held_ref: "em_rep s a \<Longrightarrow> 0 < sp_ext a p \<Longrightarrow> pb_ref (pbufs s p) \<noteq> 0"
proof -
  assume r: "em_rep s a" and e: "0 < sp_ext a p"
  have "0 < sp_refs a p"
    using e by (simp add: sp_refs_def)
  then have "unat (pb_ref (pbufs s p)) \<noteq> 0"
    using rep_held_not_free [OF r] rep_ref_val [OF r] by fastforce
  then show ?thesis by auto
qed

lemma lwip_give_rep:
  assumes r: "em_rep (lw_em w) a" and e: "0 < sp_ext a p" and f: "input_contract f"
  shows "\<exists>w' a'. lwip_give (Some f) p w = Inr w' \<and> em_rep (lw_em w') a' \<and>
    (case sp_outq a LWIP_NETIF_ID of
       [] \<Rightarrow> block_to_send w' = None \<and> sp_outq a' LWIP_NETIF_ID = []
     | c # cs \<Rightarrow> (\<exists>q. block_to_send w' = Some q \<and> 0 < sp_ext a' q) \<and> sp_outq a' LWIP_NETIF_ID = cs)"
proof -
  obtain err s1 a1 where 1: "f p (lw_em w) = Inr (err, s1)" "em_rep s1 a1" "sp_outq a1 LWIP_NETIF_ID = sp_outq a LWIP_NETIF_ID"
      "err \<noteq> 0 \<longrightarrow> 0 < sp_ext a1 p"
    using f r e unfolding input_contract_def by blast
  obtain s2 a2 where 2: "(if err \<noteq> err_ok then eth_pbuf_free_request p s1 else Inr s1) = Inr s2" "em_rep s2 a2"
      "sp_outq a2 LWIP_NETIF_ID = sp_outq a LWIP_NETIF_ID"
  proof (cases "err = 0")
    case True
    then show ?thesis using that [of s1 a1] 1 by simp
  next
    case False
    obtain s' where "eth_pbuf_free_request p s1 = Inr s'" "em_rep s' (sp_release p a1)"
      using rep_free_request [OF 1(2)] 1(4) False by blast
    then show ?thesis using that [of s' "sp_release p a1"] 1(3) False by (simp add: sp_release_def)
  qed
  have k: "LWIP_NETIF_ID < ETH_NETIFS" by simp
  obtain po s3 where 3: "eth_get_packet LWIP_NETIF_ID s2 = Inr (po, s3)"
      "case po of Some p \<Rightarrow> sp_outq a2 LWIP_NETIF_ID \<noteq> [] \<and> p = sp_pbuf a2 (hd (sp_outq a2 LWIP_NETIF_ID)) \<and>
           em_rep s3 (sp_get_packet LWIP_NETIF_ID a2)
       | None \<Rightarrow> sp_outq a2 LWIP_NETIF_ID = [] \<and> em_rep s3 a2"
    using get_cases [OF 2(2) k] by blast
  have run: "lwip_give (Some f) p w = Inr (w\<lparr>lw_em := s3, block_to_send := po\<rparr>)"
    using 1(1) 2(1) 3(1) by (simp add: lwip_give_def)
  show ?thesis
  proof (cases po)
    case None
    then show ?thesis
      using run 3(2) 2(3) by (intro exI [of _ "w\<lparr>lw_em := s3, block_to_send := po\<rparr>"] exI [of _ a2]) simp
  next
    case (Some q)
    then show ?thesis
      using run 3(2) 2(3)
      by (intro exI [of _ "w\<lparr>lw_em := s3, block_to_send := po\<rparr>"] exI [of _ "sp_get_packet LWIP_NETIF_ID a2"])
        (cases "sp_outq a LWIP_NETIF_ID", auto simp: sp_get_packet_def Let_def)
  qed
qed

lemma lwip_drain_rep:
  "em_rep (lw_em w) a \<Longrightarrow> block_to_send w = Some p \<Longrightarrow> 0 < sp_ext a p \<Longrightarrow> input_contract f \<Longrightarrow>
   length (sp_outq a LWIP_NETIF_ID) < n \<Longrightarrow>
   \<exists>w' a'. lwip_drain n (Some f) w = Inr w' \<and> em_rep (lw_em w') a' \<and> block_to_send w' = None \<and> sp_outq a' LWIP_NETIF_ID = []"
proof (induction n arbitrary: w a p)
  case 0
  then show ?case by simp
next
  case (Suc n)
  obtain w1 a1 where 1: "lwip_give (Some f) p w = Inr w1" "em_rep (lw_em w1) a1"
      "case sp_outq a LWIP_NETIF_ID of
         [] \<Rightarrow> block_to_send w1 = None \<and> sp_outq a1 LWIP_NETIF_ID = []
       | c # cs \<Rightarrow> (\<exists>q. block_to_send w1 = Some q \<and> 0 < sp_ext a1 q) \<and> sp_outq a1 LWIP_NETIF_ID = cs"
    using lwip_give_rep [OF Suc.prems(1,3,4)] by blast
  note start = held_ref [OF Suc.prems(1,3)] Suc.prems(2) 1(1)
  show ?case
  proof (cases "sp_outq a LWIP_NETIF_ID")
    case Nil
    then show ?thesis using 1 start by auto
  next
    case (Cons c cs)
    then obtain q where q: "block_to_send w1 = Some q" "0 < sp_ext a1 q" "sp_outq a1 LWIP_NETIF_ID = cs"
      using 1(3) by auto
    then show ?thesis
      using Suc.IH [OF 1(2) q(1,2) Suc.prems(4)] Suc.prems(5) Cons start by auto
  qed
qed

lemma outq_length:
  assumes "em_rep s a" "k < ETH_NETIFS"
  shows "length (sp_outq a k) \<le> ETH_MEM_BUFS_CNT"
proof (rule distinct_bound)
  show "distinct (sp_outq a k)"
    using cell_lists_distinct(3) [OF rep_cellsD [OF assms(1)] assms(2)] .
  show "set (sp_outq a k) \<subseteq> {..<ETH_MEM_BUFS_CNT}"
    using cell_place(3) [OF rep_cellsD [OF assms(1)]] in_out_cells [OF assms(2), of _ "sp_outq a"] by (metis lessThan_iff subsetI)
qed

text \<open>
  The stack's task takes everything. Woken for a buffer it holds, with a stack that meets the
  interface's contract, the task returns (its loop turns at most once per cell of the pool and once
  for the buffer in hand), the interface's output queue is empty, and no buffer is in its hands; the
  buffers the stack refused have been released.
\<close>

lemma lwip_task_drains:
  assumes "em_rep (lw_em w) a" and "block_to_send w = Some p" and "0 < sp_ext a p" and "input_contract f"
  shows "\<exists>w' a'. to_lwip_QueueTask_body (Suc ETH_MEM_BUFS_CNT) Inr (Some f) 1 w = Inr w' \<and> em_rep (lw_em w') a' \<and>
    block_to_send w' = None \<and> sp_outq a' LWIP_NETIF_ID = []"
proof -
  have l: "length (sp_outq a LWIP_NETIF_ID) < Suc ETH_MEM_BUFS_CNT"
    using outq_length [OF assms(1), of LWIP_NETIF_ID] by simp
  have "to_lwip_QueueTask_body n Inr (Some f) 1 w = lwip_drain n (Some f) w" for n
    by (simp add: to_lwip_QueueTask_body_def)
  then show ?thesis
    using lwip_drain_rep [OF assms l] by simp
qed

definition demo_input :: input_fn where
  "demo_input p s = bindR (eth_pbuf_free_request p s) (\<lambda>s. Inr (0, s))"

lemma demo_input_contract: "input_contract demo_input"
  unfolding input_contract_def
proof (intro allI impI)
  fix p s a
  assume h: "em_rep s a \<and> 0 < sp_ext a p"
  then obtain s' where "eth_pbuf_free_request p s = Inr s'" "em_rep s' (sp_release p a)"
    using rep_free_request by blast
  then show "\<exists>err s' a'. demo_input p s = Inr (err, s') \<and> em_rep s' a' \<and>
      sp_outq a' LWIP_NETIF_ID = sp_outq a LWIP_NETIF_ID \<and> (err \<noteq> 0 \<longrightarrow> 0 < sp_ext a' p)"
    by (intro exI [of _ 0] exI [of _ s'] exI [of _ "sp_release p a"]) (simp add: demo_input_def sp_release_def)
qed

lemma lwip_task_drains_witness:
  "\<exists>w w'. block_to_send w = Some 0 \<and> to_lwip_QueueTask_body (Suc ETH_MEM_BUFS_CNT) Inr (Some demo_input) 1 w = Inr w' \<and>
     block_to_send w' = None"
proof -
  obtain s where s: "em_reach s (sp_alloc 0 sp_init)" using first_alloc by blast
  let ?w = "lwif0\<lparr>lw_em := s, block_to_send := Some 0\<rparr>"
  have h: "em_rep (lw_em ?w) (sp_alloc 0 sp_init)" "block_to_send ?w = Some 0" using reach_rep [OF s] by simp_all
  have e: "0 < sp_ext (sp_alloc 0 sp_init) 0" by (simp only: sp_first_alloc)
  show ?thesis
    using lwip_task_drains [OF h e demo_input_contract] h(2) by blast
qed

end
