(* ===== verification/NetRaw.thy ===== *)
theory NetRaw
  imports EthRouterIfLwip
begin

text \<open>
  \<open>lwip/net_raw.c\<close>: the device's own Ethernet frames (types 0x8777 to 0x8779). A frame is the
  structure \<open>eth_raw_frame\<close> in memory: addresses, type, a 16-bit sum, the payload length and the
  payload. \<open>ethernet_send_raw\<close> completes and sends it, \<open>dg_check\<close> checks a received one.
\<close>

section \<open>Frames\<close>

abbreviation (input) "ETHTYPE_ADP \<equiv> 0x8777 :: u16"
abbreviation (input) "ETHTYPE_DBG \<equiv> 0x8778 :: u16"
abbreviation (input) "ETHTYPE_CONTROLS \<equiv> 0x8779 :: u16"
abbreviation (input) "RAW_HDR \<equiv> 18 :: nat"
abbreviation (input) "RAW_PAYLOAD \<equiv> 1482 :: nat"

record eth_raw_frame =
  dst_mac :: "u8 list"
  src_mac :: "u8 list"
  ethtype :: "u8 list"
  raw_csum :: u16
  raw_len :: u16
  payload :: "u8 list"

text \<open>The structure as bytes in memory, and a pointer to bytes read as the structure.\<close>

definition frame_bytes :: "eth_raw_frame \<Rightarrow> u8 list" where
  "frame_bytes f = dst_mac f @ src_mac f @ ethtype f @ bytes16 (raw_csum f) @ bytes16 (raw_len f) @ payload f"

definition frame_at :: "u8 list \<Rightarrow> eth_raw_frame" where
  "frame_at bs = \<lparr>dst_mac = take 6 bs, src_mac = take 6 (drop 6 bs), ethtype = take 2 (drop 12 bs),
     raw_csum = ld16 bs 14, raw_len = ld16 bs 16, payload = drop 18 bs\<rparr>"

definition wf_frame :: "eth_raw_frame \<Rightarrow> bool" where
  "wf_frame f \<longleftrightarrow> length (dst_mac f) = 6 \<and> length (src_mac f) = 6 \<and> length (ethtype f) = 2 \<and> length (payload f) = RAW_PAYLOAD"

text \<open>The loop over 16-bit words of the payload, then the odd byte. The sum wraps at 16 bits.\<close>

function raw_loop :: "u8 list \<Rightarrow> nat \<Rightarrow> nat \<Rightarrow> u16 \<Rightarrow> u16" where
  "raw_loop pl n i cs = (if i + 1 < n then raw_loop pl n (i + 2) (cs + ld16 pl i) else cs)"
  by pat_completeness auto
termination
  by (relation "measure (\<lambda>(pl, n, i, cs). n - i)") auto

declare raw_loop.simps [simp del]

definition raw_sum :: "u8 list \<Rightarrow> u16 \<Rightarrow> u16" where
  "raw_sum pl n =
     (let cs = raw_loop pl (unat n) 0 (0x2345 + n)
      in if odd (unat n) then cs + ucast (pl ! (unat n - 1)) else cs)"

definition dg_check :: "eth_raw_frame \<Rightarrow> nat \<Rightarrow> int" where
  "dg_check dg n =
     (if n < unat (raw_len dg) + 18 then - 1
      else if raw_csum dg \<noteq> raw_sum (payload dg) (raw_len dg) then - 2 else 0)"

text \<open>
  \<open>ethernet_send_raw\<close>. The result is the error code, the frame as the call leaves it and the interface
  (\<open>linkoutput\<close>: whether the interface has been started). A length beyond the structure makes the
  loop and the copy read outside of it.
\<close>

definition ethernet_send_raw :: "bool \<Rightarrow> eth_raw_frame \<Rightarrow> lwif \<Rightarrow> em_error + int \<times> eth_raw_frame \<times> lwif" where
  "ethernet_send_raw linkoutput f w =
     (if RAW_PAYLOAD < unat (raw_len f) then Inl BAD_MEMCPY
      else
        let cs = raw_sum (payload f) (raw_len f);
            n = raw_len f + 18;
            n = (if n < 62 then 62 else n);
            f = f\<lparr>raw_csum := cs\<rparr>;
            f = f\<lparr>src_mac := take 6 (lw_hwaddr w)\<rparr>
        in if linkoutput
           then bindR (lwip_output_to_bridge n [take (unat n) (frame_bytes f)] w) (\<lambda>(res, w). Inr (res, f, w))
           else Inr (- 12, f, w))"

definition set_ethtype :: "u16 \<Rightarrow> eth_raw_frame \<Rightarrow> eth_raw_frame" where
  "set_ethtype t f = f\<lparr>ethtype := [ucast (drop_bit 8 t), ucast t]\<rparr>"

definition raw_send_ucast :: "bool \<Rightarrow> eth_raw_frame \<Rightarrow> lwif \<Rightarrow> em_error + int \<times> eth_raw_frame \<times> lwif" where
  "raw_send_ucast lo f w = ethernet_send_raw lo (set_ethtype ETHTYPE_ADP f) w"

definition raw_send_bcast :: "bool \<Rightarrow> eth_raw_frame \<Rightarrow> lwif \<Rightarrow> em_error + int \<times> eth_raw_frame \<times> lwif" where
  "raw_send_bcast lo f w = ethernet_send_raw lo (set_ethtype ETHTYPE_ADP (f\<lparr>dst_mac := replicate 6 0xFF\<rparr>)) w"

text \<open>The loop over the paired controllers; the all-zero address is skipped.\<close>

primrec send_raw_to_list :: "bool \<Rightarrow> u8 list list \<Rightarrow> eth_raw_frame \<Rightarrow> lwif \<Rightarrow> em_error + eth_raw_frame \<times> lwif" where
  "send_raw_to_list lo [] f w = Inr (f, w)"
| "send_raw_to_list lo (mac # macs) f w =
     (let f = f\<lparr>dst_mac := take 6 mac\<rparr>
      in if \<exists>b \<in> set (dst_mac f). b \<noteq> 0
         then bindR (ethernet_send_raw lo f w) (\<lambda>(res, f, w). send_raw_to_list lo macs f w)
         else send_raw_to_list lo macs f w)"

definition ethernet_send_raw_to_paired ::
  "bool \<Rightarrow> u8 list list \<Rightarrow> u16 \<Rightarrow> eth_raw_frame \<Rightarrow> lwif \<Rightarrow> em_error + eth_raw_frame \<times> lwif" where
  "ethernet_send_raw_to_paired lo paired_controllers cnt f w = send_raw_to_list lo (take (unat cnt) paired_controllers) f w"

section \<open>The sum\<close>

fun sum16 :: "u8 list \<Rightarrow> u16" where
  "sum16 [] = 0"
| "sum16 [a] = ucast a"
| "sum16 (a # b # xs) = le16 a b + sum16 xs"

lemma raw_loop_sum:
  "i \<le> n \<Longrightarrow> n \<le> length pl \<Longrightarrow> even (n - i) \<Longrightarrow> raw_loop pl n i cs = cs + sum16 (drop i (take n pl))"
proof (induction pl n i cs rule: raw_loop.induct)
  case (1 pl n i cs)
  show ?case
  proof (cases "i + 1 < n")
    case True
    have e: "even (n - (i + 2))" using 1(4) True by simp
    have d: "drop i (take n pl) = pl ! i # pl ! (i + 1) # drop (i + 2) (take n pl)"
      using True 1(3) by (simp add: Cons_nth_drop_Suc [symmetric] numeral_2_eq_2)
    show ?thesis
      using True 1(1) [OF True _ 1(3) e]
      by (subst raw_loop.simps) (simp add: d ld16_def add.assoc)
  next
    case False
    then have "n = i" using 1(2,4) by (cases "n = i + 1") auto
    then show ?thesis by (subst raw_loop.simps) simp
  qed
qed

lemma sum16_snoc: "even (length xs) \<Longrightarrow> sum16 (xs @ [a]) = sum16 xs + ucast a"
  by (induction xs rule: sum16.induct) (simp_all add: add.assoc)

lemma raw_loop_last: "even n \<Longrightarrow> raw_loop pl (Suc n) i cs = raw_loop pl n i cs" if "even i"
  using that
proof (induction pl n i cs rule: raw_loop.induct)
  case (1 pl n i cs)
  then have "i + 1 < Suc n \<longleftrightarrow> i + 1 < n" by (metis Suc_eq_plus1 Suc_less_eq dvd_add_triv_right_iff even_Suc less_SucE less_Suc_eq)
  then show ?case
    using 1 by (subst raw_loop.simps, subst (2) raw_loop.simps) simp
qed

text \<open>The code's loop computes the sum of the little-endian words of the payload, the last one padded with zero.\<close>

lemma raw_sum_eq:
  assumes "unat n \<le> length pl"
  shows "raw_sum pl n = 0x2345 + n + sum16 (take (unat n) pl)"
proof (cases "even (unat n)")
  case True
  then show ?thesis
    using raw_loop_sum [of 0 "unat n" pl] assms by (simp add: raw_sum_def)
next
  case False
  then obtain k where k: "unat n = Suc k" "even k" by (cases "unat n") auto
  have "take (Suc k) pl = take k pl @ [pl ! k]"
    using assms k by (intro take_Suc_conv_app_nth) simp
  moreover have "length (take k pl) = k" using assms k by simp
  ultimately show ?thesis
    using raw_loop_last [of 0 k pl] raw_loop_sum [of 0 k pl] assms k sum16_snoc [of "take k pl" "pl ! k"]
    by (simp add: raw_sum_def add.assoc)
qed

lemma le16_eq_iff: "le16 a b = le16 c d \<longleftrightarrow> a = c \<and> b = d"
  by (metis bytes16_le16 list.inject)

lemma sum16_detects: "k < length xs \<Longrightarrow> v \<noteq> xs ! k \<Longrightarrow> sum16 (xs[k := v]) \<noteq> sum16 xs"
proof (induction xs arbitrary: k rule: sum16.induct)
  case 1
  then show ?case by simp
next
  case (2 a)
  have "(ucast v :: u16) = ucast a \<longleftrightarrow> v = a"
    by (metis unat_ucast_8_16 word_unat_eq_iff)
  then show ?case using 2 by simp
next
  case (3 a b xs)
  consider "k = 0" | "k = 1" | j where "k = Suc (Suc j)"
    by (metis One_nat_def not0_implies_Suc)
  then show ?case
    using 3 by cases (simp_all add: le16_eq_iff)
qed

lemma frame_at_bytes:
  assumes w: "wf_frame f" and n: "18 \<le> n" "n \<le> 1500"
  shows "frame_at (take n (frame_bytes f) @ rest) = f\<lparr>payload := take (n - 18) (payload f) @ rest\<rparr>"
proof -
  have l: "length (dst_mac f) = 6" "length (src_mac f) = 6" "length (ethtype f) = 2" "length (payload f) = 1482"
    using w by (simp_all add: wf_frame_def)
  have b: "take n (frame_bytes f) = dst_mac f @ src_mac f @ ethtype f @ bytes16 (raw_csum f) @ bytes16 (raw_len f) @ take (n - 18) (payload f)"
    using l n by (simp add: frame_bytes_def)
  show ?thesis
    unfolding b using l by (simp add: frame_at_def ld16_def bytes16_def nth_append byte_simps)
qed

lemma raw_sum_take: "unat n \<le> length pl \<Longrightarrow> unat n \<le> length pl' \<Longrightarrow> take (unat n) pl = take (unat n) pl' \<Longrightarrow> raw_sum pl n = raw_sum pl' n"
  by (simp add: raw_sum_eq)

text \<open>The length on the wire: the header and the payload, at least 62.\<close>

definition raw_wire :: "u16 \<Rightarrow> nat" where
  "raw_wire n = max 62 (unat n + 18)"

lemma raw_wire_word:
  assumes "unat n \<le> RAW_PAYLOAD"
  shows "unat (if n + 18 < 62 then 62 else n + 18) = raw_wire n" "18 \<le> raw_wire n" "unat n + 18 \<le> raw_wire n" "raw_wire n \<le> 1500"
proof -
  have "unat (n + 18) = unat n + 18"
    using assms by (simp add: unat_word_ariths)
  then show "unat (if n + 18 < 62 then 62 else n + 18) = raw_wire n"
    by (auto simp: raw_wire_def word_less_nat_alt)
qed (use assms in \<open>auto simp: raw_wire_def\<close>)

text \<open>The frame as \<open>ethernet_send_raw\<close> completes it.\<close>

definition raw_done :: "u8 list \<Rightarrow> eth_raw_frame \<Rightarrow> eth_raw_frame" where
  "raw_done hw f = f\<lparr>raw_csum := raw_sum (payload f) (raw_len f), src_mac := take 6 hw\<rparr>"

lemma raw_done_wf: "wf_frame f \<Longrightarrow> length hw = 6 \<Longrightarrow> wf_frame (raw_done hw f)"
  by (simp add: raw_done_def wf_frame_def)

lemma raw_send_facts:
  assumes r: "em_rep (lw_em w) a" "mem_ok (lw_em w)" and f: "sp_free a = p # fl" and hw: "length (lw_hwaddr w) = 6"
    and wf: "wf_frame f" and l: "unat (raw_len f) \<le> RAW_PAYLOAD"
  shows "\<exists>w'. ethernet_send_raw True f w = Inr (0, raw_done (lw_hwaddr w) f, w') \<and>
    em_rep (lw_em w') (sp_submit (raw_wire (raw_len f)) p (sp_alloc p a)) \<and> mem_ok (lw_em w') \<and>
    pb_if_idx (pbufs (lw_em w') p) = of_nat LWIP_NETIF_ID \<and>
    take (raw_wire (raw_len f)) (pb_mem (pbufs (lw_em w') p)) = take (raw_wire (raw_len f)) (frame_bytes (raw_done (lw_hwaddr w) f))"
proof -
  let ?f = "raw_done (lw_hwaddr w) f" and ?n = "raw_wire (raw_len f)"
  let ?m = "take ?n (frame_bytes ?f)"
  note n = raw_wire_word [OF l]
  have wf': "wf_frame ?f" using raw_done_wf [OF wf hw] .
  have lb: "length (frame_bytes ?f) = 1500"
    using wf' by (simp add: wf_frame_def frame_bytes_def)
  have lm: "length (concat [?m]) = ?n" using lb n(4) by simp
  have "unat (if raw_len f + 18 < 62 then 62 else raw_len f + 18) \<le> ETH_MEM_BUF_SIZE"
    "12 \<le> length (concat [?m])" "length (concat [?m]) \<le> ETH_MEM_BUF_SIZE"
    unfolding n(1) lm using n by simp_all
  from lwip_output_facts [OF r f hw this]
  obtain w' where w': "lwip_output_to_bridge (if raw_len f + 18 < 62 then 62 else raw_len f + 18) [?m] w = Inr (0, w')"
    "em_rep (lw_em w') (sp_submit ?n p (sp_alloc p a))" "mem_ok (lw_em w')"
    "take ?n (pb_mem (pbufs (lw_em w') p)) = lwip_frame (lw_hwaddr w) ?m" "pb_if_idx (pbufs (lw_em w') p) = of_nat LWIP_NETIF_ID"
    unfolding lm by auto
  have "lwip_frame (lw_hwaddr w) ?m = ?m"
    using wf' hw n by (simp add: lwip_frame_def frame_bytes_def wf_frame_def raw_done_def)
  moreover have "ethernet_send_raw True f w = Inr (0, ?f, w')"
    using w'(1) l n(1) by (auto simp: ethernet_send_raw_def Let_def raw_done_def)
  ultimately show ?thesis using w' by auto
qed

lemma dg_check_sent:
  assumes wf: "wf_frame f" and l: "unat (raw_len f) \<le> RAW_PAYLOAD"
    and m: "take (raw_wire (raw_len f)) m = take (raw_wire (raw_len f)) (frame_bytes (raw_done hw f))" "raw_wire (raw_len f) \<le> length m"
    and hw: "length hw = 6"
  shows "dg_check (frame_at m) (raw_wire (raw_len f)) = 0" "take (unat (raw_len f)) (payload (frame_at m)) = take (unat (raw_len f)) (payload f)"
    "dst_mac (frame_at m) = dst_mac f" "src_mac (frame_at m) = hw" "ethtype (frame_at m) = ethtype f" "raw_len (frame_at m) = raw_len f"
    "unat (raw_len f) \<le> length (payload (frame_at m))"
proof -
  let ?n = "raw_wire (raw_len f)" and ?f = "raw_done hw f"
  note n = raw_wire_word [OF l]
  have "m = take ?n (frame_bytes ?f) @ drop ?n m" using m(1) by (metis append_take_drop_id)
  then have g: "frame_at m = ?f\<lparr>payload := take (?n - 18) (payload ?f) @ drop ?n m\<rparr>"
    using frame_at_bytes [OF raw_done_wf [OF wf hw] n(2,4)] by metis
  have pl: "length (payload f) = 1482" using wf by (simp add: wf_frame_def)
  have k: "unat (raw_len f) \<le> ?n - 18" using n(3) by simp
  have t: "take (unat (raw_len f)) (take (?n - 18) (payload f) @ drop ?n m) = take (unat (raw_len f)) (payload f)"
    using k pl l by (simp add: min_absorb1)
  have s: "raw_sum (take (?n - 18) (payload f) @ drop ?n m) (raw_len f) = raw_sum (payload f) (raw_len f)"
    by (rule raw_sum_take [OF _ _ t]) (use k pl l n in auto)
  show "dg_check (frame_at m) ?n = 0"
    unfolding g using s n(3) by (simp add: dg_check_def raw_done_def)
  show "take (unat (raw_len f)) (payload (frame_at m)) = take (unat (raw_len f)) (payload f)"
    unfolding g using t by (simp add: raw_done_def)
  show "dst_mac (frame_at m) = dst_mac f" "src_mac (frame_at m) = hw" "ethtype (frame_at m) = ethtype f" "raw_len (frame_at m) = raw_len f"
    unfolding g using hw by (simp_all add: raw_done_def)
  show "unat (raw_len f) \<le> length (payload (frame_at m))"
    unfolding g using k pl l m(2) by (simp add: raw_done_def)
qed

lemma dg_check_detects:
  assumes "dg_check g n = 0" and "k < unat (raw_len g)" "unat (raw_len g) \<le> length (payload g)" and "v \<noteq> payload g ! k"
  shows "dg_check (g\<lparr>payload := (payload g)[k := v]\<rparr>) n = - 2"
proof -
  let ?p = "take (unat (raw_len g)) (payload g)"
  have "sum16 (?p[k := v]) \<noteq> sum16 ?p"
    using assms(2-4) by (intro sum16_detects) auto
  then have "raw_sum ((payload g)[k := v]) (raw_len g) \<noteq> raw_sum (payload g) (raw_len g)"
    using assms(3) by (simp add: raw_sum_eq take_update_swap)
  then show ?thesis
    using assms(1) by (auto simp: dg_check_def split: if_splits)
qed

text \<open>
  C20: Raw frames arrive checked. A frame of up to 1482 payload bytes, odd lengths included, that
  \<open>ethernet_send_raw\<close> hands to a started interface lies in a submitted bridge buffer with the
  interface's address as source; read back from there it passes \<open>dg_check\<close> and has the payload,
  destination and type given, and a change of any one payload byte makes \<open>dg_check\<close> reject it.
\<close>

theorem raw_roundtrip:
  assumes "em_rep (lw_em w) a" "mem_ok (lw_em w)" and "sp_free a = p # fl" and "length (lw_hwaddr w) = 6"
    and "wf_frame f" and "unat (raw_len f) \<le> RAW_PAYLOAD"
  shows "\<exists>f' w' g. ethernet_send_raw True f w = Inr (0, f', w') \<and> g = frame_at (pb_mem (pbufs (lw_em w') p)) \<and>
    em_rep (lw_em w') (sp_submit (raw_wire (raw_len f)) p (sp_alloc p a)) \<and> dg_check g (raw_wire (raw_len f)) = 0 \<and>
    raw_len g = raw_len f \<and> take (unat (raw_len f)) (payload g) = take (unat (raw_len f)) (payload f) \<and>
    dst_mac g = dst_mac f \<and> src_mac g = lw_hwaddr w \<and> ethtype g = ethtype f \<and>
    (\<forall>k v. k < unat (raw_len f) \<and> v \<noteq> payload g ! k \<longrightarrow>
       dg_check (g\<lparr>payload := (payload g)[k := v]\<rparr>) (raw_wire (raw_len f)) = - 2)"
proof -
  obtain w' where w': "ethernet_send_raw True f w = Inr (0, raw_done (lw_hwaddr w) f, w')"
    "em_rep (lw_em w') (sp_submit (raw_wire (raw_len f)) p (sp_alloc p a))" "mem_ok (lw_em w')"
    "take (raw_wire (raw_len f)) (pb_mem (pbufs (lw_em w') p)) = take (raw_wire (raw_len f)) (frame_bytes (raw_done (lw_hwaddr w) f))"
    using raw_send_facts [OF assms] by blast
  have "raw_wire (raw_len f) \<le> length (pb_mem (pbufs (lw_em w') p))"
    using w'(3) raw_wire_word(4) [OF assms(6)] by (simp add: mem_ok_def)
  note d = dg_check_sent [OF assms(5,6) w'(4) this assms(4)]
  let ?g = "frame_at (pb_mem (pbufs (lw_em w') p))"
  have "\<forall>k v. k < unat (raw_len f) \<and> v \<noteq> payload ?g ! k \<longrightarrow>
       dg_check (?g\<lparr>payload := (payload ?g)[k := v]\<rparr>) (raw_wire (raw_len f)) = - 2"
    using dg_check_detects [OF d(1)] d(6,7) by simp
  then show ?thesis
    using w'(1,2) d(1-6) by blast
qed

definition raw0 :: eth_raw_frame where
  "raw0 = \<lparr>dst_mac = replicate 6 0, src_mac = replicate 6 0, ethtype = [0, 0], raw_csum = 0, raw_len = 0, payload = replicate 1482 0\<rparr>"

lemma raw0_wf: "wf_frame raw0"
  by (simp add: wf_frame_def raw0_def)

lemma lwif0_ready: "em_rep (lw_em lwif0) sp_init" "mem_ok (lw_em lwif0)" "length (lw_hwaddr lwif0) = 6"
  using init_rep mem_ok_init by (simp_all add: lwif0_def)

theorem raw_roundtrip_witness:
  "\<exists>f' w' g. ethernet_send_raw True (raw0\<lparr>raw_len := 3\<rparr>) lwif0 = Inr (0, f', w') \<and> g = frame_at (pb_mem (pbufs (lw_em w') 0)) \<and>
     dg_check g 62 = 0 \<and> dg_check (g\<lparr>payload := (payload g)[2 := payload g ! 2 + 1]\<rparr>) 62 = - 2"
proof -
  let ?f = "raw0\<lparr>raw_len := 3\<rparr>"
  have "wf_frame ?f" using raw0_wf by (simp add: wf_frame_def)
  moreover have "unat (raw_len ?f) \<le> RAW_PAYLOAD" "raw_wire (raw_len ?f) = 62" "unat (raw_len ?f) = 3"
    by (simp_all add: raw_wire_def)
  ultimately show ?thesis
    using raw_roundtrip [OF lwif0_ready(1,2) sp_init_free lwif0_ready(3), of ?f] by fastforce
qed

end
