(* ===== verification/NetTopology.thy ===== *)
theory NetTopology
  imports NetRaw
begin

text \<open>
  \<open>lwip/net_topology.c\<close> and the receive hook \<open>lwip_customproto\<close> of \<open>net_raw.c\<close>: every device
  broadcasts a description of itself, collects those of the others in a table, drops the silent ones and
  derives the list of controllers paired with it.
\<close>

section \<open>The description of a device\<close>

record StrNetTopData =
  serial :: u32
  fw_ver :: "u8 list"
  paired_mac :: "u8 list"
  nt_name :: "u8 list"
  ip_proto_enable :: bool
  flag_dhcp_enable :: bool
  netmask :: u8
  nt_ip :: "u8 list"
  nt_gw :: "u8 list"
  dev_class :: u16

text \<open>The structure's 40 bytes: the two bit fields share the byte after the name.\<close>

abbreviation (input) "TOP_SIZE \<equiv> 40 :: nat"

definition top_bytes :: "StrNetTopData \<Rightarrow> u8 list" where
  "top_bytes d = bytes32 (serial d) @ fw_ver d @ paired_mac d @ nt_name d @
     [(if ip_proto_enable d then 1 else 0) OR (if flag_dhcp_enable d then 2 else 0)] @ [netmask d] @
     nt_ip d @ nt_gw d @ bytes16 (dev_class d)"

definition top_at :: "u8 list \<Rightarrow> StrNetTopData" where
  "top_at bs = \<lparr>serial = ld32 bs 0, fw_ver = take 2 (drop 4 bs), paired_mac = take 6 (drop 6 bs), nt_name = take 16 (drop 12 bs),
     ip_proto_enable = bit (bs ! 28) 0, flag_dhcp_enable = bit (bs ! 28) 1, netmask = bs ! 29,
     nt_ip = take 4 (drop 30 bs), nt_gw = take 4 (drop 34 bs), dev_class = ld16 bs 38\<rparr>"

definition wf_top :: "StrNetTopData \<Rightarrow> bool" where
  "wf_top d \<longleftrightarrow> length (fw_ver d) = 2 \<and> length (paired_mac d) = 6 \<and> length (nt_name d) = 16 \<and>
     length (nt_ip d) = 4 \<and> length (nt_gw d) = 4"

section \<open>State and operations\<close>

record device =
  dv_time :: u32
  dv_status :: u8
  dv_mac :: "u8 list"
  dv_info :: StrNetTopData

text \<open>The settings the module reads and writes (\<open>struct SETTINGS\<close>).\<close>

record settings =
  set_netbios_name :: "u8 list"
  set_ipv4 :: "u8 list"
  set_gateway :: "u8 list"
  set_paired_mac_addr :: "u8 list"
  set_ip_flags :: u8
  set_netmask :: u8
  set_serial :: u32

record topo =
  net_devices :: u8
  Devices_online :: "device list"
  paired_controllers :: "u8 list list"
  paired_controllers_cnt :: u16
  nt_tmr :: u32
  rawdgram :: eth_raw_frame
  rawdgram2 :: eth_raw_frame
  rawdgram3 :: eth_raw_frame
  t_settings :: settings

definition mac_cmp :: "u8 list \<Rightarrow> u8 list \<Rightarrow> int" where
  "mac_cmp mac1 mac2 =
     (if mac1 ! 0 \<noteq> mac2 ! 0 then 1 else if mac1 ! 1 \<noteq> mac2 ! 1 then 1 else if mac1 ! 2 \<noteq> mac2 ! 2 then 1
      else if mac1 ! 3 \<noteq> mac2 ! 3 then 1 else if mac1 ! 4 \<noteq> mac2 ! 4 then 1 else if mac1 ! 5 \<noteq> mac2 ! 5 then 1 else 0)"

definition fill_cell :: "u32 \<Rightarrow> StrNetTopData \<Rightarrow> nat \<Rightarrow> device list \<Rightarrow> device list" where
  "fill_cell now yBuf i ds = ds[i := (ds ! i)\<lparr>dv_status := 1, dv_time := now + 2000, dv_info := yBuf\<rparr>]"

definition topology_disconnect :: "u8 list \<Rightarrow> topo \<Rightarrow> topo" where
  "topology_disconnect mac t = t\<lparr>t_settings := (t_settings t)\<lparr>set_paired_mac_addr := replicate 6 0\<rparr>\<rparr>"

text \<open>The two requests share a frame buffer and differ in the second command byte.\<close>

definition topology_request :: "u8 \<Rightarrow> bool \<Rightarrow> u8 list \<Rightarrow> topo \<Rightarrow> lwif \<Rightarrow> em_error + topo \<times> lwif" where
  "topology_request cmd2 lo mac t w =
     (let f = set_ethtype ETHTYPE_ADP (rawdgram3 t);
          f = f\<lparr>payload := (payload f)[0 := 0x05, 1 := cmd2]\<rparr>;
          f = f\<lparr>dst_mac := take 6 mac\<rparr>;
          f = f\<lparr>raw_len := 2\<rparr>
      in bindR (ethernet_send_raw lo f w) (\<lambda>(res, f, w). Inr (t\<lparr>rawdgram3 := f\<rparr>, w)))"

definition topology_request_pair :: "bool \<Rightarrow> u8 list \<Rightarrow> topo \<Rightarrow> lwif \<Rightarrow> em_error + topo \<times> lwif" where
  "topology_request_pair = topology_request 0x00"

definition topology_request_unpair :: "bool \<Rightarrow> u8 list \<Rightarrow> topo \<Rightarrow> lwif \<Rightarrow> em_error + topo \<times> lwif" where
  "topology_request_unpair = topology_request 0x01"

text \<open>
  The search loop of \<open>topology_new_dgram\<close> from cell \<open>i\<close>, \<open>n\<close> cells to go: the cell with this address,
  or the first empty cell seen on the way.
\<close>

fun topo_search :: "u8 list \<Rightarrow> device list \<Rightarrow> nat \<Rightarrow> nat \<Rightarrow> nat option \<Rightarrow> nat option \<times> nat option" where
  "topo_search mac ds i 0 free_cell = (None, free_cell)"
| "topo_search mac ds i (Suc n) free_cell =
     (let free_cell = (if dv_status (ds ! i) = 0 \<and> free_cell = None then Some i else free_cell)
      in if mac_cmp mac (dv_mac (ds ! i)) = 0 then (Some i, free_cell)
         else topo_search mac ds (Suc i) n free_cell)"

definition topo_add :: "u32 \<Rightarrow> StrNetTopData \<Rightarrow> u8 list \<Rightarrow> nat \<Rightarrow> topo \<Rightarrow> topo" where
  "topo_add now yBuf mac c t =
     (let ds = fill_cell now yBuf c (Devices_online t);
          t = t\<lparr>Devices_online := ds[c := (ds ! c)\<lparr>dv_mac := take 6 mac\<rparr>]\<rparr>
      in if unat (net_devices t) \<le> c then t\<lparr>net_devices := of_nat (c + 1)\<rparr> else t)"

definition topology_new_dgram :: "u32 \<Rightarrow> u8 list \<Rightarrow> StrNetTopData \<Rightarrow> u8 list \<Rightarrow> nat \<Rightarrow> topo \<Rightarrow> topo" where
  "topology_new_dgram now hwaddr yBuf mac len t =
     (if len \<noteq> TOP_SIZE + 16 then t
      else if mac_cmp mac hwaddr = 0 then t
      else
        (case topo_search mac (Devices_online t) 0 (unat (net_devices t)) None of
           (Some i, _) \<Rightarrow> t\<lparr>Devices_online := fill_cell now yBuf i (Devices_online t)\<rparr>
         | (None, Some c) \<Rightarrow> topo_add now yBuf mac c t
         | (None, None) \<Rightarrow>
             if net_devices t < 255
             then topo_add now yBuf mac (unat (net_devices t)) (t\<lparr>net_devices := net_devices t + 1\<rparr>)
             else t))"

text \<open>
  \<open>topo_periodic\<close> reads the clock for its own period (\<open>now0\<close>, \<open>now1\<close>) and once per device (\<open>now\<close>).
\<close>

definition topo_expire :: "(nat \<Rightarrow> u32) \<Rightarrow> nat \<Rightarrow> device list \<Rightarrow> device list" where
  "topo_expire now d ds =
     fold (\<lambda>i ds. if sint (dv_time (ds ! i) - now i) < 0 then ds[i := (ds ! i)\<lparr>dv_status := 0\<rparr>] else ds) [0..<d] ds"

definition topo_pairs :: "u8 list \<Rightarrow> nat \<Rightarrow> device list \<Rightarrow> u8 list list \<Rightarrow> nat \<times> u8 list list" where
  "topo_pairs hwaddr d ds pcs =
     fold (\<lambda>i (dr, pcs).
       if dv_status (ds ! i) \<noteq> 0 \<and> mac_cmp (paired_mac (dv_info (ds ! i))) hwaddr = 0 \<and> dev_class (dv_info (ds ! i)) = 1
       then (dr + 1, pcs[dr := take 6 (dv_mac (ds ! i))]) else (dr, pcs)) [0..<d] (0, pcs)"

definition topo_periodic :: "u32 \<Rightarrow> u32 \<Rightarrow> (nat \<Rightarrow> u32) \<Rightarrow> u8 list \<Rightarrow> topo \<Rightarrow> topo" where
  "topo_periodic now0 now1 now hwaddr t =
     (if 0 < sint (now0 - nt_tmr t)
      then
        let t = t\<lparr>nt_tmr := now1 + 500\<rparr>;
            d = unat (net_devices t);
            t = t\<lparr>Devices_online := topo_expire now d (Devices_online t)\<rparr>;
            d' = (if 0 < d \<and> dv_status (Devices_online t ! (d - 1)) = 0 then d - 1 else d);
            t = (if d' \<noteq> d then t\<lparr>net_devices := of_nat d'\<rparr> else t);
            (dr, pcs) = topo_pairs hwaddr d' (Devices_online t) (paired_controllers t)
        in t\<lparr>paired_controllers := pcs, paired_controllers_cnt := of_nat dr\<rparr>
      else t)"

definition topology_send_update :: "bool \<Rightarrow> StrNetTopData \<Rightarrow> u8 list \<Rightarrow> topo \<Rightarrow> lwif \<Rightarrow> em_error + topo \<times> lwif" where
  "topology_send_update lo d mac t w =
     (let f = set_ethtype ETHTYPE_ADP (rawdgram2 t);
          f = f\<lparr>payload := (payload f)[0 := 0x01, 1 := 0x00]\<rparr>;
          f = f\<lparr>payload := st_bytes (payload f) 2 (top_bytes d)\<rparr>;
          f = f\<lparr>dst_mac := take 6 mac\<rparr>;
          f = f\<lparr>raw_len := of_nat (TOP_SIZE + 16)\<rparr>
      in bindR (ethernet_send_raw lo f w) (\<lambda>(res, f, w). Inr (t\<lparr>rawdgram2 := f\<rparr>, w)))"

text \<open>The device's own description, from the settings.\<close>

definition own_top :: "settings \<Rightarrow> StrNetTopData" where
  "own_top s = \<lparr>serial = set_serial s, fw_ver = [0, 0], paired_mac = take 6 (set_paired_mac_addr s), nt_name = take 16 (set_netbios_name s),
     ip_proto_enable = bit (set_ip_flags s) 0, flag_dhcp_enable = bit (set_ip_flags s) 1, netmask = set_netmask s,
     nt_ip = take 4 (set_ipv4 s), nt_gw = take 4 (set_gateway s), dev_class = 2\<rparr>"

definition topology_broadcast_dgram :: "bool \<Rightarrow> topo \<Rightarrow> lwif \<Rightarrow> em_error + topo \<times> lwif" where
  "topology_broadcast_dgram lo t w =
     (let f = rawdgram t;
          f = f\<lparr>payload := (payload f)[0 := 0x00, 1 := 0x00]\<rparr>;
          f = f\<lparr>payload := st_bytes (payload f) 2 (top_bytes (own_top (t_settings t)))\<rparr>;
          f = f\<lparr>raw_len := of_nat (TOP_SIZE + 16)\<rparr>
      in bindR (raw_send_bcast lo f w) (\<lambda>(res, f, w). Inr (t\<lparr>rawdgram := f\<rparr>, w)))"

section \<open>The receive hook\<close>

text \<open>
  \<open>lwip_customproto\<close> after coalescing: the chain is one buffer with memory \<open>m\<close> and length \<open>len\<close>, or it is
  not (\<open>None\<close>). The Boolean of the result says whether the hook freed the buffer.
\<close>

definition lwip_customproto :: "u32 \<Rightarrow> u8 list \<Rightarrow> (u8 list \<times> nat) option \<Rightarrow> topo \<Rightarrow> int \<times> bool \<times> topo" where
  "lwip_customproto now hwaddr pb t =
     (case pb of
        None \<Rightarrow> (- 12, False, t)
      | Some (m, len) \<Rightarrow>
          let dg = frame_at m;
              et = push_bit 8 (ucast (ethtype dg ! 0)) OR ucast (ethtype dg ! 1) :: u16
          in if et = ETHTYPE_DBG then (if dg_check dg len \<noteq> 0 then (- 12, False, t) else (0, True, t))
             else if et = ETHTYPE_ADP
             then if dg_check dg len \<noteq> 0 then (- 12, False, t)
                  else
                    let t = (if payload dg ! 0 = 0
                             then topology_new_dgram now hwaddr (top_at (drop 2 (payload dg))) (src_mac dg) (unat (raw_len dg)) t else t);
                        t = (if payload dg ! 0 = 6 then topology_disconnect (src_mac dg) t else t)
                    in (0, True, t)
             else if et = ETHTYPE_CONTROLS then (if dg_check dg len \<noteq> 0 then (- 12, False, t) else (0, True, t))
             else (- 12, False, t))"

section \<open>The table of devices\<close>

lemma six: "length xs = 6 \<Longrightarrow> length ys = 6 \<Longrightarrow>
   xs = ys \<longleftrightarrow> xs ! 0 = ys ! 0 \<and> xs ! 1 = ys ! 1 \<and> xs ! 2 = ys ! 2 \<and> xs ! 3 = ys ! 3 \<and> xs ! 4 = ys ! 4 \<and> xs ! 5 = ys ! 5"
  by (auto simp: length_Suc_conv numeral_eq_Suc)

lemma mac_cmp_eq: "length m = 6 \<Longrightarrow> length m' = 6 \<Longrightarrow> mac_cmp m m' = 0 \<longleftrightarrow> m = m'"
  unfolding mac_cmp_def by (subst six) auto

text \<open>What the search loop finds.\<close>

lemma topo_search_found:
  "fst (topo_search mac ds i n f) = first_index (\<lambda>j. mac_cmp mac (dv_mac (ds ! j)) = 0) i n"
  by (induction mac ds i n f rule: topo_search.induct) (simp_all add: Let_def)

lemma topo_search_free:
  "fst (topo_search mac ds i n f) = None \<Longrightarrow>
   snd (topo_search mac ds i n f) = (case f of Some c \<Rightarrow> Some c | None \<Rightarrow> first_index (\<lambda>j. dv_status (ds ! j) = 0) i n)"
  by (induction mac ds i n f rule: topo_search.induct) (auto simp: Let_def split: if_splits option.splits)

definition topo_ok :: "u8 list \<Rightarrow> topo \<Rightarrow> bool" where
  "topo_ok hw t \<longleftrightarrow> length (Devices_online t) = 256 \<and>
     (\<forall>i < unat (net_devices t). length (dv_mac (Devices_online t ! i)) = 6 \<and> dv_mac (Devices_online t ! i) \<noteq> hw) \<and>
     (\<forall>i < unat (net_devices t). \<forall>j < unat (net_devices t).
        dv_mac (Devices_online t ! i) = dv_mac (Devices_online t ! j) \<longrightarrow> i = j)"

lemma fill_cell_simps [simp]:
  "length (fill_cell now d i ds) = length ds"
  "i < length ds \<Longrightarrow> dv_mac (fill_cell now d i ds ! j) = dv_mac (ds ! j)"
  by (simp_all add: fill_cell_def nth_list_update)

lemma u8_next: "n < 255 \<Longrightarrow> unat (n + 1 :: u8) = unat n + 1"
  by (simp add: word_less_nat_alt)

lemma topo_ok_add:
  assumes ok: "topo_ok hw t" and l: "length mac = 6" "mac \<noteq> hw" and n: "n = unat (net_devices t')" "n < 256"
    and t': "Devices_online t' = Devices_online t" "unat (net_devices t) \<le> n" "n \<le> unat (net_devices t) + 1"
    and c: "c < n" "unat (net_devices t) < n \<longrightarrow> c = unat (net_devices t)"
    and new: "\<forall>j < unat (net_devices t). dv_mac (Devices_online t ! j) \<noteq> mac"
  shows "topo_ok hw (topo_add now d mac c t')"
    and "c < unat (net_devices (topo_add now d mac c t'))"
    and "Devices_online (topo_add now d mac c t') ! c = \<lparr>dv_time = now + 2000, dv_status = 1, dv_mac = mac, dv_info = d\<rparr>"
proof -
  let ?t = "topo_add now d mac c t'"
  have len: "length (Devices_online t) = 256" using ok by (simp add: topo_ok_def)
  have c256: "c < 256" using c(1) n(2) by simp
  have nd: "net_devices ?t = net_devices t'"
    using c(1) n(1) by (simp add: topo_add_def Let_def)
  have dv: "dv_mac (Devices_online ?t ! j) = (if j = c then mac else dv_mac (Devices_online t ! j))" for j
    using c256 len l(1) t'(1) by (simp add: topo_add_def Let_def nth_list_update fill_cell_def)
  have old: "j < n \<Longrightarrow> j \<noteq> c \<Longrightarrow> j < unat (net_devices t)" for j
    using c t'(2,3) by (cases "unat (net_devices t) < n") auto
  show "topo_ok hw ?t"
    unfolding topo_ok_def nd n(1) [symmetric] dv
  proof (intro conjI allI impI)
    show "length (Devices_online ?t) = 256"
      using len by (simp add: topo_add_def Let_def t'(1))
    fix i assume i: "i < n"
    show "length (if i = c then mac else dv_mac (Devices_online t ! i)) = 6"
      "(if i = c then mac else dv_mac (Devices_online t ! i)) \<noteq> hw"
      using ok l old [OF i] by (auto simp: topo_ok_def)
    fix j assume j: "j < n"
      and e: "(if i = c then mac else dv_mac (Devices_online t ! i)) = (if j = c then mac else dv_mac (Devices_online t ! j))"
    show "i = j"
    proof (cases "i = c \<or> j = c")
      case True
      then show ?thesis using e new old [OF i] old [OF j] by (auto split: if_splits)
    next
      case False
      then show ?thesis using e ok old [OF i] old [OF j] unfolding topo_ok_def by simp
    qed
  qed
  show "c < unat (net_devices ?t)" unfolding nd n(1) [symmetric] by (rule c(1))
  show "Devices_online ?t ! c = \<lparr>dv_time = now + 2000, dv_status = 1, dv_mac = mac, dv_info = d\<rparr>"
    using c256 len l(1) t'(1) by (simp add: topo_add_def Let_def fill_cell_def)
qed

text \<open>A description of another device is recorded, in the cell of its address if it has one.\<close>

definition topo_room :: "u8 list \<Rightarrow> topo \<Rightarrow> bool" where
  "topo_room mac t \<longleftrightarrow> net_devices t < 255 \<or>
     (\<exists>i < unat (net_devices t). dv_mac (Devices_online t ! i) = mac \<or> dv_status (Devices_online t ! i) = 0)"

lemma new_dgram_cases:
  assumes ok: "topo_ok hw t" and l: "length mac = 6" "length hw = 6"
  shows "topo_ok hw (topology_new_dgram now hw d mac len t)"
    and "len = TOP_SIZE + 16 \<Longrightarrow> mac \<noteq> hw \<Longrightarrow> topo_room mac t \<Longrightarrow>
      \<exists>i < unat (net_devices (topology_new_dgram now hw d mac len t)).
        Devices_online (topology_new_dgram now hw d mac len t) ! i = \<lparr>dv_time = now + 2000, dv_status = 1, dv_mac = mac, dv_info = d\<rparr>"
proof -
  let ?n = "unat (net_devices t)" and ?t = "topology_new_dgram now hw d mac len t"
  have len: "length (Devices_online t) = 256" and n256: "?n < 256" using ok by (simp_all add: topo_ok_def)
  have macs: "i < ?n \<Longrightarrow> length (dv_mac (Devices_online t ! i)) = 6" for i using ok by (simp add: topo_ok_def)
  obtain r f where rf: "topo_search mac (Devices_online t) 0 ?n None = (r, f)" by fastforce
  have r: "r = first_index (\<lambda>j. mac_cmp mac (dv_mac (Devices_online t ! j)) = 0) 0 ?n"
    using topo_search_found [of mac "Devices_online t" 0 ?n None] rf by simp
  have f: "r = None \<Longrightarrow> f = first_index (\<lambda>j. dv_status (Devices_online t ! j) = 0) 0 ?n"
    using topo_search_free [of mac "Devices_online t" 0 ?n None] rf by simp
  have own: "mac_cmp mac hw = 0 \<longleftrightarrow> mac = hw" using l by (rule mac_cmp_eq)
  have new: "r = None \<Longrightarrow> \<forall>j < ?n. dv_mac (Devices_online t ! j) \<noteq> mac"
    using r macs mac_cmp_eq l(1) by (auto simp: first_index_None)
  have main: "topo_ok hw ?t \<and> (len = TOP_SIZE + 16 \<longrightarrow> mac \<noteq> hw \<longrightarrow> topo_room mac t \<longrightarrow>
      (\<exists>i < unat (net_devices ?t). Devices_online ?t ! i = \<lparr>dv_time = now + 2000, dv_status = 1, dv_mac = mac, dv_info = d\<rparr>))"
  proof (cases "len \<noteq> TOP_SIZE + 16 \<or> mac = hw")
    case True
    then show ?thesis using ok own by (auto simp: topology_new_dgram_def)
  next
    case False
    then have go: "?t = (case (r, f) of (Some i, _) \<Rightarrow> t\<lparr>Devices_online := fill_cell now d i (Devices_online t)\<rparr>
           | (None, Some c) \<Rightarrow> topo_add now d mac c t
           | (None, None) \<Rightarrow> if net_devices t < 255
             then topo_add now d mac ?n (t\<lparr>net_devices := net_devices t + 1\<rparr>) else t)"
      using own rf by (simp add: topology_new_dgram_def)
    show ?thesis
    proof (cases r)
      case (Some i)
      have i: "i < ?n" "dv_mac (Devices_online t ! i) = mac"
        using first_index_less [of _ 0 ?n i] first_index_holds [of _ 0 ?n i] Some r macs mac_cmp_eq l(1) by fastforce+
      have t: "?t = t\<lparr>Devices_online := fill_cell now d i (Devices_online t)\<rparr>" using go Some by simp
      have "i < length (Devices_online t)" unfolding len using i(1) n256 by (rule less_trans)
      then have "topo_ok hw ?t" using ok unfolding t by (simp add: topo_ok_def)
      moreover have "Devices_online ?t ! i = \<lparr>dv_time = now + 2000, dv_status = 1, dv_mac = mac, dv_info = d\<rparr>"
        using \<open>i < length (Devices_online t)\<close> i(2) unfolding t by (simp add: fill_cell_def)
      ultimately show ?thesis using i(1) unfolding t by auto
    next
      case None
      show ?thesis
      proof (cases f)
        case (Some c)
        have c: "c < ?n" using first_index_less [of _ 0 ?n c] f [OF None] Some by simp
        note a = topo_ok_add [OF ok l(1) _ refl n256 refl order.refl _ c _ new [OF None], of now d]
        have t: "?t = topo_add now d mac c t" using go None Some by simp
        show ?thesis unfolding t using a False by auto
      next
        case none: None
        show ?thesis
        proof (cases "net_devices t < 255")
          case True
          let ?t' = "t\<lparr>net_devices := net_devices t + 1\<rparr>"
          have u: "unat (net_devices ?t') = ?n + 1" using u8_next [OF True] by simp
          have b: "?n + 1 < 256" using True by (simp add: word_less_nat_alt)
          note a = topo_ok_add [OF ok l(1) _ u [symmetric] b _ _ order.refl _ _ new [OF None], of ?n now d]
          have t: "?t = topo_add now d mac ?n ?t'" using go None none True by simp
          show ?thesis unfolding t using a False by auto
        next
          case full: False
          have "\<not> topo_room mac t"
            using full new [OF None] f [OF None, symmetric, unfolded none first_index_None] by (auto simp: topo_room_def)
          then show ?thesis using go None none full ok by simp
        qed
      qed
    qed
  qed
  then show "topo_ok hw ?t" by blast
  show "len = TOP_SIZE + 16 \<Longrightarrow> mac \<noteq> hw \<Longrightarrow> topo_room mac t \<Longrightarrow>
      \<exists>i < unat (net_devices ?t). Devices_online ?t ! i = \<lparr>dv_time = now + 2000, dv_status = 1, dv_mac = mac, dv_info = d\<rparr>"
    using main by blast
qed

section \<open>Expiry and the list of paired controllers\<close>

lemma expire_snoc: "topo_expire now (Suc d) ds =
   (let ds = topo_expire now d ds
    in if sint (dv_time (ds ! d) - now d) < 0 then ds[d := (ds ! d)\<lparr>dv_status := 0\<rparr>] else ds)"
  by (simp add: topo_expire_def Let_def)

definition expired :: "(nat \<Rightarrow> u32) \<Rightarrow> device list \<Rightarrow> nat \<Rightarrow> bool" where
  "expired now ds i \<longleftrightarrow> sint (dv_time (ds ! i) - now i) < 0"

lemma topo_expire_spec:
  assumes "d \<le> length ds"
  shows "length (topo_expire now d ds) = length ds \<and>
    (\<forall>i. topo_expire now d ds ! i = (if i < d \<and> expired now ds i then (ds ! i)\<lparr>dv_status := 0\<rparr> else ds ! i))"
  using assms
proof (induction d)
  case 0
  show ?case by (simp add: topo_expire_def)
next
  case (Suc d)
  then show ?case
    unfolding expire_snoc Let_def by (auto simp: expired_def nth_list_update less_Suc_eq)
qed

definition controls :: "u8 list \<Rightarrow> device \<Rightarrow> bool" where
  "controls hw v \<longleftrightarrow> dv_status v \<noteq> 0 \<and> mac_cmp (paired_mac (dv_info v)) hw = 0 \<and> dev_class (dv_info v) = 1"

lemma topo_pairs_spec:
  assumes "d \<le> length pcs"
  shows "\<exists>dr pcs'. topo_pairs hw d ds pcs = (dr, pcs') \<and> dr \<le> d \<and> length pcs' = length pcs \<and>
    take dr pcs' = map (\<lambda>i. take 6 (dv_mac (ds ! i))) (filter (\<lambda>i. controls hw (ds ! i)) [0..<d])"
  using assms
proof (induction d)
  case 0
  show ?case by (simp add: topo_pairs_def)
next
  case (Suc d)
  then obtain dr pcs' where p: "topo_pairs hw d ds pcs = (dr, pcs')" "dr \<le> d" "length pcs' = length pcs"
    "take dr pcs' = map (\<lambda>i. take 6 (dv_mac (ds ! i))) (filter (\<lambda>i. controls hw (ds ! i)) [0..<d])"
    by auto
  have s: "topo_pairs hw (Suc d) ds pcs =
      (if controls hw (ds ! d) then (dr + 1, pcs'[dr := take 6 (dv_mac (ds ! d))]) else (dr, pcs'))"
    using p(1) by (simp add: topo_pairs_def controls_def)
  have "dr < length pcs'" using p(2,3) Suc.prems by simp
  then show ?case
    unfolding s using p by (auto simp: take_Suc_conv_app_nth)
qed

text \<open>
  What a due run of \<open>topo_periodic\<close> does: devices whose time has passed lose their status, the last cell
  of the table is given back when it is empty, and the list is made from the cells that are left.
\<close>

lemma topo_periodic_run:
  fixes now0 now1 :: u32 and now :: "nat \<Rightarrow> u32"
  assumes ok: "topo_ok hw t" and due: "0 < sint (now0 - nt_tmr t)" and len: "length (paired_controllers t) = 256"
  defines "t' \<equiv> topo_periodic now0 now1 now hw t" and "ds \<equiv> Devices_online t" and "d \<equiv> unat (net_devices t)"
  shows "topo_ok hw t'" and "unat (net_devices t') \<le> d" and "length (paired_controllers t') = 256"
    and "Devices_online t' = topo_expire now d ds"
    and "take (unat (paired_controllers_cnt t')) (paired_controllers t') =
      map (\<lambda>i. dv_mac (ds ! i)) (filter (\<lambda>i. controls hw (ds ! i) \<and> \<not> expired now ds i) [0..<d])"
proof -
  let ?es = "topo_expire now d ds"
  let ?d' = "if 0 < d \<and> dv_status (?es ! (d - 1)) = 0 then d - 1 else d"
  have d: "d < 256" by (simp add: d_def)
  have l: "length ds = 256" using ok by (simp add: topo_ok_def ds_def)
  have e: "length ?es = 256" "\<And>i. ?es ! i = (if i < d \<and> expired now ds i then (ds ! i)\<lparr>dv_status := 0\<rparr> else ds ! i)"
    using topo_expire_spec [of d ds now] d l by auto
  have mac: "dv_mac (?es ! i) = dv_mac (ds ! i)" for i by (simp add: e(2))
  have dd: "?d' \<le> d" by simp
  then have dl: "?d' \<le> length (paired_controllers t)" using d len by linarith
  obtain dr pcs where p: "topo_pairs hw ?d' ?es (paired_controllers t) = (dr, pcs)" "dr \<le> ?d'" "length pcs = 256"
    "take dr pcs = map (\<lambda>i. take 6 (dv_mac (?es ! i))) (filter (\<lambda>i. controls hw (?es ! i)) [0..<?d'])"
    using topo_pairs_spec [OF dl, of hw ?es] len by auto
  have u: "unat (of_nat ?d' :: u8) = ?d'" "unat (of_nat dr :: u16) = dr"
  proof -
    have "?d' < 256" "dr < 256" using d p(2) dd by linarith+
    then show "unat (of_nat ?d' :: u8) = ?d'" "unat (of_nat dr :: u16) = dr"
      by (simp_all only: unat_of_nat) simp_all
  qed
  let ?nd = "if ?d' \<noteq> d then of_nat ?d' else net_devices t"
  have run: "t' = t\<lparr>nt_tmr := now1 + 500, Devices_online := ?es, net_devices := ?nd, paired_controllers := pcs,
      paired_controllers_cnt := of_nat dr\<rparr>"
  proof (cases "0 < d \<and> dv_status (?es ! (d - 1)) = 0")
    case True
    then show ?thesis
      using due p(1) unfolding t'_def topo_periodic_def Let_def d_def ds_def by simp arith
  next
    case False
    then have "?d' = d" by (simp only: if_False)
    then show ?thesis
      using due p(1) False unfolding t'_def topo_periodic_def Let_def d_def ds_def by (simp only: if_True if_False topo.simps) auto
  qed
  have dv: "Devices_online t' = ?es" and pc: "paired_controllers t' = pcs" and pn: "paired_controllers_cnt t' = of_nat dr"
    and nd0: "net_devices t' = ?nd"
    unfolding run by simp_all
  have nd: "unat (net_devices t') = ?d'"
    unfolding nd0 using u(1) by (cases "?d' = d") (simp_all only: if_True if_False d_def simp_thms)
  show "Devices_online t' = topo_expire now d ds" by (rule dv)
  show le: "unat (net_devices t') \<le> d" unfolding nd by simp
  show "length (paired_controllers t') = 256" unfolding pc by (rule p(3))
  have lt: "i < unat (net_devices t')  \<Longrightarrow> i < unat (net_devices t)" for i
    using le by (simp only: d_def)
  show "topo_ok hw t'"
    using ok e(1) lt unfolding topo_ok_def dv mac unfolding ds_def d_def by simp
  have drop: "filter (\<lambda>i. controls hw (?es ! i)) [0..<?d'] = filter (\<lambda>i. controls hw (?es ! i)) [0..<d]"
  proof (cases "0 < d \<and> dv_status (?es ! (d - 1)) = 0")
    case True
    then have "[0..<d] = [0..<d - 1] @ [d - 1]" using upt_Suc_append [of 0 "d - 1"] by simp
    then show ?thesis using True by (simp add: controls_def)
  next
    case False
    then show ?thesis by auto
  qed
  have "filter (\<lambda>i. controls hw (?es ! i)) [0..<d] = filter (\<lambda>i. controls hw (ds ! i) \<and> \<not> expired now ds i) [0..<d]"
    by (rule filter_cong) (auto simp: e(2) controls_def)
  moreover have "take 6 (dv_mac (?es ! i)) = dv_mac (ds ! i)" if "i < d" for i
    unfolding mac using that ok by (simp add: topo_ok_def ds_def d_def)
  ultimately show "take (unat (paired_controllers_cnt t')) (paired_controllers t') =
      map (\<lambda>i. dv_mac (ds ! i)) (filter (\<lambda>i. controls hw (ds ! i) \<and> \<not> expired now ds i) [0..<d])"
    unfolding pc pn u(2) p(4) drop by auto
qed

section \<open>Runs of the module\<close>

definition settings0 :: settings where
  "settings0 = \<lparr>set_netbios_name = replicate 24 0, set_ipv4 = replicate 4 0, set_gateway = replicate 4 0,
     set_paired_mac_addr = replicate 6 0, set_ip_flags = 0, set_netmask = 0, set_serial = 0\<rparr>"

definition device0 :: device where
  "device0 = \<lparr>dv_time = 0, dv_status = 0, dv_mac = replicate 6 0, dv_info = top_at (replicate 40 0)\<rparr>"

definition topo0 :: topo where
  "topo0 = \<lparr>net_devices = 0, Devices_online = replicate 256 device0, paired_controllers = replicate 256 (replicate 6 0),
     paired_controllers_cnt = 0, nt_tmr = 0, rawdgram = raw0, rawdgram2 = raw0, rawdgram3 = raw0, t_settings = settings0\<rparr>"

text \<open>
  The events of a device with address \<open>hw\<close>: any received frame, in a buffer of at least the twelve
  address bytes, and the periodic check at any times.
\<close>

inductive topo_reach :: "u8 list \<Rightarrow> topo \<Rightarrow> bool" for hw :: "u8 list" where
  topo_start: "topo_reach hw topo0"
| topo_frame: "topo_reach hw t \<Longrightarrow> 12 \<le> length m \<Longrightarrow> lwip_customproto now hw (Some (m, len)) t = (err, fr, t') \<Longrightarrow> topo_reach hw t'"
| topo_check: "topo_reach hw t \<Longrightarrow> topo_reach hw (topo_periodic now0 now1 now hw t)"

lemma disconnect_ok: "topo_ok hw (topology_disconnect mac t) = topo_ok hw t"
  "paired_controllers (topology_disconnect mac t) = paired_controllers t"
  by (simp_all add: topo_ok_def topology_disconnect_def)

lemma new_dgram_keeps: "paired_controllers (topology_new_dgram now hw d mac len t) = paired_controllers t"
  by (auto simp: topology_new_dgram_def topo_add_def Let_def split: option.splits prod.splits)

lemma customproto_ok:
  assumes t: "topo_ok hw t" "length hw = 6" and m: "12 \<le> length m"
    and c: "lwip_customproto now hw (Some (m, len)) t = (err, fr, t')"
  shows "topo_ok hw t' \<and> paired_controllers t' = paired_controllers t"
proof -
  let ?dg = "frame_at m"
  let ?t = "topology_new_dgram now hw (top_at (drop 2 (payload ?dg))) (src_mac ?dg) (unat (raw_len ?dg)) t"
  have s: "length (src_mac ?dg) = 6" using m by (simp add: frame_at_def)
  have "topo_ok hw ?t" using new_dgram_cases(1) [OF t(1) s t(2)] .
  then show ?thesis
    using c t(1) new_dgram_keeps by (auto simp: lwip_customproto_def Let_def disconnect_ok split: if_splits)
qed

lemma reach_ok: "topo_reach hw t \<Longrightarrow> length hw = 6 \<Longrightarrow> topo_ok hw t \<and> length (paired_controllers t) = 256"
proof (induction rule: topo_reach.induct)
  case topo_start
  show ?case by (simp add: topo_ok_def topo0_def)
next
  case (topo_frame t m now len err fr t')
  then show ?case using customproto_ok [OF _ _ topo_frame.hyps(2,3)] by simp
next
  case (topo_check t now0 now1 now)
  show ?case
  proof (cases "0 < sint (now0 - nt_tmr t)")
    case True
    then show ?thesis using topo_periodic_run(1,3) topo_check by blast
  next
    case False
    then show ?thesis using topo_check by (simp add: topo_periodic_def)
  qed
qed

text \<open>
  C21: The table of devices has one cell per device. Whatever frames arrive and whenever the periodic
  check runs, the addresses of the cells in use are distinct, the device itself is not among them, and
  the table never outgrows its 256 cells.
\<close>

theorem topo_table_distinct:
  assumes "topo_reach hw t" and "length hw = 6"
  shows "distinct (map dv_mac (take (unat (net_devices t)) (Devices_online t))) \<and>
    hw \<notin> set (map dv_mac (take (unat (net_devices t)) (Devices_online t))) \<and>
    unat (net_devices t) \<le> length (Devices_online t) \<and> length (Devices_online t) = 256"
proof (intro conjI)
  have ok: "topo_ok hw t" using reach_ok [OF assms] by simp
  then show l: "length (Devices_online t) = 256" by (simp add: topo_ok_def)
  show n: "unat (net_devices t) \<le> length (Devices_online t)" unfolding l using unat_u8_less [of "net_devices t"] by linarith
  show "distinct (map dv_mac (take (unat (net_devices t)) (Devices_online t)))"
    using ok n unfolding distinct_conv_nth topo_ok_def by (auto simp: min_absorb2)
  show "hw \<notin> set (map dv_mac (take (unat (net_devices t)) (Devices_online t)))"
  proof
    assume "hw \<in> set (map dv_mac (take (unat (net_devices t)) (Devices_online t)))"
    then obtain i where "i < unat (net_devices t)" "dv_mac (Devices_online t ! i) = hw"
      by (auto simp: in_set_conv_nth)
    then show False using ok by (simp add: topo_ok_def)
  qed
qed

theorem topo_table_distinct_witness:
  "distinct (map dv_mac (take (unat (net_devices topo0)) (Devices_online topo0))) \<and> length (Devices_online topo0) = 256"
  using topo_table_distinct [OF topo_start, of "[0, 0x80, 1, 2, 3, 4]"] by simp

lemma top_round: "wf_top d \<Longrightarrow> top_at (top_bytes d @ rest) = d"
proof -
  assume w: "wf_top d"
  then obtain a b where fw: "fw_ver d = [a, b]" by (auto simp: wf_top_def numeral_eq_Suc length_Suc_conv)
  show ?thesis
    using w fw
    by (cases d) (auto simp: wf_top_def top_at_def top_bytes_def bytes32_def bytes16_def ld32_def ld16_def byte_simps nth_append bit_simps)
qed

text \<open>
  The list of controllers is exact. A due check leaves in the list of paired controllers exactly
  the addresses, in table order, of the devices that are active, heard from in the last two seconds by
  the time stamped on them, paired with this device and of the controller class; every other device
  whose time has passed loses its active status.
\<close>

lemma topo_paired_list:
  assumes "topo_reach hw t" and "length hw = 6" and "0 < sint (now0 - nt_tmr t)"
  shows "take (unat (paired_controllers_cnt (topo_periodic now0 now1 now hw t))) (paired_controllers (topo_periodic now0 now1 now hw t)) =
      map (\<lambda>i. dv_mac (Devices_online t ! i))
        (filter (\<lambda>i. controls hw (Devices_online t ! i) \<and> \<not> expired now (Devices_online t) i) [0..<unat (net_devices t)]) \<and>
    (\<forall>i < unat (net_devices t). dv_status (Devices_online (topo_periodic now0 now1 now hw t) ! i) =
       (if expired now (Devices_online t) i then 0 else dv_status (Devices_online t ! i)))"
proof -
  have ok: "topo_ok hw t" "length (paired_controllers t) = 256" using reach_ok [OF assms(1,2)] by simp_all
  note run = topo_periodic_run [OF ok(1) assms(3) ok(2), of now1 now]
  have "unat (net_devices t) \<le> length (Devices_online t)"
    using ok(1) unat_u8_less [of "net_devices t"] by (simp only: topo_ok_def)
  then have "topo_expire now (unat (net_devices t)) (Devices_online t) ! i =
      (if i < unat (net_devices t) \<and> expired now (Devices_online t) i then (Devices_online t ! i)\<lparr>dv_status := 0\<rparr> else Devices_online t ! i)" for i
    using topo_expire_spec by blast
  then show ?thesis
    unfolding run(4,5) by simp
qed

lemma topo_paired_list_witness:
  "take (unat (paired_controllers_cnt (topo_periodic 1 1 (\<lambda>_. 1) [0, 0x80, 1, 2, 3, 4] topo0)))
     (paired_controllers (topo_periodic 1 1 (\<lambda>_. 1) [0, 0x80, 1, 2, 3, 4] topo0)) = []"
proof -
  have "0 < sint (1 - nt_tmr topo0)" "length [0, 0x80, 1, 2, 3, 4 :: u8] = 6" "unat (net_devices topo0) = 0"
    by (simp_all add: topo0_def)
  then show ?thesis
    using topo_paired_list [OF topo_start, of "[0, 0x80, 1, 2, 3, 4]" 1 1 "\<lambda>_. 1"] by (simp del: One_nat_def)
qed

section \<open>Discovery\<close>

lemma wf_own: "24 = length (set_netbios_name s) \<Longrightarrow> 4 = length (set_ipv4 s) \<Longrightarrow> 4 = length (set_gateway s) \<Longrightarrow>
   6 = length (set_paired_mac_addr s) \<Longrightarrow> wf_top (own_top s)"
  by (simp add: wf_top_def own_top_def)

lemma length_top: "wf_top d \<Longrightarrow> length (top_bytes d) = TOP_SIZE"
  by (simp add: wf_top_def top_bytes_def)

lemma adp_type: "push_bit 8 (ucast (ucast (drop_bit 8 ETHTYPE_ADP) :: u8)) OR ucast (ucast ETHTYPE_ADP :: u8) = ETHTYPE_ADP"
  by simp

definition wf_settings :: "settings \<Rightarrow> bool" where
  "wf_settings s \<longleftrightarrow> length (set_netbios_name s) = 24 \<and> length (set_ipv4 s) = 4 \<and> length (set_gateway s) = 4 \<and>
     length (set_paired_mac_addr s) = 6"

text \<open>
  C10: Devices discover each other. The broadcast a device sends, received by any other device with
  room in its table (or a cell for this address), is accepted by the receive hook there and leaves a
  cell that is active for two more seconds and holds exactly the sender's address, name, serial
  number, addresses, flags and pairing from its settings.
\<close>

theorem topo_discovery:
  assumes "em_rep (lw_em w) a" "mem_ok (lw_em w)" and "sp_free a = p # fl" and "length (lw_hwaddr w) = 6"
    and "wf_frame (rawdgram ta)" and "wf_settings (t_settings ta)"
    and "topo_reach hb tb" and "length hb = 6" and "hb \<noteq> lw_hwaddr w" and "topo_room (lw_hwaddr w) tb"
  shows "\<exists>ta' w' tb'. topology_broadcast_dgram True ta w = Inr (ta', w') \<and>
    em_rep (lw_em w') (sp_submit 74 p (sp_alloc p a)) \<and>
    lwip_customproto now hb (Some (pb_mem (pbufs (lw_em w') p), 74)) tb = (0, True, tb') \<and>
    (\<exists>i < unat (net_devices tb'). Devices_online tb' ! i =
       \<lparr>dv_time = now + 2000, dv_status = 1, dv_mac = lw_hwaddr w, dv_info = own_top (t_settings ta)\<rparr>)"
proof -
  let ?top = "own_top (t_settings ta)" and ?g = "rawdgram ta"
  let ?f = "set_ethtype ETHTYPE_ADP (?g\<lparr>payload := st_bytes ((payload ?g)[0 := 0x00, 1 := 0x00]) 2 (top_bytes ?top),
     raw_len := of_nat (TOP_SIZE + 16), dst_mac := replicate 6 0xFF\<rparr>)"
  have wt: "wf_top ?top" using assms(6) by (intro wf_own) (simp_all add: wf_settings_def)
  have pl: "length (payload ?g) = 1482" using assms(5) by (simp add: wf_frame_def)
  have "length (st_bytes ((payload ?g)[0 := 0x00, 1 := 0x00]) 2 (top_bytes ?top)) = 1482"
    using pl length_top [OF wt] by (simp add: length_st_bytes)
  then have wf: "wf_frame ?f" using assms(5) unfolding wf_frame_def set_ethtype_def by simp
  have rl: "raw_len ?f = 56" "unat (raw_len ?f) \<le> RAW_PAYLOAD" "raw_wire (raw_len ?f) = 74" "unat (raw_len ?f) = 56"
    by (simp_all add: set_ethtype_def raw_wire_def)
  obtain w' where w': "ethernet_send_raw True ?f w = Inr (0, raw_done (lw_hwaddr w) ?f, w')"
    "em_rep (lw_em w') (sp_submit 74 p (sp_alloc p a))" "mem_ok (lw_em w')"
    "take 74 (pb_mem (pbufs (lw_em w') p)) = take 74 (frame_bytes (raw_done (lw_hwaddr w) ?f))"
    using raw_send_facts [OF assms(1-4) wf rl(2)] unfolding rl(3) by blast
  have send: "topology_broadcast_dgram True ta w = Inr (ta\<lparr>rawdgram := raw_done (lw_hwaddr w) ?f\<rparr>, w')"
    using w'(1) by (simp add: topology_broadcast_dgram_def raw_send_bcast_def Let_def)
  let ?m = "pb_mem (pbufs (lw_em w') p)"
  have ml: "length ?m = 1600" using w'(3) by (simp add: mem_ok_def)
  have m: "take (raw_wire (raw_len ?f)) ?m = take (raw_wire (raw_len ?f)) (frame_bytes (raw_done (lw_hwaddr w) ?f))"
    "raw_wire (raw_len ?f) \<le> length ?m"
    unfolding rl(3) using w'(4) ml by simp_all
  have num: "raw_wire 56 = 74" "unat (56 :: u16) = 56" by (simp_all add: raw_wire_def)
  note s = dg_check_sent [OF wf rl(2) m assms(4), unfolded rl(1) num]
  have d: "dg_check (frame_at ?m) 74 = 0" "take 56 (payload (frame_at ?m)) = take 56 (payload ?f)" "src_mac (frame_at ?m) = lw_hwaddr w"
    "ethtype (frame_at ?m) = ethtype ?f" "raw_len (frame_at ?m) = 56"
    using s by blast+
  have pf: "take 56 (payload ?f) = [0, 0] @ top_bytes ?top @ take 14 (drop 42 (payload ?g))"
  proof -
    have "(payload ?g)[0 := 0x00, 1 := 0x00] = [0, 0] @ drop 2 (payload ?g)"
      using pl by (cases "payload ?g"; cases "tl (payload ?g)") (auto simp: numeral_2_eq_2)
    then have "payload ?f = [0, 0] @ top_bytes ?top @ drop 42 (payload ?g)"
      using length_top [OF wt] by (simp add: set_ethtype_def st_bytes_def)
    then show ?thesis using length_top [OF wt] by simp
  qed
  obtain rest where pm: "payload (frame_at ?m) = [0, 0] @ top_bytes ?top @ rest"
    using append_take_drop_id [of 56 "payload (frame_at ?m)"] d(2) pf by (metis append.assoc)
  have top: "top_at (drop 2 (payload (frame_at ?m))) = ?top" "payload (frame_at ?m) ! 0 = 0"
    unfolding pm using top_round [OF wt, of rest] by simp_all
  have ty: "push_bit 8 (ucast (ethtype (frame_at ?m) ! 0)) OR ucast (ethtype (frame_at ?m) ! 1) = ETHTYPE_ADP"
    unfolding d(4) by (simp add: set_ethtype_def)
  let ?t = "topology_new_dgram now hb ?top (lw_hwaddr w) 56 tb"
  have run: "lwip_customproto now hb (Some (?m, 74)) tb = (0, True, ?t)"
    using d(1,3,5) top ty by (simp add: lwip_customproto_def Let_def)
  have ok: "topo_ok hb tb" using reach_ok [OF assms(7,8)] by simp
  have ex: "\<exists>i < unat (net_devices ?t). Devices_online ?t ! i = \<lparr>dv_time = now + 2000, dv_status = 1, dv_mac = lw_hwaddr w, dv_info = ?top\<rparr>"
    using new_dgram_cases(2) [OF ok assms(4,8), of 56 now ?top] assms(9,10) by simp
  show ?thesis
    using send w'(2) run ex by blast
qed

theorem topo_discovery_witness:
  "\<exists>ta' w' tb'. topology_broadcast_dgram True topo0 lwif0 = Inr (ta', w') \<and>
     lwip_customproto 100 [0, 0x80, 9, 9, 9, 9] (Some (pb_mem (pbufs (lw_em w') 0), 74)) topo0 = (0, True, tb') \<and>
     (\<exists>i < unat (net_devices tb'). dv_mac (Devices_online tb' ! i) = lw_hwaddr lwif0 \<and> dv_time (Devices_online tb' ! i) = 2100)"
proof -
  have h: "wf_frame (rawdgram topo0)" "wf_settings (t_settings topo0)" "length [0, 0x80, 9, 9, 9, 9 :: u8] = 6"
    "[0, 0x80, 9, 9, 9, 9] \<noteq> lw_hwaddr lwif0" "topo_room (lw_hwaddr lwif0) topo0"
    using raw0_wf by (simp_all add: topo0_def wf_settings_def settings0_def lwif0_def topo_room_def)
  show ?thesis
    using topo_discovery [OF lwif0_ready(1,2) sp_init_free lwif0_ready(3) h(1,2) topo_start h(3-5), of 100] by fastforce
qed

end
