(* ===== verification/LwipDef.thy ===== *)
theory LwipDef
  imports Prelude
begin

text \<open>
  \<open>lwip/core/def.c\<close>: byte order, the string helpers and \<open>lwip_itoa\<close> of the stack. Strings are
  the lists of their characters with the terminating 0 as in memory; reading past the end of the
  list is \<open>None\<close>.
\<close>

section \<open>Byte order\<close>

definition lwip_htons :: "u16 \<Rightarrow> u16" where
  "lwip_htons n = push_bit 8 (n AND 0xFF) OR drop_bit 8 (n AND 0xFF00)"

definition lwip_htonl :: "u32 \<Rightarrow> u32" where
  "lwip_htonl n = push_bit 24 (n AND 0xFF) OR push_bit 8 (n AND 0xFF00) OR
     drop_bit 8 (n AND 0xFF0000) OR drop_bit 24 (n AND 0xFF000000)"

lemma byte_masks16: "(0xFF :: u16) = mask 8" "(0xFF00 :: u16) = push_bit 8 (mask 8)"
  by (simp_all add: mask_eq_exp_minus_1 push_bit_eq_mult)

lemma byte_masks32: "(0xFF :: u32) = mask 8" "(0xFF00 :: u32) = push_bit 8 (mask 8)"
  "(0xFF0000 :: u32) = push_bit 16 (mask 8)" "(0xFF000000 :: u32) = push_bit 24 (mask 8)"
  by (simp_all add: mask_eq_exp_minus_1 push_bit_eq_mult)

lemma lwip_htons_le16 [byte_simps]: "lwip_htons (le16 a b) = le16 b a"
  unfolding lwip_htons_def byte_masks16 by (rule bit_word_eqI) (auto simp: le16_def bit_simps)

lemma lwip_htonl_le32 [byte_simps]: "lwip_htonl (le32 a b c d) = le32 d c b a"
proof (rule bit_word_eqI)
  fix n :: nat
  assume "n < LENGTH(32)"
  then consider "n < 8" | "8 \<le> n" "n < 16" | "16 \<le> n" "n < 24" | "24 \<le> n" "n < 32"
    by fastforce
  then show "bit (lwip_htonl (le32 a b c d)) n = bit (le32 d c b a) n"
    unfolding lwip_htonl_def byte_masks32
    by cases (simp_all add: le32_def bit_simps less_diff_conv2)
qed

lemma word32_cases:
  obtains a b c d where "w = le32 a b c d"
  using le32_bytes32 [of w] by metis

lemma word16_cases:
  obtains a b where "w = le16 a b"
  using le16_bytes16 [of w] by metis

lemma lwip_htonl_htonl [simp]: "lwip_htonl (lwip_htonl w) = w"
  by (cases w rule: word32_cases) (simp add: byte_simps)

lemma lwip_htons_htons [simp]: "lwip_htons (lwip_htons w) = w"
  by (cases w rule: word16_cases) (simp add: byte_simps)

lemma bytes32_le32: "bytes32 (le32 a b c d) = [a, b, c, d]"
  by (auto simp: bytes32_def le32_def bit_simps intro!: bit_word_eqI)

lemma le32_sum: "le32 a b c d = ucast a + 256 * ucast b + 65536 * ucast c + 16777216 * ucast d"
proof -
  have 1: "push_bit 8 (ucast b) OR ucast a = (push_bit 8 (ucast b) + ucast a :: u32)"
    by (rule disjunctive_add_eq_or [symmetric]) (auto simp: bit_eq_iff bit_simps)
  have 2: "push_bit 16 (ucast c) OR (push_bit 8 (ucast b) OR ucast a) =
      (push_bit 16 (ucast c) + (push_bit 8 (ucast b) OR ucast a) :: u32)"
    by (rule disjunctive_add_eq_or [symmetric]) (auto simp: bit_eq_iff bit_simps)
  have 3: "push_bit 24 (ucast d) OR (push_bit 16 (ucast c) OR (push_bit 8 (ucast b) OR ucast a)) =
      (push_bit 24 (ucast d) + (push_bit 16 (ucast c) OR (push_bit 8 (ucast b) OR ucast a)) :: u32)"
    by (rule disjunctive_add_eq_or [symmetric]) (auto simp: bit_eq_iff bit_simps)
  have "le32 a b c d = push_bit 24 (ucast d) + (push_bit 16 (ucast c) + (push_bit 8 (ucast b) + ucast a))"
    by (simp only: le32_def or.assoc 3, simp only: 2, simp only: 1)
  then show ?thesis by (simp add: push_bit_eq_mult ac_simps)
qed

lemma unat_le32:
  "unat (le32 a b c d) = unat a + 256 * unat b + 65536 * unat c + 16777216 * unat d"
proof -
  have "le32 a b c d = of_nat (unat a + 256 * unat b + 65536 * unat c + 16777216 * unat d)"
    by (simp add: le32_sum)
  moreover have "unat a + 256 * unat b + 65536 * unat c + 16777216 * unat d < 4294967296"
    using unat_u8_less [of a] unat_u8_less [of b] unat_u8_less [of c] unat_u8_less [of d] by linarith
  ultimately show ?thesis by (simp only: unat_of_nat) simp
qed

section \<open>Strings\<close>

text \<open>\<open>strncmp(p, token, n) == 0\<close> for a token without 0 among its first n characters.\<close>

definition lwip_strnstr :: "u8 list \<Rightarrow> u8 list \<Rightarrow> nat \<Rightarrow> nat option" where
  "lwip_strnstr buffer token n =
     (let t = takeWhile (\<lambda>c. c \<noteq> 0) token; b = takeWhile (\<lambda>c. c \<noteq> 0) buffer
      in if t = [] then Some 0
         else first_index (\<lambda>p. p + length t \<le> n \<and> take (length t) (drop p b) = t) 0 (length b))"

definition chr_downcase :: "u8 \<Rightarrow> u8" where
  "chr_downcase c = c OR 0x20"

definition chr_differs :: "u8 \<Rightarrow> u8 \<Rightarrow> bool" where
  "chr_differs c1 c2 \<longleftrightarrow> c1 \<noteq> c2 \<and>
     \<not> (97 \<le> chr_downcase c1 \<and> chr_downcase c1 \<le> 122 \<and> chr_downcase c1 = chr_downcase c2)"

fun lwip_stricmp :: "u8 list \<Rightarrow> u8 list \<Rightarrow> int option" where
  "lwip_stricmp (c1 # s1) (c2 # s2) =
     (if chr_differs c1 c2 then Some 1 else if c1 \<noteq> 0 then lwip_stricmp s1 s2 else Some 0)"
| "lwip_stricmp _ _ = None"

fun lwip_strnicmp :: "u8 list \<Rightarrow> u8 list \<Rightarrow> nat \<Rightarrow> int option" where
  "lwip_strnicmp (c1 # s1) (c2 # s2) len =
     (if chr_differs c1 c2 then Some 1
      else if len - 1 \<noteq> 0 \<and> c1 \<noteq> 0 then lwip_strnicmp s1 s2 (len - 1) else Some 0)"
| "lwip_strnicmp _ _ _ = None"

end
