(* ===== verification/DhcpServer.thy ===== *)
theory DhcpServer
  imports LwipDef
begin

text \<open>
  \<open>lwip/dhcp_server.c\<close>: the DHCP server that gives addresses to the devices behind the bridge. The
  lease list, the parser of requests, the builder of replies, the timer and the life cycle of the
  handle. Memory of the heap, the buffers and calls of the UDP layer are inputs (the record
  \<open>dhcp_env\<close>) and logged outputs.
\<close>

section \<open>Types\<close>

datatype dhcp_error = DHCP_NULL_DEREF | DHCP_OVERREAD | DHCP_OVERFLOW

record dhcps_pool =
  dp_ip :: u32
  dp_mac :: "u8 list"
  dp_timer :: u32

text \<open>A node is its address (what \<open>mem_malloc\<close> returned) and the lease it points to; the list of
  nodes is in the order of the links.\<close>

record list_node =
  ln_addr :: nat
  ln_pool :: dhcps_pool

record dhcps_lease =
  dl_enable :: bool
  dl_start :: u32
  dl_end :: u32

datatype handle_state = HANDLE_CREATED | HANDLE_STARTED | HANDLE_STOPPED | HANDLE_DELETE_PENDING

record ip_info =
  ii_ip :: u32
  ii_netmask :: u32
  ii_gw :: u32

text \<open>The network interface, as far as the server reads it: its identity, whether it is up, its addresses.\<close>

record dhcp_netif =
  dn_id :: nat
  dn_up :: bool
  dn_info :: ip_info

record dhcps =
  dh_netif :: "dhcp_netif option"
  broadcast_dhcps :: u32
  server_address :: u32
  dns_server :: u32
  client_address :: u32
  client_address_plus :: u32
  dhcps_mask :: u32
  plist :: "list_node list"
  renew :: bool
  dhcps_poll :: dhcps_lease
  dhcps_lease_time :: u32
  dhcps_offer :: u8
  dhcps_dns :: u8
  dhcps_cb :: "nat option"
  dhcps_cb_arg :: nat
  dhcps_pcb :: "nat option"
  dh_state :: handle_state

datatype dhcp_io =
    Udp_sendto nat "u8 list" u32 u16
  | Lease_cb nat nat "u8 list" "u8 list"
  | Udp_remove nat
  | Udp_disconnect nat
  | Udp_bind nat u32 u16
  | Udp_recv nat
  | Sys_timeout u32
  | Sys_untimeout

text \<open>
  What the surroundings decide while a request is handled: whether the block for the message, the
  lease and the reply buffer could be allocated, the address of the new list node, the result of
  \<open>udp_sendto\<close> (0 is \<open>ERR_OK\<close>).
\<close>

record dhcp_env =
  de_msg :: bool
  de_pool :: bool
  de_node :: "nat option"
  de_pbuf :: bool
  de_send :: int

abbreviation (input) "DHCPS_STATE_OFFER \<equiv> 1 :: nat"
abbreviation (input) "DHCPS_STATE_ACK \<equiv> 3 :: nat"
abbreviation (input) "DHCPS_STATE_NAK \<equiv> 4 :: nat"
abbreviation (input) "DHCPS_STATE_IDLE \<equiv> 5 :: nat"
abbreviation (input) "DHCPS_STATE_RELEASE \<equiv> 6 :: nat"

abbreviation (input) "DHCPDISCOVER \<equiv> 1 :: u8"
abbreviation (input) "DHCPOFFER \<equiv> 2 :: u8"
abbreviation (input) "DHCPREQUEST \<equiv> 3 :: u8"
abbreviation (input) "DHCPDECLINE \<equiv> 4 :: u8"
abbreviation (input) "DHCPACK \<equiv> 5 :: u8"
abbreviation (input) "DHCPNAK \<equiv> 6 :: u8"
abbreviation (input) "DHCPRELEASE \<equiv> 7 :: u8"

text \<open>Offsets in \<open>struct dhcps_msg\<close>, and its size.\<close>

abbreviation (input) "o_ciaddr \<equiv> 12 :: nat"
abbreviation (input) "o_yiaddr \<equiv> 16 :: nat"
abbreviation (input) "o_siaddr \<equiv> 20 :: nat"
abbreviation (input) "o_giaddr \<equiv> 24 :: nat"
abbreviation (input) "o_chaddr \<equiv> 28 :: nat"
abbreviation (input) "o_sname \<equiv> 44 :: nat"
abbreviation (input) "o_file \<equiv> 108 :: nat"
abbreviation (input) "o_options \<equiv> 236 :: nat"
abbreviation (input) "DHCPS_MSG_SIZE \<equiv> 548 :: nat"

abbreviation (input) "DHCPS_LEASE_UNIT \<equiv> 1000 :: u32"
abbreviation (input) "DHCPS_MAX_LEASE \<equiv> 0x64 :: u32"
abbreviation (input) "DHCP_COARSE_TIMER_MSECS \<equiv> 1000 :: u32"

definition magic_cookie :: u32 where
  "magic_cookie = 0x63538263"

section \<open>The handle\<close>

definition dhcps_new :: "bool \<Rightarrow> dhcps option" where
  "dhcps_new mem_ok =
     (if \<not> mem_ok then None
      else Some \<lparr>dh_netif = None, broadcast_dhcps = 0, server_address = 0, dns_server = 0, client_address = 0,
        client_address_plus = 0, dhcps_mask = lwip_htonl 0xFFFFFF00, plist = [], renew = False,
        dhcps_poll = \<lparr>dl_enable = False, dl_start = 0, dl_end = 0\<rparr>, dhcps_lease_time = 120, dhcps_offer = 0xFF,
        dhcps_dns = 0, dhcps_cb = None, dhcps_cb_arg = 0, dhcps_pcb = None, dh_state = HANDLE_CREATED\<rparr>)"

text \<open>\<open>None\<close> is a handle that was freed (or never there).\<close>

definition dhcps_delete :: "dhcps option \<Rightarrow> dhcps option" where
  "dhcps_delete h =
     (case h of
        Some d \<Rightarrow> if dh_state d = HANDLE_STARTED then Some (d\<lparr>dh_state := HANDLE_DELETE_PENDING\<rparr>) else None
      | None \<Rightarrow> None)"

definition get_ip_info :: "dhcp_netif option \<Rightarrow> ip_info \<Rightarrow> ip_info" where
  "get_ip_info netif info =
     (case netif of Some n \<Rightarrow> if dn_up n then dn_info n else info | None \<Rightarrow> info)"

text \<open>Options of the handle: a value of one of the three types the code casts to, with its C size.\<close>

datatype option_val = Opt_time u32 | Opt_lease dhcps_lease | Opt_offer u8 | Opt_mask u32

abbreviation (input) "sizeof_time \<equiv> 4 :: nat"
abbreviation (input) "sizeof_lease \<equiv> 12 :: nat"
abbreviation (input) "sizeof_offer \<equiv> 1 :: nat"
abbreviation (input) "sizeof_mask \<equiv> 4 :: nat"

definition dhcps_option_info :: "dhcps option \<Rightarrow> u8 \<Rightarrow> nat \<Rightarrow> option_val option" where
  "dhcps_option_info h op_id opt_len =
     (case h of
        None \<Rightarrow> None
      | Some d \<Rightarrow>
          if op_id = 51 then (if opt_len = sizeof_time then Some (Opt_time (dhcps_lease_time d)) else None)
          else if op_id = 50 then (if opt_len = sizeof_lease then Some (Opt_lease (dhcps_poll d)) else None)
          else if op_id = 32 then (if opt_len = sizeof_offer then Some (Opt_offer (dhcps_offer d)) else None)
          else if op_id = 6 then (if opt_len = sizeof_offer then Some (Opt_offer (dhcps_dns d)) else None)
          else if op_id = 1 then (if opt_len = sizeof_mask then Some (Opt_mask (dhcps_mask d)) else None)
          else None)"

text \<open>The argument is given in the type that the option has; another type is not a use of the function.\<close>

definition dhcps_set_option_info :: "u8 \<Rightarrow> option_val option \<Rightarrow> nat \<Rightarrow> dhcps option \<Rightarrow> bool \<times> dhcps option" where
  "dhcps_set_option_info op_id info opt_len h =
     (case (h, info) of
        (Some d, Some v) \<Rightarrow> (True, Some
          (case v of
             Opt_time t \<Rightarrow> if op_id = 51 \<and> opt_len = sizeof_time then d\<lparr>dhcps_lease_time := t\<rparr> else d
           | Opt_lease l \<Rightarrow> if op_id = 50 \<and> opt_len = sizeof_lease then d\<lparr>dhcps_poll := l\<rparr> else d
           | Opt_offer x \<Rightarrow> if op_id = 32 \<and> opt_len = sizeof_offer then d\<lparr>dhcps_offer := x\<rparr>
                           else if op_id = 6 \<and> opt_len = sizeof_offer then d\<lparr>dhcps_dns := x\<rparr> else d
           | Opt_mask x \<Rightarrow> if op_id = 1 \<and> opt_len = sizeof_mask then d\<lparr>dhcps_mask := x\<rparr> else d))
      | _ \<Rightarrow> (False, h))"

definition dhcps_set_new_lease_cb :: "nat option \<Rightarrow> nat \<Rightarrow> dhcps option \<Rightarrow> bool \<times> dhcps option" where
  "dhcps_set_new_lease_cb cb arg h =
     (case h of None \<Rightarrow> (False, None) | Some d \<Rightarrow> (True, Some (d\<lparr>dhcps_cb := cb, dhcps_cb_arg := arg\<rparr>)))"

definition dhcps_dns_setserver :: "u32 option \<Rightarrow> dhcps option \<Rightarrow> bool \<times> dhcps option" where
  "dhcps_dns_setserver dns h =
     (case h of
        None \<Rightarrow> (False, None)
      | Some d \<Rightarrow> (True, Some (d\<lparr>dns_server := (case dns of Some a \<Rightarrow> a | None \<Rightarrow> 0)\<rparr>)))"

definition dhcps_dns_getserver :: "dhcps option \<Rightarrow> u32 option" where
  "dhcps_dns_getserver h = map_option dns_server h"

section \<open>The list of leases\<close>

text \<open>The loop of \<open>node_insert_to_list\<close>: the position behind \<open>plist\<close>, which is not greater.\<close>

fun insert_after :: "list_node \<Rightarrow> list_node list \<Rightarrow> list_node list" where
  "insert_after n [] = [n]"
| "insert_after n (x # xs) =
     (if dp_ip (ln_pool n) < dp_ip (ln_pool x) then n # x # xs else x # insert_after n xs)"

fun node_insert_to_list :: "list_node \<Rightarrow> list_node list \<Rightarrow> list_node list" where
  "node_insert_to_list n [] = [n]"
| "node_insert_to_list n (h # xs) =
     (if dp_ip (ln_pool n) < dp_ip (ln_pool h) then n # h # xs else h # insert_after n xs)"

text \<open>The loop of \<open>node_remove_from_list\<close>: it unlinks a successor and goes on to the new successor.\<close>

fun unlink :: "nat \<Rightarrow> list_node list \<Rightarrow> list_node list" where
  "unlink a [] = []"
| "unlink a [x] = [x]"
| "unlink a (x # y # ys) = (if ln_addr y = a then x # unlink a ys else x # unlink a (y # ys))"

fun node_remove_from_list :: "nat \<Rightarrow> list_node list \<Rightarrow> list_node list" where
  "node_remove_from_list a [] = []"
| "node_remove_from_list a (h # xs) = (if ln_addr h = a then xs else unlink a (h # xs))"

definition set_timer :: "nat \<Rightarrow> u32 \<Rightarrow> list_node list \<Rightarrow> list_node list" where
  "set_timer a t = map (\<lambda>n. if ln_addr n = a then n\<lparr>ln_pool := (ln_pool n)\<lparr>dp_timer := t\<rparr>\<rparr> else n)"

definition dhcp_search_ip_on_mac :: "u8 list \<Rightarrow> dhcps option \<Rightarrow> u32 option" where
  "dhcp_search_ip_on_mac mac h =
     (case h of
        None \<Rightarrow> None
      | Some d \<Rightarrow> map_option (\<lambda>n. dp_ip (ln_pool n)) (find (\<lambda>n. dp_mac (ln_pool n) = take 6 mac) (plist d)))"

section \<open>Building a reply\<close>

text \<open>\<open>*optptr++ = b\<close> for each byte: the message and the position of \<open>optptr\<close> in it.\<close>

definition put :: "u8 list \<Rightarrow> u8 list \<times> nat \<Rightarrow> u8 list \<times> nat" where
  "put bs = (\<lambda>(m, pos). (st_bytes m pos bs, pos + length bs))"

definition add_msg_type :: "u8 \<Rightarrow> u8 list \<times> nat \<Rightarrow> u8 list \<times> nat" where
  "add_msg_type type = put [53, 1, type]"

definition be32 :: "u32 \<Rightarrow> u8 list" where
  "be32 w = [ucast (drop_bit 24 w), ucast (drop_bit 16 w), ucast (drop_bit 8 w), ucast w]"

text \<open>An address is stored in network order: \<open>ip4_addr1\<close> to \<open>ip4_addr4\<close> are its bytes in memory.\<close>

definition ip_option :: "u8 \<Rightarrow> u32 \<Rightarrow> u8 list" where
  "ip_option code a = [code, 4] @ bytes32 a"

definition router_option :: "dhcps \<Rightarrow> u8 list" where
  "router_option d =
     (if dhcps_offer d AND 1 \<noteq> 0
      then let gw = ii_gw (get_ip_info (dh_netif d) \<lparr>ii_ip = 0, ii_netmask = 0, ii_gw = 0\<rparr>)
           in if gw \<noteq> 0 then ip_option 3 gw else []
      else [])"

definition offer_options :: "dhcps \<Rightarrow> u8 list" where
  "offer_options d =
     ip_option 1 (dhcps_mask d) @
     [51, 4] @ be32 (dhcps_lease_time d * DHCPS_LEASE_UNIT) @
     ip_option 54 (server_address d) @
     router_option d @
     ip_option 6 (if dhcps_dns d AND 2 \<noteq> 0 then dns_server d else server_address d) @
     ip_option 28 ((server_address d AND dhcps_mask d) OR NOT (dhcps_mask d)) @
     [26, 2, 0x05, 0xdc] @
     [31, 1, 0x00] @
     [43, 6] @ [0x01, 4, 0x00, 0x00, 0x00, 0x02]"

definition add_offer_options :: "dhcps \<Rightarrow> u8 list \<times> nat \<Rightarrow> u8 list \<times> nat" where
  "add_offer_options d = put (offer_options d)"

definition add_end :: "u8 list \<times> nat \<Rightarrow> u8 list \<times> nat" where
  "add_end = put [255]"

definition create_msg :: "dhcps \<Rightarrow> u8 list \<Rightarrow> u8 list" where
  "create_msg d m =
     (let m = m[0 := 2];
          m = m[1 := 1];
          m = m[2 := 6];
          m = m[3 := 0];
          m = st16 m 8 0;
          m = st16 m 10 (lwip_htons 0x8000);
          m = st_bytes m o_yiaddr (bytes32 (client_address d));
          m = st_bytes m o_ciaddr (replicate 4 0);
          m = st_bytes m o_siaddr (replicate 4 0);
          m = st_bytes m o_giaddr (replicate 4 0);
          m = st_bytes m o_sname (replicate 64 0);
          m = st_bytes m o_file (replicate 128 0);
          m = st_bytes m o_options (replicate 312 0)
      in st_bytes m o_options (bytes32 magic_cookie))"

definition dhcps_pbuf_alloc :: "bool \<Rightarrow> nat \<Rightarrow> u8 list option" where
  "dhcps_pbuf_alloc ok len =
     (let mlen = (if DHCPS_MSG_SIZE < len then len else DHCPS_MSG_SIZE)
      in if ok then Some (replicate mlen 0) else None)"

text \<open>
  The copy loop of the three senders over the buffer (a \<open>PBUF_RAM\<close> buffer is one segment): byte
  \<open>i\<close> of the message to byte \<open>i\<close> of the buffer, reading past the message is an over-read.
\<close>

definition copy_out :: "u8 list \<Rightarrow> u8 list \<Rightarrow> dhcp_error + u8 list" where
  "copy_out m buf = (if length m < length buf then Inl DHCP_OVERREAD else Inr (take (length buf) m))"

text \<open>\<open>udp_sendto\<close> answers a NULL pcb with \<open>ERR_ARG\<close> (-16).\<close>

definition send_buf :: "dhcp_env \<Rightarrow> dhcps \<Rightarrow> u8 list \<Rightarrow> int \<times> dhcp_io list" where
  "send_buf env d bs =
     (case dhcps_pcb d of
        None \<Rightarrow> (- 16, [])
      | Some pcb \<Rightarrow> (de_send env, [Udp_sendto pcb bs (broadcast_dhcps d) 68]))"

definition send_offer :: "dhcp_env \<Rightarrow> dhcps \<Rightarrow> u8 list \<Rightarrow> nat \<Rightarrow> dhcp_error + dhcp_io list" where
  "send_offer env d m len =
     (let m = create_msg d m;
          end1 = add_msg_type DHCPOFFER (m, o_options + 4);
          end2 = add_offer_options d end1;
          end3 = add_end end2;
          m = fst end3
      in case dhcps_pbuf_alloc (de_pbuf env) len of
           None \<Rightarrow> Inr []
         | Some buf \<Rightarrow> bindR (copy_out m buf) (\<lambda>bs. Inr (snd (send_buf env d bs))))"

definition send_nak :: "dhcp_env \<Rightarrow> dhcps \<Rightarrow> u8 list \<Rightarrow> nat \<Rightarrow> dhcp_error + dhcp_io list" where
  "send_nak env d m len =
     (let m = create_msg d m;
          end1 = add_msg_type DHCPNAK (m, o_options + 4);
          end2 = add_end end1;
          m = fst end2
      in case dhcps_pbuf_alloc (de_pbuf env) len of
           None \<Rightarrow> Inr []
         | Some buf \<Rightarrow> bindR (copy_out m buf) (\<lambda>bs. Inr (snd (send_buf env d bs))))"

definition send_ack :: "dhcp_env \<Rightarrow> dhcps \<Rightarrow> u8 list \<Rightarrow> nat \<Rightarrow> dhcp_error + dhcp_io list" where
  "send_ack env d m len =
     (let m = create_msg d m;
          end1 = add_msg_type DHCPACK (m, o_options + 4);
          end2 = add_offer_options d end1;
          end3 = add_end end2;
          m = fst end3
      in case dhcps_pbuf_alloc (de_pbuf env) len of
           None \<Rightarrow> Inr []
         | Some buf \<Rightarrow>
             bindR (copy_out m buf) (\<lambda>bs.
               let (err, io) = send_buf env d bs
               in Inr (if err = 0
                    then case dhcps_cb d of
                           Some cb \<Rightarrow> io @ [Lease_cb cb (dhcps_cb_arg d) (ld_bytes m o_yiaddr 4) (ld_bytes m o_chaddr 6)]
                         | None \<Rightarrow> io
                    else io)))"

section \<open>Parsing a request\<close>

definition rd :: "u8 list \<Rightarrow> nat \<Rightarrow> dhcp_error + u8" where
  "rd m i = (if i < length m then Inr (m ! i) else Inl DHCP_OVERREAD)"

definition rd4 :: "u8 list \<Rightarrow> nat \<Rightarrow> dhcp_error + u8 list" where
  "rd4 m i = (if i + 4 \<le> length m then Inr (ld_bytes m i 4) else Inl DHCP_OVERREAD)"

text \<open>One turn of the loop of \<open>parse_options\<close> at position \<open>pos\<close>: the type and state seen, and
  whether the end option was met.\<close>

definition parse_option :: "u32 \<Rightarrow> u8 list \<Rightarrow> nat \<Rightarrow> u8 \<times> nat \<Rightarrow> dhcp_error + (u8 \<times> nat) \<times> bool" where
  "parse_option client m pos = (\<lambda>(type, st).
     bindR (rd m pos) (\<lambda>code.
       if code = 53 then bindR (rd m (pos + 2)) (\<lambda>t. Inr ((t, st), False))
       else if code = 50 then
         bindR (rd4 m (pos + 2)) (\<lambda>a.
           Inr ((type, if a = bytes32 client then DHCPS_STATE_ACK else DHCPS_STATE_NAK), False))
       else if code = 255 then Inr ((type, st), True)
       else Inr ((type, st), False)))"

text \<open>The loop ends because \<open>optptr\<close> moves by at least two. \<open>endp\<close> is the address \<open>optptr + len\<close>.\<close>

function parse_loop :: "u32 \<Rightarrow> u8 list \<Rightarrow> int \<Rightarrow> nat \<Rightarrow> u8 \<times> nat \<Rightarrow> dhcp_error + u8 \<times> nat" where
  "parse_loop client m endp pos acc =
     (if int pos < endp
      then case parse_option client m pos acc of
             Inl e \<Rightarrow> Inl e
           | Inr (acc, True) \<Rightarrow> Inr acc
           | Inr (acc, False) \<Rightarrow>
               (case rd m (pos + 1) of
                  Inl e \<Rightarrow> Inl e
                | Inr l \<Rightarrow> parse_loop client m endp (pos + (unat l + 2)) acc)
      else Inr acc)"
  by pat_completeness auto
termination
  by (relation "measure (\<lambda>(client, m, endp, pos, acc). nat (endp - int pos))") (auto intro: le_less_trans [of _ 0])

declare parse_loop.simps [simp del]

definition parse_options :: "dhcps \<Rightarrow> u8 list \<Rightarrow> nat \<Rightarrow> u16 \<Rightarrow> dhcp_error + nat" where
  "parse_options d m optptr len =
     bindR (parse_loop (client_address d) m (int optptr + sint len) optptr (0, DHCPS_STATE_IDLE)) (\<lambda>(type, st).
       Inr (if type = DHCPDISCOVER then DHCPS_STATE_OFFER
            else if type = DHCPREQUEST then
              (if \<not> (st = DHCPS_STATE_ACK \<or> st = DHCPS_STATE_NAK)
               then if renew d then DHCPS_STATE_ACK else DHCPS_STATE_NAK
               else st)
            else if type = DHCPDECLINE then DHCPS_STATE_IDLE
            else if type = DHCPRELEASE then DHCPS_STATE_RELEASE
            else st))"

section \<open>Choosing an address\<close>

text \<open>\<open>addr_tmp = htonl(a); addr_tmp++; htonl(addr_tmp)\<close>.\<close>

definition next_addr :: "u32 \<Rightarrow> u32" where
  "next_addr a = lwip_htonl (lwip_htonl a + 1)"

record lease_scan =
  sc_client :: u32
  sc_plus :: u32
  sc_first :: u32
  sc_flag :: bool

text \<open>The loop of \<open>parse_msg\<close> over the leases; it is left at the first lease of the client.\<close>

definition scan_other :: "u32 \<Rightarrow> lease_scan \<Rightarrow> lease_scan" where
  "scan_other ip s =
     (let s = (if ip = sc_plus s
               then (let p = next_addr (sc_plus s) in s\<lparr>sc_plus := p, sc_client := p\<rparr>) else s)
      in if \<not> sc_flag s
         then if sc_first s < ip then s\<lparr>sc_flag := True\<rparr> else s\<lparr>sc_first := next_addr (sc_first s)\<rparr>
         else s)"

fun scan_leases :: "u8 list \<Rightarrow> list_node list \<Rightarrow> lease_scan \<Rightarrow> list_node option \<times> lease_scan" where
  "scan_leases mac [] s = (None, s)"
| "scan_leases mac (n # ns) s =
     (if dp_mac (ln_pool n) = mac then (Some n, s)
      else scan_leases mac ns (scan_other (dp_ip (ln_pool n)) s))"

text \<open>The block after the loop: the address chosen is entered, or there is none left.\<close>

definition new_lease :: "dhcp_env \<Rightarrow> u8 list \<Rightarrow> u32 \<Rightarrow> u32 \<Rightarrow> dhcps \<Rightarrow> dhcp_error + nat option \<times> dhcps" where
  "new_lease env mac lease_timer first d =
     (let d = (if dl_end (dhcps_poll d) < client_address_plus d then d\<lparr>client_address := first\<rparr> else d)
      in if dl_end (dhcps_poll d) < client_address d
         then Inr (None, d\<lparr>client_address_plus := dl_start (dhcps_poll d)\<rparr>)
         else if \<not> de_pool env then Inl DHCP_NULL_DEREF
         else (case de_node env of
             None \<Rightarrow> Inl DHCP_NULL_DEREF
           | Some a \<Rightarrow>
               let pool = \<lparr>dp_ip = client_address d, dp_mac = mac, dp_timer = lease_timer\<rparr>;
                   d = d\<lparr>plist := node_insert_to_list \<lparr>ln_addr = a, ln_pool = pool\<rparr> (plist d)\<rparr>
               in Inr (Some a,
                   if client_address d = dl_end (dhcps_poll d)
                   then d\<lparr>client_address_plus := dl_start (dhcps_poll d)\<rparr>
                   else d\<lparr>client_address_plus := next_addr (client_address d)\<rparr>)))"

definition drop_lease :: "nat option \<Rightarrow> dhcps \<Rightarrow> dhcps" where
  "drop_lease pnode d =
     (case pnode of Some a \<Rightarrow> d\<lparr>plist := node_remove_from_list a (plist d)\<rparr> | None \<Rightarrow> d)"

text \<open>From the label \<open>POOL_CHECK\<close> on.\<close>

definition pool_check :: "u8 list \<Rightarrow> u16 \<Rightarrow> nat option \<Rightarrow> dhcps \<Rightarrow> dhcp_error + nat \<times> dhcps" where
  "pool_check m len pnode d =
     (if dl_end (dhcps_poll d) < client_address d \<or> client_address d = 0
      then Inr (4, drop_lease pnode d)
      else bindR (parse_options d m (o_options + 4) len) (\<lambda>ret.
        Inr (ret, if ret = DHCPS_STATE_RELEASE \<or> ret = DHCPS_STATE_NAK
                  then (drop_lease pnode d)\<lparr>client_address := 0\<rparr> else d)))"

definition parse_msg :: "dhcp_env \<Rightarrow> u8 list \<Rightarrow> u16 \<Rightarrow> dhcps \<Rightarrow> dhcp_error + nat \<times> dhcps" where
  "parse_msg env m len d =
     (let lease_timer = (dhcps_lease_time d * DHCPS_LEASE_UNIT) div 1
      in if ld_bytes m o_options 4 = bytes32 magic_cookie
         then
           let mac = ld_bytes m o_chaddr 6;
               d = d\<lparr>client_address := client_address_plus d, renew := False\<rparr>;
               (hit, s) = scan_leases mac (plist d)
                 \<lparr>sc_client = client_address d, sc_plus = client_address_plus d,
                  sc_first = dl_start (dhcps_poll d), sc_flag = False\<rparr>;
               d = d\<lparr>client_address := sc_client s, client_address_plus := sc_plus s\<rparr>
           in (case hit of
                 Some n \<Rightarrow>
                   let ip = dp_ip (ln_pool n);
                       d = (if bytes32 ip = ld_bytes m o_ciaddr 4 then d\<lparr>renew := True\<rparr> else d);
                       d = d\<lparr>client_address := ip, plist := set_timer (ln_addr n) lease_timer (plist d)\<rparr>
                   in pool_check m len (Some (ln_addr n)) d
               | None \<Rightarrow>
                   let d = (if plist d = [] then d\<lparr>client_address := dl_start (dhcps_poll d)\<rparr> else d)
                   in bindR (new_lease env mac lease_timer (sc_first s) d) (\<lambda>(pnode, d). pool_check m len pnode d))
         else Inr (0, d))"

text \<open>
  \<open>handle_dhcp\<close>: a request is its total length and the bytes of its segments (only the first two are
  copied); \<open>junk\<close> is what the block from the heap held before. The code's \<open>malloc_len\<close> is signed:
  for a request of more than 32767 bytes it is negative and the allocation fails (\<open>de_msg\<close>).
\<close>

definition handle_dhcp ::
  "dhcp_env \<Rightarrow> (nat \<Rightarrow> u8) \<Rightarrow> (u16 \<times> u8 list list) option \<Rightarrow> dhcps \<Rightarrow> dhcp_error + dhcp_io list \<times> dhcps" where
  "handle_dhcp env junk p d =
     (case p of
        None \<Rightarrow> Inr ([], d)
      | Some (tot_len, segs) \<Rightarrow>
          let malloc_len = (if DHCPS_MSG_SIZE < unat tot_len then unat tot_len else DHCPS_MSG_SIZE)
          in if \<not> de_msg env then Inr ([], d)
             else
               let bs = concat (take 2 segs)
               in if malloc_len < length bs then Inl DHCP_OVERFLOW
                  else
                    let m = st_bytes (map junk [0..<malloc_len]) 0 bs
                    in bindR (parse_msg env m (tot_len - 240) d) (\<lambda>(state, d).
                         bindR (if state = DHCPS_STATE_OFFER then send_offer env d m malloc_len
                                else if state = DHCPS_STATE_ACK then send_ack env d m malloc_len
                                else if state = DHCPS_STATE_NAK then send_nak env d m malloc_len
                                else Inr [])
                           (\<lambda>io. Inr (io, d))))"

section \<open>Address pool, start, stop, timer\<close>

definition dhcps_poll_set :: "u32 \<Rightarrow> dhcps_lease \<Rightarrow> dhcps_lease" where
  "dhcps_poll_set ip l =
     (let l = (if dl_enable l
               then
                 let softap_ip = lwip_htonl ip;
                     start_ip = lwip_htonl (dl_start l);
                     end_ip = lwip_htonl (dl_end l)
                 in if start_ip \<le> softap_ip \<and> softap_ip \<le> end_ip then l\<lparr>dl_enable := False\<rparr>
                    else
                      let softap_ip = drop_bit 8 softap_ip
                      in if drop_bit 8 start_ip \<noteq> softap_ip \<or> drop_bit 8 end_ip \<noteq> softap_ip \<or>
                            DHCPS_MAX_LEASE < end_ip - start_ip
                         then l\<lparr>dl_enable := False\<rparr> else l
               else l)
      in if \<not> dl_enable l
         then
           let softap_ip = lwip_htonl ip AND 0xFFFFFF00;
               local_ip = lwip_htonl ip AND 0xFF;
               local_ip = (if 0x80 \<le> local_ip then local_ip - DHCPS_MAX_LEASE else local_ip + 1)
           in \<lparr>dl_enable = False,
               dl_start = lwip_htonl (softap_ip OR local_ip),
               dl_end = lwip_htonl (softap_ip OR (local_ip + DHCPS_MAX_LEASE - 1))\<rparr>
         else l)"

definition dhcps_start :: "nat option \<Rightarrow> dhcp_netif option \<Rightarrow> u32 \<Rightarrow> dhcps option \<Rightarrow> bool \<times> dhcp_io list \<times> dhcps option" where
  "dhcps_start new_pcb netif ip h =
     (case (h, netif) of
        (Some d, Some n) \<Rightarrow>
          let d = d\<lparr>dh_netif := Some n\<rparr>;
              io = (case dhcps_pcb d of Some pcb \<Rightarrow> [Udp_remove pcb] | None \<Rightarrow> []);
              d = d\<lparr>dhcps_pcb := new_pcb\<rparr>
          in (case new_pcb of
                None \<Rightarrow> (False, io, Some d)
              | Some pcb \<Rightarrow>
                  if ip = 0 then (False, io, Some d)
                  else
                    let d = d\<lparr>broadcast_dhcps := lwip_htonl 0xFFFFFFFF, server_address := ip\<rparr>;
                        d = d\<lparr>dhcps_poll := dhcps_poll_set (server_address d) (dhcps_poll d)\<rparr>;
                        d = d\<lparr>client_address_plus := dl_start (dhcps_poll d)\<rparr>
                    in (True, io @ [Udp_bind pcb (ii_ip (dn_info n)) 67, Udp_recv pcb, Sys_timeout DHCP_COARSE_TIMER_MSECS],
                        Some (d\<lparr>dh_state := HANDLE_STARTED\<rparr>)))
      | _ \<Rightarrow> (False, [], h))"

fun stop_loop :: "list_node list \<Rightarrow> list_node list \<Rightarrow> list_node list" where
  "stop_loop [] pl = pl"
| "stop_loop (n # ns) pl = stop_loop ns (node_remove_from_list (ln_addr n) pl)"

definition dhcps_stop :: "dhcp_netif option \<Rightarrow> dhcps option \<Rightarrow> bool \<times> dhcp_io list \<times> dhcps option" where
  "dhcps_stop netif h =
     (case (h, netif) of
        (Some d, Some n) \<Rightarrow>
          if map_option dn_id (dh_netif d) \<noteq> Some (dn_id n) then (False, [], Some d)
          else
            let (io, d) = (case dhcps_pcb d of
                   Some pcb \<Rightarrow> ([Udp_disconnect pcb, Udp_remove pcb], d\<lparr>dhcps_pcb := None\<rparr>)
                 | None \<Rightarrow> ([], d));
                d = d\<lparr>plist := stop_loop (plist d) (plist d)\<rparr>
            in (True, io @ [Sys_untimeout], Some (d\<lparr>dh_state := HANDLE_STOPPED\<rparr>))
      | _ \<Rightarrow> (False, [], h))"

text \<open>The search of \<open>kill_oldest_dhcps_pool\<close> starts at the second node and never looks at the first.\<close>

fun oldest_after :: "list_node \<Rightarrow> list_node list \<Rightarrow> list_node" where
  "oldest_after mn [] = mn"
| "oldest_after mn (p # ps) =
     oldest_after (if dp_timer (ln_pool p) < dp_timer (ln_pool mn) then p else mn) ps"

definition kill_oldest_dhcps_pool :: "list_node list \<Rightarrow> dhcp_error + list_node list" where
  "kill_oldest_dhcps_pool pl =
     (case pl of
        h # p # ps \<Rightarrow> Inr (unlink (ln_addr (oldest_after p (p # ps))) pl)
      | _ \<Rightarrow> Inl DHCP_NULL_DEREF)"

text \<open>The loop of \<open>dhcps_tmr\<close>: the nodes still to visit, the list, the 8-bit count of those kept.\<close>

fun tmr_loop :: "nat list \<Rightarrow> list_node list \<Rightarrow> u8 \<Rightarrow> list_node list \<times> u8" where
  "tmr_loop [] pl n = (pl, n)"
| "tmr_loop (a # as) pl n =
     (let pl = map (\<lambda>x. if ln_addr x = a then x\<lparr>ln_pool := (ln_pool x)\<lparr>dp_timer := dp_timer (ln_pool x) - 1\<rparr>\<rparr> else x) pl
      in if \<exists>x \<in> set pl. ln_addr x = a \<and> dp_timer (ln_pool x) = 0
         then tmr_loop as (node_remove_from_list a pl) n
         else tmr_loop as pl (n + 1))"

definition dhcps_tmr :: "dhcps \<Rightarrow> dhcp_error + dhcp_io list \<times> dhcps option" where
  "dhcps_tmr d =
     (if dh_state d = HANDLE_DELETE_PENDING then Inr ([], None)
      else if dh_state d \<noteq> HANDLE_STARTED then Inr ([], Some d)
      else
        let (pl, n) = tmr_loop (map ln_addr (plist d)) (plist d) 0;
            io = [Sys_timeout DHCP_COARSE_TIMER_MSECS]
        in if 500 < unat n
           then bindR (kill_oldest_dhcps_pool pl) (\<lambda>pl. Inr (io, Some (d\<lparr>plist := pl\<rparr>)))
           else Inr (io, Some (d\<lparr>plist := pl\<rparr>)))"

end
