(* ===== verification/DhcpProps.thy ===== *)
theory DhcpProps
  imports DhcpServer
begin

text \<open>
  The leases of the DHCP server: the address pool and the choice of a free address, the invariant
  of the lease list over every history, and the timer.
\<close>

section \<open>Addresses of one pool\<close>

text \<open>
  The code compares addresses as they lie in memory, so the last octet is the most significant
  byte. The addresses of one /24 network are \<open>pool_ip N h\<close> for the three common octets \<open>N\<close>.
\<close>

definition pool_ip :: "nat \<Rightarrow> nat \<Rightarrow> u32" where
  "pool_ip N h = of_nat (N + 16777216 * h)"

lemma unat_pool_ip: "N < 16777216 \<Longrightarrow> h < 256 \<Longrightarrow> unat (pool_ip N h) = N + 16777216 * h"
  unfolding pool_ip_def by (simp only: unat_of_nat) simp

lemma pool_ip_less_iff: "N < 16777216 \<Longrightarrow> h < 256 \<Longrightarrow> k < 256 \<Longrightarrow> pool_ip N h < pool_ip N k \<longleftrightarrow> h < k"
  by (simp add: word_less_nat_alt unat_pool_ip)

lemma pool_ip_eq_iff: "N < 16777216 \<Longrightarrow> h < 256 \<Longrightarrow> k < 256 \<Longrightarrow> pool_ip N h = pool_ip N k \<longleftrightarrow> h = k"
  by (simp add: word_unat_eq_iff unat_pool_ip)

lemma pool_ip_le32: "pool_ip (unat a + 256 * unat b + 65536 * unat c) (unat d) = le32 a b c d"
  by (simp add: word_unat_eq_iff unat_le32 pool_ip_def le32_sum)

lemma net_cases:
  assumes "N < 16777216"
  obtains a b c :: u8 where "N = unat a + 256 * unat b + 65536 * unat c"
proof
  have "unat (of_nat (N mod 256) :: u8) = N mod 256" "unat (of_nat (N div 256 mod 256) :: u8) = N div 256 mod 256"
    by (simp_all only: unat_of_nat) simp_all
  moreover have "unat (of_nat (N div 65536) :: u8) = N div 65536"
    using assms by (simp only: unat_of_nat) simp
  moreover have "N div 65536 = N div 256 div 256" by (simp add: div_mult2_eq)
  then have "N = N mod 256 + 256 * (N div 256 mod 256) + 65536 * (N div 65536)"
    using div_mult_mod_eq [of N 256] div_mult_mod_eq [of "N div 256" 256] by linarith
  ultimately show "N = unat (of_nat (N mod 256) :: u8) + 256 * unat (of_nat (N div 256 mod 256) :: u8)
      + 65536 * unat (of_nat (N div 65536) :: u8)" by simp
qed

lemma next_le32: "d \<noteq> 255 \<Longrightarrow> next_addr (le32 a b c d) = le32 a b c (d + 1)"
proof -
  assume "d \<noteq> 255"
  then have "unat d \<noteq> 255" by (auto simp: word_unat_eq_iff)
  then have "unat d < 255" using unat_u8_less [of d] by linarith
  then have "unat (d + 1) = unat d + 1" by simp
  moreover have "Suc (unat d + 256 * unat c + 65536 * unat b + 16777216 * unat a) < 4294967296"
    using \<open>unat d < 255\<close> unat_u8_less [of a] unat_u8_less [of b] unat_u8_less [of c] by linarith
  ultimately have "le32 d c b a + 1 = le32 (d + 1) c b a"
    by (simp add: word_unat_eq_iff unat_le32 unat_word_ariths)
  then show ?thesis by (simp add: next_addr_def byte_simps)
qed

lemma next_pool_ip:
  assumes N: "N < 16777216" and h: "h < 255"
  shows "next_addr (pool_ip N h) = pool_ip N (Suc h)"
proof -
  obtain a b c where abc: "N = unat (a :: u8) + 256 * unat (b :: u8) + 65536 * unat (c :: u8)"
    using net_cases [OF N] .
  have u: "unat (of_nat h :: u8) = h" "unat (of_nat h + 1 :: u8) = Suc h"
    using h by (simp_all add: unat_of_nat take_bit_nat_eq_self)
  have "of_nat h \<noteq> (255 :: u8)" using u(1) h by auto
  then have "next_addr (le32 a b c (of_nat h)) = le32 a b c (of_nat h + 1)" by (rule next_le32)
  then show ?thesis
    unfolding abc using pool_ip_le32 [of a b c "of_nat h"] pool_ip_le32 [of a b c "of_nat h + 1"] u by simp
qed

section \<open>The search for a free address\<close>

abbreviation (input) "ln_ip n \<equiv> dp_ip (ln_pool n)"
abbreviation (input) "ln_mac n \<equiv> dp_mac (ln_pool n)"

text \<open>The leases are addresses of the pool \<open>s .. e\<close> of the network \<open>N\<close>.\<close>

definition leases_in :: "nat \<Rightarrow> nat \<Rightarrow> nat \<Rightarrow> list_node list \<Rightarrow> bool" where
  "leases_in N s e pl \<longleftrightarrow> (\<forall>n \<in> set pl. \<exists>h. s \<le> h \<and> h \<le> e \<and> ln_ip n = pool_ip N h)"

lemma leases_in_simps [simp]:
  "leases_in N s e []"
  "leases_in N s e (n # pl) \<longleftrightarrow> (\<exists>h. s \<le> h \<and> h \<le> e \<and> ln_ip n = pool_ip N h) \<and> leases_in N s e pl"
  by (simp_all add: leases_in_def)

text \<open>The candidate behind \<open>client_address_plus\<close>: it moves up past every lease it meets.\<close>

lemma scan_plus:
  assumes N: "N < 16777216" "e < 255"
  shows "leases_in N s e pl \<Longrightarrow> sorted_wrt (<) (map ln_ip pl) \<Longrightarrow> mac \<notin> ln_mac ` set pl \<Longrightarrow> k \<le> Suc e \<Longrightarrow>
    sc_plus sc = pool_ip N k \<Longrightarrow> sc_client sc = pool_ip N k \<Longrightarrow>
    \<exists>k' sc'. scan_leases mac pl sc = (None, sc') \<and> k \<le> k' \<and> k' \<le> Suc e \<and> sc_plus sc' = pool_ip N k' \<and>
      sc_client sc' = pool_ip N k' \<and> pool_ip N k' \<notin> ln_ip ` set pl \<and>
      ((\<forall>x \<in> set pl. pool_ip N k < ln_ip x) \<longrightarrow> k' = k)"
proof (induction pl arbitrary: sc k)
  case Nil
  then show ?case by auto
next
  case (Cons n pl)
  obtain h where h: "s \<le> h" "h \<le> e" "ln_ip n = pool_ip N h" using Cons.prems(1) by auto
  have lin: "leases_in N s e pl" and srt: "sorted_wrt (<) (map ln_ip pl)" and mac: "mac \<notin> ln_mac ` set pl" "ln_mac n \<noteq> mac"
    and gt: "\<forall>x \<in> set pl. pool_ip N h < ln_ip x"
    using Cons.prems(1-3) h(3) by auto
  let ?sc = "scan_other (ln_ip n) sc"
  define k1 where "k1 = (if h = k then Suc k else k)"
  have k1: "k1 \<le> Suc e" "k \<le> k1" using h(2) Cons.prems(4) by (auto simp: k1_def)
  have "sc_plus ?sc = pool_ip N k1 \<and> sc_client ?sc = pool_ip N k1"
    using Cons.prems(4-6) h N by (auto simp: scan_other_def Let_def k1_def pool_ip_eq_iff next_pool_ip)
  from Cons.IH [OF lin srt mac(1) k1(1) conjunct1 [OF this] conjunct2 [OF this]]
  obtain k' sc' where r: "scan_leases mac pl ?sc = (None, sc')" "k1 \<le> k'" "k' \<le> Suc e" "sc_plus sc' = pool_ip N k'"
      "sc_client sc' = pool_ip N k'" "pool_ip N k' \<notin> ln_ip ` set pl"
      "(\<forall>x \<in> set pl. pool_ip N k1 < ln_ip x) \<longrightarrow> k' = k1" by blast
  have "h \<noteq> k'"
  proof
    assume eq: "h = k'"
    then have "k < h" using r(2) by (auto simp: k1_def split: if_splits)
    then have "k1 = k" "pool_ip N k < pool_ip N h" using h(2) N by (auto simp: k1_def pool_ip_less_iff)
    then have "k' = k" using r(7) gt less_trans by blast
    with eq \<open>k < h\<close> show False by simp
  qed
  then have "pool_ip N k' \<noteq> ln_ip n" using h N r(3) by (simp add: pool_ip_eq_iff)
  moreover have "(\<forall>x \<in> set (n # pl). pool_ip N k < ln_ip x) \<longrightarrow> k' = k"
    using r(7) h(3) by (auto simp: k1_def)
  ultimately show ?case using r k1 mac by (intro exI [of _ k'] exI [of _ sc']) simp
qed


text \<open>The candidate that counts up from the start of the pool: the lowest address without a lease.\<close>

lemma scan_first:
  assumes N: "N < 16777216" "e < 255"
  shows "leases_in N s e pl \<Longrightarrow> sorted_wrt (<) (map ln_ip pl) \<Longrightarrow> mac \<notin> ln_mac ` set pl \<Longrightarrow>
    (\<forall>x \<in> set pl. pool_ip N f \<le> ln_ip x) \<Longrightarrow> f \<le> Suc e \<Longrightarrow> \<not> sc_flag sc \<Longrightarrow> sc_first sc = pool_ip N f \<Longrightarrow>
    \<exists>f'. sc_first (snd (scan_leases mac pl sc)) = pool_ip N f' \<and> f \<le> f' \<and> f' \<le> Suc e \<and>
      pool_ip N f' \<notin> ln_ip ` set pl \<and> (\<forall>j. f \<le> j \<and> j < f' \<longrightarrow> pool_ip N j \<in> ln_ip ` set pl)"
proof (induction pl arbitrary: sc f)
  case Nil
  then show ?case by auto
next
  case (Cons n pl)
  obtain h where h: "s \<le> h" "h \<le> e" "ln_ip n = pool_ip N h" using Cons.prems(1) by auto
  have lin: "leases_in N s e pl" and srt: "sorted_wrt (<) (map ln_ip pl)" and mac: "mac \<notin> ln_mac ` set pl" "ln_mac n \<noteq> mac"
    and gt: "\<forall>x \<in> set pl. pool_ip N h < ln_ip x"
    using Cons.prems(1-3) h(3) by auto
  let ?sc = "scan_other (ln_ip n) sc"
  have fh: "f \<le> h"
    using Cons.prems(4,5) h N by (simp add: pool_ip_less_iff not_less [symmetric] linorder_not_le)
  have stop: "sc_flag c \<Longrightarrow> sc_first (snd (scan_leases mac xs c)) = sc_first c" for xs c
    by (induction xs arbitrary: c) (auto simp: scan_other_def Let_def)
  show ?case
  proof (cases "f = h")
    case False
    with fh have lt: "f < h" by simp
    then have lt': "pool_ip N f < pool_ip N h" using h N by (simp add: pool_ip_less_iff)
    then have "sc_flag ?sc" "sc_first ?sc = pool_ip N f"
      unfolding h(3) using Cons.prems(6,7) by (auto simp: scan_other_def Let_def)
    then have "sc_first (snd (scan_leases mac (n # pl) sc)) = pool_ip N f"
      using mac(2) stop [of ?sc pl] by simp
    moreover have "pool_ip N f \<notin> ln_ip ` set (n # pl)" using gt h(3) lt' by fastforce
    ultimately show ?thesis using Cons.prems(5) by auto
  next
    case True
    have "next_addr (pool_ip N h) = pool_ip N (Suc h)" using h(2) N by (simp add: next_pool_ip)
    then have nx: "\<not> sc_flag ?sc" "sc_first ?sc = pool_ip N (Suc h)"
      using Cons.prems(6,7) True unfolding h(3) by (auto simp: scan_other_def Let_def)
    have ge: "\<forall>x \<in> set pl. pool_ip N (Suc h) \<le> ln_ip x"
    proof
      fix x assume x: "x \<in> set pl"
      then obtain i where i: "i \<le> e" "ln_ip x = pool_ip N i" using lin by (auto simp: leases_in_def)
      then have "h < i" using gt x h N by (auto simp: pool_ip_less_iff)
      then show "pool_ip N (Suc h) \<le> ln_ip x" using i h N by (auto simp: linorder_not_less [symmetric] pool_ip_less_iff)
    qed
    from Cons.IH [OF lin srt mac(1) ge _ nx] h(2) obtain f' where
      f': "sc_first (snd (scan_leases mac pl ?sc)) = pool_ip N f'" "Suc h \<le> f'" "f' \<le> Suc e"
        "pool_ip N f' \<notin> ln_ip ` set pl" "\<forall>j. Suc h \<le> j \<and> j < f' \<longrightarrow> pool_ip N j \<in> ln_ip ` set pl" by auto
    have "pool_ip N f' \<noteq> ln_ip n" using f'(2,3) h N by (simp add: pool_ip_eq_iff)
    moreover have "pool_ip N j \<in> ln_ip ` set (n # pl)" if "f \<le> j" "j < f'" for j
      using that f'(5) h(3) True by (cases "j = h") auto
    ultimately show ?thesis using f' mac(2) True by (intro exI [of _ f']) auto
  qed
qed


section \<open>Insertion and removal\<close>

lemma insert_after_split:
  "\<exists>us vs. xs = us @ vs \<and> insert_after n xs = us @ n # vs \<and> (\<forall>u \<in> set us. ln_ip u \<le> ln_ip n) \<and>
     (\<forall>v \<in> set (take 1 vs). ln_ip n < ln_ip v)"
proof (induction xs)
  case Nil
  show ?case by simp
next
  case (Cons x xs)
  show ?case
  proof (cases "ln_ip n < ln_ip x")
    case True
    then show ?thesis by (intro exI [of _ "[]"] exI [of _ "x # xs"]) simp
  next
    case False
    obtain us vs where "xs = us @ vs" "insert_after n xs = us @ n # vs" "\<forall>u \<in> set us. ln_ip u \<le> ln_ip n"
      "\<forall>v \<in> set (take 1 vs). ln_ip n < ln_ip v" using Cons.IH by blast
    then show ?thesis using False by (intro exI [of _ "x # us"] exI [of _ vs]) auto
  qed
qed

lemma node_insert_eq: "node_insert_to_list n xs = insert_after n xs"
  by (cases xs) auto

lemma set_node_insert [simp]: "set (node_insert_to_list n xs) = insert n (set xs)"
  using insert_after_split [of xs n] by (auto simp: node_insert_eq)

lemma distinct_node_insert:
  "distinct (map f (node_insert_to_list n xs)) \<longleftrightarrow> f n \<notin> f ` set xs \<and> distinct (map f xs)"
  using insert_after_split [of xs n] by (auto simp: node_insert_eq)

lemma sorted_node_insert:
  assumes "sorted_wrt (<) (map ln_ip xs)" and "ln_ip n \<notin> ln_ip ` set xs"
  shows "sorted_wrt (<) (map ln_ip (node_insert_to_list n xs))"
proof -
  obtain us vs where sp: "xs = us @ vs" "insert_after n xs = us @ n # vs" "\<forall>u \<in> set us. ln_ip u \<le> ln_ip n"
    "\<forall>v \<in> set (take 1 vs). ln_ip n < ln_ip v" using insert_after_split [of xs n] by blast
  have "ln_ip n < ln_ip v" if "v \<in> set vs" for v
    using that sp(1,4) assms(1) by (cases vs) (auto simp: sorted_wrt_append)
  moreover have "ln_ip u < ln_ip n" if "u \<in> set us" for u
  proof -
    have "ln_ip u \<le> ln_ip n" "u \<in> set xs" using that sp(1,3) by auto
    moreover from this(2) have "ln_ip u \<noteq> ln_ip n" using assms(2) by (metis imageI)
    ultimately show ?thesis by simp
  qed
  ultimately show ?thesis
    using assms(1) unfolding node_insert_eq sp(2) by (auto simp: sp(1) sorted_wrt_append)
qed

lemma unlink_absent: "a \<notin> ln_addr ` set xs \<Longrightarrow> unlink a xs = xs"
  by (induction a xs rule: unlink.induct) auto

lemma filter_absent: "a \<notin> ln_addr ` set xs \<Longrightarrow> filter (\<lambda>n. ln_addr n \<noteq> a) xs = xs"
  by (induction xs) auto

lemma unlink_eq: "distinct (map ln_addr (h # xs)) \<Longrightarrow> ln_addr h \<noteq> a \<Longrightarrow>
  unlink a (h # xs) = h # filter (\<lambda>n. ln_addr n \<noteq> a) xs"
proof (induction xs arbitrary: h)
  case Nil
  show ?case by simp
next
  case (Cons y ys)
  show ?case
  proof (cases "ln_addr y = a")
    case True
    then have "a \<notin> ln_addr ` set ys" using Cons.prems(1) by auto
    then show ?thesis using True by (simp add: unlink_absent filter_absent)
  next
    case False
    then show ?thesis using Cons.IH [of y] Cons.prems by simp
  qed
qed

lemma node_remove_eq: "distinct (map ln_addr xs) \<Longrightarrow> node_remove_from_list a xs = filter (\<lambda>n. ln_addr n \<noteq> a) xs"
proof (cases xs)
  case (Cons h ys)
  assume d: "distinct (map ln_addr xs)"
  show ?thesis
  proof (cases "ln_addr h = a")
    case True
    then show ?thesis using d Cons by (simp add: filter_absent)
  next
    case False
    then show ?thesis using unlink_eq [of h ys a] d Cons by simp
  qed
qed simp

lemma map_set_timer [simp]:
  "map ln_ip (set_timer a t xs) = map ln_ip xs" "map ln_mac (set_timer a t xs) = map ln_mac xs"
  "map ln_addr (set_timer a t xs) = map ln_addr xs"
  by (simp_all add: set_timer_def)

section \<open>The invariant\<close>

definition pool_set :: "nat \<Rightarrow> nat \<Rightarrow> nat \<Rightarrow> dhcps_lease \<Rightarrow> bool" where
  "pool_set N s e l \<longleftrightarrow> N < 16777216 \<and> 0 < s \<and> s \<le> e \<and> e < 255 \<and> dl_start l = pool_ip N s \<and> dl_end l = pool_ip N e"

definition dhcp_inv :: "nat \<Rightarrow> nat \<Rightarrow> nat \<Rightarrow> dhcps \<Rightarrow> bool" where
  "dhcp_inv N s e d \<longleftrightarrow> pool_set N s e (dhcps_poll d) \<and> leases_in N s e (plist d) \<and>
     sorted_wrt (<) (map ln_ip (plist d)) \<and> distinct (map ln_mac (plist d)) \<and> distinct (map ln_addr (plist d)) \<and>
     (\<exists>k. s \<le> k \<and> k \<le> Suc e \<and> client_address_plus d = pool_ip N k)"

lemma leases_in_map: "leases_in N s e pl \<longleftrightarrow> (\<forall>a \<in> set (map ln_ip pl). \<exists>h. s \<le> h \<and> h \<le> e \<and> a = pool_ip N h)"
  by (auto simp: leases_in_def)

lemma dhcp_inv_remove:
  assumes "dhcp_inv N s e d"
  shows "dhcp_inv N s e (drop_lease p d)"
proof (cases p)
  case (Some a)
  have "distinct (map ln_addr (plist d))" using assms by (simp add: dhcp_inv_def)
  with assms show ?thesis
    unfolding dhcp_inv_def drop_lease_def Some
    by (auto simp: node_remove_eq leases_in_def distinct_map_filter sorted_wrt_map intro: sorted_wrt_filter)
qed (use assms in \<open>simp add: drop_lease_def\<close>)

lemma dhcp_inv_cong:
  "plist d' = plist d \<Longrightarrow> dhcps_poll d' = dhcps_poll d \<Longrightarrow> client_address_plus d' = client_address_plus d \<Longrightarrow>
   dhcp_inv N s e d' = dhcp_inv N s e d"
  by (simp add: dhcp_inv_def)


text \<open>
  What the search hands over to \<open>new_lease\<close>: a free address of the pool or one past its end, and the
  lowest free address.
\<close>

lemma scan_free:
  assumes inv: "dhcp_inv N s e d" and mac: "mac \<notin> ln_mac ` set (plist d)"
    and sc: "sc = \<lparr>sc_client = client_address_plus d, sc_plus = client_address_plus d,
      sc_first = dl_start (dhcps_poll d), sc_flag = False\<rparr>"
  obtains k f sc' where "scan_leases mac (plist d) sc = (None, sc')"
    and "s \<le> k" "k \<le> Suc e" "sc_plus sc' = pool_ip N k" "sc_client sc' = pool_ip N k" "pool_ip N k \<notin> ln_ip ` set (plist d)"
    and "s \<le> f" "f \<le> Suc e" "sc_first sc' = pool_ip N f" "pool_ip N f \<notin> ln_ip ` set (plist d)"
    and "\<forall>j. s \<le> j \<and> j < f \<longrightarrow> pool_ip N j \<in> ln_ip ` set (plist d)"
proof -
  have ps: "pool_set N s e (dhcps_poll d)" and lin: "leases_in N s e (plist d)" and srt: "sorted_wrt (<) (map ln_ip (plist d))"
    using inv by (simp_all add: dhcp_inv_def)
  then have N: "N < 16777216" "e < 255" "s \<le> e" "dl_start (dhcps_poll d) = pool_ip N s" by (simp_all add: pool_set_def)
  obtain k0 where k0: "s \<le> k0" "k0 \<le> Suc e" "client_address_plus d = pool_ip N k0" using inv by (auto simp: dhcp_inv_def)
  obtain k sc' where k: "scan_leases mac (plist d) sc = (None, sc')" "k0 \<le> k" "k \<le> Suc e" "sc_plus sc' = pool_ip N k"
      "sc_client sc' = pool_ip N k" "pool_ip N k \<notin> ln_ip ` set (plist d)"
    using scan_plus [OF N(1,2) lin srt mac k0(2), of sc] by (auto simp: sc k0(3))
  have ge: "\<forall>x \<in> set (plist d). pool_ip N s \<le> ln_ip x"
    using lin N by (fastforce simp: leases_in_def linorder_not_less [symmetric] pool_ip_less_iff)
  have "\<not> sc_flag sc" "sc_first sc = pool_ip N s" "s \<le> Suc e" using N by (simp_all add: sc)
  from scan_first [OF N(1,2) lin srt mac ge this(3,1,2)] k(1) obtain f where
    f: "sc_first sc' = pool_ip N f" "s \<le> f" "f \<le> Suc e" "pool_ip N f \<notin> ln_ip ` set (plist d)"
      "\<forall>j. s \<le> j \<and> j < f \<longrightarrow> pool_ip N j \<in> ln_ip ` set (plist d)" by auto
  show ?thesis using that [OF k(1) _ k(3-6) f(2,3,1,4,5)] k(2) k0(1) by simp
qed

text \<open>A new lease takes a free address; only a full pool gives none.\<close>

lemma new_lease_cases:
  assumes inv: "dhcp_inv N s e d" and mac: "mac \<notin> ln_mac ` set (plist d)"
    and k: "s \<le> k" "k \<le> Suc e" "client_address_plus d = pool_ip N k"
    and c: "client_address d = pool_ip N k \<or> plist d = [] \<and> client_address d = pool_ip N s"
    and kf: "pool_ip N k \<notin> ln_ip ` set (plist d)"
    and f: "s \<le> f" "f \<le> Suc e" "pool_ip N f \<notin> ln_ip ` set (plist d)" "\<forall>j. s \<le> j \<and> j < f \<longrightarrow> pool_ip N j \<in> ln_ip ` set (plist d)"
    and fresh: "\<forall>a. de_node env = Some a \<longrightarrow> a \<notin> ln_addr ` set (plist d)"
    and r: "new_lease env mac t (pool_ip N f) d = Inr (pn, d')"
  shows "dhcp_inv N s e d' \<and> dhcps_poll d' = dhcps_poll d \<and>
    (\<exists>h. client_address d' = pool_ip N h \<and> h \<le> Suc e \<and>
      (if h \<le> e then s \<le> h \<and> pool_ip N h \<notin> ln_ip ` set (plist d) \<and>
         (\<exists>a. pn = Some a \<and> de_node env = Some a \<and> plist d' =
           node_insert_to_list \<lparr>ln_addr = a, ln_pool = \<lparr>dp_ip = pool_ip N h, dp_mac = mac, dp_timer = t\<rparr>\<rparr> (plist d))
       else pn = None \<and> plist d' = plist d \<and> (\<forall>j. s \<le> j \<and> j \<le> e \<longrightarrow> pool_ip N j \<in> ln_ip ` set (plist d))))"
proof -
  have ps: "pool_set N s e (dhcps_poll d)" using inv by (simp add: dhcp_inv_def)
  then have N: "N < 16777216" "0 < s" "s \<le> e" "e < 255" and l: "dl_start (dhcps_poll d) = pool_ip N s" "dl_end (dhcps_poll d) = pool_ip N e"
    by (simp_all add: pool_set_def)
  define h where "h = (if k = Suc e then f else if plist d = [] \<and> client_address d = pool_ip N s then s else k)"
  define d1 where "d1 = (if dl_end (dhcps_poll d) < client_address_plus d then d\<lparr>client_address := pool_ip N f\<rparr> else d)"
  have gt: "dl_end (dhcps_poll d) < client_address_plus d \<longleftrightarrow> k = Suc e"
    using k N by (auto simp: l k(3) pool_ip_less_iff)
  have d1: "client_address d1 = pool_ip N h" "plist d1 = plist d" "dhcps_poll d1 = dhcps_poll d" "client_address_plus d1 = client_address_plus d"
    using c by (auto simp: d1_def gt h_def)
  have h: "s \<le> h" "h \<le> Suc e" "pool_ip N h \<notin> ln_ip ` set (plist d)" using k f kf N by (auto simp: h_def)
  show ?thesis
  proof (cases "h = Suc e")
    case True
    then have "dl_end (dhcps_poll d1) < client_address d1" using N by (simp add: d1 l pool_ip_less_iff)
    then have r': "pn = None" "d' = d1\<lparr>client_address_plus := dl_start (dhcps_poll d)\<rparr>"
      using r unfolding new_lease_def d1_def [symmetric] Let_def by (simp_all add: d1)
    have "f = Suc e" using True k N by (auto simp: h_def split: if_splits)
    then have "\<forall>j. s \<le> j \<and> j \<le> e \<longrightarrow> pool_ip N j \<in> ln_ip ` set (plist d)" using f(4) by auto
    moreover have "dhcp_inv N s e d'"
      using inv N l unfolding r' dhcp_inv_def by (auto simp: d1)
    ultimately show ?thesis using r' True by (auto simp: d1 intro!: exI [of _ h])
  next
    case False
    then have le: "h \<le> e" using h by simp
    then have nlt: "\<not> dl_end (dhcps_poll d1) < client_address d1" using N by (simp add: d1 l pool_ip_less_iff)
    obtain a where a: "de_node env = Some a" "pn = Some a"
      and d': "d' = (let d2 = d1\<lparr>plist := node_insert_to_list \<lparr>ln_addr = a, ln_pool = \<lparr>dp_ip = pool_ip N h, dp_mac = mac, dp_timer = t\<rparr>\<rparr> (plist d)\<rparr>
        in if h = e then d2\<lparr>client_address_plus := pool_ip N s\<rparr> else d2\<lparr>client_address_plus := next_addr (pool_ip N h)\<rparr>)"
      using r nlt N le unfolding new_lease_def d1_def [symmetric] Let_def
      by (auto simp: d1 l pool_ip_eq_iff split: if_splits option.splits)
    let ?n = "\<lparr>ln_addr = a, ln_pool = \<lparr>dp_ip = pool_ip N h, dp_mac = mac, dp_timer = t\<rparr>\<rparr>"
    have pl: "plist d' = node_insert_to_list ?n (plist d)" "dhcps_poll d' = dhcps_poll d" "client_address d' = pool_ip N h"
      by (simp_all add: d' Let_def d1)
    have plus: "client_address_plus d' = pool_ip N (if h = e then s else Suc h)"
      using le N by (simp add: d' Let_def next_pool_ip)
    have "dhcp_inv N s e d'"
      unfolding dhcp_inv_def pl plus
      using inv ps h(1,3) le mac fresh a(1) N
      by (intro conjI exI [of _ "if h = e then s else Suc h"])
        (auto simp: dhcp_inv_def leases_in_def distinct_node_insert intro!: sorted_node_insert)
    then show ?thesis using pl a h le by (auto intro!: exI [of _ h])
  qed
qed


section \<open>Every operation keeps the invariant\<close>

lemma dhcp_inv_client [simp]:
  "dhcp_inv N s e (d\<lparr>client_address := a\<rparr>) = dhcp_inv N s e d"
  "dhcp_inv N s e (d\<lparr>renew := b\<rparr>) = dhcp_inv N s e d"
  by (simp_all add: dhcp_inv_def)

lemma dhcp_inv_timer: "dhcp_inv N s e d \<Longrightarrow> dhcp_inv N s e (d\<lparr>plist := set_timer a t (plist d)\<rparr>)"
  unfolding dhcp_inv_def leases_in_map by simp

lemma pool_check_inv:
  assumes "dhcp_inv N s e d" and "pool_check m len pn d = Inr (ret, d')"
  shows "dhcp_inv N s e d'"
  using assms by (auto simp: pool_check_def res_simps dhcp_inv_remove split: if_splits)

lemma scan_hit:
  assumes N: "N < 16777216" "e < 255"
  shows "leases_in N s e pl \<Longrightarrow> mac \<in> ln_mac ` set pl \<Longrightarrow> k \<le> Suc e \<Longrightarrow> sc_plus sc = pool_ip N k \<Longrightarrow>
    \<exists>n sc' k'. scan_leases mac pl sc = (Some n, sc') \<and> n \<in> set pl \<and> ln_mac n = mac \<and> k \<le> k' \<and> k' \<le> Suc e \<and>
      sc_plus sc' = pool_ip N k'"
proof (induction pl arbitrary: sc k)
  case Nil
  then show ?case by simp
next
  case (Cons n pl)
  show ?case
  proof (cases "ln_mac n = mac")
    case True
    then show ?thesis using Cons.prems(3,4) by auto
  next
    case False
    obtain h where h: "s \<le> h" "h \<le> e" "ln_ip n = pool_ip N h" using Cons.prems(1) by auto
    define k1 where "k1 = (if h = k then Suc k else k)"
    have k1: "k1 \<le> Suc e" "k \<le> k1" using h(2) Cons.prems(3) by (auto simp: k1_def)
    have "sc_plus (scan_other (ln_ip n) sc) = pool_ip N k1"
      using Cons.prems(3,4) h N by (auto simp: scan_other_def Let_def k1_def pool_ip_eq_iff next_pool_ip)
    moreover have "leases_in N s e pl" "mac \<in> ln_mac ` set pl" using Cons.prems(1,2) False by auto
    ultimately obtain n' sc' k' where "scan_leases mac pl (scan_other (ln_ip n) sc) = (Some n', sc')" "n' \<in> set pl"
      "ln_mac n' = mac" "k1 \<le> k'" "k' \<le> Suc e" "sc_plus sc' = pool_ip N k'"
      using Cons.IH [OF _ _ k1(1)] by blast
    moreover have "k \<le> k'" using k1(2) \<open>k1 \<le> k'\<close> by simp
    ultimately show ?thesis using False by (intro exI [of _ n'] exI [of _ sc'] exI [of _ k']) simp
  qed
qed

text \<open>What a request never changes: the configuration of the server.\<close>

definition dhcp_cfg :: "dhcps \<Rightarrow> dhcps" where
  "dhcp_cfg d = d\<lparr>plist := [], client_address := 0, client_address_plus := 0, renew := False\<rparr>"

definition lease_ticks :: "dhcps \<Rightarrow> u32" where
  "lease_ticks d = (dhcps_lease_time d * DHCPS_LEASE_UNIT) div 1"

lemma parse_msg_known:
  assumes inv: "dhcp_inv N s e d" and magic: "ld_bytes m o_options 4 = bytes32 magic_cookie"
    and mac: "ld_bytes m o_chaddr 6 \<in> ln_mac ` set (plist d)"
  obtains n d2 where "n \<in> set (plist d)" "ln_mac n = ld_bytes m o_chaddr 6" "parse_msg env m len d = pool_check m len (Some (ln_addr n)) d2"
    "dhcp_inv N s e d2" "client_address d2 = ln_ip n" "plist d2 = set_timer (ln_addr n) (lease_ticks d) (plist d)"
    "renew d2 \<longleftrightarrow> bytes32 (ln_ip n) = ld_bytes m o_ciaddr 4" "dhcp_cfg d2 = dhcp_cfg d"
proof -
  have ps: "pool_set N s e (dhcps_poll d)" and lin: "leases_in N s e (plist d)" using inv by (simp_all add: dhcp_inv_def)
  then have N: "N < 16777216" "e < 255" by (simp_all add: pool_set_def)
  obtain k where k: "s \<le> k" "k \<le> Suc e" "client_address_plus d = pool_ip N k" using inv by (auto simp: dhcp_inv_def)
  let ?sc = "\<lparr>sc_client = client_address_plus d, sc_plus = client_address_plus d, sc_first = dl_start (dhcps_poll d), sc_flag = False\<rparr>"
  have "sc_plus ?sc = pool_ip N k" using k(3) by simp
  from scan_hit [OF N lin mac k(2) this] obtain n sc' k' where
    h: "scan_leases (ld_bytes m o_chaddr 6) (plist d) ?sc = (Some n, sc')" "n \<in> set (plist d)" "ln_mac n = ld_bytes m o_chaddr 6"
      "k \<le> k'" "k' \<le> Suc e" "sc_plus sc' = pool_ip N k'" by blast
  let ?d1 = "d\<lparr>client_address := ln_ip n, client_address_plus := sc_plus sc', renew := (bytes32 (ln_ip n) = ld_bytes m o_ciaddr 4)\<rparr>"
  let ?d2 = "?d1\<lparr>plist := set_timer (ln_addr n) (lease_ticks d) (plist d)\<rparr>"
  have "s \<le> k' \<and> k' \<le> Suc e \<and> client_address_plus ?d1 = pool_ip N k'" using k(1) h(4-6) by simp
  then have "dhcp_inv N s e ?d1" using inv unfolding dhcp_inv_def by auto
  from dhcp_inv_timer [OF this] have "dhcp_inv N s e ?d2" by simp
  moreover have "parse_msg env m len d = pool_check m len (Some (ln_addr n)) ?d2"
    using magic h(1) unfolding parse_msg_def Let_def lease_ticks_def
    by simp (intro conjI impI arg_cong [where f = "pool_check m len (Some (ln_addr n))"] dhcps.equality; simp)
  ultimately show ?thesis using that [of n ?d2] h(2,3) by (simp add: dhcp_cfg_def)
qed

lemma parse_msg_new:
  assumes inv: "dhcp_inv N s e d" and magic: "ld_bytes m o_options 4 = bytes32 magic_cookie"
    and mac: "ld_bytes m o_chaddr 6 \<notin> ln_mac ` set (plist d)"
    and fresh: "\<And>a. de_node env = Some a \<Longrightarrow> a \<notin> ln_addr ` set (plist d)"
  obtains (failed) "parse_msg env m len d = Inl DHCP_NULL_DEREF" "\<not> de_pool env \<or> de_node env = None"
  | (full) d2 where "parse_msg env m len d = Inr (4, d2)" "\<forall>j. s \<le> j \<and> j \<le> e \<longrightarrow> pool_ip N j \<in> ln_ip ` set (plist d)"
      "dhcp_inv N s e d2" "plist d2 = plist d" "dhcp_cfg d2 = dhcp_cfg d" "client_address d2 = pool_ip N (Suc e)"
  | (leased) a h d2 where "de_node env = Some a" "s \<le> h" "h \<le> e" "pool_ip N h \<notin> ln_ip ` set (plist d)"
      "parse_msg env m len d = pool_check m len (Some a) d2" "dhcp_inv N s e d2" "client_address d2 = pool_ip N h"
      "plist d2 = node_insert_to_list
         \<lparr>ln_addr = a, ln_pool = \<lparr>dp_ip = pool_ip N h, dp_mac = ld_bytes m o_chaddr 6, dp_timer = lease_ticks d\<rparr>\<rparr> (plist d)"
      "\<not> renew d2" "dhcp_cfg d2 = dhcp_cfg d"
proof -
  let ?mac = "ld_bytes m o_chaddr 6"
  define sc where "sc = \<lparr>sc_client = client_address_plus d, sc_plus = client_address_plus d,
      sc_first = dl_start (dhcps_poll d), sc_flag = False\<rparr>"
  obtain k f sc1 where k: "scan_leases ?mac (plist d) sc = (None, sc1)"
    "s \<le> k" "k \<le> Suc e" "sc_plus sc1 = pool_ip N k" "sc_client sc1 = pool_ip N k" "pool_ip N k \<notin> ln_ip ` set (plist d)"
    "s \<le> f" "f \<le> Suc e" "sc_first sc1 = pool_ip N f" "pool_ip N f \<notin> ln_ip ` set (plist d)"
    "\<forall>j. s \<le> j \<and> j < f \<longrightarrow> pool_ip N j \<in> ln_ip ` set (plist d)"
    by (rule scan_free [OF inv mac sc_def])
  have ps: "pool_set N s e (dhcps_poll d)" using inv by (simp add: dhcp_inv_def)
  then have N: "N < 16777216" "0 < s" "e < 255" "dl_start (dhcps_poll d) = pool_ip N s" "dl_end (dhcps_poll d) = pool_ip N e"
    by (simp_all add: pool_set_def)
  let ?d1 = "d\<lparr>renew := False, client_address := sc_client sc1, client_address_plus := sc_plus sc1\<rparr>"
  define d2 where "d2 = (if plist d = [] then ?d1\<lparr>client_address := dl_start (dhcps_poll d)\<rparr> else ?d1)"
  have d2: "plist d2 = plist d" "dhcps_poll d2 = dhcps_poll d" "client_address_plus d2 = pool_ip N k" "dhcp_cfg d2 = dhcp_cfg d"
    "\<not> renew d2" "client_address d2 = pool_ip N k \<or> plist d2 = [] \<and> client_address d2 = pool_ip N s"
    using N by (auto simp: d2_def k dhcp_cfg_def)
  have inv2: "dhcp_inv N s e d2" using inv k(2,3) d2 by (auto simp: dhcp_inv_def)
  have e: "parse_msg env m len d = bindR (new_lease env ?mac (lease_ticks d) (pool_ip N f) d2) (\<lambda>(pnode, d). pool_check m len pnode d)"
    using magic k(1) unfolding sc_def by (simp add: parse_msg_def Let_def lease_ticks_def d2_def k(9) cong: if_cong)
  show thesis
  proof (cases "new_lease env ?mac (lease_ticks d) (pool_ip N f) d2")
    case (Inl x)
    then have "x = DHCP_NULL_DEREF" "\<not> de_pool env \<or> de_node env = None"
      by (auto simp: new_lease_def Let_def split: if_splits option.splits)
    then show thesis using failed e Inl by simp
  next
    case (Inr pd)
    obtain pn d3 where pd: "pd = (pn, d3)" by (cases pd)
    note r = Inr [unfolded pd]
    have cfg: "dhcp_cfg d3 = dhcp_cfg d" "\<not> renew d3"
      using r d2 by (auto simp: new_lease_def Let_def dhcp_cfg_def split: if_splits option.splits)
    have fr: "\<forall>a. de_node env = Some a \<longrightarrow> a \<notin> ln_addr ` set (plist d2)" using fresh d2 by simp
    from new_lease_cases [OF inv2 _ k(2,3) d2(3,6) _ k(7,8) _ _ fr r, unfolded d2(1), OF mac k(6,10,11)] obtain h where h: "client_address d3 = pool_ip N h" "dhcp_inv N s e d3" "dhcps_poll d3 = dhcps_poll d2" "h \<le> Suc e"
      "if h \<le> e then s \<le> h \<and> pool_ip N h \<notin> ln_ip ` set (plist d) \<and>
         (\<exists>a. pn = Some a \<and> de_node env = Some a \<and> plist d3 = node_insert_to_list
            \<lparr>ln_addr = a, ln_pool = \<lparr>dp_ip = pool_ip N h, dp_mac = ?mac, dp_timer = lease_ticks d\<rparr>\<rparr> (plist d))
       else pn = None \<and> plist d3 = plist d \<and> (\<forall>j. s \<le> j \<and> j \<le> e \<longrightarrow> pool_ip N j \<in> ln_ip ` set (plist d))"
      by (elim conjE exE)
    show thesis
    proof (cases "h \<le> e")
      case True
      with h(5) obtain a where a: "s \<le> h" "pool_ip N h \<notin> ln_ip ` set (plist d)" "pn = Some a" "de_node env = Some a"
        "plist d3 = node_insert_to_list
            \<lparr>ln_addr = a, ln_pool = \<lparr>dp_ip = pool_ip N h, dp_mac = ?mac, dp_timer = lease_ticks d\<rparr>\<rparr> (plist d)" by auto
      have "parse_msg env m len d = pool_check m len (Some a) d3" using e r a(3) by simp
      from leased [OF a(4,1) True a(2) this h(2,1) a(5) cfg(2,1)] show thesis .
    next
      case False
      with h(4) have "h = Suc e" by simp
      then have "dl_end (dhcps_poll d3) < client_address d3" using h(1,3) d2(2) N by (simp add: pool_ip_less_iff)
      with h(5) False have "parse_msg env m len d = Inr (4, d3)" using e r by (simp add: pool_check_def drop_lease_def)
      from full [OF this _ h(2) _ cfg(1)] show thesis using h(1,5) False \<open>h = Suc e\<close> by auto
    qed
  qed
qed

lemma parse_msg_inv:
  assumes inv: "dhcp_inv N s e d" and fresh: "\<And>a. de_node env = Some a \<Longrightarrow> a \<notin> ln_addr ` set (plist d)"
    and r: "parse_msg env m len d = Inr (ret, d')"
  shows "dhcp_inv N s e d'"
proof (cases "ld_bytes m o_options 4 = bytes32 magic_cookie")
  case False
  then show ?thesis using r inv by (simp add: parse_msg_def)
next
  case magic: True
  show ?thesis
  proof (cases "ld_bytes m o_chaddr 6 \<in> ln_mac ` set (plist d)")
    case True
    show ?thesis
    proof (rule parse_msg_known [OF inv magic True, of env len])
      fix n d2 assume "parse_msg env m len d = pool_check m len (Some (ln_addr n)) d2" "dhcp_inv N s e d2"
      then show ?thesis using r pool_check_inv by metis
    qed
  next
    case False
    show ?thesis
    proof (rule parse_msg_new [OF inv magic False fresh, where len = len])
      assume "parse_msg env m len d = Inl DHCP_NULL_DEREF"
      then show ?thesis using r by simp
    next
      fix d2 assume "parse_msg env m len d = Inr (4, d2)" "dhcp_inv N s e d2"
      then show ?thesis using r by simp
    next
      fix a d2 assume "parse_msg env m len d = pool_check m len (Some a) d2" "dhcp_inv N s e d2"
      then show ?thesis using r pool_check_inv by metis
    qed
  qed
qed

lemma handle_dhcp_inv:
  assumes "dhcp_inv N s e d" and "\<And>a. de_node env = Some a \<Longrightarrow> a \<notin> ln_addr ` set (plist d)"
    and "handle_dhcp env junk p d = Inr (io, d')"
  shows "dhcp_inv N s e d'"
  using assms parse_msg_inv [OF assms(1,2)]
  by (auto simp: handle_dhcp_def res_simps Let_def split: option.splits if_splits)

section \<open>The pool of a server\<close>

lemma bit_u8_less: "bit (x :: u8) n \<Longrightarrow> n < 8"
  by (meson bit_u8_ge not_le)

lemma le32_low_byte: "le32 x c b a AND 0xFF = ucast x"
  unfolding byte_masks32 by (rule bit_word_eqI) (auto simp: le32_def bit_simps dest: bit_u8_less)

lemma le32_replace_low: "(le32 x c b a AND 0xFFFFFF00) OR ucast y = le32 y c b a"
proof -
  have "(0xFFFFFF00 :: u32) = push_bit 8 (mask 24)" by (simp add: mask_eq_exp_minus_1 push_bit_eq_mult)
  note m = this
  show ?thesis
    unfolding m by (rule bit_word_eqI) (auto simp: le32_def bit_simps dest: bit_u8_less)
qed

text \<open>The default pool: a hundred addresses of the server's network, above it or below it.\<close>

definition default_start :: "u8 \<Rightarrow> u8" where
  "default_start x = (if 0x80 \<le> x then x - 0x64 else x + 1)"

lemma default_start_bounds:
  "unat (default_start x) = (if 128 \<le> unat x then unat x - 100 else unat x + 1)"
  "unat (default_start x + 99) = unat (default_start x) + 99"
proof -
  show s: "unat (default_start x) = (if 128 \<le> unat x then unat x - 100 else unat x + 1)"
    by (simp add: default_start_def word_le_nat_alt unat_sub_if' unat_word_ariths)
  have "unat (default_start x) + 99 < 256"
  proof -
    have "unat x \<le> 255" using unat_u8_less [of x] by linarith
    then have "unat x - 100 + 99 < 256" "unat x < 128 \<Longrightarrow> unat x + 1 + 99 < 256" by arith+
    then show ?thesis unfolding s by simp
  qed
  then show "unat (default_start x + 99) = unat (default_start x) + 99"
    by (simp add: unat_word_ariths)
qed

lemma poll_set_default:
  assumes "\<not> dl_enable l"
  shows "dhcps_poll_set (le32 a b c x) l =
    \<lparr>dl_enable = False, dl_start = le32 a b c (default_start x), dl_end = le32 a b c (default_start x + 99)\<rparr>"
proof -
  have le: "(0x80 \<le> (ucast x :: u32)) = (0x80 \<le> x)" by (simp add: word_le_nat_alt)
  have lo: "(if 0x80 \<le> (ucast x :: u32) then ucast x - 0x64 else ucast x + 1) = (ucast (default_start x) :: u32)"
    unfolding le word_unat_eq_iff using default_start_bounds(1) [of x] unat_u8_less [of x]
    by (auto simp: default_start_def word_le_nat_alt unat_sub_if' unat_word_ariths split: if_splits)
  have hi: "ucast (default_start x) + 0x64 - 1 = (ucast (default_start x + 99) :: u32)"
    unfolding word_unat_eq_iff using default_start_bounds [of x] unat_u8_less [of x]
    by (simp add: unat_word_ariths split: if_splits)
  show ?thesis
    using assms by (simp only: dhcps_poll_set_def Let_def lwip_htonl_le32 le32_low_byte lo hi le32_replace_low if_False if_True simp_thms)
qed

lemma pool_set_default:
  assumes "\<not> dl_enable l"
  shows "\<exists>N s e. pool_set N s e (dhcps_poll_set ip l) \<and> ip \<notin> pool_ip N ` {s..e} \<and> (\<exists>h < 256. ip = pool_ip N h) \<and> e = s + 99"
proof -
  obtain a b c x where ip: "ip = le32 a b c x" by (rule word32_cases)
  let ?N = "unat a + 256 * unat b + 65536 * unat c" and ?s = "unat (default_start x)"
  have N: "?N < 16777216" using unat_u8_less [of a] unat_u8_less [of b] unat_u8_less [of c] by linarith
  note b = default_start_bounds [of x]
  have ux: "unat x \<le> 255" using unat_u8_less [of x] by linarith
  have "pool_set ?N ?s (?s + 99) (dhcps_poll_set ip l)"
    unfolding ip poll_set_default [OF assms] pool_set_def
    using N b ux pool_ip_le32 [of a b c "default_start x"] pool_ip_le32 [of a b c "default_start x + 99"]
    by (auto split: if_splits)
  moreover have "ip \<notin> pool_ip ?N ` {?s..?s + 99}"
  proof
    assume "ip \<in> pool_ip ?N ` {?s..?s + 99}"
    then obtain h where h: "?s \<le> h" "h \<le> ?s + 99" "pool_ip ?N (unat x) = pool_ip ?N h"
      unfolding ip pool_ip_le32 [symmetric] by auto
    moreover have "h < 256" using h(2) b ux by (auto split: if_splits)
    ultimately have "unat x = h" using N by (simp add: pool_ip_eq_iff)
    with h(1,2) b show False by (auto split: if_splits)
  qed
  moreover have "\<exists>h < 256. ip = pool_ip ?N h" using unat_u8_less [of x] pool_ip_le32 [of a b c x] ip by metis
  ultimately show ?thesis by blast
qed

section \<open>The timer\<close>

definition tick_node :: "list_node \<Rightarrow> list_node" where
  "tick_node n = n\<lparr>ln_pool := (ln_pool n)\<lparr>dp_timer := dp_timer (ln_pool n) - 1\<rparr>\<rparr>"

lemma tick_node_simps [simp]:
  "ln_addr (tick_node n) = ln_addr n" "ln_ip (tick_node n) = ln_ip n" "ln_mac (tick_node n) = ln_mac n"
  "dp_timer (ln_pool (tick_node n)) = dp_timer (ln_pool n) - 1"
  by (simp_all add: tick_node_def)

definition expire :: "list_node list \<Rightarrow> list_node list" where
  "expire pl = filter (\<lambda>n. dp_timer (ln_pool n) \<noteq> 0) (map tick_node pl)"

lemma map_absent: "a \<notin> ln_addr ` set xs \<Longrightarrow> map (\<lambda>x. if ln_addr x = a then f x else x) xs = xs"
  by (induction xs) auto

lemma tmr_loop_eq:
  "distinct (map ln_addr (done1 @ todo)) \<Longrightarrow>
   tmr_loop (map ln_addr todo) (done1 @ todo) n = (done1 @ expire todo, n + of_nat (length (expire todo)))"
proof (induction todo arbitrary: done1 n)
  case Nil
  then show ?case by (simp add: expire_def)
next
  case (Cons x xs)
  let ?a = "ln_addr x"
  have abs: "?a \<notin> ln_addr ` set done1" "?a \<notin> ln_addr ` set xs" using Cons.prems by auto
  have m: "map (\<lambda>y. if ln_addr y = ?a then y\<lparr>ln_pool := (ln_pool y)\<lparr>dp_timer := dp_timer (ln_pool y) - 1\<rparr>\<rparr> else y)
      (done1 @ x # xs) = done1 @ tick_node x # xs"
    using abs by (simp add: map_absent tick_node_def)
  have ex: "(\<exists>y \<in> set (done1 @ tick_node x # xs). ln_addr y = ?a \<and> dp_timer (ln_pool y) = 0) \<longleftrightarrow> dp_timer (ln_pool (tick_node x)) = 0"
    using abs by (auto simp del: tick_node_simps(4)) (metis imageI)+
  show ?case
  proof (cases "dp_timer (ln_pool (tick_node x)) = 0")
    case True
    have "node_remove_from_list ?a (done1 @ tick_node x # xs) = done1 @ xs"
      using Cons.prems abs by (simp add: node_remove_eq filter_absent)
    then have "tmr_loop (map ln_addr (x # xs)) (done1 @ x # xs) n = tmr_loop (map ln_addr xs) (done1 @ xs) n"
      using True unfolding list.map tmr_loop.simps m Let_def ex by (simp del: tick_node_simps(4))
    moreover have "expire (x # xs) = expire xs" using True by (simp add: expire_def del: tick_node_simps(4))
    ultimately show ?thesis using Cons.IH [of done1 n] Cons.prems by simp
  next
    case False
    have "tmr_loop (map ln_addr (x # xs)) (done1 @ x # xs) n = tmr_loop (map ln_addr xs) ((done1 @ [tick_node x]) @ xs) (n + 1)"
      using False unfolding list.map tmr_loop.simps m Let_def ex by (simp del: tick_node_simps(4))
    moreover have "expire (x # xs) = tick_node x # expire xs" using False by (simp add: expire_def del: tick_node_simps(4))
    moreover have "distinct (map ln_addr ((done1 @ [tick_node x]) @ xs))" using Cons.prems by auto
    ultimately show ?thesis using Cons.IH [of "done1 @ [tick_node x]" "n + 1"] by simp
  qed
qed

lemma dhcps_tmr_eq:
  assumes "dh_state d = HANDLE_STARTED" and "distinct (map ln_addr (plist d))"
  shows "dhcps_tmr d = Inr ([Sys_timeout DHCP_COARSE_TIMER_MSECS], Some (d\<lparr>plist := expire (plist d)\<rparr>))"
proof -
  have "\<not> 500 < unat (w :: u8)" for w using unat_u8_less [of w] by linarith
  then show ?thesis using assms tmr_loop_eq [of "[]" "plist d" 0] by (simp add: dhcps_tmr_def)
qed

lemma distinct_expire: "distinct (map f pl) \<Longrightarrow> (\<And>n. f (tick_node n) = f n) \<Longrightarrow> distinct (map f (expire pl))"
  by (induction pl) (auto simp: expire_def)

lemma dhcp_inv_expire:
  assumes "dhcp_inv N s e d"
  shows "dhcp_inv N s e (d\<lparr>plist := expire (plist d)\<rparr>)"
proof -
  have srt: "sorted_wrt (<) (map ln_ip (expire pl))" if "sorted_wrt (<) (map ln_ip pl)" for pl
    using that by (induction pl) (auto simp: expire_def)
  have "leases_in N s e (expire pl)" if "leases_in N s e pl" for pl
    using that by (auto simp: leases_in_def expire_def)
  then show ?thesis using assms srt unfolding dhcp_inv_def by (simp add: distinct_expire)
qed


section \<open>Every history\<close>

text \<open>
  All that can happen to a server started on the address \<open>ip\<close> with the default pool: requests of any
  content, ticks, configuration other than of the pool, stop, deletion, and a new start on the same
  address once the leases are gone. A new list node is at an address that no node of the list has.
\<close>

inductive dhcp_reach :: "u32 \<Rightarrow> dhcps \<Rightarrow> bool" for ip :: u32 where
  start: "dhcps_start pcb nif ip (dhcps_new True) = (True, io, Some d) \<Longrightarrow> dhcp_reach ip d"
| request: "dhcp_reach ip d \<Longrightarrow> (\<forall>a. de_node env = Some a \<longrightarrow> a \<notin> ln_addr ` set (plist d)) \<Longrightarrow>
    handle_dhcp env junk p d = Inr (io, d') \<Longrightarrow> dhcp_reach ip d'"
| tick: "dhcp_reach ip d \<Longrightarrow> dhcps_tmr d = Inr (io, Some d') \<Longrightarrow> dhcp_reach ip d'"
| option_set: "dhcp_reach ip d \<Longrightarrow> op_id \<noteq> 50 \<Longrightarrow> dhcps_set_option_info op_id v len (Some d) = (ok, Some d') \<Longrightarrow> dhcp_reach ip d'"
| callback: "dhcp_reach ip d \<Longrightarrow> dhcps_set_new_lease_cb cb arg (Some d) = (ok, Some d') \<Longrightarrow> dhcp_reach ip d'"
| dns: "dhcp_reach ip d \<Longrightarrow> dhcps_dns_setserver a (Some d) = (ok, Some d') \<Longrightarrow> dhcp_reach ip d'"
| delete: "dhcp_reach ip d \<Longrightarrow> dhcps_delete (Some d) = Some d' \<Longrightarrow> dhcp_reach ip d'"
| stop: "dhcp_reach ip d \<Longrightarrow> dhcps_stop nif (Some d) = (ok, io, Some d') \<Longrightarrow> dhcp_reach ip d'"
| restart: "dhcp_reach ip d \<Longrightarrow> plist d = [] \<Longrightarrow> dhcps_start pcb nif ip (Some d) = (ok, io, Some d') \<Longrightarrow> dhcp_reach ip d'"

definition dhcp_good :: "u32 \<Rightarrow> dhcps \<Rightarrow> bool" where
  "dhcp_good ip d \<longleftrightarrow> (\<exists>N s e. dhcp_inv N s e d \<and> ip \<notin> pool_ip N ` {s..e} \<and> (\<exists>h < 256. ip = pool_ip N h) \<and> e = s + 99) \<and>
     \<not> dl_enable (dhcps_poll d)"

lemma dhcp_good_cong:
  "plist d' = plist d \<Longrightarrow> dhcps_poll d' = dhcps_poll d \<Longrightarrow> client_address_plus d' = client_address_plus d \<Longrightarrow>
   dhcp_good ip d' = dhcp_good ip d"
  by (simp add: dhcp_good_def dhcp_inv_def)

lemma dhcp_good_new:
  assumes "\<not> dl_enable (dhcps_poll d)" "plist d = []"
  shows "dhcp_good ip (d\<lparr>dhcps_poll := dhcps_poll_set ip (dhcps_poll d),
    client_address_plus := dl_start (dhcps_poll_set ip (dhcps_poll d))\<rparr>)"
proof -
  obtain N s e where p: "pool_set N s e (dhcps_poll_set ip (dhcps_poll d))" "ip \<notin> pool_ip N ` {s..e}" "\<exists>h < 256. ip = pool_ip N h" "e = s + 99"
    using pool_set_default [OF assms(1)] by blast
  let ?d = "d\<lparr>dhcps_poll := dhcps_poll_set ip (dhcps_poll d), client_address_plus := dl_start (dhcps_poll_set ip (dhcps_poll d))\<rparr>"
  have "s \<le> s \<and> s \<le> Suc e \<and> client_address_plus ?d = pool_ip N s" using p(1) by (simp add: pool_set_def)
  then have "dhcp_inv N s e ?d"
    unfolding dhcp_inv_def using p(1) assms(2) by (intro conjI) (auto intro: exI [of _ s])
  moreover obtain a b c x where "ip = le32 a b c x" by (rule word32_cases)
  then have "\<not> dl_enable (dhcps_poll_set ip (dhcps_poll d))" using poll_set_default [OF assms(1)] by simp
  ultimately show ?thesis
    using p(2-4) unfolding dhcp_good_def by auto
qed

lemma dhcp_good_start:
  assumes "dhcps_start pcb nif ip (Some d) = (ok, io, Some d')" and "\<not> dl_enable (dhcps_poll d)" "plist d = []" and "ok \<or> dhcp_good ip d"
  shows "dhcp_good ip d'"
proof (cases "\<exists>n p. nif = Some n \<and> pcb = Some p \<and> ip \<noteq> 0")
  case False
  then have "\<not> ok \<and> plist d' = plist d \<and> dhcps_poll d' = dhcps_poll d \<and> client_address_plus d' = client_address_plus d"
    using assms(1) by (auto simp: dhcps_start_def Let_def split: option.splits if_splits)
  then show ?thesis using assms(4) dhcp_good_cong by blast
next
  case True
  then have "plist d' = [] \<and> dhcps_poll d' = dhcps_poll_set ip (dhcps_poll d) \<and> client_address_plus d' = dl_start (dhcps_poll_set ip (dhcps_poll d))"
    using assms(1,3) by (auto simp: dhcps_start_def Let_def)
  then show ?thesis
    using dhcp_good_new [OF assms(2,3), of ip] assms(3) by (subst (asm) dhcp_good_cong [symmetric, of d']) auto
qed

lemma dhcp_cfg_simps [simp]:
  "dhcp_cfg (d\<lparr>plist := a\<rparr>) = dhcp_cfg d" "dhcp_cfg (d\<lparr>client_address := b\<rparr>) = dhcp_cfg d"
  "dhcp_cfg (d\<lparr>client_address_plus := b\<rparr>) = dhcp_cfg d" "dhcp_cfg (d\<lparr>renew := c\<rparr>) = dhcp_cfg d"
  by (simp_all add: dhcp_cfg_def)

lemma dhcp_cfg_eqD:
  "dhcp_cfg d' = dhcp_cfg d \<Longrightarrow> dhcps_poll d' = dhcps_poll d \<and> dhcps_pcb d' = dhcps_pcb d \<and> dh_state d' = dh_state d \<and>
     dhcps_lease_time d' = dhcps_lease_time d \<and> server_address d' = server_address d \<and> broadcast_dhcps d' = broadcast_dhcps d \<and>
     dhcps_cb d' = dhcps_cb d \<and> dhcps_cb_arg d' = dhcps_cb_arg d \<and> offer_options d' = offer_options d"
proof -
  have ext: "dhcps_poll x = dhcps_poll (dhcp_cfg x)" "dhcps_pcb x = dhcps_pcb (dhcp_cfg x)" "dh_state x = dh_state (dhcp_cfg x)"
    "dhcps_lease_time x = dhcps_lease_time (dhcp_cfg x)" "server_address x = server_address (dhcp_cfg x)"
    "broadcast_dhcps x = broadcast_dhcps (dhcp_cfg x)" "dhcps_cb x = dhcps_cb (dhcp_cfg x)" "dhcps_cb_arg x = dhcps_cb_arg (dhcp_cfg x)"
    "offer_options x = offer_options (dhcp_cfg x)" for x
    by (simp_all add: dhcp_cfg_def offer_options_def router_option_def)
  assume "dhcp_cfg d' = dhcp_cfg d"
  then show ?thesis using ext [of d] ext [of d'] by metis
qed

lemma pool_check_cfg: "pool_check m len pn d = Inr (ret, d') \<Longrightarrow> dhcp_cfg d' = dhcp_cfg d"
  by (auto simp: pool_check_def drop_lease_def res_simps split: if_splits option.splits)

lemma new_lease_cfg: "new_lease env mac t f d = Inr (pn, d') \<Longrightarrow> dhcp_cfg d' = dhcp_cfg d"
  by (auto simp: new_lease_def Let_def split: if_splits option.splits)

lemma parse_msg_cfg: "parse_msg env m len d = Inr (ret, d') \<Longrightarrow> dhcp_cfg d' = dhcp_cfg d"
  by (auto simp: parse_msg_def Let_def res_simps dest!: pool_check_cfg new_lease_cfg split: if_splits option.splits prod.splits)

lemma handle_dhcp_cfg: "handle_dhcp env junk p d = Inr (io, d') \<Longrightarrow> dhcp_cfg d' = dhcp_cfg d"
  by (auto simp: handle_dhcp_def Let_def res_simps dest!: parse_msg_cfg split: if_splits option.splits)

lemma dhcp_good_handle:
  assumes "dhcp_good ip d" and "\<forall>a. de_node env = Some a \<longrightarrow> a \<notin> ln_addr ` set (plist d)" and "handle_dhcp env junk p d = Inr (io, d')"
  shows "dhcp_good ip d'"
proof -
  obtain N s e where "dhcp_inv N s e d" "ip \<notin> pool_ip N ` {s..e}" "\<exists>h < 256. ip = pool_ip N h" "e = s + 99"
    using assms(1) by (auto simp: dhcp_good_def)
  moreover from handle_dhcp_inv [OF this(1) _ assms(3)] assms(2) have "dhcp_inv N s e d'" by blast
  ultimately show ?thesis
    using assms(1) dhcp_cfg_eqD [OF handle_dhcp_cfg [OF assms(3)]] unfolding dhcp_good_def by auto
qed

lemma dhcp_good_tmr:
  assumes "dhcp_good ip d" and "dhcps_tmr d = Inr (io, Some d')"
  shows "dhcp_good ip d'"
proof (cases "dh_state d = HANDLE_STARTED")
  case False
  then show ?thesis using assms by (simp add: dhcps_tmr_def split: if_splits)
next
  case True
  obtain N s e where i: "dhcp_inv N s e d" "ip \<notin> pool_ip N ` {s..e}" "\<exists>h < 256. ip = pool_ip N h" "e = s + 99"
    using assms(1) by (auto simp: dhcp_good_def)
  then have "distinct (map ln_addr (plist d))" by (simp add: dhcp_inv_def)
  then have "d' = d\<lparr>plist := expire (plist d)\<rparr>" using assms(2) dhcps_tmr_eq [OF True] by simp
  then show ?thesis using dhcp_inv_expire [OF i(1)] i assms(1) unfolding dhcp_good_def by auto
qed

lemma stop_loop_empty: "set pl \<subseteq> set todo \<Longrightarrow> distinct (map ln_addr pl) \<Longrightarrow> stop_loop todo pl = []"
proof (induction todo arbitrary: pl)
  case Nil
  then show ?case by simp
next
  case (Cons n todo)
  have "set (node_remove_from_list (ln_addr n) pl) \<subseteq> set todo" using Cons.prems by (auto simp: node_remove_eq)
  moreover have "distinct (map ln_addr (node_remove_from_list (ln_addr n) pl))"
    using Cons.prems(2) by (simp add: node_remove_eq distinct_map_filter)
  ultimately show ?case using Cons.IH by simp
qed

lemma dhcps_stop_empties:
  assumes "dhcps_stop nif (Some d) = (True, io, Some d')" and "distinct (map ln_addr (plist d))"
  shows "plist d' = [] \<and> dhcps_poll d' = dhcps_poll d \<and> client_address_plus d' = client_address_plus d \<and> dh_state d' = HANDLE_STOPPED"
  using assms stop_loop_empty [of "plist d" "plist d"]
  by (auto simp: dhcps_stop_def Let_def split: option.splits if_splits prod.splits)

lemma dhcp_good_stop:
  assumes "dhcp_good ip d" and "dhcps_stop nif (Some d) = (ok, io, Some d')"
  shows "dhcp_good ip d'"
proof (cases ok)
  case False
  then have "d' = d" using assms(2) by (auto simp: dhcps_stop_def Let_def split: option.splits if_splits prod.splits)
  then show ?thesis using assms(1) by simp
next
  case True
  have "distinct (map ln_addr (plist d))" using assms(1) by (auto simp: dhcp_good_def dhcp_inv_def)
  then have "plist d' = []" "dhcps_poll d' = dhcps_poll d" "client_address_plus d' = client_address_plus d"
    using dhcps_stop_empties assms(2) True by simp_all
  then show ?thesis using assms(1) by (auto simp: dhcp_good_def dhcp_inv_def)
qed

lemma option_set_frame:
  assumes "op_id \<noteq> 50" and "dhcps_set_option_info op_id v len (Some d) = (ok, Some d')"
  shows "plist d' = plist d \<and> dhcps_poll d' = dhcps_poll d \<and> client_address_plus d' = client_address_plus d"
proof (cases v)
  case None
  then show ?thesis using assms(2) by (simp add: dhcps_set_option_info_def)
next
  case (Some x)
  then show ?thesis using assms by (cases x) (auto simp: dhcps_set_option_info_def split: if_splits)
qed

lemma dhcps_new_facts: "\<exists>d. dhcps_new True = Some d \<and> \<not> dl_enable (dhcps_poll d) \<and> plist d = []"
  by (simp add: dhcps_new_def)

lemma dhcp_reach_good: "dhcp_reach ip d \<Longrightarrow> dhcp_good ip d"
proof (induction rule: dhcp_reach.induct)
  case (start pcb nif io d)
  from dhcps_new_facts obtain d0 where d0: "dhcps_new True = Some d0" "\<not> dl_enable (dhcps_poll d0)" "plist d0 = []" by blast
  show ?case by (rule dhcp_good_start [OF start [unfolded d0(1)] d0(2,3)]) simp
next
  case (request d env junk p io d')
  show ?case by (rule dhcp_good_handle [OF request.IH request.hyps(2,3)])
next
  case (tick d io d')
  show ?case by (rule dhcp_good_tmr [OF tick.IH tick.hyps(2)])
next
  case (option_set d op_id v len ok d')
  have "plist d' = plist d \<and> dhcps_poll d' = dhcps_poll d \<and> client_address_plus d' = client_address_plus d"
    using option_set_frame [OF option_set.hyps(2,3)] .
  then show ?case using option_set.IH dhcp_good_cong [of d' d ip] by simp
next
  case (callback d cb arg ok d')
  then have "d' = d\<lparr>dhcps_cb := cb, dhcps_cb_arg := arg\<rparr>" by (simp add: dhcps_set_new_lease_cb_def)
  then show ?case using callback.IH dhcp_good_cong [of d' d ip] by simp
next
  case (dns d a ok d')
  then have "\<exists>x. d' = d\<lparr>dns_server := x\<rparr>" by (auto simp: dhcps_dns_setserver_def)
  then show ?case using dns.IH dhcp_good_cong [of d' d ip] by auto
next
  case (delete d d')
  then have "d' = d\<lparr>dh_state := HANDLE_DELETE_PENDING\<rparr>" by (simp add: dhcps_delete_def split: if_splits)
  then show ?case using delete.IH dhcp_good_cong [of d' d ip] by simp
next
  case (stop d nif ok io d')
  show ?case by (rule dhcp_good_stop [OF stop.IH stop.hyps(2)])
next
  case (restart d pcb nif ok io d')
  then have "\<not> dl_enable (dhcps_poll d)" by (simp add: dhcp_good_def)
  from dhcp_good_start [OF restart.hyps(3) this restart.hyps(2)] restart.IH show ?case by simp
qed


lemma pool_ip_net:
  assumes "N < 16777216" "h < 256"
  shows "lwip_htonl (pool_ip N h) AND 0xFFFFFF00 = lwip_htonl (pool_ip N 0) AND 0xFFFFFF00"
proof -
  obtain a b c where abc: "N = unat (a :: u8) + 256 * unat (b :: u8) + 65536 * unat (c :: u8)"
    using net_cases [OF assms(1)] .
  have "unat (of_nat h :: u8) = h" using assms(2) by (simp add: unat_of_nat take_bit_nat_eq_self)
  then have "pool_ip N h = le32 a b c (of_nat h)" "pool_ip N 0 = le32 a b c 0"
    using pool_ip_le32 [of a b c "of_nat h"] pool_ip_le32 [of a b c 0] abc by simp_all
  then show ?thesis using le32_replace_low [of _ c b a 0] by (simp add: byte_simps)
qed

text \<open>
  C13: Over every history of a server on the address \<open>ip\<close> -- requests of any content and length, ticks,
  stop, restart -- no two leases have the same address and no two are of the same device, the list is
  sorted, every leased address is in the /24 network of the server and differs from the server's own,
  and there are at most a hundred.
\<close>

theorem dhcp_leases_distinct:
  assumes "dhcp_reach ip d"
  shows "distinct (map (\<lambda>n. dp_ip (ln_pool n)) (plist d)) \<and> distinct (map (\<lambda>n. dp_mac (ln_pool n)) (plist d)) \<and>
    sorted (map (\<lambda>n. dp_ip (ln_pool n)) (plist d)) \<and> length (plist d) \<le> 100 \<and>
    (\<forall>n \<in> set (plist d). dp_ip (ln_pool n) \<noteq> ip \<and>
       lwip_htonl (dp_ip (ln_pool n)) AND 0xFFFFFF00 = lwip_htonl ip AND 0xFFFFFF00)"
proof -
  obtain N s e where g: "dhcp_inv N s e d" "ip \<notin> pool_ip N ` {s..e}" "\<exists>h < 256. ip = pool_ip N h" "e = s + 99"
    using dhcp_reach_good [OF assms] by (auto simp: dhcp_good_def)
  then have i: "N < 16777216" "e < 255" "leases_in N s e (plist d)" "sorted_wrt (<) (map ln_ip (plist d))"
    "distinct (map ln_mac (plist d))" by (simp_all add: dhcp_inv_def pool_set_def)
  have sd: "distinct (map ln_ip (plist d)) \<and> sorted (map ln_ip (plist d))"
    using i(4) strict_sorted_iff [of "map ln_ip (plist d)"] by simp
  have sub: "set (map ln_ip (plist d)) \<subseteq> pool_ip N ` {s..e}" using i(3) by (auto simp: leases_in_def)
  have "length (plist d) = card (set (map ln_ip (plist d)))" using sd distinct_card by fastforce
  also have "\<dots> \<le> card (pool_ip N ` {s..e})" by (rule card_mono [OF _ sub]) simp
  also have "\<dots> \<le> card {s..e}" by (rule card_image_le) simp
  finally have "length (plist d) \<le> 100" using g(4) by simp
  moreover have "ln_ip n \<noteq> ip \<and> lwip_htonl (ln_ip n) AND 0xFFFFFF00 = lwip_htonl ip AND 0xFFFFFF00" if "n \<in> set (plist d)" for n
  proof -
    have "ln_ip n \<in> pool_ip N ` {s..e}" using sub that by auto
    then obtain h where h: "h \<le> e" "ln_ip n = pool_ip N h" by auto
    with i(2) have "h < 256" by simp
    with h show ?thesis
      using \<open>ln_ip n \<in> pool_ip N ` {s..e}\<close> g(2,3) pool_ip_net [OF i(1)] by metis
  qed
  ultimately show ?thesis using sd i(5) by blast
qed

text \<open>
  C17: A tick of a started server counts every lease down by one second and removes exactly those that
  reach 0; the order and the other data stay; the timer is armed again. The branch that would remove
  the oldest lease of a list of more than 500 is dead: the count has eight bits.
\<close>

theorem dhcp_tick_expires:
  assumes "dhcp_reach ip d" and "dh_state d = HANDLE_STARTED"
  shows "dhcps_tmr d = Inr ([Sys_timeout 1000], Some (d\<lparr>plist :=
    filter (\<lambda>n. dp_timer (ln_pool n) \<noteq> 0)
      (map (\<lambda>n. n\<lparr>ln_pool := (ln_pool n)\<lparr>dp_timer := dp_timer (ln_pool n) - 1\<rparr>\<rparr>) (plist d))\<rparr>))"
proof -
  have "distinct (map ln_addr (plist d))" using dhcp_reach_good [OF assms(1)] by (auto simp: dhcp_good_def dhcp_inv_def)
  then show ?thesis using dhcps_tmr_eq [OF assms(2)] by (simp add: expire_def tick_node_def [abs_def])
qed

end
