(* ===== verification/DhcpAnswers.thy ===== *)
theory DhcpAnswers
  imports DhcpProps
begin

text \<open>
  The messages of the DHCP server: the option parser on well-formed options, the replies byte for byte,
  what a DISCOVER and a REQUEST are answered with, and arbitrary input.
\<close>

section \<open>Options\<close>

text \<open>
  The reference reading of the options field (RFC 2132): code, length, value; code 255 ends, code 0 is
  one byte of padding.
\<close>

definition tlv :: "u8 \<times> u8 list \<Rightarrow> u8 list" where
  "tlv o1 = fst o1 # of_nat (length (snd o1)) # snd o1"

definition enc_opts :: "(u8 \<times> u8 list) list \<Rightarrow> u8 list" where
  "enc_opts ops = concat (map tlv ops) @ [255]"

function opt_decode :: "u8 list \<Rightarrow> (u8 \<times> u8 list) list option" where
  "opt_decode [] = None"
| "opt_decode (c # xs) =
     (if c = 255 then Some []
      else if c = 0 then opt_decode xs
      else case xs of
             [] \<Rightarrow> None
           | l # ys \<Rightarrow>
               if length ys < unat l then None
               else map_option (Cons (c, take (unat l) ys)) (opt_decode (drop (unat l) ys)))"
  by pat_completeness auto
termination
  by (relation "measure length") auto

definition opt_ok :: "u8 \<times> u8 list \<Rightarrow> bool" where
  "opt_ok o1 \<longleftrightarrow> fst o1 \<noteq> 255 \<and> fst o1 \<noteq> 0 \<and> length (snd o1) < 256 \<and>
     (fst o1 = 53 \<longrightarrow> snd o1 \<noteq> []) \<and> (fst o1 = 50 \<longrightarrow> length (snd o1) = 4)"

lemma unat_length_u8 [simp]: "length xs < 256 \<Longrightarrow> unat (of_nat (length xs) :: u8) = length xs"
  by (simp add: unat_of_nat take_bit_nat_eq_self)

lemma opt_decode_enc: "\<forall>o1 \<in> set ops. opt_ok o1 \<Longrightarrow> opt_decode (enc_opts ops @ rest) = Some ops"
proof (induction ops)
  case Nil
  then show ?case by (simp add: enc_opts_def)
next
  case (Cons x ops)
  then show ?case by (cases x) (auto simp: enc_opts_def tlv_def opt_ok_def)
qed

text \<open>What the parser of the server takes from the options: the last type, and how the last
  requested address compares with the client's.\<close>

fun opt_scan :: "u32 \<Rightarrow> u8 \<times> nat \<Rightarrow> (u8 \<times> u8 list) list \<Rightarrow> u8 \<times> nat" where
  "opt_scan client acc [] = acc"
| "opt_scan client (type, st) ((c, v) # ops) =
     opt_scan client
       (if c = 53 then (hd v, st)
        else if c = 50 then (type, if v = bytes32 client then DHCPS_STATE_ACK else DHCPS_STATE_NAK)
        else (type, st)) ops"

lemma parse_loop_tlv:
  assumes "\<forall>o1 \<in> set ops. opt_ok o1" and "int (length pre + length (enc_opts ops)) \<le> endp"
  shows "parse_loop client (pre @ enc_opts ops @ rest) endp (length pre) acc = Inr (opt_scan client acc ops)"
  using assms
proof (induction ops arbitrary: pre acc)
  case Nil
  then show ?case
    by (cases acc) (subst parse_loop.simps, simp add: enc_opts_def parse_option_def rd_def nth_append)
next
  case (Cons x ops)
  obtain c v where x: "x = (c, v)" by (cases x)
  obtain type st where acc: "acc = (type, st)" by (cases acc)
  define acc' where "acc' = (if c = 53 then (hd v, st)
        else if c = 50 then (type, if v = bytes32 client then DHCPS_STATE_ACK else DHCPS_STATE_NAK) else (type, st))"
  have ok: "c \<noteq> 255" "length v < 256" "c = 53 \<Longrightarrow> v \<noteq> []" "c = 50 \<Longrightarrow> length v = 4"
    using Cons.prems(1) by (auto simp: opt_ok_def x)
  let ?pre = "pre @ c # of_nat (length v) # v"
  let ?m = "pre @ enc_opts (x # ops) @ rest"
  have m: "?m = ?pre @ enc_opts ops @ rest" by (simp add: enc_opts_def tlv_def x)
  have len: "length (enc_opts (x # ops)) = length v + 2 + length (enc_opts ops)" by (simp add: enc_opts_def tlv_def x)
  have lt: "int (length pre) < endp" using Cons.prems(2) unfolding len by (simp add: enc_opts_def)
  have at: "rd ?m (length pre) = Inr c" "rd ?m (length pre + 1) = Inr (of_nat (length v))"
    unfolding m by (simp_all add: rd_def nth_append)
  have "rd ?m (length pre + 2) = Inr (hd v)" if "c = 53"
    using ok(3) [OF that] unfolding m by (cases v) (simp_all add: rd_def nth_append)
  moreover have "rd4 ?m (length pre + 2) = Inr v" if "c = 50"
    using ok(4) [OF that] unfolding m by (simp add: rd4_def ld_bytes_def)
  ultimately have po: "parse_option client ?m (length pre) acc = Inr (acc', False)"
    using at(1) ok(1) by (simp add: parse_option_def acc acc'_def)
  have u: "unat (of_nat (length v) :: u8) = length v" using ok(2) by simp
  have "parse_loop client ?m endp (length pre) acc = parse_loop client ?m endp (length ?pre) acc'"
    by (subst parse_loop.simps) (simp add: lt po at [simplified] u)
  also have "\<dots> = Inr (opt_scan client acc' ops)"
    unfolding m using Cons.prems by (intro Cons.IH) (simp_all add: len [unfolded x] x)
  finally show ?case by (simp add: acc acc'_def x)
qed

section \<open>Replies\<close>

text \<open>A reply to the message \<open>m\<close>: transaction and hardware address are those of the request.\<close>

definition reply_form :: "u32 \<Rightarrow> u8 list \<Rightarrow> u8 list \<Rightarrow> u8 list" where
  "reply_form yi m opts = [2, 1, 6, 0] @ take 4 (drop 4 m) @ [0, 0, 0x80, 0] @ replicate 4 0 @ bytes32 yi @ replicate 8 0 @
     take 16 (drop 28 m) @ replicate 192 0 @ bytes32 magic_cookie @ opts @ replicate (308 - length opts) 0 @ drop 548 m"

lemma st_bytes_append1: "i + length zs \<le> length xs \<Longrightarrow> st_bytes (xs @ ys) i zs = st_bytes xs i zs @ ys"
  by (simp add: st_bytes_def)

lemma st_bytes_append2: "length xs \<le> i \<Longrightarrow> st_bytes (xs @ ys) i zs = xs @ st_bytes ys (i - length xs) zs"
  by (simp add: st_bytes_def)

lemma st_bytes_all: "length zs = length xs \<Longrightarrow> st_bytes xs 0 zs = zs"
  by (simp add: st_bytes_def)

lemma st_mid: "i = length xs \<Longrightarrow> length zs = length ys \<Longrightarrow> st_bytes (xs @ ys @ rest) i zs = xs @ zs @ rest"
  by (simp add: st_bytes_def)

lemma length4: "length xs = 4 \<Longrightarrow> \<exists>a b c d. xs = [a, b, c, d]"
  by (auto simp: numeral_eq_Suc length_Suc_conv)

lemma split_msg:
  assumes "DHCPS_MSG_SIZE \<le> length m"
  obtains a0 a1 a2 a3 x b c y g ch sn op1 op2 rest where
    "m = [a0, a1, a2, a3] @ x @ b @ c @ y @ g @ ch @ sn @ op1 @ op2 @ rest"
    "length x = 4" "length b = 4" "length c = 4" "length y = 4" "length g = 8" "length ch = 16" "length sn = 192"
    "length op1 = 4" "length op2 = 308"
proof -
  have "length (take 4 m) = 4" using assms by simp
  then obtain a0 a1 a2 a3 where a: "take 4 m = [a0, a1, a2, a3]"
    using length4 by blast
  define pieces where "pieces = (\<lambda>i n. take n (drop i m))"
  have sp: "drop i m = pieces i n @ drop j m" if "j = i + n" for i n j
    unfolding pieces_def that by (metis add.commute append_take_drop_id drop_drop)
  have d: "drop 4 m = pieces 4 4 @ drop 8 m" "drop 8 m = pieces 8 4 @ drop 12 m" "drop 12 m = pieces 12 4 @ drop 16 m"
    "drop 16 m = pieces 16 4 @ drop 20 m" "drop 20 m = pieces 20 8 @ drop 28 m" "drop 28 m = pieces 28 16 @ drop 44 m"
    "drop 44 m = pieces 44 192 @ drop 236 m" "drop 236 m = pieces 236 4 @ drop 240 m" "drop 240 m = pieces 240 308 @ drop 548 m"
    by (rule sp, simp)+
  have "m = [a0, a1, a2, a3] @ drop 4 m" using a append_take_drop_id [of 4 m] by simp
  also have "drop 4 m = pieces 4 4 @ pieces 8 4 @ pieces 12 4 @ pieces 16 4 @ pieces 20 8 @ pieces 28 16 @ pieces 44 192 @
      pieces 236 4 @ pieces 240 308 @ drop 548 m"
    by (simp only: d)
  finally have eq: "m = [a0, a1, a2, a3] @ pieces 4 4 @ pieces 8 4 @ pieces 12 4 @ pieces 16 4 @ pieces 20 8 @ pieces 28 16 @
      pieces 44 192 @ pieces 236 4 @ pieces 240 308 @ drop 548 m" .
  have "length (pieces i n) = n" if "i + n \<le> 548" for i n using that assms by (simp add: pieces_def)
  then show ?thesis by (intro that [OF eq]) simp_all
qed

lemma reply_bytes:
  assumes "DHCPS_MSG_SIZE \<le> length m" and "length opts \<le> 308"
  shows "st_bytes (create_msg d m) 240 opts = reply_form (client_address d) m opts"
proof -
  obtain a0 a1 a2 a3 x b c y g ch sn op1 op2 rest where
    m: "m = [a0, a1, a2, a3] @ x @ b @ c @ y @ g @ ch @ sn @ op1 @ op2 @ rest" and
    l: "length x = 4" "length b = 4" "length c = 4" "length y = 4" "length g = 8" "length ch = 16" "length sn = 192"
      "length op1 = 4" "length op2 = 308" by (rule split_msg [OF assms(1)])
  obtain b0 b1 b2 b3 where b: "b = [b0, b1, b2, b3]" using length4 [OF l(2)] by blast
  let ?h = "[2, 1, 6, 0] @ x :: u8 list"
  define m1 where "m1 = m[0 := 2, 1 := 1, 2 := 6, 3 := 0]"
  have m1: "m1 = ?h @ b @ c @ y @ g @ ch @ sn @ op1 @ op2 @ rest" by (simp add: m1_def m)
  have m2: "st16 (st16 m1 8 0) 10 (lwip_htons 0x8000) = ?h @ [0, 0, 0x80, 0] @ c @ y @ g @ ch @ sn @ op1 @ op2 @ rest"
    using l unfolding m1 b by (simp add: st16_def st_bytes_def bytes16_def lwip_htons_def)
  let ?f = "?h @ [0, 0, 0x80, 0]"
  have yi: "st_bytes (?f @ c @ y @ g @ z) 16 w = ?f @ c @ w @ g @ z" if "length w = 4" for w z
    using st_mid [of 16 "?f @ c" w y "g @ z"] that l by simp
  have ci: "st_bytes (?f @ c @ w @ z) 12 (replicate 4 0) = ?f @ replicate 4 0 @ w @ z" for w z
    using st_mid [of 12 "?f" "replicate 4 0" c "w @ z"] l by simp
  let ?p = "?f @ replicate 4 0 @ bytes32 (client_address d)"
  have gi: "st_bytes (st_bytes (?p @ g @ z) 20 (replicate 4 0)) 24 (replicate 4 0) = ?p @ replicate 8 0 @ z" for z
    using l by (simp add: st_bytes_def numeral_eq_Suc)
  let ?q = "?p @ replicate 8 0 @ ch"
  have sn: "st_bytes (st_bytes (?q @ sn @ z) 44 (replicate 64 0)) 108 (replicate 128 0) = ?q @ replicate 192 0 @ z" for z
  proof -
    obtain s1 s2 where sp: "sn = s1 @ s2" "length s1 = 64" "length s2 = 128"
      using l(7) by (intro that [of "take 64 sn" "drop 64 sn"]) simp_all
    have "st_bytes (?q @ s1 @ s2 @ z) 44 (replicate 64 0) = ?q @ replicate 64 0 @ s2 @ z"
      using st_mid [of 44 ?q "replicate 64 0" s1 "s2 @ z"] l sp by simp
    moreover have "st_bytes (?q @ replicate 64 0 @ s2 @ z) 108 (replicate 128 0) = ?q @ replicate 64 0 @ replicate 128 0 @ z"
      using st_mid [of 108 "?q @ replicate 64 0" "replicate 128 0" s2 z] l sp by simp
    moreover have "replicate 64 0 @ replicate 128 0 = replicate 192 (0 :: u8)" by (simp flip: replicate_add)
    ultimately show ?thesis unfolding sp(1) by (metis append_assoc)
  qed
  let ?r = "?q @ replicate 192 0"
  have op: "st_bytes (?r @ op1 @ op2 @ rest) 236 (replicate 312 0) = ?r @ replicate 4 0 @ replicate 308 0 @ rest"
  proof -
    have e: "replicate 4 0 @ replicate 308 0 @ rest = replicate 312 (0 :: u8) @ rest" by (simp flip: replicate_add append_assoc)
    have "st_bytes (?r @ (op1 @ op2) @ rest) 236 (replicate 312 0) = ?r @ replicate 312 0 @ rest" using l by (intro st_mid) simp_all
    then show ?thesis by (simp only: e append_assoc)
  qed
  have ck: "st_bytes (?r @ replicate 4 0 @ replicate 308 0 @ rest) 236 (bytes32 magic_cookie) = ?r @ bytes32 magic_cookie @ replicate 308 0 @ rest"
    using st_mid [of 236 ?r "bytes32 magic_cookie" "replicate 4 0" "replicate 308 0 @ rest"] l by simp
  have cm: "create_msg d m = ?r @ bytes32 magic_cookie @ replicate 308 0 @ rest"
    using yi [of "bytes32 (client_address d)" "ch @ sn @ op1 @ op2 @ rest"] ci [of "bytes32 (client_address d)" "g @ ch @ sn @ op1 @ op2 @ rest"]
      gi [of "ch @ sn @ op1 @ op2 @ rest"] sn [of "op1 @ op2 @ rest"] op ck
    unfolding create_msg_def Let_def m1_def [symmetric] m2 by (simp del: replicate.simps)
  let ?w = "?r @ bytes32 magic_cookie"
  have "take (length opts) (replicate 308 0) @ drop (length opts) (replicate 308 0) = replicate 308 (0 :: u8)" by (rule append_take_drop_id)
  then have cm': "create_msg d m = ?w @ take (length opts) (replicate 308 0) @ replicate (308 - length opts) 0 @ rest"
    unfolding cm by (simp only: drop_replicate append_assoc) (metis append_assoc)
  have "st_bytes (create_msg d m) 240 opts = ?w @ opts @ replicate (308 - length opts) 0 @ rest"
    unfolding cm' using assms(2) l by (intro st_mid) simp_all
  moreover have "reply_form (client_address d) m opts = ?w @ opts @ replicate (308 - length opts) 0 @ rest"
    using l by (simp add: reply_form_def m)
  ultimately show ?thesis by simp
qed


definition offer_tlvs :: "dhcps \<Rightarrow> (u8 \<times> u8 list) list" where
  "offer_tlvs d =
     [(1, bytes32 (dhcps_mask d)), (51, be32 (dhcps_lease_time d * DHCPS_LEASE_UNIT)), (54, bytes32 (server_address d))] @
     (let gw = ii_gw (get_ip_info (dh_netif d) \<lparr>ii_ip = 0, ii_netmask = 0, ii_gw = 0\<rparr>)
      in if dhcps_offer d AND 1 \<noteq> 0 \<and> gw \<noteq> 0 then [(3, bytes32 gw)] else []) @
     [(6, bytes32 (if dhcps_dns d AND 2 \<noteq> 0 then dns_server d else server_address d)),
      (28, bytes32 ((server_address d AND dhcps_mask d) OR NOT (dhcps_mask d))),
      (26, [0x05, 0xdc]), (31, [0]), (43, [1, 4, 0, 0, 0, 2])]"

lemma length_be32 [simp]: "length (be32 w) = 4"
  by (simp add: be32_def)

lemma tlv_simp [simp]: "tlv (c, v) = c # of_nat (length v) # v"
  by (simp add: tlv_def)

lemma offer_options_tlvs: "offer_options d = concat (map tlv (offer_tlvs d))"
  by (simp add: offer_options_def offer_tlvs_def ip_option_def router_option_def Let_def)

lemma offer_tlvs_ok: "\<forall>o1 \<in> set (offer_tlvs d). opt_ok o1"
  by (auto simp: offer_tlvs_def Let_def opt_ok_def)

lemma length_offer_options: "length (offer_options d) \<le> 60"
  by (simp add: offer_options_def ip_option_def router_option_def Let_def)

lemma length_reply_form: "DHCPS_MSG_SIZE \<le> length m \<Longrightarrow> length opts \<le> 308 \<Longrightarrow> length (reply_form a m opts) = length m"
  by (simp add: reply_form_def)

lemma length_create_msg: "DHCPS_MSG_SIZE \<le> length m \<Longrightarrow> length (create_msg d m) = length m"
proof -
  assume l: "DHCPS_MSG_SIZE \<le> length m"
  have "length (st_bytes (create_msg d m) 240 []) = length m"
    using reply_bytes [OF l, of "[]" d] length_reply_form [OF l, of "[]"] by simp
  then show ?thesis by (simp add: st_bytes_def)
qed

lemma put_opts:
  assumes "DHCPS_MSG_SIZE \<le> length m"
  shows "fst (add_end (add_offer_options d (add_msg_type t (create_msg d m, 240)))) =
      reply_form (client_address d) m (enc_opts ((53, [t]) # offer_tlvs d))"
    and "fst (add_end (add_msg_type t (create_msg d m, 240))) = reply_form (client_address d) m (enc_opts [(53, [t])])"
proof -
  have l: "240 + 64 + 4 \<le> length (create_msg d m)" using assms length_create_msg [OF assms] by simp
  have o: "length (offer_options d) \<le> 60" by (rule length_offer_options)
  have "fst (add_end (add_offer_options d (add_msg_type t (create_msg d m, 240)))) =
      st_bytes (create_msg d m) 240 (([53, 1, t] @ offer_options d) @ [255])"
    using l o st_bytes_seq [of 240 "[53, 1, t]" "offer_options d" "create_msg d m"]
      st_bytes_seq [of 240 "[53, 1, t] @ offer_options d" "[255]" "create_msg d m"]
    by (simp add: add_end_def add_offer_options_def add_msg_type_def put_def)
  also have "([53, 1, t] @ offer_options d) @ [255] = enc_opts ((53, [t]) # offer_tlvs d)"
    by (simp add: enc_opts_def offer_options_tlvs)
  finally show "fst (add_end (add_offer_options d (add_msg_type t (create_msg d m, 240)))) =
      reply_form (client_address d) m (enc_opts ((53, [t]) # offer_tlvs d))"
    using o reply_bytes [OF assms, of "enc_opts ((53, [t]) # offer_tlvs d)" d] by (simp add: enc_opts_def offer_options_tlvs)
  have "fst (add_end (add_msg_type t (create_msg d m, 240))) = st_bytes (create_msg d m) 240 ([53, 1, t] @ [255])"
    using l st_bytes_seq [of 240 "[53, 1, t]" "[255]" "create_msg d m"] by (simp add: add_end_def add_msg_type_def put_def)
  then show "fst (add_end (add_msg_type t (create_msg d m, 240))) = reply_form (client_address d) m (enc_opts [(53, [t])])"
    using reply_bytes [OF assms, of "enc_opts [(53, [t])]" d] by (simp add: enc_opts_def)
qed

lemma enc_fits: "length (enc_opts ((53, [t]) # offer_tlvs d)) \<le> 308" "length (enc_opts [(53, [t])]) \<le> 308"
  using length_offer_options [of d] by (simp_all add: enc_opts_def offer_options_tlvs)

lemma send_eqs:
  assumes l: "DHCPS_MSG_SIZE \<le> length m" and p: "de_pbuf env" "dhcps_pcb d = Some pcb"
  shows "send_offer env d m (length m) =
      Inr [Udp_sendto pcb (reply_form (client_address d) m (enc_opts ((53, [2]) # offer_tlvs d))) (broadcast_dhcps d) 68]"
    and "send_nak env d m (length m) =
      Inr [Udp_sendto pcb (reply_form (client_address d) m (enc_opts [(53, [6])])) (broadcast_dhcps d) 68]"
    and "\<exists>cb. send_ack env d m (length m) =
      Inr (Udp_sendto pcb (reply_form (client_address d) m (enc_opts ((53, [5]) # offer_tlvs d))) (broadcast_dhcps d) 68 # cb) \<and>
      cb = (case dhcps_cb d of
          Some f \<Rightarrow> if de_send env = 0 then [Lease_cb f (dhcps_cb_arg d) (bytes32 (client_address d)) (ld_bytes m 28 6)] else []
        | None \<Rightarrow> [])"
proof -
  note f = enc_fits(1) [of 2 d] enc_fits(1) [of 5 d] enc_fits(2) [of 6]
  have co: "copy_out (reply_form (client_address d) m opts) (replicate (length m) 0) = Inr (reply_form (client_address d) m opts)"
    if "length opts \<le> 308" for opts
    using length_reply_form [OF l that] by (simp add: copy_out_def)
  have al: "dhcps_pbuf_alloc True (length m) = Some (replicate (length m) 0)" using l by (simp add: dhcps_pbuf_alloc_def)
  show "send_offer env d m (length m) =
      Inr [Udp_sendto pcb (reply_form (client_address d) m (enc_opts ((53, [2]) # offer_tlvs d))) (broadcast_dhcps d) 68]"
    using p f by (simp add: send_offer_def Let_def put_opts [OF l] co al send_buf_def)
  show "send_nak env d m (length m) =
      Inr [Udp_sendto pcb (reply_form (client_address d) m (enc_opts [(53, [6])])) (broadcast_dhcps d) 68]"
    using p f by (simp add: send_nak_def Let_def put_opts [OF l] co al send_buf_def)
  have yi: "ld_bytes (reply_form a m opts) 16 4 = bytes32 a" and ch: "ld_bytes (reply_form a m opts) 28 6 = ld_bytes m 28 6" for a opts
    using l by (simp_all add: ld_bytes_def reply_form_def)
  show "\<exists>cb. send_ack env d m (length m) =
      Inr (Udp_sendto pcb (reply_form (client_address d) m (enc_opts ((53, [5]) # offer_tlvs d))) (broadcast_dhcps d) 68 # cb) \<and>
      cb = (case dhcps_cb d of
          Some f \<Rightarrow> if de_send env = 0 then [Lease_cb f (dhcps_cb_arg d) (bytes32 (client_address d)) (ld_bytes m 28 6)] else []
        | None \<Rightarrow> [])"
    using p f by (simp add: send_ack_def Let_def put_opts [OF l] co al send_buf_def yi ch split: option.splits)
qed

section \<open>Requests and answers\<close>

definition dhcp_packet :: "u8 list \<Rightarrow> (u8 \<times> u8 list) list \<Rightarrow> u8 list" where
  "dhcp_packet hdr ops = hdr @ bytes32 magic_cookie @ enc_opts ops"

definition opt_state :: "bool \<Rightarrow> u8 \<times> nat \<Rightarrow> nat" where
  "opt_state rn = (\<lambda>(type, st).
     if type = DHCPDISCOVER then DHCPS_STATE_OFFER
     else if type = DHCPREQUEST then
       (if \<not> (st = DHCPS_STATE_ACK \<or> st = DHCPS_STATE_NAK) then if rn then DHCPS_STATE_ACK else DHCPS_STATE_NAK else st)
     else if type = DHCPDECLINE then DHCPS_STATE_IDLE
     else if type = DHCPRELEASE then DHCPS_STATE_RELEASE
     else st)"

lemma opt_scan_map_of:
  assumes "distinct (map fst ops)"
  shows "opt_scan client (t, st) ops =
    (case map_of ops 53 of Some v \<Rightarrow> hd v | None \<Rightarrow> t,
     case map_of ops 50 of Some v \<Rightarrow> if v = bytes32 client then DHCPS_STATE_ACK else DHCPS_STATE_NAK | None \<Rightarrow> st)"
  using assms
proof (induction ops arbitrary: t st)
  case Nil
  then show ?case by simp
next
  case (Cons x ops)
  obtain c v where x: "x = (c, v)" by (cases x)
  have no: "c = 53 \<Longrightarrow> map_of ops 53 = None" "c = 50 \<Longrightarrow> map_of ops 50 = None"
    using Cons.prems by (auto simp: x map_of_eq_None_iff image_iff)
  show ?case
    using Cons no by (auto simp: x)
qed

lemma parse_options_packet:
  assumes l: "length hdr = 236" and ok: "\<forall>o1 \<in> set ops. opt_ok o1" and small: "length (dhcp_packet hdr ops) < 32768"
  shows "parse_options d (dhcp_packet hdr ops @ rest) 240 (of_nat (length (dhcp_packet hdr ops)) - 240) =
    Inr (opt_state (renew d) (opt_scan (client_address d) (0, DHCPS_STATE_IDLE) ops))"
proof -
  let ?L = "length (dhcp_packet hdr ops)"
  have L: "?L = 240 + length (enc_opts ops)" using l by (simp add: dhcp_packet_def)
  have "(of_nat ?L - 240 :: u16) = of_nat (length (enc_opts ops))" by (simp add: L)
  moreover have "sint (of_nat (length (enc_opts ops)) :: u16) = int (length (enc_opts ops))"
    using small L by (simp add: sint_uint signed_take_bit_int_eq_self unsigned_of_nat take_bit_nat_eq_self)
  ultimately have e: "int 240 + sint (of_nat ?L - 240 :: u16) = int ?L" by (simp add: L)
  have "parse_loop (client_address d) ((hdr @ bytes32 magic_cookie) @ enc_opts ops @ rest) (int ?L) (length (hdr @ bytes32 magic_cookie)) (0, 5) =
      Inr (opt_scan (client_address d) (0, 5) ops)"
    using l by (intro parse_loop_tlv [OF ok]) (simp add: L)
  then have "parse_loop (client_address d) (dhcp_packet hdr ops @ rest) (int ?L) 240 (0, 5) = Inr (opt_scan (client_address d) (0, 5) ops)"
    using l by (simp add: dhcp_packet_def)
  then show ?thesis
    unfolding parse_options_def e by (cases "opt_scan (client_address d) (0, 5) ops") (simp add: opt_state_def)
qed

lemma handle_packet:
  assumes l: "length hdr = 236" and segs: "concat (take 2 segs) = dhcp_packet hdr ops" and small: "length (dhcp_packet hdr ops) < 32768"
    and env: "de_msg env"
  obtains rest where "DHCPS_MSG_SIZE \<le> length (dhcp_packet hdr ops @ rest)"
    "handle_dhcp env junk (Some (of_nat (length (dhcp_packet hdr ops)), segs)) d =
      bindR (parse_msg env (dhcp_packet hdr ops @ rest) (of_nat (length (dhcp_packet hdr ops)) - 240) d) (\<lambda>(state, d).
        bindR (if state = DHCPS_STATE_OFFER then send_offer env d (dhcp_packet hdr ops @ rest) (length (dhcp_packet hdr ops @ rest))
               else if state = DHCPS_STATE_ACK then send_ack env d (dhcp_packet hdr ops @ rest) (length (dhcp_packet hdr ops @ rest))
               else if state = DHCPS_STATE_NAK then send_nak env d (dhcp_packet hdr ops @ rest) (length (dhcp_packet hdr ops @ rest))
               else Inr [])
          (\<lambda>io. Inr (io, d)))"
proof -
  let ?pk = "dhcp_packet hdr ops"
  define mx where "mx = (if DHCPS_MSG_SIZE < length ?pk then length ?pk else DHCPS_MSG_SIZE)"
  have u: "unat (of_nat (length ?pk) :: u16) = length ?pk" using small by (simp add: unat_of_nat take_bit_nat_eq_self)
  have le: "length ?pk \<le> mx" by (simp add: mx_def)
  define rest where "rest = drop (length ?pk) (map junk [0..<mx])"
  have m: "st_bytes (map junk [0..<mx]) 0 ?pk = ?pk @ rest" by (simp add: st_bytes_def rest_def)
  have len: "length (?pk @ rest) = mx" using le by (simp add: rest_def)
  show thesis
  proof (rule that [of rest])
    show "DHCPS_MSG_SIZE \<le> length (?pk @ rest)" unfolding len by (simp add: mx_def)
    have ml: "(if DHCPS_MSG_SIZE < unat (of_nat (length ?pk) :: u16) then unat (of_nat (length ?pk) :: u16) else DHCPS_MSG_SIZE) = mx"
      unfolding u mx_def ..
    have nl: "\<not> mx < length ?pk" using le by simp
    show "handle_dhcp env junk (Some (of_nat (length ?pk), segs)) d =
      bindR (parse_msg env (?pk @ rest) (of_nat (length ?pk) - 240) d) (\<lambda>(state, d).
        bindR (if state = DHCPS_STATE_OFFER then send_offer env d (?pk @ rest) (length (?pk @ rest))
               else if state = DHCPS_STATE_ACK then send_ack env d (?pk @ rest) (length (?pk @ rest))
               else if state = DHCPS_STATE_NAK then send_nak env d (?pk @ rest) (length (?pk @ rest))
               else Inr [])
          (\<lambda>io. Inr (io, d)))"
      unfolding len handle_dhcp_def Let_def option.case prod.case segs ml m using env nl by simp
  qed
qed

text \<open>The server's own look-up as a map from device addresses.\<close>

definition lease_map :: "dhcps \<Rightarrow> u8 list \<Rightarrow> u32 option" where
  "lease_map d = map_of (map (\<lambda>n. (ln_mac n, ln_ip n)) (plist d))"

lemma search_map: "length mac = 6 \<Longrightarrow> dhcp_search_ip_on_mac mac (Some d) = lease_map d mac"
proof -
  have "map_option ln_ip (find (\<lambda>n. ln_mac n = mac) pl) = map_of (map (\<lambda>n. (ln_mac n, ln_ip n)) pl) mac" for pl
    by (induction pl) auto
  then show "length mac = 6 \<Longrightarrow> ?thesis" by (simp add: dhcp_search_ip_on_mac_def lease_map_def)
qed

lemma lease_map_Some:
  "distinct (map ln_mac (plist d)) \<Longrightarrow> lease_map d mac = Some a \<longleftrightarrow> (\<exists>n \<in> set (plist d). ln_mac n = mac \<and> ln_ip n = a)"
  unfolding lease_map_def by (subst map_of_eq_Some_iff) (auto simp: comp_def)

lemma lease_map_None: "lease_map d mac = None \<longleftrightarrow> mac \<notin> ln_mac ` set (plist d)"
  by (simp add: lease_map_def map_of_eq_None_iff image_image)

lemma lease_map_cong: "map ln_mac (plist d') = map ln_mac (plist d) \<Longrightarrow> map ln_ip (plist d') = map ln_ip (plist d) \<Longrightarrow> lease_map d' = lease_map d"
proof -
  have "map (\<lambda>n. (ln_mac n, ln_ip n)) pl = zip (map ln_mac pl) (map ln_ip pl)" for pl :: "list_node list" by (induction pl) auto
  then show "map ln_mac (plist d') = map ln_mac (plist d) \<Longrightarrow> map ln_ip (plist d') = map ln_ip (plist d) \<Longrightarrow> ?thesis"
    by (simp only: lease_map_def)
qed

lemma lease_map_insert:
  assumes "distinct (map ln_mac (plist d))" "ln_mac n \<notin> ln_mac ` set (plist d)" "plist d' = node_insert_to_list n (plist d)"
  shows "lease_map d' = (lease_map d)(ln_mac n \<mapsto> ln_ip n)"
proof
  fix k
  have dis: "distinct (map ln_mac (plist d'))" using assms by (simp add: distinct_node_insert)
  have new: "\<forall>x \<in> set (plist d). ln_mac x \<noteq> ln_mac n" using assms(2) by (metis imageI)
  have "lease_map d' k = Some v \<longleftrightarrow> ((lease_map d)(ln_mac n \<mapsto> ln_ip n)) k = Some v" for v
    using lease_map_Some [OF dis] lease_map_Some [OF assms(1)] new assms(3) by auto
  then show "lease_map d' k = ((lease_map d)(ln_mac n \<mapsto> ln_ip n)) k" by (metis option.exhaust)
qed

lemma lease_map_remove:
  assumes "distinct (map ln_mac (plist d))" "distinct (map ln_addr (plist d))" "n \<in> set (plist d)"
    and "plist d' = node_remove_from_list (ln_addr n) (plist d)"
  shows "lease_map d' = (lease_map d)(ln_mac n := None)"
proof
  fix k
  have e: "plist d' = filter (\<lambda>x. ln_addr x \<noteq> ln_addr n) (plist d)" using assms(2,4) by (simp add: node_remove_eq)
  have dis: "distinct (map ln_mac (plist d'))" using assms(1) by (simp add: e distinct_map_filter)
  have inj: "x \<in> set (plist d) \<Longrightarrow> ln_addr x = ln_addr n \<longleftrightarrow> x = n" "x \<in> set (plist d) \<Longrightarrow> ln_mac x = ln_mac n \<longleftrightarrow> x = n" for x
    using assms(1-3) by (auto simp: distinct_map dest: inj_onD)
  have "lease_map d' k = Some v \<longleftrightarrow> ((lease_map d)(ln_mac n := None)) k = Some v" for v
    using lease_map_Some [OF dis, of k v] lease_map_Some [OF assms(1), of k v] inj by (auto simp: e)
  then show "lease_map d' k = ((lease_map d)(ln_mac n := None)) k" by (metis option.exhaust)
qed


lemma offer_tlvs_cfg: "dhcp_cfg d' = dhcp_cfg d \<Longrightarrow> offer_tlvs d' = offer_tlvs d"
proof -
  have "offer_tlvs x = offer_tlvs (dhcp_cfg x)" for x by (simp add: offer_tlvs_def dhcp_cfg_def)
  then show "dhcp_cfg d' = dhcp_cfg d \<Longrightarrow> ?thesis" by metis
qed

text \<open>How a client reads a reply: transaction, hardware address, its own address, options.\<close>

definition reply_reads :: "u8 list \<Rightarrow> u8 list \<Rightarrow> u32 \<Rightarrow> (u8 \<times> u8 list) list \<Rightarrow> bool" where
  "reply_reads r hdr yi ops \<longleftrightarrow> DHCPS_MSG_SIZE \<le> length r \<and> r ! 0 = 2 \<and> take 4 (drop 4 r) = take 4 (drop 4 hdr) \<and>
     take 4 (drop 16 r) = bytes32 yi \<and> take 16 (drop 28 r) = take 16 (drop 28 hdr) \<and>
     take 4 (drop 236 r) = [0x63, 0x82, 0x53, 0x63] \<and> opt_decode (drop 240 r) = Some ops"

lemma reply_form_reads:
  assumes "length hdr = 236" "DHCPS_MSG_SIZE \<le> length (dhcp_packet hdr ops @ rest)" "\<forall>o1 \<in> set os. opt_ok o1" "length (enc_opts os) \<le> 308"
  shows "reply_reads (reply_form yi (dhcp_packet hdr ops @ rest) (enc_opts os)) hdr yi os"
proof -
  have "bytes32 magic_cookie = [0x63, 0x82, 0x53, 0x63]" by (simp add: bytes32_def magic_cookie_def drop_bit_eq_div ucast_eq) 
  then show ?thesis
    using assms length_reply_form [OF assms(2,4)] opt_decode_enc [OF assms(3)]
    by (simp add: reply_reads_def reply_form_def dhcp_packet_def)
qed

text \<open>What a well-formed request is.\<close>

definition good_request :: "u8 list \<Rightarrow> (u8 \<times> u8 list) list \<Rightarrow> u8 list list \<Rightarrow> bool" where
  "good_request hdr ops segs \<longleftrightarrow> length hdr = 236 \<and> (\<forall>o1 \<in> set ops. opt_ok o1) \<and> distinct (map fst ops) \<and>
     length (dhcp_packet hdr ops) < 32768 \<and> concat (take 2 segs) = dhcp_packet hdr ops"

definition req_mac :: "u8 list \<Rightarrow> u8 list" where
  "req_mac hdr = take 6 (drop 28 hdr)"

lemma packet_fields:
  "length hdr = 236 \<Longrightarrow> ld_bytes (dhcp_packet hdr ops @ rest) 236 4 = bytes32 magic_cookie"
  "length hdr = 236 \<Longrightarrow> ld_bytes (dhcp_packet hdr ops @ rest) 28 6 = req_mac hdr"
  by (simp_all add: ld_bytes_def dhcp_packet_def req_mac_def)

lemma pool_addr_ok:
  assumes "dhcp_inv N s e d" "s \<le> h" "h \<le> e"
  shows "\<not> dl_end (dhcps_poll d) < pool_ip N h" "pool_ip N h \<noteq> 0"
proof -
  have N: "N < 16777216" "0 < s" "e < 255" "dl_end (dhcps_poll d) = pool_ip N e" using assms(1) by (simp_all add: dhcp_inv_def pool_set_def)
  then show "\<not> dl_end (dhcps_poll d) < pool_ip N h" using assms(2,3) by (simp add: pool_ip_less_iff)
  have "unat (pool_ip N h) \<noteq> 0" using N assms(2,3) by (simp add: unat_pool_ip)
  then show "pool_ip N h \<noteq> 0" by auto
qed

lemma full_pool_length:
  assumes "dhcp_inv N s e d" "e = s + 99" "\<forall>j. s \<le> j \<and> j \<le> e \<longrightarrow> pool_ip N j \<in> ln_ip ` set (plist d)"
  shows "100 \<le> length (plist d)"
proof -
  have N: "N < 16777216" "e < 255" using assms(1) by (simp_all add: dhcp_inv_def pool_set_def)
  have inj: "inj_on (pool_ip N) {s..e}" using N by (auto simp: inj_on_def pool_ip_eq_iff)
  have "card {s..e} = card (pool_ip N ` {s..e})" using card_image [OF inj] by simp
  also have "\<dots> \<le> card (ln_ip ` set (plist d))" using assms(3) by (intro card_mono) auto
  also have "\<dots> \<le> card (set (plist d))" by (rule card_image_le) simp
  also have "\<dots> \<le> length (plist d)" by (rule card_length)
  finally show ?thesis using assms(2) by simp
qed


lemma discover_facts:
  assumes reach: "dhcp_reach ip d" and pcb: "dhcps_pcb d = Some pcb"
    and req: "good_request hdr ops segs" and type: "map_of ops 53 = Some [1]"
    and env: "de_msg env" "de_pool env" "de_pbuf env" "de_node env = Some na" "na \<notin> ln_addr ` set (plist d)"
    and room: "lease_map d (req_mac hdr) \<noteq> None \<or> length (plist d) < 100"
  shows "\<exists>a d' r. handle_dhcp env junk (Some (of_nat (length (dhcp_packet hdr ops)), segs)) d =
      Inr ([Udp_sendto pcb r (broadcast_dhcps d) 68], d') \<and>
    lease_map d' = (lease_map d)(req_mac hdr \<mapsto> a) \<and>
    (lease_map d (req_mac hdr) \<noteq> None \<longrightarrow> lease_map d (req_mac hdr) = Some a) \<and>
    reply_reads r hdr a ((53, [2]) # offer_tlvs d)"
proof -
  obtain N s e where inv: "dhcp_inv N s e d" and e: "e = s + 99" using dhcp_reach_good [OF reach] by (auto simp: dhcp_good_def)
  have dm: "distinct (map ln_mac (plist d))" using inv by (simp add: dhcp_inv_def)
  have rq: "length hdr = 236" "\<forall>o1 \<in> set ops. opt_ok o1" "distinct (map fst ops)" "length (dhcp_packet hdr ops) < 32768"
    "concat (take 2 segs) = dhcp_packet hdr ops" using req by (simp_all add: good_request_def)
  obtain rest where long: "DHCPS_MSG_SIZE \<le> length (dhcp_packet hdr ops @ rest)" and
    h: "handle_dhcp env junk (Some (of_nat (length (dhcp_packet hdr ops)), segs)) d =
      bindR (parse_msg env (dhcp_packet hdr ops @ rest) (of_nat (length (dhcp_packet hdr ops)) - 240) d) (\<lambda>(state, d).
        bindR (if state = DHCPS_STATE_OFFER then send_offer env d (dhcp_packet hdr ops @ rest) (length (dhcp_packet hdr ops @ rest))
               else if state = DHCPS_STATE_ACK then send_ack env d (dhcp_packet hdr ops @ rest) (length (dhcp_packet hdr ops @ rest))
               else if state = DHCPS_STATE_NAK then send_nak env d (dhcp_packet hdr ops @ rest) (length (dhcp_packet hdr ops @ rest))
               else Inr [])
          (\<lambda>io. Inr (io, d)))" by (rule handle_packet [OF rq(1,5,4) env(1)])
  let ?m = "dhcp_packet hdr ops @ rest" and ?l = "of_nat (length (dhcp_packet hdr ops)) - 240 :: u16"
  have offer: "parse_options d2 ?m 240 ?l = Inr 1" for d2
    using parse_options_packet [OF rq(1,2,4), of d2 rest] type by (simp add: opt_scan_map_of [OF rq(3)] opt_state_def)
  have final: ?thesis if p: "parse_msg env ?m ?l d = pool_check ?m ?l pn d2" and i: "dhcp_inv N s e d2"
    and c: "client_address d2 = pool_ip N a" "s \<le> a" "a \<le> e" and cfg: "dhcp_cfg d2 = dhcp_cfg d"
    and lm: "lease_map d2 = (lease_map d)(req_mac hdr \<mapsto> pool_ip N a)"
      "lease_map d (req_mac hdr) \<noteq> None \<longrightarrow> lease_map d (req_mac hdr) = Some (pool_ip N a)" for pn d2 a
  proof -
    have "pool_check ?m ?l pn d2 = Inr (1, d2)"
      using pool_addr_ok [OF i c(2,3)] by (simp add: pool_check_def c(1) offer)
    moreover have "send_offer env d2 ?m (length ?m) =
        Inr [Udp_sendto pcb (reply_form (pool_ip N a) ?m (enc_opts ((53, [2]) # offer_tlvs d))) (broadcast_dhcps d) 68]"
      using send_eqs(1) [OF long env(3), of d2 pcb] pcb dhcp_cfg_eqD [OF cfg] offer_tlvs_cfg [OF cfg] c(1) by simp
    ultimately have "handle_dhcp env junk (Some (of_nat (length (dhcp_packet hdr ops)), segs)) d =
        Inr ([Udp_sendto pcb (reply_form (pool_ip N a) ?m (enc_opts ((53, [2]) # offer_tlvs d))) (broadcast_dhcps d) 68], d2)"
      unfolding h p by simp
    moreover have "reply_reads (reply_form (pool_ip N a) ?m (enc_opts ((53, [2]) # offer_tlvs d))) hdr (pool_ip N a) ((53, [2]) # offer_tlvs d)"
      using reply_form_reads [OF rq(1) long _ enc_fits(1)] offer_tlvs_ok [of d] by (simp add: opt_ok_def)
    ultimately show ?thesis using lm by blast
  qed
  note magic = packet_fields(1) [OF rq(1), of ops rest] and mac = packet_fields(2) [OF rq(1), of ops rest]
  show ?thesis
  proof (cases "req_mac hdr \<in> ln_mac ` set (plist d)")
    case True
    then have memb: "ld_bytes ?m 28 6 \<in> ln_mac ` set (plist d)" using mac by simp
    show ?thesis
    proof (rule parse_msg_known [OF inv magic memb, where env = env and len = ?l])
      fix n d2
      assume n: "n \<in> set (plist d)" "ln_mac n = ld_bytes ?m 28 6" "parse_msg env ?m ?l d = pool_check ?m ?l (Some (ln_addr n)) d2"
        "dhcp_inv N s e d2" "client_address d2 = ln_ip n" "plist d2 = set_timer (ln_addr n) (lease_ticks d) (plist d)" "dhcp_cfg d2 = dhcp_cfg d"
      have old: "lease_map d (req_mac hdr) = Some (ln_ip n)" using n(1,2) mac by (intro lease_map_Some [OF dm, THEN iffD2] bexI [of _ n]) simp_all
      obtain a where a: "ln_ip n = pool_ip N a" "s \<le> a" "a \<le> e" using inv n(1) by (auto simp: dhcp_inv_def leases_in_def)
      have "lease_map d2 = lease_map d" using n(6) by (intro lease_map_cong) simp_all
      then have lm: "lease_map d2 = (lease_map d)(req_mac hdr \<mapsto> pool_ip N a)" using old a(1) by (simp add: fun_upd_idem)
      have "client_address d2 = pool_ip N a" using n(5) a(1) by simp
      from final [OF n(3,4) this a(2,3) n(7) lm] show ?thesis using old a(1) by simp
    qed
  next
    case False
    have fr: "\<And>a. de_node env = Some a \<Longrightarrow> a \<notin> ln_addr ` set (plist d)" using env(4,5) by simp
    have none: "lease_map d (req_mac hdr) = None"
      using False by (simp add: lease_map_None)
    show ?thesis
    proof (rule parse_msg_new [OF inv magic _ fr, where len = ?l])
      show "ld_bytes ?m 28 6 \<notin> ln_mac ` set (plist d)" using False mac by simp
    next
      assume "\<not> de_pool env \<or> de_node env = None"
      then show ?thesis using env by simp
    next
      assume "\<forall>j. s \<le> j \<and> j \<le> e \<longrightarrow> pool_ip N j \<in> ln_ip ` set (plist d)"
      then show ?thesis using full_pool_length [OF inv e] room none by simp
    next
      fix a h d2
      assume h: "s \<le> h" "h \<le> e" "parse_msg env ?m ?l d = pool_check ?m ?l (Some a) d2" "dhcp_inv N s e d2"
        "client_address d2 = pool_ip N h" "dhcp_cfg d2 = dhcp_cfg d"
        "plist d2 = node_insert_to_list
           \<lparr>ln_addr = a, ln_pool = \<lparr>dp_ip = pool_ip N h, dp_mac = ld_bytes ?m 28 6, dp_timer = lease_ticks d\<rparr>\<rparr> (plist d)"
      have "lease_map d2 = (lease_map d)(req_mac hdr \<mapsto> pool_ip N h)"
        using lease_map_insert [OF dm _ h(7)] False mac by simp
      then show ?thesis using final [OF h(3,4,5,1,2,6)] none by simp
    qed
  qed
qed


lemma request_facts:
  assumes reach: "dhcp_reach ip d" and pcb: "dhcps_pcb d = Some pcb"
    and req: "good_request hdr ops segs" and type: "map_of ops 53 = Some [3]" "map_of ops 50 = Some v"
    and env: "de_msg env" "de_pbuf env" and known: "lease_map d (req_mac hdr) = Some a"
  shows "\<exists>d' r cb. handle_dhcp env junk (Some (of_nat (length (dhcp_packet hdr ops)), segs)) d =
      Inr (Udp_sendto pcb r (broadcast_dhcps d) 68 # cb, d') \<and> dhcp_cfg d' = dhcp_cfg d \<and>
    (if v = bytes32 a
     then lease_map d' = lease_map d \<and> reply_reads r hdr a ((53, [5]) # offer_tlvs d) \<and>
       cb = (case dhcps_cb d of
          Some f \<Rightarrow> if de_send env = 0 then [Lease_cb f (dhcps_cb_arg d) (bytes32 a) (req_mac hdr)] else []
        | None \<Rightarrow> [])
     else lease_map d' = (lease_map d)(req_mac hdr := None) \<and> reply_reads r hdr 0 [(53, [6])] \<and> cb = [])"
proof -
  obtain N s e where inv: "dhcp_inv N s e d" using dhcp_reach_good [OF reach] by (auto simp: dhcp_good_def)
  have dm: "distinct (map ln_mac (plist d))" "distinct (map ln_addr (plist d))" using inv by (simp_all add: dhcp_inv_def)
  have rq: "length hdr = 236" "\<forall>o1 \<in> set ops. opt_ok o1" "distinct (map fst ops)" "length (dhcp_packet hdr ops) < 32768"
    "concat (take 2 segs) = dhcp_packet hdr ops" using req by (simp_all add: good_request_def)
  obtain rest where long: "DHCPS_MSG_SIZE \<le> length (dhcp_packet hdr ops @ rest)" and
    h: "handle_dhcp env junk (Some (of_nat (length (dhcp_packet hdr ops)), segs)) d =
      bindR (parse_msg env (dhcp_packet hdr ops @ rest) (of_nat (length (dhcp_packet hdr ops)) - 240) d) (\<lambda>(state, d).
        bindR (if state = DHCPS_STATE_OFFER then send_offer env d (dhcp_packet hdr ops @ rest) (length (dhcp_packet hdr ops @ rest))
               else if state = DHCPS_STATE_ACK then send_ack env d (dhcp_packet hdr ops @ rest) (length (dhcp_packet hdr ops @ rest))
               else if state = DHCPS_STATE_NAK then send_nak env d (dhcp_packet hdr ops @ rest) (length (dhcp_packet hdr ops @ rest))
               else Inr [])
          (\<lambda>io. Inr (io, d)))" by (rule handle_packet [OF rq(1,5,4) env(1)])
  let ?m = "dhcp_packet hdr ops @ rest" and ?l = "of_nat (length (dhcp_packet hdr ops)) - 240 :: u16"
  have opts: "parse_options d2 ?m 240 ?l = Inr (if v = bytes32 (client_address d2) then 3 else 4)" for d2
    using parse_options_packet [OF rq(1,2,4), of d2 rest] type by (simp add: opt_scan_map_of [OF rq(3)] opt_state_def)
  note magic = packet_fields(1) [OF rq(1), of ops rest] and mac = packet_fields(2) [OF rq(1), of ops rest]
  have "req_mac hdr \<in> ln_mac ` set (plist d)" using known lease_map_None [of d "req_mac hdr"] by auto
  then have memb: "ld_bytes ?m 28 6 \<in> ln_mac ` set (plist d)" using mac by simp
  show ?thesis
  proof (rule parse_msg_known [OF inv magic memb, where env = env and len = ?l])
    fix n d2
    assume n: "n \<in> set (plist d)" "ln_mac n = ld_bytes ?m 28 6" "parse_msg env ?m ?l d = pool_check ?m ?l (Some (ln_addr n)) d2"
      "dhcp_inv N s e d2" "client_address d2 = ln_ip n" "plist d2 = set_timer (ln_addr n) (lease_ticks d) (plist d)" "dhcp_cfg d2 = dhcp_cfg d"
    obtain h where hh: "ln_ip n = pool_ip N h" "s \<le> h" "h \<le> e" using inv n(1) by (auto simp: dhcp_inv_def leases_in_def)
    have old: "lease_map d (req_mac hdr) = Some (ln_ip n)"
      using n(1,2) mac by (intro lease_map_Some [OF dm(1), THEN iffD2] bexI [of _ n]) simp_all
    with known have a: "ln_ip n = a" by simp
    have lm: "lease_map d2 = lease_map d" using n(6) by (intro lease_map_cong) simp_all
    have okc: "\<not> (dl_end (dhcps_poll d2) < client_address d2 \<or> client_address d2 = 0)"
      using pool_addr_ok [OF n(4) hh(2,3)] n(5) hh(1) by simp
    note cfg = dhcp_cfg_eqD [OF n(7)] offer_tlvs_cfg [OF n(7)]
    show ?thesis
    proof (cases "v = bytes32 a")
      case True
      then have p: "parse_msg env ?m ?l d = Inr (3, d2)" using okc n(3,5) a by (simp add: pool_check_def opts)
      obtain cb where cb: "send_ack env d2 ?m (length ?m) =
          Inr (Udp_sendto pcb (reply_form a ?m (enc_opts ((53, [5]) # offer_tlvs d))) (broadcast_dhcps d) 68 # cb)"
        "cb = (case dhcps_cb d of
          Some f \<Rightarrow> if de_send env = 0 then [Lease_cb f (dhcps_cb_arg d) (bytes32 a) (req_mac hdr)] else [] | None \<Rightarrow> [])"
        using send_eqs(3) [OF long env(2), of d2 pcb] pcb cfg n(5) a mac by (cases "dhcps_cb d") auto
      have "reply_reads (reply_form a ?m (enc_opts ((53, [5]) # offer_tlvs d))) hdr a ((53, [5]) # offer_tlvs d)"
        using reply_form_reads [OF rq(1) long _ enc_fits(1)] offer_tlvs_ok [of d] by (simp add: opt_ok_def)
      then show ?thesis using h p cb lm n(7) True by simp
    next
      case False
      let ?d3 = "(drop_lease (Some (ln_addr n)) d2)\<lparr>client_address := 0\<rparr>"
      have p: "parse_msg env ?m ?l d = Inr (4, ?d3)" using okc n(3,5) a False by (simp add: pool_check_def opts)
      let ?n2 = "n\<lparr>ln_pool := (ln_pool n)\<lparr>dp_timer := lease_ticks d\<rparr>\<rparr>"
      have m2: "distinct (map ln_mac (plist d2))" "distinct (map ln_addr (plist d2))" using n(4) by (simp_all add: dhcp_inv_def)
      have "?n2 \<in> set (plist d2)" unfolding n(6) set_timer_def using n(1) by (auto simp: image_iff intro!: bexI [of _ n])
      moreover have "plist ?d3 = node_remove_from_list (ln_addr ?n2) (plist d2)" by (simp add: drop_lease_def)
      ultimately have lm3: "lease_map ?d3 = (lease_map d2)(ln_mac ?n2 := None)" by (rule lease_map_remove [OF m2])
      have c3: "dhcp_cfg ?d3 = dhcp_cfg d" using n(7) by (simp add: drop_lease_def)
      have "send_nak env ?d3 ?m (length ?m) = Inr [Udp_sendto pcb (reply_form 0 ?m (enc_opts [(53, [6])])) (broadcast_dhcps d) 68]"
        using send_eqs(2) [OF long env(2), of ?d3 pcb] pcb dhcp_cfg_eqD [OF c3] by simp
      moreover have "reply_reads (reply_form 0 ?m (enc_opts [(53, [6])])) hdr 0 [(53, [6])]"
        using reply_form_reads [OF rq(1) long _ enc_fits(2)] by (simp add: opt_ok_def)
      ultimately show ?thesis using h p lm3 lm n(2) mac False c3 by simp
    qed
  qed
qed

text \<open>
  C14: A device that asks for an address gets one: after a well-formed DISCOVER on a server with
  room (or one that knows the device), the lease table holds an address for the device, all other
  devices keep theirs, and exactly one OFFER is broadcast, which a client reads as the answer to
  its own request, with this address and the server's options.
\<close>

theorem dhcp_discover_offers:
  assumes reach: "dhcp_reach ip d" and pcb: "dhcps_pcb d = Some pcb"
    and req: "good_request hdr ops segs" and type: "map_of ops 53 = Some [1]"
    and env: "de_msg env" "de_pool env" "de_pbuf env" "de_node env = Some na" "na \<notin> ln_addr ` set (plist d)"
    and room: "lease_map d (req_mac hdr) \<noteq> None \<or> length (plist d) < 100"
  shows "\<exists>a d' r. handle_dhcp env junk (Some (of_nat (length (dhcp_packet hdr ops)), segs)) d =
      Inr ([Udp_sendto pcb r (broadcast_dhcps d) 68], d') \<and>
    lease_map d' = (lease_map d)(req_mac hdr \<mapsto> a) \<and>
    (lease_map d (req_mac hdr) \<noteq> None \<longrightarrow> lease_map d (req_mac hdr) = Some a) \<and>
    reply_reads r hdr a ((53, [2]) # offer_tlvs d)"
  by (rule discover_facts [OF assms])

text \<open>
  C15: A device that requests an address is answered from the lease table: for the address leased to it
  the answer is ACK with this address, the table does not change, and the registered callback is told
  (when the packet could be sent); for any other address the answer is NAK and its lease is given up,
  all other devices keep theirs.
\<close>

theorem dhcp_request_answers:
  assumes "dhcp_reach ip d" and "dhcps_pcb d = Some pcb"
    and "good_request hdr ops segs" and "map_of ops 53 = Some [3]" "map_of ops 50 = Some v"
    and "de_msg env" "de_pbuf env" and "lease_map d (req_mac hdr) = Some a"
  shows "\<exists>d' r cb. handle_dhcp env junk (Some (of_nat (length (dhcp_packet hdr ops)), segs)) d =
      Inr (Udp_sendto pcb r (broadcast_dhcps d) 68 # cb, d') \<and> dhcp_cfg d' = dhcp_cfg d \<and>
    (if v = bytes32 a
     then lease_map d' = lease_map d \<and> reply_reads r hdr a ((53, [5]) # offer_tlvs d) \<and>
       cb = (case dhcps_cb d of
          Some f \<Rightarrow> if de_send env = 0 then [Lease_cb f (dhcps_cb_arg d) (bytes32 a) (req_mac hdr)] else []
        | None \<Rightarrow> [])
     else lease_map d' = (lease_map d)(req_mac hdr := None) \<and> reply_reads r hdr 0 [(53, [6])] \<and> cb = [])"
  by (rule request_facts [OF assms])

section \<open>Arbitrary input\<close>

lemma parse_loop_safe: "endp + 5 \<le> int (length m) \<Longrightarrow> \<exists>acc'. parse_loop client m endp pos acc = Inr acc'"
proof (induction client m endp pos acc rule: parse_loop.induct)
  case (1 client m endp pos acc)
  show ?case
  proof (cases "int pos < endp")
    case False
    then show ?thesis by (subst parse_loop.simps) simp
  next
    case True
    then have "pos + 6 \<le> length m" using 1(2) by linarith
    then have "\<exists>acc1 b. parse_option client m pos acc = Inr (acc1, b)" and l: "rd m (pos + 1) = Inr (m ! (pos + 1))"
      by (cases acc, auto simp: parse_option_def rd_def rd4_def)
    then obtain acc1 b where p: "parse_option client m pos acc = Inr (acc1, b)" by blast
    show ?thesis
    proof (cases b)
      case True
      then show ?thesis using p \<open>int pos < endp\<close> by (subst parse_loop.simps) simp
    next
      case False
      then have "\<exists>acc'. parse_loop client m endp (pos + (unat (m ! (pos + 1)) + 2)) acc1 = Inr acc'"
        using 1(1) [OF True p, of acc1 False "m ! (pos + 1)"] 1(2) l by simp
      then show ?thesis using False p l True by (subst parse_loop.simps) simp
    qed
  qed
qed

lemma send_total: "\<exists>io. send_offer env d m (length m) = Inr io" "\<exists>io. send_nak env d m (length m) = Inr io"
  "\<exists>io. send_ack env d m (length m) = Inr io" if "DHCPS_MSG_SIZE \<le> length m"
proof -
  have len: "length (reply_form a m opts) = length m" if "length opts \<le> 308" for a opts
    using length_reply_form [OF \<open>DHCPS_MSG_SIZE \<le> length m\<close> that] .
  have al: "dhcps_pbuf_alloc b (length m) = (if b then Some (replicate (length m) 0) else None)" for b
    using that by (simp add: dhcps_pbuf_alloc_def)
  note f = enc_fits(1) [of 2 d] enc_fits(1) [of 5 d] enc_fits(2) [of 6]
  show "\<exists>io. send_offer env d m (length m) = Inr io" "\<exists>io. send_nak env d m (length m) = Inr io"
    "\<exists>io. send_ack env d m (length m) = Inr io"
    using f by (simp_all add: send_offer_def send_nak_def send_ack_def Let_def put_opts [OF that] copy_out_def len al split_def)
qed

lemma pool_check_errors:
  assumes "tot \<le> 543" "tot + 5 \<le> length m" and "pool_check m (of_nat tot - 240) pn d = Inl x"
  shows False
proof -
  have "int 240 + sint (of_nat tot - 240 :: u16) + 5 \<le> int (length m)"
  proof -
    have "(of_nat tot - 240 :: u16) = of_int (int tot - 240)" by simp
    then have "sint (of_nat tot - 240 :: u16) = int tot - 240"
      using assms(1) by (simp only: int_word_sint) simp
    then show ?thesis using assms(2) by simp
  qed
  then obtain acc where "parse_loop (client_address d) m (int 240 + sint (of_nat tot - 240 :: u16)) 240 (0, 5) = Inr acc"
    using parse_loop_safe by blast
  then show False using assms(3) by (cases acc) (auto simp: pool_check_def parse_options_def res_simps split: if_splits)
qed

lemma parse_msg_errors:
  assumes "tot \<le> 543" "tot + 5 \<le> length m" and "parse_msg env m (of_nat tot - 240) d = Inl x"
  shows "x = DHCP_NULL_DEREF \<and> (\<not> de_pool env \<or> de_node env = None)"
  using assms(3) pool_check_errors [OF assms(1,2)]
  by (auto simp: parse_msg_def new_lease_def Let_def res_simps split: if_splits option.splits prod.splits)

text \<open>
  C16: No request of at most 543 bytes can make the server read or write out of bounds, whatever its
  bytes and whatever the block from the heap held before: it is handled to the end, and the only failure
  left is an allocation of the lease that the code does not check. (A longer one can: the
  parser looks up to five bytes past the end, as \<open>dhcp_parse_overread\<close> shows for 548 bytes.)
\<close>

theorem dhcp_short_requests_safe:
  assumes "tot \<le> 543" and "length (concat (take 2 segs)) \<le> tot"
    and "de_pool env" "de_node env \<noteq> None"
  shows "\<exists>io d'. handle_dhcp env junk (Some (of_nat tot, segs)) d = Inr (io, d')"
proof (cases "de_msg env")
  case False
  then show ?thesis by (simp add: handle_dhcp_def)
next
  case True
  have u: "unat (of_nat tot :: u16) = tot" using assms(1) by (simp add: unat_of_nat take_bit_nat_eq_self)
  define m where "m = st_bytes (map junk [0..<548]) 0 (concat (take 2 segs))"
  have m: "length m = 548" using assms(1,2) by (simp add: m_def)
  have "\<exists>r. parse_msg env m (of_nat tot - 240) d = Inr r"
    using parse_msg_errors [of tot m env d] assms m by (cases "parse_msg env m (of_nat tot - 240) d") auto
  then obtain st d' where p: "parse_msg env m (of_nat tot - 240) d = Inr (st, d')" by auto
  have "\<exists>io. (if st = DHCPS_STATE_OFFER then send_offer env d' m 548
               else if st = DHCPS_STATE_ACK then send_ack env d' m 548
               else if st = DHCPS_STATE_NAK then send_nak env d' m 548 else Inr []) = Inr io"
    using send_total [of m env d'] m by simp
  then show ?thesis
    using assms(1,2) True p by (auto simp: handle_dhcp_def u Let_def m_def [symmetric] not_less)
qed

lemma dhcp_parse_overread:
  assumes "length m = 548" and "m ! 240 = 1" "m ! 241 = 253" "m ! 495 = 1" "m ! 496 = 50" "m ! 547 = 53"
  shows "parse_options d m 240 (548 - 240) = Inl DHCP_OVERREAD"
proof -
  have s: "sint (548 - 240 :: u16) = 308" by simp
  have "parse_loop c m 548 547 acc = Inl DHCP_OVERREAD" for c acc
    using assms by (cases acc) (subst parse_loop.simps, simp add: parse_option_def rd_def)
  then have "parse_loop c m 548 495 acc = Inl DHCP_OVERREAD" for c acc
    using assms by (cases acc) (subst parse_loop.simps, simp add: parse_option_def rd_def)
  then have "parse_loop c m 548 240 acc = Inl DHCP_OVERREAD" for c acc
    using assms by (cases acc) (subst parse_loop.simps, simp add: parse_option_def rd_def)
  then show ?thesis unfolding parse_options_def s by simp
qed

section \<open>The server of the program\<close>

text \<open>\<open>MX_LWIP_Init\<close> starts the server on 192.168.245.1; a first device asks for an address.\<close>

definition demo_ip :: u32 where
  "demo_ip = le32 192 168 245 1"

definition demo_hdr :: "u8 list" where
  "demo_hdr = [1, 1, 6, 0, 1, 2, 3, 4] @ replicate 20 0 @ [2, 0, 0, 0, 0, 9] @ replicate 202 0"

definition demo_env :: dhcp_env where
  "demo_env = \<lparr>de_msg = True, de_pool = True, de_node = Some 33, de_pbuf = True, de_send = 0\<rparr>"

lemma demo_started:
  "\<exists>d. dhcp_reach demo_ip d \<and> dhcps_pcb d = Some 7 \<and> plist d = [] \<and> dh_state d = HANDLE_STARTED \<and> dhcps_cb d = None"
proof -
  have ip: "demo_ip \<noteq> 0" by (simp add: demo_ip_def le32_sum)
  obtain d0 where d0: "dhcps_new True = Some d0" "plist d0 = []" "dhcps_pcb d0 = None" "dhcps_cb d0 = None" by (simp add: dhcps_new_def)
  define n :: dhcp_netif where "n = \<lparr>dn_id = 0, dn_up = True, dn_info = \<lparr>ii_ip = demo_ip, ii_netmask = 0, ii_gw = demo_ip\<rparr>\<rparr>"
  have "\<exists>io d. dhcps_start (Some 7) (Some n) demo_ip (dhcps_new True) = (True, io, Some d) \<and> dhcps_pcb d = Some 7 \<and> plist d = [] \<and>
      dh_state d = HANDLE_STARTED \<and> dhcps_cb d = None"
    using ip d0 by (simp add: dhcps_start_def Let_def)
  then show ?thesis using dhcp_reach.start by blast
qed

lemma demo_request: "good_request demo_hdr [(53, [1])] [dhcp_packet demo_hdr [(53, [1])]]"
  "good_request demo_hdr [(53, [3]), (50, bytes32 a)] [dhcp_packet demo_hdr [(53, [3]), (50, bytes32 a)]]"
  by (simp_all add: good_request_def demo_hdr_def opt_ok_def dhcp_packet_def enc_opts_def)

lemma demo_leased:
  "\<exists>d a. dhcp_reach demo_ip d \<and> dhcps_pcb d = Some 7 \<and> dh_state d = HANDLE_STARTED \<and> lease_map d (req_mac demo_hdr) = Some a"
proof -
  obtain d where d: "dhcp_reach demo_ip d" "dhcps_pcb d = Some 7" "plist d = []" "dh_state d = HANDLE_STARTED"
    using demo_started by blast
  have e: "de_msg demo_env" "de_pool demo_env" "de_pbuf demo_env" "de_node demo_env = Some 33" "33 \<notin> ln_addr ` set (plist d)"
    using d(3) by (simp_all add: demo_env_def)
  obtain a d' io where h: "handle_dhcp demo_env (\<lambda>_. 0) (Some (of_nat (length (dhcp_packet demo_hdr [(53, [1])])),
      [dhcp_packet demo_hdr [(53, [1])]])) d = Inr (io, d')" "lease_map d' = (lease_map d)(req_mac demo_hdr \<mapsto> a)"
    using discover_facts [OF d(1,2) demo_request(1) _ e] d(3) by fastforce
  have "dhcp_reach demo_ip d'" using dhcp_reach.request [OF d(1) _ h(1)] e(4,5) by simp
  then show ?thesis using h(2) dhcp_cfg_eqD [OF handle_dhcp_cfg [OF h(1)]] d(2,4) by auto
qed

theorem dhcp_leases_distinct_witness:
  "\<exists>d :: dhcps. plist d \<noteq> [] \<and> distinct (map (\<lambda>n. dp_ip (ln_pool n)) (plist d)) \<and> (\<forall>n \<in> set (plist d). dp_ip (ln_pool n) \<noteq> demo_ip)"
proof -
  obtain d a where d: "dhcp_reach demo_ip d" "lease_map d (req_mac demo_hdr) = Some a" using demo_leased by blast
  then have "plist d \<noteq> []" by (auto simp: lease_map_def)
  with dhcp_leases_distinct [OF d(1)] show ?thesis by (intro exI [of _ d]) simp
qed

theorem dhcp_tick_expires_witness:
  "\<exists>d d'. plist d \<noteq> [] \<and> dhcps_tmr d = Inr ([Sys_timeout 1000], Some d')"
proof -
  obtain d a where d: "dhcp_reach demo_ip d" "dh_state d = HANDLE_STARTED" "lease_map d (req_mac demo_hdr) = Some a"
    using demo_leased by blast
  then have "plist d \<noteq> []" by (auto simp: lease_map_def)
  with dhcp_tick_expires [OF d(1,2)] show ?thesis by blast
qed

theorem dhcp_discover_offers_witness:
  "\<exists>d a d' r. handle_dhcp demo_env (\<lambda>_. 0) (Some (of_nat (length (dhcp_packet demo_hdr [(53, [1])])), [dhcp_packet demo_hdr [(53, [1])]])) d =
      Inr ([Udp_sendto 7 r (broadcast_dhcps d) 68], d') \<and> lease_map d = Map.empty \<and> lease_map d' = [req_mac demo_hdr \<mapsto> a]"
proof -
  obtain d where d: "dhcp_reach demo_ip d" "dhcps_pcb d = Some 7" "plist d = []" using demo_started by blast
  have e: "de_msg demo_env" "de_pool demo_env" "de_pbuf demo_env" "de_node demo_env = Some 33" "33 \<notin> ln_addr ` set (plist d)"
    using d(3) by (simp_all add: demo_env_def)
  have l: "lease_map d = Map.empty" using d(3) by (simp add: lease_map_def)
  have r: "lease_map d (req_mac demo_hdr) \<noteq> None \<or> length (plist d) < 100" using d(3) by simp
  have t: "map_of [(53 :: u8, [1 :: u8])] 53 = Some [1]" by simp
  from dhcp_discover_offers [OF d(1,2) demo_request(1) t e r, of "\<lambda>_. 0"] l show ?thesis by metis
qed

theorem dhcp_request_answers_witness:
  "\<exists>d a d' r cb. lease_map d (req_mac demo_hdr) = Some a \<and>
     handle_dhcp demo_env (\<lambda>_. 0) (Some (of_nat (length (dhcp_packet demo_hdr [(53, [3]), (50, bytes32 a)])),
        [dhcp_packet demo_hdr [(53, [3]), (50, bytes32 a)]])) d = Inr (Udp_sendto 7 r (broadcast_dhcps d) 68 # cb, d') \<and>
     reply_reads r demo_hdr a ((53, [5]) # offer_tlvs d)"
proof -
  obtain d a where d: "dhcp_reach demo_ip d" "dhcps_pcb d = Some 7" "lease_map d (req_mac demo_hdr) = Some a"
    using demo_leased by blast
  have e: "de_msg demo_env" "de_pbuf demo_env" by (simp_all add: demo_env_def)
  have t: "map_of [(53, [3]), (50, bytes32 a)] (53 :: u8) = Some [3]" "map_of [(53, [3]), (50, bytes32 a)] (50 :: u8) = Some (bytes32 a)"
    by simp_all
  from dhcp_request_answers [OF d(1,2) demo_request(2) t e d(3), of "\<lambda>_. 0"]
  obtain d' r cb where "handle_dhcp demo_env (\<lambda>_. 0) (Some (of_nat (length (dhcp_packet demo_hdr [(53, [3]), (50, bytes32 a)])),
      [dhcp_packet demo_hdr [(53, [3]), (50, bytes32 a)]])) d = Inr (Udp_sendto 7 r (broadcast_dhcps d) 68 # cb, d')"
    "reply_reads r demo_hdr a ((53, [5]) # offer_tlvs d)" by (simp only: if_True simp_thms) blast
  then show ?thesis using d(3) by blast
qed

theorem dhcp_short_requests_safe_witness:
  "\<exists>io d'. handle_dhcp demo_env (\<lambda>_. 255) (Some (241, [replicate 240 0, [53], [1]])) (the (dhcps_new True)) = Inr (io, d')"
proof -
  have "length (concat (take 2 [replicate 240 0, [53 :: u8], [1]])) \<le> 241" by simp
  then have "\<exists>io d'. handle_dhcp demo_env (\<lambda>_. 255) (Some (of_nat 241, [replicate 240 0, [53], [1]])) (the (dhcps_new True)) = Inr (io, d')"
    by (intro dhcp_short_requests_safe) (simp_all add: demo_env_def)
  then show ?thesis by simp
qed

end
