(* ===== verification/Pbuf.thy ===== *)
theory Pbuf
  imports Prelude
begin

text \<open>
  \<open>lwip/core/pbuf.c\<close>: packet buffers of the IP stack. A chain is the list of its buffers in the
  order of \<open>next\<close>; a pointer into a chain is the suffix that starts there and NULL is \<open>[]\<close>. Lengths and
  offsets are 16-bit in the code; the loops below only subtract what a test has just bounded, so they
  run on natural numbers, and the conversions back are written out. Reference counts are in \<open>PbufRef\<close>.
\<close>

section \<open>Data\<close>

text \<open>
  \<open>pf_mem\<close> is the block the payload points into: what follows the structure in memory for
  \<open>PBUF_RAM\<close> and \<open>PBUF_POOL\<close>, the referenced memory otherwise. \<open>pf_off\<close> is the offset of the payload in it.
\<close>

record pbuf =
  pf_mem :: "u8 list"
  pf_off :: nat
  pf_tot_len :: u16
  pf_len :: u16
  pf_type_internal :: u8
  pf_flags :: u8
  pf_ref :: u8
  pf_if_idx :: u8

datatype pbuf_error = PBUF_ASSERT | PBUF_NULL | PBUF_OUT_OF_BLOCK

abbreviation (input) "TYPE_CONTIGUOUS \<equiv> 0x80 :: u8"
abbreviation (input) "ERR_OK \<equiv> 0 :: int"
abbreviation (input) "ERR_MEM \<equiv> - 1 :: int"
abbreviation (input) "ERR_VAL \<equiv> - 6 :: int"
abbreviation (input) "ERR_ARG \<equiv> - 16 :: int"

definition plen :: "pbuf \<Rightarrow> nat" where
  "plen p = unat (pf_len p)"

definition ptot :: "pbuf list \<Rightarrow> nat" where
  "ptot c = unat (pf_tot_len (hd c))"

text \<open>The payload of one buffer and of a chain.\<close>

definition seg_bytes :: "pbuf \<Rightarrow> u8 list" where
  "seg_bytes p = ld_bytes (pf_mem p) (pf_off p) (plen p)"

definition chain_bytes :: "pbuf list \<Rightarrow> u8 list" where
  "chain_bytes c = concat (map seg_bytes c)"

text \<open>\<open>memcpy\<close> into the payload.\<close>

definition put_bytes :: "pbuf \<Rightarrow> nat \<Rightarrow> u8 list \<Rightarrow> pbuf" where
  "put_bytes p i xs = p\<lparr>pf_mem := st_bytes (pf_mem p) (pf_off p + i) xs\<rparr>"

section \<open>Reading a chain\<close>

definition pbuf_clen :: "pbuf list \<Rightarrow> u16" where
  "pbuf_clen c = foldl (\<lambda>n p. n + 1) 0 c"

fun copy_partial_loop :: "pbuf list \<Rightarrow> nat \<Rightarrow> nat \<Rightarrow> u8 list" where
  "copy_partial_loop [] len offset = []"
| "copy_partial_loop (p # ps) len offset =
     (if len = 0 then []
      else if offset \<noteq> 0 \<and> plen p \<le> offset then copy_partial_loop ps len (offset - plen p)
      else
        let n = (if len < plen p - offset then len else plen p - offset)
        in ld_bytes (pf_mem p) (pf_off p + offset) n @ copy_partial_loop ps (len - n) 0)"

text \<open>The bytes written to \<open>dataptr\<close>; the value returned is their number.\<close>

definition pbuf_copy_partial :: "pbuf list \<Rightarrow> u16 \<Rightarrow> u16 \<Rightarrow> u8 list" where
  "pbuf_copy_partial buf len offset = (if buf = [] then [] else copy_partial_loop buf (unat len) (unat offset))"

fun pbuf_skip_const :: "pbuf list \<Rightarrow> nat \<Rightarrow> pbuf list \<times> nat" where
  "pbuf_skip_const [] offset_left = ([], offset_left)"
| "pbuf_skip_const (q # qs) offset_left =
     (if plen q \<le> offset_left then pbuf_skip_const qs (offset_left - plen q) else (q # qs, offset_left))"

text \<open>A negative result is \<open>None\<close>.\<close>

definition pbuf_try_get_at :: "pbuf list \<Rightarrow> u16 \<Rightarrow> u8 option" where
  "pbuf_try_get_at p offset =
     (case pbuf_skip_const p (unat offset) of
        ([], q_idx) \<Rightarrow> None
      | (q # qs, q_idx) \<Rightarrow> if q_idx < plen q then Some (pf_mem q ! (pf_off q + q_idx)) else None)"

definition pbuf_get_at :: "pbuf list \<Rightarrow> u16 \<Rightarrow> u8" where
  "pbuf_get_at p offset = (case pbuf_try_get_at p offset of Some b \<Rightarrow> b | None \<Rightarrow> 0)"

text \<open>
  \<open>pbuf_get_contiguous\<close> for a non-null buffer of \<open>bufsize\<close> bytes: \<open>None\<close> is NULL; \<open>Inl\<close> the bytes
  at the pointer into the payload, \<open>Inr\<close> what was copied to the caller's buffer.
\<close>

definition pbuf_get_contiguous :: "pbuf list \<Rightarrow> nat \<Rightarrow> u16 \<Rightarrow> u16 \<Rightarrow> (u8 list + u8 list) option" where
  "pbuf_get_contiguous p bufsize len offset =
     (if p = [] \<or> bufsize < unat len then None
      else case pbuf_skip_const p (unat offset) of
        ([], out) \<Rightarrow> None
      | (q # qs, out) \<Rightarrow>
          if out + unat len \<le> plen q then Some (Inl (ld_bytes (pf_mem q) (pf_off q + out) (unat len)))
          else
            let bs = pbuf_copy_partial (q # qs) len (of_nat out)
            in if length bs \<noteq> unat len then None else Some (Inr bs))"

text \<open>The comparing loop of \<open>pbuf_memcmp\<close>: \<open>i\<close> counts up to the length of \<open>s2\<close>.\<close>

fun memcmp_loop :: "pbuf list \<Rightarrow> u16 \<Rightarrow> u16 \<Rightarrow> u8 list \<Rightarrow> u16" where
  "memcmp_loop q start i [] = 0"
| "memcmp_loop q start i (b # s2) =
     (if pbuf_get_at q (start + i) \<noteq> b then of_nat (min (unat i + 1) 0xFFFF)
      else memcmp_loop q start (i + 1) s2)"

definition pbuf_memcmp :: "pbuf list \<Rightarrow> u16 \<Rightarrow> u8 list \<Rightarrow> u16" where
  "pbuf_memcmp p offset s2 =
     (if ptot p < unat offset + length s2 then 0xFFFF
      else case pbuf_skip_const p (unat offset) of (q, start) \<Rightarrow> memcmp_loop q (of_nat start) 0 s2)"

text \<open>
  The loop \<open>for (i = start; i <= max_cmp_start; i++)\<close>. An empty \<open>mem\<close> matches at once, so \<open>i\<close> does
  not reach 0xFFFF without returning and never wraps.
\<close>

function memfind_loop :: "pbuf list \<Rightarrow> u8 list \<Rightarrow> nat \<Rightarrow> nat \<Rightarrow> u16" where
  "memfind_loop p mem i max_cmp_start =
     (if max_cmp_start < i then 0xFFFF
      else if pbuf_memcmp p (of_nat i) mem = 0 then of_nat i
      else memfind_loop p mem (i + 1) max_cmp_start)"
  by pat_completeness auto
termination
  by (relation "measure (\<lambda>(p, mem, i, m). Suc m - i)") auto

declare memfind_loop.simps [simp del]

definition pbuf_memfind :: "pbuf list \<Rightarrow> u8 list \<Rightarrow> u16 \<Rightarrow> u16" where
  "pbuf_memfind p mem start_offset =
     (let max_cmp_start = pf_tot_len (hd p) - of_nat (length mem)
      in if length mem + unat start_offset \<le> ptot p
         then memfind_loop p mem (unat start_offset) (unat max_cmp_start)
         else 0xFFFF)"

text \<open>\<open>substr\<close> is the string without its terminating 0.\<close>

definition pbuf_strstr :: "pbuf list \<Rightarrow> u8 list \<Rightarrow> u16" where
  "pbuf_strstr p substr =
     (if substr = [] \<or> ptot p = 0xFFFF then 0xFFFF
      else if 0xFFFF \<le> length substr then 0xFFFF
      else pbuf_memfind p substr 0)"

section \<open>Writing into a chain\<close>

fun take_loop :: "pbuf list \<Rightarrow> u8 list \<Rightarrow> pbuf_error + pbuf list" where
  "take_loop c [] = Inr c"
| "take_loop [] (x # xs) = Inl PBUF_ASSERT"
| "take_loop (p # ps) (x # xs) =
     (let n = min (length (x # xs)) (plen p)
      in bindR (take_loop ps (drop n (x # xs))) (\<lambda>ps. Inr (put_bytes p 0 (take n (x # xs)) # ps)))"

definition pbuf_take :: "pbuf list \<Rightarrow> u8 list \<Rightarrow> pbuf_error + int \<times> pbuf list" where
  "pbuf_take buf dataptr =
     (if buf = [] then Inr (ERR_ARG, buf)
      else if ptot buf < length dataptr then Inr (ERR_MEM, buf)
      else bindR (take_loop buf dataptr) (\<lambda>c. Inr (ERR_OK, c)))"

definition pbuf_take_at :: "pbuf list \<Rightarrow> u8 list \<Rightarrow> u16 \<Rightarrow> pbuf_error + int \<times> pbuf list" where
  "pbuf_take_at buf dataptr offset =
     (case pbuf_skip_const buf (unat offset) of
        ([], target_offset) \<Rightarrow> Inr (ERR_MEM, buf)
      | (q # qs, target_offset) \<Rightarrow>
          if target_offset + length dataptr \<le> ptot (q # qs)
          then
            let before = take (length buf - length (q # qs)) buf;
                first_copy_len = min (plen q - target_offset) (length dataptr);
                q = put_bytes q target_offset (take first_copy_len dataptr)
            in if first_copy_len < length dataptr
               then bindR (pbuf_take qs (drop first_copy_len dataptr)) (\<lambda>(err, qs). Inr (err, before @ q # qs))
               else Inr (ERR_OK, before @ q # qs)
          else Inr (ERR_MEM, buf))"

definition pbuf_put_at :: "pbuf list \<Rightarrow> u16 \<Rightarrow> u8 \<Rightarrow> pbuf list" where
  "pbuf_put_at p offset b =
     (case pbuf_skip_const p (unat offset) of
        ([], q_idx) \<Rightarrow> p
      | (q # qs, q_idx) \<Rightarrow>
          if q_idx < plen q then take (length p - length (q # qs)) p @ put_bytes q q_idx [b] # qs else p)"

text \<open>
  \<open>pbuf_copy\<close>: the loop body with both positions; the second argument of the result is what the chain
  from \<open>p_to\<close> on has become. Source and target are different blocks.
\<close>

definition is_queue :: "pbuf list \<Rightarrow> bool" where
  "is_queue c \<longleftrightarrow> c \<noteq> [] \<and> pf_len (hd c) = pf_tot_len (hd c) \<and> tl c \<noteq> []"

function copy_loop :: "pbuf list \<Rightarrow> nat \<Rightarrow> pbuf list \<Rightarrow> nat \<Rightarrow> pbuf_error + int \<times> pbuf list" where
  "copy_loop [] ot fs ofs = Inl PBUF_NULL"
| "copy_loop (t # ts) ot [] ofs = Inl PBUF_NULL"
| "copy_loop (t # ts) ot (f # fs) ofs =
     (let n = (if plen f - ofs \<le> plen t - ot then plen f - ofs else plen t - ot);
          t' = put_bytes t ot (ld_bytes (pf_mem f) (pf_off f + ofs) n);
          (from, ofs') = (if plen f \<le> ofs + n then (fs, 0) else (f # fs, ofs + n))
      in if plen t < ot + n \<or> plen f < ofs + n then Inl PBUF_ASSERT
         else if ot + n = plen t
         then if ts = [] \<and> from \<noteq> [] then Inr (ERR_ARG, t' # ts)
              else if is_queue from then Inr (ERR_VAL, t' # ts)
              else if is_queue ts then Inr (ERR_VAL, t' # ts)
              else if from = [] then Inr (ERR_OK, t' # ts)
              else bindR (copy_loop ts 0 from ofs') (\<lambda>(err, ts). Inr (err, t' # ts))
         else if is_queue from then Inr (ERR_VAL, t' # ts)
              else if is_queue (t' # ts) then Inr (ERR_VAL, t' # ts)
              else if from = [] then Inr (ERR_OK, t' # ts)
              else copy_loop (t' # ts) (ot + n) from ofs')"
  by pat_completeness auto
termination
  by (relation "measure (\<lambda>(ts, ot, fs, ofs). length ts + length fs)") (auto split: if_splits)

declare copy_loop.simps(3) [simp del]

definition pbuf_copy :: "pbuf list \<Rightarrow> pbuf list \<Rightarrow> pbuf_error + int \<times> pbuf list" where
  "pbuf_copy p_to p_from =
     (if p_to \<noteq> [] \<and> p_from \<noteq> [] \<and> ptot p_from \<le> ptot p_to then copy_loop p_to 0 p_from 0
      else Inr (ERR_ARG, p_to))"

section \<open>Headers and length\<close>

text \<open>A header moves the payload pointer of the first buffer. The result is 0 on success.\<close>

definition pbuf_add_header_impl :: "pbuf \<Rightarrow> nat \<Rightarrow> bool \<Rightarrow> pbuf_error + u8 \<times> pbuf" where
  "pbuf_add_header_impl p inc force =
     (if 0xFFFF < inc then Inr (1, p)
      else if inc = 0 then Inr (0, p)
      else
        let increment_magnitude = of_nat inc :: u16;
            p' = p\<lparr>pf_off := pf_off p - inc, pf_len := pf_len p + increment_magnitude,
                   pf_tot_len := pf_tot_len p + increment_magnitude\<rparr>
        in if increment_magnitude + pf_tot_len p < increment_magnitude then Inr (1, p)
           else if pf_type_internal p AND TYPE_CONTIGUOUS \<noteq> 0
           then if pf_off p < inc then Inr (1, p) else Inr (0, p')
           else if force then if pf_off p < inc then Inl PBUF_OUT_OF_BLOCK else Inr (0, p')
           else Inr (1, p))"

definition pbuf_add_header :: "pbuf \<Rightarrow> nat \<Rightarrow> pbuf_error + u8 \<times> pbuf" where
  "pbuf_add_header p inc = pbuf_add_header_impl p inc False"

definition pbuf_add_header_force :: "pbuf \<Rightarrow> nat \<Rightarrow> pbuf_error + u8 \<times> pbuf" where
  "pbuf_add_header_force p inc = pbuf_add_header_impl p inc True"

definition pbuf_remove_header :: "pbuf \<Rightarrow> nat \<Rightarrow> u8 \<times> pbuf" where
  "pbuf_remove_header p dec =
     (if 0xFFFF < dec then (1, p)
      else if dec = 0 then (0, p)
      else if \<not> of_nat dec \<le> pf_len p then (1, p)
      else (0, p\<lparr>pf_off := pf_off p + dec, pf_len := pf_len p - of_nat dec, pf_tot_len := pf_tot_len p - of_nat dec\<rparr>))"

definition pbuf_header_impl :: "pbuf \<Rightarrow> int \<Rightarrow> bool \<Rightarrow> pbuf_error + u8 \<times> pbuf" where
  "pbuf_header_impl p inc force =
     (if inc < 0 then Inr (pbuf_remove_header p (nat (- inc))) else pbuf_add_header_impl p (nat inc) force)"

definition pbuf_header :: "pbuf \<Rightarrow> int \<Rightarrow> pbuf_error + u8 \<times> pbuf" where
  "pbuf_header p inc = pbuf_header_impl p inc False"

definition pbuf_header_force :: "pbuf \<Rightarrow> int \<Rightarrow> pbuf_error + u8 \<times> pbuf" where
  "pbuf_header_force p inc = pbuf_header_impl p inc True"

text \<open>
  \<open>pbuf_realloc\<close>: the chain that is kept and the rest, which goes to \<open>pbuf_free\<close>. With the heap of the
  C library \<open>mem_trim\<close> returns its argument.
\<close>

fun realloc_loop :: "pbuf list \<Rightarrow> nat \<Rightarrow> u16 \<Rightarrow> pbuf_error + pbuf list \<times> pbuf list" where
  "realloc_loop [] rem_len shrink = Inl PBUF_ASSERT"
| "realloc_loop (q # qs) rem_len shrink =
     (if plen q < rem_len
      then bindR (realloc_loop qs (rem_len - plen q) shrink) (\<lambda>(kept, rest).
             Inr (q\<lparr>pf_tot_len := pf_tot_len q - shrink\<rparr> # kept, rest))
      else Inr ([q\<lparr>pf_len := of_nat rem_len, pf_tot_len := of_nat rem_len\<rparr>], qs))"

definition pbuf_realloc :: "pbuf list \<Rightarrow> u16 \<Rightarrow> pbuf_error + pbuf list \<times> pbuf list" where
  "pbuf_realloc p new_len =
     (if p = [] then Inl PBUF_ASSERT
      else if pf_tot_len (hd p) \<le> new_len then Inr (p, [])
      else realloc_loop p (unat new_len) (pf_tot_len (hd p) - new_len))"

text \<open>\<open>pbuf_cat\<close>: the tail follows the head, whose totals grow.\<close>

fun pbuf_cat :: "pbuf list \<Rightarrow> pbuf list \<Rightarrow> pbuf_error + pbuf list" where
  "pbuf_cat [] t = Inr []"
| "pbuf_cat [p] t =
     (if t = [] then Inr [p]
      else if pf_tot_len p \<noteq> pf_len p then Inl PBUF_ASSERT
      else Inr (p\<lparr>pf_tot_len := pf_tot_len p + pf_tot_len (hd t)\<rparr> # t))"
| "pbuf_cat (p # p' # ps) t =
     (if t = [] then Inr (p # p' # ps)
      else bindR (pbuf_cat (p' # ps) t) (\<lambda>c. Inr (p\<lparr>pf_tot_len := pf_tot_len p + pf_tot_len (hd t)\<rparr> # c)))"

section \<open>Allocation\<close>

datatype pbuf_type = PBUF_RAM | PBUF_ROM | PBUF_REF | PBUF_POOL

text \<open>The low byte of the enumeration's values, which is what the structure keeps.\<close>

fun type_code :: "pbuf_type \<Rightarrow> u8" where
  "type_code PBUF_RAM = 0x80"
| "type_code PBUF_ROM = 0x01"
| "type_code PBUF_REF = 0x41"
| "type_code PBUF_POOL = 0x82"

definition pbuf_init_alloced_pbuf :: "u8 list \<Rightarrow> nat \<Rightarrow> u16 \<Rightarrow> u16 \<Rightarrow> pbuf_type \<Rightarrow> u8 \<Rightarrow> pbuf" where
  "pbuf_init_alloced_pbuf mem off tot_len len type flags =
     \<lparr>pf_mem = mem, pf_off = off, pf_tot_len = tot_len, pf_len = len, pf_type_internal = type_code type,
      pf_flags = flags, pf_ref = 1, pf_if_idx = 0\<rparr>"

definition mem_align_size :: "nat \<Rightarrow> nat" where
  "mem_align_size n = (n + 3) div 4 * 4"

abbreviation (input) "POOL_BUFSIZE_ALIGNED \<equiv> 1516 :: nat"

text \<open>
  The pool is the list of the data areas of its free elements. The result of the loop is \<open>None\<close> when the
  pool runs dry; what was taken has then been given back.
\<close>

fun alloc_pool :: "u8 list list \<Rightarrow> nat \<Rightarrow> nat \<Rightarrow> (pbuf list \<times> u8 list list) option" where
  "alloc_pool [] rem_len offset = None"
| "alloc_pool (m # ms) rem_len offset =
     (let qlen = min rem_len (POOL_BUFSIZE_ALIGNED - mem_align_size offset);
          q = pbuf_init_alloced_pbuf m (mem_align_size offset) (of_nat rem_len) (of_nat qlen) PBUF_POOL 0
      in if rem_len - qlen = 0 then Some ([q], ms)
         else (case alloc_pool ms (rem_len - qlen) 0 of
                 None \<Rightarrow> None
               | Some (c, ms) \<Rightarrow> Some (q # c, ms)))"

text \<open>
  What \<open>pbuf_alloc\<close> draws on: the pool, the number of free bare structures, whether and with
  which bytes the heap of the C library serves a request, and the flag that the pool ran dry.
\<close>

record pbuf_src =
  src_pool :: "u8 list list"
  src_structs :: nat
  src_heap :: "nat \<Rightarrow> u8 list option"
  pbuf_free_ooseq_pending :: bool

definition pbuf_alloc_reference :: "u8 list \<Rightarrow> u16 \<Rightarrow> pbuf_type \<Rightarrow> pbuf_src \<Rightarrow> pbuf_error + pbuf list \<times> pbuf_src" where
  "pbuf_alloc_reference payload len type s =
     (if type \<noteq> PBUF_REF \<and> type \<noteq> PBUF_ROM then Inl PBUF_ASSERT
      else if src_structs s = 0 then Inr ([], s)
      else Inr ([pbuf_init_alloced_pbuf payload 0 len len type 0], s\<lparr>src_structs := src_structs s - 1\<rparr>))"

definition pbuf_alloc :: "u16 \<Rightarrow> u16 \<Rightarrow> pbuf_type \<Rightarrow> pbuf_src \<Rightarrow> pbuf_error + pbuf list \<times> pbuf_src" where
  "pbuf_alloc layer len type s =
     (case type of
        PBUF_POOL \<Rightarrow>
          (case alloc_pool (src_pool s) (unat len) (unat layer) of
             None \<Rightarrow> Inr ([], s\<lparr>pbuf_free_ooseq_pending := True\<rparr>)
           | Some (c, pool) \<Rightarrow> Inr (c, s\<lparr>src_pool := pool\<rparr>))
      | PBUF_RAM \<Rightarrow>
          (let payload_len = of_nat (mem_align_size (unat layer) + mem_align_size (unat len)) :: u16
           in if unat payload_len < mem_align_size (unat len) then Inr ([], s)
              else case src_heap s (unat payload_len) of
                None \<Rightarrow> Inr ([], s)
              | Some m \<Rightarrow> Inr ([pbuf_init_alloced_pbuf m (mem_align_size (unat layer)) len len PBUF_RAM 0], s))
      | _ \<Rightarrow> pbuf_alloc_reference [] len type s)"

definition pbuf_alloced_custom :: "u16 \<Rightarrow> u16 \<Rightarrow> pbuf_type \<Rightarrow> u8 list \<Rightarrow> u16 \<Rightarrow> pbuf option" where
  "pbuf_alloced_custom layer len type payload_mem payload_mem_len =
     (if unat payload_mem_len < mem_align_size (unat layer) + unat len then None
      else Some (pbuf_init_alloced_pbuf payload_mem (mem_align_size (unat layer)) len len type 2))"

text \<open>\<open>pbuf_clone\<close>, and \<open>pbuf_coalesce\<close> with the chain to be released.\<close>

definition pbuf_clone :: "u16 \<Rightarrow> pbuf_type \<Rightarrow> pbuf list \<Rightarrow> pbuf_src \<Rightarrow> pbuf_error + pbuf list \<times> pbuf_src" where
  "pbuf_clone layer type p s =
     bindR (pbuf_alloc layer (pf_tot_len (hd p)) type s) (\<lambda>(q, s).
       if q = [] then Inr ([], s)
       else bindR (pbuf_copy q p) (\<lambda>(err, q). if err \<noteq> ERR_OK then Inl PBUF_ASSERT else Inr (q, s)))"

definition pbuf_coalesce :: "pbuf list \<Rightarrow> u16 \<Rightarrow> pbuf_src \<Rightarrow> pbuf_error + pbuf list \<times> pbuf list \<times> pbuf_src" where
  "pbuf_coalesce p layer s =
     (if tl p = [] then Inr (p, [], s)
      else bindR (pbuf_clone layer PBUF_RAM p s) (\<lambda>(q, s). if q = [] then Inr (p, [], s) else Inr (q, p, s)))"

end
