(* ===== verification/PbufProps.thy ===== *)
theory PbufProps
  imports Pbuf
begin

section \<open>A chain is its bytes\<close>

text \<open>The invariant of a packet: payloads lie in their blocks, totals are sums.\<close>

fun wf_chain :: "pbuf list \<Rightarrow> bool" where
  "wf_chain [] = True"
| "wf_chain (p # ps) \<longleftrightarrow> pf_off p + plen p \<le> length (pf_mem p) \<and>
     unat (pf_tot_len p) = plen p + (if ps = [] then 0 else ptot ps) \<and> wf_chain ps"

named_theorems pbuf_simps \<open>bytes of chains\<close>

lemma chain_bytes_simps [pbuf_simps, simp]:
  "chain_bytes [] = []" "chain_bytes (p # ps) = seg_bytes p @ chain_bytes ps" "chain_bytes (c @ d) = chain_bytes c @ chain_bytes d"
  by (simp_all add: chain_bytes_def)

lemma ptot_Cons [pbuf_simps, simp]: "ptot (p # ps) = unat (pf_tot_len p)"
  by (simp add: ptot_def)

lemma length_seg_bytes [pbuf_simps]: "pf_off p + plen p \<le> length (pf_mem p) \<Longrightarrow> length (seg_bytes p) = plen p"
  by (simp add: seg_bytes_def ld_bytes_def)

lemma length_chain_bytes [pbuf_simps]: "wf_chain c \<Longrightarrow> length (chain_bytes c) = (if c = [] then 0 else ptot c)"
  by (induction c) (auto simp: length_seg_bytes)

lemma plen_less [simp]: "plen p < 65536"
  by (simp add: plen_def)

lemma ptot_less [simp]: "ptot c < 65536"
  by (simp add: ptot_def)

lemma ld_seg: "off + n \<le> plen p \<Longrightarrow> ld_bytes (pf_mem p) (pf_off p + off) n = take n (drop off (seg_bytes p))"
  by (simp add: ld_bytes_def seg_bytes_def drop_take ac_simps)

lemma copy_partial_loop_eq:
  "wf_chain c \<Longrightarrow> copy_partial_loop c len off = take len (drop off (chain_bytes c))"
proof (induction c len off rule: copy_partial_loop.induct)
  case (1 len off)
  then show ?case by simp
next
  case (2 p ps len off)
  have l: "length (seg_bytes p) = plen p" "wf_chain ps" using 2 by (simp_all add: length_seg_bytes)
  consider "len = 0" | "len \<noteq> 0" "off \<noteq> 0" "plen p \<le> off" | "len \<noteq> 0" "off = 0 \<or> off < plen p" by fastforce
  then show ?case
  proof cases
    case 3
    let ?n = "if len < plen p - off then len else plen p - off"
    have "off + ?n \<le> plen p" using 3(2) by auto
    then have "ld_bytes (pf_mem p) (pf_off p + off) ?n = take len (drop off (seg_bytes p))"
      using l(1) by (auto simp: ld_seg)
    then show ?thesis using 2 3 l by (auto simp: Let_def)
  qed (use 2 l in auto)
qed

lemma skip_split:
  "pbuf_skip_const c n = (q, t) \<Longrightarrow> wf_chain c \<Longrightarrow>
   (\<exists>pre. c = pre @ q \<and> length (chain_bytes pre) + t = n) \<and> wf_chain q \<and> (q \<noteq> [] \<longrightarrow> t < plen (hd q))"
proof (induction c n rule: pbuf_skip_const.induct)
  case (1 n)
  then show ?case by simp
next
  case (2 p ps n)
  show ?case
  proof (cases "plen p \<le> n")
    case True
    then obtain pre where "ps = pre @ q" "length (chain_bytes pre) + t = n - plen p" "wf_chain q" "q \<noteq> [] \<longrightarrow> t < plen (hd q)"
      using 2 by auto
    then show ?thesis using True 2(3) by (intro conjI exI [of _ "p # pre"]) (auto simp: length_seg_bytes)
  next
    case False
    then show ?thesis using 2 by (intro conjI exI [of _ "[]"]) auto
  qed
qed

lemma skip_bytes:
  assumes "pbuf_skip_const c n = (q, t)" "wf_chain c"
  shows "drop n (chain_bytes c) = drop t (chain_bytes q)" "q = [] \<longleftrightarrow> length (chain_bytes c) \<le> n"
proof -
  obtain pre where pre: "c = pre @ q" "length (chain_bytes pre) + t = n" "wf_chain q" "q \<noteq> [] \<longrightarrow> t < plen (hd q)"
    using skip_split [OF assms] by blast
  show "drop n (chain_bytes c) = drop t (chain_bytes q)" using pre(1,2) by auto
  show "q = [] \<longleftrightarrow> length (chain_bytes c) \<le> n" using pre by (cases q) (auto simp: length_seg_bytes)
qed

lemma pbuf_copy_partial_spec:
  assumes "wf_chain c"
  shows "pbuf_copy_partial c len off = take (unat len) (drop (unat off) (chain_bytes c))"
  using copy_partial_loop_eq [OF assms] by (simp add: pbuf_copy_partial_def)

lemma pbuf_try_get_at_eq:
  assumes "wf_chain c"
  shows "pbuf_try_get_at c n = (if unat n < length (chain_bytes c) then Some (chain_bytes c ! unat n) else None)"
proof -
  obtain q t where q: "pbuf_skip_const c (unat n) = (q, t)" by fastforce
  note s = skip_split [OF q assms] skip_bytes [OF q assms]
  show ?thesis
  proof (cases q)
    case Nil
    then show ?thesis using s q by (simp add: pbuf_try_get_at_def)
  next
    case (Cons p ps)
    then have t: "t < plen p" "pf_off p + plen p \<le> length (pf_mem p)" and n: "\<not> length (chain_bytes c) \<le> unat n" using s by auto
    then have "chain_bytes c ! unat n = drop (unat n) (chain_bytes c) ! 0" by simp
    also have "\<dots> = seg_bytes p ! t" using s(2) t Cons by (simp add: nth_append length_seg_bytes)
    also have "\<dots> = pf_mem p ! (pf_off p + t)" using t by (simp add: seg_bytes_def ld_bytes_def)
    finally show ?thesis using q Cons t(1) n by (simp add: pbuf_try_get_at_def)
  qed
qed

lemma pbuf_get_at_eq: "wf_chain c \<Longrightarrow> unat n < length (chain_bytes c) \<Longrightarrow> pbuf_get_at c n = chain_bytes c ! unat n"
  by (simp add: pbuf_get_at_def pbuf_try_get_at_eq)

lemma memcmp_loop_zero:
  "wf_chain q \<Longrightarrow> unat start + unat i + length s2 \<le> length (chain_bytes q) \<Longrightarrow> length (chain_bytes q) < 65536 \<Longrightarrow>
   memcmp_loop q start i s2 = 0 \<longleftrightarrow> take (length s2) (drop (unat start + unat i) (chain_bytes q)) = s2"
proof (induction s2 arbitrary: i)
  case Nil
  then show ?case by simp
next
  case (Cons b s2)
  let ?k = "unat start + unat i"
  have k: "unat (start + i) = ?k" "?k < length (chain_bytes q)" using Cons.prems by (simp_all add: unat_word_ariths)
  have i: "unat (i + 1) = Suc (unat i)" using Cons.prems by simp
  have d: "drop ?k (chain_bytes q) = chain_bytes q ! ?k # drop (Suc ?k) (chain_bytes q)" using k(2) by (simp add: Cons_nth_drop_Suc)
  have z: "(of_nat (min (unat i + 1) 0xFFFF) :: u16) \<noteq> 0"
  proof
    assume "(of_nat (min (unat i + 1) 0xFFFF) :: u16) = 0"
    then have "min (unat i + 1) 0xFFFF mod 65536 = 0" by (simp only: word_of_nat_eq_0_iff) simp
    then show False using k Cons.prems by (simp add: min_def split: if_splits)
  qed
  have "memcmp_loop q start (i + 1) s2 = 0 \<longleftrightarrow> take (length s2) (drop (Suc ?k) (chain_bytes q)) = s2"
    using Cons.IH [of "i + 1"] Cons.prems i by simp
  then show ?case using z k d pbuf_get_at_eq [OF Cons.prems(1), of "start + i"] by auto
qed

lemma pbuf_memcmp_zero:
  assumes w: "wf_chain c" "c \<noteq> []"
  shows "pbuf_memcmp c off s2 = 0 \<longleftrightarrow>
    unat off + length s2 \<le> length (chain_bytes c) \<and> take (length s2) (drop (unat off) (chain_bytes c)) = s2"
proof -
  obtain q t where q: "pbuf_skip_const c (unat off) = (q, t)" by fastforce
  have l: "length (chain_bytes c) = ptot c" using length_chain_bytes [OF w(1)] w(2) by simp
  obtain pre where pre: "c = pre @ q" "length (chain_bytes pre) + t = unat off" "wf_chain q"
    using skip_split [OF q w(1)] by blast
  have t: "unat (of_nat t :: u16) = t"
    using pre(2) unat_u16_less [of off] by (simp add: unat_of_nat del: unat_u16_less)
  have lq: "length (chain_bytes c) = length (chain_bytes pre) + length (chain_bytes q)" using pre(1) by simp
  have "memcmp_loop q (of_nat t) 0 s2 = 0 \<longleftrightarrow> take (length s2) (drop t (chain_bytes q)) = s2"
    if "unat off + length s2 \<le> ptot c"
  proof -
    have "t + length s2 \<le> length (chain_bytes q)" using that lq l pre(2) by linarith
    moreover have "length (chain_bytes q) < 65536" using lq l ptot_less [of c] by linarith
    ultimately show ?thesis using memcmp_loop_zero [OF pre(3), of "of_nat t" 0 s2] t by simp
  qed
  then show ?thesis
    using q skip_bytes(1) [OF q w(1)] l by (auto simp: pbuf_memcmp_def)
qed

lemma memfind_loop_eq:
  "wf_chain c \<Longrightarrow> c \<noteq> [] \<Longrightarrow> m + length s \<le> ptot c \<Longrightarrow>
   memfind_loop c s i m = (case first_index (\<lambda>i. take (length s) (drop i (chain_bytes c)) = s) i (Suc m - i) of Some j \<Rightarrow> of_nat j | None \<Rightarrow> 0xFFFF)"
proof (induction c s i m rule: memfind_loop.induct)
  case (1 c s i m)
  show ?case
  proof (cases "m < i")
    case True
    then show ?thesis by (simp add: memfind_loop.simps)
  next
    case False
    have "i < 65536" using False 1(4) ptot_less [of c] by linarith
    then have u: "unat (of_nat i :: u16) = i" by (simp add: unat_of_nat)
    have z: "pbuf_memcmp c (of_nat i) s = 0 \<longleftrightarrow> take (length s) (drop i (chain_bytes c)) = s"
      using pbuf_memcmp_zero [OF 1(2,3), of "of_nat i" s] u False 1(4) length_chain_bytes [OF 1(2)] 1(3) by simp
    show ?thesis
      using 1 False z by (subst memfind_loop.simps) (simp add: Suc_diff_le)
  qed
qed

text \<open>
  Searching a packet finds the first occurrence. For every well-formed packet of less than 65535
  bytes \<open>pbuf_memfind\<close> returns the least position at or after the start at which the bytes of the chain
  are the wanted ones, however the packet is split into buffers, and 0xFFFF exactly when there is none.
\<close>

lemma pbuf_memfind_first:
  assumes w: "wf_chain c" "c \<noteq> []" and l: "ptot c < 0xFFFF" "length s < 65536"
  shows "pbuf_memfind c s start =
    (case first_index (\<lambda>i. i + length s \<le> length (chain_bytes c) \<and> take (length s) (drop i (chain_bytes c)) = s)
            (unat start) 65536 of
       Some j \<Rightarrow> of_nat j | None \<Rightarrow> 0xFFFF)"
proof -
  let ?b = "chain_bytes c"
  let ?P = "\<lambda>i. i + length s \<le> length ?b \<and> take (length s) (drop i ?b) = s"
  let ?Q = "\<lambda>i. take (length s) (drop i ?b) = s"
  have t: "length ?b = ptot c" using length_chain_bytes [OF w(1)] w(2) by simp
  show ?thesis
  proof (cases "length s + unat start \<le> ptot c")
    case False
    then have "first_index ?P (unat start) 65536 = None" by (auto simp: first_index_None t)
    then show ?thesis using False by (simp add: pbuf_memfind_def del: first_index.simps)
  next
    case True
    have ls: "unat (of_nat (length s) :: u16) = length s" using l(2) by (simp add: unat_of_nat)
    have "(of_nat (length s) :: u16) \<le> pf_tot_len (hd c)" using True ls by (simp add: word_le_nat_alt ptot_def)
    then have m: "unat (pf_tot_len (hd c) - of_nat (length s)) = ptot c - length s"
      using ls by (simp add: unat_sub ptot_def)
    have "first_index ?Q (unat start) (Suc (ptot c - length s) - unat start) = first_index ?P (unat start) 65536"
    proof (cases "first_index ?P (unat start) 65536")
      case None
      then have "first_index ?Q (unat start) (Suc (ptot c - length s) - unat start) = None"
        using True t ptot_less [of c] by (auto simp: first_index_None simp del: ptot_less)
      then show ?thesis using None by simp
    next
      case (Some j)
      then have "first_index ?Q (unat start) (Suc (ptot c - length s) - unat start) = Some j"
        using True t by (auto simp: first_index_Some)
      then show ?thesis using Some by simp
    qed
    then show ?thesis
      using memfind_loop_eq [OF w, of "ptot c - length s" s "unat start"] True m
      by (simp add: pbuf_memfind_def del: first_index.simps)
  qed
qed

section \<open>Writing\<close>

definition same_shape :: "pbuf \<Rightarrow> pbuf \<Rightarrow> bool" where
  "same_shape p p' \<longleftrightarrow> pf_len p' = pf_len p \<and> pf_tot_len p' = pf_tot_len p \<and> pf_off p' = pf_off p \<and>
     length (pf_mem p') = length (pf_mem p) \<and> pf_ref p' = pf_ref p \<and> pf_type_internal p' = pf_type_internal p \<and> pf_flags p' = pf_flags p"

abbreviation keeps_shape :: "pbuf list \<Rightarrow> pbuf list \<Rightarrow> bool" where
  "keeps_shape \<equiv> list_all2 same_shape"

lemma keeps_shape_refl [simp]: "keeps_shape c c"
  by (simp add: list_all2_refl same_shape_def)

lemma ptot_shape: "keeps_shape c c' \<Longrightarrow> ptot c' = ptot c"
  by (induction rule: list_all2_induct) (auto simp: same_shape_def ptot_def)

lemma wf_keeps_shape: "keeps_shape c c' \<Longrightarrow> wf_chain c \<Longrightarrow> wf_chain c'"
proof (induction rule: list_all2_induct)
  case Nil
  then show ?case by simp
next
  case (Cons p ps p' ps')
  then show ?case using ptot_shape [OF Cons.hyps(2)] by (auto simp: same_shape_def plen_def)
qed

lemma put_bytes_fields [simp]: "pf_len (put_bytes p i xs) = pf_len p" "pf_tot_len (put_bytes p i xs) = pf_tot_len p"
    "pf_off (put_bytes p i xs) = pf_off p" "plen (put_bytes p i xs) = plen p"
    "pf_ref (put_bytes p i xs) = pf_ref p" "pf_type_internal (put_bytes p i xs) = pf_type_internal p" "pf_flags (put_bytes p i xs) = pf_flags p"
  by (simp_all add: put_bytes_def plen_def)

lemma put_bytes_seg:
  assumes "pf_off p + plen p \<le> length (pf_mem p)" "i + length xs \<le> plen p"
  shows "seg_bytes (put_bytes p i xs) = st_bytes (seg_bytes p) i xs"
proof (rule nth_equalityI)
  have m: "pf_off p + i + length xs \<le> length (pf_mem p)" using assms by simp
  have l: "length (seg_bytes p) = plen p" using assms by (simp add: length_seg_bytes)
  have l': "length (seg_bytes (put_bytes p i xs)) = plen p"
    using assms m by (simp add: seg_bytes_def ld_bytes_def put_bytes_def plen_def)
  then show "length (seg_bytes (put_bytes p i xs)) = length (st_bytes (seg_bytes p) i xs)" using l assms by simp
  show "seg_bytes (put_bytes p i xs) ! j = st_bytes (seg_bytes p) i xs ! j" if "j < length (seg_bytes (put_bytes p i xs))" for j
    using that l l' assms m
    by (simp add: nth_st_bytes) (simp add: seg_bytes_def ld_bytes_def put_bytes_def nth_st_bytes plen_def)
qed

lemma put_bytes_shape:
  "pf_off p + plen p \<le> length (pf_mem p) \<Longrightarrow> i + length xs \<le> plen p \<Longrightarrow> keeps_shape ps ps' \<Longrightarrow>
   keeps_shape (p # ps) (put_bytes p i xs # ps')"
  by (simp add: same_shape_def put_bytes_def)

lemma take_loop_eq:
  "wf_chain c \<Longrightarrow> length xs \<le> length (chain_bytes c) \<Longrightarrow>
   \<exists>c'. take_loop c xs = Inr c' \<and> keeps_shape c c' \<and> chain_bytes c' = xs @ drop (length xs) (chain_bytes c)"
proof (induction c xs rule: take_loop.induct)
  case (3 p ps x xs)
  let ?d = "x # xs" let ?n = "min (length ?d) (plen p)"
  have l: "pf_off p + plen p \<le> length (pf_mem p)" "length (seg_bytes p) = plen p" "wf_chain ps"
    using 3 by (simp_all add: length_seg_bytes)
  have "length (drop ?n ?d) \<le> length (chain_bytes ps)" using 3(3) l(2) by (simp add: min_def) arith
  then obtain c' where c': "take_loop ps (drop ?n ?d) = Inr c'" "keeps_shape ps c'"
      "chain_bytes c' = drop ?n ?d @ drop (length (drop ?n ?d)) (chain_bytes ps)"
    using "3.IH" [OF refl] l(3) by blast
  have n: "0 + length (take ?n ?d) \<le> plen p" by simp
  have "seg_bytes (put_bytes p 0 (take ?n ?d)) = take ?n ?d @ drop ?n (seg_bytes p)"
    using put_bytes_seg [OF l(1) n] by (simp add: st_bytes_def)
  moreover have "take ?n ?d @ drop ?n (seg_bytes p) @ drop ?n ?d @ drop (length (drop ?n ?d)) (chain_bytes ps) =
      ?d @ drop (length ?d) (seg_bytes p @ chain_bytes ps)"
    using l(2) by (cases "length ?d \<le> plen p") (simp_all add: min_def)
  ultimately show ?case
    using c' put_bytes_shape [OF l(1) n c'(2)] by (intro exI [of _ "put_bytes p 0 (take ?n ?d) # c'"]) (simp add: Let_def)
qed auto

lemma pbuf_take_eq:
  assumes w: "wf_chain c" "c \<noteq> []"
  shows "\<exists>c'. pbuf_take c xs = Inr (if length xs \<le> ptot c then ERR_OK else ERR_MEM, c') \<and> keeps_shape c c' \<and>
    chain_bytes c' = (if length xs \<le> ptot c then xs @ drop (length xs) (chain_bytes c) else chain_bytes c)"
  using take_loop_eq [OF w(1), of xs] w by (auto simp: pbuf_take_def length_chain_bytes)

lemma st_bytes_append_right: "st_bytes (a @ b) (length a + i) xs = a @ st_bytes b i xs"
  by (simp add: st_bytes_def)

lemma st_bytes_split:
  "i \<le> length a \<Longrightarrow> length a < i + length xs \<Longrightarrow>
   st_bytes (a @ b) i xs = st_bytes a i (take (length a - i) xs) @ drop (length a - i) xs @ drop (i + length xs - length a) b"
  by (simp add: st_bytes_def)

lemma st_bytes_left: "i + length xs \<le> length a \<Longrightarrow> st_bytes (a @ b) i xs = st_bytes a i xs @ b"
  by (simp add: st_bytes_def)

text \<open>
  Writing into a packet at an offset. For a well-formed chain, data that fits is stored at its
  place, bytes before and after it and every length field are as before, however the packet is split; data that
  does not fit (or starts at or behind the end) changes nothing and gives \<open>ERR_MEM\<close>.
\<close>

lemma pbuf_take_at_stores:
  assumes w: "wf_chain c"
  shows "\<exists>c'. pbuf_take_at c xs off =
      Inr (if unat off < length (chain_bytes c) \<and> unat off + length xs \<le> length (chain_bytes c) then ERR_OK else ERR_MEM, c') \<and>
    keeps_shape c c' \<and>
    chain_bytes c' = (if unat off < length (chain_bytes c) \<and> unat off + length xs \<le> length (chain_bytes c)
                      then st_bytes (chain_bytes c) (unat off) xs else chain_bytes c)"
proof -
  obtain q t where q: "pbuf_skip_const c (unat off) = (q, t)" by fastforce
  obtain pre where pre: "c = pre @ q" "length (chain_bytes pre) + t = unat off" "wf_chain q" "q \<noteq> [] \<longrightarrow> t < plen (hd q)"
    using skip_split [OF q w] by blast
  note nil = skip_bytes(2) [OF q w]
  show ?thesis
  proof (cases q)
    case Nil
    then show ?thesis using q nil by (simp add: pbuf_take_at_def)
  next
    case (Cons p ps)
    have p: "pf_off p + plen p \<le> length (pf_mem p)" "length (seg_bytes p) = plen p" "wf_chain ps" "t < plen p"
      using pre(3,4) Cons by (simp_all add: length_seg_bytes)
    have lt: "unat off < length (chain_bytes c)" using nil Cons by simp
    have lq: "length (chain_bytes q) = ptot q" using length_chain_bytes [OF pre(3)] Cons by simp
    have fit: "unat off + length xs \<le> length (chain_bytes c) \<longleftrightarrow> t + length xs \<le> ptot q"
      using pre(1,2) lq by auto
    have before: "take (length c - length q) c = pre" using pre(1) by simp
    let ?n = "min (plen p - t) (length xs)"
    have n: "t + length (take ?n xs) \<le> plen p" using p(4) by simp
    have seg: "seg_bytes (put_bytes p t (take ?n xs)) = st_bytes (seg_bytes p) t (take ?n xs)"
      using put_bytes_seg [OF p(1) n] .
    show ?thesis
    proof (cases "t + length xs \<le> ptot q")
      case False
      then show ?thesis using q Cons lt fit by (simp add: pbuf_take_at_def)
    next
      case fits: True
      have st: "st_bytes (chain_bytes c) (unat off) xs = chain_bytes pre @ st_bytes (seg_bytes p @ chain_bytes ps) t xs"
        using st_bytes_append_right [of "chain_bytes pre" "chain_bytes q" t xs] pre(1,2) Cons by simp
      show ?thesis
      proof (cases "?n < length xs")
        case True
        have n1: "?n = plen p - t" "plen p - t < length xs" using True by simp_all
        have "ps \<noteq> []" using True fits p(2,4) lq Cons by auto
        moreover have "length (drop ?n xs) \<le> ptot ps"
          using fits lq Cons p length_chain_bytes [OF p(3)] \<open>ps \<noteq> []\<close> by auto
        ultimately obtain c' where c': "pbuf_take ps (drop ?n xs) = Inr (ERR_OK, c')" "keeps_shape ps c'"
            "chain_bytes c' = drop ?n xs @ drop (length (drop ?n xs)) (chain_bytes ps)"
          using pbuf_take_eq [OF p(3), of "drop ?n xs"] by auto
        have "st_bytes (seg_bytes p @ chain_bytes ps) t xs = st_bytes (seg_bytes p) t (take ?n xs) @ chain_bytes c'"
          using st_bytes_split [of t "seg_bytes p" xs "chain_bytes ps"] c'(3) p True n1 by (simp add: add.commute)
        then show ?thesis
          using q Cons lt fit fits before True n1(2) c' seg st pre(1) put_bytes_shape [OF p(1) n c'(2)]
          by (intro exI [of _ "pre @ put_bytes p t (take ?n xs) # c'"])
            (simp add: pbuf_take_at_def Let_def list_all2_appendI)
      next
        case False
        then have n1: "take ?n xs = xs" "?n = length xs" by simp_all
        have "st_bytes (seg_bytes p @ chain_bytes ps) t xs = st_bytes (seg_bytes p) t xs @ chain_bytes ps"
          using st_bytes_left [of t xs "seg_bytes p" "chain_bytes ps"] p(2) n n1 by simp
        then show ?thesis
          using q Cons lt fit fits before False n1 seg st pre(1) put_bytes_shape [OF p(1) n keeps_shape_refl]
          by (intro exI [of _ "pre @ put_bytes p t xs # ps"])
            (simp add: pbuf_take_at_def Let_def list_all2_appendI)
      qed
    qed
  qed
qed

lemma pbuf_put_at_bytes:
  assumes w: "wf_chain c"
  shows "chain_bytes (pbuf_put_at c off b) = (if unat off < length (chain_bytes c) then (chain_bytes c)[unat off := b] else chain_bytes c)"
proof -
  obtain q t where q: "pbuf_skip_const c (unat off) = (q, t)" by fastforce
  obtain pre where pre: "c = pre @ q" "length (chain_bytes pre) + t = unat off" "wf_chain q" "q \<noteq> [] \<longrightarrow> t < plen (hd q)"
    using skip_split [OF q w] by blast
  show ?thesis
  proof (cases q)
    case Nil
    then show ?thesis using q skip_bytes(2) [OF q w] by (simp add: pbuf_put_at_def)
  next
    case (Cons p ps)
    have p: "pf_off p + plen p \<le> length (pf_mem p)" "length (seg_bytes p) = plen p" "t < plen p"
      using pre(3,4) Cons by (simp_all add: length_seg_bytes)
    have "seg_bytes (put_bytes p t [b]) = (seg_bytes p)[t := b]"
      using put_bytes_seg [OF p(1), of t "[b]"] p(2,3) by (simp add: list_update_st_bytes)
    moreover have "(chain_bytes c)[unat off := b] = chain_bytes pre @ (seg_bytes p)[t := b] @ chain_bytes ps"
      using pre(1) Cons p(2,3) by (simp add: pre(2) [symmetric] list_update_append)
    ultimately show ?thesis
      using q Cons pre(1) p(3) skip_bytes(2) [OF q w] by (simp add: pbuf_put_at_def)
  qed
qed

section \<open>Copying a packet\<close>

text \<open>No buffer behind the first is empty: then no proper suffix of the packet looks like a queue.\<close>

definition full_tail :: "pbuf list \<Rightarrow> bool" where
  "full_tail c \<longleftrightarrow> (\<forall>p \<in> set (tl c). 0 < plen p)"

lemma full_tail_tl: "full_tail c \<Longrightarrow> full_tail (tl c)"
  by (cases c; cases "tl c") (auto simp: full_tail_def)

lemma is_queue_Nil [simp]: "\<not> is_queue []"
  by (simp add: is_queue_def)

lemma not_queue:
  assumes "wf_chain c" "full_tail c"
  shows "\<not> is_queue c"
proof
  assume q: "is_queue c"
  then obtain p p' ps where c: "c = p # p' # ps" by (cases c; cases "tl c") (auto simp: is_queue_def)
  have "plen p = unat (pf_tot_len p)" using q c by (simp add: is_queue_def plen_def)
  moreover have "0 < plen p'" using assms(2) c by (simp add: full_tail_def)
  ultimately show False using assms(1) c by simp
qed

lemma wf_put:
  assumes "wf_chain (t # ts)" "i + length xs \<le> plen t"
  shows "wf_chain (put_bytes t i xs # ts)"
  using wf_keeps_shape [OF put_bytes_shape [of t i xs ts ts]] assms by simp

lemma copy_loop_eq:
  "wf_chain ts \<Longrightarrow> wf_chain fs \<Longrightarrow> full_tail ts \<Longrightarrow> full_tail fs \<Longrightarrow> ts \<noteq> [] \<Longrightarrow> fs \<noteq> [] \<Longrightarrow>
   ot \<le> plen (hd ts) \<Longrightarrow> ofs \<le> plen (hd fs) \<Longrightarrow> length (drop ofs (chain_bytes fs)) \<le> length (drop ot (chain_bytes ts)) \<Longrightarrow>
   \<exists>c'. copy_loop ts ot fs ofs = Inr (ERR_OK, c') \<and> keeps_shape ts c' \<and>
     chain_bytes c' = st_bytes (chain_bytes ts) ot (drop ofs (chain_bytes fs))"
proof (induction "length ts + length fs" arbitrary: ts fs ot ofs rule: less_induct)
  case (less us gs ot ofs)
  obtain t ts f fs where us: "us = t # ts" "gs = f # fs" using less.prems(5,6) by (meson neq_Nil_conv)
  note prems = less.prems [unfolded us] and IH = less.hyps [unfolded us]
  define n where "n = (if plen f - ofs \<le> plen t - ot then plen f - ofs else plen t - ot)"
  define d where "d = ld_bytes (pf_mem f) (pf_off f + ofs) n"
  define t' where "t' = put_bytes t ot d"
  define g where "g = (if plen f \<le> ofs + n then fs else f # fs)"
  define ofs' where "ofs' = (if plen f \<le> ofs + n then 0 else ofs + n)"
  have o: "ot \<le> plen t" "ofs \<le> plen f" using prems by simp_all
  have n: "ofs + n \<le> plen f" "ot + n \<le> plen t" "ofs + n = plen f \<or> ot + n = plen t" using o by (auto simp: n_def)
  have w: "pf_off t + plen t \<le> length (pf_mem t)" "pf_off f + plen f \<le> length (pf_mem f)" "wf_chain ts" "wf_chain fs"
      "length (seg_bytes t) = plen t" "length (seg_bytes f) = plen f"
    using prems(1,2) by (simp_all add: length_seg_bytes)
  have d: "d = take n (drop ofs (seg_bytes f))" "length d = n"
    unfolding d_def using n(1) w(6) by (simp_all add: ld_seg)
  have wt: "wf_chain (t' # ts)" unfolding t'_def using prems(1) n(2) d(2) by (intro wf_put) auto
  have st: "seg_bytes t' = st_bytes (seg_bytes t) ot d"
    unfolding t'_def using w(1) n(2) d(2) by (intro put_bytes_seg) auto
  have sh: "same_shape t t'" using put_bytes_shape [OF w(1), of ot d "[]" "[]"] n(2) d(2) by (simp add: t'_def)
  have ft: "full_tail (t' # ts)" "full_tail ts" "full_tail fs" "full_tail g"
    using prems(3,4) full_tail_tl [of "t # ts"] full_tail_tl [of "f # fs"] by (auto simp: full_tail_def g_def)
  have wfrom: "wf_chain g" using prems(2) w(4) by (simp add: g_def)
  have nq: "\<not> is_queue g" "\<not> is_queue ts" "\<not> is_queue (t' # ts)"
    using not_queue wfrom wt w(3) ft by blast+
  have rest: "drop ofs (chain_bytes (f # fs)) = d @ drop ofs' (chain_bytes g)"
    using n d w(6) by (auto simp: g_def ofs'_def min_def)
      (metis append_assoc append_take_drop_id drop_drop add.commute)
  have step: "copy_loop (t # ts) ot (f # fs) ofs =
      (if ot + n = plen t
         then if ts = [] \<and> g \<noteq> [] then Inr (ERR_ARG, t' # ts)
              else if g = [] then Inr (ERR_OK, t' # ts)
              else bindR (copy_loop ts 0 g ofs') (\<lambda>(err, ts). Inr (err, t' # ts))
         else if g = [] then Inr (ERR_OK, t' # ts)
              else copy_loop (t' # ts) (ot + n) g ofs')"
  proof (cases "plen f \<le> ofs + n")
    case True
    then show ?thesis
      using n(1,2) nq
      unfolding copy_loop.simps n_def [symmetric] Let_def d_def [symmetric] t'_def [symmetric] g_def ofs'_def by simp
  next
    case False
    then have "\<not> is_queue (f # fs)" using nq(1) by (simp add: g_def)
    then show ?thesis
      using n(1,2) nq(2,3) False
      unfolding copy_loop.simps n_def [symmetric] Let_def d_def [symmetric] t'_def [symmetric] g_def ofs'_def by simp
  qed
  have len: "length d + length (drop ofs' (chain_bytes g)) \<le> plen t - ot + length (chain_bytes ts)"
    using prems(9) unfolding rest using w(5) o(1) by simp
  have pos: "g \<noteq> [] \<Longrightarrow> 0 < length (drop ofs' (chain_bytes g)) \<and> ofs' \<le> plen (hd g)"
    using prems(4) n w(4,6) by (cases fs) (auto simp: g_def ofs'_def full_tail_def length_seg_bytes split: if_splits)
  have short: "length g + length ts < length (f # fs) + length (t # ts)" "ot + n \<noteq> plen t \<Longrightarrow> g = fs \<and> ofs' = 0"
    using n by (auto simp: g_def ofs'_def)
  show ?case
  proof (cases "ot + n = plen t")
    case True
    have split: "st_bytes (chain_bytes (t # ts)) ot (d @ R) = seg_bytes t' @ R @ drop (length R) (chain_bytes ts)" for R
      unfolding st using True [symmetric] w(5) d(2) by (simp add: st_bytes_def)
    consider "g = []" | "g \<noteq> []" "ts \<noteq> []" using pos len True d(2) by fastforce
    then show ?thesis
    proof cases
      case 1
      then show ?thesis
        using step True split [of "[]"] sh unfolding us rest by (intro exI [of _ "t' # ts"]) simp
    next
      case 2
      have l2: "length (drop ofs' (chain_bytes g)) \<le> length (drop 0 (chain_bytes ts))" using len True d(2) by simp
      obtain c' where c': "copy_loop ts 0 g ofs' = Inr (ERR_OK, c')" "keeps_shape ts c'"
          "chain_bytes c' = st_bytes (chain_bytes ts) 0 (drop ofs' (chain_bytes g))"
        using IH [of ts g 0 ofs'] w(3) wfrom ft 2 pos l2 short by auto
      then show ?thesis
        using step True 2 split [of "drop ofs' (chain_bytes g)"] sh st_bytes_def [of "chain_bytes ts" 0]
        unfolding us rest by (intro exI [of _ "t' # c'"]) simp
    qed
  next
    case False
    note g = short(2) [OF False]
    have nb: "ot + length (d @ R) \<le> length (chain_bytes (t # ts)) \<Longrightarrow>
        st_bytes (chain_bytes (t' # ts)) (ot + n) R = st_bytes (chain_bytes (t # ts)) ot (d @ R)" for R
      using st_bytes_seq [of ot d R "chain_bytes (t # ts)"] st_bytes_left [of ot d "seg_bytes t" "chain_bytes ts"] st n(2) d(2) w(5)
      by simp
    show ?thesis
    proof (cases "g = []")
      case True
      then show ?thesis
        using step False st_bytes_left [of ot d "seg_bytes t" "chain_bytes ts"] st sh n(2) d(2) w(5) unfolding us rest
        by (intro exI [of _ "t' # ts"]) simp
    next
      case ne: False
      have l2: "length (drop 0 (chain_bytes fs)) \<le> length (drop (ot + n) (chain_bytes (t' # ts)))"
        using len g d(2) n(2) w(5) st by simp
      obtain c' where c': "copy_loop (t' # ts) (ot + n) fs 0 = Inr (ERR_OK, c')" "keeps_shape (t' # ts) c'"
          "chain_bytes c' = st_bytes (chain_bytes (t' # ts)) (ot + n) (drop 0 (chain_bytes fs))"
        using IH [of "t' # ts" fs "ot + n" 0] wt w(4) ft ne g l2 n(2) by (auto simp: t'_def)
      moreover have "keeps_shape (t # ts) c'"
        using c'(2) sh by (cases c') (auto simp: same_shape_def)
      moreover have "st_bytes (chain_bytes (t' # ts)) (ot + n) (chain_bytes fs) = st_bytes (chain_bytes (t # ts)) ot (d @ chain_bytes fs)"
        using len g d(2) w(5) n(2) o(1) by (intro nb) simp
      ultimately show ?thesis
        using step False ne g unfolding us rest by (intro exI [of _ c']) simp
    qed
  qed
qed

text \<open>
  Copying a packet copies its bytes. Between two well-formed packets without empty buffers behind
  the first, \<open>pbuf_copy\<close> ends; when the target is at least as long as the source it succeeds, the target starts with the
  bytes of the source and keeps the rest of its bytes and all its lengths, whatever the two splits are; when
  it is shorter the copy is refused and nothing changes.
\<close>

lemma pbuf_copy_copies:
  assumes w: "wf_chain to" "wf_chain fr" and f: "full_tail to" "full_tail fr" and ne: "to \<noteq> []" "fr \<noteq> []"
  shows "\<exists>to'. pbuf_copy to fr = Inr (if ptot fr \<le> ptot to then ERR_OK else ERR_ARG, to') \<and> keeps_shape to to' \<and>
    chain_bytes to' = (if ptot fr \<le> ptot to then chain_bytes fr @ drop (ptot fr) (chain_bytes to) else chain_bytes to)"
proof (cases "ptot fr \<le> ptot to")
  case True
  then obtain c' where "copy_loop to 0 fr 0 = Inr (ERR_OK, c')" "keeps_shape to c'"
      "chain_bytes c' = st_bytes (chain_bytes to) 0 (drop 0 (chain_bytes fr))"
    using copy_loop_eq [OF w f ne, of 0 0] length_chain_bytes [OF w(1)] length_chain_bytes [OF w(2)] ne by auto
  then show ?thesis
    using True ne length_chain_bytes [OF w(2)] by (auto simp: pbuf_copy_def st_bytes_def)
qed (use ne in \<open>simp add: pbuf_copy_def\<close>)

section \<open>Headers\<close>

lemma unat_of_nat_u16: "n < 65536 \<Longrightarrow> unat (of_nat n :: u16) = n"
  by (simp add: unat_of_nat)

text \<open>Hiding a header shows the rest of the payload; revealing it again gives the buffer back.\<close>

lemma pbuf_remove_header_ok:
  assumes "wf_chain (p # ps)" "n \<le> plen p"
  shows "\<exists>p'. pbuf_remove_header p n = (0, p') \<and> wf_chain (p' # ps) \<and> pf_mem p' = pf_mem p \<and> pf_type_internal p' = pf_type_internal p \<and>
    chain_bytes (p' # ps) = drop n (chain_bytes (p # ps)) \<and> pf_off p' = pf_off p + n \<and> plen p' = plen p - n \<and>
    unat (pf_tot_len p') = unat (pf_tot_len p) - n"
proof (cases "n = 0")
  case True
  then show ?thesis using assms by (simp add: pbuf_remove_header_def)
next
  case False
  have n: "n < 65536" using assms(2) plen_less [of p] by linarith
  note u = unat_of_nat_u16 [OF n]
  have le: "(of_nat n :: u16) \<le> pf_len p" "(of_nat n :: u16) \<le> pf_tot_len p"
    using assms u by (simp_all add: word_le_nat_alt plen_def)
  let ?p = "p\<lparr>pf_off := pf_off p + n, pf_len := pf_len p - of_nat n, pf_tot_len := pf_tot_len p - of_nat n\<rparr>"
  have l: "plen ?p = plen p - n" "unat (pf_tot_len ?p) = unat (pf_tot_len p) - n"
    using unat_sub [OF le(1)] unat_sub [OF le(2)] u by (simp_all add: plen_def)
  have r: "pbuf_remove_header p n = (0, ?p)" using False le(1) n by (simp add: pbuf_remove_header_def)
  have s: "seg_bytes ?p = drop n (seg_bytes p)"
    using l(1) by (simp add: seg_bytes_def ld_bytes_def drop_take ac_simps)
  have w: "wf_chain (?p # ps)" using assms l by auto
  have "length (seg_bytes p) = plen p" using assms(1) by (simp add: length_seg_bytes)
  then show ?thesis using r s l w assms(2) by (intro exI [of _ ?p]) simp
qed

text \<open>
  Layers of a packet. Removing a header of at most the first buffer's length leaves a well-formed
  packet with the payload behind the header, and, in a buffer with its data behind its structure, adding the header back
  restores the payload pointer, both lengths and all bytes; the reserve in front is never overrun, and neither
  operation makes a length wrap.
\<close>

lemma pbuf_header_roundtrip:
  assumes w: "wf_chain (p # ps)" and n: "n \<le> plen p" and c: "pf_type_internal p AND TYPE_CONTIGUOUS \<noteq> 0"
  shows "\<exists>p'. pbuf_remove_header p n = (0, p') \<and> wf_chain (p' # ps) \<and> chain_bytes (p' # ps) = drop n (chain_bytes (p # ps)) \<and>
    pbuf_add_header p' n = Inr (0, p)"
proof -
  obtain p' where p': "pbuf_remove_header p n = (0, p')" "wf_chain (p' # ps)" "chain_bytes (p' # ps) = drop n (chain_bytes (p # ps))"
      "pf_type_internal p' = pf_type_internal p" "pf_off p' = pf_off p + n" "unat (pf_tot_len p') = unat (pf_tot_len p) - n"
    using pbuf_remove_header_ok [OF w n] by blast
  have nl: "n < 65536" "n \<le> unat (pf_tot_len p)" using le_less_trans [OF n plen_less] n w by simp_all
  have u: "unat (of_nat n :: u16) = n" using nl(1) by (rule unat_of_nat_u16)
  have "unat (of_nat n + pf_tot_len p') = unat (pf_tot_len p)"
    using u p'(6) nl unat_u16_less [of "pf_tot_len p"] by (subst unat_plus_if_size) (simp add: word_size)
  then have nw: "\<not> of_nat n + pf_tot_len p' < (of_nat n :: u16)" using nl(2) u by (simp add: word_less_nat_alt)
  have "n \<noteq> 0 \<Longrightarrow> p'\<lparr>pf_off := pf_off p' - n, pf_len := pf_len p' + of_nat n, pf_tot_len := pf_tot_len p' + of_nat n\<rparr> = p"
    using p'(1) nl u by (auto simp: pbuf_remove_header_def split: if_splits)
  moreover have "n = 0 \<Longrightarrow> p' = p" using p'(1) by (simp add: pbuf_remove_header_def)
  ultimately have "pbuf_add_header p' n = Inr (0, p)"
    using c nw p'(4,5) nl(1) by (cases "n = 0") (auto simp: pbuf_add_header_def pbuf_add_header_impl_def Let_def)
  then show ?thesis using p' by blast
qed

section \<open>Shortening and joining\<close>

lemma realloc_loop_eq:
  "wf_chain c \<Longrightarrow> c \<noteq> [] \<Longrightarrow> n \<le> ptot c \<Longrightarrow> unat shrink = ptot c - n \<Longrightarrow>
   \<exists>kept rest. realloc_loop c n shrink = Inr (kept, rest) \<and> kept \<noteq> [] \<and> wf_chain kept \<and> ptot kept = n \<and>
     chain_bytes kept = take n (chain_bytes c) \<and> length kept + length rest = length c \<and> rest = drop (length kept) c"
proof (induction c arbitrary: n)
  case (Cons q qs)
  have l: "pf_off q + plen q \<le> length (pf_mem q)" "length (seg_bytes q) = plen q" "wf_chain qs"
    using Cons.prems(1) by (simp_all add: length_seg_bytes)
  show ?case
  proof (cases "plen q < n")
    case True
    have qs: "qs \<noteq> []" and tot: "unat (pf_tot_len q) = plen q + ptot qs" using True Cons.prems by auto
    have m: "n - plen q \<le> ptot qs" "unat shrink = ptot qs - (n - plen q)" using Cons.prems(3,4) tot True by simp_all
    obtain kept rest where k: "realloc_loop qs (n - plen q) shrink = Inr (kept, rest)" "kept \<noteq> []" "wf_chain kept" "ptot kept = n - plen q"
        "chain_bytes kept = take (n - plen q) (chain_bytes qs)" "length kept + length rest = length qs" "rest = drop (length kept) qs"
      using Cons.IH [OF l(3) qs m] by blast
    let ?q = "q\<lparr>pf_tot_len := pf_tot_len q - shrink\<rparr>"
    have "shrink \<le> pf_tot_len q" using Cons.prems(4) by (simp add: word_le_nat_alt)
    then have t: "unat (pf_tot_len ?q) = n" using unat_sub [of shrink "pf_tot_len q"] Cons.prems(3,4) by simp
    have "seg_bytes ?q = seg_bytes q" "plen ?q = plen q" by (simp_all add: seg_bytes_def plen_def)
    then show ?thesis
      using True k t l by (intro exI [of _ "?q # kept"] exI [of _ rest]) auto
  next
    case False
    let ?q = "q\<lparr>pf_len := of_nat n, pf_tot_len := of_nat n\<rparr>"
    have "n < 65536" using False plen_less [of q] by linarith
    then have u: "plen ?q = n" "unat (pf_tot_len ?q) = n" by (simp_all add: plen_def unat_of_nat_u16)
    have "seg_bytes ?q = take n (seg_bytes q)"
      using u(1) False by (simp add: seg_bytes_def ld_bytes_def min_def)
    then show ?thesis
      using u False l by (intro exI [of _ "[?q]"] exI [of _ qs]) auto
  qed
qed simp

text \<open>
  Shortening a packet. On a well-formed packet \<open>pbuf_realloc\<close> never reaches its assertion; the
  packet kept is well-formed, has the wanted length (a longer request changes nothing), its bytes are the
  first bytes of the old packet, and the buffers behind it are exactly those given to \<open>pbuf_free\<close>.
\<close>

lemma pbuf_realloc_shortens:
  assumes w: "wf_chain c" "c \<noteq> []"
  shows "\<exists>kept rest. pbuf_realloc c n = Inr (kept, rest) \<and> wf_chain kept \<and> ptot kept = min (unat n) (ptot c) \<and>
    chain_bytes kept = take (unat n) (chain_bytes c) \<and> kept \<noteq> [] \<and> rest = drop (length kept) c"
proof (cases "pf_tot_len (hd c) \<le> n")
  case True
  then have "ptot c \<le> unat n" by (simp add: ptot_def word_le_nat_alt)
  then show ?thesis
    using w True length_chain_bytes [OF w(1)] by (intro exI [of _ c] exI [of _ "[]"]) (simp add: pbuf_realloc_def)
next
  case False
  then have n: "n \<le> pf_tot_len (hd c)" by simp
  have m: "unat n \<le> ptot c" "unat (pf_tot_len (hd c) - n) = ptot c - unat n"
    using n unat_sub [OF n] by (simp_all add: ptot_def word_le_nat_alt)
  show ?thesis
    using realloc_loop_eq [OF w m] False w(2) m(1) by (auto simp: pbuf_realloc_def)
qed

lemma pbuf_cat_eq:
  "wf_chain h \<Longrightarrow> wf_chain t \<Longrightarrow> h \<noteq> [] \<Longrightarrow> t \<noteq> [] \<Longrightarrow> ptot h + ptot t < 65536 \<Longrightarrow>
   \<exists>c. pbuf_cat h t = Inr c \<and> wf_chain c \<and> chain_bytes c = chain_bytes h @ chain_bytes t \<and> ptot c = ptot h + ptot t \<and> c \<noteq> []"
proof (induction h t rule: pbuf_cat.induct)
  case (2 p t)
  let ?p = "p\<lparr>pf_tot_len := pf_tot_len p + pf_tot_len (hd t)\<rparr>"
  have e: "pf_tot_len p = pf_len p" using 2(1) by (simp add: plen_def word_unat_eq_iff)
  have u: "unat (pf_tot_len ?p) = ptot [p] + ptot t"
    using 2 by (simp add: ptot_def unat_word_ariths)
  have "plen ?p = plen p" "seg_bytes ?p = seg_bytes p" by (simp_all add: plen_def seg_bytes_def)
  then show ?case using 2 e u by (intro exI [of _ "?p # t"]) auto
next
  case (3 p p' ps t)
  let ?p = "p\<lparr>pf_tot_len := pf_tot_len p + pf_tot_len (hd t)\<rparr>"
  have "ptot (p' # ps) + ptot t < 65536" using 3 by simp
  then obtain c where c: "pbuf_cat (p' # ps) t = Inr c" "wf_chain c" "chain_bytes c = chain_bytes (p' # ps) @ chain_bytes t"
      "ptot c = ptot (p' # ps) + ptot t" "c \<noteq> []"
    using 3 by auto
  have u: "unat (pf_tot_len ?p) = unat (pf_tot_len p) + ptot t"
    using 3 by (simp add: ptot_def unat_word_ariths)
  have "plen ?p = plen p" "seg_bytes ?p = seg_bytes p" by (simp_all add: plen_def seg_bytes_def)
  then show ?case using 3 c u by (intro exI [of _ "?p # c"]) auto
qed simp

section \<open>Allocation\<close>

lemma mem_align_size_ge: "n \<le> mem_align_size n" "mem_align_size n < n + 4"
  unfolding mem_align_size_def by linarith+

lemma init_fields [simp]:
  "pf_mem (pbuf_init_alloced_pbuf m off tot len ty fl) = m" "pf_off (pbuf_init_alloced_pbuf m off tot len ty fl) = off"
  "pf_tot_len (pbuf_init_alloced_pbuf m off tot len ty fl) = tot" "plen (pbuf_init_alloced_pbuf m off tot len ty fl) = unat len"
  by (simp_all add: pbuf_init_alloced_pbuf_def plen_def)

text \<open>
  A chain from the pool is well-formed, as long as wanted, has no empty buffer behind the first and takes
  its elements from the front of the free list.
\<close>

lemma alloc_pool_chain:
  "alloc_pool ms n off = Some (c, ms') \<Longrightarrow> n < 65536 \<Longrightarrow> mem_align_size off < 1516 \<Longrightarrow> \<forall>m \<in> set ms. 1516 \<le> length m \<Longrightarrow>
   wf_chain c \<and> ptot c = n \<and> c \<noteq> [] \<and> full_tail c \<and> ms = map pf_mem c @ ms' \<and> (0 < n \<longrightarrow> 0 < plen (hd c))"
proof (induction ms n off arbitrary: c ms' rule: alloc_pool.induct)
  case (2 m ms n off)
  let ?q = "min n (1516 - mem_align_size off)"
  let ?p = "pbuf_init_alloced_pbuf m (mem_align_size off) (of_nat n) (of_nat ?q) PBUF_POOL 0"
  have u: "unat (of_nat n :: u16) = n" "unat (of_nat ?q :: u16) = ?q" using "2.prems"(2) by (simp_all add: unat_of_nat_u16)
  have len: "mem_align_size off + ?q \<le> length m" using "2.prems"(3,4) by auto
  show ?case
  proof (cases "n - ?q = 0")
    case True
    then have "n = ?q" by simp
    then show ?thesis using "2.prems"(1) True u len by (auto simp: full_tail_def)
  next
    case False
    then obtain d where d: "alloc_pool ms (n - ?q) 0 = Some (d, ms')" "c = ?p # d"
      using "2.prems"(1) by (auto simp: Let_def split: option.splits)
    have "wf_chain d \<and> ptot d = n - ?q \<and> d \<noteq> [] \<and> full_tail d \<and> ms = map pf_mem d @ ms' \<and> (0 < n - ?q \<longrightarrow> 0 < plen (hd d))"
      using "2.IH" [OF refl refl False d(1)] "2.prems" by (simp add: mem_align_size_def)
    then show ?thesis using d(2) u len False "2.prems"(3) by (cases d) (auto simp: full_tail_def)
  qed
qed simp

text \<open>
  A clone has the bytes of the packet. When the heap serves the request with a block of at least the
  size asked for, \<open>pbuf_clone\<close> into \<open>PBUF_RAM\<close> gives one well-formed buffer with exactly the bytes of the
  (well-formed) packet and the aligned header space of the layer in front of them; the size computed in 16
  bits does not wrap for packets of up to 65000 bytes.
\<close>

lemma pbuf_clone_copies:
  assumes w: "wf_chain p" "p \<noteq> []" "full_tail p" and l: "ptot p \<le> 65000" "unat layer \<le> 100"
    and h: "src_heap s (mem_align_size (unat layer) + mem_align_size (ptot p)) = Some m"
      "mem_align_size (unat layer) + mem_align_size (ptot p) \<le> length m"
  shows "\<exists>q. pbuf_clone layer PBUF_RAM p s = Inr ([q], s) \<and> wf_chain [q] \<and> chain_bytes [q] = chain_bytes p \<and>
    unat layer \<le> pf_off q \<and> pf_ref q = 1 \<and> pf_flags q = 0 \<and> pf_type_internal q = 0x80"
proof -
  let ?o = "mem_align_size (unat layer)"
  let ?q = "pbuf_init_alloced_pbuf m ?o (pf_tot_len (hd p)) (pf_tot_len (hd p)) PBUF_RAM 0"
  have a: "unat layer \<le> ?o" "?o < unat layer + 4" "ptot p \<le> mem_align_size (ptot p)" "mem_align_size (ptot p) < ptot p + 4"
    using mem_align_size_ge by blast+
  then have u: "unat (of_nat (?o + mem_align_size (ptot p)) :: u16) = ?o + mem_align_size (ptot p)"
    using l by (intro unat_of_nat_u16) linarith
  have al: "pbuf_alloc layer (pf_tot_len (hd p)) PBUF_RAM s = Inr ([?q], s)"
    using h(1) u by (simp add: pbuf_alloc_def ptot_def [symmetric] Let_def)
  have wq: "wf_chain [?q]" "full_tail [?q]" "ptot [?q] = ptot p"
    using a h(2) by (simp_all add: full_tail_def ptot_def)
  then obtain q' where q': "pbuf_copy [?q] p = Inr (ERR_OK, q')" "keeps_shape [?q] q'"
      "chain_bytes q' = chain_bytes p @ drop (ptot p) (chain_bytes [?q])"
    using pbuf_copy_copies [OF wq(1) w(1) wq(2) w(3) _ w(2)] by auto
  have "length (chain_bytes [?q]) = ptot p" using length_chain_bytes [OF wq(1)] wq(3) by simp
  moreover obtain q where q: "q' = [q]" "same_shape ?q q" using q'(2) by (auto simp: list_all2_Cons1)
  ultimately show ?thesis
    using al q' wf_keeps_shape [OF q'(2) wq(1)] a(1) by (auto simp: pbuf_clone_def same_shape_def pbuf_init_alloced_pbuf_def)
qed

text \<open>
  C19: A packet is a memory: what is written at an offset is read back. For a well-formed chain and data
  that fits, \<open>pbuf_take_at\<close> stores the data at its place with all other bytes and every length as before, whatever the split
  into buffers, and \<open>pbuf_copy_partial\<close> at that offset returns it; data that does not fit, or starts at or behind
  the end, changes nothing and gives \<open>ERR_MEM\<close>.
\<close>

theorem pbuf_write_read:
  assumes w: "wf_chain c"
  shows "\<exists>c'. pbuf_take_at c xs off =
      Inr (if unat off < length (chain_bytes c) \<and> unat off + length xs \<le> length (chain_bytes c) then ERR_OK else ERR_MEM, c') \<and>
    wf_chain c' \<and> keeps_shape c c' \<and>
    (if unat off < length (chain_bytes c) \<and> unat off + length xs \<le> length (chain_bytes c)
     then chain_bytes c' = st_bytes (chain_bytes c) (unat off) xs \<and> pbuf_copy_partial c' (of_nat (length xs)) off = xs
     else chain_bytes c' = chain_bytes c)"
proof -
  obtain c' where c': "pbuf_take_at c xs off =
      Inr (if unat off < length (chain_bytes c) \<and> unat off + length xs \<le> length (chain_bytes c) then ERR_OK else ERR_MEM, c')"
    "keeps_shape c c'"
    "chain_bytes c' = (if unat off < length (chain_bytes c) \<and> unat off + length xs \<le> length (chain_bytes c)
                      then st_bytes (chain_bytes c) (unat off) xs else chain_bytes c)"
    using pbuf_take_at_stores [OF w] by blast
  note w' = wf_keeps_shape [OF c'(2) w]
  have "pbuf_copy_partial c' (of_nat (length xs)) off = xs"
    if f: "unat off < length (chain_bytes c)" "unat off + length xs \<le> length (chain_bytes c)"
  proof -
    have "length (chain_bytes c) < 65536" using length_chain_bytes [OF w] ptot_less [of c] by (auto split: if_splits)
    then have "unat (of_nat (length xs) :: u16) = length xs" using f(2) by (intro unat_of_nat_u16) linarith
    then show ?thesis
      using pbuf_copy_partial_spec [OF w'] c'(3) f by (simp add: st_bytes_def)
  qed
  then show ?thesis using c' w' by (intro exI [of _ c']) auto
qed

section \<open>Examples\<close>

definition demo_seg8 :: "nat \<Rightarrow> u8 list \<Rightarrow> pbuf" where
  "demo_seg8 tot bs = \<lparr>pf_mem = 0xAA # bs @ [0xBB], pf_off = 1, pf_tot_len = of_nat tot, pf_len = of_nat (length bs),
     pf_type_internal = 0x82, pf_flags = 0, pf_ref = 1, pf_if_idx = 0\<rparr>"

lemma demo_seg8_facts:
  assumes "tot < 65536" "length bs < 65536"
  shows "plen (demo_seg8 tot bs) = length bs" "seg_bytes (demo_seg8 tot bs) = bs" "unat (pf_tot_len (demo_seg8 tot bs)) = tot"
    "pf_off (demo_seg8 tot bs) = 1" "length (pf_mem (demo_seg8 tot bs)) = length bs + 2"
  using assms by (simp_all add: demo_seg8_def plen_def seg_bytes_def ld_bytes_def unat_of_nat_u16)

definition demo_chain :: "pbuf list" where
  "demo_chain = [demo_seg8 6 [1, 2, 3], demo_seg8 3 [4], demo_seg8 2 [1, 2]]"

lemma demo_chain_facts: "wf_chain demo_chain" "full_tail demo_chain" "demo_chain \<noteq> []" "chain_bytes demo_chain = [1, 2, 3, 4, 1, 2]"
    "ptot demo_chain = 6"
  by (simp_all add: demo_chain_def full_tail_def demo_seg8_facts)

lemma pbuf_memfind_first_witness:
  "pbuf_memfind demo_chain [1, 2] 1 = 4"
proof -
  have l: "ptot demo_chain < 0xFFFF" "length [1, 2 :: u8] < 65536" by (simp_all add: demo_chain_facts)
  have b: "i + length [1, 2 :: u8] \<le> length (chain_bytes demo_chain) \<and>
      take (length [1, 2 :: u8]) (drop i (chain_bytes demo_chain)) = [1, 2] \<longleftrightarrow> i = 0 \<or> i = 4" for i
  proof (cases "i \<le> 4")
    case True
    then have "i \<in> {0, 1, 2, 3, 4}" by auto
    then show ?thesis by (auto simp: demo_chain_facts)
  qed (simp add: demo_chain_facts)
  have "first_index (\<lambda>i. i = 0 \<or> i = 4) 1 65536 = Some 4" by (simp add: first_index_Some del: first_index.simps) 
  then show ?thesis
    using pbuf_memfind_first [OF demo_chain_facts(1,3) l, of 1] unfolding b by simp
qed

lemma pbuf_copy_copies_witness:
  "\<exists>c. pbuf_copy [demo_seg8 8 [9, 9, 9, 9, 9, 9, 9, 9]] demo_chain = Inr (ERR_OK, c) \<and> chain_bytes c = [1, 2, 3, 4, 1, 2, 9, 9]"
proof -
  let ?t = "[demo_seg8 8 [9, 9, 9, 9, 9, 9, 9, 9]]"
  have t: "wf_chain ?t" "full_tail ?t" "?t \<noteq> []" "ptot ?t = 8" "chain_bytes ?t = [9, 9, 9, 9, 9, 9, 9, 9]"
    by (simp_all add: full_tail_def demo_seg8_facts)
  then show ?thesis
    using pbuf_copy_copies [OF t(1) demo_chain_facts(1) t(2) demo_chain_facts(2) t(3) demo_chain_facts(3)]
    by (auto simp: demo_chain_facts)
qed

lemma pbuf_clone_copies_witness:
  "\<exists>q. pbuf_clone 14 PBUF_RAM demo_chain \<lparr>src_pool = [], src_structs = 0, src_heap = (\<lambda>n. Some (replicate n 0)), pbuf_free_ooseq_pending = False\<rparr>
     = Inr ([q], \<lparr>src_pool = [], src_structs = 0, src_heap = (\<lambda>n. Some (replicate n 0)), pbuf_free_ooseq_pending = False\<rparr>) \<and>
     chain_bytes [q] = [1, 2, 3, 4, 1, 2]"
proof -
  let ?s = "\<lparr>src_pool = [], src_structs = 0, src_heap = (\<lambda>n. Some (replicate n 0)), pbuf_free_ooseq_pending = False\<rparr>"
  have h: "src_heap ?s (mem_align_size (unat (14 :: u16)) + mem_align_size (ptot demo_chain)) = Some (replicate 24 0)"
      "mem_align_size (unat (14 :: u16)) + mem_align_size (ptot demo_chain) \<le> length (replicate 24 (0 :: u8))"
    by (simp_all add: demo_chain_facts mem_align_size_def)
  have l: "ptot demo_chain \<le> 65000" "unat (14 :: u16) \<le> 100" by (simp_all add: demo_chain_facts)
  show ?thesis
    using pbuf_clone_copies [OF demo_chain_facts(1,3,2) l h] by (auto simp: demo_chain_facts)
qed

theorem pbuf_write_read_witness:
  "\<exists>c. pbuf_take_at demo_chain [7, 8, 9] 2 = Inr (ERR_OK, c) \<and> chain_bytes c = [1, 2, 7, 8, 9, 2] \<and> pbuf_copy_partial c 3 2 = [7, 8, 9]"
  using pbuf_write_read [OF demo_chain_facts(1), of "[7, 8, 9]" 2] by (auto simp: demo_chain_facts st_bytes_def)

lemma pbuf_realloc_shortens_witness:
  "\<exists>kept rest. pbuf_realloc demo_chain 4 = Inr (kept, rest) \<and> chain_bytes kept = [1, 2, 3, 4] \<and> ptot kept = 4"
  using pbuf_realloc_shortens [OF demo_chain_facts(1,3), of 4] by (auto simp: demo_chain_facts)

end
