(* ===== verification/DnsProxy.thy ===== *)
theory DnsProxy
  imports EthRouterIfLwip EthQueue LwipDef PbufProps
begin

text \<open>
  \<open>lwip/dnsproxy.c\<close>: the DNS proxy of the phone. \<open>pdns_recv\<close> decodes a query into a bridge
  buffer and queues it; the thread asks the resolver of the phone and sends an answer with one address
  record. The resolver (\<open>getaddrinfo\<close>) and the heap of the stack are inputs.
\<close>

section \<open>Decoding a query\<close>

text \<open>
  \<open>query_decode\<close>: the loop over the labels appends each label and a dot to \<open>name\<close>; its result is the
  position behind the 0 byte. The query is the list of its \<open>len\<close> bytes.
\<close>

abbreviation (input) "NAME_SIZE \<equiv> 512 :: nat"

function dns_labels :: "u8 list \<Rightarrow> nat \<Rightarrow> u8 list \<Rightarrow> (nat \<times> u8 list) option" where
  "dns_labels q pos out =
     (if length q \<le> pos then None
      else
        let nlen = unat (q ! pos); pos' = pos + 1
        in if nlen = 0 then Some (pos', out)
           else if NAME_SIZE - 1 \<le> length out + nlen then None
           else if length q < pos' + nlen then None
           else dns_labels q (pos' + nlen) (out @ ld_bytes q pos' nlen @ [46]))"
  by pat_completeness auto
termination
  by (relation "measure (\<lambda>(q, pos, out). length q - pos)") auto

declare dns_labels.simps [simp del]

text \<open>The result is the position, the name, the type and the class.\<close>

definition query_decode :: "u8 list \<Rightarrow> (nat \<times> u8 list \<times> u16 \<times> u16) option" where
  "query_decode q =
     (case dns_labels q 0 [] of
        None \<Rightarrow> None
      | Some (pos, out) \<Rightarrow>
          if length q < pos + 4 then None
          else
            let name = (if 0 < length out then butlast out else out)
            in Some (pos + 4, name, le16 (q ! (pos + 1)) (q ! pos), le16 (q ! (pos + 3)) (q ! (pos + 2))))"

section \<open>Encoding a name, building the answer\<close>

text \<open>
  \<open>dns_encode_name\<close>: \<open>str\<close> is what is left of the string, \<open>m\<close> the buffer in which \<open>dst\<close> is at
  \<open>base\<close>. A string without terminating 0 is read past its end (\<open>None\<close>).
\<close>

fun dns_encode_loop :: "nat \<Rightarrow> u8 list \<Rightarrow> nat \<Rightarrow> nat \<Rightarrow> u8 list \<Rightarrow> (nat \<times> u8 list) option" where
  "dns_encode_loop base [] pos cnt m = None"
| "dns_encode_loop base (c # str) pos cnt m =
     (if c = 46 then dns_encode_loop base str (pos + 1) 0 (m[base + pos - cnt := of_nat cnt])
      else if c = 0 then Some (pos + 2, m[base + pos - cnt := of_nat cnt, base + pos + 1 := 0])
      else dns_encode_loop base str (pos + 1) (cnt + 1) (m[base + pos + 1 := c]))"

definition dns_encode_name :: "nat \<Rightarrow> u8 list \<Rightarrow> u8 list \<Rightarrow> (nat \<times> u8 list) option" where
  "dns_encode_name base str m = dns_encode_loop base str 0 0 m"

text \<open>\<open>rsp[dpos++] = b\<close> with the 8-bit \<open>dpos\<close>, for a list of bytes.\<close>

fun put8 :: "u8 list \<Rightarrow> u8 list \<times> u8 \<Rightarrow> u8 list \<times> u8" where
  "put8 [] x = x"
| "put8 (b # bs) (m, dpos) = put8 bs (m[unat dpos := b], dpos + 1)"

abbreviation (input) "SIZEOF_DNS_HDR \<equiv> 12 :: nat"
abbreviation (input) "SIZEOF_DNS_QUERY \<equiv> 4 :: nat"
abbreviation (input) "SIZEOF_DNS_ANSWER \<equiv> 10 :: nat"
abbreviation (input) "DNS_MSG_SIZE \<equiv> 1500 :: nat"

text \<open>The header of the answer: identifier, flags 0x8180, one question, one answer.\<close>

definition dns_answer_hdr :: "u16 \<Rightarrow> u8 list \<Rightarrow> u8 list" where
  "dns_answer_hdr xid m =
     (let m = st16 m 0 (lwip_htons xid);
          m = m[2 := 0x81];
          m = m[3 := 0x80];
          m = st16 m 4 (lwip_htons 1);
          m = st16 m 6 (lwip_htons 1);
          m = st16 m 8 (lwip_htons 0)
      in st16 m 10 (lwip_htons 0))"

definition dns_answer_tail :: "u8 list \<Rightarrow> u8 list" where
  "dns_answer_tail ip =
     [0, 1, 0, 1] @
     [0xc0, 0x0c] @ [0, 1, 0, 1] @ [0, 0, 0x27, 0x10] @ [0, 4] @ take 4 ip"

text \<open>The answer: the payload of the buffer up to \<open>p1->len = dpos\<close>; \<open>m\<close> are the 1400 bytes allocated.\<close>

definition dns_answer :: "u16 \<Rightarrow> u8 list \<Rightarrow> u8 list \<Rightarrow> u8 list \<Rightarrow> em_error + u8 list option" where
  "dns_answer xid name ip m =
     (case dns_encode_name SIZEOF_DNS_HDR name (dns_answer_hdr xid m) of
        None \<Rightarrow> Inl BAD_MEMCPY
      | Some (ret, m) \<Rightarrow>
          if 0 < ret
          then let (m, dpos) = put8 (dns_answer_tail ip) (m, of_nat SIZEOF_DNS_HDR + of_nat ret)
               in Inr (Some (take (unat dpos) m))
          else Inr None)"

section \<open>The receive hook and the thread\<close>

text \<open>
  \<open>struct DNS_RECORD\<close> in the payload of a bridge buffer: type at 0, class at 2, name at 4, the
  asker's address at 516, port at 520, identifier at 522.
\<close>

record dns =
  dn_em :: em
  dns_q :: ETH_Q
  tNotifyHandle :: NHandle

definition rec_store :: "nat \<Rightarrow> u8 list \<Rightarrow> u16 \<Rightarrow> u16 \<Rightarrow> u16 \<Rightarrow> u32 \<Rightarrow> u16 \<Rightarrow> em \<Rightarrow> em" where
  "rec_store p name qt qc xid ip port =
     upd_pb p (\<lambda>b.
       let o1 = pb_off b;
           m = st_bytes (pb_mem b) (o1 + 4) (name @ [0]);
           m = st16 m o1 qt;
           m = st16 m (o1 + 2) qc;
           m = st16 m (o1 + 522) xid;
           m = st32 m (o1 + 516) ip
       in b\<lparr>pb_mem := st16 m (o1 + 520) port\<rparr>)"

text \<open>
  \<open>pdns_recv\<close>, for the packet \<open>c\<close>, without the release of the packet itself, which ends every branch. \<open>Inr\<close> of the
  state; an exhausted pool stops in the NULL pointer of \<open>eth_pbuf_alloc\<close>.
\<close>

definition pdns_recv :: "pbuf list \<Rightarrow> u32 \<Rightarrow> u16 \<Rightarrow> dns \<Rightarrow> em_error + dns" where
  "pdns_recv c iaddr port s =
     (let tot_len = pf_tot_len (hd c)
      in if DNS_MSG_SIZE < unat tot_len then Inr s
      else if unat tot_len < SIZEOF_DNS_HDR + SIZEOF_DNS_QUERY + SIZEOF_DNS_ANSWER then Inr s
      else
        let payload = pbuf_copy_partial c tot_len 0
        in if length payload \<noteq> unat tot_len then Inr s
           else
             bindR (eth_pbuf_alloc None (dn_em s)) (\<lambda>(p_req, em).
               case p_req of
                 None \<Rightarrow> Inr (s\<lparr>dn_em := em\<rparr>)
               | Some p \<Rightarrow>
                   let num_q = lwip_htons (ld16 payload 4); num_a = lwip_htons (ld16 payload 6);
                       memerr2 = bindR (eth_pbuf_free_request p em) (\<lambda>em. Inr (s\<lparr>dn_em := em\<rparr>))
                   in if num_a \<noteq> 0 then memerr2
                      else if num_q \<noteq> 1 then memerr2
                      else
                        (case query_decode (drop SIZEOF_DNS_HDR payload) of
                           None \<Rightarrow> memerr2
                         | Some (len, name, qt, qc) \<Rightarrow>
                             let em = rec_store p name qt qc (lwip_htons (ld16 payload 0)) iaddr port em
                             in bindR (add_to_custom_queue p (em, dns_q s)) (\<lambda>(em, q).
                                  Inr (s\<lparr>dn_em := em, dns_q := q, tNotifyHandle := TNotifyAdd 1 (tNotifyHandle s)\<rparr>)))))"

text \<open>
  What the surroundings give for the \<open>n\<close>-th request of a turn: the status of \<open>getaddrinfo\<close> and, when it
  is 0, whether the first result is of \<open>AF_INET\<close> and its address; whether \<open>pbuf_alloc\<close> succeeded, and
  what the 1400 bytes held. The resolver is given the name.
\<close>

record dns_env =
  gai :: "nat \<Rightarrow> u8 list \<Rightarrow> int \<times> bool \<times> u8 list"
  dns_pbuf :: "nat \<Rightarrow> u8 list option"

datatype dns_io = Dns_sendto "u8 list" u32 u16

definition dns_serve :: "dns_env \<Rightarrow> nat \<Rightarrow> nat \<Rightarrow> em \<Rightarrow> em_error + dns_io list" where
  "dns_serve env n p em =
     (let m = drop (pb_off (pbufs em p)) (pb_mem (pbufs em p));
          str = drop 4 m;
          (status, inet, ip) = gai env n (takeWhile (\<lambda>c. c \<noteq> 0) str)
      in if status = 0 \<and> inet
         then (case dns_pbuf env n of
                 None \<Rightarrow> Inr []
               | Some b \<Rightarrow>
                   bindR (dns_answer (ld16 m 522) str ip b) (\<lambda>r.
                     Inr (case r of None \<Rightarrow> [] | Some bs \<Rightarrow> [Dns_sendto bs (ld32 m 516) (ld16 m 520)])))
         else Inr [])"

text \<open>The inner loop of \<open>dnsproxy_thread\<close>, from one wake-up until the queue is empty.\<close>

fun dnsproxy_turn :: "nat \<Rightarrow> dns_env \<Rightarrow> nat \<Rightarrow> dns \<Rightarrow> em_error + dns_io list \<times> dns" where
  "dnsproxy_turn 0 env n s = Inl OUT_OF_FUEL"
| "dnsproxy_turn (Suc f) env n s =
     bindR (get_from_custom_queue (dn_em s, dns_q s)) (\<lambda>(p, em, q).
       case p of
         None \<Rightarrow> Inr ([], s\<lparr>dn_em := em, dns_q := q\<rparr>)
       | Some p \<Rightarrow>
           bindR (dns_serve env n p em) (\<lambda>io.
           bindR (pbuf_free p em) (\<lambda>em.
           bindR (dnsproxy_turn f env (Suc n) (s\<lparr>dn_em := em, dns_q := q\<rparr>)) (\<lambda>(io', s).
             Inr (io @ io', s)))))"

text \<open>
  \<open>dnsproxy_init\<close>: results of \<open>udp_new\<close> and \<open>udp_bind\<close>; whether the thread was started (a failed
  bind returns before). The queue holds five requests.
\<close>

definition dnsproxy_init :: "bool \<Rightarrow> int \<Rightarrow> dns \<Rightarrow> bool \<times> dns" where
  "dnsproxy_init have_pcb ret s =
     (let s = s\<lparr>dns_q := (dns_q s)\<lparr>eq_len_max := 5\<rparr>\<rparr>
      in if have_pcb \<and> ret \<noteq> 0 then (False, s)
         else (True, s\<lparr>tNotifyHandle := TNotifyCreate\<rparr>))"

end
