(* ===== verification/DnsProps.thy ===== *)
theory DnsProps
  imports DnsProxy
begin

section \<open>Names and their encoding\<close>

text \<open>A domain name is its labels; on the wire each has its length in front, in the program they are joined by dots.\<close>

definition enc_name :: "u8 list list \<Rightarrow> u8 list" where
  "enc_name ls = concat (map (\<lambda>l. of_nat (length l) # l) ls) @ [0]"

fun dotted :: "u8 list list \<Rightarrow> u8 list" where
  "dotted [] = []"
| "dotted [l] = l"
| "dotted (l # l' # ls) = l @ 46 # dotted (l' # ls)"

definition label_ok :: "u8 list \<Rightarrow> bool" where
  "label_ok l \<longleftrightarrow> l \<noteq> [] \<and> length l < 64 \<and> 0 \<notin> set l \<and> 46 \<notin> set l"

lemma enc_name_simps [simp]:
  "enc_name [] = [0]" "enc_name (l # ls) = of_nat (length l) # l @ enc_name ls"
  by (simp_all add: enc_name_def)

lemma unat_label [simp]: "length l < 64 \<Longrightarrow> unat (of_nat (length l) :: u8) = length l"
  by (simp add: unat_of_nat take_bit_nat_eq_self)

lemma dns_labels_enc:
  "\<forall>l \<in> set ls. label_ok l \<Longrightarrow> length out + length (enc_name ls) \<le> 511 \<Longrightarrow>
   dns_labels (pre @ enc_name ls @ rest) (length pre) out =
     Some (length pre + length (enc_name ls), out @ concat (map (\<lambda>l. l @ [46]) ls))"
proof (induction ls arbitrary: pre out)
  case Nil
  then show ?case by (subst dns_labels.simps) (simp add: nth_append)
next
  case (Cons l ls)
  let ?q = "pre @ enc_name (l # ls) @ rest" and ?pre = "pre @ of_nat (length l) # l"
  have l: "l \<noteq> []" "length l < 64" using Cons.prems(1) by (auto simp: label_ok_def)
  have q: "?q = ?pre @ enc_name ls @ rest" by simp
  have at: "unat (?q ! length pre) = length l" using l by (simp add: nth_append)
  have sub: "ld_bytes ?q (length pre + 1) (length l) = l" unfolding q by (simp add: ld_bytes_def)
  have "dns_labels ?q (length pre) out = dns_labels ?q (length pre + 1 + length l) (out @ l @ [46])"
    using l Cons.prems(2) at sub by (subst dns_labels.simps) (simp add: Let_def del: enc_name_simps, simp)
  also have "\<dots> = dns_labels (?pre @ enc_name ls @ rest) (length ?pre) (out @ l @ [46])" unfolding q by simp
  also have "\<dots> = Some (length ?pre + length (enc_name ls), (out @ l @ [46]) @ concat (map (\<lambda>l. l @ [46]) ls))"
    using Cons.prems by (intro Cons.IH) auto
  finally show ?case by simp
qed

lemma butlast_dotted: "ls \<noteq> [] \<Longrightarrow> butlast (concat (map (\<lambda>l. l @ [46]) ls)) = dotted ls"
  by (induction ls rule: dotted.induct) (auto simp: butlast_append)

lemma encode_chars:
  "0 \<notin> set l \<Longrightarrow> 46 \<notin> set l \<Longrightarrow> base + pos + 1 + length l \<le> length m \<Longrightarrow>
   dns_encode_loop base (l @ str) pos cnt m =
     dns_encode_loop base str (pos + length l) (cnt + length l) (st_bytes m (base + pos + 1) l)"
proof (induction l arbitrary: pos cnt m)
  case Nil
  then show ?case by (simp add: st_bytes_def)
next
  case (Cons c l)
  have "st_bytes (m[base + pos + 1 := c]) (base + pos + 1 + 1) l = st_bytes m (base + pos + 1) ([c] @ l)"
    using Cons.prems(3) st_bytes_seq [of "base + pos + 1" "[c]" l m] by (simp add: list_update_st_bytes)
  then show ?case using Cons by simp
qed

lemma st_bytes_before:
  "i + 1 + length l \<le> length m \<Longrightarrow> (st_bytes m (i + 1) l)[i := b] = st_bytes m i (b # l)"
  by (simp add: st_bytes_def list_update_append upd_conv_take_nth_drop min_def Suc_diff_le take_Suc_conv_app_nth)

lemma encode_dotted:
  "ls \<noteq> [] \<Longrightarrow> \<forall>l \<in> set ls. label_ok l \<Longrightarrow> base + pos + length (enc_name ls) \<le> length m \<Longrightarrow>
   dns_encode_loop base (dotted ls @ 0 # rest) pos 0 m = Some (pos + length (enc_name ls), st_bytes m (base + pos) (enc_name ls))"
proof (induction ls arbitrary: pos m rule: dotted.induct)
  case 1
  then show ?case by simp
next
  case (2 l)
  let ?m = "st_bytes m (base + pos + 1) l"
  have l: "label_ok l" "base + pos + length l + 2 \<le> length m" using 2 by simp_all
  have "dns_encode_loop base (l @ 0 # rest) pos 0 m =
      Some (pos + length l + 2, ?m[base + pos := of_nat (length l), base + pos + length l + 1 := 0])"
    using l by (simp add: encode_chars label_ok_def add.assoc)
  moreover have "?m[base + pos := of_nat (length l)] = st_bytes m (base + pos) (of_nat (length l) # l)"
    using l by (intro st_bytes_before) simp
  moreover have "(st_bytes m (base + pos) (of_nat (length l) # l))[base + pos + length l + 1 := 0] =
      st_bytes m (base + pos) ((of_nat (length l) # l) @ [0])"
    using l st_bytes_seq [of "base + pos" "of_nat (length l) # l" "[0]" m] by (simp add: list_update_st_bytes)
  ultimately show ?case by simp
next
  case (3 l l' ls)
  let ?m = "st_bytes m (base + pos + 1) l" and ?e = "enc_name (l' # ls)"
  have l: "label_ok l" "base + pos + length l + 1 + length ?e \<le> length m" using "3.prems" by simp_all
  have m: "?m[base + pos := of_nat (length l)] = st_bytes m (base + pos) (of_nat (length l) # l)"
    using l by (intro st_bytes_before) simp
  have "dns_encode_loop base (dotted (l # l' # ls) @ 0 # rest) pos 0 m =
      dns_encode_loop base (dotted (l' # ls) @ 0 # rest) (pos + length l + 1) 0 (st_bytes m (base + pos) (of_nat (length l) # l))"
    using l m by (simp add: encode_chars label_ok_def del: enc_name_simps)
  also have "\<dots> = Some (pos + length l + 1 + length ?e, st_bytes (st_bytes m (base + pos) (of_nat (length l) # l)) (base + (pos + length l + 1)) ?e)"
    using "3.prems" l by (intro "3.IH") (auto simp del: enc_name_simps)
  also have "st_bytes (st_bytes m (base + pos) (of_nat (length l) # l)) (base + (pos + length l + 1)) ?e =
      st_bytes m (base + pos) ((of_nat (length l) # l) @ ?e)"
    using l st_bytes_seq [of "base + pos" "of_nat (length l) # l" ?e m] by (simp add: ac_simps del: enc_name_simps)
  finally show ?case by simp
qed

lemma put8_eq: "unat dpos + length bs < 256 \<Longrightarrow> unat dpos + length bs \<le> length m \<Longrightarrow>
  put8 bs (m, dpos) = (st_bytes m (unat dpos) bs, dpos + of_nat (length bs))"
proof (induction bs arbitrary: m dpos)
  case Nil
  then show ?case by (simp add: st_bytes_def)
next
  case (Cons b bs)
  have u: "unat (dpos + 1) = unat dpos + 1" using Cons.prems by simp
  then show ?case
    using Cons st_bytes_seq [of "unat dpos" "[b]" bs m] by (simp add: list_update_st_bytes)
qed

text \<open>The answer a client expects to the question with the labels \<open>ls\<close>.\<close>

definition answer_bytes :: "u16 \<Rightarrow> u8 list list \<Rightarrow> u8 list \<Rightarrow> u8 list" where
  "answer_bytes n ls ip = bytes16 (lwip_htons n) @ [0x81, 0x80, 0, 1, 0, 1, 0, 0, 0, 0] @ enc_name ls @ [0, 1, 0, 1] @
     [0xc0, 0x0c, 0, 1, 0, 1, 0, 0, 0x27, 0x10, 0, 4] @ take 4 ip"

lemma bytes16_htons_01: "bytes16 (lwip_htons 1) = [0, 1]" "bytes16 (lwip_htons 0) = [0, 0]"
  by code_simp+

lemma st_bytes_app: "length h = n \<Longrightarrow> st_bytes (h @ r) n e = h @ e @ drop (length e) r"
  by (auto simp: st_bytes_def)

lemma unat_of_nat_small: "n < 256 \<Longrightarrow> unat (of_nat n :: u8) = n"
  by (simp add: unat_of_nat)

lemma take_st_app: "length h = n \<Longrightarrow> take (n + length e) (st_bytes (h @ r) n e) = h @ e"
  by (auto simp: st_bytes_def)

lemma nth_app_Suc: "(xs @ ys) ! Suc (length xs) = ys ! 1" "(xs @ ys) ! Suc (Suc (length xs)) = ys ! 2"
    "(xs @ ys) ! Suc (Suc (Suc (length xs))) = ys ! 3"
  using nth_append_length_plus [of xs ys 1] nth_append_length_plus [of xs ys 2] nth_append_length_plus [of xs ys 3]
  by (simp_all del: nth_append_length_plus add: numeral_eq_Suc)

lemma length12:
  "length xs = 12 \<Longrightarrow> \<exists>b0 b1 b2 b3 b4 b5 b6 b7 b8 b9 b10 b11. xs = [b0, b1, b2, b3, b4, b5, b6, b7, b8, b9, b10, b11]"
  by (auto simp: numeral_eq_Suc length_Suc_conv)

lemma dns_answer_eq:
  assumes ls: "ls \<noteq> []" "\<forall>l \<in> set ls. label_ok l" "length (enc_name ls) \<le> 223" and ip: "length ip = 4"
    and b: "length b = 1400"
  shows "dns_answer n (dotted ls @ 0 # rest) ip b = Inr (Some (answer_bytes n ls ip))"
proof -
  obtain b0 b1 b2 b3 b4 b5 b6 b7 b8 b9 b10 b11 r where r: "b = [b0, b1, b2, b3, b4, b5, b6, b7, b8, b9, b10, b11] @ r"
  proof -
    have "length (take 12 b) = 12" using b by simp
    from length12 [OF this] have "\<exists>b0 b1 b2 b3 b4 b5 b6 b7 b8 b9 b10 b11. take 12 b = [b0, b1, b2, b3, b4, b5, b6, b7, b8, b9, b10, b11]" .
    then show ?thesis using that append_take_drop_id [of 12 b] by metis
  qed
  let ?h = "bytes16 (lwip_htons n) @ [0x81, 0x80, 0, 1, 0, 1, 0, 0, 0, 0]"
  have h: "dns_answer_hdr n b = ?h @ r"
    unfolding dns_answer_hdr_def Let_def r st16_def bytes16_htons_01
    by (simp add: st_bytes_def bytes16_def numeral_2_eq_2 numeral_3_eq_3)
  have lr: "length r = 1388" using b r by simp
  let ?L = "length (enc_name ls)"
  have "dns_encode_name 12 (dotted ls @ 0 # rest) (?h @ r) = Some (?L, st_bytes (?h @ r) 12 (enc_name ls))"
    using encode_dotted [OF ls(1,2), of 12 0 "?h @ r"] ls(3) lr by (simp add: dns_encode_name_def)
  moreover have "st_bytes (?h @ r) 12 (enc_name ls) = ?h @ enc_name ls @ drop ?L r"
    by (intro st_bytes_app) (simp add: bytes16_def)
  moreover have d: "unat (12 + of_nat ?L :: u8) = 12 + ?L"
    using ls(3) unat_of_nat_small [of "12 + ?L"] by simp
  moreover have t: "length (dns_answer_tail ip) = 20" using ip by (simp add: dns_answer_tail_def)
  moreover have "0 < ?L" by (simp add: enc_name_def)
  moreover have "put8 (dns_answer_tail ip) (?h @ enc_name ls @ drop ?L r, 12 + of_nat ?L) =
      (st_bytes (?h @ enc_name ls @ drop ?L r) (12 + ?L) (dns_answer_tail ip), 12 + of_nat ?L + 20)"
    using put8_eq [of "12 + of_nat ?L" "dns_answer_tail ip" "?h @ enc_name ls @ drop ?L r"] d t ls(3) lr by simp
  moreover have "unat (12 + of_nat ?L + 20 :: u8) = 12 + ?L + 20"
    using ls(3) unat_of_nat_small [of "12 + ?L + 20"] by (simp add: ac_simps)
  moreover have "take (12 + ?L + 20) (st_bytes (?h @ enc_name ls @ drop ?L r) (12 + ?L) (dns_answer_tail ip)) =
      ?h @ enc_name ls @ dns_answer_tail ip"
    using take_st_app [of "?h @ enc_name ls" "12 + ?L" "dns_answer_tail ip" "drop ?L r"] t by (simp add: bytes16_def)
  ultimately show ?thesis
    by (simp add: dns_answer_def h Let_def answer_bytes_def dns_answer_tail_def)
qed

lemma query_decode_enc:
  assumes ls: "ls \<noteq> []" "\<forall>l \<in> set ls. label_ok l" "length (enc_name ls) \<le> 511"
  shows "query_decode (enc_name ls @ [t1, t2, c1, c2] @ extra) =
    Some (length (enc_name ls) + 4, dotted ls, le16 t2 t1, le16 c2 c1)"
proof -
  let ?o = "concat (map (\<lambda>l. l @ [46]) ls)" and ?n = "length (enc_name ls)"
  have "dns_labels (enc_name ls @ [t1, t2, c1, c2] @ extra) 0 [] = Some (?n, ?o)"
    using dns_labels_enc [OF ls(2), of "[]" "[]" "[t1, t2, c1, c2] @ extra"] ls(3) by simp
  moreover have "?o \<noteq> []" using ls(1) by (cases ls) auto
  ultimately show ?thesis
    by (simp add: query_decode_def Let_def butlast_dotted [OF ls(1)] nth_app_Suc)
qed

section \<open>From the query to the answer\<close>

text \<open>A query with the identifier \<open>n\<close>, flags \<open>fl\<close>, one question and no answer.\<close>

definition query_bytes :: "u16 \<Rightarrow> u8 \<times> u8 \<Rightarrow> u32 \<Rightarrow> u8 list list \<Rightarrow> u8 \<times> u8 \<times> u8 \<times> u8 \<Rightarrow> u8 list \<Rightarrow> u8 list" where
  "query_bytes n fl z ls tc extra =
     bytes16 (lwip_htons n) @ [fst fl, snd fl] @ [0, 1, 0, 0] @ bytes32 z @ enc_name ls @
     [fst tc, fst (snd tc), fst (snd (snd tc)), snd (snd (snd tc))] @ extra"

lemma query_bytes_fields:
  "ld16 (query_bytes n fl z ls tc extra) 0 = lwip_htons n"
  "lwip_htons (ld16 (query_bytes n fl z ls tc extra) 4) = 1"
  "lwip_htons (ld16 (query_bytes n fl z ls tc extra) 6) = 0"
  "drop 12 (query_bytes n fl z ls tc extra) =
     enc_name ls @ [fst tc, fst (snd tc), fst (snd (snd tc)), snd (snd (snd tc))] @ extra"
proof -
  have le: "lwip_htons (le16 0 1) = 1" "lwip_htons (le16 0 0) = 0" by code_simp+
  show "ld16 (query_bytes n fl z ls tc extra) 0 = lwip_htons n"
    by (simp add: query_bytes_def ld16_def bytes16_def byte_simps)
  show "lwip_htons (ld16 (query_bytes n fl z ls tc extra) 4) = 1" "lwip_htons (ld16 (query_bytes n fl z ls tc extra) 6) = 0"
    by (simp_all add: query_bytes_def ld16_def bytes16_def le)
  show "drop 12 (query_bytes n fl z ls tc extra) =
     enc_name ls @ [fst tc, fst (snd tc), fst (snd (snd tc)), snd (snd (snd tc))] @ extra"
    by (simp add: query_bytes_def bytes16_def bytes32_def)
qed

lemma length_dotted: "ls \<noteq> [] \<Longrightarrow> length (dotted ls) + 2 = length (enc_name ls)"
  by (induction ls rule: dotted.induct) auto

lemma dotted_no_null: "\<forall>l \<in> set ls. label_ok l \<Longrightarrow> 0 \<notin> set (dotted ls)"
  by (induction ls rule: dotted.induct) (auto simp: label_ok_def)

definition rec_mem :: "u8 list \<Rightarrow> u16 \<Rightarrow> u16 \<Rightarrow> u16 \<Rightarrow> u32 \<Rightarrow> u16 \<Rightarrow> u8 list \<Rightarrow> u8 list" where
  "rec_mem name qt qc xid ip port m =
     st16 (st32 (st16 (st16 (st16 (st_bytes m 4 (name @ [0])) 0 qt) 2 qc) 522 xid) 516 ip) 520 port"

lemma rec_mem_facts:
  assumes "length m = ETH_MEM_BUF_SIZE" "length name \<le> 511"
  shows "ld16 (rec_mem name qt qc xid ip port m) 522 = xid" "ld32 (rec_mem name qt qc xid ip port m) 516 = ip"
    "ld16 (rec_mem name qt qc xid ip port m) 520 = port" "length (rec_mem name qt qc xid ip port m) = ETH_MEM_BUF_SIZE"
    "\<exists>r. drop 4 (rec_mem name qt qc xid ip port m) = name @ 0 # r"
proof -
  let ?m = "rec_mem name qt qc xid ip port m"
  show "ld16 ?m 522 = xid" "ld32 ?m 516 = ip" "ld16 ?m 520 = port" "length ?m = ETH_MEM_BUF_SIZE"
    using assms by (simp_all add: rec_mem_def cmem)
  have "take (length name + 1) (drop 4 ?m) = name @ [0]"
  proof (rule nth_equalityI)
    show "length (take (length name + 1) (drop 4 ?m)) = length (name @ [0])"
      using assms by (simp add: rec_mem_def)
    show "take (length name + 1) (drop 4 ?m) ! i = (name @ [0]) ! i" if "i < length (take (length name + 1) (drop 4 ?m))" for i
      using assms that by (simp add: rec_mem_def nth_st16_other nth_st32_other nth_st_bytes)
  qed
  then have "drop 4 ?m = (name @ [0]) @ drop (length name + 1) (drop 4 ?m)"
    by (metis append_take_drop_id)
  then show "\<exists>r. drop 4 ?m = name @ 0 # r" by simp
qed

lemma custom_link_empty:
  "eq_end q = None \<Longrightarrow> custom_link p (s, q) =
     (upd_pb p (\<lambda>b. b\<lparr>pb_next := None\<rparr>) s,
      (let q = q\<lparr>eq_begin := Some p, eq_end := Some p, eq_len := eq_len q + 1\<rparr>
       in if eq_len_max q < eq_len q then q\<lparr>eq_len_max := eq_len q\<rparr> else q))"
  by (simp add: custom_link_def Let_def)

text \<open>What one accepted query leaves in an empty queue: its record, in a buffer the proxy holds.\<close>

lemma pdns_recv_accepts:
  assumes r: "em_rep (dn_em s) a" "mem_ok (dn_em s)" and f: "sp_free a = p # ps"
    and q: "custom_rep (dn_em s, dns_q s) []" "0 < unat (eq_len_max (dns_q s))"
    and ls: "ls \<noteq> []" "\<forall>l \<in> set ls. label_ok l" "length (enc_name ls) \<le> 511"
    and b: "wf_chain c" "chain_bytes c = query_bytes n fl z ls tc extra" "26 \<le> length (chain_bytes c)" "length (chain_bytes c) \<le> 1500"
  shows "\<exists>s' qt qc. pdns_recv c iaddr port s = Inr s' \<and> em_rep (dn_em s') (sp_alloc p a) \<and>
    mem_ok (dn_em s') \<and> custom_rep (dn_em s', dns_q s') [p] \<and> pb_off (pbufs (dn_em s') p) = 0 \<and>
    pb_mem (pbufs (dn_em s') p) = rec_mem (dotted ls) qt qc n iaddr port (pb_mem (pbufs (dn_em s) p))"
proof -
  obtain s0 where s0: "eth_pbuf_alloc None (dn_em s) = Inr (Some p, s0)" "em_rep s0 (sp_alloc p a)"
      "pbufs s0 = (pbufs (dn_em s))(p := alloc_init (alloc_idx None (dn_em s)) (pbufs (dn_em s) p))"
    using rep_alloc [of "dn_em s" a p ps None] r(1) f by auto
  define qt qc where "qt = le16 (fst (snd tc)) (fst tc)" and "qc = le16 (snd (snd (snd tc))) (fst (snd (snd tc)))"
  define s1 where "s1 = rec_store p (dotted ls) qt qc n iaddr port s0"
  have s1': "s1 = upd_pb p (\<lambda>x. x\<lparr>pb_mem := rec_mem (dotted ls) qt qc n iaddr port (pb_mem x)\<rparr>) s0"
    using s0(3) by (simp add: s1_def rec_store_def rec_mem_def Let_def upd_pb_def alloc_init_def numeral_2_eq_2)
  have r1: "em_rep s1 (sp_alloc p a)" unfolding s1' using s0(2) by (rule rep_upd_mem)
  have e: "0 < sp_ext (sp_alloc p a) p" by (simp add: sp_alloc_def)
  have p: "p < ETH_PBUFS_CNT" using rep_held_not_free [OF r1, of p] e by (auto simp: sp_refs_def)
  have q1: "custom_rep (s1, dns_q s) []" "eq_end (dns_q s) = None" "eq_len (dns_q s) = 0"
    using q(1) by (auto simp: custom_rep_def unat_eq_zero)
  have c: "custom_rep (custom_link p (s1, dns_q s)) [p]" "em_rep (fst (custom_link p (s1, dns_q s))) (sp_alloc p a)"
    using custom_link_rep [OF q1(1) p] rep_custom_link [OF r1 e, of "dns_q s"] q1(2) by simp_all
  have x: "pb_off (pbufs (fst (custom_link p (s1, dns_q s))) p) = 0"
      "pb_mem (pbufs (fst (custom_link p (s1, dns_q s))) p) = rec_mem (dotted ls) qt qc n iaddr port (pb_mem (pbufs (dn_em s) p))"
    using s0(3) by (simp_all add: custom_link_empty [OF q1(2)] s1' upd_pb_def alloc_init_def)
  have mm: "mem_ok (fst (custom_link p (s1, dns_q s)))"
    using r(2) s0(3) length_dotted [OF ls(1)] ls(3)
    by (auto simp: mem_ok_def custom_link_empty [OF q1(2)] s1' upd_pb_def alloc_init_def intro!: rec_mem_facts(4))
  have add: "add_to_custom_queue p (s1, dns_q s) = Inr (custom_link p (s1, dns_q s))"
    using q(2) q1(3) by (simp add: add_to_custom_queue_def word_le_nat_alt)
  have tot: "unat (pf_tot_len (hd c)) = length (chain_bytes c)"
    using length_chain_bytes [OF b(1)] b(3) by (auto simp: ptot_def split: if_splits)
  then have pay: "pbuf_copy_partial c (pf_tot_len (hd c)) 0 = query_bytes n fl z ls tc extra"
    using pbuf_copy_partial_spec [OF b(1)] b(2) by simp
  have dec: "query_decode (drop 12 (query_bytes n fl z ls tc extra)) = Some (length (enc_name ls) + 4, dotted ls, qt, qc)"
    unfolding query_bytes_fields(4) using query_decode_enc [OF ls] by (simp add: qt_def qc_def)
  have "pdns_recv c iaddr port s =
      (let (em, qq) = custom_link p (s1, dns_q s) in Inr (s\<lparr>dn_em := em, dns_q := qq, tNotifyHandle := TNotifyAdd 1 (tNotifyHandle s)\<rparr>))"
    using b(3,4) [unfolded b(2)] tot [unfolded b(2)] s0(1) pay dec add
    by (simp add: pdns_recv_def Let_def query_bytes_fields(1-3) s1_def split: prod.split)
  then show ?thesis
    using c x mm by (cases "custom_link p (s1, dns_q s)") auto
qed

text \<open>The turn of the thread: it serves the record and releases its buffer.\<close>

lemma turn_answers:
  assumes r: "em_rep (dn_em s) a" "mem_ok (dn_em s)" and e: "0 < sp_ext a p" and q: "custom_rep (dn_em s, dns_q s) [p]"
    and m: "pb_off (pbufs (dn_em s) p) = 0"
      "pb_mem (pbufs (dn_em s) p) = rec_mem (dotted ls) qt qc n iaddr port m0" "length m0 = ETH_MEM_BUF_SIZE"
    and ls: "ls \<noteq> []" "\<forall>l \<in> set ls. label_ok l" "length (enc_name ls) \<le> 223"
    and env: "gai env k (dotted ls) = (0, True, ip)" "length ip = 4" "dns_pbuf env k = Some b" "length b = 1400"
  shows "\<exists>s'. dnsproxy_turn (Suc (Suc f)) env k s = Inr ([Dns_sendto (answer_bytes n ls ip) iaddr port], s') \<and>
    em_rep (dn_em s') (sp_release p a) \<and> custom_rep (dn_em s', dns_q s') []"
proof -
  have ld: "length (dotted ls) \<le> 511" using length_dotted [OF ls(1)] ls(3) by simp
  obtain rest where str: "drop 4 (rec_mem (dotted ls) qt qc n iaddr port m0) = dotted ls @ 0 # rest"
    using rec_mem_facts(5) [OF m(3) ld] by blast
  have tw: "takeWhile (\<lambda>c. c \<noteq> 0) (dotted ls @ 0 # rest) = dotted ls"
    using dotted_no_null [OF ls(2)] by (simp add: takeWhile_append)
  have n: "pb_next (pbufs (dn_em s) p) = None" "eq_begin (dns_q s) = Some p" "eq_len (dns_q s) = 1"
    using q by (auto simp: custom_rep_def pnx_def unat_eq_one)
  obtain em1 q1 where g: "get_from_custom_queue (dn_em s, dns_q s) = Inr (Some p, em1, q1)" "custom_rep (em1, q1) []"
    using custom_get_rep [OF q] by blast
  have em1: "em1 = upd_pb p (\<lambda>b. b\<lparr>pb_next := None\<rparr>) (dn_em s)"
    using g(1) n by (simp add: get_from_custom_queue_def Let_def)
  have r1: "em_rep em1 a" "pb_next (pbufs em1 p) = None"
    unfolding em1 using rep_upd_held [OF r(1) e] by (simp_all add: upd_pb_def)
  obtain em2 where fr: "pbuf_free p em1 = Inr em2" "em_rep em2 (sp_release p a)"
    using rep_pbuf_free [OF r1(1) e r1(2)] by blast
  have pb: "pb_off (pbufs em1 p) = 0" "pb_mem (pbufs em1 p) = rec_mem (dotted ls) qt qc n iaddr port m0"
    using m by (simp_all add: em1 upd_pb_def)
  have sv: "dns_serve env k p em1 = Inr [Dns_sendto (answer_bytes n ls ip) iaddr port]"
    using env rec_mem_facts(1-3) [OF m(3) ld] dns_answer_eq [OF ls env(2,4)]
    by (simp add: dns_serve_def pb str tw)
  have e2: "eq_begin q1 = None" "custom_rep (em2, q1) []"
    using g(2) by (simp_all add: custom_rep_def)
  have g2: "get_from_custom_queue (em2, q1) = Inr (None, em2, q1)"
    using e2(1) by (simp add: get_from_custom_queue_def)
  show ?thesis
    using fr(2) e2(2) by (simp add: g(1) sv fr(1) g2)
qed

text \<open>
  C18: The DNS proxy answers. When nothing waits and a buffer is free, a query of 26 to 1500 bytes with
  one question and no answer, for a name of well-formed labels whose encoding is at most 223 bytes, is
  queued; the thread's next turn gives the resolver the dotted name and, when that finds an IPv4
  address and the stack has memory, sends the asker (address and port) exactly the answer a client
  expects: the identifier of the query, its name, type A, class IN and the address. The buffer is
  released and the queue is empty again.
\<close>

theorem dns_query_answered:
  assumes r: "em_rep (dn_em s) a" "mem_ok (dn_em s)" and f: "sp_free a = p # ps"
    and q: "custom_rep (dn_em s, dns_q s) []" "0 < unat (eq_len_max (dns_q s))"
    and ls: "ls \<noteq> []" "\<forall>l \<in> set ls. label_ok l" "length (enc_name ls) \<le> 223"
    and b: "wf_chain c" "chain_bytes c = query_bytes n fl z ls tc extra" "26 \<le> length (chain_bytes c)" "length (chain_bytes c) \<le> 1500"
    and env: "gai env k (dotted ls) = (0, True, ip)" "length ip = 4" "dns_pbuf env k = Some b" "length b = 1400"
  shows "\<exists>s1 s2. pdns_recv c iaddr port s = Inr s1 \<and>
    dnsproxy_turn 2 env k s1 = Inr ([Dns_sendto (answer_bytes n ls ip) iaddr port], s2) \<and>
    em_rep (dn_em s2) (sp_release p (sp_alloc p a)) \<and> custom_rep (dn_em s2, dns_q s2) []"
proof -
  have ls2: "length (enc_name ls) \<le> 511" using ls(3) by simp
  obtain s1 qt qc where 1: "pdns_recv c iaddr port s = Inr s1" "em_rep (dn_em s1) (sp_alloc p a)"
      "mem_ok (dn_em s1)" "custom_rep (dn_em s1, dns_q s1) [p]" "pb_off (pbufs (dn_em s1) p) = 0"
      "pb_mem (pbufs (dn_em s1) p) = rec_mem (dotted ls) qt qc n iaddr port (pb_mem (pbufs (dn_em s) p))"
    using pdns_recv_accepts [OF r f q ls(1,2) ls2 b] by blast
  have "0 < sp_ext (sp_alloc p a) p" "length (pb_mem (pbufs (dn_em s) p)) = ETH_MEM_BUF_SIZE"
    using r(2) by (simp_all add: sp_alloc_def mem_ok_def)
  then show ?thesis
    using turn_answers [OF 1(2,3) _ 1(4-6) _ ls env, where f = 0] 1(1) by (simp only: numeral_2_eq_2) blast
qed

definition demo_name :: "u8 list list" where
  "demo_name = [[104, 111, 115, 116, 49], [114, 117]]"

definition dns0 :: dns where
  "dns0 = snd (dnsproxy_init True 0 \<lparr>dn_em = eth_router_init,
     dns_q = \<lparr>eq_begin = None, eq_end = None, eq_len = 0, eq_len_max = 0, eq_lost = 0\<rparr>, tNotifyHandle = TNotifyCreate\<rparr>)"

definition dns_env0 :: dns_env where
  "dns_env0 = \<lparr>gai = (\<lambda>k name. if name = dotted demo_name then (0, True, [10, 0, 0, 7]) else (1, False, [])),
     dns_pbuf = (\<lambda>k. Some (replicate 1400 0xEE))\<rparr>"

theorem dns_query_answered_witness:
  "\<exists>s1 s2. pdns_recv [demo_seg8 26 (query_bytes 0x1234 (1, 0) 0 demo_name (0, 1, 0, 1) [])] 0x0A000002 5353 dns0 = Inr s1 \<and>
     dnsproxy_turn 2 dns_env0 0 s1 = Inr ([Dns_sendto
       ([0x12, 0x34, 0x81, 0x80, 0, 1, 0, 1, 0, 0, 0, 0, 5, 104, 111, 115, 116, 49, 2, 114, 117, 0, 0, 1, 0, 1,
         0xc0, 0x0c, 0, 1, 0, 1, 0, 0, 0x27, 0x10, 0, 4, 10, 0, 0, 7]) 0x0A000002 5353], s2)"
proof -
  let ?q = "query_bytes 0x1234 (1, 0) 0 demo_name (0, 1, 0, 1) []"
  have s: "em_rep (dn_em dns0) sp_init" "mem_ok (dn_em dns0)" "custom_rep (dn_em dns0, dns_q dns0) []"
    "0 < unat (eq_len_max (dns_q dns0))"
    using init_rep mem_ok_init by (simp_all add: dns0_def dnsproxy_init_def custom_rep_def Let_def)
  have ls: "demo_name \<noteq> []" "\<forall>l \<in> set demo_name. label_ok l" "length (enc_name demo_name) \<le> 223"
    by (simp_all add: demo_name_def label_ok_def)
  have lq: "length ?q = 26" by (simp add: query_bytes_def demo_name_def)
  let ?c = "[demo_seg8 26 ?q]"
  have c: "chain_bytes ?c = ?q" "wf_chain ?c" using lq by (simp_all add: demo_seg8_facts)
  have b: "26 \<le> length (chain_bytes ?c)" "length (chain_bytes ?c) \<le> 1500" unfolding c(1) using lq by simp_all
  have env: "gai dns_env0 0 (dotted demo_name) = (0, True, [10, 0, 0, 7])" "length [10, 0, 0, 7 :: u8] = 4"
    "dns_pbuf dns_env0 0 = Some (replicate 1400 0xEE)" "length (replicate 1400 (0xEE :: u8)) = 1400"
    by (simp_all add: dns_env0_def)
  have "bytes16 (lwip_htons 0x1234) = [0x12, 0x34]" by code_simp
  then have "answer_bytes 0x1234 demo_name [10, 0, 0, 7] = [0x12, 0x34, 0x81, 0x80, 0, 1, 0, 1, 0, 0, 0, 0, 5, 104, 111, 115, 116, 49, 2, 114, 117, 0, 0, 1, 0, 1,
         0xc0, 0x0c, 0, 1, 0, 1, 0, 0, 0x27, 0x10, 0, 4, 10, 0, 0, 7]"
    by (simp add: answer_bytes_def demo_name_def)
  then show ?thesis
    using dns_query_answered [OF s(1,2) sp_init_free s(3,4) ls c(2,1) b env, where iaddr = "0x0A000002" and port = 5353] by metis
qed

text \<open>
  The 8-bit index of the answer: the length sent is that of the answer modulo 256, so an answer of 256
  bytes or more (a name of 224 or more encoded bytes, though names of 255 are legal) is cut short.
\<close>

lemma put8_index: "snd (put8 bs (m, d)) = d + of_nat (length bs)"
  by (induction bs arbitrary: m d) simp_all

lemma put8_length [simp]: "length (fst (put8 bs (m, d))) = length m"
  by (induction bs arbitrary: m d) simp_all

lemma dns_answer_index_wraps:
  assumes ls: "ls \<noteq> []" "\<forall>l \<in> set ls. label_ok l" "length (enc_name ls) \<le> 255" and ip: "length ip = 4"
    and b: "length b = 1400"
  shows "\<exists>bs. dns_answer n (dotted ls @ 0 # rest) ip b = Inr (Some bs) \<and> length bs = (32 + length (enc_name ls)) mod 256"
proof -
  let ?L = "length (enc_name ls)" and ?h = "dns_answer_hdr n b"
  have h: "length ?h = 1400" using b by (simp add: dns_answer_hdr_def Let_def)
  have enc: "dns_encode_name 12 (dotted ls @ 0 # rest) ?h = Some (?L, st_bytes ?h 12 (enc_name ls))"
    using encode_dotted [OF ls(1,2), of 12 0 ?h] ls(3) h by (simp add: dns_encode_name_def)
  have "0 < ?L" by (simp add: enc_name_def)
  have "length (dns_answer_tail ip) = 20" using ip by (simp add: dns_answer_tail_def)
  moreover obtain m d where p: "put8 (dns_answer_tail ip) (st_bytes ?h 12 (enc_name ls), of_nat 12 + of_nat ?L) = (m, d)"
    by fastforce
  ultimately have "d = of_nat (32 + ?L)"
    using put8_index [of "dns_answer_tail ip" "st_bytes ?h 12 (enc_name ls)" "of_nat 12 + of_nat ?L"] by simp
  then have d: "unat d = (32 + ?L) mod 256" by (simp only: unat_of_nat) simp
  have "length m = 1400"
    using put8_length [of "dns_answer_tail ip" "st_bytes ?h 12 (enc_name ls)" "of_nat 12 + of_nat ?L"] h ls(3)
    by (simp only: p fst_conv) simp
  then have "length (take (unat d) m) = (32 + ?L) mod 256"
    using mod_less_divisor [of 256 "32 + ?L"] unfolding d by simp
  then show ?thesis
    using p enc \<open>0 < ?L\<close> by (intro exI [of _ "take (unat d) m"]) (simp add: dns_answer_def)
qed

end
