(* ===== verification/Timeouts.thy ===== *)
theory Timeouts
  imports Prelude "HOL-Library.Multiset"
begin

text \<open>
  \<open>lwip/core/timeouts.c\<close>: the timer list of the IP stack. The clock is an input of every operation that
  reads it. The handlers of the application are a parameter; the stack's own ones (the TCP
  timer, started on demand, and the cyclic timers) are modelled except for the work they do.
\<close>

section \<open>Time that wraps\<close>

abbreviation (input) "LWIP_MAX_TIMEOUT \<equiv> 0x7FFFFFFF :: u32"

definition TIME_LESS_THAN :: "u32 \<Rightarrow> u32 \<Rightarrow> bool" where
  "TIME_LESS_THAN t compare_to \<longleftrightarrow> LWIP_MAX_TIMEOUT < t - compare_to"

section \<open>The list\<close>

text \<open>\<open>H_cyclic i\<close> is \<open>lwip_cyclic_timer\<close> with the \<open>i\<close>-th entry of the table as argument.\<close>

datatype sys_timeout_handler = H_tcpip_tcp_timer | H_cyclic nat | H_other nat

record sys_timeo =
  to_time :: u32
  to_h :: "sys_timeout_handler option"
  to_arg :: "nat option"

text \<open>
  \<open>timeo_free\<close> counts the free elements of \<open>MEMP_SYS_TIMEOUT\<close>. \<open>timer_calls\<close> lists the calls made so far: of a handler with
  its argument, and of the work of the stack's own timers, the handler of a cyclic timer and \<open>tcp_tmr\<close>.
\<close>

datatype timer_call = Handler_call sys_timeout_handler "nat option" | Cyclic_work nat | Call_tcp_tmr

record timers =
  next_timeout :: "sys_timeo list"
  current_timeout_due_time :: u32
  tcpip_tcp_timer_active :: bool
  timeo_free :: nat
  timer_calls :: "timer_call list"

definition log_call :: "timer_call \<Rightarrow> timers \<Rightarrow> timers" where
  "log_call c s = s\<lparr>timer_calls := timer_calls s @ [c]\<rparr>"

lemma log_call_simps [simp]:
  "next_timeout (log_call c s) = next_timeout s" "current_timeout_due_time (log_call c s) = current_timeout_due_time s"
  "tcpip_tcp_timer_active (log_call c s) = tcpip_tcp_timer_active s" "timeo_free (log_call c s) = timeo_free s"
  "timer_calls (log_call c s) = timer_calls s @ [c]"
  by (simp_all add: log_call_def)

datatype timer_error = POOL_EMPTY | TIMEOUT_TOO_LONG | BAD_CYCLIC | INVALID_SLEEPTIME | TIMER_FUEL

abbreviation (input) "TCP_TMR_INTERVAL \<equiv> 250 :: u32"
abbreviation (input) "ARP_TMR_INTERVAL \<equiv> 1000 :: u32"

text \<open>\<open>lwip_cyclic_timers\<close> in this configuration: TCP and ARP.\<close>

definition lwip_cyclic_timers :: "u32 list" where
  "lwip_cyclic_timers = [TCP_TMR_INTERVAL, ARP_TMR_INTERVAL]"

fun timeo_insert :: "sys_timeo \<Rightarrow> sys_timeo list \<Rightarrow> sys_timeo list" where
  "timeo_insert x [] = [x]"
| "timeo_insert x [t] = [t, x]"
| "timeo_insert x (t # t' # ts) =
     (if TIME_LESS_THAN (to_time x) (to_time t') then t # x # t' # ts else t # timeo_insert x (t' # ts))"

definition sys_timeout_abs :: "u32 \<Rightarrow> sys_timeout_handler option \<Rightarrow> nat option \<Rightarrow> timers \<Rightarrow> timer_error + timers" where
  "sys_timeout_abs abs_time h arg s =
     (if timeo_free s = 0 then Inl POOL_EMPTY
      else
        let timeout = \<lparr>to_time = abs_time, to_h = h, to_arg = arg\<rparr>;
            s = s\<lparr>timeo_free := timeo_free s - 1\<rparr>
        in case next_timeout s of
             [] \<Rightarrow> Inr (s\<lparr>next_timeout := [timeout]\<rparr>)
           | t # ts \<Rightarrow>
               if TIME_LESS_THAN abs_time (to_time t) then Inr (s\<lparr>next_timeout := timeout # t # ts\<rparr>)
               else Inr (s\<lparr>next_timeout := timeo_insert timeout (t # ts)\<rparr>))"

definition sys_timeout :: "u32 \<Rightarrow> u32 \<Rightarrow> sys_timeout_handler option \<Rightarrow> nat option \<Rightarrow> timers \<Rightarrow> timer_error + timers" where
  "sys_timeout now msecs h arg s =
     (if 0x3FFFFFFF < msecs then Inl TIMEOUT_TOO_LONG
      else sys_timeout_abs (now + msecs) h arg s)"

text \<open>The search keeps the part of the list already passed; \<open>None\<close> is no match.\<close>

fun untimeout_loop :: "sys_timeout_handler option \<Rightarrow> nat option \<Rightarrow> sys_timeo list \<Rightarrow> sys_timeo list option" where
  "untimeout_loop h arg [] = None"
| "untimeout_loop h arg (t # ts) =
     (if to_h t = h \<and> to_arg t = arg then Some ts else map_option ((#) t) (untimeout_loop h arg ts))"

definition sys_untimeout :: "sys_timeout_handler option \<Rightarrow> nat option \<Rightarrow> timers \<Rightarrow> timers" where
  "sys_untimeout h arg s =
     (case untimeout_loop h arg (next_timeout s) of
        None \<Rightarrow> s
      | Some ts \<Rightarrow> s\<lparr>next_timeout := ts, timeo_free := timeo_free s + 1\<rparr>)"

section \<open>The stack's own timers\<close>

text \<open>\<open>needed\<close> is \<open>tcp_active_pcbs || tcp_tw_pcbs\<close>, after \<open>tcp_tmr\<close> in the first of the two.\<close>

definition tcpip_tcp_timer :: "u32 \<Rightarrow> bool \<Rightarrow> timers \<Rightarrow> timer_error + timers" where
  "tcpip_tcp_timer now needed s =
     (let s = log_call Call_tcp_tmr s
      in if needed then sys_timeout now TCP_TMR_INTERVAL (Some H_tcpip_tcp_timer) None s
         else Inr (s\<lparr>tcpip_tcp_timer_active := False\<rparr>))"

definition tcp_timer_needed :: "u32 \<Rightarrow> bool \<Rightarrow> timers \<Rightarrow> timer_error + timers" where
  "tcp_timer_needed now needed s =
     (if \<not> tcpip_tcp_timer_active s \<and> needed
      then sys_timeout now TCP_TMR_INTERVAL (Some H_tcpip_tcp_timer) None (s\<lparr>tcpip_tcp_timer_active := True\<rparr>)
      else Inr s)"

definition lwip_cyclic_timer :: "u32 \<Rightarrow> nat \<Rightarrow> timers \<Rightarrow> timer_error + timers" where
  "lwip_cyclic_timer now i s =
     (if length lwip_cyclic_timers \<le> i then Inl BAD_CYCLIC
      else
        let s = log_call (Cyclic_work i) s;
            interval_ms = lwip_cyclic_timers ! i;
            next_timeout_time = current_timeout_due_time s + interval_ms
        in if TIME_LESS_THAN next_timeout_time now
           then sys_timeout_abs (now + interval_ms) (Some (H_cyclic i)) (Some i) s
           else sys_timeout_abs next_timeout_time (Some (H_cyclic i)) (Some i) s)"

text \<open>\<open>sys_timeouts_init\<close> starts all cyclic timers but the first.\<close>

fun timeouts_init_loop :: "u32 \<Rightarrow> nat \<Rightarrow> u32 list \<Rightarrow> timers \<Rightarrow> timer_error + timers" where
  "timeouts_init_loop now i [] s = Inr s"
| "timeouts_init_loop now i (ms # mss) s =
     bindR (sys_timeout now ms (Some (H_cyclic i)) (Some i) s) (timeouts_init_loop now (i + 1) mss)"

definition sys_timeouts_init :: "u32 \<Rightarrow> timers \<Rightarrow> timer_error + timers" where
  "sys_timeouts_init now s = timeouts_init_loop now 1 (tl lwip_cyclic_timers) s"

section \<open>Running what is due\<close>

text \<open>What a handler finds when it runs: the clock, whether TCP still needs its timer, and the handlers of the application.\<close>

record timer_env =
  te_now :: u32
  te_tcp_needed :: bool
  te_other :: "nat \<Rightarrow> nat option \<Rightarrow> timers \<Rightarrow> timer_error + timers"

definition run_handler :: "timer_env \<Rightarrow> sys_timeout_handler option \<Rightarrow> nat option \<Rightarrow> timers \<Rightarrow> timer_error + timers" where
  "run_handler env h arg s =
     (case h of
        None \<Rightarrow> Inr s
      | Some f \<Rightarrow>
          let s = log_call (Handler_call f arg) s
          in case f of
               H_tcpip_tcp_timer \<Rightarrow> tcpip_tcp_timer (te_now env) (te_tcp_needed env) s
             | H_cyclic i \<Rightarrow> lwip_cyclic_timer (te_now env) i s
             | H_other k \<Rightarrow> te_other env k arg s)"

text \<open>One turn of the loop: unlink the first entry, release it, call its handler.\<close>

definition fire :: "timer_env \<Rightarrow> sys_timeo \<Rightarrow> sys_timeo list \<Rightarrow> timers \<Rightarrow> timer_error + timers" where
  "fire env t ts s =
     run_handler env (to_h t) (to_arg t)
       (s\<lparr>next_timeout := ts, current_timeout_due_time := to_time t, timeo_free := timeo_free s + 1\<rparr>)"

text \<open>
  \<open>sys_check_timeouts\<close>: \<open>env n\<close> is what the \<open>n\<close>-th handler called finds. A handler that re-arms itself without
  delay keeps the loop going, hence the fuel.
\<close>

fun check_timeouts_loop :: "nat \<Rightarrow> u32 \<Rightarrow> (nat \<Rightarrow> timer_env) \<Rightarrow> nat \<Rightarrow> timers \<Rightarrow> timer_error + timers" where
  "check_timeouts_loop 0 now env n s = Inl TIMER_FUEL"
| "check_timeouts_loop (Suc f) now env n s =
     (case next_timeout s of
        [] \<Rightarrow> Inr s
      | t # ts \<Rightarrow>
          if TIME_LESS_THAN now (to_time t) then Inr s
          else bindR (fire (env n) t ts s) (check_timeouts_loop f now env (Suc n)))"

definition sys_check_timeouts :: "nat \<Rightarrow> u32 \<Rightarrow> (nat \<Rightarrow> timer_env) \<Rightarrow> timers \<Rightarrow> timer_error + timers" where
  "sys_check_timeouts f now env s = check_timeouts_loop f now env 0 s"

definition sys_restart_timeouts :: "u32 \<Rightarrow> timers \<Rightarrow> timers" where
  "sys_restart_timeouts now s =
     (case next_timeout s of
        [] \<Rightarrow> s
      | t # ts \<Rightarrow> s\<lparr>next_timeout := map (\<lambda>x. x\<lparr>to_time := (to_time x - to_time t) + now\<rparr>) (t # ts)\<rparr>)"

definition sys_timeouts_sleeptime :: "u32 \<Rightarrow> timers \<Rightarrow> timer_error + u32" where
  "sys_timeouts_sleeptime now s =
     (case next_timeout s of
        [] \<Rightarrow> Inr 0xFFFFFFFF
      | t # ts \<Rightarrow>
          if TIME_LESS_THAN (to_time t) now then Inr 0
          else let ret = to_time t - now in if LWIP_MAX_TIMEOUT < ret then Inl INVALID_SLEEPTIME else Inr ret)"

section \<open>Order\<close>

text \<open>
  The clock wraps, so times are compared from a base: \<open>due base t\<close> is how long after \<open>base\<close> the entry is
  due. Entries within half the range of the clock are ordered as the code compares them.
\<close>

definition due :: "u32 \<Rightarrow> sys_timeo \<Rightarrow> u32" where
  "due base t = to_time t - base"

definition timers_ok :: "u32 \<Rightarrow> timers \<Rightarrow> bool" where
  "timers_ok base s \<longleftrightarrow> (\<forall>t \<in> set (next_timeout s). due base t \<le> LWIP_MAX_TIMEOUT) \<and> sorted (map (due base) (next_timeout s))"

lemma half_range_less:
  fixes a b :: u32
  assumes "a \<le> LWIP_MAX_TIMEOUT" "b \<le> LWIP_MAX_TIMEOUT"
  shows "LWIP_MAX_TIMEOUT < a - b \<longleftrightarrow> a < b"
proof (cases "b \<le> a")
  case True
  then have "unat (a - b) \<le> unat a" by (simp add: unat_sub)
  then show ?thesis using True assms by (simp add: word_le_nat_alt word_less_nat_alt)
next
  case False
  then have "unat (a - b) = unat a + 2 ^ 32 - unat b"
    by (simp add: unat_sub_if_size word_size word_le_nat_alt)
  then show ?thesis
    using False assms by (simp add: word_le_nat_alt word_less_nat_alt)
qed

lemma TIME_LESS_THAN_due:
  "t - base \<le> LWIP_MAX_TIMEOUT \<Longrightarrow> c - base \<le> LWIP_MAX_TIMEOUT \<Longrightarrow> TIME_LESS_THAN t c \<longleftrightarrow> t - base < c - base"
  using half_range_less [of "t - base" "c - base"] by (simp add: TIME_LESS_THAN_def)

definition insert_due :: "u32 \<Rightarrow> sys_timeo \<Rightarrow> sys_timeo list \<Rightarrow> sys_timeo list" where
  "insert_due base x ts = takeWhile (\<lambda>t. due base t \<le> due base x) ts @ x # dropWhile (\<lambda>t. due base t \<le> due base x) ts"

lemma insert_due_simps:
  "insert_due base x [] = [x]"
  "insert_due base x (t # ts) = (if due base t \<le> due base x then t # insert_due base x ts else x # t # ts)"
  by (simp_all add: insert_due_def)

lemma set_insert_due: "set (insert_due base x ts) = insert x (set ts)"
  by (induction ts) (auto simp: insert_due_simps)

lemma sorted_insert_due: "sorted (map (due base) ts) \<Longrightarrow> sorted (map (due base) (insert_due base x ts))"
  by (induction ts) (auto simp: insert_due_simps set_insert_due)

lemma timeo_insert_due:
  "\<forall>t \<in> set (x # ts). due base t \<le> LWIP_MAX_TIMEOUT \<Longrightarrow> sorted (map (due base) ts) \<Longrightarrow> ts \<noteq> [] \<Longrightarrow>
   \<not> due base x < due base (hd ts) \<Longrightarrow> timeo_insert x ts = insert_due base x ts"
proof (induction x ts rule: timeo_insert.induct)
  case (3 x t t' ts)
  have less: "TIME_LESS_THAN (to_time x) (to_time t') \<longleftrightarrow> due base x < due base t'"
    using 3(2) TIME_LESS_THAN_due [of "to_time x" base "to_time t'"] by (simp add: due_def)
  have le: "due base t \<le> due base x" using 3(5) by simp
  show ?case
  proof (cases "due base x < due base t'")
    case True
    then show ?thesis using less le by (auto simp: insert_due_simps dest: leD)
  next
    case False
    then have "timeo_insert x (t' # ts) = insert_due base x (t' # ts)" using 3 less by simp
    then show ?thesis using less le False by (simp add: insert_due_simps(2) [of base x t])
  qed
qed (simp_all add: insert_due_def)

lemma timeout_inserts:
  assumes s: "timers_ok base s" and x: "t - base \<le> LWIP_MAX_TIMEOUT" and f: "0 < timeo_free s"
  shows "\<exists>s'. sys_timeout_abs t h arg s = Inr s' \<and> timers_ok base s' \<and>
    next_timeout s' = insert_due base \<lparr>to_time = t, to_h = h, to_arg = arg\<rparr> (next_timeout s) \<and> timeo_free s' = timeo_free s - 1 \<and>
    timer_calls s' = timer_calls s"
proof -
  let ?x = "\<lparr>to_time = t, to_h = h, to_arg = arg\<rparr>" and ?l = "next_timeout s"
  let ?s = "s\<lparr>timeo_free := timeo_free s - 1, next_timeout := insert_due base ?x ?l\<rparr>"
  have w: "\<forall>t \<in> set (?x # ?l). due base t \<le> LWIP_MAX_TIMEOUT" using s x by (simp add: timers_ok_def due_def)
  have "sys_timeout_abs t h arg s = Inr ?s"
  proof (cases ?l)
    case Nil
    then show ?thesis using f by (simp add: sys_timeout_abs_def insert_due_def)
  next
    case (Cons y ys)
    have less: "TIME_LESS_THAN t (to_time y) \<longleftrightarrow> due base ?x < due base y"
      using w Cons TIME_LESS_THAN_due [of t base "to_time y"] by (simp add: due_def)
    show ?thesis
    proof (cases "due base ?x < due base y")
      case True
      then show ?thesis using f less Cons by (simp add: sys_timeout_abs_def insert_due_def)
    next
      case False
      have "timeo_insert ?x ?l = insert_due base ?x ?l"
        using w s False Cons by (intro timeo_insert_due) (auto simp: timers_ok_def)
      then show ?thesis using f less False Cons by (simp add: sys_timeout_abs_def)
    qed
  qed
  moreover have "timers_ok base ?s"
    using w s sorted_insert_due [of base ?l ?x] by (simp add: timers_ok_def set_insert_due)
  ultimately show ?thesis by (intro exI [of _ ?s]) simp
qed

text \<open>
  C24: Timers stay in the order they are due, also when the clock wraps. While all pending timers lie
  within half the range of the clock from some base, starting a timer of that range with a free element
  puts it behind everything due no later and before the rest: the list stays ordered, and no other timer is
  touched.
\<close>

theorem timeout_sorted:
  assumes s: "timers_ok base s" and x: "t - base \<le> LWIP_MAX_TIMEOUT" and f: "0 < timeo_free s"
  shows "\<exists>s'. sys_timeout_abs t h arg s = Inr s' \<and> timers_ok base s' \<and>
    next_timeout s' = insert_due base \<lparr>to_time = t, to_h = h, to_arg = arg\<rparr> (next_timeout s) \<and> timeo_free s' = timeo_free s - 1"
  using timeout_inserts [OF assms, of h arg] by blast

lemma untimeout_loop_sub: "untimeout_loop h arg ts = Some ts' \<Longrightarrow> \<exists>a t b. ts = a @ t # b \<and> ts' = a @ b \<and> to_h t = h \<and> to_arg t = arg \<and>
    (\<forall>x \<in> set a. to_h x \<noteq> h \<or> to_arg x \<noteq> arg)"
proof (induction ts arbitrary: ts')
  case (Cons t ts)
  show ?case
  proof (cases "to_h t = h \<and> to_arg t = arg")
    case True
    then show ?thesis using Cons.prems by (intro exI [of _ "[]"]) simp
  next
    case False
    then obtain us where us: "untimeout_loop h arg ts = Some us" "ts' = t # us" using Cons.prems by (auto split: if_splits)
    obtain a x b where "ts = a @ x # b" "us = a @ b" "to_h x = h" "to_arg x = arg" "\<forall>x \<in> set a. to_h x \<noteq> h \<or> to_arg x \<noteq> arg"
      using Cons.IH [OF us(1)] by blast
    then show ?thesis using us(2) False by (intro exI [of _ "t # a"] exI [of _ x] exI [of _ b]) auto
  qed
qed simp

lemma untimeout_ok: "timers_ok base s \<Longrightarrow> timers_ok base (sys_untimeout h arg s)"
  by (auto simp: sys_untimeout_def timers_ok_def sorted_wrt_append split: option.splits dest!: untimeout_loop_sub)

section \<open>Nothing due is left\<close>




lemma timers_ok_log [simp]: "timers_ok base (log_call c s) = timers_ok base s"
  by (simp add: timers_ok_def)

text \<open>The calls that running an entry makes.\<close>

definition calls_of :: "sys_timeo \<Rightarrow> timer_call list" where
  "calls_of t =
     (case to_h t of
        None \<Rightarrow> []
      | Some h \<Rightarrow> Handler_call h (to_arg t) #
          (case h of H_tcpip_tcp_timer \<Rightarrow> [Call_tcp_tmr] | H_cyclic i \<Rightarrow> [Cyclic_work i] | H_other k \<Rightarrow> []))"













section \<open>The cyclic timers\<close>

text \<open>Polling the list at several times, each with what the handlers find then.\<close>

fun poll_all :: "nat \<Rightarrow> (u32 \<times> (nat \<Rightarrow> timer_env)) list \<Rightarrow> timers \<Rightarrow> timer_error + timers" where
  "poll_all f [] s = Inr s"
| "poll_all f ((now, env) # ps) s = bindR (sys_check_timeouts f now env s) (poll_all f ps)"

definition arp_timeo :: "u32 \<Rightarrow> sys_timeo" where
  "arp_timeo d = \<lparr>to_time = d, to_h = Some (H_cyclic 1), to_arg = Some 1\<rparr>"

lemma late_sub:
  fixes x y :: u32
  shows "unat y \<le> 1000 \<Longrightarrow> 1000 - y \<le> LWIP_MAX_TIMEOUT" "unat x < 1000 \<Longrightarrow> LWIP_MAX_TIMEOUT < x - 1000" "unat x < 1000 \<Longrightarrow> x \<le> LWIP_MAX_TIMEOUT"
proof -
  show "unat y \<le> 1000 \<Longrightarrow> 1000 - y \<le> LWIP_MAX_TIMEOUT"
    using unat_sub [of y 1000] by (simp add: word_le_nat_alt)
  show "unat x < 1000 \<Longrightarrow> LWIP_MAX_TIMEOUT < x - 1000"
    by (simp add: word_less_nat_alt unat_sub_if_size word_size)
  show "unat x < 1000 \<Longrightarrow> x \<le> LWIP_MAX_TIMEOUT" by (simp add: word_le_nat_alt)
qed

lemma arp_poll:
  assumes l: "next_timeout s = [arp_timeo d]" and now: "unat (now - d) < 1000" and h: "unat (te_now (env 0) - d) \<le> 1000"
  shows "\<exists>s'. sys_check_timeouts 2 now env s = Inr s' \<and> next_timeout s' = [arp_timeo (d + 1000)] \<and>
    timer_calls s' = timer_calls s @ calls_of (arp_timeo d)"
proof -
  have "\<not> TIME_LESS_THAN now d" using late_sub(3) [OF now] by (simp add: TIME_LESS_THAN_def)
  moreover have "\<not> TIME_LESS_THAN (d + 1000) (te_now (env 0))"
    using late_sub(1) [OF h] by (simp add: TIME_LESS_THAN_def algebra_simps)
  moreover have "TIME_LESS_THAN now (d + 1000)"
    using late_sub(2) [OF now] by (simp add: TIME_LESS_THAN_def algebra_simps)
  ultimately show ?thesis
    using l by (simp add: sys_check_timeouts_def numeral_2_eq_2 arp_timeo_def fire_def run_handler_def lwip_cyclic_timer_def
        lwip_cyclic_timers_def sys_timeout_abs_def Let_def calls_of_def)
qed

text \<open>
  The ARP timer does not drift. Polled once in every period (the \<open>i\<close>-th time less than 1000 ms after
  the \<open>i\<close>-th due time, with the handler running no later than one period after it), the timer runs at every poll, and after \<open>k\<close> polls
  it is due exactly \<open>k\<close> periods after its first due time: delays do not add up, also when the clock
  wraps.
\<close>

lemma arp_timer_periodic:
  assumes l: "next_timeout s = [arp_timeo d]"
    and p: "\<forall>i < length ps. unat (fst (ps ! i) - (d + of_nat i * 1000)) < 1000 \<and>
      unat (te_now (snd (ps ! i) 0) - (d + of_nat i * 1000)) \<le> 1000"
  shows "\<exists>s'. poll_all 2 ps s = Inr s' \<and> next_timeout s' = [arp_timeo (d + of_nat (length ps) * 1000)] \<and>
    timer_calls s' = timer_calls s @ concat (replicate (length ps) (calls_of (arp_timeo 0)))"
  using assms
proof (induction ps arbitrary: s d)
  case Nil
  then show ?case by simp
next
  case (Cons q ps)
  obtain now env where q: "q = (now, env)" by fastforce
  have "unat (now - d) < 1000" "unat (te_now (env 0) - d) \<le> 1000" using Cons.prems(2) q by auto
  then obtain s1 where s1: "sys_check_timeouts 2 now env s = Inr s1" "next_timeout s1 = [arp_timeo (d + 1000)]"
      "timer_calls s1 = timer_calls s @ calls_of (arp_timeo d)"
    using arp_poll [OF Cons.prems(1)] by blast
  have "unat (fst (ps ! i) - (d + 1000 + of_nat i * 1000)) < 1000 \<and> unat (te_now (snd (ps ! i) 0) - (d + 1000 + of_nat i * 1000)) \<le> 1000"
    if "i < length ps" for i
    using spec [OF Cons.prems(2), of "Suc i"] that by (simp add: algebra_simps)
  then obtain s2 where s2: "poll_all 2 ps s1 = Inr s2" "next_timeout s2 = [arp_timeo (d + 1000 + of_nat (length ps) * 1000)]"
      "timer_calls s2 = timer_calls s1 @ concat (replicate (length ps) (calls_of (arp_timeo 0)))"
    using Cons.IH [OF s1(2)] by blast
  have "calls_of (arp_timeo d) = calls_of (arp_timeo 0)" by (simp add: calls_of_def arp_timeo_def)
  then show ?case using q s1 s2 by (simp add: algebra_simps)
qed

section \<open>The TCP timer\<close>

lemma timeo_insert_mset: "mset (timeo_insert x ts) = add_mset x (mset ts)"
  by (induction x ts rule: timeo_insert.induct) auto

lemma sys_timeout_abs_mset:
  "sys_timeout_abs t h arg s = Inr s' \<Longrightarrow>
   mset (next_timeout s') = add_mset \<lparr>to_time = t, to_h = h, to_arg = arg\<rparr> (mset (next_timeout s)) \<and>
   tcpip_tcp_timer_active s' = tcpip_tcp_timer_active s"
  by (auto simp: sys_timeout_abs_def Let_def timeo_insert_mset simp del: timeo_insert.simps split: if_splits list.splits)

definition tcp_timers :: "timers \<Rightarrow> nat" where
  "tcp_timers s = size (filter_mset (\<lambda>t. to_h t = Some H_tcpip_tcp_timer) (mset (next_timeout s)))"

lemma tcp_timers_log [simp]: "tcp_timers (log_call c s) = tcp_timers s"
  by (simp add: tcp_timers_def)

definition tcp_timer_inv :: "timers \<Rightarrow> bool" where
  "tcp_timer_inv s \<longleftrightarrow> tcp_timers s = (if tcpip_tcp_timer_active s then 1 else 0)"

text \<open>What happens to the timers, with handlers of the application that leave the TCP timer alone.\<close>

inductive timer_step :: "timers \<Rightarrow> timers \<Rightarrow> bool" where
  needed: "tcp_timer_needed now b s = Inr s' \<Longrightarrow> timer_step s s'"
| start: "sys_timeout now ms h arg s = Inr s' \<Longrightarrow> h \<noteq> Some H_tcpip_tcp_timer \<Longrightarrow> timer_step s s'"
| stop: "h \<noteq> Some H_tcpip_tcp_timer \<Longrightarrow> timer_step s (sys_untimeout h arg s)"
| run: "next_timeout s = t # ts \<Longrightarrow> fire env t ts s = Inr s' \<Longrightarrow> (\<forall>k. to_h t \<noteq> Some (H_other k)) \<Longrightarrow> timer_step s s'"
| restart: "timer_step s (sys_restart_timeouts now s)"

lemma sys_timeout_tcp:
  "sys_timeout now ms h arg s = Inr s' \<Longrightarrow>
   tcp_timers s' = tcp_timers s + (if h = Some H_tcpip_tcp_timer then 1 else 0) \<and> tcpip_tcp_timer_active s' = tcpip_tcp_timer_active s"
  using sys_timeout_abs_mset [of "now + ms" h arg s s'] by (auto simp: sys_timeout_def tcp_timers_def split: if_splits)

lemma sys_timeout_abs_tcp:
  "sys_timeout_abs t h arg s = Inr s' \<Longrightarrow>
   tcp_timers s' = tcp_timers s + (if h = Some H_tcpip_tcp_timer then 1 else 0) \<and> tcpip_tcp_timer_active s' = tcpip_tcp_timer_active s"
  using sys_timeout_abs_mset [of t h arg s s'] by (auto simp: tcp_timers_def)

text \<open>
  The TCP timer is armed at most once. Over every sequence of starting and stopping timers,
  demands of TCP, runs of the stack's handlers and rebasing, the list holds exactly one TCP timer when
  the stack believes it active and none otherwise.
\<close>

lemma tcp_timer_once:
  assumes "timer_step\<^sup>*\<^sup>* s s'" and "tcp_timer_inv s"
  shows "tcp_timer_inv s'"
  using assms
proof (induction rule: rtranclp_induct)
  case base
  then show ?case .
next
  case (step y z)
  from step.hyps(2) step.IH [OF step.prems] show ?case
  proof (cases rule: timer_step.cases)
    case (needed now b)
    then show ?thesis
      using step.IH [OF step.prems] sys_timeout_tcp [of now 250 "Some H_tcpip_tcp_timer" None _ z]
      by (auto simp: tcp_timer_needed_def tcp_timer_inv_def tcp_timers_def split: if_splits)
  next
    case (start now ms h arg)
    then show ?thesis using step.IH [OF step.prems] sys_timeout_tcp [of now ms h arg y z] by (simp add: tcp_timer_inv_def)
  next
    case (stop h arg)
    then show ?thesis
      using step.IH [OF step.prems]
      by (auto simp: sys_untimeout_def tcp_timer_inv_def tcp_timers_def split: option.splits dest!: untimeout_loop_sub)
  next
    case (run t ts env)
    let ?y = "y\<lparr>next_timeout := ts, current_timeout_due_time := to_time t, timeo_free := timeo_free y + 1\<rparr>"
    let ?l = "log_call (Handler_call (the (to_h t)) (to_arg t)) ?y"
    have y: "tcp_timers y = tcp_timers ?y + (if to_h t = Some H_tcpip_tcp_timer then 1 else 0)"
      using run(1) by (simp add: tcp_timers_def)
    consider "to_h t = None" | "to_h t = Some H_tcpip_tcp_timer" | i where "to_h t = Some (H_cyclic i)"
      using run(3) by (metis not_None_eq sys_timeout_handler.exhaust)
    then show ?thesis
    proof cases
      case 1
      then show ?thesis using run(2) y step.IH [OF step.prems] by (auto simp: fire_def run_handler_def tcp_timer_inv_def)
    next
      case 2
      have z: "tcpip_tcp_timer (te_now env) (te_tcp_needed env) ?l = Inr z"
        using run(2) 2 by (simp add: fire_def run_handler_def)
      show ?thesis
      proof (cases "te_tcp_needed env")
        case True
        then have "sys_timeout (te_now env) 250 (Some H_tcpip_tcp_timer) None (log_call Call_tcp_tmr ?l) = Inr z" using z by (simp add: tcpip_tcp_timer_def)
        then show ?thesis using y 2 step.IH [OF step.prems] sys_timeout_tcp by (fastforce simp: tcp_timer_inv_def)
      next
        case False
        then show ?thesis using z y 2 step.IH [OF step.prems]
          by (auto simp: tcpip_tcp_timer_def tcp_timer_inv_def tcp_timers_def split: if_splits)
      qed
    next
      case (3 i)
      have z: "\<exists>t. sys_timeout_abs t (Some (H_cyclic i)) (Some i) (log_call (Cyclic_work i) ?l) = Inr z"
        using run(2) 3 by (auto simp: fire_def run_handler_def lwip_cyclic_timer_def Let_def split: if_splits)
      then show ?thesis using y 3 step.IH [OF step.prems] sys_timeout_abs_tcp by (fastforce simp: tcp_timer_inv_def)
    qed
  next
    case (restart now)
    have "size (filter_mset (\<lambda>t. to_h t = Some H_tcpip_tcp_timer) (image_mset (\<lambda>x. x\<lparr>to_time := to_time x - c + now\<rparr>) M)) =
        size (filter_mset (\<lambda>t. to_h t = Some H_tcpip_tcp_timer) M)" for c M
      by (induction M) auto
    then have "tcp_timers (sys_restart_timeouts now y) = tcp_timers y"
      by (cases "next_timeout y") (simp_all add: sys_restart_timeouts_def tcp_timers_def)
    then show ?thesis
      using restart step.IH [OF step.prems] by (auto simp: tcp_timer_inv_def sys_restart_timeouts_def split: list.splits)
  qed
qed

section \<open>Examples\<close>

definition timers0 :: timers where
  "timers0 = \<lparr>next_timeout = [arp_timeo 5, arp_timeo 0x20], current_timeout_due_time = 0, tcpip_tcp_timer_active = False, timeo_free = 28, timer_calls = []\<rparr>"

theorem timeout_sorted_witness:
  "\<exists>s'. sys_timeout_abs 0xFFFFFFFE (Some (H_other 3)) None
     (timers0\<lparr>next_timeout := [arp_timeo 0xFFFFFFF0, arp_timeo 5]\<rparr>) = Inr s' \<and>
     map to_time (next_timeout s') = [0xFFFFFFF0, 0xFFFFFFFE, 5]"
proof -
  let ?s = "timers0\<lparr>next_timeout := [arp_timeo 0xFFFFFFF0, arp_timeo 5]\<rparr>"
  have h: "timers_ok 0xFFFFFF00 ?s" "(0xFFFFFFFE :: u32) - 0xFFFFFF00 \<le> 0x7FFFFFFF" "0 < timeo_free ?s"
    by (simp_all add: timers_ok_def due_def arp_timeo_def timers0_def)
  then show ?thesis
    using timeout_sorted [OF h, of "Some (H_other 3)" None] by (auto simp: insert_due_simps due_def arp_timeo_def)
qed

definition timer_env0 :: timer_env where
  "timer_env0 = \<lparr>te_now = 9, te_tcp_needed = False, te_other = (\<lambda>k arg s. Inr s)\<rparr>"


lemma arp_timer_periodic_witness:
  "\<exists>s'. poll_all 2 [(0xFFFFFFF8, \<lambda>n. timer_env0\<lparr>te_now := 0xFFFFFFF9\<rparr>), (0x3E0, \<lambda>n. timer_env0\<lparr>te_now := 0x3F0\<rparr>)]
       (timers0\<lparr>next_timeout := [arp_timeo 0xFFFFFFF0]\<rparr>) = Inr s' \<and> next_timeout s' = [arp_timeo 0x7C0]"
proof -
  let ?ps = "[(0xFFFFFFF8 :: u32, \<lambda>n :: nat. timer_env0\<lparr>te_now := 0xFFFFFFF9\<rparr>), (0x3E0, \<lambda>n. timer_env0\<lparr>te_now := 0x3F0\<rparr>)]"
  have l: "next_timeout (timers0\<lparr>next_timeout := [arp_timeo 0xFFFFFFF0]\<rparr>) = [arp_timeo 0xFFFFFFF0]" by simp
  have p: "\<forall>i < length ?ps. unat (fst (?ps ! i) - (0xFFFFFFF0 + of_nat i * 1000)) < 1000 \<and>
      unat (te_now (snd (?ps ! i) 0) - (0xFFFFFFF0 + of_nat i * 1000)) \<le> 1000"
    by (auto simp: less_Suc_eq nth_Cons')
  have m: "arp_timeo (0xFFFFFFF0 + of_nat (length ?ps) * 1000) = arp_timeo 0x7C0" by (simp add: arp_timeo_def)
  show ?thesis
    using arp_timer_periodic [OF l p] unfolding m by blast
qed



lemma tcp_timer_once_witness:
  "\<exists>s. tcp_timer_needed 7 True timers0 = Inr s \<and> tcp_timer_inv s \<and> tcp_timers s = 1"
proof -
  obtain s where s: "tcp_timer_needed 7 True timers0 = Inr s" "tcpip_tcp_timer_active s"
    by (simp add: tcp_timer_needed_def sys_timeout_def sys_timeout_abs_def timers0_def arp_timeo_def TIME_LESS_THAN_def)
  have "tcp_timer_inv timers0" by (simp add: tcp_timer_inv_def tcp_timers_def timers0_def arp_timeo_def)
  then have "tcp_timer_inv s" using tcp_timer_once [of timers0 s] timer_step.needed [OF s(1)] by blast
  then show ?thesis using s by (auto simp: tcp_timer_inv_def)
qed

end
