(* ===== verification/InetChksum.thy ===== *)
theory InetChksum
  imports LwipDef PbufProps
begin

text \<open>
  \<open>lwip/core/inet_chksum.c\<close>: the Internet checksum. The data is the list of its bytes; whether its
  address is odd, or where it lies in its word, is an argument, since two of the three versions of
  \<open>lwip_standard_chksum\<close> depend on it. Version 2 is the one this configuration compiles.
\<close>

section \<open>The three versions\<close>

definition FOLD_U32T :: "u32 \<Rightarrow> u32" where
  "FOLD_U32T u = drop_bit 16 u + (u AND 0xFFFF)"

definition SWAP_BYTES_IN_WORD :: "u32 \<Rightarrow> u32" where
  "SWAP_BYTES_IN_WORD w = push_bit 8 (w AND 0xFF) OR drop_bit 8 (w AND 0xFF00)"

text \<open>Version 1: bytes in network order.\<close>

fun chksum1_loop :: "u32 \<Rightarrow> u8 list \<Rightarrow> u32" where
  "chksum1_loop acc [] = acc"
| "chksum1_loop acc [a] = acc + ucast (push_bit 8 (ucast a) :: u16)"
| "chksum1_loop acc (a # b # bs) = chksum1_loop (acc + ucast (push_bit 8 (ucast a) OR ucast b :: u16)) bs"

definition lwip_standard_chksum1 :: "u8 list \<Rightarrow> u16" where
  "lwip_standard_chksum1 bs =
     (let acc = chksum1_loop 0 bs;
          acc = drop_bit 16 acc + (acc AND 0xFFFF);
          acc = (if acc AND 0xFFFF0000 \<noteq> 0 then drop_bit 16 acc + (acc AND 0xFFFF) else acc)
      in lwip_htons (ucast acc))"

text \<open>Version 2: 16-bit words of the machine; the result of the loop is the sum and what is left.\<close>

fun half_loop :: "u32 \<Rightarrow> u8 list \<Rightarrow> u32 \<times> u8 list" where
  "half_loop acc (a # b # bs) = half_loop (acc + ucast (le16 a b)) bs"
| "half_loop acc bs = (acc, bs)"

definition odd_byte :: "bool \<Rightarrow> u8 list \<Rightarrow> u16 \<times> u8 list" where
  "odd_byte odd_addr bs = (if odd_addr \<and> bs \<noteq> [] then (le16 0 (hd bs), tl bs) else (0, bs))"

definition tail_byte :: "u16 \<Rightarrow> u8 list \<Rightarrow> u16" where
  "tail_byte t rest = (if rest \<noteq> [] then le16 (hd rest) (ucast (drop_bit 8 t)) else t)"

definition lwip_standard_chksum :: "bool \<Rightarrow> u8 list \<Rightarrow> u16" where
  "lwip_standard_chksum odd_addr bs =
     (let (t, bs) = odd_byte odd_addr bs;
          (acc, rest) = half_loop 0 bs;
          t = tail_byte t rest;
          acc = acc + ucast t;
          acc = FOLD_U32T acc;
          acc = FOLD_U32T acc;
          acc = (if odd_addr then SWAP_BYTES_IN_WORD acc else acc)
      in ucast acc)"

text \<open>Version 3: eight bytes at a time, adding the carry back.\<close>

definition add_carry :: "u32 \<Rightarrow> u32 \<Rightarrow> u32" where
  "add_carry acc w = (let tmp = acc + w in if tmp < acc then tmp + 1 else tmp)"

fun quad_loop :: "u32 \<Rightarrow> u8 list \<Rightarrow> u32 \<times> u8 list" where
  "quad_loop acc (a # b # c # d # e # f # g # h # bs) =
     quad_loop (add_carry (add_carry acc (le32 a b c d)) (le32 e f g h)) bs"
| "quad_loop acc bs = (acc, bs)"

definition half_step :: "bool \<Rightarrow> u8 list \<Rightarrow> u32 \<times> u8 list" where
  "half_step unaligned bs =
     (case bs of a # b # r \<Rightarrow> if unaligned then (ucast (le16 a b), r) else (0, bs) | _ \<Rightarrow> (0, bs))"

text \<open>\<open>addr\<close> is the address modulo 4.\<close>

definition lwip_standard_chksum3 :: "nat \<Rightarrow> u8 list \<Rightarrow> u16" where
  "lwip_standard_chksum3 addr bs =
     (let odd_addr = (addr mod 2 = 1);
          (t, bs') = odd_byte odd_addr bs;
          addr' = addr + (length bs - length bs');
          (acc, bs) = half_step (addr' mod 4 \<noteq> 0) bs';
          (acc, bs) = quad_loop acc bs;
          acc = FOLD_U32T acc;
          (acc, rest) = half_loop acc bs;
          t = tail_byte t rest;
          acc = acc + ucast t;
          acc = FOLD_U32T acc;
          acc = FOLD_U32T acc;
          acc = (if odd_addr then SWAP_BYTES_IN_WORD acc else acc)
      in ucast acc)"

definition inet_chksum :: "bool \<Rightarrow> u8 list \<Rightarrow> u16" where
  "inet_chksum odd_addr bs = NOT (lwip_standard_chksum odd_addr bs)"

section \<open>Chains\<close>

text \<open>The address of the payload of a buffer is that of its block, here even, plus the offset.\<close>

definition seg_chksum :: "pbuf \<Rightarrow> u8 list \<Rightarrow> u16" where
  "seg_chksum q bs = lwip_standard_chksum (odd (pf_off q)) bs"

fun chksum_chain_loop :: "pbuf list \<Rightarrow> u32 \<Rightarrow> bool \<Rightarrow> u32 \<times> bool" where
  "chksum_chain_loop [] acc swapped = (acc, swapped)"
| "chksum_chain_loop (q # qs) acc swapped =
     (let acc = acc + ucast (seg_chksum q (seg_bytes q));
          acc = FOLD_U32T acc
      in if plen q mod 2 \<noteq> 0 then chksum_chain_loop qs (SWAP_BYTES_IN_WORD acc) (\<not> swapped)
         else chksum_chain_loop qs acc swapped)"

definition inet_chksum_pbuf :: "pbuf list \<Rightarrow> u16" where
  "inet_chksum_pbuf p =
     (let (acc, swapped) = chksum_chain_loop p 0 False;
          acc = (if swapped then SWAP_BYTES_IN_WORD acc else acc)
      in NOT (ucast (acc AND 0xFFFF)))"

definition inet_cksum_pseudo_base :: "pbuf list \<Rightarrow> u8 \<Rightarrow> u16 \<Rightarrow> u32 \<Rightarrow> u16" where
  "inet_cksum_pseudo_base p proto proto_len acc =
     (let (acc, swapped) = chksum_chain_loop p acc False;
          acc = (if swapped then SWAP_BYTES_IN_WORD acc else acc);
          acc = acc + ucast (lwip_htons (ucast proto));
          acc = acc + ucast (lwip_htons proto_len);
          acc = FOLD_U32T acc;
          acc = FOLD_U32T acc
      in NOT (ucast (acc AND 0xFFFF)))"

definition pseudo_acc :: "u32 \<Rightarrow> u32 \<Rightarrow> u32" where
  "pseudo_acc src dest =
     (let acc = (src AND 0xFFFF);
          acc = acc + (drop_bit 16 src AND 0xFFFF);
          acc = acc + (dest AND 0xFFFF);
          acc = acc + (drop_bit 16 dest AND 0xFFFF)
      in FOLD_U32T (FOLD_U32T acc))"

definition inet_chksum_pseudo :: "pbuf list \<Rightarrow> u8 \<Rightarrow> u16 \<Rightarrow> u32 \<Rightarrow> u32 \<Rightarrow> u16" where
  "inet_chksum_pseudo p proto proto_len src dest = inet_cksum_pseudo_base p proto proto_len (pseudo_acc src dest)"

text \<open>The partial version sums the first \<open>chksum_len\<close> bytes; \<open>None\<close> is its assertion.\<close>

fun chksum_partial_loop :: "pbuf list \<Rightarrow> nat \<Rightarrow> u32 \<Rightarrow> bool \<Rightarrow> (u32 \<times> bool) option" where
  "chksum_partial_loop [] chksum_len acc swapped = Some (acc, swapped)"
| "chksum_partial_loop (q # qs) chksum_len acc swapped =
     (if chksum_len = 0 then Some (acc, swapped)
      else
        let chklen = min (plen q) chksum_len;
            acc = acc + ucast (seg_chksum q (take chklen (seg_bytes q)));
            acc = FOLD_U32T acc
        in if 0x7FFF \<le> chksum_len - chklen then None
           else if plen q mod 2 \<noteq> 0 then chksum_partial_loop qs (chksum_len - chklen) (SWAP_BYTES_IN_WORD acc) (\<not> swapped)
           else chksum_partial_loop qs (chksum_len - chklen) acc swapped)"

definition inet_cksum_pseudo_partial_base :: "pbuf list \<Rightarrow> u8 \<Rightarrow> u16 \<Rightarrow> u16 \<Rightarrow> u32 \<Rightarrow> u16 option" where
  "inet_cksum_pseudo_partial_base p proto proto_len chksum_len acc =
     (case chksum_partial_loop p (unat chksum_len) acc False of
        None \<Rightarrow> None
      | Some (acc, swapped) \<Rightarrow>
          let acc = (if swapped then SWAP_BYTES_IN_WORD acc else acc);
              acc = acc + ucast (lwip_htons (ucast proto));
              acc = acc + ucast (lwip_htons proto_len);
              acc = FOLD_U32T acc;
              acc = FOLD_U32T acc
          in Some (NOT (ucast (acc AND 0xFFFF))))"

definition inet_chksum_pseudo_partial :: "pbuf list \<Rightarrow> u8 \<Rightarrow> u16 \<Rightarrow> u16 \<Rightarrow> u32 \<Rightarrow> u32 \<Rightarrow> u16 option" where
  "inet_chksum_pseudo_partial p proto proto_len chksum_len src dest =
     inet_cksum_pseudo_partial_base p proto proto_len chksum_len (pseudo_acc src dest)"

text \<open>\<open>lwip_chksum_copy\<close>: copies, then sums the copy.\<close>

definition lwip_chksum_copy :: "u8 list \<Rightarrow> nat \<Rightarrow> u8 list \<Rightarrow> u8 list \<times> u16" where
  "lwip_chksum_copy m dst bs = (st_bytes m dst bs, lwip_standard_chksum (odd dst) bs)"

section \<open>One's complement sums\<close>

text \<open>The plain sum of the 16-bit words, low byte first, and its representative among the 16-bit sums.\<close>

fun sum16 :: "u8 list \<Rightarrow> nat" where
  "sum16 [] = 0"
| "sum16 [a] = unat a"
| "sum16 (a # b # bs) = unat a + 256 * unat b + sum16 bs"

definition ones :: "nat \<Rightarrow> nat" where
  "ones n = (if n = 0 then 0 else (n - 1) mod 65535 + 1)"

lemma ones_le: "ones n \<le> 65535"
  by (simp add: ones_def Suc_le_eq)

lemma ones_id: "n \<le> 65535 \<Longrightarrow> ones n = n"
  by (simp add: ones_def)

lemma ones_0 [simp]: "ones 0 = 0" "ones n = 0 \<longleftrightarrow> n = 0"
  by (simp_all add: ones_def)

lemma ones_mod: "ones n mod 65535 = n mod 65535"
proof (cases "n = 0")
  case False
  then have "((n - 1) mod 65535 + 1) mod 65535 = (n - 1 + 1) mod 65535" by (simp only: mod_add_left_eq)
  then show ?thesis using False by (simp add: ones_def)
qed simp

lemma ones_cong: "n mod 65535 = m mod 65535 \<Longrightarrow> (n = 0 \<longleftrightarrow> m = 0) \<Longrightarrow> ones n = ones m"
proof -
  assume h: "n mod 65535 = m mod 65535" "n = 0 \<longleftrightarrow> m = 0"
  show ?thesis
  proof (cases "n = 0")
    case False
    have "(ones n) mod 65535 = (ones m) mod 65535" using h(1) by (simp add: ones_mod)
    moreover have "1 \<le> ones n" "ones n \<le> 65535" "1 \<le> ones m" "ones m \<le> 65535"
      using False h(2) ones_le by (simp_all add: ones_def)
    ultimately show ?thesis by (metis Suc_eq_plus1 Suc_leI le_neq_implies_less mod_less mod_self le_zero_eq less_one not_less)
  qed (use h in simp)
qed

lemma ones_ones_add: "ones (ones n + m) = ones (n + m)" "ones (m + ones n) = ones (m + n)"
  by (auto intro!: ones_cong) (metis mod_add_left_eq mod_add_right_eq ones_mod)+

lemma ones_mult: "ones (k * ones n) = ones (k * n)"
  by (auto intro!: ones_cong) (metis mod_mult_right_eq ones_mod)

lemma ones_65536: "ones (65536 * n + m) = ones (n + m)"
proof (rule ones_cong)
  have "65536 * n + m = 65535 * n + (n + m)" by simp
  then show "(65536 * n + m) mod 65535 = (n + m) mod 65535" by (metis mod_mult_self4)
qed auto

lemma sum16_Cons: "ones (sum16 (a # bs)) = ones (unat a + 256 * sum16 bs)"
proof (induction bs arbitrary: a rule: sum16.induct)
  case (3 b c bs)
  have "ones (sum16 (a # b # c # bs)) = ones (unat a + 256 * unat b + ones (sum16 (c # bs)))"
    by (simp add: ones_ones_add)
  also have "\<dots> = ones (unat a + 256 * unat b + (unat c + 256 * sum16 bs))"
    by (simp only: "3.IH" ones_ones_add)
  also have "\<dots> = ones (65536 * unat c + (unat a + 256 * unat b + 256 * sum16 bs))"
    by (subst ones_65536) (simp add: ac_simps)
  finally show ?case by (simp add: algebra_simps)
qed simp_all

lemma sum16_append: "ones (sum16 (xs @ ys)) = ones (sum16 xs + (if odd (length xs) then 256 else 1) * sum16 ys)"
proof (induction xs rule: sum16.induct)
  case (2 a)
  then show ?case using sum16_Cons [of a ys] by simp
next
  case (3 a b xs)
  have "ones (sum16 ((a # b # xs) @ ys)) = ones (unat a + 256 * unat b + ones (sum16 (xs @ ys)))"
    by (simp add: ones_ones_add)
  then show ?case using 3 ones_ones_add(2) [of "unat a + 256 * unat b"] by (simp add: add.assoc)
qed simp

lemma sum16_0: "sum16 bs = 0 \<longleftrightarrow> set bs \<subseteq> {0}"
  by (induction bs rule: sum16.induct) (auto simp: unat_eq_zero)

lemma sum16_bound: "sum16 bs \<le> 65535 * ((length bs + 1) div 2)"
proof (induction bs rule: sum16.induct)
  case (2 a)
  then show ?case using unat_u8_le [of a] by simp
next
  case (3 a b bs)
  then show ?case using unat_u8_le [of a] unat_u8_le [of b] by simp
qed simp

lemma sum16_bound_odd: "sum16 bs \<le> 65535 * (length bs div 2) + 255"
proof (induction bs rule: sum16.induct)
  case (2 a)
  then show ?case using unat_u8_le [of a] by simp
next
  case (3 a b bs)
  then show ?case using unat_u8_le [of a] unat_u8_le [of b] by simp
qed simp

section \<open>Words\<close>

lemma unat_and_half: "unat (u AND 0xFFFF :: u32) = unat u mod 65536"
proof -
  have "(0xFFFF :: u32) = mask 16" by (simp add: mask_eq_exp_minus_1)
  then show ?thesis by (simp only: take_bit_eq_mask [symmetric] unsigned_take_bit_eq) (simp add: take_bit_eq_mod)
qed

lemma unat_FOLD: "unat (FOLD_U32T u) = unat u div 65536 + unat u mod 65536"
proof -
  have "unat u div 65536 < 65536" using unsigned_less [of u] by (intro less_mult_imp_div_less) simp
  moreover have "unat u mod 65536 < 65536" by simp
  ultimately have "unat u div 65536 + unat u mod 65536 < 4294967296" by linarith
  then show ?thesis
    by (simp add: FOLD_U32T_def unat_word_ariths unat_and_half unat_drop_bit_eq drop_bit_eq_div)
qed

lemma ones_FOLD: "ones (unat (FOLD_U32T u)) = ones (unat u)"
  using ones_65536 [of "unat u div 65536" "unat u mod 65536"] by (simp add: unat_FOLD ac_simps)

lemma FOLD_bound: "unat (FOLD_U32T u) \<le> 131070" "unat u \<le> 131070 \<Longrightarrow> unat (FOLD_U32T u) \<le> 65535"
proof -
  have d: "unat u = 65536 * (unat u div 65536) + unat u mod 65536" "unat u mod 65536 < 65536" by simp_all
  have q: "unat u div 65536 < 65536" using unsigned_less [of u] by (intro less_mult_imp_div_less) simp
  show "unat (FOLD_U32T u) \<le> 131070" unfolding unat_FOLD using d(2) q by linarith
  show "unat (FOLD_U32T u) \<le> 65535" if "unat u \<le> 131070"
  proof (cases "unat u div 65536 = 0")
    case True
    then show ?thesis unfolding unat_FOLD using d(2) by linarith
  next
    case False
    then have "1 \<le> unat u div 65536" by linarith
    then show ?thesis unfolding unat_FOLD using d that by linarith
  qed
qed

lemma FOLD_FOLD: "unat (FOLD_U32T (FOLD_U32T u)) = ones (unat u)"
  using ones_id [OF FOLD_bound(2) [OF FOLD_bound(1) [of u]]] by (simp add: ones_FOLD)

lemma word32_bytes: obtains a b c d where "w = le32 a b c d"
  using le32_bytes32 [of w] by metis

lemma SWAP_le32: "SWAP_BYTES_IN_WORD (le32 a b c d) = le32 b a 0 0"
proof (rule bit_word_eqI)
  fix n :: nat
  assume "n < LENGTH(32)"
  then consider "n < 8" | "8 \<le> n" "n < 16" | "16 \<le> n" "n < 24" | "24 \<le> n" "n < 32"
    by fastforce
  then show "bit (SWAP_BYTES_IN_WORD (le32 a b c d)) n = bit (le32 b a 0 0) n"
    unfolding SWAP_BYTES_IN_WORD_def byte_masks32
    by cases (auto simp: le32_def bit_simps)
qed

lemma unat_SWAP:
  assumes "unat w \<le> 65535"
  shows "unat (SWAP_BYTES_IN_WORD w) = ones (256 * unat w)"
proof -
  obtain a b c d where w: "w = le32 a b c d" by (rule word32_bytes)
  have z: "unat c = 0" "unat d = 0" using assms unfolding w unat_le32 by linarith+
  have "ones (256 * unat w) = ones (65536 * unat b + 256 * unat a)" by (simp add: w unat_le32 z algebra_simps)
  also have "\<dots> = ones (unat b + 256 * unat a)" by (rule ones_65536)
  also have "\<dots> = unat b + 256 * unat a" using unat_u8_le [of a] unat_u8_le [of b] by (intro ones_id) linarith
  finally show ?thesis by (simp add: w SWAP_le32 unat_le32)
qed

lemma unat_ucast_16: "unat u \<le> 65535 \<Longrightarrow> unat (ucast (u :: u32) :: u16) = unat u"
  by (simp add: unat_ucast_32_16)

section \<open>The versions agree\<close>

lemma half_loop_sum:
  "unat acc + sum16 bs < 4294967296 \<Longrightarrow> half_loop acc bs = (s, rest) \<Longrightarrow>
   unat s + sum16 rest = unat acc + sum16 bs \<and> length rest \<le> 1"
proof (induction acc bs rule: half_loop.induct)
  case (1 acc a b bs)
  have "unat (acc + ucast (le16 a b)) = unat acc + (unat a + 256 * unat b)"
    using "1.prems"(1) by (simp add: unat_word_ariths unat_le16)
  then show ?case using 1 by (simp add: ac_simps)
qed auto

lemma high_le16: "ucast (drop_bit 8 (le16 a b)) = b"
  using bytes16_le16 [of a b] by (simp add: bytes16_def)

lemma tail_byte_sum: "length rest \<le> 1 \<Longrightarrow> unat (tail_byte (le16 0 b) rest) = 256 * unat b + sum16 rest"
  by (cases rest) (auto simp: tail_byte_def unat_le16 high_le16)

lemma le16_00: "le16 0 0 = 0"
  by (simp add: le16_def)

text \<open>The two ends of versions 2 and 3.\<close>

lemma chksum_end:
  assumes "unat s + sum16 rest + 256 * unat b < 4294967296" "length rest \<le> 1"
    "\<not> odd_addr \<Longrightarrow> b = 0"
  shows "unat (ucast (if odd_addr then SWAP_BYTES_IN_WORD (FOLD_U32T (FOLD_U32T (s + ucast (tail_byte (le16 0 b) rest))))
            else FOLD_U32T (FOLD_U32T (s + ucast (tail_byte (le16 0 b) rest)))) :: u16) =
    (if odd_addr then ones (unat b + 256 * (unat s + sum16 rest)) else ones (unat s + sum16 rest))"
proof -
  let ?u = "s + ucast (tail_byte (le16 0 b) rest) :: u32"
  have u: "unat ?u = unat s + sum16 rest + 256 * unat b"
    unfolding unat_word_ariths(1) using assms(1) tail_byte_sum [OF assms(2), of b] by simp
  have f: "unat (FOLD_U32T (FOLD_U32T ?u)) = ones (unat ?u)" by (rule FOLD_FOLD)
  have "unat (SWAP_BYTES_IN_WORD (FOLD_U32T (FOLD_U32T ?u))) = ones (256 * unat ?u)"
    using unat_SWAP [of "FOLD_U32T (FOLD_U32T ?u)"] f ones_le by (simp add: ones_mult)
  also have "256 * unat ?u = 65536 * unat b + 256 * (unat s + sum16 rest)" using u by (simp add: algebra_simps)
  finally have sw: "unat (SWAP_BYTES_IN_WORD (FOLD_U32T (FOLD_U32T ?u))) = ones (unat b + 256 * (unat s + sum16 rest))"
    by (simp only: ones_65536)
  show ?thesis
  proof (cases odd_addr)
    case True
    then show ?thesis using sw ones_le by (simp add: unat_ucast_16)
  next
    case False
    then have "b = 0" using assms(3) by blast
    then show ?thesis using False f u ones_le by (simp add: unat_ucast_16)
  qed
qed

lemma odd_byte_split:
  obtains b r where "odd_byte odd_addr bs = (le16 0 b, r)" "\<not> odd_addr \<longrightarrow> b = 0" "\<not> odd_addr \<longrightarrow> r = bs"
    "odd_addr \<longrightarrow> ones (sum16 bs) = ones (unat b + 256 * sum16 r)" "length r + (if b = 0 then 0 else 1) \<le> length bs"
proof (cases "odd_addr \<and> bs \<noteq> []")
  case True
  then show ?thesis
    using that [of "hd bs" "tl bs"] sum16_Cons [of "hd bs" "tl bs"] by (cases bs) (auto simp: odd_byte_def)
next
  case False
  then show ?thesis using that [of 0 bs] by (auto simp: odd_byte_def le16_00)
qed

lemma ends_bound:
  fixes b :: u8
  assumes "length r + (if b = 0 then 0 else 1) \<le> 0x20000"
  shows "sum16 r + 256 * unat b < 4294967296"
proof (cases "b = 0")
  case True
  have "(length r + 1) div 2 \<le> 0x10000" using assms by (simp split: if_splits)
  then show ?thesis using True sum16_bound [of r] by simp
next
  case False
  then have "length r div 2 \<le> 0xFFFF" using assms by simp
  then show ?thesis using sum16_bound_odd [of r] unat_u8_le [of b] by simp
qed

lemma lwip_standard_chksum_sum:
  assumes "length bs \<le> 0x20000"
  shows "unat (lwip_standard_chksum odd_addr bs) = ones (sum16 bs)"
proof -
  obtain b r where b: "odd_byte odd_addr bs = (le16 0 b, r)" "\<not> odd_addr \<longrightarrow> b = 0" "\<not> odd_addr \<longrightarrow> r = bs"
      "odd_addr \<longrightarrow> ones (sum16 bs) = ones (unat b + 256 * sum16 r)" "length r + (if b = 0 then 0 else 1) \<le> length bs"
    by (rule odd_byte_split [of odd_addr bs])
  have bound: "sum16 r + 256 * unat b < 4294967296" using b(5) assms by (intro ends_bound) linarith
  obtain s rest where l: "half_loop 0 r = (s, rest)" by fastforce
  have s: "unat s + sum16 rest = sum16 r" "length rest \<le> 1"
    using half_loop_sum [OF _ l] bound by simp_all
  have "unat (lwip_standard_chksum odd_addr bs) = (if odd_addr then ones (unat b + 256 * (unat s + sum16 rest)) else ones (unat s + sum16 rest))"
    using chksum_end [of s rest b odd_addr] s bound b(2) by (simp add: lwip_standard_chksum_def b(1) l Let_def)
  then show ?thesis using s(1) b(3,4) by auto
qed

fun sum16be :: "u8 list \<Rightarrow> nat" where
  "sum16be [] = 0"
| "sum16be [a] = 256 * unat a"
| "sum16be (a # b # bs) = 256 * unat a + unat b + sum16be bs"

lemma ones_sum16be: "ones (256 * sum16be bs) = ones (sum16 bs)"
proof (induction bs rule: sum16be.induct)
  case (2 a)
  then show ?case using ones_65536 [of "unat a" 0] by simp
next
  case (3 a b bs)
  have "ones (256 * sum16be (a # b # bs)) = ones (65536 * unat a + (256 * unat b + 256 * sum16be bs))"
    by (simp add: algebra_simps)
  also have "\<dots> = ones (unat a + (256 * unat b + 256 * sum16be bs))" by (rule ones_65536)
  also have "\<dots> = ones (unat a + 256 * unat b + ones (256 * sum16be bs))"
    by (subst ones_ones_add(2)) (simp add: add.assoc)
  also have "\<dots> = ones (unat a + 256 * unat b + ones (sum16 bs))" by (simp only: 3)
  finally show ?case by (simp add: ones_ones_add)
qed simp

lemma sum16be_bound: "sum16be bs \<le> 65535 * ((length bs + 1) div 2)"
proof (induction bs rule: sum16be.induct)
  case (2 a)
  then show ?case using unat_u8_le [of a] by simp
next
  case (3 a b bs)
  then show ?case using unat_u8_le [of a] unat_u8_le [of b] by simp
qed simp

lemma be_word: "(push_bit 8 (ucast a) OR ucast b :: u16) = le16 b a" "(push_bit 8 (ucast a) :: u16) = le16 0 a"
  by (simp_all add: le16_def)

lemma chksum1_loop_sum: "unat acc + sum16be bs < 4294967296 \<Longrightarrow> unat (chksum1_loop acc bs) = unat acc + sum16be bs"
proof (induction acc bs rule: chksum1_loop.induct)
  case (2 acc a)
  then show ?case by (simp add: be_word unat_word_ariths unat_le16)
next
  case (3 acc a b bs)
  have u: "unat (acc + ucast (le16 b a)) = unat acc + (256 * unat a + unat b)"
    using "3.prems" by (simp add: unat_word_ariths unat_le16)
  have "unat (chksum1_loop (acc + ucast (le16 b a)) bs) = unat (acc + ucast (le16 b a)) + sum16be bs"
    using "3.prems" u by (intro "3.IH" [unfolded be_word(1)]) simp
  then show ?case unfolding chksum1_loop.simps be_word(1) using u by simp
qed simp

lemma high_half_0:
  assumes "w AND 0xFFFF0000 = (0 :: u32)"
  shows "FOLD_U32T w = w"
proof -
  obtain a b c d where w: "w = le32 a b c d" by (rule word32_bytes)
  have m: "(0xFFFF0000 :: u32) = push_bit 16 (mask 16)" by (simp add: mask_eq_exp_minus_1 push_bit_eq_mult)
  have "w AND 0xFFFF0000 = le32 0 0 c d"
  proof (rule bit_word_eqI)
    fix n :: nat
    assume "n < LENGTH(32)"
    then consider "n < 8" | "8 \<le> n" "n < 16" | "16 \<le> n" "n < 24" | "24 \<le> n" "n < 32"
      by fastforce
    then show "bit (w AND 0xFFFF0000) n = bit (le32 0 0 c d) n"
      unfolding w m by cases (auto simp: le32_def bit_simps)
  qed
  then have "unat (le32 0 0 c d) = 0" using assms by simp
  then have "unat w < 65536" unfolding w unat_le32 using unat_u8_le [of a] unat_u8_le [of b] by simp
  then have "unat (FOLD_U32T w) = unat w" by (simp add: unat_FOLD)
  then show ?thesis by (simp add: word_unat_eq_iff)
qed

lemma unat_htons_ones: "unat (lwip_htons w) = ones (256 * unat w)"
proof -
  obtain a b where w: "w = le16 a b" by (rule word16_cases)
  have "ones (256 * unat w) = ones (65536 * unat b + 256 * unat a)" by (simp add: w unat_le16 algebra_simps)
  also have "\<dots> = ones (unat b + 256 * unat a)" by (rule ones_65536)
  also have "\<dots> = unat b + 256 * unat a" using unat_u8_le [of a] unat_u8_le [of b] by (intro ones_id) linarith
  finally show ?thesis by (simp add: w byte_simps unat_le16)
qed

lemma lwip_standard_chksum1_sum:
  assumes "length bs \<le> 0x20000"
  shows "unat (lwip_standard_chksum1 bs) = ones (sum16 bs)"
proof -
  have "(length bs + 1) div 2 \<le> 0x10000" using assms by simp
  then have "sum16be bs < 4294967296" using sum16be_bound [of bs] by simp
  then have s: "unat (chksum1_loop 0 bs) = sum16be bs" using chksum1_loop_sum [of 0 bs] by simp
  let ?f = "FOLD_U32T (FOLD_U32T (chksum1_loop 0 bs))"
  have "lwip_standard_chksum1 bs = lwip_htons (ucast ?f)"
    using high_half_0 [of "FOLD_U32T (chksum1_loop 0 bs)"]
    by (auto simp: lwip_standard_chksum1_def Let_def FOLD_U32T_def)
  moreover have "unat ?f = ones (sum16be bs)" using FOLD_FOLD s by simp
  ultimately show ?thesis
    using ones_le by (simp add: unat_htons_ones unat_ucast_16 ones_mult ones_sum16be)
qed

lemma add_carry_ones: "ones (unat (add_carry s w)) = ones (unat s + unat w)"
proof (cases "unat s + unat w < 4294967296")
  case True
  then have "unat (s + w) = unat s + unat w" by (simp add: unat_word_ariths)
  moreover from this have "\<not> s + w < s" by (simp add: word_less_nat_alt)
  ultimately show ?thesis by (simp add: add_carry_def)
next
  case False
  let ?k = "unat s + unat w - 4294967296"
  have b: "unat s < 4294967296" "unat w < 4294967296" by simp_all
  have k: "unat (s + w) = ?k"
  proof -
    have "?k < 4294967296" using b by linarith
    then show ?thesis unfolding unat_word_ariths using False by (simp add: le_mod_geq)
  qed
  have "unat (s + w) < unat s" using k b(2) False by linarith
  then have c: "add_carry s w = s + w + 1" by (simp add: add_carry_def word_less_nat_alt)
  have "unat (s + w) < 4294967295" using k b False by linarith
  then have "Suc (unat (s + w)) < 2 ^ LENGTH(32)" by simp
  then have u: "unat (s + w + 1) = Suc ?k" using k by simp
  have "ones (unat s + unat w) = ones (65536 * 65536 + ?k)" using False by simp
  also have "\<dots> = ones (65536 * 1 + ?k)" using ones_65536 [of 65536 ?k] by simp
  also have "\<dots> = ones (1 + ?k)" by (rule ones_65536)
  finally show ?thesis unfolding c u by simp
qed

lemma add_carry_bytes: "ones (unat (add_carry s (le32 a b c d)) + n) = ones (unat s + (unat a + 256 * unat b + (unat c + 256 * unat d)) + n)"
proof -
  have "ones (unat (add_carry s (le32 a b c d)) + n) = ones (unat s + unat (le32 a b c d) + n)"
    using ones_ones_add(1) [of "unat (add_carry s (le32 a b c d))" n] add_carry_ones [of s "le32 a b c d"]
      ones_ones_add(1) [of "unat s + unat (le32 a b c d)" n] by simp
  also have "unat s + unat (le32 a b c d) + n = 65536 * (unat c + 256 * unat d) + (unat s + (unat a + 256 * unat b) + n)"
    by (simp add: unat_le32)
  also have "ones (65536 * (unat c + 256 * unat d) + (unat s + (unat a + 256 * unat b) + n)) =
      ones (unat c + 256 * unat d + (unat s + (unat a + 256 * unat b) + n))" by (rule ones_65536)
  also have "unat c + 256 * unat d + (unat s + (unat a + 256 * unat b) + n) =
      unat s + (unat a + 256 * unat b + (unat c + 256 * unat d)) + n" by simp
  finally show ?thesis .
qed

lemma quad_loop_sum:
  "quad_loop s bs = (s', rest) \<Longrightarrow> ones (unat s' + sum16 rest) = ones (unat s + sum16 bs) \<and> length rest < 8"
proof (induction s bs rule: quad_loop.induct)
  case (1 s a b c d e f g h bs)
  have "ones (unat (add_carry (add_carry s (le32 a b c d)) (le32 e f g h)) + sum16 bs) =
      ones (unat s + sum16 (a # b # c # d # e # f # g # h # bs))"
    by (simp add: add_carry_bytes add.assoc)
  then show ?case using 1 by simp
qed auto

lemma half_step_sum: "half_step u bs = (s, r) \<Longrightarrow> unat s + sum16 r = sum16 bs"
  by (auto simp: half_step_def unat_le16 split: list.splits if_splits)

lemma lwip_standard_chksum3_sum: "unat (lwip_standard_chksum3 addr bs) = ones (sum16 bs)"
proof -
  let ?odd = "addr mod 2 = 1"
  obtain b r where b: "odd_byte ?odd bs = (le16 0 b, r)" "\<not> ?odd \<longrightarrow> b = 0" "\<not> ?odd \<longrightarrow> r = bs"
      "?odd \<longrightarrow> ones (sum16 bs) = ones (unat b + 256 * sum16 r)"
    by (rule odd_byte_split [of ?odd bs])
  obtain s0 r0 where 0: "half_step ((addr + (length bs - length r)) mod 4 \<noteq> 0) r = (s0, r0)" by fastforce
  obtain s1 r1 where 1: "quad_loop s0 r0 = (s1, r1)" by fastforce
  obtain s2 rest where 2: "half_loop (FOLD_U32T s1) r1 = (s2, rest)" by fastforce
  have l1: "length r1 < 8" and q: "ones (unat s1 + sum16 r1) = ones (sum16 r)"
    using quad_loop_sum [OF 1] half_step_sum [OF 0] by simp_all
  have "sum16 r1 \<le> 65535 * 4" using sum16_bound [of r1] l1 by simp
  then have small: "unat (FOLD_U32T s1) + sum16 r1 \<le> 400000" using FOLD_bound(1) [of s1] by linarith
  then have s2: "unat s2 + sum16 rest = unat (FOLD_U32T s1) + sum16 r1" "length rest \<le> 1"
    using half_loop_sum [OF _ 2] by simp_all
  have X: "ones (unat s2 + sum16 rest) = ones (sum16 r)"
    using s2(1) q ones_ones_add(1) [of "unat (FOLD_U32T s1)" "sum16 r1"] ones_ones_add(1) [of "unat s1" "sum16 r1"]
    by (simp add: ones_FOLD)
  have "unat s2 + sum16 rest + 256 * unat b < 4294967296" using s2(1) small unat_u8_le [of b] by linarith
  then have "unat (lwip_standard_chksum3 addr bs) =
      (if ?odd then ones (unat b + 256 * (unat s2 + sum16 rest)) else ones (unat s2 + sum16 rest))"
    using chksum_end [of s2 rest b ?odd] s2(2) b(2)
    unfolding lwip_standard_chksum3_def Let_def b(1) prod.case 0 1 2 by simp
  moreover have "ones (unat b + 256 * (unat s2 + sum16 rest)) = ones (unat b + 256 * sum16 r)"
    using X ones_mult [of 256 "unat s2 + sum16 rest"] ones_mult [of 256 "sum16 r"]
      ones_ones_add(2) [of "unat b" "256 * (unat s2 + sum16 rest)"] ones_ones_add(2) [of "unat b" "256 * sum16 r"] by metis
  ultimately show ?thesis using b(3,4) X by auto
qed

text \<open>
  C26: The three checksum routines compute the same sum. For data of up to 0x20000 bytes (the limit the
  comment of version 2 gives) at any alignment, all three are the one's complement sum of its 16-bit words in
  network order: the optimised loops lose no carry.
\<close>

theorem chksum_versions_agree:
  assumes "length bs \<le> 0x20000"
  shows "lwip_standard_chksum odd_addr bs = of_nat (ones (sum16 bs)) \<and> lwip_standard_chksum1 bs = of_nat (ones (sum16 bs)) \<and>
    lwip_standard_chksum3 addr bs = of_nat (ones (sum16 bs))"
proof -
  have "w = of_nat (ones (sum16 bs))" if "unat w = ones (sum16 bs)" for w :: u16
    using that by (metis of_nat_unat ucast_id)
  then show ?thesis
    using lwip_standard_chksum_sum [OF assms] lwip_standard_chksum1_sum [OF assms] lwip_standard_chksum3_sum by blast
qed

section \<open>Checksums of chains\<close>

lemma chksum_chain_step:
  assumes "length bs < 65536" "unat acc \<le> 65535"
  shows "unat (FOLD_U32T (acc + ucast (lwip_standard_chksum odd_addr bs))) = ones (unat acc + sum16 bs)"
proof -
  have c: "unat (lwip_standard_chksum odd_addr bs) = ones (sum16 bs)" using assms(1) by (intro lwip_standard_chksum_sum) simp
  have u: "unat (acc + ucast (lwip_standard_chksum odd_addr bs)) = unat acc + ones (sum16 bs)"
    unfolding unat_word_ariths using assms(2) ones_le [of "sum16 bs"] c by simp
  have "unat (FOLD_U32T (acc + ucast (lwip_standard_chksum odd_addr bs))) \<le> 65535"
    using u assms(2) ones_le [of "sum16 bs"] by (intro FOLD_bound(2)) linarith
  then show ?thesis using ones_id ones_FOLD [of "acc + ucast (lwip_standard_chksum odd_addr bs)"] u by (simp add: ones_ones_add)
qed

definition weight :: "u8 list \<Rightarrow> nat" where
  "weight bs = (if odd (length bs) then 256 else 1)"

lemma ones_ww: "ones (256 * (256 * n) + m) = ones (n + m)"
  using ones_65536 [of n m] by simp

lemma chksum_chain_loop_sum:
  "wf_chain c \<Longrightarrow> unat acc \<le> 65535 \<Longrightarrow> chksum_chain_loop c acc sw = (acc', sw') \<Longrightarrow>
   unat acc' = ones (weight (chain_bytes c) * (unat acc + sum16 (chain_bytes c))) \<and> sw' = (sw \<noteq> odd (length (chain_bytes c)))"
proof (induction c arbitrary: acc sw)
  case Nil
  then show ?case by (simp add: weight_def ones_id)
next
  case (Cons q qs)
  let ?b = "seg_bytes q" and ?r = "chain_bytes qs"
  have q: "length ?b = plen q" "wf_chain qs" using Cons.prems(1) by (simp_all add: length_seg_bytes)
  have lb: "length ?b < 65536" using q(1) by simp
  define a where "a = FOLD_U32T (acc + ucast (seg_chksum q ?b))"
  have a: "unat a = ones (unat acc + sum16 ?b)" unfolding a_def seg_chksum_def using lb Cons.prems(2) by (intro chksum_chain_step)
  have sw: "unat (SWAP_BYTES_IN_WORD a) = ones (256 * (unat acc + sum16 ?b))"
    using unat_SWAP [of a] a ones_le by (simp add: ones_mult)
  have split: "ones (k * (n + sum16 (?b @ ?r))) = ones (k * (n + (sum16 ?b + weight ?b * sum16 ?r)))" for k n
  proof -
    have "ones (n + sum16 (?b @ ?r)) = ones (n + (sum16 ?b + weight ?b * sum16 ?r))"
      using sum16_append [of ?b ?r] ones_ones_add(2) [of n "sum16 (?b @ ?r)"] ones_ones_add(2) [of n "sum16 ?b + weight ?b * sum16 ?r"]
      unfolding weight_def by metis
    then show ?thesis by (metis ones_mult)
  qed
  have mixed: "ones (k * (ones m + n)) = ones (k * (m + n))" for k m n by (metis ones_mult ones_ones_add(1))
  show ?case
  proof (cases "odd (plen q)")
    case False
    have run: "chksum_chain_loop qs a sw = (acc', sw')"
      using Cons.prems(3) False by (simp add: a_def [symmetric] Let_def even_iff_mod_2_eq_zero)
    have "unat acc' = ones (weight ?r * (unat a + sum16 ?r)) \<and> sw' = (sw \<noteq> odd (length ?r))"
      using a ones_le by (intro Cons.IH [OF q(2) _ run]) simp
    moreover have "weight (?b @ ?r) = weight ?r" "weight ?b = 1" using False q(1) by (auto simp: weight_def)
    ultimately show ?thesis using False q(1) a mixed split [of "weight ?r" "unat acc"] by (simp add: add.assoc)
  next
    case True
    have run: "chksum_chain_loop qs (SWAP_BYTES_IN_WORD a) (\<not> sw) = (acc', sw')"
      using Cons.prems(3) True by (simp add: a_def [symmetric] Let_def odd_iff_mod_2_eq_one)
    have ih: "unat acc' = ones (weight ?r * (unat (SWAP_BYTES_IN_WORD a) + sum16 ?r)) \<and> sw' = ((\<not> sw) \<noteq> odd (length ?r))"
      using sw ones_le by (intro Cons.IH [OF q(2) _ run]) simp
    have x: "ones (weight ?r * (256 * m + n)) = ones (weight (?b @ ?r) * (m + 256 * n))" for m n
    proof (cases "odd (length ?r)")
      case True
      then have "weight ?r = 256" "weight (?b @ ?r) = 1" using \<open>odd (plen q)\<close> q(1) by (simp_all add: weight_def)
      then show ?thesis using ones_ww [of m "256 * n"] by (simp add: algebra_simps)
    next
      case False
      then have "weight ?r = 1" "weight (?b @ ?r) = 256" using \<open>odd (plen q)\<close> q(1) by (simp_all add: weight_def)
      then show ?thesis using ones_ww [of n "256 * m"] by (simp add: algebra_simps)
    qed
    have w: "weight ?b = 256" using True q(1) by (simp add: weight_def)
    have "unat acc' = ones (weight ?r * (256 * (unat acc + sum16 ?b) + sum16 ?r))" using ih sw mixed by simp
    also have "\<dots> = ones (weight (?b @ ?r) * (unat acc + (sum16 ?b + 256 * sum16 ?r)))" by (simp only: x add.assoc)
    also have "\<dots> = ones (weight (?b @ ?r) * (unat acc + sum16 (?b @ ?r)))" by (simp only: split w)
    finally show ?thesis using ih True q(1) by simp
  qed
qed

lemma chain_total:
  assumes w: "wf_chain c" and a: "unat acc \<le> 65535" and r: "chksum_chain_loop c acc False = (acc', sw)"
  shows "unat (if sw then SWAP_BYTES_IN_WORD acc' else acc') = ones (unat acc + sum16 (chain_bytes c))"
proof -
  have s: "unat acc' = ones (weight (chain_bytes c) * (unat acc + sum16 (chain_bytes c)))" "sw = odd (length (chain_bytes c))"
    using chksum_chain_loop_sum [OF w a r] by simp_all
  show ?thesis
  proof (cases sw)
    case True
    then have "unat (SWAP_BYTES_IN_WORD acc') = ones (256 * (256 * (unat acc + sum16 (chain_bytes c))))"
      using unat_SWAP [of acc'] s ones_le by (simp add: weight_def ones_mult)
    then show ?thesis using True ones_ww [of "unat acc + sum16 (chain_bytes c)" 0] by simp
  next
    case False
    then show ?thesis using s by (simp add: weight_def)
  qed
qed

lemma ucast_half: "ucast (u AND 0xFFFF :: u32) = (ucast u :: u16)"
proof (rule bit_word_eqI)
  fix n :: nat
  assume n: "n < LENGTH(16)"
  have m: "(0xFFFF :: u32) = mask 16" by (simp add: mask_eq_exp_minus_1)
  show "bit (ucast (u AND 0xFFFF :: u32) :: u16) n = bit (ucast u :: u16) n"
    unfolding m using n by (simp only: bit_simps) auto
qed

lemma word_of_ones: "unat u = ones n \<Longrightarrow> (ucast (u :: u32) :: u16) = of_nat (ones n)"
  using ones_le [of n] unat_ucast_16 [of u] by (metis of_nat_unat ucast_id)

lemma inet_chksum_pbuf_eq:
  assumes "wf_chain c"
  shows "inet_chksum_pbuf c = NOT (of_nat (ones (sum16 (chain_bytes c))))"
proof -
  obtain acc sw where r: "chksum_chain_loop c 0 False = (acc, sw)" by fastforce
  have "unat (if sw then SWAP_BYTES_IN_WORD acc else acc) = ones (sum16 (chain_bytes c))"
    using chain_total [OF assms _ r] by simp
  then show ?thesis
    unfolding inet_chksum_pbuf_def r by (simp only: Let_def prod.case ucast_half word_of_ones)
qed

lemma lwip_standard_chksum_ones: "length bs \<le> 0x20000 \<Longrightarrow> lwip_standard_chksum odd_addr bs = of_nat (ones (sum16 bs))"
  using lwip_standard_chksum_sum [of bs odd_addr] by (metis of_nat_unat ucast_id)

text \<open>
  C27: The checksum of a packet does not depend on how it is split. For every well-formed chain, with any
  lengths and alignments of its buffers, \<open>inet_chksum_pbuf\<close> is \<open>inet_chksum\<close> of the bytes of the packet
  in one piece.
\<close>

theorem chksum_split_free:
  assumes w: "wf_chain c"
  shows "inet_chksum_pbuf c = inet_chksum odd_addr (chain_bytes c)"
proof -
  have "length (chain_bytes c) \<le> 0x20000"
    using length_chain_bytes [OF w] less_imp_le [OF ptot_less [of c]] by (auto split: if_splits)
  then show ?thesis by (simp add: inet_chksum_pbuf_eq [OF w] inet_chksum_def lwip_standard_chksum_ones)
qed

text \<open>The pseudo header of RFC 793, as bytes.\<close>

definition pseudo_header :: "u8 \<Rightarrow> u16 \<Rightarrow> u32 \<Rightarrow> u32 \<Rightarrow> u8 list" where
  "pseudo_header proto len src dest = bytes32 src @ bytes32 dest @ [0, proto] @ bytes16 (lwip_htons len)"

lemma sum16_even: "even (length xs) \<Longrightarrow> sum16 (xs @ ys) = sum16 xs + sum16 ys"
  by (induction xs rule: sum16.induct) auto

lemma sum16_bytes16: "sum16 (bytes16 w) = unat w"
  by (cases w rule: word16_cases) (simp add: byte_simps unat_le16)

lemma unat_not16: "unat (NOT w :: u16) = 65535 - unat w"
proof -
  have "NOT w = -1 - w" by (simp add: not_eq_complement)
  moreover have "w \<le> -1" by simp
  moreover have "unat (-1 :: u16) = 65535" by (simp add: unsigned_minus_1_eq_mask mask_eq_exp_minus_1)
  ultimately show ?thesis by (simp add: unat_sub)
qed

lemma sum16_bytes32: "sum16 (bytes32 w) = unat w mod 65536 + unat w div 65536"
proof -
  obtain a b c d where w: "w = le32 a b c d" by (rule word32_bytes)
  have "bytes32 w = [a, b, c, d]" by (simp add: w bytes32_le32)
  moreover have "unat a + 256 * unat b < 65536" using unat_u8_le [of a] unat_u8_le [of b] by linarith
  moreover have "unat w = (unat a + 256 * unat b) + 65536 * (unat c + 256 * unat d)" by (simp add: w unat_le32)
  ultimately have "unat w mod 65536 = unat a + 256 * unat b" "unat w div 65536 = unat c + 256 * unat d"
    by (simp_all only: mod_mult_self2 div_mult_self2 mod_less div_less)
  then show ?thesis using \<open>bytes32 w = [a, b, c, d]\<close> by simp
qed

lemma high_half: "drop_bit 16 u AND 0xFFFF = (drop_bit 16 u :: u32)"
proof (rule word_unat_eq_iff [THEN iffD2])
  have "unat u div 65536 < 65536" using unsigned_less [of u] by (intro less_mult_imp_div_less) simp
  moreover have "unat (drop_bit 16 u) = unat u div 65536"
    by (simp only: unat_drop_bit_eq) (simp add: drop_bit_eq_div)
  ultimately show "unat (drop_bit 16 u AND 0xFFFF) = unat (drop_bit 16 u)" by (simp only: unat_and_half) simp
qed

lemma unat_pseudo_acc: "unat (pseudo_acc src dest) = ones (sum16 (bytes32 src @ bytes32 dest))"
proof -
  let ?u = "(src AND 0xFFFF) + drop_bit 16 src + (dest AND 0xFFFF) + drop_bit 16 dest"
  have b: "unat src div 65536 < 65536" "unat dest div 65536 < 65536"
    using unsigned_less [of src] unsigned_less [of dest] by (auto intro!: less_mult_imp_div_less)
  have "unat ?u = unat src mod 65536 + unat src div 65536 + unat dest mod 65536 + unat dest div 65536"
    using b mod_less_divisor [of 65536 "unat src"] mod_less_divisor [of 65536 "unat dest"]
    by (simp add: unat_word_ariths unat_and_half unat_drop_bit_eq drop_bit_eq_div)
  then show ?thesis
    by (simp add: pseudo_acc_def Let_def high_half FOLD_FOLD sum16_even sum16_bytes32 add.assoc)
qed

text \<open>
  The transport checksum covers the pseudo header and the packet. \<open>inet_chksum_pseudo\<close> of a
  well-formed chain is the Internet checksum of the pseudo header (addresses, 0, protocol, length)
  followed by the bytes of the packet, however the chain is split: no carry is lost in the 32-bit accumulator.
\<close>

lemma chksum_pseudo_covers:
  assumes w: "wf_chain c"
  shows "inet_chksum_pseudo c proto len src dest = inet_chksum odd_addr (pseudo_header proto len src dest @ chain_bytes c)"
proof -
  let ?acc = "pseudo_acc src dest"
  obtain acc sw where r: "chksum_chain_loop c ?acc False = (acc, sw)" by fastforce
  let ?a = "if sw then SWAP_BYTES_IN_WORD acc else acc"
  have a: "unat ?a = ones (sum16 (bytes32 src @ bytes32 dest) + sum16 (chain_bytes c))"
    using chain_total [OF w _ r] ones_le by (simp add: unat_pseudo_acc ones_ones_add)
  have p: "lwip_htons (ucast proto) = le16 0 proto"
  proof -
    have "(ucast proto :: u16) = le16 proto 0" by (simp add: le16_def)
    then show ?thesis by (simp add: byte_simps)
  qed
  have u: "unat (?a + ucast (lwip_htons (ucast proto)) + ucast (lwip_htons len)) =
      unat ?a + 256 * unat proto + unat (lwip_htons len)"
    unfolding p using a ones_le [of "sum16 (bytes32 src @ bytes32 dest) + sum16 (chain_bytes c)"] unat_u8_le [of proto] less_imp_le [OF unat_u16_less [of "lwip_htons len"]]
    by (simp add: unat_word_ariths unat_le16)
  have s: "sum16 (pseudo_header proto len src dest @ chain_bytes c) =
      sum16 (bytes32 src @ bytes32 dest) + 256 * unat proto + unat (lwip_htons len) + sum16 (chain_bytes c)"
    by (simp add: pseudo_header_def sum16_even sum16_bytes16)
  have "unat (FOLD_U32T (FOLD_U32T (?a + ucast (lwip_htons (ucast proto)) + ucast (lwip_htons len)))) =
      ones (sum16 (pseudo_header proto len src dest @ chain_bytes c))"
    unfolding FOLD_FOLD u a s
    using ones_ones_add(1) [of "sum16 (bytes32 src @ bytes32 dest) + sum16 (chain_bytes c)" "256 * unat proto + unat (lwip_htons len)"]
    by (simp add: ac_simps)
  then have "inet_chksum_pseudo c proto len src dest = NOT (of_nat (ones (sum16 (pseudo_header proto len src dest @ chain_bytes c))))"
    unfolding inet_chksum_pseudo_def inet_cksum_pseudo_base_def r by (simp only: Let_def prod.case ucast_half word_of_ones)
  moreover have "length (pseudo_header proto len src dest @ chain_bytes c) \<le> 0x20000"
    using length_chain_bytes [OF w] less_imp_le [OF ptot_less [of c]] by (auto simp: pseudo_header_def split: if_splits)
  ultimately show ?thesis by (simp add: inet_chksum_def lwip_standard_chksum_ones)
qed

text \<open>
  A stored checksum verifies. When the checksum of a packet is computed with a zero field at an even
  position and stored there, the checksum of the result is 0, which is what the receiver tests.
\<close>

lemma chksum_verifies:
  assumes l: "length bs < 0x10000" and i: "even i" "i + 2 \<le> length bs" and z: "bs ! i = 0" "bs ! (i + 1) = 0"
  shows "inet_chksum b (st16 bs i (inet_chksum a bs)) = 0"
proof -
  let ?c = "inet_chksum a bs"
  have drop: "drop i bs = 0 # 0 # drop (i + 2) bs"
    using i z by (simp add: Cons_nth_drop_Suc [symmetric])
  have bs: "bs = take i bs @ [0, 0] @ drop (i + 2) bs"
    using drop append_take_drop_id [of i bs] by simp
  have new: "st16 bs i ?c = take i bs @ bytes16 ?c @ drop (i + 2) bs" by (simp add: st16_def st_bytes_def)
  have ev: "even (length (take i bs))" using i by simp
  have S: "sum16 bs = sum16 (take i bs) + sum16 (drop (i + 2) bs)"
    by (subst bs) (simp add: sum16_even [OF ev] del: append_Cons, simp add: sum16_even)
  have S': "sum16 (st16 bs i ?c) = sum16 bs + unat ?c"
    unfolding new S by (simp add: sum16_even [OF ev] sum16_even sum16_bytes16)
  have c: "unat ?c = 65535 - ones (sum16 bs)"
  proof -
    have "unat (lwip_standard_chksum a bs) = ones (sum16 bs)" using l by (intro lwip_standard_chksum_sum) simp
    then show ?thesis by (simp add: inet_chksum_def unat_not16)
  qed
  have "ones (sum16 bs + unat ?c) = ones 65535"
  proof (rule ones_cong)
    have "(sum16 bs + unat ?c) mod 65535 = (ones (sum16 bs) + unat ?c) mod 65535" by (metis mod_add_left_eq ones_mod)
    then show "(sum16 bs + unat ?c) mod 65535 = 65535 mod 65535" using c ones_le [of "sum16 bs"] by simp
    show "(sum16 bs + unat ?c = 0) = ((65535 :: nat) = 0)" using c ones_0(2) [of "sum16 bs"] by (cases "sum16 bs = 0") auto
  qed
  then have "ones (sum16 (st16 bs i ?c)) = 65535" unfolding S' by (simp add: ones_id)
  moreover have "length (st16 bs i ?c) \<le> 0x20000" using l i(2) by simp
  ultimately show ?thesis by (simp add: inet_chksum_def [of b] lwip_standard_chksum_ones)
qed

section \<open>Examples\<close>

lemma demo_sums: "ones (sum16 [0x45, 0, 0, 0x54, 7]) = 0x544C" "ones (sum16 [1, 2, 3, 4, 1, 2]) = 0x0805"
    "ones (sum16 [0x45, 0, 0, 0x54, 0, 0, 0x40, 1]) = 0x5585"
  by (simp_all add: ones_def)

theorem chksum_versions_agree_witness:
  "lwip_standard_chksum True [0x45, 0, 0, 0x54, 7] = 0x544C \<and> lwip_standard_chksum1 [0x45, 0, 0, 0x54, 7] = 0x544C \<and>
   lwip_standard_chksum3 3 [0x45, 0, 0, 0x54, 7] = 0x544C"
  using chksum_versions_agree [of "[0x45, 0, 0, 0x54, 7]" True 3] unfolding demo_sums by simp

theorem chksum_split_free_witness: "inet_chksum_pbuf demo_chain = 0xF7FA"
proof -
  have "lwip_standard_chksum False [1, 2, 3, 4, 1, 2] = of_nat (ones (sum16 [1, 2, 3, 4, 1, 2]))"
    by (rule lwip_standard_chksum_ones) simp
  then show ?thesis
    using chksum_split_free [OF demo_chain_facts(1), of False] unfolding demo_chain_facts(4) inet_chksum_def demo_sums by simp
qed

lemma chksum_pseudo_covers_witness:
  "inet_chksum_pseudo demo_chain 17 6 0x0100A8C0 0x0200A8C0 =
   inet_chksum False [0xC0, 0xA8, 0, 1, 0xC0, 0xA8, 0, 2, 0, 17, 0, 6, 1, 2, 3, 4, 1, 2]"
proof -
  have "pseudo_header 17 6 0x0100A8C0 0x0200A8C0 = [0xC0, 0xA8, 0, 1, 0xC0, 0xA8, 0, 2, 0, 17, 0, 6]"
    by code_simp
  then show ?thesis
    using chksum_pseudo_covers [OF demo_chain_facts(1), of 17 6 "0x0100A8C0" "0x0200A8C0" False] by (simp add: demo_chain_facts)
qed

lemma chksum_verifies_witness:
  "inet_chksum True (st16 [0x45, 0, 0, 0x54, 0, 0, 0x40, 1] 4 (inet_chksum False [0x45, 0, 0, 0x54, 0, 0, 0x40, 1])) = 0"
  by (rule chksum_verifies) simp_all

end
