(* ===== verification/Ip4Addr.thy ===== *)
theory Ip4Addr
  imports LwipDef
begin

text \<open>
  \<open>lwip/core/ipv4/ip4_addr.c\<close>: IPv4 addresses as 32-bit words in network order (the first octet is the low
  byte), their dotted notation, netmasks and broadcast addresses. A string is the list of its
  characters with the terminating 0.
\<close>

section \<open>Broadcast addresses and netmasks\<close>

record netif_ip4 =
  nif_flags :: u8
  nif_addr :: u32
  nif_netmask :: u32

abbreviation (input) "NETIF_FLAG_BROADCAST \<equiv> 0x02 :: u8"

definition ip4_addr_netcmp :: "u32 \<Rightarrow> u32 \<Rightarrow> u32 \<Rightarrow> bool" where
  "ip4_addr_netcmp addr1 addr2 m \<longleftrightarrow> addr1 AND m = addr2 AND m"

definition ip4_addr_isbroadcast_u32 :: "u32 \<Rightarrow> 'a netif_ip4_scheme \<Rightarrow> bool" where
  "ip4_addr_isbroadcast_u32 addr n =
     (if NOT addr = 0 \<or> addr = 0 then True
      else if nif_flags n AND NETIF_FLAG_BROADCAST = 0 then False
      else if addr = nif_addr n then False
      else if ip4_addr_netcmp addr (nif_addr n) (nif_netmask n) \<and>
              addr AND NOT (nif_netmask n) = 0xFFFFFFFF AND NOT (nif_netmask n) then True
      else False)"

definition ip4_addr_isany :: "u32 \<Rightarrow> bool" where
  "ip4_addr_isany addr \<longleftrightarrow> addr = 0"

definition ip4_addr_ismulticast :: "u32 \<Rightarrow> bool" where
  "ip4_addr_ismulticast addr \<longleftrightarrow> addr AND lwip_htonl 0xF0000000 = lwip_htonl 0xE0000000"

definition ip4_addr_islinklocal :: "u32 \<Rightarrow> bool" where
  "ip4_addr_islinklocal addr \<longleftrightarrow> addr AND lwip_htonl 0xFFFF0000 = lwip_htonl 0xA9FE0000"

text \<open>The two loops of \<open>ip4_addr_netmask_valid\<close>: \<open>m\<close> is the running bit, shifted right until it is 0.\<close>

function first_zero_bit :: "u32 \<Rightarrow> u32 \<Rightarrow> u32" where
  "first_zero_bit nm m =
     (if m = 0 then 0 else if nm AND m = 0 then m else first_zero_bit nm (drop_bit 1 m))"
  by pat_completeness auto

lemma drop_bit_less: "m \<noteq> 0 \<Longrightarrow> unat (drop_bit 1 m) < unat m" for m :: u32
proof -
  assume "m \<noteq> 0"
  then have "0 < unat m" by (simp add: unat_gt_0)
  moreover have "unat (drop_bit 1 m) = unat m div 2" by (simp only: unat_drop_bit_eq) (simp add: drop_bit_eq_div)
  ultimately show ?thesis by simp
qed

termination first_zero_bit
  by (relation "measure (\<lambda>(nm, m). unat m)") (auto simp: drop_bit_less [simplified])

function no_one_bit :: "u32 \<Rightarrow> u32 \<Rightarrow> bool" where
  "no_one_bit nm m =
     (if m = 0 then True else if nm AND m \<noteq> 0 then False else no_one_bit nm (drop_bit 1 m))"
  by pat_completeness auto
termination
  by (relation "measure (\<lambda>(nm, m). unat m)") (auto simp: drop_bit_less [simplified])

declare first_zero_bit.simps [simp del] no_one_bit.simps [simp del]

definition ip4_addr_netmask_valid :: "u32 \<Rightarrow> bool" where
  "ip4_addr_netmask_valid netmask =
     (let nm_hostorder = lwip_htonl netmask
      in no_one_bit nm_hostorder (first_zero_bit nm_hostorder (push_bit 31 1)))"

section \<open>Reading the dotted notation\<close>

definition lwip_isdigit :: "u8 \<Rightarrow> bool" where "lwip_isdigit c \<longleftrightarrow> 48 \<le> c \<and> c \<le> 57"
definition lwip_islower :: "u8 \<Rightarrow> bool" where "lwip_islower c \<longleftrightarrow> 97 \<le> c \<and> c \<le> 122"
definition lwip_isxdigit :: "u8 \<Rightarrow> bool" where
  "lwip_isxdigit c \<longleftrightarrow> lwip_isdigit c \<or> 97 \<le> c \<and> c \<le> 102 \<or> 65 \<le> c \<and> c \<le> 70"
definition lwip_isspace :: "u8 \<Rightarrow> bool" where
  "lwip_isspace c \<longleftrightarrow> c = 32 \<or> c = 12 \<or> c = 10 \<or> c = 13 \<or> c = 9 \<or> c = 11"

text \<open>
  The inner loop: the value and the string from the first character that is no digit of the base.
  \<open>None\<close> is reading behind the end of a string without terminating 0.
\<close>

fun collect_number :: "u32 \<Rightarrow> u32 \<Rightarrow> u8 list \<Rightarrow> (u32 \<times> u8 list) option" where
  "collect_number base val [] = None"
| "collect_number base val (c # cp) =
     (if lwip_isdigit c then collect_number base (val * base + (ucast c - 48)) cp
      else if base = 16 \<and> lwip_isxdigit c
      then collect_number base (push_bit 4 val OR (ucast c + 10 - (if lwip_islower c then 97 else 65))) cp
      else Some (val, c # cp))"

text \<open>The base and where the digits start.\<close>

definition number_base :: "u8 list \<Rightarrow> (u32 \<times> u8 list) option" where
  "number_base cp =
     (case cp of
        [] \<Rightarrow> None
      | c # cs \<Rightarrow>
          if c = 48
          then (case cs of [] \<Rightarrow> None | d # ds \<Rightarrow> if d = 120 \<or> d = 88 then Some (16, ds) else Some (8, cs))
          else Some (10, cp))"

datatype aton_result = Aton_overread | Aton_fail | Aton_parts "u32 list" u32 u8

lemma collect_number_length: "collect_number b v s = Some (v', s') \<Longrightarrow> length s' \<le> length s"
  by (induction b v s rule: collect_number.induct) (auto split: if_splits)

lemma number_base_length: "number_base s = Some (b, s') \<Longrightarrow> length s' \<le> length s"
  by (auto simp: number_base_def split: list.splits if_splits)

function aton_loop :: "u8 list \<Rightarrow> u32 list \<Rightarrow> aton_result" where
  "aton_loop cp parts =
     (case cp of
        [] \<Rightarrow> Aton_overread
      | c # _ \<Rightarrow>
          if \<not> lwip_isdigit c then Aton_fail
          else case number_base cp of
            None \<Rightarrow> Aton_overread
          | Some (base, ds) \<Rightarrow>
              (case collect_number base 0 ds of
                 Some (val, c # cs) \<Rightarrow>
                   if c = 46
                   then if 3 \<le> length parts then Aton_fail else aton_loop cs (parts @ [val])
                   else Aton_parts parts val c
               | _ \<Rightarrow> Aton_overread))"
  by pat_completeness auto
termination
  by (relation "measure (\<lambda>(cp, parts). length cp)")
    (auto dest!: collect_number_length number_base_length)

declare aton_loop.simps [simp del]

text \<open>The parts are put together; \<open>None\<close> is the return value 0.\<close>

definition aton_join :: "u32 list \<Rightarrow> u32 \<Rightarrow> u32 option" where
  "aton_join parts val =
     (case parts of
        [] \<Rightarrow> Some val
      | [p0] \<Rightarrow>
          if 0xFFFFFF < val then None else if 0xFF < p0 then None
          else Some (val OR push_bit 24 p0)
      | [p0, p1] \<Rightarrow>
          if 0xFFFF < val then None else if 0xFF < p0 \<or> 0xFF < p1 then None
          else Some (val OR (push_bit 24 p0 OR push_bit 16 p1))
      | [p0, p1, p2] \<Rightarrow>
          if 0xFF < val then None else if 0xFF < p0 \<or> 0xFF < p1 \<or> 0xFF < p2 then None
          else Some (val OR (push_bit 24 p0 OR push_bit 16 p1 OR push_bit 8 p2))
      | _ \<Rightarrow> None)"

text \<open>\<open>Inl ()\<close> is a read behind the string; \<open>None\<close> the result 0 of the code.\<close>

definition ip4addr_aton :: "u8 list \<Rightarrow> unit + u32 option" where
  "ip4addr_aton cp =
     (case aton_loop cp [] of
        Aton_overread \<Rightarrow> Inl ()
      | Aton_fail \<Rightarrow> Inr None
      | Aton_parts parts val c \<Rightarrow>
          if c \<noteq> 0 \<and> \<not> lwip_isspace c then Inr None
          else Inr (map_option lwip_htonl (aton_join parts val)))"

definition ipaddr_addr :: "u8 list \<Rightarrow> unit + u32" where
  "ipaddr_addr cp = bindR (ip4addr_aton cp) (\<lambda>r. Inr (case r of Some v \<Rightarrow> v | None \<Rightarrow> 0xFFFFFFFF))"

section \<open>Writing the dotted notation\<close>

text \<open>The digits of a byte as the first inner loop stores them, lowest first.\<close>

function inv_digits :: "u8 \<Rightarrow> u8 list" where
  "inv_digits b =
     (let r = b mod 10; q = b div 10
      in (48 + r) # (if q \<noteq> 0 then inv_digits q else []))"
  by pat_completeness auto
termination
proof (relation "measure unat")
  fix b x y :: u8
  assume "x = b mod 10" and y: "y = b div 10" and "y \<noteq> 0"
  then have "b \<noteq> 0" by auto
  then have "0 < unat b" by (simp add: unat_gt_0)
  then show "(y, b) \<in> measure unat" by (simp add: y unat_div)
qed simp

declare inv_digits.simps [simp del]

text \<open>\<open>out\<close> is what has been written; a full buffer is \<open>None\<close>.\<close>

fun put_chars :: "nat \<Rightarrow> u8 list \<Rightarrow> u8 list \<Rightarrow> u8 list option" where
  "put_chars buflen out [] = Some out"
| "put_chars buflen out (c # cs) =
     (if buflen \<le> length out then None else put_chars buflen (out @ [c]) cs)"

fun ntoa_loop :: "nat \<Rightarrow> u8 list \<Rightarrow> u8 list \<Rightarrow> u8 list option" where
  "ntoa_loop buflen out [] = Some out"
| "ntoa_loop buflen out (b # bs) =
     (case put_chars buflen out (rev (inv_digits b)) of
        None \<Rightarrow> None
      | Some out \<Rightarrow>
          (case put_chars buflen out [46] of
             None \<Rightarrow> None
           | Some out \<Rightarrow> ntoa_loop buflen out bs))"

definition ip4addr_ntoa_r :: "u32 \<Rightarrow> nat \<Rightarrow> u8 list option" where
  "ip4addr_ntoa_r addr buflen = map_option (\<lambda>out. butlast out @ [0]) (ntoa_loop buflen [] (bytes32 addr))"

definition ip4addr_ntoa :: "u32 \<Rightarrow> u8 list option" where
  "ip4addr_ntoa addr = ip4addr_ntoa_r addr 16"

section \<open>What a valid netmask is\<close>

lemma bit_push1: "n < 32 \<Longrightarrow> (w AND push_bit n 1 = 0) = (\<not> bit w n)" for w :: u32
  by (simp only: bit_eq_iff) (auto simp: bit_simps)

lemma push1_nonzero: "n < 32 \<Longrightarrow> push_bit n 1 \<noteq> (0 :: u32)"
  by (simp only: bit_eq_iff) (auto simp: bit_simps)

lemma drop_push1: "Suc n < 32 \<Longrightarrow> drop_bit (Suc 0) (push_bit (Suc n) 1) = (push_bit n 1 :: u32)"
  by (rule bit_word_eqI) (auto simp: bit_simps)

lemma no_one_bit_iff: "n < 32 \<Longrightarrow> no_one_bit nm (push_bit n 1) \<longleftrightarrow> (\<forall>i\<le>n. \<not> bit nm i)"
proof (induction n)
  case 0
  show ?case
    by (subst no_one_bit.simps, subst no_one_bit.simps) (use bit_push1 [of 0 nm] in simp)
next
  case (Suc n)
  show ?case
    by (subst no_one_bit.simps)
      (use Suc push1_nonzero [of "Suc n"] bit_push1 [of "Suc n" nm] drop_push1 [of n] in
        \<open>auto simp: le_Suc_eq\<close>)
qed

lemma netmask_scan:
  "n < 32 \<Longrightarrow> no_one_bit nm (first_zero_bit nm (push_bit n 1)) \<longleftrightarrow>
     (\<exists>k\<le>Suc n. \<forall>i\<le>n. bit nm i \<longleftrightarrow> k \<le> i)"
proof (induction n)
  case 0
  have "no_one_bit nm (first_zero_bit nm (push_bit 0 1))"
  proof (cases "bit nm 0")
    case True
    then have "first_zero_bit nm 1 = 0"
      by (subst first_zero_bit.simps, subst first_zero_bit.simps) (use bit_push1 [of 0 nm] in simp)
    then show ?thesis by (subst no_one_bit.simps) simp
  next
    case False
    then have "first_zero_bit nm 1 = push_bit 0 1"
      by (subst first_zero_bit.simps) (use bit_push1 [of 0 nm] in simp)
    then show ?thesis using no_one_bit_iff [of 0 nm] False by simp
  qed
  then show ?case by (auto intro: exI [of _ "if bit nm 0 then 0 else 1"])
next
  case (Suc n)
  show ?case
  proof (cases "bit nm (Suc n)")
    case True
    then have "first_zero_bit nm (push_bit (Suc n) 1) = first_zero_bit nm (push_bit n 1)"
      by (subst first_zero_bit.simps)
        (use Suc.prems push1_nonzero [of "Suc n"] bit_push1 [of "Suc n" nm] drop_push1 [of n] in simp)
    moreover have "(\<exists>k\<le>Suc n. \<forall>i\<le>n. bit nm i \<longleftrightarrow> k \<le> i) \<longleftrightarrow>
        (\<exists>k\<le>Suc (Suc n). \<forall>i\<le>Suc n. bit nm i \<longleftrightarrow> k \<le> i)"
      using True by (auto simp: le_Suc_eq)
    ultimately show ?thesis using Suc by simp
  next
    case False
    then have "first_zero_bit nm (push_bit (Suc n) 1) = push_bit (Suc n) 1"
      by (subst first_zero_bit.simps)
        (use Suc.prems push1_nonzero [of "Suc n"] bit_push1 [of "Suc n" nm] in simp)
    moreover have "(\<forall>i\<le>Suc n. \<not> bit nm i) \<longleftrightarrow>
        (\<exists>k\<le>Suc (Suc n). \<forall>i\<le>Suc n. bit nm i \<longleftrightarrow> k \<le> i)"
      using False by (auto intro: exI [of _ "Suc (Suc n)"])
    ultimately show ?thesis using no_one_bit_iff [of "Suc n" nm] Suc.prems by simp
  qed
qed

lemma ones_then_zeros:
  "(\<exists>k\<le>32. \<forall>i<32. bit nm i \<longleftrightarrow> k \<le> i) \<longleftrightarrow> (\<exists>k\<le>32. nm = NOT (mask k))" for nm :: u32
  by (auto simp: bit_eq_iff bit_simps not_less)

lemma le31: "i \<le> 31 \<longleftrightarrow> i < (32 :: nat)"
  by linarith

lemma netmask_valid_iff:
  "ip4_addr_netmask_valid m \<longleftrightarrow> (\<exists>k\<le>32. lwip_htonl m = NOT (mask k))"
  using netmask_scan [of 31 "lwip_htonl m"] ones_then_zeros [of "lwip_htonl m"]
  by (simp add: ip4_addr_netmask_valid_def Let_def le31)

section \<open>Writing and reading a byte\<close>

lemma inv_digits_step:
  "b div 10 \<noteq> 0 \<Longrightarrow> inv_digits b = (48 + b mod 10) # inv_digits (b div 10)"
  "b div 10 = 0 \<Longrightarrow> inv_digits b = [48 + b mod 10]"
  by (subst inv_digits.simps, simp add: Let_def)+

lemma byte_split: "ucast (b div 10) * 10 + ucast (b mod 10) = (ucast b :: u32)" for b :: u8
proof -
  have "unat (b div 10) * 10 + unat (b mod 10) = unat b" by (simp add: unat_div unat_mod)
  then have "(of_nat (unat (b div 10) * 10 + unat (b mod 10)) :: u32) = of_nat (unat b)" by simp
  then show ?thesis by simp
qed

lemma digit_char:
  "lwip_isdigit (48 + b mod 10)" "ucast (48 + b mod 10) - 48 = (ucast (b mod 10) :: u32)" for b :: u8
proof -
  have u: "unat (48 + b mod 10) = 48 + unat (b mod 10)" and m: "unat (b mod 10) < 10"
    by (simp_all add: unat_word_ariths unat_mod)
  show "lwip_isdigit (48 + b mod 10)"
    unfolding lwip_isdigit_def word_le_nat_alt u using m by simp
  have "(ucast (48 + b mod 10) :: u32) = of_nat (unat (48 + b mod 10))" by simp
  also have "\<dots> = 48 + ucast (b mod 10)" unfolding u by simp
  finally show "ucast (48 + b mod 10) - 48 = (ucast (b mod 10) :: u32)" by simp
qed

lemma collect_digits:
  "collect_number 10 v (rev (inv_digits b) @ s) =
     collect_number 10 (v * 10 ^ length (inv_digits b) + ucast b) s"
proof (induction b arbitrary: s rule: inv_digits.induct)
  case (1 b)
  show ?case
  proof (cases "b div 10 = 0")
    case True
    then have "ucast (b mod 10) = (ucast b :: u32)" using byte_split [of b] by simp
    then show ?thesis using True by (simp add: inv_digits_step digit_char)
  next
    case False
    note IH = 1 [OF refl refl False]
    have "v * 10 ^ length (inv_digits (b div 10)) * 10 + ucast (b div 10) * 10 + ucast (b mod 10) =
        v * 10 ^ Suc (length (inv_digits (b div 10))) + ucast b"
      using byte_split [of b] by (simp add: ac_simps)
    then show ?thesis
      using False by (simp add: inv_digits_step IH digit_char del: power_Suc)
  qed
qed

lemma first_digit: "b \<noteq> 0 \<Longrightarrow> last (inv_digits b) \<noteq> 48 \<and> lwip_isdigit (last (inv_digits b))"
proof (induction b rule: inv_digits.induct)
  case (1 b)
  show ?case
  proof (cases "b div 10 = 0")
    case True
    then have "b mod 10 = b" by (metis add.left_neutral div_mult_mod_eq mult_zero_left)
    then show ?thesis using 1(2) True digit_char(1) [of b] by (simp add: inv_digits_step)
  next
    case False
    moreover have "inv_digits (b div 10) \<noteq> []" by (subst inv_digits.simps) (simp add: Let_def)
    ultimately show ?thesis using 1(1) [OF refl refl False False] by (simp add: inv_digits_step)
  qed
qed

lemma inv_digits_zero: "inv_digits 0 = [48]"
  by (subst inv_digits.simps) (simp add: Let_def)

lemma inv_digits_nonempty: "inv_digits b \<noteq> []"
  by (subst inv_digits.simps) (simp add: Let_def)

lemma length_inv_digits: "length (inv_digits b) \<le> 3"
proof -
  have "unat b < 1000" using less_trans [OF unat_u8_less [of b]] by simp
  then have "unat (b div 10 div 10 div 10) = 0" by (simp add: unat_div div_mult2_eq [symmetric])
  then have z: "b div 10 div 10 div 10 = 0" by (simp add: unat_eq_zero)
  have 1: "length (inv_digits (b div 10 div 10)) = 1" by (simp add: inv_digits_step z)
  have 2: "length (inv_digits (b div 10)) \<le> 2"
    using 1 by (cases "b div 10 div 10 = 0") (simp_all add: inv_digits_step)
  show ?thesis using 2 by (cases "b div 10 = 0") (simp_all add: inv_digits_step)
qed

section \<open>The dotted notation is read back\<close>

definition ip_text :: "u8 list \<Rightarrow> u8 list" where
  "ip_text bs = concat (map (\<lambda>b. rev (inv_digits b) @ [46]) bs)"

lemma put_chars_room:
  "length out + length cs \<le> n \<Longrightarrow> put_chars n out cs = Some (out @ cs)"
  by (induction n out cs rule: put_chars.induct) auto

lemma put_chars_full: "cs \<noteq> [] \<Longrightarrow> n < length out + length cs \<Longrightarrow> put_chars n out cs = None"
proof (induction n out cs rule: put_chars.induct)
  case (2 n out c cs)
  then show ?case by (cases cs) auto
qed simp

lemma ntoa_room: "length out + length (ip_text bs) \<le> n \<Longrightarrow> ntoa_loop n out bs = Some (out @ ip_text bs)"
  by (induction n out bs rule: ntoa_loop.induct) (simp_all add: ip_text_def put_chars_room)

lemma ntoa_full: "bs \<noteq> [] \<Longrightarrow> n < length out + length (ip_text bs) \<Longrightarrow> ntoa_loop n out bs = None"
proof (induction n out bs rule: ntoa_loop.induct)
  case (2 n out b bs)
  let ?d = "rev (inv_digits b)"
  have tail: "length (ip_text (b # bs)) = length ?d + 1 + length (ip_text bs)" by (simp add: ip_text_def)
  show ?case
  proof (cases "length out + length ?d + 1 \<le> n")
    case True
    then have "put_chars n out ?d = Some (out @ ?d)" "put_chars n (out @ ?d) [46] = Some ((out @ ?d) @ [46])"
      by (intro put_chars_room; simp)+
    moreover from this have "ntoa_loop n ((out @ ?d) @ [46]) bs = None" if "bs \<noteq> []"
      using 2(1) [OF _ _ that] 2(3) tail by simp
    moreover have "bs \<noteq> []" using True 2(3) tail by (auto simp: ip_text_def)
    ultimately show ?thesis by simp
  next
    case False
    then show ?thesis
      by (cases "length out + length ?d \<le> n")
        (simp_all add: put_chars_room put_chars_full inv_digits_nonempty)
  qed
qed simp

lemma ntoa_r_cases:
  "ip4addr_ntoa_r addr n =
     (if length (ip_text (bytes32 addr)) \<le> n then Some (butlast (ip_text (bytes32 addr)) @ [0]) else None)"
proof -
  have "bytes32 addr \<noteq> []" by (simp add: bytes32_def)
  then show ?thesis by (simp add: ip4addr_ntoa_r_def ntoa_room ntoa_full)
qed

lemma dotted_fits: "length (ip_text (bytes32 addr)) \<le> 16"
  using length_inv_digits [of "ucast addr"] length_inv_digits [of "ucast (drop_bit 8 addr)"]
    length_inv_digits [of "ucast (drop_bit 16 addr)"] length_inv_digits [of "ucast (drop_bit 24 addr)"]
  by (simp add: ip_text_def bytes32_def)

lemma number_of_digits:
  "\<not> lwip_isdigit c \<Longrightarrow> c \<noteq> 120 \<Longrightarrow> c \<noteq> 88 \<Longrightarrow>
   \<exists>base ds. number_base (rev (inv_digits b) @ c # s) = Some (base, ds) \<and>
     collect_number base 0 ds = Some (ucast b, c # s)"
proof (cases "b = 0")
  case True
  assume "\<not> lwip_isdigit c" "c \<noteq> 120" "c \<noteq> 88"
  then show ?thesis using True by (simp add: inv_digits_zero number_base_def)
next
  case False
  assume c: "\<not> lwip_isdigit c"
  obtain d ds where d: "rev (inv_digits b) = d # ds" using inv_digits_nonempty [of b] by (cases "rev (inv_digits b)") auto
  then have "d \<noteq> 48" using first_digit [OF False] by (metis hd_rev list.sel(1))
  then have "number_base (rev (inv_digits b) @ c # s) = Some (10, rev (inv_digits b) @ c # s)"
    by (simp add: d number_base_def)
  then show ?thesis using c by (simp add: collect_digits)
qed

lemma starts_with_digit:
  "\<exists>d ds. rev (inv_digits b) @ s = d # ds \<and> lwip_isdigit d"
proof -
  have "lwip_isdigit (last (inv_digits b))"
    using first_digit [of b] by (cases "b = 0") (simp_all add: inv_digits_zero lwip_isdigit_def)
  moreover obtain d ds where "rev (inv_digits b) = d # ds"
    using inv_digits_nonempty [of b] by (cases "rev (inv_digits b)") auto
  ultimately show ?thesis by (metis append_Cons hd_rev list.sel(1))
qed

lemma aton_part:
  "length parts < 3 \<Longrightarrow> aton_loop (rev (inv_digits b) @ 46 # s) parts = aton_loop s (parts @ [ucast b])"
  "aton_loop (rev (inv_digits b) @ [0]) parts = Aton_parts parts (ucast b) 0"
proof -
  obtain d ds where d: "rev (inv_digits b) @ 46 # s = d # ds" "lwip_isdigit d"
    using starts_with_digit by blast
  show "length parts < 3 \<Longrightarrow> aton_loop (rev (inv_digits b) @ 46 # s) parts = aton_loop s (parts @ [ucast b])"
    using d number_of_digits [of 46 b s] by (subst aton_loop.simps) (auto simp: lwip_isdigit_def)
  obtain d ds where d: "rev (inv_digits b) @ [0] = d # ds" "lwip_isdigit d"
    using starts_with_digit by blast
  show "aton_loop (rev (inv_digits b) @ [0]) parts = Aton_parts parts (ucast b) 0"
    using d number_of_digits [of 0 b "[]"] by (subst aton_loop.simps) (auto simp: lwip_isdigit_def)
qed

lemma join_bytes:
  "aton_join [ucast a, ucast b, ucast c] (ucast d) = Some (le32 d c b a)" for a b c d :: u8
proof -
  have "\<not> 0xFF < (ucast x :: u32)" for x :: u8
    using unat_u8_le [of x] by (simp add: word_less_nat_alt not_less)
  then show ?thesis by (simp add: aton_join_def le32_def ac_simps)
qed

lemma aton_dotted: "ip4addr_aton (butlast (ip_text [a, b, c, d]) @ [0]) = Inr (Some (le32 a b c d))"
proof -
  have s: "butlast (ip_text [a, b, c, d]) @ [0] =
      rev (inv_digits a) @ 46 # rev (inv_digits b) @ 46 # rev (inv_digits c) @ 46 # rev (inv_digits d) @ [0]"
    by (simp add: ip_text_def butlast_append)
  show ?thesis by (simp add: s ip4addr_aton_def aton_part join_bytes byte_simps)
qed

text \<open>
  C28: Writing an address and reading it back gives the address: every IPv4 address has a ip_text
  notation that fits the 16 characters of \<open>ip4addr_ntoa\<close>, the reentrant version fails exactly for a
  buffer shorter than that notation, and \<open>ip4addr_aton\<close> and \<open>ipaddr_addr\<close> map the notation back to
  the address.
\<close>

theorem dotted_roundtrip:
  "\<exists>s. ip4addr_ntoa a = Some s \<and> length s \<le> 16 \<and>
     ip4addr_aton s = Inr (Some a) \<and> ipaddr_addr s = Inr a \<and>
     (\<forall>n. ip4addr_ntoa_r a n = (if length s \<le> n then Some s else None))"
proof -
  let ?s = "butlast (ip_text (bytes32 a)) @ [0]"
  have len: "length ?s = length (ip_text (bytes32 a))" by (simp add: ip_text_def bytes32_def)
  obtain w x y z where a: "a = le32 w x y z" by (rule word32_cases)
  have "ip4addr_aton ?s = Inr (Some a)"
    using aton_dotted [of w x y z] by (simp add: a bytes32_le32)
  moreover have "ip4addr_ntoa_r a n = (if length ?s \<le> n then Some ?s else None)" for n
    unfolding len by (rule ntoa_r_cases)
  ultimately show ?thesis
    using dotted_fits [of a] len by (intro exI [of _ ?s]) (simp add: ip4addr_ntoa_def ipaddr_addr_def)
qed

text \<open>
  \<open>ip4_addr_netmask_valid\<close> accepts exactly the netmasks of the prefix lengths 0 to 32: in host order
  some number of ones followed by zeros only.
\<close>

lemma netmask_valid_prefixes:
  "ip4_addr_netmask_valid m \<longleftrightarrow> m \<in> (\<lambda>k. lwip_htonl (NOT (mask k))) ` {0..32}"
proof -
  have "lwip_htonl m = NOT (mask k) \<longleftrightarrow> m = lwip_htonl (NOT (mask k))" for k
    by (metis lwip_htonl_htonl)
  then show ?thesis unfolding netmask_valid_iff by (simp only: image_iff atLeast0AtMost atMost_iff Bex_def)
qed

end
