(* ===== verification/PbufRef.thy ===== *)
theory PbufRef
  imports Pbuf
begin

text \<open>
  \<open>lwip/core/pbuf.c\<close>: reference counts of the packet buffers. Here the buffers are nodes of a heap (a
  list; \<open>None\<close> is a structure that is not allocated), with their \<open>next\<close> pointers, so that chains may share
  their tails. What is given back to which allocator is logged.
\<close>

section \<open>The heap of buffers\<close>

record pnode =
  pn_buf :: pbuf
  pn_next :: "nat option"

type_synonym pheap = "pnode option list"

datatype ref_error = REF_ASSERT | DANGLING | CHAIN_LOOP

definition node_at :: "pheap \<Rightarrow> nat \<Rightarrow> pnode option" where
  "node_at h i = (if i < length h then h ! i else None)"

definition deref :: "pheap \<Rightarrow> nat \<Rightarrow> ref_error + pnode" where
  "deref h i = (case node_at h i of None \<Rightarrow> Inl DANGLING | Some n \<Rightarrow> Inr n)"

abbreviation (input) "PBUF_FLAG_IS_CUSTOM \<equiv> 0x02 :: u8"

text \<open>The allocators; a custom buffer goes to its own \<open>custom_free_function\<close>.\<close>

datatype alloc_src = Src_custom | Src_pool | Src_struct | Src_heap

definition pbuf_get_allocsrc :: "pbuf \<Rightarrow> u8" where
  "pbuf_get_allocsrc p = pf_type_internal p AND 0x0F"

definition free_to :: "pbuf \<Rightarrow> ref_error + alloc_src" where
  "free_to p =
     (if pf_flags p AND PBUF_FLAG_IS_CUSTOM \<noteq> 0 then Inr Src_custom
      else if pbuf_get_allocsrc p = 0x02 then Inr Src_pool
      else if pbuf_get_allocsrc p = 0x01 then Inr Src_struct
      else if pbuf_get_allocsrc p = 0x00 then Inr Src_heap
      else Inl REF_ASSERT)"

definition upd_buf :: "(pbuf \<Rightarrow> pbuf) \<Rightarrow> pnode \<Rightarrow> pnode" where
  "upd_buf f n = n\<lparr>pn_buf := f (pn_buf n)\<rparr>"

section \<open>Operations\<close>

text \<open>
  The loop of \<open>pbuf_free\<close>: it stops at the first buffer that is still referenced. Every turn that goes on
  releases a structure.
\<close>

function free_loop :: "nat option \<Rightarrow> u8 \<Rightarrow> (nat \<times> alloc_src) list \<Rightarrow> pheap \<Rightarrow> ref_error + u8 \<times> (nat \<times> alloc_src) list \<times> pheap" where
  "free_loop p count log h =
     (case p of
        None \<Rightarrow> Inr (count, log, h)
      | Some i \<Rightarrow>
          bindR (deref h i) (\<lambda>n.
            if pf_ref (pn_buf n) = 0 then Inl REF_ASSERT
            else if pf_ref (pn_buf n) - 1 = 0
            then bindR (free_to (pn_buf n)) (\<lambda>s. free_loop (pn_next n) (count + 1) (log @ [(i, s)]) (h[i := None]))
            else Inr (count, log, h[i := Some (upd_buf (\<lambda>b. b\<lparr>pf_ref := pf_ref b - 1\<rparr>) n)])))"
  by pat_completeness auto

lemma count_freed:
  "node_at h i = Some n \<Longrightarrow> length (filter (\<lambda>x. x \<noteq> None) (h[i := None])) < length (filter (\<lambda>x. x \<noteq> None) h)"
proof (induction h arbitrary: i)
  case (Cons x h)
  then show ?case by (cases i) (auto simp: node_at_def less_Suc_eq_0_disj split: if_splits)
qed (simp add: node_at_def)

lemma deref_Inr [simp]: "deref h i = Inr n \<longleftrightarrow> node_at h i = Some n"
  by (auto simp: deref_def split: option.splits)

termination free_loop
  by (relation "measure (\<lambda>(p, count, log, h). length (filter (\<lambda>x. x \<noteq> None) h))") (auto dest: count_freed)

declare free_loop.simps [simp del]

definition pbuf_free :: "nat option \<Rightarrow> pheap \<Rightarrow> ref_error + u8 \<times> (nat \<times> alloc_src) list \<times> pheap" where
  "pbuf_free p h = (if p = None then Inl REF_ASSERT else free_loop p 0 [] h)"

definition pbuf_ref :: "nat option \<Rightarrow> pheap \<Rightarrow> ref_error + pheap" where
  "pbuf_ref p h =
     (case p of
        None \<Rightarrow> Inr h
      | Some i \<Rightarrow>
          bindR (deref h i) (\<lambda>n.
            let n = upd_buf (\<lambda>b. b\<lparr>pf_ref := pf_ref b + 1\<rparr>) n
            in if pf_ref (pn_buf n) = 0 then Inl REF_ASSERT else Inr (h[i := Some n])))"

text \<open>
  \<open>pbuf_cat\<close> walks to the last buffer of the head. A chain cannot be longer than the heap, so that many
  steps suffice unless the chain is a circle.
\<close>

fun cat_loop :: "nat \<Rightarrow> nat \<Rightarrow> nat \<Rightarrow> pheap \<Rightarrow> ref_error + pheap" where
  "cat_loop 0 p t h = Inl CHAIN_LOOP"
| "cat_loop (Suc fuel) p t h =
     bindR (deref h p) (\<lambda>n.
     bindR (deref h t) (\<lambda>m.
       let n' = upd_buf (\<lambda>b. b\<lparr>pf_tot_len := pf_tot_len b + pf_tot_len (pn_buf m)\<rparr>) n
       in case pn_next n of
            Some q \<Rightarrow> cat_loop fuel q t (h[p := Some n'])
          | None \<Rightarrow>
              if pf_tot_len (pn_buf n) \<noteq> pf_len (pn_buf n) then Inl REF_ASSERT
              else Inr (h[p := Some (n'\<lparr>pn_next := Some t\<rparr>)])))"

definition pbuf_cat_heap :: "nat option \<Rightarrow> nat option \<Rightarrow> pheap \<Rightarrow> ref_error + pheap" where
  "pbuf_cat_heap h t hp =
     (case (h, t) of (Some p, Some q) \<Rightarrow> cat_loop (Suc (length hp)) p q hp | _ \<Rightarrow> Inr hp)"

definition pbuf_chain :: "nat option \<Rightarrow> nat option \<Rightarrow> pheap \<Rightarrow> ref_error + pheap" where
  "pbuf_chain h t hp = bindR (pbuf_cat_heap h t hp) (pbuf_ref t)"

text \<open>The remainder of the chain is returned, or \<open>None\<close> when nobody else refers to it.\<close>

definition pbuf_dechain :: "nat \<Rightarrow> pheap \<Rightarrow> ref_error + nat option \<times> (nat \<times> alloc_src) list \<times> pheap" where
  "pbuf_dechain p h =
     bindR (deref h p) (\<lambda>n.
       case pn_next n of
         None \<Rightarrow> if pf_tot_len (pn_buf n) \<noteq> pf_len (pn_buf n) then Inl REF_ASSERT else Inr (None, [], h)
       | Some q \<Rightarrow>
           bindR (deref h q) (\<lambda>m.
             let rest = pf_tot_len (pn_buf n) - pf_len (pn_buf n)
             in if unat (pf_tot_len (pn_buf m)) \<noteq> unat (pf_tot_len (pn_buf n)) - unat (pf_len (pn_buf n)) \<or>
                   unat (pf_tot_len (pn_buf n)) < unat (pf_len (pn_buf n)) then Inl REF_ASSERT
                else
                  let h = h[q := Some (upd_buf (\<lambda>b. b\<lparr>pf_tot_len := rest\<rparr>) m)];
                      h = h[p := Some (upd_buf (\<lambda>b. b\<lparr>pf_tot_len := pf_len b\<rparr>) n\<lparr>pn_next := None\<rparr>)]
                  in bindR (pbuf_free (Some q) h) (\<lambda>(tail_gone, log, h).
                       Inr (if 0 < tail_gone then None else Some q, log, h))))"

text \<open>
  \<open>pbuf_free_header\<close>: buffers that lie in the header are cut off and released. Every turn cuts a link or
  ends the chain.
\<close>

definition nx :: "pheap \<Rightarrow> nat \<Rightarrow> nat option" where
  "nx h i = (case node_at h i of None \<Rightarrow> None | Some n \<Rightarrow> pn_next n)"

lemma node_at_upd: "i < length h \<Longrightarrow> node_at (h[i := x]) j = (if j = i then x else node_at h j)"
  by (auto simp: node_at_def nth_list_update)

lemma node_at_less: "node_at h i = Some n \<Longrightarrow> i < length h"
  by (auto simp: node_at_def split: if_splits)

lemma upd_buf_simps [simp]: "pn_next (upd_buf f n) = pn_next n" "pn_buf (upd_buf f n) = f (pn_buf n)"
  by (simp_all add: upd_buf_def)

lemma free_loop_links:
  "free_loop p count log h = Inr (c, fs, h') \<Longrightarrow> length h' = length h \<and> (\<forall>i. nx h' i = None \<or> nx h' i = nx h i)"
proof (induction p count log h rule: free_loop.induct)
  case (1 p count log h)
  show ?case
  proof (cases p)
    case None
    then show ?thesis using 1(2) by (simp add: free_loop.simps)
  next
    case (Some i)
    then obtain n where n: "node_at h i = Some n" and nz: "pf_ref (pn_buf n) \<noteq> 0"
      using 1(2) by (subst (asm) free_loop.simps) (auto simp: bindR_Inr_iff split: if_splits)
    have i: "i < length h" using n by (rule node_at_less)
    show ?thesis
    proof (cases "pf_ref (pn_buf n) - 1 = 0")
      case True
      obtain s where s: "free_to (pn_buf n) = Inr s"
          "free_loop (pn_next n) (count + 1) (log @ [(i, s)]) (h[i := None]) = Inr (c, fs, h')"
        using 1(2) n nz True by (subst (asm) free_loop.simps) (auto simp: Some bindR_Inr_iff)
      show ?thesis
        using 1(1) [OF Some _ nz True s(1) s(2)] n i by (auto simp: nx_def node_at_upd split: if_splits)
    next
      case False
      have "h' = h[i := Some (upd_buf (\<lambda>b. b\<lparr>pf_ref := pf_ref b - 1\<rparr>) n)]"
        using 1(2) n nz False by (subst (asm) free_loop.simps) (auto simp: Some bindR_Inr_iff)
      then show ?thesis using n i by (auto simp: nx_def node_at_upd)
    qed
  qed
qed

definition link_count :: "pheap \<Rightarrow> nat" where
  "link_count h = card {i. i < length h \<and> nx h i \<noteq> None}"

lemma link_count_mono:
  "length h' = length h \<Longrightarrow> \<forall>i. nx h' i = None \<or> nx h' i = nx h i \<Longrightarrow> link_count h' \<le> link_count h"
  unfolding link_count_def by (rule card_mono) (auto, metis option.distinct(1))

lemma link_count_cut:
  assumes n: "node_at h i = Some n" and x: "pn_next n \<noteq> None"
  shows "link_count (h[i := Some (n\<lparr>pn_next := None\<rparr>)]) < link_count h" (is "link_count ?h < _")
proof -
  have i: "i < length h" using n by (rule node_at_less)
  have nx: "nx ?h j = (if j = i then None else nx h j)" for j using i by (simp add: nx_def node_at_upd)
  have "{j. j < length ?h \<and> nx ?h j \<noteq> None} \<subset> {j. j < length h \<and> nx h j \<noteq> None}"
  proof (rule psubsetI)
    show "{j. j < length ?h \<and> nx ?h j \<noteq> None} \<noteq> {j. j < length h \<and> nx h j \<noteq> None}"
      using i n x nx [of i] by (auto simp: set_eq_iff nx_def intro!: exI [of _ i])
  qed (auto simp: nx)
  then show ?thesis unfolding link_count_def by (intro psubset_card_mono) auto
qed

function free_header_loop :: "nat option \<Rightarrow> u16 \<Rightarrow> (nat \<times> alloc_src) list \<Rightarrow> pheap \<Rightarrow> ref_error + nat option \<times> (nat \<times> alloc_src) list \<times> pheap" where
  "free_header_loop p free_left log h =
     (case p of
        None \<Rightarrow> Inr (None, log, h)
      | Some i \<Rightarrow>
          if free_left = 0 then Inr (p, log, h)
          else
            bindR (deref h i) (\<lambda>n.
              if pf_len (pn_buf n) \<le> free_left
              then bindR (pbuf_free (Some i) (h[i := Some (n\<lparr>pn_next := None\<rparr>)])) (\<lambda>(count, fs, h').
                     free_header_loop (pn_next n) (free_left - pf_len (pn_buf n)) (log @ fs) h')
              else Inr (p, log, h[i := Some (upd_buf (\<lambda>b. snd (pbuf_remove_header b (unat free_left))) n)])))"
  by pat_completeness auto

lemma free_header_measure:
  assumes n: "node_at h i = Some n" and f: "pbuf_free (Some i) (h[i := Some (n\<lparr>pn_next := None\<rparr>)]) = Inr (c, fs, h')"
  shows "link_count h' + (if pn_next n = None then 0 else 1) < link_count h + 1"
proof -
  let ?h = "h[i := Some (n\<lparr>pn_next := None\<rparr>)]"
  have le: "link_count h' \<le> link_count ?h"
    using f free_loop_links [of "Some i" 0 "[]" ?h c fs h'] by (intro link_count_mono) (simp_all add: pbuf_free_def)
  show ?thesis
  proof (cases "pn_next n = None")
    case True
    then have "Some (n\<lparr>pn_next := None\<rparr>) = h ! i" using n by (cases n) (auto simp: node_at_def split: if_splits)
    then have "?h = h" using list_update_id [of h i] by metis
    then show ?thesis using le True by simp
  next
    case False
    then show ?thesis using le link_count_cut [OF n False] by simp
  qed
qed

termination free_header_loop
  by (relation "measure (\<lambda>(p, free_left, log, h). link_count h + (if p = None then 0 else 1))")
    (auto dest: free_header_measure)

declare free_header_loop.simps [simp del]

definition pbuf_free_header :: "nat \<Rightarrow> u16 \<Rightarrow> pheap \<Rightarrow> ref_error + nat option \<times> (nat \<times> alloc_src) list \<times> pheap" where
  "pbuf_free_header q sz h = free_header_loop (Some q) sz [] h"

section \<open>References are counted exactly\<close>

definition rf :: "pheap \<Rightarrow> nat \<Rightarrow> nat" where
  "rf h i = (case node_at h i of None \<Rightarrow> 0 | Some n \<Rightarrow> unat (pf_ref (pn_buf n)))"

definition live :: "pheap \<Rightarrow> nat \<Rightarrow> bool" where
  "live h i \<longleftrightarrow> node_at h i \<noteq> None"

definition preds :: "pheap \<Rightarrow> nat \<Rightarrow> nat set" where
  "preds h i = {j. nx h j = Some i}"

definition good_src :: "pbuf \<Rightarrow> bool" where
  "good_src p \<longleftrightarrow> pf_flags p AND PBUF_FLAG_IS_CUSTOM \<noteq> 0 \<or> pbuf_get_allocsrc p \<in> {0, 1, 2}"

text \<open>
  \<open>ext i\<close> is the number of references to buffer \<open>i\<close> from outside the heap. The documented meaning of the
  reference count: it is the number of pointers to the buffer, from chains and from outside; nothing points to
  what is not allocated.
\<close>

definition rc_inv :: "(nat \<Rightarrow> nat) \<Rightarrow> pheap \<Rightarrow> bool" where
  "rc_inv ext h \<longleftrightarrow>
     (\<forall>i. rf h i = card (preds h i) + ext i) \<and> (\<forall>i. live h i \<longrightarrow> 0 < rf h i) \<and>
     (\<forall>i n. node_at h i = Some n \<longrightarrow> good_src (pn_buf n))"

definition drop_ref :: "(nat \<Rightarrow> nat) \<Rightarrow> nat option \<Rightarrow> nat \<Rightarrow> nat" where
  "drop_ref ext p = (case p of None \<Rightarrow> ext | Some i \<Rightarrow> ext(i := ext i - 1))"

definition add_ref :: "(nat \<Rightarrow> nat) \<Rightarrow> nat option \<Rightarrow> nat \<Rightarrow> nat" where
  "add_ref ext p = (case p of None \<Rightarrow> ext | Some i \<Rightarrow> ext(i := ext i + 1))"

lemma nx_upd: "i < length h \<Longrightarrow> nx (h[i := x]) j = (if j = i then (case x of None \<Rightarrow> None | Some n \<Rightarrow> pn_next n) else nx h j)"
  by (simp add: nx_def node_at_upd)

lemma rf_upd: "i < length h \<Longrightarrow> rf (h[i := x]) j = (if j = i then (case x of None \<Rightarrow> 0 | Some n \<Rightarrow> unat (pf_ref (pn_buf n))) else rf h j)"
  by (simp add: rf_def node_at_upd)

lemma finite_preds [simp]: "finite (preds h i)"
proof (rule finite_subset)
  show "preds h i \<subseteq> {..<length h}"
    by (auto simp: preds_def nx_def dest: node_at_less split: option.splits)
qed simp

lemma good_srcD: "good_src p \<Longrightarrow> \<exists>s. free_to p = Inr s"
  by (auto simp: good_src_def free_to_def)

lemma good_src_ref [simp]: "good_src (b\<lparr>pf_ref := x\<rparr>) = good_src b"
  by (simp add: good_src_def pbuf_get_allocsrc_def)

lemma rc_invD:
  assumes "rc_inv ext h"
  shows "rf h i = card (preds h i) + ext i" "node_at h i = Some n \<Longrightarrow> 0 < rf h i" "node_at h i = Some n \<Longrightarrow> good_src (pn_buf n)"
  using assms by (auto simp: rc_inv_def live_def)

lemma rc_ext_live: "rc_inv ext h \<Longrightarrow> 0 < ext i \<Longrightarrow> \<exists>n. node_at h i = Some n"
  using rc_invD(1) [of ext h i] by (auto simp: rf_def split: option.splits)

lemma rc_next_live: "rc_inv ext h \<Longrightarrow> nx h i = Some j \<Longrightarrow> \<exists>n. node_at h j = Some n"
proof -
  assume inv: "rc_inv ext h" and "nx h i = Some j"
  then have "i \<in> preds h j" by (simp add: preds_def)
  then have "0 < card (preds h j)" by (auto simp: card_gt_0_iff)
  then show ?thesis using rc_invD(1) [OF inv, of j] by (auto simp: rf_def split: option.splits)
qed

text \<open>One reference less to a buffer that has others, and the release of one that has none.\<close>

lemma rc_decrement:
  assumes inv: "rc_inv ext h" and n: "node_at h i = Some n" and e: "0 < ext i" and r: "1 < rf h i"
  shows "rc_inv (ext(i := ext i - 1)) (h[i := Some (upd_buf (\<lambda>b. b\<lparr>pf_ref := pf_ref b - 1\<rparr>) n)])"
    (is "rc_inv ?e ?h")
proof -
  have i: "i < length h" using n by (rule node_at_less)
  have u: "unat (pf_ref (pn_buf n) - 1) = rf h i - 1"
  proof -
    have "pf_ref (pn_buf n) \<noteq> 0" using r n by (auto simp: rf_def)
    then show ?thesis using n by (simp add: rf_def unat_dec)
  qed
  have nx: "nx ?h j = nx h j" for j using n i by (simp add: nx_upd) (simp add: nx_def)
  have rf: "rf ?h j = (if j = i then rf h i - 1 else rf h j)" for j using i u by (simp add: rf_upd)
  have p: "preds ?h j = preds h j" for j by (simp add: preds_def nx)
  have "rf ?h j = card (preds ?h j) + ?e j" for j
    using rc_invD(1) [OF inv, of j] e by (cases "j = i") (simp_all add: rf p)
  moreover have "0 < rf ?h j" if "live ?h j" for j
    using that rc_invD(2) [OF inv, of j] r i by (auto simp: rf live_def node_at_upd split: if_splits)
  moreover have "good_src (pn_buf m)" if "node_at ?h j = Some m" for j m
    using that rc_invD(3) [OF inv] n i by (auto simp: node_at_upd split: if_splits)
  ultimately show ?thesis by (simp add: rc_inv_def)
qed

lemma rc_release:
  assumes inv: "rc_inv ext h" and n: "node_at h i = Some n" and e: "0 < ext i" and r: "rf h i = 1"
  shows "rc_inv (add_ref (ext(i := ext i - 1)) (pn_next n)) (h[i := None])" (is "rc_inv ?e ?h")
proof -
  have i: "i < length h" using n by (rule node_at_less)
  have e1: "ext i = 1" using rc_invD(1) [OF inv, of i] r e by linarith
  have "card (preds h i) = 0" using rc_invD(1) [OF inv, of i] r e1 by linarith
  then have p0: "preds h i = {}" by simp
  have nx: "nx ?h j = (if j = i then None else nx h j)" for j using i by (simp add: nx_upd)
  have nxi: "nx h i = pn_next n" using n by (simp add: nx_def)
  have p: "preds ?h j = preds h j - {i}" for j by (auto simp: preds_def nx)
  have rf: "rf ?h j = (if j = i then 0 else rf h j)" for j using i by (simp add: rf_upd)
  have "rf ?h j = card (preds ?h j) + ?e j" for j
  proof (cases "pn_next n = Some j")
    case True
    then have mem: "i \<in> preds h j" by (simp add: preds_def nxi)
    then have c: "card (preds h j) = Suc (card (preds h j - {i}))" by (rule card.remove [OF finite_preds])
    have ne: "j \<noteq> i" using p0 mem by auto
    have "?e j = ext j + 1" using True ne by (simp add: add_ref_def)
    then show ?thesis unfolding rf p using rc_invD(1) [OF inv, of j] c ne by simp
  next
    case False
    then have "i \<notin> preds h j" by (simp add: preds_def nxi)
    then have c: "preds h j - {i} = preds h j" by simp
    have "?e j = (if j = i then 0 else ext j)" using False e1 by (auto simp: add_ref_def split: option.splits)
    then show ?thesis unfolding rf p c using rc_invD(1) [OF inv, of j] p0 by (cases "j = i") simp_all
  qed
  moreover have "0 < rf ?h j" if "live ?h j" for j
    using that rc_invD(2) [OF inv, of j] i by (auto simp: rf live_def node_at_upd split: if_splits)
  moreover have "good_src (pn_buf m)" if "node_at ?h j = Some m" for j m
    using that rc_invD(3) [OF inv] i by (auto simp: node_at_upd split: if_splits)
  ultimately show ?thesis by (simp add: rc_inv_def)
qed

text \<open>
  The effect of a release besides the counts: buffers that stay keep their contents and their links, and those
  that go are logged.
\<close>

definition same_but_ref :: "pnode \<Rightarrow> pnode \<Rightarrow> bool" where
  "same_but_ref n m \<longleftrightarrow> pn_next m = pn_next n \<and> (pn_buf m)\<lparr>pf_ref := 0\<rparr> = (pn_buf n)\<lparr>pf_ref := 0\<rparr>"

definition freed_exactly :: "pheap \<Rightarrow> nat set \<Rightarrow> pheap \<Rightarrow> bool" where
  "freed_exactly h gone h' \<longleftrightarrow> length h' = length h \<and>
     (\<forall>i. case node_at h' i of
            None \<Rightarrow> node_at h i = None \<or> i \<in> gone
          | Some m \<Rightarrow> i \<notin> gone \<and> (\<exists>n. node_at h i = Some n \<and> same_but_ref n m)) \<and>
     (\<forall>i \<in> gone. live h i)"

lemma freed_exactly_step:
  assumes f: "freed_exactly (h[i := None]) gone h'" and n: "node_at h i = Some n"
  shows "freed_exactly h (insert i gone) h'"
proof -
  have i: "i < length h" using n by (rule node_at_less)
  have "case node_at h' j of None \<Rightarrow> node_at h j = None \<or> j \<in> insert i gone
      | Some m \<Rightarrow> j \<notin> insert i gone \<and> (\<exists>k. node_at h j = Some k \<and> same_but_ref k m)" for j
    using f i unfolding freed_exactly_def
    by (cases "j = i") (auto simp: node_at_upd split: option.splits dest: spec [of _ j])
  then show ?thesis using f i n by (auto simp: freed_exactly_def live_def node_at_upd split: if_splits)
qed

lemma free_loop_exact:
  assumes "rc_inv ext h" and "\<And>i. p = Some i \<Longrightarrow> 0 < ext i"
  shows "\<exists>fs h'. free_loop p count log h = Inr (count + of_nat (length fs), log @ fs, h') \<and>
    rc_inv (drop_ref ext p) h' \<and> freed_exactly h (fst ` set fs) h' \<and> distinct (map fst fs)"
  using assms
proof (induction p count log h arbitrary: ext rule: free_loop.induct)
  case (1 p count log h)
  show ?case
  proof (cases p)
    case None
    have "same_but_ref n n" for n by (simp add: same_but_ref_def)
    then show ?thesis
      using 1(2) None
      by (intro exI [of _ "[]"] exI [of _ h]) (auto simp: free_loop.simps drop_ref_def freed_exactly_def split: option.splits)
  next
    case (Some i)
    have e: "0 < ext i" using 1(3) Some by simp
    obtain n where n: "node_at h i = Some n" using rc_ext_live [OF 1(2) e] by blast
    have i: "i < length h" using n by (rule node_at_less)
    have r: "0 < rf h i" using rc_invD(2) [OF 1(2) n] .
    then have r0: "pf_ref (pn_buf n) \<noteq> 0" using n by (auto simp: rf_def)
    show ?thesis
    proof (cases "rf h i = 1")
      case True
      then have r1: "pf_ref (pn_buf n) = 1" using n by (simp add: rf_def unat_eq_one)
      obtain s where s: "free_to (pn_buf n) = Inr s" using good_srcD rc_invD(3) [OF 1(2) n] by blast
      let ?e = "add_ref (ext(i := ext i - 1)) (pn_next n)"
      have inv: "rc_inv ?e (h[i := None])" using rc_release [OF 1(2) n e True] .
      have "\<exists>fs h'. free_loop (pn_next n) (count + 1) (log @ [(i, s)]) (h[i := None]) =
            Inr (count + 1 + of_nat (length fs), (log @ [(i, s)]) @ fs, h') \<and>
          rc_inv (drop_ref ?e (pn_next n)) h' \<and> freed_exactly (h[i := None]) (fst ` set fs) h' \<and> distinct (map fst fs)"
        using 1(1) [OF Some _ r0 _ s inv] n r1 by (simp add: add_ref_def)
      then obtain fs h' where fs: "free_loop (pn_next n) (count + 1) (log @ [(i, s)]) (h[i := None]) =
            Inr (count + 1 + of_nat (length fs), (log @ [(i, s)]) @ fs, h')"
          "rc_inv (drop_ref ?e (pn_next n)) h'" "freed_exactly (h[i := None]) (fst ` set fs) h'" "distinct (map fst fs)"
        by blast
      have gone: "i \<notin> fst ` set fs" using fs(3) i by (auto simp: freed_exactly_def live_def node_at_upd)
      have "drop_ref ?e (pn_next n) = drop_ref ext p"
        by (auto simp: drop_ref_def add_ref_def Some fun_eq_iff split: option.splits)
      moreover have "freed_exactly h (fst ` set ((i, s) # fs)) h'"
        using freed_exactly_step [OF fs(3) n] by simp
      moreover have "free_loop p count log h = Inr (count + of_nat (length ((i, s) # fs)), log @ (i, s) # fs, h')"
        using fs(1) n r1 s by (subst free_loop.simps) (simp add: Some deref_def add.commute add.left_commute)
      ultimately show ?thesis
        using fs(2,4) gone by (intro exI [of _ "(i, s) # fs"] exI [of _ h']) (simp add: image_iff)
    next
      case False
      then have r1: "1 < rf h i" using r by simp
      then have nz: "pf_ref (pn_buf n) - 1 \<noteq> 0" using n by (auto simp: rf_def)
      let ?h = "h[i := Some (upd_buf (\<lambda>b. b\<lparr>pf_ref := pf_ref b - 1\<rparr>) n)]"
      have "freed_exactly h {} ?h"
        using i n by (auto simp: freed_exactly_def node_at_upd same_but_ref_def split: option.splits)
      then show ?thesis
        using rc_decrement [OF 1(2) n e r1] n r0 nz
        by (intro exI [of _ "[]"] exI [of _ ?h]) (subst free_loop.simps, simp add: Some deref_def drop_ref_def)
    qed
  qed
qed

section \<open>Joining and splitting chains\<close>

definition links :: "pheap \<Rightarrow> (nat \<times> nat) set" where
  "links h = {(i, j). nx h i = Some j}"

definition good_nodes :: "pheap \<Rightarrow> bool" where
  "good_nodes h \<longleftrightarrow> (\<forall>i n. node_at h i = Some n \<longrightarrow> good_src (pn_buf n))"

lemma rc_inv_iff:
  "rc_inv ext h \<longleftrightarrow> (\<forall>i. rf h i = card (preds h i) + ext i) \<and> (\<forall>i. live h i \<longrightarrow> 0 < rf h i) \<and> good_nodes h"
  by (simp add: rc_inv_def good_nodes_def)

lemma good_src_fields [simp]:
  "good_src (b\<lparr>pf_tot_len := x\<rparr>) = good_src b" "good_src (b\<lparr>pf_len := y\<rparr>) = good_src b" "good_src (b\<lparr>pf_off := z\<rparr>) = good_src b"
  by (simp_all add: good_src_def pbuf_get_allocsrc_def)

text \<open>A change of one node that keeps its count and its type.\<close>

definition tweak :: "pheap \<Rightarrow> nat \<Rightarrow> nat option \<Rightarrow> pheap \<Rightarrow> bool" where
  "tweak h l x h' \<longleftrightarrow> live h l \<and> nx h' = (nx h)(l := x) \<and> rf h' = rf h \<and> live h' = live h \<and> (good_nodes h \<longrightarrow> good_nodes h')"

lemma tweak_node:
  assumes n: "node_at h l = Some n"
    and m: "pf_ref (pn_buf m) = pf_ref (pn_buf n)" "good_src (pn_buf n) \<Longrightarrow> good_src (pn_buf m)" "pn_next m = x"
  shows "tweak h l x (h[l := Some m])"
  using assms node_at_less [OF n]
  by (auto simp: tweak_def live_def good_nodes_def fun_eq_iff nx_upd rf_upd rf_def node_at_upd)

lemma tweak_same: "tweak h p (nx h p) h1 \<Longrightarrow> tweak h1 l x h2 \<Longrightarrow> tweak h l x h2"
  by (auto simp: tweak_def)

lemma rc_link:
  assumes inv: "rc_inv ext h" and t: "tweak h l (Some t) h'" and l: "nx h l = None" and e: "0 < ext t"
  shows "rc_inv (drop_ref ext (Some t)) h'"
proof -
  have p: "preds h' j = (if j = t then insert l (preds h j) else preds h j)" for j
    using t l by (auto simp: preds_def tweak_def)
  have "l \<notin> preds h t" using l by (simp add: preds_def)
  then show ?thesis using inv t e by (auto simp: rc_inv_iff p drop_ref_def tweak_def)
qed

lemma rc_cut:
  assumes inv: "rc_inv ext h" and t: "tweak h l None h'" and l: "nx h l = Some q"
  shows "rc_inv (add_ref ext (Some q)) h'"
proof -
  have p: "preds h' j = preds h j - (if j = q then {l} else {})" for j
    using t l by (auto simp: preds_def tweak_def)
  have "l \<in> preds h q" using l by (simp add: preds_def)
  then have c: "card (preds h q) = Suc (card (preds h q - {l}))" by (rule card.remove [OF finite_preds])
  have "rf h' j = card (preds h' j) + add_ref ext (Some q) j" for j
    using rc_invD(1) [OF inv, of j] c t unfolding p by (cases "j = q") (simp_all add: add_ref_def tweak_def)
  moreover have "\<forall>j. live h' j \<longrightarrow> 0 < rf h' j" "good_nodes h'" using inv t by (auto simp: rc_inv_iff tweak_def)
  ultimately show ?thesis unfolding rc_inv_iff by blast
qed

lemma cat_loop_tweak:
  "cat_loop fuel p t h = Inr h' \<Longrightarrow> \<exists>l. (p, l) \<in> (links h)\<^sup>* \<and> nx h l = None \<and> tweak h l (Some t) h'"
proof (induction fuel p t h rule: cat_loop.induct)
  case (2 fuel p t h)
  from "2.prems" obtain n m where n: "node_at h p = Some n" and m: "node_at h t = Some m"
    by (auto simp: bindR_Inr_iff)
  let ?n = "upd_buf (\<lambda>b. b\<lparr>pf_tot_len := pf_tot_len b + pf_tot_len (pn_buf m)\<rparr>) n"
  have nxp: "nx h p = pn_next n" using n by (simp add: nx_def)
  show ?case
  proof (cases "pn_next n")
    case None
    then have "h' = h[p := Some (?n\<lparr>pn_next := Some t\<rparr>)]"
      using "2.prems" n m by (auto simp: deref_def Let_def split: if_splits)
    then show ?thesis using tweak_node [OF n, of "?n\<lparr>pn_next := Some t\<rparr>" "Some t"] None nxp by auto
  next
    case (Some q)
    have "cat_loop fuel q t (h[p := Some ?n]) = Inr h'"
      using "2.prems" n m Some by (simp add: deref_def Let_def)
    then obtain l where l: "(q, l) \<in> (links (h[p := Some ?n]))\<^sup>*" "nx (h[p := Some ?n]) l = None"
        "tweak (h[p := Some ?n]) l (Some t) h'"
      using "2.IH" [of n m] n m Some by (auto simp: Let_def)
    have tw: "tweak h p (nx h p) (h[p := Some ?n])" using tweak_node [OF n, of ?n] nxp by simp
    then have nx: "nx (h[p := Some ?n]) = nx h" by (simp add: tweak_def)
    then have "(p, l) \<in> (links h)\<^sup>*" "nx h l = None"
      using l(1,2) Some nxp by (auto simp: links_def intro: converse_rtrancl_into_rtrancl)
    then show ?thesis using tweak_same [OF tw l(3)] by blast
  qed
qed simp

text \<open>The steps a program takes, with the references it holds.\<close>

type_synonym pbuf_state = "pheap \<times> (nat \<Rightarrow> nat)"

definition apart :: "pheap \<Rightarrow> nat \<Rightarrow> nat \<Rightarrow> bool" where
  "apart h p t \<longleftrightarrow> (\<forall>l. (p, l) \<in> (links h)\<^sup>* \<longrightarrow> (t, l) \<notin> (links h)\<^sup>*)"

inductive pbuf_reach :: "pheap \<Rightarrow> (nat \<Rightarrow> nat) \<Rightarrow> bool" where
  reach_empty: "pbuf_reach (replicate n None) (\<lambda>_. 0)"
| reach_alloc: "pbuf_reach h ext \<Longrightarrow> i < length h \<Longrightarrow> h ! i = None \<Longrightarrow>
    pbuf_reach (h[i := Some \<lparr>pn_buf = pbuf_init_alloced_pbuf mem off tot len type flags, pn_next = None\<rparr>]) (ext(i := 1))"
| reach_ref: "pbuf_reach h ext \<Longrightarrow> 0 < ext i \<Longrightarrow> pbuf_ref (Some i) h = Inr h' \<Longrightarrow> pbuf_reach h' (ext(i := ext i + 1))"
| reach_free: "pbuf_reach h ext \<Longrightarrow> 0 < ext i \<Longrightarrow> pbuf_free (Some i) h = Inr (count, log, h') \<Longrightarrow> pbuf_reach h' (ext(i := ext i - 1))"
| reach_cat: "pbuf_reach h ext \<Longrightarrow> 0 < ext p \<Longrightarrow> 0 < ext t \<Longrightarrow> apart h p t \<Longrightarrow> pbuf_cat_heap (Some p) (Some t) h = Inr h' \<Longrightarrow>
    pbuf_reach h' (ext(t := ext t - 1))"
| reach_chain: "pbuf_reach h ext \<Longrightarrow> 0 < ext p \<Longrightarrow> 0 < ext t \<Longrightarrow> apart h p t \<Longrightarrow> pbuf_chain (Some p) (Some t) h = Inr h' \<Longrightarrow>
    pbuf_reach h' ext"
| reach_dechain: "pbuf_reach h ext \<Longrightarrow> 0 < ext p \<Longrightarrow> pbuf_dechain p h = Inr (r, log, h') \<Longrightarrow> pbuf_reach h' ext"
| reach_free_header: "pbuf_reach h ext \<Longrightarrow> 0 < ext q \<Longrightarrow> pbuf_free_header q sz h = Inr (r, log, h') \<Longrightarrow>
    pbuf_reach h' (add_ref (drop_ref ext (Some q)) r)"
| reach_write: "pbuf_reach h ext \<Longrightarrow> node_at h i = Some n \<Longrightarrow> pf_ref b = pf_ref (pn_buf n) \<Longrightarrow>
    pf_type_internal b = pf_type_internal (pn_buf n) \<Longrightarrow> pf_flags b AND PBUF_FLAG_IS_CUSTOM = pf_flags (pn_buf n) AND PBUF_FLAG_IS_CUSTOM \<Longrightarrow>
    pbuf_reach (h[i := Some (n\<lparr>pn_buf := b\<rparr>)]) ext"

definition refs_ok :: "pheap \<Rightarrow> (nat \<Rightarrow> nat) \<Rightarrow> bool" where
  "refs_ok h ext \<longleftrightarrow> rc_inv ext h \<and> acyclic (links h)"

lemma refs_alloc:
  assumes "refs_ok h ext" and i: "i < length h" "h ! i = None"
  shows "refs_ok (h[i := Some \<lparr>pn_buf = pbuf_init_alloced_pbuf mem off tot len type flags, pn_next = None\<rparr>]) (ext(i := 1))"
    (is "refs_ok ?h _")
proof -
  have inv: "rc_inv ext h" using assms(1) by (simp add: refs_ok_def)
  have d: "node_at h i = None" using i by (simp add: node_at_def)
  then have nx: "nx ?h = nx h" using i by (simp add: fun_eq_iff nx_upd) (simp add: nx_def)
  have rf: "rf ?h = (rf h)(i := 1)" using i by (auto simp: fun_eq_iff rf_upd pbuf_init_alloced_pbuf_def)
  have p: "preds ?h = preds h" by (simp add: fun_eq_iff preds_def nx)
  have "rf h i = 0" using d by (simp add: rf_def)
  then have 0: "card (preds h i) = 0" "ext i = 0" using rc_invD(1) [OF inv, of i] by simp_all
  have "good_src (pbuf_init_alloced_pbuf mem off tot len type flags)"
    by (cases type) (simp_all add: good_src_def pbuf_init_alloced_pbuf_def pbuf_get_allocsrc_def)
  then have "good_nodes ?h" using inv i by (auto simp: rc_inv_iff good_nodes_def node_at_upd)
  moreover have "live ?h j \<longleftrightarrow> j = i \<or> live h j" for j using i by (auto simp: live_def node_at_upd)
  ultimately have "rc_inv (ext(i := 1)) ?h" using inv 0 by (auto simp: rc_inv_iff p rf)
  then show ?thesis using assms(1) by (simp add: refs_ok_def links_def nx)
qed

lemma unat_next: "x + 1 \<noteq> 0 \<Longrightarrow> unat (x + 1 :: u8) = unat x + 1"
  by (metis Suc_eq_plus1 unat_minus_one add_diff_cancel Suc_pred' unat_gt_0)

lemma rc_ref:
  assumes inv: "rc_inv ext h" and r: "pbuf_ref (Some i) h = Inr h'"
  shows "rc_inv (ext(i := ext i + 1)) h' \<and> nx h' = nx h"
proof -
  let ?u = "upd_buf (\<lambda>b. b\<lparr>pf_ref := pf_ref b + 1\<rparr>)"
  from r obtain n where n: "node_at h i = Some n" and nz: "pf_ref (pn_buf n) + 1 \<noteq> 0" and h': "h' = h[i := Some (?u n)]"
    by (auto simp: pbuf_ref_def bindR_Inr_iff Let_def split: if_splits)
  have i: "i < length h" using n by (rule node_at_less)
  have nx: "nx h' = nx h" using n i by (simp add: h' fun_eq_iff nx_upd) (simp add: nx_def)
  have rf: "rf h' = (rf h)(i := rf h i + 1)"
  proof
    fix j
    have "unat (pf_ref (pn_buf n) + 1) = unat (pf_ref (pn_buf n)) + 1"
      using nz by (rule unat_next)
    then show "rf h' j = ((rf h)(i := rf h i + 1)) j"
      using n i by (simp add: h' rf_upd) (simp add: rf_def)
  qed
  have p: "preds h' = preds h" by (simp add: fun_eq_iff preds_def nx)
  have "good_nodes h'" "live h' = live h"
    using inv n i by (auto simp: h' rc_inv_iff good_nodes_def node_at_upd live_def fun_eq_iff)
  then show ?thesis using inv nx by (auto simp: rc_inv_iff p rf)
qed

lemma freed_links: "freed_exactly h gone h' \<Longrightarrow> links h' \<subseteq> links h"
  by (fastforce simp: freed_exactly_def links_def nx_def same_but_ref_def split: option.splits)

lemma pbuf_free_exact:
  assumes "rc_inv ext h" and "0 < ext i"
  shows "\<exists>fs h'. pbuf_free (Some i) h = Inr (of_nat (length fs), fs, h') \<and>
    rc_inv (ext(i := ext i - 1)) h' \<and> freed_exactly h (fst ` set fs) h' \<and> distinct (map fst fs)"
  using free_loop_exact [of ext h "Some i" 0 "[]"] assms by (simp add: pbuf_free_def drop_ref_def)

lemma no_self_link: "refs_ok h ext \<Longrightarrow> nx h i \<noteq> Some i"
  using r_into_trancl [of i i "links h"] by (auto simp: refs_ok_def acyclic_def links_def)

lemma refs_free:
  assumes "refs_ok h ext" and "0 < ext i" and f: "pbuf_free (Some i) h = Inr (count, log, h')"
  shows "refs_ok h' (ext(i := ext i - 1))"
proof -
  have fs: "rc_inv (ext(i := ext i - 1)) h'" "freed_exactly h (fst ` set log) h'"
    using pbuf_free_exact [of ext h i] assms by (auto simp: refs_ok_def)
  then show ?thesis using freed_links [OF fs(2)] assms(1) by (auto simp: refs_ok_def intro: acyclic_subset)
qed

lemma tweak_links: "tweak h l (Some t) h' \<Longrightarrow> nx h l = None \<Longrightarrow> links h' = insert (l, t) (links h)"
  by (auto simp: tweak_def links_def split: if_splits)

lemma refs_cat:
  assumes ok: "refs_ok h ext" and e: "0 < ext t" and a: "apart h p t" and c: "pbuf_cat_heap (Some p) (Some t) h = Inr h'"
  shows "refs_ok h' (ext(t := ext t - 1))"
proof -
  obtain l where l: "(p, l) \<in> (links h)\<^sup>*" "nx h l = None" and tw: "tweak h l (Some t) h'"
    using cat_loop_tweak [of "Suc (length h)" p t h h'] c by (auto simp: pbuf_cat_heap_def simp del: cat_loop.simps)
  have "(t, l) \<notin> (links h)\<^sup>*" using a l(1) by (simp add: apart_def)
  then have "acyclic (links h')" using ok by (simp add: refs_ok_def tweak_links [OF tw l(2)])
  then show ?thesis using rc_link [of ext h l t h'] tw l(2) e ok by (simp add: refs_ok_def drop_ref_def)
qed

lemma refs_chain:
  assumes ok: "refs_ok h ext" and e: "0 < ext t" and a: "apart h p t" and c: "pbuf_chain (Some p) (Some t) h = Inr h'"
  shows "refs_ok h' ext"
proof -
  obtain h1 where h1: "pbuf_cat_heap (Some p) (Some t) h = Inr h1" "pbuf_ref (Some t) h1 = Inr h'"
    using c by (auto simp: pbuf_chain_def bindR_Inr_iff)
  have 1: "refs_ok h1 (ext(t := ext t - 1))" using refs_cat [OF ok e a h1(1)] .
  have "(ext(t := ext t - 1))(t := (ext(t := ext t - 1)) t + 1) = ext" using e by auto
  then show ?thesis using rc_ref [OF _ h1(2), of "ext(t := ext t - 1)"] 1 by (simp add: refs_ok_def links_def)
qed

lemma refs_dechain:
  assumes ok: "refs_ok h ext" and c: "pbuf_dechain p h = Inr (r, log, h')"
  shows "refs_ok h' ext"
proof -
  have inv: "rc_inv ext h" using ok by (simp add: refs_ok_def)
  obtain n where n: "node_at h p = Some n" using c by (auto simp: pbuf_dechain_def bindR_Inr_iff)
  show ?thesis
  proof (cases "pn_next n")
    case None
    then show ?thesis using c n ok by (auto simp: pbuf_dechain_def deref_def split: if_splits)
  next
    case (Some q)
    have nxp: "nx h p = Some q" using n Some by (simp add: nx_def)
    have pq: "p \<noteq> q" using no_self_link [OF ok, of p] nxp by auto
    obtain m where m: "node_at h q = Some m" using rc_next_live [OF inv nxp] by blast
    let ?m = "upd_buf (\<lambda>b. b\<lparr>pf_tot_len := pf_tot_len (pn_buf n) - pf_len (pn_buf n)\<rparr>) m"
    let ?n = "upd_buf (\<lambda>b. b\<lparr>pf_tot_len := pf_len b\<rparr>) n\<lparr>pn_next := None\<rparr>"
    let ?h = "h[q := Some ?m, p := Some ?n]"
    obtain g where g: "pbuf_free (Some q) ?h = Inr (g, log, h')"
      using c n m Some by (auto simp: pbuf_dechain_def deref_def Let_def bindR_Inr_iff split: if_splits)
    have t1: "tweak h q (nx h q) (h[q := Some ?m])" using tweak_node [OF m, of ?m] m by (simp add: nx_def)
    have "node_at (h[q := Some ?m]) p = Some n" using n m pq node_at_less [OF m] by (simp add: node_at_upd)
    then have "tweak (h[q := Some ?m]) p None ?h" using tweak_node [of _ p n ?n] by simp
    then have t2: "tweak h p None ?h" by (rule tweak_same [OF t1])
    have inv1: "rc_inv (add_ref ext (Some q)) ?h" using rc_cut [OF inv t2 nxp] .
    have "links ?h \<subseteq> links h" using t2 by (auto simp: tweak_def links_def split: if_splits)
    then have "refs_ok ?h (ext(q := ext q + 1))"
      using inv1 ok acyclic_subset by (auto simp: refs_ok_def add_ref_def)
    then have "refs_ok h' ((ext(q := ext q + 1))(q := (ext(q := ext q + 1)) q - 1))"
      using g by (intro refs_free) auto
    then show ?thesis by (simp add: fun_upd_idem)
  qed
qed

lemma refs_write:
  assumes ok: "refs_ok h ext" and n: "node_at h i = Some n" and r: "pf_ref b = pf_ref (pn_buf n)"
    and s: "pf_type_internal b = pf_type_internal (pn_buf n)" "pf_flags b AND PBUF_FLAG_IS_CUSTOM = pf_flags (pn_buf n) AND PBUF_FLAG_IS_CUSTOM"
  shows "refs_ok (h[i := Some (n\<lparr>pn_buf := b\<rparr>)]) ext"
proof -
  let ?h = "h[i := Some (n\<lparr>pn_buf := b\<rparr>)]"
  have tw: "tweak h i (nx h i) ?h"
    using n r s by (intro tweak_node) (auto simp: nx_def good_src_def pbuf_get_allocsrc_def)
  then have nx: "nx ?h = nx h" by (simp add: tweak_def)
  then show ?thesis using ok tw by (auto simp: refs_ok_def links_def rc_inv_iff preds_def tweak_def)
qed

lemma add_drop: "0 < ext i \<Longrightarrow> add_ref (drop_ref ext (Some i)) (Some i) = ext"
  by (auto simp: add_ref_def drop_ref_def)

lemma free_header_refs:
  assumes "refs_ok h ext" and "\<And>i. p = Some i \<Longrightarrow> 0 < ext i" and "free_header_loop p left log h = Inr (r, fs, h')"
  shows "refs_ok h' (add_ref (drop_ref ext p) r)"
  using assms
proof (induction p left log h arbitrary: ext rule: free_header_loop.induct)
  case (1 p left log h)
  show ?case
  proof (cases p)
    case None
    then show ?thesis using 1(2,4) by (auto simp: free_header_loop.simps add_ref_def drop_ref_def)
  next
    case (Some i)
    have e: "0 < ext i" using 1(3) Some by simp
    show ?thesis
    proof (cases "left = 0")
      case True
      then show ?thesis using 1(2,4) e by (auto simp: free_header_loop.simps Some add_drop)
    next
      case left: False
      obtain n where n: "node_at h i = Some n"
        using 1(4) left by (subst (asm) free_header_loop.simps) (auto simp: Some bindR_Inr_iff)
      let ?h = "h[i := Some (n\<lparr>pn_next := None\<rparr>)]"
      have nxi: "nx h i = pn_next n" using n by (simp add: nx_def)
      show ?thesis
      proof (cases "pf_len (pn_buf n) \<le> left")
        case True
        obtain c fs1 h1 where f: "pbuf_free (Some i) ?h = Inr (c, fs1, h1)"
            and rest: "free_header_loop (pn_next n) (left - pf_len (pn_buf n)) (log @ fs1) h1 = Inr (r, fs, h')"
          using 1(4) left n True by (subst (asm) free_header_loop.simps) (auto simp: Some bindR_Inr_iff)
        have tw: "tweak h i None ?h" using tweak_node [OF n, of "n\<lparr>pn_next := None\<rparr>" None] by simp
        have ni: "pn_next n \<noteq> Some i" using no_self_link [OF 1(2), of i] nxi by simp
        have "rc_inv (add_ref ext (pn_next n)) ?h"
        proof (cases "pn_next n")
          case None
          then have "tweak h i (nx h i) ?h" using tw nxi by simp
          then show ?thesis using 1(2) None by (auto simp: add_ref_def refs_ok_def rc_inv_iff preds_def tweak_def)
        next
          case (Some q)
          then show ?thesis using rc_cut [OF _ tw, of ext q] 1(2) nxi by (simp add: refs_ok_def)
        qed
        moreover have "links ?h \<subseteq> links h" using tw by (auto simp: tweak_def links_def split: if_splits)
        ultimately have "refs_ok ?h (add_ref ext (pn_next n))"
          using 1(2) by (auto simp: refs_ok_def intro: acyclic_subset)
        moreover have "0 < add_ref ext (pn_next n) i" using e by (auto simp: add_ref_def split: option.splits)
        ultimately have "refs_ok h1 ((add_ref ext (pn_next n))(i := add_ref ext (pn_next n) i - 1))"
          using f by (rule refs_free)
        moreover have "(add_ref ext (pn_next n))(i := add_ref ext (pn_next n) i - 1) = add_ref (drop_ref ext p) (pn_next n)"
          using ni by (auto simp: Some add_ref_def drop_ref_def fun_eq_iff split: option.splits)
        ultimately have ok1: "refs_ok h1 (add_ref (drop_ref ext p) (pn_next n))" by simp
        have "refs_ok h' (add_ref (drop_ref (add_ref (drop_ref ext p) (pn_next n)) (pn_next n)) r)"
          using 1(1) [OF Some left _ True f _ _ ok1] n rest by (auto simp: add_ref_def)
        moreover have "drop_ref (add_ref (drop_ref ext p) (pn_next n)) (pn_next n) = drop_ref ext p"
          by (auto simp: drop_ref_def add_ref_def fun_eq_iff split: option.splits)
        ultimately show ?thesis by simp
      next
        case False
        let ?m = "upd_buf (\<lambda>b. snd (pbuf_remove_header b (unat left))) n"
        have r: "r = p" "h' = h[i := Some ?m]"
          using 1(4) left n False by (subst (asm) free_header_loop.simps; auto simp: Some bindR_Inr_iff)+
        have "pf_ref (pn_buf ?m) = pf_ref (pn_buf n)" "good_src (pn_buf n) \<Longrightarrow> good_src (pn_buf ?m)"
          by (simp_all add: pbuf_remove_header_def good_src_def pbuf_get_allocsrc_def)
        then have tw: "tweak h i (nx h i) h'" using tweak_node [OF n, of ?m] r by (simp add: nxi)
        then have "nx h' = nx h" by (simp add: tweak_def)
        then have "refs_ok h' ext" using 1(2) tw by (auto simp: refs_ok_def links_def rc_inv_iff preds_def tweak_def)
        then show ?thesis using r(1) Some add_drop [of ext i] e by simp
      qed
    qed
  qed
qed

lemma refs_free_header:
  assumes "refs_ok h ext" and "0 < ext q" and "pbuf_free_header q sz h = Inr (r, log, h')"
  shows "refs_ok h' (add_ref (drop_ref ext (Some q)) r)"
  using free_header_refs [of h ext "Some q"] assms by (simp add: pbuf_free_header_def)

lemma reach_refs_ok: "pbuf_reach h ext \<Longrightarrow> refs_ok h ext"
proof (induction rule: pbuf_reach.induct)
  case (reach_empty n)
  have d: "node_at (replicate n None) i = None" for i by (simp add: node_at_def)
  then show ?case by (auto simp: refs_ok_def rc_inv_def rf_def nx_def preds_def links_def live_def acyclic_def)
next
  case (reach_ref h ext i h')
  have "rc_inv ext h" using reach_ref.IH by (simp add: refs_ok_def)
  then have r: "rc_inv (ext(i := ext i + 1)) h' \<and> nx h' = nx h" using reach_ref.hyps(3) by (rule rc_ref)
  then have "links h' = links h" by (simp add: links_def)
  then show ?case using r reach_ref.IH unfolding refs_ok_def by metis
next
  case (reach_alloc h ext i mem off tot len type flags)
  then show ?case by (intro refs_alloc)
next
  case (reach_free h ext i count log h')
  show ?case by (rule refs_free [OF reach_free.IH reach_free.hyps(2,3)])
next
  case (reach_cat h ext p t h')
  show ?case by (rule refs_cat [OF reach_cat.IH reach_cat.hyps(3-5)])
next
  case (reach_chain h ext p t h')
  show ?case by (rule refs_chain [OF reach_chain.IH reach_chain.hyps(3-5)])
next
  case (reach_dechain h ext p r log h')
  show ?case by (rule refs_dechain [OF reach_dechain.IH reach_dechain.hyps(3)])
next
  case (reach_free_header h ext q sz r log h')
  show ?case by (rule refs_free_header [OF reach_free_header.IH reach_free_header.hyps(2,3)])
next
  case (reach_write h ext i n b)
  show ?case by (rule refs_write [OF reach_write.IH reach_write.hyps(2-5)])
qed

lemma no_refs_no_nodes:
  assumes ok: "refs_ok h (\<lambda>_. 0)"
  shows "node_at h i = None"
proof (rule ccontr)
  assume "node_at h i \<noteq> None"
  then have i: "i \<in> {j. live h j}" by (simp add: live_def)
  have "links h \<subseteq> {..<length h} \<times> {..<length h}"
  proof
    fix e
    assume "e \<in> links h"
    then obtain a b where e: "e = (a, b)" and ab: "nx h a = Some b" by (auto simp: links_def)
    obtain n m where "node_at h a = Some n" "node_at h b = Some m"
      using ab rc_next_live [of "\<lambda>_. 0" h a b] ok by (auto simp: nx_def refs_ok_def split: option.splits)
    then show "e \<in> {..<length h} \<times> {..<length h}" using e by (auto dest: node_at_less)
  qed
  then have "finite (links h)" by (rule finite_subset) simp
  then have "wf (links h)" using ok by (simp add: refs_ok_def finite_acyclic_wf)
  from wfE_min [OF this i] obtain z where "z \<in> {j. live h j}" and "\<And>y. (y, z) \<in> links h \<Longrightarrow> y \<notin> {j. live h j}"
    by metis
  then have z: "live h z" and min: "\<And>y. (y, z) \<in> links h \<Longrightarrow> \<not> live h y" by simp_all
  have inv: "rc_inv (\<lambda>_. 0) h" using ok by (simp add: refs_ok_def)
  have "0 < rf h z" using inv z unfolding rc_inv_def by blast
  then have "0 < card (preds h z)" unfolding rc_invD(1) [OF inv] by simp
  then obtain y where "nx h y = Some z" by (auto simp: preds_def card_gt_0_iff)
  then show False using min [of y] by (auto simp: links_def live_def nx_def split: option.splits)
qed

text \<open>
  C29: Reference counts of packet buffers are exact over every history of allocations, references,
  releases, joins and splits, as the comment of \<open>struct pbuf\<close> promises: the count of a buffer is the number of
  pointers to it, from chains and from the program. So no release by a holder meets a buffer that is gone, an exhausted count or an
  assertion, and once the program holds nothing every buffer has been given back.
\<close>

theorem pbuf_refs_exact:
  assumes "pbuf_reach h ext"
  shows "(\<forall>i n. node_at h i = Some n \<longrightarrow> unat (pf_ref (pn_buf n)) = card {j. nx h j = Some i} + ext i) \<and>
    (\<forall>i. 0 < ext i \<longrightarrow> (\<exists>r. pbuf_free (Some i) h = Inr r)) \<and>
    (ext = (\<lambda>_. 0) \<longrightarrow> (\<forall>i. node_at h i = None))"
proof -
  have ok: "refs_ok h ext" using assms by (rule reach_refs_ok)
  then have inv: "rc_inv ext h" by (simp add: refs_ok_def)
  have "unat (pf_ref (pn_buf n)) = card {j. nx h j = Some i} + ext i" if "node_at h i = Some n" for i n
    using rc_invD(1) [OF inv, of i] that by (simp add: rf_def preds_def)
  moreover have "\<exists>r. pbuf_free (Some i) h = Inr r" if "0 < ext i" for i
    using pbuf_free_exact [OF inv that] by blast
  ultimately show ?thesis using no_refs_no_nodes ok by blast
qed

text \<open>Two buffers, the second chained behind the first while the program keeps its own reference to it.\<close>

definition demo_node :: "u16 \<Rightarrow> pnode" where
  "demo_node tot = \<lparr>pn_buf = pbuf_init_alloced_pbuf [] 0 tot tot PBUF_RAM 0, pn_next = None\<rparr>"

definition demo_pair :: pheap where
  "demo_pair = [Some (demo_node 8), Some (demo_node 4)]"

definition demo_joined :: pheap where
  "demo_joined =
     [Some (upd_buf (\<lambda>b. b\<lparr>pf_tot_len := 12\<rparr>) (demo_node 8)\<lparr>pn_next := Some 1\<rparr>),
      Some (upd_buf (\<lambda>b. b\<lparr>pf_ref := 2\<rparr>) (demo_node 4))]"

lemma demo_pair_reach: "pbuf_reach demo_pair ((\<lambda>_. 0)(0 := 1, 1 := 1))"
proof -
  have "pbuf_reach [Some (demo_node 8), None] ((\<lambda>_. 0)(0 := 1))"
    using reach_alloc [OF reach_empty [of 2], of 0 "[]" 0 8 8 PBUF_RAM 0] by (simp add: numeral_2_eq_2 demo_node_def)
  from reach_alloc [OF this, of 1 "[]" 0 4 4 PBUF_RAM 0] show ?thesis by (simp add: demo_pair_def demo_node_def)
qed

lemma demo_joined_reach: "pbuf_reach demo_joined ((\<lambda>_. 0)(0 := 1, 1 := 1))"
proof (rule reach_chain [OF demo_pair_reach, of 0 1])
  have "nx demo_pair i = None" for i
    by (simp add: nx_def node_at_def demo_pair_def demo_node_def less_Suc_eq nth_Cons' split: option.splits)
  then have "links demo_pair = {}" by (simp add: links_def)
  then show "apart demo_pair 0 1" by (simp add: apart_def)
  show "pbuf_chain (Some 0) (Some 1) demo_pair = Inr demo_joined"
    by (simp add: pbuf_chain_def pbuf_cat_heap_def pbuf_ref_def demo_pair_def demo_joined_def demo_node_def deref_def
        node_at_def upd_buf_def pbuf_init_alloced_pbuf_def Let_def)
qed simp_all

theorem pbuf_refs_exact_witness:
  "(\<exists>r. pbuf_free (Some 0) demo_joined = Inr r) \<and> (\<exists>r. pbuf_free (Some 1) demo_joined = Inr r)"
proof -
  have "0 < ((\<lambda>_. 0 :: nat)(0 := 1, 1 := 1)) (0 :: nat)" "0 < ((\<lambda>_. 0 :: nat)(0 := 1, 1 := 1)) (1 :: nat)"
    by simp_all
  then show ?thesis using pbuf_refs_exact [OF demo_joined_reach] by blast
qed

end
