(* ===== verification/Ethernet.thy ===== *)
theory Ethernet
  imports PbufRef Ip4Addr
begin

text \<open>
  \<open>lwip/netif/ethernet.c\<close>, and the state the protocols of the stack share: the heap of packet buffers,
  what allocation draws on and the frames handed to the interfaces. An interface is referred to by a number;
  its structure is looked up in \<open>netifs\<close>. Its driver \<open>linkoutput\<close> is a function from the frame to the error code.
  The statistics counters of the stack are left out: nothing reads them.
\<close>

section \<open>Shared state\<close>

record netif = netif_ip4 +
  nif_gw :: u32
  nif_hwaddr :: "u8 list"
  nif_linkoutput :: "u8 list \<Rightarrow> int"

record link =
  l_heap :: pheap
  l_src :: pbuf_src
  l_out :: "(nat \<times> u8 list) list"

datatype stack_error = STACK_ASSERT | STACK_OVERREAD | STACK_PBUF pbuf_error | STACK_REF ref_error

definition lift_ref :: "ref_error + 'a \<Rightarrow> stack_error + 'a" where
  "lift_ref m = (case m of Inl e \<Rightarrow> Inl (STACK_REF e) | Inr x \<Rightarrow> Inr x)"

definition lift_pbuf :: "pbuf_error + 'a \<Rightarrow> stack_error + 'a" where
  "lift_pbuf m = (case m of Inl e \<Rightarrow> Inl (STACK_PBUF e) | Inr x \<Rightarrow> Inr x)"

lemma lift_Inr [simp]: "lift_ref m = Inr x \<longleftrightarrow> m = Inr x" "lift_pbuf n = Inr y \<longleftrightarrow> n = Inr y"
  by (auto simp: lift_ref_def lift_pbuf_def split: sum.splits)

lemma lift_simps [simp]: "lift_ref (Inr x) = Inr x" "lift_pbuf (Inr y) = Inr y"
  by (simp_all add: lift_ref_def lift_pbuf_def)

abbreviation (input) "ERR_BUF \<equiv> - 2 :: int"
abbreviation (input) "ERR_RTE \<equiv> - 4 :: int"

text \<open>The chain of buffers at a pointer.\<close>

fun chain_loop :: "nat \<Rightarrow> pheap \<Rightarrow> nat option \<Rightarrow> ref_error + pbuf list" where
  "chain_loop fuel h None = Inr []"
| "chain_loop 0 h (Some i) = Inl CHAIN_LOOP"
| "chain_loop (Suc fuel) h (Some i) =
     bindR (deref h i) (\<lambda>n. bindR (chain_loop fuel h (pn_next n)) (\<lambda>c. Inr (pn_buf n # c)))"

definition chain_at :: "pheap \<Rightarrow> nat \<Rightarrow> ref_error + pbuf list" where
  "chain_at h p = chain_loop (length h) h (Some p)"

definition set_buf :: "nat \<Rightarrow> pnode \<Rightarrow> pbuf \<Rightarrow> 'a link_scheme \<Rightarrow> 'a link_scheme" where
  "set_buf p n b s = s\<lparr>l_heap := (l_heap s)[p := Some (n\<lparr>pn_buf := b\<rparr>)]\<rparr>"

text \<open>\<open>pbuf_free\<close> on the shared state, and a buffer that has just been allocated.\<close>

definition stack_free :: "nat \<Rightarrow> 'a link_scheme \<Rightarrow> stack_error + 'a link_scheme" where
  "stack_free p s = lift_ref (bindR (pbuf_free (Some p) (l_heap s)) (\<lambda>(count, log, h). Inr (s\<lparr>l_heap := h\<rparr>)))"

definition add_node :: "pbuf list \<Rightarrow> 'a link_scheme \<Rightarrow> nat option \<times> 'a link_scheme" where
  "add_node c s =
     (case c of
        [] \<Rightarrow> (None, s)
      | b # _ \<Rightarrow> (Some (length (l_heap s)), s\<lparr>l_heap := l_heap s @ [Some \<lparr>pn_buf = b, pn_next = None\<rparr>]\<rparr>))"

definition alloc_ram :: "u16 \<Rightarrow> u16 \<Rightarrow> 'a link_scheme \<Rightarrow> stack_error + nat option \<times> 'a link_scheme" where
  "alloc_ram layer len s =
     lift_pbuf (bindR (pbuf_alloc layer len PBUF_RAM (l_src s)) (\<lambda>(c, src). Inr (add_node c (s\<lparr>l_src := src\<rparr>))))"

section \<open>Sending a frame\<close>

abbreviation (input) "SIZEOF_ETH_HDR \<equiv> 14 :: nat"
abbreviation (input) "ETH_HWADDR_LEN \<equiv> 6 :: nat"
abbreviation (input) "PBUF_LINK \<equiv> 14 :: u16"
abbreviation (input) "ETHTYPE_IP \<equiv> 0x0800 :: u16"
abbreviation (input) "ETHTYPE_ARP \<equiv> 0x0806 :: u16"

definition ethbroadcast :: "u8 list" where
  "ethbroadcast = [0xff, 0xff, 0xff, 0xff, 0xff, 0xff]"

definition ethzero :: "u8 list" where
  "ethzero = [0, 0, 0, 0, 0, 0]"

definition eth_hdr_bytes :: "u8 list \<Rightarrow> u8 list \<Rightarrow> u16 \<Rightarrow> u8 list" where
  "eth_hdr_bytes dst src eth_type = take ETH_HWADDR_LEN dst @ take ETH_HWADDR_LEN src @ bytes16 (lwip_htons eth_type)"

definition ethernet_output ::
  "(nat \<Rightarrow> netif) \<Rightarrow> nat \<Rightarrow> nat \<Rightarrow> u8 list \<Rightarrow> u8 list \<Rightarrow> u16 \<Rightarrow> 'a link_scheme \<Rightarrow> stack_error + int \<times> 'a link_scheme" where
  "ethernet_output netifs n p src dst eth_type s =
     bindR (lift_ref (deref (l_heap s) p)) (\<lambda>nd.
     bindR (lift_pbuf (pbuf_add_header (pn_buf nd) SIZEOF_ETH_HDR)) (\<lambda>(failed, b).
       if failed \<noteq> 0 then Inr (ERR_BUF, s)
       else
         let s = set_buf p nd (put_bytes b 0 (eth_hdr_bytes dst src eth_type)) s
         in if length (nif_hwaddr (netifs n)) \<noteq> ETH_HWADDR_LEN then Inl STACK_ASSERT
            else bindR (lift_ref (chain_at (l_heap s) p)) (\<lambda>c.
              Inr (nif_linkoutput (netifs n) (chain_bytes c), s\<lparr>l_out := l_out s @ [(n, chain_bytes c)]\<rparr>))))"

section \<open>Receiving a frame\<close>

abbreviation (input) "PBUF_FLAG_LLBCAST \<equiv> 0x08 :: u8"
abbreviation (input) "PBUF_FLAG_LLMCAST \<equiv> 0x10 :: u8"
abbreviation (input) "NETIF_FLAG_ETHARP \<equiv> 0x08 :: u8"

text \<open>
  The layers above are parameters: \<open>ip4_input\<close> and \<open>etharp_input\<close>, which take the buffer over, and the
  hook \<open>lwip_customproto\<close> for other protocols, which takes it over when it returns \<open>ERR_OK\<close>.
\<close>

definition link_flags :: "u8 list \<Rightarrow> u8 \<Rightarrow> u8" where
  "link_flags dest flags =
     (if dest ! 0 AND 1 \<noteq> 0
      then if dest ! 0 = 0x01
           then if dest ! 1 = 0x00 \<and> dest ! 2 = 0x5e then flags OR PBUF_FLAG_LLMCAST else flags
           else if dest = ethbroadcast then flags OR PBUF_FLAG_LLBCAST else flags
      else flags)"

definition strip_header :: "nat \<Rightarrow> pnode \<Rightarrow> pbuf \<Rightarrow> 'a link_scheme \<Rightarrow> 'a link_scheme option" where
  "strip_header p nd b s =
     (case pbuf_remove_header b SIZEOF_ETH_HDR of (failed, b) \<Rightarrow> if failed \<noteq> 0 then None else Some (set_buf p nd b s))"

type_synonym 'a layer = "nat \<Rightarrow> nat \<Rightarrow> 'a link_scheme \<Rightarrow> stack_error + 'a link_scheme"

definition ethernet_input ::
  "'a layer \<Rightarrow> 'a layer \<Rightarrow> (nat \<Rightarrow> nat \<Rightarrow> 'a link_scheme \<Rightarrow> stack_error + int \<times> 'a link_scheme) \<Rightarrow>
   (nat \<Rightarrow> netif) \<Rightarrow> nat \<Rightarrow> nat \<Rightarrow> 'a link_scheme \<Rightarrow> stack_error + int \<times> 'a link_scheme" where
  "ethernet_input ip4_input etharp_input customproto netifs p n s =
     bindR (lift_ref (deref (l_heap s) p)) (\<lambda>nd.
       let drop_it = (\<lambda>s. bindR (stack_free p s) (\<lambda>s. Inr (ERR_OK, s))); b = pn_buf nd
       in if plen b \<le> SIZEOF_ETH_HDR then drop_it s
          else
            let b = (if pf_if_idx b = 0 then b\<lparr>pf_if_idx := of_nat (n + 1)\<rparr> else b);
                hdr = ld_bytes (pf_mem b) (pf_off b) SIZEOF_ETH_HDR
            in if length hdr < SIZEOF_ETH_HDR then Inl STACK_OVERREAD
               else
                 let b = b\<lparr>pf_flags := link_flags (take 6 hdr) (pf_flags b)\<rparr>;
                     s = set_buf p nd b s; typ = le16 (hdr ! 12) (hdr ! 13)
                 in if typ = lwip_htons ETHTYPE_IP \<or> typ = lwip_htons ETHTYPE_ARP
                    then if nif_flags (netifs n) AND NETIF_FLAG_ETHARP = 0 then drop_it s
                         else (case strip_header p nd b s of
                             None \<Rightarrow> drop_it s
                           | Some s \<Rightarrow>
                               bindR (if typ = lwip_htons ETHTYPE_IP then ip4_input p n s else etharp_input p n s)
                                 (\<lambda>s. Inr (ERR_OK, s)))
                    else bindR (customproto p n s) (\<lambda>(err, s). if err = ERR_OK then Inr (ERR_OK, s) else drop_it s))"

end
