(* ===== verification/Etharp.thy ===== *)
theory Etharp
  imports Ethernet
begin

text \<open>
  \<open>lwip/core/ipv4/etharp.c\<close>: address resolution. The table maps IPv4 addresses to Ethernet
  addresses; a packet for an address that is being resolved waits in its entry. The options are those of
  \<open>lwipopts.h\<close>: one waiting packet per entry, no static entries, the interface is part of the key, and
  released entries are wiped (\<open>LWIP_DEBUG\<close> is defined, as 0).
\<close>

section \<open>Data\<close>

datatype etharp_state =
    ETHARP_STATE_EMPTY
  | ETHARP_STATE_PENDING
  | ETHARP_STATE_STABLE
  | ETHARP_STATE_STABLE_REREQUESTING_1
  | ETHARP_STATE_STABLE_REREQUESTING_2

record etharp_entry =
  e_q :: "nat option"
  e_ipaddr :: u32
  e_netif :: "nat option"
  e_ethaddr :: "u8 list"
  e_ctime :: u16
  e_state :: etharp_state

record arp = link +
  arp_table :: "etharp_entry list"
  etharp_cached_entry :: nat

abbreviation (input) "ARP_TABLE_SIZE \<equiv> 10 :: nat"
abbreviation (input) "ARP_MAXAGE \<equiv> 300 :: nat"
abbreviation (input) "ARP_MAXPENDING \<equiv> 5 :: nat"
abbreviation (input) "ARP_AGE_REREQUEST_USED_UNICAST \<equiv> 270 :: nat"
abbreviation (input) "ARP_AGE_REREQUEST_USED_BROADCAST \<equiv> 285 :: nat"
abbreviation (input) "ARP_REQUEST \<equiv> 1 :: u16"
abbreviation (input) "ARP_REPLY \<equiv> 2 :: u16"

text \<open>\<open>state >= ETHARP_STATE_STABLE\<close>.\<close>

fun stable_state :: "etharp_state \<Rightarrow> bool" where
  "stable_state ETHARP_STATE_EMPTY = False"
| "stable_state ETHARP_STATE_PENDING = False"
| "stable_state _ = True"

definition upd_entry :: "nat \<Rightarrow> (etharp_entry \<Rightarrow> etharp_entry) \<Rightarrow> 'a arp_scheme \<Rightarrow> 'a arp_scheme" where
  "upd_entry i f a = a\<lparr>arp_table := (arp_table a)[i := f (arp_table a ! i)]\<rparr>"

section \<open>ARP packets\<close>

abbreviation (input) "SIZEOF_ETHARP_HDR \<equiv> 28 :: nat"

definition etharp_hdr :: "u16 \<Rightarrow> u8 list \<Rightarrow> u32 \<Rightarrow> u8 list \<Rightarrow> u32 \<Rightarrow> u8 list" where
  "etharp_hdr opcode hwsrc ipsrc hwdst ipdst =
     bytes16 (lwip_htons 1) @ bytes16 (lwip_htons ETHTYPE_IP) @ [6, 4] @ bytes16 (lwip_htons opcode) @
     take ETH_HWADDR_LEN hwsrc @ bytes32 ipsrc @ take ETH_HWADDR_LEN hwdst @ bytes32 ipdst"

definition etharp_raw ::
  "(nat \<Rightarrow> netif) \<Rightarrow> nat \<Rightarrow> u8 list \<Rightarrow> u8 list \<Rightarrow> u8 list \<Rightarrow> u32 \<Rightarrow> u8 list \<Rightarrow> u32 \<Rightarrow> u16 \<Rightarrow> 'a arp_scheme \<Rightarrow> stack_error + int \<times> 'a arp_scheme" where
  "etharp_raw netifs n ethsrc ethdst hwsrc ipsrc hwdst ipdst opcode a =
     bindR (alloc_ram PBUF_LINK (of_nat SIZEOF_ETHARP_HDR) a) (\<lambda>(p, a).
       case p of
         None \<Rightarrow> Inr (ERR_MEM, a)
       | Some p \<Rightarrow>
           bindR (lift_ref (deref (l_heap a) p)) (\<lambda>nd.
             if plen (pn_buf nd) < SIZEOF_ETHARP_HDR \<or> length (nif_hwaddr (netifs n)) \<noteq> ETH_HWADDR_LEN then Inl STACK_ASSERT
             else
               let a = set_buf p nd (put_bytes (pn_buf nd) 0 (etharp_hdr opcode hwsrc ipsrc hwdst ipdst)) a
               in bindR (ethernet_output netifs n p ethsrc ethdst ETHTYPE_ARP a) (\<lambda>(err, a).
                  bindR (stack_free p a) (\<lambda>a. Inr (ERR_OK, a)))))"

definition etharp_request_dst :: "(nat \<Rightarrow> netif) \<Rightarrow> nat \<Rightarrow> u32 \<Rightarrow> u8 list \<Rightarrow> 'a arp_scheme \<Rightarrow> stack_error + int \<times> 'a arp_scheme" where
  "etharp_request_dst netifs n ipaddr hw_dst_addr a =
     etharp_raw netifs n (nif_hwaddr (netifs n)) hw_dst_addr (nif_hwaddr (netifs n)) (nif_addr (netifs n)) ethzero ipaddr ARP_REQUEST a"

definition etharp_request :: "(nat \<Rightarrow> netif) \<Rightarrow> nat \<Rightarrow> u32 \<Rightarrow> 'a arp_scheme \<Rightarrow> stack_error + int \<times> 'a arp_scheme" where
  "etharp_request netifs n ipaddr a = etharp_request_dst netifs n ipaddr ethbroadcast a"

section \<open>The table\<close>

definition etharp_free_entry :: "nat \<Rightarrow> 'a arp_scheme \<Rightarrow> stack_error + 'a arp_scheme" where
  "etharp_free_entry i a =
     bindR (case e_q (arp_table a ! i) of
              None \<Rightarrow> Inr a
            | Some q \<Rightarrow> bindR (stack_free q a) (\<lambda>a. Inr (upd_entry i (\<lambda>e. e\<lparr>e_q := None\<rparr>) a)))
       (\<lambda>a. Inr (upd_entry i (\<lambda>e. e\<lparr>e_state := ETHARP_STATE_EMPTY, e_ctime := 0, e_netif := None, e_ipaddr := 0, e_ethaddr := ethzero\<rparr>) a))"

definition arp_tick :: "(nat \<Rightarrow> netif) \<Rightarrow> nat \<Rightarrow> 'a arp_scheme \<Rightarrow> stack_error + 'a arp_scheme" where
  "arp_tick netifs i a =
     (let e = arp_table a ! i
      in if e_state e = ETHARP_STATE_EMPTY then Inr a
         else
           let a = upd_entry i (\<lambda>e. e\<lparr>e_ctime := e_ctime e + 1\<rparr>) a; ctime = unat (e_ctime e + 1)
           in if ARP_MAXAGE \<le> ctime \<or> e_state e = ETHARP_STATE_PENDING \<and> ARP_MAXPENDING \<le> ctime then etharp_free_entry i a
              else if e_state e = ETHARP_STATE_STABLE_REREQUESTING_1
                   then Inr (upd_entry i (\<lambda>e. e\<lparr>e_state := ETHARP_STATE_STABLE_REREQUESTING_2\<rparr>) a)
              else if e_state e = ETHARP_STATE_STABLE_REREQUESTING_2
                   then Inr (upd_entry i (\<lambda>e. e\<lparr>e_state := ETHARP_STATE_STABLE\<rparr>) a)
              else if e_state e = ETHARP_STATE_PENDING
                   then (case e_netif e of
                           None \<Rightarrow> Inl STACK_ASSERT
                         | Some n \<Rightarrow> bindR (etharp_request netifs n (e_ipaddr e) a) (\<lambda>(err, a). Inr a))
              else Inr a)"

fun arp_tick_loop :: "(nat \<Rightarrow> netif) \<Rightarrow> nat list \<Rightarrow> 'a arp_scheme \<Rightarrow> stack_error + 'a arp_scheme" where
  "arp_tick_loop netifs [] a = Inr a"
| "arp_tick_loop netifs (i # is) a = bindR (arp_tick netifs i a) (arp_tick_loop netifs is)"

definition etharp_tmr :: "(nat \<Rightarrow> netif) \<Rightarrow> 'a arp_scheme \<Rightarrow> stack_error + 'a arp_scheme" where
  "etharp_tmr netifs = arp_tick_loop netifs [0..<ARP_TABLE_SIZE]"

text \<open>
  The search: \<open>ARP_TABLE_SIZE\<close> stands for "none" in the candidates, as in the code. \<open>Inl i\<close> is the match.
\<close>

record find_cands =
  old_pending :: nat
  old_stable :: nat
  f_empty :: nat
  old_queue :: nat
  age_queue :: u16
  age_pending :: u16
  age_stable :: u16

definition no_cands :: find_cands where
  "no_cands = \<lparr>old_pending = ARP_TABLE_SIZE, old_stable = ARP_TABLE_SIZE, f_empty = ARP_TABLE_SIZE, old_queue = ARP_TABLE_SIZE,
     age_queue = 0, age_pending = 0, age_stable = 0\<rparr>"

definition note_entry :: "nat \<Rightarrow> etharp_entry \<Rightarrow> find_cands \<Rightarrow> find_cands" where
  "note_entry i e c =
     (if e_state e = ETHARP_STATE_PENDING
      then if e_q e \<noteq> None
           then if age_queue c \<le> e_ctime e then c\<lparr>old_queue := i, age_queue := e_ctime e\<rparr> else c
           else if age_pending c \<le> e_ctime e then c\<lparr>old_pending := i, age_pending := e_ctime e\<rparr> else c
      else if stable_state (e_state e)
           then if age_stable c \<le> e_ctime e then c\<lparr>old_stable := i, age_stable := e_ctime e\<rparr> else c
      else c)"

definition entry_matches :: "u32 option \<Rightarrow> nat option \<Rightarrow> etharp_entry \<Rightarrow> bool" where
  "entry_matches ipaddr netif e \<longleftrightarrow> ipaddr = Some (e_ipaddr e) \<and> (netif = None \<or> netif = e_netif e)"

fun find_loop :: "u32 option \<Rightarrow> nat option \<Rightarrow> nat \<Rightarrow> etharp_entry list \<Rightarrow> find_cands \<Rightarrow> nat + find_cands" where
  "find_loop ipaddr netif i [] c = Inr c"
| "find_loop ipaddr netif i (e # es) c =
     (if f_empty c = ARP_TABLE_SIZE \<and> e_state e = ETHARP_STATE_EMPTY
      then find_loop ipaddr netif (i + 1) es (c\<lparr>f_empty := i\<rparr>)
      else if e_state e \<noteq> ETHARP_STATE_EMPTY
      then if entry_matches ipaddr netif e then Inl i
           else find_loop ipaddr netif (i + 1) es (note_entry i e c)
      else find_loop ipaddr netif (i + 1) es c)"

text \<open>The entry to reuse; \<open>None\<close> is the error \<open>ERR_MEM\<close>.\<close>

definition choose_entry :: "find_cands \<Rightarrow> 'a arp_scheme \<Rightarrow> stack_error + nat option \<times> 'a arp_scheme" where
  "choose_entry c a =
     (if f_empty c < ARP_TABLE_SIZE then Inr (Some (f_empty c), a)
      else if old_stable c < ARP_TABLE_SIZE
      then if e_q (arp_table a ! old_stable c) \<noteq> None then Inl STACK_ASSERT
           else bindR (etharp_free_entry (old_stable c) a) (\<lambda>a. Inr (Some (old_stable c), a))
      else if old_pending c < ARP_TABLE_SIZE then bindR (etharp_free_entry (old_pending c) a) (\<lambda>a. Inr (Some (old_pending c), a))
      else if old_queue c < ARP_TABLE_SIZE then bindR (etharp_free_entry (old_queue c) a) (\<lambda>a. Inr (Some (old_queue c), a))
      else Inr (None, a))"

abbreviation (input) "ETHARP_FLAG_TRY_HARD \<equiv> 1 :: u8"
abbreviation (input) "ETHARP_FLAG_FIND_ONLY \<equiv> 2 :: u8"

text \<open>A negative result is the error code of the code: \<open>ERR_MEM\<close>, written \<open>Inl\<close> in the inner sum.\<close>

definition etharp_find_entry :: "u32 option \<Rightarrow> u8 \<Rightarrow> nat option \<Rightarrow> 'a arp_scheme \<Rightarrow> stack_error + (int + nat) \<times> 'a arp_scheme" where
  "etharp_find_entry ipaddr flags netif a =
     (case find_loop ipaddr netif 0 (arp_table a) no_cands of
        Inl i \<Rightarrow> Inr (Inr i, a)
      | Inr c \<Rightarrow>
          if flags AND ETHARP_FLAG_FIND_ONLY \<noteq> 0 \<or> f_empty c = ARP_TABLE_SIZE \<and> flags AND ETHARP_FLAG_TRY_HARD = 0
          then Inr (Inl ERR_MEM, a)
          else bindR (choose_entry c a) (\<lambda>(i, a).
            case i of
              None \<Rightarrow> Inr (Inl ERR_MEM, a)
            | Some i \<Rightarrow>
                if e_state (arp_table a ! i) \<noteq> ETHARP_STATE_EMPTY then Inl STACK_ASSERT
                else
                  let a = (case ipaddr of None \<Rightarrow> a | Some ip \<Rightarrow> upd_entry i (\<lambda>e. e\<lparr>e_ipaddr := ip\<rparr>) a);
                      a = upd_entry i (\<lambda>e. e\<lparr>e_ctime := 0, e_netif := netif\<rparr>) a
                  in Inr (Inr i, a)))"

definition non_unicast :: "(nat \<Rightarrow> netif) \<Rightarrow> nat \<Rightarrow> u32 \<Rightarrow> bool" where
  "non_unicast netifs n ip \<longleftrightarrow> ip4_addr_isany ip \<or> ip4_addr_isbroadcast_u32 ip (netifs n) \<or> ip4_addr_ismulticast ip"

definition etharp_update_arp_entry :: "(nat \<Rightarrow> netif) \<Rightarrow> nat \<Rightarrow> u32 \<Rightarrow> u8 list \<Rightarrow> u8 \<Rightarrow> 'a arp_scheme \<Rightarrow> stack_error + int \<times> 'a arp_scheme" where
  "etharp_update_arp_entry netifs n ipaddr ethaddr flags a =
     (if length (nif_hwaddr (netifs n)) \<noteq> ETH_HWADDR_LEN then Inl STACK_ASSERT
      else if non_unicast netifs n ipaddr then Inr (ERR_ARG, a)
      else bindR (etharp_find_entry (Some ipaddr) flags (Some n) a) (\<lambda>(r, a).
        case r of
          Inl err \<Rightarrow> Inr (err, a)
        | Inr i \<Rightarrow>
            let a = upd_entry i (\<lambda>e. e\<lparr>e_state := ETHARP_STATE_STABLE, e_netif := Some n, e_ethaddr := take ETH_HWADDR_LEN ethaddr, e_ctime := 0\<rparr>) a
            in (case e_q (arp_table a ! i) of
                  None \<Rightarrow> Inr (ERR_OK, a)
                | Some p \<Rightarrow>
                    let a = upd_entry i (\<lambda>e. e\<lparr>e_q := None\<rparr>) a
                    in bindR (ethernet_output netifs n p (nif_hwaddr (netifs n)) ethaddr ETHTYPE_IP a) (\<lambda>(err, a).
                       bindR (stack_free p a) (\<lambda>a. Inr (ERR_OK, a))))))"

fun cleanup_loop :: "nat \<Rightarrow> nat list \<Rightarrow> 'a arp_scheme \<Rightarrow> stack_error + 'a arp_scheme" where
  "cleanup_loop n [] a = Inr a"
| "cleanup_loop n (i # is) a =
     bindR (if e_state (arp_table a ! i) \<noteq> ETHARP_STATE_EMPTY \<and> e_netif (arp_table a ! i) = Some n
            then etharp_free_entry i a else Inr a) (cleanup_loop n is)"

definition etharp_cleanup_netif :: "nat \<Rightarrow> 'a arp_scheme \<Rightarrow> stack_error + 'a arp_scheme" where
  "etharp_cleanup_netif n = cleanup_loop n [0..<ARP_TABLE_SIZE]"

text \<open>The results of the two look-ups are the index and the entry, or the index of an existing stable entry.\<close>

definition etharp_find_addr :: "nat option \<Rightarrow> u32 option \<Rightarrow> 'a arp_scheme \<Rightarrow> stack_error + (nat \<times> u8 list \<times> u32) option \<times> 'a arp_scheme" where
  "etharp_find_addr netif ipaddr a =
     bindR (etharp_find_entry ipaddr ETHARP_FLAG_FIND_ONLY netif a) (\<lambda>(r, a).
       case r of
         Inl err \<Rightarrow> Inr (None, a)
       | Inr i \<Rightarrow>
           let e = arp_table a ! i
           in Inr (if stable_state (e_state e) then Some (i, e_ethaddr e, e_ipaddr e) else None, a))"

definition etharp_get_entry :: "nat \<Rightarrow> 'a arp_scheme \<Rightarrow> (u32 \<times> nat option \<times> u8 list) option" where
  "etharp_get_entry i a =
     (if i < ARP_TABLE_SIZE \<and> stable_state (e_state (arp_table a ! i))
      then Some (e_ipaddr (arp_table a ! i), e_netif (arp_table a ! i), e_ethaddr (arp_table a ! i))
      else None)"

section \<open>Receiving\<close>

text \<open>
  The header is read without a look at the length of the packet: what lies behind it in the block is
  read too. Behind the end of the block is an error of the model.
\<close>

definition etharp_input :: "(nat \<Rightarrow> netif) \<Rightarrow> nat \<Rightarrow> nat \<Rightarrow> 'a arp_scheme \<Rightarrow> stack_error + 'a arp_scheme" where
  "etharp_input netifs p n a =
     bindR (lift_ref (deref (l_heap a) p)) (\<lambda>nd.
       let hdr = ld_bytes (pf_mem (pn_buf nd)) (pf_off (pn_buf nd)) SIZEOF_ETHARP_HDR
       in if length hdr < SIZEOF_ETHARP_HDR then Inl STACK_OVERREAD
          else if ld16 hdr 0 \<noteq> lwip_htons 1 \<or> hdr ! 4 \<noteq> 6 \<or> hdr ! 5 \<noteq> 4 \<or> ld16 hdr 2 \<noteq> lwip_htons ETHTYPE_IP
          then stack_free p a
          else
            let opcode = ld16 hdr 6; shwaddr = ld_bytes hdr 8 6; sipaddr = ld32 hdr 14; dipaddr = ld32 hdr 24;
                ni = netifs n;
                for_us = (if ip4_addr_isany (nif_addr ni) then False else dipaddr = nif_addr ni)
            in bindR (etharp_update_arp_entry netifs n sipaddr shwaddr (if for_us then ETHARP_FLAG_TRY_HARD else ETHARP_FLAG_FIND_ONLY) a) (\<lambda>(err, a).
               bindR (if opcode = lwip_htons ARP_REQUEST \<and> for_us
                      then bindR (etharp_raw netifs n (nif_hwaddr ni) shwaddr (nif_hwaddr ni) (nif_addr ni) shwaddr sipaddr ARP_REPLY a) (\<lambda>(err, a). Inr a)
                      else Inr a) (stack_free p)))"

section \<open>Sending\<close>

definition etharp_output_to_arp_index :: "(nat \<Rightarrow> netif) \<Rightarrow> nat \<Rightarrow> nat \<Rightarrow> nat \<Rightarrow> 'a arp_scheme \<Rightarrow> stack_error + int \<times> 'a arp_scheme" where
  "etharp_output_to_arp_index netifs n q i a =
     (let e = arp_table a ! i
      in if \<not> stable_state (e_state e) then Inl STACK_ASSERT
         else
           let rerequest = (\<lambda>(err, a). Inr (if err = ERR_OK then upd_entry i (\<lambda>e. e\<lparr>e_state := ETHARP_STATE_STABLE_REREQUESTING_1\<rparr>) a else a))
           in bindR (if e_state e = ETHARP_STATE_STABLE
                     then if ARP_AGE_REREQUEST_USED_BROADCAST \<le> unat (e_ctime e) then bindR (etharp_request netifs n (e_ipaddr e) a) rerequest
                          else if ARP_AGE_REREQUEST_USED_UNICAST \<le> unat (e_ctime e)
                          then bindR (etharp_request_dst netifs n (e_ipaddr e) (e_ethaddr e) a) rerequest
                          else Inr a
                     else Inr a) (\<lambda>a.
              ethernet_output netifs n q (nif_hwaddr (netifs n)) (e_ethaddr (arp_table a ! i)) ETHTYPE_IP a))"

text \<open>Whether the packet must be copied to be kept: the first buffer with volatile data decides, unless an assertion fails before.\<close>

fun needs_copy :: "pbuf list \<Rightarrow> stack_error + bool" where
  "needs_copy [] = Inr False"
| "needs_copy (p # ps) =
     (if pf_len p = pf_tot_len p \<and> ps \<noteq> [] then Inl STACK_ASSERT
      else if pf_type_internal p AND 0x40 \<noteq> 0 then Inr True
      else needs_copy ps)"

text \<open>The packet to be queued: a clone in a buffer of its own, or the packet itself with one more reference.\<close>

definition take_over :: "nat \<Rightarrow> 'a arp_scheme \<Rightarrow> stack_error + nat option \<times> 'a arp_scheme" where
  "take_over q a =
     bindR (lift_ref (chain_at (l_heap a) q)) (\<lambda>c.
     bindR (needs_copy c) (\<lambda>copy_needed.
       if copy_needed
       then lift_pbuf (bindR (pbuf_clone PBUF_LINK PBUF_RAM c (l_src a)) (\<lambda>(c', src). Inr (add_node c' (a\<lparr>l_src := src\<rparr>))))
       else lift_ref (bindR (pbuf_ref (Some q) (l_heap a)) (\<lambda>h. Inr (Some q, a\<lparr>l_heap := h\<rparr>)))))"

definition queue_packet :: "nat \<Rightarrow> nat \<Rightarrow> 'a arp_scheme \<Rightarrow> stack_error + int \<times> 'a arp_scheme" where
  "queue_packet i q a =
     bindR (take_over q a) (\<lambda>(p, a).
       case p of
         None \<Rightarrow> Inr (ERR_MEM, a)
       | Some p \<Rightarrow>
           bindR (case e_q (arp_table a ! i) of None \<Rightarrow> Inr a | Some old \<Rightarrow> stack_free old a) (\<lambda>a.
             Inr (ERR_OK, upd_entry i (\<lambda>e. e\<lparr>e_q := Some p\<rparr>) a)))"

definition etharp_query :: "(nat \<Rightarrow> netif) \<Rightarrow> nat \<Rightarrow> u32 \<Rightarrow> nat option \<Rightarrow> 'a arp_scheme \<Rightarrow> stack_error + int \<times> 'a arp_scheme" where
  "etharp_query netifs n ipaddr q a =
     (if non_unicast netifs n ipaddr then Inr (ERR_ARG, a)
      else bindR (etharp_find_entry (Some ipaddr) ETHARP_FLAG_TRY_HARD (Some n) a) (\<lambda>(r, a).
        case r of
          Inl err \<Rightarrow> Inr (err, a)
        | Inr i \<Rightarrow>
            let is_new_entry = (e_state (arp_table a ! i) = ETHARP_STATE_EMPTY);
                a = (if is_new_entry then upd_entry i (\<lambda>e. e\<lparr>e_state := ETHARP_STATE_PENDING, e_netif := Some n\<rparr>) a else a)
            in bindR (if is_new_entry \<or> q = None then etharp_request netifs n ipaddr a else Inr (ERR_MEM, a)) (\<lambda>(result, a).
                 case q of
                   None \<Rightarrow> Inr (result, a)
                 | Some q \<Rightarrow>
                     if stable_state (e_state (arp_table a ! i))
                     then ethernet_output netifs n q (nif_hwaddr (netifs n)) (e_ethaddr (arp_table a ! i)) ETHTYPE_IP (a\<lparr>etharp_cached_entry := i\<rparr>)
                     else if e_state (arp_table a ! i) = ETHARP_STATE_PENDING then queue_packet i q a
                     else Inr (result, a))))"

fun find_stable :: "nat \<Rightarrow> etharp_entry list \<Rightarrow> nat \<Rightarrow> u32 \<Rightarrow> nat option" where
  "find_stable i [] netif dst = None"
| "find_stable i (e # es) netif dst =
     (if stable_state (e_state e) \<and> e_netif e = Some netif \<and> dst = e_ipaddr e then Some i
      else find_stable (i + 1) es netif dst)"

definition mcast_hwaddr :: "u32 \<Rightarrow> u8 list" where
  "mcast_hwaddr ip = [0x01, 0x00, 0x5e, bytes32 ip ! 1 AND 0x7f, bytes32 ip ! 2, bytes32 ip ! 3]"

definition next_hop :: "netif \<Rightarrow> u32 \<Rightarrow> u32 option" where
  "next_hop ni ipaddr =
     (if \<not> ip4_addr_netcmp ipaddr (nif_addr ni) (nif_netmask ni) \<and> \<not> ip4_addr_islinklocal ipaddr
      then if \<not> ip4_addr_isany (nif_gw ni) then Some (nif_gw ni) else None
      else Some ipaddr)"

definition etharp_output :: "(nat \<Rightarrow> netif) \<Rightarrow> nat \<Rightarrow> nat \<Rightarrow> u32 \<Rightarrow> 'a arp_scheme \<Rightarrow> stack_error + int \<times> 'a arp_scheme" where
  "etharp_output netifs n q ipaddr a =
     (let ni = netifs n; cached = arp_table a ! etharp_cached_entry a
      in if ip4_addr_isbroadcast_u32 ipaddr ni then ethernet_output netifs n q (nif_hwaddr ni) ethbroadcast ETHTYPE_IP a
         else if ip4_addr_ismulticast ipaddr then ethernet_output netifs n q (nif_hwaddr ni) (mcast_hwaddr ipaddr) ETHTYPE_IP a
         else case next_hop ni ipaddr of
           None \<Rightarrow> Inr (ERR_RTE, a)
         | Some dst \<Rightarrow>
             if stable_state (e_state cached) \<and> e_netif cached = Some n \<and> dst = e_ipaddr cached
             then etharp_output_to_arp_index netifs n q (etharp_cached_entry a) a
             else case find_stable 0 (arp_table a) n dst of
               Some i \<Rightarrow> etharp_output_to_arp_index netifs n q i (a\<lparr>etharp_cached_entry := i\<rparr>)
             | None \<Rightarrow> etharp_query netifs n dst (Some q) a)"

end
