(* ===== verification/LinkProps.thy ===== *)
theory LinkProps
  imports Ethernet PbufProps
begin

text \<open>
  Facts about the shared state: chains are read completely, sending and releasing keep the reference
  counts exact, and an outgoing frame is the Ethernet header followed by the bytes of the packet.
\<close>

section \<open>Reading chains\<close>

lemma chain_loop_more: "chain_loop f h p = Inr c \<Longrightarrow> f \<le> g \<Longrightarrow> chain_loop g h p = Inr c"
proof (induction f h p arbitrary: g c rule: chain_loop.induct)
  case (3 f h i)
  obtain g' where g: "g = Suc g'" "f \<le> g'" using 3(3) by (cases g) auto
  obtain n d where n: "node_at h i = Some n" and d: "chain_loop f h (pn_next n) = Inr d" and c: "c = pn_buf n # d"
    using 3(2) by (auto simp: bindR_Inr_iff)
  have "deref h i = Inr n" using n by simp
  then have "chain_loop g' h (pn_next n) = Inr d" using 3(1) d g(2) by blast
  then show ?case using n by (simp add: g(1) c deref_def)
qed simp_all

definition reach_set :: "pheap \<Rightarrow> nat \<Rightarrow> nat set" where
  "reach_set h p = {j. (p, j) \<in> (links h)\<^sup>*}"

lemma live_less: "live h i \<Longrightarrow> i < length h"
  by (auto simp: live_def node_at_def split: if_splits)

lemma refs_ok_next: "refs_ok h e \<Longrightarrow> nx h i = Some j \<Longrightarrow> live h j"
  using rc_next_live [of e h i j] by (auto simp: refs_ok_def live_def)

lemma reach_set_live:
  assumes ok: "refs_ok h e" and p: "live h p"
  shows "reach_set h p \<subseteq> {j. live h j}"
proof
  fix j
  assume "j \<in> reach_set h p"
  then have "(p, j) \<in> (links h)\<^sup>*" by (simp add: reach_set_def)
  then have "live h j" by (induction rule: rtrancl_induct) (use p ok refs_ok_next in \<open>auto simp: links_def\<close>)
  then show "j \<in> {j. live h j}" by simp
qed

lemma finite_live: "finite {j. live h j}"
  by (rule finite_subset [of _ "{..<length h}"]) (auto dest: live_less)

lemma card_reach_set: "refs_ok h e \<Longrightarrow> live h p \<Longrightarrow> card (reach_set h p) \<le> length h"
proof -
  assume "refs_ok h e" "live h p"
  then have "reach_set h p \<subseteq> {..<length h}" using reach_set_live live_less by blast
  then show ?thesis using card_mono [of "{..<length h}"] by simp
qed

lemma reach_set_next:
  assumes ok: "refs_ok h e" and x: "nx h i = Some j" and l: "live h i"
  shows "card (reach_set h j) < card (reach_set h i)"
proof (rule psubset_card_mono)
  have "finite (reach_set h i)" using finite_subset [OF reach_set_live [OF ok l] finite_live] .
  then show "finite (reach_set h i)" .
  have ij: "(i, j) \<in> links h" using x by (simp add: links_def)
  have "i \<notin> reach_set h j"
  proof
    assume "i \<in> reach_set h j"
    then have "(i, i) \<in> (links h)\<^sup>+" using ij by (auto simp: reach_set_def intro: rtrancl_into_trancl2)
    then show False using ok by (auto simp: refs_ok_def acyclic_def)
  qed
  moreover have "i \<in> reach_set h i" by (simp add: reach_set_def)
  moreover have "reach_set h j \<subseteq> reach_set h i"
    using ij by (auto simp: reach_set_def intro: converse_rtrancl_into_rtrancl)
  ultimately show "reach_set h j \<subset> reach_set h i" by blast
qed

lemma chain_loop_total:
  "refs_ok h e \<Longrightarrow> live h p \<Longrightarrow> card (reach_set h p) \<le> f \<Longrightarrow> \<exists>c. chain_loop f h (Some p) = Inr c \<and> c \<noteq> []"
proof (induction f arbitrary: p)
  case 0
  have "finite (reach_set h p)" using finite_subset [OF reach_set_live [OF 0(1,2)] finite_live] .
  moreover have "p \<in> reach_set h p" by (simp add: reach_set_def)
  ultimately show ?case using 0(3) by auto
next
  case (Suc f)
  obtain n where n: "node_at h p = Some n" using Suc.prems(2) by (auto simp: live_def)
  show ?case
  proof (cases "pn_next n")
    case None
    then show ?thesis using n by (simp add: deref_def)
  next
    case (Some j)
    then have x: "nx h p = Some j" using n by (simp add: nx_def)
    have "card (reach_set h j) \<le> f" using reach_set_next [OF Suc.prems(1) x Suc.prems(2)] Suc.prems(3) by linarith
    then obtain c where "chain_loop f h (Some j) = Inr c"
      using Suc.IH [OF Suc.prems(1) refs_ok_next [OF Suc.prems(1) x]] by blast
    then show ?thesis using n Some by (simp add: deref_def)
  qed
qed

lemma chain_at_total: "refs_ok h e \<Longrightarrow> live h p \<Longrightarrow> \<exists>c. chain_at h p = Inr c \<and> c \<noteq> []"
  unfolding chain_at_def by (rule chain_loop_total) (auto intro: card_reach_set)

lemma ext_live: "refs_ok h e \<Longrightarrow> 0 < e p \<Longrightarrow> live h p"
  using rc_ext_live [of e h p] by (auto simp: refs_ok_def live_def)

text \<open>A chain is read the same in a heap that agrees on its buffers.\<close>

lemma reach_set_step: "node_at h i = Some n \<Longrightarrow> pn_next n = Some j \<Longrightarrow> reach_set h j \<subseteq> reach_set h i"
  by (auto simp: reach_set_def links_def nx_def intro: converse_rtrancl_into_rtrancl)

lemma chain_loop_agree:
  "chain_loop f h (Some p) = Inr c \<Longrightarrow> (\<And>i. i \<in> reach_set h p \<Longrightarrow> node_at h' i = node_at h i) \<Longrightarrow>
   chain_loop f h' (Some p) = Inr c"
proof (induction f arbitrary: p c)
  case (Suc f)
  obtain n d where n: "node_at h p = Some n" and d: "chain_loop f h (pn_next n) = Inr d" and c: "c = pn_buf n # d"
    using Suc.prems(1) by (auto simp: bindR_Inr_iff)
  have n': "node_at h' p = Some n" using Suc.prems(2) [of p] n by (simp add: reach_set_def)
  have "chain_loop f h' (pn_next n) = Inr d"
  proof (cases "pn_next n")
    case (Some j)
    then show ?thesis using Suc.IH [of j d] d Suc.prems(2) reach_set_step [OF n Some] by auto
  qed (use d in simp)
  then show ?case using n' by (simp add: c deref_def)
qed simp

lemma self_not_reached: "refs_ok h e \<Longrightarrow> nx h p = Some j \<Longrightarrow> p \<notin> reach_set h j"
proof
  assume ok: "refs_ok h e" and x: "nx h p = Some j" and "p \<in> reach_set h j"
  then have "(p, p) \<in> (links h)\<^sup>+" by (auto simp: reach_set_def links_def intro: rtrancl_into_trancl2)
  then show False using ok by (auto simp: refs_ok_def acyclic_def)
qed

text \<open>Replacing the first buffer of a chain.\<close>

lemma chain_at_head:
  assumes ok: "refs_ok h e" and n: "node_at h p = Some n" and c: "chain_at h p = Inr (b # c)"
  shows "b = pn_buf n" "chain_at (h[p := Some (n\<lparr>pn_buf := b'\<rparr>)]) p = Inr (b' # c)"
proof -
  have p: "p < length h" using n by (rule node_at_less)
  then obtain f where f: "length h = Suc f" by (cases "length h") auto
  have b: "b = pn_buf n" and d: "chain_loop f h (pn_next n) = Inr c"
    using c n by (auto simp: chain_at_def f deref_def bindR_Inr_iff)
  show "b = pn_buf n" by (rule b)
  let ?h = "h[p := Some (n\<lparr>pn_buf := b'\<rparr>)]"
  have "chain_loop f ?h (pn_next n) = Inr c"
  proof (cases "pn_next n")
    case (Some j)
    then have "p \<notin> reach_set h j" using self_not_reached [OF ok] n by (simp add: nx_def)
    then have "node_at ?h i = node_at h i" if "i \<in> reach_set h j" for i
      using that p by (auto simp: node_at_upd)
    then show ?thesis using chain_loop_agree [of f h j c ?h] d Some by simp
  qed (use d in simp)
  then show "chain_at ?h p = Inr (b' # c)" using p by (simp add: chain_at_def f deref_def node_at_upd)
qed

section \<open>Sending\<close>

lemma add_header_total: "\<exists>r b'. pbuf_add_header b n = Inr (r, b') \<and> pf_ref b' = pf_ref b \<and>
    pf_type_internal b' = pf_type_internal b \<and> pf_flags b' = pf_flags b"
  by (auto simp: pbuf_add_header_def pbuf_add_header_impl_def Let_def)

lemma put_bytes_more [simp]:
  "pf_ref (put_bytes b i xs) = pf_ref b" "pf_type_internal (put_bytes b i xs) = pf_type_internal b"
  "pf_flags (put_bytes b i xs) = pf_flags b"
  by (simp_all add: put_bytes_def)

text \<open>What sending does to the heap: one buffer gets new contents.\<close>

definition rewritten :: "pheap \<Rightarrow> nat \<Rightarrow> pheap \<Rightarrow> bool" where
  "rewritten h p h' \<longleftrightarrow> h' = h \<or> (\<exists>n b. node_at h p = Some n \<and> h' = h[p := Some (n\<lparr>pn_buf := b\<rparr>)] \<and>
     pf_ref b = pf_ref (pn_buf n) \<and> pf_type_internal b = pf_type_internal (pn_buf n) \<and> pf_flags b = pf_flags (pn_buf n))"

lemma rewritten_refs: "rewritten h p h' \<Longrightarrow> refs_ok h e \<Longrightarrow> refs_ok h' e"
  by (auto simp: rewritten_def intro: refs_write)

lemma rewritten_same: "rewritten h p h' \<Longrightarrow> length h' = length h \<and> (\<forall>i. live h' i = live h i \<and> rf h' i = rf h i \<and> nx h' i = nx h i)"
  by (auto simp: rewritten_def live_def rf_def nx_def node_at_upd node_at_less split: if_splits)

lemma ethernet_output_runs:
  assumes ok: "refs_ok (l_heap s) e" and p: "0 < e p" and hw: "length (nif_hwaddr (netifs n)) = 6"
  shows "\<exists>r h out. ethernet_output netifs n p src dst ty s = Inr (r, s\<lparr>l_heap := h, l_out := out\<rparr>) \<and>
    refs_ok h e \<and> rewritten (l_heap s) p h"
proof -
  obtain nd where nd: "node_at (l_heap s) p = Some nd" using ext_live [OF ok p] by (auto simp: live_def)
  obtain r b where b: "pbuf_add_header (pn_buf nd) 14 = Inr (r, b)" "pf_ref b = pf_ref (pn_buf nd)"
      "pf_type_internal b = pf_type_internal (pn_buf nd)" "pf_flags b = pf_flags (pn_buf nd)"
    using add_header_total [of "pn_buf nd" 14] by blast
  show ?thesis
  proof (cases "r = 0")
    case False
    then have "ethernet_output netifs n p src dst ty s = Inr (- 2, s\<lparr>l_heap := l_heap s, l_out := l_out s\<rparr>)"
      using nd b by (simp add: ethernet_output_def deref_def)
    then show ?thesis
      using ok by (intro exI [of _ "- 2"] exI [of _ "l_heap s"] exI [of _ "l_out s"]) (simp add: rewritten_def)
  next
    case True
    let ?b = "put_bytes b 0 (eth_hdr_bytes dst src ty)"
    let ?h = "(l_heap s)[p := Some (nd\<lparr>pn_buf := ?b\<rparr>)]"
    have w: "rewritten (l_heap s) p ?h" using nd b by (auto simp: rewritten_def)
    then have ok': "refs_ok ?h e" using ok by (rule rewritten_refs)
    obtain c where c: "chain_at ?h p = Inr c" using chain_at_total [OF ok' ext_live [OF ok' p]] by blast
    have "ethernet_output netifs n p src dst ty s =
        Inr (nif_linkoutput (netifs n) (chain_bytes c), s\<lparr>l_heap := ?h, l_out := l_out s @ [(n, chain_bytes c)]\<rparr>)"
      using nd b True hw c by (simp add: ethernet_output_def deref_def set_buf_def)
    then show ?thesis using ok' w by blast
  qed
qed

text \<open>The frame: the header in front of the bytes of the packet.\<close>

lemma ld_st_front: "i \<le> length m \<Longrightarrow> ld_bytes (st_bytes m i xs) i (length xs + k) = xs @ ld_bytes m (i + length xs) k"
  by (simp add: ld_bytes_def st_bytes_def)

lemma length_eth_hdr: "6 \<le> length dst \<Longrightarrow> 6 \<le> length src \<Longrightarrow> length (eth_hdr_bytes dst src ty) = 14"
  by (simp add: eth_hdr_bytes_def)

definition has_room :: "pbuf \<Rightarrow> bool" where
  "has_room b \<longleftrightarrow> 14 \<le> pf_off b \<and> pf_off b \<le> length (pf_mem b) \<and> pf_type_internal b AND 0x80 \<noteq> 0 \<and>
     unat (pf_tot_len b) + 14 < 65536 \<and> plen b + 14 < 65536"

lemma header_fits:
  assumes r: "has_room b" and l: "6 \<le> length dst" "6 \<le> length src"
  shows "\<exists>b'. pbuf_add_header b 14 = Inr (0, b') \<and> seg_bytes (put_bytes b' 0 (eth_hdr_bytes dst src ty)) = eth_hdr_bytes dst src ty @ seg_bytes b \<and>
    pf_ref b' = pf_ref b \<and> pf_type_internal b' = pf_type_internal b \<and> pf_flags b' = pf_flags b"
proof -
  let ?b = "b\<lparr>pf_off := pf_off b - 14, pf_len := pf_len b + 14, pf_tot_len := pf_tot_len b + 14\<rparr>"
  have "unat (14 + pf_tot_len b) = 14 + unat (pf_tot_len b)" "unat (pf_len b + 14) = unat (pf_len b) + 14"
    using r by (simp_all add: has_room_def plen_def unat_word_ariths)
  then have "\<not> 14 + pf_tot_len b < 14" and p: "plen ?b = 14 + plen b"
    by (simp_all add: word_less_nat_alt plen_def)
  then have "pbuf_add_header b 14 = Inr (0, ?b)"
    using r by (simp add: pbuf_add_header_def pbuf_add_header_impl_def Let_def has_room_def)
  moreover have "pf_off b - 14 \<le> length (pf_mem b)" using r unfolding has_room_def by linarith
  then have "seg_bytes (put_bytes ?b 0 (eth_hdr_bytes dst src ty)) = eth_hdr_bytes dst src ty @ seg_bytes b"
    using ld_st_front [of "pf_off b - 14" "pf_mem b" "eth_hdr_bytes dst src ty" "plen b"] r p length_eth_hdr [OF l, of ty]
    by (simp add: seg_bytes_def put_bytes_def has_room_def plen_def)
  ultimately show ?thesis by (intro exI [of _ ?b]) simp
qed

lemma ethernet_output_frame:
  assumes ok: "refs_ok (l_heap s) e" and nd: "node_at (l_heap s) p = Some nd" and c: "chain_at (l_heap s) p = Inr (b # c)"
    and r: "has_room b" and l: "6 \<le> length dst" "6 \<le> length src" and hw: "length (nif_hwaddr (netifs n)) = 6"
  shows "\<exists>b'. ethernet_output netifs n p src dst ty s =
      Inr (nif_linkoutput (netifs n) (eth_hdr_bytes dst src ty @ chain_bytes (b # c)),
           s\<lparr>l_heap := (l_heap s)[p := Some (nd\<lparr>pn_buf := b'\<rparr>)], l_out := l_out s @ [(n, eth_hdr_bytes dst src ty @ chain_bytes (b # c))]\<rparr>) \<and>
    pf_ref b' = pf_ref b \<and> pf_type_internal b' = pf_type_internal b \<and> pf_flags b' = pf_flags b"
proof -
  have b: "b = pn_buf nd" using chain_at_head(1) [OF ok nd c] .
  obtain b1 where b1: "pbuf_add_header b 14 = Inr (0, b1)"
      "seg_bytes (put_bytes b1 0 (eth_hdr_bytes dst src ty)) = eth_hdr_bytes dst src ty @ seg_bytes b"
      "pf_ref b1 = pf_ref b" "pf_type_internal b1 = pf_type_internal b" "pf_flags b1 = pf_flags b"
    using header_fits [OF r l] by blast
  let ?b = "put_bytes b1 0 (eth_hdr_bytes dst src ty)"
  have "chain_at ((l_heap s)[p := Some (nd\<lparr>pn_buf := ?b\<rparr>)]) p = Inr (?b # c)" using chain_at_head(2) [OF ok nd c] .
  then show ?thesis
    using nd b b1 hw by (intro exI [of _ ?b]) (simp add: ethernet_output_def deref_def set_buf_def)
qed

section \<open>Releasing and allocating\<close>

lemma stack_free_runs:
  assumes "refs_ok (l_heap s) e" and "0 < e p"
  shows "\<exists>h gone. stack_free p s = Inr (s\<lparr>l_heap := h\<rparr>) \<and> refs_ok h (e(p := e p - 1)) \<and> freed_exactly (l_heap s) gone h"
proof -
  obtain fs h where f: "pbuf_free (Some p) (l_heap s) = Inr (of_nat (length fs), fs, h)" "freed_exactly (l_heap s) (fst ` set fs) h"
    using pbuf_free_exact [of e "l_heap s" p] assms by (auto simp: refs_ok_def)
  then show ?thesis using refs_free [OF assms f(1)] by (auto simp: stack_free_def)
qed

lemma node_at_append: "node_at (h @ [x]) i = (if i = length h then x else node_at h i)"
  by (auto simp: node_at_def nth_append)

lemma refs_ok_snoc_None [simp]: "refs_ok (h @ [None]) e = refs_ok h e"
proof -
  have n: "node_at (h @ [None]) = node_at h" by (auto simp: node_at_append fun_eq_iff) (auto simp: node_at_def)
  have "rf (h @ [None]) = rf h" "nx (h @ [None]) = nx h" "live (h @ [None]) = live h"
    by (simp_all add: rf_def nx_def live_def n fun_eq_iff)
  then show ?thesis by (simp add: refs_ok_def rc_inv_def preds_def links_def n)
qed

lemma refs_ok_snoc_new:
  assumes ok: "refs_ok h e" and b: "pf_ref b = 1" "good_src b"
  shows "refs_ok (h @ [Some \<lparr>pn_buf = b, pn_next = None\<rparr>]) (e(length h := 1))" (is "refs_ok ?h _")
proof -
  have inv: "rc_inv e h" using ok by (simp add: refs_ok_def)
  have d: "node_at h (length h) = None" by (simp add: node_at_def)
  have nx: "nx ?h = nx h" using d by (auto simp: fun_eq_iff nx_def node_at_append)
  have rf: "rf ?h = (rf h)(length h := 1)" using b by (auto simp: fun_eq_iff rf_def node_at_append)
  have p: "preds ?h = preds h" by (simp add: fun_eq_iff preds_def nx)
  have "rf h (length h) = 0" using d by (simp add: rf_def)
  then have "card (preds h (length h)) = 0" using rc_invD(1) [OF inv, of "length h"] by linarith
  moreover have "rf h i = card (preds h i) + e i" for i using rc_invD(1) [OF inv] .
  ultimately have "rf ?h i = card (preds ?h i) + (e(length h := 1)) i" for i unfolding rf p by simp
  moreover have "\<forall>i. live ?h i \<longrightarrow> 0 < rf ?h i"
  proof -
    have "\<forall>i. live h i \<longrightarrow> 0 < rf h i" using inv unfolding rc_inv_iff by blast
    then show ?thesis by (simp add: rf live_def node_at_append)
  qed
  moreover have "good_nodes ?h"
    using inv b by (auto simp: rc_inv_iff node_at_append good_nodes_def)
  ultimately have "rc_inv (e(length h := 1)) ?h" unfolding rc_inv_iff by blast
  then show ?thesis using ok by (simp add: refs_ok_def links_def nx)
qed

text \<open>A buffer that is allocated, sent and released leaves the heap as it was.\<close>

definition heap_ok :: "'a link_scheme \<Rightarrow> bool" where
  "heap_ok s \<longleftrightarrow> (\<forall>n m. src_heap (l_src s) n = Some m \<longrightarrow> length m = n)"

lemma alloc_ram_cases:
  assumes u: "unat (of_nat (mem_align_size (unat layer) + mem_align_size (unat len)) :: u16) = mem_align_size (unat layer) + mem_align_size (unat len)"
  shows "alloc_ram layer len s =
    (case src_heap (l_src s) (mem_align_size (unat layer) + mem_align_size (unat len)) of
       None \<Rightarrow> Inr (None, s)
     | Some m \<Rightarrow> Inr (Some (length (l_heap s)),
         s\<lparr>l_heap := l_heap s @ [Some \<lparr>pn_buf = pbuf_init_alloced_pbuf m (mem_align_size (unat layer)) len len PBUF_RAM 0, pn_next = None\<rparr>]\<rparr>))"
  using u by (simp add: alloc_ram_def pbuf_alloc_def Let_def add_node_def split: option.splits)

lemma free_new:
  assumes b: "pf_ref b = 1" "good_src b"
  shows "stack_free (length h) (s\<lparr>l_heap := h @ [Some \<lparr>pn_buf = b, pn_next = None\<rparr>]\<rparr>) = Inr (s\<lparr>l_heap := h @ [None]\<rparr>)"
proof -
  obtain x where x: "free_to b = Inr x" using good_srcD [OF b(2)] by blast
  then show ?thesis
    using b(1) by (simp add: stack_free_def pbuf_free_def free_loop.simps [of "Some _"] free_loop.simps [of None] deref_def node_at_append)
qed

end
