(* ===== verification/EtharpProps.thy ===== *)
theory EtharpProps
  imports Etharp LinkProps
begin

text \<open>
  Properties of address resolution: the table stays a map with exact reference counts of the waiting
  packets, requests are answered, resolved addresses get their waiting packet, and the choice of the entry to give up.
\<close>

section \<open>Sending an ARP packet\<close>

lemma length_etharp_hdr: "6 \<le> length hwsrc \<Longrightarrow> 6 \<le> length hwdst \<Longrightarrow> length (etharp_hdr opcode hwsrc ipsrc hwdst ipdst) = 28"
  by (simp add: etharp_hdr_def)

definition arp_frame :: "u8 list \<Rightarrow> u8 list \<Rightarrow> u16 \<Rightarrow> u8 list \<Rightarrow> u32 \<Rightarrow> u8 list \<Rightarrow> u32 \<Rightarrow> u8 list" where
  "arp_frame ethdst ethsrc opcode hwsrc ipsrc hwdst ipdst =
     eth_hdr_bytes ethdst ethsrc ETHTYPE_ARP @ etharp_hdr opcode hwsrc ipsrc hwdst ipdst"

lemma link_swap [simp]: "s\<lparr>l_out := os, l_heap := h\<rparr> = s\<lparr>l_heap := h, l_out := os\<rparr>"
  by simp

lemma etharp_raw_exact:
  assumes ok: "refs_ok (l_heap a) e" and hp: "heap_ok a" and hw: "length (nif_hwaddr (netifs n)) = 6"
    and l: "6 \<le> length ethsrc" "6 \<le> length ethdst" "6 \<le> length hwsrc" "6 \<le> length hwdst"
  shows "etharp_raw netifs n ethsrc ethdst hwsrc ipsrc hwdst ipdst opcode a =
    (if src_heap (l_src a) 44 = None then Inr (- 1, a)
     else Inr (0, a\<lparr>l_heap := l_heap a @ [None], l_out := l_out a @ [(n, arp_frame ethdst ethsrc opcode hwsrc ipsrc hwdst ipdst)]\<rparr>))"
proof (cases "src_heap (l_src a) 44")
  case None
  then show ?thesis by (simp add: etharp_raw_def alloc_ram_cases mem_align_size_def)
next
  case (Some m)
  have m: "length m = 44" using hp Some by (simp add: heap_ok_def)
  let ?L = "length (l_heap a)"
  let ?b = "pbuf_init_alloced_pbuf m 16 28 28 PBUF_RAM 0"
  let ?hdr = "etharp_hdr opcode hwsrc ipsrc hwdst ipdst"
  let ?b1 = "put_bytes ?b 0 ?hdr"
  let ?a0 = "a\<lparr>l_heap := l_heap a @ [Some \<lparr>pn_buf = ?b, pn_next = None\<rparr>]\<rparr>"
  let ?a1 = "a\<lparr>l_heap := l_heap a @ [Some \<lparr>pn_buf = ?b1, pn_next = None\<rparr>]\<rparr>"
  have al: "alloc_ram 14 28 a = Inr (Some ?L, ?a0)"
    using Some by (simp add: alloc_ram_cases mem_align_size_def)
  have bf: "pf_ref ?b1 = 1" "good_src ?b1" "plen ?b1 = 28" "has_room ?b1" "seg_bytes ?b1 = ?hdr"
    using m length_etharp_hdr [OF l(3,4), of opcode ipsrc ipdst] ld_st_bytes_same [of 16 m ?hdr]
    by (simp_all add: pbuf_init_alloced_pbuf_def good_src_def pbuf_get_allocsrc_def plen_def has_room_def put_bytes_def seg_bytes_def)
  have n1: "node_at (l_heap ?a1) ?L = Some \<lparr>pn_buf = ?b1, pn_next = None\<rparr>" by (simp add: node_at_append)
  have c1: "chain_at (l_heap ?a1) ?L = Inr [?b1]" by (simp add: chain_at_def deref_def node_at_append)
  have ok1: "refs_ok (l_heap ?a1) (e(?L := 1))" using refs_ok_snoc_new [OF ok bf(1,2)] by simp
  obtain b2 r where o: "ethernet_output netifs n ?L ethsrc ethdst ETHTYPE_ARP ?a1 = Inr (r,
        ?a1\<lparr>l_heap := (l_heap ?a1)[?L := Some \<lparr>pn_buf = b2, pn_next = None\<rparr>], l_out := l_out a @ [(n, arp_frame ethdst ethsrc opcode hwsrc ipsrc hwdst ipdst)]\<rparr>)"
      "pf_ref b2 = 1" "good_src b2"
    using ethernet_output_frame [of ?a1 "e(?L := 1)" ?L _ _ "[]" ethdst ethsrc netifs n ETHTYPE_ARP, OF ok1 n1 c1 bf(4) l(2,1) hw] bf(1,2,5)
    by (auto simp: arp_frame_def good_src_def pbuf_get_allocsrc_def)
  have "set_buf ?L \<lparr>pn_buf = ?b, pn_next = None\<rparr> ?b1 ?a0 = ?a1" by (simp add: set_buf_def)
  then show ?thesis
    using al o(1) free_new [OF o(2,3), of "l_heap a" "a\<lparr>l_out := l_out a @ [(n, arp_frame ethdst ethsrc opcode hwsrc ipsrc hwdst ipdst)]\<rparr>"]
      Some hw bf(3) m
    by (simp add: etharp_raw_def deref_def node_at_append plen_def pbuf_init_alloced_pbuf_def)
qed

section \<open>Searching the table\<close>

definition same_key :: "etharp_entry \<Rightarrow> etharp_entry \<Rightarrow> bool" where
  "same_key e f \<longleftrightarrow> e_ipaddr e = e_ipaddr f \<and> e_netif e = e_netif f"

abbreviation used :: "etharp_entry \<Rightarrow> bool" where
  "used e \<equiv> e_state e \<noteq> ETHARP_STATE_EMPTY"

text \<open>
  The least destructive entry: among the entries up to \<open>i\<close>, \<open>j\<close> is one of the oldest of the given class
  (and 10 stands for an empty class).
\<close>

definition oldest :: "(etharp_entry \<Rightarrow> bool) \<Rightarrow> etharp_entry list \<Rightarrow> nat \<Rightarrow> nat \<Rightarrow> u16 \<Rightarrow> bool" where
  "oldest P t i j age \<longleftrightarrow>
     (\<forall>k<i. \<not> P (t ! k)) \<and> j = ARP_TABLE_SIZE \<and> age = 0 \<or>
     j < i \<and> P (t ! j) \<and> e_ctime (t ! j) = age \<and> (\<forall>k<i. P (t ! k) \<longrightarrow> e_ctime (t ! k) \<le> age)"

definition first_free :: "etharp_entry list \<Rightarrow> nat \<Rightarrow> nat \<Rightarrow> bool" where
  "first_free t i j \<longleftrightarrow>
     (\<forall>k<i. used (t ! k)) \<and> j = ARP_TABLE_SIZE \<or> j < i \<and> \<not> used (t ! j) \<and> (\<forall>k<j. used (t ! k))"

definition is_stable :: "etharp_entry \<Rightarrow> bool" where "is_stable e \<longleftrightarrow> stable_state (e_state e)"
definition is_waiting :: "etharp_entry \<Rightarrow> bool" where "is_waiting e \<longleftrightarrow> e_state e = ETHARP_STATE_PENDING \<and> e_q e \<noteq> None"
definition is_pending :: "etharp_entry \<Rightarrow> bool" where "is_pending e \<longleftrightarrow> e_state e = ETHARP_STATE_PENDING \<and> e_q e = None"

definition cands_ok :: "etharp_entry list \<Rightarrow> nat \<Rightarrow> find_cands \<Rightarrow> bool" where
  "cands_ok t i c \<longleftrightarrow>
     first_free t i (f_empty c) \<and>
     oldest is_stable t i (old_stable c) (age_stable c) \<and>
     oldest is_pending t i (old_pending c) (age_pending c) \<and>
     oldest is_waiting t i (old_queue c) (age_queue c)"

lemma oldest_skip: "oldest P t i j age \<Longrightarrow> \<not> P (t ! i) \<Longrightarrow> oldest P t (Suc i) j age"
  by (auto simp: oldest_def less_Suc_eq)

lemma oldest_take: "oldest P t i j age \<Longrightarrow> P (t ! i) \<Longrightarrow> age \<le> e_ctime (t ! i) \<Longrightarrow> oldest P t (Suc i) i (e_ctime (t ! i))"
  by (auto simp: oldest_def less_Suc_eq intro: order_trans)

lemma oldest_keep: "oldest P t i j age \<Longrightarrow> P (t ! i) \<Longrightarrow> \<not> age \<le> e_ctime (t ! i) \<Longrightarrow> oldest P t (Suc i) j age"
  by (auto simp: oldest_def less_Suc_eq not_le)

lemma first_free_used: "first_free t i j \<Longrightarrow> used (t ! i) \<Longrightarrow> first_free t (Suc i) j"
  by (auto simp: first_free_def less_Suc_eq)

lemma first_free_free:
  "first_free t i j \<Longrightarrow> \<not> used (t ! i) \<Longrightarrow> i < ARP_TABLE_SIZE \<Longrightarrow> first_free t (Suc i) (if j = ARP_TABLE_SIZE then i else j)"
  by (auto simp: first_free_def less_Suc_eq)

lemma stable_used: "stable_state s \<Longrightarrow> s \<noteq> ETHARP_STATE_EMPTY \<and> s \<noteq> ETHARP_STATE_PENDING"
  by (cases s) auto

lemma used_cases: "used e \<Longrightarrow> is_stable e \<or> is_waiting e \<or> is_pending e"
  by (cases "e_state e") (auto simp: is_stable_def is_waiting_def is_pending_def)

lemma note_entry_ok:
  assumes "cands_ok t i c" and "used (t ! i)"
  shows "cands_ok t (Suc i) (note_entry i (t ! i) c)"
proof -
  have e: "first_free t (Suc i) (f_empty c)" using assms first_free_used by (simp add: cands_ok_def)
  consider "is_stable (t ! i)" "\<not> is_waiting (t ! i)" "\<not> is_pending (t ! i)"
    | "\<not> is_stable (t ! i)" "is_waiting (t ! i)" "\<not> is_pending (t ! i)"
    | "\<not> is_stable (t ! i)" "\<not> is_waiting (t ! i)" "is_pending (t ! i)"
    using used_cases [OF assms(2)] by (auto simp: is_stable_def is_waiting_def is_pending_def dest: stable_used)
  then show ?thesis
  proof cases
    case 1
    then have "note_entry i (t ! i) c =
        (if age_stable c \<le> e_ctime (t ! i) then c\<lparr>old_stable := i, age_stable := e_ctime (t ! i)\<rparr> else c)"
      by (auto simp: note_entry_def is_stable_def is_waiting_def dest: stable_used)
    then show ?thesis using assms(1) e 1 by (auto simp: cands_ok_def oldest_skip oldest_take oldest_keep)
  next
    case 2
    then have "note_entry i (t ! i) c =
        (if age_queue c \<le> e_ctime (t ! i) then c\<lparr>old_queue := i, age_queue := e_ctime (t ! i)\<rparr> else c)"
      by (auto simp: note_entry_def is_waiting_def)
    then show ?thesis using assms(1) e 2 by (auto simp: cands_ok_def oldest_skip oldest_take oldest_keep)
  next
    case 3
    then have "note_entry i (t ! i) c =
        (if age_pending c \<le> e_ctime (t ! i) then c\<lparr>old_pending := i, age_pending := e_ctime (t ! i)\<rparr> else c)"
      by (auto simp: note_entry_def is_pending_def)
    then show ?thesis using assms(1) e 3 by (auto simp: cands_ok_def oldest_skip oldest_take oldest_keep)
  qed
qed

lemma empty_ok:
  assumes "cands_ok t i c" and "\<not> used (t ! i)" and "i < ARP_TABLE_SIZE"
  shows "cands_ok t (Suc i) (if f_empty c = ARP_TABLE_SIZE then c\<lparr>f_empty := i\<rparr> else c)"
proof -
  have n: "\<not> is_stable (t ! i)" "\<not> is_waiting (t ! i)" "\<not> is_pending (t ! i)"
    using assms(2) by (auto simp: is_stable_def is_waiting_def is_pending_def)
  show ?thesis
    using assms n first_free_free [of t i "f_empty c"] by (auto simp: cands_ok_def oldest_skip split: if_splits)
qed

lemma find_loop_spec:
  assumes "cands_ok t i c" and "es = drop i t" and "length t = ARP_TABLE_SIZE" and "i \<le> length t"
    and "\<And>k. k < i \<Longrightarrow> used (t ! k) \<Longrightarrow> \<not> entry_matches ip nf (t ! k)"
  shows "case find_loop ip nf i es c of
      Inl j \<Rightarrow> j < ARP_TABLE_SIZE \<and> used (t ! j) \<and> entry_matches ip nf (t ! j)
    | Inr c' \<Rightarrow> cands_ok t ARP_TABLE_SIZE c' \<and> (\<forall>k < ARP_TABLE_SIZE. used (t ! k) \<longrightarrow> \<not> entry_matches ip nf (t ! k))"
  using assms
proof (induction ip nf i es c rule: find_loop.induct)
  case (1 ip nf i c)
  then have "i = length t" by simp
  then show ?case using 1 by simp
next
  case (2 ip nf i e es c)
  have i: "i < length t" using "2.prems"(2) by (cases "i < length t") auto
  then have e: "e = t ! i" and es: "es = drop (i + 1) t"
    using "2.prems"(2) by (simp_all add: Cons_nth_drop_Suc [symmetric])
  show ?case
  proof (cases "used e")
    case False
    have c': "cands_ok t (i + 1) (if f_empty c = ARP_TABLE_SIZE then c\<lparr>f_empty := i\<rparr> else c)"
      using empty_ok [OF "2.prems"(1)] False i e "2.prems"(3) by simp
    have k: "\<And>k. k < i + 1 \<Longrightarrow> used (t ! k) \<Longrightarrow> \<not> entry_matches ip nf (t ! k)"
      using "2.prems"(5) False e by (auto simp: less_Suc_eq)
    show ?thesis
    proof (cases "f_empty c = ARP_TABLE_SIZE")
      case True
      then show ?thesis using "2.IH"(1) False c' es i k "2.prems"(3) by simp
    next
      case f: False
      then show ?thesis using "2.IH"(3) False c' es i k "2.prems"(3) by simp
    qed
  next
    case True
    show ?thesis
    proof (cases "entry_matches ip nf e")
      case m: True
      then show ?thesis using True e i "2.prems"(3) by simp
    next
      case m: False
      have "cands_ok t (i + 1) (note_entry i e c)" using note_entry_ok [OF "2.prems"(1)] True e by simp
      moreover have "\<And>k. k < i + 1 \<Longrightarrow> used (t ! k) \<Longrightarrow> \<not> entry_matches ip nf (t ! k)"
        using "2.prems"(5) m e by (auto simp: less_Suc_eq)
      ultimately show ?thesis using "2.IH"(2) True m es i "2.prems"(3) by simp
    qed
  qed
qed

lemma no_cands_ok: "cands_ok t 0 no_cands"
  by (simp add: cands_ok_def no_cands_def oldest_def first_free_def)

section \<open>The invariant\<close>

definition entry_ok :: "etharp_entry \<Rightarrow> bool" where
  "entry_ok e \<longleftrightarrow> (e_state e \<noteq> ETHARP_STATE_PENDING \<longrightarrow> e_q e = None) \<and> (used e \<longrightarrow> e_netif e \<noteq> None) \<and>
     (is_stable e \<longrightarrow> length (e_ethaddr e) = 6)"

definition table_ok :: "etharp_entry list \<Rightarrow> bool" where
  "table_ok t \<longleftrightarrow> length t = ARP_TABLE_SIZE \<and> (\<forall>i < ARP_TABLE_SIZE. entry_ok (t ! i)) \<and>
     (\<forall>i < ARP_TABLE_SIZE. \<forall>j < ARP_TABLE_SIZE. used (t ! i) \<longrightarrow> used (t ! j) \<longrightarrow> same_key (t ! i) (t ! j) \<longrightarrow> i = j)"

text \<open>The references the table holds to waiting packets.\<close>

definition q_refs :: "etharp_entry list \<Rightarrow> nat \<Rightarrow> nat" where
  "q_refs t p = length (filter (\<lambda>e. e_q e = Some p) t)"

definition all_refs :: "(nat \<Rightarrow> nat) \<Rightarrow> etharp_entry list \<Rightarrow> nat \<Rightarrow> nat" where
  "all_refs ext t p = ext p + q_refs t p"

definition arp_inv :: "(nat \<Rightarrow> nat) \<Rightarrow> 'a arp_scheme \<Rightarrow> bool" where
  "arp_inv ext a \<longleftrightarrow> table_ok (arp_table a) \<and> etharp_cached_entry a < ARP_TABLE_SIZE \<and>
     refs_ok (l_heap a) (all_refs ext (arp_table a)) \<and> heap_ok a"

definition nif_ok :: "netif \<Rightarrow> bool" where
  "nif_ok n \<longleftrightarrow> length (nif_hwaddr n) = 6"

lemma filter_length_upd:
  "i < length t \<Longrightarrow> length (filter P (t[i := x])) + (if P (t ! i) then 1 else 0) = length (filter P t) + (if P x then 1 else 0)"
proof (induction t arbitrary: i)
  case (Cons y t)
  then show ?case by (cases i) auto
qed simp

lemma q_refs_upd:
  "i < length t \<Longrightarrow> q_refs (t[i := x]) p + (if e_q (t ! i) = Some p then 1 else 0) = q_refs t p + (if e_q x = Some p then 1 else 0)"
  unfolding q_refs_def by (rule filter_length_upd)

lemma q_refs_same: "i < length t \<Longrightarrow> e_q x = e_q (t ! i) \<Longrightarrow> q_refs (t[i := x]) = q_refs t"
  using q_refs_upd [of i t x] by (auto simp: fun_eq_iff split: if_splits)

lemma all_refs_same [simp]: "i < length t \<Longrightarrow> e_q x = e_q (t ! i) \<Longrightarrow> all_refs ext (t[i := x]) = all_refs ext t"
  by (simp add: all_refs_def q_refs_same fun_eq_iff)

lemma all_refs_drop:
  assumes "i < length t" and "e_q (t ! i) = Some p" and "e_q x = None"
  shows "0 < all_refs ext t p" "all_refs ext (t[i := x]) = (all_refs ext t)(p := all_refs ext t p - 1)"
proof -
  have u: "q_refs (t[i := x]) j + (if j = p then 1 else 0) = q_refs t j" for j
    using q_refs_upd [OF assms(1), of x j] assms(2,3) by auto
  show "0 < all_refs ext t p" using u [of p] by (simp add: all_refs_def)
  show "all_refs ext (t[i := x]) = (all_refs ext t)(p := all_refs ext t p - 1)"
  proof
    fix j
    show "all_refs ext (t[i := x]) j = ((all_refs ext t)(p := all_refs ext t p - 1)) j"
      using u [of j] by (auto simp: all_refs_def split: if_splits)
  qed
qed

lemma all_refs_add:
  assumes "i < length t" and "e_q (t ! i) = None" and "e_q x = Some p"
  shows "all_refs ext (t[i := x]) = (all_refs ext t)(p := all_refs ext t p + 1)"
proof
  fix j
  have "q_refs (t[i := x]) j = q_refs t j + (if j = p then 1 else 0)"
    using q_refs_upd [OF assms(1), of x j] assms(2,3) by auto
  then show "all_refs ext (t[i := x]) j = ((all_refs ext t)(p := all_refs ext t p + 1)) j"
    by (auto simp: all_refs_def)
qed

lemma table_okD:
  assumes "table_ok t"
  shows "length t = ARP_TABLE_SIZE" "i < ARP_TABLE_SIZE \<Longrightarrow> entry_ok (t ! i)"
    "i < ARP_TABLE_SIZE \<Longrightarrow> j < ARP_TABLE_SIZE \<Longrightarrow> used (t ! i) \<Longrightarrow> used (t ! j) \<Longrightarrow> same_key (t ! i) (t ! j) \<Longrightarrow> i = j"
  using assms by (auto simp: table_ok_def)

text \<open>An entry may be replaced when its key is not that of another used entry.\<close>

lemma table_ok_upd:
  assumes t: "table_ok t" and i: "i < ARP_TABLE_SIZE" and x: "entry_ok x"
    and u: "used x \<Longrightarrow> \<forall>j < ARP_TABLE_SIZE. j \<noteq> i \<longrightarrow> used (t ! j) \<longrightarrow> \<not> same_key (t ! j) x"
  shows "table_ok (t[i := x])"
proof -
  have s: "same_key e f = same_key f e" for e f by (auto simp: same_key_def)
  have "j = k" if "j < ARP_TABLE_SIZE" "k < ARP_TABLE_SIZE" "used (t[i := x] ! j)" "used (t[i := x] ! k)"
      "same_key (t[i := x] ! j) (t[i := x] ! k)" for j k
    using that t i u table_okD(3) [OF t, of j k] s
    by (auto simp: nth_list_update table_okD(1) [OF t] split: if_splits)
  then show ?thesis using t i x by (auto simp: table_ok_def nth_list_update)
qed

lemma upd_entry_table [simp]: "arp_table (upd_entry i f a) = (arp_table a)[i := f (arp_table a ! i)]"
  and upd_entry_more [simp]: "l_heap (upd_entry i f a) = l_heap a" "l_src (upd_entry i f a) = l_src a"
    "l_out (upd_entry i f a) = l_out a" "etharp_cached_entry (upd_entry i f a) = etharp_cached_entry a"
  by (simp_all add: upd_entry_def)

lemma heap_ok_src: "l_src b = l_src a \<Longrightarrow> heap_ok a \<Longrightarrow> heap_ok b"
  by (simp add: heap_ok_def)

lemma arp_invD:
  assumes "arp_inv ext a"
  shows "table_ok (arp_table a)" "etharp_cached_entry a < ARP_TABLE_SIZE" "refs_ok (l_heap a) (all_refs ext (arp_table a))" "heap_ok a"
    "length (arp_table a) = ARP_TABLE_SIZE" "i < ARP_TABLE_SIZE \<Longrightarrow> entry_ok (arp_table a ! i)"
  using assms table_okD by (auto simp: arp_inv_def)

section \<open>Every operation keeps the invariant\<close>

text \<open>Sending touches neither the table nor the references.\<close>

definition sent_only :: "'a arp_scheme \<Rightarrow> 'a arp_scheme \<Rightarrow> bool" where
  "sent_only a a' \<longleftrightarrow> (\<exists>h out. a' = a\<lparr>l_heap := h, l_out := out\<rparr>)"

lemma sent_onlyD:
  "sent_only a a' \<Longrightarrow> arp_table a' = arp_table a \<and> etharp_cached_entry a' = etharp_cached_entry a \<and> l_src a' = l_src a"
  by (auto simp: sent_only_def)

lemma arp_inv_sent:
  "arp_inv ext a \<Longrightarrow> sent_only a a' \<Longrightarrow> refs_ok (l_heap a') (all_refs ext (arp_table a)) \<Longrightarrow> arp_inv ext a'"
  using sent_onlyD [of a a'] heap_ok_src by (auto simp: arp_inv_def)

lemma raw_keeps:
  assumes inv: "arp_inv ext a" and hw: "nif_ok (netifs n)"
    and l: "6 \<le> length ethsrc" "6 \<le> length ethdst" "6 \<le> length hwsrc" "6 \<le> length hwdst"
  shows "\<exists>r h out. etharp_raw netifs n ethsrc ethdst hwsrc ipsrc hwdst ipdst opcode a = Inr (r, a\<lparr>l_heap := h, l_out := out\<rparr>) \<and>
    (h = l_heap a \<or> h = l_heap a @ [None]) \<and> refs_ok h (all_refs ext (arp_table a))"
proof (cases "src_heap (l_src a) 44 = None")
  case True
  then have "etharp_raw netifs n ethsrc ethdst hwsrc ipsrc hwdst ipdst opcode a = Inr (- 1, a\<lparr>l_heap := l_heap a, l_out := l_out a\<rparr>)"
    using etharp_raw_exact [OF arp_invD(3,4) [OF inv] _ l] inv hw by (simp add: nif_ok_def)
  then show ?thesis using arp_invD(3) [OF inv] by blast
next
  case False
  then show ?thesis
    using etharp_raw_exact [OF arp_invD(3,4) [OF inv] _ l, of netifs n ipsrc ipdst opcode] arp_invD(3) [OF inv] hw
    by (auto simp: nif_ok_def)
qed

lemma request_keeps:
  assumes "arp_inv ext a" and "nif_ok (netifs n)" and "length hw \<ge> 6"
  shows "\<exists>r h out. etharp_request_dst netifs n ip hw a = Inr (r, a\<lparr>l_heap := h, l_out := out\<rparr>) \<and>
    (h = l_heap a \<or> h = l_heap a @ [None]) \<and> refs_ok h (all_refs ext (arp_table a))"
  unfolding etharp_request_dst_def
  using assms by (intro raw_keeps) (simp_all add: nif_ok_def ethzero_def)

lemma output_keeps:
  assumes inv: "arp_inv ext a" and hw: "nif_ok (netifs n)" and p: "0 < all_refs ext (arp_table a) p"
  shows "\<exists>r h out. ethernet_output netifs n p src dst ty a = Inr (r, a\<lparr>l_heap := h, l_out := out\<rparr>) \<and>
    refs_ok h (all_refs ext (arp_table a)) \<and> rewritten (l_heap a) p h"
  using ethernet_output_runs [OF arp_invD(3) [OF inv] p] hw by (simp add: nif_ok_def)

lemma free_keeps:
  assumes ok: "refs_ok (l_heap a) e" and p: "0 < e p"
  shows "\<exists>h. stack_free p a = Inr (a\<lparr>l_heap := h\<rparr>) \<and> refs_ok h (e(p := e p - 1))"
  using stack_free_runs [OF ok p] by blast

text \<open>Releasing an entry.\<close>

definition wiped :: etharp_entry where
  "wiped = \<lparr>e_q = None, e_ipaddr = 0, e_netif = None, e_ethaddr = ethzero, e_ctime = 0, e_state = ETHARP_STATE_EMPTY\<rparr>"

lemma entry_ok_wiped: "entry_ok wiped" "\<not> used wiped" "e_q wiped = None"
  by (simp_all add: wiped_def entry_ok_def is_stable_def)

lemma upd_upd [simp]: "i < length (arp_table a) \<Longrightarrow> upd_entry i g (upd_entry i f a) = upd_entry i (g \<circ> f) a"
  by (simp add: upd_entry_def)

lemma upd_entry_const: "f (arp_table a ! i) = x \<Longrightarrow> upd_entry i f a = a\<lparr>arp_table := (arp_table a)[i := x]\<rparr>"
  by (simp add: upd_entry_def)

lemma wipe_entry:
  "e_q e = None \<Longrightarrow> e\<lparr>e_state := ETHARP_STATE_EMPTY, e_ctime := 0, e_netif := None, e_ipaddr := 0, e_ethaddr := ethzero\<rparr> = wiped"
  by (cases e) (simp add: wiped_def)

lemma wipe_entry_q:
  "e\<lparr>e_q := None, e_state := ETHARP_STATE_EMPTY, e_ctime := 0, e_netif := None, e_ipaddr := 0, e_ethaddr := ethzero\<rparr> = wiped"
  by (rule wipe_entry) simp

lemma free_entry_gen:
  assumes t: "table_ok (arp_table a)" and ok: "refs_ok (l_heap a) (all_refs ext (arp_table a))" and i: "i < ARP_TABLE_SIZE"
  shows "\<exists>h. etharp_free_entry i a = Inr (a\<lparr>l_heap := h, arp_table := (arp_table a)[i := wiped]\<rparr>) \<and>
    refs_ok h (all_refs ext ((arp_table a)[i := wiped]))"
proof (cases "e_q (arp_table a ! i)")
  case None
  have "etharp_free_entry i a = Inr (a\<lparr>l_heap := l_heap a, arp_table := (arp_table a)[i := wiped]\<rparr>)"
    using None wipe_entry [OF None] by (simp add: etharp_free_entry_def upd_entry_def)
  moreover have "all_refs ext ((arp_table a)[i := wiped]) = all_refs ext (arp_table a)"
    using None i table_okD(1) [OF t] by (simp add: entry_ok_wiped)
  ultimately show ?thesis using ok by (intro exI [of _ "l_heap a"]) simp
next
  case (Some q)
  have l: "i < length (arp_table a)" using i table_okD(1) [OF t] by simp
  note d = all_refs_drop [OF l Some entry_ok_wiped(3), of ext]
  obtain h where h: "stack_free q a = Inr (a\<lparr>l_heap := h\<rparr>)"
      "refs_ok h ((all_refs ext (arp_table a))(q := all_refs ext (arp_table a) q - 1))"
    using free_keeps [OF ok d(1)] by blast
  have "etharp_free_entry i a = Inr (a\<lparr>l_heap := h, arp_table := (arp_table a)[i := wiped]\<rparr>)"
    using Some h(1) l wipe_entry_q [of "arp_table a ! i"] by (simp add: etharp_free_entry_def upd_entry_def)
  then show ?thesis using h(2) d(2) by (intro exI [of _ h]) simp
qed

lemma table_ok_wiped: "table_ok t \<Longrightarrow> i < ARP_TABLE_SIZE \<Longrightarrow> table_ok (t[i := wiped])"
  by (rule table_ok_upd) (simp_all add: entry_ok_wiped)

lemma free_entry_keeps:
  assumes inv: "arp_inv ext a" and i: "i < ARP_TABLE_SIZE"
  shows "\<exists>h. etharp_free_entry i a = Inr (a\<lparr>l_heap := h, arp_table := (arp_table a)[i := wiped]\<rparr>) \<and>
    arp_inv ext (a\<lparr>l_heap := h, arp_table := (arp_table a)[i := wiped]\<rparr>)"
proof -
  obtain h where "etharp_free_entry i a = Inr (a\<lparr>l_heap := h, arp_table := (arp_table a)[i := wiped]\<rparr>)"
      "refs_ok h (all_refs ext ((arp_table a)[i := wiped]))"
    using free_entry_gen [OF arp_invD(1,3) [OF inv] i] by blast
  then show ?thesis using inv table_ok_wiped [OF arp_invD(1) [OF inv] i] by (auto simp: arp_inv_def heap_ok_def)
qed

text \<open>
  Looking for an entry: either the used entry with the key, or an unused entry that has been given the
  key, with all others as they were except for the one that was given up.
\<close>

definition found :: "u32 \<Rightarrow> nat \<Rightarrow> 'a arp_scheme \<Rightarrow> nat \<Rightarrow> 'a arp_scheme \<Rightarrow> bool" where
  "found ip n a i a' \<longleftrightarrow> i < ARP_TABLE_SIZE \<and>
     (a' = a \<and> used (arp_table a ! i) \<and> e_ipaddr (arp_table a ! i) = ip \<and> e_netif (arp_table a ! i) = Some n \<or>
      (\<exists>h x. a' = a\<lparr>l_heap := h, arp_table := (arp_table a)[i := x]\<rparr> \<and> \<not> used x \<and> e_q x = None \<and> e_ipaddr x = ip \<and> e_netif x = Some n \<and>
        e_ctime x = 0 \<and>
        (\<forall>j < ARP_TABLE_SIZE. used (arp_table a ! j) \<longrightarrow> \<not> (e_ipaddr (arp_table a ! j) = ip \<and> e_netif (arp_table a ! j) = Some n))))"

lemma oldest_in: "oldest P t i j age \<Longrightarrow> j < i \<or> j = ARP_TABLE_SIZE"
  by (auto simp: oldest_def)

lemma oldestD: "oldest P t ARP_TABLE_SIZE j age \<Longrightarrow> j < ARP_TABLE_SIZE \<Longrightarrow> P (t ! j) \<and> (\<forall>k < ARP_TABLE_SIZE. P (t ! k) \<longrightarrow> e_ctime (t ! k) \<le> e_ctime (t ! j))"
  by (auto simp: oldest_def)

lemma oldest_none: "oldest P t ARP_TABLE_SIZE ARP_TABLE_SIZE age \<Longrightarrow> k < ARP_TABLE_SIZE \<Longrightarrow> \<not> P (t ! k)"
  by (auto simp: oldest_def)

text \<open>What is chosen: an unused entry, or the oldest of the least valuable class.\<close>

definition victim :: "etharp_entry list \<Rightarrow> nat \<Rightarrow> bool" where
  "victim t i \<longleftrightarrow> i < ARP_TABLE_SIZE \<and>
     (if \<exists>k < ARP_TABLE_SIZE. \<not> used (t ! k) then \<not> used (t ! i)
      else if \<exists>k < ARP_TABLE_SIZE. is_stable (t ! k)
      then is_stable (t ! i) \<and> (\<forall>k < ARP_TABLE_SIZE. is_stable (t ! k) \<longrightarrow> e_ctime (t ! k) \<le> e_ctime (t ! i))
      else if \<exists>k < ARP_TABLE_SIZE. is_pending (t ! k)
      then is_pending (t ! i) \<and> (\<forall>k < ARP_TABLE_SIZE. is_pending (t ! k) \<longrightarrow> e_ctime (t ! k) \<le> e_ctime (t ! i))
      else is_waiting (t ! i) \<and> (\<forall>k < ARP_TABLE_SIZE. is_waiting (t ! k) \<longrightarrow> e_ctime (t ! k) \<le> e_ctime (t ! i)))"

lemma first_free_end:
  "first_free t ARP_TABLE_SIZE j \<Longrightarrow> (if \<exists>k < ARP_TABLE_SIZE. \<not> used (t ! k) then j < ARP_TABLE_SIZE \<and> \<not> used (t ! j) else j = ARP_TABLE_SIZE)"
  by (auto simp: first_free_def)

lemma oldest_end:
  "oldest P t ARP_TABLE_SIZE j age \<Longrightarrow> (if \<exists>k < ARP_TABLE_SIZE. P (t ! k)
     then j < ARP_TABLE_SIZE \<and> P (t ! j) \<and> (\<forall>k < ARP_TABLE_SIZE. P (t ! k) \<longrightarrow> e_ctime (t ! k) \<le> e_ctime (t ! j)) else j = ARP_TABLE_SIZE)"
  by (auto simp: oldest_def)

lemma choose_entry_runs:
  assumes inv: "arp_inv ext a" and c: "cands_ok (arp_table a) ARP_TABLE_SIZE c"
  shows "\<exists>i h x. choose_entry c a = Inr (Some i, a\<lparr>l_heap := h, arp_table := (arp_table a)[i := x]\<rparr>) \<and> victim (arp_table a) i \<and>
    \<not> used x \<and> e_q x = None \<and> arp_inv ext (a\<lparr>l_heap := h, arp_table := (arp_table a)[i := x]\<rparr>)"
proof -
  let ?t = "arp_table a"
  note f = first_free_end [of ?t "f_empty c"]
  note s = oldest_end [of is_stable ?t "old_stable c" "age_stable c"]
  note p = oldest_end [of is_pending ?t "old_pending c" "age_pending c"]
  note w = oldest_end [of is_waiting ?t "old_queue c" "age_queue c"]
  show ?thesis
  proof (cases "\<exists>k < ARP_TABLE_SIZE. \<not> used (?t ! k)")
    case True
    then have i: "f_empty c < ARP_TABLE_SIZE" "\<not> used (?t ! f_empty c)" using f c by (auto simp: cands_ok_def)
    have e: "e_q (?t ! f_empty c) = None" using arp_invD(6) [OF inv i(1)] i(2) by (auto simp: entry_ok_def)
    have "a\<lparr>l_heap := l_heap a, arp_table := ?t[f_empty c := ?t ! f_empty c]\<rparr> = a" by simp
    moreover have "victim ?t (f_empty c)" using True i by (simp add: victim_def)
    ultimately show ?thesis using i e inv
      by (intro exI [of _ "f_empty c"] exI [of _ "l_heap a"] exI [of _ "?t ! f_empty c"]) (simp add: choose_entry_def)
  next
    case full: False
    then have fe: "f_empty c = ARP_TABLE_SIZE" using f c by (auto simp: cands_ok_def)
    have give: "\<exists>h x. bindR (etharp_free_entry i a) (\<lambda>a. Inr (Some i, a)) = Inr (Some i, a\<lparr>l_heap := h, arp_table := ?t[i := x]\<rparr>) \<and>
        \<not> used x \<and> e_q x = None \<and> arp_inv ext (a\<lparr>l_heap := h, arp_table := ?t[i := x]\<rparr>)" if "i < ARP_TABLE_SIZE" for i
      using free_entry_keeps [OF inv that] entry_ok_wiped by fastforce
    show ?thesis
    proof (cases "\<exists>k < ARP_TABLE_SIZE. is_stable (?t ! k)")
      case True
      then have i: "old_stable c < ARP_TABLE_SIZE" "is_stable (?t ! old_stable c)"
          "\<forall>k < ARP_TABLE_SIZE. is_stable (?t ! k) \<longrightarrow> e_ctime (?t ! k) \<le> e_ctime (?t ! old_stable c)"
        using s c by (auto simp: cands_ok_def)
      have q: "e_q (?t ! old_stable c) = None"
        using arp_invD(6) [OF inv i(1)] i(2) by (auto simp: entry_ok_def is_stable_def dest: stable_used)
      have "victim ?t (old_stable c)" using full True i by (simp add: victim_def)
      then show ?thesis using give [OF i(1)] fe i(1) q by (auto simp: choose_entry_def)
    next
      case ns: False
      then have se: "old_stable c = ARP_TABLE_SIZE" using s c by (auto simp: cands_ok_def)
      show ?thesis
      proof (cases "\<exists>k < ARP_TABLE_SIZE. is_pending (?t ! k)")
        case True
        then have i: "old_pending c < ARP_TABLE_SIZE" "is_pending (?t ! old_pending c)"
            "\<forall>k < ARP_TABLE_SIZE. is_pending (?t ! k) \<longrightarrow> e_ctime (?t ! k) \<le> e_ctime (?t ! old_pending c)"
          using p c by (auto simp: cands_ok_def)
        have "victim ?t (old_pending c)" using full ns True i by (simp add: victim_def)
        then show ?thesis using give [OF i(1)] fe se i(1) by (auto simp: choose_entry_def)
      next
        case np: False
        then have pe: "old_pending c = ARP_TABLE_SIZE" using p c by (auto simp: cands_ok_def)
        have "\<exists>k < ARP_TABLE_SIZE. is_waiting (?t ! k)"
          using full ns np used_cases [of "?t ! 0"] by (metis zero_less_numeral)
        then have i: "old_queue c < ARP_TABLE_SIZE" "is_waiting (?t ! old_queue c)"
            "\<forall>k < ARP_TABLE_SIZE. is_waiting (?t ! k) \<longrightarrow> e_ctime (?t ! k) \<le> e_ctime (?t ! old_queue c)"
          using w c by (auto simp: cands_ok_def)
        have "victim ?t (old_queue c)" using full ns np i by (simp add: victim_def)
        then show ?thesis using give [OF i(1)] fe se pe i(1) by (auto simp: choose_entry_def)
      qed
    qed
  qed
qed

lemma find_entry_runs:
  assumes inv: "arp_inv ext a"
  shows "(\<exists>err. etharp_find_entry (Some ip) flags (Some n) a = Inr (Inl err, a) \<and> err = ERR_MEM) \<or>
    (\<exists>i a'. etharp_find_entry (Some ip) flags (Some n) a = Inr (Inr i, a') \<and> found ip n a i a' \<and> arp_inv ext a' \<and>
      (used (arp_table a' ! i) \<or> victim (arp_table a) i))"
proof -
  have sp: "case find_loop (Some ip) (Some n) 0 (arp_table a) no_cands of
      Inl j \<Rightarrow> j < ARP_TABLE_SIZE \<and> used (arp_table a ! j) \<and> entry_matches (Some ip) (Some n) (arp_table a ! j)
    | Inr c' \<Rightarrow> cands_ok (arp_table a) ARP_TABLE_SIZE c' \<and>
        (\<forall>k < ARP_TABLE_SIZE. used (arp_table a ! k) \<longrightarrow> \<not> entry_matches (Some ip) (Some n) (arp_table a ! k))"
    by (rule find_loop_spec) (use no_cands_ok arp_invD(5) [OF inv] in simp_all)
  show ?thesis
  proof (cases "find_loop (Some ip) (Some n) 0 (arp_table a) no_cands")
    case (Inl j)
    then have "j < ARP_TABLE_SIZE" "used (arp_table a ! j)" "e_ipaddr (arp_table a ! j) = ip" "e_netif (arp_table a ! j) = Some n"
      using sp by (auto simp: entry_matches_def)
    then have "found ip n a j a" by (simp add: found_def)
    moreover have "etharp_find_entry (Some ip) flags (Some n) a = Inr (Inr j, a)" using Inl by (simp add: etharp_find_entry_def)
    ultimately show ?thesis using inv \<open>used (arp_table a ! j)\<close> by blast
  next
    case (Inr c)
    then have c: "cands_ok (arp_table a) ARP_TABLE_SIZE c"
        "\<forall>k < ARP_TABLE_SIZE. used (arp_table a ! k) \<longrightarrow> \<not> (e_ipaddr (arp_table a ! k) = ip \<and> e_netif (arp_table a ! k) = Some n)"
      using sp by (auto simp: entry_matches_def)
    show ?thesis
    proof (cases "flags AND 2 \<noteq> 0 \<or> f_empty c = ARP_TABLE_SIZE \<and> flags AND 1 = 0")
      case True
      then show ?thesis using Inr by (simp add: etharp_find_entry_def)
    next
      case False
      obtain i h x where ch: "choose_entry c a = Inr (Some i, a\<lparr>l_heap := h, arp_table := (arp_table a)[i := x]\<rparr>)"
          "victim (arp_table a) i" "\<not> used x" "e_q x = None" "arp_inv ext (a\<lparr>l_heap := h, arp_table := (arp_table a)[i := x]\<rparr>)"
        using choose_entry_runs [OF inv c(1)] by blast
      have i: "i < ARP_TABLE_SIZE" using ch(2) by (simp add: victim_def)
      define y where "y = x\<lparr>e_ipaddr := ip, e_ctime := 0, e_netif := Some n\<rparr>"
      let ?a = "a\<lparr>l_heap := h, arp_table := (arp_table a)[i := y]\<rparr>"
      have y: "\<not> used y" "e_q y = None" "e_ipaddr y = ip" "e_netif y = Some n" "e_ctime y = 0" using ch(3,4) by (simp_all add: y_def)
      have r: "etharp_find_entry (Some ip) flags (Some n) a = Inr (Inr i, ?a)"
        using Inr False ch(1,3) i arp_invD(5) [OF inv] by (simp add: etharp_find_entry_def upd_entry_def y_def)
      have t: "table_ok ((arp_table a)[i := y])"
        using arp_invD(1) [OF inv] i by (rule table_ok_upd) (use y in \<open>auto simp: entry_ok_def is_stable_def dest: stable_used\<close>)
      have "all_refs ext ((arp_table a)[i := y]) = all_refs ext ((arp_table a)[i := x])"
        using all_refs_same [of i "(arp_table a)[i := x]" y ext] y(2) ch(4) i arp_invD(5) [OF inv] by simp
      then have "arp_inv ext ?a" using ch(5) t by (auto simp: arp_inv_def heap_ok_def)
      moreover have "found ip n a i ?a" using y c(2) i unfolding found_def by blast
      ultimately show ?thesis using r ch(2) by blast
    qed
  qed
qed

end
