(* ===== verification/EtharpInv.thy ===== *)
theory EtharpInv
  imports EtharpProps PbufProps
begin

text \<open>
  Every operation of \<open>etharp.c\<close> keeps the table a map and the references of the waiting packets exact;
  what a reply, a request and a query do to the table and to the frames sent.
\<close>

section \<open>Writing an entry\<close>

definition keyed :: "u32 \<Rightarrow> nat \<Rightarrow> etharp_entry list \<Rightarrow> nat \<Rightarrow> bool" where
  "keyed ip n t i \<longleftrightarrow> i < ARP_TABLE_SIZE \<and> e_ipaddr (t ! i) = ip \<and> e_netif (t ! i) = Some n \<and>
     (\<forall>j < ARP_TABLE_SIZE. j \<noteq> i \<longrightarrow> used (t ! j) \<longrightarrow> \<not> (e_ipaddr (t ! j) = ip \<and> e_netif (t ! j) = Some n))"

lemma keyedD:
  assumes "keyed ip n t i"
  shows "i < ARP_TABLE_SIZE" "e_ipaddr (t ! i) = ip" "e_netif (t ! i) = Some n"
    "j < ARP_TABLE_SIZE \<Longrightarrow> j \<noteq> i \<Longrightarrow> used (t ! j) \<Longrightarrow> \<not> (e_ipaddr (t ! j) = ip \<and> e_netif (t ! j) = Some n)"
  using assms by (auto simp: keyed_def)

lemma used_keyed:
  assumes inv: "arp_inv ext a" and i: "i < ARP_TABLE_SIZE" "used (arp_table a ! i)"
    and k: "e_ipaddr (arp_table a ! i) = ip" "e_netif (arp_table a ! i) = Some n"
  shows "keyed ip n (arp_table a) i"
proof -
  have "\<not> (e_ipaddr (arp_table a ! j) = ip \<and> e_netif (arp_table a ! j) = Some n)"
    if "j < ARP_TABLE_SIZE" "j \<noteq> i" "used (arp_table a ! j)" for j
    using table_okD(3) [OF arp_invD(1) [OF inv] i(1) that(1) i(2) that(3)] that(2) k by (auto simp: same_key_def)
  then show ?thesis using i k by (auto simp: keyed_def)
qed

lemma found_keyed:
  assumes inv: "arp_inv ext a" and f: "found ip n a i a'"
  shows "keyed ip n (arp_table a') i" "\<not> used (arp_table a' ! i) \<Longrightarrow> e_q (arp_table a' ! i) = None"
proof -
  have i: "i < ARP_TABLE_SIZE" using f by (simp add: found_def)
  show "keyed ip n (arp_table a') i"
  proof (cases "a' = a \<and> used (arp_table a ! i) \<and> e_ipaddr (arp_table a ! i) = ip \<and> e_netif (arp_table a ! i) = Some n")
    case True
    then show ?thesis using used_keyed [OF inv i] by simp
  next
    case False
    then show ?thesis using f i arp_invD(5) [OF inv] by (auto simp: found_def keyed_def nth_list_update)
  qed
  show "\<not> used (arp_table a' ! i) \<Longrightarrow> e_q (arp_table a' ! i) = None"
    using f i arp_invD(5) [OF inv] by (auto simp: found_def)
qed

lemma table_ok_key:
  assumes t: "table_ok t" and k: "keyed ip n t i" and x: "e_ipaddr x = ip" "e_netif x = Some n" "entry_ok x"
  shows "table_ok (t[i := x])"
  using t keyedD(1) [OF k] x(3) by (rule table_ok_upd) (use keyedD(4) [OF k] x in \<open>auto simp: same_key_def\<close>)

lemma set_entry:
  assumes inv: "arp_inv ext a" and k: "keyed ip n (arp_table a) i" and x: "e_ipaddr x = ip" "e_netif x = Some n" "entry_ok x"
    and q: "e_q x = e_q (arp_table a ! i)"
  shows "arp_inv ext (a\<lparr>arp_table := (arp_table a)[i := x]\<rparr>)"
  using inv table_ok_key [OF arp_invD(1) [OF inv] k x] keyedD(1) [OF k] arp_invD(5) [OF inv] q
  by (auto simp: arp_inv_def heap_ok_def)

lemma all_refs_ext: "all_refs (ext(p := ext p + 1)) t = (all_refs ext t)(p := all_refs ext t p + 1)"
  by (auto simp: all_refs_def)

lemma take_entry:
  assumes inv: "arp_inv ext a" and k: "keyed ip n (arp_table a) i" and x: "e_ipaddr x = ip" "e_netif x = Some n" "entry_ok x"
    and q: "e_q (arp_table a ! i) = Some p" "e_q x = None"
  shows "arp_inv (ext(p := ext p + 1)) (a\<lparr>arp_table := (arp_table a)[i := x]\<rparr>)"
proof -
  have i: "i < length (arp_table a)" using keyedD(1) [OF k] arp_invD(5) [OF inv] by simp
  note d = all_refs_drop [OF i q, of ext]
  have "all_refs (ext(p := ext p + 1)) ((arp_table a)[i := x]) = all_refs ext (arp_table a)"
    unfolding all_refs_ext d(2) using d(1) by (auto simp: fun_eq_iff)
  then show ?thesis
    using inv table_ok_key [OF arp_invD(1) [OF inv] k x] by (simp add: arp_inv_def heap_ok_def)
qed

lemma arp_inv_heap:
  "arp_inv ext a \<Longrightarrow> refs_ok h (all_refs ext' (arp_table a)) \<Longrightarrow> arp_inv ext' (a\<lparr>l_heap := h, l_out := out\<rparr>)"
  by (simp add: arp_inv_def heap_ok_def)

section \<open>A reply\<close>

text \<open>The packet that waited is sent and the reference of the table to it is given up.\<close>

lemma send_and_free:
  assumes inv: "arp_inv (ext(p := ext p + 1)) a" and hw: "nif_ok (netifs n)"
  shows "\<exists>r h out h'. ethernet_output netifs n p src dst ty a = Inr (r, a\<lparr>l_heap := h, l_out := out\<rparr>) \<and>
    stack_free p (a\<lparr>l_heap := h, l_out := out\<rparr>) = Inr (a\<lparr>l_heap := h', l_out := out\<rparr>) \<and>
    arp_inv ext (a\<lparr>l_heap := h', l_out := out\<rparr>)"
proof -
  let ?e = "all_refs (ext(p := ext p + 1)) (arp_table a)"
  have p: "0 < ?e p" by (simp add: all_refs_def)
  obtain r h out where o: "ethernet_output netifs n p src dst ty a = Inr (r, a\<lparr>l_heap := h, l_out := out\<rparr>)" "refs_ok h ?e"
    using output_keeps [where netifs = netifs and n = n and src = src and dst = dst and ty = ty, OF inv hw p] by blast
  have ok: "refs_ok (l_heap (a\<lparr>l_heap := h, l_out := out\<rparr>)) ?e" using o(2) by simp
  obtain h' where f: "stack_free p (a\<lparr>l_heap := h, l_out := out\<rparr>) = Inr ((a\<lparr>l_heap := h, l_out := out\<rparr>)\<lparr>l_heap := h'\<rparr>)"
      "refs_ok h' (?e(p := ?e p - 1))"
    using free_keeps [OF ok p] by blast
  have "?e(p := ?e p - 1) = all_refs ext (arp_table a)" by (auto simp: all_refs_def)
  then have "arp_inv ext (a\<lparr>l_heap := h', l_out := out\<rparr>)" using arp_inv_heap [OF inv, of h' ext out] f(2) by simp
  then show ?thesis using o(1) f(1) by auto
qed

definition resolved :: "u8 list \<Rightarrow> nat \<Rightarrow> etharp_entry \<Rightarrow> etharp_entry" where
  "resolved hw n e = e\<lparr>e_state := ETHARP_STATE_STABLE, e_netif := Some n, e_ethaddr := take 6 hw, e_ctime := 0, e_q := None\<rparr>"

lemma resolved_simps [simp]:
  "e_ipaddr (resolved hw n e) = e_ipaddr e" "e_netif (resolved hw n e) = Some n" "e_q (resolved hw n e) = None"
  "e_state (resolved hw n e) = ETHARP_STATE_STABLE" "e_ethaddr (resolved hw n e) = take 6 hw" "e_ctime (resolved hw n e) = 0"
  by (simp_all add: resolved_def)

lemma resolved_ok: "6 \<le> length hw \<Longrightarrow> entry_ok (resolved hw n e)"
  by (simp add: entry_ok_def)

lemma update_keeps:
  assumes inv: "arp_inv ext a" and hw: "nif_ok (netifs n)" and l: "6 \<le> length addr"
  shows "\<exists>r a'. etharp_update_arp_entry netifs n ip addr flags a = Inr (r, a') \<and> arp_inv ext a' \<and> l_src a' = l_src a"
proof (cases "non_unicast netifs n ip")
  case True
  then show ?thesis using inv hw by (simp add: etharp_update_arp_entry_def nif_ok_def)
next
  case False
  show ?thesis
  proof (cases "etharp_find_entry (Some ip) flags (Some n) a = Inr (Inl ERR_MEM, a)")
    case True
    then show ?thesis using inv hw False by (simp add: etharp_update_arp_entry_def nif_ok_def)
  next
    case nf: False
    obtain i a1 where f: "etharp_find_entry (Some ip) flags (Some n) a = Inr (Inr i, a1)" "found ip n a i a1" "arp_inv ext a1"
      using find_entry_runs [OF inv, of ip flags n] nf by blast
    have src: "l_src a1 = l_src a" using f(2) by (auto simp: found_def)
    note k = found_keyed(1) [OF inv f(2)]
    let ?x = "resolved addr n (arp_table a1 ! i)"
    let ?a2 = "a1\<lparr>arp_table := (arp_table a1)[i := ?x]\<rparr>"
    have i: "i < length (arp_table a1)" using keyedD(1) [OF k] arp_invD(5) [OF f(3)] by simp
    show ?thesis
    proof (cases "e_q (arp_table a1 ! i)")
      case None
      have "arp_inv ext ?a2"
        using set_entry [OF f(3) k, of ?x] keyedD(2) [OF k] resolved_ok [OF l] None by simp
      moreover have "etharp_update_arp_entry netifs n ip addr flags a = Inr (ERR_OK, ?a2)"
      proof -
        have "(arp_table a1 ! i)\<lparr>e_state := ETHARP_STATE_STABLE, e_netif := Some n, e_ethaddr := take 6 addr, e_ctime := 0\<rparr> = ?x"
          using None by (cases "arp_table a1 ! i") (simp add: resolved_def)
        note x = this
        show ?thesis using False f(1) hw i None by (simp add: etharp_update_arp_entry_def nif_ok_def upd_entry_def x)
      qed
      ultimately show ?thesis using src by simp
    next
      case (Some p)
      have inv2: "arp_inv (ext(p := ext p + 1)) ?a2"
        using take_entry [OF f(3) k, of ?x p] keyedD(2) [OF k] resolved_ok [OF l] Some by simp
      have "etharp_update_arp_entry netifs n ip addr flags a =
          bindR (ethernet_output netifs n p (nif_hwaddr (netifs n)) addr ETHTYPE_IP ?a2) (\<lambda>(err, a). bindR (stack_free p a) (\<lambda>a. Inr (ERR_OK, a)))"
        using False f(1) hw i Some by (simp add: etharp_update_arp_entry_def nif_ok_def upd_entry_def resolved_def)
      moreover obtain r h out h' where
        "ethernet_output netifs n p (nif_hwaddr (netifs n)) addr ETHTYPE_IP ?a2 = Inr (r, ?a2\<lparr>l_heap := h, l_out := out\<rparr>)"
        "stack_free p (?a2\<lparr>l_heap := h, l_out := out\<rparr>) = Inr (?a2\<lparr>l_heap := h', l_out := out\<rparr>)"
        "arp_inv ext (?a2\<lparr>l_heap := h', l_out := out\<rparr>)"
        using send_and_free [where ext = ext and p = p and netifs = netifs and n = n and src = "nif_hwaddr (netifs n)" and dst = addr and ty = ETHTYPE_IP, OF inv2 hw] by blast
      ultimately show ?thesis using src by simp
    qed
  qed
qed

section \<open>The timer\<close>

definition all_nif_ok :: "(nat \<Rightarrow> netif) \<Rightarrow> bool" where
  "all_nif_ok netifs \<longleftrightarrow> (\<forall>n. nif_ok (netifs n))"

lemma all_nif_okD: "all_nif_ok netifs \<Longrightarrow> nif_ok (netifs n)"
  by (simp add: all_nif_ok_def)

lemma request_inv:
  assumes inv: "arp_inv ext a" and hw: "all_nif_ok netifs"
  shows "\<exists>r h out. etharp_request netifs n ip a = Inr (r, a\<lparr>l_heap := h, l_out := out\<rparr>) \<and> arp_inv ext (a\<lparr>l_heap := h, l_out := out\<rparr>)"
proof -
  obtain r h out where "etharp_request_dst netifs n ip ethbroadcast a = Inr (r, a\<lparr>l_heap := h, l_out := out\<rparr>)"
      "refs_ok h (all_refs ext (arp_table a))"
    using request_keeps [where hw = ethbroadcast and netifs = netifs and n = n and ip = ip, OF inv all_nif_okD [OF hw]] by (auto simp: ethbroadcast_def)
  then have "etharp_request netifs n ip a = Inr (r, a\<lparr>l_heap := h, l_out := out\<rparr>)" "arp_inv ext (a\<lparr>l_heap := h, l_out := out\<rparr>)"
    using arp_inv_heap [OF inv] by (simp_all add: etharp_request_def)
  then show ?thesis by blast
qed

text \<open>Changing age and state of a used entry, within the resolved or within the pending states.\<close>

lemma retime:
  assumes inv: "arp_inv ext a" and i: "i < ARP_TABLE_SIZE" and u: "used (arp_table a ! i)"
    and x: "e_q x = e_q (arp_table a ! i)" "e_ipaddr x = e_ipaddr (arp_table a ! i)" "e_netif x = e_netif (arp_table a ! i)"
      "e_ethaddr x = e_ethaddr (arp_table a ! i)"
    and st: "stable_state (e_state x) = stable_state (e_state (arp_table a ! i))" "used x"
  shows "arp_inv ext (a\<lparr>arp_table := (arp_table a)[i := x]\<rparr>)"
proof -
  have e: "entry_ok (arp_table a ! i)" using arp_invD(6) [OF inv i] .
  then obtain n where n: "e_netif (arp_table a ! i) = Some n" using u by (auto simp: entry_ok_def)
  note k = used_keyed [OF inv i u refl n]
  have "entry_ok x" using e u x st by (cases "e_state x"; cases "e_state (arp_table a ! i)") (simp_all add: entry_ok_def is_stable_def)
  then show ?thesis using set_entry [OF inv k _ _ _ x(1)] x n by simp
qed

lemma tick_keeps:
  assumes inv: "arp_inv ext a" and hw: "all_nif_ok netifs" and i: "i < ARP_TABLE_SIZE"
  shows "\<exists>a'. arp_tick netifs i a = Inr a' \<and> arp_inv ext a'"
proof (cases "used (arp_table a ! i)")
  case False
  then show ?thesis using inv by (simp add: arp_tick_def)
next
  case u: True
  let ?e = "arp_table a ! i"
  have l: "i < length (arp_table a)" using i arp_invD(5) [OF inv] by simp
  obtain n where n: "e_netif ?e = Some n" using arp_invD(6) [OF inv i] u by (auto simp: entry_ok_def)
  let ?a1 = "upd_entry i (\<lambda>e. e\<lparr>e_ctime := e_ctime e + 1\<rparr>) a"
  have inv1: "arp_inv ext ?a1"
    unfolding upd_entry_def by (rule retime [OF inv i u]) (use u in simp_all)
  have s2: "arp_inv ext (upd_entry i (\<lambda>e. e\<lparr>e_state := st\<rparr>) ?a1)" if "stable_state (e_state ?e)" "stable_state st" for st
    using that u l stable_used [of st]
    unfolding upd_entry_def by (intro retime [OF inv1 [unfolded upd_entry_def] i]) simp_all
  obtain h where f: "etharp_free_entry i ?a1 = Inr (?a1\<lparr>l_heap := h, arp_table := (arp_table ?a1)[i := wiped]\<rparr>)"
      "arp_inv ext (?a1\<lparr>l_heap := h, arp_table := (arp_table ?a1)[i := wiped]\<rparr>)"
    using free_entry_keeps [OF inv1 i] by blast
  obtain r h' out where q: "etharp_request netifs n (e_ipaddr ?e) ?a1 = Inr (r, ?a1\<lparr>l_heap := h', l_out := out\<rparr>)"
      "arp_inv ext (?a1\<lparr>l_heap := h', l_out := out\<rparr>)"
    using request_inv [OF inv1 hw] by blast
  show ?thesis
  proof (cases "ARP_MAXAGE \<le> unat (e_ctime ?e + 1) \<or> e_state ?e = ETHARP_STATE_PENDING \<and> ARP_MAXPENDING \<le> unat (e_ctime ?e + 1)")
    case True
    then have "arp_tick netifs i a = etharp_free_entry i ?a1" using u by (simp add: arp_tick_def Let_def)
    then show ?thesis using f by auto
  next
    case False
    then have t: "arp_tick netifs i a =
        (if e_state ?e = ETHARP_STATE_STABLE_REREQUESTING_1 then Inr (upd_entry i (\<lambda>e. e\<lparr>e_state := ETHARP_STATE_STABLE_REREQUESTING_2\<rparr>) ?a1)
         else if e_state ?e = ETHARP_STATE_STABLE_REREQUESTING_2 then Inr (upd_entry i (\<lambda>e. e\<lparr>e_state := ETHARP_STATE_STABLE\<rparr>) ?a1)
         else if e_state ?e = ETHARP_STATE_PENDING then bindR (etharp_request netifs n (e_ipaddr ?e) ?a1) (\<lambda>(err, a). Inr a)
         else Inr ?a1)"
      using u n by (simp add: arp_tick_def Let_def)
    show ?thesis
      by (cases "e_state ?e") (use t s2 inv1 q u in \<open>simp_all add: q(1)\<close>)
  qed
qed

lemma tick_loop_keeps:
  "arp_inv ext a \<Longrightarrow> all_nif_ok netifs \<Longrightarrow> \<forall>i \<in> set is. i < ARP_TABLE_SIZE \<Longrightarrow> \<exists>a'. arp_tick_loop netifs is a = Inr a' \<and> arp_inv ext a'"
proof (induction "is" arbitrary: a)
  case (Cons i js)
  obtain a1 where a1: "arp_tick netifs i a = Inr a1" "arp_inv ext a1" using tick_keeps [OF Cons.prems(1,2), of i] Cons.prems(3) by auto
  then show ?case using Cons.IH [OF a1(2) Cons.prems(2)] Cons.prems(3) by simp
qed simp

lemma tmr_keeps: "arp_inv ext a \<Longrightarrow> all_nif_ok netifs \<Longrightarrow> \<exists>a'. etharp_tmr netifs a = Inr a' \<and> arp_inv ext a'"
  unfolding etharp_tmr_def by (rule tick_loop_keeps) simp_all

lemma cleanup_loop_keeps:
  "arp_inv ext a \<Longrightarrow> \<forall>i \<in> set is. i < ARP_TABLE_SIZE \<Longrightarrow>
   \<exists>a'. cleanup_loop n is a = Inr a' \<and> arp_inv ext a' \<and> (\<forall>i < ARP_TABLE_SIZE. used (arp_table a' ! i) \<longrightarrow> arp_table a' ! i = arp_table a ! i) \<and>
     (\<forall>i \<in> set is. used (arp_table a' ! i) \<longrightarrow> e_netif (arp_table a' ! i) \<noteq> Some n)"
proof (induction "is" arbitrary: a)
  case (Cons i js)
  have i: "i < ARP_TABLE_SIZE" using Cons.prems(2) by simp
  let ?c = "used (arp_table a ! i) \<and> e_netif (arp_table a ! i) = Some n"
  obtain a1 where a1: "(if ?c then etharp_free_entry i a else Inr a) = Inr a1" "arp_inv ext a1"
      "\<forall>j < ARP_TABLE_SIZE. used (arp_table a1 ! j) \<longrightarrow> arp_table a1 ! j = arp_table a ! j"
      "used (arp_table a1 ! i) \<longrightarrow> e_netif (arp_table a1 ! i) \<noteq> Some n"
  proof (cases ?c)
    case True
    obtain h where "etharp_free_entry i a = Inr (a\<lparr>l_heap := h, arp_table := (arp_table a)[i := wiped]\<rparr>)"
        "arp_inv ext (a\<lparr>l_heap := h, arp_table := (arp_table a)[i := wiped]\<rparr>)"
      using free_entry_keeps [OF Cons.prems(1) i] by blast
    then show ?thesis using that [of "a\<lparr>l_heap := h, arp_table := (arp_table a)[i := wiped]\<rparr>"] True i arp_invD(5) [OF Cons.prems(1)]
        entry_ok_wiped by (auto simp: nth_list_update)
  next
    case False
    then show ?thesis using that [of a] Cons.prems(1) by auto
  qed
  obtain a2 where a2: "cleanup_loop n js a1 = Inr a2" "arp_inv ext a2"
      "\<forall>j < ARP_TABLE_SIZE. used (arp_table a2 ! j) \<longrightarrow> arp_table a2 ! j = arp_table a1 ! j"
      "\<forall>j \<in> set js. used (arp_table a2 ! j) \<longrightarrow> e_netif (arp_table a2 ! j) \<noteq> Some n"
    using Cons.IH [OF a1(2)] Cons.prems(2) by auto
  have "used (arp_table a2 ! i) \<longrightarrow> e_netif (arp_table a2 ! i) \<noteq> Some n" using a1(4) a2(3) i by metis
  moreover have "\<forall>j < ARP_TABLE_SIZE. used (arp_table a2 ! j) \<longrightarrow> arp_table a2 ! j = arp_table a ! j" using a1(3) a2(3) by metis
  ultimately show ?case using a1(1) a2 by (auto split: if_splits)
qed simp

lemma cleanup_keeps: "arp_inv ext a \<Longrightarrow> \<exists>a'. etharp_cleanup_netif n a = Inr a' \<and> arp_inv ext a' \<and>
    (\<forall>i < ARP_TABLE_SIZE. used (arp_table a' ! i) \<longrightarrow> e_netif (arp_table a' ! i) \<noteq> Some n)"
  using cleanup_loop_keeps [of ext a "[0..<ARP_TABLE_SIZE]" n] by (auto simp: etharp_cleanup_netif_def)

end
