(* ===== verification/EtharpSend.thy ===== *)
theory EtharpSend
  imports EtharpInv
begin

text \<open>
  Sending through \<open>etharp.c\<close>: a packet for an unresolved address is kept in the table, by reference or as a
  copy, and sending, receiving, the timer and clearing an interface all keep the invariant.
\<close>

section \<open>What stays of a packet\<close>

text \<open>Buffers disappear or change their reference count, new ones come at the end.\<close>

definition kept :: "pheap \<Rightarrow> pheap \<Rightarrow> bool" where
  "kept h h' \<longleftrightarrow> length h \<le> length h' \<and>
     (\<forall>i m. node_at h' i = Some m \<longrightarrow> (\<exists>n. node_at h i = Some n \<and> same_but_ref n m))"

lemma same_but_ref_refl [simp]: "same_but_ref n n"
  by (simp add: same_but_ref_def)

lemma same_but_ref_trans: "same_but_ref n m \<Longrightarrow> same_but_ref m k \<Longrightarrow> same_but_ref n k"
  by (simp add: same_but_ref_def)

lemma kept_refl [simp]: "kept h h"
  by (simp add: kept_def)

lemma kept_trans: "kept h h' \<Longrightarrow> kept h' h'' \<Longrightarrow> kept h h''"
  unfolding kept_def by (meson same_but_ref_trans order_trans)

lemma kept_snoc [simp]: "kept h (h @ [None])"
  by (auto simp: kept_def node_at_append split: if_splits)

lemma freed_kept: "freed_exactly h gone h' \<Longrightarrow> kept h h'"
  by (fastforce simp: freed_exactly_def kept_def split: option.splits)

lemma kept_nx: "kept h h' \<Longrightarrow> nx h' i = Some j \<Longrightarrow> nx h i = Some j"
  by (fastforce simp: kept_def nx_def same_but_ref_def split: option.splits)

lemma kept_rf:
  assumes k: "kept h h'" and ok: "refs_ok h e" "refs_ok h' e'" and le: "e' q \<le> e q"
  shows "rf h' q \<le> rf h q"
proof -
  have "preds h' q \<subseteq> preds h q" using kept_nx [OF k] by (auto simp: preds_def)
  then have "card (preds h' q) \<le> card (preds h q)" by (intro card_mono) simp_all
  moreover have "rf h' q = card (preds h' q) + e' q" "rf h q = card (preds h q) + e q"
    using ok by (auto simp: refs_ok_def rc_inv_def)
  ultimately show ?thesis using le by linarith
qed

text \<open>A packet that can be kept: its chain is well formed, and there is room in its reference count or it must be copied.\<close>

definition keepable :: "pbuf list \<Rightarrow> nat \<Rightarrow> bool" where
  "keepable c refs \<longleftrightarrow> needs_copy c = Inr False \<and> refs < 255 \<or>
     needs_copy c = Inr True \<and> wf_chain c \<and> full_tail c \<and> ptot c \<le> 65000"

definition packet_ok :: "pheap \<Rightarrow> nat \<Rightarrow> bool" where
  "packet_ok h q \<longleftrightarrow> (\<exists>c. chain_at h q = Inr c \<and> keepable c (rf h q))"

definition same_buf :: "pbuf \<Rightarrow> pbuf \<Rightarrow> bool" where
  "same_buf b b' \<longleftrightarrow> b'\<lparr>pf_ref := 0\<rparr> = b\<lparr>pf_ref := 0\<rparr>"

lemma same_bufD:
  assumes "same_buf b b'"
  shows "pf_len b' = pf_len b" "pf_tot_len b' = pf_tot_len b" "pf_type_internal b' = pf_type_internal b" "pf_mem b' = pf_mem b"
    "pf_off b' = pf_off b" "plen b' = plen b" "seg_bytes b' = seg_bytes b"
  using assms by (cases b; cases b'; simp add: same_buf_def plen_def seg_bytes_def)+

lemma same_buf_needs_copy: "list_all2 same_buf c c' \<Longrightarrow> needs_copy c' = needs_copy c"
  by (induction rule: list_all2_induct) (auto simp: same_bufD)

lemma same_buf_ptot: "list_all2 same_buf c c' \<Longrightarrow> ptot c' = ptot c"
  by (cases c; cases c') (auto simp: ptot_def same_bufD)

lemma same_buf_wf: "list_all2 same_buf c c' \<Longrightarrow> wf_chain c' = wf_chain c"
proof (induction rule: list_all2_induct)
  case (Cons b c b' c')
  have "(c' = []) = (c = [])" using Cons(2) by auto
  then show ?case using Cons(3) same_bufD [OF Cons(1)] same_buf_ptot [OF Cons(2)] by simp
qed simp

lemma same_buf_full: "list_all2 same_buf c c' \<Longrightarrow> full_tail c' = full_tail c"
proof -
  assume l: "list_all2 same_buf c c'"
  have "(\<forall>b \<in> set d'. 0 < plen b) = (\<forall>b \<in> set d. 0 < plen b)" if "list_all2 same_buf d d'" for d d'
    using that by (induction rule: list_all2_induct) (auto simp: same_bufD)
  then show ?thesis using l by (cases c; cases c') (auto simp: full_tail_def)
qed

lemma same_buf_bytes: "list_all2 same_buf c c' \<Longrightarrow> chain_bytes c' = chain_bytes c"
  by (induction rule: list_all2_induct) (auto simp: same_bufD)

lemma kept_chain_loop:
  "chain_loop f h (Some q) = Inr c \<Longrightarrow> kept h h' \<Longrightarrow> chain_loop g h' (Some q) = Inr c' \<Longrightarrow> list_all2 same_buf c c'"
proof (induction f arbitrary: g q c c')
  case (Suc f)
  obtain n d where n: "node_at h q = Some n" "chain_loop f h (pn_next n) = Inr d" "c = pn_buf n # d"
    using Suc.prems(1) by (auto simp: bindR_Inr_iff)
  obtain g' where g: "g = Suc g'" using Suc.prems(3) by (cases g) auto
  obtain m d' where m: "node_at h' q = Some m" "chain_loop g' h' (pn_next m) = Inr d'" "c' = pn_buf m # d'"
    using Suc.prems(3) by (auto simp: bindR_Inr_iff g)
  have s: "same_but_ref n m" using Suc.prems(2) n(1) m(1) by (fastforce simp: kept_def)
  then have nm: "pn_next m = pn_next n" "same_buf (pn_buf n) (pn_buf m)" by (simp_all add: same_but_ref_def same_buf_def)
  have "list_all2 same_buf d d'"
  proof (cases "pn_next n")
    case None
    then show ?thesis using n(2) m(2) nm(1) by simp
  next
    case (Some j)
    then show ?thesis using Suc.IH [OF _ Suc.prems(2), of j d g' d'] n(2) m(2) nm(1) by simp
  qed
  then show ?case using n(3) m(3) nm(2) by simp
qed simp

lemma kept_packet:
  assumes k: "kept h h'" and ok: "refs_ok h e" "refs_ok h' e'" and q: "0 < e' q" "e' q \<le> e q" and p: "packet_ok h q"
  shows "packet_ok h' q"
proof -
  obtain c where c: "chain_at h q = Inr c" "keepable c (rf h q)" using p by (auto simp: packet_ok_def)
  obtain c' where c': "chain_at h' q = Inr c'" using chain_at_total [OF ok(2) ext_live [OF ok(2) q(1)]] by blast
  have l: "list_all2 same_buf c c'" using kept_chain_loop c(1) c' k by (auto simp: chain_at_def)
  have "rf h' q \<le> rf h q" using kept_rf [OF k ok q(2)] .
  then have "keepable c' (rf h' q)"
    using c(2) same_buf_needs_copy [OF l] same_buf_wf [OF l] same_buf_full [OF l] same_buf_ptot [OF l] by (auto simp: keepable_def)
  then show ?thesis using c' by (auto simp: packet_ok_def)
qed

section \<open>Keeping a packet\<close>

lemma unreferenced_end: "refs_ok h e \<Longrightarrow> e (length h) = 0"
proof -
  assume "refs_ok h e"
  then have "rf h (length h) = card (preds h (length h)) + e (length h)" by (auto simp: refs_ok_def rc_inv_def)
  moreover have "rf h (length h) = 0" by (simp add: rf_def node_at_def)
  ultimately show ?thesis by linarith
qed

lemma clone_runs:
  assumes hp: "heap_ok a" and w: "wf_chain c" "c \<noteq> []" "full_tail c" "ptot c \<le> 65000"
  shows "pbuf_clone PBUF_LINK PBUF_RAM c (l_src a) = Inr ([], l_src a) \<or>
    (\<exists>b. pbuf_clone PBUF_LINK PBUF_RAM c (l_src a) = Inr ([b], l_src a) \<and> pf_ref b = 1 \<and> good_src b \<and> seg_bytes b = chain_bytes c)"
proof (cases "src_heap (l_src a) (mem_align_size (unat (14 :: u16)) + mem_align_size (ptot c))")
  case None
  have "mem_align_size (ptot c) < ptot c + 4" by (rule mem_align_size_ge)
  then have "unat (of_nat (mem_align_size (unat (14 :: u16)) + mem_align_size (ptot c)) :: u16) = mem_align_size (unat (14 :: u16)) + mem_align_size (ptot c)"
    using w(4) by (intro unat_of_nat_u16) (simp add: mem_align_size_def)
  then have "pbuf_alloc PBUF_LINK (pf_tot_len (hd c)) PBUF_RAM (l_src a) = Inr ([], l_src a)"
    using None by (simp add: pbuf_alloc_def Let_def ptot_def)
  then show ?thesis by (simp add: pbuf_clone_def)
next
  case (Some m)
  then have "length m = mem_align_size (unat (14 :: u16)) + mem_align_size (ptot c)" using hp by (simp add: heap_ok_def)
  then obtain b where "pbuf_clone PBUF_LINK PBUF_RAM c (l_src a) = Inr ([b], l_src a)" "chain_bytes [b] = chain_bytes c"
      "pf_ref b = 1" "pf_flags b = 0" "pf_type_internal b = 0x80"
    using pbuf_clone_copies [OF w(1,2,3,4), of "14 :: u16" "l_src a" m] Some by auto
  then show ?thesis by (simp add: good_src_def pbuf_get_allocsrc_def)
qed

text \<open>The packet the table gets: the packet itself or a copy, with one more reference; the bytes are the same.\<close>

lemma take_over_runs:
  assumes ok: "refs_ok (l_heap a) e" and hp: "heap_ok a" and q: "0 < e q" and c: "chain_at (l_heap a) q = Inr c" "keepable c (rf (l_heap a) q)"
  shows "take_over q a = Inr (None, a) \<or>
    (\<exists>p h c'. take_over q a = Inr (Some p, a\<lparr>l_heap := h\<rparr>) \<and> refs_ok h (e(p := e p + 1)) \<and>
      chain_at h p = Inr c' \<and> chain_bytes c' = chain_bytes c)"
proof (cases "needs_copy c = Inr True")
  case True
  then have w: "wf_chain c" "full_tail c" "ptot c \<le> 65000" "c \<noteq> []" using c(2) by (auto simp: keepable_def)
  from clone_runs [OF hp w(1,4,2,3)] show ?thesis
  proof
    assume "pbuf_clone 14 PBUF_RAM c (l_src a) = Inr ([], l_src a)"
    then show ?thesis using True c(1) by (simp add: take_over_def add_node_def)
  next
    assume "\<exists>b. pbuf_clone 14 PBUF_RAM c (l_src a) = Inr ([b], l_src a) \<and> pf_ref b = 1 \<and> good_src b \<and> seg_bytes b = chain_bytes c"
    then obtain b where b: "pbuf_clone 14 PBUF_RAM c (l_src a) = Inr ([b], l_src a)" "pf_ref b = 1" "good_src b" "seg_bytes b = chain_bytes c"
      by blast
    let ?h = "l_heap a @ [Some \<lparr>pn_buf = b, pn_next = None\<rparr>]"
    have "take_over q a = Inr (Some (length (l_heap a)), a\<lparr>l_heap := ?h\<rparr>)"
      using b(1) True c(1) by (simp add: take_over_def add_node_def)
    moreover have "refs_ok ?h (e(length (l_heap a) := e (length (l_heap a)) + 1))"
      using refs_ok_snoc_new [OF ok b(2,3)] unreferenced_end [OF ok] by simp
    moreover have "chain_at ?h (length (l_heap a)) = Inr [b]" by (simp add: chain_at_def deref_def node_at_append)
    ultimately show ?thesis using b(4) by (intro disjI2 exI [of _ "length (l_heap a)"] exI [of _ ?h] exI [of _ "[b]"]) simp
  qed
next
  case False
  then have n: "needs_copy c = Inr False" "rf (l_heap a) q < 255" using c(2) by (auto simp: keepable_def)
  obtain nd where nd: "node_at (l_heap a) q = Some nd" using ext_live [OF ok q] by (auto simp: live_def)
  let ?h = "(l_heap a)[q := Some (upd_buf (\<lambda>b. b\<lparr>pf_ref := pf_ref b + 1\<rparr>) nd)]"
  have "unat (pf_ref (pn_buf nd)) < 255" using n(2) nd by (simp add: rf_def)
  then have "unat (pf_ref (pn_buf nd) + 1) = unat (pf_ref (pn_buf nd)) + 1" by (simp add: unat_word_ariths)
  then have "pf_ref (pn_buf nd) + 1 \<noteq> 0" by auto
  then have r: "pbuf_ref (Some q) (l_heap a) = Inr ?h" using nd by (simp add: pbuf_ref_def deref_def Let_def)
  have ok': "refs_ok ?h (e(q := e q + 1))"
    using rc_ref [OF _ r, of e] ok by (auto simp: refs_ok_def links_def)
  obtain b d where c0: "c = b # d" using chain_at_total [OF ok ext_live [OF ok q]] c(1) by (cases c) auto
  have h: "?h = (l_heap a)[q := Some (nd\<lparr>pn_buf := (pn_buf nd)\<lparr>pf_ref := pf_ref (pn_buf nd) + 1\<rparr>\<rparr>)]" by (simp add: upd_buf_def)
  have "chain_at ?h q = Inr ((pn_buf nd)\<lparr>pf_ref := pf_ref (pn_buf nd) + 1\<rparr> # d)" "b = pn_buf nd"
    using chain_at_head [OF ok nd c(1) [unfolded c0]] unfolding h by auto
  moreover have "take_over q a = Inr (Some q, a\<lparr>l_heap := ?h\<rparr>)" using n(1) c(1) r by (simp add: take_over_def)
  ultimately show ?thesis using ok' c0
    by (intro disjI2 exI [of _ q] exI [of _ ?h] exI [of _ "(pn_buf nd)\<lparr>pf_ref := pf_ref (pn_buf nd) + 1\<rparr> # d"]) (simp add: seg_bytes_def plen_def)
qed

text \<open>The packet that waited before is given up for the new one.\<close>

lemma all_refs_swap:
  assumes i: "i < length t" and q: "e_q (t ! i) = Some old" and x: "e_q x = Some p"
  shows "0 < all_refs ext t old" "all_refs ext (t[i := x]) = ((all_refs ext t)(p := all_refs ext t p + 1))(old := ((all_refs ext t)(p := all_refs ext t p + 1)) old - 1)"
proof -
  have u: "q_refs (t[i := x]) j + (if j = old then 1 else 0) = q_refs t j + (if j = p then 1 else 0)" for j
    using q_refs_upd [OF i, of x j] q x by auto
  have "0 < q_refs t old" using i q nth_mem [OF i] by (auto simp: q_refs_def filter_empty_conv)
  then show "0 < all_refs ext t old" by (simp add: all_refs_def)
  show "all_refs ext (t[i := x]) = ((all_refs ext t)(p := all_refs ext t p + 1))(old := ((all_refs ext t)(p := all_refs ext t p + 1)) old - 1)"
  proof
    fix j
    show "all_refs ext (t[i := x]) j = (((all_refs ext t)(p := all_refs ext t p + 1))(old := ((all_refs ext t)(p := all_refs ext t p + 1)) old - 1)) j"
      using u [of j] by (auto simp: all_refs_def split: if_splits)
  qed
qed

lemma queue_keeps:
  assumes inv: "arp_inv ext a" and i: "i < ARP_TABLE_SIZE" and st: "e_state (arp_table a ! i) = ETHARP_STATE_PENDING"
    and q: "0 < ext q" and pk: "packet_ok (l_heap a) q"
  shows "\<exists>r a'. queue_packet i q a = Inr (r, a') \<and> arp_inv ext a'"
proof -
  let ?t = "arp_table a" and ?e = "all_refs ext (arp_table a)"
  have l: "i < length ?t" using i arp_invD(5) [OF inv] by simp
  obtain c where c: "chain_at (l_heap a) q = Inr c" "keepable c (rf (l_heap a) q)" using pk by (auto simp: packet_ok_def)
  have q': "0 < ?e q" using q by (simp add: all_refs_def)
  from take_over_runs [OF arp_invD(3,4) [OF inv] q' c] show ?thesis
  proof
    assume "take_over q a = Inr (None, a)"
    then show ?thesis using inv by (simp add: queue_packet_def)
  next
    assume "\<exists>p h c'. take_over q a = Inr (Some p, a\<lparr>l_heap := h\<rparr>) \<and> refs_ok h (?e(p := ?e p + 1)) \<and>
      chain_at h p = Inr c' \<and> chain_bytes c' = chain_bytes c"
    then obtain p h where p: "take_over q a = Inr (Some p, a\<lparr>l_heap := h\<rparr>)" "refs_ok h (?e(p := ?e p + 1))" by blast
    let ?x = "(?t ! i)\<lparr>e_q := Some p\<rparr>"
    have "entry_ok ?x" using arp_invD(6) [OF inv i] st by (simp add: entry_ok_def is_stable_def)
    then have t: "table_ok (?t[i := ?x])"
      using arp_invD(1) [OF inv] i
      by (intro table_ok_upd) (use table_okD(3) [OF arp_invD(1) [OF inv] _ i] st in \<open>auto simp: same_key_def\<close>)
    have fin: "arp_inv ext (a\<lparr>l_heap := h', arp_table := ?t[i := ?x]\<rparr>)" if "refs_ok h' (all_refs ext (?t[i := ?x]))" for h'
      using that t inv by (simp add: arp_inv_def heap_ok_def)
    show ?thesis
    proof (cases "e_q (?t ! i)")
      case None
      have "refs_ok h (all_refs ext (?t[i := ?x]))" using p(2) all_refs_add [OF l None, of ?x p ext] by simp
      then have "arp_inv ext (a\<lparr>l_heap := h, arp_table := ?t[i := ?x]\<rparr>)" by (rule fin)
      then show ?thesis using p(1) None by (simp add: queue_packet_def upd_entry_def)
    next
      case (Some old)
      note sw = all_refs_swap [OF l Some, of ?x p ext]
      let ?f = "?e(p := ?e p + 1)"
      have "0 < ?f old" using sw(1) by simp
      then obtain h' where h': "stack_free old (a\<lparr>l_heap := h\<rparr>) = Inr ((a\<lparr>l_heap := h\<rparr>)\<lparr>l_heap := h'\<rparr>)" "refs_ok h' (?f(old := ?f old - 1))"
        using free_keeps [of "a\<lparr>l_heap := h\<rparr>" ?f old] p(2) by auto
      have "refs_ok h' (all_refs ext (?t[i := ?x]))" using h'(2) sw(2) by simp
      then have "arp_inv ext (a\<lparr>l_heap := h', arp_table := ?t[i := ?x]\<rparr>)" by (rule fin)
      then show ?thesis using p(1) Some h'(1) by (simp add: queue_packet_def upd_entry_def)
    qed
  qed
qed

section \<open>A query\<close>

lemma stack_free_kept: "refs_ok (l_heap a) e \<Longrightarrow> 0 < e p \<Longrightarrow> stack_free p a = Inr a' \<Longrightarrow> kept (l_heap a) (l_heap a')"
  using stack_free_runs [of a e p] freed_kept by auto

lemma free_entry_kept:
  assumes inv: "arp_inv ext a" and i: "i < ARP_TABLE_SIZE" and f: "etharp_free_entry i a = Inr a'"
  shows "kept (l_heap a) (l_heap a')"
proof (cases "e_q (arp_table a ! i)")
  case None
  then show ?thesis using f by (auto simp: etharp_free_entry_def)
next
  case (Some q)
  have l: "i < length (arp_table a)" using i arp_invD(5) [OF inv] by simp
  have "0 < all_refs ext (arp_table a) q" using all_refs_drop(1) [OF l Some entry_ok_wiped(3)] .
  then show ?thesis using f Some stack_free_kept [OF arp_invD(3) [OF inv], of q]
    by (auto simp: etharp_free_entry_def bindR_Inr_iff)
qed

lemma choose_entry_kept:
  assumes inv: "arp_inv ext a" and c: "choose_entry c a = Inr (r, a')"
  shows "kept (l_heap a) (l_heap a')"
proof -
  have "kept (l_heap a) (l_heap a1)" if "i < ARP_TABLE_SIZE" "etharp_free_entry i a = Inr a1" for i a1
    using free_entry_kept [OF inv that] .
  then show ?thesis using c by (auto simp: choose_entry_def bindR_Inr_iff split: if_splits)
qed

lemma find_entry_kept:
  assumes inv: "arp_inv ext a" and f: "etharp_find_entry ip flags nf a = Inr (r, a')"
  shows "kept (l_heap a) (l_heap a')"
proof (cases "find_loop ip nf 0 (arp_table a) no_cands")
  case (Inl j)
  then show ?thesis using f by (simp add: etharp_find_entry_def)
next
  case (Inr c)
  show ?thesis
  proof (cases "flags AND 2 \<noteq> 0 \<or> f_empty c = ARP_TABLE_SIZE \<and> flags AND 1 = 0")
    case True
    then show ?thesis using f Inr by (simp add: etharp_find_entry_def)
  next
    case False
    obtain o1 a1 where ch: "choose_entry c a = Inr (o1, a1)"
      using f Inr False by (cases "choose_entry c a") (auto simp: etharp_find_entry_def)
    then have "l_heap a' = l_heap a1"
      using f Inr False by (cases o1; cases ip) (auto simp: etharp_find_entry_def Let_def split: if_splits)
    then show ?thesis using choose_entry_kept [OF inv ch] by simp
  qed
qed

lemma q_refs_found:
  assumes inv: "arp_inv ext a" and f: "found ip n a i a'"
  shows "all_refs ext (arp_table a') q \<le> all_refs ext (arp_table a) q"
proof -
  consider "a' = a" | x where "arp_table a' = (arp_table a)[i := x]" "e_q x = None" using f by (auto simp: found_def)
  then show ?thesis
  proof cases
    case 2
    then show ?thesis using q_refs_upd [of i "arp_table a" x q] f arp_invD(5) [OF inv] by (simp add: found_def all_refs_def)
  qed simp
qed

lemma query_keeps:
  assumes inv: "arp_inv ext a" and hw: "all_nif_ok netifs"
    and q: "\<And>p. q = Some p \<Longrightarrow> 0 < ext p \<and> packet_ok (l_heap a) p"
  shows "\<exists>r a'. etharp_query netifs n ip q a = Inr (r, a') \<and> arp_inv ext a'"
proof (cases "non_unicast netifs n ip \<or> etharp_find_entry (Some ip) 1 (Some n) a = Inr (Inl ERR_MEM, a)")
  case True
  then show ?thesis using inv by (auto simp: etharp_query_def)
next
  case False
  then obtain i a1 where f: "etharp_find_entry (Some ip) 1 (Some n) a = Inr (Inr i, a1)" "found ip n a i a1" "arp_inv ext a1"
    using find_entry_runs [OF inv, of ip 1 n] by blast
  note k = found_keyed [OF inv f(2)]
  have i: "i < ARP_TABLE_SIZE" "i < length (arp_table a1)" using keyedD(1) [OF k(1)] arp_invD(5) [OF f(3)] by simp_all
  let ?new = "e_state (arp_table a1 ! i) = ETHARP_STATE_EMPTY"
  let ?x = "(arp_table a1 ! i)\<lparr>e_state := ETHARP_STATE_PENDING, e_netif := Some n\<rparr>"
  define a2 where "a2 = (if ?new then a1\<lparr>arp_table := (arp_table a1)[i := ?x]\<rparr> else a1)"
  have 2: "arp_inv ext a2" "used (arp_table a2 ! i)" "l_heap a2 = l_heap a1"
      "all_refs ext (arp_table a2) = all_refs ext (arp_table a1)"
  proof -
    have x: "arp_inv ext (a1\<lparr>arp_table := (arp_table a1)[i := ?x]\<rparr>)" if ?new
      using set_entry [OF f(3) k(1), of ?x] keyedD(2) [OF k(1)] arp_invD(6) [OF f(3) i(1)] that k(2)
      by (simp add: entry_ok_def is_stable_def)
    then show "arp_inv ext a2" using f(3) by (auto simp: a2_def)
    show "used (arp_table a2 ! i)" "l_heap a2 = l_heap a1" using i by (auto simp: a2_def)
    show "all_refs ext (arp_table a2) = all_refs ext (arp_table a1)" using i by (simp add: a2_def)
  qed
  obtain r3 h3 out3 where 3: "(if ?new \<or> q = None then etharp_request netifs n ip a2 else Inr (ERR_MEM, a2)) = Inr (r3, a2\<lparr>l_heap := h3, l_out := out3\<rparr>)"
      "arp_inv ext (a2\<lparr>l_heap := h3, l_out := out3\<rparr>)" "h3 = l_heap a2 \<or> h3 = l_heap a2 @ [None]"
  proof (cases "?new \<or> q = None")
    case True
    obtain r h out where rq: "etharp_request_dst netifs n ip ethbroadcast a2 = Inr (r, a2\<lparr>l_heap := h, l_out := out\<rparr>)"
        "h = l_heap a2 \<or> h = l_heap a2 @ [None]" "refs_ok h (all_refs ext (arp_table a2))"
      using request_keeps [where hw = ethbroadcast and netifs = netifs and n = n and ip = ip, OF 2(1) all_nif_okD [OF hw]]
      by (auto simp: ethbroadcast_def)
    then show ?thesis using that [of r out h] True arp_inv_heap [OF 2(1) rq(3), of out] by (auto simp: etharp_request_def)
  next
    case False
    then show ?thesis using that [of ERR_MEM "l_out a2" "l_heap a2"] 2(1) by auto
  qed
  let ?a3 = "a2\<lparr>l_heap := h3, l_out := out3\<rparr>"
  have run: "etharp_query netifs n ip q a =
      (case q of
         None \<Rightarrow> Inr (r3, ?a3)
       | Some q \<Rightarrow>
           if stable_state (e_state (arp_table ?a3 ! i))
           then ethernet_output netifs n q (nif_hwaddr (netifs n)) (e_ethaddr (arp_table ?a3 ! i)) ETHTYPE_IP (?a3\<lparr>etharp_cached_entry := i\<rparr>)
           else if e_state (arp_table ?a3 ! i) = ETHARP_STATE_PENDING then queue_packet i q ?a3
           else Inr (r3, ?a3))"
    using False f(1) 3(1) unfolding etharp_query_def a2_def by (auto simp: upd_entry_def Let_def split: option.splits)
  show ?thesis
  proof (cases q)
    case None
    then show ?thesis using run 3(2) by simp
  next
    case (Some p)
    have p: "0 < ext p" "packet_ok (l_heap a) p" using q [OF Some] by simp_all
    show ?thesis
    proof (cases "stable_state (e_state (arp_table ?a3 ! i))")
      case True
      let ?a4 = "?a3\<lparr>etharp_cached_entry := i\<rparr>"
      have inv4: "arp_inv ext ?a4" using 3(2) i by (simp add: arp_inv_def heap_ok_def)
      have "0 < all_refs ext (arp_table ?a4) p" using p(1) by (simp add: all_refs_def)
      then obtain r h out where "ethernet_output netifs n p (nif_hwaddr (netifs n)) (e_ethaddr (arp_table ?a3 ! i)) ETHTYPE_IP ?a4 =
            Inr (r, ?a4\<lparr>l_heap := h, l_out := out\<rparr>)" "refs_ok h (all_refs ext (arp_table ?a4))"
        using output_keeps [where netifs = netifs and n = n and src = "nif_hwaddr (netifs n)" and dst = "e_ethaddr (arp_table ?a3 ! i)"
            and ty = ETHTYPE_IP, OF inv4 all_nif_okD [OF hw]] by blast
      then show ?thesis using run Some True arp_inv_heap [OF inv4] by auto
    next
      case ns: False
      then have st: "e_state (arp_table ?a3 ! i) = ETHARP_STATE_PENDING" using 2(2) by (cases "e_state (arp_table a2 ! i)") simp_all
      have "kept (l_heap a) h3"
        using find_entry_kept [OF inv f(1)] 3(3) 2(3) kept_trans [of "l_heap a" "l_heap a1" h3] by auto
      moreover have "refs_ok h3 (all_refs ext (arp_table a2))" using arp_invD(3) [OF 3(2)] by simp
      moreover have "all_refs ext (arp_table a2) p \<le> all_refs ext (arp_table a) p" using q_refs_found [OF inv f(2)] 2(4) by simp
      moreover have "0 < all_refs ext (arp_table a2) p" using p(1) by (simp add: all_refs_def)
      ultimately have "packet_ok h3 p" using kept_packet arp_invD(3) [OF inv] p(2) by blast
      then show ?thesis using run Some ns st queue_keeps [OF 3(2) i(1) st p(1)] by simp
    qed
  qed
qed

end
