(* ===== verification/EtharpMain.thy ===== *)
theory EtharpMain
  imports EtharpSend
begin

text \<open>The properties of address resolution.\<close>

section \<open>Output and input\<close>

lemma rerequest_keeps:
  fixes a :: "'a arp_scheme"
  assumes inv: "arp_inv ext a" and hw: "all_nif_ok netifs" and i: "i < ARP_TABLE_SIZE" and st: "e_state (arp_table a ! i) = ETHARP_STATE_STABLE"
    and l: "6 \<le> length dst"
  shows "\<exists>a'. bindR (etharp_request_dst netifs n ip dst a) (\<lambda>(err, a). Inr (if err = ERR_OK then upd_entry i (\<lambda>e. e\<lparr>e_state := ETHARP_STATE_STABLE_REREQUESTING_1\<rparr>) a else a)) =
      (Inr a' :: stack_error + 'a arp_scheme) \<and> arp_inv ext a'"
proof -
  obtain r h out where q: "etharp_request_dst netifs n ip dst a = Inr (r, a\<lparr>l_heap := h, l_out := out\<rparr>)" "refs_ok h (all_refs ext (arp_table a))"
    using request_keeps [where hw = dst and netifs = netifs and n = n and ip = ip, OF inv all_nif_okD [OF hw] l] by blast
  note inv1 = arp_inv_heap [OF inv q(2), of out]
  have "arp_inv ext (upd_entry i (\<lambda>e. e\<lparr>e_state := ETHARP_STATE_STABLE_REREQUESTING_1\<rparr>) (a\<lparr>l_heap := h, l_out := out\<rparr>))"
    unfolding upd_entry_def by (rule retime [OF inv1 i]) (use st in simp_all)
  then show ?thesis using q(1) inv1 by simp
qed

lemma to_index_keeps:
  fixes a :: "'a arp_scheme"
  assumes inv: "arp_inv ext a" and hw: "all_nif_ok netifs" and i: "i < ARP_TABLE_SIZE" and st: "is_stable (arp_table a ! i)" and q: "0 < ext q"
  shows "\<exists>r a'. etharp_output_to_arp_index netifs n q i a = Inr (r, a') \<and> arp_inv ext a'"
proof -
  let ?e = "arp_table a ! i"
  let ?re = "\<lambda>(err, a). Inr (if err = ERR_OK then upd_entry i (\<lambda>e. e\<lparr>e_state := ETHARP_STATE_STABLE_REREQUESTING_1\<rparr>) a else a) :: stack_error + 'a arp_scheme"
  let ?first = "if e_state ?e = ETHARP_STATE_STABLE
     then if ARP_AGE_REREQUEST_USED_BROADCAST \<le> unat (e_ctime ?e) then bindR (etharp_request netifs n (e_ipaddr ?e) a) ?re
          else if ARP_AGE_REREQUEST_USED_UNICAST \<le> unat (e_ctime ?e) then bindR (etharp_request_dst netifs n (e_ipaddr ?e) (e_ethaddr ?e) a) ?re
          else Inr a
     else Inr a"
  have l: "length (e_ethaddr ?e) = 6" using arp_invD(6) [OF inv i] st by (simp add: entry_ok_def)
  have "\<exists>a1. ?first = Inr a1 \<and> arp_inv ext a1"
    using rerequest_keeps [where dst = ethbroadcast and n = n and ip = "e_ipaddr ?e", OF inv hw i]
      rerequest_keeps [where dst = "e_ethaddr ?e" and n = n and ip = "e_ipaddr ?e", OF inv hw i] l inv
    by (auto simp: etharp_request_def ethbroadcast_def)
  then obtain a1 where 1: "?first = Inr a1" "arp_inv ext a1" by blast
  have "0 < all_refs ext (arp_table a1) q" using q by (simp add: all_refs_def)
  then obtain r h out where o: "ethernet_output netifs n q (nif_hwaddr (netifs n)) (e_ethaddr (arp_table a1 ! i)) ETHTYPE_IP a1 = Inr (r, a1\<lparr>l_heap := h, l_out := out\<rparr>)"
      "refs_ok h (all_refs ext (arp_table a1))"
    using output_keeps [where netifs = netifs and n = n and src = "nif_hwaddr (netifs n)" and dst = "e_ethaddr (arp_table a1 ! i)"
        and ty = ETHTYPE_IP, OF 1(2) all_nif_okD [OF hw]] by blast
  have "etharp_output_to_arp_index netifs n q i a = bindR ?first (\<lambda>a. ethernet_output netifs n q (nif_hwaddr (netifs n)) (e_ethaddr (arp_table a ! i)) ETHTYPE_IP a)"
    using st unfolding etharp_output_to_arp_index_def is_stable_def Let_def by simp
  then have "etharp_output_to_arp_index netifs n q i a = Inr (r, a1\<lparr>l_heap := h, l_out := out\<rparr>)" using 1(1) o(1) by simp
  then show ?thesis using arp_inv_heap [OF 1(2) o(2)] by blast
qed

lemma find_stable_some: "find_stable k es n dst = Some i \<Longrightarrow> k \<le> i \<and> i < k + length es \<and> is_stable (es ! (i - k)) \<and>
    e_netif (es ! (i - k)) = Some n \<and> e_ipaddr (es ! (i - k)) = dst"
proof (induction k es n dst rule: find_stable.induct)
  case (2 k e es n dst)
  show ?case
  proof (cases "stable_state (e_state e) \<and> e_netif e = Some n \<and> dst = e_ipaddr e")
    case True
    then show ?thesis using 2(2) by (auto simp: is_stable_def)
  next
    case False
    then have "find_stable (k + 1) es n dst = Some i" using 2(2) by auto
    then have "k + 1 \<le> i \<and> i < k + 1 + length es \<and> is_stable (es ! (i - (k + 1))) \<and> e_netif (es ! (i - (k + 1))) = Some n \<and> e_ipaddr (es ! (i - (k + 1))) = dst"
      using 2(1) False by blast
    moreover have "i - k = Suc (i - (k + 1))" using calculation by linarith
    ultimately show ?thesis by simp
  qed
qed simp

lemma output_runs:
  assumes inv: "arp_inv ext a" and hw: "all_nif_ok netifs" and q: "0 < ext q" "packet_ok (l_heap a) q"
  shows "\<exists>r a'. etharp_output netifs n q ip a = Inr (r, a') \<and> arp_inv ext a'"
proof -
  have p: "0 < all_refs ext (arp_table a) q" using q(1) by (simp add: all_refs_def)
  have send: "\<exists>r a'. ethernet_output netifs n q (nif_hwaddr (netifs n)) dst ETHTYPE_IP a = Inr (r, a') \<and> arp_inv ext a'" for dst
    using output_keeps [where netifs = netifs and n = n and src = "nif_hwaddr (netifs n)" and dst = dst and ty = ETHTYPE_IP, OF inv all_nif_okD [OF hw] p]
      arp_inv_heap [OF inv] by blast
  show ?thesis
  proof (cases "ip4_addr_isbroadcast_u32 ip (netifs n) \<or> ip4_addr_ismulticast ip")
    case True
    then show ?thesis using send by (auto simp: etharp_output_def Let_def)
  next
    case uni: False
    show ?thesis
    proof (cases "next_hop (netifs n) ip")
      case None
      then show ?thesis using uni inv by (auto simp: etharp_output_def Let_def)
    next
      case (Some dst)
      let ?c = "arp_table a ! etharp_cached_entry a"
      show ?thesis
      proof (cases "stable_state (e_state ?c) \<and> e_netif ?c = Some n \<and> dst = e_ipaddr ?c")
        case True
        have "is_stable ?c" using True by (simp add: is_stable_def)
        then show ?thesis using uni Some True to_index_keeps [OF inv hw arp_invD(2) [OF inv] _ q(1)] by (auto simp: etharp_output_def Let_def)
      next
        case nc: False
        show ?thesis
        proof (cases "find_stable 0 (arp_table a) n dst")
          case (Some i)
          then have i: "i < ARP_TABLE_SIZE" "is_stable (arp_table a ! i)" using find_stable_some [of 0 "arp_table a" n dst i] arp_invD(5) [OF inv] by auto
          have "arp_inv ext (a\<lparr>etharp_cached_entry := i\<rparr>)" using inv i by (simp add: arp_inv_def heap_ok_def)
          then show ?thesis using uni \<open>next_hop _ _ = _\<close> nc Some to_index_keeps [of ext "a\<lparr>etharp_cached_entry := i\<rparr>" netifs i q n] hw i q(1)
            by (auto simp: etharp_output_def Let_def)
        next
          case None
          then show ?thesis using uni \<open>next_hop _ _ = _\<close> nc query_keeps [OF inv hw, of "Some q" n dst] q
            by (auto simp: etharp_output_def Let_def)
        qed
      qed
    qed
  qed
qed

definition readable :: "pheap \<Rightarrow> nat \<Rightarrow> bool" where
  "readable h p \<longleftrightarrow> (\<exists>nd. node_at h p = Some nd \<and> pf_off (pn_buf nd) + 28 \<le> length (pf_mem (pn_buf nd)))"

lemma give_back:
  assumes inv: "arp_inv ext a" and p: "0 < ext p"
  shows "\<exists>a'. stack_free p a = Inr a' \<and> arp_inv (ext(p := ext p - 1)) a'"
proof -
  have p': "0 < all_refs ext (arp_table a) p" using p by (simp add: all_refs_def)
  obtain h where h: "stack_free p a = Inr (a\<lparr>l_heap := h\<rparr>)" "refs_ok h ((all_refs ext (arp_table a))(p := all_refs ext (arp_table a) p - 1))"
    using free_keeps [OF arp_invD(3) [OF inv] p'] by blast
  have "(all_refs ext (arp_table a))(p := all_refs ext (arp_table a) p - 1) = all_refs (ext(p := ext p - 1)) (arp_table a)"
    using p by (auto simp: all_refs_def fun_eq_iff)
  then have "arp_inv (ext(p := ext p - 1)) (a\<lparr>l_heap := h\<rparr>)" using inv h(2) by (simp add: arp_inv_def heap_ok_def)
  then show ?thesis using h(1) by blast
qed

lemma input_eq:
  assumes nd: "node_at (l_heap a) p = Some nd" and l: "length hdr = 28"
    and hdr: "ld_bytes (pf_mem (pn_buf nd)) (pf_off (pn_buf nd)) 28 = hdr"
    and ok: "\<not> (ld16 hdr 0 \<noteq> lwip_htons 1 \<or> hdr ! 4 \<noteq> 6 \<or> hdr ! 5 \<noteq> 4 \<or> ld16 hdr 2 \<noteq> lwip_htons ETHTYPE_IP)"
    and us: "for_us = (if ip4_addr_isany (nif_addr (netifs n)) then False else ld32 hdr 24 = nif_addr (netifs n))"
  shows "etharp_input netifs p n a =
    bindR (etharp_update_arp_entry netifs n (ld32 hdr 14) (ld_bytes hdr 8 6) (if for_us then ETHARP_FLAG_TRY_HARD else ETHARP_FLAG_FIND_ONLY) a) (\<lambda>(err, a).
      bindR (if ld16 hdr 6 = lwip_htons ARP_REQUEST \<and> for_us
             then bindR (etharp_raw netifs n (nif_hwaddr (netifs n)) (ld_bytes hdr 8 6) (nif_hwaddr (netifs n)) (nif_addr (netifs n)) (ld_bytes hdr 8 6)
                    (ld32 hdr 14) ARP_REPLY a) (\<lambda>(err, a). Inr a)
             else Inr a) (stack_free p))"
  unfolding etharp_input_def using nd l ok by (simp add: Let_def deref_def hdr us)

lemma input_runs:
  assumes inv: "arp_inv ext a" and hw: "all_nif_ok netifs" and p: "0 < ext p" and rd: "readable (l_heap a) p"
  shows "\<exists>a'. etharp_input netifs p n a = Inr a' \<and> arp_inv (ext(p := ext p - 1)) a'"
proof -
  obtain nd where nd: "node_at (l_heap a) p = Some nd" "pf_off (pn_buf nd) + 28 \<le> length (pf_mem (pn_buf nd))" using rd by (auto simp: readable_def)
  define hdr where "hdr = ld_bytes (pf_mem (pn_buf nd)) (pf_off (pn_buf nd)) 28"
  have l: "length hdr = 28" using nd(2) by (simp add: hdr_def ld_bytes_def)
  let ?bad = "ld16 hdr 0 \<noteq> lwip_htons 1 \<or> hdr ! 4 \<noteq> 6 \<or> hdr ! 5 \<noteq> 4 \<or> ld16 hdr 2 \<noteq> lwip_htons ETHTYPE_IP"
  show ?thesis
  proof (cases ?bad)
    case True
    then show ?thesis using nd(1) l give_back [OF inv p] by (simp add: etharp_input_def Let_def hdr_def deref_def)
  next
    case False
    let ?ni = "netifs n" and ?sh = "ld_bytes hdr 8 6" and ?sip = "ld32 hdr 14"
    define for_us where "for_us = (if ip4_addr_isany (nif_addr ?ni) then False else ld32 hdr 24 = nif_addr ?ni)"
    have ls: "6 \<le> length ?sh" using l by (simp add: ld_bytes_def)
    let ?fl = "if for_us then ETHARP_FLAG_TRY_HARD else ETHARP_FLAG_FIND_ONLY"
    obtain r a1 where 1: "etharp_update_arp_entry netifs n ?sip ?sh ?fl a = Inr (r, a1)" "arp_inv ext a1"
      using update_keeps [where netifs = netifs and n = n and addr = ?sh and ip = ?sip and flags = ?fl, OF inv all_nif_okD [OF hw] ls] by blast
    let ?reply = "ld16 hdr 6 = lwip_htons ARP_REQUEST \<and> for_us"
    have hl: "length (nif_hwaddr ?ni) = 6" using all_nif_okD [OF hw, of n] by (simp add: nif_ok_def)
    obtain a2 where 2: "(if ?reply then bindR (etharp_raw netifs n (nif_hwaddr ?ni) ?sh (nif_hwaddr ?ni) (nif_addr ?ni) ?sh ?sip ARP_REPLY a1) (\<lambda>(err, a). Inr a)
        else Inr a1) = Inr a2" "arp_inv ext a2"
    proof (cases ?reply)
      case True
      obtain r h out where "etharp_raw netifs n (nif_hwaddr ?ni) ?sh (nif_hwaddr ?ni) (nif_addr ?ni) ?sh ?sip ARP_REPLY a1 = Inr (r, a1\<lparr>l_heap := h, l_out := out\<rparr>)"
          "refs_ok h (all_refs ext (arp_table a1))"
        using raw_keeps [where netifs = netifs and n = n and ethsrc = "nif_hwaddr ?ni" and ethdst = ?sh and hwsrc = "nif_hwaddr ?ni" and hwdst = ?sh
            and ipsrc = "nif_addr ?ni" and ipdst = ?sip and opcode = ARP_REPLY, OF 1(2) all_nif_okD [OF hw]] ls hl by auto
      then show ?thesis using that [of "a1\<lparr>l_heap := h, l_out := out\<rparr>"] True arp_inv_heap [OF 1(2)] by auto
    next
      case False
      then show ?thesis using that [of a1] 1(2) by auto
    qed
    have "etharp_input netifs p n a = stack_free p a2"
      using input_eq [where netifs = netifs and n = n, OF nd(1) l hdr_def [symmetric] False for_us_def] 1(1) 2(1) by simp
    then show ?thesis using give_back [OF 2(2) p] by simp
  qed
qed

section \<open>Ageing\<close>

text \<open>What the timer does to an entry.\<close>

definition aged :: "etharp_entry \<Rightarrow> etharp_entry" where
  "aged e =
     (if \<not> used e then e
      else if 300 \<le> unat (e_ctime e + 1) \<or> e_state e = ETHARP_STATE_PENDING \<and> 5 \<le> unat (e_ctime e + 1) then wiped
      else e\<lparr>e_ctime := e_ctime e + 1,
             e_state := (if e_state e = ETHARP_STATE_STABLE_REREQUESTING_1 then ETHARP_STATE_STABLE_REREQUESTING_2
                         else if e_state e = ETHARP_STATE_STABLE_REREQUESTING_2 then ETHARP_STATE_STABLE else e_state e)\<rparr>)"

lemma request_table: "etharp_request netifs n ip a = Inr (r, a') \<Longrightarrow> arp_inv ext a \<Longrightarrow> all_nif_ok netifs \<Longrightarrow> arp_table a' = arp_table a"
  using request_inv [of ext a netifs n ip] by auto

lemma aged_alive:
  assumes "used e" and "\<not> (300 \<le> unat (e_ctime e + 1) \<or> e_state e = ETHARP_STATE_PENDING \<and> 5 \<le> unat (e_ctime e + 1))"
  shows "e_state e = ETHARP_STATE_STABLE \<or> e_state e = ETHARP_STATE_PENDING \<Longrightarrow> aged e = e\<lparr>e_ctime := e_ctime e + 1\<rparr>"
    "e_state e = ETHARP_STATE_STABLE_REREQUESTING_1 \<Longrightarrow> aged e = e\<lparr>e_ctime := e_ctime e + 1, e_state := ETHARP_STATE_STABLE_REREQUESTING_2\<rparr>"
    "e_state e = ETHARP_STATE_STABLE_REREQUESTING_2 \<Longrightarrow> aged e = e\<lparr>e_ctime := e_ctime e + 1, e_state := ETHARP_STATE_STABLE\<rparr>"
  using assms by (cases e; auto simp: aged_def)+

lemma tick_ages:
  assumes inv: "arp_inv ext a" and hw: "all_nif_ok netifs" and i: "i < ARP_TABLE_SIZE" and t: "arp_tick netifs i a = Inr a'"
  shows "arp_table a' = (arp_table a)[i := aged (arp_table a ! i)]"
proof (cases "used (arp_table a ! i)")
  case False
  then show ?thesis using t by (simp add: arp_tick_def aged_def)
next
  case u: True
  let ?e = "arp_table a ! i"
  have l: "i < length (arp_table a)" using i arp_invD(5) [OF inv] by simp
  let ?a1 = "upd_entry i (\<lambda>e. e\<lparr>e_ctime := e_ctime e + 1\<rparr>) a"
  have inv1: "arp_inv ext ?a1" unfolding upd_entry_def by (rule retime [OF inv i u]) (use u in simp_all)
  show ?thesis
  proof (cases "ARP_MAXAGE \<le> unat (e_ctime ?e + 1) \<or> e_state ?e = ETHARP_STATE_PENDING \<and> ARP_MAXPENDING \<le> unat (e_ctime ?e + 1)")
    case True
    then have "etharp_free_entry i ?a1 = Inr a'" using t u by (simp add: arp_tick_def Let_def)
    moreover obtain h where "etharp_free_entry i ?a1 = Inr (?a1\<lparr>l_heap := h, arp_table := (arp_table ?a1)[i := wiped]\<rparr>)"
      using free_entry_keeps [OF inv1 i] by blast
    ultimately show ?thesis using True u l by (auto simp: aged_def)
  next
    case False
    obtain n where n: "e_netif ?e = Some n" using arp_invD(6) [OF inv i] u by (auto simp: entry_ok_def)
    have t': "(if e_state ?e = ETHARP_STATE_STABLE_REREQUESTING_1 then Inr (upd_entry i (\<lambda>e. e\<lparr>e_state := ETHARP_STATE_STABLE_REREQUESTING_2\<rparr>) ?a1)
         else if e_state ?e = ETHARP_STATE_STABLE_REREQUESTING_2 then Inr (upd_entry i (\<lambda>e. e\<lparr>e_state := ETHARP_STATE_STABLE\<rparr>) ?a1)
         else if e_state ?e = ETHARP_STATE_PENDING then bindR (etharp_request netifs n (e_ipaddr ?e) ?a1) (\<lambda>(err, a). Inr a)
         else Inr ?a1) = Inr a'"
      using t u n False by (cases "e_state (arp_table a ! i)") (simp_all add: arp_tick_def Let_def)
    have tb: "arp_table ?a1 = (arp_table a)[i := ?e\<lparr>e_ctime := e_ctime ?e + 1\<rparr>]" by simp
    show ?thesis
    proof (cases "e_state ?e")
      case ETHARP_STATE_EMPTY
      then show ?thesis using u by simp
    next
      case ETHARP_STATE_PENDING
      obtain r h out where "etharp_request netifs n (e_ipaddr ?e) ?a1 = Inr (r, ?a1\<lparr>l_heap := h, l_out := out\<rparr>)"
        using request_inv [OF inv1 hw] by blast
      then have "a' = ?a1\<lparr>l_heap := h, l_out := out\<rparr>" using t' ETHARP_STATE_PENDING by simp
      then show ?thesis using tb aged_alive(1) [OF u False] ETHARP_STATE_PENDING by simp
    next
      case ETHARP_STATE_STABLE
      then have "a' = ?a1" using t' by simp
      then show ?thesis using tb aged_alive(1) [OF u False] ETHARP_STATE_STABLE by simp
    next
      case ETHARP_STATE_STABLE_REREQUESTING_1
      then have "a' = upd_entry i (\<lambda>e. e\<lparr>e_state := ETHARP_STATE_STABLE_REREQUESTING_2\<rparr>) ?a1" using t' by simp
      then show ?thesis using l aged_alive(2) [OF u False ETHARP_STATE_STABLE_REREQUESTING_1] by simp
    next
      case ETHARP_STATE_STABLE_REREQUESTING_2
      then have "a' = upd_entry i (\<lambda>e. e\<lparr>e_state := ETHARP_STATE_STABLE\<rparr>) ?a1" using t' by simp
      then show ?thesis using l aged_alive(3) [OF u False ETHARP_STATE_STABLE_REREQUESTING_2] by simp
    qed
  qed
qed

lemma tick_loop_ages:
  "arp_inv ext a \<Longrightarrow> all_nif_ok netifs \<Longrightarrow> distinct is \<Longrightarrow> \<forall>i \<in> set is. i < ARP_TABLE_SIZE \<Longrightarrow> arp_tick_loop netifs is a = Inr a' \<Longrightarrow>
   \<forall>j < ARP_TABLE_SIZE. arp_table a' ! j = (if j \<in> set is then aged (arp_table a ! j) else arp_table a ! j)"
proof (induction "is" arbitrary: a)
  case (Cons i js)
  have i: "i < ARP_TABLE_SIZE" using Cons.prems(4) by simp
  obtain a1 where a1: "arp_tick netifs i a = Inr a1" "arp_inv ext a1" using tick_keeps [OF Cons.prems(1,2) i] by blast
  note t = tick_ages [OF Cons.prems(1,2) i a1(1)]
  have "\<forall>j < ARP_TABLE_SIZE. arp_table a' ! j = (if j \<in> set js then aged (arp_table a1 ! j) else arp_table a1 ! j)"
    using Cons.IH [OF a1(2) Cons.prems(2)] Cons.prems(3,4,5) a1(1) by simp
  then show ?case using t Cons.prems(3) i arp_invD(5) [OF Cons.prems(1)] by (auto simp: nth_list_update)
qed simp

lemma tmr_ages:
  assumes inv: "arp_inv ext a" and hw: "all_nif_ok netifs"
  shows "\<exists>a'. etharp_tmr netifs a = Inr a' \<and> arp_inv ext a' \<and> arp_table a' = map aged (arp_table a)"
proof -
  obtain a' where a': "etharp_tmr netifs a = Inr a'" "arp_inv ext a'" using tmr_keeps [OF inv hw] by blast
  have "\<forall>j < ARP_TABLE_SIZE. arp_table a' ! j = (if j \<in> set [0..<10] then aged (arp_table a ! j) else arp_table a ! j)"
    by (rule tick_loop_ages [OF inv hw]) (use a'(1) in \<open>simp_all add: etharp_tmr_def\<close>)
  then have "arp_table a' = map aged (arp_table a)"
    using arp_invD(5) [OF inv] arp_invD(5) [OF a'(2)] by (intro nth_equalityI) simp_all
  then show ?thesis using a' by blast
qed

text \<open>The age of an entry is bounded, so the counter does not wrap, and every entry is released in the end.\<close>

definition young :: "etharp_entry \<Rightarrow> bool" where
  "young e \<longleftrightarrow> used e \<longrightarrow> unat (e_ctime e) < 300"

fun tmr_times :: "nat \<Rightarrow> (nat \<Rightarrow> netif) \<Rightarrow> 'a arp_scheme \<Rightarrow> stack_error + 'a arp_scheme" where
  "tmr_times 0 netifs a = Inr a"
| "tmr_times (Suc k) netifs a = bindR (etharp_tmr netifs a) (tmr_times k netifs)"

lemma aged_steps:
  assumes y: "young e"
  shows "young (aged e)" "used (aged e) \<Longrightarrow> unat (e_ctime (aged e)) = unat (e_ctime e) + 1 \<and> used e"
    "used (aged e) \<Longrightarrow> e_state e = ETHARP_STATE_PENDING \<Longrightarrow> e_state (aged e) = ETHARP_STATE_PENDING \<and> unat (e_ctime (aged e)) < 5"
proof -
  have u: "unat (e_ctime e + 1) = unat (e_ctime e) + 1" if "used e"
    using y that by (simp add: young_def unat_word_ariths)
  show "young (aged e)" using y entry_ok_wiped(2) by (auto simp: aged_def young_def)
  show "used (aged e) \<Longrightarrow> unat (e_ctime (aged e)) = unat (e_ctime e) + 1 \<and> used e"
    using u entry_ok_wiped(2) by (auto simp: aged_def split: if_splits)
  show "used (aged e) \<Longrightarrow> e_state e = ETHARP_STATE_PENDING \<Longrightarrow> e_state (aged e) = ETHARP_STATE_PENDING \<and> unat (e_ctime (aged e)) < 5"
    using entry_ok_wiped(2) by (auto simp: aged_def split: if_splits)
qed

lemma aged_pow:
  "young e \<Longrightarrow> young ((aged ^^ k) e) \<and> (used ((aged ^^ k) e) \<longrightarrow> used e \<and> unat (e_ctime ((aged ^^ k) e)) = unat (e_ctime e) + k) \<and>
    (used ((aged ^^ k) e) \<longrightarrow> e_state e = ETHARP_STATE_PENDING \<longrightarrow> 0 < k \<longrightarrow>
       e_state ((aged ^^ k) e) = ETHARP_STATE_PENDING \<and> unat (e_ctime ((aged ^^ k) e)) < 5)"
proof (induction k)
  case (Suc k)
  let ?f = "(aged ^^ k) e"
  have y: "young ?f" using Suc by simp
  note s = aged_steps [OF y]
  show ?case
  proof (intro conjI impI)
    assume u: "used ((aged ^^ Suc k) e)"
    then have f: "unat (e_ctime (aged ?f)) = unat (e_ctime ?f) + 1" "used ?f" using s(2) by simp_all
    then show "used e" "unat (e_ctime ((aged ^^ Suc k) e)) = unat (e_ctime e) + Suc k" using Suc f by simp_all
    assume p: "e_state e = ETHARP_STATE_PENDING"
    have "e_state ?f = ETHARP_STATE_PENDING" using p Suc f(2) by (cases k) simp_all
    then show "e_state ((aged ^^ Suc k) e) = ETHARP_STATE_PENDING" "unat (e_ctime ((aged ^^ Suc k) e)) < 5"
      using s(3) u by simp_all
  qed (use s(1) in simp)
qed simp

lemma tmr_times_ages:
  "arp_inv ext a \<Longrightarrow> all_nif_ok netifs \<Longrightarrow> \<exists>a'. tmr_times k netifs a = Inr a' \<and> arp_inv ext a' \<and> arp_table a' = map (aged ^^ k) (arp_table a)"
proof (induction k arbitrary: a)
  case (Suc k)
  obtain a1 where a1: "etharp_tmr netifs a = Inr a1" "arp_inv ext a1" "arp_table a1 = map aged (arp_table a)"
    using tmr_ages [OF Suc.prems] by blast
  then show ?case using Suc.IH [OF a1(2) Suc.prems(2)] by (auto simp: funpow_swap1)
qed simp

section \<open>Searching\<close>

lemma find_used:
  assumes inv: "arp_inv ext a" and i: "i < ARP_TABLE_SIZE" "used (arp_table a ! i)" and k: "e_ipaddr (arp_table a ! i) = ip" "e_netif (arp_table a ! i) = Some n"
  shows "etharp_find_entry (Some ip) flags (Some n) a = Inr (Inr i, a)"
proof -
  have sp: "case find_loop (Some ip) (Some n) 0 (arp_table a) no_cands of
      Inl j \<Rightarrow> j < ARP_TABLE_SIZE \<and> used (arp_table a ! j) \<and> entry_matches (Some ip) (Some n) (arp_table a ! j)
    | Inr c' \<Rightarrow> cands_ok (arp_table a) ARP_TABLE_SIZE c' \<and>
        (\<forall>k < ARP_TABLE_SIZE. used (arp_table a ! k) \<longrightarrow> \<not> entry_matches (Some ip) (Some n) (arp_table a ! k))"
    by (rule find_loop_spec) (use no_cands_ok arp_invD(5) [OF inv] in simp_all)
  show ?thesis
  proof (cases "find_loop (Some ip) (Some n) 0 (arp_table a) no_cands")
    case (Inl j)
    then have "j = i" using sp keyedD(4) [OF used_keyed [OF inv i k], of j] by (auto simp: entry_matches_def)
    then show ?thesis using Inl by (simp add: etharp_find_entry_def)
  next
    case (Inr c)
    then show ?thesis using sp i k by (auto simp: entry_matches_def)
  qed
qed

lemma find_new:
  assumes inv: "arp_inv ext a"
    and new: "\<forall>j < ARP_TABLE_SIZE. used (arp_table a ! j) \<longrightarrow> \<not> (e_ipaddr (arp_table a ! j) = ip \<and> e_netif (arp_table a ! j) = Some n)"
  shows "\<exists>i h x. etharp_find_entry (Some ip) 1 (Some n) a = Inr (Inr i, a\<lparr>l_heap := h, arp_table := (arp_table a)[i := x]\<rparr>) \<and>
    victim (arp_table a) i \<and> \<not> used x \<and> e_q x = None \<and> e_ipaddr x = ip \<and> e_netif x = Some n \<and>
    found ip n a i (a\<lparr>l_heap := h, arp_table := (arp_table a)[i := x]\<rparr>) \<and>
    arp_inv ext (a\<lparr>l_heap := h, arp_table := (arp_table a)[i := x]\<rparr>)"
proof -
  have "etharp_find_entry (Some ip) 1 (Some n) a \<noteq> Inr (Inl ERR_MEM, a)"
  proof
    assume e: "etharp_find_entry (Some ip) 1 (Some n) a = Inr (Inl ERR_MEM, a)"
    have sp: "case find_loop (Some ip) (Some n) 0 (arp_table a) no_cands of
        Inl j \<Rightarrow> j < ARP_TABLE_SIZE \<and> used (arp_table a ! j) \<and> entry_matches (Some ip) (Some n) (arp_table a ! j)
      | Inr c' \<Rightarrow> cands_ok (arp_table a) ARP_TABLE_SIZE c' \<and>
          (\<forall>k < ARP_TABLE_SIZE. used (arp_table a ! k) \<longrightarrow> \<not> entry_matches (Some ip) (Some n) (arp_table a ! k))"
      by (rule find_loop_spec) (use no_cands_ok arp_invD(5) [OF inv] in simp_all)
    show False
    proof (cases "find_loop (Some ip) (Some n) 0 (arp_table a) no_cands")
      case (Inl j)
      then show ?thesis using e by (simp add: etharp_find_entry_def)
    next
      case (Inr c)
      then have "cands_ok (arp_table a) ARP_TABLE_SIZE c" using sp by simp
      then obtain i a1 where "choose_entry c a = Inr (Some i, a1)" using choose_entry_runs [OF inv] by blast
      then show ?thesis using e Inr by (auto simp: etharp_find_entry_def Let_def split: if_splits)
    qed
  qed
  then obtain i a' where f: "etharp_find_entry (Some ip) 1 (Some n) a = Inr (Inr i, a')" "found ip n a i a'" "arp_inv ext a'"
      "used (arp_table a' ! i) \<or> victim (arp_table a) i"
    using find_entry_runs [OF inv, of ip 1 n] by blast
  have i: "i < ARP_TABLE_SIZE" using f(2) by (simp add: found_def)
  then obtain h x where x: "a' = a\<lparr>l_heap := h, arp_table := (arp_table a)[i := x]\<rparr>" "\<not> used x" "e_q x = None" "e_ipaddr x = ip" "e_netif x = Some n"
  proof -
    have "\<not> (a' = a \<and> used (arp_table a ! i) \<and> e_ipaddr (arp_table a ! i) = ip \<and> e_netif (arp_table a ! i) = Some n)"
      using new i by blast
    then show ?thesis using f(2) that unfolding found_def by metis
  qed
  have "victim (arp_table a) i" using f(4) x i arp_invD(5) [OF inv] by simp
  then show ?thesis using f x by blast
qed

lemma six_bytes: "length xs = 6 \<Longrightarrow> \<exists>a b c d e f. xs = [a, b, c, d, e, f]"
  by (auto simp: length_Suc_conv numeral_eq_Suc)

lemma etharp_hdr_fields:
  assumes "length sha = 6" and "length tha = 6"
  shows "ld16 (etharp_hdr opcode sha sip tha tip) 0 = lwip_htons 1" "etharp_hdr opcode sha sip tha tip ! 4 = 6"
    "etharp_hdr opcode sha sip tha tip ! 5 = 4" "ld16 (etharp_hdr opcode sha sip tha tip) 2 = lwip_htons ETHTYPE_IP"
    "ld16 (etharp_hdr opcode sha sip tha tip) 6 = lwip_htons opcode" "ld32 (etharp_hdr opcode sha sip tha tip) 14 = sip"
    "ld32 (etharp_hdr opcode sha sip tha tip) 24 = tip" "ld_bytes (etharp_hdr opcode sha sip tha tip) 8 6 = sha"
proof -
  obtain a b c d e f where s: "sha = [a, b, c, d, e, f]" using six_bytes [OF assms(1)] by blast
  obtain a' b' c' d' e' f' where t: "tha = [a', b', c', d', e', f']" using six_bytes [OF assms(2)] by blast
  let ?h = "etharp_hdr opcode sha sip tha tip"
  have h: "?h = [ucast (lwip_htons 1), ucast (drop_bit 8 (lwip_htons 1)), ucast (lwip_htons ETHTYPE_IP), ucast (drop_bit 8 (lwip_htons ETHTYPE_IP)), 6, 4,
      ucast (lwip_htons opcode), ucast (drop_bit 8 (lwip_htons opcode)), a, b, c, d, e, f,
      ucast sip, ucast (drop_bit 8 sip), ucast (drop_bit 16 sip), ucast (drop_bit 24 sip), a', b', c', d', e', f',
      ucast tip, ucast (drop_bit 8 tip), ucast (drop_bit 16 tip), ucast (drop_bit 24 tip)]"
    by (simp add: etharp_hdr_def s t bytes16_def bytes32_def)
  show "ld16 ?h 0 = lwip_htons 1" "?h ! 4 = 6" "?h ! 5 = 4" "ld16 ?h 2 = lwip_htons ETHTYPE_IP" "ld16 ?h 6 = lwip_htons opcode" "ld32 ?h 14 = sip"
      "ld32 ?h 24 = tip" "ld_bytes ?h 8 6 = sha"
    unfolding h by (simp_all add: ld16_def ld32_def ld_bytes_def s le16_bytes16 le32_bytes32)
qed

section \<open>Properties\<close>

text \<open>
  C30: Everything \<open>etharp.c\<close> does from a state that satisfies the invariant succeeds (no failed assertion, no
  released packet is used) and keeps the invariant: at most one used entry for a pair of address and
  interface, only an entry that is being resolved holds a packet, a resolved entry has an Ethernet address, and
  the reference counts of all packets are exact, with one reference for every waiting packet. This holds for the
  timer, for clearing an interface, for sending a packet that can be kept and for a received ARP packet, which
  is consumed.
\<close>

theorem arp_operations_keep:
  assumes inv: "arp_inv ext a" and hw: "all_nif_ok netifs"
  shows "(\<exists>a'. etharp_tmr netifs a = Inr a' \<and> arp_inv ext a') \<and>
    (\<exists>a'. etharp_cleanup_netif n a = Inr a' \<and> arp_inv ext a' \<and> (\<forall>i < ARP_TABLE_SIZE. used (arp_table a' ! i) \<longrightarrow> e_netif (arp_table a' ! i) \<noteq> Some n)) \<and>
    (0 < ext q \<longrightarrow> packet_ok (l_heap a) q \<longrightarrow> (\<exists>r a'. etharp_output netifs n q ip a = Inr (r, a') \<and> arp_inv ext a')) \<and>
    (0 < ext p \<longrightarrow> readable (l_heap a) p \<longrightarrow> (\<exists>a'. etharp_input netifs p n a = Inr a' \<and> arp_inv (ext(p := ext p - 1)) a'))"
proof (intro conjI impI)
  show "\<exists>a'. etharp_tmr netifs a = Inr a' \<and> arp_inv ext a'" by (rule tmr_keeps [OF inv hw])
  show "\<exists>a'. etharp_cleanup_netif n a = Inr a' \<and> arp_inv ext a' \<and> (\<forall>i < ARP_TABLE_SIZE. used (arp_table a' ! i) \<longrightarrow> e_netif (arp_table a' ! i) \<noteq> Some n)"
    by (rule cleanup_keeps [OF inv])
  show "\<exists>r a'. etharp_output netifs n q ip a = Inr (r, a') \<and> arp_inv ext a'" if "0 < ext q" "packet_ok (l_heap a) q"
    by (rule output_runs [OF inv hw that])
  show "\<exists>a'. etharp_input netifs p n a = Inr a' \<and> arp_inv (ext(p := ext p - 1)) a'" if "0 < ext p" "readable (l_heap a) p"
    by (rule input_runs [OF inv hw that])
qed

text \<open>
  C31: A reply delivers the packet that waits for it: when a pending entry has a packet, learning the Ethernet
  address sends exactly that packet, with a header addressed to the learned address, gives up the reference of the
  table and makes the entry resolved; no other entry changes.
\<close>

theorem arp_reply_delivers:
  assumes inv: "arp_inv ext a" and hw: "all_nif_ok netifs" and i: "i < ARP_TABLE_SIZE"
    and e: "e_state (arp_table a ! i) = ETHARP_STATE_PENDING" "e_ipaddr (arp_table a ! i) = ip" "e_netif (arp_table a ! i) = Some n"
      "e_q (arp_table a ! i) = Some p"
    and uni: "\<not> non_unicast netifs n ip" and l: "6 \<le> length addr"
    and c: "chain_at (l_heap a) p = Inr (b # c)" "has_room b"
  shows "\<exists>a'. etharp_update_arp_entry netifs n ip addr flags a = Inr (ERR_OK, a') \<and> arp_inv ext a' \<and>
    l_out a' = l_out a @ [(n, eth_hdr_bytes addr (nif_hwaddr (netifs n)) ETHTYPE_IP @ chain_bytes (b # c))] \<and>
    arp_table a' = (arp_table a)[i := resolved addr n (arp_table a ! i)]"
proof -
  let ?x = "resolved addr n (arp_table a ! i)"
  let ?a2 = "a\<lparr>arp_table := (arp_table a)[i := ?x]\<rparr>"
  have u: "used (arp_table a ! i)" using e(1) by simp
  have li: "i < length (arp_table a)" using i arp_invD(5) [OF inv] by simp
  have hl: "length (nif_hwaddr (netifs n)) = 6" using all_nif_okD [OF hw, of n] by (simp add: nif_ok_def)
  have inv2: "arp_inv (ext(p := ext p + 1)) ?a2"
    using take_entry [OF inv used_keyed [OF inv i u e(2,3)], of ?x p] e resolved_ok [OF l] by simp
  note s = send_and_free [where ext = ext and p = p and netifs = netifs and n = n and src = "nif_hwaddr (netifs n)" and dst = addr and ty = ETHTYPE_IP,
      OF inv2 all_nif_okD [OF hw]]
  obtain r h out h' where 3: "ethernet_output netifs n p (nif_hwaddr (netifs n)) addr ETHTYPE_IP ?a2 = Inr (r, ?a2\<lparr>l_heap := h, l_out := out\<rparr>)"
      "stack_free p (?a2\<lparr>l_heap := h, l_out := out\<rparr>) = Inr (?a2\<lparr>l_heap := h', l_out := out\<rparr>)" "arp_inv ext (?a2\<lparr>l_heap := h', l_out := out\<rparr>)"
    using s by blast
  have p: "0 < all_refs (ext(p := ext p + 1)) (arp_table ?a2) p" by (simp add: all_refs_def)
  obtain nd where nd: "node_at (l_heap a) p = Some nd" using ext_live [OF arp_invD(3) [OF inv2] p] by (auto simp: live_def)
  have out: "out = l_out a @ [(n, eth_hdr_bytes addr (nif_hwaddr (netifs n)) ETHTYPE_IP @ chain_bytes (b # c))]"
  proof -
    obtain b' where "ethernet_output netifs n p (nif_hwaddr (netifs n)) addr ETHTYPE_IP ?a2 =
        Inr (nif_linkoutput (netifs n) (eth_hdr_bytes addr (nif_hwaddr (netifs n)) ETHTYPE_IP @ chain_bytes (b # c)),
             ?a2\<lparr>l_heap := (l_heap ?a2)[p := Some (nd\<lparr>pn_buf := b'\<rparr>)],
                 l_out := l_out ?a2 @ [(n, eth_hdr_bytes addr (nif_hwaddr (netifs n)) ETHTYPE_IP @ chain_bytes (b # c))]\<rparr>)"
      using ethernet_output_frame [OF arp_invD(3) [OF inv2], of p nd b c addr "nif_hwaddr (netifs n)" netifs n ETHTYPE_IP] nd c l hl by auto
    then have "?a2\<lparr>l_heap := h, l_out := out\<rparr> = ?a2\<lparr>l_heap := (l_heap ?a2)[p := Some (nd\<lparr>pn_buf := b'\<rparr>)],
                 l_out := l_out ?a2 @ [(n, eth_hdr_bytes addr (nif_hwaddr (netifs n)) ETHTYPE_IP @ chain_bytes (b # c))]\<rparr>"
      using 3(1) by simp
    from arg_cong [OF this, of l_out] show ?thesis by simp
  qed
  have "etharp_update_arp_entry netifs n ip addr flags a =
      bindR (ethernet_output netifs n p (nif_hwaddr (netifs n)) addr ETHTYPE_IP ?a2) (\<lambda>(err, a). bindR (stack_free p a) (\<lambda>a. Inr (ERR_OK, a)))"
    using uni find_used [OF inv i u e(2,3)] hl li e(4) by (simp add: etharp_update_arp_entry_def upd_entry_def resolved_def)
  then show ?thesis using 3 out by simp
qed


text \<open>
  C32: A packet for an unknown address is not lost and the question goes out: querying an address the table
  does not have succeeds when there is memory for the request, broadcasts exactly one ARP request for the address,
  and leaves a pending entry for it that holds a packet with the bytes of the one that was given.
\<close>

theorem arp_query_queues:
  assumes inv: "arp_inv ext a" and hw: "all_nif_ok netifs" and uni: "\<not> non_unicast netifs n ip"
    and new: "\<forall>j < ARP_TABLE_SIZE. used (arp_table a ! j) \<longrightarrow> \<not> (e_ipaddr (arp_table a ! j) = ip \<and> e_netif (arp_table a ! j) = Some n)"
    and mem: "src_heap (l_src a) 44 \<noteq> None" and q: "0 < ext q"
    and c: "chain_at (l_heap a) q = Inr c" "needs_copy c = Inr False" "rf (l_heap a) q < 255"
  shows "\<exists>a' i p c'. etharp_query netifs n ip (Some q) a = Inr (ERR_OK, a') \<and> arp_inv ext a' \<and>
    l_out a' = l_out a @ [(n, arp_frame ethbroadcast (nif_hwaddr (netifs n)) ARP_REQUEST (nif_hwaddr (netifs n)) (nif_addr (netifs n)) ethzero ip)] \<and>
    i < ARP_TABLE_SIZE \<and> e_state (arp_table a' ! i) = ETHARP_STATE_PENDING \<and> e_ipaddr (arp_table a' ! i) = ip \<and> e_netif (arp_table a' ! i) = Some n \<and>
    e_q (arp_table a' ! i) = Some p \<and> chain_at (l_heap a') p = Inr c' \<and> chain_bytes c' = chain_bytes c"
proof -
  obtain i h x where f: "etharp_find_entry (Some ip) 1 (Some n) a = Inr (Inr i, a\<lparr>l_heap := h, arp_table := (arp_table a)[i := x]\<rparr>)"
      "victim (arp_table a) i" "\<not> used x" "e_q x = None" "e_ipaddr x = ip" "e_netif x = Some n"
      "found ip n a i (a\<lparr>l_heap := h, arp_table := (arp_table a)[i := x]\<rparr>)" "arp_inv ext (a\<lparr>l_heap := h, arp_table := (arp_table a)[i := x]\<rparr>)"
    using find_new [OF inv new] by blast
  have i: "i < ARP_TABLE_SIZE" "i < length (arp_table a)" using f(2) arp_invD(5) [OF inv] by (simp_all add: victim_def)
  define y where "y = x\<lparr>e_state := ETHARP_STATE_PENDING, e_netif := Some n\<rparr>"
  let ?a2 = "a\<lparr>l_heap := h, arp_table := (arp_table a)[i := y]\<rparr>"
  have y: "e_state y = ETHARP_STATE_PENDING" "e_q y = None" "e_ipaddr y = ip" "e_netif y = Some n" using f(4,5) by (simp_all add: y_def)
  have inv2: "arp_inv ext ?a2"
    using set_entry [OF f(8) found_keyed(1) [OF inv f(7)], of y] y i f(4) by (simp add: entry_ok_def is_stable_def)
  have hl: "length (nif_hwaddr (netifs n)) = 6" using all_nif_okD [OF hw, of n] by (simp add: nif_ok_def)
  let ?fr = "(n, arp_frame ethbroadcast (nif_hwaddr (netifs n)) ARP_REQUEST (nif_hwaddr (netifs n)) (nif_addr (netifs n)) ethzero ip)"
  let ?a3 = "?a2\<lparr>l_heap := h @ [None], l_out := l_out a @ [?fr]\<rparr>"
  have req: "etharp_request netifs n ip ?a2 = Inr (0, ?a3)"
    using etharp_raw_exact [where netifs = netifs and n = n, OF arp_invD(3,4) [OF inv2] hl, of "nif_hwaddr (netifs n)" ethbroadcast "nif_hwaddr (netifs n)" ethzero "nif_addr (netifs n)" ip ARP_REQUEST]
      mem hl by (simp add: etharp_request_def etharp_request_dst_def ethbroadcast_def ethzero_def)
  have "refs_ok (h @ [None]) (all_refs ext (arp_table ?a2))" using arp_invD(3) [OF inv2] by simp
  from arp_inv_heap [OF inv2, OF this, of "l_out a @ [?fr]"] have inv3: "arp_inv ext ?a3" .
  have k: "kept (l_heap a) (h @ [None])" using find_entry_kept [OF inv f(1)] kept_trans [OF _ kept_snoc] by auto
  have "all_refs ext (arp_table ?a2) = all_refs ext ((arp_table a)[i := x])"
    using all_refs_same [of i "(arp_table a)[i := x]" y ext] i y(2) f(4) by simp
  then have le: "all_refs ext (arp_table ?a3) q \<le> all_refs ext (arp_table a) q" using q_refs_found [OF inv f(7), of q] by simp
  have q': "0 < all_refs ext (arp_table ?a3) q" using q by (simp add: all_refs_def)
  obtain c3 where c3: "chain_at (l_heap ?a3) q = Inr c3" using chain_at_total [OF arp_invD(3) [OF inv3] ext_live [OF arp_invD(3) [OF inv3] q']] by blast
  have "chain_at (h @ [None]) q = Inr c3" using c3 by simp
  then have s: "list_all2 same_buf c c3" using kept_chain_loop [OF _ k] c(1) unfolding chain_at_def by blast
  have "rf (h @ [None]) q \<le> rf (l_heap a) q" using kept_rf [OF k arp_invD(3) [OF inv], of _ q] arp_invD(3) [OF inv3] le by simp
  then have kc: "keepable c3 (rf (l_heap ?a3) q)" "needs_copy c3 = Inr False" using c same_buf_needs_copy [OF s] by (simp_all add: keepable_def)
  obtain p h4 c4 where t: "take_over q ?a3 = Inr (Some p, ?a3\<lparr>l_heap := h4\<rparr>)" "refs_ok h4 ((all_refs ext (arp_table ?a3))(p := all_refs ext (arp_table ?a3) p + 1))"
      "chain_at h4 p = Inr c4" "chain_bytes c4 = chain_bytes c3"
  proof -
    have "take_over q ?a3 \<noteq> Inr (None, ?a3)" using c3 kc(2) by (auto simp: take_over_def bindR_Inr_iff)
    then show ?thesis using take_over_runs [OF arp_invD(3,4) [OF inv3] q' c3 kc(1)] that by blast
  qed
  let ?z = "y\<lparr>e_q := Some p\<rparr>"
  let ?a5 = "?a3\<lparr>l_heap := h4, arp_table := (arp_table a)[i := ?z]\<rparr>"
  have e: "e_state (arp_table ?a3 ! i) = ETHARP_STATE_PENDING" using y(1) i by simp
  have "queue_packet i q ?a3 = Inr (ERR_OK, ?a5)" using t(1) i y(2) by (simp add: queue_packet_def upd_entry_def)
  then have run: "etharp_query netifs n ip (Some q) a = Inr (ERR_OK, ?a5)"
    using uni f(1,3) i req y(1) by (simp add: etharp_query_def upd_entry_def y_def [symmetric])
  obtain r a' where a': "queue_packet i q ?a3 = Inr (r, a')" "arp_inv ext a'"
    using queue_keeps [OF inv3 i(1) e q] c3 kc(1) by (auto simp: packet_ok_def)
  have "arp_inv ext ?a5" using a' \<open>queue_packet i q ?a3 = Inr (ERR_OK, ?a5)\<close> by simp
  moreover have "chain_bytes c4 = chain_bytes c" using t(4) same_buf_bytes [OF s] by simp
  ultimately show ?thesis using run i y t(3)
    by (intro exI [of _ ?a5] exI [of _ i] exI [of _ p] exI [of _ c4]) simp
qed

text \<open>
  C33: A request for the address of the interface is answered: for a received ARP request (its 28 bytes are those
  of a request that asks for the address of the interface), the last frame sent is the ARP reply to the asking host,
  with the Ethernet address of the interface, and the received packet is released.
\<close>

theorem arp_request_answered:
  assumes inv: "arp_inv ext a" and hw: "all_nif_ok netifs" and p: "0 < ext p"
    and nd: "node_at (l_heap a) p = Some nd" "ld_bytes (pf_mem (pn_buf nd)) (pf_off (pn_buf nd)) 28 = etharp_hdr ARP_REQUEST sha sip tha (nif_addr (netifs n))"
    and l: "length sha = 6" "length tha = 6" and addr: "\<not> ip4_addr_isany (nif_addr (netifs n))"
    and mem: "src_heap (l_src a) 44 \<noteq> None"
  shows "\<exists>a'. etharp_input netifs p n a = Inr a' \<and> arp_inv (ext(p := ext p - 1)) a' \<and> l_out a' \<noteq> [] \<and>
    last (l_out a') = (n, arp_frame sha (nif_hwaddr (netifs n)) ARP_REPLY (nif_hwaddr (netifs n)) (nif_addr (netifs n)) sha sip)"
proof -
  let ?hdr = "etharp_hdr ARP_REQUEST sha sip tha (nif_addr (netifs n))"
  have lh: "length ?hdr = 28" using l by (intro length_etharp_hdr) simp_all
  have fields: "ld16 ?hdr 0 = lwip_htons 1" "?hdr ! 4 = 6" "?hdr ! 5 = 4" "ld16 ?hdr 2 = lwip_htons ETHTYPE_IP" "ld16 ?hdr 6 = lwip_htons ARP_REQUEST"
      "ld32 ?hdr 14 = sip" "ld32 ?hdr 24 = nif_addr (netifs n)" "ld_bytes ?hdr 8 6 = sha"
    using etharp_hdr_fields [OF l] by simp_all
  have hl: "length (nif_hwaddr (netifs n)) = 6" using all_nif_okD [OF hw, of n] by (simp add: nif_ok_def)
  obtain r a1 where 1: "etharp_update_arp_entry netifs n sip sha 1 a = Inr (r, a1)" "arp_inv ext a1" "l_src a1 = l_src a"
    using update_keeps [where netifs = netifs and n = n and addr = sha and ip = sip and flags = 1, OF inv all_nif_okD [OF hw]] l by auto
  let ?fr = "(n, arp_frame sha (nif_hwaddr (netifs n)) ARP_REPLY (nif_hwaddr (netifs n)) (nif_addr (netifs n)) sha sip)"
  let ?a2 = "a1\<lparr>l_heap := l_heap a1 @ [None], l_out := l_out a1 @ [?fr]\<rparr>"
  have raw: "etharp_raw netifs n (nif_hwaddr (netifs n)) sha (nif_hwaddr (netifs n)) (nif_addr (netifs n)) sha sip ARP_REPLY a1 = Inr (0, ?a2)"
    using etharp_raw_exact [where netifs = netifs and n = n, OF arp_invD(3,4) [OF 1(2)] hl, of "nif_hwaddr (netifs n)" sha "nif_hwaddr (netifs n)" sha "nif_addr (netifs n)" sip ARP_REPLY]
      mem hl l 1(3) by simp
  have inv2: "arp_inv ext ?a2" using arp_inv_heap [OF 1(2), of "l_heap a1 @ [None]" ext "l_out a1 @ [?fr]"] arp_invD(3) [OF 1(2)] by simp
  have "etharp_input netifs p n a = stack_free p ?a2"
    using input_eq [where netifs = netifs and n = n and for_us = True and hdr = ?hdr, OF nd(1) lh nd(2)] fields addr 1(1) raw by simp
  moreover obtain h where "stack_free p ?a2 = Inr (?a2\<lparr>l_heap := h\<rparr>)"
    using free_keeps [OF arp_invD(3) [OF inv2], of p] p by (auto simp: all_refs_def)
  moreover have "\<exists>a'. stack_free p ?a2 = Inr a' \<and> arp_inv (ext(p := ext p - 1)) a'" using give_back [OF inv2 p] .
  ultimately show ?thesis by auto
qed

text \<open>
  C34: A new address always gets an entry, at the least cost: the search with \<open>ETHARP_FLAG_TRY_HARD\<close>
  for an address the table does not have never fails; it takes an unused entry when there is one, else gives up the
  oldest resolved entry, else the oldest pending entry without a packet, else the oldest with one (\<open>victim\<close>); no
  other entry changes.
\<close>

theorem arp_evicts_least:
  assumes inv: "arp_inv ext a"
    and new: "\<forall>j < ARP_TABLE_SIZE. used (arp_table a ! j) \<longrightarrow> \<not> (e_ipaddr (arp_table a ! j) = ip \<and> e_netif (arp_table a ! j) = Some n)"
  shows "\<exists>i a'. etharp_find_entry (Some ip) ETHARP_FLAG_TRY_HARD (Some n) a = Inr (Inr i, a') \<and> victim (arp_table a) i \<and> arp_inv ext a' \<and>
    \<not> used (arp_table a' ! i) \<and> e_ipaddr (arp_table a' ! i) = ip \<and> e_netif (arp_table a' ! i) = Some n \<and>
    (\<forall>j < ARP_TABLE_SIZE. j \<noteq> i \<longrightarrow> arp_table a' ! j = arp_table a ! j)"
proof -
  obtain i h x where f: "etharp_find_entry (Some ip) 1 (Some n) a = Inr (Inr i, a\<lparr>l_heap := h, arp_table := (arp_table a)[i := x]\<rparr>)"
      "victim (arp_table a) i" "\<not> used x" "e_ipaddr x = ip" "e_netif x = Some n" "arp_inv ext (a\<lparr>l_heap := h, arp_table := (arp_table a)[i := x]\<rparr>)"
    using find_new [OF inv new] by blast
  have "i < length (arp_table a)" using f(2) arp_invD(5) [OF inv] by (simp add: victim_def)
  then show ?thesis using f
    by (intro exI [of _ i] exI [of _ "a\<lparr>l_heap := h, arp_table := (arp_table a)[i := x]\<rparr>"]) simp
qed

text \<open>
  C35: Nothing stays in the table for ever: the timer ages every entry by one, the age of a used entry stays
  below 300 (so the 16-bit counter does not wrap), 300 turns of the timer without traffic release every entry, and 5
  turns release every entry that was pending. With the timer's period of one second the last is 5 seconds, while the
  comment at \<open>ARP_MAXPENDING\<close> in \<open>etharp.c\<close> says 10.
\<close>

theorem arp_entries_expire:
  assumes inv: "arp_inv ext a" and hw: "all_nif_ok netifs" and y: "\<forall>e \<in> set (arp_table a). young e"
  shows "\<exists>a'. tmr_times k netifs a = Inr a' \<and> arp_inv ext a' \<and> (\<forall>e \<in> set (arp_table a'). young e) \<and>
    (\<forall>i < ARP_TABLE_SIZE. used (arp_table a' ! i) \<longrightarrow> unat (e_ctime (arp_table a' ! i)) = unat (e_ctime (arp_table a ! i)) + k) \<and>
    (300 \<le> k \<longrightarrow> (\<forall>i < ARP_TABLE_SIZE. \<not> used (arp_table a' ! i))) \<and>
    (5 \<le> k \<longrightarrow> (\<forall>i < ARP_TABLE_SIZE. e_state (arp_table a ! i) = ETHARP_STATE_PENDING \<longrightarrow> \<not> used (arp_table a' ! i)))"
proof -
  obtain a' where a': "tmr_times k netifs a = Inr a'" "arp_inv ext a'" "arp_table a' = map (aged ^^ k) (arp_table a)"
    using tmr_times_ages [OF inv hw] by blast
  note len = arp_invD(5) [OF inv]
  have p: "young (arp_table a' ! i)" "used (arp_table a' ! i) \<Longrightarrow> unat (e_ctime (arp_table a' ! i)) = unat (e_ctime (arp_table a ! i)) + k"
      "used (arp_table a' ! i) \<Longrightarrow> e_state (arp_table a ! i) = ETHARP_STATE_PENDING \<Longrightarrow> 0 < k \<Longrightarrow> unat (e_ctime (arp_table a' ! i)) < 5"
    if "i < ARP_TABLE_SIZE" for i
    using aged_pow [of "arp_table a ! i" k] y that len by (auto simp: a'(3))
  have y': "\<forall>e \<in> set (arp_table a'). young e" using p(1) arp_invD(5) [OF a'(2)] by (auto simp: in_set_conv_nth)
  have "\<not> used (arp_table a' ! i)" if "300 \<le> k" "i < ARP_TABLE_SIZE" for i
    using p(1,2) [OF that(2)] that(1) by (auto simp: young_def)
  moreover have "\<not> used (arp_table a' ! i)" if "5 \<le> k" "i < ARP_TABLE_SIZE" "e_state (arp_table a ! i) = ETHARP_STATE_PENDING" for i
    using p(2,3) [OF that(2)] that(1,3) by auto
  ultimately show ?thesis using a'(1,2) y' p(2) by blast
qed

section \<open>Concrete runs\<close>

definition demo_nif :: netif where
  "demo_nif = \<lparr>nif_flags = 0x0A, nif_addr = 0x0102A8C0, nif_netmask = 0x00FFFFFF, nif_gw = 0, nif_hwaddr = [2, 0, 0, 0, 0, 1], nif_linkoutput = (\<lambda>_. 0)\<rparr>"

definition demo_pbuf :: "u8 list \<Rightarrow> pbuf" where
  "demo_pbuf bs = \<lparr>pf_mem = replicate 16 0 @ bs, pf_off = 16, pf_tot_len = of_nat (length bs), pf_len = of_nat (length bs),
     pf_type_internal = 0x80, pf_flags = 0, pf_ref = 1, pf_if_idx = 0\<rparr>"

definition demo_arp :: "u8 list \<Rightarrow> etharp_entry list \<Rightarrow> arp" where
  "demo_arp bs t = \<lparr>l_heap = [Some \<lparr>pn_buf = demo_pbuf bs, pn_next = None\<rparr>],
     l_src = \<lparr>src_pool = [], src_structs = 0, src_heap = (\<lambda>n. Some (replicate n 0)), pbuf_free_ooseq_pending = False\<rparr>,
     l_out = [], arp_table = t, etharp_cached_entry = 0\<rparr>"

abbreviation one_packet :: "nat \<Rightarrow> nat" where
  "one_packet \<equiv> (\<lambda>_. 0)(0 := 1)"

definition demo_pending :: etharp_entry where
  "demo_pending = \<lparr>e_q = Some 0, e_ipaddr = 0x0202A8C0, e_netif = Some 0, e_ethaddr = ethzero, e_ctime = 0, e_state = ETHARP_STATE_PENDING\<rparr>"

lemma refs_ok_Nil: "refs_ok [] (\<lambda>_. 0)"
  by (simp add: refs_ok_def rc_inv_def rf_def preds_def nx_def live_def node_at_def links_def acyclic_def)

lemma demo_refs: "refs_ok (l_heap (demo_arp bs t)) one_packet"
  using refs_ok_snoc_new [OF refs_ok_Nil, of "demo_pbuf bs"] by (simp add: demo_arp_def demo_pbuf_def good_src_def pbuf_get_allocsrc_def)

lemma demo_nifs: "all_nif_ok (\<lambda>_. demo_nif)"
  by (simp add: all_nif_ok_def nif_ok_def demo_nif_def)

lemma demo_arp_fields [simp]:
  "arp_table (demo_arp bs t) = t" "etharp_cached_entry (demo_arp bs t) = 0" "l_out (demo_arp bs t) = []" "heap_ok (demo_arp bs t)"
  "src_heap (l_src (demo_arp bs t)) 44 \<noteq> None"
  by (simp_all add: demo_arp_def heap_ok_def)

lemma demo_free: "arp_inv one_packet (demo_arp bs (replicate 10 wiped))"
proof -
  have "all_refs one_packet (replicate 10 wiped) = one_packet" by (simp add: all_refs_def q_refs_def entry_ok_wiped fun_eq_iff)
  then show ?thesis using demo_refs by (simp add: arp_inv_def table_ok_def entry_ok_wiped)
qed

lemma demo_waits: "arp_inv (\<lambda>_. 0) (demo_arp bs (demo_pending # replicate 9 wiped))"
proof -
  have "all_refs (\<lambda>_. 0) (demo_pending # replicate 9 wiped) = one_packet"
    by (auto simp: all_refs_def q_refs_def entry_ok_wiped fun_eq_iff demo_pending_def)
  moreover have "table_ok (demo_pending # replicate 9 wiped)"
    by (auto simp: table_ok_def nth_Cons' entry_ok_wiped) (simp add: entry_ok_def demo_pending_def is_stable_def)
  ultimately show ?thesis using demo_refs by (simp add: arp_inv_def)
qed

lemma demo_chain: "chain_at (l_heap (demo_arp bs t)) 0 = Inr [demo_pbuf bs]"
  by (simp add: chain_at_def deref_def node_at_def demo_arp_def)

lemma demo_rf: "rf (l_heap (demo_arp bs t)) 0 = 1"
  by (simp add: rf_def node_at_def demo_arp_def demo_pbuf_def)

lemma demo_no_copy: "needs_copy [demo_pbuf bs] = Inr False"
  by (simp add: demo_pbuf_def)

lemma demo_unicast: "\<not> non_unicast (\<lambda>_. demo_nif) 0 0x0202A8C0"
  by (simp add: non_unicast_def ip4_addr_isany_def ip4_addr_isbroadcast_u32_def ip4_addr_ismulticast_def ip4_addr_netcmp_def demo_nif_def lwip_htonl_def)

theorem arp_operations_keep_witness:
  "(\<exists>a'. etharp_tmr (\<lambda>_. demo_nif) (demo_arp [7, 8, 9] (replicate 10 wiped)) = Inr a' \<and> arp_inv one_packet a') \<and>
   (\<exists>r a'. etharp_output (\<lambda>_. demo_nif) 0 0 0x0202A8C0 (demo_arp [7, 8, 9] (replicate 10 wiped)) = Inr (r, a') \<and> arp_inv one_packet a')"
proof -
  have "packet_ok (l_heap (demo_arp [7, 8, 9] (replicate 10 wiped))) 0"
    using demo_chain demo_no_copy demo_rf by (auto simp: packet_ok_def keepable_def)
  then show ?thesis using arp_operations_keep [where n = 0 and q = 0 and ip = "0x0202A8C0" and p = 0, OF demo_free [of "[7, 8, 9]"] demo_nifs] by simp
qed

theorem arp_reply_delivers_witness:
  "\<exists>a'. etharp_update_arp_entry (\<lambda>_. demo_nif) 0 0x0202A8C0 [2, 0, 0, 0, 0, 2] 2 (demo_arp [7, 8, 9] (demo_pending # replicate 9 wiped)) = Inr (0, a') \<and>
    l_out a' = [(0, [2, 0, 0, 0, 0, 2, 2, 0, 0, 0, 0, 1, 8, 0, 7, 8, 9])]"
proof -
  have r: "has_room (demo_pbuf [7, 8, 9])" by (simp add: has_room_def demo_pbuf_def plen_def)
  have f: "eth_hdr_bytes [2, 0, 0, 0, 0, 2] (nif_hwaddr demo_nif) ETHTYPE_IP @ chain_bytes [demo_pbuf [7, 8, 9]] = [2, 0, 0, 0, 0, 2, 2, 0, 0, 0, 0, 1, 8, 0, 7, 8, 9]"
    by (simp add: eth_hdr_bytes_def demo_nif_def bytes16_def lwip_htons_def seg_bytes_def demo_pbuf_def plen_def ld_bytes_def)
  show ?thesis
    using arp_reply_delivers [OF demo_waits demo_nifs, of 0 "[7, 8, 9]" "0x0202A8C0" 0 0 "[2, 0, 0, 0, 0, 2]" "demo_pbuf [7, 8, 9]" "[]" 2]
      demo_unicast demo_chain r f by (auto simp: demo_pending_def)
qed

theorem arp_query_queues_witness:
  "\<exists>a'. etharp_query (\<lambda>_. demo_nif) 0 0x0202A8C0 (Some 0) (demo_arp [7, 8, 9] (replicate 10 wiped)) = Inr (0, a') \<and> length (l_out a') = 1"
  using arp_query_queues [OF demo_free demo_nifs demo_unicast, of "[7, 8, 9]" 0 "[demo_pbuf [7, 8, 9]]"] demo_chain [of "[7, 8, 9]"] demo_rf [of "[7, 8, 9]"]
    demo_no_copy entry_ok_wiped
  by (auto simp del: needs_copy.simps)

theorem arp_request_answered_witness:
  "\<exists>a'. etharp_input (\<lambda>_. demo_nif) 0 0 (demo_arp (etharp_hdr ARP_REQUEST [2, 0, 0, 0, 0, 2] 0x0202A8C0 ethzero 0x0102A8C0) (replicate 10 wiped)) = Inr a' \<and>
    fst (last (l_out a')) = 0 \<and> take 12 (snd (last (l_out a'))) = [2, 0, 0, 0, 0, 2, 2, 0, 0, 0, 0, 1]"
proof -
  let ?h = "etharp_hdr ARP_REQUEST [2, 0, 0, 0, 0, 2] 0x0202A8C0 ethzero 0x0102A8C0"
  have l: "length ?h = 28" by (rule length_etharp_hdr) (simp_all add: ethzero_def)
  have n: "node_at (l_heap (demo_arp ?h (replicate 10 wiped))) 0 = Some \<lparr>pn_buf = demo_pbuf ?h, pn_next = None\<rparr>"
    by (simp add: demo_arp_def node_at_def)
  have d: "ld_bytes (pf_mem (pn_buf \<lparr>pn_buf = demo_pbuf ?h, pn_next = None\<rparr>)) (pf_off (pn_buf \<lparr>pn_buf = demo_pbuf ?h, pn_next = None\<rparr>)) 28 =
      etharp_hdr ARP_REQUEST [2, 0, 0, 0, 0, 2] 0x0202A8C0 ethzero (nif_addr demo_nif)"
    using l by (simp add: demo_pbuf_def ld_bytes_def demo_nif_def)
  have a: "\<not> ip4_addr_isany (nif_addr demo_nif)" by (simp add: ip4_addr_isany_def demo_nif_def)
  have t: "take 12 (arp_frame [2, 0, 0, 0, 0, 2] (nif_hwaddr demo_nif) ARP_REPLY (nif_hwaddr demo_nif) (nif_addr demo_nif) [2, 0, 0, 0, 0, 2] 0x0202A8C0) =
      [2, 0, 0, 0, 0, 2, 2, 0, 0, 0, 0, 1]"
    by (simp add: arp_frame_def eth_hdr_bytes_def demo_nif_def)
  show ?thesis
    using arp_request_answered [where n = 0, OF demo_free demo_nifs _ n d _ _ a] t by (auto simp: ethzero_def)
qed

theorem arp_evicts_least_witness:
  "\<exists>i a'. etharp_find_entry (Some 0x0302A8C0) 1 (Some 0) (demo_arp [7, 8, 9] (demo_pending # replicate 9 wiped)) = Inr (Inr i, a') \<and>
    victim (demo_pending # replicate 9 wiped) i"
proof -
  have "\<forall>j < ARP_TABLE_SIZE. used (arp_table (demo_arp [7, 8, 9] (demo_pending # replicate 9 wiped)) ! j) \<longrightarrow>
      \<not> (e_ipaddr (arp_table (demo_arp [7, 8, 9] (demo_pending # replicate 9 wiped)) ! j) = 0x0302A8C0 \<and>
        e_netif (arp_table (demo_arp [7, 8, 9] (demo_pending # replicate 9 wiped)) ! j) = Some 0)"
    by (auto simp: nth_Cons' entry_ok_wiped) (simp add: demo_pending_def)
  from arp_evicts_least [OF demo_waits this] show ?thesis by auto
qed

theorem arp_entries_expire_witness:
  "\<exists>a'. tmr_times 5 (\<lambda>_. demo_nif) (demo_arp [7, 8, 9] (demo_pending # replicate 9 wiped)) = Inr a' \<and> \<not> used (arp_table a' ! 0)"
proof -
  have "\<forall>e \<in> set (arp_table (demo_arp [7, 8, 9] (demo_pending # replicate 9 wiped))). young e"
    by (simp add: young_def entry_ok_wiped demo_pending_def)
  from arp_entries_expire [OF demo_waits demo_nifs this, of 5] show ?thesis by (auto simp: demo_pending_def)
qed

end
