(* ===== verification/Ip4.thy ===== *)
theory Ip4
  imports Etharp
begin

text \<open>
  The state the internet and transport layers of the stack share, and \<open>lwip/core/ipv4/ip4.c\<close>: routing and
  output. The options are those of \<open>lwipopts.h\<close>: no forwarding, no reassembly or fragments, no options sent, no
  multicast groups, and checksums of IP headers neither made nor tested. The function \<open>netif->output\<close> is
  \<open>etharp_output\<close>, which \<open>eth_lwip_if_init\<close> stores there.
\<close>

section \<open>State\<close>

text \<open>\<open>ip_data\<close>; the header of the packet is kept by its bytes (empty for \<open>NULL\<close>), which nobody changes meanwhile.\<close>

record ip_globals =
  current_netif :: "nat option"
  current_input_netif :: "nat option"
  current_ip4_header :: "u8 list"
  current_ip_header_tot_len :: u16
  current_iphdr_src :: u32
  current_iphdr_dest :: u32

text \<open>A callback is referred to by a number.\<close>

record udp_pcb =
  up_local_ip :: u32
  up_remote_ip :: u32
  up_netif_idx :: u8
  up_so_options :: u8
  up_tos :: u8
  up_ttl :: u8
  up_flags :: u8
  up_local_port :: u16
  up_remote_port :: u16
  up_recv :: "nat option"

text \<open>
  Interfaces and control blocks are referred to by numbers; \<open>udp_free\<close> are the unused blocks of their pool.
\<close>

record stack = arp +
  ip_data :: ip_globals
  ip_id :: u16
  netif_list :: "nat list"
  netif_default :: "nat option"
  udp_port :: u16
  udp_pcbs :: "nat list"
  udp_mem :: "nat \<Rightarrow> udp_pcb"
  udp_free :: "nat list"

section \<open>Routing\<close>

abbreviation (input) "NETIF_FLAG_UP \<equiv> 0x01 :: u8"
abbreviation (input) "NETIF_FLAG_LINK_UP \<equiv> 0x04 :: u8"

definition netif_is_up :: "netif \<Rightarrow> bool" where
  "netif_is_up n \<longleftrightarrow> nif_flags n AND NETIF_FLAG_UP \<noteq> 0"

definition netif_is_link_up :: "netif \<Rightarrow> bool" where
  "netif_is_link_up n \<longleftrightarrow> nif_flags n AND NETIF_FLAG_LINK_UP \<noteq> 0"

definition netif_get_index :: "nat \<Rightarrow> u8" where
  "netif_get_index n = of_nat (n + 1)"

fun netif_find_index :: "u8 \<Rightarrow> nat list \<Rightarrow> nat option" where
  "netif_find_index idx [] = None"
| "netif_find_index idx (n # ns) = (if idx = netif_get_index n then Some n else netif_find_index idx ns)"

definition netif_get_by_index :: "u8 \<Rightarrow> stack \<Rightarrow> nat option" where
  "netif_get_by_index idx s = (if idx \<noteq> 0 then netif_find_index idx (netif_list s) else None)"

definition ip4_addr_isloopback :: "u32 \<Rightarrow> bool" where
  "ip4_addr_isloopback addr \<longleftrightarrow> addr AND lwip_htonl 0xFF000000 = lwip_htonl 0x7F000000"

fun route_loop :: "(nat \<Rightarrow> netif) \<Rightarrow> u32 \<Rightarrow> nat list \<Rightarrow> nat option" where
  "route_loop netifs dest [] = None"
| "route_loop netifs dest (n # ns) =
     (let ni = netifs n
      in if netif_is_up ni \<and> netif_is_link_up ni \<and> \<not> ip4_addr_isany (nif_addr ni)
         then if ip4_addr_netcmp dest (nif_addr ni) (nif_netmask ni) then Some n
              else if nif_flags ni AND NETIF_FLAG_BROADCAST = 0 \<and> dest = nif_gw ni then Some n
              else route_loop netifs dest ns
         else route_loop netifs dest ns)"

definition ip4_route :: "(nat \<Rightarrow> netif) \<Rightarrow> u32 \<Rightarrow> stack \<Rightarrow> nat option" where
  "ip4_route netifs dest s =
     (case route_loop netifs dest (netif_list s) of
        Some n \<Rightarrow> Some n
      | None \<Rightarrow>
          (case netif_default s of
             None \<Rightarrow> None
           | Some d \<Rightarrow>
               if \<not> netif_is_up (netifs d) \<or> \<not> netif_is_link_up (netifs d) \<or> ip4_addr_isany (nif_addr (netifs d)) \<or> ip4_addr_isloopback dest
               then None else Some d))"

section \<open>Output\<close>

abbreviation (input) "IP_HLEN \<equiv> 20 :: nat"

text \<open>The header: version and length, type of service, total length, identification, offset, TTL, protocol, checksum, addresses.\<close>

definition ip_hdr_bytes :: "u8 \<Rightarrow> u16 \<Rightarrow> u16 \<Rightarrow> u8 \<Rightarrow> u8 \<Rightarrow> u32 \<Rightarrow> u32 \<Rightarrow> u8 list" where
  "ip_hdr_bytes tos len ident ttl proto src dest =
     [0x45, tos] @ bytes16 (lwip_htons len) @ bytes16 (lwip_htons ident) @ bytes16 0 @ [ttl, proto] @ bytes16 0 @ bytes32 src @ bytes32 dest"

text \<open>The addresses are \<open>None\<close> for \<open>NULL\<close>; \<open>LWIP_IP_HDRINCL\<close> is the destination \<open>NULL\<close>.\<close>

definition ip4_output_if_src ::
  "(nat \<Rightarrow> netif) \<Rightarrow> nat \<Rightarrow> u32 option \<Rightarrow> u32 option \<Rightarrow> u8 \<Rightarrow> u8 \<Rightarrow> u8 \<Rightarrow> nat \<Rightarrow> stack \<Rightarrow> stack_error + int \<times> stack" where
  "ip4_output_if_src netifs p src dest ttl tos proto n s =
     bindR (lift_ref (deref (l_heap s) p)) (\<lambda>nd.
       if pf_ref (pn_buf nd) \<noteq> 1 then Inl STACK_ASSERT
       else case dest of
         Some d \<Rightarrow>
           bindR (lift_pbuf (pbuf_add_header (pn_buf nd) IP_HLEN)) (\<lambda>(failed, b).
             if failed \<noteq> 0 then Inr (ERR_BUF, s)
             else if plen b < IP_HLEN then Inl STACK_ASSERT
             else
               let src' = (case src of None \<Rightarrow> 0 | Some a \<Rightarrow> a);
                   b = put_bytes b 0 (ip_hdr_bytes tos (pf_tot_len b) (ip_id s) ttl proto src' d);
                   s = (set_buf p nd b s)\<lparr>ip_id := ip_id s + 1\<rparr>
               in etharp_output netifs n p d s)
       | None \<Rightarrow>
           let b = pn_buf nd; hdr = ld_bytes (pf_mem b) (pf_off b) IP_HLEN
           in if plen b < IP_HLEN then Inr (ERR_BUF, s)
              else if length hdr < IP_HLEN then Inl STACK_OVERREAD
              else etharp_output netifs n p (ld32 hdr 16) s)"

definition ip4_output_if ::
  "(nat \<Rightarrow> netif) \<Rightarrow> nat \<Rightarrow> u32 option \<Rightarrow> u32 option \<Rightarrow> u8 \<Rightarrow> u8 \<Rightarrow> u8 \<Rightarrow> nat \<Rightarrow> stack \<Rightarrow> stack_error + int \<times> stack" where
  "ip4_output_if netifs p src dest ttl tos proto n s =
     (let src_used = (if dest \<noteq> None \<and> (src = None \<or> src = Some 0) then Some (nif_addr (netifs n)) else src)
      in ip4_output_if_src netifs p src_used dest ttl tos proto n s)"

definition ip4_output ::
  "(nat \<Rightarrow> netif) \<Rightarrow> nat \<Rightarrow> u32 option \<Rightarrow> u32 \<Rightarrow> u8 \<Rightarrow> u8 \<Rightarrow> u8 \<Rightarrow> stack \<Rightarrow> stack_error + int \<times> stack" where
  "ip4_output netifs p src dest ttl tos proto s =
     bindR (lift_ref (deref (l_heap s) p)) (\<lambda>nd.
       if pf_ref (pn_buf nd) \<noteq> 1 then Inl STACK_ASSERT
       else case ip4_route netifs dest s of
              None \<Rightarrow> Inr (ERR_RTE, s)
            | Some n \<Rightarrow> ip4_output_if netifs p src (Some dest) ttl tos proto n s)"

end
