(* ===== verification/Icmp.thy ===== *)
theory Icmp
  imports Ip4 InetChksum
begin

text \<open>
  \<open>lwip/core/ipv4/icmp.c\<close>: echo requests are answered in place, in the buffer of the request or, when it
  has no room for the headers below, in a copy; errors are reported with the start of the packet at fault.
\<close>

section \<open>Error messages\<close>

abbreviation (input) "PBUF_IP \<equiv> 34 :: u16"
abbreviation (input) "IP_PROTO_ICMP \<equiv> 1 :: u8"
abbreviation (input) "ICMP_TTL \<equiv> 255 :: u8"
abbreviation (input) "SIZEOF_ICMP_ECHO_HDR \<equiv> 8 :: nat"
abbreviation (input) "ICMP_DEST_UNREACH_DATASIZE \<equiv> 8 :: nat"

text \<open>The message, with its checksum when it is sent; without a route it is dropped.\<close>

definition icmp_response_bytes :: "u8 \<Rightarrow> u8 \<Rightarrow> u16 \<Rightarrow> u8 list \<Rightarrow> u8 list" where
  "icmp_response_bytes type code chksum original = [type, code] @ bytes16 chksum @ [0, 0, 0, 0] @ original"

definition icmp_send_response :: "(nat \<Rightarrow> netif) \<Rightarrow> nat \<Rightarrow> u8 \<Rightarrow> u8 \<Rightarrow> stack \<Rightarrow> stack_error + stack" where
  "icmp_send_response netifs p type code s =
     bindR (alloc_ram PBUF_IP (of_nat (SIZEOF_ICMP_ECHO_HDR + IP_HLEN + ICMP_DEST_UNREACH_DATASIZE)) s) (\<lambda>(q, s).
       case q of
         None \<Rightarrow> Inr s
       | Some q \<Rightarrow>
           bindR (lift_ref (deref (l_heap s) q)) (\<lambda>nq.
           bindR (lift_ref (deref (l_heap s) p)) (\<lambda>np.
             let original = ld_bytes (pf_mem (pn_buf np)) (pf_off (pn_buf np)) (IP_HLEN + ICMP_DEST_UNREACH_DATASIZE); b = pn_buf nq
             in if plen b < SIZEOF_ICMP_ECHO_HDR + IP_HLEN + ICMP_DEST_UNREACH_DATASIZE then Inl STACK_ASSERT
                else if length original < IP_HLEN + ICMP_DEST_UNREACH_DATASIZE then Inl STACK_OVERREAD
                else
                  let iphdr_src = ld32 original 12;
                      b = put_bytes b 0 (icmp_response_bytes type code 0 original)
                  in bindR (case ip4_route netifs iphdr_src s of
                              None \<Rightarrow> Inr (set_buf q nq b s)
                            | Some n \<Rightarrow>
                                let chksum = inet_chksum (odd (pf_off b)) (seg_bytes b);
                                    b = put_bytes b 0 (icmp_response_bytes type code chksum original)
                                in bindR (ip4_output_if netifs q None (Some iphdr_src) ICMP_TTL 0 IP_PROTO_ICMP n (set_buf q nq b s))
                                     (\<lambda>(err, s). Inr s)) (stack_free q))))"

definition icmp_dest_unreach :: "(nat \<Rightarrow> netif) \<Rightarrow> nat \<Rightarrow> u8 \<Rightarrow> stack \<Rightarrow> stack_error + stack" where
  "icmp_dest_unreach netifs p t s = icmp_send_response netifs p 3 t s"

section \<open>Echo\<close>

abbreviation (input) "ICMP_ER \<equiv> 0 :: u8"
abbreviation (input) "ICMP_ECHO \<equiv> 8 :: u8"
abbreviation (input) "PBUF_LINK_HLEN \<equiv> 14 :: nat"

text \<open>
  The buffer to answer in: \<open>Inr\<close> the packet itself or its copy with the header, \<open>Inl\<close> when the copy cannot be made.
  The packet is released when it was copied.
\<close>

definition echo_copy :: "u8 list \<Rightarrow> nat \<Rightarrow> pnode \<Rightarrow> nat \<Rightarrow> stack \<Rightarrow> stack_error + (unit + nat) \<times> stack" where
  "echo_copy hdr hlen nd p s =
     (let alloc_len = pf_tot_len (pn_buf nd) + of_nat hlen
      in if alloc_len < pf_tot_len (pn_buf nd) then Inr (Inl (), s)
         else bindR (alloc_ram PBUF_LINK alloc_len s) (\<lambda>(r, s).
           case r of
             None \<Rightarrow> Inr (Inl (), s)
           | Some r \<Rightarrow>
               bindR (lift_ref (deref (l_heap s) r)) (\<lambda>nr.
                 if plen (pn_buf nr) < hlen + SIZEOF_ICMP_ECHO_HDR then bindR (stack_free r s) (\<lambda>s. Inr (Inl (), s))
                 else
                   case pbuf_remove_header (put_bytes (pn_buf nr) 0 (take hlen hdr)) hlen of (failed, b) \<Rightarrow>
                     if failed \<noteq> 0 then Inl STACK_ASSERT
                     else bindR (lift_ref (chain_at (l_heap s) p)) (\<lambda>c.
                          bindR (lift_pbuf (pbuf_copy [b] c)) (\<lambda>(err, q).
                            let s = set_buf r nr (hd q) s
                            in if err \<noteq> ERR_OK then bindR (stack_free r s) (\<lambda>s. Inr (Inl (), s))
                               else bindR (stack_free p s) (\<lambda>s. Inr (Inr r, s)))))))"

definition echo_buffer :: "u8 list \<Rightarrow> nat \<Rightarrow> nat \<Rightarrow> stack \<Rightarrow> stack_error + (unit + nat) \<times> stack" where
  "echo_buffer hdr hlen p s =
     bindR (lift_ref (deref (l_heap s) p)) (\<lambda>nd.
     bindR (lift_pbuf (pbuf_add_header (pn_buf nd) (hlen + PBUF_LINK_HLEN))) (\<lambda>(failed, b).
       if failed \<noteq> 0 then echo_copy hdr hlen nd p s
       else case pbuf_remove_header b (hlen + PBUF_LINK_HLEN) of (failed, b) \<Rightarrow>
              if failed \<noteq> 0 then Inl STACK_ASSERT else Inr (Inr p, set_buf p nd b s)))"

text \<open>The type changes from 8 to 0, which the checksum (in network order) makes up for.\<close>

definition echo_chksum :: "u16 \<Rightarrow> u16" where
  "echo_chksum chksum =
     (if lwip_htons (0xFFFF - push_bit 8 (ucast ICMP_ECHO)) < chksum
      then chksum + lwip_htons (push_bit 8 (ucast ICMP_ECHO)) + 1
      else chksum + lwip_htons (push_bit 8 (ucast ICMP_ECHO)))"

definition echo_reply :: "(nat \<Rightarrow> netif) \<Rightarrow> u32 \<Rightarrow> nat \<Rightarrow> nat \<Rightarrow> nat \<Rightarrow> stack \<Rightarrow> stack_error + stack" where
  "echo_reply netifs src hlen p n s =
     bindR (lift_ref (deref (l_heap s) p)) (\<lambda>nd.
     bindR (lift_pbuf (pbuf_add_header (pn_buf nd) hlen)) (\<lambda>(failed, b).
       if failed \<noteq> 0 then Inr s
       else
         let chksum = echo_chksum (ld16 (pf_mem b) (pf_off b + hlen + 2));
             b = put_bytes b 12 (bytes32 src);
             b = put_bytes b 16 (bytes32 (current_iphdr_src (ip_data s)));
             b = put_bytes b hlen [ICMP_ER];
             b = put_bytes b (hlen + 2) (bytes16 chksum);
             b = put_bytes b 8 [ICMP_TTL];
             b = put_bytes b 10 [0, 0]
         in bindR (ip4_output_if netifs p (Some src) None ICMP_TTL 0 IP_PROTO_ICMP n (set_buf p nd b s)) (\<lambda>(err, s). Inr s)))"

definition icmp_echo :: "(nat \<Rightarrow> netif) \<Rightarrow> nat \<Rightarrow> nat \<Rightarrow> stack \<Rightarrow> stack_error + stack" where
  "icmp_echo netifs p n s =
     bindR (lift_ref (chain_at (l_heap s) p)) (\<lambda>c.
       let hdr = current_ip4_header (ip_data s); hlen = unat ((hdr ! 0 AND 0x0F) * 4);
           src = current_iphdr_dest (ip_data s)
       in case current_netif (ip_data s) of
            None \<Rightarrow> Inl STACK_ASSERT
          | Some cur \<Rightarrow>
              if ip4_addr_ismulticast src \<or> ip4_addr_isbroadcast_u32 src (netifs cur) \<or>
                 unat (pf_tot_len (hd c)) < SIZEOF_ICMP_ECHO_HDR \<or> inet_chksum_pbuf c \<noteq> 0
              then stack_free p s
              else bindR (echo_buffer hdr hlen p s) (\<lambda>(r, s).
                     case r of
                       Inl _ \<Rightarrow> stack_free p s
                     | Inr p \<Rightarrow> bindR (echo_reply netifs src hlen p n s) (stack_free p)))"

definition icmp_input :: "(nat \<Rightarrow> netif) \<Rightarrow> nat \<Rightarrow> nat \<Rightarrow> stack \<Rightarrow> stack_error + stack" where
  "icmp_input netifs p n s =
     bindR (lift_ref (deref (l_heap s) p)) (\<lambda>nd.
       let hdr = current_ip4_header (ip_data s); b = pn_buf nd
       in if length hdr < 1 then Inl STACK_OVERREAD
          else if unat ((hdr ! 0 AND 0x0F) * 4) < IP_HLEN \<or> plen b < 4 then stack_free p s
          else if length (pf_mem b) \<le> pf_off b then Inl STACK_OVERREAD
          else if pf_mem b ! pf_off b = ICMP_ECHO then icmp_echo netifs p n s
          else stack_free p s)"

end
