(* ===== verification/Udp.thy ===== *)
theory Udp
  imports Icmp
begin

text \<open>
  \<open>lwip/core/udp.c\<close>: control blocks, ports, sending and the delivery of received datagrams. UDP-Lite, address
  reuse, multicast options and checksums are not compiled. The receive callbacks are a parameter; they take the
  packet over.
\<close>

section \<open>Ports and control blocks\<close>

abbreviation (input) "UDP_LOCAL_PORT_RANGE_START \<equiv> 0xC000 :: u16"
abbreviation (input) "UDP_LOCAL_PORT_RANGE_END \<equiv> 0xFFFF :: u16"
abbreviation (input) "UDP_FLAGS_CONNECTED \<equiv> 0x04 :: u8"
abbreviation (input) "IPADDR_BROADCAST \<equiv> 0xFFFFFFFF :: u32"
abbreviation (input) "ERR_USE \<equiv> - 8 :: int"
abbreviation (input) "UDP_HLEN \<equiv> 8 :: nat"
abbreviation (input) "IP_PROTO_UDP \<equiv> 17 :: u8"

definition udp_used :: "stack \<Rightarrow> u16 \<Rightarrow> bool" where
  "udp_used s port \<longleftrightarrow> port \<in> (\<lambda>i. up_local_port (udp_mem s i)) ` set (udp_pcbs s)"

text \<open>\<open>fuel\<close> is the number of collisions that are still allowed.\<close>

fun udp_port_loop :: "nat \<Rightarrow> (u16 \<Rightarrow> bool) \<Rightarrow> u16 \<Rightarrow> u16 \<times> u16" where
  "udp_port_loop 0 taken port =
     (let port = (if port = UDP_LOCAL_PORT_RANGE_END then UDP_LOCAL_PORT_RANGE_START else port + 1)
      in if taken port then (0, port) else (port, port))"
| "udp_port_loop (Suc fuel) taken port =
     (let port = (if port = UDP_LOCAL_PORT_RANGE_END then UDP_LOCAL_PORT_RANGE_START else port + 1)
      in if taken port then udp_port_loop fuel taken port else (port, port))"

definition udp_new_port :: "stack \<Rightarrow> u16 \<times> stack" where
  "udp_new_port s =
     (let (r, port) = udp_port_loop (unat (UDP_LOCAL_PORT_RANGE_END - UDP_LOCAL_PORT_RANGE_START)) (udp_used s) (udp_port s)
      in (r, s\<lparr>udp_port := port\<rparr>))"

definition upd_pcb :: "nat \<Rightarrow> (udp_pcb \<Rightarrow> udp_pcb) \<Rightarrow> stack \<Rightarrow> stack" where
  "upd_pcb i f s = s\<lparr>udp_mem := (udp_mem s)(i := f (udp_mem s i))\<rparr>"

text \<open>A new block is zero except for its TTL.\<close>

definition new_pcb :: udp_pcb where
  "new_pcb = \<lparr>up_local_ip = 0, up_remote_ip = 0, up_netif_idx = 0, up_so_options = 0, up_tos = 0, up_ttl = 255, up_flags = 0,
     up_local_port = 0, up_remote_port = 0, up_recv = None\<rparr>"

definition udp_new :: "stack \<Rightarrow> nat option \<times> stack" where
  "udp_new s =
     (case udp_free s of
        [] \<Rightarrow> (None, s)
      | i # is \<Rightarrow> (Some i, upd_pcb i (\<lambda>_. new_pcb) (s\<lparr>udp_free := is\<rparr>)))"

definition udp_remove :: "nat \<Rightarrow> stack \<Rightarrow> stack" where
  "udp_remove i s = s\<lparr>udp_pcbs := remove1 i (udp_pcbs s), udp_free := i # udp_free s\<rparr>"

text \<open>Another block is bound to the port and to an address that covers this one, or the other way round.\<close>

definition bind_conflict :: "u32 \<Rightarrow> u16 \<Rightarrow> udp_pcb \<Rightarrow> bool" where
  "bind_conflict ipaddr port ipcb \<longleftrightarrow>
     up_local_port ipcb = port \<and> (up_local_ip ipcb = ipaddr \<or> ip4_addr_isany ipaddr \<or> ip4_addr_isany (up_local_ip ipcb))"

definition udp_bind :: "nat \<Rightarrow> u32 option \<Rightarrow> u16 \<Rightarrow> stack \<Rightarrow> int \<times> stack" where
  "udp_bind pcb ipaddr port s =
     (let ipaddr = (case ipaddr of None \<Rightarrow> 0 | Some a \<Rightarrow> a);
          rebind = (pcb \<in> set (udp_pcbs s));
          (port', s) = (if port = 0 then udp_new_port s else (port, s))
      in if port = 0 \<and> port' = 0 then (ERR_USE, s)
         else if port \<noteq> 0 \<and> (\<exists>ipcb \<in> set (udp_pcbs s). ipcb \<noteq> pcb \<and> bind_conflict ipaddr port (udp_mem s ipcb)) then (ERR_USE, s)
         else
           let s = upd_pcb pcb (\<lambda>p. p\<lparr>up_local_ip := ipaddr, up_local_port := port'\<rparr>) s
           in (ERR_OK, if rebind then s else s\<lparr>udp_pcbs := pcb # udp_pcbs s\<rparr>))"

definition udp_bind_netif :: "nat \<Rightarrow> nat option \<Rightarrow> stack \<Rightarrow> stack" where
  "udp_bind_netif pcb netif =
     upd_pcb pcb (\<lambda>p. p\<lparr>up_netif_idx := (case netif of None \<Rightarrow> 0 | Some n \<Rightarrow> netif_get_index n)\<rparr>)"

definition udp_connect :: "nat \<Rightarrow> u32 \<Rightarrow> u16 \<Rightarrow> stack \<Rightarrow> int \<times> stack" where
  "udp_connect pcb ipaddr port s =
     (let (err, s) = (if up_local_port (udp_mem s pcb) = 0
                      then udp_bind pcb (Some (up_local_ip (udp_mem s pcb))) (up_local_port (udp_mem s pcb)) s
                      else (ERR_OK, s))
      in if err \<noteq> ERR_OK then (err, s)
         else
           let s = upd_pcb pcb (\<lambda>p. p\<lparr>up_remote_ip := ipaddr, up_remote_port := port, up_flags := up_flags p OR UDP_FLAGS_CONNECTED\<rparr>) s
           in (ERR_OK, if pcb \<in> set (udp_pcbs s) then s else s\<lparr>udp_pcbs := pcb # udp_pcbs s\<rparr>))"

definition udp_disconnect :: "nat \<Rightarrow> stack \<Rightarrow> stack" where
  "udp_disconnect pcb =
     upd_pcb pcb (\<lambda>p. p\<lparr>up_remote_ip := 0, up_remote_port := 0, up_netif_idx := 0, up_flags := up_flags p AND NOT UDP_FLAGS_CONNECTED\<rparr>)"

definition udp_recv :: "nat \<Rightarrow> nat option \<Rightarrow> stack \<Rightarrow> stack" where
  "udp_recv pcb recv = upd_pcb pcb (\<lambda>p. p\<lparr>up_recv := recv\<rparr>)"

definition udp_netif_ip_addr_changed :: "u32 \<Rightarrow> u32 \<Rightarrow> stack \<Rightarrow> stack" where
  "udp_netif_ip_addr_changed old_addr new_addr s =
     (if \<not> ip4_addr_isany old_addr \<and> \<not> ip4_addr_isany new_addr
      then s\<lparr>udp_mem := (\<lambda>i. if i \<in> set (udp_pcbs s) \<and> up_local_ip (udp_mem s i) = old_addr
                            then (udp_mem s i)\<lparr>up_local_ip := new_addr\<rparr> else udp_mem s i)\<rparr>
      else s)"

section \<open>Sending\<close>

definition udp_hdr_bytes :: "u16 \<Rightarrow> u16 \<Rightarrow> u16 \<Rightarrow> u8 list" where
  "udp_hdr_bytes src dest len = bytes16 (lwip_htons src) @ bytes16 (lwip_htons dest) @ bytes16 (lwip_htons len) @ [0, 0]"

text \<open>The packet with room for the header: the packet itself, or a new buffer in front of it.\<close>

definition udp_header_buf :: "nat \<Rightarrow> stack \<Rightarrow> stack_error + nat option \<times> stack" where
  "udp_header_buf p s =
     bindR (lift_ref (deref (l_heap s) p)) (\<lambda>nd.
     bindR (lift_pbuf (pbuf_add_header (pn_buf nd) UDP_HLEN)) (\<lambda>(failed, b).
       if failed = 0 then Inr (Some p, set_buf p nd b s)
       else bindR (alloc_ram PBUF_IP (of_nat UDP_HLEN) s) (\<lambda>(q, s).
         case q of
           None \<Rightarrow> Inr (None, s)
         | Some q \<Rightarrow>
             if pf_tot_len (pn_buf nd) \<noteq> 0
             then bindR (lift_ref (pbuf_chain (Some q) (Some p) (l_heap s))) (\<lambda>h. Inr (Some q, s\<lparr>l_heap := h\<rparr>))
             else Inr (Some q, s))))"

definition udp_sendto_if_src ::
  "(nat \<Rightarrow> netif) \<Rightarrow> nat \<Rightarrow> nat \<Rightarrow> u32 \<Rightarrow> u16 \<Rightarrow> nat \<Rightarrow> u32 \<Rightarrow> stack \<Rightarrow> stack_error + int \<times> stack" where
  "udp_sendto_if_src netifs pcb p dst_ip dst_port n src_ip s =
     (let (err, s) = (if up_local_port (udp_mem s pcb) = 0
                      then udp_bind pcb (Some (up_local_ip (udp_mem s pcb))) (up_local_port (udp_mem s pcb)) s
                      else (ERR_OK, s))
      in if err \<noteq> ERR_OK then Inr (err, s)
         else bindR (lift_ref (deref (l_heap s) p)) (\<lambda>nd.
           if pf_tot_len (pn_buf nd) + of_nat UDP_HLEN < pf_tot_len (pn_buf nd) then Inr (ERR_MEM, s)
           else bindR (udp_header_buf p s) (\<lambda>(q, s).
             case q of
               None \<Rightarrow> Inr (ERR_MEM, s)
             | Some q \<Rightarrow>
                 bindR (lift_ref (deref (l_heap s) q)) (\<lambda>nq.
                   if plen (pn_buf nq) < UDP_HLEN then Inl STACK_ASSERT
                   else
                     let pc = udp_mem s pcb;
                         s = set_buf q nq (put_bytes (pn_buf nq) 0 (udp_hdr_bytes (up_local_port pc) dst_port (pf_tot_len (pn_buf nq)))) s
                     in bindR (ip4_output_if_src netifs q (Some src_ip) (Some dst_ip) (up_ttl pc) (up_tos pc) IP_PROTO_UDP n s) (\<lambda>(err, s).
                        bindR (if q \<noteq> p then stack_free q s else Inr s) (\<lambda>s. Inr (err, s)))))))"

definition udp_sendto_if :: "(nat \<Rightarrow> netif) \<Rightarrow> nat \<Rightarrow> nat \<Rightarrow> u32 \<Rightarrow> u16 \<Rightarrow> nat \<Rightarrow> stack \<Rightarrow> stack_error + int \<times> stack" where
  "udp_sendto_if netifs pcb p dst_ip dst_port n s =
     (let local_ip = up_local_ip (udp_mem s pcb)
      in if ip4_addr_isany local_ip \<or> ip4_addr_ismulticast local_ip
         then udp_sendto_if_src netifs pcb p dst_ip dst_port n (nif_addr (netifs n)) s
         else if local_ip \<noteq> nif_addr (netifs n) then Inr (ERR_RTE, s)
         else udp_sendto_if_src netifs pcb p dst_ip dst_port n local_ip s)"

definition udp_sendto :: "(nat \<Rightarrow> netif) \<Rightarrow> nat \<Rightarrow> nat \<Rightarrow> u32 \<Rightarrow> u16 \<Rightarrow> stack \<Rightarrow> stack_error + int \<times> stack" where
  "udp_sendto netifs pcb p dst_ip dst_port s =
     (let idx = up_netif_idx (udp_mem s pcb)
      in case (if idx \<noteq> 0 then netif_get_by_index idx s else ip4_route netifs dst_ip s) of
           None \<Rightarrow> Inr (ERR_RTE, s)
         | Some n \<Rightarrow> udp_sendto_if netifs pcb p dst_ip dst_port n s)"

definition udp_send :: "(nat \<Rightarrow> netif) \<Rightarrow> nat \<Rightarrow> nat \<Rightarrow> stack \<Rightarrow> stack_error + int \<times> stack" where
  "udp_send netifs pcb p s = udp_sendto netifs pcb p (up_remote_ip (udp_mem s pcb)) (up_remote_port (udp_mem s pcb)) s"

section \<open>Receiving\<close>

definition udp_input_local_match :: "(nat \<Rightarrow> netif) \<Rightarrow> ip_globals \<Rightarrow> nat \<Rightarrow> bool \<Rightarrow> udp_pcb \<Rightarrow> bool" where
  "udp_input_local_match netifs g inp broadcast pcb \<longleftrightarrow>
     \<not> (up_netif_idx pcb \<noteq> 0 \<and> current_input_netif g \<noteq> None \<and> up_netif_idx pcb \<noteq> netif_get_index (the (current_input_netif g))) \<and>
     (if broadcast
      then ip4_addr_isany (up_local_ip pcb) \<or> current_iphdr_dest g = IPADDR_BROADCAST \<or>
           ip4_addr_netcmp (up_local_ip pcb) (current_iphdr_dest g) (nif_netmask (netifs inp))
      else ip4_addr_isany (up_local_ip pcb) \<or> up_local_ip pcb = current_iphdr_dest g)"

text \<open>The first block that matches completely, or the one chosen among the unconnected blocks.\<close>

definition udp_uncon :: "(nat \<Rightarrow> netif) \<Rightarrow> (nat \<Rightarrow> udp_pcb) \<Rightarrow> ip_globals \<Rightarrow> nat \<Rightarrow> bool \<Rightarrow> nat option \<Rightarrow> nat \<Rightarrow> nat option" where
  "udp_uncon netifs mem g inp broadcast uncon i =
     (if up_flags (mem i) AND UDP_FLAGS_CONNECTED = 0
      then case uncon of
             None \<Rightarrow> Some i
           | Some u \<Rightarrow>
               if broadcast \<and> current_iphdr_dest g = IPADDR_BROADCAST \<and> up_local_ip (mem u) \<noteq> nif_addr (netifs inp) \<and>
                  up_local_ip (mem i) = nif_addr (netifs inp) then Some i else Some u
      else uncon)"

fun udp_search :: "(nat \<Rightarrow> netif) \<Rightarrow> (nat \<Rightarrow> udp_pcb) \<Rightarrow> ip_globals \<Rightarrow> nat \<Rightarrow> bool \<Rightarrow> u16 \<Rightarrow> u16 \<Rightarrow> nat option \<Rightarrow> nat list \<Rightarrow> nat option \<times> nat option" where
  "udp_search netifs mem g inp broadcast src dest uncon [] = (None, uncon)"
| "udp_search netifs mem g inp broadcast src dest uncon (i # is) =
     (if up_local_port (mem i) = dest \<and> udp_input_local_match netifs g inp broadcast (mem i)
      then
        let uncon = udp_uncon netifs mem g inp broadcast uncon i
        in if up_remote_port (mem i) = src \<and> (up_remote_ip (mem i) = 0 \<or> up_remote_ip (mem i) = current_iphdr_src g)
           then (Some i, uncon)
           else udp_search netifs mem g inp broadcast src dest uncon is
      else udp_search netifs mem g inp broadcast src dest uncon is)"

type_synonym udp_callback = "nat \<Rightarrow> nat \<Rightarrow> nat \<Rightarrow> u32 \<Rightarrow> u16 \<Rightarrow> stack \<Rightarrow> stack_error + stack"

text \<open>Nobody is bound to the port: an error message unless the packet was sent to many.\<close>

definition udp_no_port :: "(nat \<Rightarrow> netif) \<Rightarrow> bool \<Rightarrow> nat \<Rightarrow> stack \<Rightarrow> stack_error + stack" where
  "udp_no_port netifs broadcast p s =
     bindR (if \<not> broadcast \<and> \<not> ip4_addr_ismulticast (current_iphdr_dest (ip_data s))
            then
              bindR (lift_ref (deref (l_heap s) p)) (\<lambda>nd.
              bindR (lift_pbuf (pbuf_header_force (pn_buf nd) (int (unat (current_ip_header_tot_len (ip_data s))) + int UDP_HLEN))) (\<lambda>(failed, b).
                icmp_dest_unreach netifs p 3 (set_buf p nd b s)))
            else Inr s) (stack_free p)"

definition udp_input :: "udp_callback \<Rightarrow> (nat \<Rightarrow> netif) \<Rightarrow> nat \<Rightarrow> nat \<Rightarrow> stack \<Rightarrow> stack_error + stack" where
  "udp_input callback netifs p inp s =
     bindR (lift_ref (deref (l_heap s) p)) (\<lambda>nd.
       let g = ip_data s; hdr = ld_bytes (pf_mem (pn_buf nd)) (pf_off (pn_buf nd)) UDP_HLEN
       in if plen (pn_buf nd) < UDP_HLEN then stack_free p s
          else if length hdr < UDP_HLEN then Inl STACK_OVERREAD
          else case current_netif g of
            None \<Rightarrow> Inl STACK_ASSERT
          | Some cur \<Rightarrow>
              let broadcast = ip4_addr_isbroadcast_u32 (current_iphdr_dest g) (netifs cur);
                  src = lwip_htons (ld16 hdr 0); dest = lwip_htons (ld16 hdr 2);
                  (perfect, uncon) = udp_search netifs (udp_mem s) g inp broadcast src dest None (udp_pcbs s);
                  s = (case perfect of None \<Rightarrow> s | Some i \<Rightarrow> s\<lparr>udp_pcbs := i # remove1 i (udp_pcbs s)\<rparr>);
                  pcb = (case perfect of None \<Rightarrow> uncon | Some i \<Rightarrow> Some i)
              in if pcb = None \<and> nif_addr (netifs inp) \<noteq> current_iphdr_dest g then stack_free p s
                 else case pbuf_remove_header (pn_buf nd) UDP_HLEN of (failed, b) \<Rightarrow>
                   if failed \<noteq> 0 then Inl STACK_ASSERT
                   else
                     let s = set_buf p nd b s
                     in case pcb of
                          None \<Rightarrow> udp_no_port netifs broadcast p s
                        | Some i \<Rightarrow>
                            (case up_recv (udp_mem s i) of
                               None \<Rightarrow> stack_free p s
                             | Some cb \<Rightarrow> callback cb i p (current_iphdr_src g) src s))"

end
