(* ===== verification/Ip4In.thy ===== *)
theory Ip4In
  imports Udp
begin

text \<open>
  \<open>lwip/core/ipv4/ip4.c\<close>, reception: the checks of the header, the choice of the interface, and the dispatch to
  the protocols. \<open>tcp_input\<close> is a parameter that takes the packet over. The source address is not checked when
  the packet is accepted for the port of the DHCP server (67).
\<close>

section \<open>Shortening a packet in the heap\<close>

function realloc_heap :: "nat \<Rightarrow> nat \<Rightarrow> nat \<Rightarrow> u16 \<Rightarrow> pheap \<Rightarrow> ref_error + pheap" where
  "realloc_heap fuel q rem_len shrink h =
     bindR (deref h q) (\<lambda>n.
       let b = pn_buf n
       in if plen b < rem_len
          then case (fuel, pn_next n) of
                 (0, _) \<Rightarrow> Inl CHAIN_LOOP
               | (Suc fuel, None) \<Rightarrow> Inl REF_ASSERT
               | (Suc fuel, Some q') \<Rightarrow>
                   realloc_heap fuel q' (rem_len - plen b) shrink (h[q := Some (upd_buf (\<lambda>b. b\<lparr>pf_tot_len := pf_tot_len b - shrink\<rparr>) n)])
          else
            let n' = upd_buf (\<lambda>b. b\<lparr>pf_len := of_nat rem_len, pf_tot_len := of_nat rem_len\<rparr>) n\<lparr>pn_next := None\<rparr>
            in case pn_next n of
                 None \<Rightarrow> Inr (h[q := Some n'])
               | Some r \<Rightarrow> bindR (pbuf_free (Some r) (h[q := Some n'])) (\<lambda>(count, log, h). Inr h))"
  by pat_completeness auto
termination by (relation "measure fst") auto

declare realloc_heap.simps [simp del]

definition pbuf_realloc_heap :: "nat \<Rightarrow> u16 \<Rightarrow> pheap \<Rightarrow> ref_error + pheap" where
  "pbuf_realloc_heap p new_len h =
     bindR (deref h p) (\<lambda>n.
       if pf_tot_len (pn_buf n) \<le> new_len then Inr h
       else realloc_heap (length h) p (unat new_len) (pf_tot_len (pn_buf n) - new_len) h)"

section \<open>Which interface\<close>

definition ip4_input_accept :: "(nat \<Rightarrow> netif) \<Rightarrow> u32 \<Rightarrow> nat \<Rightarrow> bool" where
  "ip4_input_accept netifs dest n \<longleftrightarrow>
     netif_is_up (netifs n) \<and> \<not> ip4_addr_isany (nif_addr (netifs n)) \<and>
     (dest = nif_addr (netifs n) \<or> ip4_addr_isbroadcast_u32 dest (netifs n))"

fun accept_loop :: "(nat \<Rightarrow> netif) \<Rightarrow> u32 \<Rightarrow> nat \<Rightarrow> nat list \<Rightarrow> nat option" where
  "accept_loop netifs dest inp [] = None"
| "accept_loop netifs dest inp (n # ns) =
     (if n \<noteq> inp \<and> ip4_input_accept netifs dest n then Some n else accept_loop netifs dest inp ns)"

definition input_netif :: "(nat \<Rightarrow> netif) \<Rightarrow> u32 \<Rightarrow> nat \<Rightarrow> stack \<Rightarrow> nat option" where
  "input_netif netifs dest inp s =
     (if ip4_addr_ismulticast dest
      then if netif_is_up (netifs inp) \<and> \<not> ip4_addr_isany (nif_addr (netifs inp)) then Some inp else None
      else if ip4_input_accept netifs dest inp then Some inp
      else if \<not> ip4_addr_isloopback dest then accept_loop netifs dest inp (netif_list s)
      else None)"

text \<open>A UDP packet to the port of the DHCP server; the two bytes are read where the UDP header would be.\<close>

definition dhcp_server_packet :: "u8 list \<Rightarrow> nat \<Rightarrow> nat \<Rightarrow> u8 \<Rightarrow> stack_error + bool" where
  "dhcp_server_packet mem off hlen proto =
     (if proto \<noteq> IP_PROTO_UDP then Inr False
      else
        let dest = ld_bytes mem (off + hlen + 2) 2
        in if length dest < 2 then Inl STACK_OVERREAD else Inr (ld16 dest 0 = lwip_htons 67))"

section \<open>Input\<close>

definition ip_data_none :: ip_globals where
  "ip_data_none = \<lparr>current_netif = None, current_input_netif = None, current_ip4_header = [], current_ip_header_tot_len = 0,
     current_iphdr_src = 0, current_iphdr_dest = 0\<rparr>"

abbreviation (input) "IP_PROTO_TCP \<equiv> 6 :: u8"

definition ip4_protocol :: "udp_callback \<Rightarrow> (nat \<Rightarrow> nat \<Rightarrow> stack \<Rightarrow> stack_error + stack) \<Rightarrow> (nat \<Rightarrow> netif) \<Rightarrow> u8 \<Rightarrow> nat \<Rightarrow> nat \<Rightarrow> nat \<Rightarrow> nat \<Rightarrow> stack \<Rightarrow>
    stack_error + stack" where
  "ip4_protocol callback tcp_input netifs proto hlen p cur inp s =
     (if proto = IP_PROTO_UDP then udp_input callback netifs p inp s
      else if proto = IP_PROTO_TCP then tcp_input p inp s
      else if proto = IP_PROTO_ICMP then icmp_input netifs p inp s
      else
        bindR (if \<not> ip4_addr_isbroadcast_u32 (current_iphdr_dest (ip_data s)) (netifs cur) \<and> \<not> ip4_addr_ismulticast (current_iphdr_dest (ip_data s))
               then bindR (lift_ref (deref (l_heap s) p)) (\<lambda>nd.
                    bindR (lift_pbuf (pbuf_header_force (pn_buf nd) (int hlen))) (\<lambda>(failed, b).
                      icmp_dest_unreach netifs p 2 (set_buf p nd b s)))
               else Inr s) (stack_free p))"

text \<open>After the checks of version and length: \<open>hdr\<close> is the header, \<open>nd\<close> the first buffer.\<close>

definition ip4_deliver :: "udp_callback \<Rightarrow> (nat \<Rightarrow> nat \<Rightarrow> stack \<Rightarrow> stack_error + stack) \<Rightarrow> (nat \<Rightarrow> netif) \<Rightarrow> u8 list \<Rightarrow> nat \<Rightarrow> pnode \<Rightarrow> nat \<Rightarrow> nat \<Rightarrow> stack \<Rightarrow>
    stack_error + int \<times> stack" where
  "ip4_deliver callback tcp_input netifs hdr hlen nd p inp s =
     (let src = ld32 hdr 12; dest = ld32 hdr 16; proto = hdr ! 9;
          s = s\<lparr>ip_data := (ip_data s)\<lparr>current_iphdr_dest := dest, current_iphdr_src := src\<rparr>\<rparr>;
          drop_it = (\<lambda>s. bindR (stack_free p s) (\<lambda>s. Inr (ERR_OK, s)));
          netif = input_netif netifs dest inp s
      in bindR (if netif = None then dhcp_server_packet (pf_mem (pn_buf nd)) (pf_off (pn_buf nd)) hlen proto else Inr False) (\<lambda>dhcp.
           let netif = (if dhcp then Some inp else netif); check_ip_src = (\<not> dhcp)
           in if check_ip_src \<and> \<not> ip4_addr_isany src \<and> (ip4_addr_isbroadcast_u32 src (netifs inp) \<or> ip4_addr_ismulticast src) then drop_it s
              else case netif of
                None \<Rightarrow> drop_it s
              | Some cur \<Rightarrow>
                  if ld16 hdr 6 AND lwip_htons 0x3FFF \<noteq> 0 then drop_it s
                  else
                    let s = s\<lparr>ip_data := \<lparr>current_netif = Some cur, current_input_netif = Some inp, current_ip4_header = hdr,
                               current_ip_header_tot_len = of_nat hlen, current_iphdr_src = src, current_iphdr_dest = dest\<rparr>\<rparr>;
                        s = set_buf p nd (snd (pbuf_remove_header (pn_buf nd) hlen)) s
                    in bindR (ip4_protocol callback tcp_input netifs proto hlen p cur inp s) (\<lambda>s.
                         Inr (ERR_OK, s\<lparr>ip_data := ip_data_none\<rparr>))))"

definition ip4_input :: "udp_callback \<Rightarrow> (nat \<Rightarrow> nat \<Rightarrow> stack \<Rightarrow> stack_error + stack) \<Rightarrow> (nat \<Rightarrow> netif) \<Rightarrow> nat \<Rightarrow> nat \<Rightarrow> stack \<Rightarrow> stack_error + int \<times> stack" where
  "ip4_input callback tcp_input netifs p inp s =
     bindR (lift_ref (deref (l_heap s) p)) (\<lambda>nd.
       let start = ld_bytes (pf_mem (pn_buf nd)) (pf_off (pn_buf nd)) 4;
           drop_it = (\<lambda>s. bindR (stack_free p s) (\<lambda>s. Inr (ERR_OK, s)))
       in if length start < 4 then Inl STACK_OVERREAD
          else if drop_bit 4 (start ! 0) \<noteq> 4 then drop_it s
          else
            let hlen = unat ((start ! 0 AND 0x0F) * 4); iphdr_len = lwip_htons (ld16 start 2)
            in bindR (if iphdr_len < pf_tot_len (pn_buf nd) then lift_ref (pbuf_realloc_heap p iphdr_len (l_heap s)) else Inr (l_heap s)) (\<lambda>h.
               let s = s\<lparr>l_heap := h\<rparr>
               in bindR (lift_ref (deref (l_heap s) p)) (\<lambda>nd.
                    if plen (pn_buf nd) < hlen \<or> pf_tot_len (pn_buf nd) < iphdr_len \<or> hlen < IP_HLEN then drop_it s
                    else
                      let hdr = ld_bytes (pf_mem (pn_buf nd)) (pf_off (pn_buf nd)) hlen
                      in if length hdr < hlen then Inl STACK_OVERREAD
                         else ip4_deliver callback tcp_input netifs hdr hlen nd p inp s)))"

end
