(* ===== verification/Ip4Heap.thy ===== *)
theory Ip4Heap
  imports Ip4In LinkProps
begin

text \<open>
  Packets in the heap of the stack: shortening a packet agrees with shortening it as a list of buffers
  (\<open>Pbuf\<close>) and keeps the counts exact; what it means to hold a packet and to release it.
\<close>

section \<open>Shortening a packet in the heap\<close>

definition unref :: "pbuf \<Rightarrow> pbuf" where
  "unref b = b\<lparr>pf_ref := 0\<rparr>"

text \<open>Chains that differ at most in the counts of references.\<close>

abbreviation same_bufs :: "pbuf list \<Rightarrow> pbuf list \<Rightarrow> bool" where
  "same_bufs c d \<equiv> map unref c = map unref d"

lemma unref_fields:
  assumes "unref b = unref d"
  shows "pf_mem b = pf_mem d" "pf_off b = pf_off d" "pf_len b = pf_len d" "pf_tot_len b = pf_tot_len d"
    "pf_type_internal b = pf_type_internal d" "pf_flags b = pf_flags d" "seg_bytes b = seg_bytes d" "plen b = plen d"
  using assms by (cases b; cases d; simp add: unref_def seg_bytes_def plen_def)+

lemma same_bufs_chain:
  "same_bufs c d \<Longrightarrow> chain_bytes c = chain_bytes d \<and> ptot c = ptot d \<and> wf_chain c = wf_chain d \<and> (c = [] \<longleftrightarrow> d = [])"
proof (induction c d rule: list_induct2')
  case (4 b c b' d)
  then show ?case using unref_fields [of b b'] by (auto simp: ptot_def)
qed (auto simp: ptot_def)

lemma length_chain_loop: "chain_loop f h p = Inr c \<Longrightarrow> length c \<le> f"
  by (induction f h p arbitrary: c rule: chain_loop.induct) (force simp: bindR_Inr_iff)+

lemma chain_loop_freed:
  assumes fr: "freed_exactly h gone h'" and ok: "refs_ok h' e"
  shows "live h' p \<Longrightarrow> chain_loop f h (Some p) = Inr c \<Longrightarrow> \<exists>d. chain_loop f h' (Some p) = Inr d \<and> same_bufs d c"
proof (induction f arbitrary: p c)
  case (Suc f)
  obtain m where m: "node_at h' p = Some m" using Suc.prems(1) by (auto simp: live_def)
  then obtain n where n: "node_at h p = Some n" "same_but_ref n m"
    using fr unfolding freed_exactly_def by (auto dest!: spec [of _ p])
  obtain c' where c': "chain_loop f h (pn_next n) = Inr c'" "c = pn_buf n # c'"
    using Suc.prems(2) n by (auto simp: bindR_Inr_iff)
  have nm: "pn_next m = pn_next n" "unref (pn_buf m) = unref (pn_buf n)"
    using n(2) by (simp_all add: same_but_ref_def unref_def)
  have "\<exists>d. chain_loop f h' (pn_next m) = Inr d \<and> same_bufs d c'"
  proof (cases "pn_next m")
    case None
    then show ?thesis using c'(1) nm by simp
  next
    case (Some q)
    then have "live h' q" using refs_ok_next [OF ok, of p q] m by (simp add: nx_def)
    moreover have nq: "pn_next n = Some q" using nm(1) Some by simp
    ultimately show ?thesis using Suc.IH [of q c'] c'(1) Some by simp
  qed
  then show ?case using m nm(2) c'(2) by (auto simp: deref_def)
qed simp

lemma reach_set_same: "nx h' = nx h \<Longrightarrow> reach_set h' p = reach_set h p"
  by (simp add: reach_set_def links_def)

lemma refs_ok_tot:
  assumes ok: "refs_ok h e" and n: "node_at h p = Some n" and b: "b = (pn_buf n)\<lparr>pf_tot_len := t\<rparr>"
  shows "refs_ok (h[p := Some (n\<lparr>pn_buf := b\<rparr>)]) e"
  using refs_write [OF ok n] b by simp

text \<open>What happens before the rest of the packet is released: its first buffer \<open>r\<close> becomes unreferenced by the chain.\<close>

definition realloc_end :: "nat option \<Rightarrow> pheap \<Rightarrow> ref_error + pheap" where
  "realloc_end r h = (case r of None \<Rightarrow> Inr h | Some r \<Rightarrow> bindR (pbuf_free (Some r) h) (\<lambda>(count, log, h). Inr h))"

lemma realloc_last:
  assumes ok: "refs_ok h e" and n: "node_at h p = Some nd" and l: "\<not> plen (pn_buf nd) < k"
  defines "b \<equiv> (pn_buf nd)\<lparr>pf_len := of_nat k, pf_tot_len := of_nat k\<rparr>"
  defines "h1 \<equiv> h[p := Some (nd\<lparr>pn_buf := b, pn_next := None\<rparr>)]"
  shows "realloc_heap fuel p k shrink h = realloc_end (pn_next nd) h1" "refs_ok h1 (add_ref e (pn_next nd))"
    "chain_loop (Suc g) h1 (Some p) = Inr [b]" "\<forall>i. i \<noteq> p \<longrightarrow> node_at h1 i = node_at h i" "length h1 = length h" "live h1 = live h" "links h1 \<subseteq> links h"
proof -
  have p: "p < length h" using n by (rule node_at_less)
  show "realloc_heap fuel p k shrink h = realloc_end (pn_next nd) h1"
    using n l by (subst realloc_heap.simps) (simp add: deref_def Let_def realloc_end_def h1_def b_def upd_buf_def split: option.split)
  show "chain_loop (Suc g) h1 (Some p) = Inr [b]" using p by (simp add: h1_def deref_def node_at_upd)
  show "\<forall>i. i \<noteq> p \<longrightarrow> node_at h1 i = node_at h i" using p by (simp add: h1_def node_at_upd)
  show "length h1 = length h" by (simp add: h1_def)
  have t: "tweak h p None h1" using tweak_node [OF n] by (simp add: h1_def b_def)
  then show "live h1 = live h" by (simp add: tweak_def)
  have nx: "nx h p = pn_next nd" using n by (simp add: nx_def)
  show l: "links h1 \<subseteq> links h" using t by (auto simp: tweak_def links_def split: if_splits)
  then have a: "acyclic (links h1)" using ok acyclic_subset by (auto simp: refs_ok_def)
  show "refs_ok h1 (add_ref e (pn_next nd))"
  proof (cases "pn_next nd")
    case None
    then have "tweak h p (nx h p) h1" using t nx by simp
    then have "nx h1 = nx h" "rf h1 = rf h" "live h1 = live h" "good_nodes h \<longrightarrow> good_nodes h1" by (simp_all add: tweak_def)
    then show ?thesis using ok None by (auto simp: refs_ok_def links_def rc_inv_iff preds_def add_ref_def)
  next
    case (Some r)
    then show ?thesis using rc_cut [of e h p h1 r] ok t nx a by (simp add: refs_ok_def)
  qed
qed

lemma realloc_heap_walk:
  assumes "refs_ok h e" and "chain_loop g h (Some p) = Inr c" and "realloc_loop c n shrink = Inr (kept, rest)" and "length c \<le> Suc fuel"
  shows "\<exists>h1 r. realloc_heap fuel p n shrink h = realloc_end r h1 \<and> refs_ok h1 (add_ref e r) \<and> chain_loop g h1 (Some p) = Inr kept \<and>
    (\<forall>i. i \<notin> reach_set h p \<longrightarrow> node_at h1 i = node_at h i) \<and> length h1 = length h \<and> live h1 = live h \<and> links h1 \<subseteq> links h"
  using assms
proof (induction fuel arbitrary: h g p c n kept)
  case (0 h g p c n kept)
  obtain g' where g: "g = Suc g'" using 0(2) by (cases g) auto
  obtain nd c' where nd: "node_at h p = Some nd" "chain_loop g' h (pn_next nd) = Inr c'" "c = pn_buf nd # c'"
    using 0(2) by (auto simp: g bindR_Inr_iff)
  have "c' = []" using 0(4) nd(3) by simp
  then have l: "\<not> plen (pn_buf nd) < n" using 0(3) nd(3) by (auto split: if_splits)
  then have k: "kept = [(pn_buf nd)\<lparr>pf_len := of_nat n, pf_tot_len := of_nat n\<rparr>]" using 0(3) nd(3) by simp
  show ?case
    using realloc_last(1) [OF 0(1) nd(1) l, of 0 shrink] realloc_last(2,4-) [OF 0(1) nd(1) l] realloc_last(3) [OF 0(1) nd(1) l, of g'] k g
    by (intro exI [of _ "h[p := Some (nd\<lparr>pn_buf := (pn_buf nd)\<lparr>pf_len := of_nat n, pf_tot_len := of_nat n\<rparr>, pn_next := None\<rparr>)]"]
        exI [of _ "pn_next nd"]) (auto simp: reach_set_def)
next
  case (Suc fuel h g p c n kept)
  obtain g' where g: "g = Suc g'" using Suc(3) by (cases g) auto
  obtain nd c' where nd: "node_at h p = Some nd" "chain_loop g' h (pn_next nd) = Inr c'" "c = pn_buf nd # c'"
    using Suc(3) by (auto simp: g bindR_Inr_iff)
  show ?case
  proof (cases "plen (pn_buf nd) < n")
    case False
    then have k: "kept = [(pn_buf nd)\<lparr>pf_len := of_nat n, pf_tot_len := of_nat n\<rparr>]" using Suc(4) nd(3) by simp
    show ?thesis
      using realloc_last(1) [OF Suc(2) nd(1) False, of "Suc fuel" shrink] realloc_last(2,4-) [OF Suc(2) nd(1) False] realloc_last(3) [OF Suc(2) nd(1) False, of g'] k g
      by (intro exI [of _ "h[p := Some (nd\<lparr>pn_buf := (pn_buf nd)\<lparr>pf_len := of_nat n, pf_tot_len := of_nat n\<rparr>, pn_next := None\<rparr>)]"]
          exI [of _ "pn_next nd"]) (auto simp: reach_set_def)
  next
    case True
    obtain kept' where k: "realloc_loop c' (n - plen (pn_buf nd)) shrink = Inr (kept', rest)"
        and kept: "kept = (pn_buf nd)\<lparr>pf_tot_len := pf_tot_len (pn_buf nd) - shrink\<rparr> # kept'"
      using Suc(4) True nd(3) by (auto simp: bindR_Inr_iff)
    have "c' \<noteq> []" using k by auto
    then obtain q where q: "pn_next nd = Some q" using nd(2) by (cases "pn_next nd") auto
    let ?nd = "nd\<lparr>pn_buf := (pn_buf nd)\<lparr>pf_tot_len := pf_tot_len (pn_buf nd) - shrink\<rparr>\<rparr>"
    let ?h = "h[p := Some ?nd]"
    have p: "p < length h" using nd(1) by (rule node_at_less)
    have ok: "refs_ok ?h e" using refs_ok_tot [OF Suc(2) nd(1) refl] .
    have nxq: "nx h p = Some q" using nd(1) q by (simp add: nx_def)
    have pq: "p \<notin> reach_set h q" using self_not_reached [OF Suc(2) nxq] .
    have nx: "nx ?h = nx h" using nd(1) p by (auto simp: fun_eq_iff nx_def node_at_upd)
    have rq: "reach_set ?h q = reach_set h q" by (rule reach_set_same [OF nx])
    have "node_at ?h i = node_at h i" if "i \<in> reach_set h q" for i
      using node_at_upd [OF p, of "Some ?nd" i] that pq by metis
    moreover have "chain_loop g' h (Some q) = Inr c'" using nd(2) unfolding q .
    ultimately have "chain_loop g' ?h (Some q) = Inr c'" using chain_loop_agree by blast
    then obtain h1 r where r: "realloc_heap fuel q (n - plen (pn_buf nd)) shrink ?h = realloc_end r h1" "refs_ok h1 (add_ref e r)"
        "chain_loop g' h1 (Some q) = Inr kept'" "\<And>i. i \<notin> reach_set ?h q \<Longrightarrow> node_at h1 i = node_at ?h i" "length h1 = length ?h" "live h1 = live ?h" "links h1 \<subseteq> links ?h"
      using Suc.IH [OF ok _ k] Suc(5) nd(3) by (metis Suc_le_mono length_Cons)
    have "realloc_heap (Suc fuel) p n shrink h = realloc_end r h1"
      using nd(1) True q r(1) by (subst realloc_heap.simps) (simp add: deref_def Let_def upd_buf_def)
    moreover have n1: "node_at h1 p = Some ?nd" using r(4) [of p] pq rq p by (simp add: node_at_upd)
    then have "chain_loop g h1 (Some p) = Inr kept" using r(3) q by (simp add: g deref_def kept)
    moreover have "node_at h1 i = node_at h i" if "i \<notin> reach_set h p" for i
    proof -
      have "i \<noteq> p" "i \<notin> reach_set h q" using that reach_set_step [OF nd(1) q] by (auto simp: reach_set_def)
      then show ?thesis using r(4) [of i] rq p by (simp add: node_at_upd)
    qed
    moreover have "live ?h = live h" using nd(1) p by (auto simp: fun_eq_iff live_def node_at_upd)
    moreover have "length h1 = length h" "links h1 \<subseteq> links h" using r(5,7) nx by (simp_all add: links_def)
    ultimately show ?thesis using r(2,6) by (intro exI [of _ h1] exI [of _ r]) simp
  qed
qed

lemma realloc_length: "pbuf_realloc c n = Inr (kept, rest) \<Longrightarrow> length kept \<le> length c"
proof -
  have l: "realloc_loop c m shrink = Inr (kept, rest) \<Longrightarrow> length kept \<le> length c" for m shrink
    by (induction c m shrink arbitrary: kept rest rule: realloc_loop.induct) (auto simp: bindR_Inr_iff split: if_splits)
  show "pbuf_realloc c n = Inr (kept, rest) \<Longrightarrow> length kept \<le> length c"
    using l by (auto simp: pbuf_realloc_def split: if_splits)
qed

text \<open>Only the length of the first buffer may change.\<close>

lemma realloc_head:
  assumes w: "wf_chain c" and ne: "c \<noteq> []" and r: "pbuf_realloc c len = Inr (kept, rest)"
  shows "plen (hd kept) = min (unat len) (plen (hd c)) \<and> pf_mem (hd kept) = pf_mem (hd c) \<and> pf_off (hd kept) = pf_off (hd c) \<and>
    pf_type_internal (hd kept) = pf_type_internal (hd c)"
proof -
  obtain q qs where c: "c = q # qs" using ne by (cases c) auto
  show ?thesis
  proof (cases "pf_tot_len q \<le> len")
    case True
    then have "unat (pf_tot_len q) \<le> unat len" by (simp add: word_le_nat_alt)
    then have "plen q \<le> unat len" using w c by simp
    moreover have "kept = q # qs" using r True by (simp add: c pbuf_realloc_def)
    ultimately show ?thesis by (simp add: c)
  next
    case False
    have "plen (q\<lparr>pf_len := of_nat (unat len), pf_tot_len := of_nat (unat len)\<rparr>) = unat len" by (simp add: plen_def)
    moreover have "plen (q\<lparr>pf_tot_len := t\<rparr>) = plen q" for t by (simp add: plen_def)
    ultimately show ?thesis
      using r False by (auto simp: c pbuf_realloc_def bindR_Inr_iff min_def split: if_splits)
  qed
qed

lemma freed_links_heap: "freed_exactly h gone h' \<Longrightarrow> links h' \<subseteq> links h"
  by (auto simp: links_def nx_def freed_exactly_def same_but_ref_def split: option.splits dest: spec) (metis option.case_eq_if option.distinct(1) option.sel)+

text \<open>On a well-formed packet the heap version does what the list version does, and keeps the counts exact.\<close>

lemma pbuf_realloc_heap_spec:
  assumes ok: "refs_ok h e" and p: "0 < e p" and c: "chain_at h p = Inr c" and w: "wf_chain c"
  shows "\<exists>h' d. pbuf_realloc_heap p len h = Inr h' \<and> refs_ok h' e \<and> chain_at h' p = Inr d \<and> wf_chain d \<and> d \<noteq> [] \<and>
    chain_bytes d = take (unat len) (chain_bytes c) \<and> ptot d = min (unat len) (ptot c) \<and>
    plen (hd d) = min (unat len) (plen (hd c)) \<and> pf_mem (hd d) = pf_mem (hd c) \<and> pf_off (hd d) = pf_off (hd c) \<and> length h' = length h \<and>
    pf_type_internal (hd d) = pf_type_internal (hd c) \<and> links h' \<subseteq> links h \<and> length d \<le> length c"
proof -
  have ne: "c \<noteq> []" using c chain_at_total [OF ok ext_live [OF ok p]] by auto
  obtain f where f: "length h = Suc f" using live_less [OF ext_live [where p = p, OF ok p]] by (cases "length h") auto
  obtain nd where nd: "node_at h p = Some nd" using ext_live [OF ok p] by (auto simp: live_def)
  have hd: "hd c = pn_buf nd" using c nd by (auto simp: chain_at_def f deref_def bindR_Inr_iff)
  obtain kept rest where k: "pbuf_realloc c len = Inr (kept, rest)" "wf_chain kept" "ptot kept = min (unat len) (ptot c)"
      "chain_bytes kept = take (unat len) (chain_bytes c)" "kept \<noteq> []"
    using pbuf_realloc_shortens [OF w ne] by blast
  note hk = realloc_head [OF w ne k(1)]
  have kl: "length kept \<le> length c" using realloc_length [OF k(1)] .
  show ?thesis
  proof (cases "pf_tot_len (pn_buf nd) \<le> len")
    case True
    then have "kept = c" using k(1) hd ne by (simp add: pbuf_realloc_def)
    then show ?thesis using True nd ok c k hk kl by (simp add: pbuf_realloc_heap_def deref_def)
  next
    case False
    then have l: "realloc_loop c (unat len) (pf_tot_len (pn_buf nd) - len) = Inr (kept, rest)"
      using k(1) hd ne by (simp add: pbuf_realloc_def)
    have "length c \<le> Suc (length h)" using length_chain_loop c unfolding chain_at_def by fastforce
    then obtain h1 r where r: "realloc_heap (length h) p (unat len) (pf_tot_len (pn_buf nd) - len) h = realloc_end r h1"
        "refs_ok h1 (add_ref e r)" "chain_loop (length h) h1 (Some p) = Inr kept" "length h1 = length h" "links h1 \<subseteq> links h"
      using realloc_heap_walk [OF ok c [unfolded chain_at_def] l] by blast
    have run: "pbuf_realloc_heap p len h = realloc_end r h1" using nd False r(1) by (simp add: pbuf_realloc_heap_def deref_def)
    show ?thesis
    proof (cases r)
      case None
      then show ?thesis using run r k hk kl by (simp add: realloc_end_def add_ref_def chain_at_def) 
    next
      case (Some i)
      then have ok1: "rc_inv (e(i := e i + 1)) h1" "refs_ok h1 (e(i := e i + 1))" using r(2) by (simp_all add: add_ref_def refs_ok_def)
      obtain fs h' where f': "pbuf_free (Some i) h1 = Inr (of_nat (length fs), fs, h')" "freed_exactly h1 (fst ` set fs) h'"
        using pbuf_free_exact [OF ok1(1), of i] by auto
      have "refs_ok h' ((e(i := e i + 1))(i := (e(i := e i + 1)) i - 1))" using refs_free [OF ok1(2) _ f'(1)] by simp
      then have ok': "refs_ok h' e" by simp
      obtain d where d: "chain_loop (length h) h' (Some p) = Inr d" "same_bufs d kept"
        using chain_loop_freed [OF f'(2) ok' ext_live [where p = p, OF ok' p] r(3)] by blast
      have "d \<noteq> []" using d(2) k(5) by auto
      then have "unref (hd d) = unref (hd kept)" using d(2) k(5) by (cases d; cases kept) auto
      note u = unref_fields [OF this]
      have "length d = length kept" using d(2) map_eq_imp_length_eq by blast
      have "length h' = length h" using f'(2) r(4) by (simp add: freed_exactly_def)
      moreover have "links h' \<subseteq> links h" using freed_links_heap [OF f'(2)] r(5) by simp
      ultimately show ?thesis
        using \<open>length d = length kept\<close> run f'(1) Some d same_bufs_chain [OF d(2)] k ok' u hk kl by (simp add: realloc_end_def chain_at_def)
    qed
  qed
qed

section \<open>Packets on the way\<close>

lemma remove_header_more: "pbuf_remove_header b n = (r, b') \<Longrightarrow> pf_ref b' = pf_ref b \<and> pf_flags b' = pf_flags b"
  by (auto simp: pbuf_remove_header_def split: if_splits)

lemma ld_nth: "i < n \<Longrightarrow> off + n \<le> length m \<Longrightarrow> ld_bytes m off n ! i = m ! (off + i)"
  by (simp add: ld_bytes_def)

lemma seg_nth: "i < plen b \<Longrightarrow> pf_off b + plen b \<le> length (pf_mem b) \<Longrightarrow> seg_bytes b ! i = pf_mem b ! (pf_off b + i)"
  by (simp add: seg_bytes_def ld_bytes_def)

lemma chain_nth: "wf_chain (b # ds) \<Longrightarrow> i < plen b \<Longrightarrow> chain_bytes (b # ds) ! i = pf_mem b ! (pf_off b + i)"
  by (simp add: nth_append length_seg_bytes seg_nth)

text \<open>A packet on the way: who holds it, and what it is.\<close>

definition has_packet :: "'a link_scheme \<Rightarrow> (nat \<Rightarrow> nat) \<Rightarrow> nat \<Rightarrow> pbuf list \<Rightarrow> bool" where
  "has_packet s e p c \<longleftrightarrow> refs_ok (l_heap s) e \<and> 0 < e p \<and> chain_at (l_heap s) p = Inr c \<and> wf_chain c"

lemma has_packetE:
  assumes "has_packet s e p c"
  obtains nd ds where "node_at (l_heap s) p = Some nd" "deref (l_heap s) p = Inr nd" "c = pn_buf nd # ds" "refs_ok (l_heap s) e" "0 < e p"
    "chain_at (l_heap s) p = Inr (pn_buf nd # ds)" "wf_chain (pn_buf nd # ds)"
proof -
  have ok: "refs_ok (l_heap s) e" "0 < e p" "chain_at (l_heap s) p = Inr c" "wf_chain c" using assms by (simp_all add: has_packet_def)
  obtain nd where nd: "node_at (l_heap s) p = Some nd" using ext_live [OF ok(1,2)] by (auto simp: live_def)
  obtain b ds where b: "c = b # ds" using chain_at_total [OF ok(1) ext_live [OF ok(1,2)]] ok(3) by (cases c) auto
  have "b = pn_buf nd" using chain_at_head(1) [OF ok(1) nd] ok(3) b by simp
  then show thesis using that [of nd ds] ok nd b by simp
qed

lemma has_packet_wf: "has_packet s e p c \<Longrightarrow> wf_chain c" "has_packet s e p c \<Longrightarrow> c \<noteq> []"
  by (simp add: has_packet_def) (erule has_packetE, simp)

text \<open>The packet is released, nothing else changes.\<close>

definition dropped :: "'a link_scheme \<Rightarrow> (nat \<Rightarrow> nat) \<Rightarrow> nat \<Rightarrow> pheap \<Rightarrow> bool" where
  "dropped s e p h \<longleftrightarrow> refs_ok h (e(p := e p - 1)) \<and> length h = length (l_heap s)"

lemma drop_runs:
  assumes "refs_ok (l_heap s) e" and "0 < e p"
  shows "\<exists>h. bindR (stack_free p s) (\<lambda>s. Inr (ERR_OK, s)) = Inr (ERR_OK, s\<lparr>l_heap := h\<rparr>) \<and> dropped s e p h"
  using stack_free_runs [OF assms] by (auto simp: dropped_def freed_exactly_def)

end
