(* ===== verification/StackDemo.thy ===== *)
theory StackDemo
  imports Ip4Heap EtharpMain
begin

text \<open>
  A concrete state of the stack for concrete runs: one interface, 192.168.2.1/24, one packet in a buffer of its own with
  16 bytes in front, an empty or given address table.
\<close>

definition demo_ip_nif :: netif where
  "demo_ip_nif = \<lparr>nif_flags = 0x0F, nif_addr = 0x0102A8C0, nif_netmask = 0x00FFFFFF, nif_gw = 0, nif_hwaddr = [2, 0, 0, 0, 0, 1], nif_linkoutput = (\<lambda>_. 0)\<rparr>"

definition demo_stack :: "u8 list \<Rightarrow> etharp_entry list \<Rightarrow> stack" where
  "demo_stack bs t = \<lparr>l_heap = [Some \<lparr>pn_buf = demo_pbuf bs, pn_next = None\<rparr>],
     l_src = \<lparr>src_pool = [], src_structs = 0, src_heap = (\<lambda>n. Some (replicate n 0)), pbuf_free_ooseq_pending = False\<rparr>,
     l_out = [], arp_table = t, etharp_cached_entry = 0, ip_data = ip_data_none, ip_id = 0, netif_list = [0], netif_default = Some 0,
     udp_port = 0xC000, udp_pcbs = [], udp_mem = (\<lambda>_. new_pcb), udp_free = [0, 1, 2, 3]\<rparr>"

lemma demo_stack_fields [simp]:
  "l_heap (demo_stack bs t) = [Some \<lparr>pn_buf = demo_pbuf bs, pn_next = None\<rparr>]" "arp_table (demo_stack bs t) = t"
  "l_out (demo_stack bs t) = []" "ip_data (demo_stack bs t) = ip_data_none" "netif_list (demo_stack bs t) = [0]"
  "udp_pcbs (demo_stack bs t) = []" "heap_ok (demo_stack bs t)" "etharp_cached_entry (demo_stack bs t) = 0"
  "netif_default (demo_stack bs t) = Some 0" "ip_id (demo_stack bs t) = 0" "src_heap (l_src (demo_stack bs t)) k = Some (replicate k 0)"
  by (simp_all add: demo_stack_def heap_ok_def)

lemma demo_stack_refs: "refs_ok (l_heap (demo_stack bs t)) one_packet"
  using demo_refs [of bs t] by (simp add: demo_arp_def)

lemma demo_pbuf_facts: "length bs < 65536 \<Longrightarrow> plen (demo_pbuf bs) = length bs \<and> seg_bytes (demo_pbuf bs) = bs \<and> wf_chain [demo_pbuf bs]"
  by (simp add: demo_pbuf_def plen_def seg_bytes_def ld_bytes_def unat_of_nat_u16)

lemma demo_has_packet: "length bs < 65536 \<Longrightarrow> has_packet (demo_stack bs t) one_packet 0 [demo_pbuf bs]"
  using demo_stack_refs [of bs t] demo_pbuf_facts [of bs]
  by (simp add: has_packet_def chain_at_def deref_def node_at_def del: wf_chain.simps)

lemma demo_ip_nifs: "all_nif_ok (\<lambda>_. demo_ip_nif)"
  by (simp add: all_nif_ok_def nif_ok_def demo_ip_nif_def)

lemma demo_stack_inv: "arp_inv one_packet (demo_stack bs (replicate 10 wiped))"
proof -
  have "all_refs one_packet (replicate 10 wiped) = one_packet" by (simp add: all_refs_def q_refs_def entry_ok_wiped fun_eq_iff)
  then show ?thesis using demo_stack_refs by (simp add: arp_inv_def table_ok_def entry_ok_wiped del: demo_stack_fields(1))
qed

end
