(* ===== verification/Ip4InProps.thy ===== *)
theory Ip4InProps
  imports StackDemo
begin

text \<open>
  Reception in the internet layer: packets with errors are released once and nothing else happens, and the others
  reach their protocol without the header and without padding.
\<close>

section \<open>The header\<close>

lemma le16_eq: "le16 a b = le16 c d \<longleftrightarrow> a = c \<and> b = d"
  by (metis bytes16_le16 list.inject)

lemma le16_and: "le16 a b AND le16 c d = le16 (a AND c) (b AND d)"
  unfolding le16_def by (rule bit_word_eqI) (auto simp: bit_simps)

lemma htons_le16: "unat (lwip_htons (le16 a b)) = 256 * unat a + unat b"
  by (simp add: lwip_htons_le16 unat_le16)

lemma low4: "unat (a AND 0x0F :: u8) = unat a mod 16"
proof -
  have "a AND 0x0F = take_bit 4 a" by (simp add: take_bit_eq_mask mask_eq_exp_minus_1)
  then show ?thesis by (simp add: take_bit_eq_mod unat_mod_distrib)
qed

lemma hlen_word: "unat ((a AND 0x0F) * 4 :: u8) = 4 * (unat a mod 16)"
  using low4 [of a] mod_less_divisor [of 16 "unat a"] by (simp add: unat_word_ariths)

lemma low6: "(a AND 0x3F :: u8) = 0 \<longleftrightarrow> unat a mod 64 = 0"
proof -
  have "a AND 0x3F = take_bit 6 a" by (simp add: take_bit_eq_mask mask_eq_exp_minus_1)
  then have "unat (a AND 0x3F) = unat a mod 64" by (simp add: take_bit_eq_mod unat_mod_distrib)
  then show ?thesis by (metis unat_eq_zero)
qed

lemma frag_word: "le16 a b AND lwip_htons 0x3FFF \<noteq> 0 \<longleftrightarrow> unat a mod 64 \<noteq> 0 \<or> b \<noteq> 0"
proof -
  have "lwip_htons 0x3FFF = le16 0x3F 0xFF" "(0 :: u16) = le16 0 0" by code_simp+
  moreover have "(0xFF :: u8) = - 1" by simp
  then have "b AND 0xFF = b" by (simp only: and.right_neutral)
  ultimately have "le16 a b AND lwip_htons 0x3FFF = le16 (a AND 0x3F) b" by (simp add: le16_and)
  then show ?thesis using low6 [of a] le16_eq [of "a AND 0x3F" b 0 0] \<open>(0 :: u16) = le16 0 0\<close> by simp
qed

lemma port67_word: "le16 a b = lwip_htons 67 \<longleftrightarrow> a = 0 \<and> b = 67"
proof -
  have "lwip_htons 67 = le16 0 67" by code_simp
  then show ?thesis by (simp add: le16_eq)
qed

lemma version_word: "drop_bit 4 a \<noteq> (4 :: u8) \<longleftrightarrow> unat a div 16 \<noteq> 4"
  by (simp add: word_unat_eq_iff drop_bit_eq_div unat_div_distrib)
text \<open>The fields of a packet, from its bytes.\<close>

definition ip_hlen :: "u8 list \<Rightarrow> nat" where
  "ip_hlen xs = 4 * (unat (xs ! 0) mod 16)"

definition ip_total :: "u8 list \<Rightarrow> nat" where
  "ip_total xs = 256 * unat (xs ! 2) + unat (xs ! 3)"

definition ip_fragment :: "u8 list \<Rightarrow> bool" where
  "ip_fragment xs \<longleftrightarrow> unat (xs ! 6) mod 64 \<noteq> 0 \<or> xs ! 7 \<noteq> 0"

text \<open>\<open>l\<close> is the length of the first buffer.\<close>

definition ip_header_ok :: "u8 list \<Rightarrow> nat \<Rightarrow> bool" where
  "ip_header_ok xs l \<longleftrightarrow> unat (xs ! 0) div 16 = 4 \<and> 20 \<le> ip_hlen xs \<and> ip_hlen xs \<le> ip_total xs \<and> ip_hlen xs \<le> l \<and> ip_total xs \<le> length xs"

definition ip_to_dhcp_server :: "u8 list \<Rightarrow> bool" where
  "ip_to_dhcp_server xs \<longleftrightarrow> xs ! 9 = 17 \<and> xs ! (ip_hlen xs + 2) = 0 \<and> xs ! (ip_hlen xs + 3) = 67"


text \<open>The first half of \<open>ip4_input\<close>: padding is cut off, and a bad header drops the packet.\<close>

lemma ip4_input_header:
  assumes p: "has_packet s e p c" and l: "4 \<le> plen (hd c)"
  defines "xs \<equiv> chain_bytes c"
  shows "if ip_header_ok xs (plen (hd c))
    then \<exists>h nd ds. ip4_input cb tcp netifs p inp s =
        ip4_deliver cb tcp netifs (take (ip_hlen xs) xs) (ip_hlen xs) nd p inp (s\<lparr>l_heap := h\<rparr>) \<and>
      has_packet (s\<lparr>l_heap := h\<rparr>) e p (pn_buf nd # ds) \<and> node_at h p = Some nd \<and> length h = length (l_heap s) \<and>
      chain_bytes (pn_buf nd # ds) = take (ip_total xs) xs \<and> plen (pn_buf nd) = min (ip_total xs) (plen (hd c)) \<and>
      pf_mem (pn_buf nd) = pf_mem (hd c) \<and> pf_off (pn_buf nd) = pf_off (hd c) \<and>
      pf_type_internal (pn_buf nd) = pf_type_internal (hd c) \<and> links h \<subseteq> links (l_heap s) \<and> length (pn_buf nd # ds) \<le> length c
    else \<exists>h. ip4_input cb tcp netifs p inp s = Inr (ERR_OK, s\<lparr>l_heap := h\<rparr>) \<and> dropped s e p h"
proof -
  obtain nd ds where nd: "deref (l_heap s) p = Inr nd" "c = pn_buf nd # ds" and ok: "refs_ok (l_heap s) e" "0 < e p"
      and c: "chain_at (l_heap s) p = Inr c" and w: "wf_chain (pn_buf nd # ds)"
    using p by (rule has_packetE) auto
  let ?b = "pn_buf nd"
  define start where "start = ld_bytes (pf_mem ?b) (pf_off ?b) 4"
  have fit: "pf_off ?b + plen ?b \<le> length (pf_mem ?b)" and l4: "4 \<le> plen ?b" using w l nd(2) by simp_all
  have st: "length start = 4" using fit l4 by (simp add: start_def ld_bytes_def)
  have nth: "start ! i = xs ! i" if "i < 4" for i
  proof -
    have "start ! i = pf_mem ?b ! (pf_off ?b + i)" unfolding start_def using that fit l4 by (intro ld_nth) auto
    then show ?thesis using chain_nth [OF w, of i] that l4 by (simp add: xs_def nd(2))
  qed
  have drop: "\<exists>h'. bindR (stack_free p (s\<lparr>l_heap := h\<rparr>)) (\<lambda>s. Inr (ERR_OK, s)) = Inr (ERR_OK, s\<lparr>l_heap := h'\<rparr>) \<and> dropped s e p h'"
    if "refs_ok h e" "length h = length (l_heap s)" for h
    using drop_runs [of "s\<lparr>l_heap := h\<rparr>" e p] that ok(2) by (simp add: dropped_def)
  show ?thesis
  proof (cases "drop_bit 4 (start ! 0) \<noteq> 4")
    case True
    then have "ip4_input cb tcp netifs p inp s = bindR (stack_free p s) (\<lambda>s. Inr (ERR_OK, s))"
      using nd(1) st by (simp add: ip4_input_def Let_def del: deref_Inr flip: start_def)
    moreover have "\<not> ip_header_ok xs (plen (hd c))" using True nth [of 0] version_word [of "xs ! 0"] by (simp add: ip_header_ok_def)
    ultimately show ?thesis using drop [OF ok(1) refl] by simp
  next
    case False
    define total where "total = lwip_htons (ld16 start 2)"
    have t: "unat total = ip_total xs" using nth [of 2] nth [of 3] by (simp add: total_def ld16_def htons_le16 ip_total_def)
    have hl: "unat ((start ! 0 AND 0x0F) * 4) = ip_hlen xs" using nth [of 0] hlen_word [of "xs ! 0"] by (simp add: ip_hlen_def)
    obtain h d where h: "pbuf_realloc_heap p total (l_heap s) = Inr h" "refs_ok h e" "chain_at h p = Inr d" "wf_chain d"
        "chain_bytes d = take (unat total) (chain_bytes c)" "ptot d = min (unat total) (ptot c)"
        "plen (hd d) = min (unat total) (plen (hd c))" "pf_mem (hd d) = pf_mem (hd c)" "pf_off (hd d) = pf_off (hd c)" "length h = length (l_heap s)"
        "pf_type_internal (hd d) = pf_type_internal (hd c)" "links h \<subseteq> links (l_heap s)" "length d \<le> length c"
      using pbuf_realloc_heap_spec [OF ok c, of total] w nd(2) by auto
    have cut: "(if total < pf_tot_len ?b then lift_ref (pbuf_realloc_heap p total (l_heap s)) else Inr (l_heap s)) = Inr h"
      using h(1) nd(1) by (auto simp: pbuf_realloc_heap_def not_less simp del: deref_Inr)
    let ?s = "s\<lparr>l_heap := h\<rparr>"
    have hp: "has_packet ?s e p d" using h ok(2) by (simp add: has_packet_def)
    obtain n1 d1 where n0: "deref (l_heap ?s) p = Inr n1" "d = pn_buf n1 # d1" "wf_chain (pn_buf n1 # d1)"
      using hp by (rule has_packetE) auto
    then have n1: "deref h p = Inr n1" "d = pn_buf n1 # d1" "node_at h p = Some n1" "wf_chain (pn_buf n1 # d1)" by auto
    let ?a = "pn_buf n1"
    have run: "ip4_input cb tcp netifs p inp s =
        (if plen ?a < ip_hlen xs \<or> pf_tot_len ?a < total \<or> ip_hlen xs < 20 then bindR (stack_free p ?s) (\<lambda>s. Inr (ERR_OK, s))
         else let hdr = ld_bytes (pf_mem ?a) (pf_off ?a) (ip_hlen xs)
              in if length hdr < ip_hlen xs then Inl STACK_OVERREAD else ip4_deliver cb tcp netifs hdr (ip_hlen xs) n1 p inp ?s)"
      using nd(1) st False cut n1(1) unfolding ip4_input_def by (simp add: hl Let_def del: deref_Inr flip: start_def total_def)
    have len: "length xs = ptot c" using length_chain_bytes [of c] w nd(2) by (simp add: xs_def)
    have v: "unat (xs ! 0) div 16 = 4" using False nth [of 0] version_word [of "xs ! 0"] by simp
    have "(pf_tot_len ?a < total) = (\<not> ip_total xs \<le> length xs)"
      using h(6) t len n1(2) by (simp add: word_less_nat_alt min_def)
    moreover have "plen ?a = min (ip_total xs) (plen (hd c))" using h(7) t n1(2) by simp
    ultimately have chk: "plen ?a < ip_hlen xs \<or> pf_tot_len ?a < total \<or> ip_hlen xs < 20 \<longleftrightarrow> \<not> ip_header_ok xs (plen (hd c))"
      using v by (auto simp: ip_header_ok_def)
    show ?thesis
    proof (cases "ip_header_ok xs (plen (hd c))")
      case good: True
      then have la: "ip_hlen xs \<le> plen ?a" using chk by simp
      have seg: "take (ip_hlen xs) (seg_bytes ?a) = take (ip_hlen xs) xs"
      proof -
        have "take (ip_hlen xs) (chain_bytes d) = take (ip_hlen xs) (seg_bytes ?a)" using la n1(2,4) by (simp add: length_seg_bytes)
        then show ?thesis using h(5) t good by (simp add: ip_header_ok_def xs_def min_def)
      qed
      have "ld_bytes (pf_mem ?a) (pf_off ?a) (ip_hlen xs) = take (ip_hlen xs) xs"
        using seg la by (simp add: seg_bytes_def ld_bytes_def min_def)
      moreover have "length (take (ip_hlen xs) xs) = ip_hlen xs" using good by (simp add: ip_header_ok_def)
      ultimately have "ip4_input cb tcp netifs p inp s = ip4_deliver cb tcp netifs (take (ip_hlen xs) xs) (ip_hlen xs) n1 p inp ?s"
        using run chk good by (simp add: Let_def)
      moreover have "has_packet ?s e p (pn_buf n1 # d1)" "chain_bytes (pn_buf n1 # d1) = take (ip_total xs) xs"
        "plen ?a = min (ip_total xs) (plen (hd c))" "pf_mem ?a = pf_mem (hd c)" "pf_off ?a = pf_off (hd c)"
        "pf_type_internal ?a = pf_type_internal (hd c)" "length (pn_buf n1 # d1) \<le> length c"
        using hp h(5,7-9,11,13) n1(2) t by (simp_all add: xs_def)
      ultimately show ?thesis unfolding if_P [OF good] using n1(3) h(10,12) by blast
    next
      case bad: False
      then show ?thesis using run chk drop [OF h(2,10)] by simp
    qed
  qed
qed

text \<open>A packet whose first buffer has fewer than four bytes is dropped too, whatever lies behind it in the buffer's memory.\<close>

lemma ip4_input_tiny:
  assumes p: "has_packet s e p c" and l: "plen (hd c) < 4" and m: "pf_off (hd c) + 4 \<le> length (pf_mem (hd c))"
  shows "\<exists>h. ip4_input cb tcp netifs p inp s = Inr (ERR_OK, s\<lparr>l_heap := h\<rparr>) \<and> dropped s e p h"
proof -
  obtain nd ds where nd: "deref (l_heap s) p = Inr nd" "c = pn_buf nd # ds" and ok: "refs_ok (l_heap s) e" "0 < e p"
      and c: "chain_at (l_heap s) p = Inr c" and w: "wf_chain (pn_buf nd # ds)"
    using p by (rule has_packetE) auto
  let ?b = "pn_buf nd"
  define start where "start = ld_bytes (pf_mem ?b) (pf_off ?b) 4"
  have st: "length start = 4" using m nd(2) by (simp add: start_def ld_bytes_def)
  have drop: "\<exists>h'. bindR (stack_free p (s\<lparr>l_heap := h\<rparr>)) (\<lambda>s. Inr (ERR_OK, s)) = Inr (ERR_OK, s\<lparr>l_heap := h'\<rparr>) \<and> dropped s e p h'"
    if "refs_ok h e" "length h = length (l_heap s)" for h
    using drop_runs [of "s\<lparr>l_heap := h\<rparr>" e p] that ok(2) by (simp add: dropped_def)
  show ?thesis
  proof (cases "drop_bit 4 (start ! 0) \<noteq> 4")
    case True
    then have "ip4_input cb tcp netifs p inp s = bindR (stack_free p s) (\<lambda>s. Inr (ERR_OK, s))"
      using nd(1) st by (simp add: ip4_input_def Let_def del: deref_Inr flip: start_def)
    then show ?thesis using drop [OF ok(1) refl] by simp
  next
    case False
    define total where "total = lwip_htons (ld16 start 2)"
    define hl where "hl = unat ((start ! 0 AND 0x0F) * 4)"
    obtain h d where h: "pbuf_realloc_heap p total (l_heap s) = Inr h" "refs_ok h e" "chain_at h p = Inr d"
        "plen (hd d) = min (unat total) (plen (hd c))" "length h = length (l_heap s)" "d \<noteq> []"
      using pbuf_realloc_heap_spec [OF ok c, of total] w nd(2) by auto
    have cut: "(if total < pf_tot_len ?b then lift_ref (pbuf_realloc_heap p total (l_heap s)) else Inr (l_heap s)) = Inr h"
      using h(1) nd(1) by (auto simp: pbuf_realloc_heap_def not_less simp del: deref_Inr)
    obtain n1 where n1: "deref h p = Inr n1" "hd d = pn_buf n1"
      using h(3) by (cases "length h") (auto simp: chain_at_def bindR_Inr_iff)
    have "plen (pn_buf n1) < 4" using h(4) n1(2) l by simp
    then have "plen (pn_buf n1) < hl \<or> pf_tot_len (pn_buf n1) < total \<or> hl < 20" by linarith
    then have "ip4_input cb tcp netifs p inp s = bindR (stack_free p (s\<lparr>l_heap := h\<rparr>)) (\<lambda>s. Inr (ERR_OK, s))"
      using nd(1) st False cut n1(1) unfolding ip4_input_def by (simp add: Let_def hl_def del: deref_Inr flip: start_def total_def)
    then show ?thesis using drop [OF h(2,5)] by simp
  qed
qed

section \<open>For us\<close>

definition ip_netif :: "(nat \<Rightarrow> netif) \<Rightarrow> nat \<Rightarrow> stack \<Rightarrow> u8 list \<Rightarrow> nat option" where
  "ip_netif netifs inp s xs =
     (case input_netif netifs (ld32 xs 16) inp s of Some n \<Rightarrow> Some n | None \<Rightarrow> if ip_to_dhcp_server xs then Some inp else None)"

definition ip_src_ok :: "(nat \<Rightarrow> netif) \<Rightarrow> nat \<Rightarrow> stack \<Rightarrow> u8 list \<Rightarrow> bool" where
  "ip_src_ok netifs inp s xs \<longleftrightarrow>
     input_netif netifs (ld32 xs 16) inp s = None \<and> ip_to_dhcp_server xs \<or>
     ld32 xs 12 = 0 \<or> \<not> ip4_addr_isbroadcast_u32 (ld32 xs 12) (netifs inp) \<and> \<not> ip4_addr_ismulticast (ld32 xs 12)"

definition ip_wanted :: "(nat \<Rightarrow> netif) \<Rightarrow> nat \<Rightarrow> stack \<Rightarrow> u8 list \<Rightarrow> bool" where
  "ip_wanted netifs inp s xs \<longleftrightarrow> ip_netif netifs inp s xs \<noteq> None \<and> ip_src_ok netifs inp s xs \<and> \<not> ip_fragment xs"

lemma input_netif_data [simp]: "input_netif netifs dest inp (s\<lparr>ip_data := g\<rparr>) = input_netif netifs dest inp s"
  "input_netif netifs dest inp (s\<lparr>l_heap := h\<rparr>) = input_netif netifs dest inp s"
  by (simp_all add: input_netif_def)

lemma ld32_take: "i + 4 \<le> n \<Longrightarrow> ld32 (take n xs) i = ld32 xs i"
  by (simp add: ld32_def)

lemma ld16_take: "i + 2 \<le> n \<Longrightarrow> ld16 (take n xs) i = ld16 xs i"
  by (simp add: ld16_def)

text \<open>What the port of the server is read from.\<close>

lemma dhcp_test:
  assumes "xs ! 9 = 17 \<longrightarrow> ld_bytes mem (off + ip_hlen xs + 2) 2 = [xs ! (ip_hlen xs + 2), xs ! (ip_hlen xs + 3)]"
  shows "dhcp_server_packet mem off (ip_hlen xs) (xs ! 9) = Inr (ip_to_dhcp_server xs)"
  using assms by (auto simp: dhcp_server_packet_def ip_to_dhcp_server_def Let_def ld16_def port67_word)

definition addressed :: "stack \<Rightarrow> u8 list \<Rightarrow> ip_globals" where
  "addressed s xs = (ip_data s)\<lparr>current_iphdr_dest := ld32 xs 16, current_iphdr_src := ld32 xs 12\<rparr>"

definition delivering :: "nat \<Rightarrow> nat \<Rightarrow> u8 list \<Rightarrow> ip_globals" where
  "delivering cur inp xs = \<lparr>current_netif = Some cur, current_input_netif = Some inp, current_ip4_header = take (ip_hlen xs) xs,
     current_ip_header_tot_len = of_nat (ip_hlen xs), current_iphdr_src = ld32 xs 12, current_iphdr_dest = ld32 xs 16\<rparr>"

text \<open>
  The decision of \<open>ip4_deliver\<close> once it is known whether the packet is for the port of the DHCP server (\<open>dh\<close>); this is
  looked up only when no interface takes the destination.
\<close>

definition net_choice :: "bool \<Rightarrow> (nat \<Rightarrow> netif) \<Rightarrow> nat \<Rightarrow> stack \<Rightarrow> u8 list \<Rightarrow> nat option" where
  "net_choice dh netifs inp s xs =
     (case input_netif netifs (ld32 xs 16) inp s of Some n \<Rightarrow> Some n | None \<Rightarrow> if dh then Some inp else None)"

definition choice_ok :: "bool \<Rightarrow> (nat \<Rightarrow> netif) \<Rightarrow> nat \<Rightarrow> stack \<Rightarrow> u8 list \<Rightarrow> bool" where
  "choice_ok dh netifs inp s xs \<longleftrightarrow> net_choice dh netifs inp s xs \<noteq> None \<and>
     (input_netif netifs (ld32 xs 16) inp s = None \<and> dh \<or> ld32 xs 12 = 0 \<or>
      \<not> ip4_addr_isbroadcast_u32 (ld32 xs 12) (netifs inp) \<and> \<not> ip4_addr_ismulticast (ld32 xs 12)) \<and> \<not> ip_fragment xs"

lemma choice_heap [simp]: "net_choice dh netifs inp (s\<lparr>l_heap := h\<rparr>) xs = net_choice dh netifs inp s xs"
  "choice_ok dh netifs inp (s\<lparr>l_heap := h\<rparr>) xs = choice_ok dh netifs inp s xs"
  by (simp_all add: net_choice_def choice_ok_def)

lemma wanted_choice: "ip_netif netifs inp s xs = net_choice (ip_to_dhcp_server xs) netifs inp s xs"
  "ip_wanted netifs inp s xs = choice_ok (ip_to_dhcp_server xs) netifs inp s xs"
  by (auto simp: ip_wanted_def ip_netif_def ip_src_ok_def net_choice_def choice_ok_def)

lemma ip4_deliver_choice:
  assumes h: "20 \<le> ip_hlen xs"
    and d: "input_netif netifs (ld32 xs 16) inp s = None \<Longrightarrow> dhcp_server_packet (pf_mem (pn_buf nd)) (pf_off (pn_buf nd)) (ip_hlen xs) (xs ! 9) = Inr dh"
  shows "ip4_deliver cb tcp netifs (take (ip_hlen xs) xs) (ip_hlen xs) nd p inp s =
    (if choice_ok dh netifs inp s xs
     then bindR (ip4_protocol cb tcp netifs (xs ! 9) (ip_hlen xs) p (the (net_choice dh netifs inp s xs)) inp
            (set_buf p nd (snd (pbuf_remove_header (pn_buf nd) (ip_hlen xs))) (s\<lparr>ip_data := delivering (the (net_choice dh netifs inp s xs)) inp xs\<rparr>)))
          (\<lambda>s. Inr (ERR_OK, s\<lparr>ip_data := ip_data_none\<rparr>))
     else bindR (stack_free p (s\<lparr>ip_data := addressed s xs\<rparr>)) (\<lambda>s. Inr (ERR_OK, s)))"
proof -
  let ?net = "input_netif netifs (ld32 xs 16) inp s"
  have f: "ld32 (take (ip_hlen xs) xs) 12 = ld32 xs 12" "ld32 (take (ip_hlen xs) xs) 16 = ld32 xs 16" "take (ip_hlen xs) xs ! 9 = xs ! 9"
      "ld16 (take (ip_hlen xs) xs) 6 AND lwip_htons 0x3FFF \<noteq> 0 \<longleftrightarrow> ip_fragment xs"
    using h ld16_take [of 6 "ip_hlen xs" xs] frag_word [of "xs ! 6" "xs ! 7"] by (simp_all add: ld32_take ld16_def ip_fragment_def)
  have "(if ?net = None then dhcp_server_packet (pf_mem (pn_buf nd)) (pf_off (pn_buf nd)) (ip_hlen xs) (xs ! 9) else Inr False) =
      Inr (?net = None \<and> dh)"
    using d by simp
  then show ?thesis
    unfolding ip4_deliver_def f Let_def input_netif_data
    by (cases ?net) (auto simp: choice_ok_def net_choice_def ip4_addr_isany_def delivering_def addressed_def)
qed

section \<open>Properties\<close>

lemma port_bytes:
  assumes w: "wf_chain c" "c \<noteq> []" and l: "n + 4 \<le> plen (hd c)"
  shows "ld_bytes (pf_mem (hd c)) (pf_off (hd c) + n + 2) 2 = [chain_bytes c ! (n + 2), chain_bytes c ! (n + 3)]"
proof -
  obtain b ds where c: "c = b # ds" using w by (cases c) auto
  have "pf_off b + (n + 4) \<le> length (pf_mem b)" using w l c by simp
  then have "ld_bytes (pf_mem b) (pf_off b + n + 2) 2 = [pf_mem b ! (pf_off b + (n + 2)), pf_mem b ! (pf_off b + (n + 3))]"
    by (intro nth_equalityI) (auto simp: ld_bytes_def less_Suc_eq numeral_2_eq_2 numeral_3_eq_3)
  moreover have "chain_bytes (b # ds) ! (n + 2) = pf_mem b ! (pf_off b + (n + 2))" using w l unfolding c by (intro chain_nth) auto
  moreover have "chain_bytes (b # ds) ! (n + 3) = pf_mem b ! (pf_off b + (n + 3))" using w l unfolding c by (intro chain_nth) auto
  ultimately show ?thesis unfolding c by (simp del: chain_bytes_simps)
qed

text \<open>What \<open>ip4_input\<close> looks up for the DHCP server, in the first buffer.\<close>

definition dhcp_read :: "pbuf list \<Rightarrow> stack_error + bool" where
  "dhcp_read c = dhcp_server_packet (pf_mem (hd c)) (pf_off (hd c)) (ip_hlen (chain_bytes c)) (chain_bytes c ! 9)"

lemma dhcp_read_port:
  assumes "wf_chain c" "c \<noteq> []" and "chain_bytes c ! 9 = 17 \<longrightarrow> ip_hlen (chain_bytes c) + 4 \<le> plen (hd c)"
  shows "dhcp_read c = Inr (ip_to_dhcp_server (chain_bytes c))"
  unfolding dhcp_read_def using port_bytes [OF assms(1,2)] assms(3) by (intro dhcp_test) blast

lemma ip4_input_rejects_choice:
  assumes p: "has_packet s e p c" and l: "4 \<le> plen (hd c)"
    and dh: "ip_header_ok (chain_bytes c) (plen (hd c)) \<Longrightarrow> input_netif netifs (ld32 (chain_bytes c) 16) inp s = None \<Longrightarrow> dhcp_read c = Inr dh"
    and bad: "\<not> (ip_header_ok (chain_bytes c) (plen (hd c)) \<and> choice_ok dh netifs inp s (chain_bytes c))"
  shows "\<exists>h g. ip4_input cb tcp netifs p inp s = Inr (ERR_OK, s\<lparr>l_heap := h, ip_data := g\<rparr>) \<and> dropped s e p h \<and>
    g \<in> {ip_data s, addressed s (chain_bytes c)}"
proof -
  let ?xs = "chain_bytes c"
  note hd = ip4_input_header [OF p l, of cb tcp netifs inp]
  show ?thesis
  proof (cases "ip_header_ok ?xs (plen (hd c))")
    case False
    then obtain h where "ip4_input cb tcp netifs p inp s = Inr (ERR_OK, s\<lparr>l_heap := h\<rparr>)" "dropped s e p h" using hd by auto
    then show ?thesis by (intro exI [of _ h] exI [of _ "ip_data s"]) simp
  next
    case True
    then obtain h nd ds where h: "ip4_input cb tcp netifs p inp s =
          ip4_deliver cb tcp netifs (take (ip_hlen ?xs) ?xs) (ip_hlen ?xs) nd p inp (s\<lparr>l_heap := h\<rparr>)"
        "has_packet (s\<lparr>l_heap := h\<rparr>) e p (pn_buf nd # ds)" "length h = length (l_heap s)"
        "pf_mem (pn_buf nd) = pf_mem (hd c)" "pf_off (pn_buf nd) = pf_off (hd c)"
      using hd by auto
    have "input_netif netifs (ld32 ?xs 16) inp (s\<lparr>l_heap := h\<rparr>) = None \<Longrightarrow>
        dhcp_server_packet (pf_mem (pn_buf nd)) (pf_off (pn_buf nd)) (ip_hlen ?xs) (?xs ! 9) = Inr dh"
      using dh [OF True] by (simp add: h(4,5) dhcp_read_def)
    then have run: "ip4_input cb tcp netifs p inp s =
        bindR (stack_free p ((s\<lparr>l_heap := h\<rparr>)\<lparr>ip_data := addressed (s\<lparr>l_heap := h\<rparr>) ?xs\<rparr>)) (\<lambda>s. Inr (ERR_OK, s))"
      using ip4_deliver_choice [of ?xs netifs inp "s\<lparr>l_heap := h\<rparr>" nd dh cb tcp p] True bad h(1) by (simp add: ip_header_ok_def)
    let ?s = "(s\<lparr>l_heap := h\<rparr>)\<lparr>ip_data := addressed (s\<lparr>l_heap := h\<rparr>) ?xs\<rparr>"
    have "refs_ok (l_heap ?s) e" "0 < e p" using h(2) by (simp_all add: has_packet_def)
    then obtain h' where h': "bindR (stack_free p ?s) (\<lambda>s. Inr (ERR_OK, s)) = Inr (ERR_OK, ?s\<lparr>l_heap := h'\<rparr>)" "dropped ?s e p h'"
      using drop_runs by blast
    have "?s\<lparr>l_heap := h'\<rparr> = s\<lparr>l_heap := h', ip_data := addressed s ?xs\<rparr>" by (simp add: addressed_def)
    then show ?thesis using run h' h(3) by (intro exI [of _ h'] exI [of _ "addressed s ?xs"]) (simp add: dropped_def)
  qed
qed

section \<open>Which packets are for this host\<close>

text \<open>
  The rule, without the code: an interface takes part when it is up and has an address. It takes its own address and the
  broadcast addresses: 0.0.0.0, 255.255.255.255 and, on an interface with broadcasts, the address with the network bits of
  the interface and all host bits set, unless that is its own. A multicast destination (224 to 239) belongs to the
  interface the packet came in on; another one first to this interface, then, unless it is a loopback address, to the first
  of the others that takes it. What nobody takes is accepted on the incoming interface when it is for the port of the DHCP
  server. The source has to be 0.0.0.0 or neither a broadcast address of the incoming interface nor a multicast address,
  except for packets accepted because of that port. Fragments are not taken.
\<close>

definition host_up :: "netif \<Rightarrow> bool" where
  "host_up n \<longleftrightarrow> bit (nif_flags n) 0 \<and> nif_addr n \<noteq> 0"

definition broadcast_on :: "netif \<Rightarrow> u32 \<Rightarrow> bool" where
  "broadcast_on n a \<longleftrightarrow> a = 0 \<or> a = 0xFFFFFFFF \<or>
     bit (nif_flags n) 1 \<and> a \<noteq> nif_addr n \<and> (\<forall>i < 32. bit a i = (if bit (nif_netmask n) i then bit (nif_addr n) i else True))"

definition multicast_byte :: "u8 \<Rightarrow> bool" where
  "multicast_byte b \<longleftrightarrow> 224 \<le> unat b \<and> unat b \<le> 239"

definition takes_address :: "netif \<Rightarrow> u32 \<Rightarrow> bool" where
  "takes_address n a \<longleftrightarrow> host_up n \<and> (a = nif_addr n \<or> broadcast_on n a)"

definition dest_netif :: "(nat \<Rightarrow> netif) \<Rightarrow> nat \<Rightarrow> stack \<Rightarrow> u8 list \<Rightarrow> nat option" where
  "dest_netif netifs inp s xs =
     (if multicast_byte (xs ! 16) then (if host_up (netifs inp) then Some inp else None)
      else if takes_address (netifs inp) (ld32 xs 16) then Some inp
      else if xs ! 16 = 127 then None
      else find (\<lambda>n. n \<noteq> inp \<and> takes_address (netifs n) (ld32 xs 16)) (netif_list s))"

definition for_us :: "(nat \<Rightarrow> netif) \<Rightarrow> nat \<Rightarrow> stack \<Rightarrow> u8 list \<Rightarrow> nat option" where
  "for_us netifs inp s xs =
     (case dest_netif netifs inp s xs of Some n \<Rightarrow> Some n | None \<Rightarrow> if ip_to_dhcp_server xs then Some inp else None)"

definition source_allowed :: "(nat \<Rightarrow> netif) \<Rightarrow> nat \<Rightarrow> stack \<Rightarrow> u8 list \<Rightarrow> bool" where
  "source_allowed netifs inp s xs \<longleftrightarrow>
     dest_netif netifs inp s xs = None \<and> ip_to_dhcp_server xs \<or>
     ld32 xs 12 = 0 \<or> \<not> broadcast_on (netifs inp) (ld32 xs 12) \<and> \<not> multicast_byte (xs ! 12)"

definition acceptable :: "(nat \<Rightarrow> netif) \<Rightarrow> nat \<Rightarrow> stack \<Rightarrow> u8 list \<Rightarrow> bool" where
  "acceptable netifs inp s xs \<longleftrightarrow> for_us netifs inp s xs \<noteq> None \<and> source_allowed netifs inp s xs \<and> \<not> ip_fragment xs"

text \<open>The code follows this rule.\<close>

lemma le32_eq: "le32 a b c d = le32 a' b' c' d' \<longleftrightarrow> a = a' \<and> b = b' \<and> c = c' \<and> d = d'"
  by (auto simp: bytes32_le32 dest: arg_cong [of _ _ bytes32])

lemma le32_and: "le32 a b c d AND le32 a' b' c' d' = le32 (a AND a') (b AND b') (c AND c') (d AND d')"
  unfolding le32_def by (rule bit_word_eqI) (auto simp: bit_simps)

lemma high4: "a AND 0xF0 = (0xE0 :: u8) \<longleftrightarrow> multicast_byte a"
proof -
  have "(0xF0 :: u8) = push_bit 4 (mask 4)" by code_simp
  moreover have "a AND push_bit 4 (mask 4) = push_bit 4 (drop_bit 4 a)"
    by (intro bit_word_eqI) (auto simp: bit_simps)
  ultimately have a: "a AND 0xF0 = push_bit 4 (drop_bit 4 a)" by simp
  have d: "unat (drop_bit 4 a) = unat a div 16" by (simp add: drop_bit_eq_div unat_div_distrib)
  have "unat a div 16 < 16" using unat_u8_less [of a] by (simp add: less_mult_imp_div_less)
  then have "unat (push_bit 4 (drop_bit 4 a)) = 16 * (unat a div 16)"
    using d by (simp add: push_bit_eq_mult unat_word_ariths)
  then have "unat (a AND 0xF0) = 16 * (unat a div 16)" unfolding a .
  then have "a AND 0xF0 = 0xE0 \<longleftrightarrow> unat a div 16 = 14" by (simp add: word_unat_eq_iff)
  also have "\<dots> \<longleftrightarrow> multicast_byte a" by (auto simp: multicast_byte_def)
  finally show ?thesis .
qed

lemma multicast_code: "ip4_addr_ismulticast (ld32 xs i) \<longleftrightarrow> multicast_byte (xs ! i)"
proof -
  have "lwip_htonl 0xF0000000 = le32 0xF0 0 0 0" "lwip_htonl 0xE0000000 = le32 0xE0 0 0 0" by code_simp+
  then show ?thesis by (simp add: ip4_addr_ismulticast_def ld32_def le32_and le32_eq high4)
qed

lemma loopback_code: "ip4_addr_isloopback (ld32 xs i) \<longleftrightarrow> xs ! i = 127"
proof -
  have "lwip_htonl 0xFF000000 = le32 0xFF 0 0 0" "lwip_htonl 0x7F000000 = le32 127 0 0 0" by code_simp+
  moreover have "(0xFF :: u8) = - 1" by simp
  then have "(a :: u8) AND 0xFF = a" for a by (simp only: and.right_neutral)
  ultimately show ?thesis by (simp add: ip4_addr_isloopback_def ld32_def le32_and le32_eq)
qed

lemma flag_bits: "w AND 1 \<noteq> 0 \<longleftrightarrow> bit w 0" "w AND 2 \<noteq> 0 \<longleftrightarrow> bit (w :: u8) 1"
  using and_exp_eq_0_iff_not_bit [of w 0] and_exp_eq_0_iff_not_bit [of w 1] by simp_all

lemma broadcast_code: "ip4_addr_isbroadcast_u32 a n \<longleftrightarrow> broadcast_on n a"
proof -
  have ones: "NOT a = 0 \<longleftrightarrow> a = 0xFFFFFFFF"
  proof -
    have "NOT a = 0 \<longleftrightarrow> a = NOT 0" by (metis bit.double_compl)
    moreover have "(0xFFFFFFFF :: u32) = NOT 0" by simp
    ultimately show ?thesis by (simp only:)
  qed
  have "(0xFFFFFFFF :: u32) = - 1" by simp
  then have "0xFFFFFFFF AND NOT m = NOT m" for m :: u32 by (simp only: and.left_neutral)
  then have "a AND m = b AND m \<and> a AND NOT m = 0xFFFFFFFF AND NOT m \<longleftrightarrow> (\<forall>i < 32. bit a i = (if bit m i then bit b i else True))" for b m
    by (auto simp: bit_eq_iff bit_simps)
  then show ?thesis
    using flag_bits(2) [of "nif_flags n"] by (auto simp: ip4_addr_isbroadcast_u32_def broadcast_on_def ip4_addr_netcmp_def ones)
qed

lemma accept_code: "ip4_input_accept netifs a n \<longleftrightarrow> takes_address (netifs n) a"
  using flag_bits(1) [of "nif_flags (netifs n)"]
  by (auto simp: ip4_input_accept_def takes_address_def host_up_def netif_is_up_def ip4_addr_isany_def broadcast_code)

lemma accept_loop_code: "accept_loop netifs a inp ns = find (\<lambda>n. n \<noteq> inp \<and> takes_address (netifs n) a) ns"
  by (induction ns) (auto simp: accept_code)

lemma input_netif_code: "input_netif netifs (ld32 xs 16) inp s = dest_netif netifs inp s xs"
  using flag_bits(1) [of "nif_flags (netifs inp)"]
  by (simp add: input_netif_def dest_netif_def multicast_code loopback_code accept_code accept_loop_code host_up_def netif_is_up_def
      ip4_addr_isany_def)

lemma choice_code: "net_choice (ip_to_dhcp_server xs) netifs inp s xs = for_us netifs inp s xs"
  "choice_ok (ip_to_dhcp_server xs) netifs inp s xs = acceptable netifs inp s xs"
  by (auto simp: net_choice_def choice_ok_def for_us_def acceptable_def source_allowed_def input_netif_code multicast_code broadcast_code)

lemma dhcp_read_if:
  assumes "has_packet s e p c" and "ip_header_ok (chain_bytes c) (plen (hd c)) \<and> dest_netif netifs inp s (chain_bytes c) = None \<and>
      chain_bytes c ! 9 = 17 \<longrightarrow> ip_hlen (chain_bytes c) + 4 \<le> plen (hd c)"
    and "ip_header_ok (chain_bytes c) (plen (hd c))" "input_netif netifs (ld32 (chain_bytes c) 16) inp s = None"
  shows "dhcp_read c = Inr (ip_to_dhcp_server (chain_bytes c))"
  using dhcp_read_port has_packet_wf [OF assms(1)] assms(2-4) unfolding input_netif_code by blast

text \<open>
  C36: Reception rejects bad packets. A packet is dropped when its version is not 4, its header is shorter than 20 bytes, longer
  than the packet or not in one piece, its length field is larger than what arrived, its source is a broadcast or multicast
  address, neither its destination nor the port of the DHCP server makes it one for this host, or it is a fragment: it is
  released exactly once, nothing is sent, no protocol is called and no interface, table or control block changes. The first
  buffer has the first four bytes of the packet, and of a UDP packet that no interface takes it has the ports: for such a packet
  without them the code reads past the packet, and past the buffer if it ends there (\<open>ip4_input_overreads\<close>).
\<close>

theorem ip4_input_rejects:
  assumes p: "has_packet s e p c" and l: "4 \<le> plen (hd c)"
    and port: "ip_header_ok (chain_bytes c) (plen (hd c)) \<and> dest_netif netifs inp s (chain_bytes c) = None \<and>
      chain_bytes c ! 9 = 17 \<longrightarrow> ip_hlen (chain_bytes c) + 4 \<le> plen (hd c)"
    and bad: "\<not> (ip_header_ok (chain_bytes c) (plen (hd c)) \<and> acceptable netifs inp s (chain_bytes c))"
  shows "\<exists>h g. ip4_input cb tcp netifs p inp s = Inr (ERR_OK, s\<lparr>l_heap := h, ip_data := g\<rparr>) \<and> dropped s e p h \<and>
    g \<in> {ip_data s, addressed s (chain_bytes c)}"
  using ip4_input_rejects_choice [OF p l dhcp_read_if [OF p port]] bad unfolding choice_code by blast

text \<open>
  The port of the DHCP server is looked up without a test that the packet has a UDP header: for a UDP packet that no interface
  takes, in a buffer that ends before the ports, the code reads outside of the buffer.
\<close>

lemma ip4_input_overreads:
  assumes p: "has_packet s e p c" and l: "4 \<le> plen (hd c)" and h: "ip_header_ok (chain_bytes c) (plen (hd c))"
    and d: "dest_netif netifs inp s (chain_bytes c) = None" "chain_bytes c ! 9 = 17"
    and m: "length (pf_mem (hd c)) < pf_off (hd c) + ip_hlen (chain_bytes c) + 4"
  shows "ip4_input cb tcp netifs p inp s = Inl STACK_OVERREAD"
proof -
  let ?xs = "chain_bytes c"
  obtain g nd ds where g: "ip4_input cb tcp netifs p inp s =
        ip4_deliver cb tcp netifs (take (ip_hlen ?xs) ?xs) (ip_hlen ?xs) nd p inp (s\<lparr>l_heap := g\<rparr>)"
      "pf_mem (pn_buf nd) = pf_mem (hd c)" "pf_off (pn_buf nd) = pf_off (hd c)"
    using ip4_input_header [OF p l, of cb tcp netifs inp] h by (simp del: chain_bytes_simps) blast
  have hl: "20 \<le> ip_hlen ?xs" using h by (simp add: ip_header_ok_def)
  then have f: "ld32 (take (ip_hlen ?xs) ?xs) 16 = ld32 ?xs 16" "take (ip_hlen ?xs) ?xs ! 9 = 17" using d(2) by (simp_all add: ld32_take)
  have "dhcp_server_packet (pf_mem (pn_buf nd)) (pf_off (pn_buf nd)) (ip_hlen ?xs) 17 = Inl STACK_OVERREAD"
    using m by (simp add: dhcp_server_packet_def Let_def g(2,3) ld_bytes_def)
  moreover have "input_netif netifs (ld32 ?xs 16) inp s = None" using d(1) by (simp add: input_netif_code)
  ultimately show ?thesis
    unfolding g(1) ip4_deliver_def Let_def f by simp
qed

lemma has_packet_removed:
  assumes p: "has_packet s e p (pn_buf nd # ds)" and nd: "node_at (l_heap s) p = Some nd" and n: "n \<le> plen (pn_buf nd)"
  shows "\<exists>b. pbuf_remove_header (pn_buf nd) n = (0, b) \<and> has_packet (set_buf p nd b s) e p (b # ds) \<and>
    chain_bytes (b # ds) = drop n (chain_bytes (pn_buf nd # ds)) \<and> plen b = plen (pn_buf nd) - n \<and> length (l_heap (set_buf p nd b s)) = length (l_heap s) \<and>
    pf_mem b = pf_mem (pn_buf nd) \<and> pf_off b = pf_off (pn_buf nd) + n \<and> pf_type_internal b = pf_type_internal (pn_buf nd)"
proof -
  have ok: "refs_ok (l_heap s) e" "0 < e p" "chain_at (l_heap s) p = Inr (pn_buf nd # ds)" "wf_chain (pn_buf nd # ds)"
    using p by (simp_all add: has_packet_def)
  obtain b where b: "pbuf_remove_header (pn_buf nd) n = (0, b)" "wf_chain (b # ds)" "pf_type_internal b = pf_type_internal (pn_buf nd)"
      "chain_bytes (b # ds) = drop n (chain_bytes (pn_buf nd # ds))" "plen b = plen (pn_buf nd) - n" "pf_mem b = pf_mem (pn_buf nd)" "pf_off b = pf_off (pn_buf nd) + n"
    using pbuf_remove_header_ok [OF ok(4) n] by blast
  have "refs_ok ((l_heap s)[p := Some (nd\<lparr>pn_buf := b\<rparr>)]) e"
    using refs_write [OF ok(1) nd, of b] remove_header_more [OF b(1)] b(3) by simp
  moreover have "chain_at ((l_heap s)[p := Some (nd\<lparr>pn_buf := b\<rparr>)]) p = Inr (b # ds)" using chain_at_head(2) [OF ok(1) nd ok(3)] .
  ultimately show ?thesis using b ok(2) by (intro exI [of _ b]) (simp add: has_packet_def set_buf_def)
qed

text \<open>Showing the removed header again gives the heap as it was.\<close>

definition header_shown :: "nat \<Rightarrow> nat \<Rightarrow> pheap \<Rightarrow> pheap \<Rightarrow> bool" where
  "header_shown p k h h' \<longleftrightarrow> (\<exists>n b. node_at h p = Some n \<and> pbuf_header_force (pn_buf n) (int k) = Inr (0, b) \<and> h' = h[p := Some (n\<lparr>pn_buf := b\<rparr>)])"

lemma remove_then_force:
  assumes r: "pbuf_remove_header x k = (0, b)" and k: "0 < k" "k \<le> plen x" "plen x \<le> unat (pf_tot_len x)"
  shows "pbuf_header_force b (int k) = Inr (0, x)"
proof -
  have "unat (pf_len x) < 65536" by simp
  then have k16: "k \<le> 65535" using k(2) unfolding plen_def by linarith
  then have u: "unat (of_nat k :: u16) = k" by (intro unat_of_nat_u16) simp
  have le: "of_nat k \<le> pf_len x" "of_nat k \<le> pf_tot_len x" using k u by (simp_all add: word_le_nat_alt plen_def)
  have b: "b = x\<lparr>pf_off := pf_off x + k, pf_len := pf_len x - of_nat k, pf_tot_len := pf_tot_len x - of_nat k\<rparr>"
    using r k(1) k16 le by (simp add: pbuf_remove_header_def)
  have "of_nat k + pf_tot_len b = pf_tot_len x" by (simp add: b)
  then have "\<not> of_nat k + pf_tot_len b < of_nat k" using le(2) by simp
  moreover have "x = b\<lparr>pf_off := pf_off b - k, pf_len := pf_len b + of_nat k, pf_tot_len := pf_tot_len b + of_nat k\<rparr>"
    by (simp add: b)
  moreover have "\<not> pf_off b < k" by (simp add: b)
  ultimately show ?thesis
    using k(1) k16 by (simp add: pbuf_header_force_def pbuf_header_impl_def pbuf_add_header_impl_def Let_def)
qed

lemma ip4_input_delivers_choice:
  assumes p: "has_packet s e p c" and l: "4 \<le> plen (hd c)"
    and dh: "ip_header_ok (chain_bytes c) (plen (hd c)) \<Longrightarrow> input_netif netifs (ld32 (chain_bytes c) 16) inp s = None \<Longrightarrow> dhcp_read c = Inr dh"
    and good: "ip_header_ok (chain_bytes c) (plen (hd c))" "choice_ok dh netifs inp s (chain_bytes c)"
  shows "\<exists>cur h d h' d'. net_choice dh netifs inp s (chain_bytes c) = Some cur \<and>
    ip4_input cb tcp netifs p inp s =
      bindR (ip4_protocol cb tcp netifs (chain_bytes c ! 9) (ip_hlen (chain_bytes c)) p cur inp
          (s\<lparr>l_heap := h, ip_data := delivering cur inp (chain_bytes c)\<rparr>))
        (\<lambda>s. Inr (ERR_OK, s\<lparr>ip_data := ip_data_none\<rparr>)) \<and>
    has_packet (s\<lparr>l_heap := h\<rparr>) e p d \<and> length h = length (l_heap s) \<and>
    chain_bytes d = drop (ip_hlen (chain_bytes c)) (take (ip_total (chain_bytes c)) (chain_bytes c)) \<and>
    plen (hd d) = min (ip_total (chain_bytes c)) (plen (hd c)) - ip_hlen (chain_bytes c) \<and>
    pf_mem (hd d) = pf_mem (hd c) \<and> pf_off (hd d) = pf_off (hd c) + ip_hlen (chain_bytes c) \<and>
    pf_type_internal (hd d) = pf_type_internal (hd c) \<and> links h \<subseteq> links (l_heap s) \<and> length d \<le> length c \<and>
    header_shown p (ip_hlen (chain_bytes c)) h h' \<and> has_packet (s\<lparr>l_heap := h'\<rparr>) e p d' \<and> length h' = length (l_heap s) \<and>
    chain_bytes d' = take (ip_total (chain_bytes c)) (chain_bytes c)"
proof -
  let ?xs = "chain_bytes c"
  let ?cur = "the (net_choice dh netifs inp s ?xs)"
  obtain h nd ds where h: "ip4_input cb tcp netifs p inp s =
        ip4_deliver cb tcp netifs (take (ip_hlen ?xs) ?xs) (ip_hlen ?xs) nd p inp (s\<lparr>l_heap := h\<rparr>)"
      "has_packet (s\<lparr>l_heap := h\<rparr>) e p (pn_buf nd # ds)" "length h = length (l_heap s)" "node_at h p = Some nd"
      "pf_mem (pn_buf nd) = pf_mem (hd c)" "pf_off (pn_buf nd) = pf_off (hd c)"
      "chain_bytes (pn_buf nd # ds) = take (ip_total ?xs) ?xs" "plen (pn_buf nd) = min (ip_total ?xs) (plen (hd c))"
      "pf_type_internal (pn_buf nd) = pf_type_internal (hd c)" "links h \<subseteq> links (l_heap s)" "length (pn_buf nd # ds) \<le> length c"
    using ip4_input_header [OF p l, of cb tcp netifs inp] good(1) by (simp del: chain_bytes_simps) blast
  have rd: "input_netif netifs (ld32 ?xs 16) inp (s\<lparr>l_heap := h\<rparr>) = None \<Longrightarrow>
      dhcp_server_packet (pf_mem (pn_buf nd)) (pf_off (pn_buf nd)) (ip_hlen ?xs) (?xs ! 9) = Inr dh"
    using dh [OF good(1)] by (simp add: h(5,6) dhcp_read_def)
  have hl: "20 \<le> ip_hlen ?xs" "ip_hlen ?xs \<le> plen (pn_buf nd)" using good(1) h(8) by (simp_all add: ip_header_ok_def)
  obtain b where b: "pbuf_remove_header (pn_buf nd) (ip_hlen ?xs) = (0, b)" "has_packet (set_buf p nd b (s\<lparr>l_heap := h\<rparr>)) e p (b # ds)"
      "chain_bytes (b # ds) = drop (ip_hlen ?xs) (chain_bytes (pn_buf nd # ds))" "plen b = plen (pn_buf nd) - ip_hlen ?xs"
      "length (l_heap (set_buf p nd b (s\<lparr>l_heap := h\<rparr>))) = length h" "pf_mem b = pf_mem (pn_buf nd)" "pf_off b = pf_off (pn_buf nd) + ip_hlen ?xs"
      "pf_type_internal b = pf_type_internal (pn_buf nd)"
    using has_packet_removed [OF h(2) _ hl(2)] h(4) by auto
  let ?h = "h[p := Some (nd\<lparr>pn_buf := b\<rparr>)]"
  have lk: "links ?h = links h" using h(4) by (auto simp: links_def nx_def node_at_upd node_at_less split: if_splits)
  have sb: "set_buf p nd b (s\<lparr>l_heap := h, ip_data := delivering ?cur inp ?xs\<rparr>) = s\<lparr>l_heap := ?h, ip_data := delivering ?cur inp ?xs\<rparr>"
    "set_buf p nd b (s\<lparr>l_heap := h\<rparr>) = s\<lparr>l_heap := ?h\<rparr>"
    by (simp_all add: set_buf_def)
  have hb: "header_shown p (ip_hlen ?xs) ?h h"
  proof -
    have "plen (pn_buf nd) \<le> unat (pf_tot_len (pn_buf nd))" using has_packet_wf [OF h(2)] by simp
    then have "pbuf_header_force b (int (ip_hlen ?xs)) = Inr (0, pn_buf nd)"
      using remove_then_force [OF b(1)] hl by simp
    moreover have "node_at ?h p = Some (nd\<lparr>pn_buf := b\<rparr>)" using node_at_less [OF h(4)] by (simp add: node_at_upd)
    moreover have "h = ?h[p := Some ((nd\<lparr>pn_buf := b\<rparr>)\<lparr>pn_buf := pn_buf nd\<rparr>)]"
      using h(4) node_at_less [OF h(4)] list_update_id [of h p] by (simp add: node_at_def)
    ultimately show ?thesis
      unfolding header_shown_def by (intro exI [of _ "nd\<lparr>pn_buf := b\<rparr>"] exI [of _ "pn_buf nd"] conjI) (simp_all del: list_update_overwrite)
  qed
  have run: "ip4_deliver cb tcp netifs (take (ip_hlen ?xs) ?xs) (ip_hlen ?xs) nd p inp (s\<lparr>l_heap := h\<rparr>) =
      bindR (ip4_protocol cb tcp netifs (?xs ! 9) (ip_hlen ?xs) p ?cur inp (s\<lparr>l_heap := ?h, ip_data := delivering ?cur inp ?xs\<rparr>))
        (\<lambda>s. Inr (ERR_OK, s\<lparr>ip_data := ip_data_none\<rparr>))"
    using ip4_deliver_choice [OF hl(1), of netifs inp "s\<lparr>l_heap := h\<rparr>" nd dh cb tcp p] rd
    unfolding choice_heap if_P [OF good(2)] b(1) snd_conv sb(1) by blast
  have cur: "net_choice dh netifs inp s ?xs = Some ?cur" using good(2) by (auto simp: choice_ok_def)
  show ?thesis
    using h(1-3,5-11) run b(2-8) cur lk hb unfolding sb(2)
    by (intro exI [of _ ?cur] exI [of _ ?h] exI [of _ "b # ds"] exI [of _ h] exI [of _ "pn_buf nd # ds"]) (simp del: chain_bytes_simps)
qed

lemma ip4_input_delivers_more:
  assumes p: "has_packet s e p c" and l: "4 \<le> plen (hd c)"
    and port: "chain_bytes c ! 9 = 17 \<longrightarrow> ip_hlen (chain_bytes c) + 4 \<le> plen (hd c)"
    and good: "ip_header_ok (chain_bytes c) (plen (hd c))" "ip_wanted netifs inp s (chain_bytes c)"
  shows "\<exists>cur h d. ip_netif netifs inp s (chain_bytes c) = Some cur \<and>
    ip4_input cb tcp netifs p inp s =
      bindR (ip4_protocol cb tcp netifs (chain_bytes c ! 9) (ip_hlen (chain_bytes c)) p cur inp
          (s\<lparr>l_heap := h, ip_data := delivering cur inp (chain_bytes c)\<rparr>))
        (\<lambda>s. Inr (ERR_OK, s\<lparr>ip_data := ip_data_none\<rparr>)) \<and>
    has_packet (s\<lparr>l_heap := h\<rparr>) e p d \<and> length h = length (l_heap s) \<and>
    chain_bytes d = drop (ip_hlen (chain_bytes c)) (take (ip_total (chain_bytes c)) (chain_bytes c)) \<and>
    plen (hd d) = min (ip_total (chain_bytes c)) (plen (hd c)) - ip_hlen (chain_bytes c) \<and>
    pf_mem (hd d) = pf_mem (hd c) \<and> pf_off (hd d) = pf_off (hd c) + ip_hlen (chain_bytes c) \<and>
    pf_type_internal (hd d) = pf_type_internal (hd c) \<and> links h \<subseteq> links (l_heap s) \<and> length d \<le> length c"
  using ip4_input_delivers_choice [OF p l dhcp_read_port [OF _ _ port] good(1) good(2) [unfolded wanted_choice], where cb = cb and tcp = tcp] has_packet_wf [OF p]
  unfolding wanted_choice by blast

text \<open>The dispatch, and what an unknown protocol gets: an ICMP message for the packet with its header, unless it was a broadcast.\<close>

lemma ip4_protocol_dispatch:
  assumes "header_shown p k h h'"
  shows "ip4_protocol cb tcp netifs proto k p cur inp (s\<lparr>l_heap := h, ip_data := delivering cur inp xs\<rparr>) =
    (let t = s\<lparr>l_heap := h, ip_data := delivering cur inp xs\<rparr>
     in if proto = 17 then udp_input cb netifs p inp t
        else if proto = 6 then tcp p inp t
        else if proto = 1 then icmp_input netifs p inp t
        else if broadcast_on (netifs cur) (ld32 xs 16) \<or> multicast_byte (xs ! 16) then stack_free p t
        else bindR (icmp_dest_unreach netifs p 2 (s\<lparr>l_heap := h', ip_data := delivering cur inp xs\<rparr>)) (stack_free p))"
proof -
  obtain n b where n: "node_at h p = Some n" "pbuf_header_force (pn_buf n) (int k) = Inr (0, b)" "h' = h[p := Some (n\<lparr>pn_buf := b\<rparr>)]"
    using assms by (auto simp: header_shown_def)
  have "current_iphdr_dest (delivering cur inp xs) = ld32 xs 16" by (simp add: delivering_def)
  moreover have "set_buf p n b (s\<lparr>l_heap := h, ip_data := g\<rparr>) = s\<lparr>l_heap := h', ip_data := g\<rparr>" for g
    by (simp add: set_buf_def n(3))
  ultimately show ?thesis
    using n(1,2) by (simp add: ip4_protocol_def Let_def broadcast_code multicast_code deref_def)
qed

text \<open>
  C37: Reception delivers the others, by the protocol in the header: 17 to \<open>udp_input\<close>, 6 to \<open>tcp_input\<close> (a parameter), 1 to
  \<open>icmp_input\<close>. The protocol gets the packet without its header and without what follows the length in the header, as one
  reference, and finds the interface the packet is for, the addresses and the header in the current data, which are cleared
  when it returns. A packet of another protocol is released; unless it was sent to a broadcast or multicast address, the code
  protocol unreachable is first sent for it, with its header shown again. Which packets are for this host is the rule
  \<open>acceptable\<close>; the first buffer has the first four bytes of the packet, and of a UDP packet that no interface takes it has
  the ports.
\<close>

theorem ip4_input_delivers:
  assumes p: "has_packet s e p c" and l: "4 \<le> plen (hd c)"
    and port: "ip_header_ok (chain_bytes c) (plen (hd c)) \<and> dest_netif netifs inp s (chain_bytes c) = None \<and>
      chain_bytes c ! 9 = 17 \<longrightarrow> ip_hlen (chain_bytes c) + 4 \<le> plen (hd c)"
    and good: "ip_header_ok (chain_bytes c) (plen (hd c))" "acceptable netifs inp s (chain_bytes c)"
  shows "\<exists>cur h d h' d'. for_us netifs inp s (chain_bytes c) = Some cur \<and>
    (let proto = chain_bytes c ! 9; t = s\<lparr>l_heap := h, ip_data := delivering cur inp (chain_bytes c)\<rparr>
     in ip4_input cb tcp netifs p inp s =
      bindR (if proto = 17 then udp_input cb netifs p inp t
             else if proto = 6 then tcp p inp t
             else if proto = 1 then icmp_input netifs p inp t
             else if broadcast_on (netifs cur) (ld32 (chain_bytes c) 16) \<or> multicast_byte (chain_bytes c ! 16) then stack_free p t
             else bindR (icmp_dest_unreach netifs p 2 (s\<lparr>l_heap := h', ip_data := delivering cur inp (chain_bytes c)\<rparr>)) (stack_free p))
        (\<lambda>s. Inr (ERR_OK, s\<lparr>ip_data := ip_data_none\<rparr>))) \<and>
    has_packet (s\<lparr>l_heap := h\<rparr>) e p d \<and> length h = length (l_heap s) \<and>
    chain_bytes d = drop (ip_hlen (chain_bytes c)) (take (ip_total (chain_bytes c)) (chain_bytes c)) \<and>
    plen (hd d) = min (ip_total (chain_bytes c)) (plen (hd c)) - ip_hlen (chain_bytes c) \<and>
    has_packet (s\<lparr>l_heap := h'\<rparr>) e p d' \<and> length h' = length (l_heap s) \<and>
    chain_bytes d' = take (ip_total (chain_bytes c)) (chain_bytes c)"
proof -
  obtain cur h d h' d' where f: "for_us netifs inp s (chain_bytes c) = Some cur"
      "ip4_input cb tcp netifs p inp s =
        bindR (ip4_protocol cb tcp netifs (chain_bytes c ! 9) (ip_hlen (chain_bytes c)) p cur inp
            (s\<lparr>l_heap := h, ip_data := delivering cur inp (chain_bytes c)\<rparr>)) (\<lambda>s. Inr (ERR_OK, s\<lparr>ip_data := ip_data_none\<rparr>))"
      "has_packet (s\<lparr>l_heap := h\<rparr>) e p d" "length h = length (l_heap s)"
      "chain_bytes d = drop (ip_hlen (chain_bytes c)) (take (ip_total (chain_bytes c)) (chain_bytes c))"
      "plen (hd d) = min (ip_total (chain_bytes c)) (plen (hd c)) - ip_hlen (chain_bytes c)"
      "header_shown p (ip_hlen (chain_bytes c)) h h'" "has_packet (s\<lparr>l_heap := h'\<rparr>) e p d'" "length h' = length (l_heap s)"
      "chain_bytes d' = take (ip_total (chain_bytes c)) (chain_bytes c)"
    using ip4_input_delivers_choice [OF p l dhcp_read_if [OF p port] good(1), where cb = cb and tcp = tcp] good(2) unfolding choice_code by blast
  then show ?thesis unfolding f(2) ip4_protocol_dispatch [OF f(7)] Let_def by blast
qed

section \<open>Concrete runs\<close>

text \<open>A packet of an unknown protocol for 192.168.2.1 with one byte of payload and one of padding, and one with too large a length.\<close>

definition demo_ip_packet :: "u8 \<Rightarrow> u8 list" where
  "demo_ip_packet len = [0x45, 0, 0, len, 0, 1, 0, 0, 64, 200, 0, 0, 192, 168, 2, 2, 192, 168, 2, 1, 7, 99]"

lemma demo_ip_fields [simp]:
  "length (demo_ip_packet n) = 22" "ip_hlen (demo_ip_packet n) = 20" "ip_total (demo_ip_packet n) = unat n" "demo_ip_packet n ! 9 = 200"
  "demo_ip_packet n ! 12 = 192" "demo_ip_packet n ! 16 = 192"
  "ld32 (demo_ip_packet n) 12 = 0x0202A8C0" "ld32 (demo_ip_packet n) 16 = 0x0102A8C0" "\<not> ip_fragment (demo_ip_packet n)"
  by (simp_all add: demo_ip_packet_def ip_hlen_def ip_total_def ip_fragment_def ld32_def le32_sum)

lemma demo_ip_chain [simp]: "seg_bytes (demo_pbuf (demo_ip_packet n)) = demo_ip_packet n" "chain_bytes [demo_pbuf (demo_ip_packet n)] = demo_ip_packet n" "plen (demo_pbuf (demo_ip_packet n)) = 22"
  using demo_pbuf_facts [of "demo_ip_packet n"] by simp_all

lemma demo_ip_wanted: "for_us (\<lambda>_. demo_ip_nif) 0 (demo_stack bs t) (demo_ip_packet n) = Some 0"
    "acceptable (\<lambda>_. demo_ip_nif) 0 (demo_stack bs t) (demo_ip_packet n)"
    "\<not> broadcast_on demo_ip_nif 0x0102A8C0" "\<not> multicast_byte 192"
proof -
  have u: "host_up demo_ip_nif" "nif_addr demo_ip_nif = 0x0102A8C0" "nif_netmask demo_ip_nif = 0x00FFFFFF"
    by (simp_all add: host_up_def demo_ip_nif_def)
  have b: "\<not> broadcast_on demo_ip_nif 0x0202A8C0"
    using broadcast_code [of "0x0202A8C0" demo_ip_nif] by (simp add: ip4_addr_isbroadcast_u32_def ip4_addr_netcmp_def demo_ip_nif_def)
  show m: "\<not> multicast_byte 192" "\<not> broadcast_on demo_ip_nif 0x0102A8C0"
    using u(2) by (simp_all add: multicast_byte_def broadcast_on_def)
  show f: "for_us (\<lambda>_. demo_ip_nif) 0 (demo_stack bs t) (demo_ip_packet n) = Some 0"
    using u m(1) by (simp add: for_us_def dest_netif_def takes_address_def)
  show "acceptable (\<lambda>_. demo_ip_nif) 0 (demo_stack bs t) (demo_ip_packet n)"
    using f b m(1) by (simp add: acceptable_def source_allowed_def)
qed

theorem ip4_input_rejects_witness:
  "\<exists>h g. ip4_input (\<lambda>_ _ _ _ _. Inr) (\<lambda>_ _. Inr) (\<lambda>_. demo_ip_nif) 0 0 (demo_stack (demo_ip_packet 40) (replicate 10 wiped)) =
     Inr (0, demo_stack (demo_ip_packet 40) (replicate 10 wiped)\<lparr>l_heap := h, ip_data := g\<rparr>)"
proof -
  have "\<not> ip_header_ok (demo_ip_packet 40) 22" by (simp add: ip_header_ok_def)
  then show ?thesis
    using ip4_input_rejects [OF demo_has_packet, of "demo_ip_packet 40" "\<lambda>_. demo_ip_nif" 0 "replicate 10 wiped" "\<lambda>_ _ _ _ _. Inr" "\<lambda>_ _. Inr"] by fastforce
qed

text \<open>A UDP packet for 10.0.0.1 of a header of 40 bytes and nothing else.\<close>

definition bare_header :: "u8 list" where
  "bare_header = [0x4A, 0, 0, 40, 0, 1, 0, 0, 64, 17, 0, 0, 192, 168, 2, 2, 10, 0, 0, 1] @ replicate 20 0"

lemma ip4_input_overreads_witness:
  "ip4_input (\<lambda>_ _ _ _ _. Inr) (\<lambda>_ _. Inr) (\<lambda>_. demo_ip_nif) 0 0 (demo_stack bare_header (replicate 10 wiped)) = Inl STACK_OVERREAD"
proof -
  let ?s = "demo_stack bare_header (replicate 10 wiped)" and ?c = "[demo_pbuf bare_header]"
  have b: "length bare_header = 40" "ip_hlen bare_header = 40" "ip_total bare_header = 40" "bare_header ! 9 = 17" "bare_header ! 0 = 0x4A"
      "bare_header ! 16 = 10" "ld32 bare_header 16 = 0x0100000A"
    by (simp_all add: bare_header_def ip_hlen_def ip_total_def ld32_def le32_sum)
  have x: "chain_bytes ?c = bare_header" "plen (hd ?c) = 40" "length (pf_mem (hd ?c)) = 56" "pf_off (hd ?c) = 16"
    using demo_pbuf_facts [of bare_header] b(1) by (simp_all add: demo_pbuf_def)
  have "\<not> takes_address demo_ip_nif 0x0100000A"
    using broadcast_code [of "0x0100000A" demo_ip_nif]
    by (simp add: takes_address_def ip4_addr_isbroadcast_u32_def ip4_addr_netcmp_def demo_ip_nif_def)
  then have d: "dest_netif (\<lambda>_. demo_ip_nif) 0 ?s bare_header = None"
    by (simp add: dest_netif_def multicast_byte_def b)
  have "has_packet ?s one_packet 0 ?c" using demo_has_packet [of bare_header] b(1) by simp
  from ip4_input_overreads [OF this, unfolded x, where netifs = "\<lambda>_. demo_ip_nif" and inp = 0] show ?thesis
    using d by (simp add: b ip_header_ok_def)
qed

theorem ip4_input_delivers_witness:
  "\<exists>h d. ip4_input (\<lambda>_ _ _ _ _. Inr) (\<lambda>_ _. Inr) (\<lambda>_. demo_ip_nif) 0 0 (demo_stack (demo_ip_packet 21) (replicate 10 wiped)) =
      bindR (bindR (icmp_dest_unreach (\<lambda>_. demo_ip_nif) 0 2
            (demo_stack (demo_ip_packet 21) (replicate 10 wiped)\<lparr>l_heap := h, ip_data := delivering 0 0 (demo_ip_packet 21)\<rparr>)) (stack_free 0))
        (\<lambda>s. Inr (0, s\<lparr>ip_data := ip_data_none\<rparr>)) \<and> chain_bytes d = take 21 (demo_ip_packet 21)"
proof -
  let ?s = "demo_stack (demo_ip_packet 21) (replicate 10 wiped)" and ?c = "[demo_pbuf (demo_ip_packet 21)]"
  have x: "chain_bytes ?c = demo_ip_packet 21" "plen (hd ?c) = 22" by simp_all
  have hd: "ip_header_ok (chain_bytes ?c) (plen (hd ?c))" unfolding x by (simp add: ip_header_ok_def) (simp add: demo_ip_packet_def)
  have ac: "acceptable (\<lambda>_. demo_ip_nif) 0 ?s (chain_bytes ?c)" unfolding x by (rule demo_ip_wanted)
  have l: "4 \<le> plen (hd ?c)" and pt: "ip_header_ok (chain_bytes ?c) (plen (hd ?c)) \<and> dest_netif (\<lambda>_. demo_ip_nif) 0 ?s (chain_bytes ?c) = None \<and>
      chain_bytes ?c ! 9 = 17 \<longrightarrow> ip_hlen (chain_bytes ?c) + 4 \<le> plen (hd ?c)"
    unfolding x by simp_all
  have i: "length (demo_ip_packet 21) < 60000" by simp
  show ?thesis
    using ip4_input_delivers [OF demo_has_packet l pt hd ac, of "\<lambda>_ _ _ _ _. Inr" "\<lambda>_ _. Inr"] demo_ip_wanted
    unfolding x by (auto simp: Let_def)
qed

end
