(* ===== verification/UdpInProps.thy ===== *)
theory UdpInProps
  imports Ip4InProps "HOL-Library.Multiset"
begin

text \<open>
  Delivery of datagrams: which control block gets a datagram, stated on the list of blocks as a whole, and what the
  callback of the block is given.
\<close>

section \<open>The choice of the block\<close>

text \<open>\<open>sp\<close> and \<open>dp\<close> are the ports of the datagram.\<close>

definition local_match :: "(nat \<Rightarrow> netif) \<Rightarrow> stack \<Rightarrow> nat \<Rightarrow> bool \<Rightarrow> u16 \<Rightarrow> nat \<Rightarrow> bool" where
  "local_match netifs s inp bc dp i \<longleftrightarrow> up_local_port (udp_mem s i) = dp \<and> udp_input_local_match netifs (ip_data s) inp bc (udp_mem s i)"

definition perfect_match :: "(nat \<Rightarrow> netif) \<Rightarrow> stack \<Rightarrow> nat \<Rightarrow> bool \<Rightarrow> u16 \<Rightarrow> u16 \<Rightarrow> nat \<Rightarrow> bool" where
  "perfect_match netifs s inp bc sp dp i \<longleftrightarrow> local_match netifs s inp bc dp i \<and> up_remote_port (udp_mem s i) = sp \<and>
     (up_remote_ip (udp_mem s i) = 0 \<or> up_remote_ip (udp_mem s i) = current_iphdr_src (ip_data s))"

definition unconnected :: "(nat \<Rightarrow> netif) \<Rightarrow> stack \<Rightarrow> nat \<Rightarrow> bool \<Rightarrow> u16 \<Rightarrow> nat list" where
  "unconnected netifs s inp bc dp = filter (\<lambda>i. local_match netifs s inp bc dp i \<and> up_flags (udp_mem s i) AND 4 = 0) (udp_pcbs s)"

text \<open>Among unconnected blocks the first, or for a limited broadcast the first with the address of the interface if there is one.\<close>

definition preferred :: "(nat \<Rightarrow> netif) \<Rightarrow> stack \<Rightarrow> nat \<Rightarrow> bool \<Rightarrow> nat list \<Rightarrow> nat option" where
  "preferred netifs s inp bc us =
     (case us of
        [] \<Rightarrow> None
      | u # _ \<Rightarrow>
          if bc \<and> current_iphdr_dest (ip_data s) = 0xFFFFFFFF
          then case find (\<lambda>i. up_local_ip (udp_mem s i) = nif_addr (netifs inp)) us of Some i \<Rightarrow> Some i | None \<Rightarrow> Some u
          else Some u)"

definition udp_target :: "(nat \<Rightarrow> netif) \<Rightarrow> stack \<Rightarrow> nat \<Rightarrow> bool \<Rightarrow> u16 \<Rightarrow> u16 \<Rightarrow> nat option" where
  "udp_target netifs s inp bc sp dp =
     (case find (perfect_match netifs s inp bc sp dp) (udp_pcbs s) of
        Some i \<Rightarrow> Some i
      | None \<Rightarrow> preferred netifs s inp bc (unconnected netifs s inp bc dp))"

text \<open>What the loop has chosen so far, continued.\<close>

definition better :: "(nat \<Rightarrow> netif) \<Rightarrow> stack \<Rightarrow> nat \<Rightarrow> bool \<Rightarrow> nat option \<Rightarrow> nat list \<Rightarrow> nat option" where
  "better netifs s inp bc uncon us = preferred netifs s inp bc ((case uncon of None \<Rightarrow> [] | Some u \<Rightarrow> [u]) @ us)"

lemma better_step:
  "better netifs s inp bc uncon (i # us) =
     better netifs s inp bc (case uncon of None \<Rightarrow> Some i
       | Some u \<Rightarrow> if bc \<and> current_iphdr_dest (ip_data s) = IPADDR_BROADCAST \<and> up_local_ip (udp_mem s u) \<noteq> nif_addr (netifs inp) \<and>
                     up_local_ip (udp_mem s i) = nif_addr (netifs inp) then Some i else Some u) us"
  by (auto simp: better_def preferred_def split: option.splits)

lemma udp_search_perfect:
  "fst (udp_search netifs (udp_mem s) (ip_data s) inp bc sp dp uncon is) = find (perfect_match netifs s inp bc sp dp) is"
  by (induction "is" arbitrary: uncon) (auto simp: perfect_match_def local_match_def Let_def)

lemma udp_search_uncon:
  "find (perfect_match netifs s inp bc sp dp) is = None \<Longrightarrow>
   snd (udp_search netifs (udp_mem s) (ip_data s) inp bc sp dp uncon is) =
     better netifs s inp bc uncon (filter (\<lambda>i. local_match netifs s inp bc dp i \<and> up_flags (udp_mem s i) AND 4 = 0) is)"
proof (induction "is" arbitrary: uncon)
  case Nil
  then show ?case by (auto simp: better_def preferred_def split: option.splits)
next
  case (Cons i js)
  have np: "\<not> perfect_match netifs s inp bc sp dp i" "find (perfect_match netifs s inp bc sp dp) js = None"
    using Cons.prems by (simp_all split: if_splits)
  show ?case
  proof (cases "local_match netifs s inp bc dp i")
    case False
    then have "udp_search netifs (udp_mem s) (ip_data s) inp bc sp dp uncon (i # js) = udp_search netifs (udp_mem s) (ip_data s) inp bc sp dp uncon js"
      by (auto simp: local_match_def)
    then show ?thesis using False Cons.IH [OF np(2), of uncon] by (simp del: udp_search.simps)
  next
    case True
    have "udp_search netifs (udp_mem s) (ip_data s) inp bc sp dp uncon (i # js) =
        udp_search netifs (udp_mem s) (ip_data s) inp bc sp dp (udp_uncon netifs (udp_mem s) (ip_data s) inp bc uncon i) js"
      using True np(1) by (auto simp: local_match_def perfect_match_def Let_def)
    then show ?thesis
      using True Cons.IH [OF np(2), of "udp_uncon netifs (udp_mem s) (ip_data s) inp bc uncon i"]
      by (cases "up_flags (udp_mem s i) AND 4 = 0"; cases uncon) (simp_all add: udp_uncon_def better_step del: udp_search.simps)
  qed
qed

lemma udp_search_target:
  assumes "udp_search netifs (udp_mem s) (ip_data s) inp bc sp dp None (udp_pcbs s) = (perfect, uncon)"
  shows "(case perfect of None \<Rightarrow> uncon | Some i \<Rightarrow> Some i) = udp_target netifs s inp bc sp dp"
    "perfect = find (perfect_match netifs s inp bc sp dp) (udp_pcbs s)"
  using assms udp_search_perfect [of netifs s inp bc sp dp None "udp_pcbs s"] udp_search_uncon [of netifs s inp bc sp dp "udp_pcbs s" None]
  by (auto simp: udp_target_def better_def unconnected_def split: option.splits)

section \<open>The datagram\<close>

definition udp_sport :: "u8 list \<Rightarrow> u16" where
  "udp_sport xs = le16 (xs ! 1) (xs ! 0)"

definition udp_dport :: "u8 list \<Rightarrow> u16" where
  "udp_dport xs = le16 (xs ! 3) (xs ! 2)"

definition udp_broadcast :: "(nat \<Rightarrow> netif) \<Rightarrow> stack \<Rightarrow> bool" where
  "udp_broadcast netifs s \<longleftrightarrow> ip4_addr_isbroadcast_u32 (current_iphdr_dest (ip_data s)) (netifs (the (current_netif (ip_data s))))"

definition udp_block :: "(nat \<Rightarrow> netif) \<Rightarrow> stack \<Rightarrow> nat \<Rightarrow> u8 list \<Rightarrow> nat option" where
  "udp_block netifs s inp xs = udp_target netifs s inp (udp_broadcast netifs s) (udp_sport xs) (udp_dport xs)"

text \<open>A block that matches completely moves to the front of the list.\<close>

definition udp_order :: "(nat \<Rightarrow> netif) \<Rightarrow> stack \<Rightarrow> nat \<Rightarrow> u8 list \<Rightarrow> nat list" where
  "udp_order netifs s inp xs =
     (case find (perfect_match netifs s inp (udp_broadcast netifs s) (udp_sport xs) (udp_dport xs)) (udp_pcbs s) of
        None \<Rightarrow> udp_pcbs s | Some i \<Rightarrow> i # remove1 i (udp_pcbs s))"

lemma find_in: "find P xs = Some i \<Longrightarrow> i \<in> set xs \<and> P i"
  by (induction xs) (auto split: if_splits)

lemma udp_order_mset: "mset (udp_order netifs s inp xs) = mset (udp_pcbs s)"
proof (cases "find (perfect_match netifs s inp (udp_broadcast netifs s) (udp_sport xs) (udp_dport xs)) (udp_pcbs s)")
  case (Some i)
  then have "i \<in># mset (udp_pcbs s)" using find_in by fastforce
  then show ?thesis using Some by (simp add: udp_order_def)
qed (simp add: udp_order_def)

text \<open>\<open>udp_input\<close> up to the choice of the block.\<close>

lemma udp_input_eq:
  assumes p: "has_packet s e p c" and l: "8 \<le> plen (hd c)" and cur: "current_netif (ip_data s) \<noteq> None"
  shows "\<exists>h d. has_packet (s\<lparr>l_heap := h\<rparr>) e p d \<and> length h = length (l_heap s) \<and> chain_bytes d = drop 8 (chain_bytes c) \<and>
    pf_mem (hd d) = pf_mem (hd c) \<and> pf_off (hd d) = pf_off (hd c) + 8 \<and>
    udp_input cb netifs p inp s =
      (let s0 = s\<lparr>udp_pcbs := udp_order netifs s inp (chain_bytes c)\<rparr>; s1 = s0\<lparr>l_heap := h\<rparr>
       in case udp_block netifs s inp (chain_bytes c) of
            None \<Rightarrow> if nif_addr (netifs inp) \<noteq> current_iphdr_dest (ip_data s) then stack_free p s0 else udp_no_port netifs (udp_broadcast netifs s) p s1
          | Some i \<Rightarrow>
              (case up_recv (udp_mem s i) of
                 None \<Rightarrow> stack_free p s1
               | Some f \<Rightarrow> cb f i p (current_iphdr_src (ip_data s)) (udp_sport (chain_bytes c)) s1))"
proof -
  let ?xs = "chain_bytes c"
  obtain nd ds where nd: "deref (l_heap s) p = Inr nd" "node_at (l_heap s) p = Some nd" "c = pn_buf nd # ds" and w: "wf_chain (pn_buf nd # ds)"
    using p by (rule has_packetE) auto
  let ?b = "pn_buf nd"
  obtain cur where cur: "current_netif (ip_data s) = Some cur" using cur by auto
  have l8: "8 \<le> plen ?b" using l nd(3) by simp
  obtain b where b: "pbuf_remove_header ?b 8 = (0, b)" "has_packet (set_buf p nd b s) e p (b # ds)"
      "chain_bytes (b # ds) = drop 8 (chain_bytes (?b # ds))" "length (l_heap (set_buf p nd b s)) = length (l_heap s)" "pf_mem b = pf_mem ?b" "pf_off b = pf_off ?b + 8"
    using has_packet_removed [OF p [unfolded nd(3)] nd(2) l8] by blast
  let ?h = "(l_heap s)[p := Some (nd\<lparr>pn_buf := b\<rparr>)]"
  define hdr where "hdr = ld_bytes (pf_mem ?b) (pf_off ?b) 8"
  have "8 \<le> length (pf_mem ?b) - pf_off ?b" using w l8 by (simp, linarith)
  then have hl: "length hdr = 8" by (simp add: hdr_def ld_bytes_def)
  have nth: "hdr ! i = ?xs ! i" if "i < 8" for i
  proof -
    have "hdr ! i = pf_mem ?b ! (pf_off ?b + i)" unfolding hdr_def using that w l8 by (intro ld_nth) auto
    then show ?thesis using chain_nth [OF w, of i] that l8 by (simp add: nd(3))
  qed
  have ports: "lwip_htons (ld16 hdr 0) = udp_sport ?xs" "lwip_htons (ld16 hdr 2) = udp_dport ?xs"
    using nth [of 0] nth [of 1] nth [of 2] nth [of 3] by (simp_all add: ld16_def lwip_htons_le16 udp_sport_def udp_dport_def)
  have bc: "ip4_addr_isbroadcast_u32 (current_iphdr_dest (ip_data s)) (netifs cur) = udp_broadcast netifs s"
    by (simp add: udp_broadcast_def cur)
  obtain perfect uncon where sr: "udp_search netifs (udp_mem s) (ip_data s) inp (udp_broadcast netifs s) (udp_sport ?xs) (udp_dport ?xs) None (udp_pcbs s) = (perfect, uncon)"
    by (cases "udp_search netifs (udp_mem s) (ip_data s) inp (udp_broadcast netifs s) (udp_sport ?xs) (udp_dport ?xs) None (udp_pcbs s)") auto
  note tg = udp_search_target [OF sr]
  let ?s0 = "s\<lparr>udp_pcbs := udp_order netifs s inp ?xs\<rparr>"
  have order: "(case perfect of None \<Rightarrow> s | Some i \<Rightarrow> s\<lparr>udp_pcbs := i # remove1 i (udp_pcbs s)\<rparr>) = ?s0"
    unfolding udp_order_def tg(2) [symmetric] by (cases perfect) simp_all
  have sb: "set_buf p nd b ?s0 = ?s0\<lparr>l_heap := ?h\<rparr>" "set_buf p nd b s = s\<lparr>l_heap := ?h\<rparr>" by (simp_all add: set_buf_def)
  have run: "udp_input cb netifs p inp s =
      (let pcb = udp_block netifs s inp ?xs
       in if pcb = None \<and> nif_addr (netifs inp) \<noteq> current_iphdr_dest (ip_data s) then stack_free p ?s0
          else case pcb of
            None \<Rightarrow> udp_no_port netifs (udp_broadcast netifs s) p (?s0\<lparr>l_heap := ?h\<rparr>)
          | Some i \<Rightarrow> (case up_recv (udp_mem s i) of None \<Rightarrow> stack_free p (?s0\<lparr>l_heap := ?h\<rparr>)
              | Some f \<Rightarrow> cb f i p (current_iphdr_src (ip_data s)) (udp_sport ?xs) (?s0\<lparr>l_heap := ?h\<rparr>)))"
    using nd(1) hl l8 b(1) tg(1) unfolding udp_input_def
    by (simp add: cur ports bc sr order sb Let_def udp_block_def del: deref_Inr flip: hdr_def split: option.split)
  show ?thesis
    using b run nd(3) sb(2) by (intro exI [of _ ?h] exI [of _ "b # ds"]) (auto simp: Let_def simp del: chain_bytes_simps split: option.splits)
qed

end
