(* ===== verification/UdpSend.thy ===== *)
theory UdpSend
  imports UdpInProps
begin

text \<open>
  Sending a datagram to a resolved address: the frame handed to the interface, byte for byte; and the way back, from the frame
  to the callback of the receiver.
\<close>

section \<open>Headers in front of a packet\<close>

definition room :: "pbuf \<Rightarrow> nat \<Rightarrow> bool" where
  "room b k \<longleftrightarrow> k \<le> pf_off b \<and> pf_off b \<le> length (pf_mem b) \<and> pf_type_internal b AND 0x80 \<noteq> 0 \<and>
     unat (pf_tot_len b) + k < 65536 \<and> plen b + k < 65536"

lemma push_header:
  assumes r: "room b (k + m)" and k: "0 < k"
  shows "\<exists>b'. pbuf_add_header b k = Inr (0, b') \<and> plen b' = plen b + k \<and> unat (pf_tot_len b') = unat (pf_tot_len b) + k \<and> pf_ref b' = pf_ref b \<and>
    (\<forall>hdr. length hdr = k \<longrightarrow> seg_bytes (put_bytes b' 0 hdr) = hdr @ seg_bytes b \<and> room (put_bytes b' 0 hdr) m \<and>
       pf_ref (put_bytes b' 0 hdr) = pf_ref b \<and> pf_type_internal (put_bytes b' 0 hdr) = pf_type_internal b \<and> pf_flags (put_bytes b' 0 hdr) = pf_flags b)"
proof -
  let ?w = "of_nat k :: u16"
  let ?b = "b\<lparr>pf_off := pf_off b - k, pf_len := pf_len b + ?w, pf_tot_len := pf_tot_len b + ?w\<rparr>"
  have k16: "k < 65536" using r by (simp add: room_def)
  have w: "unat ?w = k" using k16 by (rule unat_of_nat_u16)
  have t: "unat (pf_tot_len b + ?w) = unat (pf_tot_len b) + k" "unat (pf_len b + ?w) = unat (pf_len b) + k"
    using r w by (simp_all add: room_def plen_def unat_word_ariths)
  have nw: "\<not> ?w + pf_tot_len b < ?w"
  proof -
    have "unat (?w + pf_tot_len b) = unat (pf_tot_len b) + k" using t(1) by (simp add: add.commute)
    then show ?thesis using w by (simp add: word_less_nat_alt)
  qed
  have add: "pbuf_add_header b k = Inr (0, ?b)"
    using r nw k k16 by (simp add: pbuf_add_header_def pbuf_add_header_impl_def Let_def room_def)
  have p: "plen ?b = plen b + k" using t(2) by (simp add: plen_def)
  have "seg_bytes (put_bytes ?b 0 hdr) = hdr @ seg_bytes b \<and> room (put_bytes ?b 0 hdr) m" if h: "length hdr = k" for hdr
  proof -
    have off: "pf_off b - k \<le> length (pf_mem b)" "pf_off b - k + k = pf_off b" "m \<le> pf_off b - k" using r unfolding room_def by linarith+
    have "ld_bytes (st_bytes (pf_mem b) (pf_off b - k) hdr) (pf_off b - k) (length hdr + plen b) = hdr @ ld_bytes (pf_mem b) (pf_off b) (plen b)"
      using ld_st_front [of "pf_off b - k" "pf_mem b" hdr "plen b"] off h by simp
    moreover have "plen (put_bytes ?b 0 hdr) = length hdr + plen b" using p h by simp
    ultimately have "seg_bytes (put_bytes ?b 0 hdr) = hdr @ seg_bytes b" by (simp add: seg_bytes_def put_bytes_def)
    moreover have "room (put_bytes ?b 0 hdr) m"
      using r h p t(1) off by (simp add: room_def put_bytes_def plen_def)
    ultimately show ?thesis by blast
  qed
  then show ?thesis using add p t(1) by (intro exI [of _ ?b]) simp
qed

text \<open>The same for the packet in the heap.\<close>

lemma push_packet:
  assumes p: "has_packet s e p (pn_buf nd # ds)" and nd: "node_at (l_heap s) p = Some nd" and r: "room (pn_buf nd) (k + m)" and k: "0 < k"
  shows "\<exists>b'. pbuf_add_header (pn_buf nd) k = Inr (0, b') \<and> plen b' = plen (pn_buf nd) + k \<and>
    unat (pf_tot_len b') = unat (pf_tot_len (pn_buf nd)) + k \<and>
    (\<forall>hdr. length hdr = k \<longrightarrow>
      (let b2 = put_bytes b' 0 hdr; s2 = set_buf p nd b2 s
       in has_packet s2 e p (b2 # ds) \<and> node_at (l_heap s2) p = Some (nd\<lparr>pn_buf := b2\<rparr>) \<and> room b2 m \<and>
          chain_bytes (b2 # ds) = hdr @ chain_bytes (pn_buf nd # ds) \<and> pf_ref b2 = pf_ref (pn_buf nd) \<and>
          unat (pf_tot_len b2) = unat (pf_tot_len (pn_buf nd)) + k \<and> length (l_heap s2) = length (l_heap s)))"
proof -
  have ok: "refs_ok (l_heap s) e" "0 < e p" "chain_at (l_heap s) p = Inr (pn_buf nd # ds)" "wf_chain (pn_buf nd # ds)"
    using p by (simp_all add: has_packet_def)
  obtain b' where b': "pbuf_add_header (pn_buf nd) k = Inr (0, b')" "plen b' = plen (pn_buf nd) + k"
      "unat (pf_tot_len b') = unat (pf_tot_len (pn_buf nd)) + k"
      "\<And>hdr. length hdr = k \<Longrightarrow> seg_bytes (put_bytes b' 0 hdr) = hdr @ seg_bytes (pn_buf nd) \<and> room (put_bytes b' 0 hdr) m \<and>
         pf_ref (put_bytes b' 0 hdr) = pf_ref (pn_buf nd) \<and> pf_type_internal (put_bytes b' 0 hdr) = pf_type_internal (pn_buf nd) \<and>
         pf_flags (put_bytes b' 0 hdr) = pf_flags (pn_buf nd)"
    using push_header [OF r k] by blast
  have "let b2 = put_bytes b' 0 hdr; s2 = set_buf p nd b2 s
       in has_packet s2 e p (b2 # ds) \<and> node_at (l_heap s2) p = Some (nd\<lparr>pn_buf := b2\<rparr>) \<and> room b2 m \<and>
          chain_bytes (b2 # ds) = hdr @ chain_bytes (pn_buf nd # ds) \<and> pf_ref b2 = pf_ref (pn_buf nd) \<and>
          unat (pf_tot_len b2) = unat (pf_tot_len (pn_buf nd)) + k \<and> length (l_heap s2) = length (l_heap s)" if h: "length hdr = k" for hdr
  proof -
    let ?b = "put_bytes b' 0 hdr"
    note f = b'(4) [OF h]
    have "refs_ok ((l_heap s)[p := Some (nd\<lparr>pn_buf := ?b\<rparr>)]) e" using refs_write [OF ok(1) nd, of ?b] f by simp
    moreover have "chain_at ((l_heap s)[p := Some (nd\<lparr>pn_buf := ?b\<rparr>)]) p = Inr (?b # ds)" using chain_at_head(2) [OF ok(1) nd ok(3)] .
    moreover have "wf_chain (?b # ds)"
    proof -
      have "length (seg_bytes ?b) = plen ?b" using f length_seg_bytes [of "pn_buf nd"] ok(4) h b'(2) by simp
      moreover have "pf_off ?b \<le> length (pf_mem ?b)" using f by (simp add: room_def)
      ultimately have "pf_off ?b + plen ?b \<le> length (pf_mem ?b)" by (auto simp: seg_bytes_def ld_bytes_def min_def split: if_splits)
      then show ?thesis using ok(4) b'(2,3) by simp
    qed
    ultimately show ?thesis
      using ok(2) nd f b'(3) node_at_less [OF nd] by (simp add: has_packet_def set_buf_def node_at_upd Let_def)
  qed
  then show ?thesis using b'(1-3) by blast
qed

section \<open>A resolved address\<close>

definition entry_for :: "nat \<Rightarrow> u32 \<Rightarrow> etharp_entry \<Rightarrow> bool" where
  "entry_for n dst e \<longleftrightarrow> stable_state (e_state e) \<and> e_netif e = Some n \<and> dst = e_ipaddr e"

text \<open>The next hop has an entry with address \<open>hw\<close> that is not due for a new request.\<close>

definition arp_fresh :: "netif \<Rightarrow> 'a arp_scheme \<Rightarrow> nat \<Rightarrow> u32 \<Rightarrow> u8 list \<Rightarrow> bool" where
  "arp_fresh ni a n ip hw \<longleftrightarrow> \<not> ip4_addr_isbroadcast_u32 ip ni \<and> \<not> ip4_addr_ismulticast ip \<and> etharp_cached_entry a < length (arp_table a) \<and> length hw = 6 \<and>
     (\<exists>dst. next_hop ni ip = Some dst \<and> (\<exists>e \<in> set (arp_table a). entry_for n dst e) \<and>
       (\<forall>e \<in> set (arp_table a). entry_for n dst e \<longrightarrow> e_ethaddr e = hw \<and> \<not> (e_state e = ETHARP_STATE_STABLE \<and> 270 \<le> unat (e_ctime e))))"

lemma find_stable_none: "find_stable k es n dst = None \<Longrightarrow> e \<in> set es \<Longrightarrow> \<not> entry_for n dst e"
  by (induction k es n dst rule: find_stable.induct) (auto simp: entry_for_def split: if_splits)

lemma to_index_fresh:
  assumes st: "stable_state (e_state (arp_table a ! i))" and fr: "\<not> (e_state (arp_table a ! i) = ETHARP_STATE_STABLE \<and> 270 \<le> unat (e_ctime (arp_table a ! i)))"
  shows "etharp_output_to_arp_index netifs n q i a = ethernet_output netifs n q (nif_hwaddr (netifs n)) (e_ethaddr (arp_table a ! i)) ETHTYPE_IP a"
  using assms by (auto simp: etharp_output_to_arp_index_def Let_def)

lemma etharp_output_fresh:
  assumes p: "has_packet a e p (pn_buf nd # ds)" and nd: "node_at (l_heap a) p = Some nd" and r: "room (pn_buf nd) 14"
    and fr: "arp_fresh (netifs n) a n ip hw" and hw: "all_nif_ok netifs"
  defines "frame \<equiv> eth_hdr_bytes hw (nif_hwaddr (netifs n)) ETHTYPE_IP @ chain_bytes (pn_buf nd # ds)"
  shows "\<exists>j b'. etharp_output netifs n p ip a = Inr (nif_linkoutput (netifs n) frame,
      a\<lparr>etharp_cached_entry := j, l_heap := (l_heap a)[p := Some (nd\<lparr>pn_buf := b'\<rparr>)], l_out := l_out a @ [(n, frame)]\<rparr>) \<and>
      pf_ref b' = pf_ref (pn_buf nd) \<and> pf_type_internal b' = pf_type_internal (pn_buf nd) \<and> pf_flags b' = pf_flags (pn_buf nd)"
proof -
  obtain dst where uni: "\<not> ip4_addr_isbroadcast_u32 ip (netifs n)" "\<not> ip4_addr_ismulticast ip" "etharp_cached_entry a < length (arp_table a)" "length hw = 6"
      and nh: "next_hop (netifs n) ip = Some dst" and ex: "\<exists>e \<in> set (arp_table a). entry_for n dst e"
      and al: "\<forall>e \<in> set (arp_table a). entry_for n dst e \<longrightarrow> e_ethaddr e = hw \<and> \<not> (e_state e = ETHARP_STATE_STABLE \<and> 270 \<le> unat (e_ctime e))"
    using fr unfolding arp_fresh_def by blast
  have all: "e_ethaddr (arp_table a ! i) = hw \<and> \<not> (e_state (arp_table a ! i) = ETHARP_STATE_STABLE \<and> 270 \<le> unat (e_ctime (arp_table a ! i)))"
    if "i < length (arp_table a)" "entry_for n dst (arp_table a ! i)" for i
    using al that nth_mem by blast
  have h6: "length (nif_hwaddr (netifs n)) = 6" using all_nif_okD [OF hw, of n] by (simp add: nif_ok_def)
  have ok: "refs_ok (l_heap a) e" "chain_at (l_heap a) p = Inr (pn_buf nd # ds)" using p by (simp_all add: has_packet_def)
  have hr: "has_room (pn_buf nd)" using r by (simp add: room_def has_room_def)
  have send: "\<exists>b'. ethernet_output netifs n p (nif_hwaddr (netifs n)) hw ETHTYPE_IP (a\<lparr>etharp_cached_entry := j\<rparr>) =
      Inr (nif_linkoutput (netifs n) frame, a\<lparr>etharp_cached_entry := j, l_heap := (l_heap a)[p := Some (nd\<lparr>pn_buf := b'\<rparr>)], l_out := l_out a @ [(n, frame)]\<rparr>) \<and>
      pf_ref b' = pf_ref (pn_buf nd) \<and> pf_type_internal b' = pf_type_internal (pn_buf nd) \<and> pf_flags b' = pf_flags (pn_buf nd)" for j
    using ethernet_output_frame [of "a\<lparr>etharp_cached_entry := j\<rparr>" e p nd "pn_buf nd" ds hw "nif_hwaddr (netifs n)" netifs n ETHTYPE_IP]
      ok nd hr uni(4) h6 unfolding frame_def by simp
  have at: "\<exists>b'. etharp_output_to_arp_index netifs n p j (a\<lparr>etharp_cached_entry := j\<rparr>) =
      Inr (nif_linkoutput (netifs n) frame, a\<lparr>etharp_cached_entry := j, l_heap := (l_heap a)[p := Some (nd\<lparr>pn_buf := b'\<rparr>)], l_out := l_out a @ [(n, frame)]\<rparr>) \<and>
      pf_ref b' = pf_ref (pn_buf nd) \<and> pf_type_internal b' = pf_type_internal (pn_buf nd) \<and> pf_flags b' = pf_flags (pn_buf nd)"
    if j: "j < length (arp_table a)" "entry_for n dst (arp_table a ! j)" for j
  proof -
    have "etharp_output_to_arp_index netifs n p j (a\<lparr>etharp_cached_entry := j\<rparr>) =
        ethernet_output netifs n p (nif_hwaddr (netifs n)) hw ETHTYPE_IP (a\<lparr>etharp_cached_entry := j\<rparr>)"
      using to_index_fresh [of "a\<lparr>etharp_cached_entry := j\<rparr>" j netifs n p] all [OF j] j(2) by (simp add: entry_for_def)
    then show ?thesis using send [of j] by simp
  qed
  let ?c = "etharp_cached_entry a"
  show ?thesis
  proof (cases "entry_for n dst (arp_table a ! ?c)")
    case True
    then have "etharp_output netifs n p ip a = etharp_output_to_arp_index netifs n p ?c (a\<lparr>etharp_cached_entry := ?c\<rparr>)"
      using uni nh by (simp add: etharp_output_def Let_def entry_for_def)
    then show ?thesis using at [OF uni(3) True] by (metis)
  next
    case False
    obtain i where i: "find_stable 0 (arp_table a) n dst = Some i"
      using ex find_stable_none [of 0 "arp_table a" n dst] by (cases "find_stable 0 (arp_table a) n dst") auto
    have "i < length (arp_table a)" "entry_for n dst (arp_table a ! i)"
      using find_stable_some [OF i] by (simp_all add: entry_for_def is_stable_def)
    moreover have "etharp_output netifs n p ip a = etharp_output_to_arp_index netifs n p i (a\<lparr>etharp_cached_entry := i\<rparr>)"
      using uni nh i False by (auto simp: etharp_output_def Let_def entry_for_def)
    ultimately show ?thesis using at by metis
  qed
qed

section \<open>Sending\<close>

lemma length_ip_hdr [simp]: "length (ip_hdr_bytes tos len ident ttl proto src dst) = 20"
  by (simp add: ip_hdr_bytes_def)

lemma length_udp_hdr [simp]: "length (udp_hdr_bytes sp dp len) = 8"
  by (simp add: udp_hdr_bytes_def)

lemma set_buf_stack [simp]:
  "ip_id (set_buf p nd b s) = ip_id s" "udp_mem (set_buf p nd b s) = udp_mem s" "l_out (set_buf p nd b s) = l_out s" "ip_data (set_buf p nd b s) = ip_data s"
  by (simp_all add: set_buf_def)

lemma u16_unat: "unat x = unat y + k \<Longrightarrow> (x :: u16) = y + of_nat k"
  by (metis of_nat_add of_nat_unat ucast_id)

lemma ip4_output_sends:
  assumes p: "has_packet s e p (pn_buf nd # ds)" and nd: "node_at (l_heap s) p = Some nd" and r: "room (pn_buf nd) 34" and one: "pf_ref (pn_buf nd) = 1"
    and fr: "arp_fresh (netifs n) s n d hw" and hw: "all_nif_ok netifs"
    and frame_def: "frame = eth_hdr_bytes hw (nif_hwaddr (netifs n)) ETHTYPE_IP @
    ip_hdr_bytes tos (pf_tot_len (pn_buf nd) + 20) (ip_id s) ttl proto src d @ chain_bytes (pn_buf nd # ds)"
  shows "\<exists>j b'. ip4_output_if_src netifs p (Some src) (Some d) ttl tos proto n s = Inr (nif_linkoutput (netifs n) frame,
      s\<lparr>ip_id := ip_id s + 1, etharp_cached_entry := j, l_heap := (l_heap s)[p := Some (nd\<lparr>pn_buf := b'\<rparr>)], l_out := l_out s @ [(n, frame)]\<rparr>) \<and>
      refs_ok ((l_heap s)[p := Some (nd\<lparr>pn_buf := b'\<rparr>)]) e"
proof -
  have r': "room (pn_buf nd) (20 + 14)" using r by simp
  obtain b1 where b1: "pbuf_add_header (pn_buf nd) 20 = Inr (0, b1)" "plen b1 = plen (pn_buf nd) + 20" "unat (pf_tot_len b1) = unat (pf_tot_len (pn_buf nd)) + 20"
      and st: "\<And>hdr. length hdr = 20 \<Longrightarrow>
      (let b2 = put_bytes b1 0 hdr; s2 = set_buf p nd b2 s
       in has_packet s2 e p (b2 # ds) \<and> node_at (l_heap s2) p = Some (nd\<lparr>pn_buf := b2\<rparr>) \<and> room b2 14 \<and>
          chain_bytes (b2 # ds) = hdr @ chain_bytes (pn_buf nd # ds) \<and> pf_ref b2 = pf_ref (pn_buf nd) \<and>
          unat (pf_tot_len b2) = unat (pf_tot_len (pn_buf nd)) + 20 \<and> length (l_heap s2) = length (l_heap s))"
    using push_packet [OF p nd r'] by auto
  let ?hdr = "ip_hdr_bytes tos (pf_tot_len b1) (ip_id s) ttl proto src d"
  let ?b = "put_bytes b1 0 ?hdr" let ?s = "(set_buf p nd ?b s)\<lparr>ip_id := ip_id s + 1\<rparr>" let ?nd = "nd\<lparr>pn_buf := ?b\<rparr>"
  have st': "has_packet ?s e p (pn_buf ?nd # ds)" "node_at (l_heap ?s) p = Some ?nd" "room (pn_buf ?nd) 14"
      "chain_bytes (pn_buf ?nd # ds) = ?hdr @ chain_bytes (pn_buf nd # ds)" "pf_ref ?b = pf_ref (pn_buf nd)"
    using st [of ?hdr] by (simp_all add: Let_def has_packet_def)
  have fr': "arp_fresh (netifs n) ?s n d hw" using fr by (simp add: arp_fresh_def set_buf_def)
  have tot: "pf_tot_len b1 = pf_tot_len (pn_buf nd) + 20" using u16_unat [OF b1(3)] by simp
  let ?fr = "eth_hdr_bytes hw (nif_hwaddr (netifs n)) ETHTYPE_IP @ chain_bytes (pn_buf ?nd # ds)"
  have f: "?fr = frame" using st'(4) by (simp add: frame_def tot del: chain_bytes_simps)
  obtain j b' where o: "etharp_output netifs n p d ?s = Inr (nif_linkoutput (netifs n) frame,
      ?s\<lparr>etharp_cached_entry := j, l_heap := (l_heap ?s)[p := Some (?nd\<lparr>pn_buf := b'\<rparr>)], l_out := l_out ?s @ [(n, frame)]\<rparr>)"
      "pf_ref b' = pf_ref (pn_buf ?nd)" "pf_type_internal b' = pf_type_internal (pn_buf ?nd)" "pf_flags b' = pf_flags (pn_buf ?nd)"
    using etharp_output_fresh [OF st'(1-3) fr' hw] unfolding f by blast
  have "refs_ok (l_heap ?s) e" using st'(1) by (simp add: has_packet_def)
  then have ok': "refs_ok ((l_heap ?s)[p := Some (?nd\<lparr>pn_buf := b'\<rparr>)]) e" using refs_write [OF _ st'(2), of e b'] o(2-4) by simp
  have run: "ip4_output_if_src netifs p (Some src) (Some d) ttl tos proto n s = etharp_output netifs n p d ?s"
    using nd one b1(1,2) by (simp add: ip4_output_if_src_def deref_def Let_def)
  have "?s\<lparr>etharp_cached_entry := j, l_heap := (l_heap ?s)[p := Some (?nd\<lparr>pn_buf := b'\<rparr>)], l_out := l_out ?s @ [(n, frame)]\<rparr> =
      s\<lparr>ip_id := ip_id s + 1, etharp_cached_entry := j, l_heap := (l_heap s)[p := Some (nd\<lparr>pn_buf := b'\<rparr>)], l_out := l_out s @ [(n, frame)]\<rparr>"
    by (simp add: set_buf_def)
  then show ?thesis using o(1) run ok' by (intro exI [of _ j] exI [of _ b']) (simp add: set_buf_def)
qed

section \<open>Datagrams\<close>

text \<open>A datagram on the wire.\<close>

definition udp_datagram :: "u16 \<Rightarrow> udp_pcb \<Rightarrow> u32 \<Rightarrow> u32 \<Rightarrow> u16 \<Rightarrow> u8 list \<Rightarrow> u8 list" where
  "udp_datagram ident pc src dst dp payload =
     ip_hdr_bytes (up_tos pc) (of_nat (length payload + 28)) ident (up_ttl pc) 17 src dst @
     udp_hdr_bytes (up_local_port pc) dp (of_nat (length payload + 8)) @ payload"

lemma udp_sends:
  assumes p: "has_packet s e p c" and r: "room (hd c) 42" and one: "pf_ref (hd c) = 1"
    and lp: "up_local_port (udp_mem s pcb) \<noteq> 0" and fr: "arp_fresh (netifs n) s n dst hw" and hw: "all_nif_ok netifs"
    and frame: "frame = eth_hdr_bytes hw (nif_hwaddr (netifs n)) ETHTYPE_IP @ udp_datagram (ip_id s) (udp_mem s pcb) src dst dp (chain_bytes c)"
  shows "\<exists>j h. udp_sendto_if_src netifs pcb p dst dp n src s = Inr (nif_linkoutput (netifs n) frame,
      s\<lparr>ip_id := ip_id s + 1, etharp_cached_entry := j, l_heap := h, l_out := l_out s @ [(n, frame)]\<rparr>) \<and> refs_ok h e"
proof -
  obtain nd ds where nd: "deref (l_heap s) p = Inr nd" "node_at (l_heap s) p = Some nd" "c = pn_buf nd # ds" and w: "wf_chain (pn_buf nd # ds)"
      and ok: "refs_ok (l_heap s) e"
    using p by (rule has_packetE) auto
  let ?pc = "udp_mem s pcb"
  have r8: "room (pn_buf nd) (8 + 34)" using r nd(3) by simp
  have p': "has_packet s e p (pn_buf nd # ds)" using p nd(3) by simp
  obtain b1 where b1: "pbuf_add_header (pn_buf nd) 8 = Inr (0, b1)" "plen b1 = plen (pn_buf nd) + 8" "unat (pf_tot_len b1) = unat (pf_tot_len (pn_buf nd)) + 8"
      and st: "\<And>hdr. length hdr = 8 \<Longrightarrow>
      (let b2 = put_bytes b1 0 hdr; s2 = set_buf p nd b2 s
       in has_packet s2 e p (b2 # ds) \<and> node_at (l_heap s2) p = Some (nd\<lparr>pn_buf := b2\<rparr>) \<and> room b2 34 \<and>
          chain_bytes (b2 # ds) = hdr @ chain_bytes (pn_buf nd # ds) \<and> pf_ref b2 = pf_ref (pn_buf nd) \<and>
          unat (pf_tot_len b2) = unat (pf_tot_len (pn_buf nd)) + 8 \<and> length (l_heap s2) = length (l_heap s))"
    using push_packet [OF p' nd(2) r8] by auto
  let ?hdr = "udp_hdr_bytes (up_local_port ?pc) dp (pf_tot_len b1)"
  let ?b = "put_bytes b1 0 ?hdr" let ?s = "set_buf p nd ?b s" let ?nd = "nd\<lparr>pn_buf := ?b\<rparr>"
  have st': "has_packet ?s e p (pn_buf ?nd # ds)" "node_at (l_heap ?s) p = Some ?nd" "room (pn_buf ?nd) 34"
      "chain_bytes (pn_buf ?nd # ds) = ?hdr @ chain_bytes (pn_buf nd # ds)" "pf_ref ?b = 1"
    using st [of ?hdr] one nd(3) by (simp_all add: Let_def)
  have len: "length (chain_bytes c) = unat (pf_tot_len (pn_buf nd))" using length_chain_bytes [OF w] nd(3) by simp
  have tot: "pf_tot_len b1 = of_nat (length (chain_bytes c) + 8)" using u16_unat [OF b1(3)] len by simp
  have tot2: "pf_tot_len ?b + 20 = of_nat (length (chain_bytes c) + 28)" using tot by simp
  have fr': "arp_fresh (netifs n) ?s n dst hw" using fr by (simp add: arp_fresh_def set_buf_def)
  have fr2: "frame = eth_hdr_bytes hw (nif_hwaddr (netifs n)) ETHTYPE_IP @
      ip_hdr_bytes (up_tos ?pc) (pf_tot_len (pn_buf ?nd) + 20) (ip_id ?s) (up_ttl ?pc) 17 src dst @ chain_bytes (pn_buf ?nd # ds)"
    using frame st'(4) tot tot2 nd(3) by (simp add: udp_datagram_def add.commute del: chain_bytes_simps put_bytes_fields)
  obtain j b' where o: "ip4_output_if_src netifs p (Some src) (Some dst) (up_ttl ?pc) (up_tos ?pc) 17 n ?s = Inr (nif_linkoutput (netifs n) frame,
      ?s\<lparr>ip_id := ip_id ?s + 1, etharp_cached_entry := j, l_heap := (l_heap ?s)[p := Some (?nd\<lparr>pn_buf := b'\<rparr>)], l_out := l_out ?s @ [(n, frame)]\<rparr>)"
      "refs_ok ((l_heap ?s)[p := Some (?nd\<lparr>pn_buf := b'\<rparr>)]) e"
    using ip4_output_sends [OF st'(1,2,3) _ fr' hw fr2] st'(5) by auto
  have "\<not> pf_tot_len (pn_buf nd) + 8 < pf_tot_len (pn_buf nd)"
    using b1(3) u16_unat [OF b1(3)] by (simp add: word_less_nat_alt)
  moreover have "udp_header_buf p s = Inr (Some p, set_buf p nd b1 s)"
    using nd(1) b1(1) by (simp add: udp_header_buf_def del: deref_Inr)
  moreover have "deref (l_heap (set_buf p nd b1 s)) p = Inr (nd\<lparr>pn_buf := b1\<rparr>)"
    using node_at_less [OF nd(2)] by (simp add: set_buf_def node_at_upd)
  moreover have "set_buf p (nd\<lparr>pn_buf := b1\<rparr>) ?b (set_buf p nd b1 s) = ?s" by (simp add: set_buf_def)
  ultimately have "udp_sendto_if_src netifs pcb p dst dp n src s =
      bindR (ip4_output_if_src netifs p (Some src) (Some dst) (up_ttl ?pc) (up_tos ?pc) 17 n ?s) Inr"
    using nd(1) lp b1(2) unfolding udp_sendto_if_src_def
    by (simp add: Let_def case_prod_eta del: deref_Inr)
  moreover have "?s\<lparr>ip_id := ip_id ?s + 1, etharp_cached_entry := j, l_heap := (l_heap ?s)[p := Some (?nd\<lparr>pn_buf := b'\<rparr>)], l_out := l_out ?s @ [(n, frame)]\<rparr> =
      s\<lparr>ip_id := ip_id s + 1, etharp_cached_entry := j, l_heap := (l_heap ?s)[p := Some (?nd\<lparr>pn_buf := b'\<rparr>)], l_out := l_out s @ [(n, frame)]\<rparr>"
    by (simp add: set_buf_def)
  ultimately show ?thesis using o by (intro exI [of _ j] exI [of _ "(l_heap ?s)[p := Some (?nd\<lparr>pn_buf := b'\<rparr>)]"]) simp
qed

end
