(* ===== verification/UdpProps.thy ===== *)
theory UdpProps
  imports UdpSend
begin

text \<open>Datagrams from end to end: what one stack sends to a port of another reaches the callback that is bound to it there.\<close>

section \<open>The bytes of a datagram\<close>

lemma bytes16_htons: "bytes16 (lwip_htons w) = [ucast (drop_bit 8 w), ucast w]"
proof (cases w rule: word16_cases)
  case (1 a b)
  have "bytes16 (le16 a b) = [a, b]" "bytes16 (le16 b a) = [b, a]" by (simp_all add: bytes16_le16)
  then show ?thesis using 1 by (simp add: lwip_htons_le16) (simp add: bytes16_def)
qed

lemma be16_unat: "256 * unat (ucast (drop_bit 8 w) :: u8) + unat (ucast w :: u8) = unat (w :: u16)"
proof (cases w rule: word16_cases)
  case (1 a b)
  then have "bytes16 w = [a, b]" by (simp add: bytes16_le16)
  then show ?thesis using 1 unat_le16 [of a b] by (simp add: bytes16_def)
qed

lemma le16_split: "le16 (ucast w) (ucast (drop_bit 8 w)) = w"
  by (rule le16_bytes16)

lemma datagram_fields:
  fixes pad :: "u8 list"
  assumes l: "length payload + 28 < 65536" and xs_def: "xs = udp_datagram ident pc src dst dp payload @ pad"
  shows "ip_hlen xs = 20" "unat (xs ! 0) div 16 = 4" "ip_total xs = length payload + 28" "\<not> ip_fragment xs" "xs ! 9 = 17"
    "ld32 xs 12 = src" "ld32 xs 16 = dst" "take (ip_total xs) xs = udp_datagram ident pc src dst dp payload"
    "udp_sport (drop 20 (udp_datagram ident pc src dst dp payload)) = up_local_port pc"
    "udp_dport (drop 20 (udp_datagram ident pc src dst dp payload)) = dp"
    "drop 8 (drop 20 (udp_datagram ident pc src dst dp payload)) = payload"
proof -
  note d = udp_datagram_def ip_hdr_bytes_def udp_hdr_bytes_def bytes16_htons bytes32_def
  show "ip_hlen xs = 20" "unat (xs ! 0) div 16 = 4" "xs ! 9 = 17"
    by (simp_all add: xs_def d ip_hlen_def bytes16_def)
  show "\<not> ip_fragment xs" by (simp add: xs_def d ip_fragment_def bytes16_def)
  show t: "ip_total xs = length payload + 28"
    using be16_unat [of "of_nat (length payload + 28)"] unat_of_nat_u16 [OF l] by (simp add: xs_def d ip_total_def)
  show "ld32 xs 12 = src" "ld32 xs 16 = dst"
    by (simp_all add: xs_def d ld32_def bytes16_def le32_bytes32)
  have "length (udp_datagram ident pc src dst dp payload) = length payload + 28" by (simp add: udp_datagram_def)
  then show "take (ip_total xs) xs = udp_datagram ident pc src dst dp payload" using t by (simp add: xs_def)
  show "udp_sport (drop 20 (udp_datagram ident pc src dst dp payload)) = up_local_port pc"
    "udp_dport (drop 20 (udp_datagram ident pc src dst dp payload)) = dp"
    "drop 8 (drop 20 (udp_datagram ident pc src dst dp payload)) = payload"
    by (simp_all add: udp_datagram_def udp_sport_def udp_dport_def udp_hdr_bytes_def bytes16_htons le16_split)
qed

section \<open>The only block bound to a port\<close>

definition listens :: "(nat \<Rightarrow> netif) \<Rightarrow> stack \<Rightarrow> nat \<Rightarrow> u32 \<Rightarrow> u32 \<Rightarrow> u16 \<Rightarrow> u16 \<Rightarrow> bool" where
  "listens netifs s i src dst sp dp \<longleftrightarrow> i \<in> set (udp_pcbs s) \<and> up_local_port (udp_mem s i) = dp \<and> up_netif_idx (udp_mem s i) = 0 \<and>
     (up_local_ip (udp_mem s i) = 0 \<or> up_local_ip (udp_mem s i) = dst) \<and>
     (up_flags (udp_mem s i) AND 4 = 0 \<or> up_remote_port (udp_mem s i) = sp \<and> up_remote_ip (udp_mem s i) \<in> {0, src}) \<and>
     (\<forall>j \<in> set (udp_pcbs s). j \<noteq> i \<longrightarrow> up_local_port (udp_mem s j) \<noteq> dp)"

lemma target_unique:
  assumes li: "listens netifs s i (current_iphdr_src (ip_data s)) (current_iphdr_dest (ip_data s)) sp dp"
  shows "udp_target netifs s inp False sp dp = Some i"
proof -
  have i: "i \<in> set (udp_pcbs s)" and m: "local_match netifs s inp False dp i"
    using li by (auto simp: listens_def local_match_def udp_input_local_match_def ip4_addr_isany_def)
  have only: "j = i" if "j \<in> set (udp_pcbs s)" "local_match netifs s inp False dp j" for j
    using li that by (auto simp: listens_def local_match_def)
  show ?thesis
  proof (cases "find (perfect_match netifs s inp False sp dp) (udp_pcbs s)")
    case (Some j)
    then have "j = i" using find_in [OF Some] only by (auto simp: perfect_match_def)
    then show ?thesis using Some by (simp add: udp_target_def)
  next
    case None
    then have "\<not> perfect_match netifs s inp False sp dp i" using i by (simp add: find_None_iff)
    then have "up_flags (udp_mem s i) AND 4 = 0" using m li by (auto simp: listens_def perfect_match_def)
    then have us: "i \<in> set (unconnected netifs s inp False dp)" using i m by (simp add: unconnected_def)
    obtain u vs where u: "unconnected netifs s inp False dp = u # vs" using us by (cases "unconnected netifs s inp False dp") auto
    then have "u \<in> set (unconnected netifs s inp False dp)" by simp
    then have "u = i" using only by (simp add: unconnected_def)
    then have "preferred netifs s inp False (unconnected netifs s inp False dp) = Some i" by (simp add: preferred_def u)
    then show ?thesis using None by (simp add: udp_target_def)
  qed
qed

section \<open>From end to end\<close>

text \<open>
  C38: A datagram arrives as it was sent. When the next hop towards the destination is resolved, \<open>udp_sendto\<close> hands exactly one frame to
  the interface: Ethernet header, IP header with the address of the interface as source, UDP header, and the payload. A stack that receives the packet of this
  frame (with or without padding, and split into buffers in any way that leaves the headers in one piece) on
  which one block is bound to the port calls the callback of this block with the address and port of the sender
  and a packet whose bytes are the payload.
\<close>

theorem udp_roundtrip:
  assumes p: "has_packet s e p c" and r: "room (hd c) 42" and one: "pf_ref (hd c) = 1"
    and pc: "up_local_port (udp_mem s pcb) \<noteq> 0" "up_netif_idx (udp_mem s pcb) = 0" "up_local_ip (udp_mem s pcb) \<in> {0, nif_addr (netifs n)}"
      "\<not> ip4_addr_ismulticast (nif_addr (netifs n))"
    and rt: "ip4_route netifs dst s = Some n" and fr: "arp_fresh (netifs n) s n dst hw" and hw: "all_nif_ok netifs"
    and q: "has_packet t e' q d" "28 \<le> plen (hd d)"
      "chain_bytes d = udp_datagram (ip_id s) (udp_mem s pcb) (nif_addr (netifs n)) dst dp (chain_bytes c) @ pad"
    and us: "input_netif netifs' dst inp t = Some cur" "\<not> ip4_addr_isbroadcast_u32 dst (netifs' cur)"
      "\<not> ip4_addr_isbroadcast_u32 (nif_addr (netifs n)) (netifs' inp)"
    and li: "listens netifs' t i (nif_addr (netifs n)) dst (up_local_port (udp_mem s pcb)) dp" "up_recv (udp_mem t i) = Some f"
  shows "\<exists>j h g d' is. udp_sendto netifs pcb p dst dp s = Inr (nif_linkoutput (netifs n) (eth_hdr_bytes hw (nif_hwaddr (netifs n)) ETHTYPE_IP @ take (length (chain_bytes c) + 28) (chain_bytes d)),
        s\<lparr>ip_id := ip_id s + 1, etharp_cached_entry := j, l_heap := h,
          l_out := l_out s @ [(n, eth_hdr_bytes hw (nif_hwaddr (netifs n)) ETHTYPE_IP @ take (length (chain_bytes c) + 28) (chain_bytes d))]\<rparr>) \<and> refs_ok h e \<and>
    ip4_input cb tcp netifs' q inp t =
      bindR (cb f i q (nif_addr (netifs n)) (up_local_port (udp_mem s pcb)) (t\<lparr>ip_data := delivering cur inp (chain_bytes d), udp_pcbs := is, l_heap := g\<rparr>))
        (\<lambda>t. Inr (ERR_OK, t\<lparr>ip_data := ip_data_none\<rparr>)) \<and>
    has_packet (t\<lparr>l_heap := g\<rparr>) e' q d' \<and> chain_bytes d' = chain_bytes c \<and> mset is = mset (udp_pcbs t)"
proof -
  let ?src = "nif_addr (netifs n)" and ?sp = "up_local_port (udp_mem s pcb)"
  let ?dg = "udp_datagram (ip_id s) (udp_mem s pcb) ?src dst dp (chain_bytes c)"
  let ?xs = "chain_bytes d"
  have w: "wf_chain c" "c \<noteq> []" using has_packet_wf [OF p] by simp_all
  have l: "length (chain_bytes c) + 28 < 65536"
    using r w length_chain_bytes [OF w(1)] by (cases c) (simp_all add: room_def del: chain_bytes_simps)
  note f = datagram_fields [OF l q(3)]
  have tk: "take (length (chain_bytes c) + 28) ?xs = ?dg" using f(3,8) by simp
  obtain j h where send: "udp_sendto_if_src netifs pcb p dst dp n ?src s = Inr (nif_linkoutput (netifs n) (eth_hdr_bytes hw (nif_hwaddr (netifs n)) ETHTYPE_IP @ ?dg),
      s\<lparr>ip_id := ip_id s + 1, etharp_cached_entry := j, l_heap := h, l_out := l_out s @ [(n, eth_hdr_bytes hw (nif_hwaddr (netifs n)) ETHTYPE_IP @ ?dg)]\<rparr>)" "refs_ok h e"
    using udp_sends [OF p r one pc(1) fr hw refl] by blast
  have "udp_sendto netifs pcb p dst dp s = udp_sendto_if_src netifs pcb p dst dp n ?src s"
    using pc(2-4) rt by (auto simp: udp_sendto_def udp_sendto_if_def Let_def ip4_addr_isany_def)
  note sent = this [unfolded send(1)]
  \<comment> \<open>The receiver.\<close>
  have port: "?xs ! 9 = 17 \<longrightarrow> ip_hlen ?xs + 4 \<le> plen (hd d)" using q(2) f(1) by simp
  have len: "length ?xs = length (chain_bytes c) + 28 + length pad" by (simp add: q(3) udp_datagram_def del: chain_bytes_simps)
  have ok: "ip_header_ok ?xs (plen (hd d))" using f(1-3) q(2) len by (simp add: ip_header_ok_def)
  have nm: "\<not> ip4_addr_ismulticast ?src" using pc(4) .
  have wd: "ip_wanted netifs' inp t ?xs" "ip_netif netifs' inp t ?xs = Some cur"
    using f(4,6,7) us nm by (simp_all add: ip_wanted_def ip_netif_def ip_src_ok_def)
  obtain g d1 where g: "ip4_input cb tcp netifs' q inp t =
      bindR (ip4_protocol cb tcp netifs' 17 20 q cur inp (t\<lparr>l_heap := g, ip_data := delivering cur inp ?xs\<rparr>)) (\<lambda>s. Inr (ERR_OK, s\<lparr>ip_data := ip_data_none\<rparr>))"
      "has_packet (t\<lparr>l_heap := g\<rparr>) e' q d1" "chain_bytes d1 = drop 20 ?dg" "plen (hd d1) = min (length (chain_bytes c) + 28) (plen (hd d)) - 20"
    using ip4_input_delivers_more [OF q(1) _ port ok wd(1), of cb tcp] q(2) wd(2) f by auto
  let ?t = "t\<lparr>l_heap := g, ip_data := delivering cur inp ?xs\<rparr>"
  have hp: "has_packet ?t e' q d1" "current_netif (ip_data ?t) \<noteq> None" "8 \<le> plen (hd d1)"
    using g(2,4) q(2) by (simp_all add: has_packet_def delivering_def)
  have bc: "udp_broadcast netifs' ?t = False" using us(2) f(7) by (simp add: udp_broadcast_def delivering_def)
  have "listens netifs' ?t i (current_iphdr_src (ip_data ?t)) (current_iphdr_dest (ip_data ?t)) ?sp dp"
    using li(1) f(6,7) by (simp add: listens_def delivering_def)
  then have blk: "udp_block netifs' ?t inp (chain_bytes d1) = Some i"
    using target_unique [of netifs' ?t i ?sp dp inp] f(9,10) by (simp add: udp_block_def bc g(3))
  obtain g2 d' where u: "has_packet (?t\<lparr>l_heap := g2\<rparr>) e' q d'" "chain_bytes d' = drop 8 (chain_bytes d1)"
      "udp_input cb netifs' q inp ?t = cb f i q (current_iphdr_src (ip_data ?t)) (udp_sport (chain_bytes d1))
        ((?t\<lparr>udp_pcbs := udp_order netifs' ?t inp (chain_bytes d1)\<rparr>)\<lparr>l_heap := g2\<rparr>)"
    using udp_input_eq [where netifs = netifs' and cb = cb and inp = inp, OF hp(1,3,2)] blk li(2) by (auto simp: Let_def)
  let ?is = "udp_order netifs' ?t inp (chain_bytes d1)"
  have "(?t\<lparr>udp_pcbs := ?is\<rparr>)\<lparr>l_heap := g2\<rparr> = t\<lparr>ip_data := delivering cur inp ?xs, udp_pcbs := ?is, l_heap := g2\<rparr>" by simp
  then have "ip4_input cb tcp netifs' q inp t =
      bindR (cb f i q ?src ?sp (t\<lparr>ip_data := delivering cur inp ?xs, udp_pcbs := ?is, l_heap := g2\<rparr>)) (\<lambda>t. Inr (ERR_OK, t\<lparr>ip_data := ip_data_none\<rparr>))"
    using g(1) u(3) f(6,9) by (simp add: ip4_protocol_def delivering_def g(3))
  moreover have "mset ?is = mset (udp_pcbs t)" using udp_order_mset [of netifs' ?t inp "chain_bytes d1"] by simp
  moreover have "has_packet (t\<lparr>l_heap := g2\<rparr>) e' q d'" using u(1) by (simp add: has_packet_def)
  moreover have "chain_bytes d' = chain_bytes c" using u(2) g(3) f(11) by simp
  ultimately show ?thesis using sent send(2) unfolding tk by blast
qed

section \<open>A concrete run\<close>

definition demo_room_buf :: pbuf where
  "demo_room_buf = \<lparr>pf_mem = replicate 44 0 @ [7, 8, 9], pf_off = 44, pf_tot_len = 3, pf_len = 3, pf_type_internal = 0x80, pf_flags = 0, pf_ref = 1, pf_if_idx = 0\<rparr>"

definition demo_neighbour :: etharp_entry where
  "demo_neighbour = \<lparr>e_q = None, e_ipaddr = 0x0202A8C0, e_netif = Some 0, e_ethaddr = [2, 0, 0, 0, 0, 2], e_ctime = 3, e_state = ETHARP_STATE_STABLE\<rparr>"

definition demo_bound :: "u16 \<Rightarrow> nat \<Rightarrow> udp_pcb" where
  "demo_bound port f = new_pcb\<lparr>up_local_port := port, up_recv := Some f\<rparr>"

definition demo_sender :: stack where
  "demo_sender = demo_stack [] (demo_neighbour # replicate 9 wiped)
     \<lparr>l_heap := [Some \<lparr>pn_buf = demo_room_buf, pn_next = None\<rparr>], udp_pcbs := [0], udp_mem := (\<lambda>_. demo_bound 4660 0)\<rparr>"

definition demo_receiver :: "u8 list \<Rightarrow> stack" where
  "demo_receiver bs = demo_stack bs (replicate 10 wiped)\<lparr>udp_pcbs := [0], udp_mem := (\<lambda>_. demo_bound 53 1)\<rparr>"

definition demo_nif2 :: netif where
  "demo_nif2 = demo_ip_nif\<lparr>nif_addr := 0x0202A8C0\<rparr>"

lemma has_packet_heap: "l_heap s = l_heap t \<Longrightarrow> has_packet s e p c \<Longrightarrow> has_packet t e p c"
  by (simp add: has_packet_def)

lemma demo_sender_packet: "has_packet demo_sender one_packet 0 [demo_room_buf]"
proof -
  have "refs_ok [Some \<lparr>pn_buf = demo_room_buf, pn_next = None\<rparr>] one_packet"
    using refs_ok_snoc_new [OF refs_ok_Nil, of demo_room_buf] by (simp add: demo_room_buf_def good_src_def pbuf_get_allocsrc_def)
  then show ?thesis
    by (simp add: has_packet_def demo_sender_def chain_at_def deref_def node_at_def) (simp add: demo_room_buf_def plen_def)
qed

lemma demo_addresses:
  "ip4_route (\<lambda>_. demo_ip_nif) 0x0202A8C0 demo_sender = Some 0"
  "arp_fresh demo_ip_nif demo_sender 0 0x0202A8C0 [2, 0, 0, 0, 0, 2]"
  "input_netif (\<lambda>_. demo_nif2) 0x0202A8C0 0 (demo_receiver bs) = Some 0"
  "\<not> ip4_addr_isbroadcast_u32 0x0202A8C0 demo_nif2" "\<not> ip4_addr_isbroadcast_u32 0x0102A8C0 demo_nif2" "\<not> ip4_addr_ismulticast 0x0102A8C0"
  by (simp_all add: ip4_route_def demo_sender_def demo_receiver_def input_netif_def ip4_input_accept_def ip4_addr_isany_def ip4_addr_ismulticast_def
      ip4_addr_isbroadcast_u32_def ip4_addr_netcmp_def netif_is_up_def netif_is_link_up_def demo_ip_nif_def demo_nif2_def lwip_htonl_def
      arp_fresh_def entry_for_def next_hop_def demo_neighbour_def wiped_def etharp_state.simps)

theorem udp_roundtrip_witness:
  "\<exists>s' g is t1 d'. udp_sendto (\<lambda>_. demo_ip_nif) 0 0 0x0202A8C0 53 demo_sender = Inr (0, s') \<and> length (l_out s') = 1 \<and>
     ip4_input (\<lambda>_ _ _ _ _. Inr) (\<lambda>_ _. Inr) (\<lambda>_. demo_nif2) 0 0 (demo_receiver (drop 14 (snd (hd (l_out s'))))) = Inr (0, t1) \<and>
     has_packet t1 one_packet 0 d' \<and> chain_bytes d' = [7, 8, 9]"
proof -
  let ?dg = "udp_datagram 0 (demo_bound 4660 0) 0x0102A8C0 0x0202A8C0 53 [7, 8, 9]"
  have s: "chain_bytes [demo_room_buf] = [7, 8, 9]" "room demo_room_buf 42" "pf_ref demo_room_buf = 1"
    by (simp_all add: demo_room_buf_def seg_bytes_def plen_def ld_bytes_def room_def)
  have l: "length ?dg = 31" by (simp add: udp_datagram_def)
  have r: "has_packet (demo_receiver ?dg) one_packet 0 [demo_pbuf ?dg]" "plen (demo_pbuf ?dg) = 31" "chain_bytes [demo_pbuf ?dg] = ?dg @ []"
    using demo_has_packet [of ?dg "replicate 10 wiped"] demo_pbuf_facts [of ?dg] l
    by (auto simp: demo_receiver_def intro: has_packet_heap [of "demo_stack ?dg (replicate 10 wiped)"])
  have f: "ip_id demo_sender = 0" "udp_mem demo_sender 0 = demo_bound 4660 0" "l_out demo_sender = []" "nif_addr demo_ip_nif = 0x0102A8C0"
      "nif_linkoutput demo_ip_nif = (\<lambda>_. 0)" "length (nif_hwaddr demo_ip_nif) = 6"
    by (simp_all add: demo_sender_def demo_stack_def demo_ip_nif_def)
  have li: "listens (\<lambda>_. demo_nif2) (demo_receiver ?dg) 0 0x0102A8C0 0x0202A8C0 4660 53" "up_recv (udp_mem (demo_receiver ?dg) 0) = Some 1"
    by (simp_all add: listens_def demo_receiver_def demo_bound_def new_pcb_def)
  have pc: "up_local_port (demo_bound 4660 0) = 4660" "up_netif_idx (demo_bound 4660 0) = 0" "up_local_ip (demo_bound 4660 0) = 0"
    by (simp_all add: demo_bound_def new_pcb_def)
  obtain j h g d' js where
    "udp_sendto (\<lambda>_. demo_ip_nif) 0 0 0x0202A8C0 53 demo_sender =
       Inr (0, demo_sender\<lparr>ip_id := ip_id demo_sender + 1, etharp_cached_entry := j, l_heap := h,
          l_out := l_out demo_sender @ [(0, eth_hdr_bytes [2, 0, 0, 0, 0, 2] (nif_hwaddr demo_ip_nif) ETHTYPE_IP @ take 31 (chain_bytes [demo_pbuf ?dg]))]\<rparr>)"
    "ip4_input (\<lambda>_ _ _ _ _. Inr) (\<lambda>_ _. Inr) (\<lambda>_. demo_nif2) 0 0 (demo_receiver ?dg) =
       Inr (0, (demo_receiver ?dg)\<lparr>udp_pcbs := js, l_heap := g, ip_data := ip_data_none\<rparr>)"
    "has_packet ((demo_receiver ?dg)\<lparr>l_heap := g\<rparr>) one_packet 0 d'" "chain_bytes d' = [7, 8, 9]"
    using udp_roundtrip [where netifs = "\<lambda>_. demo_ip_nif" and n = 0 and pcb = 0 and dst = "0x0202A8C0" and dp = 53 and hw = "[2, 0, 0, 0, 0, 2]"
        and netifs' = "\<lambda>_. demo_nif2" and inp = 0 and cur = 0 and i = 0 and f = 1 and cb = "\<lambda>_ _ _ _ _. Inr" and tcp = "\<lambda>_ _. Inr" and pad = "[]",
        OF demo_sender_packet _ _ _ _ _ _ _ _ demo_ip_nifs r(1)] s r(2,3) f pc li demo_addresses
    by (simp del: chain_bytes_simps) blast
  moreover have "length (eth_hdr_bytes [2, 0, 0, 0, 0, 2] (nif_hwaddr demo_ip_nif) ETHTYPE_IP) = 14"
    using f(6) by (simp add: length_eth_hdr)
  ultimately show ?thesis using l f(3,6) r(2,3) has_packet_heap [of "(demo_receiver ?dg)\<lparr>l_heap := g\<rparr>" "(demo_receiver ?dg)\<lparr>udp_pcbs := js, l_heap := g, ip_data := ip_data_none\<rparr>"]
    by (simp del: chain_bytes_simps) (blast | fastforce)
qed

end
