(* ===== verification/IcmpProps.thy ===== *)
theory IcmpProps
  imports UdpProps
begin

text \<open>Echo requests are answered with the same data, swapped addresses and a checksum that verifies.\<close>

section \<open>The checksum of the answer\<close>

lemma unat_echo_chksum:
  "unat (echo_chksum w) = (if 0xFFF7 < unat w then unat w + 9 - 65536 else unat w + 8)"
proof -
  have h: "lwip_htons (0xFFFF - push_bit 8 (ucast (8 :: u8))) = 0xFFF7" "lwip_htons (push_bit 8 (ucast (8 :: u8))) = 8" by code_simp+
  have l: "unat w < 65536" by (rule unat_u16_less)
  have "unat (w + 8 + 1) = unat w + 9 - 65536" if "0xFFF7 < unat w"
  proof -
    have "w + 8 + 1 = of_nat (unat w + 9)" by simp
    then have "unat (w + 8 + 1) = (unat w + 9) mod 65536" by (simp only: unat_of_nat) simp
    also have "unat w + 9 = (unat w + 9 - 65536) + 65536" using that by simp
    also have "((unat w + 9 - 65536) + 65536) mod 65536 = (unat w + 9 - 65536) mod 65536" by (rule mod_add_self2)
    also have "\<dots> = unat w + 9 - 65536" using l by (intro mod_less) arith
    finally show ?thesis .
  qed
  moreover have "unat (w + 8) = unat w + 8" if "\<not> 0xFFF7 < unat w" using that by (simp add: unat_word_ariths)
  ultimately show ?thesis unfolding echo_chksum_def h by (simp add: word_less_nat_alt)
qed

lemma sum16_head: "sum16 (a # b # c # d # bs) = unat a + 256 * unat b + unat (le16 c d) + sum16 bs"
  by (simp add: unat_le16)

lemma chksum_zero: "length bs \<le> 0x20000 \<Longrightarrow> inet_chksum a bs = 0 \<longleftrightarrow> ones (sum16 bs) = 65535"
proof -
  assume l: "length bs \<le> 0x20000"
  have "inet_chksum a bs = 0 \<longleftrightarrow> (of_nat (ones (sum16 bs)) :: u16) = - 1"
    unfolding inet_chksum_def lwip_standard_chksum_ones [OF l] using bit.compl_zero bit.double_compl by metis
  also have "\<dots> \<longleftrightarrow> ones (sum16 bs) = 65535"
  proof -
    have u: "unat (of_nat (ones (sum16 bs)) :: u16) = ones (sum16 bs)" using ones_le [of "sum16 bs"] by (intro unat_of_nat_u16) simp
    have m: "unat (- 1 :: u16) = 65535" by (simp add: unsigned_minus_1_eq_mask mask_eq_exp_minus_1)
    show ?thesis using u m by (metis word_unat_eq_iff)
  qed
  finally show ?thesis .
qed

lemma echo_chksum_verifies:
  assumes c: "inet_chksum a (8 # code # c0 # c1 # rest) = 0" and l: "length rest < 65536"
  shows "inet_chksum b (0 # code # bytes16 (echo_chksum (le16 c0 c1)) @ rest) = 0"
proof -
  let ?w = "le16 c0 c1" let ?v = "echo_chksum ?w" let ?k = "256 * unat code + sum16 rest"
  obtain d0 d1 where d: "?v = le16 d0 d1" by (cases ?v rule: word16_cases) auto
  have old: "sum16 (8 # code # c0 # c1 # rest) = 8 + unat ?w + ?k" and new: "sum16 (0 # code # d0 # d1 # rest) = unat ?v + ?k"
    unfolding sum16_head d by simp_all
  have "ones (8 + unat ?w + ?k) = 65535" using c chksum_zero [of "8 # code # c0 # c1 # rest" a] l by (simp only: old) simp
  moreover have "ones (unat ?v + ?k) = ones (8 + unat ?w + ?k)"
  proof (cases "0xFFF7 < unat ?w")
    case True
    have v: "unat ?v + 65535 = 8 + unat ?w" "unat ?v \<noteq> 0" using unat_echo_chksum [of ?w] True by simp_all
    have "8 + unat ?w + ?k = (unat ?v + ?k) + 65535" using v(1) by simp
    then have "(8 + unat ?w + ?k) mod 65535 = (unat ?v + ?k) mod 65535" by (simp only: mod_add_self2)
    then show ?thesis using v(2) by (intro ones_cong) simp_all
  next
    case False
    then show ?thesis using unat_echo_chksum [of ?w] by (simp add: add.commute)
  qed
  ultimately have "inet_chksum b (0 # code # d0 # d1 # rest) = 0"
    using chksum_zero [of "0 # code # d0 # d1 # rest" b] l by (simp only: new) simp
  then show ?thesis unfolding d by (simp add: bytes16_le16)
qed

section \<open>The buffer of the answer\<close>

lemma add_remove_header:
  assumes r: "room b k" and k: "0 < k"
  shows "\<exists>b'. pbuf_add_header b k = Inr (0, b') \<and> pbuf_remove_header b' k = (0, b)"
proof -
  obtain b' where b': "pbuf_add_header b k = Inr (0, b')" "plen b' = plen b + k" using push_header [of b k 0] r k by auto
  have k16: "k < 65536" using r by (simp add: room_def)
  have u: "unat (of_nat k :: u16) = k" using unat_of_nat_u16 [OF k16] .
  have e: "b' = b\<lparr>pf_off := pf_off b - k, pf_len := pf_len b + of_nat k, pf_tot_len := pf_tot_len b + of_nat k\<rparr>"
    using b'(1) k k16 by (auto simp: pbuf_add_header_def pbuf_add_header_impl_def Let_def split: if_splits)
  have "of_nat k \<le> pf_len b'" using b'(2) u by (simp add: word_le_nat_alt plen_def)
  moreover have "b'\<lparr>pf_off := pf_off b' + k, pf_len := pf_len b' - of_nat k, pf_tot_len := pf_tot_len b' - of_nat k\<rparr> = b"
    using r by (simp add: e room_def)
  ultimately show ?thesis using b'(1) k k16 by (simp add: pbuf_remove_header_def)
qed

text \<open>The bytes in front of a packet come back with the header.\<close>

lemma header_back:
  assumes r: "room b k" and k: "0 < k" and f: "pf_off b + plen b \<le> length (pf_mem b)"
  shows "\<exists>b'. pbuf_add_header b k = Inr (0, b') \<and> plen b' = plen b + k \<and> unat (pf_tot_len b') = unat (pf_tot_len b) + k \<and> pf_ref b' = pf_ref b \<and>
    pf_type_internal b' = pf_type_internal b \<and> pf_flags b' = pf_flags b \<and> pf_mem b' = pf_mem b \<and> pf_off b' = pf_off b - k \<and>
    seg_bytes b' = ld_bytes (pf_mem b) (pf_off b - k) k @ seg_bytes b"
proof -
  obtain b' where b': "pbuf_add_header b k = Inr (0, b')" "plen b' = plen b + k" "unat (pf_tot_len b') = unat (pf_tot_len b) + k"
    using push_header [of b k 0] r k by auto
  have k16: "k < 65536" using r by (simp add: room_def)
  have e: "b' = b\<lparr>pf_off := pf_off b - k, pf_len := pf_len b + of_nat k, pf_tot_len := pf_tot_len b + of_nat k\<rparr>"
    using b'(1) k k16 by (auto simp: pbuf_add_header_def pbuf_add_header_impl_def Let_def split: if_splits)
  have "take (plen b + k) (drop (pf_off b - k) (pf_mem b)) = take k (drop (pf_off b - k) (pf_mem b)) @ take (plen b) (drop (pf_off b) (pf_mem b))"
    using r take_add [of k "plen b" "drop (pf_off b - k) (pf_mem b)"] by (simp add: add.commute room_def)
  then have "seg_bytes b' = ld_bytes (pf_mem b) (pf_off b - k) k @ seg_bytes b"
    using b'(2) by (simp add: seg_bytes_def ld_bytes_def) (simp add: e)
  then show ?thesis using b' by (intro exI [of _ b']) (simp add: e)
qed


section \<open>Answering\<close>

lemma room_less: "room b (k + m) \<Longrightarrow> room b k"
  by (simp add: room_def)

lemma set_buf_same: "node_at (l_heap s) p = Some nd \<Longrightarrow> set_buf p nd (pn_buf nd) s = s"
proof -
  assume n: "node_at (l_heap s) p = Some nd"
  then have "l_heap s ! p = Some nd" using node_at_less [OF n] by (simp add: node_at_def)
  then have "(l_heap s)[p := Some nd] = l_heap s" using list_update_id by metis
  then show ?thesis by (cases s) (simp add: set_buf_def)
qed

lemma put_bytes_chain:
  assumes f: "pf_off b + plen b \<le> length (pf_mem b)" and i: "i + length xs \<le> plen b"
  shows "pf_off (put_bytes b i xs) + plen (put_bytes b i xs) \<le> length (pf_mem (put_bytes b i xs))"
    "chain_bytes (put_bytes b i xs # ds) = st_bytes (chain_bytes (b # ds)) i xs"
proof -
  show "pf_off (put_bytes b i xs) + plen (put_bytes b i xs) \<le> length (pf_mem (put_bytes b i xs))"
    using f i by (simp add: put_bytes_def plen_def)
  have "length (seg_bytes b) = plen b" using f by (rule length_seg_bytes)
  then show "chain_bytes (put_bytes b i xs # ds) = st_bytes (chain_bytes (b # ds)) i xs"
    using put_bytes_seg [OF f i] i by (simp add: st_bytes_def)
qed

text \<open>The six writes of the answer, on the bytes of the packet.\<close>

definition echo_answer :: "u8 list \<Rightarrow> u32 \<Rightarrow> u32 \<Rightarrow> u8 list \<Rightarrow> u8 \<Rightarrow> u8 \<Rightarrow> u8 \<Rightarrow> u8 list \<Rightarrow> u8 list" where
  "echo_answer pre src dst opts code c0 c1 rest =
     pre @ [255, 1, 0, 0] @ bytes32 dst @ bytes32 src @ opts @ [0, code] @ bytes16 (echo_chksum (le16 c0 c1)) @ rest"

lemma st_replace: "length xs = i \<Longrightarrow> length ys = length zs \<Longrightarrow> st_bytes (xs @ ys @ r) i zs = xs @ zs @ r"
  by (simp add: st_bytes_def)

lemma echo_writes:
  assumes l: "length pre = 8"
  shows "st_bytes (st_bytes (st_bytes (st_bytes (st_bytes (st_bytes (pre @ [ttl, 1, k0, k1] @ bytes32 src @ bytes32 dst @ opts @ [ty, code, c0, c1] @ rest)
      12 (bytes32 dst)) 16 (bytes32 src)) (20 + length opts) [0]) (20 + length opts + 2) (bytes16 (echo_chksum (le16 c0 c1)))) 8 [255]) 10 [0, 0] =
    echo_answer pre src dst opts code c0 c1 rest"
proof -
  let ?d = "bytes16 (echo_chksum (le16 c0 c1))" let ?b = "bytes32 dst @ bytes32 src"
  have "st_bytes (pre @ [ttl, 1, k0, k1] @ bytes32 src @ bytes32 dst @ opts @ [ty, code, c0, c1] @ rest) 12 (bytes32 dst) =
      pre @ [ttl, 1, k0, k1] @ bytes32 dst @ bytes32 dst @ opts @ [ty, code, c0, c1] @ rest"
    using st_replace [of "pre @ [ttl, 1, k0, k1]" 12 "bytes32 src" "bytes32 dst"] l by simp
  moreover have "st_bytes (pre @ [ttl, 1, k0, k1] @ bytes32 dst @ bytes32 dst @ opts @ [ty, code, c0, c1] @ rest) 16 (bytes32 src) =
      pre @ [ttl, 1, k0, k1] @ ?b @ opts @ [ty, code, c0, c1] @ rest"
    using st_replace [of "pre @ [ttl, 1, k0, k1] @ bytes32 dst" 16 "bytes32 dst" "bytes32 src"] l by simp
  moreover have "st_bytes (pre @ [ttl, 1, k0, k1] @ ?b @ opts @ [ty, code, c0, c1] @ rest) (20 + length opts) [0] =
      pre @ [ttl, 1, k0, k1] @ ?b @ opts @ [0, code, c0, c1] @ rest"
    using st_replace [of "pre @ [ttl, 1, k0, k1] @ ?b @ opts" "20 + length opts" "[ty]" "[0]"] l by simp
  moreover have "st_bytes (pre @ [ttl, 1, k0, k1] @ ?b @ opts @ [0, code, c0, c1] @ rest) (20 + length opts + 2) ?d =
      pre @ [ttl, 1, k0, k1] @ ?b @ opts @ [0, code] @ ?d @ rest"
    using st_replace [of "pre @ [ttl, 1, k0, k1] @ ?b @ opts @ [0, code]" "20 + length opts + 2" "[c0, c1]" ?d] l by simp
  moreover have "st_bytes (pre @ [ttl, 1, k0, k1] @ ?b @ opts @ [0, code] @ ?d @ rest) 8 [255] = pre @ [255, 1, k0, k1] @ ?b @ opts @ [0, code] @ ?d @ rest"
    using st_replace [of pre 8 "[ttl]" "[255]"] l by simp
  moreover have "st_bytes (pre @ [255, 1, k0, k1] @ ?b @ opts @ [0, code] @ ?d @ rest) 10 [0, 0] = pre @ [255, 1, 0, 0] @ ?b @ opts @ [0, code] @ ?d @ rest"
    using st_replace [of "pre @ [255, 1]" 10 "[k0, k1]" "[0, 0]"] l by simp
  ultimately show ?thesis unfolding echo_answer_def by (simp only: append_assoc)
qed

definition fits :: "pbuf list \<Rightarrow> nat \<Rightarrow> pbuf \<Rightarrow> u8 list \<Rightarrow> bool" where
  "fits ds n b xs \<longleftrightarrow> pf_off b + plen b \<le> length (pf_mem b) \<and> plen b = n \<and> chain_bytes (b # ds) = xs"

lemma fits_put: "fits ds n b xs \<Longrightarrow> i + length ys \<le> n \<Longrightarrow> fits ds n (put_bytes b i ys) (st_bytes xs i ys)"
  using put_bytes_chain(1) [of b i ys] put_bytes_chain(2) [of b i ys ds] by (simp add: fits_def del: chain_bytes_simps)

lemma echo_reply_frame:
  assumes p: "has_packet s e p (pn_buf nd # ds)" and nd: "node_at (l_heap s) p = Some nd" and one: "pf_ref (pn_buf nd) = 1"
    and r: "room (pn_buf nd) (20 + length opts + 14)" and l: "4 \<le> plen (pn_buf nd)" "length pre = 8"
    and hdr: "ld_bytes (pf_mem (pn_buf nd)) (pf_off (pn_buf nd) - (20 + length opts)) (20 + length opts) =
      pre @ [ttl, 1, k0, k1] @ bytes32 src @ bytes32 dst @ opts"
    and cur: "current_iphdr_src (ip_data s) = src"
    and data: "chain_bytes (pn_buf nd # ds) = [8, code, c0, c1] @ rest"
    and fr: "arp_fresh (netifs n) s n src hw" and hw: "all_nif_ok netifs"
  shows "\<exists>j h. bindR (echo_reply netifs dst (20 + length opts) p n s) (stack_free p) = Inr (s\<lparr>etharp_cached_entry := j, l_heap := h,
      l_out := l_out s @ [(n, eth_hdr_bytes hw (nif_hwaddr (netifs n)) ETHTYPE_IP @ echo_answer pre src dst opts code c0 c1 rest)]\<rparr>) \<and>
      refs_ok h (e(p := e p - 1))"
proof -
  let ?k = "20 + length opts" let ?b = "pn_buf nd"
  have ok: "refs_ok (l_heap s) e" "0 < e p" "chain_at (l_heap s) p = Inr (?b # ds)" "wf_chain (?b # ds)" using p by (simp_all add: has_packet_def)
  have f: "pf_off ?b + plen ?b \<le> length (pf_mem ?b)" using ok(4) by simp
  have seg: "pf_mem ?b ! (pf_off ?b + 2) = c0" "pf_mem ?b ! (pf_off ?b + 3) = c1"
    using chain_nth [OF ok(4), of 2] chain_nth [OF ok(4), of 3] l(1) unfolding data by simp_all
  obtain b1 where b1: "pbuf_add_header ?b ?k = Inr (0, b1)" "plen b1 = plen ?b + ?k" "unat (pf_tot_len b1) = unat (pf_tot_len ?b) + ?k"
      "pf_ref b1 = pf_ref ?b" "pf_type_internal b1 = pf_type_internal ?b" "pf_flags b1 = pf_flags ?b" "pf_mem b1 = pf_mem ?b" "pf_off b1 = pf_off ?b - ?k"
      "seg_bytes b1 = ld_bytes (pf_mem ?b) (pf_off ?b - ?k) ?k @ seg_bytes ?b"
    using header_back [OF room_less [OF r] _ f] by auto
  let ?rev = "(pre @ [ttl, 1, k0, k1] @ bytes32 src @ bytes32 dst @ opts) @ [8, code, c0, c1] @ rest"
  have f1: "fits ds (plen ?b + ?k) b1 ?rev"
    using b1 f r hdr data by (simp add: fits_def room_def)
  define ck where "ck = echo_chksum (ld16 (pf_mem b1) (pf_off b1 + ?k + 2))"
  have c01: "ck = echo_chksum (le16 c0 c1)"
    using b1(7,8) r seg by (simp add: ck_def ld16_def room_def numeral_3_eq_3)
  define b2 where "b2 = put_bytes (put_bytes (put_bytes (put_bytes (put_bytes (put_bytes b1 12 (bytes32 dst)) 16 (bytes32 src)) ?k [0]) (?k + 2) (bytes16 ck)) 8 [255]) 10 [0, 0]"
  have f2: "fits ds (plen ?b + ?k) b2 (echo_answer pre src dst opts code c0 c1 rest)"
    unfolding b2_def c01 echo_writes [OF l(2), of ttl k0 k1 src dst opts 8 code c0 c1 rest, symmetric]
    by (intro fits_put) (use f1 l(1) in simp_all)
  have w2: "wf_chain (b2 # ds)" "pf_ref b2 = 1" "pf_type_internal b2 = pf_type_internal ?b" "pf_flags b2 = pf_flags ?b"
    using f2 b1 ok(4) one by (auto simp: fits_def b2_def)
  let ?s = "set_buf p nd b2 s" let ?nd = "nd\<lparr>pn_buf := b2\<rparr>"
  have n2: "node_at (l_heap ?s) p = Some ?nd" using node_at_less [OF nd] by (simp add: set_buf_def node_at_upd)
  have "refs_ok (l_heap ?s) e" using refs_write [OF ok(1) nd, of b2] w2(2-4) one by (simp add: set_buf_def)
  moreover have "chain_at (l_heap ?s) p = Inr (b2 # ds)" using chain_at_head(2) [OF ok(1) nd ok(3)] by (simp add: set_buf_def)
  ultimately have p2: "has_packet ?s e p (pn_buf ?nd # ds)" using ok(2) w2(1) by (simp add: has_packet_def)
  have room2: "room (pn_buf ?nd) 14"
  proof -
    have "pf_off b2 = pf_off ?b - ?k" "unat (pf_tot_len b2) = unat (pf_tot_len ?b) + ?k" by (simp_all add: b2_def b1)
    moreover have "plen b2 = plen ?b + ?k" "pf_off b2 \<le> length (pf_mem b2)" using f2 by (simp_all add: fits_def)
    ultimately show ?thesis using r w2(3) by (auto simp: room_def)
  qed
  have fr2: "arp_fresh (netifs n) ?s n src hw" using fr by (simp add: arp_fresh_def set_buf_def)
  let ?fr = "eth_hdr_bytes hw (nif_hwaddr (netifs n)) ETHTYPE_IP @ echo_answer pre src dst opts code c0 c1 rest"
  obtain j b' where o: "etharp_output netifs n p src ?s = Inr (nif_linkoutput (netifs n) ?fr,
      ?s\<lparr>etharp_cached_entry := j, l_heap := (l_heap ?s)[p := Some (?nd\<lparr>pn_buf := b'\<rparr>)], l_out := l_out ?s @ [(n, ?fr)]\<rparr>)"
      "pf_ref b' = pf_ref (pn_buf ?nd)" "pf_type_internal b' = pf_type_internal (pn_buf ?nd)" "pf_flags b' = pf_flags (pn_buf ?nd)"
    using etharp_output_fresh [OF p2 n2 room2 fr2 hw] f2 unfolding fits_def by auto
  let ?s2 = "?s\<lparr>etharp_cached_entry := j, l_heap := (l_heap ?s)[p := Some (?nd\<lparr>pn_buf := b'\<rparr>)], l_out := l_out ?s @ [(n, ?fr)]\<rparr>"
  have "refs_ok (l_heap ?s2) e" using refs_write [OF _ n2, of e b'] o(2-4) p2 by (simp add: has_packet_def)
  then obtain h where h: "stack_free p ?s2 = Inr (?s2\<lparr>l_heap := h\<rparr>)" "refs_ok h (e(p := e p - 1))"
    using stack_free_runs [of ?s2 e p] ok(2) by auto
  have l20: "20 \<le> plen b2" using f2 by (simp add: fits_def)
  have n1: "pf_ref b2 = 1" using w2(2) .
  have seg2: "length (seg_bytes b2) = plen b2" using w2(1) by (simp add: length_seg_bytes)
  have at16: "ld_bytes (pf_mem b2) (pf_off b2) 20 = take 20 (echo_answer pre src dst opts code c0 c1 rest)"
  proof -
    have "take 20 (chain_bytes (b2 # ds)) = take 20 (seg_bytes b2)" using seg2 l20 by simp
    then show ?thesis using f2 l20 by (simp add: fits_def seg_bytes_def ld_bytes_def min_def del: chain_bytes_simps)
  qed
  have dest: "ld32 (take 20 (echo_answer pre src dst opts code c0 c1 rest)) 16 = src"
    using l(2) by (simp add: echo_answer_def ld32_def bytes32_def nth_append le32_bytes32)
  have reply: "echo_reply netifs dst ?k p n s = Inr ?s2"
  proof -
    have "echo_reply netifs dst ?k p n s = bindR (ip4_output_if netifs p (Some dst) None 255 0 1 n ?s) (\<lambda>(err, s). Inr s)"
      using nd b1(1) cur by (simp add: echo_reply_def deref_def Let_def b2_def ck_def)
    moreover have "ip4_output_if netifs p (Some dst) None 255 0 1 n ?s = etharp_output netifs n p src ?s"
      using n1 n2 l20 at16 dest l(2) by (simp add: ip4_output_if_def ip4_output_if_src_def deref_def Let_def echo_answer_def)
    ultimately show ?thesis using o(1) by simp
  qed
  moreover have "?s2\<lparr>l_heap := h\<rparr> = s\<lparr>etharp_cached_entry := j, l_heap := h, l_out := l_out s @ [(n, ?fr)]\<rparr>" by (simp add: set_buf_def)
  ultimately show ?thesis using h by (intro exI [of _ j] exI [of _ h]) simp
qed

text \<open>Without room for the headers, or in memory that is not ours, the answer is made in a new buffer.\<close>

lemma copy_one:
  assumes "wf_chain [t]" "wf_chain [f]" "plen t = plen f"
  shows "pbuf_copy [t] [f] = Inr (0, [put_bytes t 0 (seg_bytes f)])"
proof -
  have "unat (pf_tot_len t) = plen t" "unat (pf_tot_len f) = plen f" using assms by simp_all
  then have "copy_loop [t] 0 [f] 0 = Inr (0, [put_bytes t 0 (seg_bytes f)])"
    using assms(3) by (subst copy_loop.simps) (simp add: Let_def is_queue_def seg_bytes_def)
  then show ?thesis using assms by (simp add: pbuf_copy_def ptot_def)
qed

lemma chain_loop_one: "chain_loop f h q = Inr [] \<Longrightarrow> q = None"
  by (induction f h q rule: chain_loop.induct) (auto simp: bindR_Inr_iff)

lemma freed_node: "freed_exactly h gone h' \<Longrightarrow> node_at h' i = Some m \<Longrightarrow> \<exists>n. node_at h i = Some n \<and> same_but_ref n m"
  unfolding freed_exactly_def by (elim conjE) (drule spec [of _ i], simp)

lemma echo_len:
  assumes "unat (pf_tot_len b) = plen b" "k + plen b \<le> 65000"
  shows "unat (pf_tot_len b + of_nat k) = k + plen b" "\<not> pf_tot_len b + of_nat k < pf_tot_len b"
proof -
  have "unat (of_nat k :: u16) = k" using assms(2) by (intro unat_of_nat_u16) simp
  then show u: "unat (pf_tot_len b + of_nat k) = k + plen b" using assms by (simp add: unat_word_ariths)
  show "\<not> pf_tot_len b + of_nat k < pf_tot_len b" unfolding word_less_nat_alt u using assms(1) by simp
qed

lemma echo_alloc:
  assumes w: "unat w = n" "n \<le> 65000"
  shows "alloc_ram 14 w s = (case src_heap (l_src s) (16 + mem_align_size n) of None \<Rightarrow> Inr (None, s)
     | Some m \<Rightarrow> Inr (Some (length (l_heap s)), s\<lparr>l_heap := l_heap s @ [Some \<lparr>pn_buf = pbuf_init_alloced_pbuf m 16 w w PBUF_RAM 0, pn_next = None\<rparr>]\<rparr>))"
proof -
  have a: "mem_align_size n < n + 4" "mem_align_size (unat (14 :: u16)) = 16" by (rule mem_align_size_ge) (simp add: mem_align_size_def)
  then have "unat (of_nat (16 + mem_align_size n) :: u16) = 16 + mem_align_size n" using w(2) by (intro unat_of_nat_u16) linarith
  then show ?thesis using alloc_ram_cases [of 14 w s] unfolding a w(1) by simp
qed

lemma echo_copy_none:
  assumes "unat (pf_tot_len (pn_buf nd)) = plen (pn_buf nd)" "length hdr + plen (pn_buf nd) \<le> 65000"
    and "src_heap (l_src s) (16 + mem_align_size (length hdr + plen (pn_buf nd))) = None"
  shows "echo_copy hdr (length hdr) nd p s = Inr (Inl (), s)"
  using echo_len [OF assms(1,2)] echo_alloc [OF echo_len(1) [OF assms(1,2)] assms(2), of s] assms(3) by (simp add: echo_copy_def)

lemma echo_copy_runs:
  assumes p: "has_packet s e p [pn_buf nd]" and nd: "node_at (l_heap s) p = Some nd" and hp: "heap_ok s"
    and l: "8 \<le> plen (pn_buf nd)" "20 \<le> length hdr" "length hdr + plen (pn_buf nd) \<le> 65000"
    and m: "src_heap (l_src s) (16 + mem_align_size (length hdr + plen (pn_buf nd))) = Some m"
  shows "\<exists>h b. echo_copy hdr (length hdr) nd p s = Inr (Inr (length (l_heap s)), s\<lparr>l_heap := h\<rparr>) \<and>
    has_packet (s\<lparr>l_heap := h\<rparr>) ((e(length (l_heap s) := 1))(p := e p - 1)) (length (l_heap s)) [b] \<and>
    node_at h (length (l_heap s)) = Some \<lparr>pn_buf = b, pn_next = None\<rparr> \<and> pf_ref b = 1 \<and> room b (length hdr + 16) \<and> plen b = plen (pn_buf nd) \<and>
    ld_bytes (pf_mem b) (pf_off b - length hdr) (length hdr) = hdr \<and> seg_bytes b = seg_bytes (pn_buf nd) \<and> pf_type_internal b = 0x80"
proof -
  let ?r = "length (l_heap s)" let ?k = "length hdr" let ?b = "pn_buf nd" let ?n = "?k + plen ?b"
  have ok: "refs_ok (l_heap s) e" "0 < e p" "chain_at (l_heap s) p = Inr [?b]" "wf_chain [?b]" using p by (simp_all add: has_packet_def)
  have t: "unat (pf_tot_len ?b) = plen ?b" using ok(4) by simp
  obtain w :: u16 where w: "pf_tot_len ?b + of_nat ?k = w" by blast
  have len: "unat w = ?n" "\<not> w < pf_tot_len ?b" using echo_len [OF t l(3)] unfolding w by simp_all
  have al: "mem_align_size ?n < ?n + 4" "?n \<le> mem_align_size ?n" by (rule mem_align_size_ge)+
  have lm: "length m = 16 + mem_align_size ?n" using hp m by (simp add: heap_ok_def)
  define b0 where "b0 = pbuf_init_alloced_pbuf m 16 w w PBUF_RAM 0"
  let ?s1 = "s\<lparr>l_heap := l_heap s @ [Some \<lparr>pn_buf = b0, pn_next = None\<rparr>]\<rparr>"
  have alloc: "alloc_ram 14 w s = Inr (Some ?r, ?s1)" using echo_alloc [OF len(1) l(3), of s] m by (simp add: b0_def)
  have f0: "plen b0 = ?n" "pf_off b0 = 16" "pf_mem b0 = m" "unat (pf_tot_len b0) = ?n" "pf_ref b0 = 1" "pf_flags b0 = 0" "pf_type_internal b0 = 0x80"
    using len(1) by (simp_all add: b0_def pbuf_init_alloced_pbuf_def plen_def)
  define b1 where "b1 = put_bytes b0 0 hdr"
  have f1: "pf_mem b1 = st_bytes m 16 hdr" "length (pf_mem b1) = length m" "wf_chain [b1]" "plen b1 = ?n" "unat (pf_tot_len b1) = ?n"
    using f0 lm al by (simp_all add: b1_def put_bytes_def plen_def)
  obtain b2 where b2: "pbuf_remove_header b1 ?k = (0, b2)" "wf_chain [b2]" "pf_mem b2 = pf_mem b1" "pf_type_internal b2 = pf_type_internal b1"
      "pf_off b2 = pf_off b1 + ?k" "plen b2 = plen ?b"
    using pbuf_remove_header_ok [OF f1(3), of ?k] f1(4) by auto
  have more: "pf_ref b2 = 1" "pf_flags b2 = 0" using remove_header_more [OF b2(1)] f0 by (simp_all add: b1_def)
  define b3 where "b3 = put_bytes b2 0 (seg_bytes ?b)"
  have lseg: "length (seg_bytes ?b) = plen ?b" using ok(4) by (simp add: length_seg_bytes)
  have cp: "pbuf_copy [b2] [?b] = Inr (0, [b3])" using copy_one [OF b2(2) ok(4) b2(6)] by (simp add: b3_def)
  have off: "pf_off b2 = 16 + ?k" "length (pf_mem b2) = 16 + mem_align_size ?n" using b2 f0 f1 lm by (simp_all add: b1_def)
  have f3: "plen b3 = plen ?b" "pf_off b3 = 16 + ?k" "pf_ref b3 = 1" "pf_type_internal b3 = 0x80" "pf_flags b3 = 0" "pf_tot_len b3 = pf_tot_len b2"
    using b2 more off f0 by (simp_all add: b3_def b1_def)
  have m3: "pf_mem b3 = st_bytes (st_bytes m 16 hdr) (16 + ?k) (seg_bytes ?b)" using b2(3) f1(1) off by (simp add: b3_def put_bytes_def)
  have lm3: "length (pf_mem b3) = length m" using lm al lseg by (simp add: m3)
  have seg3: "seg_bytes b3 = seg_bytes ?b"
    using put_bytes_seg [of b2 0 "seg_bytes ?b"] b2(2,6) lseg length_seg_bytes [of b2] by (simp add: b3_def st_bytes_def)
  have front: "ld_bytes (pf_mem b3) 16 ?k = hdr"
    using lm al lseg by (simp add: m3 ld_bytes_def st_bytes_def)
  have w3: "wf_chain [b3]" using b2(2,6) f3 lm3 lm al by (simp add: plen_def)
  have rm: "room b3 (?k + 16)" using f3 w3 lm3 lm al l(3) by (simp add: room_def)
  \<comment> \<open>The request is released.\<close>
  let ?s2 = "s\<lparr>l_heap := l_heap s @ [Some \<lparr>pn_buf = b3, pn_next = None\<rparr>]\<rparr>"
  have ok2: "refs_ok (l_heap ?s2) (e(?r := 1))" using refs_ok_snoc_new [OF ok(1) f3(3)] f3(4,5) by (simp add: good_src_def pbuf_get_allocsrc_def)
  have pr: "p < ?r" using node_at_less [OF nd] .
  then obtain h gone where h: "stack_free p ?s2 = Inr (?s2\<lparr>l_heap := h\<rparr>)" "refs_ok h ((e(?r := 1))(p := e p - 1))" "freed_exactly (l_heap ?s2) gone h"
    using stack_free_runs [OF ok2, of p] ok(2) by auto
  obtain mr where mr: "node_at h ?r = Some mr" "same_but_ref \<lparr>pn_buf = b3, pn_next = None\<rparr> mr"
  proof -
    have "live h ?r" using ext_live [OF h(2), of ?r] pr by simp
    then obtain mr where mr: "node_at h ?r = Some mr" by (auto simp: live_def)
    then show thesis using that [OF mr] freed_node [OF h(3) mr] by (simp add: node_at_append)
  qed
  have "rf h ?r = 1"
  proof -
    have "preds (l_heap ?s2) ?r = {}"
      using ok2 f3(3) by (auto simp: refs_ok_def rc_inv_def rf_def node_at_append dest!: spec [of _ ?r])
    then have "preds h ?r = {}" using freed_links_heap [OF h(3)] by (auto simp: preds_def links_def)
    then show ?thesis using h(2) pr by (auto simp: refs_ok_def rc_inv_def)
  qed
  then have "pf_ref (pn_buf mr) = 1" using mr(1) unat_eq_one by (simp add: rf_def)
  then have "pn_buf mr = b3" "pn_next mr = None" using mr(2) f3(3) by (cases "pn_buf mr"; cases b3; simp add: same_but_ref_def)+
  then have n3: "node_at h ?r = Some \<lparr>pn_buf = b3, pn_next = None\<rparr>" using mr(1) by (cases mr) simp
  have "length h = Suc ?r" using h(3) by (simp add: freed_exactly_def)
  then have "chain_at h ?r = Inr [b3]" using n3 by (simp add: chain_at_def deref_def)
  then have hp3: "has_packet (s\<lparr>l_heap := h\<rparr>) ((e(?r := 1))(p := e p - 1)) ?r [b3]" using h(2) w3 pr by (simp add: has_packet_def)
  have c1: "chain_at (l_heap ?s1) p = Inr [?b]"
  proof -
    have "pn_next nd = None" using ok(3) nd by (cases "length (l_heap s)") (auto simp: chain_at_def deref_def bindR_Inr_iff elim!: chain_loop_one)
    then show ?thesis using nd pr by (simp add: chain_at_def deref_def node_at_append)
  qed
  have sb: "set_buf ?r \<lparr>pn_buf = b0, pn_next = None\<rparr> b3 ?s1 = ?s2" by (simp add: set_buf_def)
  have run: "echo_copy hdr ?k nd p s = Inr (Inr ?r, s\<lparr>l_heap := h\<rparr>)"
    using alloc len(2) b2(1) cp h(1) c1 f0(1) l(1) unfolding echo_copy_def Let_def
    by (simp add: w deref_def node_at_append sb flip: b1_def)
  show ?thesis
    using run hp3 n3 f3(1-4) rm front seg3 by (intro exI [of _ h] exI [of _ b3]) simp
qed

text \<open>Where the answer is made: in the buffer of the request when it has room for the headers and nobody else refers to it, or in a new one.\<close>

definition answerable :: "stack \<Rightarrow> (nat \<Rightarrow> nat) \<Rightarrow> nat \<Rightarrow> pbuf list \<Rightarrow> nat \<Rightarrow> nat \<Rightarrow> bool" where
  "answerable s e p c hs n \<longleftrightarrow>
     (if hs \<le> pf_off (hd c) \<and> pf_type_internal (hd c) AND 0x80 \<noteq> 0
      then e p = 1 \<and> pf_ref (hd c) = 1
      else tl c = [] \<and> heap_ok s \<and> src_heap (l_src s) (16 + mem_align_size n) \<noteq> None)"

lemma no_room: "\<not> (k \<le> pf_off b \<and> pf_type_internal b AND 0x80 \<noteq> 0) \<Longrightarrow> 0 < k \<Longrightarrow> pbuf_add_header b k = Inr (1, b)"
  by (auto simp: pbuf_add_header_def pbuf_add_header_impl_def Let_def)

lemma icmp_answers:
  assumes p: "has_packet s e p (pn_buf nd # ds)" and nd: "node_at (l_heap s) p = Some nd"
    and an: "answerable s e p (pn_buf nd # ds) (20 + length opts + 14) (24 + length opts + length rest)"
    and l: "4 \<le> plen (pn_buf nd)" "4 \<le> length rest" "length pre = 8" "24 + length opts + length rest \<le> 65000"
    and front: "ld_bytes (pf_mem (pn_buf nd)) (pf_off (pn_buf nd) - (20 + length opts)) (20 + length opts) = current_ip4_header (ip_data s)"
    and hdr: "current_ip4_header (ip_data s) = pre @ [ttl, 1, k0, k1] @ bytes32 src @ bytes32 dst @ opts"
      "unat ((current_ip4_header (ip_data s) ! 0 AND 0x0F) * 4) = 20 + length opts"
    and cur: "current_netif (ip_data s) = Some cur" "current_iphdr_src (ip_data s) = src" "current_iphdr_dest (ip_data s) = dst"
      "\<not> ip4_addr_ismulticast dst" "\<not> ip4_addr_isbroadcast_u32 dst (netifs cur)"
    and data: "chain_bytes (pn_buf nd # ds) = [8, code, c0, c1] @ rest" and ck: "inet_chksum a ([8, code, c0, c1] @ rest) = 0"
    and fr: "arp_fresh (netifs n) s n src hw" and hw: "all_nif_ok netifs"
  shows "\<exists>j h. icmp_input netifs p n s = Inr (s\<lparr>etharp_cached_entry := j, l_heap := h,
      l_out := l_out s @ [(n, eth_hdr_bytes hw (nif_hwaddr (netifs n)) ETHTYPE_IP @ echo_answer pre src dst opts code c0 c1 rest)]\<rparr>) \<and>
      refs_ok h (e(p := e p - 1))"
proof -
  let ?k = "20 + length opts" let ?b = "pn_buf nd" let ?h = "current_ip4_header (ip_data s)"
  have ok: "refs_ok (l_heap s) e" "0 < e p" "chain_at (l_heap s) p = Inr (?b # ds)" "wf_chain (?b # ds)" using p by (simp_all add: has_packet_def)
  have f: "pf_off ?b + plen ?b \<le> length (pf_mem ?b)" using ok(4) by simp
  have len: "length rest + 4 = unat (pf_tot_len ?b)" using length_chain_bytes [OF ok(4)] unfolding data by simp
  have first: "pf_mem ?b ! pf_off ?b = 8" using chain_nth [OF ok(4), of 0] l(1) unfolding data by simp
  have sum: "inet_chksum_pbuf (?b # ds) = 0"
    using ck chksum_zero [of "[8, code, c0, c1] @ rest" a] l(4) inet_chksum_pbuf_eq [OF ok(4)] unfolding data by simp
  have hl: "length ?h = ?k" using hdr(1) l(3) by simp
  have echo: "icmp_input netifs p n s = bindR (echo_buffer ?h ?k p s) (\<lambda>(r, s).
      case r of Inl _ \<Rightarrow> stack_free p s | Inr p \<Rightarrow> bindR (echo_reply netifs dst ?k p n s) (stack_free p))"
  proof -
    have "icmp_input netifs p n s = icmp_echo netifs p n s"
      using nd hdr hl l f first unfolding icmp_input_def by (simp add: deref_def Let_def)
    then show ?thesis using ok(3) cur sum len l(2) unfolding icmp_echo_def Let_def hdr(2) cur(3) by simp
  qed
  show ?thesis
  proof (cases "?k + 14 \<le> pf_off ?b \<and> pf_type_internal ?b AND 0x80 \<noteq> 0")
    case True
    then have one: "pf_ref ?b = 1" using an by (simp add: answerable_def)
    have "plen ?b \<le> unat (pf_tot_len ?b)" using ok(4) by simp
    then have r: "room ?b (?k + 14)" using True f l(4) len by (simp add: room_def)
    obtain bb where bb: "pbuf_add_header ?b (?k + 14) = Inr (0, bb)" "pbuf_remove_header bb (?k + 14) = (0, ?b)"
      using add_remove_header [OF r] by auto
    have "echo_buffer ?h ?k p s = Inr (Inr p, s)" using nd bb set_buf_same [OF nd] by (simp add: echo_buffer_def deref_def)
    then show ?thesis
      using echo echo_reply_frame [OF p nd one r l(1,3) front [unfolded hdr(1)] cur(2) data fr hw] by simp
  next
    case False
    then have c: "ds = []" "heap_ok s" "src_heap (l_src s) (16 + mem_align_size (24 + length opts + length rest)) \<noteq> None"
      using an by (auto simp: answerable_def)
    have pl: "plen ?b = 4 + length rest" using ok(4) len c(1) by simp
    have sz: "length ?h + plen ?b = 24 + length opts + length rest" using hl pl by simp
    obtain m where m: "src_heap (l_src s) (16 + mem_align_size (length ?h + plen ?b)) = Some m" using c(3) sz by auto
    let ?r = "length (l_heap s)" let ?e = "(e(?r := 1))(p := e p - 1)"
    obtain h b where hb: "echo_copy ?h (length ?h) nd p s = Inr (Inr ?r, s\<lparr>l_heap := h\<rparr>)" "has_packet (s\<lparr>l_heap := h\<rparr>) ?e ?r [b]"
        "node_at h ?r = Some \<lparr>pn_buf = b, pn_next = None\<rparr>" "pf_ref b = 1" "room b (length ?h + 16)" "plen b = plen ?b"
        "ld_bytes (pf_mem b) (pf_off b - length ?h) (length ?h) = ?h" "seg_bytes b = seg_bytes ?b"
      using echo_copy_runs [OF p [unfolded c(1)] nd c(2) _ _ _ m] pl sz hl l(2,4) by auto
    let ?s = "s\<lparr>l_heap := h\<rparr>" let ?nd = "\<lparr>pn_buf = b, pn_next = None\<rparr>"
    have buf: "echo_buffer ?h ?k p s = Inr (Inr ?r, ?s)"
      using nd no_room [OF False] hb(1) unfolding hl by (simp add: echo_buffer_def deref_def)
    have "room b (?k + 14)" using hb(5) hl by (simp add: room_def)
    moreover have "ld_bytes (pf_mem b) (pf_off b - ?k) ?k = pre @ [ttl, 1, k0, k1] @ bytes32 src @ bytes32 dst @ opts" using hb(7) hdr(1) hl by simp
    moreover have "chain_bytes (pn_buf ?nd # []) = [8, code, c0, c1] @ rest" using hb(8) data c(1) by simp
    moreover have "arp_fresh (netifs n) ?s n src hw" using fr by (simp add: arp_fresh_def)
    ultimately obtain j h2 where o: "bindR (echo_reply netifs dst ?k ?r n ?s) (stack_free ?r) = Inr (?s\<lparr>etharp_cached_entry := j, l_heap := h2,
        l_out := l_out ?s @ [(n, eth_hdr_bytes hw (nif_hwaddr (netifs n)) ETHTYPE_IP @ echo_answer pre src dst opts code c0 c1 rest)]\<rparr>)"
        "refs_ok h2 (?e(?r := ?e ?r - 1))"
      using echo_reply_frame [of ?s ?e ?r ?nd "[]" opts pre ttl k0 k1 src dst code c0 c1 rest netifs n hw] hb(2,3,4,6) pl l(3) cur(2) hw by auto
    have "e ?r = 0" using unreferenced_end [OF ok(1)] .
    then have "?e(?r := ?e ?r - 1) = e(p := e p - 1)" using node_at_less [OF nd] by (auto simp: fun_eq_iff)
    then show ?thesis using echo buf o by (intro exI [of _ j] exI [of _ h2]) simp
  qed
qed

section \<open>From the packet to the answer\<close>

lemma take_drop_mid: "xs = a @ b @ c \<Longrightarrow> length a = k \<Longrightarrow> length b = m \<Longrightarrow> take k xs = a"
  "xs = a @ b @ c \<Longrightarrow> length a = k \<Longrightarrow> length b = m \<Longrightarrow> drop k (take (k + m) xs) = b"
  by simp_all

lemma still_single:
  assumes ok: "refs_ok h e" "refs_ok h' e" and l: "links h' \<subseteq> links h" and one: "e p = 1" "rf h p = 1"
  shows "rf h' p = 1"
proof -
  have c: "rf h p = card (preds h p) + e p" "rf h' p = card (preds h' p) + e p" using ok by (simp_all add: refs_ok_def rc_inv_def)
  have "preds h p = {}" using c(1) one finite_preds [of h p] by simp
  moreover have "preds h' p \<subseteq> preds h p" using l by (auto simp: preds_def links_def)
  ultimately have "preds h' p = {}" by blast
  then show ?thesis using c(2) one(1) by simp
qed

text \<open>
  C39: An echo request is answered, in place or, as for all buffers of the bridge, from a new buffer. When a packet for this host carries an ICMP echo request with a valid checksum, and the sender's
  address is resolved, \<open>ip4_input\<close> sends exactly one frame: the same packet with type 0 in place of 8, source and
  destination address exchanged, time to live 255, the same identifier, sequence number and data. The checksum of the
  answer is valid, padding of the frame is not sent, and the request is released.
\<close>

theorem icmp_echo_answered:
  assumes p: "has_packet s e p c" and an: "answerable s e p c 14 (24 + length opts + length rest)"
    and xs: "chain_bytes c = pre @ [ttl, 1, k0, k1] @ bytes32 src @ bytes32 dst @ opts @ [8, code, c0, c1] @ rest @ pad" "length pre = 8" "4 \<le> length rest"
    and len': "ip_hlen (chain_bytes c) = 20 + length opts" "ip_total (chain_bytes c) = 24 + length opts + length rest" "24 + length opts \<le> plen (hd c)"
    and good: "ip_header_ok (chain_bytes c) (plen (hd c))" "ip_wanted netifs inp s (chain_bytes c)"
    and own: "ip_netif netifs inp s (chain_bytes c) = Some cur" "\<not> ip4_addr_ismulticast dst" "\<not> ip4_addr_isbroadcast_u32 dst (netifs cur)"
    and size: "24 + length opts + length rest \<le> 65000"
    and ck: "inet_chksum a ([8, code, c0, c1] @ rest) = 0"
    and fr: "arp_fresh (netifs inp) s inp src hw" and hw: "all_nif_ok netifs"
  shows "\<exists>j h. ip4_input cb tcp netifs p inp s = Inr (ERR_OK, s\<lparr>ip_data := ip_data_none, etharp_cached_entry := j, l_heap := h,
        l_out := l_out s @ [(inp, eth_hdr_bytes hw (nif_hwaddr (netifs inp)) ETHTYPE_IP @ echo_answer pre src dst opts code c0 c1 rest)]\<rparr>) \<and>
      refs_ok h (e(p := e p - 1)) \<and> inet_chksum b (drop (20 + length opts) (echo_answer pre src dst opts code c0 c1 rest)) = 0"
proof -
  let ?xs = "chain_bytes c" let ?k = "20 + length opts"
  have f: "?xs ! 9 = 1" "ld32 ?xs 12 = src" "ld32 ?xs 16 = dst" "take ?k ?xs = pre @ [ttl, 1, k0, k1] @ bytes32 src @ bytes32 dst @ opts"
      "drop ?k (take (24 + length opts + length rest) ?xs) = [8, code, c0, c1] @ rest"
  proof -
    let ?h = "pre @ [ttl, 1, k0, k1] @ bytes32 src @ bytes32 dst @ opts" let ?m = "[8, code, c0, c1] @ rest"
    have split: "?xs = ?h @ ?m @ pad" "length ?h = ?k" "length ?m = 4 + length rest" using xs(1,2) by simp_all
    show "?xs ! 9 = 1" "ld32 ?xs 12 = src" "ld32 ?xs 16 = dst"
      using xs(2) unfolding xs(1) by (simp_all add: ld32_def bytes32_def nth_append le32_bytes32)
    show "take ?k ?xs = ?h" using take_drop_mid(1) [OF split] .
    show "drop ?k (take (24 + length opts + length rest) ?xs) = ?m" using take_drop_mid(2) [OF split] by (simp add: ac_simps)
  qed
  obtain h d where d: "ip4_input cb tcp netifs p inp s = bindR (icmp_input netifs p inp (s\<lparr>l_heap := h, ip_data := delivering cur inp ?xs\<rparr>))
        (\<lambda>s. Inr (ERR_OK, s\<lparr>ip_data := ip_data_none\<rparr>))"
      "has_packet (s\<lparr>l_heap := h\<rparr>) e p d" "length h = length (l_heap s)" "chain_bytes d = [8, code, c0, c1] @ rest"
      "plen (hd d) = min (24 + length opts + length rest) (plen (hd c)) - ?k" "pf_mem (hd d) = pf_mem (hd c)" "pf_off (hd d) = pf_off (hd c) + ?k"
      "pf_type_internal (hd d) = pf_type_internal (hd c)" "links h \<subseteq> links (l_heap s)" "length d \<le> length c"
  proof -
    have pre: "4 \<le> plen (hd c)" "?xs ! 9 = 17 \<longrightarrow> ip_hlen ?xs + 4 \<le> plen (hd c)" using len'(3) f(1) by simp_all
    obtain cur' h d where m: "ip_netif netifs inp s ?xs = Some cur'"
      "ip4_input cb tcp netifs p inp s = bindR (ip4_protocol cb tcp netifs (?xs ! 9) (ip_hlen ?xs) p cur' inp (s\<lparr>l_heap := h, ip_data := delivering cur' inp ?xs\<rparr>))
        (\<lambda>s. Inr (ERR_OK, s\<lparr>ip_data := ip_data_none\<rparr>))"
      "has_packet (s\<lparr>l_heap := h\<rparr>) e p d" "length h = length (l_heap s)" "chain_bytes d = drop (ip_hlen ?xs) (take (ip_total ?xs) ?xs)"
      "plen (hd d) = min (ip_total ?xs) (plen (hd c)) - ip_hlen ?xs" "pf_mem (hd d) = pf_mem (hd c)" "pf_off (hd d) = pf_off (hd c) + ip_hlen ?xs"
      "pf_type_internal (hd d) = pf_type_internal (hd c)" "links h \<subseteq> links (l_heap s)" "length d \<le> length c"
      using ip4_input_delivers_more [OF p pre good, of cb tcp] by blast
    have c: "cur' = cur" using m(1) own(1) by simp
    show thesis
      by (rule that [of h d]) (use m f(1,5) in \<open>simp_all add: c len' ip4_protocol_def del: chain_bytes_simps\<close>)
  qed
  let ?t = "s\<lparr>l_heap := h, ip_data := delivering cur inp ?xs\<rparr>"
  have t: "has_packet ?t e p d" using d(2) by (simp add: has_packet_def)
  obtain nd0 where nd0: "node_at (l_heap s) p = Some nd0" "hd c = pn_buf nd0" using p by (rule has_packetE) auto
  obtain nd ds where nd: "node_at (l_heap ?t) p = Some nd" "d = pn_buf nd # ds" using t by (rule has_packetE) auto
  let ?b = "pn_buf nd"
  have w: "wf_chain c" "c \<noteq> []" "wf_chain (?b # ds)" using has_packet_wf [OF p] has_packet_wf(1) [OF t] nd(2) by simp_all
  have ok: "refs_ok (l_heap s) e" "refs_ok h e" using p d(2) by (simp_all add: has_packet_def)
  have hdb: "plen ?b = min (24 + length opts + length rest) (plen (hd c)) - ?k" "pf_mem ?b = pf_mem (hd c)" "pf_off ?b = pf_off (hd c) + ?k"
      "pf_type_internal ?b = pf_type_internal (hd c)"
    using d(5-8) nd(2) by simp_all
  have len: "unat (pf_tot_len ?b) = 4 + length rest" using length_chain_bytes [OF w(3)] d(4) nd(2) by (simp del: chain_bytes_simps)
  have an': "answerable ?t e p (?b # ds) (?k + 14) (24 + length opts + length rest)"
  proof (cases "14 \<le> pf_off (hd c) \<and> pf_type_internal (hd c) AND 0x80 \<noteq> 0")
    case True
    then have one: "e p = 1" "pf_ref (hd c) = 1" using an by (simp_all add: answerable_def)
    have "rf (l_heap s) p = 1" using nd0 one(2) by (simp add: rf_def)
    then have "rf h p = 1" using still_single [OF ok d(9) one(1)] by simp
    then have "pf_ref ?b = 1" using nd(1) unat_eq_one by (simp add: rf_def)
    then show ?thesis using True one hdb(3,4) by (simp add: answerable_def)
  next
    case False
    then have "tl c = []" "heap_ok s" "src_heap (l_src s) (16 + mem_align_size (24 + length opts + length rest)) \<noteq> None"
      using an by (auto simp: answerable_def)
    moreover from this have "ds = []" using d(10) nd(2) w(2) by (cases c) simp_all
    ultimately show ?thesis using False hdb(3,4) by (auto simp: answerable_def heap_ok_def)
  qed
  have "take ?k (seg_bytes (hd c)) = take ?k ?xs" using w(1,2) len'(3) by (cases c) (simp_all add: length_seg_bytes)
  then have front: "ld_bytes (pf_mem ?b) (pf_off ?b - ?k) ?k = take ?k ?xs"
    using len'(3) hdb(2,3) by (simp add: seg_bytes_def ld_bytes_def min_def)
  have nib: "unat ((take ?k ?xs ! 0 AND 0x0F) * 4) = ?k" using len'(1) hlen_word [of "?xs ! 0"] by (simp add: ip_hlen_def)
  have cd: "current_ip4_header (ip_data ?t) = take ?k ?xs" "current_iphdr_src (ip_data ?t) = src" "current_iphdr_dest (ip_data ?t) = dst"
      "current_netif (ip_data ?t) = Some cur"
    using f(2,3) len'(1) by (simp_all add: delivering_def)
  have l4: "4 \<le> plen ?b" using hdb(1) len'(3) by simp
  have ar: "arp_fresh (netifs inp) ?t inp src hw" using fr by (simp add: arp_fresh_def)
  have hd: "ld_bytes (pf_mem ?b) (pf_off ?b - ?k) ?k = current_ip4_header (ip_data ?t)"
      "current_ip4_header (ip_data ?t) = pre @ [ttl, 1, k0, k1] @ bytes32 src @ bytes32 dst @ opts"
      "unat ((current_ip4_header (ip_data ?t) ! 0 AND 0x0F) * 4) = ?k"
    using front f(4) nib cd(1) by simp_all
  have pk: "has_packet ?t e p (?b # ds)" "chain_bytes (?b # ds) = [8, code, c0, c1] @ rest" using t nd(2) d(4) by simp_all
  obtain j h' where i: "icmp_input netifs p inp ?t = Inr (?t\<lparr>etharp_cached_entry := j, l_heap := h',
      l_out := l_out ?t @ [(inp, eth_hdr_bytes hw (nif_hwaddr (netifs inp)) ETHTYPE_IP @ echo_answer pre src dst opts code c0 c1 rest)]\<rparr>)" "refs_ok h' (e(p := e p - 1))"
    using icmp_answers [OF pk(1) nd(1) an' l4 xs(3,2) size hd cd(4,2,3) own(2,3) pk(2) ck ar hw] by blast
  have "inet_chksum b (drop ?k (echo_answer pre src dst opts code c0 c1 rest)) = 0"
  proof -
    let ?h = "pre @ [255, 1, 0, 0] @ bytes32 dst @ bytes32 src @ opts" let ?m = "0 # code # bytes16 (echo_chksum (le16 c0 c1)) @ rest"
    have "echo_answer pre src dst opts code c0 c1 rest = ?h @ ?m @ []" "length ?h = ?k" "length ?m = length ?m"
      using xs(2) by (simp_all add: echo_answer_def)
    then have "drop ?k (echo_answer pre src dst opts code c0 c1 rest) = ?m" by (metis append_Nil2 append_eq_conv_conj)
    moreover have "inet_chksum b ?m = 0" using ck size by (intro echo_chksum_verifies [of a]) simp_all
    ultimately show ?thesis by simp
  qed
  then show ?thesis using d(1,3) i by (intro exI [of _ j] exI [of _ h']) simp
qed

section \<open>A concrete run\<close>

text \<open>A ping from 192.168.2.2 with four bytes of data and one byte of padding, in a buffer of the bridge.\<close>

definition demo_ping :: "u8 list" where
  "demo_ping = [0x45, 0, 0, 32, 0, 1, 0, 0] @ [64, 1, 0, 0] @ bytes32 0x0202A8C0 @ bytes32 0x0102A8C0 @ [] @ [8, 0, 0xF3, 0xF1] @ [0, 7, 0, 1, 1, 2, 3, 4] @ [99]"

definition demo_ping_buf :: pbuf where
  "demo_ping_buf = \<lparr>pf_mem = replicate 14 0 @ demo_ping, pf_off = 14, pf_tot_len = 33, pf_len = 33, pf_type_internal = 0, pf_flags = 2, pf_ref = 1, pf_if_idx = 0\<rparr>"

definition demo_ping_state :: stack where
  "demo_ping_state = demo_stack [] (demo_neighbour # replicate 9 wiped)\<lparr>l_heap := [Some \<lparr>pn_buf = demo_ping_buf, pn_next = None\<rparr>]\<rparr>"

lemma demo_ping_packet: "has_packet demo_ping_state one_packet 0 [demo_ping_buf]"
proof -
  have "refs_ok [Some \<lparr>pn_buf = demo_ping_buf, pn_next = None\<rparr>] one_packet"
    using refs_ok_snoc_new [OF refs_ok_Nil, of demo_ping_buf] by (simp add: demo_ping_buf_def good_src_def pbuf_get_allocsrc_def)
  then show ?thesis
    by (simp add: has_packet_def demo_ping_state_def chain_at_def deref_def node_at_def) (simp add: demo_ping_buf_def plen_def demo_ping_def)
qed

lemma demo_ping_chain: "chain_bytes [demo_ping_buf] = demo_ping" "plen demo_ping_buf = 33" "pf_off demo_ping_buf = 14" "pf_ref demo_ping_buf = 1"
  "pf_type_internal demo_ping_buf = 0"
  by (simp_all add: demo_ping_buf_def seg_bytes_def plen_def ld_bytes_def demo_ping_def)

lemma demo_ping_fields:
  "ip_hlen demo_ping = 20" "ip_total demo_ping = 32" "ip_header_ok demo_ping 33" "ld32 demo_ping 12 = 0x0202A8C0" "ld32 demo_ping 16 = 0x0102A8C0" "\<not> ip_fragment demo_ping"
  by (simp_all add: demo_ping_def ip_hlen_def ip_total_def ip_header_ok_def ip_fragment_def ld32_def bytes32_def le32_sum)

theorem icmp_echo_answered_witness:
  "\<exists>j h. ip4_input (\<lambda>_ _ _ _ _. Inr) (\<lambda>_ _. Inr) (\<lambda>_. demo_ip_nif) 0 0 demo_ping_state = Inr (0, demo_ping_state\<lparr>ip_data := ip_data_none, etharp_cached_entry := j,
     l_heap := h, l_out := [(0, eth_hdr_bytes [2, 0, 0, 0, 0, 2] (nif_hwaddr demo_ip_nif) ETHTYPE_IP @
       [0x45, 0, 0, 32, 0, 1, 0, 0, 255, 1, 0, 0, 192, 168, 2, 1, 192, 168, 2, 2, 0, 0, 0xFB, 0xF1, 0, 7, 0, 1, 1, 2, 3, 4])]\<rparr>)"
proof -
  have ck: "inet_chksum False ([8, 0, 0xF3, 0xF1] @ [0, 7, 0, 1, 1, 2, 3, 4]) = 0"
    by (subst chksum_zero) (simp_all add: ones_def)
  have an: "echo_answer [0x45, 0, 0, 32, 0, 1, 0, 0] 0x0202A8C0 0x0102A8C0 [] 0 0xF3 0xF1 [0, 7, 0, 1, 1, 2, 3, 4] =
      [0x45, 0, 0, 32, 0, 1, 0, 0, 255, 1, 0, 0, 192, 168, 2, 1, 192, 168, 2, 2, 0, 0, 0xFB, 0xF1, 0, 7, 0, 1, 1, 2, 3, 4]"
    by code_simp
  have out: "l_out demo_ping_state = []" by (simp add: demo_ping_state_def)
  have an0: "answerable demo_ping_state one_packet 0 [demo_ping_buf] 14 32" by (simp add: answerable_def demo_ping_chain demo_ping_state_def heap_ok_def)
  have split: "chain_bytes [demo_ping_buf] = [0x45, 0, 0, 32, 0, 1, 0, 0] @ [64, 1, 0, 0] @ bytes32 0x0202A8C0 @ bytes32 0x0102A8C0 @ [] @
      [8, 0, 0xF3, 0xF1] @ [0, 7, 0, 1, 1, 2, 3, 4] @ [99]"
    unfolding demo_ping_chain(1) demo_ping_def ..
  have fr: "arp_fresh demo_ip_nif demo_ping_state 0 0x0202A8C0 [2, 0, 0, 0, 0, 2]"
    using demo_addresses(2) by (simp add: arp_fresh_def demo_ping_state_def demo_sender_def)
  have wd: "ip_netif (\<lambda>_. demo_ip_nif) 0 demo_ping_state demo_ping = Some 0" "ip_wanted (\<lambda>_. demo_ip_nif) 0 demo_ping_state demo_ping"
      "\<not> ip4_addr_ismulticast 0x0102A8C0" "\<not> ip4_addr_isbroadcast_u32 0x0102A8C0 demo_ip_nif"
    using demo_ping_fields by (simp_all add: ip_wanted_def ip_netif_def ip_src_ok_def input_netif_def ip4_input_accept_def ip4_addr_ismulticast_def
      ip4_addr_isbroadcast_u32_def ip4_addr_netcmp_def ip4_addr_isany_def netif_is_up_def demo_ip_nif_def lwip_htonl_def demo_ping_state_def)
  show ?thesis
    using icmp_echo_answered [OF demo_ping_packet _ split, where inp = 0 and netifs = "\<lambda>_. demo_ip_nif" and cur = 0 and hw = "[2, 0, 0, 0, 0, 2]" and a = False
        and cb = "\<lambda>_ _ _ _ _. Inr" and tcp = "\<lambda>_ _. Inr" and b = False] an an0 fr wd demo_ip_nifs ck demo_ping_chain demo_ping_fields out
    by (simp del: chain_bytes_simps) blast
qed

end
