(* ===== verification/StackSafe.thy ===== *)
theory StackSafe
  imports IcmpProps
begin

text \<open>
  No packet makes the stack fail: whatever arrives in one buffer, reception ends without an assertion and without a read out of
  bounds, the packet is released or handed over, and the invariant of the table and of all reference counts holds again.
\<close>

section \<open>Sending a packet in one buffer\<close>

lemma arp_inv_l_heap: "arp_inv ext s \<Longrightarrow> refs_ok h (all_refs ext' (arp_table s)) \<Longrightarrow> arp_inv ext' (s\<lparr>l_heap := h\<rparr>)"
  by (simp add: arp_inv_def heap_ok_def)

lemma arp_inv_stack [simp]:
  "arp_inv ext (s\<lparr>ip_data := g\<rparr>) = arp_inv ext (s :: stack)" "arp_inv ext (s\<lparr>udp_pcbs := is\<rparr>) = arp_inv ext s" "arp_inv ext (s\<lparr>ip_id := k\<rparr>) = arp_inv ext s"
  by (simp_all add: arp_inv_def heap_ok_def)

definition alone :: "pheap \<Rightarrow> nat \<Rightarrow> pbuf \<Rightarrow> bool" where
  "alone h q b \<longleftrightarrow> node_at h q = Some \<lparr>pn_buf = b, pn_next = None\<rparr> \<and> pf_ref b = 1 \<and> pf_type_internal b AND 0x40 = 0"

lemma alone_chain: "alone h q b \<Longrightarrow> chain_at h q = Inr [b]"
  using node_at_less [of h q] by (cases "length h") (auto simp: alone_def chain_at_def deref_def)

lemma alone_packet_ok: "alone h q b \<Longrightarrow> packet_ok h q"
  using alone_chain [of h q b] by (simp add: packet_ok_def keepable_def alone_def rf_def)

lemma alone_write:
  assumes inv: "arp_inv ext s" and a: "alone (l_heap s) q b" and b: "pf_ref b' = pf_ref b" "pf_type_internal b' = pf_type_internal b" "pf_flags b' AND 2 = pf_flags b AND 2"
  shows "arp_inv ext (set_buf q \<lparr>pn_buf = b, pn_next = None\<rparr> b' s)" "alone (l_heap (set_buf q \<lparr>pn_buf = b, pn_next = None\<rparr> b' s)) q b'"
proof -
  let ?nd = "\<lparr>pn_buf = b, pn_next = None\<rparr>"
  have n: "node_at (l_heap s) q = Some ?nd" using a by (simp add: alone_def)
  have "refs_ok ((l_heap s)[q := Some (?nd\<lparr>pn_buf := b'\<rparr>)]) (all_refs ext (arp_table s))"
    by (rule refs_write [OF arp_invD(3) [OF inv] n]) (simp_all add: b)
  then show "arp_inv ext (set_buf q ?nd b' s)" using arp_inv_l_heap [OF inv] by (simp add: set_buf_def)
  show "alone (l_heap (set_buf q ?nd b' s)) q b'" using a b node_at_less [OF n] by (simp add: alone_def set_buf_def node_at_upd)
qed

lemma ip_out_keeps:
  assumes inv: "arp_inv ext s" and hw: "all_nif_ok netifs" and q: "0 < ext q" and a: "alone (l_heap s) q b"
    and m: "pf_off b + 20 \<le> length (pf_mem b)" and l: "plen b + 20 < 65536"
  shows "\<exists>r s'. ip4_output_if netifs q src dest ttl tos proto n s = Inr (r, s') \<and> arp_inv ext (s' :: stack)"
proof -
  let ?nd = "\<lparr>pn_buf = b, pn_next = None\<rparr>"
  have nd: "node_at (l_heap s) q = Some ?nd" "pf_ref b = 1" using a by (simp_all add: alone_def)
  have out: "\<exists>r s'. etharp_output netifs n q d t = Inr (r, s') \<and> arp_inv ext (s' :: stack)" if "arp_inv ext t" "alone (l_heap t) q b'" for t d b'
    using output_runs [OF that(1) hw q alone_packet_ok [OF that(2)]] .
  show ?thesis
  proof (cases dest)
    case None
    then show ?thesis
      using nd m inv out [OF inv a] by (auto simp: ip4_output_if_def ip4_output_if_src_def deref_def Let_def ld_bytes_def)
  next
    case (Some d)
    obtain r b' where b': "pbuf_add_header b 20 = Inr (r, b')" "pf_ref b' = pf_ref b" "pf_type_internal b' = pf_type_internal b" "pf_flags b' = pf_flags b"
      using add_header_total by blast
    show ?thesis
    proof (cases "r = 0")
      case False
      then show ?thesis using Some nd b'(1) inv by (simp add: ip4_output_if_def ip4_output_if_src_def deref_def Let_def)
    next
      case True
      have "unat (pf_len b + 20) = unat (pf_len b) + 20" using l by (simp add: plen_def unat_word_ariths)
      then have pl: "plen b' = plen b + 20"
        using b'(1) True by (auto simp: pbuf_add_header_def pbuf_add_header_impl_def Let_def plen_def split: if_splits)
      let ?src = "if dest \<noteq> None \<and> (src = None \<or> src = Some 0) then Some (nif_addr (netifs n)) else src"
      let ?b = "put_bytes b' 0 (ip_hdr_bytes tos (pf_tot_len b') (ip_id s) ttl proto (case ?src of None \<Rightarrow> 0 | Some a \<Rightarrow> a) d)"
      let ?s = "set_buf q ?nd ?b s"
      have w: "arp_inv ext (?s\<lparr>ip_id := ip_id ?s + 1\<rparr>)" "alone (l_heap (?s\<lparr>ip_id := ip_id ?s + 1\<rparr>)) q ?b"
        using alone_write [OF inv a, of ?b] b' by simp_all
      have "ip4_output_if netifs q src dest ttl tos proto n s = etharp_output netifs n q d (?s\<lparr>ip_id := ip_id ?s + 1\<rparr>)"
        using nd b'(1) True pl Some by (simp add: ip4_output_if_def ip4_output_if_src_def deref_def Let_def)
      then show ?thesis using out [OF w] by simp
    qed
  qed
qed

section \<open>A new buffer\<close>

lemma all_refs_end: "arp_inv ext s \<Longrightarrow> all_refs ext (arp_table s) (length (l_heap s)) = 0"
  using unreferenced_end [OF arp_invD(3)] .

lemma new_buffer:
  assumes inv: "arp_inv ext s" and b: "pf_ref b = 1" "good_src b" "pf_type_internal b AND 0x40 = 0"
  shows "arp_inv (ext(length (l_heap s) := 1)) (s\<lparr>l_heap := l_heap s @ [Some \<lparr>pn_buf = b, pn_next = None\<rparr>]\<rparr>)"
    "alone (l_heap s @ [Some \<lparr>pn_buf = b, pn_next = None\<rparr>]) (length (l_heap s)) b" "ext (length (l_heap s)) = 0"
proof -
  let ?r = "length (l_heap s)"
  have z: "ext ?r = 0" "q_refs (arp_table s) ?r = 0" using all_refs_end [OF inv] by (simp_all add: all_refs_def)
  have "all_refs (ext(?r := 1)) (arp_table s) = (all_refs ext (arp_table s))(?r := 1)" using z by (auto simp: all_refs_def fun_eq_iff)
  then show "arp_inv (ext(?r := 1)) (s\<lparr>l_heap := l_heap s @ [Some \<lparr>pn_buf = b, pn_next = None\<rparr>]\<rparr>)"
    using refs_ok_snoc_new [OF arp_invD(3) [OF inv] b(1,2)] arp_inv_l_heap [OF inv] by simp
  show "alone (l_heap s @ [Some \<lparr>pn_buf = b, pn_next = None\<rparr>]) ?r b" using b by (simp add: alone_def node_at_append)
  show "ext ?r = 0" by (rule z)
qed

lemma response_keeps:
  assumes inv: "arp_inv ext s" and hw: "all_nif_ok netifs" and nd: "node_at (l_heap s) p = Some np" and m: "pf_off (pn_buf np) + 28 \<le> length (pf_mem (pn_buf np))"
  shows "\<exists>s'. icmp_send_response netifs p type code s = Inr s' \<and> arp_inv ext s'"
proof (cases "src_heap (l_src s) 72")
  case None
  then show ?thesis using inv by (simp add: icmp_send_response_def alloc_ram_cases mem_align_size_def)
next
  case (Some mm)
  let ?r = "length (l_heap s)"
  let ?b = "pbuf_init_alloced_pbuf mm 36 36 36 PBUF_RAM 0"
  have lm: "length mm = 72" using arp_invD(4) [OF inv] Some by (simp add: heap_ok_def)
  let ?s = "s\<lparr>l_heap := l_heap s @ [Some \<lparr>pn_buf = ?b, pn_next = None\<rparr>]\<rparr>"
  have al: "alloc_ram 34 36 s = Inr (Some ?r, ?s)" using Some by (simp add: alloc_ram_cases mem_align_size_def)
  have bf: "pf_ref ?b = 1" "good_src ?b" "pf_type_internal ?b AND 0x40 = 0" "plen ?b = 36" "pf_off ?b = 36" "pf_mem ?b = mm" "pf_flags ?b = 0" "pf_type_internal ?b = 0x80"
    by (simp_all add: pbuf_init_alloced_pbuf_def good_src_def pbuf_get_allocsrc_def plen_def)
  note nb = new_buffer [OF inv bf(1-3)]
  let ?ext = "ext(?r := 1)"
  have give: "\<exists>s'. stack_free ?r t = Inr s' \<and> arp_inv ext s'" if "arp_inv ?ext t" for t :: stack
    
  proof -
    have "ext(?r := 0) = ext" using nb(3) by auto
    then show ?thesis using give_back [OF that, of ?r] by simp
  qed
  define original where "original = ld_bytes (pf_mem (pn_buf np)) (pf_off (pn_buf np)) 28"
  have lo: "length original = 28" using m by (simp add: original_def ld_bytes_def)
  let ?b1 = "put_bytes ?b 0 (icmp_response_bytes type code 0 original)"
  have l1: "length (icmp_response_bytes type code c original) = 36" for c using lo by (simp add: icmp_response_bytes_def)
  have pr: "p < ?r" using node_at_less [OF nd] .
  have np: "deref (l_heap ?s) p = Inr np" "deref (l_heap ?s) ?r = Inr \<lparr>pn_buf = ?b, pn_next = None\<rparr>"
    using nd pr by (simp_all add: deref_def node_at_append)
  have a: "alone (l_heap ?s) ?r ?b" using nb(2) by simp
  let ?src = "ld32 original 12"
  show ?thesis
  proof (cases "ip4_route netifs ?src ?s")
    case None
    have "icmp_send_response netifs p type code s = stack_free ?r (set_buf ?r \<lparr>pn_buf = ?b, pn_next = None\<rparr> ?b1 ?s)"
      using al np lo bf(4) None unfolding icmp_send_response_def by (simp add: Let_def del: deref_Inr flip: original_def)
    then show ?thesis using give [OF alone_write(1) [OF nb(1) a, of ?b1]] bf by simp
  next
    case (Some n)
    let ?b2 = "put_bytes ?b1 0 (icmp_response_bytes type code (inet_chksum (odd (pf_off ?b1)) (seg_bytes ?b1)) original)"
    let ?s2 = "set_buf ?r \<lparr>pn_buf = ?b, pn_next = None\<rparr> ?b2 ?s"
    have w: "arp_inv ?ext ?s2" "alone (l_heap ?s2) ?r ?b2" using alone_write [OF nb(1) a, of ?b2] bf by simp_all
    have "length (pf_mem ?b2) = 72" using lm l1 bf(5,6) by (simp add: put_bytes_def)
    then obtain e s3 where o: "ip4_output_if netifs ?r None (Some ?src) 255 0 1 n ?s2 = Inr (e, s3)" "arp_inv ?ext s3"
      using ip_out_keeps [OF w(1) hw _ w(2), of None "Some ?src" 255 0 1 n] bf by auto
    have "icmp_send_response netifs p type code s = stack_free ?r s3"
      using al np lo bf(4) Some o(1) unfolding icmp_send_response_def by (simp add: Let_def del: deref_Inr flip: original_def)
    then show ?thesis using give [OF o(2)] by simp
  qed
qed

section \<open>Echo requests\<close>

lemma echo_reply_keeps:
  assumes inv: "arp_inv ext s" and hw: "all_nif_ok netifs" and q: "0 < ext q" and a: "alone (l_heap s) q b"
    and m: "pf_off b + plen b \<le> length (pf_mem b)" "8 \<le> plen b" and k: "20 \<le> k" "plen b + k + 20 < 65536"
  shows "\<exists>s'. bindR (echo_reply netifs src k q n s) (stack_free q) = Inr s' \<and> arp_inv (ext(q := ext q - 1)) s'"
proof -
  let ?nd = "\<lparr>pn_buf = b, pn_next = None\<rparr>"
  have nd: "node_at (l_heap s) q = Some ?nd" using a by (simp add: alone_def)
  obtain r b1 where b1: "pbuf_add_header b k = Inr (r, b1)" "pf_ref b1 = pf_ref b" "pf_type_internal b1 = pf_type_internal b" "pf_flags b1 = pf_flags b"
    using add_header_total by blast
  have "\<exists>s'. echo_reply netifs src k q n s = Inr s' \<and> arp_inv ext s'"
  proof (cases "r = 0")
    case False
    then show ?thesis using nd b1(1) inv by (simp add: echo_reply_def deref_def)
  next
    case True
    have e: "b1 = b\<lparr>pf_off := pf_off b - k, pf_len := pf_len b + of_nat k, pf_tot_len := pf_tot_len b + of_nat k\<rparr>" "k \<le> pf_off b"
      using b1(1) True k by (auto simp: pbuf_add_header_def pbuf_add_header_impl_def Let_def split: if_splits)
    have "unat (of_nat k :: u16) = k" using k by (intro unat_of_nat_u16) simp
    then have pl: "plen b1 = plen b + k" using k by (simp add: e plen_def unat_word_ariths)
    define b2 where "b2 = put_bytes (put_bytes (put_bytes (put_bytes (put_bytes (put_bytes b1 12 (bytes32 src)) 16 (bytes32 (current_iphdr_src (ip_data s)))) k [0])
      (k + 2) (bytes16 (echo_chksum (ld16 (pf_mem b1) (pf_off b1 + k + 2))))) 8 [255]) 10 [0, 0]"
    have f: "pf_ref b2 = pf_ref b" "pf_type_internal b2 = pf_type_internal b" "pf_flags b2 = pf_flags b" "plen b2 = plen b1" "pf_off b2 = pf_off b1"
      using b1 by (simp_all add: b2_def)
    have "pf_off b1 + k + 8 \<le> length (pf_mem b1)" using m e by simp
    then have m2: "pf_off b2 + 20 \<le> length (pf_mem b2)" using k(1) by (simp add: b2_def put_bytes_def)
    note w = alone_write [OF inv a f(1,2) arg_cong [OF f(3)]]
    obtain e s2 where o: "ip4_output_if netifs q (Some src) None 255 0 1 n (set_buf q ?nd b2 s) = Inr (e, s2)" "arp_inv ext s2"
      using ip_out_keeps [OF w(1) hw q w(2) m2, of "Some src" None 255 0 1 n] f(4) pl k by auto
    have "echo_reply netifs src k q n s = Inr s2"
      using nd b1(1) True o(1) by (simp add: echo_reply_def deref_def Let_def b2_def)
    then show ?thesis using o(2) by simp
  qed
  then obtain s' where "echo_reply netifs src k q n s = Inr s'" "arp_inv ext s'" by blast
  then show ?thesis using give_back [where ext = ext and p = q and a = s'] q by simp
qed

text \<open>Where the answer is made: \<open>q\<close>, held instead of \<open>p\<close>; or nowhere.\<close>

lemma echo_buffer_keeps:
  assumes inv: "arp_inv ext s" and p: "0 < ext p" and a: "alone (l_heap s) p b" and w: "wf_chain [b]"
    and l: "8 \<le> plen b" "20 \<le> length hdr" "length hdr + plen b \<le> 65000" "length hdr \<le> 60"
  shows "echo_buffer hdr (length hdr) p s = Inr (Inl (), s) \<or>
    (\<exists>q s' ext' b'. echo_buffer hdr (length hdr) p s = Inr (Inr q, s') \<and> arp_inv ext' s' \<and> 0 < ext' q \<and> alone (l_heap s') q b' \<and>
       pf_off b' + plen b' \<le> length (pf_mem b') \<and> plen b' = plen b \<and> ext'(q := ext' q - 1) = ext(p := ext p - 1) \<and> ip_data s' = ip_data s)"
proof -
  let ?k = "length hdr" let ?nd = "\<lparr>pn_buf = b, pn_next = None\<rparr>" let ?r = "length (l_heap s)"
  have nd: "node_at (l_heap s) p = Some ?nd" using a by (simp add: alone_def)
  show ?thesis
  proof (cases "?k + 14 \<le> pf_off b \<and> pf_type_internal b AND 0x80 \<noteq> 0")
    case True
    then have r: "room b (?k + 14)" using w l by (simp add: room_def)
    obtain bb where bb: "pbuf_add_header b (?k + 14) = Inr (0, bb)" "pbuf_remove_header bb (?k + 14) = (0, b)"
      using add_remove_header [OF r] by auto
    have "echo_buffer hdr ?k p s = Inr (Inr p, s)" using nd bb set_buf_same [OF nd] by (simp add: echo_buffer_def deref_def)
    then show ?thesis using inv p a w by (intro disjI2) auto
  next
    case False
    then have buf: "echo_buffer hdr ?k p s = echo_copy hdr ?k ?nd p s"
      using nd no_room [OF False] by (simp add: echo_buffer_def deref_def)
    have pk: "has_packet s (all_refs ext (arp_table s)) p [pn_buf ?nd]"
      using arp_invD(3) [OF inv] p alone_chain [OF a] w by (simp add: has_packet_def all_refs_def)
    show ?thesis
    proof (cases "src_heap (l_src s) (16 + mem_align_size (?k + plen b))")
      case None
      then show ?thesis using buf echo_copy_none [where nd = ?nd and hdr = hdr and s = s and p = p] w l by simp
    next
      case (Some m)
      let ?e = "all_refs ext (arp_table s)" let ?ext = "(ext(?r := 1))(p := ext p - 1)"
      obtain h b' where h: "echo_copy hdr ?k ?nd p s = Inr (Inr ?r, s\<lparr>l_heap := h\<rparr>)" "has_packet (s\<lparr>l_heap := h\<rparr>) ((?e(?r := 1))(p := ?e p - 1)) ?r [b']"
          "node_at h ?r = Some \<lparr>pn_buf = b', pn_next = None\<rparr>" "pf_ref b' = 1" "plen b' = plen b" "pf_type_internal b' = 0x80"
        using echo_copy_runs [OF pk nd arp_invD(4) [OF inv] _ l(2), of m] l Some by auto
      have pr: "p \<noteq> ?r" using node_at_less [OF nd] by simp
      have z: "?e ?r = 0" using all_refs_end [OF inv] .
      then have "(?e(?r := 1))(p := ?e p - 1) = all_refs ?ext (arp_table s)" using p pr by (auto simp: all_refs_def fun_eq_iff)
      then have "arp_inv ?ext (s\<lparr>l_heap := h\<rparr>)" using h(2) arp_inv_l_heap [OF inv] by (simp add: has_packet_def)
      moreover have "alone h ?r b'" using h(3,4,6) by (simp add: alone_def)
      moreover have "pf_off b' + plen b' \<le> length (pf_mem b')" using h(2) by (simp add: has_packet_def)
      moreover have "ext ?r = 0" using z by (simp add: all_refs_def)
      then have "?ext(?r := ?ext ?r - 1) = ext(p := ext p - 1)" using pr by (auto simp: fun_eq_iff)
      ultimately show ?thesis using buf h(1,5) pr by (intro disjI2 exI [of _ ?r] exI [of _ "s\<lparr>l_heap := h\<rparr>"] exI [of _ ?ext] exI [of _ b']) simp
    qed
  qed
qed

lemma icmp_input_keeps:
  assumes inv: "arp_inv ext s" and hw: "all_nif_ok netifs" and p: "0 < ext p" and a: "alone (l_heap s) p b" and w: "wf_chain [b]"
    and l: "plen b \<le> 64000" and hdr: "20 \<le> length (current_ip4_header (ip_data s))" "length (current_ip4_header (ip_data s)) \<le> 60"
      "unat ((current_ip4_header (ip_data s) ! 0 AND 0x0F) * 4) = length (current_ip4_header (ip_data s))"
    and cur: "current_netif (ip_data s) \<noteq> None"
  shows "\<exists>s'. icmp_input netifs p n s = Inr s' \<and> arp_inv (ext(p := ext p - 1)) s'"
proof -
  let ?nd = "\<lparr>pn_buf = b, pn_next = None\<rparr>" let ?h = "current_ip4_header (ip_data s)"
  have nd: "node_at (l_heap s) p = Some ?nd" using a by (simp add: alone_def)
  note drop = give_back [OF inv p]
  obtain c where c: "current_netif (ip_data s) = Some c" using cur by auto
  show ?thesis
  proof (cases "4 \<le> plen b \<and> pf_mem b ! pf_off b = 8")
    case False
    then have "icmp_input netifs p n s = stack_free p s \<or> \<not> plen b < 4 \<and> length (pf_mem b) \<le> pf_off b"
      using nd hdr by (auto simp: icmp_input_def deref_def Let_def)
    then show ?thesis using drop w by auto
  next
    case True
    let ?bad = "ip4_addr_ismulticast (current_iphdr_dest (ip_data s)) \<or> ip4_addr_isbroadcast_u32 (current_iphdr_dest (ip_data s)) (netifs c) \<or>
      unat (pf_tot_len b) < 8 \<or> inet_chksum_pbuf [b] \<noteq> 0"
    have echo: "icmp_input netifs p n s = icmp_echo netifs p n s"
    proof -
      have "length ?h \<noteq> 0" "pf_off b < length (pf_mem b)" using hdr(1) w True by auto
      then show ?thesis using nd hdr True by (auto simp: icmp_input_def deref_def Let_def)
    qed
    have run: "icmp_echo netifs p n s = (if ?bad then stack_free p s else
        bindR (echo_buffer ?h (length ?h) p s) (\<lambda>(r, s'). case r of Inl _ \<Rightarrow> stack_free p s'
          | Inr q \<Rightarrow> bindR (echo_reply netifs (current_iphdr_dest (ip_data s)) (length ?h) q n s') (stack_free q)))"
      using alone_chain [OF a] c unfolding icmp_echo_def Let_def hdr(3) by simp
    show ?thesis
    proof (cases ?bad)
      case True
      then show ?thesis using echo run drop by simp
    next
      case False
      then have l8: "8 \<le> plen b" using w by simp
      have sz: "length ?h + plen b \<le> 65000" using hdr(2) l by simp
      from echo_buffer_keeps [OF inv p a w l8 hdr(1) sz hdr(2)] show ?thesis
      proof (elim disjE exE conjE)
        assume "echo_buffer ?h (length ?h) p s = Inr (Inl (), s)"
        then show ?thesis using echo run drop False by simp
      next
        fix q s' ext' b'
        assume q: "echo_buffer ?h (length ?h) p s = Inr (Inr q, s')" "arp_inv ext' s'" "0 < ext' q" "alone (l_heap s') q b'"
          "pf_off b' + plen b' \<le> length (pf_mem b')" "plen b' = plen b" "ext'(q := ext' q - 1) = ext(p := ext p - 1)"
        have "8 \<le> plen b'" "plen b' + length ?h + 20 < 65536" using q(6) l8 sz by simp_all
        then show ?thesis
          using echo_reply_keeps [OF q(2) hw q(3,4,5) _ hdr(1), of "current_iphdr_dest (ip_data s)" n] echo run False q(1,7) by simp
      qed
    qed
  qed
qed

section \<open>Datagrams and unknown protocols\<close>

text \<open>What the layers above promise: they take the packet over, and keep the invariant.\<close>

definition takes_over :: "(nat \<Rightarrow> stack \<Rightarrow> stack_error + stack) \<Rightarrow> bool" where
  "takes_over f \<longleftrightarrow> (\<forall>ext p c s. arp_inv ext s \<longrightarrow> 0 < ext p \<longrightarrow> chain_at (l_heap s) p = Inr c \<longrightarrow> wf_chain c \<longrightarrow>
     (\<exists>s'. f p s = Inr s' \<and> arp_inv (ext(p := ext p - 1)) s'))"

lemma takes_overD: "takes_over f \<Longrightarrow> arp_inv ext s \<Longrightarrow> 0 < ext p \<Longrightarrow> chain_at (l_heap s) p = Inr c \<Longrightarrow> wf_chain c \<Longrightarrow>
    \<exists>s'. f p s = Inr s' \<and> arp_inv (ext(p := ext p - 1)) s'"
  by (simp add: takes_over_def)

lemma takes_over_free: "takes_over stack_free"
  using give_back by (fastforce simp: takes_over_def)

text \<open>The headers are shown again and the error message is sent.\<close>

lemma unreach_keeps:
  assumes inv: "arp_inv ext s" and hw: "all_nif_ok netifs" and p: "0 < ext p" and nd: "node_at (l_heap s) p = Some nd"
    and m: "k \<le> pf_off (pn_buf nd)" "pf_off (pn_buf nd) - k + 28 \<le> length (pf_mem (pn_buf nd))" "0 < k" "unat (pf_tot_len (pn_buf nd)) + k < 65536"
  shows "\<exists>s'. bindR (bindR (lift_ref (deref (l_heap s) p)) (\<lambda>nd.
              bindR (lift_pbuf (pbuf_header_force (pn_buf nd) (int k))) (\<lambda>(failed, b). icmp_dest_unreach netifs p code (set_buf p nd b s)))) (stack_free p) = Inr s' \<and>
    arp_inv (ext(p := ext p - 1)) s'"
proof -
  let ?b = "pn_buf nd"
  have u: "unat (of_nat k :: u16) = k" using m(4) by (intro unat_of_nat_u16) simp
  then have nw: "\<not> of_nat k + pf_tot_len ?b < of_nat k" using m(4) by (simp add: word_less_nat_alt unat_word_ariths)
  obtain b where b: "pbuf_header_force ?b (int k) = Inr (0, b)" "pf_mem b = pf_mem ?b" "pf_off b = pf_off ?b - k"
      "pf_ref b = pf_ref ?b" "pf_type_internal b = pf_type_internal ?b" "pf_flags b = pf_flags ?b"
  proof (rule that [of "?b\<lparr>pf_off := pf_off ?b - k, pf_len := pf_len ?b + of_nat k, pf_tot_len := pf_tot_len ?b + of_nat k\<rparr>"])
    have "k \<noteq> 0" "\<not> 65535 < k" "\<not> pf_off ?b < k" using m by simp_all
    then show "pbuf_header_force ?b (int k) =
        Inr (0, ?b\<lparr>pf_off := pf_off ?b - k, pf_len := pf_len ?b + of_nat k, pf_tot_len := pf_tot_len ?b + of_nat k\<rparr>)"
      using nw by (simp add: pbuf_header_force_def pbuf_header_impl_def pbuf_add_header_impl_def Let_def)
  qed simp_all
  let ?s = "set_buf p nd b s"
  have "refs_ok ((l_heap s)[p := Some (nd\<lparr>pn_buf := b\<rparr>)]) (all_refs ext (arp_table s))"
    by (rule refs_write [OF arp_invD(3) [OF inv] nd]) (simp_all add: b)
  then have inv2: "arp_inv ext ?s" using arp_inv_l_heap [OF inv] by (simp add: set_buf_def)
  have n2: "node_at (l_heap ?s) p = Some (nd\<lparr>pn_buf := b\<rparr>)" using node_at_less [OF nd] by (simp add: set_buf_def node_at_upd)
  obtain s2 where s2: "icmp_send_response netifs p 3 code ?s = Inr s2" "arp_inv ext s2"
    using response_keeps [OF inv2 hw n2] m(2) b(2,3) by auto
  then show ?thesis using nd b(1) give_back [OF s2(2) p] by (simp add: icmp_dest_unreach_def deref_def)
qed

lemma udp_input_keeps:
  assumes inv: "arp_inv ext s" and hw: "all_nif_ok netifs" and p: "0 < ext p" and c: "chain_at (l_heap s) p = Inr c" "wf_chain c"
    and cur: "current_netif (ip_data s) \<noteq> None" and h: "unat (current_ip_header_tot_len (ip_data s)) = k" "k \<le> 60"
    and m: "k \<le> pf_off (hd c)" "pf_off (hd c) - k + 28 \<le> length (pf_mem (hd c))" "ptot c \<le> 65000"
    and cb: "\<And>f i addr port. takes_over (\<lambda>p. cb f i p addr port)"
  shows "\<exists>s'. udp_input cb netifs p inp s = Inr s' \<and> arp_inv (ext(p := ext p - 1)) s'"
proof -
  let ?e = "all_refs ext (arp_table s)"
  have pk: "has_packet s ?e p c" using arp_invD(3) [OF inv] p c by (simp add: has_packet_def all_refs_def)
  show ?thesis
  proof (cases "8 \<le> plen (hd c)")
    case False
    obtain nd ds where "node_at (l_heap s) p = Some nd" "c = pn_buf nd # ds" using pk by (rule has_packetE) auto
    then have "udp_input cb netifs p inp s = stack_free p s" using False by (simp add: udp_input_def deref_def Let_def)
    then show ?thesis using give_back [OF inv p] by simp
  next
    case True
    let ?s0 = "s\<lparr>udp_pcbs := udp_order netifs s inp (chain_bytes c)\<rparr>"
    obtain h d where hd: "has_packet (s\<lparr>l_heap := h\<rparr>) ?e p d" "chain_bytes d = drop 8 (chain_bytes c)"
        "pf_mem (hd d) = pf_mem (hd c)" "pf_off (hd d) = pf_off (hd c) + 8"
        "udp_input cb netifs p inp s =
          (let s1 = ?s0\<lparr>l_heap := h\<rparr>
           in case udp_block netifs s inp (chain_bytes c) of
                None \<Rightarrow> if nif_addr (netifs inp) \<noteq> current_iphdr_dest (ip_data s) then stack_free p ?s0 else udp_no_port netifs (udp_broadcast netifs s) p s1
              | Some i \<Rightarrow> (case up_recv (udp_mem s i) of None \<Rightarrow> stack_free p s1
                   | Some f \<Rightarrow> cb f i p (current_iphdr_src (ip_data s)) (udp_sport (chain_bytes c)) s1))"
      using udp_input_eq [OF pk True cur, of cb netifs inp] unfolding Let_def by blast
    let ?s1 = "?s0\<lparr>l_heap := h\<rparr>"
    have ok: "refs_ok h ?e" "chain_at h p = Inr d" "wf_chain d" using hd(1) by (simp_all add: has_packet_def)
    have i0: "arp_inv ext ?s0" using inv by simp
    have i1: "arp_inv ext ?s1" using arp_inv_l_heap [OF i0] ok(1) by simp
    note f0 = give_back [OF i0 p] and f1 = give_back [OF i1 p]
    obtain nd ds where nd: "node_at h p = Some nd" "d = pn_buf nd # ds" using hd(1) by (rule has_packetE) auto
    have np: "\<exists>s'. udp_no_port netifs bc p ?s1 = Inr s' \<and> arp_inv (ext(p := ext p - 1)) s'" for bc
    proof (cases "\<not> bc \<and> \<not> ip4_addr_ismulticast (current_iphdr_dest (ip_data ?s1))")
      case True
      have "unat (pf_tot_len (pn_buf nd)) = ptot d" using nd(2) by (simp add: ptot_def)
      moreover have "ptot d \<le> ptot c" using length_chain_bytes [OF ok(3)] length_chain_bytes [OF c(2)] hd(2) has_packet_wf(2) [OF pk] nd(2) by (simp del: chain_bytes_simps)
      ultimately have sz: "unat (pf_tot_len (pn_buf nd)) + (k + 8) < 65536" using m(3) h(2) by simp
      have "\<exists>s'. bindR (bindR (lift_ref (deref (l_heap ?s1) p)) (\<lambda>nd.
              bindR (lift_pbuf (pbuf_header_force (pn_buf nd) (int (k + 8)))) (\<lambda>(failed, b). icmp_dest_unreach netifs p 3 (set_buf p nd b ?s1)))) (stack_free p) = Inr s' \<and>
          arp_inv (ext(p := ext p - 1)) s'"
        using unreach_keeps [OF i1 hw p, of nd "k + 8" 3] nd hd(3,4) m sz by simp
      then show ?thesis using True h(1) by (simp add: udp_no_port_def)
    next
      case False
      then show ?thesis using f1 by (auto simp: udp_no_port_def)
    qed
    have up: "\<exists>s'. cb f i p addr port ?s1 = Inr s' \<and> arp_inv (ext(p := ext p - 1)) s'" for f i addr port
      using takes_overD [OF cb i1 p _ ok(3)] ok(2) by simp
    show ?thesis
      using hd(5) f0 f1 np up by (auto simp: Let_def split: option.split)
  qed
qed

section \<open>The protocols together\<close>

lemma protocol_keeps:
  assumes inv: "arp_inv ext s" and hw: "all_nif_ok netifs" and p: "0 < ext p" and a: "alone (l_heap s) p b" and w: "wf_chain [b]" "plen b \<le> 64000"
    and hdr: "length (current_ip4_header (ip_data s)) = k" "20 \<le> k" "k \<le> 60" "unat ((current_ip4_header (ip_data s) ! 0 AND 0x0F) * 4) = k"
      "unat (current_ip_header_tot_len (ip_data s)) = k"
    and cur: "current_netif (ip_data s) \<noteq> None" and m: "k \<le> pf_off b" "pf_off b - k + 28 \<le> length (pf_mem b)"
    and cb: "\<And>f i addr port. takes_over (\<lambda>p. cb f i p addr port)" and tcp: "\<And>n. takes_over (\<lambda>p. tcp p n)"
  shows "\<exists>s'. ip4_protocol cb tcp netifs proto k p c inp s = Inr s' \<and> arp_inv (ext(p := ext p - 1)) s'"
proof -
  note ch = alone_chain [OF a]
  have nd: "node_at (l_heap s) p = Some \<lparr>pn_buf = b, pn_next = None\<rparr>" using a by (simp add: alone_def)
  have tot: "unat (pf_tot_len b) = plen b" using w(1) by simp
  have udp: "\<exists>s'. udp_input cb netifs p inp s = Inr s' \<and> arp_inv (ext(p := ext p - 1)) s'"
    using udp_input_keeps [OF inv hw p ch w(1) cur hdr(5,3) _ _ _ cb] m tot w(2) by (simp add: ptot_def)
  have icmp: "\<exists>s'. icmp_input netifs p inp s = Inr s' \<and> arp_inv (ext(p := ext p - 1)) s'"
    using icmp_input_keeps [OF inv hw p a w(1,2)] hdr cur by simp
  have un: "\<exists>s'. bindR (bindR (lift_ref (deref (l_heap s) p)) (\<lambda>nd.
              bindR (lift_pbuf (pbuf_header_force (pn_buf nd) (int k))) (\<lambda>(failed, b). icmp_dest_unreach netifs p 2 (set_buf p nd b s)))) (stack_free p) = Inr s' \<and>
      arp_inv (ext(p := ext p - 1)) s'"
    using unreach_keeps [OF inv hw p nd, of k 2] m hdr(2,3) tot w(2) by simp
  show ?thesis
    using udp icmp un takes_overD [OF tcp inv p ch w(1)] give_back [OF inv p] unfolding ip4_protocol_def by (auto split: if_splits)
qed

lemma ip4_input_safe:
  assumes inv: "arp_inv ext s" and hw: "all_nif_ok netifs" and p: "0 < ext p"
    and c: "chain_at (l_heap s) p = Inr [b]" "wf_chain [b]" "pf_ref b = 1" "pf_type_internal b AND 0x40 = 0" "plen b \<le> 64000"
    and m: "pf_off b + 64 \<le> length (pf_mem b)"
    and cb: "\<forall>f i addr port. takes_over (\<lambda>p. cb f i p addr port)" and tcp: "\<forall>n. takes_over (\<lambda>p. tcp p n)"
  shows "\<exists>s'. ip4_input cb tcp netifs p inp s = Inr (ERR_OK, s') \<and> arp_inv (ext(p := ext p - 1)) s'"
proof -
  let ?e = "all_refs ext (arp_table s)" let ?xs = "chain_bytes [b]"
  have pk: "has_packet s ?e p [b]" using arp_invD(3) [OF inv] p c(1,2) by (simp add: has_packet_def all_refs_def)
  have e: "?e(p := ?e p - 1) = all_refs (ext(p := ext p - 1)) (arp_table s)" using p by (auto simp: all_refs_def fun_eq_iff)
  have dropped_ok: "\<exists>s'. Inr (ERR_OK, s\<lparr>l_heap := h\<rparr>) = Inr (ERR_OK, s') \<and> arp_inv (ext(p := ext p - 1)) s'" if "dropped s ?e p h" for h
    using that e arp_inv_l_heap [OF inv, of h "ext(p := ext p - 1)"] by (simp add: dropped_def)
  have "ip_hlen ?xs \<le> 60" using mod_less_divisor [of 16 "unat (?xs ! 0)"] by (simp add: ip_hlen_def)
  then have rl: "length (ld_bytes (pf_mem b) (pf_off b + ip_hlen ?xs + 2) 2) = 2" using m by (simp add: ld_bytes_def)
  obtain dh where dh: "dhcp_read [b] = Inr dh"
    using rl by (cases "?xs ! 9 = 17") (simp_all add: dhcp_read_def dhcp_server_packet_def Let_def)
  show ?thesis
  proof (cases "4 \<le> plen (hd [b])")
    case False
    then obtain h where "ip4_input cb tcp netifs p inp s = Inr (ERR_OK, s\<lparr>l_heap := h\<rparr>)" "dropped s ?e p h"
      using ip4_input_tiny [OF pk, of cb tcp netifs inp] m by auto
    then show ?thesis using dropped_ok by simp
  next
   case l: True
   show ?thesis
   proof (cases "ip_header_ok ?xs (plen b) \<and> choice_ok dh netifs inp s ?xs")
    case False
    obtain h g where h: "ip4_input cb tcp netifs p inp s = Inr (ERR_OK, s\<lparr>l_heap := h, ip_data := g\<rparr>)" "dropped s ?e p h"
      using ip4_input_rejects_choice [OF pk l, of netifs inp dh cb tcp] dh False by auto
    have "refs_ok h (all_refs (ext(p := ext p - 1)) (arp_table s))" using h(2) e by (simp add: dropped_def)
    then have "arp_inv (ext(p := ext p - 1)) (s\<lparr>l_heap := h\<rparr>)" using arp_inv_l_heap [OF inv] by simp
    then have "arp_inv (ext(p := ext p - 1)) ((s\<lparr>l_heap := h\<rparr>)\<lparr>ip_data := g\<rparr>)" by simp
    then show ?thesis using h(1) by auto
  next
    case True
    have good: "ip_header_ok ?xs (plen (hd [b]))" "choice_ok dh netifs inp s ?xs" using True by simp_all
    let ?k = "ip_hlen ?xs"
    obtain cur h d where d: "ip4_input cb tcp netifs p inp s =
          bindR (ip4_protocol cb tcp netifs (?xs ! 9) ?k p cur inp (s\<lparr>l_heap := h, ip_data := delivering cur inp ?xs\<rparr>)) (\<lambda>s. Inr (ERR_OK, s\<lparr>ip_data := ip_data_none\<rparr>))"
        "has_packet (s\<lparr>l_heap := h\<rparr>) ?e p d" "plen (hd d) = min (ip_total ?xs) (plen (hd [b])) - ?k"
        "pf_mem (hd d) = pf_mem (hd [b])" "pf_off (hd d) = pf_off (hd [b]) + ?k" "pf_type_internal (hd d) = pf_type_internal (hd [b])"
        "links h \<subseteq> links (l_heap s)" "length d \<le> length [b]"
      using ip4_input_delivers_choice [OF pk l dh good, where cb = cb and tcp = tcp] by blast
    let ?t = "s\<lparr>l_heap := h, ip_data := delivering cur inp ?xs\<rparr>"
    obtain nd where nd: "node_at h p = Some nd" "d = [pn_buf nd]"
      using d(2,8) by (auto elim!: has_packetE)
    have ok: "refs_ok (l_heap s) ?e" "refs_ok h ?e" "chain_at h p = Inr [pn_buf nd]" "wf_chain [pn_buf nd]"
      using pk d(2) nd(2) by (simp_all add: has_packet_def)
    have a: "alone h p (pn_buf nd)"
    proof -
      obtain n0 where "node_at (l_heap s) p = Some n0" "pn_buf n0 = b" using pk by (rule has_packetE) auto
      then have r: "rf (l_heap s) p = 1" using c(3) by (simp add: rf_def)
      moreover have "0 < ?e p" using p by (simp add: all_refs_def)
      moreover have "rf (l_heap s) p = card (preds (l_heap s) p) + ?e p" using ok(1) by (simp add: refs_ok_def rc_inv_def)
      ultimately have "?e p = 1" by simp
      then have "rf h p = 1" using still_single [OF ok(1,2) d(7)] r by simp
      moreover have "pn_next nd = None"
        using ok(3) nd(1) by (cases "length h") (auto simp: chain_at_def deref_def bindR_Inr_iff elim!: chain_loop_one)
      ultimately show ?thesis using nd d(6) c(4) unat_eq_one by (cases nd) (simp add: alone_def rf_def)
    qed
    have inv2: "arp_inv ext ?t" using arp_inv_l_heap [OF inv ok(2)] by simp
    have k60: "20 \<le> ?k" "?k \<le> 60" "?k \<le> length ?xs" using good(1) by (simp_all add: ip_header_ok_def) (simp add: ip_hlen_def)
    have cd: "length (current_ip4_header (ip_data ?t)) = ?k" "current_netif (ip_data ?t) \<noteq> None"
        "unat ((current_ip4_header (ip_data ?t) ! 0 AND 0x0F) * 4) = ?k" "unat (current_ip_header_tot_len (ip_data ?t)) = ?k"
      using k60 hlen_word [of "?xs ! 0"] unat_of_nat_u16 [of ?k] by (simp_all add: delivering_def) (simp add: ip_hlen_def)
    have "alone (l_heap ?t) p (pn_buf nd)" "plen (pn_buf nd) \<le> 64000" "?k \<le> pf_off (pn_buf nd)" "pf_off (pn_buf nd) - ?k + 28 \<le> length (pf_mem (pn_buf nd))"
      using a d(3-5) nd(2) c(5) m by simp_all
    then obtain s' where "ip4_protocol cb tcp netifs (?xs ! 9) ?k p cur inp ?t = Inr s'" "arp_inv (ext(p := ext p - 1)) s'"
      using protocol_keeps [OF inv2 hw p _ ok(4) _ cd(1) k60(1,2) cd(3,4,2), of cb tcp "?xs ! 9" cur inp] cb tcp by blast
    then show ?thesis using d(1) by simp
   qed
  qed
qed

section \<open>Frames\<close>

text \<open>
  What the interface calls for a frame (\<open>MX_LWIP_Init\<close> stores \<open>ethernet_input\<close> in it), with the layers above in place; the
  own frame types go to \<open>custom\<close>.
\<close>

definition stack_input :: "udp_callback \<Rightarrow> (nat \<Rightarrow> nat \<Rightarrow> stack \<Rightarrow> stack_error + stack) \<Rightarrow> (nat \<Rightarrow> nat \<Rightarrow> stack \<Rightarrow> stack_error + int \<times> stack) \<Rightarrow>
    (nat \<Rightarrow> netif) \<Rightarrow> nat \<Rightarrow> nat \<Rightarrow> stack \<Rightarrow> stack_error + int \<times> stack" where
  "stack_input cb tcp custom netifs =
     ethernet_input (\<lambda>p n s. bindR (ip4_input cb tcp netifs p n s) (\<lambda>(err, s). Inr s)) (etharp_input netifs) custom netifs"

text \<open>The handler of the own frame types takes the packet over or refuses it.\<close>

definition takes_or_leaves :: "(nat \<Rightarrow> stack \<Rightarrow> stack_error + int \<times> stack) \<Rightarrow> bool" where
  "takes_or_leaves f \<longleftrightarrow> (\<forall>ext p c s. arp_inv ext s \<longrightarrow> 0 < ext p \<longrightarrow> chain_at (l_heap s) p = Inr c \<longrightarrow> wf_chain c \<longrightarrow>
     (\<exists>err s'. f p s = Inr (err, s') \<and> arp_inv (if err = ERR_OK then ext(p := ext p - 1) else ext) s'))"

lemma link_flags_custom: "link_flags d f AND 2 = f AND 2"
proof -
  have "(0x10 :: u8) AND 2 = 0" "(0x08 :: u8) AND 2 = 0" by code_simp+
  then show ?thesis by (simp add: link_flags_def bit.conj_disj_distrib2)
qed

text \<open>
  C40: No frame makes the stack fail in a buffer of the size the bridge uses. A frame that arrives in one buffer whose memory
  reaches 78 bytes past the start of the frame (the bridge's buffers have 1600) is processed to the end: no assertion is
  violated, no byte outside of the buffer's memory is read, and \<open>ethernet_input\<close> returns, whatever the frame contains and however
  short it is: ARP, IP headers, UDP, echo requests, and packets for which an ICMP error is sent. Afterwards the reference to
  the packet has been given up, every reference count is exact again and the ARP table is in order. The receive callbacks,
  \<open>tcp_input\<close> and the handler of own frame types are parameters, assumed to take the packet over (the last may refuse it)
  and to keep this invariant. A buffer that ends with the frame is not enough: the destination
  port of a UDP packet for another host is looked up even where the frame has no UDP header, and a frame of 54 bytes makes
  the code read past such a buffer (\<open>ip4_input_overreads\<close>).
\<close>

theorem frame_input_safe:
  assumes inv: "arp_inv ext s" and hw: "all_nif_ok netifs" and p: "0 < ext p"
    and c: "chain_at (l_heap s) p = Inr [b]" "wf_chain [b]" "pf_ref b = 1" "pf_type_internal b AND 0x40 = 0" "plen b \<le> 64000"
    and m: "pf_off b + 78 \<le> length (pf_mem b)"
    and cb: "\<forall>f i addr port. takes_over (\<lambda>p. cb f i p addr port)" and tcp: "\<forall>n. takes_over (\<lambda>p. tcp p n)"
    and custom: "\<forall>n. takes_or_leaves (\<lambda>p. custom p n)"
  shows "\<exists>s'. stack_input cb tcp custom netifs p n s = Inr (ERR_OK, s') \<and> arp_inv (ext(p := ext p - 1)) s'"
proof -
  let ?nd = "\<lparr>pn_buf = b, pn_next = None\<rparr>"
  obtain nd where nd: "node_at (l_heap s) p = Some nd" using ext_live [OF arp_invD(3) [OF inv], of p] p by (auto simp: all_refs_def live_def)
  then have "pn_buf nd = b \<and> pn_next nd = None"
    using c(1) by (cases "length (l_heap s)") (auto simp: chain_at_def deref_def bindR_Inr_iff elim!: chain_loop_one)
  then have n0: "node_at (l_heap s) p = Some ?nd" using nd by (cases nd) simp
  have a: "alone (l_heap s) p b" using n0 c(3,4) by (simp add: alone_def)
  define hdr where "hdr = ld_bytes (pf_mem b) (pf_off b) 14"
  have lh: "length hdr = 14" using m by (simp add: hdr_def ld_bytes_def)
  define b1 where "b1 = (if pf_if_idx b = 0 then b\<lparr>pf_if_idx := of_nat (n + 1)\<rparr> else b)\<lparr>pf_flags := link_flags (take 6 hdr) (pf_flags b)\<rparr>"
  have f1: "pf_ref b1 = pf_ref b" "pf_type_internal b1 = pf_type_internal b" "pf_flags b1 AND 2 = pf_flags b AND 2" "plen b1 = plen b" "pf_mem b1 = pf_mem b"
      "pf_off b1 = pf_off b" "seg_bytes b1 = seg_bytes b" "pf_tot_len b1 = pf_tot_len b"
    by (simp_all add: b1_def plen_def seg_bytes_def link_flags_custom)
  let ?s1 = "set_buf p ?nd b1 s"
  note w1 = alone_write [OF inv a f1(1-3)]
  have wf1: "wf_chain [b1]" using c(2) f1 by simp
  have drop: "\<exists>s'. bindR (stack_free p t) (\<lambda>s. Inr (ERR_OK, s)) = Inr (ERR_OK, s') \<and> arp_inv (ext(p := ext p - 1)) s'" if "arp_inv ext t" for t :: stack
    using give_back [OF that p] by auto
  let ?ety = "le16 (hdr ! 12) (hdr ! 13)"
  have run: "stack_input cb tcp custom netifs p n s =
      (if plen b \<le> 14 then bindR (stack_free p s) (\<lambda>s. Inr (ERR_OK, s))
       else if ?ety = lwip_htons ETHTYPE_IP \<or> ?ety = lwip_htons ETHTYPE_ARP
            then if nif_flags (netifs n) AND NETIF_FLAG_ETHARP = 0 then bindR (stack_free p ?s1) (\<lambda>s. Inr (ERR_OK, s))
                 else (case strip_header p ?nd b1 ?s1 of None \<Rightarrow> bindR (stack_free p ?s1) (\<lambda>s. Inr (ERR_OK, s))
                   | Some s \<Rightarrow> bindR (if ?ety = lwip_htons ETHTYPE_IP then bindR (ip4_input cb tcp netifs p n s) (\<lambda>(err, s). Inr s) else etharp_input netifs p n s)
                       (\<lambda>s. Inr (ERR_OK, s)))
            else bindR (custom p n ?s1) (\<lambda>(err, s). if err = ERR_OK then Inr (ERR_OK, s) else bindR (stack_free p s) (\<lambda>s. Inr (ERR_OK, s))))"
  proof -
    let ?b = "if pf_if_idx b = 0 then b\<lparr>pf_if_idx := of_nat (n + 1)\<rparr> else b"
    have d: "lift_ref (deref (l_heap s) p) = Inr ?nd" using n0 by (simp add: deref_def)
    have bi: "ld_bytes (pf_mem ?b) (pf_off ?b) 14 = hdr" "pf_flags ?b = pf_flags b" by (simp_all add: hdr_def)
    show ?thesis
      unfolding stack_input_def ethernet_input_def d Let_def bindR.simps pnode.simps bi b1_def [symmetric] using lh by simp
  qed
  show ?thesis
  proof (cases "plen b \<le> 14")
    case True
    then show ?thesis using run drop [OF inv] by simp
  next
    case long: False
    have nth: "hdr ! i = chain_bytes [b] ! i" if "i < 14" for i
      using ld_nth [of i 14 "pf_off b" "pf_mem b"] chain_nth [OF c(2), of i] that long m by (simp add: hdr_def)
    show ?thesis
    proof (cases "?ety = lwip_htons ETHTYPE_IP \<or> ?ety = lwip_htons ETHTYPE_ARP")
      case False
      obtain err s' where s': "custom p n ?s1 = Inr (err, s')" "arp_inv (if err = ERR_OK then ext(p := ext p - 1) else ext) s'"
        using custom w1(1) p alone_chain [OF w1(2)] wf1 unfolding takes_or_leaves_def by blast
      then show ?thesis using run False long drop [of s'] by (cases "err = ERR_OK") simp_all
    next
      case known: True
      obtain b2 where b2: "pbuf_remove_header b1 14 = (0, b2)" "wf_chain [b2]" "pf_mem b2 = pf_mem b1" "pf_type_internal b2 = pf_type_internal b1"
          "chain_bytes [b2] = drop 14 (chain_bytes [b1])" "pf_off b2 = pf_off b1 + 14" "plen b2 = plen b1 - 14"
        using pbuf_remove_header_ok [OF wf1, of 14] long f1(4) by auto
      have m2: "pf_ref b2 = pf_ref b" "pf_flags b2 AND 2 = pf_flags b AND 2" using remove_header_more [OF b2(1)] f1 by simp_all
      let ?s2 = "set_buf p ?nd b2 s"
      have w2: "arp_inv ext ?s2" "alone (l_heap ?s2) p b2" using alone_write [OF inv a, of b2] b2(4) f1(2) m2 by simp_all
      have st: "strip_header p ?nd b1 ?s1 = Some ?s2" using b2(1) by (simp add: strip_header_def set_buf_def)
      have xs: "chain_bytes [b2] = drop 14 (chain_bytes [b])" "plen b2 = plen b - 14" "pf_off b2 + 64 \<le> length (pf_mem b2)"
        using b2(3,5-7) f1(4-7) m by simp_all
      have "\<exists>s'. etharp_input netifs p n ?s2 = Inr s' \<and> arp_inv (ext(p := ext p - 1)) s'"
        using input_runs [OF w2(1) hw p, of n] w2(2) xs(3) by (auto simp: readable_def alone_def)
      moreover have "\<exists>s'. bindR (ip4_input cb tcp netifs p n ?s2) (\<lambda>(err, s). Inr s) = Inr s' \<and> arp_inv (ext(p := ext p - 1)) s'"
      proof -
        have c2: "pf_ref b2 = 1" "pf_type_internal b2 AND 0x40 = 0" "plen b2 \<le> 64000" using m2(1) b2(4) f1(2) c(3-5) xs(2) by simp_all
        obtain s' where "ip4_input cb tcp netifs p n ?s2 = Inr (ERR_OK, s')" "arp_inv (ext(p := ext p - 1)) s'"
          using ip4_input_safe [OF w2(1) hw p alone_chain [OF w2(2)] b2(2) c2 xs(3) cb tcp, of n] by blast
        then show ?thesis by simp
      qed
      ultimately show ?thesis using run long known st drop [OF w1(1)] by (auto split: if_splits)
    qed
  qed
qed

lemma refuses: "takes_or_leaves (\<lambda>p s. Inr (1, s))"
  by (simp add: takes_or_leaves_def)

text \<open>
  A frame of 54 bytes for another host: a UDP packet whose header of 40 bytes fills it, so that the destination port is looked
  up behind the frame, in a buffer with the memory of a bridge buffer.
\<close>

definition bare_frame :: "u8 list" where
  "bare_frame = replicate 12 0 @ [8, 0] @ bare_header"

definition big_buffer :: "u8 list \<Rightarrow> pbuf" where
  "big_buffer bs = (demo_pbuf bs)\<lparr>pf_mem := replicate 16 0 @ bs @ replicate 1530 0\<rparr>"

definition in_big_buffer :: "u8 list \<Rightarrow> stack" where
  "in_big_buffer bs = (demo_stack bs (replicate 10 wiped))\<lparr>l_heap := [Some \<lparr>pn_buf = big_buffer bs, pn_next = None\<rparr>]\<rparr>"

lemma in_big_buffer_inv: "arp_inv one_packet (in_big_buffer bs)"
proof -
  let ?s = "demo_stack bs (replicate 10 wiped)" and ?nd = "\<lparr>pn_buf = demo_pbuf bs, pn_next = None\<rparr>"
  have n: "node_at (l_heap ?s) 0 = Some ?nd" by (simp add: node_at_def)
  have "refs_ok ((l_heap ?s)[0 := Some (?nd\<lparr>pn_buf := big_buffer bs\<rparr>)]) (all_refs one_packet (arp_table ?s))"
    by (rule refs_write [OF arp_invD(3) [OF demo_stack_inv] n]) (simp_all add: big_buffer_def)
  then show ?thesis using arp_inv_l_heap [OF demo_stack_inv] by (simp add: in_big_buffer_def)
qed

lemma in_big_buffer_packet:
  assumes "length bs < 65536"
  shows "chain_at (l_heap (in_big_buffer bs)) 0 = Inr [big_buffer bs]" "wf_chain [big_buffer bs]"
  using assms demo_pbuf_facts [OF assms]
  by (simp_all add: in_big_buffer_def chain_at_def deref_def node_at_def big_buffer_def demo_pbuf_def plen_def unat_of_nat_u16)

theorem frame_input_safe_witness:
  "\<exists>s'. stack_input (\<lambda>f i p addr port. stack_free p) (\<lambda>p n. stack_free p) (\<lambda>p n s. Inr (1, s)) (\<lambda>_. demo_ip_nif) 0 0
      (in_big_buffer bare_frame) = Inr (ERR_OK, s') \<and> arp_inv (\<lambda>_. 0) s'"
proof -
  let ?b = "big_buffer bare_frame"
  have l: "length bare_frame = 54" by (simp add: bare_frame_def bare_header_def)
  have g: "pf_ref ?b = 1" "pf_type_internal ?b AND 0x40 = 0" "plen ?b \<le> 64000" "pf_off ?b + 78 \<le> length (pf_mem ?b)"
    by (simp_all add: big_buffer_def demo_pbuf_def plen_def l)
  have "one_packet(0 := one_packet 0 - 1) = (\<lambda>_. 0)" by auto
  moreover have "\<forall>f i addr port. takes_over stack_free" "\<forall>n. takes_over stack_free" "\<forall>n. takes_or_leaves (\<lambda>p s. Inr (1, s))" "0 < one_packet 0"
    using takes_over_free refuses by simp_all
  ultimately show ?thesis
    using frame_input_safe [OF in_big_buffer_inv demo_ip_nifs _ in_big_buffer_packet g,
        where cb = "\<lambda>f i p addr port. stack_free p" and tcp = "\<lambda>p n. stack_free p"
        and custom = "\<lambda>p n s. Inr (1, s)" and n = 0] unfolding l by simp
qed

end
